(* ===== verification/Prelude.thy ===== *)
theory Prelude
  imports Complex_Main "HOL-Library.Word" "HOL-Library.AList"
begin

text \<open>
  What every component of the development shares: the types of the wire (bytes, 16-bit
  fields, Node buffers as byte lists), the JavaScript values the sources compute with
  (numbers that may be NaN or infinite, ASCII strings, string-keyed objects in insertion
  order), big-endian field access, and two generic interfaces: a stream parser that keeps
  its state between chunks, and a transition system with an invariant.
\<close>

section \<open>Collections of facts\<close>

named_theorems wire_simps \<open>reading back what was written to a buffer\<close>
named_theorems step_intros \<open>introduction rules of step relations\<close>

section \<open>Types\<close>

type_synonym byte = "8 word"
type_synonym u16 = "16 word"
type_synonym buffer = "byte list"

text \<open>A JavaScript object used as a dictionary: keys in insertion order.\<close>

type_synonym ('k, 'v) js_object = "('k \<times> 'v) list"

text \<open>A JavaScript number: every finite double is a rational.\<close>

datatype js_number = NaN | PosInfinity | NegInfinity | Finite rat

text \<open>\<open>Number.isFinite\<close> and \<open>Math.trunc\<close> (towards zero).\<close>

fun isFinite :: "js_number \<Rightarrow> bool" where
  "isFinite (Finite _) = True"
| "isFinite _ = False"

definition rat_trunc :: "rat \<Rightarrow> int" where
  "rat_trunc q = (if q < 0 then \<lceil>q\<rceil> else \<lfloor>q\<rfloor>)"

section \<open>Buffers\<close>

text \<open>
  \<open>Buffer.writeUInt16BE\<close> and \<open>Buffer.readUInt16BE\<close>. The value written is a 16-bit field by
  its type; a read past the end of the buffer raises, here \<open>None\<close>.
\<close>

definition writeUInt16BE :: "u16 \<Rightarrow> buffer" where
  "writeUInt16BE w = [word_of_nat (unat w div 256), word_of_nat (unat w mod 256)]"

fun readUInt16BE :: "buffer \<Rightarrow> u16 option" where
  "readUInt16BE (a # b # _) = Some (word_of_nat (256 * unat a + unat b))"
| "readUInt16BE _ = None"

text \<open>
  The \<open>ascii\<close> encoding of Node: encoding keeps the low byte of each code unit, decoding
  clears the high bit of each byte.
\<close>

definition byte_of_char :: "char \<Rightarrow> byte" where
  "byte_of_char c = word_of_nat (of_char c)"

definition char_of_byte :: "byte \<Rightarrow> char" where
  "char_of_byte b = char_of (unat b mod 128)"

definition ascii_encode :: "string \<Rightarrow> buffer" where
  "ascii_encode s = map byte_of_char s"

definition ascii_decode :: "buffer \<Rightarrow> string" where
  "ascii_decode bs = map char_of_byte bs"

text \<open>A 7-bit string without NUL: what survives a null-terminated ASCII field.\<close>

definition ascii_text :: "string \<Rightarrow> bool" where
  "ascii_text s \<longleftrightarrow> list_all (\<lambda>c. 0 < (of_char c :: nat) \<and> (of_char c :: nat) < 128) s"

lemma unat_u16_less [simp]: "unat (w :: u16) < 65536"
  using unsigned_less [of w] by simp

lemma unat_byte_less [simp]: "unat (b :: byte) < 256"
  using unsigned_less [of b] by simp

lemma unat_u16_less_trans: "65536 \<le> k \<Longrightarrow> unat (w :: u16) < k"
  by (rule less_le_trans [OF unat_u16_less])

lemma unat_u16_le: "unat (w :: u16) \<le> 65535"
  using unat_u16_less [of w] by (simp only: less_Suc_eq_le [symmetric] numeral_plus_one)

lemma unat_u16_of_nat: "n < 65536 \<Longrightarrow> unat (word_of_nat n :: u16) = n"
  by (simp add: unat_of_nat take_bit_eq_mod)

lemma unat_byte_of_nat: "n < 256 \<Longrightarrow> unat (word_of_nat n :: byte) = n"
  by (simp add: unat_of_nat take_bit_eq_mod)

lemma length_writeUInt16BE [simp]: "length (writeUInt16BE w) = 2"
  by (simp add: writeUInt16BE_def)

lemma readUInt16BE_write [simp, wire_simps]:
  "readUInt16BE (writeUInt16BE w @ xs) = Some w"
proof -
  have "unat w div 256 < 256" by (simp add: less_mult_imp_div_less)
  then have "256 * unat (word_of_nat (unat w div 256) :: byte)
      + unat (word_of_nat (unat w mod 256) :: byte) = unat w"
    by (simp add: unat_byte_of_nat)
  then show ?thesis
    by (simp add: writeUInt16BE_def del: of_nat_add of_nat_mult)
qed

lemma drop_writeUInt16BE [simp, wire_simps]: "drop 2 (writeUInt16BE w @ xs) = xs"
  by (simp add: writeUInt16BE_def)

lemma readUInt16BE_write_only [simp, wire_simps]:
  "readUInt16BE (writeUInt16BE w) = Some w" "drop 2 (writeUInt16BE w) = []"
  using readUInt16BE_write [of w "[]"] by simp_all

lemma readUInt16BE_None: "readUInt16BE bs = None \<longleftrightarrow> length bs < 2"
  by (cases bs rule: readUInt16BE.cases) auto

lemma char_of_byte_of_char: "(of_char c :: nat) < 128 \<Longrightarrow> char_of_byte (byte_of_char c) = c"
  by (simp add: char_of_byte_def byte_of_char_def unat_byte_of_nat)

lemma byte_of_char_0_iff: "byte_of_char c = 0 \<longleftrightarrow> (of_char c :: nat) = 0"
proof -
  have "unat (byte_of_char c) = of_char c"
    by (simp add: byte_of_char_def unat_byte_of_nat)
  then show ?thesis by (metis unat_eq_zero)
qed

lemma ascii_text_simps [simp]:
  "ascii_text []"
  "ascii_text (c # s) \<longleftrightarrow> 0 < (of_char c :: nat) \<and> (of_char c :: nat) < 128 \<and> ascii_text s"
  by (auto simp: ascii_text_def)

lemma ascii_encode_simps [simp]:
  "ascii_encode [] = []"
  "ascii_encode (c # s) = byte_of_char c # ascii_encode s"
  "length (ascii_encode s) = length s"
  by (simp_all add: ascii_encode_def)

lemma ascii_decode_encode [simp, wire_simps]: "ascii_text s \<Longrightarrow> ascii_decode (ascii_encode s) = s"
  by (induction s) (auto simp: ascii_decode_def char_of_byte_of_char)

lemma ascii_encode_no_nul: "ascii_text s \<Longrightarrow> 0 \<notin> set (ascii_encode s)"
  by (induction s) (auto simp: byte_of_char_0_iff dest: sym)

section \<open>Lists\<close>

lemma nth_update_if: "xs[i := y] ! j = (if i = j \<and> j < length xs then y else xs ! j)"
  by (cases "i < length xs") (auto simp: nth_list_update list_update_beyond)

lemma length_filter_update:
  "i < length xs \<Longrightarrow> length (filter P (xs[i := y])) + (if P (xs ! i) then 1 else 0)
    = length (filter P xs) + (if P y then 1 else 0)"
proof (induction xs arbitrary: i)
  case (Cons x xs)
  then show ?case by (cases i) auto
qed simp

section \<open>Stream parsers\<close>

text \<open>
  A parser fed with chunks of a stream: it keeps its state between calls and emits output.
  The provider promises that feeding nothing does nothing and that feeding two chunks in a
  row is feeding their concatenation. What follows for every client is that the way the
  transport cuts the stream into chunks cannot be observed.
\<close>

fun feed_all :: "'o \<Rightarrow> ('o \<Rightarrow> 'o \<Rightarrow> 'o) \<Rightarrow> ('s \<Rightarrow> 'a list \<Rightarrow> 's \<times> 'o)
    \<Rightarrow> 's \<Rightarrow> 'a list list \<Rightarrow> 's \<times> 'o" where
  "feed_all emp cat feed s [] = (s, emp)"
| "feed_all emp cat feed s (c # cs) =
     (let (s1, o1) = feed s c; (s2, o2) = feed_all emp cat feed s1 cs in (s2, cat o1 o2))"

locale stream_parser =
  fixes emp :: 'o
    and cat :: "'o \<Rightarrow> 'o \<Rightarrow> 'o"
    and feed :: "'s \<Rightarrow> 'a list \<Rightarrow> 's \<times> 'o"
  assumes feed_Nil: "feed s [] = (s, emp)"
    and feed_append: "feed s (xs @ ys) =
      (let (s1, o1) = feed s xs; (s2, o2) = feed s1 ys in (s2, cat o1 o2))"
begin

lemma feed_all_concat: "feed_all emp cat feed s cs = feed s (concat cs)"
  by (induction cs arbitrary: s) (simp_all add: feed_Nil feed_append)

lemma chunking_unobservable:
  "concat cs = concat ds \<Longrightarrow> feed_all emp cat feed s cs = feed_all emp cat feed s ds"
  by (simp add: feed_all_concat)

end

section \<open>Codecs\<close>

text \<open>
  An encoder and a decoder that may fail or find nothing it knows. The provider promises
  that a valid value survives; the encodings of two valid values are then different.
\<close>

locale codec =
  fixes enc :: "'a \<Rightarrow> buffer"
    and dec :: "buffer \<Rightarrow> 'e + 'a option"
    and valid :: "'a \<Rightarrow> bool"
  assumes dec_enc: "valid x \<Longrightarrow> dec (enc x) = Inr (Some x)"
begin

lemma enc_inj_on: "inj_on enc {x. valid x}"
proof (rule inj_onI)
  fix x y assume v: "x \<in> {x. valid x}" "y \<in> {x. valid x}" and eq: "enc x = enc y"
  have "dec (enc x) = Inr (Some x)" using v(1) by (intro dec_enc) simp
  moreover have "dec (enc y) = Inr (Some y)" using v(2) by (intro dec_enc) simp
  ultimately show "x = y" unfolding eq by simp
qed

end

section \<open>Transition systems with an invariant\<close>

locale invariant_system =
  fixes start :: "'s \<Rightarrow> bool"
    and step :: "'s \<Rightarrow> 's \<Rightarrow> bool"
    and inv :: "'s \<Rightarrow> bool"
  assumes inv_start: "start s \<Longrightarrow> inv s"
    and inv_step: "inv s \<Longrightarrow> step s t \<Longrightarrow> inv t"
begin

lemma inv_steps: "step\<^sup>*\<^sup>* s t \<Longrightarrow> inv s \<Longrightarrow> inv t"
  by (induction rule: rtranclp_induct) (auto intro: inv_step)

lemma inv_reachable: "start s \<Longrightarrow> step\<^sup>*\<^sup>* s t \<Longrightarrow> inv t"
  by (blast intro: inv_start inv_steps)

end

end
