(* ===== verification/Telnet_Protocol.thy ===== *)
theory Telnet_Protocol
  imports Js_Strings
begin

text \<open>
  The telnet (RFC 854) negotiator of \<open>src/src/services/telnet/telnetProtocol.ts\<close>: the parser
  state machine, the option answers with their refusal-loop guard, the NAWS and
  TERMINAL-TYPE subnegotiations and the outbound encoder. A method that pushes onto an
  output array returns the new state with the bytes it pushed.
\<close>

section \<open>Constants\<close>

definition IAC :: byte where "IAC = 255"
definition SE :: byte where "SE = 240"
definition SB :: byte where "SB = 250"
definition WILL :: byte where "WILL = 251"
definition WONT :: byte where "WONT = 252"
definition DO :: byte where "DO = 253"
definition DONT :: byte where "DONT = 254"
definition OPT_ECHO :: byte where "OPT_ECHO = 1"
definition OPT_SGA :: byte where "OPT_SGA = 3"
definition OPT_TERMINAL_TYPE :: byte where "OPT_TERMINAL_TYPE = 24"
definition OPT_NAWS :: byte where "OPT_NAWS = 31"
definition TTYPE_IS :: byte where "TTYPE_IS = 0"
definition TTYPE_SEND :: byte where "TTYPE_SEND = 1"
definition CR :: byte where "CR = 13"
definition LF :: byte where "LF = 10"
definition NUL :: byte where "NUL = 0"

definition MAX_SUBNEGOTIATION_BYTES :: nat where
  "MAX_SUBNEGOTIATION_BYTES = 128"

definition DEFAULT_TERMINAL_TYPE :: string where
  "DEFAULT_TERMINAL_TYPE = ''xterm-256color''"

definition REMOTE_ACCEPTED :: "byte \<Rightarrow> bool" where
  "REMOTE_ACCEPTED opt \<longleftrightarrow> opt = OPT_ECHO \<or> opt = OPT_SGA"

definition LOCAL_ACCEPTED :: "byte \<Rightarrow> bool" where
  "LOCAL_ACCEPTED opt \<longleftrightarrow> opt = OPT_SGA \<or> opt = OPT_TERMINAL_TYPE \<or> opt = OPT_NAWS"

lemmas telnet_consts = IAC_def SE_def SB_def WILL_def WONT_def DO_def DONT_def
  OPT_ECHO_def OPT_SGA_def OPT_TERMINAL_TYPE_def OPT_NAWS_def TTYPE_IS_def TTYPE_SEND_def
  CR_def LF_def NUL_def

section \<open>State\<close>

datatype parser_state = Data | Iac | Negotiate | SbOption | SbPayload | SbIac

record negotiator =
  terminalType :: string
  state :: parser_state
  pendingVerb :: byte
  sbOption :: byte
  sbPayload :: "byte list"
  pendingCr :: bool
  remoteState :: "byte \<rightharpoonup> bool"
  localState :: "byte \<rightharpoonup> bool"
  columns :: nat
  rows :: nat
  nawsEnabled :: bool

section \<open>Operations\<close>

fun clampDimension :: "js_number \<Rightarrow> nat" where
  "clampDimension (Finite q) = nat (max 0 (min 65535 (rat_trunc q)))"
| "clampDimension _ = 0"

definition pushEscaped :: "byte \<Rightarrow> byte list" where
  "pushEscaped b = (if b = IAC then [b, IAC] else [b])"

definition escapeIac :: "buffer \<Rightarrow> buffer" where
  "escapeIac raw = (if IAC \<notin> set raw then raw else concat (map pushEscaped raw))"

definition new_negotiator ::
  "string option \<Rightarrow> js_number option \<Rightarrow> js_number option \<Rightarrow> negotiator" where
  "new_negotiator ttype initialColumns initialRows =
     \<lparr> terminalType = (case ttype of None \<Rightarrow> DEFAULT_TERMINAL_TYPE | Some t \<Rightarrow> t),
       state = Data, pendingVerb = 0, sbOption = 0, sbPayload = [], pendingCr = False,
       remoteState = Map.empty, localState = Map.empty,
       columns = clampDimension (case initialColumns of None \<Rightarrow> Finite 80 | Some c \<Rightarrow> c),
       rows = clampDimension (case initialRows of None \<Rightarrow> Finite 24 | Some r \<Rightarrow> r),
       nawsEnabled = False \<rparr>"

definition consumeDataByte :: "byte \<Rightarrow> negotiator \<Rightarrow> negotiator \<times> byte list" where
  "consumeDataByte b n =
     (if pendingCr n then
        (let n' = n\<lparr>pendingCr := False\<rparr> in
         if b = NUL then (n', [CR])
         else if b = LF then (n', [CR, LF])
         else if b = CR then (n'\<lparr>pendingCr := True\<rparr>, [CR])
         else (n', [CR, b]))
      else if b = CR then (n\<lparr>pendingCr := True\<rparr>, [])
      else (n, [b]))"

definition appendSubnegotiationByte :: "byte \<Rightarrow> negotiator \<Rightarrow> negotiator \<times> byte list" where
  "appendSubnegotiationByte b n =
     (if MAX_SUBNEGOTIATION_BYTES \<le> length (sbPayload n)
      then consumeDataByte b (n\<lparr>sbPayload := [], state := Data\<rparr>)
      else (n\<lparr>sbPayload := sbPayload n @ [b]\<rparr>, []))"

definition pendingSubnegotiationBytes :: "negotiator \<Rightarrow> nat" where
  "pendingSubnegotiationBytes n = length (sbPayload n)"

definition hi_byte :: "nat \<Rightarrow> byte" where
  "hi_byte v = word_of_nat (v div 256 mod 256)"

definition lo_byte :: "nat \<Rightarrow> byte" where
  "lo_byte v = word_of_nat (v mod 256)"

definition nawsSubnegotiation :: "negotiator \<Rightarrow> byte list" where
  "nawsSubnegotiation n =
     [IAC, SB, OPT_NAWS]
     @ pushEscaped (hi_byte (columns n)) @ pushEscaped (lo_byte (columns n))
     @ pushEscaped (hi_byte (rows n)) @ pushEscaped (lo_byte (rows n))
     @ [IAC, SE]"

definition answerNegotiation :: "byte \<Rightarrow> byte \<Rightarrow> negotiator \<Rightarrow> negotiator \<times> byte list" where
  "answerNegotiation verb opt n =
     (if verb = WILL \<or> verb = WONT then
        (let accept = (verb = WILL \<and> REMOTE_ACCEPTED opt) in
         if remoteState n opt = Some accept then (n, [])
         else (n\<lparr>remoteState := (remoteState n)(opt \<mapsto> accept)\<rparr>,
               [IAC, if accept then DO else DONT, opt]))
      else
        (let accept = (verb = DO \<and> LOCAL_ACCEPTED opt) in
         if localState n opt = Some accept then (n, [])
         else
           (let n1 = n\<lparr>localState := (localState n)(opt \<mapsto> accept)\<rparr>;
                answer = [IAC, if accept then WILL else WONT, opt] in
            if opt = OPT_NAWS then
              (let n2 = n1\<lparr>nawsEnabled := accept\<rparr> in
               (n2, answer @ (if accept then nawsSubnegotiation n2 else [])))
            else (n1, answer))))"

definition answerSubnegotiation :: "byte \<Rightarrow> byte list \<Rightarrow> negotiator \<Rightarrow> byte list" where
  "answerSubnegotiation opt payload n =
     (if opt \<noteq> OPT_TERMINAL_TYPE \<or> take 1 payload \<noteq> [TTYPE_SEND] then []
      else [IAC, SB, OPT_TERMINAL_TYPE, TTYPE_IS]
           @ concat (map pushEscaped (ascii_encode (terminalType n))) @ [IAC, SE])"

text \<open>
  The body of the loop of \<open>receive\<close>: one byte, the data it yields and the answer it owes.
\<close>

definition receiveByte :: "negotiator \<Rightarrow> byte \<Rightarrow> negotiator \<times> byte list \<times> byte list" where
  "receiveByte n b =
     (case state n of
        Data \<Rightarrow>
          if b = IAC then (n\<lparr>state := Iac\<rparr>, [], [])
          else (let (n', d) = consumeDataByte b n in (n', d, []))
      | Iac \<Rightarrow>
          if b = IAC then (let (n', d) = consumeDataByte b (n\<lparr>state := Data\<rparr>) in (n', d, []))
          else if b = SB then (n\<lparr>state := SbOption\<rparr>, [], [])
          else if b = WILL \<or> b = WONT \<or> b = DO \<or> b = DONT
          then (n\<lparr>pendingVerb := b, state := Negotiate\<rparr>, [], [])
          else (n\<lparr>state := Data\<rparr>, [], [])
      | Negotiate \<Rightarrow>
          (let (n', r) = answerNegotiation (pendingVerb n) b n in (n'\<lparr>state := Data\<rparr>, [], r))
      | SbOption \<Rightarrow> (n\<lparr>sbOption := b, sbPayload := [], state := SbPayload\<rparr>, [], [])
      | SbPayload \<Rightarrow>
          if b = IAC then (n\<lparr>state := SbIac\<rparr>, [], [])
          else (let (n', d) = appendSubnegotiationByte b n in (n', d, []))
      | SbIac \<Rightarrow>
          if b = SE then
            (n\<lparr>sbPayload := [], state := Data\<rparr>, [],
             answerSubnegotiation (sbOption n) (sbPayload n) n)
          else if b = IAC then
            (let (n', d) = appendSubnegotiationByte IAC (n\<lparr>state := SbPayload\<rparr>) in (n', d, []))
          else (n\<lparr>sbPayload := [], state := Data\<rparr>, [], []))"

fun receive :: "negotiator \<Rightarrow> buffer \<Rightarrow> negotiator \<times> byte list \<times> byte list" where
  "receive n [] = (n, [], [])"
| "receive n (b # bs) =
     (let (n1, d1, r1) = receiveByte n b; (n2, d2, r2) = receive n1 bs
      in (n2, d1 @ d2, r1 @ r2))"

definition setWindowSize :: "js_number \<Rightarrow> js_number \<Rightarrow> negotiator \<Rightarrow> negotiator \<times> buffer" where
  "setWindowSize c r n =
     (let n' = n\<lparr>columns := clampDimension c, rows := clampDimension r\<rparr>
      in (n', if nawsEnabled n' then nawsSubnegotiation n' else []))"

subsection \<open>Outbound text\<close>

text \<open>
  \<open>encodeOutgoing\<close> works on UTF-16 code units. The first replacement turns every
  \<open>CR LF\<close> and every other \<open>CR\<close> into \<open>LF\<close>, the second turns every \<open>LF\<close> into
  \<open>CR LF\<close>; then Node's UTF-8 encoder runs, in which a lone surrogate becomes U+FFFD.
\<close>

fun normalizeNewlines :: "u16 list \<Rightarrow> u16 list" where
  "normalizeNewlines [] = []"
| "normalizeNewlines [c] = [if c = 13 then 10 else c]"
| "normalizeNewlines (c # d # cs) =
     (if c = 13 then
        (if d = 10 then 10 # normalizeNewlines cs else 10 # normalizeNewlines (d # cs))
      else c # normalizeNewlines (d # cs))"

definition expandNewlines :: "u16 list \<Rightarrow> u16 list" where
  "expandNewlines t = concat (map (\<lambda>c. if c = 10 then [13, 10] else [c]) t)"

definition high_surrogate :: "u16 \<Rightarrow> bool" where
  "high_surrogate c \<longleftrightarrow> 55296 \<le> unat c \<and> unat c < 56320"

definition low_surrogate :: "u16 \<Rightarrow> bool" where
  "low_surrogate c \<longleftrightarrow> 56320 \<le> unat c \<and> unat c < 57344"

fun code_points :: "u16 list \<Rightarrow> nat list" where
  "code_points [] = []"
| "code_points [c] = [if high_surrogate c \<or> low_surrogate c then 65533 else unat c]"
| "code_points (c # d # cs) =
     (if high_surrogate c \<and> low_surrogate d
      then (65536 + (unat c - 55296) * 1024 + (unat d - 56320)) # code_points cs
      else (if high_surrogate c \<or> low_surrogate c then 65533 else unat c) # code_points (d # cs))"

definition utf8_encode :: "u16 list \<Rightarrow> buffer" where
  "utf8_encode t = concat (map utf8_bytes (code_points t))"

definition encodeOutgoing :: "u16 list \<Rightarrow> buffer" where
  "encodeOutgoing text = escapeIac (utf8_encode (expandNewlines (normalizeNewlines text)))"

section \<open>Specification-level definitions\<close>

text \<open>
  The NVT carriage-return rules of RFC 854 as a function on a whole stream: \<open>CR NUL\<close> is a
  carriage return, \<open>CR LF\<close> a newline, a \<open>CR\<close> before anything else stands for itself.
\<close>

fun nvt_decode :: "byte list \<Rightarrow> byte list" where
  "nvt_decode [] = []"
| "nvt_decode [b] = [b]"
| "nvt_decode (b # c # bs) =
     (if b = CR then
        (if c = NUL then CR # nvt_decode bs
         else if c = LF then CR # LF # nvt_decode bs
         else CR # nvt_decode (c # bs))
      else b # nvt_decode (c # bs))"

text \<open>Every \<open>CR\<close> is directly followed by an \<open>LF\<close> and every \<open>LF\<close> directly preceded by a \<open>CR\<close>.\<close>

fun crlf_paired :: "byte list \<Rightarrow> bool" where
  "crlf_paired [] = True"
| "crlf_paired [b] = (b \<noteq> CR \<and> b \<noteq> LF)"
| "crlf_paired (b # c # bs) =
     (if b = CR then c = LF \<and> crlf_paired bs else b \<noteq> LF \<and> crlf_paired (c # bs))"

text \<open>The data path alone: \<open>consumeDataByte\<close> over a list of data bytes.\<close>

fun consumeData :: "byte list \<Rightarrow> negotiator \<Rightarrow> negotiator \<times> byte list" where
  "consumeData [] n = (n, [])"
| "consumeData (b # bs) n =
     (let (n1, d1) = consumeDataByte b n; (n2, d2) = consumeData bs n1 in (n2, d1 @ d2))"

text \<open>The invariant of every negotiator the program can have.\<close>

definition is_verb :: "byte \<Rightarrow> bool" where
  "is_verb b \<longleftrightarrow> b = WILL \<or> b = WONT \<or> b = DO \<or> b = DONT"

definition telnet_inv :: "negotiator \<Rightarrow> bool" where
  "telnet_inv n \<longleftrightarrow>
     length (sbPayload n) \<le> MAX_SUBNEGOTIATION_BYTES
     \<and> columns n \<le> 65535 \<and> rows n \<le> 65535
     \<and> (nawsEnabled n \<longleftrightarrow> localState n OPT_NAWS = Some True)
     \<and> (state n = Negotiate \<longrightarrow> is_verb (pendingVerb n))
     \<and> (\<forall>opt. remoteState n opt = Some True \<longrightarrow> REMOTE_ACCEPTED opt)
     \<and> (\<forall>opt. localState n opt = Some True \<longrightarrow> LOCAL_ACCEPTED opt)"

inductive telnet_step :: "negotiator \<Rightarrow> negotiator \<Rightarrow> bool" where
  receive_chunk: "receive n chunk = (n', data, response) \<Longrightarrow> telnet_step n n'"
| resize: "setWindowSize c r n = (n', out) \<Longrightarrow> telnet_step n n'"

definition telnet_start :: "negotiator \<Rightarrow> bool" where
  "telnet_start n \<longleftrightarrow> (\<exists>t c r. n = new_negotiator t c r)"

text \<open>
  Two negotiators on the two ends of one connection: what one answers is delivered to the
  other until an answer is empty. \<open>None\<close> when the fuel runs out first.
\<close>

fun exchange :: "nat \<Rightarrow> negotiator \<Rightarrow> negotiator \<Rightarrow> buffer \<Rightarrow> (negotiator \<times> negotiator) option" where
  "exchange 0 a b msg = None"
| "exchange (Suc fuel) a b msg =
     (let (a', data, response) = receive a msg in
      if response = [] then Some (a', b) else exchange fuel b a' response)"

definition naws_payload :: "negotiator \<Rightarrow> byte list" where
  "naws_payload n = [hi_byte (columns n), lo_byte (columns n), hi_byte (rows n), lo_byte (rows n)]"

definition dimension_of :: "byte \<Rightarrow> byte \<Rightarrow> nat" where
  "dimension_of h l = 256 * unat h + unat l"

section \<open>Parsing does not depend on the chunks\<close>

definition cat_output :: "byte list \<times> byte list \<Rightarrow> byte list \<times> byte list \<Rightarrow> byte list \<times> byte list" where
  "cat_output p q = (fst p @ fst q, snd p @ snd q)"

lemma receive_append:
  "receive n (xs @ ys) =
     (let (n1, o1) = receive n xs; (n2, o2) = receive n1 ys in (n2, cat_output o1 o2))"
  by (induction xs arbitrary: n) (simp_all add: cat_output_def split: prod.splits)

interpretation telnet_stream: stream_parser "([], [])" cat_output receive
  by unfold_locales (simp_all add: receive_append)

section \<open>The invariant\<close>

lemma clampDimension_le: "clampDimension v \<le> 65535"
  by (cases v) auto

lemma consumeDataByte_frame:
  assumes "consumeDataByte b n = (n', d)"
  shows "n' = n\<lparr>pendingCr := pendingCr n'\<rparr>"
  using assms by (auto simp: consumeDataByte_def Let_def split: if_splits)

lemma telnet_inv_pendingCr [simp]: "telnet_inv (n\<lparr>pendingCr := c\<rparr>) = telnet_inv n"
  by (simp add: telnet_inv_def)

lemma telnet_inv_consumeDataByte:
  "telnet_inv n \<Longrightarrow> consumeDataByte b n = (n', d) \<Longrightarrow> telnet_inv n'"
  by (metis consumeDataByte_frame telnet_inv_pendingCr)

lemma telnet_inv_state: "telnet_inv n \<Longrightarrow> s \<noteq> Negotiate \<Longrightarrow> telnet_inv (n\<lparr>state := s\<rparr>)"
  by (simp add: telnet_inv_def)

lemma telnet_inv_payload: "telnet_inv n \<Longrightarrow> length p \<le> MAX_SUBNEGOTIATION_BYTES \<Longrightarrow> telnet_inv (n\<lparr>sbPayload := p\<rparr>)"
  by (simp add: telnet_inv_def)

lemma telnet_inv_appendSubnegotiationByte:
  assumes "telnet_inv n" "appendSubnegotiationByte b n = (n', d)"
  shows "telnet_inv n'"
proof (cases "MAX_SUBNEGOTIATION_BYTES \<le> length (sbPayload n)")
  case True
  have "telnet_inv (n\<lparr>sbPayload := [], state := Data\<rparr>)"
    using assms(1) by (simp add: telnet_inv_def)
  with True assms(2) show ?thesis
    by (auto simp: appendSubnegotiationByte_def intro: telnet_inv_consumeDataByte)
next
  case False
  with assms show ?thesis
    by (auto simp: appendSubnegotiationByte_def intro!: telnet_inv_payload)
qed

lemma telnet_inv_remote:
  "telnet_inv n \<Longrightarrow> (acc \<Longrightarrow> REMOTE_ACCEPTED opt) \<Longrightarrow>
    telnet_inv (n\<lparr>remoteState := (remoteState n)(opt \<mapsto> acc)\<rparr>)"
  by (simp add: telnet_inv_def)

lemma telnet_inv_local:
  "telnet_inv n \<Longrightarrow> (acc \<Longrightarrow> LOCAL_ACCEPTED opt) \<Longrightarrow> opt \<noteq> OPT_NAWS \<Longrightarrow>
    telnet_inv (n\<lparr>localState := (localState n)(opt \<mapsto> acc)\<rparr>)"
  by (simp add: telnet_inv_def)

lemma telnet_inv_naws:
  "telnet_inv n \<Longrightarrow>
    telnet_inv (n\<lparr>localState := (localState n)(OPT_NAWS \<mapsto> acc), nawsEnabled := acc\<rparr>)"
proof -
  have "LOCAL_ACCEPTED OPT_NAWS" by (simp add: LOCAL_ACCEPTED_def)
  then show "telnet_inv n \<Longrightarrow> ?thesis" by (simp add: telnet_inv_def)
qed

lemma telnet_inv_answerNegotiation:
  assumes "telnet_inv n" "answerNegotiation verb opt n = (n', r)"
  shows "telnet_inv n'"
proof (cases "verb = WILL \<or> verb = WONT")
  case True
  with assms show ?thesis
    by (auto simp: answerNegotiation_def Let_def simp del: fun_upd_apply
        intro!: telnet_inv_remote split: if_split_asm)
next
  case False
  with assms show ?thesis
    by (cases "opt = OPT_NAWS")
       (auto simp: answerNegotiation_def Let_def simp del: fun_upd_apply
        intro!: telnet_inv_naws telnet_inv_local split: if_split_asm)
qed

lemma telnet_inv_receiveByte:
  assumes "telnet_inv n" "receiveByte n b = (n', d, r)"
  shows "telnet_inv n'"
proof (cases "state n")
  case Data
  with assms show ?thesis
    by (auto simp: receiveByte_def telnet_inv_state intro: telnet_inv_consumeDataByte split: if_splits prod.splits)
next
  case Iac
  with assms show ?thesis
    by (auto simp: receiveByte_def telnet_inv_state intro: telnet_inv_consumeDataByte[OF telnet_inv_state]
        split: if_splits prod.splits) (auto simp: telnet_inv_def is_verb_def)
next
  case Negotiate
  with assms show ?thesis
    by (auto simp: receiveByte_def intro!: telnet_inv_state intro: telnet_inv_answerNegotiation split: prod.splits)
next
  case SbOption
  with assms show ?thesis by (auto simp: receiveByte_def telnet_inv_def)
next
  case SbPayload
  with assms show ?thesis
    by (auto simp: receiveByte_def telnet_inv_state intro: telnet_inv_appendSubnegotiationByte split: if_splits prod.splits)
next
  case SbIac
  with assms show ?thesis
    by (auto simp: receiveByte_def telnet_inv_state telnet_inv_payload
       intro: telnet_inv_appendSubnegotiationByte[OF telnet_inv_state] intro!: telnet_inv_state telnet_inv_payload split: if_splits prod.splits)
qed

lemma telnet_inv_receive: "telnet_inv n \<Longrightarrow> receive n bs = (n', d, r) \<Longrightarrow> telnet_inv n'"
  by (induction bs arbitrary: n d r) (auto split: prod.splits dest: telnet_inv_receiveByte)

lemma telnet_inv_new: "telnet_inv (new_negotiator t c r)"
  by (simp add: telnet_inv_def new_negotiator_def clampDimension_le)

lemma telnet_inv_step: "telnet_inv n \<Longrightarrow> telnet_step n n' \<Longrightarrow> telnet_inv n'"
  by (elim telnet_step.cases)
     (auto simp: setWindowSize_def Let_def telnet_inv_def clampDimension_le dest: telnet_inv_receive[rotated])

interpretation telnet_machine: invariant_system telnet_start telnet_step telnet_inv
  by unfold_locales (auto simp: telnet_start_def telnet_inv_new intro: telnet_inv_step)
text \<open>
  In every state a negotiator can reach by receiving bytes and being resized, at most
  128 bytes of subnegotiation payload are held, the window dimensions fit their 16-bit
  fields, and NAWS reports are enabled exactly while the last answer to NAWS was \<open>WILL\<close>.
\<close>

theorem subnegotiation_bounded:
  assumes "telnet_start n0" and "telnet_step\<^sup>*\<^sup>* n0 n"
  shows "pendingSubnegotiationBytes n \<le> 128 \<and> columns n \<le> 65535 \<and> rows n \<le> 65535
    \<and> (nawsEnabled n \<longleftrightarrow> localState n OPT_NAWS = Some True)"
  using telnet_machine.inv_reachable [OF assms]
  by (simp add: telnet_inv_def pendingSubnegotiationBytes_def MAX_SUBNEGOTIATION_BYTES_def)

theorem subnegotiation_bounded_witness:
  "\<exists>n. telnet_start (new_negotiator None None None)
     \<and> telnet_step\<^sup>*\<^sup>* (new_negotiator None None None) n
     \<and> sbPayload n = [7] \<and> pendingSubnegotiationBytes n \<le> 128"
proof -
  let ?ini = "new_negotiator None None None"
  let ?fin = "fst (receive ?ini [255, 250, 24, 7])"
  have start: "telnet_start ?ini" by (auto simp: telnet_start_def)
  have "telnet_step ?ini ?fin"
    by (rule telnet_step.receive_chunk [of _ "[255, 250, 24, 7]" _ "fst (snd (receive ?ini [255, 250, 24, 7]))" "snd (snd (receive ?ini [255, 250, 24, 7]))"]) simp
  then have steps: "telnet_step\<^sup>*\<^sup>* ?ini ?fin" by simp
  have "sbPayload ?fin = [7]"
    by (simp add: receiveByte_def new_negotiator_def telnet_consts appendSubnegotiationByte_def MAX_SUBNEGOTIATION_BYTES_def)
  with start steps subnegotiation_bounded [OF start steps] show ?thesis by blast
qed

section \<open>The data path\<close>

lemma consumeData_eq_nvt:
  "(let (n', d) = consumeData bs n
    in d @ (if pendingCr n' then [CR] else []))
   = nvt_decode ((if pendingCr n then [CR] else []) @ bs)"
proof (induction bs arbitrary: n)
  case Nil
  show ?case by (simp add: Let_def)
next
  case (Cons b bs)
  have ne: "CR \<noteq> NUL" "CR \<noteq> LF" "LF \<noteq> NUL" by (simp_all add: telnet_consts)
  have nd: "nvt_decode (x # bs) = x # nvt_decode bs" if "x \<noteq> CR" for x using that by (cases bs) simp_all
  from Cons[of "n\<lparr>pendingCr := False\<rparr>"] Cons[of "n\<lparr>pendingCr := True\<rparr>"]  Cons[of n] ne 
  show ?case
    by (auto simp: consumeDataByte_def Let_def nd split: prod.splits if_splits)
qed

lemma consumeData_frame:
  "consumeData bs n = (n', d) \<Longrightarrow> n' = n\<lparr>pendingCr := pendingCr n'\<rparr>"
proof (induction bs arbitrary: n n' d)
  case Nil
  then show ?case by simp
next
  case (Cons b bs)
  then obtain n1 d1 d2 where 1: "consumeDataByte b n = (n1, d1)" "consumeData bs n1 = (n', d2)"
    by (auto split: prod.splits)
  from Cons.IH[OF 1(2)] consumeDataByte_frame[OF 1(1)] show ?case
    by (metis negotiator.update_convs(6) negotiator.select_convs(6) negotiator.surjective negotiator.fold_congs(6))
qed

lemma consumeDataByte_state:
  "consumeDataByte b n = (n', d) \<Longrightarrow> state n' = state n"
  by (auto simp: consumeDataByte_def Let_def split: if_splits)

lemma state_same: "state n = s \<Longrightarrow> n\<lparr>state := s\<rparr> = n"
  by (cases n) simp

lemma receive_pushEscaped:
  assumes "state n = Data"
  shows "receive n (pushEscaped b @ bs) =
    (let (n1, d1) = consumeDataByte b n; (n2, d2, r2) = receive n1 bs in (n2, d1 @ d2, r2))"
  using assms
  by (simp add: pushEscaped_def receiveByte_def state_same split: prod.splits)

lemma receive_escaped:
  assumes "state n = Data"
  shows "receive n (concat (map pushEscaped raw)) = (let (n', d) = consumeData raw n in (n', d, []))"
  using assms
proof (induction raw arbitrary: n)
  case (Cons b raw)
  then show ?case
    by (auto simp: receive_pushEscaped dest: consumeDataByte_state split: prod.splits)
qed simp

lemma escapeIac_eq: "escapeIac raw = concat (map pushEscaped raw)"
  unfolding escapeIac_def by (induction raw) (auto simp: pushEscaped_def)

lemma receive_escapeIac_aux:
  assumes "state n = Data" and "\<not> pendingCr n"
  shows "\<exists>c d. receive n (escapeIac raw) = (n\<lparr>pendingCr := c\<rparr>, d, [])
    \<and> d @ (if c then [CR] else []) = nvt_decode raw"
proof -
  obtain n' d where c: "consumeData raw n = (n', d)" by fastforce
  from consumeData_eq_nvt [of raw n] c assms(2)
  have "d @ (if pendingCr n' then [CR] else []) = nvt_decode raw" by simp
  moreover from consumeData_frame [OF c] c assms(1)
  have "receive n (escapeIac raw) = (n\<lparr>pendingCr := pendingCr n'\<rparr>, d, [])"
    by (simp add: escapeIac_eq receive_escaped)
  ultimately show ?thesis by blast
qed

text \<open>
  Bytes escaped by \<open>escapeIac\<close> reach the data output of a receiving parser as the NVT
  decoding of the raw bytes (the last \<open>CR\<close> still held, if they end in one), with no answer
  owed and nothing else in the parser changed.
\<close>

theorem receive_escapeIac:
  assumes "state n = Data" and "\<not> pendingCr n"
  shows "\<exists>c d. receive n (escapeIac raw) = (n\<lparr>pendingCr := c\<rparr>, d, [])
    \<and> d @ (if c then [CR] else []) = nvt_decode raw"
  by (rule receive_escapeIac_aux [OF assms])

theorem receive_escapeIac_witness:
  "\<exists>c d. receive (new_negotiator None None None) (escapeIac [255, 13, 0, 65, 13])
       = ((new_negotiator None None None)\<lparr>pendingCr := c\<rparr>, d, [])
     \<and> d @ (if c then [CR] else []) = [255, 13, 65, 13]"
proof -
  have "nvt_decode [255, 13, 0, 65, 13] = [255, 13, 65, 13]"
    by (simp add: telnet_consts)
  then show ?thesis
    using receive_escapeIac [of "new_negotiator None None None" "[255, 13, 0, 65, 13]"]
    by (simp add: new_negotiator_def)
qed

section \<open>Outbound text\<close>

lemma utf8_bytes_multibyte:
  assumes "128 \<le> cp" and "cp < 1114112" and "b \<in> set (utf8_bytes cp)"
  shows "128 \<le> unat b \<and> unat b < 255"
proof -
  from assms(2) have lead: "cp div 262144 < 5" by auto
  have "\<exists>ks. utf8_bytes cp = map (\<lambda>k. word_of_nat (128 + k)) ks \<and> (\<forall>k\<in>set ks. k < 127)"
  proof -
    consider "cp < 2048" | "2048 \<le> cp" "cp < 65536" | "65536 \<le> cp" by linarith
    then show ?thesis
    proof cases
      case 1
      with assms(1) show ?thesis
        by (intro exI [of _ "[64 + cp div 64, cp mod 64]"]) (auto simp: utf8_bytes_def)
    next
      case 2
      then show ?thesis
        by (intro exI [of _ "[96 + cp div 4096, cp div 64 mod 64, cp mod 64]"])
           (auto simp: utf8_bytes_def)
    next
      case 3
      with lead show ?thesis
        by (intro exI [of _ "[112 + cp div 262144, cp div 4096 mod 64, cp div 64 mod 64, cp mod 64]"])
           (auto simp: utf8_bytes_def)
    qed
  qed
  then obtain k where "b = word_of_nat (128 + k)" "k < 127" using assms(3) by auto
  then have "unat b = 128 + k" using unat_byte_of_nat [of "128 + k"] by simp
  with \<open>k < 127\<close> show ?thesis by simp
qed

lemma utf8_bytes_single: "cp < 128 \<Longrightarrow> utf8_bytes cp = [word_of_nat cp]"
  by (simp add: utf8_bytes_def)

lemma utf8_bytes_no_iac:
  assumes "cp < 1114112"
  shows "IAC \<notin> set (utf8_bytes cp)"
proof (cases "cp < 128")
  case True
  have "unat (word_of_nat cp :: byte) \<noteq> unat IAC" using True by (simp add: unat_byte_of_nat IAC_def)
  with True show ?thesis by (auto simp: utf8_bytes_single)
next
  case False
  with assms show ?thesis using utf8_bytes_multibyte [of cp IAC] by (auto simp: IAC_def)
qed

lemma utf8_bytes_plain:
  assumes "cp \<noteq> 13" "cp \<noteq> 10" "cp < 1114112" and b: "b \<in> set (utf8_bytes cp)"
  shows "b \<noteq> CR \<and> b \<noteq> LF"
proof (cases "cp < 128")
  case True
  with b have "unat b = cp" by (simp add: utf8_bytes_single unat_byte_of_nat)
  with assms(1,2) show ?thesis by (auto simp: CR_def LF_def)
next
  case False
  with assms(3) b show ?thesis using utf8_bytes_multibyte [of cp b] by (auto simp: CR_def LF_def)
qed

lemma code_points_bound: "cp \<in> set (code_points t) \<Longrightarrow> cp < 1114112"
proof (induction t rule: code_points.induct)
  case (3 c d cs)
  then show ?case
    by (auto simp: high_surrogate_def low_surrogate_def unat_u16_less_trans split: if_splits)
qed (auto simp: unat_u16_less_trans split: if_splits)

lemma utf8_encode_no_iac: "IAC \<notin> set (utf8_encode t)"
  using utf8_bytes_no_iac code_points_bound by (fastforce simp: utf8_encode_def)

lemma code_points_Cons:
  "\<not> high_surrogate c \<Longrightarrow>
    code_points (c # cs) = (if low_surrogate c then 65533 else unat c) # code_points cs"
  by (cases cs) simp_all

lemma code_points_lone:
  "high_surrogate c \<Longrightarrow> (\<And>d ds. cs = d # ds \<Longrightarrow> \<not> low_surrogate d) \<Longrightarrow>
    code_points (c # cs) = 65533 # code_points cs"
  by (cases cs) auto

lemma utf8_encode_simps:
  "utf8_encode [] = []"
  "\<not> high_surrogate c \<Longrightarrow> utf8_encode (c # cs) =
     utf8_bytes (if low_surrogate c then 65533 else unat c) @ utf8_encode cs"
  by (simp_all add: utf8_encode_def code_points_Cons)

lemma crlf_paired_append:
  "(\<And>b. b \<in> set xs \<Longrightarrow> b \<noteq> CR \<and> b \<noteq> LF) \<Longrightarrow> crlf_paired (xs @ ys) = crlf_paired ys"
proof (induction xs)
  case (Cons x xs)
  then show ?case by (cases "xs @ ys") auto
qed simp

lemma expandNewlines_simps [simp]:
  "expandNewlines [] = []"
  "expandNewlines (c # cs) = (if c = 10 then 13 # 10 # expandNewlines cs else c # expandNewlines cs)"
  by (simp_all add: expandNewlines_def)

lemma newline_not_surrogate [simp]:
  "\<not> high_surrogate 13" "\<not> high_surrogate 10" "\<not> low_surrogate 13" "\<not> low_surrogate 10"
  by (simp_all add: high_surrogate_def low_surrogate_def)

lemma normalizeNewlines_no_cr: "13 \<notin> set (normalizeNewlines t)"
  by (induction t rule: normalizeNewlines.induct) auto

lemma crlf_paired_plain_unit:
  fixes c :: u16
  assumes "c \<noteq> 13" "c \<noteq> 10"
  shows "crlf_paired (utf8_bytes (if P then 65533 else unat c) @ ys) = crlf_paired ys"
proof (rule crlf_paired_append)
  let ?cp = "if P then 65533 else unat c"
  have "?cp \<noteq> 13" "?cp \<noteq> 10"
    using assms word_unat_eq_iff [of c 13] word_unat_eq_iff [of c 10] by simp_all
  moreover have "?cp < 1114112" by (simp add: unat_u16_less_trans)
  ultimately show "b \<in> set (utf8_bytes ?cp) \<Longrightarrow> b \<noteq> CR \<and> b \<noteq> LF" for b
    by (rule utf8_bytes_plain)
qed

lemma crlf_paired_newline: "crlf_paired (utf8_encode (13 # 10 # t)) = crlf_paired (utf8_encode t)"
  by (simp add: utf8_encode_simps utf8_bytes_single CR_def LF_def)

lemma utf8_encode_crlf: "13 \<notin> set t \<Longrightarrow> crlf_paired (utf8_encode (expandNewlines t))"
proof (induction t rule: code_points.induct)
  case 1
  then show ?case by (simp add: utf8_encode_def)
next
  case (2 c)
  then show ?case
    using crlf_paired_newline [of "[]"] crlf_paired_plain_unit [of c "high_surrogate c \<or> low_surrogate c" "[]"]
    by (auto simp: utf8_encode_def)
next
  case (3 c d cs)
  consider "c = 10" | "c \<noteq> 10" "\<not> high_surrogate c" | "high_surrogate c" "low_surrogate d"
    | "high_surrogate c" "\<not> low_surrogate d" by blast
  then show ?case
  proof cases
    case 1
    with 3 show ?thesis
      using crlf_paired_newline [of "expandNewlines (d # cs)"] by (simp del: expandNewlines_simps(2) add: expandNewlines_simps(2) [of 10 "d # cs"])
  next
    case 2
    with 3 show ?thesis
      using crlf_paired_plain_unit [of c "low_surrogate c" "utf8_encode (expandNewlines (d # cs))"]
      by (simp add: utf8_encode_simps(2)[of c])
  next
    case 3
    let ?cp = "65536 + (unat c - 55296) * 1024 + (unat d - 56320)"
    have "?cp < 1114112" using 3 unfolding high_surrogate_def low_surrogate_def by arith
    moreover have "?cp \<noteq> 13" "?cp \<noteq> 10" by simp_all
    ultimately have "\<And>b. b \<in> set (utf8_bytes ?cp) \<Longrightarrow> b \<noteq> CR \<and> b \<noteq> LF"
      by (intro utf8_bytes_plain)
    then have "crlf_paired (utf8_bytes ?cp @ utf8_encode (expandNewlines cs))"
      using "3.IH"(1) 3 "3.prems" crlf_paired_append [of "utf8_bytes ?cp"] by simp
    moreover have "c \<noteq> 10" "d \<noteq> 10" using 3 newline_not_surrogate by auto
    ultimately show ?thesis using 3 by (simp add: utf8_encode_def)
  next
    case 4
    have "c \<noteq> 10" using 4 newline_not_surrogate by auto
    moreover have "code_points (c # expandNewlines (d # cs)) = 65533 # code_points (expandNewlines (d # cs))"
      using 4 by (intro code_points_lone) (auto split: if_splits)
    moreover have "crlf_paired (utf8_bytes 65533 @ utf8_encode (expandNewlines (d # cs)))"
      using "3.IH"(2) 4 "3.prems" crlf_paired_plain_unit [of 0 True] by simp
    ultimately show ?thesis by (simp add: utf8_encode_def del: expandNewlines_simps(2)[of d])
  qed
qed

lemma nvt_decode_crlf: "crlf_paired bs \<Longrightarrow> nvt_decode bs = bs"
  by (induction bs rule: nvt_decode.induct) (auto simp: telnet_consts split: if_splits)

lemma crlf_paired_last: "crlf_paired (bs @ [CR]) \<Longrightarrow> False"
proof (induction bs rule: crlf_paired.induct)
  case (2 b) then show ?case by (simp add: telnet_consts split: if_splits)
qed (auto simp: telnet_consts split: if_splits)

lemma encodeOutgoing_eq:
  "encodeOutgoing t = utf8_encode (expandNewlines (normalizeNewlines t))"
  by (simp add: encodeOutgoing_def escapeIac_def utf8_encode_no_iac)

text \<open>
  What \<open>encodeOutgoing\<close> sends, for any UTF-16 text with or without lone surrogates,
  holds no \<open>IAC\<close> byte (so the escape it applies never fires) and has every \<open>CR\<close> and
  \<open>LF\<close> paired as the NVT newline \<open>CR LF\<close>.
\<close>

theorem encodeOutgoing_safe:
  "IAC \<notin> set (encodeOutgoing t) \<and> crlf_paired (encodeOutgoing t)"
  by (simp add: encodeOutgoing_eq utf8_encode_no_iac utf8_encode_crlf normalizeNewlines_no_cr)

text \<open>
  A peer that runs the same parser and is in its data state reads back exactly the
  UTF-8 bytes of the text with normalised newlines, owes no answer, and is left unchanged.
\<close>

theorem outgoing_round_trip:
  assumes "state n = Data" and "\<not> pendingCr n"
  shows "receive n (encodeOutgoing t) = (n, utf8_encode (expandNewlines (normalizeNewlines t)), [])"
proof -
  let ?bs = "utf8_encode (expandNewlines (normalizeNewlines t))"
  have crlf: "crlf_paired ?bs" by (simp add: utf8_encode_crlf normalizeNewlines_no_cr)
  obtain c d where r: "receive n (encodeOutgoing t) = (n\<lparr>pendingCr := c\<rparr>, d, [])"
    and d: "d @ (if c then [CR] else []) = ?bs"
    using receive_escapeIac_aux [OF assms, of ?bs] nvt_decode_crlf [OF crlf]
    by (auto simp: encodeOutgoing_def)
  have "\<not> c" using d crlf crlf_paired_last [of d] by auto
  moreover have "n\<lparr>pendingCr := False\<rparr> = n" using assms(2) by (cases n) simp
  ultimately show ?thesis using r d by simp
qed
theorem outgoing_round_trip_witness:
  "receive (new_negotiator None None None) (encodeOutgoing [65, 13, 233])
     = (new_negotiator None None None, [65, 13, 10, 195, 169], [])"
proof -
  have "utf8_encode (expandNewlines (normalizeNewlines [65, 13, 233])) = [65, 13, 10, 195, 169]"
    by (simp add: utf8_encode_def high_surrogate_def low_surrogate_def utf8_bytes_def)
  then show ?thesis
    using outgoing_round_trip [of "new_negotiator None None None" "[65, 13, 233]"]
    by (simp add: new_negotiator_def)
qed

section \<open>Window size\<close>

lemma telnet_distinct [simp]:
  "IAC \<noteq> SE" "IAC \<noteq> SB" "SE \<noteq> IAC" "SB \<noteq> IAC"
  "WILL \<noteq> WONT" "WILL \<noteq> DO" "WILL \<noteq> DONT" "WONT \<noteq> DO" "WONT \<noteq> DONT" "DO \<noteq> DONT"
  "WONT \<noteq> WILL" "DO \<noteq> WILL" "DONT \<noteq> WILL" "DO \<noteq> WONT" "DONT \<noteq> WONT" "DONT \<noteq> DO"
  by (simp_all add: telnet_consts)

lemma receive_append_eq:
  "receive n xs = (n1, d1, r1) \<Longrightarrow> receive n1 ys = (n2, d2, r2) \<Longrightarrow>
    receive n (xs @ ys) = (n2, d1 @ d2, r1 @ r2)"
  by (simp add: receive_append cat_output_def)

lemma receive_sb_payload:
  assumes "state n = SbPayload" and "length (sbPayload n) < MAX_SUBNEGOTIATION_BYTES"
  shows "receive n (pushEscaped b) = (n\<lparr>sbPayload := sbPayload n @ [b]\<rparr>, [], [])"
  using assms
  by (auto simp: pushEscaped_def receiveByte_def appendSubnegotiationByte_def state_same)

lemma receive_sb_payloads:
  assumes "state n = SbPayload" and "length (sbPayload n) + length bs \<le> MAX_SUBNEGOTIATION_BYTES"
  shows "receive n (concat (map pushEscaped bs)) = (n\<lparr>sbPayload := sbPayload n @ bs\<rparr>, [], [])"
  using assms
proof (induction bs arbitrary: n)
  case Nil
  then show ?case by simp
next
  case (Cons b bs)
  let ?n = "n\<lparr>sbPayload := sbPayload n @ [b]\<rparr>"
  have "receive n (pushEscaped b) = (?n, [], [])"
    using Cons.prems by (simp add: receive_sb_payload)
  moreover have "receive ?n (concat (map pushEscaped bs)) = (?n\<lparr>sbPayload := sbPayload ?n @ bs\<rparr>, [], [])"
    using Cons.prems by (intro Cons.IH) simp_all
  ultimately show ?case using receive_append_eq by fastforce
qed

lemma naws_frame:
  "nawsSubnegotiation n = [IAC, SB, OPT_NAWS] @ concat (map pushEscaped (naws_payload n)) @ [IAC, SE]"
  by (simp add: nawsSubnegotiation_def naws_payload_def)

lemma receive_naws_payload:
  assumes "state p = Data"
  shows "receive p ([IAC, SB, OPT_NAWS] @ concat (map pushEscaped (naws_payload n)))
    = (p\<lparr>state := SbPayload, sbOption := OPT_NAWS, sbPayload := naws_payload n\<rparr>, [], [])"
proof -
  let ?q = "p\<lparr>sbOption := OPT_NAWS, sbPayload := [], state := SbPayload\<rparr>"
  have "receive p [IAC, SB, OPT_NAWS] = (?q, [], [])"
    using assms by (simp add: receiveByte_def telnet_consts)
  moreover have "receive ?q (concat (map pushEscaped (naws_payload n)))
    = (?q\<lparr>sbPayload := [] @ naws_payload n\<rparr>, [], [])"
    using receive_sb_payloads [of ?q "naws_payload n"]
    by (simp add: naws_payload_def MAX_SUBNEGOTIATION_BYTES_def)
  ultimately show ?thesis using receive_append_eq by fastforce
qed

lemma dimension_of_bytes: "v \<le> 65535 \<Longrightarrow> dimension_of (hi_byte v) (lo_byte v) = v"
  by (simp add: dimension_of_def hi_byte_def lo_byte_def unat_byte_of_nat)

text \<open>
  A NAWS report reaches a receiving parser as one subnegotiation for option NAWS whose
  four payload bytes are the two dimensions, also when a byte of them is 255.
\<close>

theorem naws_round_trip:
  assumes "telnet_inv n" and "state p = Data"
  shows "\<exists>p'. receive p (butlast (nawsSubnegotiation n)) = (p', [], [])
    \<and> state p' = SbIac \<and> sbOption p' = OPT_NAWS \<and> length (sbPayload p') = 4
    \<and> dimension_of (sbPayload p' ! 0) (sbPayload p' ! 1) = columns n
    \<and> dimension_of (sbPayload p' ! 2) (sbPayload p' ! 3) = rows n"
proof -
  let ?q = "p\<lparr>state := SbPayload, sbOption := OPT_NAWS, sbPayload := naws_payload n\<rparr>"
  have "receive ?q [IAC] = (?q\<lparr>state := SbIac\<rparr>, [], [])" by (simp add: receiveByte_def)
  then have "receive p (butlast (nawsSubnegotiation n)) = (?q\<lparr>state := SbIac\<rparr>, [], [])"
    using receive_append_eq [OF receive_naws_payload [OF assms(2)]]
    by (fastforce simp: naws_frame butlast_append)
  then show ?thesis
    using assms(1) by (simp add: naws_payload_def dimension_of_bytes telnet_inv_def)
qed

theorem naws_round_trip_witness:
  "\<exists>p'. receive (new_negotiator None None None)
         (butlast (nawsSubnegotiation (new_negotiator None (Some (Finite 255)) None))) = (p', [], [])
     \<and> dimension_of (sbPayload p' ! 0) (sbPayload p' ! 1) = 255
     \<and> dimension_of (sbPayload p' ! 2) (sbPayload p' ! 3) = 24"
proof -
  let ?far = "new_negotiator None (Some (Finite 255)) None"
  have dims: "columns ?far = 255" "rows ?far = 24"
    by (simp_all add: new_negotiator_def rat_trunc_def)
  have "state (new_negotiator None None None) = Data" by (simp add: new_negotiator_def)
  from naws_round_trip [OF telnet_inv_new this] show ?thesis
    unfolding dims [symmetric] by blast
qed

section \<open>Commands\<close>

lemma answerNegotiation_frame:
  "answerNegotiation verb opt (n\<lparr>pendingVerb := v, state := s\<rparr>) =
     (let (n', r) = answerNegotiation verb opt n in (n'\<lparr>pendingVerb := v, state := s\<rparr>, r))"
  by (simp add: answerNegotiation_def Let_def nawsSubnegotiation_def)

lemma answerNegotiation_state: "answerNegotiation verb opt n = (n', r) \<Longrightarrow> state n' = state n"
  by (auto simp: answerNegotiation_def Let_def split: if_splits)

lemma receive_verb:
  assumes "state n = Data" and "is_verb verb"
  shows "receive n (IAC # verb # opt # bs) =
    (let (n1, r1) = answerNegotiation verb opt n;
         (n2, d2, r2) = receive (n1\<lparr>pendingVerb := verb\<rparr>) bs in (n2, d2, r1 @ r2))"
proof -
  obtain n1 r1 where a: "answerNegotiation verb opt n = (n1, r1)" by fastforce
  have "verb \<noteq> IAC" "verb \<noteq> SB" using assms(2) by (auto simp: is_verb_def telnet_consts)
  then have "receiveByte (n\<lparr>state := Iac\<rparr>) verb = (n\<lparr>pendingVerb := verb, state := Negotiate\<rparr>, [], [])"
    using assms(2) by (simp add: receiveByte_def is_verb_def)
  moreover have "receiveByte n IAC = (n\<lparr>state := Iac\<rparr>, [], [])"
    using assms(1) by (simp add: receiveByte_def)
  moreover have "receiveByte (n\<lparr>pendingVerb := verb, state := Negotiate\<rparr>) opt
      = (n1\<lparr>pendingVerb := verb\<rparr>, [], r1)"
    using a assms(1) answerNegotiation_state [OF a]
    by (simp add: receiveByte_def answerNegotiation_frame state_same)
  ultimately show ?thesis using a by (simp split: prod.splits)
qed

lemma is_verb_simps [simp]: "is_verb WILL" "is_verb WONT" "is_verb DO" "is_verb DONT"
  by (simp_all add: is_verb_def)

section \<open>Recovery from a truncated subnegotiation\<close>

lemma receiveByte_state_Data: "state n = Data \<Longrightarrow> b \<noteq> IAC \<Longrightarrow> state (fst (receiveByte n b)) = Data"
  by (auto simp: receiveByte_def dest: consumeDataByte_state split: prod.splits)

lemma fst_receive_Cons: "fst (receive n (b # bs)) = fst (receive (fst (receiveByte n b)) bs)"
  by (simp split: prod.splits)

lemma receive_stays_Data: "state n = Data \<Longrightarrow> IAC \<notin> set bs \<Longrightarrow> state (fst (receive n bs)) = Data"
proof (induction bs arbitrary: n)
  case (Cons b bs)
  then have "state (fst (receiveByte n b)) = Data" by (auto intro: receiveByte_state_Data)
  with Cons show ?case by (simp add: fst_receive_Cons del: receive.simps)
qed simp

lemma receive_two_bytes:
  assumes "receiveByte n b = (n1, d1, r1)" "receiveByte n1 c = (n2, d2, r2)" "b \<noteq> IAC" "c \<noteq> IAC"
  shows "state n2 = Data \<or> state n2 = SbPayload"
  using assms(1,3)
  by (cases "state n"; cases "state n1")
     (use assms in \<open>auto simp: receiveByte_def appendSubnegotiationByte_def
        dest!: consumeDataByte_state split: prod.splits if_splits\<close>)

lemma receive_payload_recovers:
  assumes "state n = SbPayload" and "IAC \<notin> set bs"
    and "MAX_SUBNEGOTIATION_BYTES < length (sbPayload n) + length bs"
    and "length (sbPayload n) \<le> MAX_SUBNEGOTIATION_BYTES"
  shows "state (fst (receive n bs)) = Data"
  using assms
proof (induction bs arbitrary: n)
  case (Cons b bs)
  obtain n1 d1 r1 where 1: "receiveByte n b = (n1, d1, r1)" by (metis prod_cases3)
  have "state (fst (receive n1 bs)) = Data"
  proof (cases "MAX_SUBNEGOTIATION_BYTES \<le> length (sbPayload n)")
    case True
    with 1 Cons.prems have "state n1 = Data"
      by (auto simp: receiveByte_def appendSubnegotiationByte_def dest!: consumeDataByte_state split: prod.splits)
    with Cons.prems show ?thesis by (simp add: receive_stays_Data)
  next
    case False
    with 1 Cons.prems have "n1 = n\<lparr>sbPayload := sbPayload n @ [b]\<rparr>"
      by (auto simp: receiveByte_def appendSubnegotiationByte_def)
    with Cons.prems False show ?thesis by (intro Cons.IH) auto
  qed
  with 1 show ?case by (simp add: fst_receive_Cons del: receive.simps)
qed simp

text \<open>
  A truncated subnegotiation cannot wedge the session: from any reachable parser state,
  more than 130 bytes without an \<open>IAC\<close> bring the parser back to its data state.
\<close>

theorem resynchronises:
  assumes "telnet_inv n" and "IAC \<notin> set bs" and "130 < length bs"
  shows "state (fst (receive n bs)) = Data"
proof -
  obtain b c cs where bs: "bs = b # c # cs" and len: "128 < length cs"
    using assms(3) by (cases bs rule: remdups_adj.cases) auto
  obtain n1 d1 r1 where 1: "receiveByte n b = (n1, d1, r1)" by (metis prod_cases3)
  obtain n2 d2 r2 where 2: "receiveByte n1 c = (n2, d2, r2)" by (metis prod_cases3)
  have i1: "telnet_inv n1" using telnet_inv_receiveByte [OF assms(1) 1] .
  have i2: "telnet_inv n2" using telnet_inv_receiveByte [OF i1 2] .
  have b: "b \<noteq> IAC" "c \<noteq> IAC" "IAC \<notin> set cs" using assms(2) bs by auto
  have "state n2 = Data \<or> state n2 = SbPayload" using receive_two_bytes [OF 1 2] b by simp
  then have "state (fst (receive n2 cs)) = Data"
    using receive_stays_Data [of n2 cs] receive_payload_recovers [of n2 cs] b len i2
    by (auto simp: telnet_inv_def MAX_SUBNEGOTIATION_BYTES_def)
  then show ?thesis using bs 1 2 by (simp add: fst_receive_Cons del: receive.simps)
qed
theorem resynchronises_witness:
  "state (fst (receive ((new_negotiator None None None)\<lparr>state := SbPayload\<rparr>) (replicate 131 65))) = Data"
proof (rule resynchronises)
  show "telnet_inv ((new_negotiator None None None)\<lparr>state := SbPayload\<rparr>)"
    by (simp add: telnet_inv_state telnet_inv_new)
qed (simp_all add: IAC_def)

end
