(* ===== verification/Telnet_Streams.thy ===== *)
theory Telnet_Streams
  imports Telnet_Protocol
begin

text \<open>
  What the negotiator of \<open>Telnet_Protocol\<close> makes of a whole inbound stream. The stream is
  described by a reference that knows nothing of the parser: a list of telnet items (RFC 854)
  with their bytes on the wire, and the answers a client owes to the items it has seen. The
  first property says that \<open>receive\<close> implements this reference for every way TCP cuts the
  stream; the second says when two negotiators that answer each other come to rest.
\<close>

section \<open>The items of a telnet stream\<close>

datatype telnet_item =
    DataByte byte
  | Command byte byte
  | Subnegotiation byte "byte list"
  | OtherCommand byte

fun wire_item :: "telnet_item \<Rightarrow> buffer" where
  "wire_item (DataByte b) = pushEscaped b"
| "wire_item (Command verb opt) = [IAC, verb, opt]"
| "wire_item (Subnegotiation opt payload) = [IAC, SB, opt] @ concat (map pushEscaped payload) @ [IAC, SE]"
| "wire_item (OtherCommand c) = [IAC, c]"

definition wire :: "telnet_item list \<Rightarrow> buffer" where
  "wire items = concat (map wire_item items)"

text \<open>
  A command's verb is one of the four, a subnegotiation is at most as long as the parser
  keeps, and any other command byte is none of those the parser treats specially.
\<close>

fun item_ok :: "telnet_item \<Rightarrow> bool" where
  "item_ok (DataByte b) = True"
| "item_ok (Command verb opt) = is_verb verb"
| "item_ok (Subnegotiation opt payload) = (length payload \<le> MAX_SUBNEGOTIATION_BYTES)"
| "item_ok (OtherCommand c) = (c \<noteq> IAC \<and> c \<noteq> SB \<and> \<not> is_verb c)"

fun stream_data :: "telnet_item list \<Rightarrow> byte list" where
  "stream_data [] = []"
| "stream_data (DataByte b # items) = b # stream_data items"
| "stream_data (_ # items) = stream_data items"

text \<open>
  \<open>WILL\<close> and \<open>WONT\<close> are about an option of the peer, \<open>DO\<close> and \<open>DONT\<close> about one of this
  side. \<open>settled\<close> is the verdict last given on an option, read off the history of items,
  latest first.
\<close>

definition asks_remote :: "byte \<Rightarrow> bool" where
  "asks_remote verb \<longleftrightarrow> verb = WILL \<or> verb = WONT"

definition consents :: "byte \<Rightarrow> byte \<Rightarrow> bool" where
  "consents verb opt \<longleftrightarrow>
     verb = WILL \<and> opt \<in> {OPT_ECHO, OPT_SGA}
     \<or> verb = DO \<and> opt \<in> {OPT_SGA, OPT_TERMINAL_TYPE, OPT_NAWS}"

fun settled :: "bool \<Rightarrow> byte \<Rightarrow> telnet_item list \<Rightarrow> bool option" where
  "settled remote opt [] = None"
| "settled remote opt (Command verb p # past) =
     (if p = opt \<and> asks_remote verb = remote then Some (consents verb p) else settled remote opt past)"
| "settled remote opt (_ # past) = settled remote opt past"

definition answer_verb :: "byte \<Rightarrow> byte \<Rightarrow> byte" where
  "answer_verb verb opt =
     (if asks_remote verb then (if consents verb opt then DO else DONT)
      else (if consents verb opt then WILL else WONT))"

text \<open>
  The answer owed to one item: a changed verdict, with the window size after an agreed NAWS,
  and the terminal type when it is asked for.
\<close>

fun reply :: "string \<Rightarrow> nat \<Rightarrow> nat \<Rightarrow> telnet_item list \<Rightarrow> telnet_item \<Rightarrow> telnet_item list" where
  "reply ttype w h past (Command verb opt) =
     (if settled (asks_remote verb) opt past = Some (consents verb opt) then []
      else Command (answer_verb verb opt) opt
        # (if verb = DO \<and> opt = OPT_NAWS
           then [Subnegotiation OPT_NAWS [hi_byte w, lo_byte w, hi_byte h, lo_byte h]] else []))"
| "reply ttype w h past (Subnegotiation opt payload) =
     (if opt = OPT_TERMINAL_TYPE \<and> take 1 payload = [TTYPE_SEND]
      then [Subnegotiation OPT_TERMINAL_TYPE (TTYPE_IS # ascii_encode ttype)] else [])"
| "reply ttype w h past _ = []"

fun replies :: "string \<Rightarrow> nat \<Rightarrow> nat \<Rightarrow> telnet_item list \<Rightarrow> telnet_item list \<Rightarrow> telnet_item list" where
  "replies ttype w h past [] = []"
| "replies ttype w h past (item # items) =
     reply ttype w h past item @ replies ttype w h (item # past) items"

section \<open>The parser on one item\<close>

lemma wire_simps [simp]:
  "wire [] = []" "wire (i # items) = wire_item i @ wire items" "wire (xs @ ys) = wire xs @ wire ys"
  by (simp_all add: wire_def)

lemma receive_command:
  assumes "state n = Data" and "is_verb verb" and "answerNegotiation verb opt n = (n', r)"
  shows "receive n [IAC, verb, opt] = (n'\<lparr>pendingVerb := verb\<rparr>, [], r)"
  using receive_verb [OF assms(1,2), of opt "[]"] assms(3) by simp

lemma receive_other:
  assumes "state n = Data" and "c \<noteq> IAC" "c \<noteq> SB" "\<not> is_verb c"
  shows "receive n [IAC, c] = (n, [], [])"
  using assms by (auto simp: receiveByte_def is_verb_def state_same)

lemma receive_subnegotiation:
  assumes "state n = Data" and "length payload \<le> MAX_SUBNEGOTIATION_BYTES"
  shows "receive n (wire_item (Subnegotiation opt payload)) =
    (n\<lparr>sbOption := opt, sbPayload := []\<rparr>, [], answerSubnegotiation opt payload n)"
proof -
  let ?q = "n\<lparr>sbOption := opt, sbPayload := [], state := SbPayload\<rparr>"
  have "receive n [IAC, SB, opt] = (?q, [], [])"
    using assms by (simp add: receiveByte_def telnet_consts)
  moreover have "receive ?q (concat (map pushEscaped payload)) = (?q\<lparr>sbPayload := payload\<rparr>, [], [])"
    using receive_sb_payloads [of ?q payload] assms(2) by simp
  moreover have "receive (?q\<lparr>sbPayload := payload\<rparr>) [IAC, SE] =
      (n\<lparr>sbOption := opt, sbPayload := []\<rparr>, [], answerSubnegotiation opt payload n)"
    using assms(1) by (simp add: receiveByte_def answerSubnegotiation_def state_same)
  ultimately have "receive n ([IAC, SB, opt] @ concat (map pushEscaped payload) @ [IAC, SE]) =
      (n\<lparr>sbOption := opt, sbPayload := []\<rparr>, [] @ [] @ [], [] @ [] @ answerSubnegotiation opt payload n)"
    by (metis receive_append_eq)
  then show ?thesis by simp
qed

lemma answerSubnegotiation_reply:
  "answerSubnegotiation opt payload n =
     wire (reply (terminalType n) w h past (Subnegotiation opt payload))"
proof -
  have "pushEscaped TTYPE_IS = [TTYPE_IS]" by (simp add: pushEscaped_def telnet_consts)
  then show ?thesis by (simp add: answerSubnegotiation_def)
qed

text \<open>The negotiator has seen the items \<open>past\<close> and stands between two items.\<close>

definition has_seen :: "string \<Rightarrow> nat \<Rightarrow> nat \<Rightarrow> telnet_item list \<Rightarrow> negotiator \<Rightarrow> bool" where
  "has_seen ttype w h past n \<longleftrightarrow>
     state n = Data \<and> terminalType n = ttype \<and> columns n = w \<and> rows n = h
     \<and> remoteState n = (\<lambda>opt. settled True opt past) \<and> localState n = (\<lambda>opt. settled False opt past)"

lemma consents_remote: "asks_remote verb \<Longrightarrow> consents verb opt = (verb = WILL \<and> REMOTE_ACCEPTED opt)"
  by (auto simp: consents_def asks_remote_def REMOTE_ACCEPTED_def)

lemma consents_local: "\<not> asks_remote verb \<Longrightarrow> consents verb opt = (verb = DO \<and> LOCAL_ACCEPTED opt)"
  by (auto simp: consents_def asks_remote_def LOCAL_ACCEPTED_def)

lemma local_naws: "LOCAL_ACCEPTED OPT_NAWS"
  by (simp add: LOCAL_ACCEPTED_def)

lemma answerNegotiation_reply:
  assumes "has_seen ttype w h past n" and "is_verb verb"
  obtains n' where "answerNegotiation verb opt n = (n', wire (reply ttype w h past (Command verb opt)))"
    and "has_seen ttype w h (Command verb opt # past) n'" and "pendingCr n' = pendingCr n"
proof (cases "asks_remote verb")
  case True
  show ?thesis
    by (rule that [of "fst (answerNegotiation verb opt n)"])
       (use True assms in \<open>auto simp: answerNegotiation_def Let_def has_seen_def consents_remote answer_verb_def
          asks_remote_def fun_eq_iff\<close>)
next
  case False
  note facts = False consents_local [OF False] local_naws
  show ?thesis
    by (rule that [of "fst (answerNegotiation verb opt n)"])
       (use facts assms in \<open>auto simp: answerNegotiation_def Let_def has_seen_def answer_verb_def
          asks_remote_def fun_eq_iff nawsSubnegotiation_def\<close>)
qed

lemma receive_item:
  assumes "has_seen ttype w h past n" and "item_ok item"
  shows "\<exists>n' d. receive n (wire_item item) = (n', d, wire (reply ttype w h past item))
    \<and> has_seen ttype w h (item # past) n'
    \<and> d = snd (consumeData (stream_data [item]) n)
    \<and> pendingCr n' = pendingCr (fst (consumeData (stream_data [item]) n))"
proof (cases item)
  case (DataByte b)
  obtain n' d where c: "consumeDataByte b n = (n', d)" by fastforce
  then have "n' = n\<lparr>pendingCr := pendingCr n'\<rparr>" by (rule consumeDataByte_frame)
  then obtain cr where n': "n' = n\<lparr>pendingCr := cr\<rparr>" by blast
  have "receive n (wire_item item) = (n', d, [])"
    using receive_pushEscaped [of n b "[]"] c assms(1) DataByte by (simp add: has_seen_def)
  with c assms(1) DataByte n' show ?thesis by (simp add: has_seen_def)
next
  case (Command verb opt)
  with assms obtain n' where a: "answerNegotiation verb opt n = (n', wire (reply ttype w h past item))"
    and s: "has_seen ttype w h (item # past) n'" "pendingCr n' = pendingCr n"
    by (metis answerNegotiation_reply item_ok.simps(2))
  have "receive n (wire_item item) = (n'\<lparr>pendingVerb := verb\<rparr>, [], wire (reply ttype w h past item))"
    using receive_command [OF _ _ a] assms Command by (simp add: has_seen_def)
  with s Command show ?thesis by (simp add: has_seen_def)
next
  case (Subnegotiation opt payload)
  with assms show ?thesis
    by (simp add: receive_subnegotiation [simplified] has_seen_def del: reply.simps)
       (simp add: has_seen_def answerSubnegotiation_reply [where w = w and h = h and past = past] del: reply.simps)
next
  case (OtherCommand c)
  with assms show ?thesis by (auto simp: receive_other has_seen_def simp del: receive.simps)
qed


section \<open>The parser on a whole stream\<close>

lemma consumeData_pendingCr:
  "pendingCr m = pendingCr n \<Longrightarrow>
    snd (consumeData bs m) = snd (consumeData bs n)
    \<and> pendingCr (fst (consumeData bs m)) = pendingCr (fst (consumeData bs n))"
proof (induction bs arbitrary: m n)
  case (Cons b bs)
  have "snd (consumeDataByte b m) = snd (consumeDataByte b n)
      \<and> pendingCr (fst (consumeDataByte b m)) = pendingCr (fst (consumeDataByte b n))"
    using Cons.prems by (simp add: consumeDataByte_def Let_def)
  with Cons.IH [of "fst (consumeDataByte b m)" "fst (consumeDataByte b n)"] show ?case
    by (simp add: split_beta Let_def)
qed simp

lemma consumeData_append:
  "consumeData (xs @ ys) n =
     (let (n1, d1) = consumeData xs n; (n2, d2) = consumeData ys n1 in (n2, d1 @ d2))"
  by (induction xs arbitrary: n) (simp_all add: split_beta Let_def)

lemma stream_data_Cons: "stream_data (i # items) = stream_data [i] @ stream_data items"
  by (cases i) simp_all

lemma receive_items:
  assumes "has_seen ttype w h past n" and "list_all item_ok items"
  shows "\<exists>n' d. receive n (wire items) = (n', d, wire (replies ttype w h past items))
    \<and> has_seen ttype w h (rev items @ past) n'
    \<and> d = snd (consumeData (stream_data items) n)
    \<and> pendingCr n' = pendingCr (fst (consumeData (stream_data items) n))"
  using assms
proof (induction items arbitrary: past n)
  case (Cons i items)
  from Cons.prems have ok: "item_ok i" and oks: "list_all item_ok items" by simp_all
  obtain n1 d1 where 1: "receive n (wire_item i) = (n1, d1, wire (reply ttype w h past i))"
    "has_seen ttype w h (i # past) n1" "d1 = snd (consumeData (stream_data [i]) n)"
    "pendingCr n1 = pendingCr (fst (consumeData (stream_data [i]) n))"
    using receive_item [OF Cons.prems(1) ok] by blast
  obtain n2 d2 where 2: "receive n1 (wire items) = (n2, d2, wire (replies ttype w h (i # past) items))"
    "has_seen ttype w h (rev items @ i # past) n2" "d2 = snd (consumeData (stream_data items) n1)"
    "pendingCr n2 = pendingCr (fst (consumeData (stream_data items) n1))"
    using Cons.IH [OF 1(2) oks] by blast
  have "receive n (wire (i # items)) = (n2, d1 @ d2, wire (replies ttype w h past (i # items)))"
    using receive_append_eq [OF 1(1) 2(1)] by simp
  moreover have "consumeData (stream_data (i # items)) n =
      (fst (consumeData (stream_data items) (fst (consumeData (stream_data [i]) n))),
       d1 @ snd (consumeData (stream_data items) (fst (consumeData (stream_data [i]) n))))"
    by (subst stream_data_Cons) (simp add: consumeData_append 1(3) split_beta Let_def)
  ultimately show ?case using 2 consumeData_pendingCr [OF 1(4)] by simp
qed simp

lemma has_seen_new:
  "has_seen (terminalType (new_negotiator t c r)) (columns (new_negotiator t c r))
     (rows (new_negotiator t c r)) [] (new_negotiator t c r)"
  by (simp add: has_seen_def new_negotiator_def)

text \<open>
  C1. However TCP cuts a telnet stream into chunks, a new negotiator delivers its data bytes
  (unescaped, with the carriage-return rules of RFC 854, a \<open>CR\<close> at the very end being held
  back), sends exactly the answers owed to its items, in their order, ends between two items,
  and remembers of every option the verdict it last gave on it. The items are data bytes, the
  four negotiation commands with any option, subnegotiations of at most 128 payload bytes and
  other commands; the reference answers them from the history of the stream alone.
\<close>

theorem receive_implements_stream:
  assumes "n = new_negotiator t c r" and "list_all item_ok items" and "concat chunks = wire items"
  shows "\<exists>n' data.
    feed_all ([], []) cat_output receive n chunks
      = (n', data, wire (replies (terminalType n) (columns n) (rows n) [] items))
    \<and> state n' = Data
    \<and> data @ (if pendingCr n' then [CR] else []) = nvt_decode (stream_data items)
    \<and> (\<forall>opt. remoteState n' opt = settled True opt (rev items)
           \<and> localState n' opt = settled False opt (rev items))"
proof -
  obtain n' d where r: "receive n (wire items)
      = (n', d, wire (replies (terminalType n) (columns n) (rows n) [] items))"
    and s: "has_seen (terminalType n) (columns n) (rows n) (rev items @ []) n'"
    and d: "d = snd (consumeData (stream_data items) n)"
      "pendingCr n' = pendingCr (fst (consumeData (stream_data items) n))"
    using receive_items [OF has_seen_new assms(2), of t c r] unfolding assms(1) by blast
  have "\<not> pendingCr n" by (simp add: assms(1) new_negotiator_def)
  then have "d @ (if pendingCr n' then [CR] else []) = nvt_decode (stream_data items)"
    using consumeData_eq_nvt [of "stream_data items" n] d by (simp add: split_beta Let_def)
  with r s show ?thesis
    by (simp add: telnet_stream.feed_all_concat assms(3) has_seen_def)
qed

text \<open>
  A stream with text, an accepted and a repeated \<open>DO NAWS\<close>, an escaped data byte and a request
  for the terminal type, cut in the middle of a command.
\<close>

theorem receive_implements_stream_witness:
  "\<exists>n' data. feed_all ([], []) cat_output receive (new_negotiator (Some ''vt'') None None)
       [[104, 255, 253], [31, 255, 253, 31, 255], [255, 255, 250, 24, 1, 255, 240]]
     = (n', data, [255, 251, 31, 255, 250, 31, 0, 80, 0, 24, 255, 240,
                   255, 250, 24, 0, 118, 116, 255, 240])
     \<and> state n' = Data \<and> data = [104, 255]"
proof -
  let ?items = "[DataByte 104, Command 253 31, Command 253 31, DataByte 255, Subnegotiation 24 [1]]"
  let ?n = "new_negotiator (Some ''vt'') None None"
  have "list_all item_ok ?items" by (simp add: is_verb_def telnet_consts MAX_SUBNEGOTIATION_BYTES_def)
  moreover have "concat [[104, 255, 253], [31, 255, 253, 31, 255], [255, 255, 250, 24, 1, 255, 240]] = wire ?items"
    by (simp add: pushEscaped_def telnet_consts)
  moreover have "nvt_decode (stream_data ?items) = [104, 255]" by (simp add: telnet_consts)
  moreover have "wire (replies (terminalType ?n) (columns ?n) (rows ?n) [] ?items)
      = [255, 251, 31, 255, 250, 31, 0, 80, 0, 24, 255, 240, 255, 250, 24, 0, 118, 116, 255, 240]"
    by (simp add: new_negotiator_def asks_remote_def consents_def answer_verb_def pushEscaped_def
        hi_byte_def lo_byte_def rat_trunc_def ascii_encode_def byte_of_char_def telnet_consts)
  ultimately obtain n' data where
    r: "feed_all ([], []) cat_output receive ?n
          [[104, 255, 253], [31, 255, 253, 31, 255], [255, 255, 250, 24, 1, 255, 240]]
        = (n', data, [255, 251, 31, 255, 250, 31, 0, 80, 0, 24, 255, 240,
                   255, 250, 24, 0, 118, 116, 255, 240])"
    and s: "state n' = Data" and d: "data @ (if pendingCr n' then [CR] else []) = [104, 255]"
    using receive_implements_stream
      [OF refl, of ?items "[[104, 255, 253], [31, 255, 253, 31, 255], [255, 255, 250, 24, 1, 255, 240]]"
         "Some ''vt''" None None]
    by metis
  from d have "data = [104, 255]" by (cases "pendingCr n'") (auto simp: CR_def append_eq_Cons_conv)
  with r s show ?thesis by blast
qed


section \<open>When two negotiators come to rest\<close>

text \<open>
  Per option and side, a negotiator sees a sequence of requests and answers with the changes
  of its verdict. What one end answers about its peer's option is, for the peer, a request
  about its own.
\<close>

definition last_told :: "bool \<Rightarrow> negotiator \<Rightarrow> byte \<Rightarrow> bool option" where
  "last_told remote n = (if remote then remoteState n else localState n)"

definition accepted :: "bool \<Rightarrow> byte \<Rightarrow> bool" where
  "accepted remote opt = (if remote then REMOTE_ACCEPTED opt else LOCAL_ACCEPTED opt)"

definition positive :: "byte \<Rightarrow> bool" where
  "positive verb \<longleftrightarrow> verb = WILL \<or> verb = DO"

fun requests :: "bool \<Rightarrow> byte \<Rightarrow> telnet_item list \<Rightarrow> bool list" where
  "requests remote opt [] = []"
| "requests remote opt (Command verb p # items) =
     (if p = opt \<and> asks_remote verb = remote then [positive verb] else []) @ requests remote opt items"
| "requests remote opt (_ # items) = requests remote opt items"

fun changes :: "bool option \<Rightarrow> bool list \<Rightarrow> bool list" where
  "changes cur [] = []"
| "changes cur (v # vs) = (if cur = Some v then changes cur vs else v # changes (Some v) vs)"

definition after_all :: "bool option \<Rightarrow> bool list \<Rightarrow> bool option" where
  "after_all cur vs = (if vs = [] then cur else Some (last vs))"

text \<open>The items two negotiators exchange: commands and window sizes.\<close>

fun negotiation_item :: "telnet_item \<Rightarrow> bool" where
  "negotiation_item (Command verb opt) = is_verb verb"
| "negotiation_item (Subnegotiation opt payload) = (opt = OPT_NAWS \<and> length payload = 4)"
| "negotiation_item _ = False"

lemma requests_append: "requests remote opt (xs @ ys) = requests remote opt xs @ requests remote opt ys"
  by (induction remote opt xs rule: requests.induct) simp_all

lemma changes_append: "changes cur (xs @ ys) = changes cur xs @ changes (after_all cur xs) ys"
  by (induction cur xs rule: changes.induct) (simp_all add: after_all_def)

lemma after_all_append: "after_all cur (xs @ ys) = after_all (after_all cur xs) ys"
  by (simp add: after_all_def)

lemma answerNegotiation_told:
  assumes "is_verb verb" and "answerNegotiation verb opt n = (n', r)"
  shows "state n' = state n
    \<and> last_told remote n' p = after_all (last_told remote n p)
        (map (\<lambda>v. v \<and> accepted remote p) (requests remote p [Command verb opt]))"
  using assms
  by (cases "asks_remote verb"; cases remote)
     (auto simp: answerNegotiation_def Let_def last_told_def accepted_def positive_def asks_remote_def
        is_verb_def after_all_def split: if_splits)

lemma answerNegotiation_items:
  assumes "is_verb verb" and "answerNegotiation verb opt n = (n', r)"
  obtains reps where "r = wire reps" and "list_all negotiation_item reps"
    and "\<And>remote p. requests (\<not> remote) p reps = changes (last_told remote n p)
        (map (\<lambda>v. v \<and> accepted remote p) (requests remote p [Command verb opt]))"
    and "(\<And>remote p. requests remote p reps = []) \<Longrightarrow> reps = []"
proof -
  let ?verdict = "positive verb \<and> accepted (asks_remote verb) opt"
  let ?answer = "if asks_remote verb then (if ?verdict then DO else DONT) else (if ?verdict then WILL else WONT)"
  let ?reps = "if last_told (asks_remote verb) n opt = Some ?verdict then []
     else Command ?answer opt # (if ?answer = WILL \<and> opt = OPT_NAWS then [Subnegotiation OPT_NAWS (naws_payload n)] else [])"
  show ?thesis
  proof (rule that [of ?reps])
    show "r = wire ?reps"
      using assms
      by (auto simp: answerNegotiation_def Let_def last_told_def accepted_def positive_def asks_remote_def
          is_verb_def nawsSubnegotiation_def naws_payload_def split: if_splits)
    show "list_all negotiation_item ?reps" by (simp add: naws_payload_def)
    show "requests (\<not> remote) p ?reps = changes (last_told remote n p)
        (map (\<lambda>v. v \<and> accepted remote p) (requests remote p [Command verb opt]))" for remote p
      by (auto simp: asks_remote_def positive_def)
    show "?reps = []" if "\<And>remote p. requests remote p ?reps = []"
      using that [of "asks_remote ?answer" opt] by (auto split: if_splits)
  qed
qed


definition verdicts :: "bool \<Rightarrow> byte \<Rightarrow> telnet_item list \<Rightarrow> bool list" where
  "verdicts remote p items = map (\<lambda>v. v \<and> accepted remote p) (requests remote p items)"

definition answered :: "negotiator \<Rightarrow> telnet_item list \<Rightarrow> negotiator \<Rightarrow> telnet_item list \<Rightarrow> bool" where
  "answered n items n' reps \<longleftrightarrow>
     receive n (wire items) = (n', [], wire reps) \<and> state n' = Data \<and> list_all negotiation_item reps
     \<and> (\<forall>remote p. last_told remote n' p = after_all (last_told remote n p) (verdicts remote p items))
     \<and> (\<forall>remote p. requests (\<not> remote) p reps = changes (last_told remote n p) (verdicts remote p items))
     \<and> ((\<forall>remote p. requests remote p reps = []) \<longrightarrow> reps = [])"

lemma answered_Nil: "state n = Data \<Longrightarrow> answered n [] n []"
  by (simp add: answered_def verdicts_def after_all_def)

lemma answered_item:
  assumes "state n = Data" and "negotiation_item i"
  shows "\<exists>n' reps. answered n [i] n' reps"
proof (cases i)
  case (Command verb opt)
  with assms(2) have v: "is_verb verb" by simp
  obtain n' r where a: "answerNegotiation verb opt n = (n', r)" by fastforce
  from v a obtain reps where reps: "r = wire reps" "list_all negotiation_item reps"
    "\<And>remote p. requests (\<not> remote) p reps = changes (last_told remote n p)
        (map (\<lambda>v. v \<and> accepted remote p) (requests remote p [Command verb opt]))"
    "(\<And>remote p. requests remote p reps = []) \<Longrightarrow> reps = []"
    by (rule answerNegotiation_items) blast
  have "last_told remote (n'\<lparr>pendingVerb := verb\<rparr>) p = last_told remote n' p" for remote p
    by (simp add: last_told_def)
  moreover have "receive n (wire [i]) = (n'\<lparr>pendingVerb := verb\<rparr>, [], wire reps)"
    using receive_command [OF assms(1) v a] Command reps(1) by simp
  ultimately have "answered n [i] (n'\<lparr>pendingVerb := verb\<rparr>) reps"
    using answerNegotiation_told [OF v a] assms(1) reps(2-)
    unfolding answered_def verdicts_def Command by simp
  then show ?thesis by blast
next
  case (Subnegotiation opt payload)
  have "receive n (wire [i]) = (n\<lparr>sbOption := opt, sbPayload := []\<rparr>, [], [])"
    using receive_subnegotiation [OF assms(1), of payload opt] assms(2) Subnegotiation
    by (simp add: MAX_SUBNEGOTIATION_BYTES_def answerSubnegotiation_def telnet_consts)
  then have "answered n [i] (n\<lparr>sbOption := opt, sbPayload := []\<rparr>) []"
    using assms(1) Subnegotiation by (simp add: answered_def verdicts_def after_all_def last_told_def)
  then show ?thesis by blast
qed (use assms in auto)

lemma answered_append:
  assumes "answered n xs n1 r1" and "answered n1 ys n2 r2"
  shows "answered n (xs @ ys) n2 (r1 @ r2)"
proof -
  have "receive n (wire (xs @ ys)) = (n2, [], wire (r1 @ r2))"
    using receive_append_eq [of n "wire xs" n1 "[]" "wire r1" "wire ys" n2 "[]" "wire r2"] assms
    by (simp add: answered_def)
  with assms show ?thesis
    by (simp add: answered_def verdicts_def requests_append changes_append after_all_append)
qed

lemma answered_exists:
  assumes "state n = Data" and "list_all negotiation_item items"
  shows "\<exists>n' reps. answered n items n' reps"
  using assms
proof (induction items arbitrary: n)
  case (Cons i items)
  then obtain n1 r1 where 1: "answered n [i] n1 r1" using answered_item by fastforce
  then have "state n1 = Data" unfolding answered_def by blast
  with Cons obtain n2 r2 where "answered n1 items n2 r2" by fastforce
  from answered_append [OF 1 this] show ?case by auto
qed (use answered_Nil in blast)

lemma wire_eq_Nil: "list_all negotiation_item reps \<Longrightarrow> wire reps = [] \<longleftrightarrow> reps = []"
  by (induction reps rule: stream_data.induct) simp_all

lemma exchange_answered:
  assumes "answered a items a' reps"
  shows "exchange (Suc fuel) a b (wire items) =
    (if reps = [] then Some (a', b) else exchange fuel b a' (wire reps))"
proof -
  have "receive a (wire items) = (a', [], wire reps)" "list_all negotiation_item reps"
    using assms unfolding answered_def by blast+
  then show ?thesis by (simp add: wire_eq_Nil)
qed

subsection \<open>One option\<close>

lemma changes_const:
  "(\<And>x. x \<in> set vs \<Longrightarrow> x = v) \<Longrightarrow> changes cur vs = (if vs = [] \<or> cur = Some v then [] else [v])"
  by (induction cur vs rule: changes.induct) auto

text \<open>Unless both ends accept and both a request and its withdrawal are made, the fourth answer is empty.\<close>

lemma channel_rests:
  assumes "\<not> (va \<and> vb \<and> True \<in> set e0 \<and> False \<in> set e0)"
    and e1: "e1 = changes ca (map (\<lambda>v. v \<and> va) e0)"
    and e2: "e2 = changes cb (map (\<lambda>v. v \<and> vb) e1)"
    and e3: "e3 = changes (after_all ca (map (\<lambda>v. v \<and> va) e0)) (map (\<lambda>v. v \<and> va) e2)"
  shows "changes (after_all cb (map (\<lambda>v. v \<and> vb) e1)) (map (\<lambda>v. v \<and> vb) e3) = []"
proof (cases "vb")
  case False
  have "e2 = (if e1 = [] \<or> cb = Some False then [] else [False])"
    unfolding e2 using False by (subst changes_const [of _ False]) auto
  then have "e3 = [] \<or> e1 \<noteq> []" by (auto simp: e3)
  then show ?thesis
    using False by (subst changes_const [of _ False]) (auto simp: after_all_def last_map)
next
  case True
  show ?thesis
  proof (cases "va")
    case False
    have 1: "e1 = (if e0 = [] \<or> ca = Some False then [] else [False])"
      unfolding e1 using False by (subst changes_const [of _ False]) auto
    then have "e2 = [] \<or> e0 \<noteq> []" by (auto simp: e2)
    moreover have "x = False" if "x \<in> set e2" for x
      using that 1 True by (auto simp: e2 split: if_splits)
    ultimately have "e3 = []"
      unfolding e3 using False by (subst changes_const [of _ False]) (auto simp: after_all_def last_map)
    then show ?thesis by simp
  next
    case va: True
    with assms(1) True obtain v where v: "\<And>x. x \<in> set e0 \<Longrightarrow> x = v" by (metis (full_types))
    have 1: "e1 = (if e0 = [] \<or> ca = Some v then [] else [v])"
      unfolding e1 using va v by (subst changes_const [of _ v]) auto
    have "e2 = [] \<or> (e2 = [v] \<and> e0 \<noteq> [])"
      using 1 True by (auto simp: e2)
    moreover have "last e0 = v" if "e0 \<noteq> []" using that v by simp
    ultimately have "e3 = []" using va by (auto simp: e3 after_all_def)
    then show ?thesis by simp
  qed
qed

lemma changes_same: "v \<in> set vs \<Longrightarrow> (v = (\<not> c)) \<Longrightarrow> v \<in> set (changes (Some c) vs)"
  by (induction "Some c" vs rule: changes.induct) auto

lemma last_changes: "changes cur vs \<noteq> [] \<Longrightarrow> last (changes cur vs) = last vs"
proof (induction cur vs rule: changes.induct)
  case (2 cur v vs)
  show ?case
  proof (cases "changes (Some v) vs = []")
    case True
    have "vs = [] \<or> last vs = v"
    proof (rule ccontr)
      assume "\<not> (vs = [] \<or> last vs = v)"
      then have "last vs \<in> set vs" and "last vs = (\<not> v)" by (blast intro: last_in_set)+
      then have "(\<not> v) \<in> set vs" by (cases v) simp_all
      then show False using changes_same [of "\<not> v" vs v] True by simp
    qed
    with 2 True show ?thesis by (auto split: if_splits)
  next
    case False
    then have "vs \<noteq> []" by auto
    with 2 False show ?thesis by auto
  qed
qed simp

text \<open>Requests that contradict each other are answered by answers that contradict each other.\<close>

lemma channel_keeps_conflict:
  assumes "True \<in> set e" "False \<in> set e" and "cur = None \<or> cur = Some (last e)"
  shows "True \<in> set (changes cur e) \<and> False \<in> set (changes cur e) \<and> last (changes cur e) = last e"
proof -
  have other: "(\<not> last e) \<in> set e" using assms by (metis (full_types))
  have w: "(\<not> last e) \<in> set (changes cur e)"
    using assms(3)
  proof
    assume c: "cur = None"
    obtain v vs where e: "e = v # vs" using assms by (cases e) auto
    show ?thesis
    proof (cases "v = last e")
      case True
      with other have "(\<not> last e) \<in> set vs" unfolding e set_simps by blast
      then have "(\<not> last e) \<in> set (changes (Some v) vs)" by (rule changes_same) (simp add: True)
      moreover have "changes cur e = v # changes (Some v) vs" by (simp add: c e)
      ultimately show ?thesis by simp
    next
      case False
      have "v \<in> set (changes cur e)" by (simp add: c e)
      moreover have "v = (\<not> last e)" using False by blast
      ultimately show ?thesis by simp
    qed
  next
    assume "cur = Some (last e)"
    then show ?thesis using other by (simp add: changes_same)
  qed
  then have "changes cur e \<noteq> []" by auto
  then have l: "last (changes cur e) = last e" "last (changes cur e) \<in> set (changes cur e)"
    by (simp add: last_changes, rule last_in_set)
  show ?thesis using w l by (cases "last e") simp_all
qed


subsection \<open>All options\<close>

definition conflicting :: "telnet_item list \<Rightarrow> bool" where
  "conflicting items \<longleftrightarrow>
     {Command WILL OPT_SGA, Command WONT OPT_SGA} \<subseteq> set items
     \<or> {Command DO OPT_SGA, Command DONT OPT_SGA} \<subseteq> set items"

lemma requests_set:
  "list_all negotiation_item items \<Longrightarrow>
    v \<in> set (requests remote p items) \<longleftrightarrow>
    Command (if remote then if v then WILL else WONT else if v then DO else DONT) p \<in> set items"
  by (induction remote p items rule: requests.induct)
     (auto simp: positive_def asks_remote_def is_verb_def split: if_splits)

lemma conflicting_iff:
  "list_all negotiation_item items \<Longrightarrow> conflicting items \<longleftrightarrow>
    (\<exists>remote. True \<in> set (requests remote OPT_SGA items) \<and> False \<in> set (requests remote OPT_SGA items))"
  by (auto simp: requests_set conflicting_def split: if_splits)

lemma both_accepted: "accepted remote p \<Longrightarrow> accepted (\<not> remote) p \<Longrightarrow> p = OPT_SGA"
  by (auto simp: accepted_def REMOTE_ACCEPTED_def LOCAL_ACCEPTED_def telnet_consts split: if_splits)

lemma answered_told: "answered n items n' reps \<Longrightarrow> last_told remote n' p = after_all (last_told remote n p) (verdicts remote p items)"
  unfolding answered_def by blast

lemma answered_requests:
  "answered n items n' reps \<Longrightarrow> requests remote p reps = changes (last_told (\<not> remote) n p) (verdicts (\<not> remote) p items)"
proof -
  assume "answered n items n' reps"
  then have "requests (\<not> \<not> remote) p reps = changes (last_told (\<not> remote) n p) (verdicts (\<not> remote) p items)"
    unfolding answered_def by blast
  then show ?thesis by simp
qed

lemma answered_ok: "answered n items n' reps \<Longrightarrow> state n' = Data \<and> list_all negotiation_item reps"
  unfolding answered_def by blast

lemma answered_silent: "answered n items n' reps \<Longrightarrow> (\<And>remote p. requests remote p reps = []) \<Longrightarrow> reps = []"
  unfolding answered_def by blast

lemma exchange_rests:
  assumes "state a = Data" "state b = Data" "list_all negotiation_item items" and "\<not> conflicting items"
  shows "\<exists>s. exchange 4 a b (wire items) = Some s"
proof -
  obtain a1 r1 where 1: "answered a items a1 r1" using answered_exists assms by blast
  obtain b1 r2 where 2: "answered b r1 b1 r2" using answered_exists assms answered_ok [OF 1] by blast
  obtain a2 r3 where 3: "answered a1 r2 a2 r3" using answered_exists answered_ok [OF 1] answered_ok [OF 2] by blast
  obtain b2 r4 where 4: "answered b1 r3 b2 r4" using answered_exists answered_ok [OF 2] answered_ok [OF 3] by blast
  have "requests remote p r4 = []" for remote p
  proof -
    have "\<not> (accepted remote p \<and> accepted (\<not> remote) p
        \<and> True \<in> set (requests remote p items) \<and> False \<in> set (requests remote p items))"
      using assms(3,4) both_accepted conflicting_iff by blast
    from channel_rests 
      [OF this refl refl refl, where ca = "last_told remote a p" and cb = "last_told (\<not> remote) b p"]
    show ?thesis
      using answered_requests [OF 4, of remote p] answered_requests [OF 3, of "\<not> remote" p]
        answered_requests [OF 2, of remote p] answered_requests [OF 1, of "\<not> remote" p]
        answered_told [OF 1, of remote p] answered_told [OF 2, of "\<not> remote" p]
      by (simp add: verdicts_def)
  qed
  then have "r4 = []" by (rule answered_silent [OF 4])
  then show ?thesis
    using exchange_answered [OF 1, of 3 b] exchange_answered [OF 2, of 2 a1]
      exchange_answered [OF 3, of 1 b1] exchange_answered [OF 4, of 0 a2]
    by (simp add: eval_nat_numeral)
qed


lemma exchange_restless:
  assumes "state a = Data" "state b = Data" "list_all negotiation_item items"
    and "True \<in> set (requests remote OPT_SGA items)" "False \<in> set (requests remote OPT_SGA items)"
    and "last_told remote a OPT_SGA \<in> {None, Some (last (requests remote OPT_SGA items))}"
    and "last_told (\<not> remote) b OPT_SGA \<in> {None, Some (last (requests remote OPT_SGA items))}"
  shows "exchange fuel a b (wire items) = None"
  using assms
proof (induction fuel arbitrary: a b items remote)
  case (Suc fuel)
  let ?e = "requests remote OPT_SGA items"
  obtain a' reps where r: "answered a items a' reps" using answered_exists Suc.prems by blast
  have acc: "verdicts remote OPT_SGA items = ?e"
    by (simp add: verdicts_def accepted_def REMOTE_ACCEPTED_def LOCAL_ACCEPTED_def)
  have e: "requests (\<not> remote) OPT_SGA reps = changes (last_told remote a OPT_SGA) ?e"
    using answered_requests [OF r, of "\<not> remote" OPT_SGA] acc by simp
  have keep: "True \<in> set (requests (\<not> remote) OPT_SGA reps)" "False \<in> set (requests (\<not> remote) OPT_SGA reps)"
    "last (requests (\<not> remote) OPT_SGA reps) = last ?e"
    using channel_keeps_conflict [of ?e "last_told remote a OPT_SGA"] Suc.prems unfolding e by blast+
  have "?e \<noteq> []" using Suc.prems(4) by auto
  then have "last_told (\<not> \<not> remote) a' OPT_SGA = Some (last ?e)"
    using answered_told [OF r, of remote OPT_SGA] acc by (simp add: after_all_def)
  then have "exchange fuel b a' (wire reps) = None"
    using answered_ok [OF r] Suc.prems keep by (intro Suc.IH [of _ _ _ "\<not> remote"]) auto
  moreover have "reps \<noteq> []" using keep(1) by auto
  ultimately show ?case using exchange_answered [OF r, of fuel b] by simp
qed simp

text \<open>
  C2. Two negotiators whose answers are delivered to each other. Whatever was agreed before,
  any list of commands (with window sizes among them) in flight to one of them leads to rest
  within four deliveries, unless it holds both \<open>WILL\<close> and \<open>WONT\<close>, or both \<open>DO\<close> and \<open>DONT\<close>,
  for SUPPRESS-GO-AHEAD, the one option both ends accept. With such a pair in flight before
  anything is agreed about that option, they answer each other forever.
\<close>

theorem negotiation_rests_unless_conflicting:
  assumes "state a = Data" and "state b = Data" and "list_all negotiation_item items"
  shows "(\<not> conflicting items \<longrightarrow> (\<exists>s. exchange 4 a b (wire items) = Some s))
    \<and> (conflicting items \<and> remoteState a OPT_SGA = None \<and> localState a OPT_SGA = None
         \<and> remoteState b OPT_SGA = None \<and> localState b OPT_SGA = None
       \<longrightarrow> (\<forall>fuel. exchange fuel a b (wire items) = None))"
proof (intro conjI impI allI)
  assume "\<not> conflicting items"
  with assms show "\<exists>s. exchange 4 a b (wire items) = Some s" by (rule exchange_rests)
next
  fix fuel
  assume c: "conflicting items \<and> remoteState a OPT_SGA = None \<and> localState a OPT_SGA = None
         \<and> remoteState b OPT_SGA = None \<and> localState b OPT_SGA = None"
  then obtain remote where "True \<in> set (requests remote OPT_SGA items)" "False \<in> set (requests remote OPT_SGA items)"
    using conflicting_iff [OF assms(3)] by blast
  with assms c show "exchange fuel a b (wire items) = None"
    by (intro exchange_restless [of _ _ _ remote]) (simp_all add: last_told_def)
qed

text \<open>An offer of every accepted option at once comes to rest; an offer crossing its withdrawal does not.\<close>

theorem negotiation_rests_unless_conflicting_witness:
  "(\<exists>s. exchange 4 (new_negotiator None None None) (new_negotiator None None None)
      [255, 251, 1, 255, 251, 3, 255, 253, 3, 255, 253, 24, 255, 253, 31] = Some s)
   \<and> (\<forall>fuel. exchange fuel (new_negotiator None None None) (new_negotiator None None None)
      [255, 253, 3, 255, 254, 3] = None)"
proof -
  let ?n = "new_negotiator None None None"
  let ?offer = "[Command WILL OPT_ECHO, Command WILL OPT_SGA, Command DO OPT_SGA,
    Command DO OPT_TERMINAL_TYPE, Command DO OPT_NAWS]"
  let ?cross = "[Command DO OPT_SGA, Command DONT OPT_SGA]"
  have n: "state ?n = Data" "remoteState ?n OPT_SGA = None" "localState ?n OPT_SGA = None"
    by (simp_all add: new_negotiator_def)
  have off: "list_all negotiation_item ?offer" "\<not> conflicting ?offer" by (simp_all add: conflicting_def)
  have c: "list_all negotiation_item ?cross" "conflicting ?cross" by (simp_all add: conflicting_def)
  have wo: "wire ?offer = [255, 251, 1, 255, 251, 3, 255, 253, 3, 255, 253, 24, 255, 253, 31]"
    and wc: "wire ?cross = [255, 253, 3, 255, 254, 3]" by (simp_all add: telnet_consts)
  show ?thesis
    using negotiation_rests_unless_conflicting [OF n(1) n(1) off(1)]
      negotiation_rests_unless_conflicting [OF n(1) n(1) c(1)] off(2) c(2) n unfolding wo wc by blast
qed

end
