(* ===== verification/Tftp_Protocol.thy ===== *)
theory Tftp_Protocol
  imports Js_Strings
begin

text \<open>
  The TFTP wire format: \<open>src/src/services/networkServers/tftp/engine/types.ts\<close> and
  \<open>protocol.ts\<close>. Packets are encoded to and parsed from byte lists, options are validated to
  numbers and written back for the OACK. A \<open>throw new ProtocolError(message)\<close> is \<open>Inl\<close> with
  the message. JavaScript strings are \<open>string\<close> (code units up to 255, the range the ASCII
  fields of the protocol can carry); numbers read by \<open>parseInt\<close> are exact integers, which
  they are in the program below \<open>2 ^ 53\<close>.
\<close>

section \<open>types.ts\<close>

datatype error_code = NotDefined | FileNotFound | AccessViolation | DiskFull | IllegalOperation
  | UnknownTransferID | FileAlreadyExists | NoSuchUser | OptionNegotiation

fun error_num :: "error_code \<Rightarrow> u16" where
  "error_num NotDefined = 0"
| "error_num FileNotFound = 1"
| "error_num AccessViolation = 2"
| "error_num DiskFull = 3"
| "error_num IllegalOperation = 4"
| "error_num UnknownTransferID = 5"
| "error_num FileAlreadyExists = 6"
| "error_num NoSuchUser = 7"
| "error_num OptionNegotiation = 8"

fun ERROR_MESSAGES :: "error_code \<Rightarrow> string" where
  "ERROR_MESSAGES NotDefined = ''Not defined, see error message.''"
| "ERROR_MESSAGES FileNotFound = ''File not found.''"
| "ERROR_MESSAGES AccessViolation = ''Access violation.''"
| "ERROR_MESSAGES DiskFull = ''Disk full or allocation exceeded.''"
| "ERROR_MESSAGES IllegalOperation = ''Illegal TFTP operation.''"
| "ERROR_MESSAGES UnknownTransferID = ''Unknown transfer ID.''"
| "ERROR_MESSAGES FileAlreadyExists = ''File already exists.''"
| "ERROR_MESSAGES NoSuchUser = ''No such user.''"
| "ERROR_MESSAGES OptionNegotiation = ''Option negotiation failed.''"

definition op_RRQ :: u16 where "op_RRQ = 1"
definition op_WRQ :: u16 where "op_WRQ = 2"
definition op_DATA :: u16 where "op_DATA = 3"
definition op_ACK :: u16 where "op_ACK = 4"
definition op_ERROR :: u16 where "op_ERROR = 5"
definition op_OACK :: u16 where "op_OACK = 6"

lemmas opcodes = op_RRQ_def op_WRQ_def op_DATA_def op_ACK_def op_ERROR_def op_OACK_def

datatype transfer_mode = Netascii | Octet
datatype option_name = Blksize | Timeout | Tsize | Windowsize

type_synonym raw_options = "(option_name, string) js_object"

record validated_options =
  blksize :: nat
  windowsize :: nat
  timeout :: "nat option"
  tsize :: "nat option"

record partial_options =
  def_blksize :: "nat option"
  def_windowsize :: "nat option"
  def_timeout :: "nat option"
  def_tsize :: "nat option"

datatype tftp_packet =
    RRQ string transfer_mode raw_options
  | WRQ string transfer_mode raw_options
  | DATA u16 buffer
  | ACK u16
  | ERROR u16 string
  | OACK raw_options

definition DEFAULT_BLOCK_SIZE :: nat where "DEFAULT_BLOCK_SIZE = 512"
definition DEFAULT_WINDOW_SIZE :: nat where "DEFAULT_WINDOW_SIZE = 1"
definition MAX_IN_FLIGHT_BYTES :: nat where "MAX_IN_FLIGHT_BYTES = 1048576"
definition MAX_RETRANSMISSION_PACKETS :: nat where "MAX_RETRANSMISSION_PACKETS = 256"

lemmas tftp_limits = DEFAULT_BLOCK_SIZE_def DEFAULT_WINDOW_SIZE_def MAX_IN_FLIGHT_BYTES_def
  MAX_RETRANSMISSION_PACKETS_def

datatype protocol_error = ProtocolError string

type_synonym 'a parsed = "protocol_error + 'a"

section \<open>protocol.ts: encoding\<close>

fun option_key :: "option_name \<Rightarrow> string" where
  "option_key Blksize = ''blksize''"
| "option_key Timeout = ''timeout''"
| "option_key Tsize = ''tsize''"
| "option_key Windowsize = ''windowsize''"

definition KNOWN_OPTIONS :: "string \<Rightarrow> option_name option" where
  "KNOWN_OPTIONS key =
     (if key = ''blksize'' then Some Blksize
      else if key = ''timeout'' then Some Timeout
      else if key = ''tsize'' then Some Tsize
      else if key = ''windowsize'' then Some Windowsize
      else None)"

definition VALID_MODES :: "string \<Rightarrow> transfer_mode option" where
  "VALID_MODES m = (if m = ''netascii'' then Some Netascii
                    else if m = ''octet'' then Some Octet else None)"

definition writeNullString :: "string \<Rightarrow> buffer" where
  "writeNullString str = ascii_encode str @ [0]"

definition writeOptionPairs :: "raw_options \<Rightarrow> buffer" where
  "writeOptionPairs opts =
     concat (map (\<lambda>(k, v). writeNullString (option_key k) @ writeNullString v) opts)"

definition optionPairsLen :: "raw_options \<Rightarrow> nat" where
  "optionPairsLen opts =
     sum_list (map (\<lambda>(k, v). length (option_key k) + 1 + length v + 1) opts)"

definition encodeRRQ :: "string \<Rightarrow> string \<Rightarrow> raw_options \<Rightarrow> buffer" where
  "encodeRRQ filename mode opts =
     writeUInt16BE op_RRQ @ writeNullString filename @ writeNullString mode @ writeOptionPairs opts"

definition encodeWRQ :: "string \<Rightarrow> string \<Rightarrow> raw_options \<Rightarrow> buffer" where
  "encodeWRQ filename mode opts =
     writeUInt16BE op_WRQ @ writeNullString filename @ writeNullString mode @ writeOptionPairs opts"

definition encodeDATA :: "u16 \<Rightarrow> buffer \<Rightarrow> buffer" where
  "encodeDATA blockNum data = writeUInt16BE op_DATA @ writeUInt16BE blockNum @ data"

definition encodeACK :: "u16 \<Rightarrow> buffer" where
  "encodeACK blockNum = writeUInt16BE op_ACK @ writeUInt16BE blockNum"

definition encodeERROR :: "error_code \<Rightarrow> string option \<Rightarrow> buffer" where
  "encodeERROR code message =
     writeUInt16BE op_ERROR @ writeUInt16BE (error_num code)
     @ writeNullString (case message of Some m \<Rightarrow> m | None \<Rightarrow> ERROR_MESSAGES code)"

definition encodeOACK :: "raw_options \<Rightarrow> buffer" where
  "encodeOACK opts = writeUInt16BE op_OACK @ writeOptionPairs opts"

section \<open>protocol.ts: parsing\<close>

text \<open>The loop of \<open>splitNullStrings\<close>: \<open>cur\<close> holds the bytes from \<open>start\<close> on.\<close>

fun splitNulls :: "buffer \<Rightarrow> buffer \<Rightarrow> string list" where
  "splitNulls cur [] = (if cur = [] then [] else [ascii_decode cur])"
| "splitNulls cur (b # bs) =
     (if b = 0 then ascii_decode cur # splitNulls [] bs else splitNulls (cur @ [b]) bs)"

definition splitNullStrings :: "buffer \<Rightarrow> string list" where
  "splitNullStrings buf = splitNulls [] buf"

definition popEmpty :: "string list \<Rightarrow> string list" where
  "popEmpty parts = (if parts \<noteq> [] \<and> last parts = [] then butlast parts else parts)"

text \<open>The loop over the option tokens, shared by \<open>parseOptionPairs\<close> and \<open>parseRRQorWRQ\<close>.\<close>

fun collectOptions :: "string list \<Rightarrow> raw_options \<Rightarrow> raw_options" where
  "collectOptions (k # v # ts) opts =
     collectOptions ts
       (case KNOWN_OPTIONS (toLowerCase k) of
          Some name \<Rightarrow> AList.update name v opts | None \<Rightarrow> opts)"
| "collectOptions _ opts = opts"

definition parseOptionPairs :: "buffer \<Rightarrow> raw_options parsed" where
  "parseOptionPairs payload =
     (let parts = popEmpty (splitNullStrings payload) in
      if length parts mod 2 \<noteq> 0 then Inl (ProtocolError ''Malformed option list (odd token count)'')
      else Inr (collectOptions parts []))"

definition getOpcode :: "buffer \<Rightarrow> u16 option" where
  "getOpcode buf = (if length buf < 2 then None else readUInt16BE buf)"

definition parseRRQorWRQ :: "u16 \<Rightarrow> buffer \<Rightarrow> tftp_packet parsed" where
  "parseRRQorWRQ opcode payload =
     (let parts = popEmpty (splitNullStrings payload) in
      case parts of
        filename # mode # optionTokens \<Rightarrow>
          if filename = [] then Inl (ProtocolError ''Empty filename'')
          else
            (let mode' = toLowerCase mode in
             case VALID_MODES mode' of
               None \<Rightarrow> Inl (ProtocolError (''Unknown mode: '' @ mode'))
             | Some Netascii \<Rightarrow>
                 Inl (ProtocolError ''Unsupported mode: netascii (this server implements octet only)'')
             | Some Octet \<Rightarrow>
                 if length optionTokens mod 2 \<noteq> 0
                 then Inl (ProtocolError ''Malformed option list'')
                 else Inr ((if opcode = op_RRQ then RRQ else WRQ) filename Octet
                             (collectOptions optionTokens [])))
      | _ \<Rightarrow> Inl (ProtocolError ((if opcode = op_RRQ then ''RRQ'' else ''WRQ'') @ '' too short'')))"

definition parsePacket :: "buffer \<Rightarrow> tftp_packet option parsed" where
  "parsePacket buf =
     (case getOpcode buf of
        None \<Rightarrow> Inl (ProtocolError ''Packet too short'')
      | Some opc \<Rightarrow>
          (let payload = drop 2 buf in
           if opc = op_RRQ then map_sum id Some (parseRRQorWRQ op_RRQ payload)
           else if opc = op_WRQ then map_sum id Some (parseRRQorWRQ op_WRQ payload)
           else if opc = op_DATA then
             (case readUInt16BE payload of
                None \<Rightarrow> Inl (ProtocolError ''DATA too short'')
              | Some n \<Rightarrow> Inr (Some (DATA n (drop 2 payload))))
           else if opc = op_ACK then
             (case readUInt16BE payload of
                None \<Rightarrow> Inl (ProtocolError ''ACK too short'')
              | Some n \<Rightarrow> Inr (Some (ACK n)))
           else if opc = op_ERROR then
             (case readUInt16BE payload of
                None \<Rightarrow> Inl (ProtocolError ''ERROR too short'')
              | Some code \<Rightarrow>
                  Inr (Some (ERROR code (ascii_decode (takeWhile (\<lambda>b. b \<noteq> 0) (drop 2 payload))))))
           else if opc = op_OACK then
             (if payload = [] then Inr (Some (OACK []))
              else map_sum id (Some \<circ> OACK) (parseOptionPairs payload))
           else Inr None))"

section \<open>protocol.ts: options\<close>

definition range_error :: "string \<Rightarrow> string \<Rightarrow> string \<Rightarrow> protocol_error" where
  "range_error name given limits = ProtocolError (''Invalid '' @ name @ '': '' @ given @ limits)"

text \<open>
  One option of \<open>validateOptions\<close>: absent keeps the default, otherwise the value must be a
  number between the limits (no upper limit for \<open>tsize\<close>).
\<close>

definition checkOption ::
  "raw_options \<Rightarrow> option_name \<Rightarrow> int \<Rightarrow> int option \<Rightarrow> string \<Rightarrow> nat option parsed" where
  "checkOption raw name lo hi limits =
     (case map_of raw name of
        None \<Rightarrow> Inr None
      | Some given \<Rightarrow>
          (case parseInt given of
             None \<Rightarrow> Inl (range_error (option_key name) given limits)
           | Some v \<Rightarrow>
               if v < lo \<or> (case hi of None \<Rightarrow> False | Some h \<Rightarrow> h < v)
               then Inl (range_error (option_key name) given limits)
               else Inr (Some (nat v))))"

definition max_window :: "nat \<Rightarrow> nat" where
  "max_window b =
     max 1 (if b = 0 then MAX_RETRANSMISSION_PACKETS
            else min MAX_RETRANSMISSION_PACKETS (MAX_IN_FLIGHT_BYTES div b))"

definition validateOptions :: "raw_options \<Rightarrow> partial_options \<Rightarrow> validated_options parsed" where
  "validateOptions raw defaults =
     (case checkOption raw Blksize 8 (Some 65464) '' (8-65464)'' of
        Inl e \<Rightarrow> Inl e
      | Inr bs \<Rightarrow>
     (case checkOption raw Timeout 1 (Some 255) '' (1-255)'' of
        Inl e \<Rightarrow> Inl e
      | Inr tmo \<Rightarrow>
     (case checkOption raw Tsize 0 None [] of
        Inl e \<Rightarrow> Inl e
      | Inr ts \<Rightarrow>
     (case checkOption raw Windowsize 1 (Some 65535) '' (1-65535)'' of
        Inl e \<Rightarrow> Inl e
      | Inr ws \<Rightarrow>
          (let b = or_default bs (or_default (def_blksize defaults) DEFAULT_BLOCK_SIZE);
               w = or_default ws (or_default (def_windowsize defaults) DEFAULT_WINDOW_SIZE)
           in Inr \<lparr> blksize = b, windowsize = min w (max_window b),
                    timeout = (case tmo of Some v \<Rightarrow> Some v | None \<Rightarrow> def_timeout defaults),
                    tsize = (case ts of Some v \<Rightarrow> Some v | None \<Rightarrow> def_tsize defaults) \<rparr>)))))"

definition validatedToRaw :: "validated_options \<Rightarrow> raw_options" where
  "validatedToRaw opts =
     (if blksize opts \<noteq> DEFAULT_BLOCK_SIZE then [(Blksize, show_nat (blksize opts))] else [])
     @ (case timeout opts of Some v \<Rightarrow> [(Timeout, show_nat v)] | None \<Rightarrow> [])
     @ (case tsize opts of Some v \<Rightarrow> [(Tsize, show_nat v)] | None \<Rightarrow> [])
     @ (if windowsize opts \<noteq> DEFAULT_WINDOW_SIZE
        then [(Windowsize, show_nat (windowsize opts))] else [])"

section \<open>Specification-level definitions\<close>

text \<open>
  What a packet must satisfy to survive the wire: text fields in 7-bit ASCII without NUL, a
  filename, mode octet, an error code of the protocol, options with distinct names whose
  last value is not empty (a trailing empty value is indistinguishable from the padding
  that the parser drops).
\<close>

definition option_tokens :: "raw_options \<Rightarrow> string list" where
  "option_tokens opts = concat (map (\<lambda>(k, v). [option_key k, v]) opts)"

definition wire_options :: "raw_options \<Rightarrow> bool" where
  "wire_options opts \<longleftrightarrow> distinct (map fst opts) \<and> list_all (\<lambda>(k, v). ascii_text v) opts
     \<and> (opts = [] \<or> snd (last opts) \<noteq> [])"

definition wire_packet :: "tftp_packet \<Rightarrow> bool" where
  "wire_packet p =
     (case p of
        RRQ f m opts \<Rightarrow> ascii_text f \<and> f \<noteq> [] \<and> m = Octet \<and> wire_options opts
      | WRQ f m opts \<Rightarrow> ascii_text f \<and> f \<noteq> [] \<and> m = Octet \<and> wire_options opts
      | ERROR code msg \<Rightarrow> code \<in> range error_num \<and> ascii_text msg
      | OACK opts \<Rightarrow> wire_options opts
      | _ \<Rightarrow> True)"

definition error_of_num :: "u16 \<Rightarrow> error_code" where
  "error_of_num n =
     (if n = 1 then FileNotFound else if n = 2 then AccessViolation else if n = 3 then DiskFull
      else if n = 4 then IllegalOperation else if n = 5 then UnknownTransferID
      else if n = 6 then FileAlreadyExists else if n = 7 then NoSuchUser
      else if n = 8 then OptionNegotiation else NotDefined)"

fun encode_packet :: "tftp_packet \<Rightarrow> buffer" where
  "encode_packet (RRQ f m opts) = encodeRRQ f (case m of Octet \<Rightarrow> ''octet'' | Netascii \<Rightarrow> ''netascii'') opts"
| "encode_packet (WRQ f m opts) = encodeWRQ f (case m of Octet \<Rightarrow> ''octet'' | Netascii \<Rightarrow> ''netascii'') opts"
| "encode_packet (DATA n d) = encodeDATA n d"
| "encode_packet (ACK n) = encodeACK n"
| "encode_packet (ERROR code msg) = encodeERROR (error_of_num code) (Some msg)"
| "encode_packet (OACK opts) = encodeOACK opts"

text \<open>The limits of RFC 2348, 2349 and 7440 with the server's own ceilings.\<close>

definition within_limits :: "validated_options \<Rightarrow> bool" where
  "within_limits opts \<longleftrightarrow>
     8 \<le> blksize opts \<and> blksize opts \<le> 65464
     \<and> 1 \<le> windowsize opts \<and> windowsize opts \<le> MAX_RETRANSMISSION_PACKETS
     \<and> blksize opts * windowsize opts \<le> MAX_IN_FLIGHT_BYTES
     \<and> (case timeout opts of None \<Rightarrow> True | Some v \<Rightarrow> 1 \<le> v \<and> v \<le> 255)"

definition no_defaults :: partial_options where
  "no_defaults = \<lparr>def_blksize = None, def_windowsize = None, def_timeout = None, def_tsize = None\<rparr>"

definition session_defaults :: partial_options where
  "session_defaults = \<lparr>def_blksize = Some DEFAULT_BLOCK_SIZE, def_windowsize = Some DEFAULT_WINDOW_SIZE,
     def_timeout = None, def_tsize = None\<rparr>"

section \<open>Decimal numbers\<close>

section \<open>Packets survive the wire\<close>

lemma splitNulls_text:
  "0 \<notin> set bs \<Longrightarrow> splitNulls cur (bs @ 0 # rest) = ascii_decode (cur @ bs) # splitNulls [] rest"
  by (induction bs arbitrary: cur) auto

lemma splitNulls_writeNullString:
  "ascii_text s \<Longrightarrow> splitNulls [] (writeNullString s @ rest) = s # splitNulls [] rest"
  by (simp add: writeNullString_def splitNulls_text ascii_encode_no_nul)

lemma option_tokens_simps [simp]:
  "option_tokens [] = []"
  "option_tokens ((k, v) # opts) = option_key k # v # option_tokens opts"
  by (simp_all add: option_tokens_def)

lemma writeOptionPairs_simps [simp]:
  "writeOptionPairs [] = []"
  "writeOptionPairs ((k, v) # opts) =
     writeNullString (option_key k) @ writeNullString v @ writeOptionPairs opts"
  by (simp_all add: writeOptionPairs_def)

lemma ascii_option_key [simp]: "ascii_text (option_key k)"
  by (cases k) simp_all

lemma KNOWN_OPTIONS_key [simp]: "KNOWN_OPTIONS (toLowerCase (option_key k)) = Some k"
  by (cases k) (simp_all add: KNOWN_OPTIONS_def toLowerCase_def lower_char_def)

lemma splitNulls_options:
  "\<forall>v\<in>snd ` set opts. ascii_text v \<Longrightarrow> splitNulls [] (writeOptionPairs opts) = option_tokens opts"
  by (induction opts) (auto simp: splitNulls_writeNullString)

lemma AList_update_fresh: "k \<notin> fst ` set xs \<Longrightarrow> AList.update k v xs = xs @ [(k, v)]"
  by (induction xs) auto

lemma collectOptions_tokens:
  "distinct (map fst (acc @ opts)) \<Longrightarrow> collectOptions (option_tokens opts) acc = acc @ opts"
proof (induction opts arbitrary: acc)
  case (Cons kv opts)
  obtain k v where "kv = (k, v)" by fastforce
  with Cons show ?case by (simp add: AList_update_fresh image_Un)
qed simp

lemma even_option_tokens: "length (option_tokens opts) mod 2 = 0"
  by (induction opts) auto

lemma option_tokens_empty [simp]: "option_tokens opts = [] \<longleftrightarrow> opts = []"
  by (cases opts) auto

lemma last_option_tokens: "opts \<noteq> [] \<Longrightarrow> last (option_tokens opts) = snd (last opts)"
  by (induction opts) auto

lemma popEmpty_tokens:
  "wire_options opts \<Longrightarrow> popEmpty (option_tokens opts) = option_tokens opts"
  by (cases "opts = []") (auto simp: popEmpty_def wire_options_def last_option_tokens)


lemma error_of_num_num [simp]: "error_of_num (error_num c) = c"
  by (cases c) (simp_all add: error_of_num_def)

lemma getOpcode_write [simp]:
  "getOpcode (writeUInt16BE opc @ rest) = Some opc" "getOpcode (writeUInt16BE opc) = Some opc"
  by (simp_all add: getOpcode_def)

lemma writeNullString_nonempty [simp]: "writeNullString s \<noteq> []"
  by (simp add: writeNullString_def)

lemma opcodes_distinct [simp]:
  "op_RRQ \<noteq> op_WRQ" "op_WRQ \<noteq> op_RRQ" "op_DATA \<noteq> op_RRQ" "op_DATA \<noteq> op_WRQ" "op_ACK \<noteq> op_RRQ" "op_ACK \<noteq> op_WRQ"
  "op_ACK \<noteq> op_DATA" "op_ERROR \<noteq> op_RRQ" "op_ERROR \<noteq> op_WRQ" "op_ERROR \<noteq> op_DATA" "op_ERROR \<noteq> op_ACK"
  "op_OACK \<noteq> op_RRQ" "op_OACK \<noteq> op_WRQ" "op_OACK \<noteq> op_DATA" "op_OACK \<noteq> op_ACK" "op_OACK \<noteq> op_ERROR"
  by (simp_all add: opcodes)

lemma parsePacket_DATA [simp]: "parsePacket (encodeDATA n d) = Inr (Some (DATA n d))"
  by (simp add: parsePacket_def encodeDATA_def)

lemma parsePacket_ACK [simp]: "parsePacket (encodeACK n) = Inr (Some (ACK n))"
  using readUInt16BE_write [of n "[]"] by (simp add: parsePacket_def encodeACK_def)

lemma parsePacket_ERROR:
  assumes "ascii_text (case m of Some t \<Rightarrow> t | None \<Rightarrow> ERROR_MESSAGES c)"
  shows "parsePacket (encodeERROR c m) =
    Inr (Some (ERROR (error_num c) (case m of Some t \<Rightarrow> t | None \<Rightarrow> ERROR_MESSAGES c)))"
proof -
  have "takeWhile (\<lambda>b. b \<noteq> 0) (writeNullString s) = ascii_encode s" if "ascii_text s" for s
    using ascii_encode_no_nul [OF that] by (auto simp: writeNullString_def takeWhile_append)
  with assms show ?thesis by (simp add: parsePacket_def encodeERROR_def)
qed

lemma parse_request:
  assumes "ascii_text f" "f \<noteq> []" "ascii_text m" "toLowerCase m = ''octet''" "wire_options opts"
  shows "parseRRQorWRQ opc (writeNullString f @ writeNullString m @ writeOptionPairs opts)
    = Inr ((if opc = op_RRQ then RRQ else WRQ) f Octet opts)"
proof -
  have "m \<noteq> []" using assms(4) by (auto simp: toLowerCase_def)
  have vals: "\<forall>v\<in>snd ` set opts. ascii_text v" using assms(5) by (auto simp: wire_options_def list_all_iff)
  have "splitNullStrings (writeNullString f @ writeNullString m @ writeOptionPairs opts)
    = f # m # option_tokens opts"
    using assms vals by (simp add: splitNullStrings_def splitNulls_writeNullString splitNulls_options)
  moreover have "popEmpty (f # m # option_tokens opts) = f # m # option_tokens opts"
    using assms(5) \<open>m \<noteq> []\<close> by (auto simp: popEmpty_def wire_options_def last_option_tokens)
  moreover have "collectOptions (option_tokens opts) [] = opts"
    using assms(5) collectOptions_tokens [of "[]" opts] by (simp add: wire_options_def)
  ultimately show ?thesis
    using assms by (simp add: parseRRQorWRQ_def VALID_MODES_def even_option_tokens)
qed

lemma lower_octet: "toLowerCase ''octet'' = ''octet''"
  by (simp add: toLowerCase_def lower_char_def)

lemma parsePacket_OACK:
  assumes "wire_options opts"
  shows "parsePacket (encodeOACK opts) = Inr (Some (OACK opts))"
proof -
  have vals: "\<forall>v\<in>snd ` set opts. ascii_text v" using assms by (auto simp: wire_options_def list_all_iff)
  have "splitNullStrings (writeOptionPairs opts) = option_tokens opts"
    using vals by (simp add: splitNullStrings_def splitNulls_options)
  moreover have "collectOptions (option_tokens opts) [] = opts"
    using assms collectOptions_tokens [of "[]" opts] by (simp add: wire_options_def)
  ultimately have "parseOptionPairs (writeOptionPairs opts) = Inr opts"
    using assms by (simp add: parseOptionPairs_def popEmpty_tokens even_option_tokens)
  then show ?thesis
    by (cases opts) (auto simp: parsePacket_def encodeOACK_def Let_def)
qed

lemma parsePacket_RRQ:
  assumes "ascii_text f" "f \<noteq> []" "ascii_text m" "toLowerCase m = ''octet''" "wire_options opts"
  shows "parsePacket (encodeRRQ f m opts) = Inr (Some (RRQ f Octet opts))"
  using parse_request [OF assms] by (simp add: parsePacket_def encodeRRQ_def)

lemma parsePacket_WRQ:
  assumes "ascii_text f" "f \<noteq> []" "ascii_text m" "toLowerCase m = ''octet''" "wire_options opts"
  shows "parsePacket (encodeWRQ f m opts) = Inr (Some (WRQ f Octet opts))"
  using parse_request [OF assms] by (simp add: parsePacket_def encodeWRQ_def)

lemma parse_encode_packet: "wire_packet p \<Longrightarrow> parsePacket (encode_packet p) = Inr (Some p)"
  by (cases p)
     (auto simp: wire_packet_def parsePacket_ERROR parsePacket_OACK parsePacket_RRQ parsePacket_WRQ lower_octet)

interpretation tftp_wire: codec encode_packet parsePacket wire_packet
  by unfold_locales (rule parse_encode_packet)

text \<open>
  C3. Every packet that satisfies the constraints of its text fields is parsed back from
  its own encoding, for all six opcodes.
\<close>

theorem packet_round_trip:
  assumes "wire_packet p"
  shows "parsePacket (encode_packet p) = Inr (Some p)"
  by (rule tftp_wire.dec_enc [OF assms])

theorem packet_round_trip_witness:
  "parsePacket (encode_packet (RRQ ''boot/vmlinuz'' Octet [(Blksize, ''1428''), (Tsize, ''0'')]))
     = Inr (Some (RRQ ''boot/vmlinuz'' Octet [(Blksize, ''1428''), (Tsize, ''0'')]))"
  by (rule packet_round_trip) (simp add: wire_packet_def wire_options_def)

lemma collectOptions_distinct:
  "distinct (map fst acc) \<Longrightarrow> distinct (map fst (collectOptions ts acc))"
  by (induction ts acc rule: collectOptions.induct)
     (auto simp: distinct_update split: option.splits)

lemma parseRRQorWRQ_wellformed:
  assumes "parseRRQorWRQ opc payload = Inr p"
  shows "\<exists>f opts. p = (if opc = op_RRQ then RRQ else WRQ) f Octet opts \<and> f \<noteq> []
    \<and> distinct (map fst opts)"
  using assms collectOptions_distinct [of "[]"]
  by (auto simp: parseRRQorWRQ_def Let_def split: list.splits if_splits option.splits
      transfer_mode.splits)

text \<open>
  Whatever bytes arrive, a request the parser accepts names a file, is in octet mode
  (netascii is refused, so no session is ever built for it) and carries each option at most
  once.
\<close>

theorem parsed_request_wellformed:
  assumes "parsePacket buf = Inr (Some p)" and "p = RRQ f m opts \<or> p = WRQ f m opts"
  shows "f \<noteq> [] \<and> m = Octet \<and> distinct (map fst opts)"
proof -
  have "\<exists>opc. parseRRQorWRQ opc (drop 2 buf) = Inr p"
    using assms by (auto simp: parsePacket_def Let_def map_sum_def comp_def
        split: option.splits if_splits sum.splits)
  then show ?thesis using assms(2) parseRRQorWRQ_wellformed by (fastforce split: if_splits)
qed

theorem parsed_request_wellformed_witness:
  "\<exists>buf f m opts. parsePacket buf = Inr (Some (WRQ f m opts)) \<and> m = Octet \<and> distinct (map fst opts)"
proof -
  have "toLowerCase ''OCTET'' = ''octet''" by code_simp
  then have p: "parsePacket (encodeWRQ ''cfg'' ''OCTET'' [(Tsize, ''9'')]) = Inr (Some (WRQ ''cfg'' Octet [(Tsize, ''9'')]))"
    by (intro parsePacket_WRQ) (simp_all add: wire_options_def)
  with parsed_request_wellformed [OF p, of "''cfg''" Octet "[(Tsize, ''9'')]"] show ?thesis by blast
qed

section \<open>Options\<close>

lemma session_defaults_same: "validateOptions raw session_defaults = validateOptions raw no_defaults"
  by (auto simp: validateOptions_def session_defaults_def no_defaults_def or_default_def Let_def
      split: sum.splits option.splits)

lemma checkOption_Some:
  "checkOption raw name lo (Some hi) l = Inr (Some v) \<Longrightarrow> 0 \<le> lo \<Longrightarrow> lo \<le> int v \<and> int v \<le> hi"
  by (auto simp: checkOption_def split: option.splits if_splits)

lemma max_window_mult: "8 \<le> b \<Longrightarrow> b \<le> 65464 \<Longrightarrow> b * max_window b \<le> MAX_IN_FLIGHT_BYTES"
proof -
  assume b: "8 \<le> b" "b \<le> 65464"
  have "1048576 div 65464 \<le> 1048576 div b" using b by (intro div_le_mono2) auto
  then have "1 \<le> 1048576 div b" by simp
  then have "max_window b \<le> 1048576 div b" using b by (simp add: max_window_def tftp_limits)
  then have "b * max_window b \<le> b * (1048576 div b)" by simp
  also have "\<dots> \<le> 1048576" by simp
  finally show ?thesis by (simp add: tftp_limits)
qed

lemma max_window_bounds: "1 \<le> max_window b \<and> max_window b \<le> MAX_RETRANSMISSION_PACKETS"
  by (auto simp: max_window_def tftp_limits)

lemma validateOptions_within:
  assumes "validateOptions raw no_defaults = Inr opts"
  shows "within_limits opts"
proof -
  from assms obtain bs tmo ts ws where
    c: "checkOption raw Blksize 8 (Some 65464) '' (8-65464)'' = Inr bs"
       "checkOption raw Timeout 1 (Some 255) '' (1-255)'' = Inr tmo"
       "checkOption raw Tsize 0 None [] = Inr ts"
       "checkOption raw Windowsize 1 (Some 65535) '' (1-65535)'' = Inr ws"
    by (auto simp: validateOptions_def split: sum.splits)
  let ?b = "or_default bs 512" and ?w = "or_default ws 1"
  have o: "opts = \<lparr>blksize = ?b, windowsize = min ?w (max_window ?b), timeout = tmo, tsize = ts\<rparr>"
    using assms c by (auto simp: validateOptions_def no_defaults_def or_default_def tftp_limits split: option.splits)
  have b: "8 \<le> ?b" "?b \<le> 65464"
    using c(1) checkOption_Some [of raw Blksize 8 65464] by (auto simp: or_default_def split: option.splits)
  have w: "1 \<le> ?w"
    using c(4) checkOption_Some [of raw Windowsize 1 65535] by (auto simp: or_default_def split: option.splits)
  have t: "case tmo of None \<Rightarrow> True | Some v \<Rightarrow> 1 \<le> v \<and> v \<le> 255"
    using c(2) checkOption_Some [of raw Timeout 1 255] by (auto split: option.splits)
  have "?b * min ?w (max_window ?b) \<le> ?b * max_window ?b" by simp
  also have "\<dots> \<le> MAX_IN_FLIGHT_BYTES" by (rule max_window_mult [OF b])
  finally show ?thesis
    using b w t max_window_bounds [of ?b] by (auto simp: within_limits_def o)
qed

lemma within_limits_window: "within_limits opts \<Longrightarrow> windowsize opts \<le> max_window (blksize opts)"
proof -
  assume w: "within_limits opts"
  then have "windowsize opts \<le> MAX_IN_FLIGHT_BYTES div blksize opts"
    by (auto simp: within_limits_def less_eq_div_iff_mult_less_eq mult.commute)
  with w show ?thesis by (auto simp: max_window_def within_limits_def)
qed

lemma checkOption_raw:
  "map_of raw name = None \<Longrightarrow> checkOption raw name lo hi l = Inr None"
  "map_of raw name = Some (show_nat v) \<Longrightarrow> lo \<le> int v \<Longrightarrow> (case hi of None \<Rightarrow> True | Some h \<Rightarrow> int v \<le> h) \<Longrightarrow>
    checkOption raw name lo hi l = Inr (Some v)"
  by (auto simp: checkOption_def split: option.splits)

lemma map_of_validatedToRaw:
  "map_of (validatedToRaw opts) name =
    (case name of
       Blksize \<Rightarrow> (if blksize opts \<noteq> 512 then Some (show_nat (blksize opts)) else None)
     | Timeout \<Rightarrow> map_option show_nat (timeout opts)
     | Tsize \<Rightarrow> map_option show_nat (tsize opts)
     | Windowsize \<Rightarrow> (if windowsize opts \<noteq> 1 then Some (show_nat (windowsize opts)) else None))"
  by (cases name) (auto simp: validatedToRaw_def tftp_limits map_add_def split: option.splits)

lemma validate_validatedToRaw:
  assumes "within_limits opts"
  shows "validateOptions (validatedToRaw opts) no_defaults = Inr opts"
proof -
  let ?raw = "validatedToRaw opts"
  have "checkOption ?raw Blksize 8 (Some 65464) '' (8-65464)'' = Inr (if blksize opts \<noteq> 512 then Some (blksize opts) else None)"
    using assms by (auto simp: checkOption_raw map_of_validatedToRaw within_limits_def)
  moreover have "checkOption ?raw Timeout 1 (Some 255) '' (1-255)'' = Inr (timeout opts)"
    using assms by (cases "timeout opts") (auto simp: checkOption_raw map_of_validatedToRaw within_limits_def)
  moreover have "checkOption ?raw Tsize 0 None [] = Inr (tsize opts)"
    by (cases "tsize opts") (auto simp: checkOption_raw map_of_validatedToRaw)
  moreover have "checkOption ?raw Windowsize 1 (Some 65535) '' (1-65535)'' = Inr (if windowsize opts \<noteq> 1 then Some (windowsize opts) else None)"
    using assms by (auto simp: checkOption_raw map_of_validatedToRaw within_limits_def tftp_limits)
  moreover have "min (windowsize opts) (max_window (blksize opts)) = windowsize opts"
    using within_limits_window [OF assms] by simp
  moreover have "or_default (if blksize opts \<noteq> 512 then Some (blksize opts) else None) 512 = blksize opts"
    "or_default (if windowsize opts \<noteq> 1 then Some (windowsize opts) else None) 1 = windowsize opts"
    by (simp_all add: or_default_def)
  ultimately show ?thesis
    by (cases opts) (auto simp: validateOptions_def no_defaults_def or_default_def tftp_limits Let_def split: option.splits)
qed

lemma wire_validatedToRaw: "wire_options (validatedToRaw opts)"
  by (auto simp: wire_options_def validatedToRaw_def split: option.splits)
text \<open>
  Options the server accepts are within the limits of the RFCs, and their product is
  bounded: one session never holds more than 1 MiB or 256 packets in flight, whatever the
  client asks for.
\<close>

theorem validated_options_bounded:
  assumes "validateOptions raw session_defaults = Inr opts"
  shows "8 \<le> blksize opts \<and> blksize opts \<le> 65464 \<and> 1 \<le> windowsize opts \<and> windowsize opts \<le> 256
    \<and> blksize opts * windowsize opts \<le> 1048576
    \<and> (case timeout opts of None \<Rightarrow> True | Some v \<Rightarrow> 1 \<le> v \<and> v \<le> 255)"
  using validateOptions_within [of raw opts] assms
  by (simp add: within_limits_def tftp_limits session_defaults_same)

text \<open>
  The OACK the server sends for the options it settled on is parsed by the client, and
  the client's validation of it yields exactly those options: both ends use the same block
  size, window, timeout and size.
\<close>

theorem oack_agreement:
  assumes "validateOptions raw session_defaults = Inr opts"
  shows "parsePacket (encodeOACK (validatedToRaw opts)) = Inr (Some (OACK (validatedToRaw opts)))
    \<and> validateOptions (validatedToRaw opts) no_defaults = Inr opts"
proof -
  have "within_limits opts"
    using assms validateOptions_within by (simp add: session_defaults_same)
  then show ?thesis
    by (simp add: validate_validatedToRaw parsePacket_OACK wire_validatedToRaw)
qed

text \<open>A request for the largest block and window, which the server answers with a smaller window.\<close>

definition big_request :: raw_options where
  "big_request = [(Blksize, ''65464''), (Windowsize, ''65535''), (Timeout, ''3'')]"

lemma big_request_options:
  "validateOptions big_request session_defaults
     = Inr \<lparr>blksize = 65464, windowsize = 16, timeout = Some 3, tsize = None\<rparr>"
proof -
  have n: "parseInt ''65464'' = Some 65464" "parseInt ''65535'' = Some 65535" "parseInt ''3'' = Some 3"
    by (simp_all add: parseInt_def is_space_def is_digit_def digits_value_def)
  then have "checkOption big_request Blksize 8 (Some 65464) '' (8-65464)'' = Inr (Some 65464)"
    "checkOption big_request Timeout 1 (Some 255) '' (1-255)'' = Inr (Some 3)"
    "checkOption big_request Tsize 0 None [] = Inr None"
    "checkOption big_request Windowsize 1 (Some 65535) '' (1-65535)'' = Inr (Some 65535)"
    by (simp_all add: checkOption_def big_request_def)
  then show ?thesis
    by (simp add: validateOptions_def session_defaults_def or_default_def max_window_def tftp_limits)
qed

theorem validated_options_bounded_witness:
  "validateOptions big_request session_defaults
     = Inr \<lparr>blksize = 65464, windowsize = 16, timeout = Some 3, tsize = None\<rparr>
   \<and> (65464::nat) * 16 \<le> 1048576"
  using validated_options_bounded [OF big_request_options] big_request_options by simp

theorem oack_agreement_witness:
  "validateOptions (validatedToRaw \<lparr>blksize = 65464, windowsize = 16, timeout = Some 3, tsize = None\<rparr>)
     no_defaults = Inr \<lparr>blksize = 65464, windowsize = 16, timeout = Some 3, tsize = None\<rparr>"
  using oack_agreement [OF big_request_options] by blast

end
