(* ===== verification/Tftp_Session.thy ===== *)
theory Tftp_Session
  imports Tftp_Protocol
begin

text \<open>
  One TFTP transfer: \<open>src/src/services/networkServers/tftp/engine/TransferSession.ts\<close>. The
  class is a record; a method takes the record and returns the new one with its result.
  \<open>Date.now()\<close> is the argument \<open>now\<close> (milliseconds), one value per synchronous call. The
  file behind an RRQ is the argument \<open>io\<close>: opening it may fail, and a read at an offset for
  a number of bytes fails or returns bytes. The speed estimate is computed in exact
  rationals where the program rounds to doubles.
\<close>

section \<open>Types and constants\<close>

definition DEFAULT_TIMEOUT_MS :: nat where "DEFAULT_TIMEOUT_MS = 5000"
definition DEFAULT_MAX_RETRIES :: nat where "DEFAULT_MAX_RETRIES = 5"
definition BLOCK_SPACE :: nat where "BLOCK_SPACE = 65536"

datatype transfer_phase = Idle | SendOACK | Sending | SentLast | RecvInitialACK | Receiving
  | Failed | Done

datatype request_kind = ReadRequest | WriteRequest

record peer =
  address :: string
  port :: nat

record transfer_init =
  init_peer :: peer
  init_opcode :: request_kind
  init_filename :: string
  init_absFilePath :: string
  init_mode :: transfer_mode
  init_rawOptions :: raw_options

record outbound_packet =
  out_blockNum :: "u16 option"
  out_buffer :: buffer

record session =
  speer :: peer
  opcode :: request_kind
  filename :: string
  absFilePath :: string
  smode :: transfer_mode
  opts :: validated_options
  phase :: transfer_phase
  errorCode :: "error_code option"
  errorMessage :: "string option"
  blockNum :: u16
  lastAcked :: u16
  fileSize :: nat
  bytesTransferred :: nat
  lastActivity :: int
  retries :: nat
  timeoutMs :: nat
  tsizeAtStart :: "nat option"
  fileHandle :: bool
  readLeftover :: buffer
  fileOffset :: nat
  startedAt :: int
  speedBps :: rat
  lastMetricsSample :: int
  outboundQueue :: "outbound_packet list"
  outboundSentLast :: int
  retxBackoffMs :: nat

record transfer_metrics =
  m_speedBps :: rat
  m_etaSec :: "rat option"
  m_startedAt :: int

datatype io_error = IoError string string   \<comment> \<open>\<open>err.code\<close> and \<open>err.message\<close>\<close>

record file_io =
  openFile :: "io_error option"
  readFile :: "nat \<Rightarrow> nat \<Rightarrow> io_error + buffer"

record ack_result =
  ack_send :: "buffer list"
  ack_produceMore :: bool
  ack_done :: bool

record data_result =
  data_send :: "buffer list"
  data_write :: "buffer option"
  data_done :: bool

section \<open>Block numbers\<close>

definition blockDistance :: "u16 \<Rightarrow> u16 \<Rightarrow> nat" where
  "blockDistance from to = (unat to + BLOCK_SPACE - unat from) mod BLOCK_SPACE"

definition blockAtOrAfter :: "u16 \<Rightarrow> u16 \<Rightarrow> bool" where
  "blockAtOrAfter earlier later \<longleftrightarrow> blockDistance earlier later < BLOCK_SPACE div 2"

text \<open>The advance \<open>blockNum >= 65535 ? 1 : blockNum + 1\<close> of \<open>handleDATA\<close> and
  \<open>produceNextSendPackets\<close>.\<close>

definition advanceBlock :: "u16 \<Rightarrow> u16" where
  "advanceBlock b = (if 65535 \<le> unat b then 1 else b + 1)"

section \<open>Construction\<close>

definition setError :: "error_code \<Rightarrow> string \<Rightarrow> session \<Rightarrow> session" where
  "setError code message s =
     s\<lparr>phase := Failed, errorCode := Some code, errorMessage := Some message\<rparr>"

definition new_session :: "int \<Rightarrow> transfer_init \<Rightarrow> session" where
  "new_session now ini =
     (let s = \<lparr> speer = init_peer ini, opcode = init_opcode ini, filename = init_filename ini,
                absFilePath = init_absFilePath ini, smode = init_mode ini,
                opts = \<lparr>blksize = DEFAULT_BLOCK_SIZE, windowsize = DEFAULT_WINDOW_SIZE,
                        timeout = None, tsize = None\<rparr>,
                phase = Idle, errorCode = None, errorMessage = None,
                blockNum = 0, lastAcked = 0, fileSize = 0, bytesTransferred = 0,
                lastActivity = now, retries = 0, timeoutMs = DEFAULT_TIMEOUT_MS,
                tsizeAtStart = None, fileHandle = False, readLeftover = [], fileOffset = 0,
                startedAt = now, speedBps = 0, lastMetricsSample = now,
                outboundQueue = [], outboundSentLast = now,
                retxBackoffMs = DEFAULT_TIMEOUT_MS \<rparr>;
          s1 = (case validateOptions (init_rawOptions ini) session_defaults of
                  Inr validated \<Rightarrow> s\<lparr>opts := validated\<rparr>
                | Inl (ProtocolError message) \<Rightarrow> setError OptionNegotiation message s);
          s2 = (case timeout (opts s1) of
                  Some t \<Rightarrow> s1\<lparr>timeoutMs := t * 1000\<rparr> | None \<Rightarrow> s1)
      in s2\<lparr>retxBackoffMs := timeoutMs s2\<rparr>)"

definition transferId :: "session \<Rightarrow> string" where
  "transferId s = address (speer s) @ '':'' @ show_nat (port (speer s))"

section \<open>Timers, errors, metrics\<close>

definition touch :: "int \<Rightarrow> session \<Rightarrow> session" where
  "touch now s = s\<lparr>lastActivity := now, retxBackoffMs := timeoutMs s\<rparr>"

definition isTimedOut :: "int \<Rightarrow> session \<Rightarrow> bool" where
  "isTimedOut now s \<longleftrightarrow> int (timeoutMs s * (retries s + 1)) < now - lastActivity s"

definition closeFile :: "session \<Rightarrow> session" where
  "closeFile s = (if fileHandle s then s\<lparr>fileHandle := False\<rparr> else s)"

definition updateMetrics :: "nat \<Rightarrow> int \<Rightarrow> session \<Rightarrow> session" where
  "updateMetrics deltaBytes now s =
     (let elapsedMs = now - lastMetricsSample s in
      if 200 \<le> elapsedMs then
        (let instantSpeed = (if 0 < deltaBytes
                             then (of_nat deltaBytes * 1000) / of_int (max 1 elapsedMs) else 0 :: rat)
         in s\<lparr>speedBps := (if speedBps s = 0 then instantSpeed
                            else 1 / 4 * instantSpeed + (1 - 1 / 4) * speedBps s),
              lastMetricsSample := now\<rparr>)
      else s)"

definition getMetrics :: "int \<Rightarrow> session \<Rightarrow> session \<times> transfer_metrics" where
  "getMetrics now s =
     (let s1 = updateMetrics 0 now s;
          eta = (if opcode s1 = ReadRequest \<and> 0 < fileSize s1 \<and> 0 < speedBps s1
                 then Some (of_nat (fileSize s1 - bytesTransferred s1) / speedBps s1)
                 else case tsizeAtStart s1 of
                        Some t \<Rightarrow> if 0 < t \<and> 0 < speedBps s1
                                  then Some (of_nat (t - bytesTransferred s1) / speedBps s1)
                                  else None
                      | None \<Rightarrow> None)
      in (s1, \<lparr>m_speedBps = speedBps s1, m_etaSec = eta, m_startedAt = startedAt s1\<rparr>))"

section \<open>The retransmission queue\<close>

definition outbound_of :: "buffer \<Rightarrow> outbound_packet" where
  "outbound_of pkt =
     \<lparr> out_blockNum = (if readUInt16BE pkt = Some op_DATA \<or> readUInt16BE pkt = Some op_ACK
                       then readUInt16BE (drop 2 pkt) else None),
       out_buffer = pkt \<rparr>"

definition recordOutbound :: "int \<Rightarrow> buffer list \<Rightarrow> session \<Rightarrow> session" where
  "recordOutbound now packets s =
     (let q = outboundQueue s @ map outbound_of packets
      in s\<lparr>outboundQueue := (if MAX_RETRANSMISSION_PACKETS < length q
                              then drop (length q - MAX_RETRANSMISSION_PACKETS) q else q),
           outboundSentLast := now\<rparr>)"

definition confirmedBy :: "u16 \<Rightarrow> outbound_packet \<Rightarrow> bool" where
  "confirmedBy ackBlockNum p \<longleftrightarrow>
     (case out_blockNum p of
        None \<Rightarrow> True
      | Some b \<Rightarrow> ackBlockNum \<noteq> 0 \<and> blockAtOrAfter b ackBlockNum)"

definition clearOutboundUpToAck :: "u16 \<Rightarrow> session \<Rightarrow> session" where
  "clearOutboundUpToAck ackBlockNum s =
     s\<lparr>outboundQueue := dropWhile (confirmedBy ackBlockNum) (outboundQueue s),
       retxBackoffMs := timeoutMs s\<rparr>"

definition timeForRetransmission :: "int \<Rightarrow> session \<Rightarrow> bool" where
  "timeForRetransmission now s \<longleftrightarrow>
     outboundQueue s \<noteq> [] \<and> int (retxBackoffMs s) \<le> now - outboundSentLast s"

definition consumeRetransmission :: "int \<Rightarrow> session \<Rightarrow> session \<times> buffer list option" where
  "consumeRetransmission now s =
     (if outboundQueue s = [] then (s, None)
      else
        (let s1 = s\<lparr>retries := retries s + 1\<rparr> in
         if DEFAULT_MAX_RETRIES < retries s1
         then (setError NotDefined ''Max retries exceeded'' s1, None)
         else (s1\<lparr>retxBackoffMs := min (retxBackoffMs s1 * 2) 60000,
                  outboundSentLast := now, lastActivity := now\<rparr>,
               Some (map out_buffer (outboundQueue s1)))))"

section \<open>Requests\<close>

definition initForRRQ :: "bool \<Rightarrow> nat \<Rightarrow> session \<Rightarrow> session \<times> buffer list" where
  "initForRRQ hasOptions fsize s =
     (let s1 = s\<lparr>fileSize := fsize, bytesTransferred := 0, blockNum := 0, lastAcked := 0,
                 fileOffset := 0, readLeftover := []\<rparr>;
          s2 = (if tsize (opts s1) = Some 0
                then s1\<lparr>opts := (opts s1)\<lparr>tsize := Some fsize\<rparr>\<rparr> else s1);
          s3 = s2\<lparr>tsizeAtStart := Some fsize\<rparr>
      in if hasOptions
         then (s3\<lparr>phase := SendOACK\<rparr>, [encodeOACK (validatedToRaw (opts s3))])
         else (s3\<lparr>phase := Sending\<rparr>, []))"

definition initForWRQ :: "bool \<Rightarrow> session \<Rightarrow> session \<times> buffer list" where
  "initForWRQ hasOptions s =
     (let s1 = s\<lparr>bytesTransferred := 0, blockNum := 1, lastAcked := 0,
                 tsizeAtStart := tsize (opts s)\<rparr>
      in if hasOptions
         then (s1\<lparr>phase := SendOACK\<rparr>, [encodeOACK (validatedToRaw (opts s1))])
         else (s1\<lparr>phase := RecvInitialACK\<rparr>, [encodeACK 0]))"

definition makeErrorPacket :: "session \<Rightarrow> buffer" where
  "makeErrorPacket s = encodeERROR (or_default (errorCode s) NotDefined) (errorMessage s)"

section \<open>Acknowledgements\<close>

abbreviation ack_nothing :: ack_result where
  "ack_nothing \<equiv> \<lparr>ack_send = [], ack_produceMore = False, ack_done = False\<rparr>"

abbreviation ack_more :: ack_result where
  "ack_more \<equiv> \<lparr>ack_send = [], ack_produceMore = True, ack_done = False\<rparr>"

abbreviation ack_finished :: ack_result where
  "ack_finished \<equiv> \<lparr>ack_send = [], ack_produceMore = False, ack_done = True\<rparr>"

definition handleACK :: "int \<Rightarrow> u16 \<Rightarrow> session \<Rightarrow> session \<times> ack_result" where
  "handleACK now n s =
     (if phase s = SendOACK then
        (if n \<noteq> 0 then (s, ack_nothing)
         else
           (let s1 = clearOutboundUpToAck n ((touch now s)\<lparr>retries := 0\<rparr>) in
            if opcode s1 = ReadRequest then (s1\<lparr>phase := Sending\<rparr>, ack_more)
            else (s1\<lparr>phase := Receiving\<rparr>, ack_nothing)))
      else
        (let s1 = (touch now s)\<lparr>retries := 0\<rparr> in
         if phase s1 = SentLast then
           (let s2 = clearOutboundUpToAck n s1 in
            if n = blockNum s2 \<or> n = 0 then (s2\<lparr>phase := Done\<rparr>, ack_finished)
            else (s2, ack_nothing))
         else if phase s1 = Sending then
           (let s2 = clearOutboundUpToAck n s1 in
            if n = 0 \<and> blockNum s2 = 0 then (s2, ack_more)
            else if \<not> blockAtOrAfter (lastAcked s2) n then (s2, ack_nothing)
            else
              (let s3 = s2\<lparr>lastAcked := n\<rparr> in
               if blockDistance (lastAcked s3) (blockNum s3) < windowsize (opts s3)
               then (s3, ack_more) else (s3, ack_nothing)))
         else (s1, ack_nothing)))"

section \<open>Received data\<close>

abbreviation data_ignored :: data_result where
  "data_ignored \<equiv> \<lparr>data_send = [], data_write = None, data_done = False\<rparr>"

definition previousBlock :: "session \<Rightarrow> u16" where
  "previousBlock s = (if unat (blockNum s) \<le> 1 then 65535 else blockNum s - 1)"

definition wrongBlockMessage :: "u16 \<Rightarrow> session \<Rightarrow> string" where
  "wrongBlockMessage n s =
     ''Block '' @ show_nat (unat n) @ '' expected '' @ show_nat (unat (blockNum s))"

text \<open>The part of \<open>handleDATA\<close> after the phase has been settled as \<open>Receiving\<close>.\<close>

definition receiveBlock :: "int \<Rightarrow> u16 \<Rightarrow> buffer \<Rightarrow> session \<Rightarrow> session \<times> data_result" where
  "receiveBlock now n data s =
     (if n = previousBlock s then
        ((touch now s)\<lparr>retries := 0\<rparr>,
         \<lparr>data_send = [encodeACK (previousBlock s)], data_write = None, data_done = False\<rparr>)
      else if n \<noteq> blockNum s then
        (let s1 = setError IllegalOperation (wrongBlockMessage n s) s
         in (s1, \<lparr>data_send = [makeErrorPacket s1], data_write = None, data_done = True\<rparr>))
      else if blksize (opts s) < length data then
        (let s1 = setError IllegalOperation ''DATA exceeds blksize'' s
         in (s1, \<lparr>data_send = [makeErrorPacket s1], data_write = None, data_done = True\<rparr>))
      else
        (let s1 = (touch now s)\<lparr>retries := 0\<rparr>;
             isLast = length data < blksize (opts s1);
             currentBlock = blockNum s1;
             s2 = updateMetrics (length data) now
                    (s1\<lparr>bytesTransferred := bytesTransferred s1 + length data\<rparr>);
             s3 = (if isLast then s2 else s2\<lparr>blockNum := advanceBlock (blockNum s2)\<rparr>);
             shouldAck = (isLast \<or> windowsize (opts s3) \<le> blockDistance (lastAcked s3) currentBlock)
         in if shouldAck then
              (let s4 = s3\<lparr>lastAcked := currentBlock\<rparr>;
                   s5 = (if isLast then s4\<lparr>phase := Done\<rparr> else s4)
               in (clearOutboundUpToAck currentBlock s5,
                   \<lparr>data_send = [encodeACK currentBlock], data_write = Some data,
                    data_done = isLast\<rparr>))
            else (s3, \<lparr>data_send = [], data_write = Some data, data_done = False\<rparr>)))"

definition handleDATA :: "int \<Rightarrow> u16 \<Rightarrow> buffer \<Rightarrow> session \<Rightarrow> session \<times> data_result" where
  "handleDATA now n data s =
     (if phase s = SendOACK then
        (if opcode s \<noteq> WriteRequest \<or> n \<noteq> 1 then (s, data_ignored)
         else receiveBlock now n data (clearOutboundUpToAck 0 (s\<lparr>phase := Receiving\<rparr>)))
      else if phase s = RecvInitialACK then receiveBlock now n data (s\<lparr>phase := Receiving\<rparr>)
      else if phase s \<noteq> Receiving then (s, data_ignored)
      else receiveBlock now n data s)"

section \<open>Produced data\<close>

text \<open>
  One chunk of the file: the leftover of an earlier read, or a read at the explicit offset.
  A chunk longer than a block would leave its tail over.
\<close>

definition nextChunk :: "file_io \<Rightarrow> session \<Rightarrow> io_error + session \<times> buffer" where
  "nextChunk io s =
     (let target = blksize (opts s);
          got = (if readLeftover s \<noteq> []
                 then Inr (s\<lparr>readLeftover := []\<rparr>, readLeftover s)
                 else case readFile io (fileOffset s) target of
                        Inl e \<Rightarrow> Inl e
                      | Inr chunk \<Rightarrow>
                          Inr (s\<lparr>fileOffset := fileOffset s + length chunk\<rparr>, chunk))
      in case got of
           Inl e \<Rightarrow> Inl e
         | Inr (s1, chunk) \<Rightarrow>
             if target < length chunk
             then Inr (s1\<lparr>readLeftover := drop target chunk\<rparr>, take target chunk)
             else Inr (s1, chunk))"

definition windowOpen :: "session \<Rightarrow> bool" where
  "windowOpen s \<longleftrightarrow>
     phase s = Sending \<and> blockDistance (lastAcked s) (blockNum s) < windowsize (opts s)"

text \<open>
  The loop of \<open>produceNextSendPackets\<close>. \<open>None\<close> when the fuel runs out before the window is
  full; \<open>Inl\<close> is an exception of \<open>open\<close> or \<open>read\<close>, with the session as the exception leaves it.
\<close>

fun produceLoop ::
  "nat \<Rightarrow> file_io \<Rightarrow> bool \<Rightarrow> session \<Rightarrow> buffer list \<Rightarrow> (session \<times> (io_error + buffer list)) option" where
  "produceLoop fuel io reachedEOF s out =
     (if \<not> windowOpen s then Some (s, Inr out)
      else case fuel of
        0 \<Rightarrow> None
      | Suc fuel' \<Rightarrow>
          (case (if fileHandle s then None else openFile io) of
             Some e \<Rightarrow> Some (s, Inl e)
           | None \<Rightarrow>
               (let s0 = s\<lparr>fileHandle := True\<rparr> in
                case nextChunk io s0 of
                  Inl e \<Rightarrow> Some (s0, Inl e)
                | Inr (s1, chunk) \<Rightarrow>
                    (let s2 = s1\<lparr>blockNum := advanceBlock (blockNum s1)\<rparr>;
                         isLastChunk = (length chunk < blksize (opts s2) \<or> reachedEOF);
                         s3 = (if isLastChunk then s2\<lparr>phase := SentLast\<rparr> else s2);
                         s4 = s3\<lparr>bytesTransferred := bytesTransferred s3 + length chunk\<rparr>
                     in produceLoop fuel' io reachedEOF s4 (out @ [encodeDATA (blockNum s4) chunk])))))"

declare produceLoop.simps [simp del]

definition produceNextSendPackets ::
  "int \<Rightarrow> file_io \<Rightarrow> bool \<Rightarrow> session \<Rightarrow> (session \<times> (io_error + buffer list)) option" where
  "produceNextSendPackets now io abortAtEOF s =
     (case produceLoop (windowsize (opts s)) io abortAtEOF s [] of
        None \<Rightarrow> None
      | Some (s1, Inl e) \<Rightarrow> Some (s1, Inl e)
      | Some (s1, Inr out) \<Rightarrow>
          (let delta = bytesTransferred s1 - bytesTransferred s
           in Some (if 0 < delta then updateMetrics delta now s1 else s1, Inr out)))"

section \<open>Sequence numbers\<close>

lemma blockDistance_cases:
  "blockDistance a b =
    (if unat a \<le> unat b then unat b - unat a else unat b + 65536 - unat a)"
proof (cases "unat a \<le> unat b")
  case True
  then have "unat b + 65536 - unat a = (unat b - unat a) + 65536" by simp
  moreover have "unat b - unat a < 65536" by (simp add: less_imp_diff_less)
  ultimately show ?thesis
    using True by (simp add: blockDistance_def BLOCK_SPACE_def del: diff_add_assoc2 add_diff_assoc2)
next
  case False
  then have "unat b + 65536 - unat a < 65536" by simp
  with False show ?thesis by (simp add: blockDistance_def BLOCK_SPACE_def)
qed

lemma blockDistance_less: "blockDistance a b < 65536"
  by (simp add: blockDistance_def BLOCK_SPACE_def)

lemma blockDistance_self [simp]: "blockDistance b b = 0"
  by (simp add: blockDistance_cases)

lemma unat_advanceBlock: "unat (advanceBlock b) = (if unat b = 65535 then 1 else unat b + 1)"
  using unat_u16_le [of b] by (auto simp: advanceBlock_def unat_word_ariths)

lemma advanceBlock_nonzero [simp]: "advanceBlock b \<noteq> 0"
  using unat_advanceBlock [of b] by (auto split: if_splits)

lemma blockDistance_advance:
  assumes "blockDistance a b < 65534"
  shows "blockDistance a (advanceBlock b) = blockDistance a b + (if unat b = 65535 then 2 else 1)"
  using assms unat_u16_le [of a] unat_u16_le [of b]
  by (auto simp: blockDistance_cases unat_advanceBlock split: if_splits)

text \<open>The number on the wire of the \<open>i\<close>-th block of a transfer, counted from 1.\<close>

definition wireBlock :: "nat \<Rightarrow> u16" where
  "wireBlock i = (advanceBlock ^^ i) 0"

lemma wireBlock_0 [simp]: "wireBlock 0 = 0"
  by (simp add: wireBlock_def)

lemma wireBlock_Suc: "wireBlock (Suc i) = advanceBlock (wireBlock i)"
  by (simp add: wireBlock_def)

lemma unat_wireBlock: "unat (wireBlock (Suc i)) = i mod 65535 + 1"
proof (induction i)
  case 0
  show ?case by (simp add: wireBlock_Suc unat_advanceBlock)
next
  case (Suc i)
  show ?case
    by (subst wireBlock_Suc) (simp add: unat_advanceBlock Suc mod_Suc)
qed

lemma mod_eq_near:
  fixes i j m :: nat
  assumes "i mod m = j mod m" "i < j + m" "j < i + m"
  shows "i = j"
proof -
  have "a = b" if "a \<le> b" "a mod m = b mod m" "b < a + m" for a b
  proof (rule ccontr)
    assume "a \<noteq> b"
    have "m dvd b - a" using that(1,2) by (metis mod_eq_dvd_iff_nat)
    then have "m \<le> b - a" using \<open>a \<noteq> b\<close> that(1) by (intro dvd_imp_le) auto
    with that show False by simp
  qed
  with assms show ?thesis by (metis nat_le_linear)
qed

lemma wireBlock_eq_iff:
  assumes "i < j + 65535" "j < i + 65535"
  shows "wireBlock (Suc i) = wireBlock (Suc j) \<longleftrightarrow> i = j"
proof
  assume "wireBlock (Suc i) = wireBlock (Suc j)"
  then have "i mod 65535 = j mod 65535" using unat_wireBlock [of i] unat_wireBlock [of j] by simp
  then show "i = j" using assms by (rule mod_eq_near)
qed simp

section \<open>What the operations leave alone\<close>

lemma touch_fields [simp]:
  "opcode (touch now s) = opcode s" "opts (touch now s) = opts s" "phase (touch now s) = phase s"
  "blockNum (touch now s) = blockNum s" "lastAcked (touch now s) = lastAcked s"
  by (simp_all add: touch_def)

lemma clearOutbound_fields [simp]:
  "opcode (clearOutboundUpToAck a s) = opcode s" "opts (clearOutboundUpToAck a s) = opts s"
  "phase (clearOutboundUpToAck a s) = phase s" "blockNum (clearOutboundUpToAck a s) = blockNum s"
  "lastAcked (clearOutboundUpToAck a s) = lastAcked s"
  by (simp_all add: clearOutboundUpToAck_def)

lemma updateMetrics_fields [simp]:
  "opcode (updateMetrics d now s) = opcode s" "opts (updateMetrics d now s) = opts s"
  "phase (updateMetrics d now s) = phase s" "blockNum (updateMetrics d now s) = blockNum s"
  "lastAcked (updateMetrics d now s) = lastAcked s"
  by (simp_all add: updateMetrics_def Let_def)

lemma recordOutbound_fields [simp]:
  "opcode (recordOutbound now p s) = opcode s" "phase (recordOutbound now p s) = phase s"
  "blockNum (recordOutbound now p s) = blockNum s" "lastAcked (recordOutbound now p s) = lastAcked s"
  by (simp_all add: recordOutbound_def Let_def)

abbreviation sessionDistance :: "session \<Rightarrow> nat" where
  "sessionDistance s \<equiv> blockDistance (lastAcked s) (blockNum s)"

section \<open>Producing packets always ends\<close>

lemma nextChunk_frame:
  assumes "nextChunk io s = Inr (s1, chunk)"
  shows "opts s1 = opts s \<and> lastAcked s1 = lastAcked s \<and> blockNum s1 = blockNum s
    \<and> phase s1 = phase s \<and> length chunk \<le> blksize (opts s)"
  using assms by (auto simp: nextChunk_def Let_def split: if_splits sum.splits)

definition sentChunk :: "bool \<Rightarrow> buffer \<Rightarrow> session \<Rightarrow> session" where
  "sentChunk eof chunk s1 =
     (let s2 = s1\<lparr>blockNum := advanceBlock (blockNum s1)\<rparr>;
          s3 = (if length chunk < blksize (opts s2) \<or> eof then s2\<lparr>phase := SentLast\<rparr> else s2)
      in s3\<lparr>bytesTransferred := bytesTransferred s3 + length chunk\<rparr>)"

lemma sentChunk_fields [simp]:
  "opts (sentChunk eof chunk s) = opts s" "lastAcked (sentChunk eof chunk s) = lastAcked s"
  "blockNum (sentChunk eof chunk s) = advanceBlock (blockNum s)"
  by (simp_all add: sentChunk_def Let_def)

lemma produceLoop_cases:
  obtains (stop) "\<And>out. produceLoop (Suc fuel) io eof s out = Some (s, Inr out)"
  | (exc) t e where "t = s \<or> t = s\<lparr>fileHandle := True\<rparr>" "\<And>out. produceLoop (Suc fuel) io eof s out = Some (t, Inl e)"
  | (iterate) s1 chunk where "windowOpen s" "nextChunk io (s\<lparr>fileHandle := True\<rparr>) = Inr (s1, chunk)"
      "\<And>out. produceLoop (Suc fuel) io eof s out = produceLoop fuel io eof (sentChunk eof chunk s1)
         (out @ [encodeDATA (advanceBlock (blockNum s)) chunk])"
proof (cases "windowOpen s")
  case False
  then show ?thesis by (intro stop) (subst produceLoop.simps, simp)
next
  case open1: True
  show ?thesis
  proof (cases "if fileHandle s then None else openFile io")
    case (Some e)
    with open1 show ?thesis by (intro exc [of s e]) (simp_all add: produceLoop.simps [of "Suc fuel"])
  next
    case opened: None
    show ?thesis
    proof (cases "nextChunk io (s\<lparr>fileHandle := True\<rparr>)")
      case (Inl e)
      with open1 opened show ?thesis
        by (intro exc [of "s\<lparr>fileHandle := True\<rparr>" e]) (simp_all add: produceLoop.simps [of "Suc fuel"])
    next
      case (Inr p)
      obtain s1 chunk where p: "p = (s1, chunk)" by fastforce
      with Inr nextChunk_frame [of io _ s1 chunk] have "blockNum s1 = blockNum s" by fastforce
      with open1 opened Inr p show ?thesis
        by (intro iterate [of s1 chunk]) (auto simp: sentChunk_def Let_def produceLoop.simps [of "Suc fuel"])
    qed
  qed
qed

lemma produceLoop_total:
  assumes "windowsize (opts s) \<le> 65534" "windowsize (opts s) \<le> fuel + sessionDistance s"
  shows "\<exists>s' r. produceLoop fuel io eof s out = Some (s', r) \<and>
    (\<forall>pkts. r = Inr pkts \<longrightarrow> (\<exists>new. pkts = out @ new \<and> length new \<le> fuel
       \<and> list_all (\<lambda>p. length p \<le> 4 + blksize (opts s)) new))"
  using assms
proof (induction fuel arbitrary: s out)
  case 0
  then have "\<not> windowOpen s" by (simp add: windowOpen_def)
  then show ?case by (subst produceLoop.simps) simp
next
  case (Suc fuel)
  show ?case
  proof (cases rule: produceLoop_cases [of fuel io eof s])
    case (iterate s1 chunk)
    let ?s4 = "sentChunk eof chunk s1" and ?pkt = "encodeDATA (advanceBlock (blockNum s)) chunk"
    from nextChunk_frame [OF iterate(2)]
    have f: "opts s1 = opts s" "lastAcked s1 = lastAcked s" "blockNum s1 = blockNum s"
      "length chunk \<le> blksize (opts s)" by simp_all
    have "sessionDistance s < 65534" using iterate(1) Suc.prems(1) by (simp add: windowOpen_def)
    then have "sessionDistance s + 1 \<le> sessionDistance ?s4"
      using f blockDistance_advance [of "lastAcked s" "blockNum s"] by simp
    then have "windowsize (opts ?s4) \<le> fuel + sessionDistance ?s4" using Suc.prems(2) f by simp
    with Suc.IH [of ?s4 "out @ [?pkt]"] Suc.prems(1) f
    obtain s' r where r: "produceLoop fuel io eof ?s4 (out @ [?pkt]) = Some (s', r)"
      "\<forall>pkts. r = Inr pkts \<longrightarrow> (\<exists>new. pkts = (out @ [?pkt]) @ new \<and> length new \<le> fuel
         \<and> list_all (\<lambda>p. length p \<le> 4 + blksize (opts s)) new)" by auto
    have "length ?pkt \<le> 4 + blksize (opts s)" using f by (simp add: encodeDATA_def)
    with r iterate(3) show ?thesis by (intro exI [of _ s'] exI [of _ r]) fastforce
  qed simp_all
qed

text \<open>A request for the largest block and window, used as the concrete case below.\<close>

definition example_init :: "request_kind \<Rightarrow> transfer_init" where
  "example_init k = \<lparr>init_peer = \<lparr>address = ''10.0.0.9'', port = 4242\<rparr>, init_opcode = k,
     init_filename = ''boot.img'', init_absFilePath = ''/srv/boot.img'', init_mode = Octet,
     init_rawOptions = big_request\<rparr>"

lemma example_init_idle: "phase (new_session 0 (example_init k)) = Idle"
  by (simp add: new_session_def example_init_def big_request_options)


lemma new_session_limits: "within_limits (opts (new_session now ini))"
proof -
  have d: "within_limits \<lparr>blksize = DEFAULT_BLOCK_SIZE, windowsize = DEFAULT_WINDOW_SIZE, timeout = None, tsize = None\<rparr>"
    by (simp add: within_limits_def tftp_limits)
  show ?thesis
  proof (cases "validateOptions (init_rawOptions ini) session_defaults")
    case (Inl e)
    with d show ?thesis
      by (cases e) (simp add: new_session_def Let_def setError_def split: option.splits)
  next
    case (Inr v)
    moreover from Inr have "within_limits v" using validateOptions_within session_defaults_same by metis
    ultimately show ?thesis by (simp add: new_session_def Let_def split: option.splits)
  qed
qed

text \<open>
  Producing packets always ends, with at most a window of packets of at most a block each.
  For every session whose options are within the negotiated limits, and whatever the file
  operations do, the loop of \<open>produceNextSendPackets\<close> ends within \<open>windowsize\<close> iterations. When
  no file operation fails it returns at most \<open>windowsize\<close> packets, none longer than a block
  and its header.
\<close>

theorem produce_bounded:
  assumes "within_limits (opts s)"
  shows "\<exists>s' r. produceNextSendPackets now io eof s = Some (s', r) \<and>
    (\<forall>pkts. r = Inr pkts \<longrightarrow> length pkts \<le> windowsize (opts s)
       \<and> list_all (\<lambda>p. length p \<le> 4 + blksize (opts s)) pkts)"
proof -
  from assms have "windowsize (opts s) \<le> 65534" by (simp add: within_limits_def tftp_limits)
  from produceLoop_total [OF this, of "windowsize (opts s)" io eof "[]"] obtain s' r where
    "produceLoop (windowsize (opts s)) io eof s [] = Some (s', r)"
    "\<forall>pkts. r = Inr pkts \<longrightarrow> length pkts \<le> windowsize (opts s)
       \<and> list_all (\<lambda>p. length p \<le> 4 + blksize (opts s)) pkts" by auto
  then show ?thesis by (cases r) (simp_all add: produceNextSendPackets_def Let_def)
qed

theorem produce_bounded_witness:
  "\<exists>s' r. produceNextSendPackets 0 \<lparr>openFile = None, readFile = (\<lambda>off n. Inr [])\<rparr> False
      (new_session 0 (example_init ReadRequest)) = Some (s', r) \<and>
    (\<forall>pkts. r = Inr pkts \<longrightarrow> length pkts \<le> 16 \<and> list_all (\<lambda>p. length p \<le> 65468) pkts)"
proof -
  have o: "opts (new_session 0 (example_init ReadRequest))
      = \<lparr>blksize = 65464, windowsize = 16, timeout = Some 3, tsize = None\<rparr>"
    by (simp add: new_session_def example_init_def big_request_options)
  show ?thesis
    using produce_bounded [OF new_session_limits, of 0 "\<lparr>openFile = None, readFile = (\<lambda>off n. Inr [])\<rparr>"
      False 0 "example_init ReadRequest"] unfolding o by simp
qed

end
