(* ===== verification/Tftp_Transfer.thy ===== *)
theory Tftp_Transfer
  imports Tftp_Session
begin

text \<open>
  Whole transfers of \<open>TransferSession.ts\<close>: a file served block by block while acknowledgements
  arrive, are lost or repeated, and a file received the same way. The calls are those of
  \<open>TftpEngine.routeExisting\<close> and of its timer, in any order.
\<close>

section \<open>Serving a file\<close>

locale served_file =
  fixes io :: file_io and content :: buffer
  assumes open_ok: "openFile io = None"
    and read_at: "readFile io off n = Inr (take n (drop off content))"

definition io_of_content :: "buffer \<Rightarrow> file_io" where
  "io_of_content c = \<lparr>openFile = None, readFile = (\<lambda>off n. Inr (take n (drop off c)))\<rparr>"

text \<open>The blocks of a file: full blocks, then one that is shorter (it may be empty).\<close>

definition fileBlock :: "nat \<Rightarrow> buffer \<Rightarrow> nat \<Rightarrow> buffer" where
  "fileBlock b c k = take b (drop (k * b) c)"

definition blockCount :: "nat \<Rightarrow> buffer \<Rightarrow> nat" where
  "blockCount b c = length c div b + 1"

definition dataPacket :: "nat \<Rightarrow> buffer \<Rightarrow> nat \<Rightarrow> buffer" where
  "dataPacket b c k = encodeDATA (wireBlock (Suc k)) (fileBlock b c k)"

definition filePackets :: "nat \<Rightarrow> buffer \<Rightarrow> buffer list" where
  "filePackets b c = map (dataPacket b c) [0..<blockCount b c]"

definition sender_inv :: "buffer \<Rightarrow> nat \<Rightarrow> session \<Rightarrow> bool" where
  "sender_inv c k s \<longleftrightarrow>
     opcode s = ReadRequest \<and> within_limits (opts s) \<and> readLeftover s = []
     \<and> blockNum s = wireBlock k \<and> k \<le> blockCount (blksize (opts s)) c
     \<and> phase s \<in> {SendOACK, Sending, SentLast, Done, Failed}
     \<and> (phase s = SendOACK \<longrightarrow> k = 0)
     \<and> (phase s = SendOACK \<or> phase s = Sending \<longrightarrow>
          fileOffset s = k * blksize (opts s) \<and> k * blksize (opts s) \<le> length c)
     \<and> (phase s = SentLast \<or> phase s = Done \<longrightarrow> k = blockCount (blksize (opts s)) c)"

lemma length_fileBlock: "length (fileBlock b c k) = min b (length c - k * b)"
  by (simp add: fileBlock_def)

lemma concat_fileBlocks:
  assumes "0 < b"
  shows "concat (map (fileBlock b c) [0..<n]) = take (n * b) c"
proof (induction n)
  case (Suc n)
  then show ?case by (simp add: fileBlock_def take_add [symmetric] add.commute)
qed simp

lemma last_block_iff:
  assumes "0 < b" "k * b \<le> length c"
  shows "length (fileBlock b c k) < b \<longleftrightarrow> Suc k = blockCount b c"
proof
  assume "length (fileBlock b c k) < b"
  then have "length c < Suc k * b" using assms by (simp add: length_fileBlock min_def split: if_splits)
  moreover have "k * b \<le> length c" by fact
  ultimately have "length c div b = k"
    by (metis Suc_leI assms(1) div_less_iff_less_mult less_Suc_eq_le less_eq_div_iff_mult_less_eq nle_le)
  then show "Suc k = blockCount b c" by (simp add: blockCount_def)
next
  assume "Suc k = blockCount b c"
  then have "length c < Suc k * b" using assms(1)
    by (simp add: blockCount_def) (metis add.commute dividend_less_div_times mult.commute)
  then show "length (fileBlock b c k) < b" using assms by (simp add: length_fileBlock)
qed

lemma full_block_next:
  assumes "0 < b" "k * b \<le> length c" "\<not> length (fileBlock b c k) < b"
  shows "Suc k * b \<le> length c \<and> length (fileBlock b c k) = b \<and> Suc k \<le> blockCount b c"
proof -
  have l: "length (fileBlock b c k) = b" "Suc k * b \<le> length c"
    using assms by (auto simp: length_fileBlock)
  have "Suc k \<le> length c div b" using l(2) assms(1) by (simp add: less_eq_div_iff_mult_less_eq)
  with l show ?thesis by (simp add: blockCount_def)
qed

text \<open>The session after one more block of the file has been sent.\<close>

definition afterBlock :: "buffer \<Rightarrow> nat \<Rightarrow> session \<Rightarrow> session" where
  "afterBlock c k s =
     (let b = blksize (opts s); blk = fileBlock b c k;
          s2 = s\<lparr>fileHandle := True, fileOffset := k * b + length blk, blockNum := wireBlock (Suc k)\<rparr>;
          s3 = (if length blk < b then s2\<lparr>phase := SentLast\<rparr> else s2)
      in s3\<lparr>bytesTransferred := bytesTransferred s + length blk\<rparr>)"

lemma afterBlock_fields [simp]:
  "opts (afterBlock c k s) = opts s" "lastAcked (afterBlock c k s) = lastAcked s"
  "blockNum (afterBlock c k s) = wireBlock (Suc k)" "opcode (afterBlock c k s) = opcode s"
  by (simp_all add: afterBlock_def Let_def)

lemma afterBlock_phase: "phase s = Sending \<Longrightarrow> phase (afterBlock c k s) \<noteq> Failed"
  by (simp add: afterBlock_def Let_def)

lemma sender_inv_afterBlock:
  assumes inv: "sender_inv c k s" and sending: "phase s = Sending"
  shows "sender_inv c (Suc k) (afterBlock c k s)"
proof -
  let ?b = "blksize (opts s)" and ?blk = "fileBlock (blksize (opts s)) c k"
  from inv sending have b: "0 < ?b" and off: "k * ?b \<le> length c"
    by (auto simp: sender_inv_def within_limits_def)
  show ?thesis
  proof (cases "length ?blk < ?b")
    case True
    with inv last_block_iff [OF b off] show ?thesis
      by (simp add: sender_inv_def afterBlock_def Let_def)
  next
    case False
    with inv sending full_block_next [OF b off] show ?thesis
      by (simp add: sender_inv_def afterBlock_def Let_def)
  qed
qed

lemma afterBlock_distance:
  assumes "sender_inv c k s" "sessionDistance s < 65534"
  shows "sessionDistance s < sessionDistance (afterBlock c k s)"
  using assms blockDistance_advance [of "lastAcked s" "wireBlock k"]
  by (simp add: sender_inv_def wireBlock_Suc)

context served_file
begin

lemma nextChunk_served:
  assumes "readLeftover s = []" "fileOffset s = k * blksize (opts s)"
  shows "nextChunk io s =
    Inr (s\<lparr>fileOffset := k * blksize (opts s) + length (fileBlock (blksize (opts s)) content k)\<rparr>,
         fileBlock (blksize (opts s)) content k)"
  using assms by (simp add: nextChunk_def read_at fileBlock_def Let_def)

lemma produceLoop_step:
  assumes "sender_inv content k s" "windowOpen s"
  shows "produceLoop (Suc fuel) io False s out =
    produceLoop fuel io False (afterBlock content k s)
      (out @ [dataPacket (blksize (opts s)) content k])"
proof -
  from assms have off: "fileOffset s = k * blksize (opts s)" "readLeftover s = []"
    "blockNum s = wireBlock k" by (auto simp: sender_inv_def windowOpen_def)
  from nextChunk_served [of "s\<lparr>fileHandle := True\<rparr>" k] off assms(2) show ?thesis
    by (subst produceLoop.simps) (simp add: open_ok dataPacket_def wireBlock_Suc afterBlock_def Let_def)
qed

lemma produceLoop_served:
  assumes "sender_inv content k s" "phase s \<noteq> Failed"
    and "windowsize (opts s) \<le> fuel + sessionDistance s"
  shows "\<exists>s' k'. produceLoop fuel io False s out
      = Some (s', Inr (out @ map (dataPacket (blksize (opts s)) content) [k..<k']))
    \<and> k \<le> k' \<and> sender_inv content k' s' \<and> \<not> windowOpen s' \<and> phase s' \<noteq> Failed \<and> opts s' = opts s"
  using assms
proof (induction fuel arbitrary: k s out)
  case 0
  then have "\<not> windowOpen s" by (simp add: windowOpen_def)
  with 0 show ?case by (intro exI [of _ s] exI [of _ k]) (simp add: produceLoop.simps)
next
  case (Suc fuel)
  let ?t = "afterBlock content k s" and ?pkt = "dataPacket (blksize (opts s)) content"
  show ?case
  proof (cases "windowOpen s")
    case False
    with Suc.prems show ?thesis by (intro exI [of _ s] exI [of _ k]) (simp add: produceLoop.simps)
  next
    case True
    then have sending: "phase s = Sending" and "sessionDistance s < windowsize (opts s)"
      by (auto simp: windowOpen_def)
    with Suc.prems(1) have "sessionDistance s < sessionDistance ?t"
      by (intro afterBlock_distance) (auto simp: sender_inv_def within_limits_def tftp_limits)
    with Suc.prems(3) have fuel: "windowsize (opts ?t) \<le> fuel + sessionDistance ?t" by simp
    from Suc.IH [OF sender_inv_afterBlock [OF Suc.prems(1) sending] afterBlock_phase [OF sending] fuel]
    obtain s' k' where r: "produceLoop fuel io False ?t (out @ [?pkt k])
        = Some (s', Inr ((out @ [?pkt k]) @ map ?pkt [Suc k..<k']))" and k': "Suc k \<le> k'"
      and i: "sender_inv content k' s'" "\<not> windowOpen s'" "phase s' \<noteq> Failed" "opts s' = opts s"
      by (metis afterBlock_fields(1))
    from k' have "[k..<k'] = k # [Suc k..<k']" by (simp add: upt_conv_Cons)
    with r i k' produceLoop_step [OF Suc.prems(1) True] show ?thesis
      by (intro exI [of _ s'] exI [of _ k']) simp
  qed
qed

lemma produce_served:
  assumes "sender_inv content k s" "phase s \<noteq> Failed"
  shows "\<exists>s' k'. produceNextSendPackets now io False s
      = Some (s', Inr (map (dataPacket (blksize (opts s)) content) [k..<k']))
    \<and> k \<le> k' \<and> sender_inv content k' s' \<and> opts s' = opts s"
proof -
  have m: "sender_inv content k' (updateMetrics d now t) = sender_inv content k' t"
    "opts (updateMetrics d now t) = opts t" for k' d t
    by (simp_all add: sender_inv_def updateMetrics_def Let_def)
  from produceLoop_served [OF assms, of "windowsize (opts s)" "[]"] obtain s' k' where
    "produceLoop (windowsize (opts s)) io False s []
      = Some (s', Inr (map (dataPacket (blksize (opts s)) content) [k..<k']))"
    "k \<le> k'" "sender_inv content k' s'" "opts s' = opts s" by auto
  then show ?thesis using m by (fastforce simp: produceNextSendPackets_def Let_def)
qed

end

interpretation served: served_file "io_of_content c" c
  by unfold_locales (simp_all add: io_of_content_def)

section \<open>A whole download\<close>

inductive rrq_step :: "file_io \<Rightarrow> session \<times> buffer list \<Rightarrow> session \<times> buffer list \<Rightarrow> bool"
  for io where
  ack: "handleACK now n s = (s', r) \<Longrightarrow> \<not> ack_produceMore r \<Longrightarrow> rrq_step io (s, out) (s', out)"
| ack_produce: "handleACK now n s = (s1, r) \<Longrightarrow> ack_produceMore r \<Longrightarrow>
    produceNextSendPackets now1 io False s1 = Some (s2, Inr pkts) \<Longrightarrow>
    rrq_step io (s, out) (recordOutbound now2 pkts s2, out @ pkts)"
| retransmit: "consumeRetransmission now s = (s', r) \<Longrightarrow> rrq_step io (s, out) (s', out)"
| fail: "rrq_step io (s, out) (setError code message s, out)"

text \<open>An admitted RRQ: the session is initialised and, without options, starts to send.\<close>

inductive rrq_start :: "file_io \<Rightarrow> buffer \<Rightarrow> session \<times> buffer list \<Rightarrow> bool" for io c where
  oack: "init_opcode ini = ReadRequest \<Longrightarrow> phase (new_session now ini) = Idle \<Longrightarrow>
    initForRRQ True (length c) (new_session now ini) = (s, initial) \<Longrightarrow>
    rrq_start io c (recordOutbound now1 initial s, [])"
| direct: "init_opcode ini = ReadRequest \<Longrightarrow> phase (new_session now ini) = Idle \<Longrightarrow>
    initForRRQ False (length c) (new_session now ini) = (s, initial) \<Longrightarrow>
    produceNextSendPackets now1 io False s = Some (s1, Inr pkts) \<Longrightarrow>
    rrq_start io c (recordOutbound now2 pkts s1, pkts)"

definition download_inv :: "buffer \<Rightarrow> session \<times> buffer list \<Rightarrow> bool" where
  "download_inv c = (\<lambda>(s, out). \<exists>k. sender_inv c k s
      \<and> out = map (dataPacket (blksize (opts s)) c) [0..<k])"

lemma sender_inv_handleACK:
  assumes "sender_inv c k s" "handleACK now n s = (s', r)"
  shows "sender_inv c k s' \<and> opts s' = opts s \<and> (ack_produceMore r \<longrightarrow> phase s' \<noteq> Failed)"
  using assms
  by (auto simp: handleACK_def sender_inv_def touch_def clearOutboundUpToAck_def Let_def split: if_splits)


lemma sender_inv_recordOutbound [simp]:
  "sender_inv c k (recordOutbound now pkts s) = sender_inv c k s"
  "opts (recordOutbound now pkts s) = opts s"
  by (simp_all add: sender_inv_def recordOutbound_def Let_def)

lemma sender_inv_setError:
  "sender_inv c k s \<Longrightarrow> sender_inv c k (setError code message s)"
  "opts (setError code message s) = opts s"
  by (simp_all add: sender_inv_def setError_def)

lemma sender_inv_timers:
  "sender_inv c k (s\<lparr>retries := n\<rparr>) = sender_inv c k s"
  "sender_inv c k (s\<lparr>retries := n, retxBackoffMs := b, outboundSentLast := t, lastActivity := u\<rparr>)
     = sender_inv c k s"
  by (simp_all add: sender_inv_def)

lemma sender_inv_consumeRetransmission:
  assumes "sender_inv c k s" "consumeRetransmission now s = (s', r)"
  shows "sender_inv c k s' \<and> opts s' = opts s"
proof (cases "outboundQueue s = [] \<or> DEFAULT_MAX_RETRIES < retries s + 1")
  case True
  with assms show ?thesis
    by (cases "outboundQueue s = []")
      (auto simp: consumeRetransmission_def Let_def sender_inv_setError sender_inv_timers)
next
  case False
  with assms show ?thesis
    by (auto simp: consumeRetransmission_def Let_def sender_inv_timers)
qed

lemma new_session_fields:
  "opcode (new_session now ini) = init_opcode ini" "readLeftover (new_session now ini) = []"
  by (auto simp: new_session_def Let_def setError_def split: option.splits sum.splits protocol_error.splits)

lemma initForRRQ_sender_inv:
  assumes "init_opcode ini = ReadRequest" "initForRRQ hasOptions (length c) (new_session now ini) = (s, initial)"
  shows "sender_inv c 0 s \<and> phase s \<noteq> Failed"
  using assms new_session_limits [of now ini] new_session_fields [of now ini]
  by (auto simp: initForRRQ_def sender_inv_def blockCount_def within_limits_def Let_def split: if_splits option.splits)

lemma download_inv_start: "rrq_start (io_of_content c) c p \<Longrightarrow> download_inv c p"
proof (induction rule: rrq_start.induct)
  case (oack ini now s initial now1)
  with initForRRQ_sender_inv [OF oack(1,3)] show ?case by (auto simp: download_inv_def)
next
  case (direct ini now s initial now1 s1 pkts now2)
  from initForRRQ_sender_inv [OF direct(1,3)] direct(4) served.produce_served [of c 0 s now1]
  show ?case by (auto simp: download_inv_def)
qed

lemma download_inv_step:
  "download_inv c p \<Longrightarrow> rrq_step (io_of_content c) p q \<Longrightarrow> download_inv c q"
proof -
  assume inv: "download_inv c p" and "rrq_step (io_of_content c) p q"
  from this(2) inv show ?thesis
  proof (induction rule: rrq_step.induct)
    case (ack now n s s' r out)
    then show ?case using sender_inv_handleACK by (fastforce simp: download_inv_def)
  next
    case (ack_produce now n s s1 r now1 s2 pkts out now2)
    from ack_produce.prems obtain k where k: "sender_inv c k s"
      "out = map (dataPacket (blksize (opts s)) c) [0..<k]" by (auto simp: download_inv_def)
    from sender_inv_handleACK [OF k(1) ack_produce(1)] ack_produce(2)
    have 1: "sender_inv c k s1" "phase s1 \<noteq> Failed" "opts s1 = opts s" by auto
    from served.produce_served [OF 1(1,2), of now1] ack_produce(3) obtain k' where
      2: "pkts = map (dataPacket (blksize (opts s1)) c) [k..<k']" "k \<le> k'" "sender_inv c k' s2" "opts s2 = opts s1"
      by auto
    have "[0..<k'] = [0..<k] @ [k..<k']" using 2(2) by (metis le0 upt_add_eq_append le_add_diff_inverse)
    with 1 2 k show ?case by (auto simp: download_inv_def)
  next
    case (retransmit now s s' r out)
    then show ?case using sender_inv_consumeRetransmission by (fastforce simp: download_inv_def)
  next
    case (fail s out code message)
    then show ?case using sender_inv_setError by (fastforce simp: download_inv_def)
  qed
qed

interpretation download: invariant_system "rrq_start (io_of_content c) c"
  "rrq_step (io_of_content c)" "download_inv c"
  by unfold_locales (auto intro: download_inv_start download_inv_step)

lemma drop4_dataPacket: "drop 4 (dataPacket b c k) = fileBlock b c k"
  by (simp add: dataPacket_def encodeDATA_def writeUInt16BE_def)

lemma concat_file_payloads:
  assumes "0 < b"
  shows "concat (map (drop 4) (filePackets b c)) = c"
proof -
  have "length c \<le> blockCount b c * b"
    using assms dividend_less_div_times [of b "length c"] by (simp add: blockCount_def)
  then show ?thesis
    using concat_fileBlocks [OF assms, of c "blockCount b c"]
    by (simp add: filePackets_def drop4_dataPacket comp_def)
qed

section \<open>Receiving a file\<close>

text \<open>
  The peer sends blocks of one file, in any order and any number of times; a block that
  reaches the session is less than one turn of the number space away from the next one.
\<close>

inductive wrq_step :: "buffer \<Rightarrow> session \<times> buffer list \<Rightarrow> session \<times> buffer list \<Rightarrow> bool" for c where
  data: "handleDATA now (wireBlock (Suc j)) (fileBlock (blksize (opts s)) c j) s = (s', r) \<Longrightarrow>
    j < blockCount (blksize (opts s)) c \<Longrightarrow> j < length ws + 65535 \<Longrightarrow> length ws < j + 65535 \<Longrightarrow>
    wrq_step c (s, ws) (s', ws @ (case data_write r of None \<Rightarrow> [] | Some w \<Rightarrow> [w]))"
| ack: "handleACK now n s = (s', r) \<Longrightarrow> wrq_step c (s, ws) (s', ws)"
| sent: "wrq_step c (s, ws) (recordOutbound now pkts s, ws)"
| retransmit: "consumeRetransmission now s = (s', r) \<Longrightarrow> wrq_step c (s, ws) (s', ws)"
| fail: "wrq_step c (s, ws) (setError code message s, ws)"

inductive wrq_start :: "session \<times> buffer list \<Rightarrow> bool" where
  "init_opcode ini = WriteRequest \<Longrightarrow>
   initForWRQ hasOptions (new_session now ini) = (s, initial) \<Longrightarrow>
   wrq_start (recordOutbound now1 initial s, [])"

definition receiver_inv :: "buffer \<Rightarrow> nat \<Rightarrow> session \<Rightarrow> bool" where
  "receiver_inv c k s \<longleftrightarrow>
     opcode s = WriteRequest \<and> within_limits (opts s) \<and> k \<le> blockCount (blksize (opts s)) c
     \<and> phase s \<in> {SendOACK, RecvInitialACK, Receiving, Done, Failed}
     \<and> (phase s = SendOACK \<or> phase s = RecvInitialACK \<longrightarrow> k = 0)
     \<and> (phase s \<in> {SendOACK, RecvInitialACK, Receiving} \<longrightarrow>
          blockNum s = wireBlock (Suc k) \<and> k * blksize (opts s) \<le> length c)
     \<and> (phase s = Done \<longrightarrow> k = blockCount (blksize (opts s)) c)"

definition upload_inv :: "buffer \<Rightarrow> session \<times> buffer list \<Rightarrow> bool" where
  "upload_inv c = (\<lambda>(s, ws). receiver_inv c (length ws) s
      \<and> ws = map (fileBlock (blksize (opts s)) c) [0..<length ws])"

lemma receiver_inv_frame:
  assumes "opcode t = opcode s" "opts t = opts s" "phase t = phase s" "blockNum t = blockNum s"
  shows "receiver_inv c k t = receiver_inv c k s"
  using assms by (simp add: receiver_inv_def)

lemma receiver_inv_setError: "receiver_inv c k s \<Longrightarrow> receiver_inv c k (setError code message s)"
  by (simp add: receiver_inv_def setError_def)

lemma receiver_inv_consumeRetransmission:
  assumes "receiver_inv c k s" "consumeRetransmission now s = (s', r)"
  shows "receiver_inv c k s' \<and> opts s' = opts s"
proof -
  consider "outboundQueue s = []" | "outboundQueue s \<noteq> []" "DEFAULT_MAX_RETRIES < retries s + 1"
    | "outboundQueue s \<noteq> []" "\<not> DEFAULT_MAX_RETRIES < retries s + 1" by blast
  then show ?thesis
  proof cases
    case 2
    have "receiver_inv c k (s\<lparr>retries := retries s + 1\<rparr>)"
      using assms(1) by (subst receiver_inv_frame) simp_all
    with 2 assms show ?thesis
      by (auto simp: consumeRetransmission_def Let_def sender_inv_setError(2) dest: receiver_inv_setError)
  next
    case 3
    with assms have "opcode s' = opcode s \<and> opts s' = opts s \<and> phase s' = phase s \<and> blockNum s' = blockNum s"
      by (auto simp: consumeRetransmission_def Let_def)
    with assms(1) receiver_inv_frame [of s' s] show ?thesis by simp
  qed (use assms in \<open>simp add: consumeRetransmission_def\<close>)
qed

lemma receiver_inv_handleACK:
  assumes "receiver_inv c k s" "handleACK now n s = (s', r)"
  shows "receiver_inv c k s' \<and> opts s' = opts s"
proof (cases "phase s = SendOACK")
  case True
  with assms show ?thesis
    by (auto simp: handleACK_def Let_def receiver_inv_def split: if_splits)
next
  case False
  moreover from assms(1) have "phase s \<noteq> SentLast" "phase s \<noteq> Sending" by (auto simp: receiver_inv_def)
  ultimately have "s' = (touch now s)\<lparr>retries := 0\<rparr>" using assms(2) by (simp add: handleACK_def Let_def)
  with assms(1) receiver_inv_frame [of s' s] show ?thesis by simp
qed

lemma receiveBlock_cases:
  assumes "receiveBlock now n d s = (s', r)"
  obtains (repeat) "n = previousBlock s" "n \<noteq> blockNum s" "data_write r = None" "\<not> data_done r"
      "s' = (touch now s)\<lparr>retries := 0\<rparr>"
  | (refused) code message where "data_write r = None" "data_done r" "s' = setError code message s"
  | (accepted) "n = blockNum s" "data_write r = Some d" "length d \<le> blksize (opts s)"
      "data_done r \<longleftrightarrow> length d < blksize (opts s)"
      "opcode s' = opcode s" "opts s' = opts s"
      "phase s' = (if length d < blksize (opts s) then Done else phase s)"
      "blockNum s' = (if length d < blksize (opts s) then blockNum s else advanceBlock (blockNum s))"
proof -
  have prev: "previousBlock s \<noteq> blockNum s"
  proof
    assume "previousBlock s = blockNum s"
    then have "unat (previousBlock s) = unat (blockNum s)" by simp
    then show False using unat_u16_le [of "blockNum s"]
      by (auto simp: previousBlock_def unat_sub word_le_nat_alt split: if_splits)
  qed
  consider "n = previousBlock s" | "n \<noteq> previousBlock s" "n \<noteq> blockNum s"
    | "n \<noteq> previousBlock s" "n = blockNum s" "blksize (opts s) < length d"
    | "n \<noteq> previousBlock s" "n = blockNum s" "\<not> blksize (opts s) < length d" by blast
  then show ?thesis
  proof cases
    case 1
    with assms prev show ?thesis by (intro repeat) (auto simp: receiveBlock_def)
  next
    case 2
    with assms show ?thesis by (intro refused) (auto simp: receiveBlock_def Let_def)
  next
    case 3
    with assms show ?thesis by (intro refused) (auto simp: receiveBlock_def Let_def)
  next
    case 4
    show ?thesis
      by (rule accepted) (use 4 assms in \<open>auto simp: receiveBlock_def Let_def split: if_splits\<close>)
  qed
qed


lemma handleDATA_cases:
  assumes "handleDATA now n d s = (s', r)"
  obtains (ignored) "s' = s" "r = data_ignored"
  | (received) t where "receiveBlock now n d t = (s', r)" "phase t = Receiving"
      "phase s \<in> {SendOACK, RecvInitialACK, Receiving}" "opcode t = opcode s" "opts t = opts s"
      "blockNum t = blockNum s" "lastAcked t = lastAcked s"
proof -
  let ?t1 = "clearOutboundUpToAck 0 (s\<lparr>phase := Receiving\<rparr>)" and ?t2 = "s\<lparr>phase := Receiving\<rparr>"
  show ?thesis
  proof (cases "phase s = SendOACK")
    case True
    show ?thesis
    proof (cases "opcode s \<noteq> WriteRequest \<or> n \<noteq> 1")
      case True
      with \<open>phase s = SendOACK\<close> assms show ?thesis by (intro ignored) (simp_all add: handleDATA_def)
    next
      case False
      with \<open>phase s = SendOACK\<close> assms show ?thesis
        by (intro received [of ?t1]) (simp_all add: handleDATA_def)
    qed
  next
    case no_oack: False
    consider "phase s = RecvInitialACK" | "phase s = Receiving"
      | "phase s \<noteq> RecvInitialACK" "phase s \<noteq> Receiving" by blast
    then show ?thesis
    proof cases
      case 1
      with assms show ?thesis by (intro received [of ?t2]) (simp_all add: handleDATA_def)
    next
      case 2
      with assms show ?thesis by (intro received [of s]) (simp_all add: handleDATA_def)
    next
      case 3
      with no_oack assms show ?thesis by (intro ignored) (simp_all add: handleDATA_def)
    qed
  qed
qed

lemma receiver_inv_accept:
  assumes inv: "receiver_inv c k t" and rcv: "phase t = Receiving"
    and d: "d = fileBlock (blksize (opts t)) c k"
    and s': "opcode s' = opcode t" "opts s' = opts t"
      "phase s' = (if length d < blksize (opts t) then Done else phase t)"
      "blockNum s' = (if length d < blksize (opts t) then blockNum t else advanceBlock (blockNum t))"
  shows "receiver_inv c (Suc k) s'"
proof -
  have b: "0 < blksize (opts t)" and off: "k * blksize (opts t) \<le> length c"
    using inv rcv by (auto simp: receiver_inv_def within_limits_def)
  show ?thesis
  proof (cases "length d < blksize (opts t)")
    case True
    with inv d s' last_block_iff [OF b off] show ?thesis by (simp add: receiver_inv_def)
  next
    case False
    with inv d s' rcv full_block_next [OF b off] show ?thesis
      by (simp add: receiver_inv_def wireBlock_Suc)
  qed
qed

lemma upload_inv_data:
  assumes inv: "upload_inv c (s, ws)"
    and h: "handleDATA now (wireBlock (Suc j)) (fileBlock (blksize (opts s)) c j) s = (s', r)"
    and near: "j < length ws + 65535" "length ws < j + 65535"
  shows "upload_inv c (s', ws @ (case data_write r of None \<Rightarrow> [] | Some w \<Rightarrow> [w]))"
  using h
proof (cases rule: handleDATA_cases)
  case ignored
  with inv show ?thesis by simp
next
  case (received t)
  from inv have ws: "receiver_inv c (length ws) s" "ws = map (fileBlock (blksize (opts s)) c) [0..<length ws]"
    by (simp_all add: upload_inv_def)
  with received have t: "receiver_inv c (length ws) t" by (auto simp: receiver_inv_def)
  from received(1) show ?thesis
  proof (cases rule: receiveBlock_cases)
    case repeat
    with t receiver_inv_frame [of s' t] ws received show ?thesis by (simp add: upload_inv_def)
  next
    case (refused code message)
    with receiver_inv_setError [OF t] ws received show ?thesis
      by (simp add: upload_inv_def sender_inv_setError(2))
  next
    case accepted
    from t received have "blockNum t = wireBlock (Suc (length ws))" by (simp add: receiver_inv_def)
    with accepted(1) wireBlock_eq_iff [OF near] have j: "j = length ws" by simp
    have "receiver_inv c (Suc (length ws)) s'"
      by (rule receiver_inv_accept [OF t]) (use accepted received j in simp_all)
    with ws j accepted received show ?thesis by (simp add: upload_inv_def)
  qed
qed

lemma upload_inv_step: "upload_inv c p \<Longrightarrow> wrq_step c p q \<Longrightarrow> upload_inv c q"
proof -
  assume inv: "upload_inv c p" and "wrq_step c p q"
  from this(2) inv show ?thesis
  proof (induction rule: wrq_step.induct)
    case (data now j s s' r ws)
    then show ?case by (blast intro: upload_inv_data)
  next
    case (ack now n s s' r ws)
    then show ?case using receiver_inv_handleACK [of c "length ws" s now n s' r]
      by (simp add: upload_inv_def)
  next
    case (sent s ws now pkts)
    then show ?case using receiver_inv_frame [of "recordOutbound now pkts s" s] by (simp add: upload_inv_def)
  next
    case (retransmit now s s' r ws)
    then show ?case using receiver_inv_consumeRetransmission [of c "length ws" s now s' r]
      by (simp add: upload_inv_def)
  next
    case (fail s ws code message)
    then show ?case by (simp add: upload_inv_def receiver_inv_setError sender_inv_setError(2))
  qed
qed

lemma initForWRQ_receiver_inv:
  assumes "init_opcode ini = WriteRequest" "initForWRQ hasOptions (new_session now ini) = (s, initial)"
  shows "receiver_inv c 0 s"
  using assms new_session_limits [of now ini] new_session_fields [of now ini]
  by (auto simp: initForWRQ_def receiver_inv_def blockCount_def wireBlock_Suc advanceBlock_def Let_def
      split: if_splits)

lemma upload_inv_start: "wrq_start p \<Longrightarrow> upload_inv c p"
proof (induction rule: wrq_start.induct)
  case (1 ini hasOptions now s initial now1)
  from initForWRQ_receiver_inv [OF this] receiver_inv_frame [of "recordOutbound now1 initial s" s]
  show ?case by (simp add: upload_inv_def)
qed

interpretation upload: invariant_system wrq_start "wrq_step c" "upload_inv c"
  by unfold_locales (auto intro: upload_inv_start upload_inv_step)

lemma fileBlocks_whole:
  assumes "0 < b"
  shows "concat (map (fileBlock b c) [0..<blockCount b c]) = c"
proof -
  have "length c \<le> blockCount b c * b"
    using assms dividend_less_div_times [of b "length c"] by (simp add: blockCount_def)
  then show ?thesis using concat_fileBlocks [OF assms, of c "blockCount b c"] by simp
qed

section \<open>Transfers complete\<close>

text \<open>The peer sends the blocks of its file in order.\<close>

fun uploadInOrder :: "buffer \<Rightarrow> int \<Rightarrow> nat list \<Rightarrow> session \<Rightarrow> session \<times> buffer list" where
  "uploadInOrder c now [] s = (s, [])"
| "uploadInOrder c now (j # js) s =
     (case handleDATA now (wireBlock (Suc j)) (fileBlock (blksize (opts s)) c j) s of
        (s1, r) \<Rightarrow> case uploadInOrder c now js s1 of
          (s2, ws) \<Rightarrow> (s2, (case data_write r of None \<Rightarrow> [] | Some w \<Rightarrow> [w]) @ ws))"

lemma handleDATA_expected:
  assumes inv: "receiver_inv c k s" and ph: "phase s \<in> {SendOACK, RecvInitialACK, Receiving}"
    and h: "handleDATA now (wireBlock (Suc k)) (fileBlock (blksize (opts s)) c k) s = (s', r)"
  shows "receiver_inv c (Suc k) s' \<and> data_write r = Some (fileBlock (blksize (opts s)) c k)
    \<and> opts s' = opts s
    \<and> phase s' = (if Suc k = blockCount (blksize (opts s)) c then Done else Receiving)"
proof -
  have b: "0 < blksize (opts s)" "k * blksize (opts s) \<le> length c" "blockNum s = wireBlock (Suc k)"
    "opcode s = WriteRequest" "phase s = SendOACK \<longrightarrow> wireBlock (Suc k) = 1"
    using inv ph by (auto simp: receiver_inv_def within_limits_def wireBlock_Suc advanceBlock_def)
  from h show ?thesis
  proof (cases rule: handleDATA_cases)
    case ignored
    with h b ph show ?thesis
      by (auto simp: handleDATA_def receiveBlock_def previousBlock_def Let_def split: if_splits)
  next
    case (received t)
    from inv received ph have t: "receiver_inv c k t" by (auto simp: receiver_inv_def)
    from received(1) show ?thesis
    proof (cases rule: receiveBlock_cases)
      case repeat
      with b received show ?thesis by simp
    next
      case (refused code message)
      with received(1) b received show ?thesis
        by (auto simp: receiveBlock_def Let_def length_fileBlock split: if_splits)
    next
      case accepted
      then have "receiver_inv c (Suc k) s'"
        by (intro receiver_inv_accept [OF t]) (use received in simp_all)
      with accepted received last_block_iff [OF b(1,2)] show ?thesis by simp
    qed
  qed
qed

lemma uploadInOrder_inv:
  assumes "receiver_inv c k s" "phase s \<in> {SendOACK, RecvInitialACK, Receiving}"
    "k < blockCount (blksize (opts s)) c"
  shows "\<exists>s'. uploadInOrder c now [k..<blockCount (blksize (opts s)) c] s
      = (s', map (fileBlock (blksize (opts s)) c) [k..<blockCount (blksize (opts s)) c])
    \<and> phase s' = Done"
  using assms
proof (induction "blockCount (blksize (opts s)) c - k" arbitrary: k s)
  case (Suc m)
  obtain s1 r where h: "handleDATA now (wireBlock (Suc k)) (fileBlock (blksize (opts s)) c k) s = (s1, r)"
    by fastforce
  let ?n = "blockCount (blksize (opts s)) c"
  note e = handleDATA_expected [OF Suc.prems(1,2) h]
  have upt: "[k..<?n] = k # [Suc k..<?n]" using Suc.prems(3) by (rule upt_conv_Cons)
  show ?case
  proof (cases "Suc k = ?n")
    case True
    then have nil: "[Suc k..<?n] = []" by simp
    show ?thesis unfolding upt nil using h e True by (simp del: upt_Suc)
  next
    case False
    have "m = ?n - Suc k" using Suc.hyps(2) by linarith
    with False Suc.hyps(1) [of s1 "Suc k"] Suc.prems(3) e
    obtain s' where "uploadInOrder c now [Suc k..<?n] s1 = (s', map (fileBlock (blksize (opts s)) c) [Suc k..<?n])"
      "phase s' = Done" by auto
    with upt h e show ?thesis by (simp del: upt_Suc)
  qed
qed simp

section \<open>A download completes\<close>

lemma afterBlock_not_done: "phase s = Sending \<Longrightarrow> phase (afterBlock c k s) \<noteq> Done"
  by (simp add: afterBlock_def Let_def)

lemma afterBlock_distance_le:
  assumes "sender_inv c k s" "sessionDistance s < 65534"
  shows "sessionDistance (afterBlock c k s) \<le> sessionDistance s + 2"
  using assms blockDistance_advance [of "lastAcked s" "wireBlock k"]
  by (simp add: sender_inv_def wireBlock_Suc)

context served_file
begin

lemma produceLoop_near:
  assumes "sender_inv content k s" "phase s \<noteq> Failed"
    and "produceLoop fuel io False s out = Some (s', r)" "sessionDistance s \<le> windowsize (opts s) + 1"
  shows "sessionDistance s' \<le> windowsize (opts s) + 1 \<and> lastAcked s' = lastAcked s
    \<and> (phase s' = Done \<longrightarrow> phase s = Done)"
  using assms
proof (induction fuel arbitrary: k s out)
  case 0
  then show ?case by (auto simp: produceLoop.simps [of 0] split: if_splits)
next
  case (Suc fuel)
  show ?case
  proof (cases "windowOpen s")
    case False
    with Suc.prems show ?thesis by (auto simp: produceLoop.simps [of "Suc fuel"])
  next
    case True
    then have w: "phase s = Sending" "sessionDistance s < windowsize (opts s)" by (auto simp: windowOpen_def)
    with Suc.prems(1) have "sessionDistance s < 65534"
      by (auto simp: sender_inv_def within_limits_def tftp_limits)
    from afterBlock_distance_le [OF Suc.prems(1) this] w
    have d: "sessionDistance (afterBlock content k s) \<le> windowsize (opts s) + 1" by simp
    have "produceLoop fuel io False (afterBlock content k s)
        (out @ [dataPacket (blksize (opts s)) content k]) = Some (s', r)"
      using Suc.prems(3) produceLoop_step [OF Suc.prems(1) True] by simp
    from Suc.IH [OF sender_inv_afterBlock [OF Suc.prems(1) w(1)] afterBlock_phase [OF w(1)] this] d
      afterBlock_not_done [OF w(1)]
    show ?thesis by auto
  qed
qed

lemma produceLoop_progress:
  assumes "sender_inv content k s" "windowOpen s" "windowsize (opts s) \<le> fuel + sessionDistance s"
  shows "\<exists>s' k'. produceLoop fuel io False s out
      = Some (s', Inr (out @ map (dataPacket (blksize (opts s)) content) [k..<k']))
    \<and> k < k' \<and> sender_inv content k' s' \<and> opts s' = opts s \<and> phase s' \<noteq> Failed"
proof -
  obtain f where f: "fuel = Suc f" using assms(2,3) by (cases fuel) (auto simp: windowOpen_def)
  let ?t = "afterBlock content k s" and ?pkt = "dataPacket (blksize (opts s)) content"
  have w: "phase s = Sending" "sessionDistance s < windowsize (opts s)"
    using assms(2) by (auto simp: windowOpen_def)
  with assms(1) have "sessionDistance s < sessionDistance ?t"
    by (intro afterBlock_distance) (auto simp: sender_inv_def within_limits_def tftp_limits)
  with assms(3) f have "windowsize (opts ?t) \<le> f + sessionDistance ?t" by simp
  from produceLoop_served [OF sender_inv_afterBlock [OF assms(1) w(1)] afterBlock_phase [OF w(1)] this,
      of "out @ [?pkt k]"]
  obtain s' k' where r: "produceLoop f io False ?t (out @ [?pkt k])
      = Some (s', Inr ((out @ [?pkt k]) @ map ?pkt [Suc k..<k']))" and k': "Suc k \<le> k'"
    and i: "sender_inv content k' s'" "opts s' = opts s" "phase s' \<noteq> Failed"
    by auto
  from k' have "[k..<k'] = k # [Suc k..<k']" by (simp add: upt_conv_Cons)
  with r i k' f produceLoop_step [OF assms(1,2)] show ?thesis
    by (intro exI [of _ s'] exI [of _ k']) simp
qed

end

definition near :: "session \<Rightarrow> bool" where
  "near s \<longleftrightarrow> sessionDistance s \<le> windowsize (opts s) + 1 \<and> (blockNum s = 0 \<longrightarrow> lastAcked s = 0)"

lemma wireBlock_eq_0_iff [simp]: "wireBlock k = 0 \<longleftrightarrow> k = 0"
  by (cases k) (auto simp: wireBlock_Suc)

lemma produce_near:
  assumes "sender_inv c k s" "windowOpen s" "near s"
  shows "\<exists>s' k'. produceNextSendPackets now (io_of_content c) False s
      = Some (s', Inr (map (dataPacket (blksize (opts s)) c) [k..<k']))
    \<and> k < k' \<and> sender_inv c k' s' \<and> near s' \<and> opts s' = opts s \<and> phase s' \<in> {Sending, SentLast}"
proof -
  have nf: "phase s \<noteq> Failed" using assms(2) by (simp add: windowOpen_def)
  from served.produceLoop_progress [OF assms(1,2), of "windowsize (opts s)" "[]"] obtain t k' where
    t: "produceLoop (windowsize (opts s)) (io_of_content c) False s []
      = Some (t, Inr (map (dataPacket (blksize (opts s)) c) [k..<k']))"
    "k < k'" "sender_inv c k' t" "opts t = opts s" "phase t \<noteq> Failed" by auto
  from served.produceLoop_near [OF assms(1) nf t(1)] assms(2,3) t
  have n: "near t" and "phase t \<noteq> Done" by (auto simp: near_def sender_inv_def windowOpen_def)
  with t have ph: "phase t \<in> {Sending, SentLast}" by (auto simp: sender_inv_def)
  have m: "sender_inv c k' (updateMetrics d now t) = sender_inv c k' t"
    "near (updateMetrics d now t) = near t" for d
    by (simp_all add: sender_inv_def near_def updateMetrics_def Let_def)
  let ?d = "bytesTransferred t - bytesTransferred s"
  let ?t = "if 0 < ?d then updateMetrics ?d now t else t"
  from t n m have "produceNextSendPackets now (io_of_content c) False s
      = Some (?t, Inr (map (dataPacket (blksize (opts s)) c) [k..<k']))"
    "sender_inv c k' ?t" "near ?t" "opts ?t = opts s" "phase ?t = phase t"
    by (simp_all add: produceNextSendPackets_def Let_def)
  with t(2) ph show ?thesis by auto
qed

lemma handleACK_last_sent:
  assumes inv: "sender_inv c k s" and "near s" and "phase s = Sending"
  shows "\<exists>s1 r. handleACK now (blockNum s) s = (s1, r) \<and> ack_produceMore r \<and> windowOpen s1
    \<and> sender_inv c k s1 \<and> near s1 \<and> opts s1 = opts s"
proof -
  let ?s2 = "clearOutboundUpToAck (blockNum s) ((touch now s)\<lparr>retries := 0\<rparr>)"
  have w: "0 < windowsize (opts s)" "windowsize (opts s) \<le> 256"
    using inv by (auto simp: sender_inv_def within_limits_def tftp_limits)
  with assms(2) have d: "blockAtOrAfter (lastAcked s) (blockNum s)"
    by (simp add: blockAtOrAfter_def near_def BLOCK_SPACE_def)
  show ?thesis
  proof (cases "blockNum s = 0")
    case True
    then have h: "handleACK now (blockNum s) s = (?s2, ack_more)"
      using assms(3) by (simp add: handleACK_def Let_def)
    with True sender_inv_handleACK [OF inv h] w assms show ?thesis
      by (simp add: windowOpen_def near_def)
  next
    case False
    then have h: "handleACK now (blockNum s) s = (?s2\<lparr>lastAcked := blockNum s\<rparr>, ack_more)"
      using assms(3) d w by (simp add: handleACK_def Let_def)
    with False sender_inv_handleACK [OF inv h] w assms show ?thesis
      by (simp add: windowOpen_def near_def)
  qed
qed

lemma handleACK_completes:
  assumes "phase s = SentLast"
  shows "\<exists>s1. handleACK now (blockNum s) s = (s1, ack_finished) \<and> phase s1 = Done"
  using assms by (simp add: handleACK_def Let_def)

lemma near_recordOutbound [simp]: "near (recordOutbound now pkts s) = near s"
  by (simp add: near_def)

text \<open>One round: an acknowledgement that opens the window, and the blocks it lets out.\<close>

lemma ack_round:
  assumes h: "handleACK 0 n s = (s1, r)" "ack_produceMore r"
    and s1: "windowOpen s1" "sender_inv c k s1" "near s1"
  shows "\<exists>s3 pkts k'. rrq_step (io_of_content c) (s, out) (s3, out @ pkts) \<and> k < k'
    \<and> sender_inv c k' s3 \<and> near s3 \<and> opts s3 = opts s1 \<and> phase s3 \<in> {Sending, SentLast}"
proof -
  from produce_near [OF s1(2,1,3), of 0] obtain s2 k' where
    p: "produceNextSendPackets 0 (io_of_content c) False s1
      = Some (s2, Inr (map (dataPacket (blksize (opts s1)) c) [k..<k']))" and
    s2: "k < k'" "sender_inv c k' s2" "near s2" "opts s2 = opts s1" "phase s2 \<in> {Sending, SentLast}" by blast
  let ?pkts = "map (dataPacket (blksize (opts s1)) c) [k..<k']"
  let ?s3 = "recordOutbound 0 ?pkts s2"
  have "rrq_step (io_of_content c) (s, out) (?s3, out @ ?pkts)"
    using h p by (rule rrq_step.ack_produce)
  then show ?thesis using s2 by (intro exI [of _ ?s3] exI [of _ ?pkts] exI [of _ k']) simp
qed

lemma download_finishes:
  assumes "sender_inv c k s" "near s" "phase s \<in> {Sending, SentLast}"
  shows "\<exists>s' out'. (rrq_step (io_of_content c))\<^sup>*\<^sup>* (s, out) (s', out') \<and> phase s' = Done"
  using assms
proof (induction "blockCount (blksize (opts s)) c - k" arbitrary: k s out rule: less_induct)
  case less
  consider "phase s = SentLast" | "phase s = Sending" using less.prems(3) by auto
  then show ?case
  proof cases
    case 1
    then obtain s1 where "handleACK 0 (blockNum s) s = (s1, ack_finished)" "phase s1 = Done"
      using handleACK_completes by blast
    moreover from this(1) have "rrq_step (io_of_content c) (s, out) (s1, out)"
      by (rule rrq_step.ack) simp
    ultimately show ?thesis by blast
  next
    case 2
    from handleACK_last_sent [OF less.prems(1,2) 2, of 0] obtain s1 r where
      h: "handleACK 0 (blockNum s) s = (s1, r)" "ack_produceMore r" and
      s1: "windowOpen s1" "sender_inv c k s1" "near s1" "opts s1 = opts s" by blast
    from ack_round [OF h s1(1,2,3)] obtain s3 pkts k' where
      step: "rrq_step (io_of_content c) (s, out) (s3, out @ pkts)" and k': "k < k'" and
      s3: "sender_inv c k' s3" "near s3" "opts s3 = opts s1" "phase s3 \<in> {Sending, SentLast}" by blast
    have "k' \<le> blockCount (blksize (opts s3)) c" using s3(1) by (simp add: sender_inv_def)
    then have "blockCount (blksize (opts s3)) c - k' < blockCount (blksize (opts s)) c - k"
      using k' s3(3) s1(4) by simp
    from less.hyps [OF this s3(1,2,4), of "out @ pkts"] step
    show ?thesis by (meson converse_rtranclp_into_rtranclp)
  qed
qed

lemma initForRRQ_near:
  assumes "initForRRQ hasOptions n s = (s', initial)"
  shows "near s' \<and> blockNum s' = 0 \<and> phase s' = (if hasOptions then SendOACK else Sending)"
  using assms by (auto simp: initForRRQ_def near_def Let_def split: if_splits)

lemma oack_download_finishes:
  assumes "sender_inv c k s" "near s" "phase s = SendOACK"
  shows "\<exists>s' out'. (rrq_step (io_of_content c))\<^sup>*\<^sup>* (s, out) (s', out') \<and> phase s' = Done"
proof -
  let ?s1 = "(clearOutboundUpToAck 0 ((touch 0 s)\<lparr>retries := 0\<rparr>))\<lparr>phase := Sending\<rparr>"
  have z: "blockNum s = 0" "opcode s = ReadRequest" "0 < windowsize (opts s)"
    using assms(1,3) by (auto simp: sender_inv_def within_limits_def)
  then have h: "handleACK 0 0 s = (?s1, ack_more)"
    using assms(3) by (simp add: handleACK_def Let_def)
  have w: "windowOpen ?s1" "near ?s1" using z assms(2) by (simp_all add: windowOpen_def near_def)
  have "ack_produceMore ack_more" by simp
  from ack_round [OF h this w(1) _ w(2)] sender_inv_handleACK [OF assms(1) h]
  obtain s3 pkts k' where "rrq_step (io_of_content c) (s, out) (s3, out @ pkts)"
    "sender_inv c k' s3" "near s3" "phase s3 \<in> {Sending, SentLast}" by blast
  with download_finishes show ?thesis by (meson converse_rtranclp_into_rtranclp)
qed

lemma rrq_start_shape:
  assumes "rrq_start (io_of_content c) c (s, out)"
  shows "\<exists>k. sender_inv c k s \<and> near s \<and> phase s \<in> {SendOACK, Sending, SentLast}"
  using assms
proof (cases rule: rrq_start.cases)
  case (oack ini now s0 initial now1)
  with initForRRQ_sender_inv [OF oack(3,5)] initForRRQ_near [OF oack(5)] show ?thesis
    by (metis insertI1 near_recordOutbound recordOutbound_fields(2) sender_inv_recordOutbound(1))
next
  case (direct ini now s0 initial now1 s1 now2)
  have s0: "sender_inv c 0 s0" "near s0" "phase s0 = Sending" "blockNum s0 = 0"
    using initForRRQ_sender_inv [OF direct(2,4)] initForRRQ_near [OF direct(4)] by auto
  then have "windowOpen s0" by (auto simp: windowOpen_def sender_inv_def within_limits_def near_def)
  from produce_near [OF s0(1) this s0(2), of now1] direct obtain k' where
    "sender_inv c k' s1" "near s1" "phase s1 \<in> {Sending, SentLast}" by auto
  with direct(1) show ?thesis by (intro exI [of _ k']) auto
qed

lemma rrq_can_complete:
  assumes "rrq_start (io_of_content c) c (s, out)"
  shows "\<exists>s' out'. (rrq_step (io_of_content c))\<^sup>*\<^sup>* (s, out) (s', out') \<and> phase s' = Done"
proof -
  from rrq_start_shape [OF assms] obtain k where
    k: "sender_inv c k s" "near s" "phase s \<in> {SendOACK, Sending, SentLast}" by blast
  show ?thesis
  proof (cases "phase s = SendOACK")
    case True
    with k show ?thesis by (blast intro: oack_download_finishes)
  next
    case False
    with k show ?thesis by (blast intro: download_finishes)
  qed
qed

lemma example_download_start: "\<exists>s. rrq_start io c (s, []) \<and> phase s = SendOACK \<and> blksize (opts s) = 65464"
proof -
  obtain s initial where i: "initForRRQ True (length c) (new_session 0 (example_init ReadRequest)) = (s, initial)"
    by fastforce
  from rrq_start.oack [OF _ example_init_idle this, of io 0]
  have "rrq_start io c (recordOutbound 0 initial s, [])" by (simp add: example_init_def)
  moreover have "phase s = SendOACK" "blksize (opts s) = 65464"
    using i by (auto simp: initForRRQ_def new_session_def example_init_def big_request_options Let_def)
  ultimately show ?thesis by (intro exI [of _ "recordOutbound 0 initial s"]) simp
qed

section \<open>Properties of whole transfers\<close>

text \<open>
  C4. Whatever acknowledgements, retransmissions and failures come in whatever order, the
  new packets a download has sent are a prefix of the packets of the file, numbered 1, 2, ...
  with 65535 followed by 1. Once the session has sent its last block, or is done, they are all
  of them, and their payloads are the file.
\<close>

theorem download_correct:
  assumes "rrq_start (io_of_content c) c p" and "(rrq_step (io_of_content c))\<^sup>*\<^sup>* p (s, out)"
  shows "(\<exists>k. out = take k (filePackets (blksize (opts s)) c))
    \<and> (phase s = SentLast \<or> phase s = Done \<longrightarrow>
         out = filePackets (blksize (opts s)) c \<and> concat (map (drop 4) out) = c)"
proof -
  from download.inv_reachable [OF assms] obtain k where k: "sender_inv c k s"
    "out = map (dataPacket (blksize (opts s)) c) [0..<k]" by (auto simp: download_inv_def)
  let ?n = "blockCount (blksize (opts s)) c"
  have "k \<le> ?n" "0 < blksize (opts s)" using k(1) by (auto simp: sender_inv_def within_limits_def)
  then have "out = take k (filePackets (blksize (opts s)) c)"
    using k(2) by (simp add: filePackets_def take_map)
  moreover have "k = ?n" if "phase s = SentLast \<or> phase s = Done"
    using that k(1) by (simp add: sender_inv_def)
  ultimately show ?thesis
    using k(2) concat_file_payloads [OF \<open>0 < blksize (opts s)\<close>] by (auto simp: filePackets_def)
qed

theorem download_correct_witness:
  "\<exists>p s out. rrq_start (io_of_content [1, 2, 3]) [1, 2, 3] p
    \<and> (rrq_step (io_of_content [1, 2, 3]))\<^sup>*\<^sup>* p (s, out) \<and> phase s = Done
    \<and> concat (map (drop 4) out) = [1, 2, 3]"
proof -
  obtain s where st: "rrq_start (io_of_content [1, 2, 3]) [1, 2, 3] (s, [])"
    using example_download_start by blast
  from rrq_can_complete [OF st] obtain s' out' where
    run: "(rrq_step (io_of_content [1, 2, 3]))\<^sup>*\<^sup>* (s, []) (s', out')" and "phase s' = Done" by blast
  with download_correct [OF st run] st show ?thesis by blast
qed

text \<open>
  C5. From every admitted read request there is a run (the peer acknowledges the last
  packet it got) in which the download is done: no window size, file length or wrap of the block
  numbers leaves it stuck.
\<close>

theorem download_completes:
  assumes "rrq_start (io_of_content c) c (s, out)"
  shows "\<exists>s' out'. (rrq_step (io_of_content c))\<^sup>*\<^sup>* (s, out) (s', out') \<and> phase s' = Done"
  using assms by (rule rrq_can_complete)

theorem download_completes_witness:
  "\<exists>s s' out'. rrq_start (io_of_content [1, 2, 3]) [1, 2, 3] (s, [])
    \<and> (rrq_step (io_of_content [1, 2, 3]))\<^sup>*\<^sup>* (s, []) (s', out') \<and> phase s' = Done"
proof -
  obtain s where st: "rrq_start (io_of_content [1, 2, 3]) [1, 2, 3] (s, [])"
    using example_download_start by blast
  from download_completes [OF st] st show ?thesis by blast
qed

lemma example_upload_start:
  "\<exists>s initial. initForWRQ True (new_session 0 (example_init WriteRequest)) = (s, initial)
    \<and> phase s = SendOACK \<and> blksize (opts s) = 65464"
  by (simp add: initForWRQ_def new_session_def example_init_def big_request_options Let_def)

text \<open>
  C6. Whatever repeated, late or early blocks of its file the peer sends, each less than
  one turn of the block numbers away from the expected one, what the session hands over to be
  written is a prefix of that file, and all of it when the session is done.
\<close>

theorem upload_correct:
  assumes "wrq_start p" and "(wrq_step c)\<^sup>*\<^sup>* p (s, ws)"
  shows "(\<exists>n. concat ws = take n c) \<and> (phase s = Done \<longrightarrow> concat ws = c)"
proof -
  from upload.inv_reachable [OF assms] have inv: "receiver_inv c (length ws) s"
    "ws = map (fileBlock (blksize (opts s)) c) [0..<length ws]" by (simp_all add: upload_inv_def)
  then have b: "0 < blksize (opts s)" by (simp add: receiver_inv_def within_limits_def)
  have "concat ws = take (length ws * blksize (opts s)) c"
    using concat_fileBlocks [OF b] inv(2) by metis
  moreover have "concat ws = c" if "phase s = Done"
  proof -
    from that inv(1) have "length ws = blockCount (blksize (opts s)) c" by (simp add: receiver_inv_def)
    with inv(2) fileBlocks_whole [OF b] show ?thesis by metis
  qed
  ultimately show ?thesis by blast
qed

theorem upload_correct_witness:
  "\<exists>p s ws. wrq_start p \<and> (wrq_step [7])\<^sup>*\<^sup>* p (s, ws) \<and> phase s = Done \<and> concat ws = [7]"
proof -
  obtain s initial where i: "initForWRQ True (new_session 0 (example_init WriteRequest)) = (s, initial)"
    and s: "phase s = SendOACK" "blksize (opts s) = 65464" using example_upload_start by blast
  let ?s0 = "recordOutbound 0 initial s"
  have st: "wrq_start (?s0, [])" using i by (intro wrq_start.intros) (auto simp: example_init_def)
  obtain s1 r where h: "handleDATA 0 (wireBlock (Suc 0)) (fileBlock (blksize (opts ?s0)) [7] 0) ?s0 = (s1, r)"
    by fastforce
  have one: "blockCount (blksize (opts ?s0)) [7] = 1" using s by (simp add: blockCount_def)
  have inv: "receiver_inv [7] 0 ?s0"
    using initForWRQ_receiver_inv [OF _ i, of "[7]"] receiver_inv_frame [of ?s0 s] by (simp add: example_init_def)
  from handleDATA_expected [OF inv _ h] s one have finished: "phase s1 = Done" by simp
  have "wrq_step [7] (?s0, []) (s1, [] @ (case data_write r of None \<Rightarrow> [] | Some w \<Rightarrow> [w]))"
    by (rule wrq_step.data [OF h]) (use one in simp_all)
  then have run: "(wrq_step [7])\<^sup>*\<^sup>* (?s0, []) (s1, [] @ (case data_write r of None \<Rightarrow> [] | Some w \<Rightarrow> [w]))"
    by (rule r_into_rtranclp)
  from upload_correct [OF st run] finished st run show ?thesis by blast
qed

text \<open>
  C7. A peer that sends the blocks of its file in order, after a write request with or
  without options, brings the session to \<open>Done\<close> with the whole file written, however many times
  the block numbers wrap.
\<close>

theorem upload_completes:
  assumes "init_opcode ini = WriteRequest"
    and "initForWRQ hasOptions (new_session now ini) = (s, initial)"
  shows "\<exists>s' ws. uploadInOrder c now [0..<blockCount (blksize (opts s)) c] s = (s', ws)
    \<and> phase s' = Done \<and> concat ws = c"
proof -
  have inv: "receiver_inv c 0 s" using assms by (rule initForWRQ_receiver_inv)
  moreover have "phase s \<in> {SendOACK, RecvInitialACK, Receiving}"
    using assms(2) by (auto simp: initForWRQ_def Let_def split: if_splits)
  ultimately obtain s' where "uploadInOrder c now [0..<blockCount (blksize (opts s)) c] s
      = (s', map (fileBlock (blksize (opts s)) c) [0..<blockCount (blksize (opts s)) c])" "phase s' = Done"
    using uploadInOrder_inv [of c 0 s now] by (auto simp: blockCount_def)
  moreover have "0 < blksize (opts s)" using inv by (simp add: receiver_inv_def within_limits_def)
  ultimately show ?thesis using fileBlocks_whole by fastforce
qed

theorem upload_completes_witness:
  "\<exists>s initial s' ws. initForWRQ True (new_session 0 (example_init WriteRequest)) = (s, initial)
    \<and> uploadInOrder [7] 0 [0..<blockCount (blksize (opts s)) [7]] s = (s', ws)
    \<and> phase s' = Done \<and> concat ws = [7]"
proof -
  obtain s initial where i: "initForWRQ True (new_session 0 (example_init WriteRequest)) = (s, initial)"
    using example_upload_start by blast
  from upload_completes [OF _ i, of "[7]"] i show ?thesis by (auto simp: example_init_def)
qed

section \<open>Retransmission\<close>

lemma recordOutbound_bounded:
  "length (outboundQueue (recordOutbound now pkts s)) \<le> MAX_RETRANSMISSION_PACKETS"
  by (simp add: recordOutbound_def Let_def) linarith

text \<open>The timer of the engine consumes retransmissions one by one.\<close>

fun retransmitTimes :: "nat \<Rightarrow> int \<Rightarrow> session \<Rightarrow> session \<times> buffer list option list" where
  "retransmitTimes 0 now s = (s, [])"
| "retransmitTimes (Suc n) now s =
     (case consumeRetransmission now s of (s1, r) \<Rightarrow>
        case retransmitTimes n now s1 of (s2, rs) \<Rightarrow> (s2, r # rs))"

lemma consumeRetransmission_again:
  assumes "outboundQueue s \<noteq> []" "retries s < DEFAULT_MAX_RETRIES"
    "consumeRetransmission now s = (s', r)"
  shows "r = Some (map out_buffer (outboundQueue s)) \<and> outboundQueue s' = outboundQueue s
    \<and> retries s' = Suc (retries s) \<and> phase s' = phase s"
  using assms by (auto simp: consumeRetransmission_def Let_def)

lemma consumeRetransmission_last:
  assumes "outboundQueue s \<noteq> []" "DEFAULT_MAX_RETRIES \<le> retries s"
    "consumeRetransmission now s = (s', r)"
  shows "r = None \<and> phase s' = Failed"
  using assms by (auto simp: consumeRetransmission_def setError_def Let_def)

lemma retransmitTimes_some:
  assumes "outboundQueue s \<noteq> []" "n + retries s \<le> DEFAULT_MAX_RETRIES"
    "retransmitTimes n now s = (s', rs)"
  shows "rs = replicate n (Some (map out_buffer (outboundQueue s))) \<and> outboundQueue s' = outboundQueue s
    \<and> retries s' = n + retries s \<and> phase s' = phase s"
  using assms
proof (induction n arbitrary: s s' rs)
  case (Suc n)
  obtain s1 r where c: "consumeRetransmission now s = (s1, r)" by fastforce
  obtain s2 rs' where rest: "retransmitTimes n now s1 = (s2, rs')" by fastforce
  from Suc.prems(2) have "retries s < DEFAULT_MAX_RETRIES" by simp
  from consumeRetransmission_again [OF Suc.prems(1) this c] Suc.prems c rest Suc.IH [OF _ _ rest]
  show ?case by auto
qed simp

text \<open>
  Without an answer the session resends its whole queue at most
  \<open>DEFAULT_MAX_RETRIES\<close> times; the next attempt sends nothing and fails the transfer.
\<close>

theorem retransmission_gives_up:
  assumes "outboundQueue s \<noteq> []" "retries s = 0" "n \<le> DEFAULT_MAX_RETRIES"
    "retransmitTimes n now s = (s1, rs)" "consumeRetransmission now1 s1 = (s2, r)"
  shows "rs = replicate n (Some (map out_buffer (outboundQueue s)))
    \<and> phase s1 = phase s
    \<and> (if n < DEFAULT_MAX_RETRIES then r = Some (map out_buffer (outboundQueue s))
       else r = None \<and> phase s2 = Failed)"
proof -
  from retransmitTimes_some [OF assms(1) _ assms(4)] assms(2,3)
  have 1: "rs = replicate n (Some (map out_buffer (outboundQueue s)))" "outboundQueue s1 = outboundQueue s"
    "retries s1 = n" "phase s1 = phase s" by auto
  show ?thesis
  proof (cases "n < DEFAULT_MAX_RETRIES")
    case True
    with consumeRetransmission_again [OF _ _ assms(5)] 1 assms(1) show ?thesis by simp
  next
    case False
    with consumeRetransmission_last [OF _ _ assms(5)] 1 assms(1,3) show ?thesis by simp
  qed
qed

theorem retransmission_gives_up_witness:
  "\<exists>s1 rs s2. retransmitTimes 5 0 ((new_session 0 (example_init ReadRequest))
        \<lparr>outboundQueue := [outbound_of (encodeDATA 1 [7])]\<rparr>) = (s1, rs)
    \<and> consumeRetransmission 0 s1 = (s2, None) \<and> phase s2 = Failed"
proof -
  let ?s = "(new_session 0 (example_init ReadRequest))\<lparr>outboundQueue := [outbound_of (encodeDATA 1 [7])]\<rparr>"
  obtain s1 rs where r: "retransmitTimes 5 0 ?s = (s1, rs)" by fastforce
  obtain s2 o2 where c: "consumeRetransmission 0 s1 = (s2, o2)" by fastforce
  have z: "retries ?s = 0" "outboundQueue ?s \<noteq> []" "(5::nat) \<le> DEFAULT_MAX_RETRIES"
    by (simp_all add: new_session_def example_init_def big_request_options DEFAULT_MAX_RETRIES_def)
  from retransmission_gives_up [OF z(2,1,3) r c] r c show ?thesis
    by (simp add: DEFAULT_MAX_RETRIES_def)
qed

section \<open>Acknowledged packets leave the queue\<close>

lemma mod_add_small:
  fixes i d m :: nat
  assumes "d < m"
  shows "(i + d) mod m = (if i mod m + d < m then i mod m + d else i mod m + d - m)"
proof -
  have "(i + d) mod m = (i mod m + d) mod m" by (simp add: mod_add_left_eq)
  moreover have "i mod m < m" using assms by simp
  moreover have "r mod m = (if r < m then r else r - m)" if "r < 2 * m" for r
    using that by (auto simp: le_mod_geq)
  ultimately show ?thesis using assms by simp
qed

lemma wireBlock_distance:
  assumes "d < 65535"
  shows "blockDistance (wireBlock (Suc i)) (wireBlock (Suc (i + d))) = d
      + (if i mod 65535 + d < 65535 then 0 else 1)"
proof -
  define r where "r = i mod 65535"
  have r: "r < 65535" "unat (wireBlock (Suc i)) = r + 1"
    "unat (wireBlock (Suc (i + d))) = (if r + d < 65535 then r + d else r + d - 65535) + 1"
    by (simp_all add: r_def unat_wireBlock mod_add_small [OF assms])
  show ?thesis
    unfolding r_def [symmetric] blockDistance_cases r(2,3) using r(1) assms by auto
qed

lemma blockDistance_swap: "blockDistance a b \<noteq> 0 \<Longrightarrow> blockDistance b a = 65536 - blockDistance a b"
  using unat_u16_le [of a] unat_u16_le [of b] by (simp add: blockDistance_cases split: if_splits)

lemma blockAtOrAfter_wireBlock:
  assumes "i < j + 32767" "j < i + 32767"
  shows "blockAtOrAfter (wireBlock (Suc i)) (wireBlock (Suc j)) \<longleftrightarrow> i \<le> j"
proof (cases "i \<le> j")
  case True
  then obtain d where "j = i + d" using le_Suc_ex by blast
  with assms show ?thesis
    using wireBlock_distance [of d i] by (auto simp: blockAtOrAfter_def BLOCK_SPACE_def)
next
  case False
  then obtain d where d: "i = j + d" "d \<noteq> 0" using less_imp_add_positive [of j i] by auto
  with assms have "d < 65535" by simp
  note w = wireBlock_distance [OF this, of j]
  with d have "blockDistance (wireBlock (Suc j)) (wireBlock (Suc i)) \<noteq> 0" by simp
  from blockDistance_swap [OF this] w d assms show ?thesis
    by (auto simp: blockAtOrAfter_def BLOCK_SPACE_def split: if_splits)
qed

lemma outbound_of_DATA [simp]:
  "out_blockNum (outbound_of (encodeDATA b d)) = Some b"
  by (simp add: outbound_of_def encodeDATA_def)

lemma dropWhile_upt:
  assumes "\<And>i. i \<in> set [m..<n] \<Longrightarrow> P (f i) \<longleftrightarrow> i \<le> j" "m \<le> Suc j"
  shows "dropWhile P (map f [m..<n]) = map f [Suc j..<n]"
proof (cases "Suc j < n")
  case True
  then have "[m..<n] = [m..<Suc j] @ [Suc j..<n]"
    using assms(2) by (metis le_add_diff_inverse less_imp_le upt_add_eq_append)
  moreover have "dropWhile P (map f [m..<Suc j] @ map f [Suc j..<n]) = dropWhile P (map f [Suc j..<n])"
    by (rule dropWhile_append2) (use True assms in auto)
  moreover have "\<not> P (f (Suc j))" using True assms by auto
  then have "dropWhile P (map f [Suc j..<n]) = map f [Suc j..<n]"
    using True by (simp add: upt_conv_Cons)
  ultimately show ?thesis by (metis map_append)
next
  case False
  then have "\<forall>x \<in> set (map f [m..<n]). P x" using assms(1) by auto
  then have "dropWhile P (map f [m..<n]) = []" by (simp only: dropWhile_eq_Nil_conv)
  with False show ?thesis by simp
qed

text \<open>
  On a queue of consecutive data packets, at most \<open>MAX_RETRANSMISSION_PACKETS\<close> of
  them, an acknowledgement of one of them removes that packet and those before it and no other,
  across the wrap of the block numbers too.
\<close>

theorem ack_clears_prefix:
  assumes "outboundQueue s = map (\<lambda>i. outbound_of (encodeDATA (wireBlock (Suc i)) (d i))) [m..<n]"
    and "n \<le> m + MAX_RETRANSMISSION_PACKETS" and "m \<le> j" and "j < n"
  shows "outboundQueue (clearOutboundUpToAck (wireBlock (Suc j)) s)
    = map (\<lambda>i. outbound_of (encodeDATA (wireBlock (Suc i)) (d i))) [Suc j..<n]"
proof -
  have "confirmedBy (wireBlock (Suc j)) (outbound_of (encodeDATA (wireBlock (Suc i)) (d i))) \<longleftrightarrow> i \<le> j"
    if "i \<in> set [m..<n]" for i
    using that assms(2,3,4) blockAtOrAfter_wireBlock [of i j]
    by (auto simp: confirmedBy_def MAX_RETRANSMISSION_PACKETS_def wireBlock_Suc)
  then have "dropWhile (confirmedBy (wireBlock (Suc j)))
      (map (\<lambda>i. outbound_of (encodeDATA (wireBlock (Suc i)) (d i))) [m..<n])
    = map (\<lambda>i. outbound_of (encodeDATA (wireBlock (Suc i)) (d i))) [Suc j..<n]"
    by (rule dropWhile_upt) (use assms(3) in simp_all)
  then show ?thesis using assms(1) by (simp add: clearOutboundUpToAck_def)
qed

theorem ack_clears_prefix_witness:
  "outboundQueue (clearOutboundUpToAck (wireBlock 65536) ((new_session 0 (example_init ReadRequest))
     \<lparr>outboundQueue := map (\<lambda>i. outbound_of (encodeDATA (wireBlock (Suc i)) [])) [65533..<65538]\<rparr>))
   = map (\<lambda>i. outbound_of (encodeDATA (wireBlock (Suc i)) [])) [65536..<65538]"
proof -
  let ?s = "(new_session 0 (example_init ReadRequest))
     \<lparr>outboundQueue := map (\<lambda>i. outbound_of (encodeDATA (wireBlock (Suc i)) [])) [65533..<65538]\<rparr>"
  have "outboundQueue (clearOutboundUpToAck (wireBlock (Suc 65535)) ?s)
      = map (\<lambda>i. outbound_of (encodeDATA (wireBlock (Suc i)) [])) [Suc 65535..<65538]"
    by (rule ack_clears_prefix [where d = "\<lambda>_. []" and m = 65533])
      (simp_all add: MAX_RETRANSMISSION_PACKETS_def del: upt_conv_Cons upt_rec_numeral)
  then show ?thesis by simp
qed

text \<open>
  A second ACK(0) completes a download of one block. The peer that answered the option
  acknowledgement with ACK(0) and whose ACK(0) is repeated by the network has its transfer
  reported as done although DATA(1) was never acknowledged.
\<close>

theorem ack_zero_completes:
  assumes "rrq_start (io_of_content c) c (s, out)" "phase s = SendOACK"
    "length c < blksize (opts s)"
  shows "\<exists>s1 s2 pkts s3. handleACK now 0 s = (s1, ack_more)
    \<and> produceNextSendPackets now (io_of_content c) False s1 = Some (s2, Inr pkts)
    \<and> pkts = [encodeDATA 1 c] \<and> phase s2 = SentLast
    \<and> handleACK now 0 (recordOutbound now pkts s2) = (s3, ack_finished) \<and> phase s3 = Done"
proof -
  from rrq_start_shape [OF assms(1)] assms(2) obtain k where
    inv: "sender_inv c k s" "near s" by blast
  let ?s1 = "(clearOutboundUpToAck 0 ((touch now s)\<lparr>retries := 0\<rparr>))\<lparr>phase := Sending\<rparr>"
  have z: "k = 0" "opcode s = ReadRequest" "0 < windowsize (opts s)"
    using inv(1) assms(2) by (auto simp: sender_inv_def within_limits_def)
  then have h: "handleACK now 0 s = (?s1, ack_more)"
    using assms(2) by (simp add: handleACK_def Let_def)
  have one: "blockCount (blksize (opts s)) c = 1" using assms(3) by (simp add: blockCount_def)
  from inv z have w: "windowOpen ?s1" "near ?s1" by (simp_all add: windowOpen_def near_def sender_inv_def)
  from sender_inv_handleACK [OF inv(1) h] have i: "sender_inv c 0 ?s1" using z by simp
  from produce_near [OF i w, of now] obtain s2 k' where
    p: "produceNextSendPackets now (io_of_content c) False ?s1
      = Some (s2, Inr (map (dataPacket (blksize (opts s)) c) [0..<k']))" and
    s2: "0 < k'" "sender_inv c k' s2" "opts s2 = opts s" "phase s2 \<in> {Sending, SentLast}" by auto
  from s2 one have "k' = 1" by (auto simp: sender_inv_def)
  with s2 assms(3) have "phase s2 = SentLast" by (auto simp: sender_inv_def)
  moreover from \<open>k' = 1\<close> have "map (dataPacket (blksize (opts s)) c) [0..<k'] = [encodeDATA 1 c]"
    using assms(3) by (simp add: dataPacket_def fileBlock_def wireBlock_Suc advanceBlock_def)
  moreover from calculation(1) have "\<exists>s3. handleACK now 0 (recordOutbound now pkts s2) = (s3, ack_finished) \<and> phase s3 = Done" for pkts
    by (simp add: handleACK_def Let_def)
  ultimately show ?thesis using h p by metis
qed

theorem ack_zero_completes_witness:
  "\<exists>s s1 s2 s3. rrq_start (io_of_content [7]) [7] (s, []) \<and> handleACK 0 0 s = (s1, ack_more)
    \<and> produceNextSendPackets 0 (io_of_content [7]) False s1 = Some (s2, Inr [encodeDATA 1 [7]])
    \<and> handleACK 0 0 (recordOutbound 0 [encodeDATA 1 [7]] s2) = (s3, ack_finished) \<and> phase s3 = Done"
proof -
  obtain s where s: "rrq_start (io_of_content [7]) [7] (s, [])" "phase s = SendOACK" "blksize (opts s) = 65464"
    using example_download_start by blast
  from ack_zero_completes [OF s(1,2), of 0] s(1,3) show ?thesis by auto
qed

end
