(* ===== verification/Tftp_PathGuard.thy ===== *)
theory Tftp_PathGuard
  imports Prelude
begin

text \<open>
  The sandbox of the TFTP server:
  \<open>src/src/services/networkServers/tftp/engine/PathGuard.ts\<close>, on a POSIX host
  (\<open>path.sep\<close> is the slash). An absolute path is the list of its components;
  \<open>path.resolve\<close>, \<open>path.dirname\<close> and \<open>path.relative\<close> are written out on it, and the result of
  \<open>path.relative\<close> is turned into the string whose prefixes the code tests.

  The file system is the argument \<open>fs\<close>, a record of operations on a world. Other processes may
  change that world whenever the code awaits: the argument \<open>env\<close> gives what they do before each
  of the awaited calls, numbered in the order of the code. A method returns its result, the
  world it leaves and the directories it asked to create.
\<close>

section \<open>Paths\<close>

type_synonym abs_path = "string list"

fun split_slash :: "string \<Rightarrow> string list" where
  "split_slash [] = [[]]"
| "split_slash (ch # s) =
     (if ch = CHR ''/'' then [] # split_slash s
      else case split_slash s of [] \<Rightarrow> [[ch]] | w # ws \<Rightarrow> (ch # w) # ws)"

fun join_slash :: "string list \<Rightarrow> string" where
  "join_slash [] = []"
| "join_slash [w] = w"
| "join_slash (w # ws) = w @ CHR ''/'' # join_slash ws"

text \<open>\<open>normalizeString\<close> of \<open>node:path\<close> for an absolute path: \<open>..\<close> at the rt stays there.\<close>

fun normalize_onto :: "abs_path \<Rightarrow> string list \<Rightarrow> abs_path" where
  "normalize_onto base [] = base"
| "normalize_onto base (w # ws) =
     (if w = [] \<or> w = ''.'' then normalize_onto base ws
      else if w = ''..'' then normalize_onto (butlast base) ws
      else normalize_onto (base @ [w]) ws)"

definition path_isAbsolute :: "string \<Rightarrow> bool" where
  "path_isAbsolute p \<longleftrightarrow> (case p of ch # _ \<Rightarrow> ch = CHR ''/'' | [] \<Rightarrow> False)"

text \<open>\<open>path.resolve(base, rest)\<close> for an absolute \<open>base\<close>.\<close>

definition path_resolve :: "abs_path \<Rightarrow> string \<Rightarrow> abs_path" where
  "path_resolve base rest =
     normalize_onto (if path_isAbsolute rest then [] else base) (split_slash rest)"

definition path_dirname :: "abs_path \<Rightarrow> abs_path" where
  "path_dirname p = butlast p"

fun relative_components :: "abs_path \<Rightarrow> abs_path \<Rightarrow> string list" where
  "relative_components (f # fs) (t # to) =
     (if f = t then relative_components fs to
      else replicate (Suc (length fs)) ''..'' @ t # to)"
| "relative_components from to = replicate (length from) ''..'' @ to"

definition path_relative :: "abs_path \<Rightarrow> abs_path \<Rightarrow> string" where
  "path_relative from to = join_slash (relative_components from to)"

definition startsWith :: "string \<Rightarrow> string \<Rightarrow> bool" where
  "startsWith s p \<longleftrightarrow> take (length p) s = p"

section \<open>Errors\<close>

datatype path_error =
    PathViolationError string
  | NotAFileError string
  | FileAlreadyExistsError string
  | RootError string
  | Errno string string   \<comment> \<open>\<open>err.code\<close> and \<open>err.message\<close> of a file system error\<close>

section \<open>The file system\<close>

datatype file_kind = RegularFile | Directory | OtherKind

record file_stat =
  st_kind :: file_kind
  st_size :: nat

record 'w file_system =
  fs_stat :: "'w \<Rightarrow> abs_path \<Rightarrow> path_error + file_stat"
  fs_lstat :: "'w \<Rightarrow> abs_path \<Rightarrow> path_error + file_stat"
  fs_realpath :: "'w \<Rightarrow> abs_path \<Rightarrow> path_error + abs_path"
  fs_access :: "'w \<Rightarrow> abs_path \<Rightarrow> path_error option"
  fs_mkdir :: "'w \<Rightarrow> abs_path \<Rightarrow> path_error option \<times> 'w"

type_synonym 'w environment = "nat \<Rightarrow> 'w \<Rightarrow> 'w"

section \<open>The guard\<close>

text \<open>The constructor. It is synchronous, so the world does not change between its calls.\<close>

definition new_PathGuard :: "'w file_system \<Rightarrow> 'w \<Rightarrow> abs_path \<Rightarrow> path_error + abs_path" where
  "new_PathGuard fs w resolved =
     (case fs_stat fs w resolved of
        Inl _ \<Rightarrow> Inl (RootError ''TFTP root does not exist'')
      | Inr st \<Rightarrow> if st_kind st \<noteq> Directory then Inl (RootError ''TFTP root is not a directory'')
                  else fs_realpath fs w resolved)"

definition guard_resolve :: "abs_path \<Rightarrow> string \<Rightarrow> path_error + abs_path" where
  "guard_resolve rt fname =
     (if CHR 0x00 \<in> set fname then Inl (PathViolationError fname)
      else
        (let cleaned = dropWhile (\<lambda>ch. ch = CHR ''/'' \<or> ch = CHR 0x5C) fname;
             absolute = path_resolve rt cleaned;
             relative = path_relative rt absolute
         in if relative = [] \<or> relative = ''..'' \<or> startsWith relative ''../''
               \<or> path_isAbsolute relative
            then Inl (PathViolationError fname)
            else Inr absolute))"

definition assertRealPathContained :: "abs_path \<Rightarrow> abs_path \<Rightarrow> string \<Rightarrow> path_error option" where
  "assertRealPathContained rt rp fname =
     (let relative = path_relative rt rp
      in if relative = [] then None
         else if relative = ''..'' \<or> startsWith relative ''../'' \<or> path_isAbsolute relative
         then Some (PathViolationError fname) else None)"

definition statFile ::
  "'w file_system \<Rightarrow> 'w environment \<Rightarrow> abs_path \<Rightarrow> string \<Rightarrow> 'w \<Rightarrow>
    (path_error + nat \<times> abs_path) \<times> 'w" where
  "statFile fs env rt fname w =
     (case guard_resolve rt fname of
        Inl e \<Rightarrow> (Inl e, w)
      | Inr ab \<Rightarrow>
          (let w1 = env 0 w in
           case fs_stat fs w1 ab of
             Inl e \<Rightarrow> (Inl e, w1)
           | Inr st \<Rightarrow>
               if st_kind st \<noteq> RegularFile then (Inl (NotAFileError fname), w1)
               else
                 (let w2 = env 1 w1 in
                  case fs_realpath fs w2 ab of
                    Inl e \<Rightarrow> (Inl e, w2)
                  | Inr rp \<Rightarrow>
                      (case assertRealPathContained rt rp fname of
                         Some e \<Rightarrow> (Inl e, w2)
                       | None \<Rightarrow> (Inr (st_size st, ab), w2)))))"

text \<open>
  The walk up to the nearest directory that exists; the environment acts before each call. It
  ends at the latest at the root of the file system, the empty list.
\<close>

function deepestExistingAncestor ::
  "'w file_system \<Rightarrow> 'w environment \<Rightarrow> nat \<Rightarrow> abs_path \<Rightarrow> 'w \<Rightarrow> abs_path \<times> 'w \<times> nat" where
  "deepestExistingAncestor fs env i current w =
     (let w1 = env i w in
      case fs_stat fs w1 current of
        Inr _ \<Rightarrow> (current, w1, Suc i)
      | Inl _ \<Rightarrow>
          (let up = path_dirname current
           in if up = current then (current, w1, Suc i)
              else deepestExistingAncestor fs env (Suc i) up w1))"
  by pat_completeness auto
termination
proof (relation "measure (\<lambda>(fs, env, i, current, w). length current)", goal_cases)
  case (2 fs env i current w w1 x1 up)
  then have "current \<noteq> []" by (auto simp: path_dirname_def)
  with 2 show ?case by (simp add: path_dirname_def)
qed simp

declare deepestExistingAncestor.simps [simp del]

definition ensureWritableNew ::
  "'w file_system \<Rightarrow> 'w environment \<Rightarrow> abs_path \<Rightarrow> string \<Rightarrow> 'w \<Rightarrow>
    (path_error + abs_path) \<times> 'w \<times> abs_path list" where
  "ensureWritableNew fs env rt fname w =
     (case guard_resolve rt fname of
        Inl e \<Rightarrow> (Inl e, w, [])
      | Inr ab \<Rightarrow>
          (let parent = path_dirname ab;
               (ancestor, w1, i) = deepestExistingAncestor fs env 0 parent w;
               w2 = env i w1
           in case fs_realpath fs w2 ancestor of
                Inl e \<Rightarrow> (Inl e, w2, [])
              | Inr rp \<Rightarrow>
                  (case assertRealPathContained rt rp fname of
                     Some e \<Rightarrow> (Inl e, w2, [])
                   | None \<Rightarrow>
                       (case fs_mkdir fs (env (i + 1) w2) parent of
                          (Some e, w3) \<Rightarrow> (Inl e, w3, [parent])
                        | (None, w3) \<Rightarrow>
                            (let w4 = env (i + 2) w3 in
                             case fs_realpath fs w4 parent of
                               Inl e \<Rightarrow> (Inl e, w4, [parent])
                             | Inr rp2 \<Rightarrow>
                                 (case assertRealPathContained rt rp2 fname of
                                    Some e \<Rightarrow> (Inl e, w4, [parent])
                                  | None \<Rightarrow>
                                      (let w5 = env (i + 3) w4 in
                                       case fs_lstat fs w5 ab of
                                         Inr _ \<Rightarrow> (Inl (FileAlreadyExistsError fname), w5, [parent])
                                       | Inl e \<Rightarrow>
                                           if (case e of Errno code _ \<Rightarrow> code = ''ENOENT'' | _ \<Rightarrow> False)
                                           then (let w6 = env (i + 4) w5 in
                                                 case fs_access fs w6 parent of
                                                   Some e' \<Rightarrow> (Inl e', w6, [parent])
                                                 | None \<Rightarrow> (Inr ab, w6, [parent]))
                                           else (Inl e, w5, [parent]))))))))"

section \<open>Containment\<close>

definition inside :: "abs_path \<Rightarrow> abs_path \<Rightarrow> bool" where
  "inside rt p \<longleftrightarrow> take (length rt) p = rt"

definition strictly_inside :: "abs_path \<Rightarrow> abs_path \<Rightarrow> bool" where
  "strictly_inside rt p \<longleftrightarrow> inside rt p \<and> p \<noteq> rt"

lemma inside_iff: "inside rt p \<longleftrightarrow> (\<exists>rest. p = rt @ rest)"
  by (metis append_eq_conv_conj append_take_drop_id inside_def)

lemma relative_components_cases:
  obtains (within) rest where "p = rt @ rest" "relative_components rt p = rest"
  | (outside) n q where "relative_components rt p = replicate (Suc n) ''..'' @ q"
proof (induction rt arbitrary: p thesis)
  case Nil
  then show ?case by (cases p) simp_all
next
  case (Cons f fs)
  show ?case
  proof (cases p)
    case Nil
    with Cons(3) [of "length fs" "[]"] show ?thesis by simp
  next
    case p: (Cons t to)
    show ?thesis
    proof (cases "f = t")
      case True
      with p Cons show ?thesis by (metis append_Cons relative_components.simps(1))
    next
      case False
      with p Cons(3) [of "length fs" "t # to"] show ?thesis by simp
    qed
  qed
qed

lemma join_parent:
  "join_slash (''..'' # ws) = ''..'' \<or> startsWith (join_slash (''..'' # ws)) ''../''"
  by (cases ws) (simp_all add: startsWith_def)

lemma relative_contained:
  assumes "\<not> (path_relative rt p = ''..'' \<or> startsWith (path_relative rt p) ''../'')"
  shows "inside rt p"
proof (cases rule: relative_components_cases [of p rt])
  case (within rest)
  then show ?thesis by (simp add: inside_iff)
next
  case (outside n q)
  then show ?thesis using assms join_parent [of "replicate n ''..'' @ q"] by (simp add: path_relative_def)
qed

lemma relative_components_append [simp]: "relative_components rt (rt @ rest) = rest"
  by (induction rt) (auto simp: gr0_conv_Suc neq_Nil_conv intro: relative_components.elims)

lemma resolve_strictly_inside:
  assumes "guard_resolve rt f = Inr p"
  shows "strictly_inside rt p"
proof -
  from assms have "\<not> (path_relative rt p = ''..'' \<or> startsWith (path_relative rt p) ''../'')"
    "path_relative rt p \<noteq> []"
    by (auto simp: guard_resolve_def Let_def split: if_splits)
  moreover have "path_relative rt rt = []"
    using relative_components_append [of rt "[]"] by (simp add: path_relative_def)
  ultimately show ?thesis using relative_contained by (auto simp: strictly_inside_def)
qed

lemma assertRealPathContained_inside:
  "assertRealPathContained rt p f = None \<Longrightarrow> inside rt p"
proof -
  assume a: "assertRealPathContained rt p f = None"
  show ?thesis
  proof (cases "path_relative rt p = []")
    case True
    then show ?thesis by (intro relative_contained) (simp add: startsWith_def)
  next
    case False
    with a show ?thesis
      by (intro relative_contained) (auto simp: assertRealPathContained_def Let_def split: if_splits)
  qed
qed

text \<open>A component that names an entry of its directory.\<close>

definition proper_component :: "string \<Rightarrow> bool" where
  "proper_component w \<longleftrightarrow> w \<noteq> [] \<and> w \<noteq> ''.'' \<and> w \<noteq> ''..'' \<and> CHR ''/'' \<notin> set w"

lemma split_slash_free: "list_all (\<lambda>w. CHR ''/'' \<notin> set w) (split_slash s)"
  by (induction s) (auto split: list.splits)

lemma list_all_butlast: "list_all P xs \<Longrightarrow> list_all P (butlast xs)"
  by (auto simp: list_all_iff dest: in_set_butlastD)

lemma normalize_proper:
  "list_all proper_component base \<Longrightarrow> list_all (\<lambda>w. CHR ''/'' \<notin> set w) ws \<Longrightarrow>
    list_all proper_component (normalize_onto base ws)"
  by (induction base ws rule: normalize_onto.induct) (auto simp: list_all_butlast proper_component_def)

section \<open>File names that are accepted\<close>

definition plain_component :: "string \<Rightarrow> bool" where
  "plain_component w \<longleftrightarrow> w \<noteq> [] \<and> w \<noteq> ''.'' \<and> w \<noteq> ''..''
     \<and> CHR ''/'' \<notin> set w \<and> CHR 0x00 \<notin> set w \<and> hd w \<noteq> CHR 0x5C"

lemma split_no_slash: "CHR ''/'' \<notin> set w \<Longrightarrow> split_slash w = [w]"
  by (induction w) auto

lemma split_slash_append:
  "CHR ''/'' \<notin> set w \<Longrightarrow> split_slash (w @ CHR ''/'' # s) = w # split_slash s"
  by (induction w) auto

lemma split_join:
  "ws \<noteq> [] \<Longrightarrow> list_all (\<lambda>w. CHR ''/'' \<notin> set w) ws \<Longrightarrow> split_slash (join_slash ws) = ws"
  by (induction ws rule: join_slash.induct) (simp_all add: split_no_slash split_slash_append)

lemma normalize_plain:
  "list_all plain_component ws \<Longrightarrow> normalize_onto rt ws = rt @ ws"
  by (induction rt ws rule: normalize_onto.induct) (auto simp: plain_component_def)

lemma join_slash_set: "set (join_slash ws) \<subseteq> insert (CHR ''/'') (\<Union> (set ` set ws))"
  by (induction ws rule: join_slash.induct) auto

lemma join_slash_Cons: "join_slash (w # ws) = w @ (if ws = [] then [] else CHR ''/'' # join_slash ws)"
  by (cases ws) simp_all

lemma startsWith_parent:
  assumes "CHR ''/'' \<notin> set w" "startsWith (w @ u) ''../''" "u = [] \<or> (\<exists>v. u = CHR ''/'' # v)"
  shows "w = ''..''"
proof -
  consider "w = []" | a where "w = [a]" | a b where "w = [a, b]" | a b d v where "w = a # b # d # v"
    by (metis list.exhaust)
  then show ?thesis using assms by cases (auto simp: startsWith_def)
qed

lemma resolve_plain:
  assumes "ws \<noteq> []" "list_all plain_component ws"
  shows "guard_resolve rt (join_slash ws) = Inr (rt @ ws)"
proof -
  obtain w vs where ws: "ws = w # vs" using assms(1) by (cases ws) auto
  from assms(2) ws have w: "plain_component w" by simp
  then obtain ch u where cu: "w = ch # u" "ch \<noteq> CHR ''/''" "ch \<noteq> CHR 0x5C"
    by (cases w) (auto simp: plain_component_def)
  have j: "join_slash ws = ch # u @ (if vs = [] then [] else CHR ''/'' # join_slash vs)"
    by (simp add: ws cu(1) join_slash_Cons)
  have nul: "CHR 0x00 \<notin> set (join_slash ws)"
    using join_slash_set [of ws] assms(2) by (fastforce simp: list_all_iff plain_component_def)
  have cleaned: "dropWhile (\<lambda>ch. ch = CHR ''/'' \<or> ch = CHR 0x5C) (join_slash ws) = join_slash ws"
    using cu by (simp add: j)
  have nabs: "\<not> path_isAbsolute (join_slash ws)" using cu by (simp add: path_isAbsolute_def j)
  have split: "split_slash (join_slash ws) = ws"
    using assms by (intro split_join) (auto simp: plain_component_def list_all_iff)
  have res: "path_resolve rt (join_slash ws) = rt @ ws"
    using cu(2) normalize_plain [OF assms(2)] nabs split by (simp add: path_resolve_def)
  have rel: "path_relative rt (rt @ ws) = join_slash ws" by (simp add: path_relative_def)
  have "join_slash ws \<noteq> ''..''"
  proof
    assume "join_slash ws = ''..''"
    with split have "ws = [''..'']" by simp
    with assms(2) show False by (simp add: plain_component_def)
  qed
  moreover have "\<not> startsWith (join_slash ws) ''../''"
    using startsWith_parent [of w "if vs = [] then [] else CHR ''/'' # join_slash vs"] w
    by (auto simp: ws join_slash_Cons plain_component_def)
  moreover have "join_slash ws \<noteq> []" by (simp add: j)
  ultimately show ?thesis using nul nabs by (simp add: guard_resolve_def cleaned res rel Let_def)
qed

lemma deepestExistingAncestor_prefix:
  "deepestExistingAncestor fs env i dir w = (a, w', j) \<Longrightarrow>
    (\<exists>n. a = take n dir) \<and> ((\<exists>st. fs_stat fs w' a = Inr st) \<or> a = [])"
proof (induction fs env i dir w arbitrary: a w' j rule: deepestExistingAncestor.induct)
  case (1 fs env i current w)
  show ?case
  proof (cases "fs_stat fs (env i w) current")
    case (Inr st)
    with 1(2) show ?thesis
      by (auto simp: deepestExistingAncestor.simps [of fs env i current w] Let_def intro: exI [of _ "length current"])
  next
    case (Inl e)
    show ?thesis
    proof (cases "path_dirname current = current")
      case True
      then have "current = []"
        by (metis Suc_pred butlast.simps(1) diff_Suc_1 length_butlast length_greater_0_conv n_not_Suc_n path_dirname_def)
      with Inl 1(2) show ?thesis
        by (auto simp: deepestExistingAncestor.simps [of fs env i "[]" w] Let_def path_dirname_def)
    next
      case False
      with Inl 1(2) have "deepestExistingAncestor fs env (Suc i) (path_dirname current) (env i w) = (a, w', j)"
        by (simp add: deepestExistingAncestor.simps [of fs env i current w] Let_def)
      from 1(1) [OF refl Inl refl False this] show ?thesis
        by (auto simp: path_dirname_def butlast_conv_take)
    qed
  qed
qed

text \<open>On a world nobody else changes, no longer prefix of the path exists.\<close>

lemma deepestExistingAncestor_deepest:
  "deepestExistingAncestor fs (\<lambda>_ v. v) i dir w = (a, w', j) \<Longrightarrow>
    w' = w \<and> (\<forall>n. length a < n \<longrightarrow> n \<le> length dir \<longrightarrow> (\<exists>e. fs_stat fs w (take n dir) = Inl e))"
proof (induction fs "\<lambda>(_::nat) v. v :: 'a" i dir w arbitrary: a w' j rule: deepestExistingAncestor.induct)
  case (1 fs i current w)
  show ?case
  proof (cases "fs_stat fs w current")
    case (Inr st)
    with 1(2) show ?thesis
      by (auto simp: deepestExistingAncestor.simps [of fs _ i current w] Let_def)
  next
    case (Inl e)
    show ?thesis
    proof (cases "path_dirname current = current")
      case True
      with Inl 1(2) show ?thesis
        by (auto simp: deepestExistingAncestor.simps [of fs _ i current w] Let_def)
    next
      case False
      with Inl 1(2) have r: "deepestExistingAncestor fs (\<lambda>_ v. v) (Suc i) (path_dirname current) w = (a, w', j)"
        by (simp add: deepestExistingAncestor.simps [of fs _ i current w] Let_def)
      note ih = 1(1) [OF refl Inl refl False r]
      have "\<exists>e. fs_stat fs w (take n current) = Inl e" if "length a < n" "n \<le> length current" for n
      proof (cases "n = length current")
        case True
        with Inl show ?thesis by simp
      next
        case F: False
        with that have "n \<le> length (path_dirname current)" by (simp add: path_dirname_def)
        moreover from F that have "take n (path_dirname current) = take n current"
          by (simp add: path_dirname_def take_butlast)
        ultimately show ?thesis using ih that(1) by metis
      qed
      with ih show ?thesis by blast
    qed
  qed
qed

text \<open>
  A file offered for download is a regular file whose name lies strictly inside the
  root and whose real path, as the host resolved it when it was checked, lies inside the root
  too, whatever other processes do between the calls.
\<close>

theorem statFile_contained:
  assumes "statFile fs env rt f w = (Inr (n, p), w')"
  shows "strictly_inside rt p
    \<and> (\<exists>st. fs_stat fs (env 0 w) p = Inr st \<and> st_kind st = RegularFile \<and> st_size st = n)
    \<and> (\<exists>rp. fs_realpath fs w' p = Inr rp \<and> inside rt rp)"
  using assms resolve_strictly_inside [of rt f p] assertRealPathContained_inside
  by (auto simp: statFile_def Let_def split: sum.splits if_splits option.splits)

text \<open>The world in which the containment of the ancestor is checked, and that ancestor.\<close>

definition checkedAncestor ::
  "'w file_system \<Rightarrow> 'w environment \<Rightarrow> abs_path \<Rightarrow> 'w \<Rightarrow> abs_path \<times> 'w" where
  "checkedAncestor fs env parent w =
     (case deepestExistingAncestor fs env 0 parent w of (a, w1, i) \<Rightarrow> (a, env i w1))"

text \<open>
  A directory is created for an upload only when the deepest existing ancestor of that
  directory has, at the moment of the check, a real path inside the root; it is the parent of a
  path strictly inside the root, and the only one. A refused request creates nothing.
\<close>

theorem mkdir_contained:
  assumes "ensureWritableNew fs env rt f w = (r, w', dirs)" and "d \<in> set dirs"
  shows "\<exists>p a w2 rp. guard_resolve rt f = Inr p \<and> strictly_inside rt p \<and> d = path_dirname p
    \<and> dirs = [d] \<and> checkedAncestor fs env d w = (a, w2) \<and> (\<exists>n. a = take n d)
    \<and> fs_realpath fs w2 a = Inr rp \<and> inside rt rp"
proof -
  from assms obtain p where p: "guard_resolve rt f = Inr p"
    by (auto simp: ensureWritableNew_def split: sum.splits)
  obtain a w1 i where a: "deepestExistingAncestor fs env 0 (path_dirname p) w = (a, w1, i)"
    by (metis prod_cases3)
  from assms p a obtain rp where rp: "fs_realpath fs (env i w1) a = Inr rp"
    by (auto simp: ensureWritableNew_def Let_def split: sum.splits)
  with assms p a have c: "assertRealPathContained rt rp f = None"
    by (auto simp: ensureWritableNew_def Let_def split: option.splits)
  with assms p a rp have "dirs = [path_dirname p]"
    by (auto simp: ensureWritableNew_def Let_def
        split: prod.splits option.splits sum.splits if_splits)
  with p a rp assms(2) resolve_strictly_inside [OF p] assertRealPathContained_inside [OF c]
    deepestExistingAncestor_prefix [OF a]
  show ?thesis by (auto simp: checkedAncestor_def)
qed

text \<open>
  A path accepted for an upload, when no other process interferes, lies strictly inside
  the root; its parent has been created, is writable and has its real path inside the root, and
  nothing, not even a dangling link, is at the path.
\<close>

theorem writable_new_fresh:
  assumes "ensureWritableNew fs (\<lambda>_ v. v) rt f w = (Inr p, w', dirs)"
  shows "strictly_inside rt p \<and> dirs = [path_dirname p]
    \<and> fs_mkdir fs w (path_dirname p) = (None, w')
    \<and> (\<exists>rp. fs_realpath fs w' (path_dirname p) = Inr rp \<and> inside rt rp)
    \<and> (\<exists>m. fs_lstat fs w' p = Inl (Errno ''ENOENT'' m))
    \<and> fs_access fs w' (path_dirname p) = None"
proof -
  from assms have p: "guard_resolve rt f = Inr p"
    by (auto simp: ensureWritableNew_def Let_def
        split: prod.splits option.splits sum.splits if_splits)
  obtain a i where a: "deepestExistingAncestor fs (\<lambda>_ v. v) 0 (path_dirname p) w = (a, w, i)"
    using deepestExistingAncestor_deepest by (metis prod_cases3)
  with assms p resolve_strictly_inside [OF p] show ?thesis
    by (auto simp: ensureWritableNew_def Let_def
        split: prod.splits option.splits sum.splits if_splits path_error.splits
        intro: assertRealPathContained_inside)
qed

section \<open>A concrete file system\<close>

text \<open>The world is the list of directories; every other path is a file when it is listed.\<close>

definition example_fs :: "abs_path list file_system" where
  "example_fs =
     \<lparr> fs_stat = (\<lambda>w p. if p \<in> set w then Inr \<lparr>st_kind = Directory, st_size = 0\<rparr>
                       else if p = [''srv'', ''kernel''] then Inr \<lparr>st_kind = RegularFile, st_size = 9\<rparr>
                       else Inl (Errno ''ENOENT'' ''no such file'')),
       fs_lstat = (\<lambda>w p. if p \<in> set w then Inr \<lparr>st_kind = Directory, st_size = 0\<rparr>
                       else if p = [''srv'', ''kernel''] then Inr \<lparr>st_kind = RegularFile, st_size = 9\<rparr>
                       else Inl (Errno ''ENOENT'' ''no such file'')),
       fs_realpath = (\<lambda>w p. Inr p),
       fs_access = (\<lambda>w p. None),
       fs_mkdir = (\<lambda>w p. (None, p # w)) \<rparr>"

theorem statFile_contained_witness:
  "statFile example_fs (\<lambda>_ v. v) [''srv''] ''/kernel'' [[], [''srv'']]
     = (Inr (9, [''srv'', ''kernel'']), [[], [''srv'']])
   \<and> strictly_inside [''srv''] [''srv'', ''kernel'']"
proof -
  have "statFile example_fs (\<lambda>_ v. v) [''srv''] ''/kernel'' [[], [''srv'']]
     = (Inr (9, [''srv'', ''kernel'']), [[], [''srv'']])" by code_simp
  with statFile_contained [OF this] show ?thesis by blast
qed

lemma example_write:
  "ensureWritableNew example_fs (\<lambda>_ v. v) [''srv''] ''a/b/f'' [[], [''srv'']]
     = (Inr [''srv'', ''a'', ''b'', ''f''], [[''srv'', ''a'', ''b''], [], [''srv'']], [[''srv'', ''a'', ''b'']])"
  by code_simp

theorem mkdir_contained_witness:
  "ensureWritableNew example_fs (\<lambda>_ v. v) [''srv''] ''a/b/f'' [[], [''srv'']]
     = (Inr [''srv'', ''a'', ''b'', ''f''], [[''srv'', ''a'', ''b''], [], [''srv'']], [[''srv'', ''a'', ''b'']])
   \<and> (\<exists>a w2 rp. checkedAncestor example_fs (\<lambda>_ v. v) [''srv'', ''a'', ''b''] [[], [''srv'']] = (a, w2)
        \<and> fs_realpath example_fs w2 a = Inr rp \<and> inside [''srv''] rp)"
  using mkdir_contained [OF example_write, of "[''srv'', ''a'', ''b'']"] example_write by auto

theorem writable_new_fresh_witness:
  "fst (ensureWritableNew example_fs (\<lambda>_ v. v) [''srv''] ''a/b/f'' [[], [''srv'']])
     = Inr [''srv'', ''a'', ''b'', ''f'']
   \<and> strictly_inside [''srv''] [''srv'', ''a'', ''b'', ''f'']"
  using writable_new_fresh [OF example_write] example_write by simp

text \<open>
  C8. Whatever name the peer sends, a path that \<open>resolve\<close> accepts is strictly inside the
  root, and none of its components is empty, a dot, two dots or contains a slash.
\<close>

theorem resolve_sandboxed:
  assumes "guard_resolve rt f = Inr p" "list_all proper_component rt"
  shows "strictly_inside rt p \<and> list_all proper_component p"
proof -
  from assms(1) have "\<exists>base ws. p = normalize_onto base (split_slash ws) \<and> (base = [] \<or> base = rt)"
    by (auto simp: guard_resolve_def path_resolve_def Let_def split: if_splits)
  with assms(2) have "list_all proper_component p" by (auto intro: normalize_proper split_slash_free)
  with resolve_strictly_inside [OF assms(1)] show ?thesis by blast
qed

theorem resolve_sandboxed_witness:
  "guard_resolve [''srv''] ''a/../b'' = Inr [''srv'', ''b''] \<and> strictly_inside [''srv''] [''srv'', ''b'']
   \<and> guard_resolve [''srv''] ''a/../../b'' = Inl (PathViolationError ''a/../../b'')"
proof -
  have 1: "guard_resolve [''srv''] ''a/../b'' = Inr [''srv'', ''b'']" by code_simp
  have 2: "guard_resolve [''srv''] ''a/../../b'' = Inl (PathViolationError ''a/../../b'')" by code_simp
  from 1 2 resolve_sandboxed [OF 1] show ?thesis by (simp add: proper_component_def)
qed

text \<open>
  Every name made of ordinary components is accepted, with or without a leading slash,
  and denotes the path those components give below the root.
\<close>

theorem resolve_accepts:
  assumes "ws \<noteq> []" "list_all plain_component ws"
  shows "guard_resolve rt (join_slash ws) = Inr (rt @ ws)
    \<and> guard_resolve rt (CHR ''/'' # join_slash ws) = Inr (rt @ ws)"
proof -
  have "guard_resolve rt (CHR ''/'' # s) = Inr p" if "guard_resolve rt s = Inr p" for s p
    using that by (auto simp: guard_resolve_def Let_def split: if_splits)
  with resolve_plain [OF assms] show ?thesis by blast
qed

theorem resolve_accepts_witness:
  "guard_resolve [''srv''] (join_slash [''boot'', ''grub'', ''core.0'']) = Inr [''srv'', ''boot'', ''grub'', ''core.0'']"
  using resolve_accepts [of "[''boot'', ''grub'', ''core.0'']" "[''srv'']"] by (simp add: plain_component_def)

end
