(* ===== verification/Tftp_Engine.thy ===== *)
theory Tftp_Engine
  imports Tftp_Session Tftp_PathGuard "HOL-Library.AList"
begin

text \<open>
  The TFTP server: \<open>src/src/services/networkServers/tftp/engine/TftpEngine.ts\<close>. An asynchronous
  method is cut at its awaits. The part before an await is a function on the engine that leaves
  a \<open>task\<close> behind; the part after it is a function that takes that task and the outcome of
  what was awaited. A step of \<open>engine_step\<close> runs one part, so a run is an interleaving of the
  parts as the event loop may order them.

  A session is an object with an identity: it is a position in \<open>sessions\<close>, which only grows, and
  the maps hold positions. Maps and sets keep their insertion order in association lists and
  lists. Files of uploads are handle numbers, with \<open>openHandles\<close> the ones the host has open and
  \<open>written\<close> what was written through them. \<open>sent\<close> and \<open>emitted\<close> record the datagrams and the
  events; log lines are left out. The reads within one call of \<open>produceNextSendPackets\<close> are not
  interleaved with other handlers, and a datagram handed to an open socket is sent.
\<close>

section \<open>State\<close>

datatype lifecycle_kind = Start | Stop

datatype lifecycle_stage = NotRunning | Binding nat | Draining

record engine_options =
  opt_port :: nat
  opt_address :: string
  opt_allowWrite :: bool
  opt_timeoutMs :: nat
  opt_gcIntervalMs :: nat
  opt_maxTransfers :: nat

record transfer_info =
  info_id :: string
  info_peer :: peer
  info_direction :: request_kind
  info_filename :: string
  info_bytes :: nat
  info_totalBytes :: "nat option"
  info_blockSize :: nat
  info_windowSize :: nat
  info_metrics :: transfer_metrics

datatype engine_event =
    Listening
  | Closed
  | EngineError string
  | TransferStart transfer_info
  | TransferProgress transfer_info
  | TransferComplete transfer_info
  | TransferError transfer_info string

record request =
  rq_kind :: request_kind
  rq_filename :: string
  rq_mode :: transfer_mode
  rq_options :: raw_options

text \<open>How a session ends, and who awaits the end of its clean-up.\<close>

datatype outcome = Completed | Erroneous string

datatype awaiter = ByPacket peer | Detached

datatype task =
    AdmitPath peer request nat
  | AdmitOpen peer request nat nat "buffer list"
  | AdmitClose peer nat
  | AdmitProduce peer nat
  | PacketProduce peer nat bool
  | PacketOpen peer nat buffer data_result
  | PacketWrite peer nat nat buffer data_result
  | CloseFile string nat outcome transfer_info awaiter
  | CloseHandle string nat outcome transfer_info awaiter

record engine =
  eopts :: engine_options
  esocket :: bool
  guard :: "abs_path option"
  sessions :: "session list"
  transfers :: "(string \<times> nat) list"
  writeHandles :: "(string \<times> nat) list"
  finalizing :: "string list"
  pendingAdmissionKeys :: "string list"
  packetQueue :: "(peer \<times> nat \<times> buffer) list"
  busyPeers :: "string list"
  lifecycleGeneration :: nat
  acceptingRequests :: bool
  gcTimer :: bool
  lifecycleQueue :: "lifecycle_kind list"
  lifecycleStage :: lifecycle_stage
  tasks :: "task list"
  openHandles :: "nat list"
  nextHandle :: nat
  written :: "(nat \<times> buffer) list"
  sent :: "(peer \<times> buffer) list"
  emitted :: "engine_event list"

definition DEFAULT_GC_MS :: nat where "DEFAULT_GC_MS = 2000"
definition DEFAULT_MAX_TRANSFERS :: nat where "DEFAULT_MAX_TRANSFERS = 64"

definition engine_options_of ::
  "nat option \<Rightarrow> string option \<Rightarrow> bool option \<Rightarrow> nat option \<Rightarrow> nat option \<Rightarrow> nat option \<Rightarrow> engine_options" where
  "engine_options_of p a wr t g m =
     \<lparr> opt_port = or_default p 69, opt_address = or_default a ''0.0.0.0'',
       opt_allowWrite = or_default wr False, opt_timeoutMs = or_default t DEFAULT_TIMEOUT_MS,
       opt_gcIntervalMs = or_default g DEFAULT_GC_MS,
       opt_maxTransfers = or_default m DEFAULT_MAX_TRANSFERS \<rparr>"

definition new_engine :: "engine_options \<Rightarrow> engine" where
  "new_engine options =
     \<lparr> eopts = options, esocket = False, guard = None, sessions = [], transfers = [],
       writeHandles = [], finalizing = [], pendingAdmissionKeys = [], packetQueue = [],
       busyPeers = [], lifecycleGeneration = 0, acceptingRequests = False, gcTimer = False,
       lifecycleQueue = [], lifecycleStage = NotRunning, tasks = [], openHandles = [],
       nextHandle = 0, written = [], sent = [], emitted = [] \<rparr>"

definition peerKey :: "peer \<Rightarrow> string" where
  "peerKey p = address p @ '':'' @ show_nat (port p)"

section \<open>Access\<close>

definition sess :: "engine \<Rightarrow> nat \<Rightarrow> session" where
  "sess e sid = sessions e ! sid"

definition upd_session :: "nat \<Rightarrow> (session \<Rightarrow> session) \<Rightarrow> engine \<Rightarrow> engine" where
  "upd_session sid f e = e\<lparr>sessions := (sessions e)[sid := f (sess e sid)]\<rparr>"

definition emit :: "engine_event \<Rightarrow> engine \<Rightarrow> engine" where
  "emit ev e = e\<lparr>emitted := emitted e @ [ev]\<rparr>"

definition add_task :: "task \<Rightarrow> engine \<Rightarrow> engine" where
  "add_task t e = e\<lparr>tasks := tasks e @ [t]\<rparr>"

definition remove_task :: "task \<Rightarrow> engine \<Rightarrow> engine" where
  "remove_task t e = e\<lparr>tasks := remove1 t (tasks e)\<rparr>"

definition infoOf :: "int \<Rightarrow> nat \<Rightarrow> engine \<Rightarrow> engine \<times> transfer_info" where
  "infoOf now sid e =
     (let (s, m) = getMetrics now (sess e sid)
      in (upd_session sid (\<lambda>_. s) e,
          \<lparr> info_id = transferId s, info_peer = speer s, info_direction = opcode s,
            info_filename = filename s, info_bytes = bytesTransferred s,
            info_totalBytes = (case tsizeAtStart s of
                                 Some n \<Rightarrow> Some n
                               | None \<Rightarrow> if opcode s = WriteRequest then None else Some (fileSize s)),
            info_blockSize = blksize (opts s), info_windowSize = windowsize (opts s),
            info_metrics = m \<rparr>))"

definition sendRaw :: "peer \<Rightarrow> buffer list \<Rightarrow> engine \<Rightarrow> engine" where
  "sendRaw p pkts e = (if esocket e then e\<lparr>sent := sent e @ map (Pair p) pkts\<rparr> else e)"

definition sendForTransfer :: "int \<Rightarrow> nat \<Rightarrow> buffer list \<Rightarrow> engine \<Rightarrow> engine" where
  "sendForTransfer now sid pkts e =
     (if pkts = [] then e
      else sendRaw (speer (sess e sid)) pkts (upd_session sid (recordOutbound now pkts) e))"

section \<open>Clean-up\<close>

definition packetFinished :: "peer \<Rightarrow> engine \<Rightarrow> engine" where
  "packetFinished p e = e\<lparr>busyPeers := removeAll (peerKey p) (busyPeers e)\<rparr>"

definition admissionFinished :: "peer \<Rightarrow> engine \<Rightarrow> engine" where
  "admissionFinished p e =
     e\<lparr>pendingAdmissionKeys := removeAll (peerKey p) (pendingAdmissionKeys e)\<rparr>"

definition awaiterDone :: "awaiter \<Rightarrow> engine \<Rightarrow> engine" where
  "awaiterDone a e = (case a of ByPacket p \<Rightarrow> packetFinished p e | Detached \<Rightarrow> e)"

text \<open>The end of \<open>cleanupDone\<close> and \<open>cleanupErroneous\<close>, after \<open>cleanup\<close>.\<close>

definition finalized :: "string \<Rightarrow> outcome \<Rightarrow> transfer_info \<Rightarrow> awaiter \<Rightarrow> engine \<Rightarrow> engine" where
  "finalized key out info a e =
     awaiterDone a
       (emit (case out of Completed \<Rightarrow> TransferComplete info | Erroneous m \<Rightarrow> TransferError info m)
          (e\<lparr>finalizing := removeAll key (finalizing e)\<rparr>))"

text \<open>
  \<open>cleanupDone\<close> and \<open>cleanupErroneous\<close> up to the first await of \<open>cleanup\<close>; they differ in the
  event. Without a registered session \<open>cleanup\<close> returns at once.
\<close>

definition finalize :: "outcome \<Rightarrow> awaiter \<Rightarrow> int \<Rightarrow> nat \<Rightarrow> engine \<Rightarrow> engine" where
  "finalize out a now sid e =
     (let key = transferId (sess e sid) in
      if key \<in> set (finalizing e) then awaiterDone a e
      else
        (let (e1, info) = infoOf now sid (e\<lparr>finalizing := List.insert key (finalizing e)\<rparr>)
         in case map_of (transfers e1) key of
              None \<Rightarrow> finalized key out info a e1
            | Some sid' \<Rightarrow> add_task (CloseFile key sid' out info a) e1))"

abbreviation cleanupDone :: "awaiter \<Rightarrow> int \<Rightarrow> nat \<Rightarrow> engine \<Rightarrow> engine" where
  "cleanupDone \<equiv> finalize Completed"

abbreviation cleanupErroneous :: "string \<Rightarrow> awaiter \<Rightarrow> int \<Rightarrow> nat \<Rightarrow> engine \<Rightarrow> engine" where
  "cleanupErroneous m \<equiv> finalize (Erroneous m)"

definition deleteTransfer :: "string \<Rightarrow> engine \<Rightarrow> engine" where
  "deleteTransfer key e = e\<lparr>transfers := AList.delete key (transfers e)\<rparr>"

definition resumeCloseFile ::
  "string \<Rightarrow> nat \<Rightarrow> outcome \<Rightarrow> transfer_info \<Rightarrow> awaiter \<Rightarrow> engine \<Rightarrow> engine" where
  "resumeCloseFile key sid out info a e =
     (let e1 = upd_session sid closeFile e in
      case map_of (writeHandles e1) key of
        Some h \<Rightarrow> add_task (CloseHandle key h out info a)
                    (e1\<lparr>writeHandles := AList.delete key (writeHandles e1)\<rparr>)
      | None \<Rightarrow> finalized key out info a (deleteTransfer key e1))"

definition closeHandle :: "nat \<Rightarrow> engine \<Rightarrow> engine" where
  "closeHandle h e = e\<lparr>openHandles := removeAll h (openHandles e)\<rparr>"

definition resumeCloseHandle ::
  "string \<Rightarrow> nat \<Rightarrow> outcome \<Rightarrow> transfer_info \<Rightarrow> awaiter \<Rightarrow> engine \<Rightarrow> engine" where
  "resumeCloseHandle key h out info a e =
     finalized key out info a (deleteTransfer key (closeHandle h e))"

text \<open>The handler of a rejected \<open>handleMessage\<close>.\<close>

definition messageRejected :: "int \<Rightarrow> peer \<Rightarrow> string \<Rightarrow> engine \<Rightarrow> engine" where
  "messageRejected now p message e =
     (case map_of (transfers e) (peerKey p) of
        None \<Rightarrow> e
      | Some sid \<Rightarrow>
          cleanupErroneous message Detached now sid
            (sendRaw p [encodeERROR NotDefined (Some ''Internal error'')] e))"

section \<open>Packets of an existing transfer\<close>

definition errno_code :: "io_error \<Rightarrow> string" where
  "errno_code err = (case err of IoError code m \<Rightarrow> code)"

definition errno_message :: "io_error \<Rightarrow> string" where
  "errno_message err = (case err of IoError code m \<Rightarrow> m)"

definition writeFailure :: "io_error \<Rightarrow> error_code \<times> string option" where
  "writeFailure err =
     (if errno_code err = ''ENOSPC'' then (DiskFull, Some ''Disk full or allocation exceeded'')
      else if errno_code err = ''EACCES'' \<or> errno_code err = ''EPERM'' then (AccessViolation, None)
      else (NotDefined, Some (errno_message err)))"

definition writeFailedCleanup :: "int \<Rightarrow> peer \<Rightarrow> nat \<Rightarrow> io_error \<Rightarrow> engine \<Rightarrow> engine" where
  "writeFailedCleanup now p sid err e =
     (let (code, msg) = writeFailure err;
          e1 = sendRaw (speer (sess e sid)) [encodeERROR code msg] e
      in cleanupErroneous (case msg of Some m \<Rightarrow> m | None \<Rightarrow> show_nat (unat (error_num code)))
           (ByPacket p) now sid e1)"

definition afterAck :: "int \<Rightarrow> peer \<Rightarrow> nat \<Rightarrow> bool \<Rightarrow> engine \<Rightarrow> engine" where
  "afterAck now p sid ackDone e =
     (if ackDone \<or> phase (sess e sid) = Done then cleanupDone (ByPacket p) now sid e
      else packetFinished p e)"

definition afterData :: "int \<Rightarrow> peer \<Rightarrow> nat \<Rightarrow> data_result \<Rightarrow> engine \<Rightarrow> engine" where
  "afterData now p sid r e =
     (let e1 = sendForTransfer now sid (data_send r) e
      in if data_done r \<or> phase (sess e1 sid) = Done then cleanupDone (ByPacket p) now sid e1
         else packetFinished p e1)"

text \<open>\<open>appendWrite\<close> up to its first await: opening the file again, or writing to it.\<close>

definition appendWrite :: "peer \<Rightarrow> nat \<Rightarrow> buffer \<Rightarrow> data_result \<Rightarrow> engine \<Rightarrow> engine" where
  "appendWrite p sid data r e =
     (if opcode (sess e sid) \<noteq> WriteRequest then packetFinished p e
      else case map_of (writeHandles e) (transferId (sess e sid)) of
             None \<Rightarrow> add_task (PacketOpen p sid data r) e
           | Some h \<Rightarrow> add_task (PacketWrite p sid h data r) e)"

definition routeExisting :: "int \<Rightarrow> peer \<Rightarrow> nat \<Rightarrow> buffer \<Rightarrow> engine \<Rightarrow> engine" where
  "routeExisting now p sid msg e =
     (case parsePacket msg of
        Inl (ProtocolError m) \<Rightarrow>
          cleanupErroneous m (ByPacket p) now sid (sendRaw p [encodeERROR IllegalOperation (Some m)] e)
      | Inr None \<Rightarrow> packetFinished p e
      | Inr (Some (ACK n)) \<Rightarrow>
          (let (s, r) = handleACK now n (sess e sid);
               e1 = sendForTransfer now sid (ack_send r) (upd_session sid (\<lambda>_. s) e)
           in if ack_produceMore r then add_task (PacketProduce p sid (ack_done r)) e1
              else afterAck now p sid (ack_done r) e1)
      | Inr (Some (DATA n d)) \<Rightarrow>
          (let (s, r) = handleDATA now n d (sess e sid);
               e1 = upd_session sid (\<lambda>_. s) e
           in case data_write r of
                Some w \<Rightarrow> appendWrite p sid w r e1
              | None \<Rightarrow> afterData now p sid r e1)
      | Inr (Some (ERROR n m)) \<Rightarrow>
          cleanupErroneous (''Client error: '' @ (if m = [] then show_nat (unat n) else m))
            (ByPacket p) now sid e
      | Inr (Some _) \<Rightarrow> packetFinished p e)"

definition resumePacketProduce :: "int \<Rightarrow> file_io \<Rightarrow> peer \<Rightarrow> nat \<Rightarrow> bool \<Rightarrow> engine \<Rightarrow> engine" where
  "resumePacketProduce now io p sid ackDone e =
     (case produceNextSendPackets now io False (sess e sid) of
        None \<Rightarrow> e
      | Some (s, Inl err) \<Rightarrow>
          messageRejected now p (errno_message err) (packetFinished p (upd_session sid (\<lambda>_. s) e))
      | Some (s, Inr pkts) \<Rightarrow>
          (let e1 = sendForTransfer now sid pkts (upd_session sid (\<lambda>_. s) e);
               e2 = (if pkts = [] then e1
                     else case infoOf now sid e1 of (e', info) \<Rightarrow> emit (TransferProgress info) e')
           in afterAck now p sid ackDone e2))"

definition openNew :: "engine \<Rightarrow> engine \<times> nat" where
  "openNew e = (e\<lparr>openHandles := nextHandle e # openHandles e, nextHandle := Suc (nextHandle e)\<rparr>,
                nextHandle e)"

definition resumePacketOpen ::
  "int \<Rightarrow> io_error option \<Rightarrow> peer \<Rightarrow> nat \<Rightarrow> buffer \<Rightarrow> data_result \<Rightarrow> engine \<Rightarrow> engine" where
  "resumePacketOpen now result p sid data r e =
     (case result of
        Some err \<Rightarrow> writeFailedCleanup now p sid err e
      | None \<Rightarrow>
          (case openNew e of (e1, h) \<Rightarrow>
             add_task (PacketWrite p sid h data r)
               (e1\<lparr>writeHandles := AList.update (transferId (sess e1 sid)) h (writeHandles e1)\<rparr>)))"

definition resumePacketWrite ::
  "int \<Rightarrow> io_error option \<Rightarrow> peer \<Rightarrow> nat \<Rightarrow> nat \<Rightarrow> buffer \<Rightarrow> data_result \<Rightarrow> engine \<Rightarrow> engine" where
  "resumePacketWrite now result p sid h data r e =
     (case result of
        Some err \<Rightarrow> writeFailedCleanup now p sid err e
      | None \<Rightarrow>
          (case infoOf now sid (e\<lparr>written := written e @ [(h, data)]\<rparr>) of
             (e1, info) \<Rightarrow> afterData now p sid r (emit (TransferProgress info) e1)))"

text \<open>The callback queued by \<open>enqueueExistingPacket\<close>.\<close>

definition runPacket :: "int \<Rightarrow> peer \<Rightarrow> nat \<Rightarrow> buffer \<Rightarrow> engine \<Rightarrow> engine" where
  "runPacket now p sid msg e =
     (let e1 = e\<lparr>packetQueue := remove1 (p, sid, msg) (packetQueue e)\<rparr>
      in if map_of (transfers e1) (peerKey p) = Some sid
         then routeExisting now p sid msg (e1\<lparr>busyPeers := List.insert (peerKey p) (busyPeers e1)\<rparr>)
         else e1)"

section \<open>New requests\<close>

definition ownsAdmission :: "nat \<Rightarrow> engine \<Rightarrow> bool" where
  "ownsAdmission generation e \<longleftrightarrow> acceptingRequests e \<and> lifecycleGeneration e = generation"

definition genericError :: "path_error \<Rightarrow> buffer" where
  "genericError err =
     (case err of
        PathViolationError f \<Rightarrow> encodeERROR AccessViolation None
      | NotAFileError f \<Rightarrow> encodeERROR FileNotFound (Some ''Not a file'')
      | FileAlreadyExistsError f \<Rightarrow> encodeERROR FileAlreadyExists None
      | Errno code m \<Rightarrow>
          if code = ''ENOENT'' then encodeERROR FileNotFound None
          else if code = ''ENOSPC'' then encodeERROR DiskFull (Some ''Disk full or allocation exceeded'')
          else if code = ''EACCES'' \<or> code = ''EPERM'' then encodeERROR AccessViolation None
          else encodeERROR NotDefined (Some m)
      | RootError m \<Rightarrow> encodeERROR NotDefined (Some (''Error: '' @ m)))"

definition sendErrorFromGeneric :: "peer \<Rightarrow> path_error \<Rightarrow> engine \<Rightarrow> engine" where
  "sendErrorFromGeneric p err e = sendRaw p [genericError err] e"

definition createFailure :: "io_error \<Rightarrow> buffer" where
  "createFailure err =
     (if errno_code err = ''ENOSPC'' then encodeERROR DiskFull (Some ''Disk full or allocation exceeded'')
      else if errno_code err = ''EEXIST'' then encodeERROR FileAlreadyExists None
      else encodeERROR AccessViolation (Some ''Cannot create file''))"

text \<open>The end of \<open>admitNewRequest\<close>, once the file of an upload is open.\<close>

definition registerTransfer ::
  "int \<Rightarrow> peer \<Rightarrow> nat \<Rightarrow> nat \<Rightarrow> buffer list \<Rightarrow> engine \<Rightarrow> engine" where
  "registerTransfer now p generation sid initial e =
     (let key = transferId (sess e sid) in
      if \<not> ownsAdmission generation e then
        (case map_of (writeHandles e) key of
           Some h \<Rightarrow> add_task (AdmitClose p h)
                       (e\<lparr>writeHandles := AList.delete key (writeHandles e)\<rparr>)
         | None \<Rightarrow> admissionFinished p e)
      else
        (let e1 = e\<lparr>transfers := AList.update key sid (transfers e)\<rparr>;
             e2 = (case infoOf now sid e1 of (e', info) \<Rightarrow> emit (TransferStart info) e');
             e3 = sendForTransfer now sid initial e2
         in if phase (sess e3 sid) = Sending \<and> opcode (sess e3 sid) = ReadRequest
            then add_task (AdmitProduce p sid) e3
            else admissionFinished p e3))"

definition admissionInit :: "peer \<Rightarrow> request \<Rightarrow> abs_path \<Rightarrow> transfer_init" where
  "admissionInit p rq absPath =
     \<lparr> init_peer = p, init_opcode = rq_kind rq, init_filename = rq_filename rq,
       init_absFilePath = CHR ''/'' # join_slash absPath, init_mode = rq_mode rq,
       init_rawOptions = rq_options rq \<rparr>"

definition resumeAdmitPath ::
  "int \<Rightarrow> path_error + abs_path \<times> nat \<Rightarrow> peer \<Rightarrow> request \<Rightarrow> nat \<Rightarrow> engine \<Rightarrow> engine" where
  "resumeAdmitPath now result p rq generation e =
     (case result of
        Inl err \<Rightarrow> admissionFinished p (sendErrorFromGeneric p err e)
      | Inr (absPath, fsize) \<Rightarrow>
          if \<not> ownsAdmission generation e then admissionFinished p e
          else
            (let s = new_session now (admissionInit p rq absPath)
             in if phase s = Failed then admissionFinished p (sendRaw p [makeErrorPacket s] e)
                else
                  (let hasOptions = (rq_options rq \<noteq> []);
                       (s1, initial) = (if rq_kind rq = ReadRequest then initForRRQ hasOptions fsize s
                                        else initForWRQ hasOptions s);
                       sid = length (sessions e);
                       e1 = e\<lparr>sessions := sessions e @ [s1]\<rparr>
                   in if rq_kind rq = ReadRequest then registerTransfer now p generation sid initial e1
                      else add_task (AdmitOpen p rq generation sid initial) e1)))"

definition resumeAdmitOpen ::
  "int \<Rightarrow> io_error option \<Rightarrow> peer \<Rightarrow> nat \<Rightarrow> nat \<Rightarrow> buffer list \<Rightarrow> engine \<Rightarrow> engine" where
  "resumeAdmitOpen now result p generation sid initial e =
     (case result of
        Some err \<Rightarrow>
          if \<not> ownsAdmission generation e then admissionFinished p e
          else admissionFinished p (sendRaw p [createFailure err] e)
      | None \<Rightarrow>
          (case openNew e of (e1, h) \<Rightarrow>
             if \<not> ownsAdmission generation e1 then add_task (AdmitClose p h) e1
             else registerTransfer now p generation sid initial
                    (e1\<lparr>writeHandles := AList.update (transferId (sess e1 sid)) h (writeHandles e1)\<rparr>)))"

definition resumeAdmitClose :: "peer \<Rightarrow> nat \<Rightarrow> engine \<Rightarrow> engine" where
  "resumeAdmitClose p h e = admissionFinished p (closeHandle h e)"

definition resumeAdmitProduce :: "int \<Rightarrow> file_io \<Rightarrow> peer \<Rightarrow> nat \<Rightarrow> engine \<Rightarrow> engine" where
  "resumeAdmitProduce now io p sid e =
     (case produceNextSendPackets now io False (sess e sid) of
        None \<Rightarrow> e
      | Some (s, Inl err) \<Rightarrow>
          messageRejected now p (errno_message err) (admissionFinished p (upd_session sid (\<lambda>_. s) e))
      | Some (s, Inr pkts) \<Rightarrow>
          (let e1 = sendForTransfer now sid pkts (upd_session sid (\<lambda>_. s) e)
           in admissionFinished p
                (if pkts = [] then e1
                 else case infoOf now sid e1 of (e', info) \<Rightarrow> emit (TransferProgress info) e')))"

definition admitNewRequest :: "peer \<Rightarrow> request \<Rightarrow> nat \<Rightarrow> engine \<Rightarrow> engine" where
  "admitNewRequest p rq generation e =
     (case guard e of
        None \<Rightarrow> admissionFinished p
                  (sendRaw p [encodeERROR NotDefined (Some ''TFTP root is not available'')] e)
      | Some rt \<Rightarrow>
          if rq_kind rq = WriteRequest \<and> \<not> opt_allowWrite (eopts e)
          then admissionFinished p (sendRaw p [encodeERROR AccessViolation (Some ''Write not allowed'')] e)
          else add_task (AdmitPath p rq generation) e)"

definition request_of :: "tftp_packet option \<Rightarrow> request option" where
  "request_of pkt =
     (case pkt of
        Some (RRQ f m os) \<Rightarrow> Some \<lparr>rq_kind = ReadRequest, rq_filename = f, rq_mode = m, rq_options = os\<rparr>
      | Some (WRQ f m os) \<Rightarrow> Some \<lparr>rq_kind = WriteRequest, rq_filename = f, rq_mode = m, rq_options = os\<rparr>
      | _ \<Rightarrow> None)"

definition handleNewRequest :: "peer \<Rightarrow> buffer \<Rightarrow> engine \<Rightarrow> engine" where
  "handleNewRequest p msg e =
     (if \<not> acceptingRequests e \<or> peerKey p \<in> set (pendingAdmissionKeys e) then e
      else case parsePacket msg of
        Inl (ProtocolError m) \<Rightarrow> sendRaw p [encodeERROR IllegalOperation (Some m)] e
      | Inr pkt \<Rightarrow>
          (case request_of pkt of
             None \<Rightarrow> e
           | Some rq \<Rightarrow>
               if opt_maxTransfers (eopts e) \<le> length (transfers e) + length (pendingAdmissionKeys e)
               then sendRaw p [encodeERROR IllegalOperation (Some ''Server busy'')] e
               else admitNewRequest p rq (lifecycleGeneration e)
                      (e\<lparr>pendingAdmissionKeys := List.insert (peerKey p) (pendingAdmissionKeys e)\<rparr>)))"

definition handleMessage :: "peer \<Rightarrow> buffer \<Rightarrow> engine \<Rightarrow> engine" where
  "handleMessage p msg e =
     (case getOpcode msg of
        None \<Rightarrow> e
      | Some opc \<Rightarrow>
          (case map_of (transfers e) (peerKey p) of
             Some sid \<Rightarrow> e\<lparr>packetQueue := packetQueue e @ [(p, sid, msg)]\<rparr>
           | None \<Rightarrow>
               if opc \<noteq> op_RRQ \<and> opc \<noteq> op_WRQ
               then sendRaw p [encodeERROR UnknownTransferID (Some ''No active transfer'')] e
               else handleNewRequest p msg e))"

section \<open>Timer and operator\<close>

definition timeoutMessage :: "engine \<Rightarrow> string" where
  "timeoutMessage e = ''Transfer timed out after '' @ show_nat (opt_timeoutMs (eopts e))
     @ '' ms with no response from the client''"

definition gcTimeout :: "int \<Rightarrow> nat \<Rightarrow> engine \<Rightarrow> engine" where
  "gcTimeout now sid e =
     (if isTimedOut now (sess e sid) then cleanupErroneous (timeoutMessage e) Detached now sid e else e)"

definition gcOne :: "int \<Rightarrow> nat \<Rightarrow> engine \<Rightarrow> engine" where
  "gcOne now sid e =
     (let t = sess e sid in
      if phase t = Done then cleanupDone Detached now sid e
      else if phase t \<noteq> Failed \<and> timeForRetransmission now t then
        (let (s, packets) = consumeRetransmission now t;
             e1 = upd_session sid (\<lambda>_. s) e
         in case packets of
              None \<Rightarrow> cleanupErroneous
                        (case errorMessage s of Some m \<Rightarrow> m
                         | None \<Rightarrow> ''Max retries exceeded ('' @ show_nat (retries s) @ '')'')
                        Detached now sid e1
            | Some pkts \<Rightarrow> gcTimeout now sid (sendRaw (speer s) pkts e1))
      else gcTimeout now sid e)"

definition gcTick :: "int \<Rightarrow> engine \<Rightarrow> engine" where
  "gcTick now e = fold (gcOne now) (map snd (transfers e)) e"

definition cancelTransfer :: "int \<Rightarrow> string \<Rightarrow> engine \<Rightarrow> engine \<times> bool" where
  "cancelTransfer now key e =
     (case map_of (transfers e) key of
        None \<Rightarrow> (e, False)
      | Some sid \<Rightarrow>
          if key \<in> set (finalizing e) then (e, False)
          else
            (let reason = ''Transfer cancelled by server'';
                 s = setError NotDefined reason (sess e sid);
                 e1 = sendRaw (speer s) [makeErrorPacket s] (upd_session sid (\<lambda>_. s) e)
             in (cleanupErroneous reason Detached now sid e1, True)))"

section \<open>Starting and stopping\<close>

definition enqueueLifecycle :: "lifecycle_kind \<Rightarrow> engine \<Rightarrow> engine" where
  "enqueueLifecycle kind e =
     (if lifecycleQueue e \<noteq> [] \<and> last (lifecycleQueue e) = kind then e
      else e\<lparr>lifecycleQueue := lifecycleQueue e @ [kind]\<rparr>)"

definition settleLifecycle :: "engine \<Rightarrow> engine" where
  "settleLifecycle e = e\<lparr>lifecycleQueue := tl (lifecycleQueue e), lifecycleStage := NotRunning\<rparr>"

definition startOwned :: "path_error + abs_path \<Rightarrow> engine \<Rightarrow> engine" where
  "startOwned root_result e =
     (if acceptingRequests e \<and> esocket e then settleLifecycle e
      else case root_result of
        Inl err \<Rightarrow> settleLifecycle e
      | Inr rt \<Rightarrow>
          e\<lparr>guard := Some rt, lifecycleGeneration := Suc (lifecycleGeneration e),
            acceptingRequests := False, esocket := True,
            lifecycleStage := Binding (Suc (lifecycleGeneration e))\<rparr>)"

definition startListening :: "nat \<Rightarrow> engine \<Rightarrow> engine" where
  "startListening generation e =
     (if lifecycleGeneration e \<noteq> generation then settleLifecycle e
      else settleLifecycle (emit Listening (e\<lparr>acceptingRequests := True, gcTimer := True\<rparr>)))"

definition startFailed :: "string \<Rightarrow> engine \<Rightarrow> engine" where
  "startFailed message e =
     settleLifecycle ((emit (EngineError message) e)\<lparr>esocket := False, guard := None\<rparr>)"

definition stopOwned :: "engine \<Rightarrow> engine" where
  "stopOwned e =
     (let e1 = e\<lparr>acceptingRequests := False, lifecycleGeneration := Suc (lifecycleGeneration e),
                 gcTimer := False, lifecycleStage := Draining\<rparr>
      in if esocket e1 then emit Closed (e1\<lparr>esocket := False\<rparr>) else e1)"

fun is_admission :: "task \<Rightarrow> bool" where
  "is_admission (AdmitPath p rq g) = True"
| "is_admission (AdmitOpen p rq g sid i) = True"
| "is_admission (AdmitClose p h) = True"
| "is_admission (AdmitProduce p sid) = True"
| "is_admission _ = False"

text \<open>What \<open>stop\<close> waits for: every admission and every packet has settled.\<close>

definition drained :: "engine \<Rightarrow> bool" where
  "drained e \<longleftrightarrow> \<not> list_ex is_admission (tasks e) \<and> packetQueue e = [] \<and> busyPeers e = []"

definition stopFinish :: "engine \<Rightarrow> engine" where
  "stopFinish e =
     settleLifecycle
       (e\<lparr>sessions := fold (\<lambda>(key, sid) ss. ss[sid := closeFile (ss ! sid)]) (transfers e) (sessions e),
          transfers := [], finalizing := [],
          openHandles := filter (\<lambda>h. h \<notin> set (map snd (writeHandles e))) (openHandles e),
          writeHandles := [], pendingAdmissionKeys := [], guard := None\<rparr>)"

section \<open>Runs\<close>

text \<open>\<open>FileHandle.close\<close> waits for the operations that are pending on the handle.\<close>

fun writesTo :: "nat \<Rightarrow> task \<Rightarrow> bool" where
  "writesTo h (PacketWrite p sid h' data r) \<longleftrightarrow> h' = h"
| "writesTo h _ \<longleftrightarrow> False"

inductive engine_step :: "engine \<Rightarrow> engine \<Rightarrow> bool" where
  receive: "esocket e \<Longrightarrow> engine_step e (handleMessage p msg e)"
| packet: "(p, sid, msg) \<in> set (packetQueue e) \<Longrightarrow>
    find (\<lambda>(q, _). peerKey q = peerKey p) (packetQueue e) = Some (p, sid, msg) \<Longrightarrow>
    peerKey p \<notin> set (busyPeers e) \<Longrightarrow> engine_step e (runPacket now p sid msg e)"
| packet_produce: "PacketProduce p sid d \<in> set (tasks e) \<Longrightarrow>
    engine_step e (resumePacketProduce now io p sid d (remove_task (PacketProduce p sid d) e))"
| packet_open: "PacketOpen p sid data r \<in> set (tasks e) \<Longrightarrow>
    engine_step e (resumePacketOpen now result p sid data r (remove_task (PacketOpen p sid data r) e))"
| packet_write: "PacketWrite p sid h data r \<in> set (tasks e) \<Longrightarrow>
    engine_step e (resumePacketWrite now result p sid h data r (remove_task (PacketWrite p sid h data r) e))"
| close_file: "CloseFile key sid out info a \<in> set (tasks e) \<Longrightarrow>
    engine_step e (resumeCloseFile key sid out info a (remove_task (CloseFile key sid out info a) e))"
| close_handle: "CloseHandle key h out info a \<in> set (tasks e) \<Longrightarrow> \<not> list_ex (writesTo h) (tasks e) \<Longrightarrow>
    engine_step e (resumeCloseHandle key h out info a (remove_task (CloseHandle key h out info a) e))"
| admit_path: "AdmitPath p rq g \<in> set (tasks e) \<Longrightarrow>
    engine_step e (resumeAdmitPath now path_result p rq g (remove_task (AdmitPath p rq g) e))"
| admit_open: "AdmitOpen p rq g sid initial \<in> set (tasks e) \<Longrightarrow>
    engine_step e (resumeAdmitOpen now result p g sid initial (remove_task (AdmitOpen p rq g sid initial) e))"
| admit_close: "AdmitClose p h \<in> set (tasks e) \<Longrightarrow>
    engine_step e (resumeAdmitClose p h (remove_task (AdmitClose p h) e))"
| admit_produce: "AdmitProduce p sid \<in> set (tasks e) \<Longrightarrow>
    engine_step e (resumeAdmitProduce now io p sid (remove_task (AdmitProduce p sid) e))"
| gc: "gcTimer e \<Longrightarrow> engine_step e (gcTick now e)"
| cancel: "cancelTransfer now key e = (e', answer) \<Longrightarrow> engine_step e e'"
| enqueue: "engine_step e (enqueueLifecycle kind e)"
| start: "lifecycleStage e = NotRunning \<Longrightarrow> lifecycleQueue e = Start # ks \<Longrightarrow>
    engine_step e (startOwned root_result e)"
| listening: "lifecycleStage e = Binding g \<Longrightarrow> engine_step e (startListening g e)"
| bind_failed: "lifecycleStage e = Binding g \<Longrightarrow> engine_step e (startFailed message e)"
| stop: "lifecycleStage e = NotRunning \<Longrightarrow> lifecycleQueue e = Stop # ks \<Longrightarrow>
    engine_step e (stopOwned e)"
| stopped: "lifecycleStage e = Draining \<Longrightarrow> drained e \<Longrightarrow> engine_step e (stopFinish e)"

end
