(* ===== verification/Tftp_Engine_Runs.thy ===== *)
theory Tftp_Engine_Runs
  imports Tftp_Engine
begin

text \<open>
  Properties of every interleaving of the handlers of \<open>TftpEngine.ts\<close>: the limit on transfers,
  one packet of a peer at a time, what stopping leaves, and the interleavings in which the
  events announced for a transfer contradict each other.
\<close>

section \<open>What the handlers do to the admission state\<close>

lemma transferId_peer: "transferId s = peerKey (speer s)"
  by (simp add: transferId_def peerKey_def)

lemma speer_simps [simp]:
  "speer (closeFile s) = speer s" "speer (recordOutbound now pkts s) = speer s"
  "speer (setError c m s) = speer s" "speer (updateMetrics d now s) = speer s"
  "speer (touch now s) = speer s" "speer (clearOutboundUpToAck n s) = speer s"
  by (simp_all add: closeFile_def recordOutbound_def setError_def updateMetrics_def touch_def
      clearOutboundUpToAck_def Let_def)

lemma speer_getMetrics: "getMetrics now s = (s', m) \<Longrightarrow> speer s' = speer s"
  by (auto simp: getMetrics_def Let_def)

lemma speer_handleACK:
  assumes "handleACK now n s = (s', r)"
  shows "speer s' = speer s"
proof (cases "phase s = SendOACK")
  case True
  with assms show ?thesis by (simp add: handleACK_def Let_def split: if_splits) auto
next
  case False
  with assms show ?thesis by (simp add: handleACK_def Let_def split: if_splits) auto
qed

lemma speer_receiveBlock:
  assumes "receiveBlock now n d s = (s', r)"
  shows "speer s' = speer s"
  using assms by (simp add: receiveBlock_def Let_def split: if_splits) auto

lemma speer_handleDATA:
  assumes "handleDATA now n d s = (s', r)"
  shows "speer s' = speer s"
proof -
  consider "s' = s" | "receiveBlock now n d (clearOutboundUpToAck 0 (s\<lparr>phase := Receiving\<rparr>)) = (s', r)"
    | "receiveBlock now n d (s\<lparr>phase := Receiving\<rparr>) = (s', r)" | "receiveBlock now n d s = (s', r)"
    using assms unfolding handleDATA_def by (metis prod.inject)
  then show ?thesis by cases (auto dest: speer_receiveBlock)
qed

lemma speer_nextChunk: "nextChunk io s = Inr (s', c) \<Longrightarrow> speer s' = speer s"
  by (auto simp: nextChunk_def Let_def split: if_splits sum.splits)

lemma speer_produceLoop: "produceLoop fuel io eof s out = Some (s', r) \<Longrightarrow> speer s' = speer s"
proof (induction fuel arbitrary: s out)
  case 0
  then show ?case by (simp add: produceLoop.simps [of 0] split: if_splits)
next
  case (Suc fuel)
  have sent: "speer (sentChunk eof c t) = speer t" for c t by (simp add: sentChunk_def Let_def)
  show ?case
  proof (cases rule: produceLoop_cases [of fuel io eof s])
    case stop
    with Suc.prems show ?thesis by simp
  next
    case (exc t err)
    with Suc.prems show ?thesis by auto
  next
    case (iterate s1 chunk)
    with Suc.prems Suc.IH [of "sentChunk eof chunk s1"] speer_nextChunk [OF iterate(2)] sent
    show ?thesis by simp
  qed
qed

lemma speer_produce:
  assumes "produceNextSendPackets now io eof s = Some (s', r)"
  shows "speer s' = speer s"
proof -
  from assms obtain t q where t: "produceLoop (windowsize (opts s)) io eof s [] = Some (t, q)"
    by (auto simp: produceNextSendPackets_def split: option.splits)
  from speer_produceLoop [OF t] t assms show ?thesis
    by (cases q) (auto simp: produceNextSendPackets_def Let_def split: if_splits)
qed

lemma speer_consume: "consumeRetransmission now s = (s', r) \<Longrightarrow> speer s' = speer s"
  by (simp add: consumeRetransmission_def Let_def split: if_splits) auto


lemmas speer_ops = speer_getMetrics speer_handleACK speer_handleDATA speer_produce speer_consume

text \<open>The part of the engine that admissions live on.\<close>

definition admView ::
  "engine \<Rightarrow> engine_options \<times> (string \<times> nat) list \<times> string list \<times> task list \<times> peer list" where
  "admView e = (eopts e, transfers e, pendingAdmissionKeys e, filter is_admission (tasks e),
     map speer (sessions e))"

lemma admView_fields:
  assumes "admView e' = admView e"
  shows "eopts e' = eopts e" "transfers e' = transfers e" "pendingAdmissionKeys e' = pendingAdmissionKeys e"
    "filter is_admission (tasks e') = filter is_admission (tasks e)"
    "map speer (sessions e') = map speer (sessions e)" "length (sessions e') = length (sessions e)"
  using assms map_eq_imp_length_eq by (auto simp: admView_def)

lemma admView_upd_session:
  assumes "speer (f (sess e sid)) = speer (sess e sid)"
  shows "admView (upd_session sid f e) = admView e"
proof -
  have "map speer ((sessions e)[sid := f (sess e sid)]) = map speer (sessions e)"
    using assms by (simp add: map_update sess_def list_update_id)
      (metis list_update_beyond list_update_id map_update not_less nth_map)
  then show ?thesis by (simp add: admView_def upd_session_def)
qed

lemma admView_basic [simp]:
  "admView (emit ev e) = admView e" "admView (sendRaw p pkts e) = admView e"
  "\<not> is_admission t \<Longrightarrow> admView (add_task t e) = admView e"
  "\<not> is_admission t \<Longrightarrow> admView (remove_task t e) = admView e"
  "admView (packetFinished p e) = admView e"
  "admView (e\<lparr>finalizing := fs\<rparr>) = admView e" "admView (e\<lparr>writeHandles := ws\<rparr>) = admView e"
  "admView (e\<lparr>written := wr\<rparr>) = admView e" "admView (closeHandle h e) = admView e"
  "admView (e\<lparr>packetQueue := q\<rparr>) = admView e" "admView (e\<lparr>busyPeers := b\<rparr>) = admView e"
  by (simp_all add: admView_def emit_def sendRaw_def add_task_def remove_task_def packetFinished_def
      closeHandle_def filter_remove1)

lemma admView_sessions [simp]:
  "admView (upd_session sid closeFile e) = admView e"
  "admView (upd_session sid (recordOutbound now pkts) e) = admView e"
  by (simp_all add: admView_upd_session)

lemma admView_set_session [simp]:
  "speer s = speer (sess e sid) \<Longrightarrow> admView (upd_session sid (\<lambda>_. s) e) = admView e"
  by (simp add: admView_upd_session)

lemma admView_infoOf [simp]: "infoOf now sid e = (e', info) \<Longrightarrow> admView e' = admView e"
  by (auto simp: infoOf_def speer_getMetrics split: prod.splits)

lemma admView_sendForTransfer [simp]: "admView (sendForTransfer now sid pkts e) = admView e"
  by (simp add: sendForTransfer_def)

lemma admView_awaiterDone [simp]: "admView (awaiterDone a e) = admView e"
  by (simp add: awaiterDone_def split: awaiter.splits)

lemma admView_finalized [simp]: "admView (finalized key out info a e) = admView e"
  by (simp add: finalized_def)

lemma admView_finalize [simp]: "admView (finalize out a now sid e) = admView e"
proof (cases "transferId (sess e sid) \<in> set (finalizing e)")
  case False
  obtain e1 info where "infoOf now sid (e\<lparr>finalizing := List.insert (transferId (sess e sid)) (finalizing e)\<rparr>) = (e1, info)"
    by fastforce
  with False admView_infoOf [OF this] show ?thesis
    by (simp add: finalize_def Let_def split: option.splits)
qed (simp add: finalize_def)

lemma admView_messageRejected [simp]: "admView (messageRejected now p m e) = admView e"
  by (simp add: messageRejected_def split: option.splits)

lemma admView_writeFailedCleanup [simp]: "admView (writeFailedCleanup now p sid err e) = admView e"
  by (simp add: writeFailedCleanup_def split: prod.splits)

lemma admView_afterAck [simp]: "admView (afterAck now p sid d e) = admView e"
  by (simp add: afterAck_def)

lemma admView_afterData [simp]: "admView (afterData now p sid r e) = admView e"
  by (simp add: afterData_def Let_def)

lemma admView_appendWrite [simp]: "admView (appendWrite p sid d r e) = admView e"
  by (simp add: appendWrite_def split: option.splits)

lemma admView_routeExisting [simp]: "admView (routeExisting now p sid msg e) = admView e"
  by (auto simp: routeExisting_def Let_def speer_handleACK speer_handleDATA
      split: sum.splits protocol_error.splits option.splits tftp_packet.splits prod.splits)

lemma admView_progress [simp]:
  "admView (case infoOf now sid e of (e', info) \<Rightarrow> emit (ev info) e') = admView e"
  by (simp split: prod.splits)

lemma admView_resumePacketProduce [simp]: "admView (resumePacketProduce now io p sid d e) = admView e"
  by (auto simp: resumePacketProduce_def Let_def speer_produce split: option.splits prod.splits sum.splits)

lemma admView_openNew [simp]: "openNew e = (e', h) \<Longrightarrow> admView e' = admView e"
  by (auto simp: openNew_def admView_def)

lemma admView_resumePacketOpen [simp]: "admView (resumePacketOpen now res p sid d r e) = admView e"
  by (auto simp: resumePacketOpen_def split: option.splits prod.splits)

lemma admView_resumePacketWrite [simp]: "admView (resumePacketWrite now res p sid h d r e) = admView e"
  by (simp add: resumePacketWrite_def split: option.splits prod.splits)

lemma admView_runPacket [simp]: "admView (runPacket now p sid msg e) = admView e"
  by (simp add: runPacket_def Let_def)

lemma admView_gcTimeout [simp]: "admView (gcTimeout now sid e) = admView e"
  by (simp add: gcTimeout_def)

lemma admView_gcOne [simp]: "admView (gcOne now sid e) = admView e"
  by (auto simp: gcOne_def Let_def speer_consume split: prod.splits option.splits)

lemma admView_gcTick [simp]: "admView (gcTick now e) = admView e"
proof -
  have "admView (fold (gcOne now) sids e) = admView e" for sids by (induction sids arbitrary: e) simp_all
  then show ?thesis by (simp add: gcTick_def)
qed

lemma admView_cancel: "cancelTransfer now key e = (e', b) \<Longrightarrow> admView e' = admView e"
  by (auto simp: cancelTransfer_def Let_def split: option.splits if_splits)

lemma admView_lifecycle [simp]:
  "admView (enqueueLifecycle k e) = admView e" "admView (startOwned res e) = admView e"
  "admView (startListening g e) = admView e" "admView (startFailed m e) = admView e"
  "admView (stopOwned e) = admView e"
  by (simp_all add: admView_def enqueueLifecycle_def startOwned_def startListening_def startFailed_def
      stopOwned_def settleLifecycle_def emit_def Let_def split: sum.splits)

section \<open>The limit on transfers\<close>

fun admKey :: "task \<Rightarrow> string" where
  "admKey (AdmitPath p rq g) = peerKey p"
| "admKey (AdmitOpen p rq g sid i) = peerKey p"
| "admKey (AdmitClose p h) = peerKey p"
| "admKey (AdmitProduce p sid) = peerKey p"
| "admKey _ = []"

text \<open>An admission that has not registered its session yet.\<close>

fun unregistered :: "task \<Rightarrow> bool" where
  "unregistered (AdmitPath p rq g) = True"
| "unregistered (AdmitOpen p rq g sid i) = True"
| "unregistered _ = False"

text \<open>The session an upload will register belongs to the peer that asked for it.\<close>

fun admits_session :: "peer list \<Rightarrow> task \<Rightarrow> bool" where
  "admits_session ps (AdmitOpen p rq g sid i) = (sid < length ps \<and> ps ! sid = p)"
| "admits_session ps _ = True"

definition transferKeys :: "engine \<Rightarrow> string set" where
  "transferKeys e = fst ` set (transfers e)"

text \<open>
  The invariant with \<open>ks\<close> the admissions that are being run at the moment: none between two
  steps, the one that was resumed within a step.
\<close>

definition adm_tasks :: "string list \<Rightarrow> string set \<Rightarrow> string set \<Rightarrow> peer list \<Rightarrow> task list \<Rightarrow> bool" where
  "adm_tasks ks P K ps ts \<longleftrightarrow>
     distinct (ks @ map admKey ts) \<and> set ks \<union> admKey ` set ts \<subseteq> P
     \<and> (\<forall>t \<in> set ts. (unregistered t \<longrightarrow> admKey t \<notin> K) \<and> admits_session ps t)"

definition adm_run :: "string list \<Rightarrow> engine \<Rightarrow> bool" where
  "adm_run ks e \<longleftrightarrow>
     distinct (map fst (transfers e))
     \<and> card (transferKeys e \<union> set (pendingAdmissionKeys e)) \<le> opt_maxTransfers (eopts e)
     \<and> adm_tasks ks (set (pendingAdmissionKeys e)) (transferKeys e) (map speer (sessions e))
         (filter is_admission (tasks e))"

definition adm_inv :: "engine \<Rightarrow> bool" where
  "adm_inv e \<longleftrightarrow> adm_run [] e"

lemma adm_run_cong: "admView e' = admView e \<Longrightarrow> adm_run ks e' = adm_run ks e"
  by (simp add: adm_run_def admView_fields [of e' e] transferKeys_def)

lemma adm_inv_cong: "admView e' = admView e \<Longrightarrow> adm_inv e' = adm_inv e"
  unfolding adm_inv_def by (rule adm_run_cong)

lemma card_keys_mono:
  "A \<subseteq> transferKeys e \<Longrightarrow> B \<subseteq> set ps \<Longrightarrow> card (A \<union> B) \<le> card (transferKeys e \<union> set ps)"
  by (rule card_mono) (auto simp: transferKeys_def)

lemma transferKeys_delete: "transferKeys (deleteTransfer key e) \<subseteq> transferKeys e"
  by (auto simp: transferKeys_def deleteTransfer_def AList.delete_eq)

lemma adm_tasks_fewer_keys: "adm_tasks ks P K ps ts \<Longrightarrow> K' \<subseteq> K \<Longrightarrow> adm_tasks ks P K' ps ts"
  by (auto simp: adm_tasks_def)

lemma adm_tasks_take:
  assumes "adm_tasks [] P K ps ts" "t \<in> set ts"
  shows "adm_tasks [admKey t] P K ps (remove1 t ts)"
proof -
  have d: "distinct (map admKey ts)" using assms(1) by (simp add: adm_tasks_def)
  obtain xs ys where ts: "ts = xs @ t # ys" "t \<notin> set xs" using split_list_first [OF assms(2)] by blast
  then have r: "remove1 t ts = xs @ ys" by (simp add: remove1_append)
  show ?thesis using assms(1) d unfolding r unfolding ts adm_tasks_def by auto
qed

lemma adm_tasks_finish: "adm_tasks [k] P K ps ts \<Longrightarrow> adm_tasks [] (P - {k}) K ps ts"
  unfolding adm_tasks_def by auto

lemma adm_tasks_add:
  "adm_tasks [admKey t] P K ps ts \<Longrightarrow> (unregistered t \<longrightarrow> admKey t \<notin> K) \<Longrightarrow> admits_session ps t \<Longrightarrow>
    adm_tasks [] P K ps (ts @ [t])"
  unfolding adm_tasks_def by auto

lemma adm_tasks_register: "adm_tasks [k] P K ps ts \<Longrightarrow> adm_tasks [k] P (insert k K) ps ts"
  unfolding adm_tasks_def by auto

lemma adm_tasks_session: "adm_tasks ks P K ps ts \<Longrightarrow> adm_tasks ks P K (ps @ [p]) ts"
proof -
  have "admits_session ps t \<Longrightarrow> admits_session (ps @ [p]) t" for t
    by (cases t) (auto simp: nth_append)
  then show "adm_tasks ks P K ps ts \<Longrightarrow> adm_tasks ks P K (ps @ [p]) ts" unfolding adm_tasks_def by blast
qed

lemma adm_run_delete: "adm_run ks e \<Longrightarrow> adm_run ks (deleteTransfer key e)"
  using transferKeys_delete [of key e] card_keys_mono [OF transferKeys_delete [of key e], of "set (pendingAdmissionKeys e)" "pendingAdmissionKeys e"]
    adm_tasks_fewer_keys [OF _ transferKeys_delete [of key e]]
  by (auto simp: adm_run_def deleteTransfer_def distinct_delete)

lemma adm_inv_take:
  assumes "adm_inv e" "t \<in> set (tasks e)" "is_admission t"
  shows "adm_run [admKey t] (remove_task t e)"
  using assms adm_tasks_take [of _ _ _ "filter is_admission (tasks e)" t]
  by (simp add: adm_inv_def adm_run_def remove_task_def filter_remove1 transferKeys_def)

lemma adm_run_finish: "adm_run [peerKey p] e \<Longrightarrow> adm_inv (admissionFinished p e)"
  using card_keys_mono [of "transferKeys e" e "set (pendingAdmissionKeys e) - {peerKey p}" "pendingAdmissionKeys e"]
    adm_tasks_finish [of "peerKey p" "set (pendingAdmissionKeys e)"]
  by (auto simp: adm_inv_def adm_run_def admissionFinished_def transferKeys_def)

lemma adm_run_add:
  assumes "adm_run [admKey t] e" "is_admission t" "unregistered t \<longrightarrow> admKey t \<notin> transferKeys e"
    "admits_session (map speer (sessions e)) t"
  shows "adm_inv (add_task t e)"
  using assms adm_tasks_add [of t] by (simp add: adm_inv_def adm_run_def add_task_def transferKeys_def)

lemma adm_run_pending: "adm_run [k] e \<Longrightarrow> k \<in> set (pendingAdmissionKeys e)"
  by (simp add: adm_run_def adm_tasks_def)

lemma adm_run_set_transfer:
  assumes "adm_run [k] e"
  shows "adm_run [k] (e\<lparr>transfers := AList.update k sid (transfers e)\<rparr>)"
proof -
  let ?e = "e\<lparr>transfers := AList.update k sid (transfers e)\<rparr>"
  have K: "transferKeys ?e = insert k (transferKeys e)"
    by (simp add: transferKeys_def image_Un dom_map_of_conv_image_fst [symmetric] update_conv')
  have "insert k (transferKeys e) \<union> set (pendingAdmissionKeys e)
      = transferKeys e \<union> set (pendingAdmissionKeys e)"
    using adm_run_pending [OF assms] by auto
  with assms adm_tasks_register [of k "set (pendingAdmissionKeys e)" "transferKeys e"] show ?thesis
    by (simp add: adm_run_def K distinct_update)
qed

lemma adm_inv_registerTransfer:
  assumes run: "adm_run [peerKey p] e" and p: "speer (sess e sid) = p"
  shows "adm_inv (registerTransfer now p g sid initial e)"
proof (cases "ownsAdmission g e")
  case False
  have close: "adm_run [admKey (AdmitClose p h)] (e\<lparr>writeHandles := ws\<rparr>)" for h ws
    using run adm_run_cong [of "e\<lparr>writeHandles := ws\<rparr>" e] by simp
  from False show ?thesis
    using adm_run_finish [OF run] adm_run_add [OF close]
    by (simp add: registerTransfer_def Let_def split: option.splits)
next
  case True
  let ?e1 = "e\<lparr>transfers := AList.update (peerKey p) sid (transfers e)\<rparr>"
  obtain e2 info where i: "infoOf now sid ?e1 = (e2, info)" by fastforce
  let ?e3 = "sendForTransfer now sid initial (emit (TransferStart info) e2)"
  have "adm_run [peerKey p] ?e3"
    using adm_run_set_transfer [OF run, of sid] adm_run_cong [of ?e3 ?e1] admView_infoOf [OF i] by simp
  with True i p show ?thesis
    using adm_run_finish [of p ?e3] adm_run_add [of "AdmitProduce p sid" ?e3]
    by (simp add: registerTransfer_def Let_def transferId_peer)
qed

lemma speer_init:
  "initForRRQ o1 n s = (s1, i1) \<Longrightarrow> speer s1 = speer s"
  "initForWRQ o1 s = (s1, i1) \<Longrightarrow> speer s1 = speer s"
  by (auto simp: initForRRQ_def initForWRQ_def Let_def split: if_splits)

lemma speer_new_session: "speer (new_session now ini) = init_peer ini"
  by (simp add: new_session_def Let_def setError_def split: sum.splits protocol_error.splits option.splits)

lemma adm_run_append_session:
  "adm_run ks e \<Longrightarrow> adm_run ks (e\<lparr>sessions := sessions e @ [s]\<rparr>)"
  using adm_tasks_session by (simp add: adm_run_def transferKeys_def)

lemma adm_inv_resumeAdmitPath:
  assumes run: "adm_run [peerKey p] e" and free: "peerKey p \<notin> transferKeys e"
  shows "adm_inv (resumeAdmitPath now result p rq g e)"
proof -
  have fin: "adm_inv (admissionFinished p e')" if "admView e' = admView e" for e'
    using run adm_run_cong [OF that] adm_run_finish by blast
  show ?thesis
  proof (cases result)
    case (Inl err)
    then show ?thesis using fin by (simp add: resumeAdmitPath_def sendErrorFromGeneric_def)
  next
    case (Inr r)
    obtain absPath fsize where r: "r = (absPath, fsize)" by fastforce
    let ?ini = "admissionInit p rq absPath"
    obtain s1 initial where s1: "(if rq_kind rq = ReadRequest then initForRRQ (rq_options rq \<noteq> []) fsize (new_session now ?ini)
      else initForWRQ (rq_options rq \<noteq> []) (new_session now ?ini)) = (s1, initial)" by fastforce
    then have sp: "speer s1 = p"
      by (auto simp: speer_new_session admissionInit_def dest: speer_init split: if_splits)
    let ?e1 = "e\<lparr>sessions := sessions e @ [s1]\<rparr>" and ?sid = "length (sessions e)"
    have run1: "adm_run [peerKey p] ?e1" using run by (rule adm_run_append_session)
    have at: "sess ?e1 ?sid = s1" by (simp add: sess_def)
    consider "\<not> ownsAdmission g e" | "ownsAdmission g e" "phase (new_session now ?ini) = Failed"
      | "ownsAdmission g e" "phase (new_session now ?ini) \<noteq> Failed" "rq_kind rq = ReadRequest"
      | "ownsAdmission g e" "phase (new_session now ?ini) \<noteq> Failed" "rq_kind rq \<noteq> ReadRequest" by blast
    then show ?thesis
    proof cases
      case 1
      with Inr r fin show ?thesis by (simp add: resumeAdmitPath_def)
    next
      case 2
      with Inr r fin show ?thesis by (simp add: resumeAdmitPath_def)
    next
      case 3
      then have "resumeAdmitPath now result p rq g e = registerTransfer now p g ?sid initial ?e1"
        using Inr r s1 by (simp add: resumeAdmitPath_def Let_def)
      with adm_inv_registerTransfer [OF run1] at sp show ?thesis by simp
    next
      case 4
      then have "resumeAdmitPath now result p rq g e = add_task (AdmitOpen p rq g ?sid initial) ?e1"
        using Inr r s1 by (simp add: resumeAdmitPath_def Let_def)
      with adm_run_add [of "AdmitOpen p rq g ?sid initial" ?e1] run1 free sp show ?thesis
        by (simp add: transferKeys_def nth_append)
    qed
  qed
qed

lemma adm_inv_resumeAdmitOpen:
  assumes run: "adm_run [peerKey p] e" and p: "speer (sess e sid) = p"
  shows "adm_inv (resumeAdmitOpen now result p g sid initial e)"
proof -
  obtain e1 h where o: "openNew e = (e1, h)" by fastforce
  have s: "sess e1 sid = sess e sid" using o by (auto simp: openNew_def sess_def)
  have run': "adm_run [peerKey p] e'" if "admView e' = admView e" for e'
    using run adm_run_cong [OF that] by blast
  have close: "adm_inv (add_task (AdmitClose p h) e1)"
    using adm_run_add [of "AdmitClose p h" e1] run' admView_openNew [OF o] by simp
  have reg: "adm_inv (registerTransfer now p g sid initial (e1\<lparr>writeHandles := ws\<rparr>))" for ws
    using run' admView_openNew [OF o] p s by (intro adm_inv_registerTransfer) (simp_all add: sess_def)
  show ?thesis
    using o close reg adm_run_finish [OF run] adm_run_finish [OF run' [of "sendRaw p pk e" for pk]]
    by (simp add: resumeAdmitOpen_def split: option.splits)
qed

lemma adm_inv_resumeAdmitProduce:
  assumes "adm_run [peerKey p] e"
  shows "adm_inv (resumeAdmitProduce now io p sid e)"
proof -
  have fin: "adm_inv (admissionFinished p e')" if "admView e' = admView e" for e'
    using assms adm_run_cong [OF that] adm_run_finish by blast
  have rej: "adm_inv (messageRejected now p m (admissionFinished p e'))" if "admView e' = admView e" for e' m
    using fin [OF that] adm_inv_cong [OF admView_messageRejected] by blast
  have "adm_inv e" using assms by (auto simp: adm_inv_def adm_run_def adm_tasks_def)
  then show ?thesis
    by (auto simp: resumeAdmitProduce_def Let_def speer_produce intro!: fin rej
        split: option.splits prod.splits sum.splits)
qed

lemma adm_inv_handleNewRequest:
  assumes inv: "adm_inv e" and free: "peerKey p \<notin> transferKeys e"
  shows "adm_inv (handleNewRequest p msg e)"
proof (cases "acceptingRequests e \<and> peerKey p \<notin> set (pendingAdmissionKeys e)
    \<and> \<not> opt_maxTransfers (eopts e) \<le> length (transfers e) + length (pendingAdmissionKeys e)")
  case False
  then show ?thesis using inv
    by (auto simp: handleNewRequest_def adm_inv_cong [OF admView_basic(2)]
        split: sum.splits protocol_error.splits option.splits)
next
  case True
  let ?k = "peerKey p"
  let ?e = "e\<lparr>pendingAdmissionKeys := List.insert ?k (pendingAdmissionKeys e)\<rparr>"
  have c: "card (transferKeys e \<union> set (pendingAdmissionKeys e)) \<le> length (transfers e) + length (pendingAdmissionKeys e)"
    using card_Un_le [of "transferKeys e" "set (pendingAdmissionKeys e)"] card_length [of "pendingAdmissionKeys e"]
      card_image_le [of "set (transfers e)" fst] card_length [of "transfers e"]
    unfolding transferKeys_def by fastforce
  have "card (transferKeys e \<union> insert ?k (set (pendingAdmissionKeys e)))
      \<le> Suc (card (transferKeys e \<union> set (pendingAdmissionKeys e)))"
    by (metis Un_insert_right card_insert_le_m1 card_insert_if finite_Un finite_imageI finite_set le_SucI order_refl transferKeys_def)
  with True c have cap: "card (transferKeys e \<union> insert ?k (set (pendingAdmissionKeys e))) \<le> opt_maxTransfers (eopts e)"
    by simp
  have run: "adm_run [?k] ?e"
    using inv True cap by (auto simp: adm_inv_def adm_run_def adm_tasks_def transferKeys_def)
  have fin: "adm_inv (admissionFinished p (sendRaw p pkts ?e))" for pkts
    using run adm_run_cong [OF admView_basic(2)] adm_run_finish by blast
  have add: "adm_inv (add_task (AdmitPath p rq g) ?e)" for rq g
    using adm_run_add [of "AdmitPath p rq g" ?e] run free by (simp add: transferKeys_def)
  have "adm_inv (sendRaw p pkts e)" for pkts using inv adm_inv_cong [OF admView_basic(2)] by blast
  with True fin add inv show ?thesis
    by (auto simp: handleNewRequest_def admitNewRequest_def
        split: sum.splits protocol_error.splits option.splits)
qed

lemma adm_inv_handleMessage:
  assumes "adm_inv e"
  shows "adm_inv (handleMessage p msg e)"
proof -
  have 1: "adm_inv (sendRaw p pkts e)" for pkts using assms adm_inv_cong [OF admView_basic(2)] by blast
  have 2: "adm_inv (e\<lparr>packetQueue := q\<rparr>)" for q using assms adm_inv_cong [OF admView_basic(10)] by blast
  show ?thesis
  proof (cases "map_of (transfers e) (peerKey p)")
    case None
    then have "peerKey p \<notin> transferKeys e" by (simp add: map_of_eq_None_iff transferKeys_def)
    with assms 1 None adm_inv_handleNewRequest [OF assms, of p msg] show ?thesis
      by (simp add: handleMessage_def split: option.splits)
  next
    case (Some sid)
    with assms 2 show ?thesis by (simp add: handleMessage_def split: option.splits)
  qed
qed

lemma adm_inv_close:
  assumes "adm_inv e" "\<not> is_admission t"
  shows "adm_inv (resumeCloseFile key sid out info a (remove_task t e))"
    "adm_inv (resumeCloseHandle key h out info a (remove_task t e))"
proof -
  have del: "adm_inv (deleteTransfer k e')" if "admView e' = admView e" for k e'
    using assms(1) adm_run_delete adm_inv_cong [OF that] by (auto simp: adm_inv_def)
  have v: "admView (upd_session sid closeFile (remove_task t e)) = admView e" using assms(2) by simp
  have w: "adm_inv (add_task (CloseHandle key h out info a)
      ((upd_session sid closeFile (remove_task t e))\<lparr>writeHandles := ws\<rparr>))" (is "adm_inv ?e") for ws h
  proof -
    have "admView ?e = admView e" using v by simp
    from adm_inv_cong [OF this] assms(1) show ?thesis by blast
  qed
  show "adm_inv (resumeCloseFile key sid out info a (remove_task t e))"
    using w adm_inv_cong [OF admView_finalized] del [OF v]
    by (simp add: resumeCloseFile_def Let_def split: option.splits)
  show "adm_inv (resumeCloseHandle key h out info a (remove_task t e))"
    using adm_inv_cong [OF admView_finalized] del assms(2) by (simp add: resumeCloseHandle_def)
qed

lemma adm_inv_stopFinish:
  assumes "drained e" "distinct (map fst (transfers e))"
  shows "adm_inv (stopFinish e)"
proof -
  have "filter is_admission (tasks e) = []"
    using assms(1) by (auto simp: drained_def list_ex_iff filter_empty_conv)
  then show ?thesis
    by (simp add: adm_inv_def adm_run_def adm_tasks_def stopFinish_def settleLifecycle_def transferKeys_def)
qed

lemma adm_inv_step:
  assumes "engine_step e e'" "adm_inv e"
  shows "adm_inv e'"
  using assms
proof (induction rule: engine_step.induct)
  case (admit_path p rq g e now path_result)
  from admit_path have "peerKey p \<notin> transferKeys (remove_task (AdmitPath p rq g) e)"
    by (force simp: adm_inv_def adm_run_def adm_tasks_def remove_task_def transferKeys_def)
  with adm_inv_take [OF admit_path(2,1)] show ?case by (simp add: adm_inv_resumeAdmitPath)
next
  case (admit_open p rq g sid initial e now result)
  from admit_open have "speer (sess (remove_task (AdmitOpen p rq g sid initial) e) sid) = p"
    by (force simp: adm_inv_def adm_run_def adm_tasks_def remove_task_def sess_def)
  with adm_inv_take [OF admit_open(2,1)] show ?case by (simp add: adm_inv_resumeAdmitOpen)
next
  case (admit_close p h e)
  from adm_inv_take [OF admit_close(2,1)] adm_run_cong [OF admView_basic(9)] show ?case
    by (simp add: resumeAdmitClose_def adm_run_finish)
next
  case (admit_produce p sid e now io)
  from adm_inv_take [OF admit_produce(2,1)] show ?case by (simp add: adm_inv_resumeAdmitProduce)
next
  case (cancel now key e e' answer)
  then show ?case using adm_inv_cong [OF admView_cancel] by blast
next
  case (stopped e)
  then show ?case by (intro adm_inv_stopFinish) (auto simp: adm_inv_def adm_run_def)
next
  case (receive e p msg)
  then show ?case by (intro adm_inv_handleMessage)
next
  case (close_file key sid out info a e)
  then show ?case by (intro adm_inv_close) simp_all
next
  case (close_handle key h out info a e)
  then show ?case by (intro adm_inv_close) simp_all
qed (auto simp: adm_inv_cong [OF admView_runPacket] adm_inv_cong [OF admView_resumePacketProduce]
    adm_inv_cong [OF admView_resumePacketOpen] adm_inv_cong [OF admView_resumePacketWrite]
    adm_inv_cong [OF admView_gcTick] adm_inv_cong [OF admView_lifecycle(1)]
    adm_inv_cong [OF admView_lifecycle(2)] adm_inv_cong [OF admView_lifecycle(3)]
    adm_inv_cong [OF admView_lifecycle(4)] adm_inv_cong [OF admView_lifecycle(5)]
    adm_inv_cong [OF admView_basic(4)])

section \<open>One packet of a peer at a time\<close>

fun awaiterKeys :: "awaiter \<Rightarrow> string list" where
  "awaiterKeys (ByPacket p) = [peerKey p]"
| "awaiterKeys Detached = []"

fun pktKeys :: "task \<Rightarrow> string list" where
  "pktKeys (PacketProduce p sid d) = [peerKey p]"
| "pktKeys (PacketOpen p sid data r) = [peerKey p]"
| "pktKeys (PacketWrite p sid h data r) = [peerKey p]"
| "pktKeys (CloseFile key sid out info a) = awaiterKeys a"
| "pktKeys (CloseHandle key h out info a) = awaiterKeys a"
| "pktKeys _ = []"

text \<open>The peers for which a packet is being handled: \<open>ks\<close> within this step, the others suspended.\<close>

definition pkt_run :: "string list \<Rightarrow> engine \<Rightarrow> bool" where
  "pkt_run ks e \<longleftrightarrow>
     distinct (ks @ concat (map pktKeys (tasks e)))
     \<and> set (ks @ concat (map pktKeys (tasks e))) \<subseteq> set (busyPeers e)"

definition pktView :: "engine \<Rightarrow> string list \<times> task list" where
  "pktView e = (busyPeers e, filter (\<lambda>t. pktKeys t \<noteq> []) (tasks e))"

lemma concat_pktKeys_filter: "concat (map pktKeys (filter (\<lambda>t. pktKeys t \<noteq> []) ts)) = concat (map pktKeys ts)"
  by (induction ts) auto

lemma pkt_run_cong: "pktView e' = pktView e \<Longrightarrow> pkt_run ks e' = pkt_run ks e"
  unfolding pkt_run_def pktView_def by (metis (no_types, lifting) concat_pktKeys_filter prod.inject)

lemma pkt_run_same: "pkt_run ks e \<Longrightarrow> pktView e' = pktView e \<Longrightarrow> pkt_run ks e'"
  using pkt_run_cong by blast

lemma pktView_basic [simp]:
  "pktView (emit ev e) = pktView e" "pktView (sendRaw p pkts e) = pktView e"
  "pktKeys t = [] \<Longrightarrow> pktView (add_task t e) = pktView e"
  "pktKeys t = [] \<Longrightarrow> pktView (remove_task t e) = pktView e"
  "pktView (upd_session sid f e) = pktView e"
  "pktView (admissionFinished p e) = pktView e"
  "pktView (e\<lparr>finalizing := fs\<rparr>) = pktView e" "pktView (e\<lparr>writeHandles := ws\<rparr>) = pktView e"
  "pktView (e\<lparr>written := wr\<rparr>) = pktView e" "pktView (closeHandle h e) = pktView e"
  "pktView (e\<lparr>packetQueue := q\<rparr>) = pktView e" "pktView (e\<lparr>transfers := tr\<rparr>) = pktView e"
  "pktView (e\<lparr>sessions := ss\<rparr>) = pktView e" "pktView (deleteTransfer k e) = pktView e"
  "pktView (e\<lparr>pendingAdmissionKeys := ps\<rparr>) = pktView e"
  by (simp_all add: pktView_def emit_def sendRaw_def add_task_def remove_task_def upd_session_def
      admissionFinished_def closeHandle_def deleteTransfer_def filter_remove1)

lemma pktView_infoOf [simp]: "infoOf now sid e = (e', info) \<Longrightarrow> pktView e' = pktView e"
  by (auto simp: infoOf_def split: prod.splits)

lemma pktView_openNew [simp]: "openNew e = (e', h) \<Longrightarrow> pktView e' = pktView e"
  by (auto simp: openNew_def pktView_def)

lemma pktView_sendForTransfer [simp]: "pktView (sendForTransfer now sid pkts e) = pktView e"
  by (simp add: sendForTransfer_def)

lemma pktView_finalize_detached [simp]: "pktView (finalize out Detached now sid e) = pktView e"
proof (cases "transferId (sess e sid) \<in> set (finalizing e)")
  case False
  obtain e1 info where "infoOf now sid (e\<lparr>finalizing := List.insert (transferId (sess e sid)) (finalizing e)\<rparr>) = (e1, info)"
    by fastforce
  with False pktView_infoOf [OF this] show ?thesis
    by (simp add: finalize_def finalized_def awaiterDone_def Let_def split: option.splits)
qed (simp add: finalize_def awaiterDone_def)

lemma pktView_messageRejected [simp]: "pktView (messageRejected now p m e) = pktView e"
  by (simp add: messageRejected_def split: option.splits)

lemma pktView_registerTransfer [simp]: "pktView (registerTransfer now p g sid i e) = pktView e"
  by (simp add: registerTransfer_def Let_def split: option.splits prod.splits)

lemma pktView_admissions [simp]:
  "pktView (resumeAdmitPath now res p rq g e) = pktView e"
  "pktView (resumeAdmitOpen now ores p g sid i e) = pktView e"
  "pktView (resumeAdmitClose p h e) = pktView e"
  by (auto simp: resumeAdmitPath_def resumeAdmitOpen_def resumeAdmitClose_def sendErrorFromGeneric_def
      Let_def split: sum.splits option.splits prod.splits)

lemma pktView_resumeAdmitProduce [simp]: "pktView (resumeAdmitProduce now io p sid e) = pktView e"
  by (auto simp: resumeAdmitProduce_def Let_def split: option.splits prod.splits sum.splits)

lemma pktView_handleMessage [simp]: "pktView (handleMessage p msg e) = pktView e"
  by (simp add: handleMessage_def handleNewRequest_def admitNewRequest_def
      split: option.splits sum.splits protocol_error.splits)

lemma pktView_gcOne [simp]: "pktView (gcOne now sid e) = pktView e"
  by (simp add: gcOne_def gcTimeout_def Let_def split: prod.splits option.splits)

lemma pktView_gcTick [simp]: "pktView (gcTick now e) = pktView e"
proof -
  have "pktView (fold (gcOne now) sids e) = pktView e" for sids by (induction sids arbitrary: e) simp_all
  then show ?thesis by (simp add: gcTick_def)
qed

lemma pktView_cancel: "cancelTransfer now key e = (e', b) \<Longrightarrow> pktView e' = pktView e"
  by (auto simp: cancelTransfer_def Let_def split: option.splits if_splits)

lemma pktView_lifecycle [simp]:
  "pktView (enqueueLifecycle k e) = pktView e" "pktView (startOwned res e) = pktView e"
  "pktView (startListening g e) = pktView e" "pktView (startFailed m e) = pktView e"
  "pktView (stopOwned e) = pktView e" "pktView (stopFinish e) = pktView e"
  by (simp_all add: pktView_def enqueueLifecycle_def startOwned_def startListening_def startFailed_def
      stopOwned_def stopFinish_def settleLifecycle_def emit_def Let_def split: sum.splits)

lemma pkt_run_take:
  assumes "pkt_run [] e" "t \<in> set (tasks e)"
  shows "pkt_run (pktKeys t) (remove_task t e)"
proof -
  obtain xs ys where ts: "tasks e = xs @ t # ys" "t \<notin> set xs" using split_list_first [OF assms(2)] by blast
  then have "tasks (remove_task t e) = xs @ ys" by (simp add: remove_task_def remove1_append)
  with assms(1) ts show ?thesis by (auto simp: pkt_run_def remove_task_def)
qed

lemma pkt_run_add: "pkt_run ks e \<Longrightarrow> pktKeys t = ks \<Longrightarrow> pkt_run [] (add_task t e)"
  by (auto simp: pkt_run_def add_task_def)

lemma pkt_run_finished: "pkt_run [peerKey p] e \<Longrightarrow> pkt_run [] (packetFinished p e)"
  by (auto simp: pkt_run_def packetFinished_def)

lemma pkt_run_awaiterDone: "pkt_run (awaiterKeys a) e \<Longrightarrow> pkt_run [] (awaiterDone a e)"
  by (cases a) (auto simp: awaiterDone_def pkt_run_finished)

lemma pkt_run_finalized: 
  assumes "pkt_run (awaiterKeys a) e"
  shows "pkt_run [] (finalized key out info a e)"
  unfolding finalized_def
  by (rule pkt_run_awaiterDone, rule pkt_run_same [OF assms]) simp

lemma pkt_run_finalize:
  assumes "pkt_run (awaiterKeys a) e"
  shows "pkt_run [] (finalize out a now sid e)"
proof (cases "transferId (sess e sid) \<in> set (finalizing e)")
  case True
  then show ?thesis using assms by (simp add: finalize_def pkt_run_awaiterDone)
next
  case False
  obtain e1 info where i: "infoOf now sid (e\<lparr>finalizing := List.insert (transferId (sess e sid)) (finalizing e)\<rparr>) = (e1, info)"
    by fastforce
  have "pkt_run (awaiterKeys a) e1" using assms pkt_run_cong [of e1 e] pktView_infoOf [OF i] by simp
  with False i show ?thesis
    by (auto simp: finalize_def Let_def intro: pkt_run_add pkt_run_finalized split: option.splits)
qed

lemma pkt_run_afterAck: "pkt_run [peerKey p] e \<Longrightarrow> pkt_run [] (afterAck now p sid d e)"
  by (simp add: afterAck_def pkt_run_finalize pkt_run_finished)

lemma pkt_run_afterData:
  assumes "pkt_run [peerKey p] e"
  shows "pkt_run [] (afterData now p sid r e)"
proof -
  have "pkt_run [peerKey p] (sendForTransfer now sid (data_send r) e)"
    by (rule pkt_run_same [OF assms]) simp
  then show ?thesis by (simp add: afterData_def Let_def pkt_run_finalize pkt_run_finished)
qed

lemma pkt_run_writeFailedCleanup:
  assumes "pkt_run [peerKey p] e"
  shows "pkt_run [] (writeFailedCleanup now p sid err e)"
proof -
  have "pkt_run [peerKey p] (sendRaw q pkts e)" for q pkts by (rule pkt_run_same [OF assms]) simp
  then show ?thesis by (simp add: writeFailedCleanup_def pkt_run_finalize split: prod.splits)
qed

lemma pkt_run_appendWrite: "pkt_run [peerKey p] e \<Longrightarrow> pkt_run [] (appendWrite p sid d r e)"
  by (auto simp: appendWrite_def intro: pkt_run_finished pkt_run_add split: option.splits)

lemma pkt_run_routeExisting:
  assumes run: "pkt_run [peerKey p] e"
  shows "pkt_run [] (routeExisting now p sid msg e)"
proof -
  have raw: "pkt_run [] (cleanupErroneous m (ByPacket p) now sid (sendRaw p pkts e))" for m pkts
    by (rule pkt_run_finalize, rule pkt_run_same [OF run [folded awaiterKeys.simps]]) simp
  have upd: "pkt_run [peerKey p] (upd_session sid f e)" for f by (rule pkt_run_same [OF run]) simp
  have snd: "pkt_run [peerKey p] (sendForTransfer now sid pkts (upd_session sid f e))" for pkts f
    by (rule pkt_run_same [OF run]) simp
  show ?thesis
    using run raw pkt_run_finished [OF run] pkt_run_finalize [of "ByPacket p" e] pkt_run_appendWrite [OF upd]
      pkt_run_afterData [OF upd] pkt_run_afterAck [OF snd] pkt_run_add [OF snd]
    by (simp add: routeExisting_def Let_def
        split: sum.splits protocol_error.splits option.splits tftp_packet.splits prod.splits)
qed

lemma pkt_run_resumePacketProduce:
  assumes run: "pkt_run [peerKey p] e"
  shows "pkt_run [] (resumePacketProduce now io p sid d e)"
proof (cases "produceNextSendPackets now io False (sess e sid)")
  case None
  with run show ?thesis by (auto simp: resumePacketProduce_def pkt_run_def)
next
  case (Some q)
  obtain s r where q: "q = (s, r)" by fastforce
  show ?thesis
  proof (cases r)
    case (Inl err)
    have "pkt_run [] (packetFinished p (upd_session sid (\<lambda>_. s) e))"
      by (rule pkt_run_finished, rule pkt_run_same [OF run]) simp
    then have "pkt_run [] (messageRejected now p m (packetFinished p (upd_session sid (\<lambda>_. s) e)))" for m
      by (rule pkt_run_same) simp
    with Some q Inl show ?thesis by (simp add: resumePacketProduce_def)
  next
    case (Inr pkts)
    let ?e1 = "sendForTransfer now sid pkts (upd_session sid (\<lambda>_. s) e)"
    have "pkt_run [peerKey p] (if pkts = [] then ?e1
        else case infoOf now sid ?e1 of (e', info) \<Rightarrow> emit (TransferProgress info) e')"
      by (rule pkt_run_same [OF run]) (simp split: prod.splits)
    with Some q Inr show ?thesis by (simp add: resumePacketProduce_def Let_def pkt_run_afterAck)
  qed
qed

lemma pkt_run_resumePacketOpen:
  assumes run: "pkt_run [peerKey p] e"
  shows "pkt_run [] (resumePacketOpen now res p sid data r e)"
proof (cases res)
  case None
  obtain e1 h where o: "openNew e = (e1, h)" by fastforce
  have "pkt_run [peerKey p] (e1\<lparr>writeHandles := ws\<rparr>)" for ws
    by (rule pkt_run_same [OF run]) (simp add: pktView_openNew [OF o])
  from pkt_run_add [OF this, of "PacketWrite p sid h data r"] None o show ?thesis
    by (simp add: resumePacketOpen_def)
next
  case (Some err)
  with run show ?thesis by (simp add: resumePacketOpen_def pkt_run_writeFailedCleanup)
qed

lemma pkt_run_resumePacketWrite:
  assumes run: "pkt_run [peerKey p] e"
  shows "pkt_run [] (resumePacketWrite now res p sid h data r e)"
proof (cases res)
  case None
  obtain e1 info where i: "infoOf now sid (e\<lparr>written := written e @ [(h, data)]\<rparr>) = (e1, info)" by fastforce
  have "pkt_run [peerKey p] (emit (TransferProgress info) e1)"
    by (rule pkt_run_same [OF run]) (simp add: pktView_infoOf [OF i])
  with None i show ?thesis by (simp add: resumePacketWrite_def pkt_run_afterData)
next
  case (Some err)
  with run show ?thesis by (simp add: resumePacketWrite_def pkt_run_writeFailedCleanup)
qed

lemma pkt_run_runPacket:
  assumes run: "pkt_run [] e" and idle: "peerKey p \<notin> set (busyPeers e)"
  shows "pkt_run [] (runPacket now p sid msg e)"
proof -
  let ?e = "e\<lparr>packetQueue := q, busyPeers := List.insert (peerKey p) (busyPeers e)\<rparr>"
  have "pkt_run [peerKey p] (e\<lparr>packetQueue := q, busyPeers := List.insert (peerKey p) (busyPeers e)\<rparr>)" for q
    using run idle by (auto simp: pkt_run_def)
  moreover have "pkt_run [] (e\<lparr>packetQueue := q\<rparr>)" for q by (rule pkt_run_same [OF run]) simp
  ultimately show ?thesis by (simp add: runPacket_def Let_def pkt_run_routeExisting)
qed

lemma pkt_run_close:
  assumes "pkt_run (awaiterKeys a) e"
  shows "pkt_run [] (resumeCloseFile key sid out info a e)" "pkt_run [] (resumeCloseHandle key h out info a e)"
proof -
  have 1: "pkt_run (awaiterKeys a) (deleteTransfer key (upd_session sid closeFile e))"
    "pkt_run (awaiterKeys a) ((upd_session sid closeFile e)\<lparr>writeHandles := ws\<rparr>)"
    "pkt_run (awaiterKeys a) (deleteTransfer key (closeHandle h e))" for ws
    by (rule pkt_run_same [OF assms], simp)+
  from pkt_run_finalized [OF 1(1)] pkt_run_add [OF 1(2), of "CloseHandle key h' out info a" for h']
  show "pkt_run [] (resumeCloseFile key sid out info a e)"
    by (simp add: resumeCloseFile_def Let_def split: option.splits)
  from 1 show "pkt_run [] (resumeCloseHandle key h out info a e)"
    by (auto simp: resumeCloseHandle_def intro: pkt_run_finalized)
qed

lemma pkt_run_step:
  assumes "engine_step e e'" "pkt_run [] e"
  shows "pkt_run [] e'"
  using assms
proof (induction rule: engine_step.induct)
  case (packet p sid msg e now)
  then show ?case by (intro pkt_run_runPacket)
next
  case (packet_produce p sid d e now io)
  with pkt_run_take [OF packet_produce(2,1)] show ?case by (simp add: pkt_run_resumePacketProduce)
next
  case (packet_open p sid data r e now result)
  with pkt_run_take [OF packet_open(2,1)] show ?case by (simp add: pkt_run_resumePacketOpen)
next
  case (packet_write p sid h data r e now result)
  with pkt_run_take [OF packet_write(2,1)] show ?case by (simp add: pkt_run_resumePacketWrite)
next
  case (close_file key sid out info a e)
  with pkt_run_take [OF close_file(2,1)] show ?case by (simp add: pkt_run_close)
next
  case (close_handle key h out info a e)
  with pkt_run_take [OF close_handle(3,1)] show ?case by (simp add: pkt_run_close)
next
  case (cancel now key e e' answer)
  then show ?case using pkt_run_same pktView_cancel by blast
qed (erule pkt_run_same, simp)+

section \<open>Properties of every run\<close>

lemma eopts_basic [simp]:
  "eopts (emit ev e) = eopts e" "eopts (sendRaw p pkts e) = eopts e" "eopts (add_task t e) = eopts e"
  "eopts (remove_task t e) = eopts e" "eopts (upd_session sid f e) = eopts e"
  "eopts (admissionFinished p e) = eopts e" "eopts (closeHandle h e) = eopts e"
  "eopts (deleteTransfer k e) = eopts e" "eopts (messageRejected now p m e) = eopts e"
  "eopts (sendForTransfer now sid pkts e) = eopts e" "eopts (finalized k out info a e) = eopts e"
  using admView_fields(1) [OF admView_messageRejected] admView_fields(1) [OF admView_sendForTransfer]
    admView_fields(1) [OF admView_finalized]
  by (simp_all add: emit_def sendRaw_def add_task_def remove_task_def upd_session_def
      admissionFinished_def closeHandle_def deleteTransfer_def)

lemma eopts_fst [simp]:
  "eopts (fst (infoOf now sid e)) = eopts e" "eopts (fst (openNew e)) = eopts e"
  by (simp_all add: infoOf_def openNew_def split_beta)

lemma eopts_registerTransfer [simp]: "eopts (registerTransfer now p g sid i e) = eopts e"
  by (simp add: registerTransfer_def Let_def split_beta split: option.splits)

lemma eopts_resumeAdmitPath [simp]: "eopts (resumeAdmitPath now res p rq g e) = eopts e"
  by (simp add: resumeAdmitPath_def sendErrorFromGeneric_def Let_def split_beta split: sum.splits)

lemma eopts_resumeAdmitOpen [simp]: "eopts (resumeAdmitOpen now ores p g sid i e) = eopts e"
  by (simp add: resumeAdmitOpen_def split_beta split: option.splits)

lemma eopts_resumeAdmitProduce [simp]: "eopts (resumeAdmitProduce now io p sid e) = eopts e"
  by (simp add: resumeAdmitProduce_def Let_def split_beta split: option.splits sum.splits)

lemma eopts_handleMessage [simp]: "eopts (handleMessage p msg e) = eopts e"
  by (simp add: handleMessage_def handleNewRequest_def admitNewRequest_def
      split: option.splits sum.splits protocol_error.splits)

lemma eopts_closing [simp]:
  "eopts (resumeCloseFile key sid out info a e) = eopts e"
  "eopts (resumeCloseHandle key h out info a e) = eopts e"
  "eopts (resumeAdmitClose p h e) = eopts e"
  by (simp_all add: resumeCloseFile_def resumeCloseHandle_def resumeAdmitClose_def Let_def split: option.splits)

lemma eopts_step: "engine_step e e' \<Longrightarrow> eopts e' = eopts e"
  by (induction rule: engine_step.induct)
    (auto simp: stopFinish_def settleLifecycle_def admView_fields(1) [OF admView_cancel]
      admView_fields(1) [OF admView_runPacket] admView_fields(1) [OF admView_resumePacketProduce]
      admView_fields(1) [OF admView_resumePacketOpen] admView_fields(1) [OF admView_resumePacketWrite]
      admView_fields(1) [OF admView_gcTick] admView_fields(1) [OF admView_lifecycle(1)]
      admView_fields(1) [OF admView_lifecycle(2)] admView_fields(1) [OF admView_lifecycle(3)]
      admView_fields(1) [OF admView_lifecycle(4)] admView_fields(1) [OF admView_lifecycle(5)])

definition engine_inv :: "engine_options \<Rightarrow> engine \<Rightarrow> bool" where
  "engine_inv options e \<longleftrightarrow> eopts e = options \<and> adm_inv e \<and> pkt_run [] e"

interpretation engine_run: invariant_system "\<lambda>e. e = new_engine options" engine_step "engine_inv options"
proof unfold_locales
  show "s = new_engine options \<Longrightarrow> engine_inv options s" for s
    by (simp add: engine_inv_def new_engine_def adm_inv_def adm_run_def adm_tasks_def transferKeys_def
        pkt_run_def)
  show "engine_inv options s \<Longrightarrow> engine_step s t \<Longrightarrow> engine_inv options t" for s t
    by (simp add: engine_inv_def eopts_step adm_inv_step pkt_run_step)
qed

text \<open>The peers whose packet is suspended at an await.\<close>

definition suspendedPeers :: "engine \<Rightarrow> string list" where
  "suspendedPeers e = concat (map pktKeys (tasks e))"

section \<open>Starting and stopping\<close>

definition lifeView where
  "lifeView e = (esocket e, guard e, acceptingRequests e, gcTimer e, lifecycleGeneration e,
     lifecycleQueue e, lifecycleStage e)"

lemma lifeView_basic [simp]:
  "lifeView (emit ev e) = lifeView e" "lifeView (sendRaw p pkts e) = lifeView e"
  "lifeView (add_task t e) = lifeView e" "lifeView (remove_task t e) = lifeView e"
  "lifeView (upd_session sid f e) = lifeView e" "lifeView (packetFinished p e) = lifeView e"
  "lifeView (admissionFinished p e) = lifeView e" "lifeView (closeHandle h e) = lifeView e"
  "lifeView (deleteTransfer k e) = lifeView e" "lifeView (fst (openNew e)) = lifeView e"
  "lifeView (fst (infoOf now sid e)) = lifeView e" "lifeView (awaiterDone a e) = lifeView e"
  "lifeView (e\<lparr>finalizing := fs\<rparr>) = lifeView e" "lifeView (e\<lparr>writeHandles := ws\<rparr>) = lifeView e"
  "lifeView (e\<lparr>written := wr\<rparr>) = lifeView e" "lifeView (e\<lparr>packetQueue := q\<rparr>) = lifeView e"
  "lifeView (e\<lparr>busyPeers := bs\<rparr>) = lifeView e" "lifeView (e\<lparr>transfers := tr\<rparr>) = lifeView e"
  "lifeView (e\<lparr>sessions := ss\<rparr>) = lifeView e" "lifeView (e\<lparr>pendingAdmissionKeys := ps\<rparr>) = lifeView e"
  by (simp_all add: lifeView_def emit_def sendRaw_def add_task_def remove_task_def upd_session_def
      packetFinished_def admissionFinished_def closeHandle_def deleteTransfer_def openNew_def
      infoOf_def awaiterDone_def split_beta split: awaiter.splits)

lemma lifeView_finalize [simp]:
  "lifeView (finalized key out info a e) = lifeView e" "lifeView (finalize out a now sid e) = lifeView e"
  by (simp_all add: finalized_def finalize_def Let_def split_beta split: option.splits)

lemma lifeView_sends [simp]:
  "lifeView (sendForTransfer now sid pkts e) = lifeView e" "lifeView (messageRejected now p m e) = lifeView e"
  "lifeView (writeFailedCleanup now p sid err e) = lifeView e"
  by (simp_all add: sendForTransfer_def messageRejected_def writeFailedCleanup_def split_beta Let_def
      split: option.splits)

lemma lifeView_after [simp]:
  "lifeView (afterAck now p sid d e) = lifeView e" "lifeView (afterData now p sid r e) = lifeView e"
  "lifeView (appendWrite p sid w r e) = lifeView e"
  by (simp_all add: afterAck_def afterData_def appendWrite_def Let_def split: option.splits)

lemma lifeView_routeExisting [simp]: "lifeView (routeExisting now p sid msg e) = lifeView e"
  by (simp add: routeExisting_def Let_def split_beta
      split: sum.splits protocol_error.splits option.splits tftp_packet.splits)

lemma lifeView_packets [simp]:
  "lifeView (resumePacketProduce now io p sid d e) = lifeView e"
  "lifeView (resumePacketOpen now res p sid data r e) = lifeView e"
  "lifeView (resumePacketWrite now res p sid h data r e) = lifeView e"
  "lifeView (runPacket now p sid msg e) = lifeView e"
  by (simp_all add: resumePacketProduce_def resumePacketOpen_def resumePacketWrite_def runPacket_def
      Let_def split_beta split: option.splits sum.splits)

lemma lifeView_closing [simp]:
  "lifeView (resumeCloseFile key sid out info a e) = lifeView e"
  "lifeView (resumeCloseHandle key h out info a e) = lifeView e"
  "lifeView (resumeAdmitClose p h e) = lifeView e"
  by (simp_all add: resumeCloseFile_def resumeCloseHandle_def resumeAdmitClose_def Let_def
      split: option.splits)

lemma lifeView_registerTransfer [simp]: "lifeView (registerTransfer now p g sid i e) = lifeView e"
  by (simp add: registerTransfer_def Let_def split_beta split: option.splits)

lemma lifeView_admissions [simp]:
  "lifeView (resumeAdmitPath now pres p rq g e) = lifeView e"
  "lifeView (resumeAdmitOpen now res p g sid i e) = lifeView e"
  "lifeView (resumeAdmitProduce now io p sid e) = lifeView e"
  by (simp_all add: resumeAdmitPath_def resumeAdmitOpen_def resumeAdmitProduce_def sendErrorFromGeneric_def
      Let_def split_beta split: option.splits sum.splits)

lemma lifeView_handleMessage [simp]: "lifeView (handleMessage p msg e) = lifeView e"
  by (simp add: handleMessage_def handleNewRequest_def admitNewRequest_def
      split: option.splits sum.splits protocol_error.splits)

lemma lifeView_gcTick [simp]: "lifeView (gcTick now e) = lifeView e"
proof -
  have "lifeView (gcOne now sid e) = lifeView e" for sid e
    by (simp add: gcOne_def gcTimeout_def Let_def split_beta split: option.splits)
  then have "lifeView (fold (gcOne now) sids e) = lifeView e" for sids by (induction sids arbitrary: e) simp_all
  then show ?thesis by (simp add: gcTick_def)
qed

lemma lifeView_cancel: "cancelTransfer now key e = (e', b) \<Longrightarrow> lifeView e' = lifeView e"
  by (auto simp: cancelTransfer_def Let_def split: option.splits if_splits)

fun alternating :: "lifecycle_kind list \<Rightarrow> bool" where
  "alternating (a # b # ks) \<longleftrightarrow> a \<noteq> b \<and> alternating (b # ks)"
| "alternating _ \<longleftrightarrow> True"

lemma alternating_snoc: "alternating (ks @ [k]) \<longleftrightarrow> alternating ks \<and> (ks \<noteq> [] \<longrightarrow> last ks \<noteq> k)"
  by (induction ks rule: alternating.induct) auto

lemma alternating_tl: "alternating ks \<Longrightarrow> alternating (tl ks)"
  by (cases ks rule: alternating.cases) auto

definition life_inv :: "engine \<Rightarrow> bool" where
  "life_inv e \<longleftrightarrow>
     (acceptingRequests e \<longrightarrow> esocket e \<and> guard e \<noteq> None)
     \<and> (gcTimer e \<longleftrightarrow> acceptingRequests e)
     \<and> (\<forall>g. lifecycleStage e = Binding g \<longrightarrow> esocket e \<and> guard e \<noteq> None \<and> \<not> acceptingRequests e
          \<and> lifecycleGeneration e = g)
     \<and> (lifecycleStage e = Draining \<longrightarrow> \<not> acceptingRequests e \<and> \<not> esocket e)
     \<and> alternating (lifecycleQueue e)"

lemma life_inv_same: "life_inv e \<Longrightarrow> lifeView e' = lifeView e \<Longrightarrow> life_inv e'"
  by (simp add: life_inv_def lifeView_def)

lemma life_inv_step:
  assumes "engine_step e e'" "life_inv e"
  shows "life_inv e'"
  using assms
proof (induction rule: engine_step.induct)
  case (cancel now key e e' answer)
  then show ?case using life_inv_same lifeView_cancel by blast
next
  case (enqueue e kind)
  then show ?case by (auto simp: life_inv_def enqueueLifecycle_def alternating_snoc)
next
  case (start e ks root_result)
  then show ?case
    by (auto simp: life_inv_def startOwned_def settleLifecycle_def split: sum.splits
        dest: alternating_tl [of "Start # ks"])
next
  case (listening e g)
  then show ?case by (auto simp: life_inv_def startListening_def settleLifecycle_def emit_def alternating_tl)
next
  case (bind_failed e g message)
  then show ?case by (auto simp: life_inv_def startFailed_def settleLifecycle_def emit_def alternating_tl)
next
  case (stop e ks)
  then show ?case by (auto simp: life_inv_def stopOwned_def emit_def Let_def)
next
  case (stopped e)
  then show ?case by (auto simp: life_inv_def stopFinish_def settleLifecycle_def alternating_tl)
qed (erule life_inv_same, simp)+

interpretation engine_life: invariant_system "\<lambda>e. e = new_engine options" engine_step life_inv
proof unfold_locales
  show "s = new_engine options \<Longrightarrow> life_inv s" for s by (simp add: life_inv_def new_engine_def)
  show "life_inv s \<Longrightarrow> engine_step s t \<Longrightarrow> life_inv t" for s t by (blast intro: life_inv_step)
qed

lemma transfers_same: "admView e' = admView e \<Longrightarrow> transfers e' = transfers e"
  by (rule admView_fields(2))

lemma transfers_fst [simp]:
  "transfers (fst (infoOf now sid e)) = transfers e" "transfers (fst (openNew e)) = transfers e"
  "transfers (remove_task t e) = transfers e" "transfers (add_task t e) = transfers e"
  "transfers (sendRaw p pkts e) = transfers e" "transfers (admissionFinished p e) = transfers e"
  "transfers (closeHandle h e) = transfers e" "transfers (upd_session sid f e) = transfers e"
  "transfers (emit ev e) = transfers e"
  by (simp_all add: infoOf_def openNew_def split_beta remove_task_def add_task_def sendRaw_def
      admissionFinished_def closeHandle_def upd_session_def emit_def)

lemma not_owner: "\<not> acceptingRequests e \<Longrightarrow> \<not> ownsAdmission g e"
  by (simp add: ownsAdmission_def)

lemma accepting_fst [simp]:
  "acceptingRequests (remove_task t e) = acceptingRequests e"
  "acceptingRequests (fst (openNew e)) = acceptingRequests e"
  by (simp_all add: remove_task_def openNew_def)

section \<open>Executable runs\<close>

datatype awaited = Got_io file_io | Got_result "io_error option" | Got_path "path_error + abs_path \<times> nat"
  | Got_nothing

datatype action =
    DoReceive peer buffer
  | DoPacket int peer
  | DoTask int nat awaited
  | DoGc int
  | DoCancel int string
  | DoEnqueue lifecycle_kind
  | DoStart "path_error + abs_path"
  | DoListening
  | DoStop
  | DoStopped

definition resumeTask :: "int \<Rightarrow> task \<Rightarrow> awaited \<Rightarrow> engine \<Rightarrow> engine option" where
  "resumeTask now t w e =
     (let e0 = remove_task t e in
      case (t, w) of
        (PacketProduce p sid d, Got_io io) \<Rightarrow> Some (resumePacketProduce now io p sid d e0)
      | (PacketOpen p sid data r, Got_result res) \<Rightarrow> Some (resumePacketOpen now res p sid data r e0)
      | (PacketWrite p sid h data r, Got_result res) \<Rightarrow> Some (resumePacketWrite now res p sid h data r e0)
      | (CloseFile key sid out info a, Got_nothing) \<Rightarrow> Some (resumeCloseFile key sid out info a e0)
      | (CloseHandle key h out info a, Got_nothing) \<Rightarrow>
          if list_ex (writesTo h) (tasks e) then None else Some (resumeCloseHandle key h out info a e0)
      | (AdmitPath p rq g, Got_path res) \<Rightarrow> Some (resumeAdmitPath now res p rq g e0)
      | (AdmitOpen p rq g sid i, Got_result res) \<Rightarrow> Some (resumeAdmitOpen now res p g sid i e0)
      | (AdmitClose p h, Got_nothing) \<Rightarrow> Some (resumeAdmitClose p h e0)
      | (AdmitProduce p sid, Got_io io) \<Rightarrow> Some (resumeAdmitProduce now io p sid e0)
      | _ \<Rightarrow> None)"

definition doAction :: "action \<Rightarrow> engine \<Rightarrow> engine option" where
  "doAction a e =
     (case a of
        DoReceive p msg \<Rightarrow> if esocket e then Some (handleMessage p msg e) else None
      | DoPacket now p \<Rightarrow>
          (case find (\<lambda>(q, _). peerKey q = peerKey p) (packetQueue e) of
             Some (q, sid, msg) \<Rightarrow>
               if peerKey q \<notin> set (busyPeers e) then Some (runPacket now q sid msg e) else None
           | None \<Rightarrow> None)
      | DoTask now i w \<Rightarrow> if i < length (tasks e) then resumeTask now (tasks e ! i) w e else None
      | DoGc now \<Rightarrow> if gcTimer e then Some (gcTick now e) else None
      | DoCancel now key \<Rightarrow> Some (fst (cancelTransfer now key e))
      | DoEnqueue k \<Rightarrow> Some (enqueueLifecycle k e)
      | DoStart res \<Rightarrow>
          if lifecycleStage e = NotRunning \<and> take 1 (lifecycleQueue e) = [Start]
          then Some (startOwned res e) else None
      | DoListening \<Rightarrow> (case lifecycleStage e of Binding g \<Rightarrow> Some (startListening g e) | _ \<Rightarrow> None)
      | DoStop \<Rightarrow>
          if lifecycleStage e = NotRunning \<and> take 1 (lifecycleQueue e) = [Stop]
          then Some (stopOwned e) else None
      | DoStopped \<Rightarrow> if lifecycleStage e = Draining \<and> drained e then Some (stopFinish e) else None)"

fun doActions :: "action list \<Rightarrow> engine \<Rightarrow> engine option" where
  "doActions [] e = Some e"
| "doActions (a # as) e = (case doAction a e of None \<Rightarrow> None | Some e1 \<Rightarrow> doActions as e1)"

lemma resumeTask_step:
  assumes "resumeTask now t w e = Some e'" "t \<in> set (tasks e)"
  shows "engine_step e e'"
  using assms
  by (cases t; cases w) (auto simp: resumeTask_def Let_def intro: engine_step.intros split: if_splits)

lemma doAction_step:
  assumes "doAction a e = Some e'"
  shows "engine_step e e'"
proof (cases a)
  case (DoPacket now p)
  with assms obtain q sid msg where f: "find (\<lambda>(q, _). peerKey q = peerKey p) (packetQueue e) = Some (q, sid, msg)"
    and b: "peerKey q \<notin> set (busyPeers e)" and e': "e' = runPacket now q sid msg e"
    by (auto simp: doAction_def split: option.splits if_splits)
  from f have m: "(q, sid, msg) \<in> set (packetQueue e)" and k: "peerKey q = peerKey p"
    by (auto simp: find_Some_iff in_set_conv_nth)
  from f have "find (\<lambda>(q', _). peerKey q' = peerKey q) (packetQueue e) = Some (q, sid, msg)" by (simp add: k)
  from engine_step.packet [OF m this b] e' show ?thesis by simp
next
  case (DoTask now i w)
  with assms show ?thesis by (auto simp: doAction_def intro: resumeTask_step split: if_splits)
next
  case (DoStart res)
  with assms show ?thesis
    by (cases "lifecycleQueue e") (auto simp: doAction_def intro: engine_step.start split: if_splits)
next
  case DoStop
  with assms show ?thesis
    by (cases "lifecycleQueue e") (auto simp: doAction_def intro: engine_step.stop split: if_splits)
next
  case (DoCancel now key)
  with assms engine_step.cancel [of now key e e' "snd (cancelTransfer now key e)"] show ?thesis
    by (auto simp: doAction_def)
qed (use assms in \<open>auto simp: doAction_def intro: engine_step.intros split: if_splits lifecycle_stage.splits\<close>)

lemma doActions_steps: "doActions as e = Some e' \<Longrightarrow> engine_step\<^sup>*\<^sup>* e e'"
proof (induction as e rule: doActions.induct)
  case (2 a as e)
  then obtain e1 where "doAction a e = Some e1" "doActions as e1 = Some e'"
    by (auto split: option.splits)
  with 2 doAction_step show ?case by (meson converse_rtranclp_into_rtranclp)
qed simp

definition example_peer :: peer where
  "example_peer = \<lparr>address = ''10.0.0.9'', port = 7\<rparr>"

definition example_options :: engine_options where
  "example_options = \<lparr>opt_port = 69, opt_address = ''0.0.0.0'', opt_allowWrite = True, opt_timeoutMs = 5000,
     opt_gcIntervalMs = 2000, opt_maxTransfers = 1\<rparr>"

definition upload_session :: session where
  "upload_session =
     \<lparr> speer = example_peer, opcode = WriteRequest, filename = ''f'', absFilePath = ''/srv/f'', smode = Octet,
       opts = \<lparr>blksize = 512, windowsize = 1, timeout = None, tsize = None\<rparr>, phase = RecvInitialACK,
       errorCode = None, errorMessage = None, blockNum = 1, lastAcked = 0, fileSize = 0,
       bytesTransferred = 0, lastActivity = 0, retries = 0, timeoutMs = 5000, tsizeAtStart = None,
       fileHandle = False, readLeftover = [], fileOffset = 0, startedAt = 0, speedBps = 0,
       lastMetricsSample = 0, outboundQueue = [], outboundSentLast = 0, retxBackoffMs = 5000 \<rparr>"

definition upload_request :: request where
  "upload_request = \<lparr>rq_kind = WriteRequest, rq_filename = ''f'', rq_mode = Octet, rq_options = []\<rparr>"

lemma upload_session_init:
  "phase (new_session 0 (admissionInit example_peer upload_request [''srv'', ''f''])) \<noteq> Failed"
  "initForWRQ False (new_session 0 (admissionInit example_peer upload_request [''srv'', ''f'']))
    = (upload_session, [encodeACK 0])"
  by (simp_all add: upload_session_def new_session_def admissionInit_def upload_request_def initForWRQ_def
     validateOptions_def checkOption_def session_defaults_def or_default_def max_window_def tftp_limits
     DEFAULT_TIMEOUT_MS_def Let_def)

lemma upload_request_fields [simp]: "rq_kind upload_request = WriteRequest" "rq_options upload_request = []"
  by (simp_all add: upload_request_def)

lemma upload_parse:
  "getOpcode (encodeWRQ ''f'' ''octet'' []) = Some op_WRQ"
  "request_of (Some (WRQ ''f'' Octet [])) = Some upload_request"
  "parsePacket (encodeWRQ ''f'' ''octet'' []) = Inr (Some (WRQ ''f'' Octet []))"
  by (simp add: encodeWRQ_def, simp add: request_of_def upload_request_def, code_simp)

text \<open>The server is started and an upload from \<open>example_peer\<close> is admitted.\<close>

definition upload_actions :: "action list" where
  "upload_actions =
     [DoEnqueue Start, DoStart (Inr [''srv'']), DoListening,
      DoReceive example_peer (encodeWRQ ''f'' ''octet'' []),
      DoTask 0 0 (Got_path (Inr ([''srv'', ''f''], 0))),
      DoTask 0 0 (Got_result None)]"

definition upload_info :: "session \<Rightarrow> transfer_info" where
  "upload_info s =
     \<lparr> info_id = peerKey example_peer, info_peer = example_peer, info_direction = WriteRequest,
       info_filename = ''f'', info_bytes = bytesTransferred s, info_totalBytes = None, info_blockSize = 512,
       info_windowSize = 1, info_metrics = \<lparr>m_speedBps = 0, m_etaSec = None, m_startedAt = 0\<rparr> \<rparr>"

definition upload_engine :: engine where
  "upload_engine =
     \<lparr> eopts = example_options, esocket = True, guard = Some [''srv''],
       sessions = [recordOutbound 0 [encodeACK 0] upload_session],
       transfers = [(peerKey example_peer, 0)], writeHandles = [(peerKey example_peer, 0)],
       finalizing = [], pendingAdmissionKeys = [], packetQueue = [], busyPeers = [],
       lifecycleGeneration = 1, acceptingRequests = True, gcTimer = True, lifecycleQueue = [],
       lifecycleStage = NotRunning, tasks = [], openHandles = [0], nextHandle = 1, written = [],
       sent = [(example_peer, encodeACK 0)],
       emitted = [Listening, TransferStart (upload_info upload_session)] \<rparr>"

lemma infoOf_upload:
  assumes "sid < length (sessions e)" "lastMetricsSample (sess e sid) = 0" "speedBps (sess e sid) = 0"
    "tsizeAtStart (sess e sid) = None" "speer (sess e sid) = example_peer" "opcode (sess e sid) = WriteRequest"
    "filename (sess e sid) = ''f''" "blksize (opts (sess e sid)) = 512" "windowsize (opts (sess e sid)) = 1"
    "startedAt (sess e sid) = 0"
  shows "infoOf 0 sid e = (e, upload_info (sess e sid))"
proof -
  have "updateMetrics 0 0 (sess e sid) = sess e sid" using assms by (simp add: updateMetrics_def)
  moreover have "upd_session sid (\<lambda>_. sess e sid) e = e" by (simp add: upd_session_def sess_def)
  ultimately show ?thesis
    using assms by (simp add: infoOf_def getMetrics_def upload_info_def transferId_peer Let_def)
qed

lemmas engine_exec = doAction_def resumeTask_def enqueueLifecycle_def startOwned_def startListening_def
  settleLifecycle_def emit_def handleMessage_def handleNewRequest_def admitNewRequest_def add_task_def
  remove_task_def resumeAdmitPath_def resumeAdmitOpen_def registerTransfer_def ownsAdmission_def
  admissionFinished_def openNew_def sess_def sendForTransfer_def sendRaw_def upd_session_def
  runPacket_def routeExisting_def appendWrite_def afterData_def finalize_def finalized_def awaiterDone_def
  packetFinished_def resumeCloseFile_def resumeCloseHandle_def closeHandle_def deleteTransfer_def
  resumePacketWrite_def writeFailedCleanup_def gcTick_def gcOne_def Let_def

lemma recordOutbound_upload [simp]:
  "filename (recordOutbound now p s) = filename s" "tsizeAtStart (recordOutbound now p s) = tsizeAtStart s"
  "lastMetricsSample (recordOutbound now p s) = lastMetricsSample s" "speedBps (recordOutbound now p s) = speedBps s"
  "startedAt (recordOutbound now p s) = startedAt s" "bytesTransferred (recordOutbound now p s) = bytesTransferred s"
  "opts (recordOutbound now p s) = opts s"
  by (simp_all add: recordOutbound_def Let_def)

lemma upload_session_simps [simp]:
  "speer upload_session = example_peer" "opcode upload_session = WriteRequest" "phase upload_session = RecvInitialACK"
  "lastMetricsSample upload_session = 0" "speedBps upload_session = 0" "tsizeAtStart upload_session = None"
  "filename upload_session = ''f''" "blksize (opts upload_session) = 512" "windowsize (opts upload_session) = 1"
  "startedAt upload_session = 0" "blockNum upload_session = 1" "bytesTransferred upload_session = 0"
  by (simp_all add: upload_session_def)

lemma upload_run: "doActions upload_actions (new_engine example_options) = Some upload_engine"
  by (simp add: upload_actions_def engine_exec new_engine_def upload_parse
     example_options_def op_WRQ_def upload_session_init upload_engine_def infoOf_upload transferId_peer)

lemma doActions_append:
  "doActions (as @ bs) e = (case doActions as e of None \<Rightarrow> None | Some e1 \<Rightarrow> doActions bs e1)"
  by (induction as arbitrary: e) (simp_all split: option.splits)

lemma DATA_opcode [simp]: "getOpcode (encodeDATA n d) = Some op_DATA"
  by (simp add: encodeDATA_def)

abbreviation admitted_session :: session where
  "admitted_session \<equiv> recordOutbound 0 [encodeACK 0] upload_session"

lemma closeFile_phase [simp]: "phase (closeFile s) = phase s"
  by (simp add: closeFile_def)

definition received_session :: session where
  "received_session = fst (handleDATA 0 1 [7] admitted_session)"

lemma handleDATA_received:
  "handleDATA 0 1 [7] admitted_session
    = (received_session, \<lparr>data_send = [encodeACK 1], data_write = Some [7], data_done = True\<rparr>)"
  by (simp add: received_session_def handleDATA_def receiveBlock_def previousBlock_def Let_def)

lemma received_session_simps [simp]:
  "speer received_session = example_peer" "opcode received_session = WriteRequest" "phase received_session = Done"
  "lastMetricsSample received_session = 0" "speedBps received_session = 0" "tsizeAtStart received_session = None"
  "filename received_session = ''f''" "blksize (opts received_session) = 512"
  "windowsize (opts received_session) = 1" "startedAt received_session = 0"
  by (simp_all add: received_session_def handleDATA_def receiveBlock_def previousBlock_def Let_def
     updateMetrics_def clearOutboundUpToAck_def touch_def)

lemma failed_write_run:
  "\<exists>e. doActions [DoReceive example_peer (encodeDATA 1 [7]), DoPacket 0 example_peer, DoGc 0,
      DoTask 0 0 (Got_result (Some (IoError ''ENOSPC'' ''no space''))),
      DoTask 0 0 Got_nothing, DoTask 0 0 Got_nothing] upload_engine = Some e
    \<and> written e = []
    \<and> sent e = [(example_peer, encodeACK 0),
                (example_peer, encodeERROR DiskFull (Some ''Disk full or allocation exceeded''))]
    \<and> emitted e = [Listening, TransferStart (upload_info upload_session),
                   TransferComplete (upload_info received_session)]"
  by (simp add: engine_exec upload_engine_def handleDATA_received infoOf_upload transferId_peer
      writeFailure_def errno_code_def)

definition cancelled_session :: session where
  "cancelled_session = setError NotDefined ''Transfer cancelled by server'' admitted_session"

lemma cancelled_session_simps [simp]:
  "speer cancelled_session = example_peer" "opcode cancelled_session = WriteRequest" "phase cancelled_session = Failed"
  "lastMetricsSample cancelled_session = 0" "speedBps cancelled_session = 0" "tsizeAtStart cancelled_session = None"
  "filename cancelled_session = ''f''" "blksize (opts cancelled_session) = 512"
  "windowsize (opts cancelled_session) = 1" "startedAt cancelled_session = 0"
  by (simp_all add: cancelled_session_def setError_def)

lemma stale_cleanup_run:
  "\<exists>e. doActions [DoCancel 0 (peerKey example_peer), DoTask 0 0 Got_nothing,
      DoEnqueue Stop, DoStop, DoStopped, DoEnqueue Start, DoStart (Inr [''srv'']), DoListening,
      DoReceive example_peer (encodeWRQ ''f'' ''octet'' []),
      DoTask 0 1 (Got_path (Inr ([''srv'', ''f''], 0))), DoTask 0 1 (Got_result None)] upload_engine = Some e
    \<and> transfers e = [(peerKey example_peer, 1)]
    \<and> (\<exists>e'. doAction (DoTask 0 0 Got_nothing) e = Some e' \<and> transfers e' = []
          \<and> acceptingRequests e' \<and> phase (sess e' 1) = RecvInitialACK \<and> openHandles e' = [1])"
  by (simp add: engine_exec upload_engine_def cancelTransfer_def cancelled_session_def [symmetric]
      infoOf_upload transferId_peer stopOwned_def stopFinish_def drained_def upload_parse
      upload_session_init op_WRQ_def example_options_def)

section \<open>Properties of every run of the server\<close>

text \<open>
  C9. In every interleaving of datagrams, timer ticks, file operations, cancellations, starts
  and stops, the peers with a transfer and the peers whose request is still being admitted are
  together never more than \<open>maxTransfers\<close>: requests that arrive while others wait for the file
  system cannot get past the limit.
\<close>

theorem transfers_bounded:
  assumes "engine_step\<^sup>*\<^sup>* (new_engine options) e"
  shows "card (transferKeys e \<union> set (pendingAdmissionKeys e)) \<le> opt_maxTransfers options
    \<and> length (transfers e) \<le> opt_maxTransfers options"
proof -
  from engine_run.inv_reachable [OF refl assms] have inv: "adm_inv e" "eopts e = options"
    by (simp_all add: engine_inv_def)
  then have c: "card (transferKeys e \<union> set (pendingAdmissionKeys e)) \<le> opt_maxTransfers options"
    and d: "distinct (map fst (transfers e))" by (simp_all add: adm_inv_def adm_run_def)
  have "length (transfers e) = card (transferKeys e)"
    using distinct_card [OF d] by (simp add: transferKeys_def)
  also have "\<dots> \<le> card (transferKeys e \<union> set (pendingAdmissionKeys e))"
    by (rule card_mono) (auto simp: transferKeys_def)
  finally show ?thesis using c by simp
qed

lemma upload_reachable: "engine_step\<^sup>*\<^sup>* (new_engine example_options) upload_engine"
  by (rule doActions_steps [OF upload_run])

theorem transfers_bounded_witness:
  "engine_step\<^sup>*\<^sup>* (new_engine example_options) upload_engine \<and> length (transfers upload_engine) = 1
    \<and> length (transfers upload_engine) \<le> opt_maxTransfers example_options"
  using transfers_bounded [OF upload_reachable] upload_reachable by (simp add: upload_engine_def)

text \<open>
  Of each peer at most one packet is ever suspended at an await, so the writes of an
  upload follow each other in the order of its packets, whatever happens in between.
\<close>

theorem packets_serialized:
  assumes "engine_step\<^sup>*\<^sup>* (new_engine options) e"
  shows "distinct (suspendedPeers e) \<and> set (suspendedPeers e) \<subseteq> set (busyPeers e)"
  using engine_run.inv_reachable [OF refl assms]
  by (simp add: engine_inv_def pkt_run_def suspendedPeers_def)

lemma upload_writing:
  "\<exists>e. doActions [DoReceive example_peer (encodeDATA 1 [7]), DoPacket 0 example_peer] upload_engine = Some e
    \<and> suspendedPeers e = [peerKey example_peer]"
  by (simp add: engine_exec upload_engine_def handleDATA_received transferId_peer suspendedPeers_def)

theorem packets_serialized_witness:
  "\<exists>e. engine_step\<^sup>*\<^sup>* (new_engine example_options) e \<and> suspendedPeers e = [peerKey example_peer]
    \<and> set (suspendedPeers e) \<subseteq> set (busyPeers e)"
proof -
  from upload_writing obtain e where e: "engine_step\<^sup>*\<^sup>* upload_engine e" "suspendedPeers e = [peerKey example_peer]"
    using doActions_steps by blast
  with upload_reachable have "engine_step\<^sup>*\<^sup>* (new_engine example_options) e" by (rule_tac rtranclp_trans)
  from packets_serialized [OF this] this e show ?thesis by blast
qed

text \<open>
  A request that is still being admitted has its slot reserved and its peer has no
  transfer yet: an admission never replaces a transfer.
\<close>

theorem admissions_distinct:
  assumes "engine_step\<^sup>*\<^sup>* (new_engine options) e"
    and "t \<in> set (tasks e)" and "unregistered t"
  shows "admKey t \<in> set (pendingAdmissionKeys e) \<and> map_of (transfers e) (admKey t) = None"
proof -
  from assms(3) have a: "is_admission t" by (cases t) simp_all
  from engine_run.inv_reachable [OF refl assms(1)] have "adm_run [] e" by (simp add: engine_inv_def adm_inv_def)
  with assms(2,3) a have "admKey t \<in> set (pendingAdmissionKeys e)" "admKey t \<notin> transferKeys e"
    by (auto simp: adm_run_def adm_tasks_def)
  then show ?thesis by (simp add: map_of_eq_None_iff transferKeys_def)
qed

lemma upload_asked:
  "\<exists>e. doActions (take 4 upload_actions) (new_engine example_options) = Some e
    \<and> tasks e = [AdmitPath example_peer upload_request 1]"
  by (simp add: upload_actions_def engine_exec new_engine_def upload_parse example_options_def op_WRQ_def)

theorem admissions_distinct_witness:
  "\<exists>e. engine_step\<^sup>*\<^sup>* (new_engine example_options) e \<and> tasks e = [AdmitPath example_peer upload_request 1]
    \<and> peerKey example_peer \<in> set (pendingAdmissionKeys e)"
proof -
  from upload_asked obtain e where e: "engine_step\<^sup>*\<^sup>* (new_engine example_options) e"
    "tasks e = [AdmitPath example_peer upload_request 1]" using doActions_steps by blast
  with admissions_distinct [OF e(1), of "AdmitPath example_peer upload_request 1"] show ?thesis by auto
qed

text \<open>
  While requests are accepted the socket is open, the sandbox exists and the timer runs;
  and the queue of lifecycle operations never holds two equal operations in a row.
\<close>

theorem accepting_is_ready:
  assumes "engine_step\<^sup>*\<^sup>* (new_engine options) e"
  shows "(acceptingRequests e \<longrightarrow> esocket e \<and> guard e \<noteq> None \<and> gcTimer e)
    \<and> alternating (lifecycleQueue e)"
  using engine_life.inv_reachable [OF refl assms] by (auto simp: life_inv_def)

theorem accepting_is_ready_witness:
  "engine_step\<^sup>*\<^sup>* (new_engine example_options) upload_engine \<and> acceptingRequests upload_engine
    \<and> esocket upload_engine \<and> guard upload_engine \<noteq> None"
  using accepting_is_ready [OF upload_reachable] upload_reachable by (simp add: upload_engine_def)

text \<open>
  While requests are not accepted no step registers a transfer, whatever admissions of
  the earlier lifecycle still resume.
\<close>

theorem stopped_admits_nothing:
  assumes "engine_step e e'" and "\<not> acceptingRequests e"
  shows "set (transfers e') \<subseteq> set (transfers e)"
  using assms
proof (induction rule: engine_step.induct)
  case (admit_path p rq g e now path_result)
  then show ?case
    by (simp add: resumeAdmitPath_def sendErrorFromGeneric_def not_owner split_beta split: sum.splits)
next
  case (admit_open p rq g sid initial e now result)
  then show ?case by (simp add: resumeAdmitOpen_def not_owner split_beta split: option.splits)
next
  case (admit_close p h e)
  then show ?case by (simp add: resumeAdmitClose_def)
next
  case (admit_produce p sid e now io)
  then show ?case
    by (simp add: resumeAdmitProduce_def Let_def split_beta transfers_same [OF admView_messageRejected]
        transfers_same [OF admView_sendForTransfer] split: option.splits sum.splits)
next
  case (receive e p msg)
  then show ?case by (simp add: handleMessage_def handleNewRequest_def split: option.splits)
next
  case (cancel now key e e' answer)
  then show ?case by (simp add: transfers_same [OF admView_cancel])
next
  case (close_file key sid out info a e)
  then show ?case
    by (simp add: resumeCloseFile_def Let_def transfers_same [OF admView_finalized] deleteTransfer_def
        AList.delete_eq split: option.splits)
next
  case (close_handle key h out info a e)
  then show ?case
    by (simp add: resumeCloseHandle_def transfers_same [OF admView_finalized] deleteTransfer_def
        AList.delete_eq)
next
  case (stopped e)
  then show ?case by (simp add: stopFinish_def settleLifecycle_def)
qed (simp_all add: transfers_same [OF admView_runPacket] transfers_same [OF admView_resumePacketProduce]
    transfers_same [OF admView_resumePacketOpen] transfers_same [OF admView_resumePacketWrite]
    transfers_same [OF admView_gcTick] transfers_same [OF admView_lifecycle(1)]
    transfers_same [OF admView_lifecycle(2)] transfers_same [OF admView_lifecycle(3)]
    transfers_same [OF admView_lifecycle(4)] transfers_same [OF admView_lifecycle(5)])

theorem stopped_admits_nothing_witness:
  "engine_step (new_engine example_options) (enqueueLifecycle Start (new_engine example_options))
    \<and> set (transfers (enqueueLifecycle Start (new_engine example_options)))
        \<subseteq> set (transfers (new_engine example_options))"
  using stopped_admits_nothing [OF engine_step.enqueue, of "new_engine example_options" Start] engine_step.enqueue
  by (simp add: new_engine_def)

section \<open>Announcements that contradict the transfer\<close>

definition wrong_block :: "u16 \<Rightarrow> session \<Rightarrow> session" where
  "wrong_block n s = setError IllegalOperation (wrongBlockMessage n s) s"

lemma receiveBlock_wrong:
  "n \<noteq> blockNum s \<Longrightarrow> n \<noteq> previousBlock s \<Longrightarrow> receiveBlock now n d s =
    (wrong_block n s, \<lparr>data_send = [makeErrorPacket (wrong_block n s)], data_write = None, data_done = True\<rparr>)"
  by (simp add: receiveBlock_def wrong_block_def Let_def)

lemma wrong_block_receiving: "wrong_block n (s\<lparr>phase := Receiving\<rparr>) = wrong_block n s"
  by (simp add: wrong_block_def setError_def wrongBlockMessage_def)

lemma previousBlock_receiving: "previousBlock (s\<lparr>phase := Receiving\<rparr>) = previousBlock s"
  by (simp add: previousBlock_def cong: if_cong)

lemma handleDATA_wrong:
  assumes "phase s \<in> {RecvInitialACK, Receiving}" and "n \<noteq> blockNum s" and "n \<noteq> previousBlock s"
  shows "handleDATA now n d s =
    (wrong_block n s, \<lparr>data_send = [makeErrorPacket (wrong_block n s)], data_write = None, data_done = True\<rparr>)"
proof -
  have "receiveBlock now n d (s\<lparr>phase := Receiving\<rparr>) =
    (wrong_block n s, \<lparr>data_send = [makeErrorPacket (wrong_block n s)], data_write = None, data_done = True\<rparr>)"
    using assms receiveBlock_wrong [of n "s\<lparr>phase := Receiving\<rparr>"]
    by (simp add: wrong_block_receiving previousBlock_receiving)
  with assms receiveBlock_wrong [of n s] show ?thesis by (auto simp: handleDATA_def)
qed

lemma infoOf_fields:
  assumes "infoOf now sid e = (e', info)" and "sid < length (sessions e)"
  shows "info_id info = peerKey (speer (sess e sid)) \<and> info_direction info = opcode (sess e sid)
    \<and> phase (sess e' sid) = phase (sess e sid) \<and> errorMessage (sess e' sid) = errorMessage (sess e sid)
    \<and> length (sessions e') = length (sessions e) \<and> e' = e\<lparr>sessions := sessions e'\<rparr>"
  using assms by (auto simp: infoOf_def getMetrics_def updateMetrics_def upd_session_def sess_def transferId_peer Let_def)

lemma sendForTransfer_fields:
  assumes "sid < length (sessions e)" and "e' = sendForTransfer now sid pkts e"
  shows "phase (sess e' sid) = phase (sess e sid) \<and> errorMessage (sess e' sid) = errorMessage (sess e sid)
    \<and> opcode (sess e' sid) = opcode (sess e sid) \<and> speer (sess e' sid) = speer (sess e sid)
    \<and> length (sessions e') = length (sessions e) \<and> e' = e\<lparr>sessions := sessions e', sent := sent e'\<rparr>
    \<and> sent e' = sent e @ (if esocket e then map (Pair (speer (sess e sid))) pkts else [])"
  using assms by (simp add: sendForTransfer_def sendRaw_def upd_session_def sess_def recordOutbound_def Let_def)

lemma finalize_registered:
  assumes "map_of (transfers e) (peerKey (speer (sess e sid))) = Some sid"
    and "peerKey (speer (sess e sid)) \<notin> set (finalizing e)" and "sid < length (sessions e)"
  shows "\<exists>ss fin info. finalize out a now sid e
      = e\<lparr>finalizing := fin, sessions := ss,
         tasks := tasks e @ [CloseFile (peerKey (speer (sess e sid))) sid out info a]\<rparr>
    \<and> info_id info = peerKey (speer (sess e sid)) \<and> info_direction info = opcode (sess e sid)
    \<and> phase (ss ! sid) = phase (sess e sid) \<and> errorMessage (ss ! sid) = errorMessage (sess e sid)
    \<and> length ss = length (sessions e)"
proof -
  let ?key = "peerKey (speer (sess e sid))"
  let ?e = "e\<lparr>finalizing := List.insert ?key (finalizing e)\<rparr>"
  obtain e1 info where i: "infoOf now sid ?e = (e1, info)" by fastforce
  have s: "sess ?e sid = sess e sid" by (simp add: sess_def)
  have f: "info_id info = ?key" "info_direction info = opcode (sess e sid)"
    "phase (sess e1 sid) = phase (sess e sid)" "errorMessage (sess e1 sid) = errorMessage (sess e sid)"
    "length (sessions e1) = length (sessions e)"
    using infoOf_fields [OF i] assms(3) by (simp_all add: s)
  obtain ss where e1: "e1 = ?e\<lparr>sessions := ss\<rparr>" using infoOf_fields [OF i] assms(3) by auto
  have "finalize out a now sid e = add_task (CloseFile ?key sid out info a) e1"
    using assms i by (simp add: finalize_def transferId_peer Let_def e1)
  also have "\<dots> = e\<lparr>finalizing := List.insert ?key (finalizing e), sessions := ss,
      tasks := tasks e @ [CloseFile ?key sid out info a]\<rparr>"
    by (simp add: add_task_def e1)
  finally show ?thesis using f by (auto simp: sess_def e1)
qed


text \<open>The packet part of the handler leaves the clean-up of a completed transfer behind.\<close>

lemma runPacket_wrong_block:
  assumes "map_of (transfers e) (peerKey p) = Some sid" and "sid < length (sessions e)"
    and "peerKey (speer (sess e sid)) = peerKey p" and "peerKey p \<notin> set (finalizing e)"
    and "phase (sess e sid) \<in> {RecvInitialACK, Receiving}"
    and "n \<noteq> blockNum (sess e sid)" and "n \<noteq> previousBlock (sess e sid)"
  shows "\<exists>ss fin out q bp info. runPacket now p sid (encodeDATA n d) e
      = e\<lparr>finalizing := fin, sessions := ss, sent := out, packetQueue := q, busyPeers := bp,
         tasks := tasks e @ [CloseFile (peerKey p) sid Completed info (ByPacket p)]\<rparr>
    \<and> info_id info = peerKey p \<and> info_direction info = opcode (sess e sid)
    \<and> phase (ss ! sid) = Failed \<and> errorMessage (ss ! sid) = Some (wrongBlockMessage n (sess e sid))
    \<and> length ss = length (sessions e)"
proof -
  let ?w = "wrong_block n (sess e sid)"
  let ?e0 = "e\<lparr>packetQueue := remove1 (p, sid, encodeDATA n d) (packetQueue e),
     busyPeers := List.insert (peerKey p) (busyPeers e)\<rparr>"
  let ?e1 = "upd_session sid (\<lambda>_. ?w) ?e0"
  define e2 where "e2 = sendForTransfer now sid [makeErrorPacket ?w] ?e1"
  have s0: "sess ?e0 sid = sess e sid" by (simp add: sess_def)
  have s1: "sess ?e1 sid = ?w" "sid < length (sessions ?e1)"
    using assms(2) by (simp_all add: upd_session_def sess_def)
  have w: "phase ?w = Failed" "errorMessage ?w = Some (wrongBlockMessage n (sess e sid))"
    "opcode ?w = opcode (sess e sid)" "speer ?w = speer (sess e sid)"
    by (simp_all add: wrong_block_def setError_def)
  note f2 = sendForTransfer_fields [OF s1(2) e2_def]
  have s2: "phase (sess e2 sid) = Failed" "errorMessage (sess e2 sid) = Some (wrongBlockMessage n (sess e sid))"
    "opcode (sess e2 sid) = opcode (sess e sid)" "speer (sess e2 sid) = speer (sess e sid)"
    "length (sessions e2) = length (sessions e)"
    using f2 s1 w by (simp_all add: upd_session_def)
  obtain ss2 out where e2: "e2 = ?e0\<lparr>sessions := ss2, sent := out\<rparr>"
    using f2 by (auto simp: upd_session_def)
  have "runPacket now p sid (encodeDATA n d) e = cleanupDone (ByPacket p) now sid e2"
    using assms(1) handleDATA_wrong [OF assms(5-7)]
    by (simp add: runPacket_def routeExisting_def afterData_def s0 e2_def Let_def)
  moreover have "map_of (transfers e2) (peerKey (speer (sess e2 sid))) = Some sid"
    "peerKey (speer (sess e2 sid)) \<notin> set (finalizing e2)" "sid < length (sessions e2)"
    using assms s2 by (simp_all add: e2)
  from finalize_registered [OF this, of Completed "ByPacket p" now] obtain ss fin info where
    f: "cleanupDone (ByPacket p) now sid e2 = e2\<lparr>finalizing := fin, sessions := ss,
       tasks := tasks e2 @ [CloseFile (peerKey p) sid Completed info (ByPacket p)]\<rparr>"
    "info_id info = peerKey p" "info_direction info = opcode (sess e sid)" "phase (ss ! sid) = Failed"
    "errorMessage (ss ! sid) = Some (wrongBlockMessage n (sess e sid))" "length ss = length (sessions e)"
    using s2 assms(3) by auto
  moreover have "e2\<lparr>finalizing := fin, sessions := ss,
       tasks := tasks e2 @ [CloseFile (peerKey p) sid Completed info (ByPacket p)]\<rparr>
    = e\<lparr>finalizing := fin, sessions := ss, sent := out, packetQueue := packetQueue ?e0,
       busyPeers := busyPeers ?e0,
       tasks := tasks e @ [CloseFile (peerKey p) sid Completed info (ByPacket p)]\<rparr>"
    unfolding e2 by (cases e) simp
  ultimately show ?thesis by metis
qed

lemma close_announces:
  assumes "t = CloseFile key sid Completed info a" and "t \<in> set (tasks e)" and "sid < length (sessions e)"
    and "\<And>h. map_of (writeHandles e) key = Some h \<Longrightarrow> \<not> list_ex (writesTo h) (tasks e)"
  shows "\<exists>e'. engine_step\<^sup>*\<^sup>* e e' \<and> emitted e' = emitted e @ [TransferComplete info]
    \<and> written e' = written e \<and> phase (sess e' sid) = phase (sess e sid)"
proof (cases "map_of (writeHandles e) key")
  case None
  let ?e = "resumeCloseFile key sid Completed info a (remove_task t e)"
  have "engine_step e ?e" unfolding assms(1) using assms(1,2) engine_step.close_file by blast
  moreover have "emitted ?e = emitted e @ [TransferComplete info]" "written ?e = written e"
    "phase (sess ?e sid) = phase (sess e sid)"
    using None assms(3)
    by (auto simp: resumeCloseFile_def upd_session_def remove_task_def sess_def deleteTransfer_def
        finalized_def awaiterDone_def packetFinished_def emit_def Let_def split: awaiter.splits)
  ultimately show ?thesis by blast
next
  case (Some h)
  let ?e = "resumeCloseFile key sid Completed info a (remove_task t e)"
  let ?u = "CloseHandle key h Completed info a"
  let ?f = "resumeCloseHandle key h Completed info a (remove_task ?u ?e)"
  have "engine_step e ?e" unfolding assms(1) using assms(1,2) engine_step.close_file by blast
  moreover have e: "tasks ?e = remove1 t (tasks e) @ [?u]" "emitted ?e = emitted e" "written ?e = written e"
    "phase (sess ?e sid) = phase (sess e sid)"
    using Some assms(3) by (simp_all add: resumeCloseFile_def upd_session_def remove_task_def sess_def add_task_def Let_def)
  moreover have "\<not> list_ex (writesTo h) (tasks ?e)"
    using assms(4) [OF Some] set_remove1_subset [of t "tasks e"] e(1) by (auto simp: list_ex_iff)
  then have "engine_step ?e ?f" using e(1) by (intro engine_step.close_handle) simp_all
  moreover have "emitted ?f = emitted ?e @ [TransferComplete info]" "written ?f = written ?e"
    "sess ?f sid = sess ?e sid"
    by (auto simp: resumeCloseHandle_def closeHandle_def remove_task_def deleteTransfer_def sess_def
        finalized_def awaiterDone_def packetFinished_def emit_def split: awaiter.splits)
  ultimately show ?thesis by (intro exI [of _ ?f]) (auto intro: rtranclp.rtrancl_into_rtrancl)
qed

text \<open>
  C10. Whenever the peer of an upload sends a DATA block whose number is neither the expected
  one nor the one before it, the packet's handler marks the session as failed with the message
  on the wrong block, and the run goes on to announce, for this upload, that the transfer is
  complete, with nothing written and the session failed. The transfer is registered and not
  being finalised, its packet is the next of its peer, and no write to its file is pending.
\<close>

theorem refused_upload_announced_complete:
  assumes "map_of (transfers e) (peerKey p) = Some sid" and "sid < length (sessions e)"
    and "peerKey (speer (sess e sid)) = peerKey p" and "peerKey p \<notin> set (finalizing e)"
    and "opcode (sess e sid) = WriteRequest" and "phase (sess e sid) \<in> {RecvInitialACK, Receiving}"
    and "n \<noteq> blockNum (sess e sid)" and "n \<noteq> previousBlock (sess e sid)"
    and "find (\<lambda>(q, _). peerKey q = peerKey p) (packetQueue e) = Some (p, sid, encodeDATA n d)"
    and "peerKey p \<notin> set (busyPeers e)"
    and "\<And>h. map_of (writeHandles e) (peerKey p) = Some h \<Longrightarrow> \<not> list_ex (writesTo h) (tasks e)"
    and "e1 = runPacket now p sid (encodeDATA n d) e"
  shows "engine_step e e1 \<and> phase (sess e1 sid) = Failed
    \<and> errorMessage (sess e1 sid) = Some (wrongBlockMessage n (sess e sid))
    \<and> (\<exists>e2 info. engine_step\<^sup>*\<^sup>* e1 e2 \<and> emitted e2 = emitted e @ [TransferComplete info]
         \<and> info_id info = peerKey p \<and> info_direction info = WriteRequest
         \<and> written e2 = written e \<and> phase (sess e2 sid) = Failed)"
proof -
  obtain ss fin out q bp info where e1: "e1 = e\<lparr>finalizing := fin, sessions := ss, sent := out,
      packetQueue := q, busyPeers := bp, tasks := tasks e @ [CloseFile (peerKey p) sid Completed info (ByPacket p)]\<rparr>"
    and i: "info_id info = peerKey p" "info_direction info = opcode (sess e sid)"
    and s: "phase (ss ! sid) = Failed" "errorMessage (ss ! sid) = Some (wrongBlockMessage n (sess e sid))"
      "length ss = length (sessions e)"
    using runPacket_wrong_block [OF assms(1-4,6-8), of now d] unfolding assms(12) by blast
  have "(p, sid, encodeDATA n d) \<in> set (packetQueue e)" using assms(9) by (metis find_Some_iff nth_mem)
  then have "engine_step e e1" unfolding assms(12) using assms(9,10) by (rule engine_step.packet)
  moreover have "\<exists>e2. engine_step\<^sup>*\<^sup>* e1 e2 \<and> emitted e2 = emitted e1 @ [TransferComplete info]
    \<and> written e2 = written e1 \<and> phase (sess e2 sid) = phase (sess e1 sid)"
    unfolding e1 by (rule close_announces [OF refl]) (use assms(2,11) s in auto)
  moreover have "phase (sess e1 sid) = Failed" "emitted e1 = emitted e" "written e1 = written e"
    "errorMessage (sess e1 sid) = Some (wrongBlockMessage n (sess e sid))"
    unfolding e1 by (simp_all add: sess_def s [unfolded sess_def])
  moreover note i assms(5)
  ultimately show ?thesis by metis
qed

text \<open>A run of a started server in which the first block of an upload is numbered 5.\<close>

theorem refused_upload_announced_complete_witness:
  "\<exists>e e1 e2 info. engine_step\<^sup>*\<^sup>* (new_engine example_options) e
    \<and> engine_step e e1 \<and> errorMessage (sess e1 0) = Some (wrongBlockMessage 5 (sess e 0))
    \<and> engine_step\<^sup>*\<^sup>* e1 e2 \<and> emitted e2 = emitted e @ [TransferComplete info] \<and> info_direction info = WriteRequest"
proof -
  let ?e = "handleMessage example_peer (encodeDATA 5 [7]) upload_engine"
  have "engine_step upload_engine ?e" by (rule engine_step.receive) (simp add: upload_engine_def)
  then have "engine_step\<^sup>*\<^sup>* (new_engine example_options) ?e" using upload_reachable by simp
  moreover have e: "?e = upload_engine\<lparr>packetQueue := [(example_peer, 0, encodeDATA 5 [7])]\<rparr>"
    by (simp add: handleMessage_def upload_engine_def)
  note refused_upload_announced_complete [of ?e example_peer 0 5 "[7]" _ 0, OF _ _ _ _ _ _ _ _ _ _ _ refl]
  then have "engine_step ?e (runPacket 0 example_peer 0 (encodeDATA 5 [7]) ?e) \<and> errorMessage (sess (runPacket 0 example_peer 0 (encodeDATA 5 [7]) ?e) 0) = Some (wrongBlockMessage 5 (sess ?e 0))
    \<and> (\<exists>e2 info. engine_step\<^sup>*\<^sup>* (runPacket 0 example_peer 0 (encodeDATA 5 [7]) ?e) e2 \<and> emitted e2 = emitted ?e @ [TransferComplete info] \<and> info_direction info = WriteRequest)"
    unfolding e by (auto simp: upload_engine_def sess_def previousBlock_def recordOutbound_def Let_def)
  ultimately show ?thesis by blast
qed

text \<open>
  There is a run in which the write of the last block of an upload fails, the peer is told
  that the disk is full, and the server announces that the transfer is complete and never that
  it failed: the timer saw the session done while the write was pending.
\<close>

theorem failed_write_announced_complete:
  "\<exists>e. engine_step\<^sup>*\<^sup>* (new_engine example_options) e \<and> written e = []
    \<and> snd (last (sent e)) = encodeERROR DiskFull (Some ''Disk full or allocation exceeded'')
    \<and> emitted e = [Listening, TransferStart (upload_info upload_session),
                   TransferComplete (upload_info received_session)]"
proof -
  from failed_write_run obtain e where "engine_step\<^sup>*\<^sup>* upload_engine e" and e: "written e = []"
    "sent e = [(example_peer, encodeACK 0),
               (example_peer, encodeERROR DiskFull (Some ''Disk full or allocation exceeded''))]"
    "emitted e = [Listening, TransferStart (upload_info upload_session),
                  TransferComplete (upload_info received_session)]"
    using doActions_steps by blast
  then have "engine_step\<^sup>*\<^sup>* (new_engine example_options) e" using upload_reachable by (rule_tac rtranclp_trans)
  with e show ?thesis by (intro exI [of _ e]) simp
qed

text \<open>
  There is a run in which the clean-up of a cancelled upload, still waiting for its file to
  close, outlives a stop and a start and then removes the transfer that the same peer has opened
  since: the new session is active, its file stays open, and no transfer is registered.
\<close>

theorem stale_cleanup_removes_transfer:
  "\<exists>e e'. engine_step\<^sup>*\<^sup>* (new_engine example_options) e \<and> transfers e = [(peerKey example_peer, 1)]
    \<and> engine_step e e' \<and> transfers e' = [] \<and> acceptingRequests e'
    \<and> phase (sess e' 1) = RecvInitialACK \<and> openHandles e' = [1]"
proof -
  from stale_cleanup_run obtain e e' where "engine_step\<^sup>*\<^sup>* upload_engine e" and
    e: "transfers e = [(peerKey example_peer, 1)]" "doAction (DoTask 0 0 Got_nothing) e = Some e'"
    "transfers e' = []" "acceptingRequests e'" "phase (sess e' 1) = RecvInitialACK" "openHandles e' = [1]"
    using doActions_steps by blast
  then have "engine_step\<^sup>*\<^sup>* (new_engine example_options) e" using upload_reachable by (rule_tac rtranclp_trans)
  with e doAction_step [OF e(2)] show ?thesis by blast
qed

end
