(* ===== verification/Dhcp_Network.thy ===== *)
theory Dhcp_Network
  imports Js_Strings
begin

text \<open>
  IPv4 arithmetic of the DHCP server:
  \<open>src/src/services/networkServers/dhcp/engine/dhcpNetworkUtils.ts\<close>. A JavaScript bitwise
  operation works on 32-bit words; its result is read as a signed number, and \<open>x >>> 0\<close> reads
  it as an unsigned one. \<open>Number(s)\<close> is written out for strings without a dot, the only ones
  that splitting at dots leaves; its value is exact where the program rounds above \<open>2 ^ 53\<close>.
\<close>

unbundle bit_operations_syntax

type_synonym u32 = "32 word"

section \<open>Numbers\<close>

definition js_trim :: "string \<Rightarrow> string" where
  "js_trim s = rev (dropWhile is_space (rev (dropWhile is_space s)))"

definition hex_value :: "char \<Rightarrow> nat option" where
  "hex_value ch =
     (let n = (of_char ch :: nat) in
      if 48 \<le> n \<and> n \<le> 57 then Some (n - 48)
      else if 65 \<le> n \<and> n \<le> 70 then Some (n - 55)
      else if 97 \<le> n \<and> n \<le> 102 then Some (n - 87) else None)"

text \<open>Digits in a base; \<open>None\<close> for an empty string or a character that is no digit.\<close>

fun base_digits :: "nat \<Rightarrow> nat \<Rightarrow> string \<Rightarrow> nat option" where
  "base_digits b acc [] = Some acc"
| "base_digits b acc (ch # s) =
     (case hex_value ch of
        None \<Rightarrow> None
      | Some d \<Rightarrow> if d < b then base_digits b (b * acc + d) s else None)"

definition base_number :: "nat \<Rightarrow> string \<Rightarrow> js_number" where
  "base_number b s =
     (if s = [] then NaN
      else case base_digits b 0 s of None \<Rightarrow> NaN | Some n \<Rightarrow> Finite (of_nat n))"

definition scale10 :: "nat \<Rightarrow> int \<Rightarrow> rat" where
  "scale10 n e = (if 0 \<le> e then of_nat (n * 10 ^ nat e) else of_nat n / of_nat (10 ^ nat (- e)))"

text \<open>An unsigned decimal literal without a dot, with an optional exponent.\<close>

definition decimal_literal :: "string \<Rightarrow> rat option" where
  "decimal_literal s =
     (let ds = takeWhile is_digit s; rest = dropWhile is_digit s in
      if ds = [] then None
      else case rest of
        [] \<Rightarrow> Some (of_nat (digits_value ds))
      | ch # ex \<Rightarrow>
          if ch = CHR ''e'' \<or> ch = CHR ''E'' then
            (let neg = (take 1 ex = ''-'');
                 es = (if neg \<or> take 1 ex = ''+'' then drop 1 ex else ex)
             in if es = [] \<or> \<not> list_all is_digit es then None
                else Some (scale10 (digits_value ds)
                             (if neg then - int (digits_value es) else int (digits_value es))))
          else None)"

definition js_Number :: "string \<Rightarrow> js_number" where
  "js_Number str =
     (let s = js_trim str; p = map lower_char (take 2 s) in
      if s = [] then Finite 0
      else if p = ''0x'' then base_number 16 (drop 2 s)
      else if p = ''0o'' then base_number 8 (drop 2 s)
      else if p = ''0b'' then base_number 2 (drop 2 s)
      else
        (let neg = (take 1 s = ''-''); u = (if neg \<or> take 1 s = ''+'' then drop 1 s else s) in
         if u = ''Infinity'' then (if neg then NegInfinity else PosInfinity)
         else case decimal_literal u of
                None \<Rightarrow> NaN
              | Some q \<Rightarrow> Finite (if neg then - q else q)))"

definition toUint32 :: "js_number \<Rightarrow> u32" where
  "toUint32 n = (case n of Finite q \<Rightarrow> word_of_int (rat_trunc q) | _ \<Rightarrow> 0)"

fun split_dots :: "string \<Rightarrow> string list" where
  "split_dots [] = [[]]"
| "split_dots (ch # s) =
     (if ch = CHR ''.'' then [] # split_dots s
      else case split_dots s of [] \<Rightarrow> [[ch]] | w # ws \<Rightarrow> (ch # w) # ws)"

fun join_dots :: "string list \<Rightarrow> string" where
  "join_dots [] = []"
| "join_dots [w] = w"
| "join_dots (w # ws) = w @ CHR ''.'' # join_dots ws"

section \<open>Addresses\<close>

definition octet_text :: "string \<Rightarrow> bool" where
  "octet_text w \<longleftrightarrow> w \<noteq> [] \<and> list_all is_digit w \<and> length w \<le> 3 \<and> digits_value w \<le> 255
     \<and> (length w = 1 \<or> hd w \<noteq> CHR ''0'')"

definition isValidIpv4 :: "string \<Rightarrow> bool" where
  "isValidIpv4 s \<longleftrightarrow> length (split_dots s) = 4 \<and> list_all octet_text (split_dots s)"

text \<open>\<open>a - b\<close> of two numbers, for the difference \<open>compareIpv4\<close> returns.\<close>

fun js_minus :: "js_number \<Rightarrow> js_number \<Rightarrow> js_number" where
  "js_minus (Finite a) (Finite b) = Finite (a - b)"
| "js_minus PosInfinity (Finite b) = PosInfinity"
| "js_minus NegInfinity (Finite b) = NegInfinity"
| "js_minus (Finite a) PosInfinity = NegInfinity"
| "js_minus (Finite a) NegInfinity = PosInfinity"
| "js_minus PosInfinity NegInfinity = PosInfinity"
| "js_minus NegInfinity PosInfinity = NegInfinity"
| "js_minus _ _ = NaN"

text \<open>A missing component is \<open>undefined\<close>, here \<open>None\<close>: it differs from every number, and the
  difference is NaN; two missing ones are equal.\<close>

definition part_at :: "js_number list \<Rightarrow> nat \<Rightarrow> js_number option" where
  "part_at xs i = (if i < length xs then Some (xs ! i) else None)"

fun compare_parts :: "js_number list \<Rightarrow> js_number list \<Rightarrow> nat list \<Rightarrow> js_number" where
  "compare_parts a b [] = Finite 0"
| "compare_parts a b (i # is) =
     (if part_at a i \<noteq> part_at b i \<or> part_at a i = Some NaN then
        (case (part_at a i, part_at b i) of (Some x, Some y) \<Rightarrow> js_minus x y | _ \<Rightarrow> NaN)
      else compare_parts a b is)"

definition compareIpv4 :: "string \<Rightarrow> string \<Rightarrow> js_number" where
  "compareIpv4 left right =
     compare_parts (map js_Number (split_dots left)) (map js_Number (split_dots right)) [0, 1, 2, 3]"

definition isContiguousMask :: "string \<Rightarrow> bool" where
  "isContiguousMask mask' =
     (let value = foldl (\<lambda>acc part. push_bit 8 acc OR toUint32 (js_Number part)) 0 (split_dots mask');
          inverted = NOT value :: u32
      in (inverted + 1) AND inverted = 0)"

definition ipWord :: "string \<Rightarrow> u32" where
  "ipWord ip =
     (let parts = map (\<lambda>p. toUint32 (js_Number p)) (split_dots ip) in
      if length parts \<noteq> 4 \<or> list_ex (\<lambda>n. 255 < n) parts then 0
      else push_bit 24 (parts ! 0) OR push_bit 16 (parts ! 1) OR push_bit 8 (parts ! 2) OR parts ! 3)"

text \<open>The value the program sees is the signed reading of that word.\<close>

definition ipToInt :: "string \<Rightarrow> int" where
  "ipToInt ip = sint (ipWord ip)"

definition unsigned32 :: "int \<Rightarrow> nat" where
  "unsigned32 n = unat (word_of_int n :: u32)"

definition intToIp :: "int \<Rightarrow> string" where
  "intToIp n =
     (let u = word_of_int n :: u32
      in join_dots (map (\<lambda>k. show_nat (unat (drop_bit k u AND 255))) [24, 16, 8, 0]))"

definition computePoolSize :: "string \<Rightarrow> string \<Rightarrow> int" where
  "computePoolSize rangeStart rangeEnd =
     (let a = ipToInt rangeStart; b = ipToInt rangeEnd
      in if a = 0 \<or> b = 0 \<or> b < a then 0 else b - a + 1)"

definition computeRangeEnd :: "string \<Rightarrow> js_number \<Rightarrow> string" where
  "computeRangeEnd rangeStart count =
     (let start = unsigned32 (ipToInt rangeStart) in
      case count of
        Finite q \<Rightarrow>
          if start = 0 \<or> of_int \<lfloor>q\<rfloor> \<noteq> q \<or> q < 1 then []
          else (let end' = int start + \<lfloor>q\<rfloor> - 1
                in if 4294967295 < end' then [] else intToIp end')
      | _ \<Rightarrow> [])"

definition isIpInPool :: "string \<Rightarrow> string \<Rightarrow> string \<Rightarrow> bool" where
  "isIpInPool ip rangeStart rangeEnd =
     (let address = unsigned32 (ipToInt ip); first = unsigned32 (ipToInt rangeStart);
          last' = unsigned32 (ipToInt rangeEnd)
      in if address = 0 \<or> first = 0 \<or> last' = 0 then False
         else first \<le> address \<and> address \<le> last')"

definition DEFAULT_broadcast :: string where "DEFAULT_broadcast = ''192.168.2.255''"

definition computeBroadcastAddress :: "string \<Rightarrow> string \<Rightarrow> string" where
  "computeBroadcastAddress gateway netmask =
     (let g = ipToInt gateway; m = ipToInt netmask in
      if g = 0 \<or> m = 0 then DEFAULT_broadcast
      else intToIp (uint ((word_of_int g AND word_of_int m) OR NOT (word_of_int m) :: u32)))"

section \<open>Vocabulary of the theorems\<close>

text \<open>The four octets of a word, the word of four octets, the dotted quad of a word, and the
  addresses of a pool.\<close>

definition octets :: "u32 \<Rightarrow> nat list" where
  "octets u = map (\<lambda>k. unat (drop_bit k u AND 255)) [24, 16, 8, 0]"

definition quad_word :: "u32 \<Rightarrow> u32 \<Rightarrow> u32 \<Rightarrow> u32 \<Rightarrow> u32" where
  "quad_word a b c d = push_bit 24 a OR push_bit 16 b OR push_bit 8 c OR d"

definition wordIp :: "u32 \<Rightarrow> string" where
  "wordIp w = intToIp (uint w)"

definition pool :: "string \<Rightarrow> string \<Rightarrow> string set" where
  "pool s e = {ip. isValidIpv4 ip \<and> isIpInPool ip s e}"

section \<open>Text of numbers\<close>

lemma split_dots_free: "CHR ''.'' \<notin> set w \<Longrightarrow> split_dots w = [w]"
  by (induction w) auto

lemma split_dots_append: "CHR ''.'' \<notin> set w \<Longrightarrow> split_dots (w @ CHR ''.'' # s) = w # split_dots s"
  by (induction w) auto

lemma split_join_dots:
  "ws \<noteq> [] \<Longrightarrow> list_all (\<lambda>w. CHR ''.'' \<notin> set w) ws \<Longrightarrow> split_dots (join_dots ws) = ws"
  by (induction ws rule: join_dots.induct) (simp_all add: split_dots_free split_dots_append)

lemma join_split_dots: "join_dots (split_dots s) = s"
proof (induction s)
  case (Cons ch s)
  have ne: "split_dots s \<noteq> []" by (cases s) (auto split: list.splits)
  then obtain w ws where ws: "split_dots s = w # ws" by (cases "split_dots s") auto
  have "join_dots (w # ws) = s" using Cons ws by simp
  then show ?case using ws by (cases ws) auto
qed simp

lemma digit_no_dot: "list_all is_digit w \<Longrightarrow> CHR ''.'' \<notin> set w"
  by (auto simp: list_all_iff is_digit_def)

lemma js_trim_digits:
  assumes "list_all is_digit w"
  shows "js_trim w = w"
proof -
  have d: "dropWhile is_space v = v" if "list_all is_digit v" for v
    using that digit_not_sign by (cases v) auto
  have "list_all is_digit (rev w)" using assms by simp
  with d [of w] d [of "rev w"] assms show ?thesis by (simp add: js_trim_def)
qed

lemma takeWhile_digits: "list_all is_digit w \<Longrightarrow> takeWhile is_digit w = w \<and> dropWhile is_digit w = []"
  by (induction w) auto

lemma js_Number_digits:
  assumes "list_all is_digit w" "w \<noteq> []"
  shows "js_Number w = Finite (of_nat (digits_value w))"
proof -
  obtain a v where w: "w = a # v" using assms(2) by (cases w) auto
  have a: "is_digit a" "list_all is_digit v" using assms w by auto
  have "lower_char b \<noteq> CHR ''x'' \<and> lower_char b \<noteq> CHR ''o'' \<and> lower_char b \<noteq> CHR ''b''" if "is_digit b" for b
    using that by (auto simp: is_digit_def lower_char_def)
  then have p: "map lower_char (take 2 w) \<notin> {''0x'', ''0o'', ''0b''}"
    using a w by (cases v) auto
  have i: "w \<noteq> ''Infinity''" using a w by (auto simp: is_digit_def)
  from digit_not_sign [OF a(1)] have s: "take 1 w \<noteq> ''-''" "take 1 w \<noteq> ''+''" by (auto simp: w)
  have tw: "takeWhile is_digit w = w" and dw: "dropWhile is_digit w = []"
    using takeWhile_digits [OF assms(1)] by blast+
  have dl: "decimal_literal w = Some (of_nat (digits_value w))"
    using assms(2) by (simp add: decimal_literal_def Let_def tw dw del: takeWhile_eq_all_conv dropWhile_eq_Nil_conv)
  show ?thesis
    using p i s assms by (simp add: js_Number_def js_trim_digits dl Let_def)
qed

lemma js_Number_show_nat: "js_Number (show_nat n) = Finite (of_nat n)"
  by (simp add: js_Number_digits show_nat_digits digits_value_show_nat)

lemma toUint32_nat: "toUint32 (Finite (of_nat n)) = word_of_nat n"
  by (simp add: toUint32_def rat_trunc_def)

lemma digits_value_Cons:
  "digits_value (c # ds) = (of_char c - 48) * 10 ^ length ds + digits_value ds"
proof (induction ds rule: rev_induct)
  case (snoc d ds)
  have "digits_value (c # ds @ [d]) = 10 * digits_value (c # ds) + (of_char d - 48)"
    using digits_value_snoc [of "c # ds" d] by simp
  with snoc show ?case by (simp add: digits_value_snoc algebra_simps)
qed (simp add: digits_value_def)

lemma digit_char_value: "is_digit c \<Longrightarrow> digit_char (of_char c - 48) = c"
  by (auto simp: is_digit_def digit_char_def)

lemma zero_digit: "of_char c = (48 :: nat) \<Longrightarrow> c = CHR ''0''"
proof -
  assume "of_char c = (48 :: nat)"
  moreover have "of_char (CHR ''0'') = (48 :: nat)" by simp
  ultimately show ?thesis by (metis of_char_eq_iff)
qed

lemma show_nat_digits_value:
  assumes "list_all is_digit w" "w \<noteq> []" "length w = 1 \<or> hd w \<noteq> CHR ''0''"
  shows "show_nat (digits_value w) = w"
  using assms
proof (induction w rule: rev_induct)
  case (snoc c ds)
  have c: "is_digit c" using snoc.prems(1) by simp
  then have v: "(of_char c :: nat) - 48 < 10" by (auto simp: is_digit_def)
  show ?case
  proof (cases "ds = []")
    case True
    with v c show ?thesis by (subst show_nat.simps) (simp add: digits_value_def digit_char_value)
  next
    case False
    with snoc.prems have h: "hd ds \<noteq> CHR ''0''" "list_all is_digit ds" by auto
    with snoc.IH False have ih: "show_nat (digits_value ds) = ds" by simp
    obtain e es where ds: "ds = e # es" using False by (cases ds) auto
    from h ds have "0 < (of_char e :: nat) - 48"
      using zero_digit [of e] by (fastforce simp: is_digit_def order_less_le)
    then have "0 < digits_value ds" by (simp add: ds digits_value_Cons)
    with v c ih show ?thesis
      by (subst show_nat.simps) (simp add: digits_value_snoc digit_char_value)
  qed
qed simp

section \<open>Words and dotted quads\<close>

lemma octet_eq: "drop_bit k u AND 255 = take_bit 8 (drop_bit k (u :: u32))"
  by (simp add: take_bit_eq_mask mask_eq_exp_minus_1)

lemma octet_le: "unat (drop_bit k (u :: u32) AND 255) \<le> 255"
proof -
  have "drop_bit k u AND 255 \<le> (255 :: u32)" by (rule word_and_le1)
  then show ?thesis by (simp add: word_le_nat_alt)
qed

lemma octets_join:
  "quad_word (take_bit 8 (drop_bit 24 u)) (take_bit 8 (drop_bit 16 u)) (take_bit 8 (drop_bit 8 u))
     (take_bit 8 (drop_bit 0 u)) = u"
proof (rule bit_word_eqI)
  fix n assume "n < LENGTH(32)"
  then have n: "n < 32" by simp
  consider "n < 8" | "8 \<le> n" "n < 16" | "16 \<le> n" "n < 24" | "24 \<le> n" by linarith
  then show "bit (quad_word (take_bit 8 (drop_bit 24 u)) (take_bit 8 (drop_bit 16 u))
      (take_bit 8 (drop_bit 8 u)) (take_bit 8 (drop_bit 0 u))) n = bit u n"
    using n by cases (auto simp: quad_word_def bit_simps)
qed

lemma intToIp_octets: "intToIp n = join_dots (map show_nat (octets (word_of_int n)))"
  by (simp add: intToIp_def octets_def Let_def)

lemma split_intToIp: "split_dots (intToIp n) = map show_nat (octets (word_of_int n))"
  unfolding intToIp_octets
  by (rule split_join_dots) (simp_all add: octets_def digit_no_dot show_nat_digits)

lemma number_octet: "toUint32 (js_Number (show_nat m)) = word_of_nat m"
  by (simp only: js_Number_show_nat toUint32_nat)

lemma word_of_unat: "word_of_nat (unat w) = w"
  by simp

lemma parts_intToIp:
  "map (\<lambda>p. toUint32 (js_Number p)) (split_dots (intToIp n))
    = map (\<lambda>k. take_bit 8 (drop_bit k (word_of_int n))) [24, 16, 8, 0]"
  by (simp only: split_intToIp octets_def map_map comp_def number_octet list.map word_of_unat octet_eq)

lemma octet_small: "\<not> (255 :: u32) < take_bit 8 (drop_bit k u)"
  using word_and_le1 [of "drop_bit k u" "255 :: u32"] by (simp only: not_less octet_eq)

lemma ipWord_parts:
  assumes "map (\<lambda>p. toUint32 (js_Number p)) (split_dots s) = [a, b, c, d]"
    "\<not> 255 < a" "\<not> 255 < b" "\<not> 255 < c" "\<not> 255 < d"
  shows "ipWord s = quad_word a b c d"
  using assms(2-5) unfolding ipWord_def Let_def assms(1) quad_word_def by simp

lemma ipWord_intToIp: "ipWord (intToIp n) = word_of_int n"
proof -
  have "ipWord (intToIp n) = quad_word (take_bit 8 (drop_bit 24 (word_of_int n)))
      (take_bit 8 (drop_bit 16 (word_of_int n))) (take_bit 8 (drop_bit 8 (word_of_int n)))
      (take_bit 8 (drop_bit 0 (word_of_int n)))"
    by (rule ipWord_parts [OF _ octet_small octet_small octet_small octet_small])
      (simp only: parts_intToIp list.map)
  then show ?thesis by (simp only: octets_join)
qed

lemma ipToInt_intToIp: "ipToInt (intToIp n) = sint (word_of_int n :: u32)"
  by (simp add: ipToInt_def ipWord_intToIp)

text \<open>The four octets of a valid address.\<close>

lemma octet_text_obtain:
  assumes "octet_text v"
  obtains n where "v = show_nat n" "n \<le> 255"
  using assms show_nat_digits_value [of v] that [of "digits_value v"] by (auto simp: octet_text_def)

lemma valid_parts:
  assumes "isValidIpv4 s"
  obtains a b c d where "split_dots s = map show_nat [a, b, c, d]"
    "a \<le> 255" "b \<le> 255" "c \<le> 255" "d \<le> 255"
proof -
  from assms obtain w x y z where p: "split_dots s = [w, x, y, z]"
    and v: "octet_text w" "octet_text x" "octet_text y" "octet_text z"
    by (auto simp: isValidIpv4_def numeral_eq_Suc length_Suc_conv)
  obtain a where a: "w = show_nat a" "a \<le> 255" using v(1) by (rule octet_text_obtain)
  obtain b where b: "x = show_nat b" "b \<le> 255" using v(2) by (rule octet_text_obtain)
  obtain c where c: "y = show_nat c" "c \<le> 255" using v(3) by (rule octet_text_obtain)
  obtain d where d: "z = show_nat d" "d \<le> 255" using v(4) by (rule octet_text_obtain)
  from p a b c d show ?thesis by (intro that [of a b c d]) simp_all
qed

lemma word_of_octet: "a \<le> 255 \<Longrightarrow> unat (word_of_nat a :: u32) = a"
  by (simp add: unat_of_nat take_bit_eq_mod)

lemma octet_bits:
  assumes "a \<le> 255"
  shows "take_bit 8 (word_of_nat a :: u32) = word_of_nat a"
proof -
  have "take_bit 8 a = a" using assms by (simp add: take_bit_eq_mod)
  then show ?thesis by (metis take_bit_of_nat)
qed

lemma quad_word_octets:
  assumes "take_bit 8 a = a" "take_bit 8 b = b" "take_bit 8 c = c" "take_bit 8 d = d"
  shows "take_bit 8 (drop_bit 24 (quad_word a b c d)) = a"
    "take_bit 8 (drop_bit 16 (quad_word a b c d)) = b"
    "take_bit 8 (drop_bit 8 (quad_word a b c d)) = c"
    "take_bit 8 (drop_bit 0 (quad_word a b c d)) = d"
proof -
  have "take_bit 8 (drop_bit 24 (quad_word (take_bit 8 a) (take_bit 8 b) (take_bit 8 c) (take_bit 8 d))) = take_bit 8 a"
    by (rule bit_word_eqI) (auto simp: quad_word_def bit_simps)
  then show "take_bit 8 (drop_bit 24 (quad_word a b c d)) = a" unfolding assms .
  have "take_bit 8 (drop_bit 16 (quad_word (take_bit 8 a) (take_bit 8 b) (take_bit 8 c) (take_bit 8 d))) = take_bit 8 b"
    by (rule bit_word_eqI) (auto simp: quad_word_def bit_simps)
  then show "take_bit 8 (drop_bit 16 (quad_word a b c d)) = b" unfolding assms .
  have "take_bit 8 (drop_bit 8 (quad_word (take_bit 8 a) (take_bit 8 b) (take_bit 8 c) (take_bit 8 d))) = take_bit 8 c"
    by (rule bit_word_eqI) (auto simp: quad_word_def bit_simps)
  then show "take_bit 8 (drop_bit 8 (quad_word a b c d)) = c" unfolding assms .
  have "take_bit 8 (drop_bit 0 (quad_word (take_bit 8 a) (take_bit 8 b) (take_bit 8 c) (take_bit 8 d))) = take_bit 8 d"
    by (rule bit_word_eqI) (auto simp: quad_word_def bit_simps)
  then show "take_bit 8 (drop_bit 0 (quad_word a b c d)) = d" unfolding assms .
qed

lemma valid_octets:
  assumes "isValidIpv4 s"
  shows "split_dots s = map show_nat (octets (ipWord s))"
proof -
  from valid_parts [OF assms] obtain a b c d where p: "split_dots s = map show_nat [a, b, c, d]"
    and le: "a \<le> 255" "b \<le> 255" "c \<le> 255" "d \<le> 255" .
  have small: "\<not> (255 :: u32) < word_of_nat n" if "n \<le> 255" for n
    using that by (simp add: word_less_nat_alt word_of_octet)
  have w: "ipWord s = quad_word (word_of_nat a) (word_of_nat b) (word_of_nat c) (word_of_nat d)"
    by (rule ipWord_parts [OF _ small [OF le(1)] small [OF le(2)] small [OF le(3)] small [OF le(4)]])
      (simp only: p list.map number_octet)
  have "octets (ipWord s) = [a, b, c, d]"
    using le unfolding w octets_def octet_eq list.map
      quad_word_octets [OF octet_bits [OF le(1)] octet_bits [OF le(2)] octet_bits [OF le(3)] octet_bits [OF le(4)]]
    by (simp only: word_of_octet)
  with p show ?thesis by simp
qed

lemma intToIp_valid: "isValidIpv4 s \<Longrightarrow> intToIp (ipToInt s) = s"
  using valid_octets [of s] join_split_dots [of s] by (simp add: intToIp_octets ipToInt_def)

lemma length_show_nat: "length (show_nat n) = (if n < 10 then 1 else Suc (length (show_nat (n div 10))))"
  by (subst show_nat.simps) simp

lemma hd_show_nat: "0 < n \<Longrightarrow> hd (show_nat n) \<noteq> CHR ''0''"
proof (induction n rule: show_nat.induct)
  case (1 n)
  have "digit_char n \<noteq> CHR ''0''" if "0 < n" "n < 10"
    using of_char_digit [OF that(2)] that(1) by auto
  with 1 show ?case by (subst show_nat.simps) (auto simp: hd_append)
qed

lemma octet_text_show_nat:
  assumes "m \<le> 255"
  shows "octet_text (show_nat m)"
proof -
  have d: "m div 10 div 10 < 10" using assms by linarith
  have len: "length (show_nat m) \<le> 3"
    using length_show_nat [of m] length_show_nat [of "m div 10"] length_show_nat [of "m div 10 div 10"] d
    by (auto split: if_splits)
  have "length (show_nat m) = 1 \<or> hd (show_nat m) \<noteq> CHR ''0''"
    using hd_show_nat [of m] length_show_nat [of m] by (cases "m = 0") auto
  with assms len show ?thesis by (simp add: octet_text_def show_nat_digits digits_value_show_nat)
qed

lemma isValid_intToIp: "isValidIpv4 (intToIp n)"
  by (simp add: isValidIpv4_def split_intToIp octets_def octet_text_show_nat octet_le del: drop_bit_0)

section \<open>Pools\<close>

lemma unat_u32_less: "unat (w :: u32) < 4294967296"
  using unsigned_less [of w, where ?'a = nat] by simp

lemma uint_u32: "0 \<le> uint (w :: u32)" "uint (w :: u32) < 4294967296"
  using unsigned_less [of w, where ?'a = int] by simp_all


lemma ipWord_wordIp [simp]: "ipWord (wordIp w) = w"
  by (simp add: wordIp_def ipWord_intToIp)

lemma valid_wordIp [simp]: "isValidIpv4 (wordIp w)"
  by (simp add: wordIp_def isValid_intToIp)

lemma wordIp_ipWord: "isValidIpv4 s \<Longrightarrow> wordIp (ipWord s) = s"
  using intToIp_valid [of s] by (simp add: wordIp_def intToIp_def ipToInt_def)

lemma wordIp_inj: "inj wordIp"
  by (rule inj_on_inverseI [of _ ipWord]) simp

lemma unsigned32_ipToInt [simp]: "unsigned32 (ipToInt s) = unat (ipWord s)"
  by (simp add: unsigned32_def ipToInt_def)

lemma isIpInPool_word:
  "isIpInPool ip s e \<longleftrightarrow> ipWord ip \<noteq> 0 \<and> ipWord s \<noteq> 0 \<and> ipWord e \<noteq> 0
     \<and> ipWord s \<le> ipWord ip \<and> ipWord ip \<le> ipWord e"
  by (auto simp: isIpInPool_def Let_def word_le_nat_alt unat_eq_zero)

lemma card_word_interval: "card {a .. b :: u32} = Suc (unat b) - unat a"
proof -
  have "unat ` {a .. b} = {unat a .. unat b}"
  proof (intro equalityI subsetI)
    fix n assume n: "n \<in> {unat a .. unat b}"
    then have "n < 4294967296" using unat_u32_less [of b] by simp
    then have u: "unat (word_of_nat n :: u32) = n" by (simp add: unat_of_nat take_bit_eq_mod)
    with n have "(word_of_nat n :: u32) \<in> {a .. b}" by (simp add: word_le_nat_alt)
    with u show "n \<in> unat ` {a .. b}" by (metis imageI)
  qed (auto simp: word_le_nat_alt)
  moreover have "card (unat ` {a .. b}) = card {a .. b}"
    by (rule card_image) (simp add: inj_on_def word_unat_eq_iff)
  ultimately show ?thesis by simp
qed

lemma card_pool:
  "card (pool s e) = (if ipWord s = 0 \<or> ipWord e = 0 then 0 else Suc (unat (ipWord e)) - unat (ipWord s))"
proof (cases "ipWord s = 0 \<or> ipWord e = 0")
  case True
  then have "pool s e = {}" by (auto simp: pool_def isIpInPool_word)
  with True show ?thesis by simp
next
  case False
  have "pool s e = wordIp ` {ipWord s .. ipWord e}"
  proof (intro equalityI subsetI)
    fix ip assume "ip \<in> pool s e"
    then show "ip \<in> wordIp ` {ipWord s .. ipWord e}"
      using wordIp_ipWord [of ip] by (intro image_eqI [of _ _ "ipWord ip"]) (auto simp: pool_def isIpInPool_word)
  next
    fix ip assume "ip \<in> wordIp ` {ipWord s .. ipWord e}"
    then obtain w where w: "ip = wordIp w" "ipWord s \<le> w" "w \<le> ipWord e" by auto
    moreover have "w \<noteq> 0" using w(2) False by auto
    ultimately show "ip \<in> pool s e" using False by (simp add: pool_def isIpInPool_word)
  qed
  moreover have "card (wordIp ` {ipWord s .. ipWord e}) = card {ipWord s .. ipWord e}"
    by (rule card_image) (rule inj_on_subset [OF wordIp_inj], simp)
  ultimately show ?thesis using False by (simp add: card_word_interval)
qed

lemma sint_ipWord_0 [simp]: "ipToInt s = 0 \<longleftrightarrow> ipWord s = 0"
  by (simp add: ipToInt_def signed_eq_0_iff)

text \<open>The signed reading is the unsigned one, less \<open>2 ^ 32\<close> in the upper half.\<close>

lemma sint_u32: "sint (w :: u32) = (if uint w < 2147483648 then uint w else uint w - 4294967296)"
proof -
  have "sint w = signed_take_bit 31 (uint w)" by (simp add: sint_uint)
  also have "\<dots> = (uint w + 2147483648) mod 4294967296 - 2147483648"
    by (simp add: signed_take_bit_eq_take_bit_shift take_bit_eq_mod)
  also have "\<dots> = (if uint w < 2147483648 then uint w else uint w - 4294967296)"
    using uint_u32 [of w] mod_pos_pos_trivial [of "uint w + 2147483648" 4294967296]
      mod_pos_pos_trivial [of "uint w - 2147483648" 4294967296]
      mod_add_self2 [of "uint w - 2147483648" 4294967296] by (auto simp: add.commute)
  finally show ?thesis .
qed

section \<open>Masks and broadcast\<close>

lemma and_suc_zero_nat:
  fixes x :: nat
  shows "x AND (x + 1) = 0 \<longleftrightarrow> (\<exists>k. x + 1 = 2 ^ k)"
proof (induction x rule: less_induct)
  case (less x)
  show ?case
  proof (cases "even x")
    case True
    then obtain y where y: "x = 2 * y" by (auto elim: evenE)
    have "x AND (x + 1) = x"
      by (simp add: y and_rec [of "2 * y"])
    moreover have "(\<exists>k. x + 1 = 2 ^ k) \<longleftrightarrow> x = 0"
    proof
      assume "\<exists>k. x + 1 = 2 ^ k"
      then obtain k where k: "x + 1 = 2 ^ k" ..
      from True have "odd (2 ^ k :: nat)" by (simp flip: k)
      then have "k = 0" by (cases k) auto
      with k show "x = 0" by simp
    qed (auto intro: exI [of _ 0])
    ultimately show ?thesis by simp
  next
    case False
    then obtain y where y: "x = 2 * y + 1" by (auto elim: oddE)
    have "(2 * y + 1) AND (2 * (y + 1)) = 2 * (y AND (y + 1))"
      by (subst and_rec) simp
    with y have "x AND (x + 1) = 2 * (y AND (y + 1))" by simp
    moreover have "(\<exists>k. x + 1 = 2 ^ k) \<longleftrightarrow> (\<exists>k. y + 1 = 2 ^ k)"
    proof
      assume "\<exists>k. x + 1 = 2 ^ k"
      then obtain k where k: "x + 1 = 2 ^ k" ..
      with y obtain j where "k = Suc j" by (cases k) auto
      with k y show "\<exists>k. y + 1 = 2 ^ k" by (intro exI [of _ j]) simp
    next
      assume "\<exists>k. y + 1 = 2 ^ k"
      then obtain k where "y + 1 = 2 ^ k" ..
      with y show "\<exists>k. x + 1 = 2 ^ k" by (intro exI [of _ "Suc k"]) simp
    qed
    moreover have "y < x" using y by simp
    ultimately show ?thesis using less [of y] by simp
  qed
qed

lemma and_suc_zero_word: "(x + 1) AND x = (0 :: u32) \<longleftrightarrow> (\<exists>k \<le> 32. x = mask k)"
proof (cases "x = - 1")
  case True
  have "mask 32 = (- 1 :: u32)" by (simp add: mask_eq_exp_minus_1)
  with True show ?thesis by (auto intro: exI [of _ 32])
next
  case False
  let ?n = "unat x"
  have "?n \<noteq> unat (- 1 :: u32)" using False by (simp only: word_unat_eq_iff not_False_eq_True)
  moreover have "unat (- 1 :: u32) = 4294967295"
    by (simp add: unsigned_minus_1_eq_mask mask_eq_exp_minus_1)
  ultimately have l: "?n + 1 < 2 ^ 32" using unat_u32_less [of x] by simp
  have s: "unat (x + 1) = ?n + 1" using l by (simp add: unat_word_ariths)
  have "(x + 1) AND x = 0 \<longleftrightarrow> unat ((x + 1) AND x) = 0" by (simp add: unat_eq_zero)
  also have "unat ((x + 1) AND x) = ?n AND (?n + 1)" by (simp add: unsigned_and_eq s and.commute)
  also have "\<dots> = 0 \<longleftrightarrow> (\<exists>k. ?n + 1 = 2 ^ k)" by (rule and_suc_zero_nat)
  also have "\<dots> \<longleftrightarrow> (\<exists>k \<le> 32. x = mask k)"
  proof
    assume "\<exists>k. ?n + 1 = 2 ^ k"
    then obtain k where k: "?n + 1 = 2 ^ k" ..
    with l have "(2 :: nat) ^ k < 2 ^ 32" by simp
    then have k32: "k < 32" by (rule power_less_imp_less_exp [rotated]) simp
    have "word_of_nat (?n + 1) = (2 :: u32) ^ k" unfolding k by simp
    then have "x = mask k" by (simp add: mask_eq_exp_minus_1 eq_diff_eq add.commute)
    with k32 show "\<exists>k \<le> 32. x = mask k" by (intro exI [of _ k]) simp
  next
    assume "\<exists>k \<le> 32. x = mask k"
    then obtain k where k: "k \<le> 32" "x = mask k" by blast
    with False have "k < 32" by (cases "k = 32") (auto simp: mask_eq_exp_minus_1)
    then have "unat (word_of_nat (mask k) :: u32) = mask k"
      using take_bit_of_mask [of 32 k, where ?'a = nat]
      by (simp add: unat_of_nat take_bit_eq_mod min_def)
    then have "unat x = mask k" by (simp add: k of_nat_mask_eq)
    then show "\<exists>k. ?n + 1 = 2 ^ k" by (intro exI [of _ k]) (simp add: mask_eq_exp_minus_1)
  qed
  finally show ?thesis .
qed

lemma mask_value:
  assumes "isValidIpv4 s"
  shows "foldl (\<lambda>acc part. push_bit 8 acc OR toUint32 (js_Number part)) 0 (split_dots s) = ipWord s"
proof -
  let ?o = "\<lambda>k. take_bit 8 (drop_bit k (ipWord s))"
  have p: "map (\<lambda>p. toUint32 (js_Number p)) (split_dots s) = [?o 24, ?o 16, ?o 8, ?o 0]"
    by (simp only: valid_octets [OF assms] octets_def map_map comp_def number_octet list.map word_of_unat octet_eq)
  have "foldl (\<lambda>acc part. push_bit 8 acc OR toUint32 (js_Number part)) 0 (split_dots s)
      = foldl (\<lambda>acc v. push_bit 8 acc OR v) 0 (map (\<lambda>p. toUint32 (js_Number p)) (split_dots s))"
    by (simp add: foldl_map)
  also have "\<dots> = quad_word (?o 24) (?o 16) (?o 8) (?o 0)"
    unfolding p quad_word_def by (simp add: push_bit_or ac_simps del: drop_bit_0)
  also have "\<dots> = ipWord s" by (rule octets_join)
  finally show ?thesis .
qed

lemma word_of_ipToInt: "word_of_int (ipToInt s) = ipWord s"
  by (simp add: ipToInt_def)

lemma broadcast_word:
  assumes "ipWord g \<noteq> 0" "ipWord m \<noteq> 0"
  shows "ipWord (computeBroadcastAddress g m) = (ipWord g AND ipWord m) OR NOT (ipWord m)"
  using assms by (simp add: computeBroadcastAddress_def Let_def word_of_ipToInt ipWord_intToIp)

section \<open>Order\<close>

lemma unat_octet: "unat (drop_bit k (u :: u32) AND 255) = unat u div 2 ^ k mod 256"
  unfolding octet_eq unsigned_take_bit_eq unsigned_drop_bit_eq
  by (simp add: take_bit_eq_mod drop_bit_eq_div mod_less [OF unat_u32_less])

lemma octet_sum:
  fixes a :: nat
  assumes "a < 4294967296"
  shows "a = 16777216 * (a div 2 ^ 24 mod 256) + 65536 * (a div 2 ^ 16 mod 256)
    + 256 * (a div 2 ^ 8 mod 256) + a div 2 ^ 0 mod 256"
proof -
  define b where "b = a div 256"
  define c where "c = b div 256"
  define d where "d = c div 256"
  have "a div 2 ^ 8 = b" "a div 2 ^ 16 = c" "a div 2 ^ 24 = d"
    by (simp_all add: b_def c_def d_def div_mult2_eq [symmetric])
  moreover have "a = 256 * b + a mod 256" "b = 256 * c + b mod 256" "c = 256 * d + c mod 256"
    by (simp_all add: b_def c_def d_def)
  moreover have "d < 256" using assms by (simp add: b_def c_def d_def div_mult2_eq [symmetric] less_mult_imp_div_less)
  ultimately show ?thesis by simp
qed

lemma compare_octets:
  fixes a b :: nat
  assumes "a < 4294967296" "b < 4294967296"
  defines "d k \<equiv> int (a div 2 ^ k mod 256) - int (b div 2 ^ k mod 256)"
  shows "sgn (if d 24 \<noteq> 0 then d 24 else if d 16 \<noteq> 0 then d 16 else if d 8 \<noteq> 0 then d 8 else d 0)
    = sgn (int a - int b)"
proof -
  define f where "f k = int (a div 2 ^ k mod 256)" for k
  define g where "g k = int (b div 2 ^ k mod 256)" for k
  have r: "0 \<le> f k" "f k \<le> 255" "0 \<le> g k" "g k \<le> 255" for k
    by (simp_all add: f_def g_def)
  have ea: "int a = 16777216 * f 24 + 65536 * f 16 + 256 * f 8 + f 0"
    unfolding f_def by (subst octet_sum [OF assms(1)]) (simp only: of_nat_add of_nat_mult of_nat_numeral)
  have eb: "int b = 16777216 * g 24 + 65536 * g 16 + 256 * g 8 + g 0"
    unfolding g_def by (subst octet_sum [OF assms(2)]) (simp only: of_nat_add of_nat_mult of_nat_numeral)
  have dk: "d k = f k - g k" for k by (simp add: d_def f_def g_def)
  show ?thesis
    unfolding ea eb dk using r [of 24] r [of 16] r [of 8] r [of 0] by (auto simp: sgn_if)
qed

lemma intToIp_nonempty: "intToIp n \<noteq> []"
proof
  assume "intToIp n = []"
  then have "split_dots (intToIp n) = [[]]" by simp
  then show False by (simp add: split_intToIp octets_def)
qed

theorem broadcast_greatest:
  assumes "ipWord g \<noteq> 0" "ipWord m \<noteq> 0"
  shows "ipWord (computeBroadcastAddress g m) AND ipWord m = ipWord g AND ipWord m"
    "w AND ipWord m = ipWord g AND ipWord m \<Longrightarrow> w \<le> ipWord (computeBroadcastAddress g m)"
proof -
  let ?m = "ipWord m" and ?g = "ipWord g"
  show "ipWord (computeBroadcastAddress g m) AND ?m = ?g AND ?m"
    unfolding broadcast_word [OF assms] by (rule bit_word_eqI) (auto simp: bit_simps)
  assume w: "w AND ?m = ?g AND ?m"
  have "(?g AND ?m) OR NOT ?m = w OR ((?g AND ?m) OR NOT ?m)"
    unfolding w [symmetric] by (rule bit_word_eqI) (auto simp: bit_simps)
  then show "w \<le> ipWord (computeBroadcastAddress g m)"
    unfolding broadcast_word [OF assms] by (metis le_word_or2 or.commute)
qed

section \<open>Properties\<close>

text \<open>
  Dotted quads and 32-bit integers: a string is accepted by the strict matcher exactly when
  converting it to an integer and back gives the string again, and every integer, taken modulo
  \<open>2 ^ 32\<close>, survives the conversion to a dotted quad and back, as a signed 32-bit number.
\<close>
theorem ip_round_trip:
  "(isValidIpv4 s \<longleftrightarrow> intToIp (ipToInt s) = s)
   \<and> ipToInt (intToIp n) = sint (word_of_int n :: u32)"
  using intToIp_valid [of s] isValid_intToIp [of "ipToInt s"] ipToInt_intToIp [of n] by auto

text \<open>
  The end address computed for a pool of a given number of addresses delimits a pool that
  holds exactly that many: as many valid addresses as asked for are accepted by the
  membership test.
\<close>
theorem range_end_counts:
  assumes "computeRangeEnd s (Finite q) = e" "e \<noteq> []"
  shows "of_nat (card (pool s e)) = q"
proof -
  let ?a = "unat (ipWord s)"
  let ?n = "int ?a + \<lfloor>q\<rfloor> - 1"
  from assms have a: "?a \<noteq> 0" and q: "of_int \<lfloor>q\<rfloor> = q" "1 \<le> q" and n: "?n \<le> 4294967295" and e: "e = intToIp ?n"
    by (auto simp: computeRangeEnd_def Let_def split: if_splits)
  have q1: "1 \<le> \<lfloor>q\<rfloor>" using q by (simp add: le_floor_iff)
  have u: "unat (ipWord e) = nat ?n"
  proof -
    have "?n mod 4294967296 = ?n" using n q1 by (intro mod_pos_pos_trivial) linarith+
    then have "uint (word_of_int ?n :: u32) = ?n"
      by (simp add: uint_word_of_int del: of_int_add of_int_diff)
    then show ?thesis by (simp only: e ipWord_intToIp nat_uint_eq [symmetric])
  qed
  have "0 < nat ?n" using a q1 by linarith
  with u have "ipWord e \<noteq> 0" by (metis less_irrefl unsigned_0)
  with a have "card (pool s e) = Suc (nat ?n) - ?a" by (auto simp: card_pool u)
  also have "\<dots> = nat \<lfloor>q\<rfloor>" using q1 by linarith
  finally show ?thesis using q q1 by (metis of_int_of_nat_eq order_trans zero_le_one int_nat_eq)
qed

theorem range_end_counts_witness:
  "of_nat (card (pool (intToIp 3232236042) (computeRangeEnd (intToIp 3232236042) (Finite 190)))) = (190 :: rat)"
proof (rule range_end_counts [OF refl])
  show "computeRangeEnd (intToIp 3232236042) (Finite 190) \<noteq> []"
    by (simp add: computeRangeEnd_def ipWord_intToIp intToIp_nonempty Let_def)
qed

text \<open>
  The pool size is the number of valid addresses the membership test accepts, when both
  bounds lie in the same half of the address space.
\<close>
theorem pool_size_counts:
  assumes "ipToInt s < 0 \<longleftrightarrow> ipToInt e < 0"
  shows "computePoolSize s e = int (card (pool s e))"
proof -
  have same: "ipToInt e - ipToInt s = uint (ipWord e) - uint (ipWord s)"
    using assms uint_u32 [of "ipWord s"] uint_u32 [of "ipWord e"] by (auto simp: ipToInt_def sint_u32 split: if_splits)
  define a b where "a = unat (ipWord s)" and "b = unat (ipWord e)"
  have ab: "ipToInt e - ipToInt s = int b - int a" by (simp add: same a_def b_def)
  show ?thesis
  proof (cases "ipWord s = 0 \<or> ipWord e = 0")
    case False
    then show ?thesis
      using ab unfolding computePoolSize_def Let_def card_pool a_def [symmetric] b_def [symmetric]
      by (simp add: of_nat_diff)
  qed (auto simp: computePoolSize_def card_pool)
qed

theorem pool_size_counts_witness:
  "computePoolSize (intToIp 3232236042) (intToIp 3232236231)
    = int (card (pool (intToIp 3232236042) (intToIp 3232236231)))"
  by (rule pool_size_counts) (simp add: ipToInt_intToIp)

text \<open>
  A pool that starts in the lower half of the address space and ends in the upper half has
  size 0 although its bounds, and all between, are in the pool: the size compares signed.
\<close>
theorem pool_size_straddle:
  assumes "0 < ipToInt s" "ipToInt e < 0"
  shows "computePoolSize s e = 0 \<and> isIpInPool s s e \<and> isIpInPool e s e"
proof -
  have "uint (ipWord s) < uint (ipWord e)"
    using assms uint_u32 [of "ipWord s"] by (auto simp: ipToInt_def sint_u32 split: if_splits)
  then have "ipWord s \<le> ipWord e" by (simp add: word_le_def)
  with assms show ?thesis by (auto simp: computePoolSize_def isIpInPool_word ipToInt_def)
qed

theorem pool_size_straddle_witness:
  "computePoolSize (intToIp 2147483392) (intToIp 2147483903) = 0
    \<and> isIpInPool (intToIp 2147483392) (intToIp 2147483392) (intToIp 2147483903)
    \<and> isIpInPool (intToIp 2147483903) (intToIp 2147483392) (intToIp 2147483903)"
  by (rule pool_size_straddle) (simp_all add: ipToInt_intToIp)

text \<open>An address with a component that is no number does not convert to 0.\<close>
theorem ipToInt_lenient: "ipToInt ''192.168.2.x'' = ipToInt ''192.168.2.0'' \<and> ipToInt ''192.168.2.x'' \<noteq> 0"
  by code_simp

text \<open>
  A valid mask is accepted exactly when it is a prefix mask: all ones above some bit
  position, all zeros below it.
\<close>
theorem contiguous_mask:
  assumes "isValidIpv4 s"
  shows "isContiguousMask s \<longleftrightarrow> (\<exists>k \<le> 32. ipWord s = NOT (mask k))"
proof -
  have "isContiguousMask s \<longleftrightarrow> (\<exists>k \<le> 32. NOT (ipWord s) = mask k)"
    by (simp add: isContiguousMask_def Let_def mask_value [OF assms] and_suc_zero_word)
  also have "\<dots> \<longleftrightarrow> (\<exists>k \<le> 32. ipWord s = NOT (mask k))"
    by (metis bit.double_compl)
  finally show ?thesis .
qed

theorem contiguous_mask_witness:
  "isContiguousMask (intToIp 4294967040) \<longleftrightarrow> (\<exists>k \<le> 32. ipWord (intToIp 4294967040) = NOT (mask k))"
  by (rule contiguous_mask [OF isValid_intToIp])

text \<open>
  Comparing two valid addresses has the sign of the difference of the addresses as
  unsigned 32-bit numbers.
\<close>
theorem compareIpv4_orders:
  assumes "isValidIpv4 s" "isValidIpv4 t"
  shows "\<exists>q. compareIpv4 s t = Finite q \<and> sgn q = of_int (sgn (uint (ipWord s) - uint (ipWord t)))"
proof -
  define a b where "a = unat (ipWord s)" and "b = unat (ipWord t)"
  have ab: "int a = uint (ipWord s)" "int b = uint (ipWord t)" by (simp_all add: a_def b_def)
  have o: "map js_Number (split_dots x) = map (\<lambda>k. Finite (of_nat (unat (ipWord x) div 2 ^ k mod 256))) [24, 16, 8, 0]"
    if "isValidIpv4 x" for x
    by (simp only: valid_octets [OF that] octets_def map_map comp_def js_Number_show_nat list.map unat_octet)
  let ?d = "\<lambda>k. int (a div 2 ^ k mod 256) - int (b div 2 ^ k mod 256)"
  let ?D = "if ?d 24 \<noteq> 0 then ?d 24 else if ?d 16 \<noteq> 0 then ?d 16 else if ?d 8 \<noteq> 0 then ?d 8 else ?d 0"
  have c: "compareIpv4 s t = Finite (of_int ?D)"
    unfolding compareIpv4_def o [OF assms(1)] o [OF assms(2)] a_def [symmetric] b_def [symmetric]
    by (simp add: part_at_def)
  have "sgn ?D = sgn (int a - int b)"
    by (rule compare_octets) (simp_all add: a_def b_def unat_u32_less)
  moreover have "sgn (of_int k :: rat) = of_int (sgn k)" for k by (simp add: sgn_if)
  ultimately have "sgn (of_int ?D :: rat) = of_int (sgn (int a - int b))" by (simp only:)
  then have "sgn (of_int ?D :: rat) = of_int (sgn (uint (ipWord s) - uint (ipWord t)))"
    by (simp only: ab)
  with c show ?thesis by blast
qed

theorem compareIpv4_orders_witness:
  "\<exists>q. compareIpv4 (intToIp 5) (intToIp 4294967295) = Finite q
    \<and> sgn q = of_int (sgn (uint (ipWord (intToIp 5)) - uint (ipWord (intToIp 4294967295))))"
  by (rule compareIpv4_orders [OF isValid_intToIp isValid_intToIp])

end
