(* ===== verification/Dhcp_Lease.thy ===== *)
theory Dhcp_Lease
  imports Dhcp_Network "HOL-Library.AList"
begin

text \<open>
  Leases of the DHCP server and the file they are mirrored to:
  \<open>src/src/services/networkServers/dhcp/engine/dhcpLeaseUtils.ts\<close> and
  \<open>dhcpLeasePersistence.ts\<close>. The state of the \<open>dhcp\<close> package is an object from MAC keys to
  entries; objects are association lists in insertion order (\<open>AList.update\<close> is assignment
  to a key), for keys that are not array indices, as no MAC spelling is one. Times are
  rational numbers of milliseconds; strings are ASCII. The text of the lease file is
  represented by what \<open>JSON.parse\<close> makes of it, which is what \<open>JSON.stringify\<close> was given.
\<close>

section \<open>Lease records\<close>

datatype lease_type = LDynamic | LStatic | LRenewed | LInform

text \<open>\<open>remainingSec\<close> is \<open>None\<close> where a file held no number: it is not validated and not read.
  \<open>clientId\<close> is \<open>None\<close> when absent and \<open>Some None\<close> when it is \<open>null\<close>.\<close>

record lease_info =
  lease_mac :: string
  lease_ip :: string
  boundAt :: rat
  leaseSec :: rat
  expiresAt :: rat
  remainingSec :: "rat option"
  lease_hostname :: "string option"
  leaseType :: lease_type
  lease_clientId :: "string option option"

text \<open>An entry of the state of the package (\<open>LeaseState\<close>). The package documents the fields it
  sets; \<open>options.hostname\<close> is the only option read.\<close>

record lease_state =
  bindTime :: "rat option"
  leasePeriod :: "rat option"
  renewPeriod :: rat
  rebindPeriod :: rat
  ls_state :: string
  ls_server :: string
  ls_address :: string
  ls_hostname :: "string option"
  ls_clientId :: "string option option"
  ls_tries :: nat
  ls_xid :: nat

type_synonym lib_state = "(string, lease_state) js_object"
type_synonym static_map = "(string, string) js_object"

section \<open>MAC keys\<close>

definition upper_char :: "char \<Rightarrow> char" where
  "upper_char c = (if 97 \<le> (of_char c :: nat) \<and> (of_char c :: nat) \<le> 122
                   then char_of (of_char c - 32 :: nat) else c)"

definition toUpperCase :: "string \<Rightarrow> string" where
  "toUpperCase s = map upper_char s"

definition is_hex :: "char \<Rightarrow> bool" where
  "is_hex c \<longleftrightarrow> hex_value c \<noteq> None"

definition hex_digits :: "string \<Rightarrow> string" where
  "hex_digits mac = toUpperCase (filter is_hex mac)"

text \<open>\<open>(s.match(/../g) ?? []).join('-')\<close>: a single character left over is dropped.\<close>

fun dashed_pairs :: "string \<Rightarrow> string" where
  "dashed_pairs (a # b # c # d # s) = a # b # CHR ''-'' # dashed_pairs (c # d # s)"
| "dashed_pairs (a # b # s) = [a, b]"
| "dashed_pairs _ = []"

definition toLibraryMacKey :: "string \<Rightarrow> string" where
  "toLibraryMacKey mac =
     (let hex = hex_digits mac
      in if length hex \<noteq> 12 then toUpperCase (js_trim mac) else dashed_pairs hex)"

definition normalizeStaticMap :: "static_map \<Rightarrow> static_map" where
  "normalizeStaticMap staticMap =
     foldl (\<lambda>normalized (mac, ip). AList.update (toLibraryMacKey mac) ip normalized) [] staticMap"

text \<open>The loop shared by \<open>isStaticLease\<close> and \<open>_staticAddressForMac\<close>: the first entry whose key
  is the given one decides.\<close>

fun first_static :: "string \<Rightarrow> static_map \<Rightarrow> string option" where
  "first_static key [] = None"
| "first_static key ((candidate, ip) # rest) =
     (if toLibraryMacKey candidate = key then Some ip else first_static key rest)"

definition isStaticLease :: "string \<Rightarrow> string \<Rightarrow> static_map \<Rightarrow> bool" where
  "isStaticLease mac ip staticMap \<longleftrightarrow> first_static (toLibraryMacKey mac) staticMap = Some ip"

definition buildLeaseInfo ::
  "string \<Rightarrow> lease_state \<Rightarrow> static_map \<Rightarrow> rat \<Rightarrow> rat \<Rightarrow> lease_type option \<Rightarrow> lease_info option" where
  "buildLeaseInfo mac entry staticMap now defaultLeaseSec typeOverride =
     (if ls_address entry = [] then None
      else
        (let bound = or_default (bindTime entry) now;
             secs = or_default (leasePeriod entry) defaultLeaseSec;
             expires = bound + secs * 1000
         in Some \<lparr>lease_mac = mac, lease_ip = ls_address entry, boundAt = bound, leaseSec = secs,
               expiresAt = expires,
               remainingSec = Some (max 0 (of_int \<lfloor>(expires - now) / 1000\<rfloor>)),
               lease_hostname = (case ls_hostname entry of
                   Some h \<Rightarrow> if h = [] then None else Some h | None \<Rightarrow> None),
               leaseType = or_default typeOverride
                   (if isStaticLease mac (ls_address entry) staticMap then LStatic else LDynamic),
               lease_clientId = ls_clientId entry\<rparr>))"

section \<open>The lease file\<close>

datatype json = JNull | JBool bool | JNumber rat | JString string | JArray "json list"
  | JObject "(string \<times> json) list"

text \<open>What reading and parsing a file gives: it cannot be read, its text is not JSON, or a value.\<close>

datatype stored_file = Unreadable | NotJson | Parsed json

definition LEASE_STORE_VERSION :: rat where "LEASE_STORE_VERSION = 1"
definition LEASE_PERSIST_DEBOUNCE_MS :: nat where "LEASE_PERSIST_DEBOUNCE_MS = 500"

fun lease_type_name :: "lease_type \<Rightarrow> string" where
  "lease_type_name LDynamic = ''dynamic''"
| "lease_type_name LStatic = ''static''"
| "lease_type_name LRenewed = ''renewed''"
| "lease_type_name LInform = ''inform''"

definition LEASE_TYPES :: "lease_type list" where
  "LEASE_TYPES = [LDynamic, LStatic, LRenewed, LInform]"

definition lease_type_of :: "string \<Rightarrow> lease_type option" where
  "lease_type_of s = find (\<lambda>t. lease_type_name t = s) LEASE_TYPES"

text \<open>A property of a parsed value; \<open>None\<close> is \<open>undefined\<close>. Only objects have the properties
  asked for.\<close>

fun json_get :: "json \<Rightarrow> string \<Rightarrow> json option" where
  "json_get (JObject kvs) k = map_of kvs k"
| "json_get _ k = None"

fun nonempty_string :: "json option \<Rightarrow> bool" where
  "nonempty_string (Some (JString s)) \<longleftrightarrow> s \<noteq> []"
| "nonempty_string _ \<longleftrightarrow> False"

fun is_number :: "json option \<Rightarrow> bool" where
  "is_number (Some (JNumber q)) \<longleftrightarrow> True"
| "is_number _ \<longleftrightarrow> False"

fun null_or_string :: "json option \<Rightarrow> bool" where
  "null_or_string (Some JNull) \<longleftrightarrow> True"
| "null_or_string (Some (JString s)) \<longleftrightarrow> True"
| "null_or_string _ \<longleftrightarrow> False"

fun known_type :: "json option \<Rightarrow> bool" where
  "known_type (Some (JString s)) \<longleftrightarrow> lease_type_of s \<noteq> None"
| "known_type _ \<longleftrightarrow> False"

definition isLeaseRecord :: "json \<Rightarrow> bool" where
  "isLeaseRecord v \<longleftrightarrow>
     nonempty_string (json_get v ''mac'') \<and> nonempty_string (json_get v ''ip'')
     \<and> is_number (json_get v ''boundAt'') \<and> is_number (json_get v ''leaseSec'')
     \<and> is_number (json_get v ''expiresAt'') \<and> null_or_string (json_get v ''hostname'')
     \<and> known_type (json_get v ''leaseType'')
     \<and> (json_get v ''clientId'' = None \<or> null_or_string (json_get v ''clientId''))"

text \<open>The value read as a record, for values that passed the check.\<close>

fun json_string :: "json option \<Rightarrow> string" where
  "json_string (Some (JString s)) = s"
| "json_string _ = []"

fun json_number :: "json option \<Rightarrow> rat" where
  "json_number (Some (JNumber q)) = q"
| "json_number _ = 0"

fun json_nullable :: "json option \<Rightarrow> string option" where
  "json_nullable (Some (JString s)) = Some s"
| "json_nullable _ = None"

definition as_lease :: "json \<Rightarrow> lease_info" where
  "as_lease v =
     \<lparr>lease_mac = json_string (json_get v ''mac''), lease_ip = json_string (json_get v ''ip''),
      boundAt = json_number (json_get v ''boundAt''),
      leaseSec = json_number (json_get v ''leaseSec''),
      expiresAt = json_number (json_get v ''expiresAt''),
      remainingSec = (if is_number (json_get v ''remainingSec'')
                      then Some (json_number (json_get v ''remainingSec'')) else None),
      lease_hostname = json_nullable (json_get v ''hostname''),
      leaseType = or_default (lease_type_of (json_string (json_get v ''leaseType''))) LDynamic,
      lease_clientId = map_option (\<lambda>j. json_nullable (Some j)) (json_get v ''clientId'')\<rparr>"

definition loadLeases :: "stored_file \<Rightarrow> lease_info list" where
  "loadLeases file =
     (case file of
        Unreadable \<Rightarrow> []
      | NotJson \<Rightarrow> []
      | Parsed v \<Rightarrow>
          if json_get v ''version'' \<noteq> Some (JNumber LEASE_STORE_VERSION) then []
          else case json_get v ''leases'' of
                 Some (JArray ls) \<Rightarrow> map as_lease (filter isLeaseRecord ls)
               | _ \<Rightarrow> [])"

fun nullable_json :: "string option \<Rightarrow> json" where
  "nullable_json None = JNull"
| "nullable_json (Some s) = JString s"

definition lease_json :: "lease_info \<Rightarrow> json" where
  "lease_json l = JObject
     ([(''mac'', JString (lease_mac l)), (''ip'', JString (lease_ip l)),
       (''boundAt'', JNumber (boundAt l)), (''leaseSec'', JNumber (leaseSec l)),
       (''expiresAt'', JNumber (expiresAt l))]
      @ (case remainingSec l of None \<Rightarrow> [] | Some q \<Rightarrow> [(''remainingSec'', JNumber q)])
      @ [(''hostname'', nullable_json (lease_hostname l)),
         (''leaseType'', JString (lease_type_name (leaseType l)))]
      @ (case lease_clientId l of None \<Rightarrow> [] | Some c \<Rightarrow> [(''clientId'', nullable_json c)]))"

definition lease_payload :: "rat \<Rightarrow> lease_info list \<Rightarrow> json" where
  "lease_payload now leases = JObject
     [(''version'', JNumber LEASE_STORE_VERSION), (''savedAt'', JNumber now),
      (''leases'', JArray (map lease_json leases))]"

text \<open>
  \<open>saveLeases\<close> runs in steps with an await after each; a crash may fall between any two. The
  disk maps paths to contents. The result is the list of disks after each step, and whether
  the promise resolves. The outcome of each file operation is given by the environment; a
  failed or interrupted write leaves some content \<open>junk\<close>, or nothing, in the temporary file.
\<close>

type_synonym disk = "string \<Rightarrow> stored_file option"

record save_faults =
  mkdir_ok :: bool
  write_ok :: bool
  rename_ok :: bool
  rm_ok :: bool
  junk :: "stored_file option"

definition temp_path :: "string \<Rightarrow> nat \<Rightarrow> string" where
  "temp_path filePath pid = filePath @ ''.'' @ show_nat pid @ ''.tmp''"

definition saveLeases ::
  "save_faults \<Rightarrow> string \<Rightarrow> nat \<Rightarrow> rat \<Rightarrow> lease_info list \<Rightarrow> disk \<Rightarrow> disk list \<times> bool" where
  "saveLeases fl filePath pid now leases d =
     (let temp = temp_path filePath pid;
          payload = Parsed (lease_payload now leases);
          d1 = d(temp := junk fl);
          d2 = d(temp \<mapsto> payload)
      in if \<not> mkdir_ok fl then ([d], False)
         else if \<not> write_ok fl then ([d, d1], False)
         else if rename_ok fl then ([d, d1, d2, d2(temp := None, filePath \<mapsto> payload)], True)
         else if rm_ok fl then ([d, d1, d2, d2(temp := None)], False)
         else ([d, d1, d2, d2], False))"

section \<open>Reconciliation with the configuration\<close>

datatype drop_reason = Expired | StaticConflict | OutOfPool

record reconcile_context =
  ctx_staticMap :: static_map
  ctx_rangeStart :: string
  ctx_rangeEnd :: string
  ctx_now :: rat

fun reconcile_loop ::
  "reconcile_context \<Rightarrow> static_map \<Rightarrow> string set \<Rightarrow> lease_info list
    \<Rightarrow> lease_info list \<Rightarrow> (lease_info \<times> drop_reason) list
    \<Rightarrow> lease_info list \<times> (lease_info \<times> drop_reason) list" where
  "reconcile_loop ctx staticMap reserved [] restored dropped = (restored, dropped)"
| "reconcile_loop ctx staticMap reserved (lease # leases) restored dropped =
     (if expiresAt lease \<le> ctx_now ctx
      then reconcile_loop ctx staticMap reserved leases restored (dropped @ [(lease, Expired)])
      else case map_of staticMap (toLibraryMacKey (lease_mac lease)) of
        Some reservedForMac \<Rightarrow>
          if reservedForMac = lease_ip lease
          then reconcile_loop ctx staticMap reserved leases
                 (restored @ [lease\<lparr>leaseType := LStatic\<rparr>]) dropped
          else reconcile_loop ctx staticMap reserved leases restored
                 (dropped @ [(lease, StaticConflict)])
      | None \<Rightarrow>
          if lease_ip lease \<in> reserved
          then reconcile_loop ctx staticMap reserved leases restored
                 (dropped @ [(lease, StaticConflict)])
          else if \<not> isIpInPool (lease_ip lease) (ctx_rangeStart ctx) (ctx_rangeEnd ctx)
          then reconcile_loop ctx staticMap reserved leases restored
                 (dropped @ [(lease, OutOfPool)])
          else reconcile_loop ctx staticMap reserved leases
                 (restored @ [lease\<lparr>leaseType := LDynamic\<rparr>]) dropped)"

definition reconcilePersistedLeases ::
  "lease_info list \<Rightarrow> reconcile_context \<Rightarrow> lease_info list \<times> (lease_info \<times> drop_reason) list" where
  "reconcilePersistedLeases leases ctx =
     reconcile_loop ctx (normalizeStaticMap (ctx_staticMap ctx)) (snd ` set (ctx_staticMap ctx))
       leases [] []"

definition toRestoredLeaseState :: "lease_info \<Rightarrow> string \<Rightarrow> lease_state" where
  "toRestoredLeaseState l serverId =
     \<lparr>bindTime = Some (boundAt l), leasePeriod = Some (leaseSec l),
      renewPeriod = of_int \<lfloor>leaseSec l / 2\<rfloor>, rebindPeriod = leaseSec l, ls_state = ''BOUND'',
      ls_server = serverId, ls_address = lease_ip l,
      ls_hostname = (case lease_hostname l of
          Some h \<Rightarrow> if h = [] then None else Some h | None \<Rightarrow> None),
      ls_clientId = lease_clientId l, ls_tries = 0, ls_xid = 1\<rparr>"

definition RESERVED_LEASE_STATE :: string where "RESERVED_LEASE_STATE = ''RESERVED''"

definition toReservedLeaseState :: "string \<Rightarrow> string \<Rightarrow> rat \<Rightarrow> lease_state" where
  "toReservedLeaseState ip serverId secs =
     \<lparr>bindTime = None, leasePeriod = Some secs, renewPeriod = of_int \<lfloor>secs / 2\<rfloor>,
      rebindPeriod = secs, ls_state = RESERVED_LEASE_STATE, ls_server = serverId,
      ls_address = ip, ls_hostname = None, ls_clientId = None, ls_tries = 0, ls_xid = 1\<rparr>"

section \<open>The debounced writer\<close>

text \<open>
  \<open>createDhcpLeaseStore\<close>: the timer of the window, the snapshots chained on \<open>inFlight\<close> (the first
  is being written, the others wait for it) and \<open>disposed\<close>. The snapshot is an argument of the
  operations that take one.
\<close>

record lease_store =
  store_timer :: bool
  inFlight :: "lease_info list list"
  store_disposed :: bool

definition createDhcpLeaseStore :: lease_store where
  "createDhcpLeaseStore = \<lparr>store_timer = False, inFlight = [], store_disposed = False\<rparr>"

definition writeNow :: "lease_info list \<Rightarrow> lease_store \<Rightarrow> lease_store" where
  "writeNow snapshot s = s\<lparr>inFlight := inFlight s @ [snapshot]\<rparr>"

definition store_schedule :: "lease_store \<Rightarrow> lease_store" where
  "store_schedule s = (if store_disposed s then s else s\<lparr>store_timer := True\<rparr>)"

definition store_fire :: "lease_info list \<Rightarrow> lease_store \<Rightarrow> lease_store" where
  "store_fire snapshot s =
     (if store_timer s then writeNow snapshot (s\<lparr>store_timer := False\<rparr>) else s)"

definition store_flush :: "lease_info list \<Rightarrow> lease_store \<Rightarrow> lease_store" where
  "store_flush snapshot s =
     (if store_timer s then writeNow snapshot (s\<lparr>store_timer := False\<rparr>) else s)"

definition store_dispose :: "lease_store \<Rightarrow> lease_store" where
  "store_dispose s = s\<lparr>store_disposed := True, store_timer := False\<rparr>"

definition store_write_settled :: "lease_store \<Rightarrow> lease_store" where
  "store_write_settled s = s\<lparr>inFlight := tl (inFlight s)\<rparr>"

text \<open>The writer beside the table it mirrors and the content on disk. Every change of the table
  schedules a write, as the engine does; writes settle in order, and may fail.\<close>

record mirror =
  mirror_table :: "lease_info list"
  mirror_store :: lease_store
  mirror_disk :: "lease_info list option"
  mirror_failed :: bool

definition mirror_change :: "lease_info list \<Rightarrow> mirror \<Rightarrow> mirror" where
  "mirror_change t m = m\<lparr>mirror_table := t, mirror_store := store_schedule (mirror_store m)\<rparr>"

definition mirror_fire :: "mirror \<Rightarrow> mirror" where
  "mirror_fire m = m\<lparr>mirror_store := store_fire (mirror_table m) (mirror_store m)\<rparr>"

definition mirror_flush :: "mirror \<Rightarrow> mirror" where
  "mirror_flush m = m\<lparr>mirror_store := store_flush (mirror_table m) (mirror_store m)\<rparr>"

definition mirror_dispose :: "mirror \<Rightarrow> mirror" where
  "mirror_dispose m = m\<lparr>mirror_store := store_dispose (mirror_store m)\<rparr>"

definition mirror_settle :: "bool \<Rightarrow> mirror \<Rightarrow> mirror" where
  "mirror_settle ok m =
     (case inFlight (mirror_store m) of
        [] \<Rightarrow> m
      | w # _ \<Rightarrow> m\<lparr>mirror_store := store_write_settled (mirror_store m),
                   mirror_disk := (if ok then Some w else mirror_disk m), mirror_failed := \<not> ok\<rparr>)"

fun mirror_drain :: "nat \<Rightarrow> mirror \<Rightarrow> mirror" where
  "mirror_drain 0 m = m"
| "mirror_drain (Suc n) m = mirror_drain n (mirror_settle True m)"

inductive mirror_step :: "mirror \<Rightarrow> mirror \<Rightarrow> bool" where
  step_change: "mirror_step m (mirror_change t m)"
| step_fire: "store_timer (mirror_store m) \<Longrightarrow> mirror_step m (mirror_fire m)"
| step_flush: "mirror_step m (mirror_flush m)"
| step_dispose: "mirror_step m (mirror_dispose m)"
| step_settle: "inFlight (mirror_store m) \<noteq> [] \<Longrightarrow> mirror_step m (mirror_settle ok m)"

definition mirror_start :: "lease_info list \<Rightarrow> mirror" where
  "mirror_start t = \<lparr>mirror_table = t, mirror_store = createDhcpLeaseStore, mirror_disk = None,
     mirror_failed = False\<rparr>"

inductive_cases mirror_stepE: "mirror_step m n"

lemmas mirror_defs = mirror_change_def mirror_fire_def mirror_flush_def mirror_settle_def
  mirror_dispose_def store_schedule_def store_fire_def store_flush_def store_dispose_def
  writeNow_def store_write_settled_def

section \<open>Keys\<close>

lemma of_char_upper:
  "(of_char (upper_char c) :: nat)
    = (if 97 \<le> (of_char c :: nat) \<and> (of_char c :: nat) \<le> 122 then of_char c - 32 else of_char c)"
  unfolding upper_char_def by (auto intro!: mod_less)

lemma is_hex_iff:
  "is_hex c \<longleftrightarrow> (let n = of_char c :: nat in 48 \<le> n \<and> n \<le> 57 \<or> 65 \<le> n \<and> n \<le> 70 \<or> 97 \<le> n \<and> n \<le> 102)"
  by (auto simp: is_hex_def hex_value_def Let_def)

lemma hex_upper [simp]: "is_hex (upper_char c) = is_hex c"
  by (auto simp: is_hex_iff of_char_upper Let_def)

lemma upper_idem: "upper_char (upper_char c) = upper_char c"
  by (auto simp: upper_char_def)

lemma filter_upper: "filter is_hex (toUpperCase (filter is_hex s)) = toUpperCase (filter is_hex s)"
  by (induction s) (auto simp: toUpperCase_def hex_upper)

lemma dashed_pairs_hex: "even (length s) \<Longrightarrow> list_all is_hex s \<Longrightarrow> filter is_hex (dashed_pairs s) = s"
  by (induction s rule: dashed_pairs.induct) (auto simp: is_hex_def hex_value_def)

lemma list_all_hex_digits: "list_all is_hex (hex_digits m)"
  by (induction m) (auto simp: hex_digits_def toUpperCase_def hex_upper)

lemma upper_hex_digits: "toUpperCase (hex_digits m) = hex_digits m"
  by (simp add: hex_digits_def toUpperCase_def upper_idem)

lemma hex_digits_key: "length (hex_digits m) = 12 \<Longrightarrow> hex_digits (toLibraryMacKey m) = hex_digits m"
  by (simp add: toLibraryMacKey_def hex_digits_def [of "dashed_pairs _"] dashed_pairs_hex list_all_hex_digits
      upper_hex_digits)

lemma space_upper: "is_space (upper_char c) = is_space c"
  by (auto simp: is_space_def upper_char_def)

lemma dropWhile_upper: "dropWhile is_space (map upper_char s) = map upper_char (dropWhile is_space s)"
  by (induction s) (auto simp: space_upper)

lemma js_trim_upper: "js_trim (toUpperCase s) = toUpperCase (js_trim s)"
  by (simp add: js_trim_def toUpperCase_def dropWhile_upper rev_map)

lemma dropWhile_idem: "dropWhile P (dropWhile P s) = dropWhile P s"
  by (induction s) auto

lemma js_trim_idem: "js_trim (js_trim s) = js_trim s"
proof -
  have *: "dropWhile is_space (rev (dropWhile is_space (rev t))) = rev (dropWhile is_space (rev t))"
    if "dropWhile is_space t = t" for t
  proof (cases "rev (dropWhile is_space (rev t))")
    case (Cons a u)
    obtain v where "rev t = v @ dropWhile is_space (rev t)"
      by (metis takeWhile_dropWhile_id)
    then have "t = rev (dropWhile is_space (rev t)) @ rev v" by (metis rev_append rev_rev_ident)
    with Cons obtain w where "t = a # w" by (metis append_Cons)
    with that have "\<not> is_space a" by (metis hd_dropWhile list.distinct(1) list.sel(1))
    with Cons show ?thesis by simp
  next
    case Nil
    show ?thesis unfolding Nil by simp
  qed
  show ?thesis
    unfolding js_trim_def by (simp add: * dropWhile_idem)
qed

lemma hex_not_space: "is_hex c \<Longrightarrow> \<not> is_space c"
  by (auto simp: is_hex_def hex_value_def is_space_def Let_def)

lemma filter_hex_dropWhile: "filter is_hex (dropWhile is_space s) = filter is_hex s"
  by (induction s) (auto simp: hex_not_space)

lemma filter_hex_trim: "filter is_hex (js_trim s) = filter is_hex s"
  by (simp add: js_trim_def filter_hex_dropWhile flip: rev_filter)

lemma filter_hex_upper: "filter is_hex (toUpperCase s) = toUpperCase (filter is_hex s)"
  by (induction s) (auto simp: toUpperCase_def)

lemma key_idem: "toLibraryMacKey (toLibraryMacKey m) = toLibraryMacKey m"
proof (cases "length (hex_digits m) = 12")
  case True
  have "toLibraryMacKey (toLibraryMacKey m) = dashed_pairs (hex_digits (toLibraryMacKey m))"
    unfolding toLibraryMacKey_def [of "toLibraryMacKey m"] hex_digits_key [OF True] using True by simp
  then show ?thesis
    unfolding hex_digits_key [OF True] using True by (simp add: toLibraryMacKey_def)
next
  case False
  then have k: "toLibraryMacKey m = toUpperCase (js_trim m)" by (simp add: toLibraryMacKey_def)
  have "hex_digits (toUpperCase (js_trim m)) = hex_digits m"
    by (simp add: hex_digits_def filter_hex_upper filter_hex_trim)
      (simp add: toUpperCase_def upper_idem)
  with False show ?thesis
    unfolding k toLibraryMacKey_def [of "toUpperCase (js_trim m)"]
    by (simp add: js_trim_upper js_trim_idem) (simp add: toUpperCase_def upper_idem)
qed

lemma key_eq_iff:
  assumes "length (hex_digits a) = 12" "length (hex_digits b) = 12"
  shows "toLibraryMacKey a = toLibraryMacKey b \<longleftrightarrow> hex_digits a = hex_digits b"
  using hex_digits_key [OF assms(1)] hex_digits_key [OF assms(2)] assms
  by (metis toLibraryMacKey_def)

section \<open>Reconciliation\<close>

definition keeps_lease :: "reconcile_context \<Rightarrow> lease_info \<Rightarrow> bool" where
  "keeps_lease ctx l \<longleftrightarrow> ctx_now ctx < expiresAt l \<and>
     (case map_of (normalizeStaticMap (ctx_staticMap ctx)) (toLibraryMacKey (lease_mac l)) of
        Some ip \<Rightarrow> ip = lease_ip l
      | None \<Rightarrow> lease_ip l \<notin> snd ` set (ctx_staticMap ctx)
                \<and> isIpInPool (lease_ip l) (ctx_rangeStart ctx) (ctx_rangeEnd ctx))"

definition retyped :: "reconcile_context \<Rightarrow> lease_info \<Rightarrow> lease_info" where
  "retyped ctx l = l\<lparr>leaseType :=
     if map_of (normalizeStaticMap (ctx_staticMap ctx)) (toLibraryMacKey (lease_mac l)) = None
     then LDynamic else LStatic\<rparr>"

lemma reconcile_loop_eq:
  "fst (reconcile_loop ctx (normalizeStaticMap (ctx_staticMap ctx)) (snd ` set (ctx_staticMap ctx)) ls rs ds)
     = rs @ map (retyped ctx) (filter (keeps_lease ctx) ls)
   \<and> map fst (snd (reconcile_loop ctx (normalizeStaticMap (ctx_staticMap ctx)) (snd ` set (ctx_staticMap ctx)) ls rs ds))
     = map fst ds @ filter (\<lambda>l. \<not> keeps_lease ctx l) ls"
  by (induction ls arbitrary: rs ds) (simp_all add: keeps_lease_def retyped_def split: option.split)

lemma fst_reconcile:
  "fst (reconcilePersistedLeases leases ctx) = map (retyped ctx) (filter (keeps_lease ctx) leases)"
  using reconcile_loop_eq [of ctx leases "[]" "[]"] by (simp add: reconcilePersistedLeases_def)

text \<open>
  Reconciliation keeps exactly the leases the configuration allows, in their order, and
  drops the others: a lease is kept when it has not expired and its address is the one
  reserved for its MAC, or no address is reserved for its MAC, its own is reserved for no other
  and lies in the pool.
\<close>
theorem reconcile_exact:
  "fst (reconcilePersistedLeases leases ctx) = map (retyped ctx) (filter (keeps_lease ctx) leases)
   \<and> map fst (snd (reconcilePersistedLeases leases ctx)) = filter (\<lambda>l. \<not> keeps_lease ctx l) leases"
  using reconcile_loop_eq [of ctx leases "[]" "[]"] by (simp add: reconcilePersistedLeases_def)

section \<open>Round trip\<close>

lemma lease_type_of_name [simp]: "lease_type_of (lease_type_name t) = Some t"
  by (cases t) (simp_all add: lease_type_of_def LEASE_TYPES_def)

lemma null_or_string_json [simp]: "null_or_string (Some (nullable_json x))"
  by (cases x) simp_all

lemma json_nullable_json [simp]: "json_nullable (Some (nullable_json x)) = x"
  by (cases x) simp_all

lemma lease_json_get:
  "json_get (lease_json l) ''mac'' = Some (JString (lease_mac l))"
  "json_get (lease_json l) ''ip'' = Some (JString (lease_ip l))"
  "json_get (lease_json l) ''boundAt'' = Some (JNumber (boundAt l))"
  "json_get (lease_json l) ''leaseSec'' = Some (JNumber (leaseSec l))"
  "json_get (lease_json l) ''expiresAt'' = Some (JNumber (expiresAt l))"
  "json_get (lease_json l) ''remainingSec'' = map_option JNumber (remainingSec l)"
  "json_get (lease_json l) ''hostname'' = Some (nullable_json (lease_hostname l))"
  "json_get (lease_json l) ''leaseType'' = Some (JString (lease_type_name (leaseType l)))"
  "json_get (lease_json l) ''clientId'' = map_option nullable_json (lease_clientId l)"
  by (simp_all add: lease_json_def split: option.split)

lemma isLeaseRecord_json: "isLeaseRecord (lease_json l) \<longleftrightarrow> lease_mac l \<noteq> [] \<and> lease_ip l \<noteq> []"
  by (cases "lease_clientId l") (simp_all add: isLeaseRecord_def lease_json_get)

lemma as_lease_json: "as_lease (lease_json l) = l"
  by (cases "remainingSec l"; cases "lease_clientId l") (simp_all add: as_lease_def lease_json_get or_default_def)

definition wf_lease :: "lease_info \<Rightarrow> bool" where
  "wf_lease l \<longleftrightarrow> lease_mac l \<noteq> [] \<and> lease_ip l \<noteq> []"

lemma nonempty_string_iff: "nonempty_string v \<longleftrightarrow> json_string v \<noteq> []"
  by (cases v rule: nonempty_string.cases) simp_all

lemma as_lease_wf: "isLeaseRecord v \<Longrightarrow> lease_mac (as_lease v) \<noteq> [] \<and> lease_ip (as_lease v) \<noteq> []"
  by (simp add: isLeaseRecord_def as_lease_def nonempty_string_iff)

lemma load_wf: "list_all wf_lease (loadLeases f)"
  by (auto simp: loadLeases_def list_all_iff wf_lease_def dest: as_lease_wf
      split: stored_file.splits option.splits json.splits)

lemma load_payload:
  "loadLeases (Parsed (lease_payload now ls)) = filter (\<lambda>l. lease_mac l \<noteq> [] \<and> lease_ip l \<noteq> []) ls"
  by (simp add: loadLeases_def lease_payload_def filter_map comp_def isLeaseRecord_json as_lease_json)

text \<open>
  C12. Whatever a lease file holds, every lease read from it has a MAC and an address; and a
  file written for a table of such leases is read back as that table.
\<close>
theorem lease_file_round_trip:
  "list_all wf_lease (loadLeases f)
   \<and> loadLeases (Parsed (lease_payload now ls)) = filter wf_lease ls"
  using load_wf [of f] load_payload [of now ls] by (simp add: wf_lease_def [abs_def])

lemma temp_path_neq [simp]: "temp_path p pid \<noteq> p"
  by (simp add: temp_path_def)

text \<open>
  Writing the table is atomic: at every point where the process may stop, the file holds
  what it held before or the complete new table, and when the write resolves it holds the table.
\<close>
theorem save_atomic:
  "list_all (\<lambda>d'. d' p = d p \<or> d' p = Some (Parsed (lease_payload now ls)))
     (fst (saveLeases fl p pid now ls d))
   \<and> (snd (saveLeases fl p pid now ls d) \<longrightarrow>
        last (fst (saveLeases fl p pid now ls d)) p = Some (Parsed (lease_payload now ls)))"
  by (simp add: saveLeases_def Let_def temp_path_neq [symmetric])

theorem save_atomic_witness:
  "list_all (\<lambda>d'. d' ''leases.json'' = None \<or> d' ''leases.json'' = Some (Parsed (lease_payload 5 [])))
     (fst (saveLeases \<lparr>mkdir_ok = True, write_ok = True, rename_ok = True, rm_ok = True, junk = None\<rparr>
        ''leases.json'' 7 5 [] (\<lambda>_. None)))
   \<and> last (fst (saveLeases \<lparr>mkdir_ok = True, write_ok = True, rename_ok = True, rm_ok = True, junk = None\<rparr>
        ''leases.json'' 7 5 [] (\<lambda>_. None))) ''leases.json'' = Some (Parsed (lease_payload 5 []))"
  using save_atomic [of "''leases.json''" "\<lambda>_. None" 5 "[]"
    "\<lparr>mkdir_ok = True, write_ok = True, rename_ok = True, rm_ok = True, junk = None\<rparr>" 7]
  by (simp add: saveLeases_def Let_def)

section \<open>Durability\<close>

lemma fire_eq_flush: "mirror_fire m = mirror_flush m"
  by (simp add: mirror_defs)

text \<open>The promise of the writer: without a pending window the table is the newest snapshot
  queued, or it is on disk, or the newest write failed, or nothing has changed yet.\<close>

definition mirrored :: "lease_info list \<Rightarrow> mirror \<Rightarrow> bool" where
  "mirrored t0 m \<longleftrightarrow>
     store_disposed (mirror_store m) \<and> \<not> store_timer (mirror_store m)
     \<or> store_timer (mirror_store m)
     \<or> (if inFlight (mirror_store m) = []
         then mirror_failed m \<or> mirror_disk m = Some (mirror_table m)
              \<or> mirror_disk m = None \<and> mirror_table m = t0
         else last (inFlight (mirror_store m)) = mirror_table m)"

lemma mirrored_start: "mirrored t0 (mirror_start t0)"
  by (simp add: mirrored_def mirror_start_def createDhcpLeaseStore_def)

lemma mirrored_flush: "mirrored t0 m \<Longrightarrow> mirrored t0 (mirror_flush m)"
  by (auto simp: mirrored_def mirror_defs)

lemma mirrored_settle: "mirrored t0 m \<Longrightarrow> mirrored t0 (mirror_settle ok m)"
  by (auto simp: mirrored_def mirror_defs neq_Nil_conv split: list.splits if_splits)

lemma mirrored_change: "mirrored t0 m \<Longrightarrow> mirrored t0 (mirror_change t m)"
  by (auto simp: mirrored_def mirror_defs)

lemma mirrored_dispose: "mirrored t0 (mirror_dispose m)"
  by (simp add: mirrored_def mirror_defs)

lemma mirrored_step: "mirror_step m n \<Longrightarrow> mirrored t0 m \<Longrightarrow> mirrored t0 n"
  by (induction rule: mirror_step.induct)
    (simp_all add: fire_eq_flush mirrored_flush mirrored_settle mirrored_change mirrored_dispose)

interpretation lease_mirror: invariant_system "\<lambda>m. m = mirror_start t0" mirror_step "mirrored t0"
  by unfold_locales (auto simp: mirrored_start intro: mirrored_step)

lemma drain_table: "mirror_table (mirror_drain n m) = mirror_table m"
  by (induction n arbitrary: m) (auto simp: mirror_defs split: list.splits)

lemma drain_disk:
  "length (inFlight (mirror_store m)) \<le> n \<Longrightarrow>
    mirror_disk (mirror_drain n m)
      = (if inFlight (mirror_store m) = [] then mirror_disk m
         else Some (last (inFlight (mirror_store m))))"
  by (induction n arbitrary: m) (auto simp: mirror_defs neq_Nil_conv split: list.splits)

lemma flush_queue:
  "inFlight (mirror_store (mirror_flush m))
    = inFlight (mirror_store m) @ (if store_timer (mirror_store m) then [mirror_table m] else [])"
  by (simp add: mirror_defs)

text \<open>
  After a flush whose writes succeed the file holds the table, whatever changes, windows,
  flushes and failed writes went before, unless nothing ever changed, or a write failed and
  nothing changed since.
\<close>
theorem flush_durable:
  assumes "mirror_step\<^sup>*\<^sup>* (mirror_start t0) m" "\<not> store_disposed (mirror_store m)"
    "mirror_failed m \<Longrightarrow> store_timer (mirror_store m) \<or> inFlight (mirror_store m) \<noteq> []"
    "length (inFlight (mirror_store (mirror_flush m))) \<le> n"
  shows "mirror_disk (mirror_drain n (mirror_flush m)) = Some (mirror_table m)
    \<or> mirror_table m = t0 \<and> mirror_disk m = None"
proof -
  have "mirrored t0 m" using lease_mirror.inv_reachable [OF refl assms(1)] .
  moreover have "\<not> store_timer (mirror_store (mirror_flush m))"
    "store_disposed (mirror_store (mirror_flush m)) = store_disposed (mirror_store m)"
    "mirror_table (mirror_flush m) = mirror_table m"
    "mirror_disk (mirror_flush m) = mirror_disk m" "mirror_failed (mirror_flush m) = mirror_failed m"
    by (simp_all add: mirror_defs)
  ultimately show ?thesis
    using assms(2,3) mirrored_flush [of t0 m] drain_disk [OF assms(4)]
    by (auto simp: mirrored_def flush_queue split: if_splits)
qed

definition example_lease :: lease_info where
  "example_lease = \<lparr>lease_mac = ''AA-BB-CC-DD-EE-FF'', lease_ip = ''192.168.2.20'', boundAt = 0,
     leaseSec = 60, expiresAt = 60000, remainingSec = None, lease_hostname = None,
     leaseType = LDynamic, lease_clientId = None\<rparr>"

theorem flush_durable_witness:
  "mirror_disk (mirror_drain 1 (mirror_flush (mirror_change [example_lease] (mirror_start []))))
     = Some [example_lease]"
  using flush_durable [of "[]" "mirror_change [example_lease] (mirror_start [])" 1]
  by (simp add: r_into_rtranclp step_change)
    (simp add: mirror_start_def mirror_defs createDhcpLeaseStore_def)

text \<open>
  The key of a MAC is canonical: it is its own key, and two MACs of twelve hexadecimal
  digits have the same key exactly when they have the same digits, whatever separators and
  case they are written with.
\<close>
theorem mac_key_canonical:
  "toLibraryMacKey (toLibraryMacKey m) = toLibraryMacKey m
   \<and> (length (hex_digits a) = 12 \<and> length (hex_digits b) = 12 \<longrightarrow>
        (toLibraryMacKey a = toLibraryMacKey b \<longleftrightarrow> hex_digits a = hex_digits b))"
  using key_idem [of m] key_eq_iff [of a b] by blast

theorem mac_key_canonical_witness:
  "toLibraryMacKey ''aa:bb:cc:dd:ee:0f'' = toLibraryMacKey ''AABB.CCDD.EE0F''
     \<longleftrightarrow> hex_digits ''aa:bb:cc:dd:ee:0f'' = hex_digits ''AABB.CCDD.EE0F''"
proof -
  have "length (hex_digits ''aa:bb:cc:dd:ee:0f'') = 12" "length (hex_digits ''AABB.CCDD.EE0F'') = 12"
    by code_simp+
  then show ?thesis
    using mac_key_canonical [of "[]" "''aa:bb:cc:dd:ee:0f''" "''AABB.CCDD.EE0F''"] by blast
qed

end
