(* ===== verification/Dhcp_Boot.thy ===== *)
theory Dhcp_Boot
  imports Dhcp_Network
begin

text \<open>
  The options of zero-touch provisioning:
  \<open>src/src/services/networkServers/dhcp/engine/dhcpBootOptions.ts\<close>. Option 43 is encoded as a
  sequence of code, length and value; a reference decoder reads it back. The texts of
  configuration values are strings of characters below 256.
\<close>

section \<open>Model\<close>

definition DHCP_OPTION_TFTP_SERVER_NAME :: nat where "DHCP_OPTION_TFTP_SERVER_NAME = 66"
definition DHCP_OPTION_BOOTFILE_NAME :: nat where "DHCP_OPTION_BOOTFILE_NAME = 67"
definition DHCP_OPTION_VENDOR_CLASS_ID :: nat where "DHCP_OPTION_VENDOR_CLASS_ID = 60"
definition DHCP_OPTION_VENDOR_SPECIFIC :: nat where "DHCP_OPTION_VENDOR_SPECIFIC = 43"
definition DHCP_OPTION_CISCO_TFTP_SERVERS :: nat where "DHCP_OPTION_CISCO_TFTP_SERVERS = 150"
definition MAX_OPTION_VALUE_BYTES :: nat where "MAX_OPTION_VALUE_BYTES = 255"

record vendor_entry =
  subOption :: js_number
  entry_value :: string

datatype boot_error =
    BadSubOption js_number
  | BadHexDigit string
  | OddHexDigits string nat
  | ValueTooLong js_number nat
  | PayloadTooLong nat

definition isValidSubOptionCode :: "js_number \<Rightarrow> bool" where
  "isValidSubOptionCode code =
     (case code of Finite q \<Rightarrow> of_int \<lfloor>q\<rfloor> = q \<and> 1 \<le> q \<and> q \<le> 254 | _ \<Rightarrow> False)"

definition hex_prefix :: "string \<Rightarrow> bool" where
  "hex_prefix raw \<longleftrightarrow> map lower_char (take 2 raw) = ''0x''"

definition hex_separator :: "char \<Rightarrow> bool" where
  "hex_separator ch \<longleftrightarrow> is_space ch \<or> ch = CHR '':'' \<or> ch = CHR ''_'' \<or> ch = CHR ''-''"

definition hex_char :: "char \<Rightarrow> bool" where
  "hex_char ch \<longleftrightarrow> hex_value ch \<noteq> None"

text \<open>\<open>Buffer.from(body, 'hex')\<close> of an even number of hexadecimal digits.\<close>

fun hex_bytes :: "string \<Rightarrow> buffer" where
  "hex_bytes (a # b # s) =
     word_of_nat (16 * the (hex_value a) + the (hex_value b)) # hex_bytes s"
| "hex_bytes _ = []"

definition utf8_text :: "string \<Rightarrow> buffer" where
  "utf8_text s = concat (map (\<lambda>ch. utf8_bytes (of_char ch)) s)"

definition parseVendorOptionValue :: "string \<Rightarrow> boot_error + buffer" where
  "parseVendorOptionValue raw =
     (if \<not> hex_prefix raw then Inr (utf8_text raw)
      else
        (let body = filter (\<lambda>ch. \<not> hex_separator ch) (drop 2 raw)
         in if \<not> list_all hex_char body then Inl (BadHexDigit raw)
            else if length body mod 2 \<noteq> 0 then Inl (OddHexDigits raw (length body))
            else Inr (hex_bytes body)))"

definition code_byte :: "js_number \<Rightarrow> byte" where
  "code_byte code = (case code of Finite q \<Rightarrow> word_of_int \<lfloor>q\<rfloor> | _ \<Rightarrow> 0)"

fun encode_entries :: "vendor_entry list \<Rightarrow> buffer list \<Rightarrow> boot_error + buffer list" where
  "encode_entries [] chunks = Inr chunks"
| "encode_entries (entry # es) chunks =
     (if \<not> isValidSubOptionCode (subOption entry) then Inl (BadSubOption (subOption entry))
      else case parseVendorOptionValue (entry_value entry) of
        Inl err \<Rightarrow> Inl err
      | Inr bytes \<Rightarrow>
          if MAX_OPTION_VALUE_BYTES < length bytes
          then Inl (ValueTooLong (subOption entry) (length bytes))
          else encode_entries es
                 (chunks @ [code_byte (subOption entry) # word_of_nat (length bytes) # bytes]))"

definition encodeVendorSpecificInfo :: "vendor_entry list \<Rightarrow> boot_error + buffer" where
  "encodeVendorSpecificInfo entries =
     (case encode_entries entries [] of
        Inl err \<Rightarrow> Inl err
      | Inr chunks \<Rightarrow>
          (let encoded = concat chunks
           in if MAX_OPTION_VALUE_BYTES < length encoded then Inl (PayloadTooLong (length encoded))
              else Inr encoded))"

text \<open>The observed value is \<open>None\<close> when the request carries none or one that is no string.\<close>

definition matchesVendorClass :: "string option \<Rightarrow> string option \<Rightarrow> bool" where
  "matchesVendorClass configured observed =
     (case map_option js_trim configured of
        None \<Rightarrow> True
      | Some expected \<Rightarrow>
          if expected = [] then True
          else case observed of
                 None \<Rightarrow> False
               | Some v \<Rightarrow> toLowerCase (js_trim v) = toLowerCase expected)"

section \<open>The reference decoder\<close>

text \<open>RFC 2132, section 8.4: a code byte, a length byte and that many bytes, repeated.\<close>

function decode_tlvs :: "buffer \<Rightarrow> (byte \<times> buffer) list option" where
  "decode_tlvs [] = Some []"
| "decode_tlvs [code] = None"
| "decode_tlvs (code # len # rest) =
     (if length rest < unat len then None
      else map_option (Cons (code, take (unat len) rest)) (decode_tlvs (drop (unat len) rest)))"
  by pat_completeness auto
termination by (relation "measure length") auto

definition tlv :: "byte \<times> buffer \<Rightarrow> buffer" where
  "tlv cv = fst cv # word_of_nat (length (snd cv)) # snd cv"

lemma decode_tlvs_concat:
  "list_all (\<lambda>cv. length (snd cv) \<le> 255) cvs \<Longrightarrow> decode_tlvs (concat (map tlv cvs)) = Some cvs"
  by (induction cvs) (auto simp: tlv_def unat_byte_of_nat)

text \<open>What an entry stands for.\<close>

definition entry_tlv :: "vendor_entry \<Rightarrow> byte \<times> buffer" where
  "entry_tlv e = (code_byte (subOption e),
     case parseVendorOptionValue (entry_value e) of Inr bytes \<Rightarrow> bytes | Inl _ \<Rightarrow> [])"

definition entry_ok :: "vendor_entry \<Rightarrow> bool" where
  "entry_ok e \<longleftrightarrow> isValidSubOptionCode (subOption e) \<and>
     (case parseVendorOptionValue (entry_value e) of
        Inl _ \<Rightarrow> False | Inr bytes \<Rightarrow> length bytes \<le> MAX_OPTION_VALUE_BYTES)"

lemma encode_entries_ok:
  "encode_entries es chunks = Inr out \<longleftrightarrow>
    list_all entry_ok es \<and> out = chunks @ map (\<lambda>e. tlv (entry_tlv e)) es"
  by (induction es arbitrary: chunks)
    (auto simp: entry_ok_def entry_tlv_def tlv_def split: sum.split)

lemma encode_ok:
  "encodeVendorSpecificInfo es = Inr bs \<longleftrightarrow>
    list_all entry_ok es \<and> bs = concat (map (\<lambda>e. tlv (entry_tlv e)) es)
      \<and> length bs \<le> MAX_OPTION_VALUE_BYTES"
proof (cases "list_all entry_ok es")
  case True
  then have "encode_entries es [] = Inr (map (\<lambda>e. tlv (entry_tlv e)) es)"
    by (simp add: encode_entries_ok)
  with True show ?thesis by (auto simp: encodeVendorSpecificInfo_def Let_def)
next
  case False
  then have "\<And>out. encode_entries es [] \<noteq> Inr out" by (simp add: encode_entries_ok)
  then obtain err where "encode_entries es [] = Inl err" by (cases "encode_entries es []") auto
  with False show ?thesis by (simp add: encodeVendorSpecificInfo_def)
qed

lemma entry_ok_length: "entry_ok e \<Longrightarrow> length (snd (entry_tlv e)) \<le> 255"
  by (auto simp: entry_ok_def entry_tlv_def MAX_OPTION_VALUE_BYTES_def split: sum.splits)

lemma valid_code_byte: "isValidSubOptionCode c \<Longrightarrow> code_byte c \<notin> {0, 255}"
proof -
  assume "isValidSubOptionCode c"
  then obtain q where q: "c = Finite q" "of_int \<lfloor>q\<rfloor> = q" "1 \<le> q" "q \<le> 254"
    by (auto simp: isValidSubOptionCode_def split: js_number.splits)
  define i where "i = \<lfloor>q\<rfloor>"
  have r: "1 \<le> i" "i \<le> 254" using q by (auto simp: i_def le_floor_iff floor_le_iff)
  then have "uint (word_of_int i :: byte) = i" by (simp add: uint_word_of_int)
  with r have "(word_of_int i :: byte) \<notin> {0, 255}" by auto
  then show ?thesis by (simp add: code_byte_def q(1) i_def)
qed

lemma entry_ok_code: "entry_ok e \<Longrightarrow> fst (entry_tlv e) \<noteq> 0 \<and> fst (entry_tlv e) \<noteq> 255"
  using valid_code_byte [of "subOption e"] by (simp add: entry_ok_def entry_tlv_def)

text \<open>
  Option 43 survives the wire: what the encoder produces fits one DHCP option, a decoder by
  the RFC reads back exactly the codes and values of the entries, in order, and no code is the
  padding or the end marker.
\<close>
theorem vendor_info_round_trip:
  assumes "encodeVendorSpecificInfo es = Inr bs"
  shows "length bs \<le> 255 \<and> decode_tlvs bs = Some (map entry_tlv es)
    \<and> list_all (\<lambda>(code, v). code \<noteq> 0 \<and> code \<noteq> 255) (map entry_tlv es)"
proof -
  have ok: "list_all entry_ok es" and bs: "bs = concat (map tlv (map entry_tlv es))" "length bs \<le> 255"
    using assms by (auto simp: encode_ok MAX_OPTION_VALUE_BYTES_def comp_def)
  have "list_all (\<lambda>cv. length (snd cv) \<le> 255) (map entry_tlv es)"
    using ok entry_ok_length by (auto simp: list_all_iff)
  then have "decode_tlvs bs = Some (map entry_tlv es)"
    unfolding bs(1) by (rule decode_tlvs_concat)
  moreover have "list_all (\<lambda>(code, v). code \<noteq> 0 \<and> code \<noteq> 255) (map entry_tlv es)"
    using ok entry_ok_code by (simp add: list_all_iff split_beta)
  ultimately show ?thesis using bs(2) by blast
qed

theorem vendor_info_round_trip_witness:
  "decode_tlvs [1, 2, 10, 11] = Some (map entry_tlv [\<lparr>subOption = Finite 1, entry_value = ''0x0A:0b''\<rparr>])"
proof -
  have "encodeVendorSpecificInfo [\<lparr>subOption = Finite 1, entry_value = ''0x0A:0b''\<rparr>] = Inr [1, 2, 10, 11]"
    by (simp add: encodeVendorSpecificInfo_def isValidSubOptionCode_def parseVendorOptionValue_def
        hex_prefix_def lower_char_def hex_separator_def is_space_def hex_char_def hex_value_def
        code_byte_def MAX_OPTION_VALUE_BYTES_def)
  from vendor_info_round_trip [OF this] show ?thesis by blast
qed

text \<open>Matching ignores case and surrounding space; an absent or blank filter matches everyone,
  and with any other filter a client that names no class is refused.\<close>

lemma matchesVendorClass_None: "matchesVendorClass configured None \<longleftrightarrow>
    (case configured of None \<Rightarrow> True | Some c \<Rightarrow> js_trim c = [])"
  by (auto simp: matchesVendorClass_def split: option.split)

end
