(* ===== verification/Dhcp_Engine.thy ===== *)
theory Dhcp_Engine
  imports Dhcp_Lease Dhcp_Boot
begin

text \<open>
  The DHCP engine: \<open>src/src/services/networkServers/dhcp/engine/DhcpEngine.ts\<close> with
  \<open>dhcpConstants.ts\<close> and \<open>dhcpErrors.ts\<close>. The package \<open>dhcp\<close> is outside the repository: its
  server object is its lease table \<open>_state\<close>, which it changes between the events it emits;
  whether a bind or a close succeeds is an argument. Every handler the engine attaches is a
  function on the engine record; events go to the list \<open>dh_events\<close>. Log lines are not
  modelled. \<open>Date.now()\<close> is an argument.
\<close>

section \<open>Constants and errors\<close>

definition DEFAULT_PORT :: nat where "DEFAULT_PORT = 67"
definition FALLBACK_ALT_PORT :: nat where "FALLBACK_ALT_PORT = 1067"
definition DEFAULT_rangeStart :: string where "DEFAULT_rangeStart = ''192.168.2.10''"
definition DEFAULT_rangeEnd :: string where "DEFAULT_rangeEnd = ''192.168.2.199''"
definition DEFAULT_subnet :: string where "DEFAULT_subnet = ''255.255.255.0''"
definition DEFAULT_gateway :: string where "DEFAULT_gateway = ''192.168.2.1''"
definition DEFAULT_dns :: "string list" where "DEFAULT_dns = [''8.8.8.8'', ''8.8.4.4'']"
definition DEFAULT_leaseTimeSec :: rat where "DEFAULT_leaseTimeSec = 86400"
definition DEFAULT_serverId :: string where "DEFAULT_serverId = ''192.168.2.1''"

definition DHCP_MESSAGE_NAMES :: "(nat \<times> string) list" where
  "DHCP_MESSAGE_NAMES =
     [(1, ''DHCPDISCOVER''), (2, ''DHCPOFFER''), (3, ''DHCPREQUEST''), (4, ''DHCPDECLINE''),
      (5, ''DHCPACK''), (6, ''DHCPNAK''), (7, ''DHCPRELEASE''), (8, ''DHCPINFORM'')]"

datatype dhcp_error_kind = EACCES_PRIVILEGES | EADDRINUSE_PORT_TAKEN | FALLBACK_ALT_FAILED | UNKNOWN

text \<open>\<open>new RegExp(pattern, 'i').test(s)\<close> for a pattern of plain letters.\<close>

fun has_prefix :: "string \<Rightarrow> string \<Rightarrow> bool" where
  "has_prefix [] s \<longleftrightarrow> True"
| "has_prefix (a # p) [] \<longleftrightarrow> False"
| "has_prefix (a # p) (b # s) \<longleftrightarrow> a = b \<and> has_prefix p s"

fun includes_text :: "string \<Rightarrow> string \<Rightarrow> bool" where
  "includes_text p [] \<longleftrightarrow> p = []"
| "includes_text p (ch # s) \<longleftrightarrow> has_prefix p (ch # s) \<or> includes_text p s"

definition mentions :: "string \<Rightarrow> string \<Rightarrow> bool" where
  "mentions p s \<longleftrightarrow> includes_text (toLowerCase p) (toLowerCase s)"

definition classifyNodeError :: "string \<Rightarrow> nat \<Rightarrow> bool \<Rightarrow> dhcp_error_kind \<times> string" where
  "classifyNodeError raw port triedFallback =
     (if mentions ''EACCES'' raw \<or> mentions ''Access'' raw \<or> mentions ''permission'' raw then
        (if triedFallback
         then (FALLBACK_ALT_FAILED,
               ''DhcpEngine: Port '' @ show_nat DEFAULT_PORT @ '' (EACCES without Admin) and fallback ''
               @ show_nat FALLBACK_ALT_PORT @ '' also failed. Both ports require privileges or are already taken. Original error: '' @ raw)
         else (EACCES_PRIVILEGES,
               ''DhcpEngine: Bind on UDP port '' @ show_nat port
               @ '' failed with EACCES. IANA port <1024 requires Administrator/root privileges. Use elevated mode or the ''
               @ show_nat FALLBACK_ALT_PORT @ '' fallback. Original error: '' @ raw))
      else if mentions ''EADDRINUSE'' raw \<or> mentions ''address already in use'' raw then
        (EADDRINUSE_PORT_TAKEN,
         ''DhcpEngine: Bind on UDP port '' @ show_nat port
         @ '' failed with EADDRINUSE. Another process is already occupying port '' @ show_nat port
         @ ''. Stop the other DHCP server first. Original error: '' @ raw)
      else (UNKNOWN,
         ''DhcpEngine: Unknown error binding on UDP port '' @ show_nat port
         @ ''. Technical detail: '' @ raw))"

section \<open>Configuration\<close>

record dhcp_config =
  cfg_rangeStart :: "string option"
  cfg_rangeEnd :: "string option"
  cfg_subnet :: "string option"
  cfg_gateway :: "string option"
  cfg_dns :: "string list option"
  cfg_leaseTimeSec :: "rat option"
  cfg_serverId :: "string option"
  cfg_broadcast :: "string option"
  cfg_static :: "static_map option"
  cfg_bindAddress :: "string option"
  cfg_leaseStorePath :: "string option"
  cfg_bootFileName :: "string option"
  cfg_nextServer :: "string option"
  cfg_tftpServerAddresses :: "string list option"
  cfg_vendorClassId :: "string option"
  cfg_vendorSpecificOptions :: "vendor_entry list option"

definition rangeStart :: "dhcp_config \<Rightarrow> string" where
  "rangeStart c = or_default (cfg_rangeStart c) DEFAULT_rangeStart"

definition rangeEnd :: "dhcp_config \<Rightarrow> string" where
  "rangeEnd c = or_default (cfg_rangeEnd c) DEFAULT_rangeEnd"

definition subnet :: "dhcp_config \<Rightarrow> string" where
  "subnet c = or_default (cfg_subnet c) DEFAULT_subnet"

definition gateway :: "dhcp_config \<Rightarrow> string" where
  "gateway c = or_default (cfg_gateway c) DEFAULT_gateway"

definition dns :: "dhcp_config \<Rightarrow> string list" where
  "dns c = or_default (cfg_dns c) DEFAULT_dns"

definition leaseTimeSec :: "dhcp_config \<Rightarrow> rat" where
  "leaseTimeSec c = or_default (cfg_leaseTimeSec c) DEFAULT_leaseTimeSec"

definition serverId :: "dhcp_config \<Rightarrow> string" where
  "serverId c = or_default (cfg_serverId c) DEFAULT_serverId"

definition bindAddress :: "dhcp_config \<Rightarrow> string" where
  "bindAddress c = or_default (cfg_bindAddress c) ''0.0.0.0''"

definition broadcast :: "dhcp_config \<Rightarrow> string" where
  "broadcast c = or_default (cfg_broadcast c) (computeBroadcastAddress (gateway c) (subnet c))"

definition staticMap :: "dhcp_config \<Rightarrow> static_map" where
  "staticMap c = or_default (cfg_static c) []"

subsection \<open>Boot options\<close>

text \<open>A value handed to the package: a literal, or a function of the vendor class of the
  request, whose result \<open>None\<close> (\<open>null\<close>) suppresses the option.\<close>

datatype 'a config_value = Literal 'a | Resolver "string option \<Rightarrow> 'a option"

fun resolve_value :: "'a config_value \<Rightarrow> string option \<Rightarrow> 'a option" where
  "resolve_value (Literal v) observed = Some v"
| "resolve_value (Resolver f) observed = f observed"

definition gateOnVendorClass :: "dhcp_config \<Rightarrow> 'a \<Rightarrow> 'a config_value" where
  "gateOnVendorClass c v =
     (case cfg_vendorClassId c of
        None \<Rightarrow> Literal v
      | Some vendorClassId \<Rightarrow>
          if vendorClassId = [] then Resolver (\<lambda>_. None)
          else Resolver (\<lambda>observed.
                 if matchesVendorClass (Some vendorClassId) observed then Some v else None))"

definition encodeVendorSpecificOption :: "dhcp_config \<Rightarrow> buffer option" where
  "encodeVendorSpecificOption c =
     (case cfg_vendorSpecificOptions c of
        None \<Rightarrow> None
      | Some entries \<Rightarrow>
          if entries = [] then None
          else case encodeVendorSpecificInfo entries of
                 Inl err \<Rightarrow> None
               | Inr encoded \<Rightarrow> if encoded = [] then None else Some encoded)"

record boot_options =
  boot_tftpServer :: "string config_value option"
  boot_bootFile :: "string config_value option"
  boot_tftpServerAddresses :: "string list config_value option"
  boot_vendor :: "buffer config_value option"
  forceOptions :: "string list"

text \<open>A string that is set and not empty, as JavaScript's truth test asks.\<close>

definition truthy :: "'a list option \<Rightarrow> 'a list option" where
  "truthy s = (case s of Some v \<Rightarrow> if v = [] then None else Some v | None \<Rightarrow> None)"

definition forced_key :: "string \<Rightarrow> 'a option \<Rightarrow> string list" where
  "forced_key key v = (case v of None \<Rightarrow> [] | Some _ \<Rightarrow> [key])"

definition buildBootOptions :: "dhcp_config \<Rightarrow> boot_options" where
  "buildBootOptions c =
     (let nextServer = truthy (cfg_nextServer c);
          bootFile = truthy (cfg_bootFileName c);
          addresses = truthy (cfg_tftpServerAddresses c);
          vendorBytes = encodeVendorSpecificOption c
      in \<lparr>boot_tftpServer = map_option (gateOnVendorClass c) nextServer,
          boot_bootFile = map_option (gateOnVendorClass c) bootFile,
          boot_tftpServerAddresses = map_option (gateOnVendorClass c) addresses,
          boot_vendor = map_option (gateOnVendorClass c) vendorBytes,
          forceOptions = forced_key ''tftpServer'' nextServer @ forced_key ''bootFile'' bootFile
            @ forced_key ''tftpServerAddresses'' addresses @ forced_key ''vendor'' vendorBytes\<rparr>)"

record server_config =
  sc_range :: "string \<times> string"
  sc_netmask :: string
  sc_router :: "string list"
  sc_dns :: "string list"
  sc_broadcast :: string
  sc_server :: string
  sc_leaseTime :: rat
  sc_static :: static_map
  sc_boot :: boot_options

definition buildServerConfig :: "dhcp_config \<Rightarrow> server_config" where
  "buildServerConfig c =
     \<lparr>sc_range = (rangeStart c, rangeEnd c), sc_netmask = subnet c, sc_router = [gateway c],
      sc_dns = dns c, sc_broadcast = broadcast c, sc_server = serverId c,
      sc_leaseTime = leaseTimeSec c, sc_static = staticMap c, sc_boot = buildBootOptions c\<rparr>"

section \<open>State\<close>

record dhcp_counters =
  packetsReceived :: nat
  packetsSentEstimate :: nat
  discoverCount :: nat
  offerCount :: nat
  requestCount :: nat
  declineCount :: nat
  ackCount :: nat
  nakCount :: nat
  releaseCount :: nat
  informCount :: nat

definition emptyCounters :: dhcp_counters where
  "emptyCounters = \<lparr>packetsReceived = 0, packetsSentEstimate = 0, discoverCount = 0, offerCount = 0,
     requestCount = 0, declineCount = 0, ackCount = 0, nakCount = 0, releaseCount = 0,
     informCount = 0\<rparr>"

datatype dhcp_event =
    Listening string nat
  | Closed
  | ServerError string
  | MessageDhcp string
  | LeaseBound lease_info
  | LeaseRenewed lease_info
  | LeaseReleased string "string option"

record dhcp_engine =
  dh_server :: "lib_state option"
  dh_boundPort :: "nat option"
  dh_cfg :: dhcp_config
  dh_counters :: dhcp_counters
  prevLeaseKeys :: "string list"
  prevBindTimes :: "(string, rat) js_object"
  leaseStore :: "lease_store option"
  dh_events :: "dhcp_event list"

definition new_dhcp_engine :: "dhcp_config \<Rightarrow> dhcp_engine" where
  "new_dhcp_engine cfg =
     \<lparr>dh_server = None, dh_boundPort = None,
      dh_cfg = cfg\<lparr>cfg_dns := truthy (cfg_dns cfg),
                   cfg_vendorClassId := map_option js_trim (cfg_vendorClassId cfg)\<rparr>,
      dh_counters = emptyCounters, prevLeaseKeys = [], prevBindTimes = [], leaseStore = None,
      dh_events = []\<rparr>"

definition dh_emit :: "dhcp_event list \<Rightarrow> dhcp_engine \<Rightarrow> dhcp_engine" where
  "dh_emit evs e = e\<lparr>dh_events := dh_events e @ evs\<rparr>"

definition isRunning :: "dhcp_engine \<Rightarrow> bool" where
  "isRunning e \<longleftrightarrow> dh_server e \<noteq> None \<and> dh_boundPort e \<noteq> None"

section \<open>Snapshots\<close>

definition is_reserved :: "lease_state \<Rightarrow> bool" where
  "is_reserved entry \<longleftrightarrow> ls_state entry = RESERVED_LEASE_STATE"

definition active_of :: "rat \<Rightarrow> dhcp_config \<Rightarrow> lib_state \<Rightarrow> lease_info list" where
  "active_of now c st =
     List.map_filter (\<lambda>(mac, entry).
       if is_reserved entry then None
       else buildLeaseInfo mac entry (staticMap c) now (leaseTimeSec c) None) st"

definition activeLeases :: "rat \<Rightarrow> dhcp_engine \<Rightarrow> lease_info list" where
  "activeLeases now e = (case dh_server e of None \<Rightarrow> [] | Some st \<Rightarrow> active_of now (dh_cfg e) st)"

record pool_info =
  pi_rangeStart :: string
  pi_rangeEnd :: string
  pi_poolSize :: int
  pi_activeCount :: nat
  pi_utilizationPct :: rat
  pi_staticEntryCount :: nat

definition poolInfo :: "rat \<Rightarrow> dhcp_engine \<Rightarrow> pool_info" where
  "poolInfo now e =
     (let c = dh_cfg e;
          size' = computePoolSize (rangeStart c) (rangeEnd c);
          active = length (activeLeases now e)
      in \<lparr>pi_rangeStart = rangeStart c, pi_rangeEnd = rangeEnd c, pi_poolSize = size',
          pi_activeCount = active,
          pi_utilizationPct = (if 0 < size' then min 100 (of_nat active / of_int size' * 100) else 0),
          pi_staticEntryCount = length (staticMap c)\<rparr>)"

section \<open>The lease diff\<close>

definition curr_keys :: "lib_state \<Rightarrow> string list" where
  "curr_keys st = map fst (filter (\<lambda>(mac, entry). \<not> is_reserved entry) st)"

definition refreshLeaseBaseline :: "rat \<Rightarrow> dhcp_engine \<Rightarrow> dhcp_engine" where
  "refreshLeaseBaseline now e =
     (case dh_server e of
        None \<Rightarrow> e\<lparr>prevLeaseKeys := [], prevBindTimes := []\<rparr>
      | Some st \<Rightarrow>
          e\<lparr>prevLeaseKeys := curr_keys st,
            prevBindTimes := map (\<lambda>(mac, entry). (mac, or_default (bindTime entry) now))
              (filter (\<lambda>(mac, entry). \<not> is_reserved entry) st)\<rparr>)"

record lease_diff =
  boundMsgs :: "lease_info list"
  renewedMsgs :: "lease_info list"
  releasedMsgs :: "(string \<times> string option) list"

text \<open>One turn of the loop over all MACs; the address of a lease that is gone is unknown
  (\<open>_guessReleasedIp\<close> returns \<open>null\<close>).\<close>

definition diff_one :: "rat \<Rightarrow> dhcp_engine \<Rightarrow> lib_state \<Rightarrow> lease_diff \<Rightarrow> string \<Rightarrow> lease_diff" where
  "diff_one now e st d mac =
     (let inPrev = (mac \<in> set (prevLeaseKeys e)); inCurr = (mac \<in> set (curr_keys st)) in
      if \<not> inPrev \<and> inCurr then
        (case map_of st mac of
           None \<Rightarrow> d
         | Some entry \<Rightarrow>
             (case buildLeaseInfo mac entry (staticMap (dh_cfg e)) now (leaseTimeSec (dh_cfg e)) None of
                None \<Rightarrow> d | Some info \<Rightarrow> d\<lparr>boundMsgs := boundMsgs d @ [info]\<rparr>))
      else if inPrev \<and> inCurr then
        (case map_of st mac of
           None \<Rightarrow> d
         | Some entry \<Rightarrow>
             if ls_address entry = [] then d
             else case map_of (prevBindTimes e) mac of
                    None \<Rightarrow> d
                  | Some prev \<Rightarrow>
                      if prev < or_default (bindTime entry) now then
                        (case buildLeaseInfo mac entry (staticMap (dh_cfg e)) now
                                (leaseTimeSec (dh_cfg e)) (Some LRenewed) of
                           None \<Rightarrow> d | Some info \<Rightarrow> d\<lparr>renewedMsgs := renewedMsgs d @ [info]\<rparr>)
                      else d)
      else if inPrev then d\<lparr>releasedMsgs := releasedMsgs d @ [(mac, None)]\<rparr>
      else d)"

definition lease_diff_of :: "rat \<Rightarrow> dhcp_engine \<Rightarrow> lib_state \<Rightarrow> lease_diff" where
  "lease_diff_of now e st =
     foldl (diff_one now e st) \<lparr>boundMsgs = [], renewedMsgs = [], releasedMsgs = []\<rparr>
       (prevLeaseKeys e @ filter (\<lambda>mac. mac \<notin> set (prevLeaseKeys e)) (curr_keys st))"

definition diff_events :: "lease_diff \<Rightarrow> dhcp_event list" where
  "diff_events d = map LeaseBound (boundMsgs d) @ map LeaseRenewed (renewedMsgs d)
     @ map (\<lambda>(mac, ip). LeaseReleased mac ip) (releasedMsgs d)"

definition schedule_store :: "dhcp_engine \<Rightarrow> dhcp_engine" where
  "schedule_store e = e\<lparr>leaseStore := map_option store_schedule (leaseStore e)\<rparr>"

definition diffLeases :: "rat \<Rightarrow> dhcp_engine \<Rightarrow> dhcp_engine" where
  "diffLeases now e =
     (case dh_server e of
        None \<Rightarrow> e
      | Some st \<Rightarrow>
          (let d = lease_diff_of now e st;
               e1 = (if boundMsgs d \<noteq> [] \<or> renewedMsgs d \<noteq> [] \<or> releasedMsgs d \<noteq> []
                     then schedule_store e else e)
           in dh_emit (diff_events d) (refreshLeaseBaseline now e1)))"

section \<open>Handlers of the events of the package\<close>

text \<open>The type of a message is option 53 of the request, \<open>0\<close> when it is absent.\<close>

definition count_message :: "nat \<Rightarrow> dhcp_counters \<Rightarrow> dhcp_counters" where
  "count_message msgType c0 =
     (let c = c0\<lparr>packetsReceived := packetsReceived c0 + 1\<rparr> in
      if msgType = 1 then c\<lparr>discoverCount := discoverCount c + 1,
                            packetsSentEstimate := packetsSentEstimate c + 1\<rparr>
      else if msgType = 2 then c\<lparr>offerCount := offerCount c + 1\<rparr>
      else if msgType = 3 then c\<lparr>requestCount := requestCount c + 1,
                                 packetsSentEstimate := packetsSentEstimate c + 1\<rparr>
      else if msgType = 4 then c\<lparr>declineCount := declineCount c + 1\<rparr>
      else if msgType = 5 then c\<lparr>ackCount := ackCount c + 1\<rparr>
      else if msgType = 6 then c\<lparr>nakCount := nakCount c + 1\<rparr>
      else if msgType = 7 then c\<lparr>releaseCount := releaseCount c + 1\<rparr>
      else if msgType = 8 then c\<lparr>informCount := informCount c + 1\<rparr>
      else c)"

definition message_name :: "nat \<Rightarrow> string" where
  "message_name msgType =
     (case map_of DHCP_MESSAGE_NAMES msgType of
        Some name \<Rightarrow> name | None \<Rightarrow> ''UNKNOWN('' @ show_nat msgType @ '')'')"

definition processMessage :: "rat \<Rightarrow> nat \<Rightarrow> dhcp_engine \<Rightarrow> dhcp_engine" where
  "processMessage now msgType e =
     diffLeases now
       (dh_emit [MessageDhcp (message_name msgType)]
         (e\<lparr>dh_counters := count_message msgType (dh_counters e)\<rparr>))"

definition onBound :: "rat \<Rightarrow> dhcp_engine \<Rightarrow> dhcp_engine" where
  "onBound now e = diffLeases now e"

definition onPacketError :: "bool \<Rightarrow> dhcp_engine \<Rightarrow> dhcp_engine" where
  "onPacketError messageEmitted e =
     (if messageEmitted then e
      else e\<lparr>dh_counters := (dh_counters e)\<lparr>packetsReceived := packetsReceived (dh_counters e) + 1\<rparr>\<rparr>)"

definition onServerError :: "string \<Rightarrow> dhcp_engine \<Rightarrow> dhcp_engine" where
  "onServerError msg e = dh_emit [ServerError msg] e"

text \<open>The regular expression of a canonical key: six pairs of upper case digits, dashes between.\<close>

definition is_upper_hex :: "char \<Rightarrow> bool" where
  "is_upper_hex ch \<longleftrightarrow> is_hex ch \<and> upper_char ch = ch"

definition is_mac_key :: "string \<Rightarrow> bool" where
  "is_mac_key k \<longleftrightarrow> length k = 17 \<and>
     list_all (\<lambda>(i, ch). if i mod 3 = 2 then ch = CHR ''-'' else is_upper_hex ch) (zip [0..<17] k)"

definition canonicalReleasedMac :: "string option \<Rightarrow> string option" where
  "canonicalReleasedMac v =
     (case v of
        None \<Rightarrow> None
      | Some raw \<Rightarrow>
          if js_trim raw = [] then None
          else if is_mac_key (toLibraryMacKey raw) then Some (toLibraryMacKey raw) else None)"

definition staticAddressForMac :: "dhcp_engine \<Rightarrow> string \<Rightarrow> string option" where
  "staticAddressForMac e mac = first_static mac (staticMap (dh_cfg e))"

definition restore_placeholder :: "string \<Rightarrow> string option \<Rightarrow> dhcp_engine \<Rightarrow> dhcp_engine" where
  "restore_placeholder mac ip e =
     (let c = dh_cfg e in
      case (ip, dh_server e) of
        (Some a, Some st) \<Rightarrow>
          if staticAddressForMac e mac = Some a \<and> isIpInPool a (rangeStart c) (rangeEnd c)
          then e\<lparr>dh_server := Some (AList.update mac
                   (toReservedLeaseState a (serverId c) (leaseTimeSec c)) st)\<rparr>
          else e
      | _ \<Rightarrow> e)"

definition onReleased :: "rat \<Rightarrow> string option \<Rightarrow> string option \<Rightarrow> dhcp_engine \<Rightarrow> dhcp_engine" where
  "onReleased now rawMac rawAddress e =
     (case canonicalReleasedMac rawMac of
        None \<Rightarrow> refreshLeaseBaseline now e
      | Some mac \<Rightarrow>
          (let ip = truthy rawAddress in
           if mac \<notin> set (prevLeaseKeys e) then refreshLeaseBaseline now e
           else dh_emit [LeaseReleased mac ip]
                  (schedule_store (refreshLeaseBaseline now (restore_placeholder mac ip e)))))"

section \<open>Life cycle\<close>

text \<open>\<open>new Set(xs)\<close>, in the order of the first occurrences.\<close>

definition js_set :: "'a list \<Rightarrow> 'a list" where
  "js_set xs = rev (remdups (rev xs))"

definition restorePersistedLeases :: "rat \<Rightarrow> stored_file \<Rightarrow> dhcp_engine \<Rightarrow> dhcp_engine" where
  "restorePersistedLeases now f e =
     (let stored = loadLeases f; c = dh_cfg e in
      if stored = [] then e
      else
        (let restored = fst (reconcilePersistedLeases stored
               \<lparr>ctx_staticMap = staticMap c, ctx_rangeStart = rangeStart c,
                ctx_rangeEnd = rangeEnd c, ctx_now = now\<rparr>)
         in e\<lparr>dh_server := map_option
                (\<lambda>st. foldl (\<lambda>s l. AList.update (lease_mac l) (toRestoredLeaseState l (serverId c)) s)
                        st restored) (dh_server e),
              prevLeaseKeys := js_set (map lease_mac restored),
              prevBindTimes := foldl (\<lambda>m l. AList.update (lease_mac l) (boundAt l) m) [] restored\<rparr>))"

definition bindLeasePersistence :: "rat \<Rightarrow> stored_file \<Rightarrow> dhcp_engine \<Rightarrow> dhcp_engine" where
  "bindLeasePersistence now f e =
     (case truthy (cfg_leaseStorePath (dh_cfg e)) of
        None \<Rightarrow> e
      | Some _ \<Rightarrow> (restorePersistedLeases now f e)\<lparr>leaseStore := Some createDhcpLeaseStore\<rparr>)"

definition seed_one :: "dhcp_config \<Rightarrow> lib_state \<Rightarrow> string \<times> string \<Rightarrow> lib_state" where
  "seed_one c st entry =
     (let (rawMac, ip) = entry; mac = toLibraryMacKey rawMac in
      if \<not> isIpInPool ip (rangeStart c) (rangeEnd c) then st
      else if map_option ls_address (map_of st mac) = Some ip then st
      else AList.update mac (toReservedLeaseState ip (serverId c) (leaseTimeSec c)) st)"

definition seedStaticReservations :: "dhcp_engine \<Rightarrow> dhcp_engine" where
  "seedStaticReservations e =
     e\<lparr>dh_server := map_option (\<lambda>st. foldl (seed_one (dh_cfg e)) st (staticMap (dh_cfg e)))
         (dh_server e)\<rparr>"

datatype listen_outcome = ListenOk | ListenFailed string

text \<open>
  \<open>tryListen\<close>: the promise settles on the first signal of the socket, \<open>listening\<close> or \<open>error\<close>; an
  exception of \<open>listen\<close> counts as an error at the time it is thrown. Later signals find it
  settled. \<open>None\<close> is a promise that is still pending.
\<close>

datatype listen_signal = SocketListening | SocketError string

fun listen_settle :: "listen_outcome option \<Rightarrow> listen_signal \<Rightarrow> listen_outcome option" where
  "listen_settle (Some r) sig = Some r"
| "listen_settle None SocketListening = Some ListenOk"
| "listen_settle None (SocketError msg) = Some (ListenFailed msg)"

definition tryListen ::
  "listen_signal list \<Rightarrow> string option \<Rightarrow> listen_signal list \<Rightarrow> listen_outcome option" where
  "tryListen during thrown later =
     foldl listen_settle None
       (during @ (case thrown of None \<Rightarrow> [] | Some msg \<Rightarrow> [SocketError msg]) @ later)"

definition start_reset :: "dhcp_engine \<Rightarrow> dhcp_engine" where
  "start_reset e = e\<lparr>dh_counters := emptyCounters, prevLeaseKeys := [], prevBindTimes := []\<rparr>"

text \<open>What follows a successful bind: a new server object has an empty lease table.\<close>

definition start_bound :: "rat \<Rightarrow> stored_file \<Rightarrow> nat \<Rightarrow> dhcp_engine \<Rightarrow> dhcp_engine" where
  "start_bound now f port e =
     dh_emit [Listening (bindAddress (dh_cfg e)) port]
       (seedStaticReservations
         (bindLeasePersistence now f (e\<lparr>dh_server := Some [], dh_boundPort := Some port\<rparr>)))"

definition dhcp_start ::
  "nat \<Rightarrow> listen_outcome \<Rightarrow> listen_outcome \<Rightarrow> stored_file \<Rightarrow> rat \<Rightarrow> dhcp_engine
    \<Rightarrow> ((dhcp_error_kind \<times> string) + nat) \<times> dhcp_engine" where
  "dhcp_start preferredPort first second f now e =
     (let e1 = start_reset e in
      case first of
        ListenOk \<Rightarrow> (Inr preferredPort, start_bound now f preferredPort e1)
      | ListenFailed err \<Rightarrow>
          (let classified = classifyNodeError err preferredPort False in
           if fst classified = EACCES_PRIVILEGES \<and> preferredPort = DEFAULT_PORT then
             (case second of
                ListenOk \<Rightarrow> (Inr FALLBACK_ALT_PORT, start_bound now f FALLBACK_ALT_PORT e1)
              | ListenFailed altErr \<Rightarrow> (Inl (classifyNodeError altErr FALLBACK_ALT_PORT True), e1))
           else (Inl classified, e1)))"

text \<open>
  \<open>flushLeaseStore\<close> takes the writer off the engine, flushes it and disposes it when the write
  has settled; the writer is returned, for the write it still has in flight.
\<close>

definition flushLeaseStore :: "rat \<Rightarrow> dhcp_engine \<Rightarrow> dhcp_engine \<times> lease_store option" where
  "flushLeaseStore now e =
     (e\<lparr>leaseStore := None\<rparr>,
      map_option (\<lambda>s. store_dispose (store_flush (activeLeases now e) s)) (leaseStore e))"

datatype close_outcome = CloseOk | CloseFailed string string

definition stop_finish :: "close_outcome \<Rightarrow> dhcp_engine \<Rightarrow> string option \<times> dhcp_engine" where
  "stop_finish outcome e =
     (let e1 = e\<lparr>dh_server := None, dh_boundPort := None\<rparr> in
      if dh_server e = None then (None, e1)
      else (case outcome of
              CloseOk \<Rightarrow> None
            | CloseFailed code msg \<Rightarrow>
                if code = ''ERR_SOCKET_DGRAM_NOT_RUNNING'' then None else Some msg,
            dh_emit [Closed] e1))"

end
