(* ===== verification/Dhcp_Engine_Runs.thy ===== *)
theory Dhcp_Engine_Runs
  imports Dhcp_Engine
begin

text \<open>
  Theorems on the DHCP engine: what the lease table holds after a start, what the diff of the
  table reports, and the story the lease events tell over every run of the handlers. The
  package is the environment of the runs: between two events it may replace its table by any
  other with one entry per key and an address in each entry, and for a release it emits the
  message, deletes the entry and emits the release, in this order and within one packet.
\<close>

section \<open>Tables built by folding\<close>

lemma fold_update_lookup:
  "map_of (foldl (\<lambda>s l. AList.update (k l) (v l) s) s0 ls) key = Some x \<Longrightarrow>
    map_of s0 key = Some x \<or> (\<exists>l \<in> set ls. k l = key \<and> v l = x)"
proof (induction ls arbitrary: s0)
  case (Cons l ls)
  from Cons.IH [of "AList.update (k l) (v l) s0"] Cons.prems show ?case
    by (auto simp: update_conv' split: if_splits)
qed simp

lemma fold_update_keys:
  "fst ` set (foldl (\<lambda>s l. AList.update (k l) (v l) s) s0 ls) = fst ` set s0 \<union> k ` set ls"
  by (induction ls arbitrary: s0) (auto simp: dom_update simp flip: dom_map_of_conv_image_fst, auto simp: update_conv')

lemma fold_update_distinct:
  "distinct (map fst s0) \<Longrightarrow> distinct (map fst (foldl (\<lambda>s l. AList.update (k l) (v l) s) s0 ls))"
  by (induction ls arbitrary: s0) (simp_all add: distinct_update)

text \<open>Two tables filled by the same loop agree entry by entry.\<close>

lemma fold_update_related:
  assumes "\<And>key. rel_option r (map_of s0 key) (map_of t0 key)" "\<And>l. l \<in> set ls \<Longrightarrow> r (v l) (w l)"
  shows "rel_option r (map_of (foldl (\<lambda>s l. AList.update (k l) (v l) s) s0 ls) key)
    (map_of (foldl (\<lambda>s l. AList.update (k l) (w l) s) t0 ls) key)"
  using assms
proof (induction ls arbitrary: s0 t0)
  case (Cons l ls)
  show ?case
    unfolding foldl_Cons
  proof (rule Cons.IH)
    show "rel_option r (map_of (AList.update (k l) (v l) s0) key) (map_of (AList.update (k l) (w l) t0) key)" for key
      using Cons.prems by (simp add: update_conv')
  qed (use Cons.prems in auto)
qed simp

lemma normalize_update:
  "normalizeStaticMap sm = foldl (\<lambda>s e. AList.update (toLibraryMacKey (fst e)) (snd e) s) [] sm"
  by (simp add: normalizeStaticMap_def case_prod_beta')

lemma normalize_lookup:
  "map_of (normalizeStaticMap sm) key = Some ip \<Longrightarrow> \<exists>m. (m, ip) \<in> set sm \<and> toLibraryMacKey m = key"
  using fold_update_lookup [of "\<lambda>e. toLibraryMacKey (fst e)" snd "[]" sm key ip]
  by (auto simp: normalize_update)

lemma normalize_keys: "fst ` set (normalizeStaticMap sm) = (toLibraryMacKey \<circ> fst) ` set sm"
  using fold_update_keys [of "\<lambda>e. toLibraryMacKey (fst e)" snd "[]" sm]
  by (simp add: normalize_update comp_def)

definition distinct_macs :: "static_map \<Rightarrow> bool" where
  "distinct_macs sm \<longleftrightarrow> distinct (map (toLibraryMacKey \<circ> fst) sm)"

lemma distinct_macs_unique:
  "distinct_macs sm \<Longrightarrow> (m, a) \<in> set sm \<Longrightarrow> (n, b) \<in> set sm
    \<Longrightarrow> toLibraryMacKey m = toLibraryMacKey n \<Longrightarrow> a = b"
  by (metis (no_types, lifting) comp_apply distinct_macs_def distinct_map fst_conv inj_on_eq_iff snd_conv)

lemma normalize_member:
  assumes "distinct_macs sm" "(m, ip) \<in> set sm"
  shows "map_of (normalizeStaticMap sm) (toLibraryMacKey m) = Some ip"
proof -
  have "toLibraryMacKey m \<in> fst ` set (normalizeStaticMap sm)"
    using assms(2) by (force simp: normalize_keys)
  then obtain x where x: "map_of (normalizeStaticMap sm) (toLibraryMacKey m) = Some x"
    by (metis domD dom_map_of_conv_image_fst)
  from normalize_lookup [OF this] distinct_macs_unique [OF assms(1) _ assms(2)] show ?thesis
    using x by metis
qed

section \<open>Seeding\<close>

lemma pool_nonempty: "isIpInPool ip s e \<Longrightarrow> ip \<noteq> []"
  by (auto simp: isIpInPool_word ipWord_def)

lemma seed_one_other: "toLibraryMacKey m \<noteq> k \<Longrightarrow> map_of (seed_one c st (m, ip)) k = map_of st k"
  by (simp add: seed_one_def Let_def update_conv')

lemma seed_one_kept:
  assumes "map_of st k = Some x" "toLibraryMacKey m = k \<Longrightarrow> ls_address x = ip"
  shows "map_of (seed_one c st (m, ip)) k = Some x"
  using assms by (cases "toLibraryMacKey m = k") (auto simp: seed_one_def Let_def update_conv')

lemma seed_kept:
  assumes "map_of st k = Some x" "\<And>m ip. (m, ip) \<in> set sm \<Longrightarrow> toLibraryMacKey m = k \<Longrightarrow> ls_address x = ip"
  shows "map_of (foldl (seed_one c) st sm) k = Some x"
  using assms
proof (induction sm arbitrary: st)
  case (Cons e sm)
  obtain m ip where e: "e = (m, ip)" by (cases e)
  show ?case
    unfolding foldl_Cons e
    by (rule Cons.IH) (use Cons.prems e in \<open>auto intro!: seed_one_kept\<close>)
qed simp

lemma seed_lookup:
  "map_of (foldl (seed_one c) st sm) k = Some x \<Longrightarrow>
    map_of st k = Some x \<or> (\<exists>(m, ip) \<in> set sm. toLibraryMacKey m = k
      \<and> isIpInPool ip (rangeStart c) (rangeEnd c)
      \<and> x = toReservedLeaseState ip (serverId c) (leaseTimeSec c))"
proof (induction sm arbitrary: st)
  case (Cons e sm)
  from Cons.IH [of "seed_one c st e"] Cons.prems show ?case
    by (cases e) (auto simp: seed_one_def Let_def update_conv' split: if_splits)
qed simp

lemma seed_distinct: "distinct (map fst st) \<Longrightarrow> distinct (map fst (foldl (seed_one c) st sm))"
  by (induction sm arbitrary: st) (auto simp: seed_one_def Let_def distinct_update split: prod.splits)

lemma seed_holds:
  assumes "distinct_macs sm" "(m, ip) \<in> set sm" "isIpInPool ip (rangeStart c) (rangeEnd c)"
  shows "map_option ls_address (map_of (foldl (seed_one c) st sm) (toLibraryMacKey m)) = Some ip"
proof -
  from assms(2) obtain ys zs where sm: "sm = ys @ (m, ip) # zs" by (metis split_list)
  let ?s = "seed_one c (foldl (seed_one c) st ys) (m, ip)"
  have "\<exists>x. map_of ?s (toLibraryMacKey m) = Some x \<and> ls_address x = ip"
    using assms(3) by (auto simp: seed_one_def Let_def update_conv' toReservedLeaseState_def)
  then obtain x where x: "map_of ?s (toLibraryMacKey m) = Some x" "ls_address x = ip" by blast
  have "map_of (foldl (seed_one c) ?s zs) (toLibraryMacKey m) = Some x"
  proof (rule seed_kept [OF x(1)])
    fix n a assume "(n, a) \<in> set zs" "toLibraryMacKey n = toLibraryMacKey m"
    then show "ls_address x = a"
      using distinct_macs_unique [OF assms(1), of n a m ip] sm x(2) by auto
  qed
  then show ?thesis using x(2) by (simp add: sm)
qed

section \<open>The state after a start\<close>

definition restored_of :: "rat \<Rightarrow> stored_file \<Rightarrow> dhcp_config \<Rightarrow> lease_info list" where
  "restored_of now f c =
     (case truthy (cfg_leaseStorePath c) of
        None \<Rightarrow> []
      | Some _ \<Rightarrow> fst (reconcilePersistedLeases (loadLeases f)
          \<lparr>ctx_staticMap = staticMap c, ctx_rangeStart = rangeStart c, ctx_rangeEnd = rangeEnd c, ctx_now = now\<rparr>))"

definition restored_table :: "dhcp_config \<Rightarrow> lease_info list \<Rightarrow> lib_state" where
  "restored_table c ls = foldl (\<lambda>s l. AList.update (lease_mac l) (toRestoredLeaseState l (serverId c)) s) [] ls"

definition seeded_table :: "rat \<Rightarrow> stored_file \<Rightarrow> dhcp_config \<Rightarrow> lib_state" where
  "seeded_table now f c = foldl (seed_one c) (restored_table c (restored_of now f c)) (staticMap c)"

lemma reconcile_Nil: "fst (reconcilePersistedLeases [] ctx) = []"
  by (simp add: reconcilePersistedLeases_def)

lemma start_bound_state:
  assumes "prevLeaseKeys e = []" "prevBindTimes e = []"
  shows "dh_server (start_bound now f port e) = Some (seeded_table now f (dh_cfg e))"
    "prevLeaseKeys (start_bound now f port e) = js_set (map lease_mac (restored_of now f (dh_cfg e)))"
    "prevBindTimes (start_bound now f port e)
      = foldl (\<lambda>m l. AList.update (lease_mac l) (boundAt l) m) [] (restored_of now f (dh_cfg e))"
    "dh_events (start_bound now f port e) = dh_events e @ [Listening (bindAddress (dh_cfg e)) port]"
    "dh_cfg (start_bound now f port e) = dh_cfg e"
    "dh_boundPort (start_bound now f port e) = Some port"
  using assms
  by (auto simp: start_bound_def dh_emit_def seedStaticReservations_def bindLeasePersistence_def
      restorePersistedLeases_def restored_of_def restored_table_def seeded_table_def Let_def
      js_set_def reconcile_Nil split: option.split)

lemma dhcp_start_cases:
  assumes "dhcp_start p first second f now e = (Inr port, e')"
  shows "e' = start_bound now f port (start_reset e)" "port = p \<or> p = DEFAULT_PORT \<and> port = FALLBACK_ALT_PORT"
  using assms by (auto simp: dhcp_start_def Let_def split: listen_outcome.splits if_splits)

lemma start_reset_simps [simp]:
  "prevLeaseKeys (start_reset e) = []" "prevBindTimes (start_reset e) = []"
  "dh_cfg (start_reset e) = dh_cfg e" "dh_events (start_reset e) = dh_events e"
  by (simp_all add: start_reset_def)

lemma restored_mem:
  assumes "l \<in> set (restored_of now f c)"
  shows "lease_mac l \<noteq> []" "lease_ip l \<noteq> []" "now < expiresAt l"
    "(\<exists>m. (m, lease_ip l) \<in> set (staticMap c) \<and> toLibraryMacKey m = toLibraryMacKey (lease_mac l)
        \<and> map_of (normalizeStaticMap (staticMap c)) (toLibraryMacKey (lease_mac l)) = Some (lease_ip l))
     \<or> map_of (normalizeStaticMap (staticMap c)) (toLibraryMacKey (lease_mac l)) = None
        \<and> lease_ip l \<notin> snd ` set (staticMap c) \<and> isIpInPool (lease_ip l) (rangeStart c) (rangeEnd c)"
proof -
  let ?ctx = "\<lparr>ctx_staticMap = staticMap c, ctx_rangeStart = rangeStart c, ctx_rangeEnd = rangeEnd c, ctx_now = now\<rparr>"
  from assms have "l \<in> set (map (retyped ?ctx) (filter (keeps_lease ?ctx) (loadLeases f)))"
    by (auto simp: restored_of_def fst_reconcile split: option.splits)
  then obtain k where k: "l = retyped ?ctx k" "keeps_lease ?ctx k" "k \<in> set (loadLeases f)" by auto
  have e: "lease_mac l = lease_mac k" "lease_ip l = lease_ip k" "expiresAt l = expiresAt k"
    by (simp_all add: k(1) retyped_def)
  from load_wf [of f] k(3) show "lease_mac l \<noteq> []" "lease_ip l \<noteq> []"
    by (auto simp: list_all_iff wf_lease_def e)
  from k(2) show "now < expiresAt l" by (simp add: keeps_lease_def e)
  show "(\<exists>m. (m, lease_ip l) \<in> set (staticMap c) \<and> toLibraryMacKey m = toLibraryMacKey (lease_mac l)
        \<and> map_of (normalizeStaticMap (staticMap c)) (toLibraryMacKey (lease_mac l)) = Some (lease_ip l))
     \<or> map_of (normalizeStaticMap (staticMap c)) (toLibraryMacKey (lease_mac l)) = None
        \<and> lease_ip l \<notin> snd ` set (staticMap c) \<and> isIpInPool (lease_ip l) (rangeStart c) (rangeEnd c)"
    using k(2) normalize_lookup [of "staticMap c" "toLibraryMacKey (lease_mac l)" "lease_ip l"]
    by (auto simp: keeps_lease_def e split: option.splits)
qed

lemma restored_table_lookup:
  "map_of (restored_table c ls) k = Some x \<Longrightarrow>
    \<exists>l \<in> set ls. lease_mac l = k \<and> x = toRestoredLeaseState l (serverId c)"
  using fold_update_lookup [of lease_mac "\<lambda>l. toRestoredLeaseState l (serverId c)" "[]" ls k x]
  by (auto simp: restored_table_def)

lemma reserved_flags [simp]:
  "\<not> is_reserved (toRestoredLeaseState l s)" "is_reserved (toReservedLeaseState ip s t)"
  "ls_address (toRestoredLeaseState l s) = lease_ip l" "ls_address (toReservedLeaseState ip s t) = ip"
  "bindTime (toRestoredLeaseState l s) = Some (boundAt l)"
  by (simp_all add: is_reserved_def toRestoredLeaseState_def toReservedLeaseState_def RESERVED_LEASE_STATE_def)

definition lib_ok :: "lib_state \<Rightarrow> bool" where
  "lib_ok st \<longleftrightarrow> distinct (map fst st) \<and> list_all (\<lambda>(mac, entry). ls_address entry \<noteq> []) st"

lemma lib_ok_lookup: "distinct (map fst st) \<Longrightarrow>
    (\<And>k x. map_of st k = Some x \<Longrightarrow> ls_address x \<noteq> []) \<Longrightarrow> lib_ok st"
  by (auto simp: lib_ok_def list_all_iff)

lemma seeded_lib_ok: "lib_ok (seeded_table now f c)"
proof (rule lib_ok_lookup)
  show "distinct (map fst (seeded_table now f c))"
    by (simp add: seeded_table_def restored_table_def seed_distinct fold_update_distinct)
  fix k x assume "map_of (seeded_table now f c) k = Some x"
  then show "ls_address x \<noteq> []"
    using restored_mem(2) by (fastforce simp: seeded_table_def dest!: seed_lookup restored_table_lookup pool_nonempty)
qed

lemma reserved_owner:
  assumes "map_of (seeded_table now f c) k = Some x" "(m, ls_address x) \<in> set (staticMap c)"
  shows "\<exists>n. (n, ls_address x) \<in> set (staticMap c) \<and> toLibraryMacKey n = toLibraryMacKey k"
proof -
  from seed_lookup [OF assms(1) [unfolded seeded_table_def]] consider
      l where "l \<in> set (restored_of now f c)" "lease_mac l = k" "x = toRestoredLeaseState l (serverId c)"
    | n ip where "(n, ip) \<in> set (staticMap c)" "toLibraryMacKey n = k"
        "x = toReservedLeaseState ip (serverId c) (leaseTimeSec c)"
    using restored_table_lookup by blast
  then show ?thesis
  proof cases
    case 1
    then have "\<not> lease_ip l \<notin> snd ` set (staticMap c)" using assms(2) by force
    with restored_mem(4) [OF 1(1)] 1 show ?thesis by auto
  next
    case 2
    then show ?thesis using key_idem by auto
  qed
qed

lemma seeded_keeps_restored:
  assumes "distinct_macs (staticMap c)" "map_of (restored_table c (restored_of now f c)) k = Some x"
  shows "map_of (seeded_table now f c) k = Some x"
  unfolding seeded_table_def
proof (rule seed_kept [OF assms(2)])
  from restored_table_lookup [OF assms(2)] obtain l where
    l: "l \<in> set (restored_of now f c)" "lease_mac l = k" "x = toRestoredLeaseState l (serverId c)" by blast
  fix m ip assume m: "(m, ip) \<in> set (staticMap c)" "toLibraryMacKey m = k"
  have "map_of (normalizeStaticMap (staticMap c)) (toLibraryMacKey (lease_mac l)) = Some ip"
    using normalize_member [OF assms(1) m(1)] m(2) l(2) key_idem by metis
  with restored_mem(4) [OF l(1)] l(3) show "ls_address x = ip" by auto
qed

lemma curr_keys_mem: "distinct (map fst st) \<Longrightarrow>
    k \<in> set (curr_keys st) \<longleftrightarrow> (\<exists>x. map_of st k = Some x \<and> \<not> is_reserved x)"
  by (force simp: curr_keys_def map_of_eq_Some_iff)

lemma seeded_curr_keys:
  assumes "distinct_macs (staticMap c)"
  shows "set (curr_keys (seeded_table now f c)) = lease_mac ` set (restored_of now f c)"
proof -
  let ?R = "restored_table c (restored_of now f c)"
  have d: "distinct (map fst (seeded_table now f c))" using seeded_lib_ok by (simp add: lib_ok_def)
  have dom: "fst ` set ?R = lease_mac ` set (restored_of now f c)"
    unfolding restored_table_def by (subst fold_update_keys) simp
  show ?thesis
  proof (intro equalityI subsetI)
    fix k assume "k \<in> set (curr_keys (seeded_table now f c))"
    then obtain x where "map_of (seeded_table now f c) k = Some x" "\<not> is_reserved x"
      using curr_keys_mem [OF d] by blast
    then show "k \<in> lease_mac ` set (restored_of now f c)"
      by (auto simp: seeded_table_def dest!: seed_lookup restored_table_lookup)
  next
    fix k assume "k \<in> lease_mac ` set (restored_of now f c)"
    then obtain x where x: "map_of ?R k = Some x"
      unfolding dom [symmetric] by (metis domD dom_map_of_conv_image_fst)
    from restored_table_lookup [OF this] have "\<not> is_reserved x" by auto
    with seeded_keeps_restored [OF assms x] show "k \<in> set (curr_keys (seeded_table now f c))"
      using curr_keys_mem [OF d] by blast
  qed
qed

section \<open>What the diff reports\<close>

lemma build_mac: "buildLeaseInfo mac x sm now d t = Some i \<Longrightarrow> lease_mac i = mac"
  by (auto simp: buildLeaseInfo_def Let_def split: if_splits)

lemma build_some: "ls_address x \<noteq> [] \<Longrightarrow> \<exists>i. buildLeaseInfo mac x sm now d t = Some i"
  by (simp add: buildLeaseInfo_def Let_def)

lemma lib_ok_mem: "lib_ok st \<Longrightarrow> map_of st k = Some x \<Longrightarrow> ls_address x \<noteq> []"
  by (auto simp: lib_ok_def list_all_iff dest: map_of_SomeD)

lemma curr_lookup:
  assumes "lib_ok st" "k \<in> set (curr_keys st)"
  obtains x where "map_of st k = Some x" "\<not> is_reserved x" "ls_address x \<noteq> []"
  using assms curr_keys_mem [of st k] lib_ok_mem [of st k] by (auto simp: lib_ok_def)

lemma diff_one_bound:
  assumes "lib_ok st"
  shows "map lease_mac (boundMsgs (diff_one now e st d mac))
      = map lease_mac (boundMsgs d)
        @ (if mac \<notin> set (prevLeaseKeys e) \<and> mac \<in> set (curr_keys st) then [mac] else [])"
proof (cases "mac \<notin> set (prevLeaseKeys e) \<and> mac \<in> set (curr_keys st)")
  case True
  then obtain x where x: "map_of st mac = Some x" "ls_address x \<noteq> []"
    using curr_lookup [OF assms] by blast
  from build_some [OF x(2)] obtain i where
    i: "buildLeaseInfo mac x (staticMap (dh_cfg e)) now (leaseTimeSec (dh_cfg e)) None = Some i" by blast
  with True x build_mac [OF i] show ?thesis by (simp add: diff_one_def)
qed (auto simp: diff_one_def Let_def split: option.split)

lemma diff_one_released:
  "releasedMsgs (diff_one now e st d mac)
      = releasedMsgs d
        @ (if mac \<in> set (prevLeaseKeys e) \<and> mac \<notin> set (curr_keys st) then [(mac, None)] else [])"
  by (auto simp: diff_one_def Let_def split: option.split)

lemma diff_one_renewed:
  "set (map lease_mac (renewedMsgs (diff_one now e st d mac)))
    \<subseteq> set (map lease_mac (renewedMsgs d)) \<union> (if mac \<in> set (prevLeaseKeys e) \<and> mac \<in> set (curr_keys st) then {mac} else {})"
  by (auto simp: diff_one_def Let_def build_mac split: option.split)

lemma fold_bound:
  "lib_ok st \<Longrightarrow> map lease_mac (boundMsgs (foldl (diff_one now e st) d macs))
    = map lease_mac (boundMsgs d)
      @ filter (\<lambda>mac. mac \<notin> set (prevLeaseKeys e) \<and> mac \<in> set (curr_keys st)) macs"
  by (induction macs arbitrary: d) (simp_all add: diff_one_bound)

lemma fold_released:
  "releasedMsgs (foldl (diff_one now e st) d macs)
    = releasedMsgs d
      @ map (\<lambda>mac. (mac, None)) (filter (\<lambda>mac. mac \<in> set (prevLeaseKeys e) \<and> mac \<notin> set (curr_keys st)) macs)"
  by (induction macs arbitrary: d) (simp_all add: diff_one_released)

lemma fold_renewed:
  "set (map lease_mac (renewedMsgs (foldl (diff_one now e st) d macs)))
    \<subseteq> set (map lease_mac (renewedMsgs d)) \<union> (set (prevLeaseKeys e) \<inter> set (curr_keys st))"
proof (induction macs arbitrary: d)
  case (Cons mac macs)
  have "set (map lease_mac (renewedMsgs (diff_one now e st d mac)))
      \<subseteq> set (map lease_mac (renewedMsgs d)) \<union> (set (prevLeaseKeys e) \<inter> set (curr_keys st))"
    using diff_one_renewed [of now e st d mac] by (auto split: if_splits)
  with Cons.IH [of "diff_one now e st d mac"] show ?case unfolding foldl_Cons by blast
qed simp

lemma diff_bound:
  "lib_ok st \<Longrightarrow> map lease_mac (boundMsgs (lease_diff_of now e st))
    = filter (\<lambda>mac. mac \<notin> set (prevLeaseKeys e)) (curr_keys st)"
  by (simp add: lease_diff_of_def fold_bound del: foldl_append) (auto simp: filter_empty_conv intro: filter_cong)

lemma diff_released:
  "releasedMsgs (lease_diff_of now e st)
    = map (\<lambda>mac. (mac, None)) (filter (\<lambda>mac. mac \<notin> set (curr_keys st)) (prevLeaseKeys e))"
  by (simp add: lease_diff_of_def fold_released filter_empty_conv cong: filter_cong del: foldl_append)

lemma diff_renewed:
  "lease_mac ` set (renewedMsgs (lease_diff_of now e st)) \<subseteq> set (prevLeaseKeys e) \<inter> set (curr_keys st)"
  using fold_renewed [of now e st "\<lparr>boundMsgs = [], renewedMsgs = [], releasedMsgs = []\<rparr>"]
  by (simp add: lease_diff_of_def del: foldl_append)

text \<open>A lease whose bind time is known and unchanged is not reported as renewed.\<close>

lemma diff_one_same:
  assumes "mac \<in> set (prevLeaseKeys e)" "mac \<in> set (curr_keys st)"
    "map_of st mac = Some x" "bindTime x = Some t" "map_of (prevBindTimes e) mac = Some t"
  shows "diff_one now e st d mac = d"
  using assms by (simp add: diff_one_def or_default_def)

section \<open>Announcements\<close>

text \<open>What an observer knows: the MACs announced as bound and not yet as released. Binding an
  announced MAC again, or renewing or releasing one that is not announced, is an error.\<close>

fun announce :: "string set option \<Rightarrow> dhcp_event \<Rightarrow> string set option" where
  "announce None ev = None"
| "announce (Some A) (LeaseBound l) = (if lease_mac l \<in> A then None else Some (insert (lease_mac l) A))"
| "announce (Some A) (LeaseRenewed l) = (if lease_mac l \<in> A then Some A else None)"
| "announce (Some A) (LeaseReleased mac ip) = (if mac \<in> A then Some (A - {mac}) else None)"
| "announce (Some A) ev = Some A"

definition announced :: "string set \<Rightarrow> dhcp_event list \<Rightarrow> string set option" where
  "announced A evs = foldl announce (Some A) evs"

lemma announced_append: "announced A (xs @ ys) = (case announced A xs of None \<Rightarrow> None | Some B \<Rightarrow> announced B ys)"
proof -
  have "foldl announce None ys = None" for ys by (induction ys) simp_all
  then show ?thesis by (simp add: announced_def split: option.split)
qed

lemma announced_simps [simp]:
  "announced A [] = Some A"
  "announced A (ev # evs) = (case announce (Some A) ev of None \<Rightarrow> None | Some B \<Rightarrow> announced B evs)"
  using announced_append [of A "[ev]" evs] by (simp_all add: announced_def)

lemma announced_bound:
  "distinct (map lease_mac ls) \<Longrightarrow> A \<inter> lease_mac ` set ls = {} \<Longrightarrow>
    announced A (map LeaseBound ls) = Some (A \<union> lease_mac ` set ls)"
  by (induction ls arbitrary: A) (auto simp: insert_commute)

lemma announced_renewed: "lease_mac ` set ls \<subseteq> A \<Longrightarrow> announced A (map LeaseRenewed ls) = Some A"
  by (induction ls) auto

lemma announced_released:
  "distinct ms \<Longrightarrow> set ms \<subseteq> A \<Longrightarrow>
    announced A (map (\<lambda>(mac, ip). LeaseReleased mac ip) (map (\<lambda>mac. (mac, None)) ms)) = Some (A - set ms)"
  by (induction ms arbitrary: A) (auto simp: subset_Diff_insert Diff_insert2 [symmetric])

lemma distinct_curr_keys: "lib_ok st \<Longrightarrow> distinct (curr_keys st)"
  by (auto simp: lib_ok_def curr_keys_def distinct_map_filter)

lemma announced_diff:
  assumes "lib_ok st" "distinct (prevLeaseKeys e)"
  shows "announced (set (prevLeaseKeys e)) (diff_events (lease_diff_of now e st)) = Some (set (curr_keys st))"
proof -
  let ?d = "lease_diff_of now e st" and ?P = "set (prevLeaseKeys e)" and ?C = "set (curr_keys st)"
  have b: "lease_mac ` set (boundMsgs ?d) = ?C - ?P" "distinct (map lease_mac (boundMsgs ?d))"
    using diff_bound [OF assms(1), of now e] distinct_curr_keys [OF assms(1)]
    by (auto simp flip: set_map)
  have 1: "announced ?P (map LeaseBound (boundMsgs ?d)) = Some (?P \<union> ?C)"
    using announced_bound [OF b(2), of ?P] b(1) by auto
  have 2: "announced (?P \<union> ?C) (map LeaseRenewed (renewedMsgs ?d)) = Some (?P \<union> ?C)"
    using diff_renewed [of now e st] by (intro announced_renewed) blast
  have 3: "announced (?P \<union> ?C) (map (\<lambda>(mac, ip). LeaseReleased mac ip) (releasedMsgs ?d))
      = Some ((?P \<union> ?C) - set (filter (\<lambda>mac. mac \<notin> ?C) (prevLeaseKeys e)))"
    unfolding diff_released using assms(2) by (intro announced_released) auto
  have "(?P \<union> ?C) - set (filter (\<lambda>mac. mac \<notin> ?C) (prevLeaseKeys e)) = ?C" by auto
  with 1 2 3 show ?thesis by (simp add: diff_events_def announced_append)
qed

section \<open>Runs\<close>

inductive dhcp_step :: "dhcp_engine \<Rightarrow> dhcp_engine \<Rightarrow> bool" where
  package_acts: "dh_server e = Some st \<Longrightarrow> lib_ok st' \<Longrightarrow> dhcp_step e (e\<lparr>dh_server := Some st'\<rparr>)"
| message_event: "dhcp_step e (processMessage now t e)"
| bound_event: "dhcp_step e (onBound now e)"
| release_packet:
    "dh_server (processMessage now 7 e) = Some st \<Longrightarrow> map_of st mac = Some entry \<Longrightarrow>
     \<not> is_reserved entry \<Longrightarrow> canonicalReleasedMac (Some mac) = Some mac \<Longrightarrow>
     dhcp_step e (onReleased now' (Some mac) (Some (ls_address entry))
       ((processMessage now 7 e)\<lparr>dh_server := Some (AList.delete mac st)\<rparr>))"
| packet_error_event: "dhcp_step e (onPacketError b e)"
| server_error_event: "dhcp_step e (onServerError msg e)"

definition announced_inv :: "string set \<Rightarrow> dhcp_engine \<Rightarrow> bool" where
  "announced_inv A e \<longleftrightarrow> (\<exists>st. dh_server e = Some st \<and> lib_ok st) \<and> distinct (prevLeaseKeys e)
     \<and> announced A (dh_events e) = Some (set (prevLeaseKeys e))"

lemma refresh_simps [simp]:
  "dh_server (refreshLeaseBaseline now e) = dh_server e"
  "dh_events (refreshLeaseBaseline now e) = dh_events e"
  "dh_cfg (refreshLeaseBaseline now e) = dh_cfg e"
  "dh_server e = Some st \<Longrightarrow> prevLeaseKeys (refreshLeaseBaseline now e) = curr_keys st"
  by (auto simp: refreshLeaseBaseline_def split: option.split)

lemma schedule_simps [simp]:
  "dh_server (schedule_store e) = dh_server e" "dh_events (schedule_store e) = dh_events e"
  "dh_cfg (schedule_store e) = dh_cfg e" "prevLeaseKeys (schedule_store e) = prevLeaseKeys e"
  by (simp_all add: schedule_store_def)

lemma emit_simps [simp]:
  "dh_server (dh_emit evs e) = dh_server e" "dh_events (dh_emit evs e) = dh_events e @ evs"
  "dh_cfg (dh_emit evs e) = dh_cfg e" "prevLeaseKeys (dh_emit evs e) = prevLeaseKeys e"
  "dh_counters (dh_emit evs e) = dh_counters e"
  by (simp_all add: dh_emit_def)

lemma diffLeases_state:
  assumes "dh_server e = Some st"
  shows "dh_server (diffLeases now e) = Some st" "prevLeaseKeys (diffLeases now e) = curr_keys st"
    "dh_events (diffLeases now e) = dh_events e @ diff_events (lease_diff_of now e st)"
  using assms by (auto simp: diffLeases_def Let_def)

lemma diffLeases_inv: "announced_inv A e \<Longrightarrow> announced_inv A (diffLeases now e)"
  by (auto simp: announced_inv_def diffLeases_state announced_append announced_diff distinct_curr_keys)

lemma emit_message_inv: "announced_inv A e \<Longrightarrow>
    announced_inv A (dh_emit [MessageDhcp n] (e\<lparr>dh_counters := c\<rparr>))"
  by (auto simp: announced_inv_def announced_append)

lemma processMessage_inv: "announced_inv A e \<Longrightarrow> announced_inv A (processMessage now t e)"
  unfolding processMessage_def by (intro diffLeases_inv emit_message_inv)

lemma processMessage_baseline:
  "dh_server (processMessage now t e) = Some st \<Longrightarrow> prevLeaseKeys (processMessage now t e) = curr_keys st"
  unfolding processMessage_def
  by (cases "dh_server e") (auto simp: diffLeases_state, simp add: diffLeases_def)

lemma lib_ok_delete: "lib_ok st \<Longrightarrow> lib_ok (AList.delete mac st)"
  by (auto simp: lib_ok_def list_all_iff AList.delete_eq distinct_map_filter)

lemma lib_ok_update: "lib_ok st \<Longrightarrow> ls_address x \<noteq> [] \<Longrightarrow> lib_ok (AList.update mac x st)"
  by (rule lib_ok_lookup) (auto simp: lib_ok_def distinct_update update_conv' list_all_iff split: if_splits dest: map_of_SomeD)

lemma curr_keys_delete: "lib_ok st \<Longrightarrow> set (curr_keys (AList.delete mac st)) = set (curr_keys st) - {mac}"
  by (auto simp: curr_keys_def AList.delete_eq)

lemma curr_keys_placeholder:
  "is_reserved x \<Longrightarrow> lib_ok st \<Longrightarrow> ls_address x \<noteq> [] \<Longrightarrow>
    set (curr_keys (AList.update mac x (AList.delete mac st))) = set (curr_keys st) - {mac}"
  using curr_keys_mem [of "AList.update mac x (AList.delete mac st)"] curr_keys_mem [of st]
  by (auto simp: lib_ok_def distinct_update distinct_delete update_conv' delete_conv' split: if_splits)

lemma restore_placeholder_table:
  assumes "lib_ok st"
  shows "\<exists>st'. dh_server (restore_placeholder mac ip (e\<lparr>dh_server := Some (AList.delete mac st)\<rparr>)) = Some st'
    \<and> lib_ok st' \<and> set (curr_keys st') = set (curr_keys st) - {mac}
    \<and> dh_events (restore_placeholder mac ip (e\<lparr>dh_server := Some (AList.delete mac st)\<rparr>)) = dh_events e"
proof (cases ip)
  case None
  with assms show ?thesis by (simp add: restore_placeholder_def lib_ok_delete curr_keys_delete)
next
  case (Some a)
  show ?thesis
  proof (cases "first_static mac (staticMap (dh_cfg e)) = Some a
      \<and> isIpInPool a (rangeStart (dh_cfg e)) (rangeEnd (dh_cfg e))")
    case True
    with pool_nonempty have "a \<noteq> []" by blast
    with True Some assms show ?thesis
      by (simp add: restore_placeholder_def staticAddressForMac_def Let_def lib_ok_delete lib_ok_update
          curr_keys_placeholder)
  next
    case False
    with Some assms show ?thesis
      by (auto simp: restore_placeholder_def staticAddressForMac_def Let_def lib_ok_delete curr_keys_delete)
  qed
qed

lemma released_inv:
  assumes inv: "announced_inv A e" and st: "dh_server e = Some st" and base: "prevLeaseKeys e = curr_keys st"
    and mac: "mac \<in> set (curr_keys st)" "canonicalReleasedMac (Some mac) = Some mac"
  shows "announced_inv A (onReleased now (Some mac) ip (e\<lparr>dh_server := Some (AList.delete mac st)\<rparr>))"
proof -
  let ?e = "e\<lparr>dh_server := Some (AList.delete mac st)\<rparr>"
  have ok: "lib_ok st" and ann: "announced A (dh_events e) = Some (set (curr_keys st))"
    using inv st base by (auto simp: announced_inv_def)
  obtain st' where r: "dh_server (restore_placeholder mac (truthy ip) ?e) = Some st'"
    "lib_ok st'" "set (curr_keys st') = set (curr_keys st) - {mac}"
    "dh_events (restore_placeholder mac (truthy ip) ?e) = dh_events e"
    using restore_placeholder_table [OF ok] by blast
  have m: "mac \<in> set (prevLeaseKeys ?e)" using mac(1) base by simp
  show ?thesis
    using r m mac ann base ok
    by (auto simp: onReleased_def Let_def announced_inv_def announced_append distinct_curr_keys)
qed

lemma announced_step: "dhcp_step e e' \<Longrightarrow> announced_inv A e \<Longrightarrow> announced_inv A e'"
proof (induction rule: dhcp_step.induct)
  case (release_packet now e st mac entry now')
  have i: "announced_inv A (processMessage now 7 e)" using release_packet.prems by (rule processMessage_inv)
  then have "lib_ok st" using release_packet.hyps(1) by (auto simp: announced_inv_def)
  then have "mac \<in> set (curr_keys st)"
    using release_packet.hyps curr_keys_mem [of st mac] by (auto simp: lib_ok_def)
  with i release_packet.hyps show ?case
    by (intro released_inv processMessage_baseline) auto
next
  case (message_event e now t)
  then show ?case by (rule processMessage_inv)
next
  case (bound_event e now)
  then show ?case unfolding onBound_def by (rule diffLeases_inv)
qed (auto simp: announced_inv_def onPacketError_def onServerError_def announced_append)

interpretation dhcp_run: invariant_system "announced_inv A" dhcp_step "announced_inv A"
  by unfold_locales (auto intro: announced_step)

section \<open>Properties\<close>

text \<open>
  After a successful start the lease table respects the reservations: each configured address
  inside the pool is held by the key of its MAC, if no two entries of the configuration name the
  same MAC; and whoever holds a configured address in the table, restored or reserved, is a
  spelling of a MAC it is configured for.
\<close>
theorem start_holds_reservations:
  assumes "dhcp_start p first second f now (new_dhcp_engine cfg) = (Inr port, e)"
  shows "\<exists>st. dh_server e = Some st
    \<and> (distinct_macs (staticMap cfg) \<longrightarrow>
         (\<forall>(m, ip) \<in> set (staticMap cfg). isIpInPool ip (rangeStart cfg) (rangeEnd cfg) \<longrightarrow>
            map_option ls_address (map_of st (toLibraryMacKey m)) = Some ip))
    \<and> (\<forall>k entry. map_of st k = Some entry \<and> ls_address entry \<in> snd ` set (staticMap cfg) \<longrightarrow>
         (\<exists>n. (n, ls_address entry) \<in> set (staticMap cfg) \<and> toLibraryMacKey n = toLibraryMacKey k))"
proof -
  let ?c = "dh_cfg (new_dhcp_engine cfg)"
  have c: "staticMap ?c = staticMap cfg" "rangeStart ?c = rangeStart cfg" "rangeEnd ?c = rangeEnd cfg"
    by (simp_all add: new_dhcp_engine_def staticMap_def rangeStart_def rangeEnd_def)
  have e: "e = start_bound now f port (start_reset (new_dhcp_engine cfg))"
    using dhcp_start_cases(1) [OF assms] .
  have s: "dh_server e = Some (seeded_table now f ?c)" by (simp add: e start_bound_state)
  have "map_option ls_address (map_of (seeded_table now f ?c) (toLibraryMacKey m)) = Some ip"
    if "distinct_macs (staticMap cfg)" "(m, ip) \<in> set (staticMap cfg)"
      "isIpInPool ip (rangeStart cfg) (rangeEnd cfg)" for m ip
    using seed_holds [of "staticMap ?c" m ip ?c] that by (simp add: seeded_table_def c)
  moreover have "\<exists>n. (n, ls_address x) \<in> set (staticMap cfg) \<and> toLibraryMacKey n = toLibraryMacKey k"
    if "map_of (seeded_table now f ?c) k = Some x" "ls_address x \<in> snd ` set (staticMap cfg)" for k x
    using reserved_owner [OF that(1)] that(2) by (auto simp: c)
  ultimately show ?thesis using s by auto
qed

definition example_config :: dhcp_config where
  "example_config = \<lparr>cfg_rangeStart = Some (intToIp 3232236042), cfg_rangeEnd = Some (intToIp 3232236231),
     cfg_subnet = None, cfg_gateway = None, cfg_dns = None, cfg_leaseTimeSec = None, cfg_serverId = None,
     cfg_broadcast = None, cfg_static = Some [(''aa:bb:cc:dd:ee:ff'', intToIp 3232236050)], cfg_bindAddress = None,
     cfg_leaseStorePath = Some ''leases.json'', cfg_bootFileName = Some ''boot.bin'', cfg_nextServer = None,
     cfg_tftpServerAddresses = None, cfg_vendorClassId = Some ''Acme'', cfg_vendorSpecificOptions = None\<rparr>"

definition example_started :: dhcp_engine where
  "example_started = snd (dhcp_start 67 ListenOk ListenOk Unreadable 0 (new_dhcp_engine example_config))"

lemma example_start: "dhcp_start 67 ListenOk ListenOk Unreadable 0 (new_dhcp_engine example_config) = (Inr 67, example_started)"
  by (simp add: example_started_def dhcp_start_def Let_def)

theorem start_holds_reservations_witness:
  "\<exists>st. dh_server example_started = Some st
    \<and> map_option ls_address (map_of st (toLibraryMacKey ''aa:bb:cc:dd:ee:ff'')) = Some (intToIp 3232236050)"
proof -
  have "isIpInPool (intToIp 3232236050) (rangeStart example_config) (rangeEnd example_config)"
    by (simp add: example_config_def rangeStart_def rangeEnd_def or_default_def isIpInPool_word ipWord_intToIp)
  moreover have "distinct_macs (staticMap example_config)"
    "(''aa:bb:cc:dd:ee:ff'', intToIp 3232236050) \<in> set (staticMap example_config)"
    by (simp_all add: distinct_macs_def staticMap_def or_default_def example_config_def)
  ultimately show ?thesis
    using start_holds_reservations [OF example_start] by fast
qed

text \<open>
  Restored leases and reservations are not announced: the only event of a start is that the
  server listens, and a diff of the table the start left reports nothing.
\<close>
theorem start_silent:
  assumes "dhcp_start p first second f now (new_dhcp_engine cfg) = (Inr port, e)"
    "distinct_macs (staticMap cfg)"
  shows "dh_events e = [Listening (bindAddress cfg) port] \<and> dh_events (diffLeases now' e) = dh_events e"
proof -
  let ?c = "dh_cfg (new_dhcp_engine cfg)" and ?st = "seeded_table now f (dh_cfg (new_dhcp_engine cfg))"
  let ?R = "restored_of now f ?c"
  have c: "staticMap ?c = staticMap cfg" "bindAddress ?c = bindAddress cfg" "dh_events (new_dhcp_engine cfg) = []"
    by (simp_all add: new_dhcp_engine_def staticMap_def bindAddress_def)
  have e: "e = start_bound now f port (start_reset (new_dhcp_engine cfg))"
    using dhcp_start_cases(1) [OF assms(1)] .
  have s: "dh_server e = Some ?st" "dh_events e = [Listening (bindAddress cfg) port]"
    and pk: "set (prevLeaseKeys e) = lease_mac ` set ?R"
    and pb: "prevBindTimes e = foldl (\<lambda>m l. AList.update (lease_mac l) (boundAt l) m) [] ?R"
    by (simp_all add: e start_bound_state c js_set_def)
  have ck: "set (curr_keys ?st) = set (prevLeaseKeys e)"
    using seeded_curr_keys [of ?c now f] assms(2) c pk by simp
  have one: "diff_one now' e ?st d mac = d" if m: "mac \<in> set (prevLeaseKeys e)" for mac d
  proof -
    let ?T = "restored_table ?c ?R"
    have rel: "rel_option (\<lambda>x t. bindTime x = Some t) (map_of ?T mac) (map_of (prevBindTimes e) mac)"
      unfolding restored_table_def pb by (rule fold_update_related) simp_all
    have "mac \<in> fst ` set ?T"
      unfolding restored_table_def by (subst fold_update_keys) (use m pk in auto)
    then obtain x where x: "map_of ?T mac = Some x" by (metis domD dom_map_of_conv_image_fst)
    with rel obtain t where t: "map_of (prevBindTimes e) mac = Some t" "bindTime x = Some t"
      by (auto simp: option_rel_Some1)
    show ?thesis
      using seeded_keeps_restored [of ?c now f mac x] assms(2) c x t m ck
      by (intro diff_one_same) auto
  qed
  have "lease_diff_of now' e ?st = \<lparr>boundMsgs = [], renewedMsgs = [], releasedMsgs = []\<rparr>"
  proof -
    have "foldl (diff_one now' e ?st) d macs = d" if "set macs \<subseteq> set (prevLeaseKeys e)" for d macs
      using that by (induction macs) (auto simp: one)
    moreover have "set (prevLeaseKeys e @ filter (\<lambda>mac. mac \<notin> set (prevLeaseKeys e)) (curr_keys ?st))
        \<subseteq> set (prevLeaseKeys e)" using ck by auto
    ultimately show ?thesis unfolding lease_diff_of_def by blast
  qed
  with s show ?thesis by (simp add: diffLeases_state diff_events_def)
qed

theorem start_silent_witness: "dh_events (diffLeases 5 example_started) = dh_events example_started"
  using start_silent [OF example_start, of 5]
  by (simp add: distinct_macs_def staticMap_def or_default_def example_config_def)

text \<open>
  C11. The lease events of a running server tell one consistent story, whatever packets arrive and
  whatever the package does to its table in between: a MAC is announced as bound only when it is
  not already, as renewed or released only when it is, and the MACs announced at any time are
  those of the baseline of the diff.
\<close>
theorem lease_events_consistent:
  assumes "dhcp_start p first second f now (new_dhcp_engine cfg) = (Inr port, e0)" "dhcp_step\<^sup>*\<^sup>* e0 e"
  shows "announced (set (prevLeaseKeys e0)) (dh_events e) = Some (set (prevLeaseKeys e))"
proof -
  have e: "e0 = start_bound now f port (start_reset (new_dhcp_engine cfg))"
    using dhcp_start_cases(1) [OF assms(1)] .
  have "dh_events (new_dhcp_engine cfg) = []" by (simp add: new_dhcp_engine_def)
  then have "announced_inv (set (prevLeaseKeys e0)) e0"
    using seeded_lib_ok by (auto simp: announced_inv_def e start_bound_state js_set_def)
  then have "announced_inv (set (prevLeaseKeys e0)) e"
    using dhcp_run.inv_steps [OF assms(2)] by blast
  then show ?thesis by (simp add: announced_inv_def)
qed

theorem lease_events_consistent_witness:
  "announced (set (prevLeaseKeys example_started)) (dh_events (processMessage 5 1 example_started))
    = Some (set (prevLeaseKeys (processMessage 5 1 example_started)))"
  using lease_events_consistent [OF example_start, of "processMessage 5 1 example_started"]
  by (simp add: r_into_rtranclp message_event)

text \<open>
  An entry without a bind time, as the package creates for an offer, is reported as renewed by
  every later diff, although nothing has changed: the missing time counts as the current one.
\<close>
theorem offer_reported_renewed:
  assumes "dh_server e = Some st" "mac \<in> set (prevLeaseKeys e)" "mac \<in> set (curr_keys st)"
    "map_of st mac = Some x" "bindTime x = None" "ls_address x \<noteq> []"
    "map_of (prevBindTimes e) mac = Some t" "t < now"
  shows "\<exists>l. LeaseRenewed l \<in> set (dh_events (diffLeases now e)) \<and> lease_mac l = mac"
proof -
  obtain i where i: "buildLeaseInfo mac x (staticMap (dh_cfg e)) now (leaseTimeSec (dh_cfg e)) (Some LRenewed) = Some i"
    using build_some [OF assms(6)] by blast
  have grow: "set (renewedMsgs d) \<subseteq> set (renewedMsgs (foldl (diff_one now e st) d macs))" for d macs
  proof (induction macs arbitrary: d)
    case (Cons a macs)
    have "set (renewedMsgs d) \<subseteq> set (renewedMsgs (diff_one now e st d a))"
      by (auto simp: diff_one_def Let_def split: option.split)
    with Cons [of "diff_one now e st d a"] show ?case by simp
  qed simp
  obtain ys zs where p: "prevLeaseKeys e = ys @ mac # zs" using assms(2) by (metis split_list)
  have "i \<in> set (renewedMsgs (diff_one now e st d mac))" for d
    using assms i by (simp add: diff_one_def or_default_def)
  then have "i \<in> set (renewedMsgs (foldl (diff_one now e st) d (ys @ mac # us)))" for d us
    using grow [of "diff_one now e st (foldl (diff_one now e st) d ys) mac" us] by auto
  then have "i \<in> set (renewedMsgs (lease_diff_of now e st))"
    unfolding lease_diff_of_def p append_assoc append_Cons by blast
  then show ?thesis using assms(1) build_mac [OF i] by (auto simp: diffLeases_state diff_events_def)
qed

lemma gate_closed:
  assumes "cfg_vendorClassId cfg = Some cls"
    "js_trim cls = [] \<or> map_option (\<lambda>v. toLowerCase (js_trim v)) observed \<noteq> Some (toLowerCase (js_trim cls))"
  shows "Option.bind (map_option (gateOnVendorClass (dh_cfg (new_dhcp_engine cfg))) opt)
    (\<lambda>v. resolve_value v observed) = None"
  using assms
  by (cases opt) (auto simp: gateOnVendorClass_def new_dhcp_engine_def matchesVendorClass_def js_trim_idem
      split: option.splits)

text \<open>
  Boot options are gated: with a vendor class configured, blank or not, a request whose own
  class is not that text, up to case and surrounding space, gets none of the four boot options.
\<close>
theorem boot_options_gated:
  assumes "cfg_vendorClassId cfg = Some cls"
    "js_trim cls = [] \<or> map_option (\<lambda>v. toLowerCase (js_trim v)) observed \<noteq> Some (toLowerCase (js_trim cls))"
  shows "let boot = sc_boot (buildServerConfig (dh_cfg (new_dhcp_engine cfg))) in
    Option.bind (boot_tftpServer boot) (\<lambda>v. resolve_value v observed) = None
    \<and> Option.bind (boot_bootFile boot) (\<lambda>v. resolve_value v observed) = None
    \<and> Option.bind (boot_tftpServerAddresses boot) (\<lambda>v. resolve_value v observed) = None
    \<and> Option.bind (boot_vendor boot) (\<lambda>v. resolve_value v observed) = None"
  by (simp add: buildServerConfig_def buildBootOptions_def Let_def gate_closed [OF assms])

theorem boot_options_gated_witness:
  "Option.bind (boot_bootFile (sc_boot (buildServerConfig (dh_cfg (new_dhcp_engine example_config)))))
     (\<lambda>v. resolve_value v None) = None"
  using boot_options_gated [of example_config "''Acme''" None]
  by (simp add: example_config_def Let_def)

text \<open>
  Two spellings of one MAC in the configuration are read differently: the classification of a
  lease takes the first, the reconciliation with the file the last.
\<close>
theorem static_spellings_disagree:
  assumes "toLibraryMacKey m = toLibraryMacKey n" "a \<noteq> b"
  shows "\<not> isStaticLease m b [(m, a), (n, b)]
    \<and> map_of (normalizeStaticMap [(m, a), (n, b)]) (toLibraryMacKey m) = Some b"
  using assms by (simp add: isStaticLease_def normalizeStaticMap_def)

end
