(* ===== verification/Read_Slots.thy ===== *)
theory Read_Slots
  imports Prelude
begin

text \<open>
  The scheduler behind the file operations of scripts:
  \<open>src/src/services/scripts/readSlotScheduler.ts\<close>. A semaphore hands permits to waiting calls
  in order; each call is a slot that moves through the states of the table \<open>LEGAL_NEXT\<close>. A
  call is known by its number, the position of its slot. A thrown error is recorded in
  \<open>fault\<close>. The steps of a run are what the event loop may do next: a call is submitted, the
  promise of its permit is observed, it begins or declines its work, its deadline fires, or
  its work settles. That a timer never fires between the admission of a slot and the start of
  its work is a property of the event loop: all that lies between are microtasks.
\<close>

section \<open>The semaphore\<close>

text \<open>A waiter is the number of its call and whether it still has its resolver; \<open>False\<close> is the
  shell a cancelled waiter leaves.\<close>

record semaphore =
  available :: nat
  sem_queue :: "(nat \<times> bool) list"
  dead :: nat
  compactions :: nat
  cancelWork :: nat

definition createSemaphore :: "nat \<Rightarrow> semaphore" where
  "createSemaphore limit =
     \<lparr>available = limit, sem_queue = [], dead = 0, compactions = 0, cancelWork = 0\<rparr>"

definition sem_compact :: "semaphore \<Rightarrow> semaphore" where
  "sem_compact s =
     s\<lparr>sem_queue := filter snd (sem_queue s), dead := 0, compactions := compactions s + 1,
       cancelWork := cancelWork s + length (sem_queue s)\<rparr>"

definition sem_queued :: "semaphore \<Rightarrow> nat" where
  "sem_queued s = length (sem_queue s) - dead s"

text \<open>The result says whether the permit is granted at once.\<close>

definition acquireCancellable :: "nat \<Rightarrow> semaphore \<Rightarrow> semaphore \<times> bool" where
  "acquireCancellable i s =
     (if 0 < available s then (s\<lparr>available := available s - 1\<rparr>, True)
      else (s\<lparr>sem_queue := sem_queue s @ [(i, True)]\<rparr>, False))"

definition mark_dead :: "nat \<Rightarrow> (nat \<times> bool) list \<Rightarrow> (nat \<times> bool) list" where
  "mark_dead i q = map (\<lambda>(j, live). (j, live \<and> j \<noteq> i)) q"

text \<open>The result says whether the wait was still there to abandon.\<close>

definition cancelWaiter :: "nat \<Rightarrow> semaphore \<Rightarrow> semaphore \<times> bool" where
  "cancelWaiter i s =
     (if (i, True) \<notin> set (sem_queue s) then (s, False)
      else
        (let s1 = s\<lparr>sem_queue := mark_dead i (sem_queue s), dead := dead s + 1\<rparr>
         in (if length (sem_queue s1) - dead s1 < dead s1 then sem_compact s1 else s1, True)))"

text \<open>The result is the waiter the permit was handed to.\<close>

fun release_loop :: "(nat \<times> bool) list \<Rightarrow> semaphore \<Rightarrow> semaphore \<times> nat option" where
  "release_loop [] s = (s\<lparr>sem_queue := [], available := available s + 1\<rparr>, None)"
| "release_loop ((i, live) # q) s =
     (if live then (s\<lparr>sem_queue := q\<rparr>, Some i)
      else release_loop q (s\<lparr>dead := dead s - 1\<rparr>))"

definition sem_release :: "semaphore \<Rightarrow> semaphore \<times> nat option" where
  "sem_release s = release_loop (sem_queue s) s"

section \<open>Slots\<close>

datatype slot_state = Queued | Admitted | Running | Settled | Abandoned | Expired | Orphaned
  | Held | Promoted | Retired

fun LEGAL_NEXT :: "slot_state \<Rightarrow> slot_state list" where
  "LEGAL_NEXT Queued = [Admitted, Expired]"
| "LEGAL_NEXT Admitted = [Running, Abandoned]"
| "LEGAL_NEXT Running = [Settled, Orphaned, Held]"
| "LEGAL_NEXT Held = [Promoted, Settled]"
| "LEGAL_NEXT Orphaned = [Retired]"
| "LEGAL_NEXT Promoted = [Retired]"
| "LEGAL_NEXT Settled = []"
| "LEGAL_NEXT Abandoned = []"
| "LEGAL_NEXT Expired = []"
| "LEGAL_NEXT Retired = []"

definition PERMIT_HOLDING :: "slot_state \<Rightarrow> bool" where
  "PERMIT_HOLDING st \<longleftrightarrow> st = Admitted \<or> st = Running \<or> st = Held"

definition ORPHAN_OCCUPYING :: "slot_state \<Rightarrow> bool" where
  "ORPHAN_OCCUPYING st \<longleftrightarrow> st = Orphaned \<or> st = Promoted"

text \<open>The promise of a permit request: pending, settled and not yet observed by \<open>claimPermit\<close>,
  or observed.\<close>

datatype permit_request = Waiting | Granted | Cancelled | Observed

record read_slot =
  slot_state :: slot_state
  slot_label :: string
  slot_permit :: permit_request

datatype scheduler_fault = IllegalTransition slot_state slot_state string | HeldMissing string

record scheduler =
  permits :: semaphore
  maxConcurrent :: nat
  maxOrphaned :: int
  held :: "nat list"
  orphaned :: int
  permitsInUse :: int
  slots :: "read_slot list"
  fault :: "scheduler_fault option"

definition new_scheduler :: "nat \<Rightarrow> int \<Rightarrow> scheduler" where
  "new_scheduler concurrent orphans =
     \<lparr>permits = createSemaphore concurrent, maxConcurrent = concurrent, maxOrphaned = orphans,
      held = [], orphaned = 0, permitsInUse = 0, slots = [], fault = None\<rparr>"

record slot_snapshot =
  snap_permitsInUse :: int
  snap_orphaned :: int
  snap_held :: "string list"
  snap_queued :: nat

definition slot_at :: "scheduler \<Rightarrow> nat \<Rightarrow> read_slot" where
  "slot_at sc i = slots sc ! i"

definition snapshot :: "scheduler \<Rightarrow> slot_snapshot" where
  "snapshot sc =
     \<lparr>snap_permitsInUse = permitsInUse sc, snap_orphaned = orphaned sc,
      snap_held = map (\<lambda>i. slot_label (slot_at sc i)) (held sc),
      snap_queued = sem_queued (permits sc)\<rparr>"

definition upd_slot :: "nat \<Rightarrow> (read_slot \<Rightarrow> read_slot) \<Rightarrow> scheduler \<Rightarrow> scheduler" where
  "upd_slot i f sc = sc\<lparr>slots := (slots sc)[i := f (slots sc ! i)]\<rparr>"

text \<open>Releasing a permit settles the promise of the waiter it goes to.\<close>

definition release_permit :: "scheduler \<Rightarrow> scheduler" where
  "release_permit sc =
     (case sem_release (permits sc) of
        (p, None) \<Rightarrow> sc\<lparr>permits := p\<rparr>
      | (p, Some i) \<Rightarrow> upd_slot i (\<lambda>s. s\<lparr>slot_permit := Granted\<rparr>) (sc\<lparr>permits := p\<rparr>))"

text \<open>
  \<open>transition\<close> up to its last line: table check, new state, list of held slots, the two
  counters and the permit.
\<close>

definition account_held :: "nat \<Rightarrow> slot_state \<Rightarrow> slot_state \<Rightarrow> scheduler \<Rightarrow> scheduler" where
  "account_held i prev next' sc =
     (let sc1 = (if next' = Held then sc\<lparr>held := held sc @ [i]\<rparr> else sc)
      in if prev = Held then
           (if i \<in> set (held sc1) then sc1\<lparr>held := remove1 i (held sc1)\<rparr>
            else sc1\<lparr>fault := Some (HeldMissing (slot_label (slot_at sc i)))\<rparr>)
         else sc1)"

definition account_orphan :: "slot_state \<Rightarrow> slot_state \<Rightarrow> scheduler \<Rightarrow> scheduler" where
  "account_orphan prev next' sc =
     sc\<lparr>orphaned := orphaned sc + (if ORPHAN_OCCUPYING next' then 1 else 0)
          - (if ORPHAN_OCCUPYING prev then 1 else 0)\<rparr>"

definition account_permit :: "slot_state \<Rightarrow> slot_state \<Rightarrow> scheduler \<Rightarrow> scheduler" where
  "account_permit prev next' sc =
     (if PERMIT_HOLDING prev then
        (if PERMIT_HOLDING next' then sc
         else release_permit (sc\<lparr>permitsInUse := permitsInUse sc - 1\<rparr>))
      else if PERMIT_HOLDING next' then sc\<lparr>permitsInUse := permitsInUse sc + 1\<rparr>
      else sc)"

definition transition_core :: "nat \<Rightarrow> slot_state \<Rightarrow> scheduler \<Rightarrow> scheduler" where
  "transition_core i next' sc =
     (let prev = slot_state (slot_at sc i) in
      if next' \<notin> set (LEGAL_NEXT prev)
      then sc\<lparr>fault := Some (IllegalTransition prev next' (slot_label (slot_at sc i)))\<rparr>
      else
        (let sc1 = account_held i prev next' (upd_slot i (\<lambda>s. s\<lparr>slot_state := next'\<rparr>) sc)
         in if fault sc1 \<noteq> fault sc then sc1
            else account_permit prev next' (account_orphan prev next' sc1)))"

text \<open>
  \<open>promoteHeld\<close>: a promoted slot leaves the list of held ones, so as many turns as there are
  held slots are enough; an error ends the loop. The transitions of the loop start from \<open>held\<close>
  and do not reopen it.
\<close>

primrec promote_loop :: "nat \<Rightarrow> scheduler \<Rightarrow> scheduler" where
  "promote_loop 0 sc = sc"
| "promote_loop (Suc n) sc =
     (if orphaned sc < maxOrphaned sc \<and> held sc \<noteq> [] \<and> fault sc = None
      then promote_loop n (transition_core (hd (held sc)) Promoted sc) else sc)"

definition promoteHeld :: "scheduler \<Rightarrow> scheduler" where
  "promoteHeld sc = promote_loop (length (held sc)) sc"

definition transition :: "nat \<Rightarrow> slot_state \<Rightarrow> scheduler \<Rightarrow> scheduler" where
  "transition i next' sc =
     (let sc1 = transition_core i next' sc
      in if fault sc1 = None \<and> ORPHAN_OCCUPYING (slot_state (slot_at sc i))
         then promoteHeld sc1 else sc1)"

section \<open>A call\<close>

text \<open>\<open>runGated\<close> up to its first await: the slot, its place in the queue and its deadline.\<close>

definition runGated :: "string \<Rightarrow> scheduler \<Rightarrow> scheduler" where
  "runGated lbl sc =
     (let i = length (slots sc); (p, granted) = acquireCancellable i (permits sc)
      in sc\<lparr>permits := p,
            slots := slots sc @ [\<lparr>slot_state = Queued, slot_label = lbl,
                                  slot_permit = (if granted then Granted else Waiting)\<rparr>]\<rparr>)"

text \<open>\<open>claimPermit\<close> when the promise of the request has settled.\<close>

definition claimPermit :: "nat \<Rightarrow> scheduler \<Rightarrow> scheduler" where
  "claimPermit i sc =
     (let outcome = slot_permit (slot_at sc i);
          sc1 = upd_slot i (\<lambda>s. s\<lparr>slot_permit := Observed\<rparr>) sc
      in if outcome = Cancelled then sc1
         else if slot_state (slot_at sc i) = Expired then release_permit sc1
         else transition i Admitted sc1)"

text \<open>\<open>runGated\<close> after the admission: \<open>onAdmitted\<close> may throw; otherwise the work starts.\<close>

definition begin_work :: "bool \<Rightarrow> nat \<Rightarrow> scheduler \<Rightarrow> scheduler" where
  "begin_work accepted i sc = transition i (if accepted then Running else Abandoned) sc"

definition cancel_request :: "nat \<Rightarrow> scheduler \<Rightarrow> scheduler" where
  "cancel_request i sc =
     (case cancelWaiter i (permits sc) of
        (p, True) \<Rightarrow> upd_slot i (\<lambda>s. s\<lparr>slot_permit := Cancelled\<rparr>) (sc\<lparr>permits := p\<rparr>)
      | (p, False) \<Rightarrow> sc)"

text \<open>The deadline fires: the work has started exactly when the slot is running.\<close>

definition fire_deadline :: "nat \<Rightarrow> scheduler \<Rightarrow> scheduler" where
  "fire_deadline i sc =
     (if slot_state (slot_at sc i) = Running
      then transition i (if orphaned sc < maxOrphaned sc then Orphaned else Held) sc
      else cancel_request i (transition i Expired sc))"

text \<open>The work settles: in time in \<open>runGated\<close> itself, after the deadline in its handler.\<close>

definition work_settles :: "nat \<Rightarrow> scheduler \<Rightarrow> scheduler" where
  "work_settles i sc =
     transition i (if slot_state (slot_at sc i) = Running \<or> slot_state (slot_at sc i) = Held
                   then Settled else Retired) sc"

inductive sched_step :: "scheduler \<Rightarrow> scheduler \<Rightarrow> bool" where
  submit: "sched_step sc (runGated lbl sc)"
| claim: "i < length (slots sc) \<Longrightarrow> slot_permit (slot_at sc i) \<in> {Granted, Cancelled} \<Longrightarrow>
    sched_step sc (claimPermit i sc)"
| start_work: "i < length (slots sc) \<Longrightarrow> slot_state (slot_at sc i) = Admitted \<Longrightarrow>
    sched_step sc (begin_work accepted i sc)"
| deadline: "i < length (slots sc) \<Longrightarrow> slot_state (slot_at sc i) \<in> {Queued, Running} \<Longrightarrow>
    sched_step sc (fire_deadline i sc)"
| settle: "i < length (slots sc) \<Longrightarrow>
    slot_state (slot_at sc i) \<in> {Running, Held, Orphaned, Promoted} \<Longrightarrow>
    sched_step sc (work_settles i sc)"

inductive_cases sched_stepE: "sched_step sc sc'"

end
