(* ===== verification/Read_Slot_Runs.thy ===== *)
theory Read_Slot_Runs
  imports Read_Slots
begin

text \<open>
  Theorems on the scheduler of script file operations: the laws of the semaphore, an invariant
  that ties the two counters, the list of held slots and the queue of waiters to the states of
  the slots, its preservation by every step of the event loop, and what follows for every
  interleaving. The invariant carries a number of permits in flight (\<open>sched_inv_k\<close>), because
  \<open>transition\<close> gives the permit back after it has already moved the slot.
\<close>

section \<open>Counting in lists\<close>

lemma nth_update_lt: "j < length xs \<Longrightarrow> xs[i := y] ! j = (if j = i then y else xs ! j)"
  by auto

section \<open>Laws of the semaphore\<close>

lemma release_loop_None:
  "release_loop q s = (s', None) \<Longrightarrow> list_all (\<lambda>w. \<not> snd w) q
    \<and> s' = s\<lparr>sem_queue := [], available := available s + 1, dead := dead s - length q\<rparr>"
  by (induction q s rule: release_loop.induct) (auto split: if_splits)

lemma release_loop_Some:
  "release_loop q s = (s', Some i) \<Longrightarrow>
    \<exists>pre post. q = pre @ (i, True) # post \<and> list_all (\<lambda>w. \<not> snd w) pre
      \<and> s' = s\<lparr>sem_queue := post, dead := dead s - length pre\<rparr>"
proof (induction q s rule: release_loop.induct)
  case (2 j live q s)
  show ?case
  proof (cases live)
    case True
    with "2.prems" show ?thesis by (intro exI [of _ "[]"] exI [of _ q]) auto
  next
    case False
    with 2 obtain pre post where "q = pre @ (i, True) # post" "list_all (\<lambda>w. \<not> snd w) pre"
      "s' = s\<lparr>sem_queue := post, dead := dead s - 1 - length pre\<rparr>" by auto
    with False show ?thesis by (intro exI [of _ "(j, live) # pre"] exI [of _ post]) auto
  qed
qed simp

definition shells :: "(nat \<times> bool) list \<Rightarrow> nat" where
  "shells q = length (filter (\<lambda>w. \<not> snd w) q)"

lemma shells_simps [simp]:
  "shells [] = 0" "shells (w # q) = (if snd w then shells q else Suc (shells q))"
  "shells (p @ q) = shells p + shells q"
  by (simp_all add: shells_def)

lemma shells_all: "list_all (\<lambda>w. \<not> snd w) q \<Longrightarrow> shells q = length q"
  by (induction q) auto

lemma shells_live [simp]: "shells (filter snd q) = 0"
  by (induction q) auto

lemma shells_le: "shells q \<le> length q"
  by (simp add: shells_def)

lemma mark_dead_absent: "(i, True) \<notin> set q \<Longrightarrow> mark_dead i q = q"
  by (induction q) (auto simp: mark_dead_def)

lemma shells_mark_dead:
  "distinct (map fst q) \<Longrightarrow> (i, True) \<in> set q \<Longrightarrow> shells (mark_dead i q) = Suc (shells q)"
proof (induction q)
  case (Cons w q)
  obtain j l where w: "w = (j, l)" by (cases w)
  show ?case
  proof (cases "w = (i, True)")
    case True
    with Cons.prems have "(i, True) \<notin> set q" by (force simp: image_iff)
    with True show ?thesis using mark_dead_absent [of i q] by (simp add: mark_dead_def)
  next
    case False
    with Cons.prems w have "(i, True) \<in> set q" "j \<noteq> i" by force+
    with Cons w show ?thesis by (simp add: mark_dead_def)
  qed
qed simp

lemma fst_mark_dead [simp]: "map fst (mark_dead i q) = map fst q" "length (mark_dead i q) = length q"
  by (auto simp: mark_dead_def)

lemma mark_dead_fst: "w \<in> set (mark_dead i q) \<Longrightarrow> fst w \<in> fst ` set q"
  by (force simp: mark_dead_def)

lemma mark_dead_mem: "(j, True) \<in> set (mark_dead i q) \<longleftrightarrow> (j, True) \<in> set q \<and> j \<noteq> i"
  by (force simp: mark_dead_def)

text \<open>Waiters and shells of the queue of a semaphore, against the requests of the slots.\<close>

definition sem_ok :: "semaphore \<Rightarrow> read_slot list \<Rightarrow> bool" where
  "sem_ok p sl \<longleftrightarrow> distinct (map fst (sem_queue p)) \<and> dead p = shells (sem_queue p)
     \<and> (\<forall>w \<in> set (sem_queue p). fst w < length sl)
     \<and> (\<forall>j < length sl. (j, True) \<in> set (sem_queue p) \<longleftrightarrow> slot_permit (sl ! j) = Waiting)
     \<and> (0 < available p \<longrightarrow> list_all (\<lambda>w. \<not> snd w) (sem_queue p))
     \<and> sorted_wrt (<) (map fst (sem_queue p))"

lemma sem_release_None:
  assumes "sem_release p = (p', None)" "sem_ok p sl"
  shows "sem_ok p' sl" "available p' = available p + 1"
proof -
  from release_loop_None [OF assms(1) [unfolded sem_release_def]]
  have q: "list_all (\<lambda>w. \<not> snd w) (sem_queue p)"
    and p': "p' = p\<lparr>sem_queue := [], available := available p + 1, dead := dead p - length (sem_queue p)\<rparr>" by auto
  have "slot_permit (sl ! j) \<noteq> Waiting" if "j < length sl" for j
    using assms(2) q that by (force simp: sem_ok_def list_all_iff)
  then show "sem_ok p' sl" "available p' = available p + 1"
    using assms(2) q by (auto simp: sem_ok_def p' shells_all)
qed

lemma sem_release_Some:
  assumes "sem_release p = (p', Some i)" "sem_ok p sl"
  shows "i < length sl" "slot_permit (sl ! i) = Waiting" "available p' = available p"
    "sem_ok p' (sl[i := (sl ! i)\<lparr>slot_permit := Granted\<rparr>])"
proof -
  from release_loop_Some [OF assms(1) [unfolded sem_release_def]] obtain pre post
    where q: "sem_queue p = pre @ (i, True) # post" "list_all (\<lambda>w. \<not> snd w) pre"
    and p': "p' = p\<lparr>sem_queue := post, dead := dead p - length pre\<rparr>" by blast
  show i: "i < length sl" using assms(2) q(1) by (auto simp: sem_ok_def)
  show "slot_permit (sl ! i) = Waiting" using assms(2) q(1) i by (auto simp: sem_ok_def)
  show "available p' = available p" by (simp add: p')
  have pre: "(j, True) \<notin> set pre" for j using q(2) by (auto simp: list_all_iff)
  have d: "(j, True) \<in> set post \<longleftrightarrow> (j, True) \<in> set (sem_queue p) \<and> j \<noteq> i" for j
  proof -
    have "distinct (map fst (pre @ (i, True) # post))" using assms(2) by (simp add: sem_ok_def q(1))
    then have "(i, True) \<notin> set post" by (force simp: image_iff)
    then show ?thesis using pre [of j] by (auto simp: q(1))
  qed
  show "sem_ok p' (sl[i := (sl ! i)\<lparr>slot_permit := Granted\<rparr>])"
    unfolding sem_ok_def
  proof (intro conjI ballI allI impI)
    let ?sl = "sl[i := (sl ! i)\<lparr>slot_permit := Granted\<rparr>]"
    show "(j, True) \<in> set (sem_queue p') \<longleftrightarrow> slot_permit (?sl ! j) = Waiting" if "j < length ?sl" for j
    proof -
      have "(j, True) \<in> set (sem_queue p) \<longleftrightarrow> slot_permit (sl ! j) = Waiting"
        using assms(2) that by (simp add: sem_ok_def)
      then show ?thesis using d [of j] that by (simp add: p' nth_update_lt)
    qed
    show "dead p' = shells (sem_queue p')"
      using assms(2) by (simp add: sem_ok_def p' q(1) shells_all [OF q(2)])
  qed (use assms(2) in \<open>auto simp: sem_ok_def p' q(1) sorted_wrt_append\<close>)
qed

lemma sorted_live: "sorted_wrt (<) (map fst q) \<Longrightarrow> sorted_wrt (<) (map fst (filter P q))"
  by (simp add: sorted_wrt_map sorted_wrt_filter)

lemma sem_ok_compact: "sem_ok p sl \<Longrightarrow> sem_ok (sem_compact p) sl"
  by (auto simp: sem_ok_def sem_compact_def distinct_map_filter list_all_iff sorted_live)

lemma cancelWaiter_cases:
  assumes "sem_ok p sl" "i < length sl"
  shows "cancelWaiter i p = (p', b) \<Longrightarrow> b = (slot_permit (sl ! i) = Waiting)
    \<and> available p' = available p
    \<and> (\<not> b \<longrightarrow> p' = p) \<and> (b \<longrightarrow> sem_ok p' (sl[i := (sl ! i)\<lparr>slot_permit := Cancelled\<rparr>]))"
proof (cases "(i, True) \<in> set (sem_queue p)")
  case True
  let ?sl = "sl[i := (sl ! i)\<lparr>slot_permit := Cancelled\<rparr>]"
  let ?p1 = "p\<lparr>sem_queue := mark_dead i (sem_queue p), dead := dead p + 1\<rparr>"
  have w: "slot_permit (sl ! i) = Waiting" using assms True by (auto simp: sem_ok_def)
  have av: "available p = 0" using assms(1) True by (force simp: sem_ok_def list_all_iff)
  have ok1: "sem_ok ?p1 ?sl"
    unfolding sem_ok_def
  proof (intro conjI ballI allI impI)
    show "fst w < length ?sl" if "w \<in> set (sem_queue ?p1)" for w
      using assms(1) mark_dead_fst [of w i "sem_queue p"] that by (auto simp: sem_ok_def)
    show "(j, True) \<in> set (sem_queue ?p1) \<longleftrightarrow> slot_permit (?sl ! j) = Waiting" if "j < length ?sl" for j
      using assms that by (auto simp: sem_ok_def mark_dead_mem nth_update_lt)
  qed (use assms True av in \<open>auto simp: sem_ok_def shells_mark_dead\<close>)
  have ok2: "sem_ok (sem_compact ?p1) ?sl" using ok1 by (rule sem_ok_compact)
  assume "cancelWaiter i p = (p', b)"
  with True have "b" "p' = ?p1 \<or> p' = sem_compact ?p1"
    by (auto simp: cancelWaiter_def Let_def split: if_splits)
  with ok1 ok2 w show ?thesis by (auto simp: sem_compact_def)
next
  case False
  then have "slot_permit (sl ! i) \<noteq> Waiting" using assms by (auto simp: sem_ok_def)
  moreover assume "cancelWaiter i p = (p', b)"
  ultimately show ?thesis using False by (auto simp: cancelWaiter_def)
qed

section \<open>The invariant\<close>

definition count_slots :: "(read_slot \<Rightarrow> bool) \<Rightarrow> scheduler \<Rightarrow> nat" where
  "count_slots P sc = length (filter P (slots sc))"

definition holding :: "read_slot \<Rightarrow> bool" where "holding s \<longleftrightarrow> PERMIT_HOLDING (slot_state s)"
definition orphan :: "read_slot \<Rightarrow> bool" where "orphan s \<longleftrightarrow> ORPHAN_OCCUPYING (slot_state s)"
definition unclaimed :: "read_slot \<Rightarrow> bool" where "unclaimed s \<longleftrightarrow> slot_permit s = Granted"

definition slot_ok :: "read_slot \<Rightarrow> bool" where
  "slot_ok s = (case slot_permit s of
      Waiting \<Rightarrow> slot_state s = Queued
    | Granted \<Rightarrow> slot_state s = Queued \<or> slot_state s = Expired
    | Cancelled \<Rightarrow> slot_state s = Expired
    | Observed \<Rightarrow> slot_state s \<noteq> Queued)"

definition held_ok :: "scheduler \<Rightarrow> bool" where
  "held_ok sc \<longleftrightarrow> distinct (held sc)
     \<and> (\<forall>i. i \<in> set (held sc) \<longleftrightarrow> i < length (slots sc) \<and> slot_state (slots sc ! i) = Held)"

text \<open>The invariant with \<open>k\<close> permits in hand, about to be released.\<close>

definition sched_inv_k :: "nat \<Rightarrow> scheduler \<Rightarrow> bool" where
  "sched_inv_k k sc \<longleftrightarrow> fault sc = None
     \<and> permitsInUse sc = int (count_slots holding sc)
     \<and> orphaned sc = int (count_slots orphan sc) \<and> orphaned sc \<le> maxOrphaned sc
     \<and> held_ok sc \<and> sem_ok (permits sc) (slots sc) \<and> list_all slot_ok (slots sc)
     \<and> available (permits sc) + count_slots holding sc + count_slots unclaimed sc + k = maxConcurrent sc"

definition promoted_enough :: "scheduler \<Rightarrow> bool" where
  "promoted_enough sc \<longleftrightarrow> held sc = [] \<or> orphaned sc = maxOrphaned sc"

definition sched_inv :: "scheduler \<Rightarrow> bool" where
  "sched_inv sc \<longleftrightarrow> sched_inv_k 0 sc \<and> promoted_enough sc"

lemma count_upd:
  assumes "i < length (slots sc)"
  shows "count_slots P (upd_slot i f sc) + (if P (slots sc ! i) then 1 else 0)
    = count_slots P sc + (if P (f (slots sc ! i)) then 1 else 0)"
  using length_filter_update [OF assms] by (simp add: count_slots_def upd_slot_def)

lemma upd_slot_simps [simp]:
  "permits (upd_slot i f sc) = permits sc" "held (upd_slot i f sc) = held sc"
  "orphaned (upd_slot i f sc) = orphaned sc" "permitsInUse (upd_slot i f sc) = permitsInUse sc"
  "maxConcurrent (upd_slot i f sc) = maxConcurrent sc" "maxOrphaned (upd_slot i f sc) = maxOrphaned sc"
  "fault (upd_slot i f sc) = fault sc" "length (slots (upd_slot i f sc)) = length (slots sc)"
  "slots (upd_slot i f sc) = (slots sc)[i := f (slots sc ! i)]"
  by (simp_all add: upd_slot_def)

lemma count_slots_cong: "slots sc = slots sc' \<Longrightarrow> count_slots P sc = count_slots P sc'"
  by (simp add: count_slots_def)

lemma count_zero: "i < length (slots sc) \<Longrightarrow> P (slots sc ! i) \<Longrightarrow> 0 < count_slots P sc"
  by (force simp: count_slots_def length_greater_0_conv filter_empty_conv)

lemma slot_ok_nth: "list_all slot_ok (slots sc) \<Longrightarrow> i < length (slots sc) \<Longrightarrow> slot_ok (slots sc ! i)"
  by (simp add: list_all_length)

lemma list_all_update: "list_all P xs \<Longrightarrow> P y \<Longrightarrow> list_all P (xs[i := y])"
  by (auto simp: list_all_iff dest: set_update_subset_insert [THEN subsetD])

lemma held_ok_same:
  assumes "map slot_state (slots sc') = map slot_state (slots sc)" "held sc' = held sc"
  shows "held_ok sc' = held_ok sc"
proof -
  have l: "length (slots sc') = length (slots sc)" using assms(1) by (metis length_map)
  have "slot_state (slots sc' ! i) = slot_state (slots sc ! i)" if "i < length (slots sc)" for i
    using assms(1) l that by (metis nth_map)
  then show ?thesis using l assms(2) by (simp add: held_ok_def cong: conj_cong)
qed

lemma map_upd_same: "f y = f (xs ! i) \<Longrightarrow> map f (xs[i := y]) = map f xs"
  by (simp add: map_update list_update_same_conv [symmetric]) (metis list_update_beyond list_update_id map_update not_le)

text \<open>Changing the state of a slot whose permit request is over does not touch the queue.\<close>

lemma sem_ok_same_permit:
  "sem_ok p sl \<Longrightarrow> slot_permit y = slot_permit (sl ! i) \<Longrightarrow> sem_ok p (sl[i := y])"
  by (auto simp: sem_ok_def nth_update_lt)

lemma sem_ok_observed:
  "sem_ok p sl \<Longrightarrow> slot_permit (sl ! i) \<noteq> Waiting \<Longrightarrow> slot_permit y \<noteq> Waiting \<Longrightarrow> sem_ok p (sl[i := y])"
  by (auto simp: sem_ok_def nth_update_lt)

subsection \<open>Releasing\<close>

lemma release_permit_inv:
  assumes "sched_inv_k (Suc k) sc"
  shows "sched_inv_k k (release_permit sc)"
    "held (release_permit sc) = held sc" "orphaned (release_permit sc) = orphaned sc"
    "maxOrphaned (release_permit sc) = maxOrphaned sc" "length (slots (release_permit sc)) = length (slots sc)"
    "maxConcurrent (release_permit sc) = maxConcurrent sc"
proof -
  obtain p g where r: "sem_release (permits sc) = (p, g)" by (cases "sem_release (permits sc)")
  have ok: "sem_ok (permits sc) (slots sc)" using assms by (simp add: sched_inv_k_def)
  have "sched_inv_k k (release_permit sc) \<and> held (release_permit sc) = held sc
    \<and> orphaned (release_permit sc) = orphaned sc \<and> maxOrphaned (release_permit sc) = maxOrphaned sc
    \<and> length (slots (release_permit sc)) = length (slots sc)
    \<and> maxConcurrent (release_permit sc) = maxConcurrent sc"
  proof (cases g)
    case None
    from sem_release_None [OF r [unfolded None] ok] have "sem_ok p (slots sc)" "available p = available (permits sc) + 1" .
    then show ?thesis
      using assms r None by (simp add: release_permit_def sched_inv_k_def held_ok_def count_slots_def)
  next
    case (Some i)
    note s = sem_release_Some [OF r [unfolded Some] ok]
    let ?f = "\<lambda>s. s\<lparr>slot_permit := Granted\<rparr>"
    have q: "slot_state (slots sc ! i) = Queued"
      using assms slot_ok_nth [of sc i] s by (simp add: sched_inv_k_def slot_ok_def)
    have c: "count_slots holding (upd_slot i ?f sc) = count_slots holding sc"
      "count_slots orphan (upd_slot i ?f sc) = count_slots orphan sc"
      "count_slots unclaimed (upd_slot i ?f sc) = count_slots unclaimed sc + 1"
      using count_upd [OF s(1), of holding ?f] count_upd [OF s(1), of orphan ?f]
        count_upd [OF s(1), of unclaimed ?f] s(2)
      by (simp_all add: holding_def orphan_def unclaimed_def split: if_splits)
    have e: "release_permit sc = upd_slot i ?f (sc\<lparr>permits := p\<rparr>)"
      using r Some by (simp add: release_permit_def)
    have d: "count_slots P (upd_slot i ?f (sc\<lparr>permits := p\<rparr>)) = count_slots P (upd_slot i ?f sc)" for P
      by (simp add: count_slots_def)
    have ok': "slot_ok (?f (slots sc ! i))" using q by (simp add: slot_ok_def)
    have h: "held_ok (upd_slot i ?f (sc\<lparr>permits := p\<rparr>)) = held_ok sc"
      by (rule held_ok_same) (simp_all add: map_upd_same)
    show ?thesis
      using assms s c ok' unfolding e
      by (simp add: sched_inv_k_def d h list_all_update)
  qed
  then show "sched_inv_k k (release_permit sc)"
    "held (release_permit sc) = held sc" "orphaned (release_permit sc) = orphaned sc"
    "maxOrphaned (release_permit sc) = maxOrphaned sc" "length (slots (release_permit sc)) = length (slots sc)"
    "maxConcurrent (release_permit sc) = maxConcurrent sc"
    by blast+
qed

subsection \<open>One transition\<close>

definition flag :: "bool \<Rightarrow> int" where "flag b = (if b then 1 else 0)"

definition moved :: "nat \<Rightarrow> slot_state \<Rightarrow> scheduler \<Rightarrow> scheduler" where
  "moved i next' sc =
     (let prev = slot_state (slots sc ! i) in
      (upd_slot i (\<lambda>s. s\<lparr>slot_state := next'\<rparr>) sc)\<lparr>
        held := (if next' = Held then held sc @ [i] else if prev = Held then remove1 i (held sc) else held sc),
        orphaned := orphaned sc + flag (ORPHAN_OCCUPYING next') - flag (ORPHAN_OCCUPYING prev),
        permitsInUse := permitsInUse sc + flag (PERMIT_HOLDING next') - flag (PERMIT_HOLDING prev)\<rparr>)"

lemmas slot_sets = PERMIT_HOLDING_def ORPHAN_OCCUPYING_def flag_def

lemma transition_core_moved:
  assumes "next' \<in> set (LEGAL_NEXT (slot_state (slots sc ! i)))"
    "slot_state (slots sc ! i) = Held \<Longrightarrow> i \<in> set (held sc)"
  shows "transition_core i next' sc =
    (if PERMIT_HOLDING (slot_state (slots sc ! i)) \<and> \<not> PERMIT_HOLDING next'
     then release_permit (moved i next' sc) else moved i next' sc)"
  using assms
  by (cases "slot_state (slots sc ! i)")
    (auto simp: transition_core_def slot_at_def Let_def account_held_def account_orphan_def account_permit_def
      moved_def slot_sets upd_slot_def)

lemma held_ok_mem: "held_ok sc \<Longrightarrow> i < length (slots sc) \<Longrightarrow> slot_state (slots sc ! i) = Held \<Longrightarrow> i \<in> set (held sc)"
  by (simp add: held_ok_def)

lemma count_moved:
  assumes "i < length (slots sc)"
  shows "int (count_slots holding (moved i next' sc))
      = int (count_slots holding sc) + flag (PERMIT_HOLDING next') - flag (holding (slots sc ! i))"
    "int (count_slots orphan (moved i next' sc))
      = int (count_slots orphan sc) + flag (ORPHAN_OCCUPYING next') - flag (orphan (slots sc ! i))"
    "count_slots unclaimed (moved i next' sc) = count_slots unclaimed sc"
proof -
  let ?f = "\<lambda>s. s\<lparr>slot_state := next'\<rparr>"
  have e: "count_slots P (moved i next' sc) = count_slots P (upd_slot i ?f sc)" for P
    by (simp add: count_slots_def moved_def Let_def)
  show "int (count_slots holding (moved i next' sc))
      = int (count_slots holding sc) + flag (PERMIT_HOLDING next') - flag (holding (slots sc ! i))"
    using count_upd [OF assms, of holding ?f] by (simp add: e holding_def flag_def split: if_splits)
  show "int (count_slots orphan (moved i next' sc))
      = int (count_slots orphan sc) + flag (ORPHAN_OCCUPYING next') - flag (orphan (slots sc ! i))"
    using count_upd [OF assms, of orphan ?f] by (simp add: e orphan_def flag_def split: if_splits)
  show "count_slots unclaimed (moved i next' sc) = count_slots unclaimed sc"
    using count_upd [OF assms, of unclaimed ?f] by (simp add: e unclaimed_def split: if_splits)
qed

lemma held_ok_moved:
  assumes "held_ok sc" "i < length (slots sc)" "next' \<in> set (LEGAL_NEXT (slot_state (slots sc ! i)))"
  shows "held_ok (moved i next' sc)"
proof -
  let ?p = "slot_state (slots sc ! i)"
  have n: "slots (moved i next' sc) = (slots sc)[i := (slots sc ! i)\<lparr>slot_state := next'\<rparr>]"
    by (simp add: moved_def Let_def)
  have h: "held (moved i next' sc)
      = (if next' = Held then held sc @ [i] else if ?p = Held then remove1 i (held sc) else held sc)"
    by (simp add: moved_def Let_def)
  have d: "distinct (held sc)" and m: "\<And>j. j \<in> set (held sc) \<longleftrightarrow> j < length (slots sc) \<and> slot_state (slots sc ! j) = Held"
    using assms(1) by (auto simp: held_ok_def)
  have nn: "next' = Held \<Longrightarrow> ?p \<noteq> Held" using assms(3) by (cases ?p) auto
  have "distinct (held (moved i next' sc))" using d m nn by (auto simp: h)
  moreover have "j \<in> set (held (moved i next' sc)) \<longleftrightarrow>
      j < length (slots (moved i next' sc)) \<and> slot_state (slots (moved i next' sc) ! j) = Held" for j
    unfolding h n using m [of j] m [of i] nn assms(2) d
    by (cases "j = i") (auto simp: nth_update_lt)
  ultimately show ?thesis by (simp add: held_ok_def)
qed

lemma moved_inv:
  assumes "sched_inv_k k sc" "i < length (slots sc)" "next' \<in> set (LEGAL_NEXT (slot_state (slots sc ! i)))"
    "slot_ok ((slots sc ! i)\<lparr>slot_state := next'\<rparr>)"
    "PERMIT_HOLDING next' \<Longrightarrow> holding (slots sc ! i)"
    "ORPHAN_OCCUPYING next' \<Longrightarrow> orphaned sc < maxOrphaned sc"
  shows "sched_inv_k (if holding (slots sc ! i) \<and> \<not> PERMIT_HOLDING next' then Suc k else k) (moved i next' sc)"
proof -
  have s: "slots (moved i next' sc) = (slots sc)[i := (slots sc ! i)\<lparr>slot_state := next'\<rparr>]"
    "permits (moved i next' sc) = permits sc" "fault (moved i next' sc) = fault sc"
    "maxOrphaned (moved i next' sc) = maxOrphaned sc" "maxConcurrent (moved i next' sc) = maxConcurrent sc"
    "orphaned (moved i next' sc) = orphaned sc + flag (ORPHAN_OCCUPYING next') - flag (orphan (slots sc ! i))"
    "permitsInUse (moved i next' sc) = permitsInUse sc + flag (PERMIT_HOLDING next') - flag (holding (slots sc ! i))"
    by (simp_all add: moved_def Let_def orphan_def holding_def)
  have "sem_ok (permits sc) (slots (moved i next' sc))"
    using assms(1) unfolding s by (intro sem_ok_same_permit) (simp_all add: sched_inv_k_def)
  moreover have "list_all slot_ok (slots (moved i next' sc))"
    using assms(1,4) unfolding s by (intro list_all_update) (simp_all add: sched_inv_k_def)
  moreover have "held_ok (moved i next' sc)"
    using assms(1-3) by (intro held_ok_moved) (simp_all add: sched_inv_k_def)
  moreover have "orphaned sc + flag (ORPHAN_OCCUPYING next') - flag (orphan (slots sc ! i)) \<le> maxOrphaned sc"
    using assms(1,6) by (auto simp: sched_inv_k_def flag_def)
  moreover have "available (permits sc) + count_slots holding (moved i next' sc) + count_slots unclaimed sc
      + (if holding (slots sc ! i) \<and> \<not> PERMIT_HOLDING next' then Suc k else k) = maxConcurrent sc"
    using assms(1,5) count_moved(1) [OF assms(2), of next']
    by (auto simp: sched_inv_k_def flag_def split: if_splits)
  ultimately show ?thesis
    using assms(1) by (simp add: sched_inv_k_def s(2-) count_moved [OF assms(2)])
qed

lemma core_inv:
  assumes "sched_inv_k 0 sc" "i < length (slots sc)" "next' \<in> set (LEGAL_NEXT (slot_state (slots sc ! i)))"
    "slot_ok ((slots sc ! i)\<lparr>slot_state := next'\<rparr>)"
    "PERMIT_HOLDING next' \<Longrightarrow> holding (slots sc ! i)"
    "ORPHAN_OCCUPYING next' \<Longrightarrow> orphaned sc < maxOrphaned sc"
  shows "sched_inv_k 0 (transition_core i next' sc)
    \<and> held (transition_core i next' sc) = held (moved i next' sc)
    \<and> orphaned (transition_core i next' sc) = orphaned (moved i next' sc)
    \<and> maxOrphaned (transition_core i next' sc) = maxOrphaned sc
    \<and> maxConcurrent (transition_core i next' sc) = maxConcurrent sc"
proof -
  have m: "maxOrphaned (moved i next' sc) = maxOrphaned sc" "maxConcurrent (moved i next' sc) = maxConcurrent sc"
    by (simp_all add: moved_def Let_def)
  have "held_ok sc" using assms(1) by (simp add: sched_inv_k_def)
  then have e: "transition_core i next' sc =
      (if holding (slots sc ! i) \<and> \<not> PERMIT_HOLDING next'
       then release_permit (moved i next' sc) else moved i next' sc)"
    unfolding holding_def by (intro transition_core_moved assms(3) held_ok_mem assms(2))
  show ?thesis
  proof (cases "holding (slots sc ! i) \<and> \<not> PERMIT_HOLDING next'")
    case True
    then have "sched_inv_k (Suc 0) (moved i next' sc)" using moved_inv [OF assms] by simp
    from release_permit_inv [OF this] True show ?thesis by (simp add: e m)
  next
    case False
    then have "sched_inv_k 0 (moved i next' sc)" using moved_inv [OF assms] by (simp split: if_splits)
    then show ?thesis unfolding e if_not_P [OF False] by (simp add: m)
  qed
qed

subsection \<open>Promotion\<close>

lemma slot_ok_observed:
  "slot_ok s \<Longrightarrow> slot_state s \<noteq> Queued \<Longrightarrow> slot_state s \<noteq> Expired \<Longrightarrow> slot_permit s = Observed"
  by (cases "slot_permit s") (auto simp: slot_ok_def)

lemma promote_inv:
  assumes "sched_inv_k 0 sc" "length (held sc) \<le> n"
  shows "sched_inv_k 0 (promote_loop n sc) \<and> promoted_enough (promote_loop n sc)
    \<and> maxConcurrent (promote_loop n sc) = maxConcurrent sc \<and> maxOrphaned (promote_loop n sc) = maxOrphaned sc"
  using assms
proof (induction n arbitrary: sc)
  case (Suc n)
  have fl: "fault sc = None" "orphaned sc \<le> maxOrphaned sc" using Suc.prems(1) by (auto simp: sched_inv_k_def)
  show ?case
  proof (cases "orphaned sc < maxOrphaned sc \<and> held sc \<noteq> []")
    case True
    let ?i = "hd (held sc)"
    have "?i \<in> set (held sc)" using True by simp
    then have i: "?i < length (slots sc)" "slot_state (slots sc ! ?i) = Held"
      using Suc.prems(1) unfolding sched_inv_k_def held_ok_def by blast+
    have "slot_ok (slots sc ! ?i)" using Suc.prems(1) i(1) by (simp add: sched_inv_k_def slot_ok_nth)
    then have o: "slot_permit (slots sc ! ?i) = Observed" using i(2) by (intro slot_ok_observed) simp_all
    have c: "sched_inv_k 0 (transition_core ?i Promoted sc)
        \<and> held (transition_core ?i Promoted sc) = held (moved ?i Promoted sc)
        \<and> maxOrphaned (transition_core ?i Promoted sc) = maxOrphaned sc
        \<and> maxConcurrent (transition_core ?i Promoted sc) = maxConcurrent sc"
      using core_inv [OF Suc.prems(1) i(1), of Promoted] i(2) o True by (simp add: slot_ok_def slot_sets)
    have "length (held (transition_core ?i Promoted sc)) \<le> n"
      using c Suc.prems(2) True i(2) by (simp add: moved_def Let_def length_remove1)
    with Suc.IH c True fl show ?thesis by simp
  next
    case False
    with Suc.prems fl show ?thesis by (auto simp: promoted_enough_def)
  qed
qed (simp add: promoted_enough_def)

lemma transition_inv:
  assumes "sched_inv sc" "i < length (slots sc)" "next' \<in> set (LEGAL_NEXT (slot_state (slots sc ! i)))"
    "slot_ok ((slots sc ! i)\<lparr>slot_state := next'\<rparr>)"
    "PERMIT_HOLDING next' \<Longrightarrow> holding (slots sc ! i)"
    "next' = Orphaned \<Longrightarrow> orphaned sc < maxOrphaned sc" "next' \<noteq> Promoted"
    "next' = Held \<Longrightarrow> orphaned sc = maxOrphaned sc"
  shows "sched_inv (transition i next' sc) \<and> maxConcurrent (transition i next' sc) = maxConcurrent sc
    \<and> maxOrphaned (transition i next' sc) = maxOrphaned sc"
proof -
  have k: "sched_inv_k 0 sc" "promoted_enough sc" using assms(1) by (auto simp: sched_inv_def)
  have c: "sched_inv_k 0 (transition_core i next' sc)"
    "held (transition_core i next' sc) = held (moved i next' sc)"
    "orphaned (transition_core i next' sc) = orphaned (moved i next' sc)"
    "maxOrphaned (transition_core i next' sc) = maxOrphaned sc"
    "maxConcurrent (transition_core i next' sc) = maxConcurrent sc"
    using core_inv [OF k(1) assms(2-5)] assms(6,7) by (auto simp: ORPHAN_OCCUPYING_def)
  have f: "fault (transition_core i next' sc) = None" using c(1) by (simp add: sched_inv_k_def)
  show ?thesis
  proof (cases "ORPHAN_OCCUPYING (slot_state (slots sc ! i))")
    case True
    then have "transition i next' sc = promote_loop (length (held (transition_core i next' sc))) (transition_core i next' sc)"
      using f by (simp add: transition_def Let_def promoteHeld_def slot_at_def)
    then show ?thesis using promote_inv [OF c(1)] c(4,5) by (simp add: sched_inv_def)
  next
    case False
    then have e: "transition i next' sc = transition_core i next' sc"
      by (simp add: transition_def Let_def slot_at_def)
    have "promoted_enough (transition_core i next' sc)"
      unfolding promoted_enough_def c moved_def Let_def
      using False assms(6-8) k(2) by (auto simp: promoted_enough_def flag_def ORPHAN_OCCUPYING_def split: if_splits)
    with c e show ?thesis by (simp add: sched_inv_def)
  qed
qed

subsection \<open>The steps of a call\<close>

definition same_limits :: "scheduler \<Rightarrow> scheduler \<Rightarrow> bool" where
  "same_limits sc sc' \<longleftrightarrow> maxConcurrent sc' = maxConcurrent sc \<and> maxOrphaned sc' = maxOrphaned sc"

lemma sched_inv_slot:
  assumes "sched_inv sc" "i < length (slots sc)"
  shows "slot_ok (slots sc ! i)"
  using assms by (simp add: sched_inv_def sched_inv_k_def slot_ok_nth)

lemma held_ok_unheld:
  assumes "held_ok sc" "held sc' = held sc" "slots sc' = (slots sc)[i := y]"
    "slot_state (slots sc ! i) \<noteq> Held" "slot_state y \<noteq> Held"
  shows "held_ok sc'"
proof -
  have d: "distinct (held sc)" and m: "j \<in> set (held sc) \<longleftrightarrow> j < length (slots sc) \<and> slot_state (slots sc ! j) = Held" for j
    using assms(1) by (auto simp: held_ok_def)
  have "j \<in> set (held sc') \<longleftrightarrow> j < length (slots sc') \<and> slot_state (slots sc' ! j) = Held" for j
    unfolding assms(2,3) using m [of j] assms(4,5) by (cases "j = i") (auto simp: nth_update_lt)
  with d show ?thesis by (simp add: held_ok_def assms(2))
qed

lemma held_ok_append:
  assumes "held_ok sc" "held sc' = held sc" "slots sc' = slots sc @ [y]" "slot_state y \<noteq> Held"
  shows "held_ok sc'"
proof -
  have d: "distinct (held sc)" and m: "j \<in> set (held sc) \<longleftrightarrow> j < length (slots sc) \<and> slot_state (slots sc ! j) = Held" for j
    using assms(1) by (auto simp: held_ok_def)
  have "j \<in> set (held sc') \<longleftrightarrow> j < length (slots sc') \<and> slot_state (slots sc' ! j) = Held" for j
    unfolding assms(2,3) using m [of j] assms(4) by (cases "j = length (slots sc)") (auto simp: nth_append)
  with d show ?thesis by (simp add: held_ok_def assms(2))
qed

text \<open>A change of the permit request alone keeps the states.\<close>

lemma permit_change_k:
  assumes "sched_inv_k k sc" "i < length (slots sc)"
    "slot_state (f (slots sc ! i)) = slot_state (slots sc ! i)"
    "slot_ok (f (slots sc ! i))" "sem_ok p ((slots sc)[i := f (slots sc ! i)])"
    "available p + (if unclaimed (f (slots sc ! i)) then 1 else 0) + k'
      = available (permits sc) + (if unclaimed (slots sc ! i) then 1 else 0) + k"
  shows "sched_inv_k k' (upd_slot i f (sc\<lparr>permits := p\<rparr>))"
proof -
  let ?sc = "upd_slot i f (sc\<lparr>permits := p\<rparr>)"
  have c: "count_slots P ?sc = count_slots P (upd_slot i f sc)" for P by (simp add: count_slots_def)
  have h: "held_ok ?sc = held_ok sc" by (rule held_ok_same) (simp_all add: map_upd_same assms(3))
  have "count_slots holding ?sc = count_slots holding sc" "count_slots orphan ?sc = count_slots orphan sc"
    unfolding c using count_upd [OF assms(2), of holding f] count_upd [OF assms(2), of orphan f] assms(3)
    by (auto simp: holding_def orphan_def split: if_splits)
  moreover have "available p + count_slots unclaimed ?sc + k' = available (permits sc) + count_slots unclaimed sc + k"
    unfolding c using count_upd [OF assms(2), of unclaimed f] assms(6) by (auto split: if_splits)
  ultimately show ?thesis
    using assms(1,4,5) by (simp add: sched_inv_k_def h list_all_update)
qed

lemma submit_inv:
  assumes "sched_inv sc"
  shows "sched_inv (runGated lbl sc)" "same_limits sc (runGated lbl sc)"
proof -
  obtain p g where a: "acquireCancellable (length (slots sc)) (permits sc) = (p, g)"
    by (cases "acquireCancellable (length (slots sc)) (permits sc)")
  let ?s = "\<lparr>slot_state = Queued, slot_label = lbl, slot_permit = (if g then Granted else Waiting)\<rparr>"
  have e: "runGated lbl sc = sc\<lparr>permits := p, slots := slots sc @ [?s]\<rparr>"
    using a by (simp add: runGated_def Let_def)
  have k: "sched_inv_k 0 sc" using assms by (simp add: sched_inv_def)
  have ok: "sem_ok (permits sc) (slots sc)" using k by (simp add: sched_inv_k_def)
  have fresh: "w \<in> set (sem_queue (permits sc)) \<Longrightarrow> fst w < length (slots sc)" for w
    using ok by (simp add: sem_ok_def)
  have p: "sem_ok p (slots sc @ [?s])"
  proof (cases "0 < available (permits sc)")
    case True
    with a have "p = (permits sc)\<lparr>available := available (permits sc) - 1\<rparr>" "g"
      by (auto simp: acquireCancellable_def)
    moreover have "(length (slots sc), True) \<notin> set (sem_queue (permits sc))" using fresh by force
    ultimately show ?thesis using ok True by (auto simp: sem_ok_def nth_append less_Suc_eq)
  next
    case False
    with a have p: "p = (permits sc)\<lparr>sem_queue := sem_queue (permits sc) @ [(length (slots sc), True)]\<rparr>" "\<not> g"
      by (auto simp: acquireCancellable_def)
    have n: "length (slots sc) \<notin> fst ` set (sem_queue (permits sc))" using fresh by force
    then have "(length (slots sc), b) \<notin> set (sem_queue (permits sc))" for b by force
    with ok False p n fresh show ?thesis
      by (auto simp: sem_ok_def nth_append less_Suc_eq sorted_wrt_append)
  qed
  have "available p + (if g then 1 else 0) = available (permits sc)"
    using a by (auto simp: acquireCancellable_def split: if_splits)
  moreover have "held_ok (runGated lbl sc)"
    by (rule held_ok_append [of sc _ ?s]) (use k in \<open>simp_all add: sched_inv_k_def e\<close>)
  ultimately have "sched_inv_k 0 (runGated lbl sc)"
    using k p by (cases g) (simp_all add: sched_inv_k_def e count_slots_def holding_def orphan_def unclaimed_def slot_ok_def
        PERMIT_HOLDING_def ORPHAN_OCCUPYING_def)
  then show "sched_inv (runGated lbl sc)" "same_limits sc (runGated lbl sc)"
    using assms by (auto simp: sched_inv_def promoted_enough_def same_limits_def e)
qed

lemma admit_inv:
  assumes "sched_inv sc" "i < length (slots sc)" "slot_permit (slots sc ! i) = Granted" "slot_state (slots sc ! i) = Queued"
  shows "sched_inv (claimPermit i sc)" "same_limits sc (claimPermit i sc)"
proof -
  let ?f = "\<lambda>s. s\<lparr>slot_permit := Observed, slot_state := Admitted\<rparr>"
  have k: "sched_inv_k 0 sc" using assms by (simp add: sched_inv_def)
  have e: "claimPermit i sc = (upd_slot i ?f sc)\<lparr>permitsInUse := permitsInUse sc + 1\<rparr>"
    using assms(2-4)
    by (simp add: claimPermit_def slot_at_def Let_def transition_def transition_core_def account_held_def
        account_orphan_def account_permit_def slot_sets upd_slot_def)
  have c: "count_slots P (claimPermit i sc) = count_slots P (upd_slot i ?f sc)" for P by (simp add: count_slots_def e)
  have n: "count_slots holding (claimPermit i sc) = count_slots holding sc + 1"
    "count_slots orphan (claimPermit i sc) = count_slots orphan sc"
    "count_slots unclaimed (claimPermit i sc) + 1 = count_slots unclaimed sc"
    unfolding c using count_upd [OF assms(2), of holding ?f] count_upd [OF assms(2), of orphan ?f]
      count_upd [OF assms(2), of unclaimed ?f] assms(3,4)
    by (auto simp: holding_def orphan_def unclaimed_def slot_sets split: if_splits)
  have "held_ok (claimPermit i sc)"
    by (rule held_ok_unheld [of sc _ i "?f (slots sc ! i)"]) (use k assms(4) in \<open>simp_all add: sched_inv_k_def e\<close>)
  moreover have "sem_ok (permits sc) (slots (claimPermit i sc))"
    using k assms(3) unfolding e by (auto simp: sched_inv_k_def intro!: sem_ok_observed)
  moreover have "list_all slot_ok (slots (claimPermit i sc))"
    using k unfolding e by (auto simp: sched_inv_k_def slot_ok_def intro!: list_all_update)
  ultimately have "sched_inv_k 0 (claimPermit i sc)"
    using k n by (simp add: sched_inv_k_def) (simp add: e)
  then show "sched_inv (claimPermit i sc)" "same_limits sc (claimPermit i sc)"
    using assms(1) by (auto simp: sched_inv_def promoted_enough_def same_limits_def e)
qed

lemma claim_inv:
  assumes "sched_inv sc" "i < length (slots sc)" "slot_permit (slots sc ! i) \<in> {Granted, Cancelled}"
  shows "sched_inv (claimPermit i sc) \<and> same_limits sc (claimPermit i sc)"
proof -
  let ?f = "\<lambda>s. s\<lparr>slot_permit := Observed\<rparr>" and ?s = "slots sc ! i"
  have k: "sched_inv_k 0 sc" using assms by (simp add: sched_inv_def)
  have ok: "slot_ok ?s" using sched_inv_slot [OF assms(1,2)] .
  have sem: "sem_ok (permits sc) ((slots sc)[i := ?f ?s])"
    using k assms(3) by (intro sem_ok_observed) (auto simp: sched_inv_k_def)
  show ?thesis
  proof (cases "slot_permit ?s = Granted \<and> slot_state ?s = Queued")
    case True
    then show ?thesis using admit_inv [OF assms(1,2)] by blast
  next
    case False
    then have x: "slot_state ?s = Expired" using ok assms(3) by (auto simp: slot_ok_def)
    have *: "sched_inv_k (if slot_permit ?s = Granted then 1 else 0) (upd_slot i ?f sc)"
      using permit_change_k [OF k assms(2), of ?f "permits sc"] sem x assms(3)
      by (auto simp: slot_ok_def unclaimed_def)
    show ?thesis
    proof (cases "slot_permit ?s = Granted")
      case True
      then have e: "claimPermit i sc = release_permit (upd_slot i ?f sc)"
        using x by (simp add: claimPermit_def slot_at_def Let_def)
      have "sched_inv_k (Suc 0) (upd_slot i ?f sc)" using * True by simp
      from release_permit_inv [OF this] show ?thesis
        using assms(1) by (simp add: e sched_inv_def promoted_enough_def same_limits_def)
    next
      case False
      then have "slot_permit ?s = Cancelled" using assms(3) by simp
      then have "claimPermit i sc = upd_slot i ?f sc" by (simp add: claimPermit_def slot_at_def Let_def)
      then show ?thesis
        using * False assms(1) by (simp add: sched_inv_def promoted_enough_def same_limits_def)
    qed
  qed
qed

lemma expire_inv:
  assumes "sched_inv sc" "i < length (slots sc)" "slot_state (slots sc ! i) = Queued"
  shows "sched_inv (fire_deadline i sc) \<and> same_limits sc (fire_deadline i sc)"
proof -
  let ?s = "slots sc ! i" and ?g = "\<lambda>s. s\<lparr>slot_state := Expired\<rparr>"
  have k: "sched_inv_k 0 sc" using assms by (simp add: sched_inv_def)
  have ok: "slot_ok ?s" using sched_inv_slot [OF assms(1,2)] .
  have t: "transition i Expired sc = upd_slot i ?g sc"
    using assms(3) by (simp add: transition_def transition_core_def slot_at_def Let_def account_held_def
        account_orphan_def account_permit_def slot_sets upd_slot_def)
  have sok: "sem_ok (permits sc) (slots sc)" using k by (simp add: sched_inv_k_def)
  obtain p b where cw: "cancelWaiter i (permits sc) = (p, b)" by (cases "cancelWaiter i (permits sc)")
  note cc = cancelWaiter_cases [OF sok assms(2) cw]
  show ?thesis
  proof (cases b)
    case True
    let ?f = "\<lambda>s. s\<lparr>slot_state := Expired, slot_permit := Cancelled\<rparr>"
    let ?sc = "upd_slot i ?f (sc\<lparr>permits := p\<rparr>)"
    have e: "fire_deadline i sc = ?sc"
      using assms(2,3) True cw by (simp add: fire_deadline_def slot_at_def t cancel_request_def upd_slot_def)
    have w: "slot_permit ?s = Waiting" "available p = available (permits sc)" using cc True by auto
    have s1: "sem_ok p ((slots sc)[i := ?s\<lparr>slot_permit := Cancelled\<rparr>])" using cc True by blast
    have s2: "sem_ok p (((slots sc)[i := ?s\<lparr>slot_permit := Cancelled\<rparr>])[i := ?f ?s])"
      by (rule sem_ok_same_permit [OF s1]) (simp add: assms(2))
    have c: "count_slots P ?sc = count_slots P (upd_slot i ?f sc)" for P by (simp add: count_slots_def)
    have n: "count_slots holding ?sc = count_slots holding sc" "count_slots orphan ?sc = count_slots orphan sc"
      "count_slots unclaimed ?sc = count_slots unclaimed sc"
      unfolding c using count_upd [OF assms(2), of holding ?f] count_upd [OF assms(2), of orphan ?f]
        count_upd [OF assms(2), of unclaimed ?f] assms(3) w
      by (auto simp: holding_def orphan_def unclaimed_def slot_sets split: if_splits)
    have "held_ok ?sc"
      by (rule held_ok_unheld [of sc _ i "?f ?s"]) (use k assms(3) in \<open>simp_all add: sched_inv_k_def\<close>)
    moreover have "list_all slot_ok ((slots sc)[i := ?f ?s])"
      using k by (auto simp: sched_inv_k_def slot_ok_def intro!: list_all_update)
    ultimately have "sched_inv_k 0 ?sc"
      using k n s2 w by (simp add: sched_inv_k_def)
    then show ?thesis using assms(1) by (simp add: e sched_inv_def promoted_enough_def same_limits_def)
  next
    case False
    then have "slot_permit ?s = Granted" using cc ok assms(3) by (cases "slot_permit ?s") (auto simp: slot_ok_def)
    then have "sched_inv (transition i Expired sc) \<and> maxConcurrent (transition i Expired sc) = maxConcurrent sc
        \<and> maxOrphaned (transition i Expired sc) = maxOrphaned sc"
      using assms by (intro transition_inv) (auto simp: slot_ok_def slot_sets)
    moreover have "fire_deadline i sc = transition i Expired sc"
      using False cw assms(3) by (simp add: fire_deadline_def slot_at_def cancel_request_def t)
    ultimately show ?thesis by (simp add: same_limits_def)
  qed
qed

lemma sched_step_inv: "sched_step sc sc' \<Longrightarrow> sched_inv sc \<Longrightarrow> sched_inv sc' \<and> same_limits sc sc'"
proof (induction rule: sched_step.induct)
  case (submit sc lbl)
  then show ?case using submit_inv by blast
next
  case (claim i sc)
  then show ?case using claim_inv by (simp add: slot_at_def)
next
  case (start_work i sc accepted)
  have "slot_permit (slots sc ! i) = Observed"
    using sched_inv_slot [OF start_work.prems start_work.hyps(1)] start_work.hyps(2)
    by (intro slot_ok_observed) (simp_all add: slot_at_def)
  then show ?case
    using transition_inv [OF start_work.prems start_work.hyps(1), of "if accepted then Running else Abandoned"] start_work.hyps(2)
    by (auto simp: begin_work_def same_limits_def slot_at_def slot_ok_def slot_sets holding_def)
next
  case (deadline i sc)
  show ?case
  proof (cases "slot_state (slots sc ! i) = Queued")
    case True
    then show ?thesis using expire_inv [OF deadline.prems deadline.hyps(1)] by blast
  next
    case False
    with deadline.hyps have r: "slot_state (slots sc ! i) = Running" by (simp add: slot_at_def)
    have "slot_permit (slots sc ! i) = Observed"
      using sched_inv_slot [OF deadline.prems deadline.hyps(1)] r by (intro slot_ok_observed) simp_all
    moreover have "orphaned sc \<le> maxOrphaned sc" using deadline.prems by (simp add: sched_inv_def sched_inv_k_def)
    ultimately show ?thesis
      using transition_inv [OF deadline.prems deadline.hyps(1), of "if orphaned sc < maxOrphaned sc then Orphaned else Held"] r
      by (auto simp: fire_deadline_def same_limits_def slot_at_def slot_ok_def slot_sets holding_def)
  qed
next
  case (settle i sc)
  have "slot_permit (slots sc ! i) = Observed"
    using sched_inv_slot [OF settle.prems settle.hyps(1)] settle.hyps(2)
    by (intro slot_ok_observed) (auto simp: slot_at_def)
  then show ?case
    using transition_inv [OF settle.prems settle.hyps(1),
        of "if slot_state (slots sc ! i) = Running \<or> slot_state (slots sc ! i) = Held then Settled else Retired"] settle.hyps(2)
    by (auto simp: work_settles_def same_limits_def slot_at_def slot_ok_def slot_sets holding_def)
qed

section \<open>Properties\<close>

lemma sched_inv_new: "0 \<le> o' \<Longrightarrow> sched_inv (new_scheduler n o')"
  by (simp add: sched_inv_def sched_inv_k_def promoted_enough_def new_scheduler_def createSemaphore_def
      held_ok_def sem_ok_def count_slots_def)

interpretation slot_run: invariant_system "\<lambda>sc. 0 \<le> o' \<and> sc = new_scheduler n o'" sched_step
  "\<lambda>sc. sched_inv sc \<and> maxConcurrent sc = n \<and> maxOrphaned sc = o'"
  by unfold_locales
    (auto simp: sched_inv_new same_limits_def dest: sched_step_inv, simp_all add: new_scheduler_def)

lemma sched_reachable:
  "0 \<le> o' \<Longrightarrow> sched_step\<^sup>*\<^sup>* (new_scheduler n o') sc \<Longrightarrow> sched_inv sc \<and> maxConcurrent sc = n \<and> maxOrphaned sc = o'"
  using slot_run.inv_reachable [of o' _ n sc] by blast

text \<open>
  C13. In every interleaving of calls, grants, deadlines and settling work the table of transitions
  is never violated, the counters are the numbers of slots they stand for, no permit is lost or
  invented, and at most \<open>maxConcurrent\<close> admitted and \<open>maxOrphaned\<close> detached operations are alive.
\<close>
theorem scheduler_safe:
  assumes "0 \<le> o'" "sched_step\<^sup>*\<^sup>* (new_scheduler n o') sc"
  shows "fault sc = None
    \<and> permitsInUse sc = int (count_slots holding sc) \<and> orphaned sc = int (count_slots orphan sc)
    \<and> available (permits sc) + count_slots holding sc + count_slots unclaimed sc = n
    \<and> count_slots holding sc \<le> n \<and> int (count_slots orphan sc) \<le> o'"
  using sched_reachable [OF assms] by (auto simp: sched_inv_def sched_inv_k_def)

definition example_scheduler :: scheduler where
  "example_scheduler = runGated ''b'' (runGated ''a'' (new_scheduler 1 1))"

lemma example_reachable: "sched_step\<^sup>*\<^sup>* (new_scheduler 1 1) example_scheduler"
  unfolding example_scheduler_def by (meson rtranclp.rtrancl_refl rtranclp.rtrancl_into_rtrancl submit)

theorem scheduler_safe_witness:
  "fault example_scheduler = None \<and> count_slots holding example_scheduler \<le> 1
    \<and> int (count_slots orphan example_scheduler) \<le> 1"
  using scheduler_safe [OF _ example_reachable] by simp

lemma waiting_in_queue:
  "sched_inv sc \<Longrightarrow> j < length (slots sc) \<Longrightarrow> slot_permit (slots sc ! j) = Waiting \<Longrightarrow>
    (j, True) \<in> set (sem_queue (permits sc))"
  by (simp add: sched_inv_def sched_inv_k_def sem_ok_def)

lemma release_first:
  assumes "sem_ok p sl" "sem_release p = (p', Some i)" "(j, True) \<in> set (sem_queue p)"
  shows "i \<le> j"
proof -
  from release_loop_Some [OF assms(2) [unfolded sem_release_def]] obtain pre post
    where q: "sem_queue p = pre @ (i, True) # post" "list_all (\<lambda>w. \<not> snd w) pre" by blast
  have "(j, True) \<notin> set pre" using q(2) by (auto simp: list_all_iff)
  with assms(3) q(1) have "j = i \<or> (j, True) \<in> set post" by auto
  moreover have "i < j" if "(j, True) \<in> set post"
    using assms(1) that by (force simp: sem_ok_def q(1) sorted_wrt_append)
  ultimately show ?thesis by auto
qed

text \<open>
  C14. A call waits only while every permit is taken; the next permit released goes to the call
  that has waited longest; and a timed-out operation keeps its permit only while the budget of
  detached operations is full.
\<close>
theorem scheduler_fair:
  assumes "0 \<le> o'" "sched_step\<^sup>*\<^sup>* (new_scheduler n o') sc"
    "j < length (slots sc)" "slot_permit (slots sc ! j) = Waiting"
  shows "count_slots holding sc + count_slots unclaimed sc = n
    \<and> (\<exists>i \<le> j. snd (sem_release (permits sc)) = Some i \<and> slot_permit (slots sc ! i) = Waiting)
    \<and> (held sc \<noteq> [] \<longrightarrow> orphaned sc = o')"
proof -
  have inv: "sched_inv sc" "maxConcurrent sc = n" "maxOrphaned sc = o'" using sched_reachable [OF assms(1,2)] by auto
  have ok: "sem_ok (permits sc) (slots sc)" using inv(1) by (simp add: sched_inv_def sched_inv_k_def)
  have q: "(j, True) \<in> set (sem_queue (permits sc))" using waiting_in_queue inv(1) assms(3,4) by blast
  then have "available (permits sc) = 0" using ok by (force simp: sem_ok_def list_all_iff)
  then have 1: "count_slots holding sc + count_slots unclaimed sc = n"
    using inv by (simp add: sched_inv_def sched_inv_k_def)
  obtain p' g where r: "sem_release (permits sc) = (p', g)" by (cases "sem_release (permits sc)")
  have "g \<noteq> None"
    using q release_loop_None [of "sem_queue (permits sc)" "permits sc" p'] r
    by (force simp: sem_release_def list_all_iff)
  then obtain i where i: "g = Some i" by blast
  have "i \<le> j" using release_first [OF ok r [unfolded i] q] .
  moreover have "slot_permit (slots sc ! i) = Waiting" using sem_release_Some [OF r [unfolded i] ok] by blast
  ultimately show ?thesis using 1 r i inv by (auto simp: sched_inv_def promoted_enough_def)
qed

theorem scheduler_fair_witness:
  "\<exists>i \<le> 1. snd (sem_release (permits example_scheduler)) = Some i"
proof -
  have "1 < length (slots example_scheduler)" "slot_permit (slots example_scheduler ! 1) = Waiting"
    by (simp_all add: example_scheduler_def runGated_def new_scheduler_def createSemaphore_def acquireCancellable_def)
  with scheduler_fair [OF _ example_reachable] show ?thesis by fastforce
qed

section \<open>The cost of cancelling\<close>

datatype sem_op = Acquire nat | CancelOp nat | ReleaseOp

fun sem_apply :: "semaphore \<Rightarrow> sem_op \<Rightarrow> semaphore" where
  "sem_apply s (Acquire i) = fst (acquireCancellable i s)"
| "sem_apply s (CancelOp i) = fst (cancelWaiter i s)"
| "sem_apply s ReleaseOp = fst (sem_release s)"

definition cancels :: "sem_op list \<Rightarrow> nat" where
  "cancels ops = length (filter (\<lambda>op. case op of CancelOp i \<Rightarrow> True | _ \<Rightarrow> False) ops)"

lemma release_loop_cost:
  "cancelWork (fst (release_loop q s)) = cancelWork s \<and> dead (fst (release_loop q s)) \<le> dead s"
  by (induction q s rule: release_loop.induct) auto

lemma cancel_cost:
  "cancelWork (fst (cancelWaiter i s)) + 2 * dead (fst (cancelWaiter i s)) \<le> cancelWork s + 2 * dead s + 2"
  by (auto simp: cancelWaiter_def Let_def sem_compact_def)

lemma sem_potential:
  "cancelWork (foldl sem_apply s ops) + 2 * dead (foldl sem_apply s ops) \<le> cancelWork s + 2 * dead s + 2 * cancels ops"
proof (induction ops arbitrary: s)
  case (Cons op ops)
  have "cancelWork (sem_apply s op) + 2 * dead (sem_apply s op) \<le> cancelWork s + 2 * dead s + 2 * cancels [op]"
    using cancel_cost release_loop_cost [of "sem_queue s" s]
    by (cases op) (auto simp: cancels_def acquireCancellable_def sem_release_def)
  moreover have "cancels (op # ops) = cancels [op] + cancels ops" by (simp add: cancels_def)
  ultimately show ?case using Cons.IH [of "sem_apply s op"] by (simp add: cancels_def)
qed (simp add: cancels_def)

text \<open>
  Abandoning a wait costs amortized constant work: over any sequence of acquisitions,
  cancellations and releases the entries moved on the cancellation path are at most twice the
  number of cancellations.
\<close>
theorem cancel_amortized:
  "cancelWork (foldl sem_apply (createSemaphore limit) ops) \<le> 2 * cancels ops"
  using sem_potential [of "createSemaphore limit" ops] by (simp add: createSemaphore_def)

text \<open>
  The documented bound on the queue, \<open>2 * live + 1\<close> entries, does not hold after releases: they
  take live waiters from the front and leave the shells behind them.
\<close>
theorem queue_bound_exceeded:
  "let s = foldl sem_apply (createSemaphore 1)
       [Acquire 0, Acquire 1, Acquire 2, Acquire 3, Acquire 4, CancelOp 3, CancelOp 4, ReleaseOp, ReleaseOp]
   in sem_queued s = 0 \<and> length (sem_queue s) = 2"
  by (simp add: createSemaphore_def acquireCancellable_def cancelWaiter_def mark_dead_def sem_release_def
      sem_queued_def Let_def)

end
