(* ===== verification/Ssh_Pool.thy ===== *)
theory Ssh_Pool
  imports Js_Strings "HOL-Library.AList"
begin

text \<open>
  The pool of shared SSH connections: \<open>src/src/services/ssh/sshConnectionPool.ts\<close>. Entries,
  connections, creations (runs of \<open>createEntry\<close>), calls of \<open>connect\<close> and leases are known by
  their number. A promise is the state of what it waits for; a step of a run is what happens
  between two awaits, or a callback of a timer or a connection. The factory of connections is
  the environment: a connection it is asked for comes or does not. Messages of errors are
  Latin-1 text, where lower case of the letters A to Z is all that the ASCII hints can see.
\<close>

section \<open>Errors that call for a connection of its own\<close>

datatype error_reason = NoReason | NumReason int | TextReason string

record ssh_error =
  err_reason :: error_reason
  err_message :: string

definition MAX_IDLE_TIMEOUT_MS :: nat where "MAX_IDLE_TIMEOUT_MS = 3600000"

definition SSH_OPEN_ADMINISTRATIVELY_PROHIBITED :: int where
  "SSH_OPEN_ADMINISTRATIVELY_PROHIBITED = 1"

definition SSH_OPEN_CONNECT_FAILED :: int where "SSH_OPEN_CONNECT_FAILED = 2"

definition SSH_OPEN_UNKNOWN_CHANNEL_TYPE :: int where "SSH_OPEN_UNKNOWN_CHANNEL_TYPE = 3"

definition SSH_OPEN_RESOURCE_SHORTAGE :: int where "SSH_OPEN_RESOURCE_SHORTAGE = 4"

definition FALLBACK_ALLOW_HINTS :: "string list" where
  "FALLBACK_ALLOW_HINTS =
     [''administratively prohibited'', ''resource shortage'', ''too many sessions'',
      ''maxsessions'', ''channel limit'', ''no more sessions'']"

definition FALLBACK_DENY_HINTS :: "string list" where
  "FALLBACK_DENY_HINTS = [''connection refused'', ''connect failed'', ''unknown channel type'']"

text \<open>\<open>text.includes(needle)\<close>.\<close>

fun text_includes :: "string \<Rightarrow> string \<Rightarrow> bool" where
  "text_includes [] needle \<longleftrightarrow> needle = []"
| "text_includes (c # cs) needle \<longleftrightarrow>
     take (length needle) (c # cs) = needle \<or> text_includes cs needle"

definition hasAnyNeedle :: "string \<Rightarrow> string list \<Rightarrow> bool" where
  "hasAnyNeedle t needles \<longleftrightarrow> list_ex (text_includes t) needles"

definition isStaleConnectionError :: "ssh_error \<Rightarrow> bool" where
  "isStaleConnectionError e \<longleftrightarrow> text_includes (toLowerCase (err_message e)) ''not connected''"

text \<open>The hints of a text: a refusal goes first, \<open>None\<close> when there is none of them.\<close>

definition hint_of :: "string \<Rightarrow> bool option" where
  "hint_of t =
     (if hasAnyNeedle t FALLBACK_DENY_HINTS then Some False
      else if hasAnyNeedle t FALLBACK_ALLOW_HINTS then Some True else None)"

definition reason_decides :: "error_reason \<Rightarrow> bool option" where
  "reason_decides r =
     (case r of
        NumReason n \<Rightarrow>
          (if n = SSH_OPEN_ADMINISTRATIVELY_PROHIBITED \<or> n = SSH_OPEN_RESOURCE_SHORTAGE
           then Some True
           else if n = SSH_OPEN_CONNECT_FAILED \<or> n = SSH_OPEN_UNKNOWN_CHANNEL_TYPE
           then Some False else None)
      | TextReason t \<Rightarrow> hint_of (toLowerCase t)
      | NoReason \<Rightarrow> None)"

definition shouldFallbackForChannelLimit :: "ssh_error \<Rightarrow> bool" where
  "shouldFallbackForChannelLimit e =
     (case reason_decides (err_reason e) of
        Some b \<Rightarrow> b
      | None \<Rightarrow>
          (let message = toLowerCase (err_message e)
           in if message = [] then False else or_default (hint_of message) False))"

section \<open>State\<close>

datatype pool_event = Connected string | Disconnected string

text \<open>\<open>entry_server\<close> is the \<open>server.id\<close> the closures of the entry captured; the timer is
  known by its delay; \<open>subscribed\<close> until \<open>closeUnsubscribe\<close> has been called.\<close>

record pool_entry =
  entry_server :: string
  connection :: nat
  refCount :: int
  healthy :: bool
  idleTimer :: "nat option"
  subscribed :: bool

text \<open>What is observed of a connection: how often \<open>dispose\<close> was called, whether it has closed,
  and the listeners leases have registered on it.\<close>

record conn =
  disposals :: nat
  closed :: bool
  closeListeners :: "nat list"

definition fresh_conn :: conn where
  "fresh_conn = \<lparr>disposals = 0, closed = False, closeListeners = []\<rparr>"

datatype creation_state = Connecting | Created nat | Rejected | Finished

record creation =
  creation_server :: string
  creation_state :: creation_state

datatype call_state = Standalone | AwaitPending nat | AwaitEntry nat | Returned | Failed

datatype release_action = ReleaseEntry | DisposeFallback

datatype fallback_promise = NotStarted | FallbackPending | FallbackSettled

text \<open>\<open>inFlight\<close> counts the channels the lease has asked its connection for and not yet got.\<close>

record lease =
  inner_entry :: nat
  lease_disposed :: bool
  closeUnsubscribes :: "(nat \<times> nat) list"
  fallbackConnection :: "nat option"
  fallbackUsed :: bool
  onRelease :: release_action
  isReused :: bool
  fallbackPromise :: fallback_promise
  inFlight :: nat

record ssh_pool =
  entries :: "(string \<times> nat) list"
  pending :: "(string \<times> nat) list"
  listeners :: "nat list"
  pool_disposed :: bool
  pool_enabled :: bool
  idleTimeoutMs :: nat
  entry_table :: "pool_entry list"
  creations :: "creation list"
  calls :: "call_state list"
  leases :: "lease list"
  conns :: "conn list"
  pool_events :: "(pool_event \<times> nat list) list"

definition new_pool :: "bool \<Rightarrow> nat \<Rightarrow> ssh_pool" where
  "new_pool enabled timeout =
     \<lparr>entries = [], pending = [], listeners = [], pool_disposed = False, pool_enabled = enabled,
      idleTimeoutMs = timeout, entry_table = [], creations = [], calls = [], leases = [],
      conns = [], pool_events = []\<rparr>"

definition upd_entry :: "nat \<Rightarrow> (pool_entry \<Rightarrow> pool_entry) \<Rightarrow> ssh_pool \<Rightarrow> ssh_pool" where
  "upd_entry e f p = p\<lparr>entry_table := (entry_table p)[e := f (entry_table p ! e)]\<rparr>"

definition upd_lease :: "nat \<Rightarrow> (lease \<Rightarrow> lease) \<Rightarrow> ssh_pool \<Rightarrow> ssh_pool" where
  "upd_lease l f p = p\<lparr>leases := (leases p)[l := f (leases p ! l)]\<rparr>"

definition upd_conn :: "nat \<Rightarrow> (conn \<Rightarrow> conn) \<Rightarrow> ssh_pool \<Rightarrow> ssh_pool" where
  "upd_conn c f p = p\<lparr>conns := (conns p)[c := f (conns p ! c)]\<rparr>"

definition add_conn :: "ssh_pool \<Rightarrow> ssh_pool" where
  "add_conn p = p\<lparr>conns := conns p @ [fresh_conn]\<rparr>"

definition current_entry :: "string \<Rightarrow> ssh_pool \<Rightarrow> nat option" where
  "current_entry sid p = map_of (entries p) sid"

definition drop_entry :: "string \<Rightarrow> ssh_pool \<Rightarrow> ssh_pool" where
  "drop_entry sid p = p\<lparr>entries := AList.delete sid (entries p)\<rparr>"

definition dispose_connection :: "nat \<Rightarrow> ssh_pool \<Rightarrow> ssh_pool" where
  "dispose_connection c p = upd_conn c (\<lambda>x. x\<lparr>disposals := disposals x + 1\<rparr>) p"

section \<open>Entries\<close>

definition onDidChange :: "nat \<Rightarrow> ssh_pool \<Rightarrow> ssh_pool" where
  "onDidChange k p = p\<lparr>listeners := List.insert k (listeners p)\<rparr>"

definition offDidChange :: "nat \<Rightarrow> ssh_pool \<Rightarrow> ssh_pool" where
  "offDidChange k p = p\<lparr>listeners := removeAll k (listeners p)\<rparr>"

definition pool_emit :: "pool_event \<Rightarrow> ssh_pool \<Rightarrow> ssh_pool" where
  "pool_emit ev p = p\<lparr>pool_events := pool_events p @ [(ev, listeners p)]\<rparr>"

definition cancelIdleTimer :: "nat \<Rightarrow> ssh_pool \<Rightarrow> ssh_pool" where
  "cancelIdleTimer e p = upd_entry e (\<lambda>x. x\<lparr>idleTimer := None\<rparr>) p"

definition closeUnsubscribe :: "nat \<Rightarrow> ssh_pool \<Rightarrow> ssh_pool" where
  "closeUnsubscribe e p = upd_entry e (\<lambda>x. x\<lparr>subscribed := False\<rparr>) p"

definition dispose_entry :: "nat \<Rightarrow> ssh_pool \<Rightarrow> ssh_pool" where
  "dispose_entry e p =
     dispose_connection (connection (entry_table p ! e)) (closeUnsubscribe e p)"

definition evictEntry :: "string \<Rightarrow> nat \<Rightarrow> ssh_pool \<Rightarrow> ssh_pool" where
  "evictEntry sid e p =
     (let p1 = drop_entry sid (closeUnsubscribe e (cancelIdleTimer e p))
      in pool_emit (Disconnected sid)
           (dispose_connection (connection (entry_table p1 ! e)) p1))"

definition softRemoveEntry :: "string \<Rightarrow> nat \<Rightarrow> ssh_pool \<Rightarrow> ssh_pool" where
  "softRemoveEntry sid e p =
     (let p1 = upd_entry e (\<lambda>x. x\<lparr>healthy := False\<rparr>) (cancelIdleTimer e p);
          p2 = pool_emit (Disconnected sid) (drop_entry sid p1)
      in if refCount (entry_table p2 ! e) = 0 then dispose_entry e p2 else p2)"

definition startIdleTimer :: "nat \<Rightarrow> ssh_pool \<Rightarrow> ssh_pool" where
  "startIdleTimer e p =
     (if idleTimeoutMs p = 0 then p
      else upd_entry e (\<lambda>x. x\<lparr>idleTimer := Some (min (idleTimeoutMs p) MAX_IDLE_TIMEOUT_MS)\<rparr>) p)"

text \<open>The callback of the idle timer.\<close>

definition idle_fires :: "nat \<Rightarrow> ssh_pool \<Rightarrow> ssh_pool" where
  "idle_fires e p =
     (let sid = entry_server (entry_table p ! e);
          p1 = upd_entry e (\<lambda>x. x\<lparr>idleTimer := None\<rparr>) p
      in if refCount (entry_table p1 ! e) = 0 \<and> current_entry sid p1 = Some e
         then evictEntry sid e p1 else p1)"

text \<open>The listener \<open>createEntry\<close> registers on the connection.\<close>

definition entry_closed :: "nat \<Rightarrow> ssh_pool \<Rightarrow> ssh_pool" where
  "entry_closed e p =
     (let sid = entry_server (entry_table p ! e);
          p1 = cancelIdleTimer e (upd_entry e (\<lambda>x. x\<lparr>healthy := False\<rparr>) p)
      in if current_entry sid p1 = Some e
         then pool_emit (Disconnected sid) (drop_entry sid p1) else p1)"

definition connection_closes :: "nat \<Rightarrow> ssh_pool \<Rightarrow> ssh_pool" where
  "connection_closes c p =
     foldl (\<lambda>q e. entry_closed e q) (upd_conn c (\<lambda>x. x\<lparr>closed := True\<rparr>) p)
       (filter (\<lambda>e. connection (entry_table p ! e) = c \<and> subscribed (entry_table p ! e))
          [0..<length (entry_table p)])"

definition pool_disconnect :: "string \<Rightarrow> ssh_pool \<Rightarrow> ssh_pool" where
  "pool_disconnect sid p =
     (case current_entry sid p of None \<Rightarrow> p | Some e \<Rightarrow> evictEntry sid e p)"

definition pool_invalidate :: "string \<Rightarrow> ssh_pool \<Rightarrow> ssh_pool" where
  "pool_invalidate sid p =
     (case current_entry sid p of None \<Rightarrow> p | Some e \<Rightarrow> softRemoveEntry sid e p)"

definition pool_dispose_one :: "ssh_pool \<Rightarrow> string \<times> nat \<Rightarrow> ssh_pool" where
  "pool_dispose_one p se =
     pool_emit (Disconnected (fst se)) (dispose_entry (snd se) (cancelIdleTimer (snd se) p))"

definition pool_dispose :: "ssh_pool \<Rightarrow> ssh_pool" where
  "pool_dispose p =
     (if pool_disposed p then p
      else (foldl pool_dispose_one (p\<lparr>pool_disposed := True\<rparr>) (entries p))
             \<lparr>entries := [], pending := [], listeners := []\<rparr>)"

section \<open>Connecting\<close>

text \<open>\<open>getOrCreateEntry\<close>: the result is what the call then waits for.\<close>

definition join_or_create :: "string \<Rightarrow> ssh_pool \<Rightarrow> ssh_pool \<times> call_state" where
  "join_or_create sid p =
     (case map_of (pending p) sid of
        Some c \<Rightarrow> (p, AwaitPending c)
      | None \<Rightarrow>
          (let c = length (creations p)
           in (p\<lparr>creations := creations p @
                   [\<lparr>creation_server = sid, creation_state = Connecting\<rparr>],
                 pending := AList.update sid c (pending p)\<rparr>, AwaitPending c)))"

definition getOrCreateEntry :: "string \<Rightarrow> ssh_pool \<Rightarrow> ssh_pool \<times> call_state" where
  "getOrCreateEntry sid p =
     (case current_entry sid p of
        None \<Rightarrow> join_or_create sid p
      | Some e \<Rightarrow>
          (if healthy (entry_table p ! e) then (p, AwaitEntry e)
           else join_or_create sid (closeUnsubscribe e (cancelIdleTimer e (drop_entry sid p)))))"

text \<open>\<open>connectWithContext\<close> up to its first await; \<open>multiplexing\<close> is the setting of the server.\<close>

definition connectWithContext :: "string \<Rightarrow> bool option \<Rightarrow> ssh_pool \<Rightarrow> ssh_pool" where
  "connectWithContext sid multiplexing p =
     (if pool_disposed p then p\<lparr>calls := calls p @ [Failed]\<rparr>
      else if \<not> or_default multiplexing (pool_enabled p)
      then p\<lparr>calls := calls p @ [Standalone]\<rparr>
      else (case getOrCreateEntry sid p of (p1, w) \<Rightarrow> p1\<lparr>calls := calls p1 @ [w]\<rparr>))"

definition standalone_settles :: "nat \<Rightarrow> bool \<Rightarrow> ssh_pool \<Rightarrow> ssh_pool" where
  "standalone_settles k ok p =
     (if ok then (add_conn p)\<lparr>calls := (calls p)[k := Returned]\<rparr>
      else p\<lparr>calls := (calls p)[k := Failed]\<rparr>)"

definition set_creation :: "nat \<Rightarrow> creation_state \<Rightarrow> ssh_pool \<Rightarrow> ssh_pool" where
  "set_creation c st p =
     p\<lparr>creations := (creations p)[c := (creations p ! c)\<lparr>creation_state := st\<rparr>]\<rparr>"

text \<open>\<open>createEntry\<close> when the connection has come or failed.\<close>

definition createEntry :: "nat \<Rightarrow> bool \<Rightarrow> ssh_pool \<Rightarrow> ssh_pool" where
  "createEntry c ok p =
     (let sid = creation_server (creations p ! c); n = length (conns p);
          e = length (entry_table p)
      in if \<not> ok then set_creation c Rejected p
         else if pool_disposed p
         then set_creation c Rejected (dispose_connection n (add_conn p))
         else pool_emit (Connected sid) (set_creation c (Created e) ((add_conn p)
                \<lparr>entry_table := entry_table p @
                   [\<lparr>entry_server = sid, connection = n, refCount = 0, healthy = True,
                     idleTimer = None, subscribed = True\<rparr>],
                 entries := AList.update sid e (entries p)\<rparr>)))"

text \<open>The \<open>finally\<close> of \<open>getOrCreateEntry\<close>; then the promise settles for all who wait for it.\<close>

definition creation_finally :: "nat \<Rightarrow> ssh_pool \<Rightarrow> ssh_pool" where
  "creation_finally c p =
     (let next_state = (case creation_state (creations p ! c) of
            Created e \<Rightarrow> AwaitEntry e | _ \<Rightarrow> Failed)
      in (set_creation c Finished p)
           \<lparr>pending := AList.delete (creation_server (creations p ! c)) (pending p),
            calls := map (\<lambda>w. if w = AwaitPending c then next_state else w) (calls p)\<rparr>)"

text \<open>\<open>connectWithContext\<close> after the await: the lease.\<close>

definition connect_continues :: "nat \<Rightarrow> nat \<Rightarrow> ssh_pool \<Rightarrow> ssh_pool" where
  "connect_continues k e p =
     (let p1 = upd_entry e (\<lambda>x. x\<lparr>refCount := refCount x + 1\<rparr>) (cancelIdleTimer e p)
      in p1\<lparr>leases := leases p1 @
              [\<lparr>inner_entry = e, lease_disposed = False, closeUnsubscribes = [],
                fallbackConnection = None, fallbackUsed = False, onRelease = ReleaseEntry,
                isReused = (1 < refCount (entry_table p1 ! e)), fallbackPromise = NotStarted,
                inFlight = 0\<rparr>],
            calls := (calls p1)[k := Returned]\<rparr>)"

section \<open>Leases\<close>

text \<open>The release closure of \<open>connectWithContext\<close> and the one \<open>executeFallback\<close> installs.\<close>

definition release_entry :: "nat \<Rightarrow> ssh_pool \<Rightarrow> ssh_pool" where
  "release_entry e p =
     (let p1 = upd_entry e (\<lambda>x. x\<lparr>refCount := refCount x - 1\<rparr>) p
      in if refCount (entry_table p1 ! e) = 0
         then (if current_entry (entry_server (entry_table p1 ! e)) p1 = Some e
               then startIdleTimer e p1 else dispose_entry e p1)
         else p1)"

definition run_release :: "nat \<Rightarrow> ssh_pool \<Rightarrow> ssh_pool" where
  "run_release l p =
     (case onRelease (leases p ! l) of
        ReleaseEntry \<Rightarrow> release_entry (inner_entry (leases p ! l)) p
      | DisposeFallback \<Rightarrow>
          (case fallbackConnection (leases p ! l) of
             Some c \<Rightarrow> dispose_connection c p | None \<Rightarrow> p))"

definition active_connection :: "nat \<Rightarrow> ssh_pool \<Rightarrow> nat" where
  "active_connection l p =
     (let x = leases p ! l; inner = connection (entry_table p ! inner_entry x)
      in if fallbackUsed x then or_default (fallbackConnection x) inner else inner)"

definition unsubscribe_close :: "ssh_pool \<Rightarrow> nat \<times> nat \<Rightarrow> ssh_pool" where
  "unsubscribe_close p cu =
     upd_conn (fst cu) (\<lambda>x. x\<lparr>closeListeners := removeAll (snd cu) (closeListeners x)\<rparr>) p"

text \<open>\<open>None\<close> is the error that the lease is disposed; \<open>u\<close> names the registration.\<close>

definition lease_onClose :: "nat \<Rightarrow> nat \<Rightarrow> ssh_pool \<Rightarrow> ssh_pool option" where
  "lease_onClose l u p =
     (if lease_disposed (leases p ! l) then None
      else Some (let c = active_connection l p
                 in upd_lease l (\<lambda>x. x\<lparr>closeUnsubscribes := closeUnsubscribes x @ [(c, u)]\<rparr>)
                      (upd_conn c (\<lambda>x. x\<lparr>closeListeners := closeListeners x @ [u]\<rparr>) p)))"

definition lease_offClose :: "nat \<Rightarrow> nat \<times> nat \<Rightarrow> ssh_pool \<Rightarrow> ssh_pool" where
  "lease_offClose l cu p =
     unsubscribe_close
       (upd_lease l (\<lambda>x. x\<lparr>closeUnsubscribes := remove1 cu (closeUnsubscribes x)\<rparr>) p) cu"

definition lease_dispose :: "nat \<Rightarrow> ssh_pool \<Rightarrow> ssh_pool" where
  "lease_dispose l p =
     (if lease_disposed (leases p ! l) then p
      else (let p1 = upd_lease l (\<lambda>x. x\<lparr>lease_disposed := True\<rparr>) p;
                p2 = foldl unsubscribe_close p1 (closeUnsubscribes (leases p1 ! l))
            in run_release l (upd_lease l (\<lambda>x. x\<lparr>closeUnsubscribes := []\<rparr>) p2)))"

definition shouldAttemptFallback :: "nat \<Rightarrow> ssh_error \<Rightarrow> ssh_pool \<Rightarrow> bool" where
  "shouldAttemptFallback l err p \<longleftrightarrow>
     \<not> fallbackUsed (leases p ! l)
     \<and> (isStaleConnectionError err
         \<or> isReused (leases p ! l) \<and> shouldFallbackForChannelLimit err)"

text \<open>\<open>createFallback\<close> up to its await.\<close>

definition createFallback :: "nat \<Rightarrow> ssh_pool \<Rightarrow> ssh_pool" where
  "createFallback e p =
     (let sid = entry_server (entry_table p ! e)
      in if current_entry sid p = Some e
         then pool_emit (Disconnected sid) (drop_entry sid (cancelIdleTimer e
                (upd_entry e (\<lambda>x. x\<lparr>healthy := False\<rparr>) p)))
         else p)"

definition tryFallback :: "nat \<Rightarrow> ssh_pool \<Rightarrow> ssh_pool" where
  "tryFallback l p =
     (if fallbackUsed (leases p ! l) then p
      else if fallbackPromise (leases p ! l) \<noteq> NotStarted then p
      else upd_lease l (\<lambda>x. x\<lparr>fallbackPromise := FallbackPending\<rparr>)
             (createFallback (inner_entry (leases p ! l)) p))"

text \<open>\<open>openShell\<close>, \<open>openDirectTcp\<close>, \<open>openSftp\<close> and \<open>exec\<close>: up to the await (\<open>None\<close> is the error
  that the lease is disposed), and when the connection answers.\<close>

definition open_channel :: "nat \<Rightarrow> ssh_pool \<Rightarrow> ssh_pool option" where
  "open_channel l p =
     (if lease_disposed (leases p ! l) then None
      else Some (upd_lease l (\<lambda>x. x\<lparr>inFlight := inFlight x + 1\<rparr>) p))"

definition open_succeeds :: "nat \<Rightarrow> ssh_pool \<Rightarrow> ssh_pool" where
  "open_succeeds l p = upd_lease l (\<lambda>x. x\<lparr>inFlight := inFlight x - 1\<rparr>) p"

definition open_fails :: "nat \<Rightarrow> ssh_error \<Rightarrow> ssh_pool \<Rightarrow> ssh_pool" where
  "open_fails l err p =
     (let p1 = upd_lease l (\<lambda>x. x\<lparr>inFlight := inFlight x - 1\<rparr>) p
      in if shouldAttemptFallback l err p1 then tryFallback l p1 else p1)"

text \<open>\<open>executeFallback\<close> when its connection has come or failed.\<close>

definition executeFallback :: "nat \<Rightarrow> bool \<Rightarrow> ssh_pool \<Rightarrow> ssh_pool" where
  "executeFallback l ok p =
     (if ok then
        (let n = length (conns p);
             p1 = upd_lease l (\<lambda>x. x\<lparr>fallbackConnection := Some n, fallbackUsed := True,
                                    fallbackPromise := FallbackSettled\<rparr>) (add_conn p)
         in upd_lease l (\<lambda>x. x\<lparr>onRelease := DisposeFallback\<rparr>) (run_release l p1))
      else upd_lease l (\<lambda>x. x\<lparr>fallbackUsed := True, fallbackPromise := FallbackSettled\<rparr>) p)"

section \<open>Runs\<close>

text \<open>Timers and closed connections are reported only when the reactions of settled promises
  have run.\<close>

definition reactions_done :: "ssh_pool \<Rightarrow> bool" where
  "reactions_done p \<longleftrightarrow>
     list_all (\<lambda>w. case w of AwaitEntry e \<Rightarrow> False | _ \<Rightarrow> True) (calls p)
     \<and> list_all (\<lambda>c. creation_state c = Connecting \<or> creation_state c = Finished) (creations p)"

inductive pool_step :: "ssh_pool \<Rightarrow> ssh_pool \<Rightarrow> bool" where
  listen: "pool_step p (onDidChange k p)"
| unlisten: "pool_step p (offDidChange k p)"
| connect: "pool_step p (connectWithContext sid mx p)"
| standalone: "k < length (calls p) \<Longrightarrow> calls p ! k = Standalone \<Longrightarrow>
    pool_step p (standalone_settles k ok p)"
| created: "c < length (creations p) \<Longrightarrow> creation_state (creations p ! c) = Connecting \<Longrightarrow>
    pool_step p (createEntry c ok p)"
| finished: "c < length (creations p) \<Longrightarrow>
    creation_state (creations p ! c) \<notin> {Connecting, Finished} \<Longrightarrow>
    pool_step p (creation_finally c p)"
| continue: "k < length (calls p) \<Longrightarrow> calls p ! k = AwaitEntry e \<Longrightarrow>
    pool_step p (connect_continues k e p)"
| subscribe: "l < length (leases p) \<Longrightarrow> lease_onClose l u p = Some p' \<Longrightarrow> pool_step p p'"
| unsubscribe: "l < length (leases p) \<Longrightarrow> pool_step p (lease_offClose l cu p)"
| dispose_lease: "l < length (leases p) \<Longrightarrow> pool_step p (lease_dispose l p)"
| open_start: "l < length (leases p) \<Longrightarrow> open_channel l p = Some p' \<Longrightarrow> pool_step p p'"
| opened: "l < length (leases p) \<Longrightarrow> 0 < inFlight (leases p ! l) \<Longrightarrow>
    pool_step p (open_succeeds l p)"
| open_failed: "l < length (leases p) \<Longrightarrow> 0 < inFlight (leases p ! l) \<Longrightarrow>
    pool_step p (open_fails l err p)"
| fallback: "l < length (leases p) \<Longrightarrow> fallbackPromise (leases p ! l) = FallbackPending \<Longrightarrow>
    pool_step p (executeFallback l ok p)"
| idle: "e < length (entry_table p) \<Longrightarrow> idleTimer (entry_table p ! e) \<noteq> None \<Longrightarrow>
    reactions_done p \<Longrightarrow> pool_step p (idle_fires e p)"
| closing: "c < length (conns p) \<Longrightarrow> \<not> closed (conns p ! c) \<Longrightarrow> reactions_done p \<Longrightarrow>
    pool_step p (connection_closes c p)"
| disconnect: "pool_step p (pool_disconnect sid p)"
| invalidate: "pool_step p (pool_invalidate sid p)"
| dispose: "pool_step p (pool_dispose p)"

inductive_cases pool_stepE: "pool_step p p'"

end
