(* ===== verification/Ssh_Pool_Runs.thy ===== *)
theory Ssh_Pool_Runs
  imports Ssh_Pool
begin

text \<open>
  Theorems on every run of the connection pool: the map of entries, the attempts to connect and the
  announced events belong together. Most operations either keep the map or remove one entry and
  announce it (\<open>keeps\<close>, \<open>removes\<close>), so the invariant is proved once for each of the two.
\<close>

section \<open>Changes that keep the shape of the pool\<close>

lemma map_update_same [simp]: "g y = g (xs ! i) \<Longrightarrow> map g (xs[i := y]) = map g xs"
  by (cases "i < length xs") (simp_all add: map_update list_update_beyond, metis list_update_id nth_map)

text \<open>What the step leaves alone apart from the map of entries and its announcements.\<close>

definition same_shape :: "ssh_pool \<Rightarrow> ssh_pool \<Rightarrow> bool" where
  "same_shape p q \<longleftrightarrow>
     pending q = pending p \<and> creations q = creations p \<and> pool_disposed q = pool_disposed p
     \<and> idleTimeoutMs q = idleTimeoutMs p
     \<and> calls q = calls p \<and> map entry_server (entry_table q) = map entry_server (entry_table p)
     \<and> map connection (entry_table q) = map connection (entry_table p)
     \<and> map inner_entry (leases q) = map inner_entry (leases p)"

lemma same_shape_refl [simp]: "same_shape p p"
  by (simp add: same_shape_def)

lemma same_shape_trans: "same_shape p q \<Longrightarrow> same_shape q r \<Longrightarrow> same_shape p r"
  by (simp add: same_shape_def)

lemma same_shape_length: "same_shape p q \<Longrightarrow> length (entry_table q) = length (entry_table p)"
  unfolding same_shape_def by (metis length_map)

lemma same_shape_server: "same_shape p q \<Longrightarrow> e < length (entry_table p) \<Longrightarrow>
    entry_server (entry_table q ! e) = entry_server (entry_table p ! e)"
  unfolding same_shape_def by (metis length_map nth_map)

section \<open>The invariant of all runs\<close>

fun pool_announce :: "pool_event list \<Rightarrow> string set \<Rightarrow> string set option" where
  "pool_announce [] S = Some S"
| "pool_announce (Connected sid # evs) S = (if sid \<in> S then None else pool_announce evs (insert sid S))"
| "pool_announce (Disconnected sid # evs) S = (if sid \<in> S then pool_announce evs (S - {sid}) else None)"

lemma announce_append:
  "pool_announce (xs @ ys) S = (case pool_announce xs S of None \<Rightarrow> None | Some T \<Rightarrow> pool_announce ys T)"
  by (induction xs S rule: pool_announce.induct) auto

definition entries_ok :: "ssh_pool \<Rightarrow> bool" where
  "entries_ok p \<longleftrightarrow>
     distinct (map fst (entries p)) \<and> (pool_disposed p \<longrightarrow> entries p = [])
     \<and> (\<forall>sid e. map_of (entries p) sid = Some e \<longrightarrow>
          e < length (entry_table p) \<and> entry_server (entry_table p ! e) = sid
          \<and> healthy (entry_table p ! e))
     \<and> pool_announce (map fst (pool_events p)) {} = Some (fst ` set (entries p))"

definition creations_ok :: "ssh_pool \<Rightarrow> bool" where
  "creations_ok p \<longleftrightarrow>
     (\<forall>sid c. map_of (pending p) sid = Some c \<longrightarrow>
        c < length (creations p) \<and> creation_server (creations p ! c) = sid)
     \<and> (\<forall>c < length (creations p). creation_state (creations p ! c) \<noteq> Finished \<longrightarrow>
          \<not> pool_disposed p \<longrightarrow> map_of (pending p) (creation_server (creations p ! c)) = Some c)
     \<and> (\<forall>c < length (creations p). creation_state (creations p ! c) = Connecting \<longrightarrow>
          map_of (entries p) (creation_server (creations p ! c)) = None)"

definition refs_ok :: "ssh_pool \<Rightarrow> bool" where
  "refs_ok p \<longleftrightarrow>
     (\<forall>c e. c \<in> set (creations p) \<longrightarrow> creation_state c = Created e \<longrightarrow> e < length (entry_table p))
     \<and> (\<forall>e. AwaitEntry e \<in> set (calls p) \<longrightarrow> e < length (entry_table p))
     \<and> (\<forall>c. AwaitPending c \<in> set (calls p) \<longrightarrow> c < length (creations p))
     \<and> (\<forall>l \<in> set (leases p). inner_entry l < length (entry_table p))"

definition pool_ok :: "ssh_pool \<Rightarrow> bool" where
  "pool_ok p \<longleftrightarrow> entries_ok p \<and> creations_ok p \<and> refs_ok p"

lemma pool_ok_current:
  "pool_ok p \<Longrightarrow> current_entry sid p = Some e \<Longrightarrow>
    e < length (entry_table p) \<and> entry_server (entry_table p ! e) = sid \<and> healthy (entry_table p ! e)"
  by (simp add: pool_ok_def entries_ok_def current_entry_def)

lemma inner_entry_ok: "pool_ok p \<Longrightarrow> l < length (leases p) \<Longrightarrow> inner_entry (leases p ! l) < length (entry_table p)"
  by (auto simp: pool_ok_def refs_ok_def)

lemma refs_ok_shape: "same_shape p q \<Longrightarrow> refs_ok p \<Longrightarrow> refs_ok q"
proof -
  assume sh: "same_shape p q" and r: "refs_ok p"
  from sh have "set (map inner_entry (leases q)) = set (map inner_entry (leases p))"
    by (simp add: same_shape_def)
  then have i: "inner_entry ` set (leases q) = inner_entry ` set (leases p)" by simp
  have "\<forall>l \<in> set (leases p). inner_entry l < length (entry_table p)" using r by (simp add: refs_ok_def)
  then have "\<forall>n \<in> inner_entry ` set (leases q). n < length (entry_table p)" unfolding i by blast
  then have "\<forall>l \<in> set (leases q). inner_entry l < length (entry_table p)" by blast
  moreover have "calls q = calls p" "creations q = creations p" using sh by (simp_all add: same_shape_def)
  ultimately show ?thesis using r same_shape_length [OF sh] by (simp add: refs_ok_def)
qed

lemma pool_ok_same:
  assumes "pool_ok p" "same_shape p q" "entries q = entries p"
    "map fst (pool_events q) = map fst (pool_events p)"
    "\<And>e. e < length (entry_table p) \<Longrightarrow> healthy (entry_table p ! e) \<Longrightarrow>
       current_entry (entry_server (entry_table p ! e)) p = Some e \<Longrightarrow> healthy (entry_table q ! e)"
  shows "pool_ok q"
proof -
  have e: "e < length (entry_table q) \<and> entry_server (entry_table q ! e) = sid \<and> healthy (entry_table q ! e)"
    if "map_of (entries p) sid = Some e" for sid e
    using pool_ok_current [OF assms(1), unfolded current_entry_def, OF that] that assms(5)
      same_shape_server [OF assms(2)] same_shape_length [OF assms(2)]
    by (simp add: current_entry_def)
  have "pool_disposed q = pool_disposed p" "pending q = pending p" "creations q = creations p"
    using assms(2) by (simp_all add: same_shape_def)
  with assms(1,3,4) e have "entries_ok q" "creations_ok q"
    by (simp_all add: pool_ok_def entries_ok_def creations_ok_def)
  then show ?thesis using assms(1) refs_ok_shape [OF assms(2)] by (simp add: pool_ok_def)
qed

lemma fst_delete: "fst ` set (AList.delete k xs) = fst ` set xs - {k}"
  by (force simp: AList.delete_eq)

lemma pool_ok_removed:
  assumes "pool_ok p" "same_shape p q" "entries q = AList.delete sid (entries p)"
    "current_entry sid p = Some e" "map fst (pool_events q) = map fst (pool_events p) @ [Disconnected sid]"
    "\<And>e'. e' < length (entry_table p) \<Longrightarrow> e' \<noteq> e \<Longrightarrow> healthy (entry_table p ! e') \<Longrightarrow> healthy (entry_table q ! e')"
  shows "pool_ok q"
proof -
  note e = pool_ok_current [OF assms(1,4)]
  have m: "map_of (entries q) k = (if k = sid then None else map_of (entries p) k)" for k
    by (simp add: assms(3) AList.delete_conv')
  have "sid \<in> fst ` set (entries p)"
    using assms(4) by (force simp: current_entry_def dest: map_of_SomeD)
  then have a: "pool_announce (map fst (pool_events q)) {} = Some (fst ` set (entries q))"
    using assms(1,3,5) by (simp add: pool_ok_def entries_ok_def announce_append fst_delete)
  have "healthy (entry_table q ! e') \<and> e' < length (entry_table q) \<and> entry_server (entry_table q ! e') = k"
    if "map_of (entries q) k = Some e'" for k e'
  proof -
    have k: "map_of (entries p) k = Some e'" "k \<noteq> sid" using that m by (auto split: if_splits)
    note e' = pool_ok_current [OF assms(1), unfolded current_entry_def, OF k(1)]
    then have "e' \<noteq> e" using k(2) e by auto
    then show ?thesis using e' assms(2,6) same_shape_server [OF assms(2)]
        same_shape_length [OF assms(2)] by simp
  qed
  moreover have "pool_disposed q = pool_disposed p" "pending q = pending p" "creations q = creations p"
    using assms(2) by (simp_all add: same_shape_def)
  ultimately have "entries_ok q" "creations_ok q"
    using assms(1,3) a m by (simp_all add: pool_ok_def entries_ok_def creations_ok_def AList.distinct_delete)
  then show ?thesis using assms(1) refs_ok_shape [OF assms(2)] by (simp add: pool_ok_def)
qed

section \<open>The invariant is kept\<close>

lemmas pool_upds = upd_entry_def upd_lease_def upd_conn_def add_conn_def drop_entry_def
  dispose_connection_def pool_emit_def cancelIdleTimer_def closeUnsubscribe_def dispose_entry_def

text \<open>How a step that neither connects nor settles a call may change the pool.\<close>

definition only_entry :: "nat \<Rightarrow> ssh_pool \<Rightarrow> ssh_pool \<Rightarrow> bool" where
  "only_entry e p q \<longleftrightarrow> (\<forall>e'. e' \<noteq> e \<longrightarrow> entry_table q ! e' = entry_table p ! e')"

definition removes :: "string \<Rightarrow> nat \<Rightarrow> ssh_pool \<Rightarrow> ssh_pool \<Rightarrow> bool" where
  "removes sid e p q \<longleftrightarrow>
     same_shape p q \<and> only_entry e p q \<and> entries q = AList.delete sid (entries p)
     \<and> map fst (pool_events q) = map fst (pool_events p) @ [Disconnected sid] \<and> leases q = leases p"

definition keeps :: "ssh_pool \<Rightarrow> ssh_pool \<Rightarrow> bool" where
  "keeps p q \<longleftrightarrow>
     same_shape p q \<and> entries q = entries p \<and> map fst (pool_events q) = map fst (pool_events p)
     \<and> map healthy (entry_table q) = map healthy (entry_table p)"

lemma removes_ok: "pool_ok p \<Longrightarrow> current_entry sid p = Some e \<Longrightarrow> removes sid e p q \<Longrightarrow> pool_ok q"
  by (rule pool_ok_removed [of p q sid e]) (auto simp: removes_def only_entry_def)

lemma keeps_ok: "pool_ok p \<Longrightarrow> keeps p q \<Longrightarrow> pool_ok q"
  by (rule pool_ok_same [of p q]) (auto simp: keeps_def, metis length_map nth_map)

lemma keeps_trans: "keeps p q \<Longrightarrow> keeps q r \<Longrightarrow> keeps p r"
  by (auto simp: keeps_def intro: same_shape_trans)

lemma keeps_refl [simp]: "keeps p p"
  by (simp add: keeps_def)

lemma keeps_upd_conn [simp]: "keeps p (upd_conn c f p)"
  by (simp add: keeps_def same_shape_def pool_upds)

lemma keeps_upd_entry:
  "(\<And>x. entry_server (f x) = entry_server x \<and> connection (f x) = connection x \<and> healthy (f x) = healthy x)
    \<Longrightarrow> keeps p (upd_entry e f p)"
  by (simp add: keeps_def same_shape_def pool_upds)

lemma keeps_upd_lease: "(\<And>x. inner_entry (f x) = inner_entry x) \<Longrightarrow> keeps p (upd_lease l f p)"
  by (simp add: keeps_def same_shape_def pool_upds)

lemma keeps_add_conn [simp]: "keeps p (add_conn p)"
  by (simp add: keeps_def same_shape_def pool_upds)

lemma keeps_dispose_connection [simp]: "keeps p (dispose_connection c p)"
  by (simp add: dispose_connection_def)

lemma keeps_dispose_entry [simp]: "keeps p (dispose_entry e p)"
  unfolding dispose_entry_def closeUnsubscribe_def
  by (rule keeps_trans [OF keeps_upd_entry keeps_dispose_connection]) simp

lemma keeps_startIdleTimer [simp]: "keeps p (startIdleTimer e p)"
  by (simp add: startIdleTimer_def keeps_upd_entry)

lemma keeps_cancelIdleTimer [simp]: "keeps p (cancelIdleTimer e p)"
  by (simp add: cancelIdleTimer_def keeps_upd_entry)

lemma keeps_release_entry [simp]: "keeps p (release_entry e p)"
proof -
  have "keeps p (upd_entry e (\<lambda>x. x\<lparr>refCount := refCount x - 1\<rparr>) p)" by (rule keeps_upd_entry) simp
  then show ?thesis
    by (auto simp: release_entry_def Let_def intro: keeps_trans)
qed

lemma keeps_run_release [simp]: "keeps p (run_release l p)"
  by (simp add: run_release_def split: release_action.split option.split)

lemma keeps_unsubscribes: "keeps p (foldl unsubscribe_close p cus)"
proof (induction cus arbitrary: p)
  case (Cons cu cus)
  have "keeps p (unsubscribe_close p cu)" by (simp add: unsubscribe_close_def)
  with Cons.IH show ?case by (auto intro: keeps_trans)
qed simp

lemma keeps_lease_dispose [simp]: "keeps p (lease_dispose l p)"
proof -
  let ?p1 = "upd_lease l (\<lambda>x. x\<lparr>lease_disposed := True\<rparr>) p"
  let ?p2 = "foldl unsubscribe_close ?p1 (closeUnsubscribes (leases ?p1 ! l))"
  let ?p3 = "upd_lease l (\<lambda>x. x\<lparr>closeUnsubscribes := []\<rparr>) ?p2"
  have "keeps p ?p1" by (rule keeps_upd_lease) simp
  moreover have "keeps ?p2 ?p3" by (rule keeps_upd_lease) simp
  ultimately have "keeps p (run_release l ?p3)"
    using keeps_unsubscribes keeps_run_release by (meson keeps_trans)
  then show ?thesis by (simp add: lease_dispose_def Let_def)
qed

lemma removes_evictEntry: "e < length (entry_table p) \<Longrightarrow> removes sid e p (evictEntry sid e p)"
  by (simp add: removes_def same_shape_def only_entry_def evictEntry_def Let_def pool_upds)

lemma removes_softRemoveEntry: "e < length (entry_table p) \<Longrightarrow> removes sid e p (softRemoveEntry sid e p)"
  by (simp add: removes_def same_shape_def only_entry_def softRemoveEntry_def Let_def pool_upds)

lemma removes_createFallback:
  "current_entry (entry_server (entry_table p ! e)) p = Some e \<Longrightarrow> e < length (entry_table p) \<Longrightarrow>
    removes (entry_server (entry_table p ! e)) e p (createFallback e p)"
  by (simp add: removes_def same_shape_def only_entry_def createFallback_def Let_def pool_upds)

lemma entry_closed_ok: "pool_ok p \<Longrightarrow> e < length (entry_table p) \<Longrightarrow> pool_ok (entry_closed e p)"
proof -
  assume a: "pool_ok p" "e < length (entry_table p)"
  let ?sid = "entry_server (entry_table p ! e)"
  show "pool_ok (entry_closed e p)"
  proof (cases "current_entry ?sid p = Some e")
    case True
    then have "removes ?sid e p (entry_closed e p)"
      using a by (simp add: removes_def same_shape_def only_entry_def entry_closed_def Let_def
          current_entry_def pool_upds)
    with a True show ?thesis using removes_ok by blast
  next
    case False
    with a show ?thesis
      by (intro pool_ok_same [OF a(1)])
        (auto simp: entry_closed_def current_entry_def Let_def pool_upds same_shape_def nth_update_if)
  qed
qed

lemma length_entry_closed [simp]: "length (entry_table (entry_closed e p)) = length (entry_table p)"
  by (simp add: entry_closed_def Let_def pool_upds)

lemma entries_closed_ok:
  "pool_ok p \<Longrightarrow> \<forall>e \<in> set es. e < length (entry_table p) \<Longrightarrow> pool_ok (foldl (\<lambda>q e. entry_closed e q) p es)"
  by (induction es arbitrary: p) (simp_all add: entry_closed_ok)

lemma connection_closes_ok: "pool_ok p \<Longrightarrow> pool_ok (connection_closes c p)"
  unfolding connection_closes_def
  by (rule entries_closed_ok, rule keeps_ok [OF _ keeps_upd_conn], assumption) (simp add: upd_conn_def)

lemma idle_fires_ok: "pool_ok p \<Longrightarrow> e < length (entry_table p) \<Longrightarrow> pool_ok (idle_fires e p)"
proof -
  assume a: "pool_ok p" "e < length (entry_table p)"
  let ?p1 = "upd_entry e (\<lambda>x. x\<lparr>idleTimer := None\<rparr>) p"
  have ok: "pool_ok ?p1" by (rule keeps_ok [OF a(1) keeps_upd_entry]) simp
  have len: "e < length (entry_table ?p1)" using a by (simp add: upd_entry_def)
  show ?thesis using ok removes_ok [OF ok _ removes_evictEntry [OF len]] by (simp add: idle_fires_def Let_def)
qed

lemma open_fails_ok: "pool_ok p \<Longrightarrow> l < length (leases p) \<Longrightarrow> pool_ok (open_fails l err p)"
proof -
  assume a: "pool_ok p" "l < length (leases p)"
  let ?p1 = "upd_lease l (\<lambda>x. x\<lparr>inFlight := inFlight x - 1\<rparr>) p" and ?e = "inner_entry (leases p ! l)"
  have ok: "pool_ok ?p1" by (rule keeps_ok [OF a(1) keeps_upd_lease]) simp
  have e: "?e < length (entry_table ?p1)" using inner_entry_ok [OF a] by (simp add: upd_lease_def)
  have "pool_ok (createFallback ?e ?p1)"
  proof (cases "current_entry (entry_server (entry_table ?p1 ! ?e)) ?p1 = Some ?e")
    case True
    then show ?thesis using removes_ok [OF ok True removes_createFallback [OF True e]] by simp
  next
    case False
    then show ?thesis using ok by (simp add: createFallback_def Let_def)
  qed
  then have "pool_ok (upd_lease l (\<lambda>x. x\<lparr>fallbackPromise := FallbackPending\<rparr>) (createFallback ?e ?p1))"
    by (rule keeps_ok [OF _ keeps_upd_lease]) simp
  moreover have "inner_entry (leases ?p1 ! l) = ?e" by (simp add: upd_lease_def nth_update_if)
  ultimately show ?thesis using ok by (simp add: open_fails_def Let_def tryFallback_def)
qed

lemma keeps_executeFallback [simp]: "keeps p (executeFallback l ok p)"
proof -
  let ?f = "\<lambda>x. x\<lparr>fallbackConnection := Some (length (conns p)), fallbackUsed := True,
    fallbackPromise := FallbackSettled\<rparr>"
  let ?p1 = "upd_lease l ?f (add_conn p)"
  have "keeps (add_conn p) ?p1" by (rule keeps_upd_lease) simp
  then have 1: "keeps p (run_release l ?p1)" using keeps_trans keeps_add_conn keeps_run_release by meson
  have "keeps (run_release l ?p1) (upd_lease l (\<lambda>x. x\<lparr>onRelease := DisposeFallback\<rparr>) (run_release l ?p1))"
    by (rule keeps_upd_lease) simp
  from keeps_trans [OF 1 this]
  show ?thesis by (simp add: executeFallback_def Let_def keeps_upd_lease)
qed

lemma dispose_all_keeps:
  "same_shape p (foldl pool_dispose_one p es) \<and> entries (foldl pool_dispose_one p es) = entries p
    \<and> map fst (pool_events (foldl pool_dispose_one p es)) = map fst (pool_events p) @ map (Disconnected \<circ> fst) es
    \<and> leases (foldl pool_dispose_one p es) = leases p"
proof (induction es arbitrary: p)
  case (Cons se es)
  have "same_shape p (pool_dispose_one p se) \<and> entries (pool_dispose_one p se) = entries p
      \<and> map fst (pool_events (pool_dispose_one p se)) = map fst (pool_events p) @ [Disconnected (fst se)]
      \<and> leases (pool_dispose_one p se) = leases p"
    by (simp add: pool_dispose_one_def pool_upds same_shape_def nth_update_if)
  with Cons.IH [of "pool_dispose_one p se"] show ?case by (auto intro: same_shape_trans)
qed simp

lemma announce_all_gone:
  "distinct (map fst es) \<Longrightarrow> fst ` set es \<subseteq> S \<Longrightarrow> pool_announce (map (Disconnected \<circ> fst) es) S = Some (S - fst ` set es)"
proof (induction es arbitrary: S)
  case (Cons se es)
  then have "fst se \<notin> fst ` set es" "distinct (map fst es)" "fst ` set es \<subseteq> S" by simp_all
  then have "pool_announce (map (Disconnected \<circ> fst) es) (S - {fst se}) = Some (S - {fst se} - fst ` set es)"
    using Cons.IH [of "S - {fst se}"] by blast
  moreover have "fst se \<in> S" using Cons.prems by simp
  moreover have "S - {fst se} - fst ` set es = S - fst ` set (se # es)" by auto
  moreover have "pool_announce (map (Disconnected \<circ> fst) (se # es)) S = pool_announce (map (Disconnected \<circ> fst) es) (S - {fst se})"
    using calculation(2) by simp
  ultimately show ?case by metis
qed simp

lemma pool_dispose_ok: "pool_ok p \<Longrightarrow> pool_ok (pool_dispose p)"
proof (cases "pool_disposed p")
  case False
  assume ok: "pool_ok p"
  let ?q = "foldl pool_dispose_one (p\<lparr>pool_disposed := True\<rparr>) (entries p)"
  note k = dispose_all_keeps [of "p\<lparr>pool_disposed := True\<rparr>" "entries p"]
  have "refs_ok (p\<lparr>pool_disposed := True\<rparr>)" using ok by (simp add: pool_ok_def refs_ok_def)
  then have r: "refs_ok ?q" using k refs_ok_shape by blast
  have d: "pool_disposed ?q" "creations ?q = creations p" using k by (simp_all add: same_shape_def)
  have "pool_announce (map fst (pool_events ?q)) {} = Some {}"
    using ok k announce_all_gone [of "entries p" "fst ` set (entries p)"]
    by (simp add: pool_ok_def entries_ok_def announce_append)
  then show ?thesis
    using False r d by (simp add: pool_dispose_def pool_ok_def entries_ok_def creations_ok_def refs_ok_def)
qed (simp add: pool_dispose_def)

lemma pool_ok_calls:
  "pool_ok p \<Longrightarrow> (\<And>e. AwaitEntry e \<in> set ws \<Longrightarrow> e < length (entry_table p)) \<Longrightarrow>
    (\<And>c. AwaitPending c \<in> set ws \<Longrightarrow> c < length (creations p)) \<Longrightarrow> pool_ok (p\<lparr>calls := ws\<rparr>)"
  by (simp add: pool_ok_def entries_ok_def creations_ok_def refs_ok_def)

lemma pool_ok_awaits:
  "pool_ok p \<Longrightarrow> AwaitEntry e \<in> set (calls p) \<Longrightarrow> e < length (entry_table p)"
  "pool_ok p \<Longrightarrow> AwaitPending c \<in> set (calls p) \<Longrightarrow> c < length (creations p)"
  by (simp_all add: pool_ok_def refs_ok_def)

lemma join_or_create_ok:
  assumes "pool_ok p" "\<not> pool_disposed p" "map_of (entries p) sid = None" "join_or_create sid p = (q, w)"
  shows "pool_ok q \<and> (\<exists>c < length (creations q). w = AwaitPending c) \<and> calls q = calls p
    \<and> entry_table q = entry_table p"
proof (cases "map_of (pending p) sid")
  case None
  have fresh: "creation_server (creations p ! c) \<noteq> sid"
    if "c < length (creations p)" "creation_state (creations p ! c) \<noteq> Finished" for c
    using that assms(1,2) None by (auto simp: pool_ok_def creations_ok_def)
  have q: "q = p\<lparr>creations := creations p @ [\<lparr>creation_server = sid, creation_state = Connecting\<rparr>],
      pending := AList.update sid (length (creations p)) (pending p)\<rparr>" "w = AwaitPending (length (creations p))"
    using assms(4) None by (simp_all add: join_or_create_def Let_def)
  have "entries_ok q" "refs_ok q" using assms(1) by (auto simp: q pool_ok_def entries_ok_def refs_ok_def)
  moreover have "creations_ok q"
    using assms(1,3) fresh unfolding creations_ok_def q
    by (auto simp: pool_ok_def creations_ok_def AList.update_conv' nth_append less_Suc_eq)
  ultimately show ?thesis by (simp add: pool_ok_def q)
next
  case (Some c)
  then show ?thesis using assms by (auto simp: join_or_create_def pool_ok_def creations_ok_def)
qed

lemma connectWithContext_ok:
  assumes "pool_ok p"
  shows "pool_ok (connectWithContext sid mx p)"
proof (cases "pool_disposed p \<or> \<not> or_default mx (pool_enabled p)")
  case True
  then show ?thesis
    using assms by (auto simp: connectWithContext_def intro!: pool_ok_calls dest: pool_ok_awaits)
next
  case False
  show ?thesis
  proof (cases "current_entry sid p")
    case None
    obtain q w where j: "join_or_create sid p = (q, w)" by fastforce
    note q = join_or_create_ok [OF assms _ None [unfolded current_entry_def] j]
    then have "pool_ok (q\<lparr>calls := calls q @ [w]\<rparr>)"
      using False by (intro pool_ok_calls) (auto dest: pool_ok_awaits)
    then show ?thesis using False None j by (simp add: connectWithContext_def getOrCreateEntry_def)
  next
    case (Some e)
    note e = pool_ok_current [OF assms Some]
    have "pool_ok (p\<lparr>calls := calls p @ [AwaitEntry e]\<rparr>)"
      using assms e by (intro pool_ok_calls) (auto dest: pool_ok_awaits)
    then show ?thesis using False Some e by (simp add: connectWithContext_def getOrCreateEntry_def)
  qed
qed

lemma creation_pending:
  "creations_ok p \<Longrightarrow> c < length (creations p) \<Longrightarrow> creation_state (creations p ! c) \<noteq> Finished \<Longrightarrow>
    \<not> pool_disposed p \<Longrightarrow> map_of (pending p) (creation_server (creations p ! c)) = Some c"
  unfolding creations_ok_def by blast

lemma pending_creation:
  "creations_ok p \<Longrightarrow> map_of (pending p) sid = Some c \<Longrightarrow>
    c < length (creations p) \<and> creation_server (creations p ! c) = sid"
  unfolding creations_ok_def by blast

lemma connecting_absent:
  "creations_ok p \<Longrightarrow> c < length (creations p) \<Longrightarrow> creation_state (creations p ! c) = Connecting \<Longrightarrow>
    map_of (entries p) (creation_server (creations p ! c)) = None"
  unfolding creations_ok_def by blast

lemma creations_okI:
  assumes "\<And>sid c. map_of (pending p) sid = Some c \<Longrightarrow>
      c < length (creations p) \<and> creation_server (creations p ! c) = sid"
    "\<And>c. c < length (creations p) \<Longrightarrow> creation_state (creations p ! c) \<noteq> Finished \<Longrightarrow> \<not> pool_disposed p \<Longrightarrow>
      map_of (pending p) (creation_server (creations p ! c)) = Some c"
    "\<And>c. c < length (creations p) \<Longrightarrow> creation_state (creations p ! c) = Connecting \<Longrightarrow>
      map_of (entries p) (creation_server (creations p ! c)) = None"
  shows "creations_ok p"
  using assms unfolding creations_ok_def by blast

lemma one_creation_per_server:
  assumes "creations_ok p" "\<not> pool_disposed p" "c < length (creations p)" "c' < length (creations p)"
    "creation_state (creations p ! c) \<noteq> Finished" "creation_state (creations p ! c') \<noteq> Finished"
    "creation_server (creations p ! c) = creation_server (creations p ! c')"
  shows "c = c'"
proof -
  have "map_of (pending p) (creation_server (creations p ! c)) = Some c"
    "map_of (pending p) (creation_server (creations p ! c')) = Some c'"
    by (rule creation_pending [OF assms(1) assms(3) assms(5) assms(2)],
        rule creation_pending [OF assms(1) assms(4) assms(6) assms(2)])
  then show ?thesis using assms(7) by (metis option.inject)
qed

lemma creations_update [simp]:
  "creation_server (((creations p)[c := (creations p ! c)\<lparr>creation_state := st\<rparr>]) ! c') = creation_server (creations p ! c')"
  by (simp add: nth_update_if)

lemma set_creation_Rejected_ok:
  assumes "pool_ok p" "creation_state (creations p ! c) = Connecting"
  shows "pool_ok (set_creation c Rejected p)"
proof -
  have "refs_ok (set_creation c Rejected p)"
    using assms(1) unfolding pool_ok_def refs_ok_def set_creation_def
    by (auto dest!: set_update_subset_insert [THEN subsetD])
  moreover have "creations_ok (set_creation c Rejected p)"
    using assms unfolding pool_ok_def creations_ok_def set_creation_def
    by (auto simp: nth_update_if split: if_splits)
  moreover have "entries_ok (set_creation c Rejected p)"
    using assms by (simp add: pool_ok_def entries_ok_def set_creation_def)
  ultimately show ?thesis by (simp add: pool_ok_def)
qed

lemma fst_update: "fst ` set (AList.update k v xs) = insert k (fst ` set xs)"
  by (simp add: AList.dom_update)

lemma createEntry_ok:
  assumes "pool_ok p" "c < length (creations p)" "creation_state (creations p ! c) = Connecting"
  shows "pool_ok (createEntry c ok p)"
proof -
  let ?q = "dispose_connection (length (conns p)) (add_conn p)" and ?sid = "creation_server (creations p ! c)"
  have "pool_ok ?q" using assms(1) keeps_ok keeps_trans [OF keeps_add_conn keeps_dispose_connection] by blast
  moreover have "creations ?q = creations p" by (simp add: pool_upds)
  ultimately have "pool_ok (set_creation c Rejected ?q)" using assms(3) by (intro set_creation_Rejected_ok) simp_all
  moreover have "pool_ok (createEntry c ok p)" if "ok" "\<not> pool_disposed p"
  proof -
    let ?r = "createEntry c ok p" and ?e = "length (entry_table p)"
    have n: "map_of (entries p) ?sid = None" using assms by (simp add: pool_ok_def creations_ok_def)
    have t: "entry_table ?r = entry_table p @ [\<lparr>entry_server = ?sid, connection = length (conns p), refCount = 0,
        healthy = True, idleTimer = None, subscribed = True\<rparr>]"
      "entries ?r = AList.update ?sid ?e (entries p)" "pending ?r = pending p" "calls ?r = calls p"
      "creations ?r = (creations p)[c := (creations p ! c)\<lparr>creation_state := Created ?e\<rparr>]" "leases ?r = leases p"
      "map fst (pool_events ?r) = map fst (pool_events p) @ [Connected ?sid]" "pool_disposed ?r = pool_disposed p"
      using that by (simp_all add: createEntry_def Let_def set_creation_def pool_upds)
    have "?sid \<notin> fst ` set (entries p)" using n by (simp add: map_of_eq_None_iff)
    then have "pool_announce (map fst (pool_events ?r)) {} = Some (fst ` set (entries ?r))"
      using assms(1) by (simp add: pool_ok_def entries_ok_def t announce_append fst_update)
    moreover have "e < length (entry_table ?r) \<and> entry_server (entry_table ?r ! e) = k \<and> healthy (entry_table ?r ! e)"
      if "map_of (entries ?r) k = Some e" for k e
      using that pool_ok_current [OF assms(1), of k e]
      by (cases "k = ?sid") (auto simp: t AList.update_conv' nth_append current_entry_def)
    moreover have "distinct (map fst (entries p))" using assms(1) by (simp add: pool_ok_def entries_ok_def)
    then have "distinct (map fst (entries ?r))" by (simp add: t AList.distinct_update)
    ultimately have "entries_ok ?r" using that(2) by (simp add: entries_ok_def t(8))
    moreover have "creations_ok ?r"
    proof (rule creations_okI)
      note cr = assms(1) [unfolded pool_ok_def, THEN conjunct2, THEN conjunct1]
      show "d < length (creations ?r) \<and> creation_server (creations ?r ! d) = k"
        if "map_of (pending ?r) k = Some d" for k d
        using that pending_creation [OF cr, of k d] by (simp add: t)
      show "map_of (pending ?r) (creation_server (creations ?r ! d)) = Some d"
        if "d < length (creations ?r)" "creation_state (creations ?r ! d) \<noteq> Finished" "\<not> pool_disposed ?r" for d
        using that creation_pending [OF cr, of d] assms(3) by (simp add: t nth_update_if split: if_splits)
      show "map_of (entries ?r) (creation_server (creations ?r ! d)) = None"
        if "d < length (creations ?r)" "creation_state (creations ?r ! d) = Connecting" for d
      proof -
        have d: "d \<noteq> c" "d < length (creations p)" "creation_state (creations p ! d) = Connecting"
          using that assms(2) by (auto simp: t nth_update_if split: if_splits)
        then have "creation_server (creations p ! d) \<noteq> ?sid"
          using one_creation_per_server [OF cr \<open>\<not> pool_disposed p\<close> d(2) assms(2)] assms(3) by auto
        then show ?thesis using connecting_absent [OF cr d(2,3)] by (simp add: t AList.update_conv')
      qed
    qed
    moreover have "refs_ok ?r"
      using assms(1) unfolding pool_ok_def refs_ok_def t
      by (auto dest!: set_update_subset_insert [THEN subsetD])
    ultimately show ?thesis by (simp add: pool_ok_def)
  qed
  ultimately show ?thesis using set_creation_Rejected_ok [OF assms(1,3)] by (auto simp: createEntry_def Let_def)
qed

lemma creation_finally_ok:
  assumes "pool_ok p" "c < length (creations p)" "creation_state (creations p ! c) \<noteq> Finished"
    "creation_state (creations p ! c) \<noteq> Connecting"
  shows "pool_ok (creation_finally c p)"
proof -
  let ?r = "creation_finally c p" and ?sid = "creation_server (creations p ! c)"
  have t: "entry_table ?r = entry_table p" "entries ?r = entries p" "pool_disposed ?r = pool_disposed p"
    "creations ?r = (creations p)[c := (creations p ! c)\<lparr>creation_state := Finished\<rparr>]" "leases ?r = leases p"
    "pending ?r = AList.delete ?sid (pending p)" "pool_events ?r = pool_events p"
    by (simp_all add: creation_finally_def Let_def set_creation_def)
  have "entries_ok ?r" using assms(1) by (simp add: pool_ok_def entries_ok_def t)
  moreover have "creations_ok ?r"
  proof (rule creations_okI)
    note cr = assms(1) [unfolded pool_ok_def, THEN conjunct2, THEN conjunct1]
    show "d < length (creations ?r) \<and> creation_server (creations ?r ! d) = k"
      if "map_of (pending ?r) k = Some d" for k d
      using that pending_creation [OF cr, of k d] by (simp add: t AList.delete_conv' split: if_splits)
    show "map_of (pending ?r) (creation_server (creations ?r ! d)) = Some d"
      if "d < length (creations ?r)" "creation_state (creations ?r ! d) \<noteq> Finished" "\<not> pool_disposed ?r" for d
    proof -
      have d: "d \<noteq> c" "d < length (creations p)" "creation_state (creations p ! d) \<noteq> Finished" "\<not> pool_disposed p"
        using that assms(2) by (auto simp: t nth_update_if split: if_splits)
      then have "creation_server (creations p ! d) \<noteq> ?sid"
        using one_creation_per_server [OF cr d(4,2) assms(2) d(3) assms(3)] by auto
      then show ?thesis using creation_pending [OF cr d(2,3,4)] by (simp add: t AList.delete_conv')
    qed
    show "map_of (entries ?r) (creation_server (creations ?r ! d)) = None"
      if "d < length (creations ?r)" "creation_state (creations ?r ! d) = Connecting" for d
      using that connecting_absent [OF cr, of d] by (simp add: t nth_update_if split: if_splits)
  qed
  moreover have "refs_ok ?r"
  proof -
    have "creations p ! c \<in> set (creations p)" using assms(2) by simp
    then have "creation_state (creations p ! c) = Created e \<Longrightarrow> e < length (entry_table p)" for e
      using assms(1) unfolding pool_ok_def refs_ok_def by blast
    then show ?thesis
      using assms(1) unfolding pool_ok_def refs_ok_def t
      by (auto simp: creation_finally_def Let_def set_creation_def split: creation_state.splits if_splits
          dest!: set_update_subset_insert [THEN subsetD])
  qed
  ultimately show ?thesis by (simp add: pool_ok_def)
qed

lemma connect_continues_ok:
  assumes "pool_ok p" "k < length (calls p)" "calls p ! k = AwaitEntry e"
  shows "pool_ok (connect_continues k e p)"
proof -
  let ?p1 = "upd_entry e (\<lambda>x. x\<lparr>refCount := refCount x + 1\<rparr>) (cancelIdleTimer e p)"
  have "AwaitEntry e \<in> set (calls p)" using assms(2,3) by (metis nth_mem)
  then have e: "e < length (entry_table p)" using pool_ok_awaits assms(1) by blast
  have "keeps (cancelIdleTimer e p) ?p1" by (rule keeps_upd_entry) simp
  then have 1: "pool_ok ?p1" using keeps_ok [OF assms(1)] keeps_trans keeps_cancelIdleTimer by blast
  have l: "length (entry_table ?p1) = length (entry_table p)" "calls ?p1 = calls p" "creations ?p1 = creations p"
    by (simp_all add: pool_upds)
  have "pool_ok (?p1\<lparr>leases := leases ?p1 @ [x]\<rparr>)" if "inner_entry x = e" for x
    using 1 e l that by (simp add: pool_ok_def entries_ok_def creations_ok_def refs_ok_def)
  then have "pool_ok ((?p1\<lparr>leases := leases ?p1 @ [x]\<rparr>)\<lparr>calls := (calls p)[k := Returned]\<rparr>)"
    if "inner_entry x = e" for x
    using that pool_ok_awaits [OF assms(1)] l
    by (intro pool_ok_calls) (auto dest!: set_update_subset_insert [THEN subsetD])
  then show ?thesis by (simp add: connect_continues_def Let_def l)
qed

lemma standalone_ok: "pool_ok p \<Longrightarrow> pool_ok (standalone_settles k ok p)"
proof -
  assume a: "pool_ok p"
  have "pool_ok (q\<lparr>calls := (calls p)[k := w]\<rparr>)"
    if "w = Returned \<or> w = Failed" "pool_ok q" "calls q = calls p" for q w
    using that pool_ok_awaits [OF that(2)] by (intro pool_ok_calls) (auto dest!: set_update_subset_insert [THEN subsetD])
  then show ?thesis using a keeps_ok [OF a keeps_add_conn] by (auto simp: standalone_settles_def add_conn_def)
qed

lemma keeps_offClose [simp]: "keeps p (lease_offClose l cu p)"
proof -
  have "keeps p (upd_lease l (\<lambda>x. x\<lparr>closeUnsubscribes := remove1 cu (closeUnsubscribes x)\<rparr>) p)"
    by (rule keeps_upd_lease) simp
  then show ?thesis unfolding lease_offClose_def unsubscribe_close_def by (rule keeps_trans) simp
qed

lemma keeps_onClose: "lease_onClose l u p = Some q \<Longrightarrow> keeps p q"
  using keeps_trans [OF keeps_upd_conn keeps_upd_lease]
  by (auto simp: lease_onClose_def Let_def split: if_splits)

lemma keeps_open_channel: "open_channel l p = Some q \<Longrightarrow> keeps p q"
  using keeps_upd_lease by (auto simp: open_channel_def split: if_splits)

lemma pool_step_ok: "pool_step p q \<Longrightarrow> pool_ok p \<Longrightarrow> pool_ok q"
proof (induction rule: pool_step.induct)
  case (subscribe l p u p')
  then show ?case using keeps_ok keeps_onClose by blast
next
  case (open_start l p p')
  then show ?case using keeps_ok keeps_open_channel by blast
next
  case (opened l p)
  have "keeps p (open_succeeds l p)" unfolding open_succeeds_def by (rule keeps_upd_lease) simp
  then show ?case using keeps_ok opened.prems by blast
next
  case (disconnect p sid)
  then show ?case
    using removes_ok removes_evictEntry pool_ok_current by (auto simp: pool_disconnect_def split: option.split)
next
  case (invalidate p sid)
  then show ?case
    using removes_ok removes_softRemoveEntry pool_ok_current by (auto simp: pool_invalidate_def split: option.split)
next
  case (listen p k)
  then show ?case by (simp add: onDidChange_def pool_ok_def entries_ok_def creations_ok_def refs_ok_def)
next
  case (unlisten p k)
  then show ?case by (simp add: offDidChange_def pool_ok_def entries_ok_def creations_ok_def refs_ok_def)
next
  case (unsubscribe l p cu)
  then show ?case using keeps_ok keeps_offClose by blast
next
  case (dispose_lease l p)
  then show ?case using keeps_ok keeps_lease_dispose by blast
next
  case (fallback l p ok)
  then show ?case using keeps_ok keeps_executeFallback by blast
next
  case (finished c p)
  then show ?case using creation_finally_ok by simp
qed (simp_all add: connectWithContext_ok standalone_ok createEntry_ok connect_continues_ok
    open_fails_ok idle_fires_ok connection_closes_ok pool_dispose_ok)

lemma pool_ok_new: "pool_ok (new_pool enabled timeout)"
  by (simp add: pool_ok_def entries_ok_def creations_ok_def refs_ok_def new_pool_def)

interpretation pool_run: invariant_system "\<lambda>p. p = new_pool enabled timeout" pool_step pool_ok
  by unfold_locales (auto simp: pool_ok_new intro: pool_step_ok)

text \<open>
  In every run the events refine a set of connected servers: a server is announced as
  connected only when it is not in the set, as disconnected only when it is, and the set is at
  each moment the set of servers with a pooled connection.
\<close>
theorem pool_events_consistent:
  assumes "pool_step\<^sup>*\<^sup>* (new_pool enabled timeout) p"
  shows "pool_announce (map fst (pool_events p)) {} = Some {sid. current_entry sid p \<noteq> None}"
proof -
  have "pool_ok p" using pool_run.inv_reachable assms by blast
  then show ?thesis
    by (auto simp: pool_ok_def entries_ok_def current_entry_def map_of_eq_None_iff)
qed

definition example_pool :: ssh_pool where
  "example_pool = createEntry 0 True (connectWithContext ''a'' None (new_pool True 1000))"

lemma example_pool_reachable: "pool_step\<^sup>*\<^sup>* (new_pool True 1000) example_pool"
proof -
  let ?p = "connectWithContext ''a'' None (new_pool True 1000)"
  have "pool_step (new_pool True 1000) ?p" by (rule pool_step.connect)
  moreover have "pool_step ?p example_pool"
    unfolding example_pool_def
    by (rule pool_step.created) (simp_all add: connectWithContext_def or_default_def getOrCreateEntry_def
        current_entry_def join_or_create_def new_pool_def)
  ultimately show ?thesis by (meson rtranclp.rtrancl_refl rtranclp.rtrancl_into_rtrancl)
qed

theorem pool_events_consistent_witness:
  "pool_announce (map fst (pool_events example_pool)) {} = Some {sid. current_entry sid example_pool \<noteq> None}"
  by (rule pool_events_consistent [OF example_pool_reachable])

text \<open>
  Calls for the same server share one attempt to connect: while the pool is in use no two
  attempts for one server are under way, and none while a pooled connection is there.
\<close>
theorem pool_single_attempt:
  assumes "pool_step\<^sup>*\<^sup>* (new_pool enabled timeout) p" "\<not> pool_disposed p"
    "c < length (creations p)" "creation_state (creations p ! c) = Connecting"
  shows "current_entry (creation_server (creations p ! c)) p = None
    \<and> (\<forall>c' < length (creations p). creation_state (creations p ! c') = Connecting \<longrightarrow>
         creation_server (creations p ! c') = creation_server (creations p ! c) \<longrightarrow> c' = c)"
proof -
  have "pool_ok p" using pool_run.inv_reachable assms(1) by blast
  then have cr: "creations_ok p" by (simp add: pool_ok_def)
  show ?thesis
    using connecting_absent [OF cr assms(3,4)] one_creation_per_server [OF cr assms(2)] assms(3,4)
    by (simp add: current_entry_def)
qed

theorem pool_single_attempt_witness:
  "current_entry ''a'' (connectWithContext ''a'' None (new_pool True 1000)) = None"
proof -
  let ?p = "connectWithContext ''a'' None (new_pool True 1000)"
  have "pool_step\<^sup>*\<^sup>* (new_pool True 1000) ?p" by (blast intro: pool_step.connect)
  moreover have "\<not> pool_disposed ?p" "0 < length (creations ?p)" "creation_state (creations ?p ! 0) = Connecting"
    "creation_server (creations ?p ! 0) = ''a''"
    by (simp_all add: connectWithContext_def or_default_def getOrCreateEntry_def
        current_entry_def join_or_create_def new_pool_def)
  ultimately show ?thesis using pool_single_attempt [of True 1000 ?p 0] by simp
qed

end
