(* ===== verification/Ssh_Pool_Accounting.thy ===== *)
theory Ssh_Pool_Accounting
  imports Ssh_Pool_Runs
begin

text \<open>
  Theorems on the leases of the connection pool. The invariant says of each entry what its counter, its
  timer and its connection have to do with the leases that hold it (\<open>entry_good\<close>). It holds in runs in
  which no lease is disposed of while its fallback connects; the last section shows a run that breaks
  this and what goes wrong in it.
\<close>

section \<open>Accounting of leases\<close>

definition holds :: "nat \<Rightarrow> lease \<Rightarrow> bool" where
  "holds e x \<longleftrightarrow> inner_entry x = e \<and> onRelease x = ReleaseEntry \<and> \<not> lease_disposed x"

definition holders :: "ssh_pool \<Rightarrow> nat \<Rightarrow> nat" where
  "holders p e = length (filter (holds e) (leases p))"

definition registered :: "ssh_pool \<Rightarrow> nat \<Rightarrow> bool" where
  "registered p e \<longleftrightarrow> current_entry (entry_server (entry_table p ! e)) p = Some e"

definition conn_of :: "ssh_pool \<Rightarrow> nat \<Rightarrow> conn" where
  "conn_of p e = conns p ! connection (entry_table p ! e)"

text \<open>A call is about to take a lease on the entry.\<close>

definition expected :: "ssh_pool \<Rightarrow> nat \<Rightarrow> bool" where
  "expected p e \<longleftrightarrow> AwaitEntry e \<in> set (calls p)
     \<or> (\<exists>c < length (creations p). creation_state (creations p ! c) = Created e
          \<and> AwaitPending c \<in> set (calls p))"

text \<open>
  An entry with \<open>h\<close> leases, connection \<open>c\<close>: it counts its leases; its timer runs only when it is
  pooled and unused; out of the pool and unused its connection is gone; in the pool it is
  connected and watched; pooled and unused without a timer it is about to be used.
\<close>

definition entry_good :: "nat \<Rightarrow> pool_entry \<Rightarrow> bool \<Rightarrow> nat \<Rightarrow> conn \<Rightarrow> bool \<Rightarrow> bool" where
  "entry_good T x reg h c ab \<longleftrightarrow>
     refCount x = int h \<and> (idleTimer x \<noteq> None \<longrightarrow> h = 0 \<and> reg)
     \<and> (\<not> reg \<and> h = 0 \<longrightarrow> 0 < disposals c \<or> closed c)
     \<and> (reg \<longrightarrow> disposals c = 0 \<and> \<not> closed c \<and> subscribed x)
     \<and> (reg \<and> h = 0 \<and> T \<noteq> 0 \<and> idleTimer x = None \<longrightarrow> ab)"

definition good :: "ssh_pool \<Rightarrow> nat \<Rightarrow> bool" where
  "good p e \<longleftrightarrow> entry_good (idleTimeoutMs p) (entry_table p ! e) (registered p e) (holders p e)
     (conn_of p e) (expected p e)"

definition lease_good :: "lease \<Rightarrow> bool" where
  "lease_good x \<longleftrightarrow>
     (fallbackPromise x = FallbackPending \<longrightarrow> \<not> lease_disposed x \<and> onRelease x = ReleaseEntry)
     \<and> (fallbackPromise x = NotStarted \<longrightarrow> onRelease x = ReleaseEntry)"

definition conns_apart :: "ssh_pool \<Rightarrow> bool" where
  "conns_apart p \<longleftrightarrow>
     distinct (map connection (entry_table p))
     \<and> (\<forall>n \<in> set (map connection (entry_table p)). n < length (conns p))
     \<and> (\<forall>x \<in> set (leases p). \<forall>n. fallbackConnection x = Some n \<longrightarrow>
          n < length (conns p) \<and> n \<notin> set (map connection (entry_table p)))"

definition wired :: "ssh_pool \<Rightarrow> bool" where
  "wired p \<longleftrightarrow>
     conns_apart p \<and> list_all lease_good (leases p)
     \<and> (\<forall>c < length (creations p). creation_state (creations p ! c) \<noteq> Finished \<longrightarrow>
          AwaitPending c \<in> set (calls p))"

definition acct :: "ssh_pool \<Rightarrow> bool" where
  "acct p \<longleftrightarrow> wired p \<and> (\<forall>e < length (entry_table p). good p e)"

lemma goodD: "acct p \<Longrightarrow> e < length (entry_table p) \<Longrightarrow> good p e"
  by (simp add: acct_def)

lemma holders_pos: "l < length (leases p) \<Longrightarrow> holds e (leases p ! l) \<Longrightarrow> 0 < holders p e"
  by (auto simp: holders_def filter_empty_conv intro!: Nat.gr0I)

lemma connection_inj:
  "conns_apart p \<Longrightarrow> e < length (entry_table p) \<Longrightarrow> e' < length (entry_table p) \<Longrightarrow>
    connection (entry_table p ! e) = connection (entry_table p ! e') \<longleftrightarrow> e = e'"
  unfolding conns_apart_def by (metis distinct_conv_nth length_map nth_map)

lemma expected_shape: "same_shape p q \<Longrightarrow> expected q e = expected p e"
  by (simp add: same_shape_def expected_def)

lemma registered_keeps: "keeps p q \<Longrightarrow> e < length (entry_table p) \<Longrightarrow> registered q e = registered p e"
  using same_shape_server [of p q e] by (simp add: keeps_def registered_def current_entry_def)

lemma registered_removes:
  assumes "pool_ok p" "current_entry sid p = Some e" "removes sid e p q" "e' < length (entry_table p)"
  shows "registered q e' = (registered p e' \<and> e' \<noteq> e)"
proof -
  have "entry_server (entry_table q ! e') = entry_server (entry_table p ! e')"
    using assms(3,4) same_shape_server by (simp add: removes_def)
  moreover have "entry_server (entry_table p ! e) = sid" using pool_ok_current [OF assms(1,2)] by simp
  ultimately show ?thesis
    using assms(2,3) by (auto simp: registered_def current_entry_def removes_def AList.delete_conv')
qed

lemma conn_of_shape: "same_shape p q \<Longrightarrow> e < length (entry_table p) \<Longrightarrow> conn_of q e = conns q ! connection (entry_table p ! e)"
  unfolding same_shape_def conn_of_def by (metis length_map nth_map)

text \<open>Steps that change the entries' table, the leases and the connections only.\<close>

lemma wired_shape:
  assumes "wired p" "same_shape p q" "length (conns p) \<le> length (conns q)" "list_all lease_good (leases q)"
    "\<And>x n. x \<in> set (leases q) \<Longrightarrow> fallbackConnection x = Some n \<Longrightarrow>
       n < length (conns q) \<and> n \<notin> set (map connection (entry_table p))"
  shows "wired q"
proof -
  have "map connection (entry_table q) = map connection (entry_table p)" "creations q = creations p" "calls q = calls p"
    using assms(2) by (simp_all add: same_shape_def)
  moreover have "conns_apart p" using assms(1) by (simp add: wired_def)
  ultimately have "conns_apart q"
    using assms(3,5) unfolding conns_apart_def by (metis (no_types, lifting) order_less_le_trans)
  then show ?thesis
    using assms \<open>creations q = creations p\<close> \<open>calls q = calls p\<close> by (simp add: wired_def)
qed

lemma acct_shape:
  assumes "wired p" "same_shape p q" "length (conns p) \<le> length (conns q)" "list_all lease_good (leases q)"
    "\<And>x n. x \<in> set (leases q) \<Longrightarrow> fallbackConnection x = Some n \<Longrightarrow>
       n < length (conns q) \<and> n \<notin> set (map connection (entry_table p))"
    "\<And>e. e < length (entry_table p) \<Longrightarrow> good q e"
  shows "acct q"
  using wired_shape [OF assms(1-5)] assms(6) same_shape_length [OF assms(2)] by (simp add: acct_def)

lemma acct_wired: "acct p \<Longrightarrow> wired p"
  by (simp add: acct_def)

lemma acct_apart: "acct p \<Longrightarrow> conns_apart p"
  by (simp add: acct_def wired_def)

lemma wired_fallback: "wired p \<Longrightarrow> x \<in> set (leases p) \<Longrightarrow> fallbackConnection x = Some n \<Longrightarrow>
    n < length (conns p) \<and> n \<notin> set (map connection (entry_table p))"
  unfolding wired_def conns_apart_def by blast

lemma wired_lease: "wired p \<Longrightarrow> l < length (leases p) \<Longrightarrow> lease_good (leases p ! l)"
  by (simp add: wired_def list_all_length)

lemma acct_removes:
  assumes "pool_ok p" "acct p" "current_entry sid p = Some e" "removes sid e p q"
    "length (conns q) = length (conns p)"
    "\<And>n. n \<noteq> connection (entry_table p ! e) \<Longrightarrow> conns q ! n = conns p ! n"
    "entry_good (idleTimeoutMs p) (entry_table q ! e) False (holders p e) (conn_of q e) (expected p e)"
  shows "acct q"
proof (rule acct_shape [OF acct_wired [OF assms(2)]])
  have sh: "same_shape p q" and l: "leases q = leases p" using assms(4) by (simp_all add: removes_def)
  show "same_shape p q" by fact
  show "length (conns p) \<le> length (conns q)" using assms(5) by simp
  show "list_all lease_good (leases q)" using assms(2) l by (simp add: acct_def wired_def)
  show "n < length (conns q) \<and> n \<notin> set (map connection (entry_table p))"
    if "x \<in> set (leases q)" "fallbackConnection x = Some n" for x n
    using wired_fallback [OF acct_wired [OF assms(2)]] assms(5) that l by simp
  have e: "e < length (entry_table p)" using pool_ok_current [OF assms(1,3)] by simp
  have T: "idleTimeoutMs q = idleTimeoutMs p" using sh by (simp add: same_shape_def)
  show "good q e'" if e': "e' < length (entry_table p)" for e'
  proof (cases "e' = e")
    case True
    then show ?thesis
      using assms(7) registered_removes [OF assms(1,3,4) e] T l
      by (simp add: good_def holders_def expected_shape [OF sh])
  next
    case False
    have "conns_apart p" using assms(2) by (rule acct_apart)
    then have "conn_of q e' = conn_of p e'"
      using False assms(6) connection_inj [OF _ e' e] conn_of_shape [OF sh e'] by (simp add: conn_of_def)
    moreover have "entry_table q ! e' = entry_table p ! e'" using False assms(4) by (simp add: removes_def only_entry_def)
    ultimately show ?thesis
      using goodD [OF assms(2) e'] False registered_removes [OF assms(1,3,4) e'] T l
      by (simp add: good_def holders_def expected_shape [OF sh])
  qed
qed

text \<open>A connection is disposed of only when no lease holds it any more.\<close>

definition spares_leased :: "ssh_pool \<Rightarrow> ssh_pool \<Rightarrow> bool" where
  "spares_leased p q \<longleftrightarrow>
     (\<forall>e < length (entry_table p). disposals (conn_of q e) = disposals (conn_of p e) \<or> holders q e = 0)"

lemma conns_len: "conns_apart p \<Longrightarrow> e < length (entry_table p) \<Longrightarrow> connection (entry_table p ! e) < length (conns p)"
  by (simp add: conns_apart_def)

lemma entry_good_out:
  "entry_good T x reg h c ab \<Longrightarrow> refCount y = refCount x \<Longrightarrow> idleTimer y = None \<Longrightarrow>
    h = 0 \<longrightarrow> 0 < disposals d \<or> closed d \<Longrightarrow> entry_good T y False h d ab'"
  by (simp add: entry_good_def)

lemma evict_view:
  assumes "e < length (entry_table p)"
  shows "entry_table (evictEntry sid e p) ! e = (entry_table p ! e)\<lparr>idleTimer := None, subscribed := False\<rparr>"
    "conns (evictEntry sid e p) = (conns p)[connection (entry_table p ! e) :=
       (conns p ! connection (entry_table p ! e))\<lparr>disposals := disposals (conns p ! connection (entry_table p ! e)) + 1\<rparr>]"
  using assms by (simp_all add: evictEntry_def Let_def pool_upds)

lemma evictEntry_acct:
  assumes "pool_ok p" "acct p" "current_entry sid p = Some e"
  shows "acct (evictEntry sid e p)"
proof (rule acct_removes [OF assms(1,2,3)])
  have e: "e < length (entry_table p)" using pool_ok_current [OF assms(1,3)] by simp
  show r: "removes sid e p (evictEntry sid e p)" by (rule removes_evictEntry [OF e])
  note v = evict_view [OF e, of sid]
  show "entry_good (idleTimeoutMs p) (entry_table (evictEntry sid e p) ! e) False (holders p e)
      (conn_of (evictEntry sid e p) e) (expected p e)"
    by (rule entry_good_out [OF goodD [OF assms(2) e, unfolded good_def]])
      (simp_all add: v conn_of_def conns_len [OF acct_apart [OF assms(2)] e])
qed (use pool_ok_current [OF assms(1,3)] in \<open>simp_all add: evict_view nth_update_if\<close>)

lemma softRemoveEntry_acct:
  assumes "pool_ok p" "acct p" "current_entry sid p = Some e"
  shows "acct (softRemoveEntry sid e p) \<and> spares_leased p (softRemoveEntry sid e p)"
proof -
  let ?q = "softRemoveEntry sid e p" and ?n = "connection (entry_table p ! e)"
  have e: "e < length (entry_table p)" using pool_ok_current [OF assms(1,3)] by simp
  note g = goodD [OF assms(2) e, unfolded good_def] and n = conns_len [OF acct_apart [OF assms(2)] e]
  have z: "refCount (entry_table p ! e) = 0 \<longleftrightarrow> holders p e = 0" using g by (simp add: entry_good_def)
  have r: "removes sid e p ?q" by (rule removes_softRemoveEntry [OF e])
  have v: "refCount (entry_table ?q ! e) = refCount (entry_table p ! e)" "idleTimer (entry_table ?q ! e) = None"
    "conns ?q = (if holders p e = 0 then (conns p)[?n := (conns p ! ?n)\<lparr>disposals := disposals (conns p ! ?n) + 1\<rparr>] else conns p)"
    using e z by (simp_all add: softRemoveEntry_def Let_def pool_upds)
  have "conn_of ?q e = conns ?q ! ?n" using conn_of_shape [OF _ e] r by (simp add: removes_def)
  then have "holders p e = 0 \<longrightarrow> 0 < disposals (conn_of ?q e)" using n by (simp add: v)
  then have "acct ?q"
    by (intro acct_removes [OF assms r] entry_good_out [OF g]) (simp_all add: v)
  moreover have "spares_leased p ?q"
    unfolding spares_leased_def
  proof (intro allI impI)
    fix e' assume e': "e' < length (entry_table p)"
    have "conn_of ?q e' = conns ?q ! connection (entry_table p ! e')" using conn_of_shape [OF _ e'] r by (simp add: removes_def)
    then show "disposals (conn_of ?q e') = disposals (conn_of p e') \<or> holders ?q e' = 0"
      using connection_inj [OF acct_apart [OF assms(2)] e' e] r
      by (auto simp: v conn_of_def holders_def removes_def)
  qed
  ultimately show ?thesis by blast
qed

lemma entry_closed_acct:
  assumes "pool_ok p" "acct p" "e < length (entry_table p)" "registered p e" "q = upd_conn (connection (entry_table p ! e)) (\<lambda>x. x\<lparr>closed := True\<rparr>) p"
  shows "acct (entry_closed e q) \<and> spares_leased p (entry_closed e q)"
proof -
  let ?r = "entry_closed e q" and ?sid = "entry_server (entry_table p ! e)" and ?n = "connection (entry_table p ! e)"
  have cur: "current_entry ?sid p = Some e" using assms(4) by (simp add: registered_def)
  have n: "?n < length (conns p)" using conns_len [OF acct_apart [OF assms(2)] assms(3)] .
  have rm: "removes ?sid e p ?r"
    using assms(3) cur by (simp add: assms(5) removes_def same_shape_def only_entry_def entry_closed_def Let_def
        current_entry_def pool_upds)
  have v: "entry_table ?r ! e = (entry_table p ! e)\<lparr>healthy := False, idleTimer := None\<rparr>"
    "conns ?r = (conns p)[?n := (conns p ! ?n)\<lparr>closed := True\<rparr>]"
    using assms(3) by (simp_all add: assms(5) entry_closed_def Let_def pool_upds)
  have "acct ?r"
    by (rule acct_removes [OF assms(1,2) cur rm], simp_all add: v nth_update_if,
        rule entry_good_out [OF goodD [OF assms(2,3), unfolded good_def]]) (simp_all add: v n conn_of_def)
  moreover have "spares_leased p ?r"
    using rm conn_of_shape [of p ?r] by (auto simp: spares_leased_def removes_def conn_of_def v nth_update_if)
  ultimately show ?thesis by blast
qed

lemma filter_singleton:
  "distinct xs \<Longrightarrow> e \<in> set xs \<Longrightarrow> P e \<Longrightarrow> \<forall>x \<in> set xs. P x \<longrightarrow> x = e \<Longrightarrow> filter P xs = [e]"
proof (induction xs)
  case (Cons a xs)
  show ?case
  proof (cases "a = e")
    case True
    have "\<forall>x \<in> set xs. \<not> P x" using True Cons.prems(1,4) by (metis distinct.simps(2) list.set_intros(2))
    then have "filter P xs = []" by (simp add: filter_empty_conv)
    then show ?thesis using True Cons.prems(3) by simp
  next
    case False
    then have "\<not> P a" using Cons.prems(4) by (metis list.set_intros(1))
    moreover have "distinct xs" "e \<in> set xs" using False Cons.prems(1,2) by auto
    then have "filter P xs = [e]" using Cons.IH Cons.prems(3,4) by (metis list.set_intros(2))
    ultimately show ?thesis by simp
  qed
qed simp

lemma unregistered_closed_acct:
  assumes "pool_ok p" "acct p" "\<And>e. e < length (entry_table p) \<Longrightarrow> connection (entry_table p ! e) = n \<Longrightarrow> \<not> registered p e"
    "same_shape p q" "entries q = entries p" "leases q = leases p"
    "conns q = (conns p)[n := (conns p ! n)\<lparr>closed := True\<rparr>]"
    "\<And>e. e < length (entry_table p) \<Longrightarrow> refCount (entry_table q ! e) = refCount (entry_table p ! e)
       \<and> (registered p e \<longrightarrow> entry_table q ! e = entry_table p ! e)
       \<and> (\<not> registered p e \<longrightarrow> idleTimer (entry_table q ! e) = None)"
  shows "acct q \<and> spares_leased p q"
proof -
  have c: "conn_of q e = (conns p)[n := (conns p ! n)\<lparr>closed := True\<rparr>] ! connection (entry_table p ! e)"
    if "e < length (entry_table p)" for e
    using conn_of_shape [OF assms(4) that] by (simp add: assms(7))
  have reg: "registered q e = registered p e" if "e < length (entry_table p)" for e
    using same_shape_server [OF assms(4) that] by (simp add: registered_def current_entry_def assms(5))
  have T: "idleTimeoutMs q = idleTimeoutMs p" using assms(4) by (simp add: same_shape_def)
  have "good q e" if "e < length (entry_table p)" for e
    using goodD [OF assms(2) that] assms(3) [OF that] assms(8) [OF that] c [OF that] reg [OF that] T
    by (cases "registered p e")
      (auto simp: good_def entry_good_def holders_def assms(6) expected_shape [OF assms(4)] conn_of_def nth_update_if)
  then have "acct q"
    using assms(2) wired_fallback [OF acct_wired [OF assms(2)]]
    by (intro acct_shape [OF acct_wired [OF assms(2)] assms(4)]) (simp_all add: assms(6,7) acct_def wired_def)
  moreover have "spares_leased p q" using c by (auto simp: spares_leased_def conn_of_def nth_update_if)
  ultimately show ?thesis by blast
qed

lemma connection_closes_acct:
  assumes "pool_ok p" "acct p" "n < length (conns p)"
  shows "acct (connection_closes n p) \<and> spares_leased p (connection_closes n p)"
proof -
  let ?q = "upd_conn n (\<lambda>x. x\<lparr>closed := True\<rparr>) p"
  let ?P = "\<lambda>e. connection (entry_table p ! e) = n \<and> subscribed (entry_table p ! e)"
  let ?es = "filter ?P [0..<length (entry_table p)]"
  have one: "?es = [e]" if "e < length (entry_table p)" "?P e" for e
    by (rule filter_singleton) (use that connection_inj [OF acct_apart [OF assms(2)]] in auto)
  have cc: "connection_closes n p = foldl (\<lambda>q e. entry_closed e q) ?q ?es" by (simp add: connection_closes_def)
  show ?thesis
  proof (cases "\<exists>e < length (entry_table p). connection (entry_table p ! e) = n \<and> registered p e")
    case True
    then obtain e where e: "e < length (entry_table p)" "connection (entry_table p ! e) = n" "registered p e" by blast
    then have "?P e" using goodD [OF assms(2) e(1)] by (simp add: good_def entry_good_def)
    from one [OF e(1) this] cc have "connection_closes n p = entry_closed e ?q" by simp
    then show ?thesis using entry_closed_acct [OF assms(1,2) e(1,3)] e(2) by simp
  next
    case False
    have idle: "idleTimer (entry_table p ! e) = None" if "e < length (entry_table p)" "\<not> registered p e" for e
      using goodD [OF assms(2) that(1)] that(2) by (auto simp: good_def entry_good_def)
    show ?thesis
    proof (cases "?es = []")
      case True
      then show ?thesis
        using False idle
        by (intro unregistered_closed_acct [OF assms(1,2), where n = n]) (auto simp: cc pool_upds same_shape_def)
    next
      assume "?es \<noteq> []"
      then obtain e where e: "e < length (entry_table p)" "?P e" by (auto simp: filter_empty_conv)
      then have r: "connection_closes n p = entry_closed e ?q" "\<not> registered p e" using one cc False by simp_all
      then have v: "connection_closes n p = cancelIdleTimer e (upd_entry e (\<lambda>x. x\<lparr>healthy := False\<rparr>) ?q)"
        by (simp add: entry_closed_def Let_def pool_upds current_entry_def registered_def)
      show ?thesis
        using False idle e r(2)
        by (intro unregistered_closed_acct [OF assms(1,2), where n = n])
          (auto simp: v pool_upds same_shape_def nth_update_if)
    qed
  qed
qed

lemma idle_fires_acct:
  assumes "pool_ok p" "acct p" "e < length (entry_table p)" "idleTimer (entry_table p ! e) \<noteq> None"
  shows "acct (idle_fires e p) \<and> spares_leased p (idle_fires e p)"
proof -
  let ?sid = "entry_server (entry_table p ! e)"
  have g: "holders p e = 0" "registered p e" "refCount (entry_table p ! e) = 0"
    using goodD [OF assms(2,3)] assms(4) by (auto simp: good_def entry_good_def)
  then have cur: "current_entry ?sid p = Some e" by (simp add: registered_def)
  then have q: "idle_fires e p = evictEntry ?sid e p"
    using g assms(3) by (simp add: idle_fires_def evictEntry_def Let_def pool_upds current_entry_def)
  have "spares_leased p (evictEntry ?sid e p)"
    unfolding spares_leased_def
  proof (intro allI impI)
    let ?q = "evictEntry ?sid e p"
    fix e' assume e': "e' < length (entry_table p)"
    have r: "removes ?sid e p ?q" by (rule removes_evictEntry [OF assms(3)])
    have "conn_of ?q e' = conns ?q ! connection (entry_table p ! e')" using conn_of_shape [OF _ e'] r by (simp add: removes_def)
    then show "disposals (conn_of ?q e') = disposals (conn_of p e') \<or> holders ?q e' = 0"
      using connection_inj [OF acct_apart [OF assms(2)] e' assms(3)] r g(1)
      by (cases "e' = e") (auto simp: evict_view [OF assms(3)] conn_of_def holders_def removes_def nth_update_if)
  qed
  then show ?thesis using evictEntry_acct [OF assms(1,2) cur] q by simp
qed

section \<open>Changes nobody can tell\<close>

definition lease_core :: "lease \<Rightarrow> nat \<times> release_action \<times> bool \<times> fallback_promise \<times> nat option" where
  "lease_core x = (inner_entry x, onRelease x, lease_disposed x, fallbackPromise x, fallbackConnection x)"

definition conn_core :: "conn \<Rightarrow> nat \<times> bool" where
  "conn_core c = (disposals c, closed c)"

definition quiet :: "ssh_pool \<Rightarrow> ssh_pool \<Rightarrow> bool" where
  "quiet p q \<longleftrightarrow> keeps p q \<and> entry_table q = entry_table p
     \<and> map lease_core (leases q) = map lease_core (leases p)
     \<and> map conn_core (conns q) = map conn_core (conns p)"

lemma quiet_refl [simp]: "quiet p p"
  by (simp add: quiet_def)

lemma quiet_trans: "quiet p q \<Longrightarrow> quiet q r \<Longrightarrow> quiet p r"
  by (auto simp: quiet_def intro: keeps_trans)

lemma quiet_upd_lease: "(\<And>x. lease_core (f x) = lease_core x) \<Longrightarrow> quiet p (upd_lease l f p)"
  by (simp add: quiet_def upd_lease_def keeps_def same_shape_def) (metis Pair_inject lease_core_def map_update_same)

lemma quiet_upd_conn: "(\<And>x. conn_core (f x) = conn_core x) \<Longrightarrow> quiet p (upd_conn n f p)"
  by (simp add: quiet_def upd_conn_def keeps_def same_shape_def)

lemma quiet_unsubscribes: "quiet p (foldl unsubscribe_close p cus)"
proof (induction cus arbitrary: p)
  case (Cons cu cus)
  have "quiet p (unsubscribe_close p cu)" unfolding unsubscribe_close_def
    by (rule quiet_upd_conn) (simp add: conn_core_def)
  with Cons.IH show ?case by (auto intro: quiet_trans)
qed simp

lemma filter_core:
  assumes "map lease_core ys = map lease_core xs"
  shows "length (filter (holds e) ys) = length (filter (holds e) xs)" "list_all lease_good ys = list_all lease_good xs"
proof -
  have h: "holds e x = (case lease_core x of (i, r, d, t) \<Rightarrow> i = e \<and> r = ReleaseEntry \<and> \<not> d)"
    "lease_good x = (case lease_core x of (i, r, d, f, t) \<Rightarrow>
       (f = FallbackPending \<longrightarrow> \<not> d \<and> r = ReleaseEntry) \<and> (f = NotStarted \<longrightarrow> r = ReleaseEntry))" for x
    by (simp_all add: lease_core_def holds_def lease_good_def)
  have len: "length ys = length xs" using assms by (metis length_map)
  have nth: "lease_core (ys ! i) = lease_core (xs ! i)" if "i < length xs" for i
    using that assms len by (metis nth_map)
  show "list_all lease_good ys = list_all lease_good xs" by (simp add: list_all_length len h nth)
  show "length (filter (holds e) ys) = length (filter (holds e) xs)"
    using len nth by (simp add: length_filter_conv_card h) (metis (no_types, lifting))
qed

lemma quiet_conn:
  assumes "quiet p q"
  shows "length (conns q) = length (conns p)" "n < length (conns p) \<Longrightarrow> conn_core (conns q ! n) = conn_core (conns p ! n)"
proof -
  have m: "map conn_core (conns q) = map conn_core (conns p)" using assms by (simp add: quiet_def)
  show l: "length (conns q) = length (conns p)" using m by (metis length_map)
  show "conn_core (conns q ! n) = conn_core (conns p ! n)" if "n < length (conns p)"
    using m l that by (metis nth_map)
qed

lemma quiet_view:
  assumes "quiet p q" "conns_apart p" "e < length (entry_table p)"
  shows "holders q e = holders p e" "registered q e = registered p e" "expected q e = expected p e"
    "conn_core (conn_of q e) = conn_core (conn_of p e)" "idleTimeoutMs q = idleTimeoutMs p" "entry_table q = entry_table p"
proof -
  have k: "keeps p q" "map lease_core (leases q) = map lease_core (leases p)" using assms(1) by (simp_all only: quiet_def)
  show t: "entry_table q = entry_table p" using assms(1) by (simp only: quiet_def)
  show "holders q e = holders p e" unfolding holders_def by (rule filter_core(1) [OF k(2)])
  show "registered q e = registered p e" by (rule registered_keeps [OF k(1) assms(3)])
  show "expected q e = expected p e" by (rule expected_shape) (use k(1) in \<open>simp only: keeps_def\<close>)
  show "idleTimeoutMs q = idleTimeoutMs p" using k(1) by (simp only: keeps_def same_shape_def)
  show "conn_core (conn_of q e) = conn_core (conn_of p e)"
    unfolding conn_of_def t by (rule quiet_conn(2) [OF assms(1) conns_len [OF assms(2,3)]])
qed

lemma quiet_length: "quiet p q \<Longrightarrow> length (entry_table q) = length (entry_table p)"
  by (simp add: quiet_def)

lemma entry_good_core: "conn_core c = conn_core d \<Longrightarrow> entry_good T x reg h c ab = entry_good T x reg h d ab"
  by (simp add: conn_core_def entry_good_def)

lemma quiet_fallback:
  assumes "quiet p q" "x \<in> set (leases q)" "fallbackConnection x = Some n"
  shows "\<exists>y \<in> set (leases p). fallbackConnection y = Some n"
proof -
  have "set (map lease_core (leases q)) = set (map lease_core (leases p))" using assms(1) by (simp only: quiet_def)
  then have "lease_core ` set (leases q) = lease_core ` set (leases p)" by simp
  then have "lease_core x \<in> lease_core ` set (leases p)" using assms(2) by blast
  then show ?thesis using assms(3) by (auto simp: lease_core_def)
qed

lemma quiet_wired:
  assumes "quiet p q" "wired p"
  shows "wired q"
proof (rule wired_shape [OF assms(2)])
  show "same_shape p q" using assms(1) by (simp add: quiet_def keeps_def)
  show "length (conns p) \<le> length (conns q)" using quiet_conn [OF assms(1)] by simp
  have "map lease_core (leases q) = map lease_core (leases p)" using assms(1) by (simp add: quiet_def)
  from filter_core(2) [OF this] show "list_all lease_good (leases q)" using assms(2) by (simp add: wired_def)
  show "n < length (conns q) \<and> n \<notin> set (map connection (entry_table p))"
    if "x \<in> set (leases q)" "fallbackConnection x = Some n" for x n
    using quiet_fallback [OF assms(1) that] wired_fallback [OF assms(2)] quiet_conn(1) [OF assms(1)] by auto
qed

lemma quiet_good:
  assumes "quiet p q" "conns_apart p" "e < length (entry_table p)"
  shows "good q e = good p e"
  unfolding good_def using quiet_view [OF assms] entry_good_core [OF quiet_view(4) [OF assms]] by presburger

lemma quiet_acct:
  assumes "quiet p q" "acct p"
  shows "acct q"
proof -
  have "good q e" if "e < length (entry_table p)" for e
    using quiet_good [OF assms(1) acct_apart [OF assms(2)] that] goodD [OF assms(2) that] by blast
  then show ?thesis
    using quiet_wired [OF assms(1) acct_wired [OF assms(2)]] quiet_length [OF assms(1)] by (simp add: acct_def)
qed

lemma spares_core:
  "(\<And>e. e < length (entry_table p) \<Longrightarrow> disposals (conn_of q e) = disposals (conn_of p e)) \<Longrightarrow> spares_leased p q"
  by (simp add: spares_leased_def)

lemma quiet_spares: "quiet p q \<Longrightarrow> acct p \<Longrightarrow> spares_leased p q"
  by (rule spares_core) (metis quiet_view(4) acct_apart conn_core_def Pair_inject)

section \<open>Releases\<close>

text \<open>A lease of the entry has ended and its release is about to run.\<close>

definition owing :: "nat \<Rightarrow> ssh_pool \<Rightarrow> bool" where
  "owing e p \<longleftrightarrow> wired p \<and> e < length (entry_table p)
     \<and> (\<forall>e' < length (entry_table p). e' \<noteq> e \<longrightarrow> good p e')
     \<and> entry_good (idleTimeoutMs p) (entry_table p ! e) (registered p e) (Suc (holders p e)) (conn_of p e) (expected p e)"

lemma quiet_owing:
  assumes "quiet p q" "owing e p"
  shows "owing e q"
proof -
  have w: "wired p" and e: "e < length (entry_table p)" using assms(2) by (simp_all add: owing_def)
  then have ap: "conns_apart p" by (simp add: wired_def)
  have "good q e'" if "e' < length (entry_table p)" "e' \<noteq> e" for e'
    using quiet_good [OF assms(1) ap that(1)] assms(2) that by (simp only: owing_def) blast
  moreover have "entry_good (idleTimeoutMs q) (entry_table q ! e) (registered q e) (Suc (holders q e)) (conn_of q e) (expected q e)"
    using assms(2) quiet_view [OF assms(1) ap e] entry_good_core [OF quiet_view(4) [OF assms(1) ap e]]
    unfolding owing_def by presburger
  ultimately show ?thesis
    using quiet_wired [OF assms(1) w] quiet_length [OF assms(1)] e by (simp add: owing_def)
qed

lemma release_view:
  assumes "owing e p"
  shows "refCount (entry_table (release_entry e p) ! e) = int (holders p e)"
    "idleTimer (entry_table (release_entry e p) ! e) =
       (if holders p e = 0 \<and> registered p e \<and> idleTimeoutMs p \<noteq> 0
        then Some (min (idleTimeoutMs p) MAX_IDLE_TIMEOUT_MS) else None)"
    "registered p e \<longrightarrow> subscribed (entry_table (release_entry e p) ! e) = subscribed (entry_table p ! e)"
    "conns (release_entry e p) =
       (let n = connection (entry_table p ! e)
        in if holders p e = 0 \<and> \<not> registered p e
           then (conns p)[n := (conns p ! n)\<lparr>disposals := disposals (conns p ! n) + 1\<rparr>] else conns p)"
    "e' \<noteq> e \<Longrightarrow> entry_table (release_entry e p) ! e' = entry_table p ! e'"
    "leases (release_entry e p) = leases p"
  using assms
  by (auto simp: owing_def entry_good_def release_entry_def Let_def pool_upds startIdleTimer_def registered_def
      current_entry_def)

lemma release_entry_acct:
  assumes "owing e p"
  shows "acct (release_entry e p) \<and> spares_leased p (release_entry e p)"
proof -
  let ?q = "release_entry e p" and ?n = "connection (entry_table p ! e)"
  have w: "wired p" and e: "e < length (entry_table p)" using assms by (simp_all add: owing_def)
  then have ap: "conns_apart p" by (simp add: wired_def)
  have k: "keeps p ?q" by simp
  then have sh: "same_shape p ?q" by (simp add: keeps_def)
  note v = release_view [OF assms]
  have c: "conn_of ?q e' = conns ?q ! connection (entry_table p ! e')" if "e' < length (entry_table p)" for e'
    using conn_of_shape [OF sh that] .
  have T: "idleTimeoutMs ?q = idleTimeoutMs p" using sh by (simp add: same_shape_def)
  have other: "conn_of ?q e' = conn_of p e'" if "e' < length (entry_table p)" "e' \<noteq> e" for e'
    using that c connection_inj [OF ap that(1) e] by (auto simp: v Let_def conn_of_def nth_update_if)
  have g: "good ?q e'" if e': "e' < length (entry_table p)" for e'
  proof (cases "e' = e")
    case True
    show ?thesis
      using assms c [OF e] conns_len [OF ap e] unfolding True good_def owing_def
      by (auto simp: entry_good_def T v holders_def registered_keeps [OF k e] expected_shape [OF sh] Let_def conn_of_def)
  next
    case False
    then have "good p e'" using assms e' by (simp add: owing_def)
    then show ?thesis
      using False registered_keeps [OF k e']
      by (simp add: good_def T v holders_def expected_shape [OF sh] other [OF e' False])
  qed
  have "acct ?q"
    by (rule acct_shape [OF w sh _ _ _ g]) (use w wired_fallback [OF w] in \<open>auto simp: v Let_def wired_def\<close>)
  moreover have "spares_leased p ?q"
    unfolding spares_leased_def
  proof (intro allI impI)
    fix e' assume e': "e' < length (entry_table p)"
    show "disposals (conn_of ?q e') = disposals (conn_of p e') \<or> holders ?q e' = 0"
    proof (cases "e' = e")
      case True
      then show ?thesis using c [OF e] by (auto simp: v(4,6) holders_def Let_def conn_of_def)
    qed (simp add: other [OF e'])
  qed
  ultimately show ?thesis by blast
qed

lemma holders_upd_lease:
  "l < length (leases p) \<Longrightarrow> holders (upd_lease l f p) e + (if holds e (leases p ! l) then 1 else 0)
    = holders p e + (if holds e (f (leases p ! l)) then 1 else 0)"
  by (simp add: holders_def upd_lease_def length_filter_update)

lemma lease_change_wired:
  assumes "wired p" "l < length (leases p)" "lease_good (f (leases p ! l))"
    "inner_entry (f (leases p ! l)) = inner_entry (leases p ! l)"
    "\<And>n. fallbackConnection (f (leases p ! l)) = Some n \<Longrightarrow>
       n < length (conns p) \<and> n \<notin> set (map connection (entry_table p))"
  shows "wired (upd_lease l f p)"
proof (rule wired_shape [OF assms(1)])
  show "same_shape p (upd_lease l f p)" using assms(4) by (simp add: same_shape_def upd_lease_def)
  show "list_all lease_good (leases (upd_lease l f p))"
    using assms(1,3) unfolding wired_def upd_lease_def
    by (auto simp: list_all_iff dest!: set_update_subset_insert [THEN subsetD])
  show "n < length (conns (upd_lease l f p)) \<and> n \<notin> set (map connection (entry_table p))"
    if "x \<in> set (leases (upd_lease l f p))" "fallbackConnection x = Some n" for x n
    using that wired_fallback [OF assms(1)] assms(5) unfolding upd_lease_def
    by (auto dest!: set_update_subset_insert [THEN subsetD])
qed (simp add: upd_lease_def)

lemma lease_change_view:
  "registered (upd_lease l f p) e = registered p e" "expected (upd_lease l f p) e = expected p e"
  "conn_of (upd_lease l f p) e = conn_of p e" "entry_table (upd_lease l f p) = entry_table p"
  "idleTimeoutMs (upd_lease l f p) = idleTimeoutMs p"
  by (simp_all add: upd_lease_def registered_def expected_def conn_of_def current_entry_def)

lemma lease_change_acct:
  assumes "acct p" "l < length (leases p)" "lease_good (f (leases p ! l))"
    "inner_entry (f (leases p ! l)) = inner_entry (leases p ! l)"
    "\<And>n. fallbackConnection (f (leases p ! l)) = Some n \<Longrightarrow>
       n < length (conns p) \<and> n \<notin> set (map connection (entry_table p))"
    "\<And>e. holds e (f (leases p ! l)) = holds e (leases p ! l)"
  shows "acct (upd_lease l f p) \<and> spares_leased p (upd_lease l f p)"
proof -
  have "holders (upd_lease l f p) e = holders p e" for e
    using holders_upd_lease [OF assms(2), of f e] assms(6) [of e] by simp
  then show ?thesis
    using lease_change_wired [where f = f, OF acct_wired [OF assms(1)] assms(2-5)] assms(1)
    by (simp add: acct_def good_def lease_change_view spares_leased_def)
qed

lemma lease_ends_owing:
  assumes "acct p" "l < length (leases p)" "lease_good (f (leases p ! l))"
    "inner_entry (f (leases p ! l)) = inner_entry (leases p ! l)"
    "\<And>n. fallbackConnection (f (leases p ! l)) = Some n \<Longrightarrow>
       n < length (conns p) \<and> n \<notin> set (map connection (entry_table p))"
    "holds e (leases p ! l)" "\<not> holds e (f (leases p ! l))" "e < length (entry_table p)"
  shows "owing e (upd_lease l f p)"
proof -
  have i: "inner_entry (leases p ! l) = e" using assms(6) by (simp add: holds_def)
  have "holders (upd_lease l f p) e' = holders p e'" if "e' \<noteq> e" for e'
    using holders_upd_lease [OF assms(2), of f e'] that i assms(4) by (simp add: holds_def)
  moreover have "Suc (holders (upd_lease l f p) e) = holders p e"
    using holders_upd_lease [OF assms(2), of f e] assms(6,7) by simp
  ultimately show ?thesis
    using lease_change_wired [where f = f, OF acct_wired [OF assms(1)] assms(2-5)] assms(1,8)
    by (simp add: owing_def acct_def good_def lease_change_view)
qed

lemma dispose_other_acct:
  assumes "acct p" "n \<notin> set (map connection (entry_table p))"
  shows "acct (dispose_connection n p) \<and> spares_leased p (dispose_connection n p)"
proof -
  let ?q = "dispose_connection n p"
  have c: "conn_of ?q e = conn_of p e" if "e < length (entry_table p)" for e
    using assms(2) that by (auto simp: conn_of_def pool_upds nth_update_if)
  have "good ?q e" if "e < length (entry_table p)" for e
    using goodD [OF assms(1) that] c [OF that]
    by (simp add: good_def holders_def registered_def current_entry_def expected_def pool_upds)
  then have "acct ?q"
    using assms(1) by (simp add: acct_def wired_def conns_apart_def pool_upds)
  then show ?thesis using c by (simp add: spares_leased_def)
qed

lemma add_conn_acct:
  assumes "acct p"
  shows "acct (add_conn p) \<and> spares_leased p (add_conn p)"
proof -
  have c: "conn_of (add_conn p) e = conn_of p e" if "e < length (entry_table p)" for e
    using conns_len [OF acct_apart [OF assms] that] by (simp add: conn_of_def add_conn_def nth_append)
  have "good (add_conn p) e" if "e < length (entry_table p)" for e
    using goodD [OF assms that] c [OF that]
    by (simp add: good_def holders_def registered_def current_entry_def expected_def add_conn_def)
  then have "acct (add_conn p)"
    using assms wired_fallback [OF acct_wired [OF assms]]
    by (intro acct_shape [OF acct_wired [OF assms]])
      (auto simp: add_conn_def same_shape_def acct_def wired_def less_Suc_eq)
  then show ?thesis using c by (simp add: spares_leased_def)
qed

lemma spares_trans_same:
  "spares_leased q r \<Longrightarrow> length (entry_table q) = length (entry_table p) \<Longrightarrow>
    (\<And>e. e < length (entry_table p) \<Longrightarrow> disposals (conn_of q e) = disposals (conn_of p e)) \<Longrightarrow> spares_leased p r"
  by (simp add: spares_leased_def)

lemma lease_dispose_form:
  assumes "\<not> lease_disposed (leases p ! l)"
  obtains p3 where "quiet (upd_lease l (\<lambda>x. x\<lparr>lease_disposed := True\<rparr>) p) p3" "lease_dispose l p = run_release l p3"
proof -
  let ?p1 = "upd_lease l (\<lambda>x. x\<lparr>lease_disposed := True\<rparr>) p"
  let ?p2 = "foldl unsubscribe_close ?p1 (closeUnsubscribes (leases ?p1 ! l))"
  let ?p3 = "upd_lease l (\<lambda>x. x\<lparr>closeUnsubscribes := []\<rparr>) ?p2"
  have "quiet ?p2 ?p3" by (rule quiet_upd_lease) (simp add: lease_core_def)
  then have "quiet ?p1 ?p3" using quiet_unsubscribes quiet_trans by blast
  moreover have "lease_dispose l p = run_release l ?p3" using assms by (simp add: lease_dispose_def Let_def)
  ultimately show thesis using that by blast
qed

lemma quiet_lease:
  assumes "quiet p q" "l < length (leases p)"
  shows "l < length (leases q)" "lease_core (leases q ! l) = lease_core (leases p ! l)"
proof -
  have m: "map lease_core (leases q) = map lease_core (leases p)" using assms(1) by (simp only: quiet_def)
  then show l: "l < length (leases q)" using assms(2) by (metis length_map)
  show "lease_core (leases q ! l) = lease_core (leases p ! l)" using m l assms(2) by (metis nth_map)
qed

lemma lease_dispose_acct:
  assumes "pool_ok p" "acct p" "l < length (leases p)" "fallbackPromise (leases p ! l) \<noteq> FallbackPending"
    "\<not> lease_disposed (leases p ! l)"
  shows "acct (lease_dispose l p) \<and> spares_leased p (lease_dispose l p)"
proof -
  let ?f = "\<lambda>x. x\<lparr>lease_disposed := True\<rparr>" and ?x = "leases p ! l"
  let ?p1 = "upd_lease l ?f p"
  obtain p3 where qt: "quiet ?p1 p3" and q: "lease_dispose l p = run_release l p3"
    using lease_dispose_form [OF assms(5)] by blast
  have "lease_core (leases p3 ! l) = lease_core (?f ?x)"
    using quiet_lease(2) [OF qt, of l] assms(3) by (simp add: upd_lease_def)
  then have x3: "onRelease (leases p3 ! l) = onRelease ?x" "inner_entry (leases p3 ! l) = inner_entry ?x"
    "fallbackConnection (leases p3 ! l) = fallbackConnection ?x" by (simp_all add: lease_core_def)
  have good: "lease_good (?f ?x)"
    using wired_lease [OF acct_wired [OF assms(2)] assms(3)] assms(4) by (simp add: lease_good_def)
  have fb: "n < length (conns p) \<and> n \<notin> set (map connection (entry_table p))"
    if "fallbackConnection (?f ?x) = Some n" for n
    using wired_fallback [OF acct_wired [OF assms(2)], of ?x] that assms(3) by simp
  have t3: "entry_table p3 = entry_table p" using qt by (simp add: quiet_def upd_lease_def)
  have ap: "conns_apart ?p1" using assms(2) acct_apart
    by (intro lease_change_wired [where f = ?f, OF acct_wired [OF assms(2)] assms(3) good _ fb,
          unfolded wired_def, THEN conjunct1]) simp_all
  have c3: "disposals (conn_of p3 e) = disposals (conn_of p e)" if "e < length (entry_table p)" for e
    using quiet_view(4) [OF qt ap, of e] that by (simp add: lease_change_view conn_core_def)
  show ?thesis
  proof (cases "onRelease ?x")
    case ReleaseEntry
    let ?e = "inner_entry ?x"
    have "owing ?e ?p1"
      using ReleaseEntry assms(5) inner_entry_ok [OF assms(1,3)]
      by (intro lease_ends_owing [where f = ?f, OF assms(2,3) good _ fb]) (simp_all add: holds_def)
    then have "owing ?e p3" by (rule quiet_owing [OF qt])
    from release_entry_acct [OF this] show ?thesis
      using spares_trans_same [OF _ _ c3, of "release_entry ?e p3"] t3 by (simp add: q run_release_def x3 ReleaseEntry)
  next
    case DisposeFallback
    have "acct ?p1"
      using DisposeFallback lease_change_acct [where f = ?f, OF assms(2,3) good _ fb] by (simp add: holds_def)
    then have a3: "acct p3" by (rule quiet_acct [OF qt])
    show ?thesis
    proof (cases "fallbackConnection ?x")
      case None
      then show ?thesis using a3 c3 by (simp add: q run_release_def x3 DisposeFallback spares_leased_def)
    next
      case (Some n)
      then have "n \<notin> set (map connection (entry_table p3))" using fb t3 by simp
      from dispose_other_acct [OF a3 this] show ?thesis
        using spares_trans_same [OF _ _ c3, of "dispose_connection n p3"] t3 Some
        by (simp add: q run_release_def x3 DisposeFallback)
    qed
  qed
qed

lemma release_entry_upd_lease: "upd_lease l f (release_entry e p) = release_entry e (upd_lease l f p)"
  by (simp add: release_entry_def Let_def pool_upds startIdleTimer_def current_entry_def)

lemma upd_lease_twice: "upd_lease l g (upd_lease l f p) = upd_lease l (\<lambda>x. g (f x)) p" if "l < length (leases p)"
  using that by (simp add: upd_lease_def)

lemma executeFallback_acct:
  assumes "pool_ok p" "acct p" "l < length (leases p)" "fallbackPromise (leases p ! l) = FallbackPending"
  shows "acct (executeFallback l ok p) \<and> spares_leased p (executeFallback l ok p)"
proof (cases ok)
  case True
  let ?n = "length (conns p)" and ?x = "leases p ! l" and ?q = "add_conn p"
  let ?e = "inner_entry ?x"
  let ?f = "\<lambda>x. x\<lparr>fallbackConnection := Some ?n, fallbackUsed := True, fallbackPromise := FallbackSettled\<rparr>"
  let ?F = "\<lambda>x. (?f x)\<lparr>onRelease := DisposeFallback\<rparr>"
  have x: "onRelease ?x = ReleaseEntry" "\<not> lease_disposed ?x"
    using wired_lease [OF acct_wired [OF assms(2)] assms(3)] assms(4) by (simp_all add: lease_good_def)
  have lq: "leases ?q = leases p" "length (conns ?q) = Suc ?n" "entry_table ?q = entry_table p" by (simp_all add: add_conn_def)
  have "executeFallback l ok p = upd_lease l (\<lambda>x. x\<lparr>onRelease := DisposeFallback\<rparr>) (release_entry ?e (upd_lease l ?f ?q))"
    using True x assms(3) by (simp add: executeFallback_def Let_def run_release_def lq) (simp add: upd_lease_def lq nth_update_if)
  also have "\<dots> = release_entry ?e (upd_lease l ?F ?q)"
    using assms(3) by (simp add: release_entry_upd_lease upd_lease_twice lq)
  finally have q: "executeFallback l ok p = release_entry ?e (upd_lease l ?F ?q)" .
  have a: "acct ?q" using add_conn_acct [OF assms(2)] by blast
  have fresh: "?n \<notin> set (map connection (entry_table p))"
    using acct_apart [OF assms(2)] by (auto simp: conns_apart_def)
  have "owing ?e (upd_lease l ?F ?q)"
    using x inner_entry_ok [OF assms(1,3)] assms(3) fresh
    by (intro lease_ends_owing [OF a]) (simp_all add: lq holds_def lease_good_def)
  from release_entry_acct [OF this] show ?thesis
    unfolding q using spares_trans_same [of "upd_lease l ?F ?q" "release_entry ?e (upd_lease l ?F ?q)" p]
      conns_len [OF acct_apart [OF assms(2)]]
    by (simp add: lease_change_view lq) (simp add: conn_of_def add_conn_def nth_append)
next
  case False
  let ?f = "\<lambda>x. x\<lparr>fallbackUsed := True, fallbackPromise := FallbackSettled\<rparr>"
  have "lease_good (?f (leases p ! l))" by (simp add: lease_good_def)
  moreover have "n < length (conns p) \<and> n \<notin> set (map connection (entry_table p))"
    if "fallbackConnection (?f (leases p ! l)) = Some n" for n
    using wired_fallback [OF acct_wired [OF assms(2)], of "leases p ! l"] that assms(3) by simp
  ultimately show ?thesis
    using lease_change_acct [where f = ?f, OF assms(2,3)] False by (simp add: executeFallback_def holds_def)
qed

lemma createFallback_acct:
  assumes "pool_ok p" "acct p" "e < length (entry_table p)" "0 < holders p e"
  shows "acct (createFallback e p) \<and> spares_leased p (createFallback e p)"
proof (cases "registered p e")
  case True
  let ?q = "createFallback e p" and ?sid = "entry_server (entry_table p ! e)"
  have cur: "current_entry ?sid p = Some e" using True by (simp add: registered_def)
  have r: "removes ?sid e p ?q" by (rule removes_createFallback [OF cur assms(3)])
  have v: "entry_table ?q ! e = (entry_table p ! e)\<lparr>healthy := False, idleTimer := None\<rparr>" "conns ?q = conns p"
    using cur assms(3) by (simp_all add: createFallback_def Let_def pool_upds current_entry_def)
  have "acct ?q"
    by (rule acct_removes [OF assms(1,2) cur r], simp_all add: v,
        rule entry_good_out [OF goodD [OF assms(2,3), unfolded good_def]]) (use assms(4) in \<open>simp_all add: v\<close>)
  moreover have "spares_leased p ?q"
    using r conn_of_shape [of p ?q] by (simp add: spares_leased_def removes_def v conn_of_def)
  ultimately show ?thesis by blast
next
  case False
  then have "createFallback e p = p" by (simp add: createFallback_def Let_def registered_def)
  then show ?thesis using assms(2) by (simp add: spares_leased_def)
qed

lemma open_fails_acct:
  assumes "pool_ok p" "acct p" "l < length (leases p)"
    "\<not> (lease_disposed (leases (open_fails l err p) ! l) \<and> fallbackPromise (leases (open_fails l err p) ! l) = FallbackPending)"
  shows "acct (open_fails l err p) \<and> spares_leased p (open_fails l err p)"
proof -
  define p1 where "p1 = upd_lease l (\<lambda>x. x\<lparr>inFlight := inFlight x - 1\<rparr>) p"
  have of: "open_fails l err p = (if shouldAttemptFallback l err p1 then tryFallback l p1 else p1)"
    by (simp only: open_fails_def Let_def p1_def)
  let ?x = "leases p ! l"
  let ?e = "inner_entry ?x" and ?f = "\<lambda>x. x\<lparr>fallbackPromise := FallbackPending\<rparr>"
  have qt: "quiet p p1" unfolding p1_def by (rule quiet_upd_lease) (simp add: lease_core_def)
  then have a1: "acct p1" "spares_leased p p1" using quiet_acct quiet_spares assms(2) by blast+
  have ok1: "pool_ok p1" using qt keeps_ok assms(1) by (simp add: quiet_def)
  have x1: "inner_entry (leases p1 ! l) = ?e" "onRelease (leases p1 ! l) = onRelease ?x"
    "lease_disposed (leases p1 ! l) = lease_disposed ?x" "fallbackPromise (leases p1 ! l) = fallbackPromise ?x"
    "fallbackUsed (leases p1 ! l) = fallbackUsed ?x" and l1: "l < length (leases p1)"
    using assms(3) by (simp_all add: p1_def upd_lease_def)
  show ?thesis
  proof (cases "shouldAttemptFallback l err p1 \<and> \<not> fallbackUsed ?x \<and> fallbackPromise ?x = NotStarted")
    case False
    then have "open_fails l err p = p1" by (auto simp: of tryFallback_def x1)
    then show ?thesis using a1 by simp
  next
    case True
    let ?p2 = "createFallback ?e p1"
    have q: "open_fails l err p = upd_lease l ?f ?p2"
      using True by (simp add: of tryFallback_def x1)
    have l2: "leases ?p2 = leases p1" by (simp add: createFallback_def Let_def pool_upds)
    then have "leases (open_fails l err p) ! l = ?f (leases p1 ! l)" using q l1 by (simp add: upd_lease_def)
    then have nd: "\<not> lease_disposed ?x" using assms(4) x1 by simp
    have r: "onRelease ?x = ReleaseEntry"
      using True wired_lease [OF acct_wired [OF assms(2)] assms(3)] by (simp add: lease_good_def)
    have e: "?e < length (entry_table p1)" using inner_entry_ok [OF ok1 l1] x1 by simp
    have "0 < holders p1 ?e" by (rule holders_pos [OF l1]) (simp add: holds_def x1 r nd)
    from createFallback_acct [OF ok1 a1(1) e this] have a2: "acct ?p2" "spares_leased p1 ?p2" by blast+
    have "n < length (conns ?p2) \<and> n \<notin> set (map connection (entry_table ?p2))"
      if "fallbackConnection (?f (leases ?p2 ! l)) = Some n" for n
      using wired_fallback [OF acct_wired [OF a2(1)], of "leases ?p2 ! l"] that l1 l2 by simp
    then have a3: "acct (upd_lease l ?f ?p2)"
      using lease_change_acct [where f = ?f, OF a2(1)] l1 l2 x1 r nd by (simp add: lease_good_def holds_def)
    have h: "holders (upd_lease l ?f ?p2) e' = holders ?p2 e'" for e'
      using holders_upd_lease [of l ?p2 ?f e'] l1 l2 by (simp add: holds_def)
    have "spares_leased p (upd_lease l ?f ?p2)"
    proof (rule spares_trans_same [of p1])
      show "spares_leased p1 (upd_lease l ?f ?p2)"
        using a2(2) by (simp add: spares_leased_def lease_change_view h)
    qed (simp_all add: p1_def lease_change_view)
    then show ?thesis using a3 q by simp
  qed
qed

lemma acct_calls:
  assumes "acct p" "\<And>w. w \<in> set (calls p) \<Longrightarrow> (\<exists>e. w = AwaitEntry e) \<or> (\<exists>c. w = AwaitPending c) \<Longrightarrow> w \<in> set ws"
  shows "acct (p\<lparr>calls := ws\<rparr>) \<and> spares_leased p (p\<lparr>calls := ws\<rparr>)"
proof -
  have ex: "expected (p\<lparr>calls := ws\<rparr>) e" if "expected p e" for e
    using that assms(2) unfolding expected_def by simp blast
  have "good (p\<lparr>calls := ws\<rparr>) e" if "e < length (entry_table p)" for e
    using goodD [OF assms(1) that] ex [of e]
    by (auto simp: good_def entry_good_def holders_def registered_def current_entry_def conn_of_def)
  then show ?thesis
    using assms by (simp add: acct_def wired_def conns_apart_def spares_leased_def conn_of_def)
qed

lemma mem_update: "x \<in> set xs \<Longrightarrow> xs ! k \<noteq> x \<Longrightarrow> x \<in> set (xs[k := y])"
  by (metis in_set_conv_nth length_list_update nth_list_update_neq)

lemma standalone_acct:
  assumes "acct p" "k < length (calls p)" "calls p ! k = Standalone"
  shows "acct (standalone_settles k ok p) \<and> spares_leased p (standalone_settles k ok p)"
proof -
  have m: "w \<in> set ((calls p)[k := y])" if "w \<in> set (calls p)" "(\<exists>e. w = AwaitEntry e) \<or> (\<exists>c. w = AwaitPending c)" for w y
    using that assms(3) by (intro mem_update) auto
  show ?thesis
  proof (cases ok)
    case True
    have a: "acct (add_conn p)" "spares_leased p (add_conn p)" using add_conn_acct [OF assms(1)] by blast+
    have "acct ((add_conn p)\<lparr>calls := (calls p)[k := Returned]\<rparr>)"
      using m by (intro acct_calls [OF a(1), THEN conjunct1]) (simp add: add_conn_def)
    then show ?thesis using a(2) True by (simp add: standalone_settles_def spares_leased_def holders_def conn_of_def)
  next
    case False
    then show ?thesis using acct_calls [OF assms(1), of "(calls p)[k := Failed]"] m by (simp add: standalone_settles_def)
  qed
qed

lemma connectWithContext_acct:
  assumes "pool_ok p" "acct p"
  shows "acct (connectWithContext sid mx p) \<and> spares_leased p (connectWithContext sid mx p)"
proof -
  have app: "acct (p\<lparr>calls := calls p @ [w]\<rparr>) \<and> spares_leased p (p\<lparr>calls := calls p @ [w]\<rparr>)" for w
    using acct_calls [OF assms(2), of "calls p @ [w]"] by simp
  have new: "acct q \<and> spares_leased p q"
    if q: "q = p\<lparr>creations := creations p @ [\<lparr>creation_server = sid, creation_state = Connecting\<rparr>],
      pending := AList.update sid (length (creations p)) (pending p), calls := calls p @ [AwaitPending (length (creations p))]\<rparr>" for q
  proof -
    have ex: "expected q e" if "expected p e" for e
    proof (cases "AwaitEntry e \<in> set (calls p)")
      case True
      then show ?thesis by (simp add: expected_def q)
    next
      case False
      with that obtain c where "c < length (creations p)" "creation_state (creations p ! c) = Created e"
        "AwaitPending c \<in> set (calls p)" by (auto simp: expected_def)
      then show ?thesis unfolding expected_def q by (intro disjI2 exI [of _ c]) (simp add: nth_append)
    qed
    have "good q e" if "e < length (entry_table p)" for e
      using goodD [OF assms(2) that] ex [of e]
      by (auto simp: good_def entry_good_def holders_def registered_def current_entry_def conn_of_def q)
    then have "acct q"
      using assms(2) by (auto simp: acct_def wired_def conns_apart_def q nth_append less_Suc_eq)
    then show ?thesis by (simp add: spares_leased_def conn_of_def q)
  qed
  show ?thesis
  proof (cases "pool_disposed p \<or> \<not> or_default mx (pool_enabled p)")
    case True
    then show ?thesis using app by (auto simp: connectWithContext_def)
  next
    case False
    show ?thesis
    proof (cases "current_entry sid p")
      case (Some e)
      then show ?thesis
        using False app pool_ok_current [OF assms(1) Some] by (simp add: connectWithContext_def getOrCreateEntry_def)
    next
      case None
      then show ?thesis
        using False app new
        by (simp add: connectWithContext_def getOrCreateEntry_def join_or_create_def Let_def split: option.split)
    qed
  qed
qed

lemma expected_mono:
  assumes "expected p e" "\<And>w. w \<in> set (calls p) \<Longrightarrow> w = AwaitEntry e \<Longrightarrow> w \<in> set (calls q)"
    "\<And>c. c < length (creations p) \<Longrightarrow> creation_state (creations p ! c) = Created e \<Longrightarrow> AwaitPending c \<in> set (calls p) \<Longrightarrow>
       expected q e"
  shows "expected q e"
  using assms unfolding expected_def by blast

lemma expected_states:
  assumes "expected p e" "set (calls p) \<subseteq> set (calls q)" "length (creations p) \<le> length (creations q)"
    "\<And>d. d < length (creations p) \<Longrightarrow> creation_state (creations p ! d) = Created e \<Longrightarrow>
       creation_state (creations q ! d) = Created e"
  shows "expected q e"
proof (rule expected_mono [OF assms(1)])
  fix d assume d: "d < length (creations p)" "creation_state (creations p ! d) = Created e" "AwaitPending d \<in> set (calls p)"
  then have "d < length (creations q)" "AwaitPending d \<in> set (calls q)" using assms(2,3) by auto
  then show "expected q e" using assms(4) [OF d(1,2)] unfolding expected_def by blast
qed (use assms(2) in blast)

lemma set_creation_acct:
  assumes "acct p" "creation_state (creations p ! c) = Connecting"
  shows "acct (set_creation c Rejected p) \<and> spares_leased p (set_creation c Rejected p)"
proof -
  let ?q = "set_creation c Rejected p"
  have ex: "expected ?q e" if "expected p e" for e
    by (rule expected_states [OF that]) (use assms(2) in \<open>auto simp: set_creation_def nth_update_if\<close>)
  have "good ?q e" if "e < length (entry_table p)" for e
    using goodD [OF assms(1) that] ex [of e]
    by (auto simp: good_def entry_good_def holders_def registered_def current_entry_def conn_of_def set_creation_def)
  then have "acct ?q"
    using assms by (auto simp: acct_def wired_def conns_apart_def set_creation_def nth_update_if split: if_splits)
  then show ?thesis by (simp add: spares_leased_def conn_of_def set_creation_def)
qed

lemma spares_trans_conn:
  "spares_leased p q \<Longrightarrow> leases r = leases q \<Longrightarrow> conns r = conns q \<Longrightarrow> entry_table r = entry_table q \<Longrightarrow> spares_leased p r"
  by (simp add: spares_leased_def conn_of_def holders_def)

lemma createEntry_acct:
  assumes "pool_ok p" "acct p" "c < length (creations p)" "creation_state (creations p ! c) = Connecting"
  shows "acct (createEntry c ok p) \<and> spares_leased p (createEntry c ok p)"
proof -
  let ?n = "length (conns p)"
  have fresh: "?n \<notin> set (map connection (entry_table p))"
    using acct_apart [OF assms(2)] by (auto simp: conns_apart_def)
  consider "\<not> ok" | "ok" "pool_disposed p" | "ok" "\<not> pool_disposed p" by blast
  then show ?thesis
  proof cases
    case 1
    then show ?thesis using set_creation_acct [OF assms(2,4)] by (simp add: createEntry_def Let_def)
  next
    case 2
    let ?q = "dispose_connection ?n (add_conn p)"
    have "acct (add_conn p)" using add_conn_acct [OF assms(2)] by blast
    then have a: "acct ?q" using dispose_other_acct fresh by (simp add: add_conn_def)
    have s: "spares_leased p ?q"
      using conns_len [OF acct_apart [OF assms(2)]]
      by (auto simp: spares_leased_def conn_of_def pool_upds nth_append nth_update_if)
    have "acct (set_creation c Rejected ?q)"
      by (rule set_creation_acct [OF a, THEN conjunct1]) (simp add: pool_upds assms(4))
    moreover have "spares_leased p (set_creation c Rejected ?q)" by (rule spares_trans_conn [OF s]) (simp_all add: set_creation_def)
    ultimately show ?thesis using 2 by (simp add: createEntry_def Let_def)
  next
    case 3
    let ?r = "createEntry c ok p" and ?e = "length (entry_table p)" and ?sid = "creation_server (creations p ! c)"
    have t: "entry_table ?r = entry_table p @ [\<lparr>entry_server = ?sid, connection = ?n, refCount = 0,
        healthy = True, idleTimer = None, subscribed = True\<rparr>]" "conns ?r = conns p @ [fresh_conn]"
      "entries ?r = AList.update ?sid ?e (entries p)" "calls ?r = calls p" "idleTimeoutMs ?r = idleTimeoutMs p"
      "creations ?r = (creations p)[c := (creations p ! c)\<lparr>creation_state := Created ?e\<rparr>]" "leases ?r = leases p"
      using 3 by (simp_all add: createEntry_def Let_def set_creation_def pool_upds)
    have aw: "AwaitPending c \<in> set (calls p)"
      using assms(2,3,4) by (simp add: acct_def wired_def)
    have c: "conn_of ?r e = conn_of p e" if "e < ?e" for e
      using conns_len [OF acct_apart [OF assms(2)] that] that by (simp add: conn_of_def t nth_append)
    have n: "map_of (entries p) ?sid = None"
      using connecting_absent [OF _ assms(3,4)] assms(1) by (simp add: pool_ok_def)
    have old: "good ?r e" if "e < ?e" for e
    proof -
      have "registered ?r e = registered p e"
        using that n by (auto simp: registered_def current_entry_def t AList.update_conv' nth_append)
      moreover have "expected ?r e" if "expected p e"
        by (rule expected_states [OF that]) (use assms(4) in \<open>auto simp: t(4,6) nth_update_if\<close>)
      ultimately show ?thesis
        using goodD [OF assms(2) that] c [OF that] that
        by (auto simp: good_def entry_good_def holders_def t nth_append)
    qed
    have "inner_entry x \<noteq> ?e" if "x \<in> set (leases p)" for x
      using assms(1) that by (auto simp: pool_ok_def refs_ok_def)
    then have "holders ?r ?e = 0" by (simp add: holders_def t filter_empty_conv holds_def)
    moreover have "registered ?r ?e" by (simp add: registered_def current_entry_def t AList.update_conv')
    moreover have "expected ?r ?e"
      unfolding expected_def using aw assms(3) by (intro disjI2 exI [of _ c]) (simp add: t)
    ultimately have "good ?r ?e" by (simp add: good_def entry_good_def t conn_of_def fresh_conn_def)
    then have "\<forall>e < length (entry_table ?r). good ?r e" using old by (simp add: t less_Suc_eq)
    moreover have "conns_apart ?r"
      using acct_apart [OF assms(2)] fresh by (fastforce simp: conns_apart_def t)
    then have "wired ?r"
      using assms(2) aw by (auto simp: acct_def wired_def t nth_update_if split: if_splits)
    ultimately show ?thesis using c by (simp add: acct_def spares_leased_def)
  qed
qed

lemma creation_finally_acct:
  assumes "acct p" "c < length (creations p)" "creation_state (creations p ! c) \<noteq> Finished"
  shows "acct (creation_finally c p) \<and> spares_leased p (creation_finally c p)"
proof -
  let ?r = "creation_finally c p"
  let ?w = "\<lambda>w. if w = AwaitPending c then (case creation_state (creations p ! c) of Created e \<Rightarrow> AwaitEntry e | _ \<Rightarrow> Failed) else w"
  have t: "calls ?r = map ?w (calls p)" "creations ?r = (creations p)[c := (creations p ! c)\<lparr>creation_state := Finished\<rparr>]"
    "entry_table ?r = entry_table p" "entries ?r = entries p" "conns ?r = conns p" "leases ?r = leases p"
    "idleTimeoutMs ?r = idleTimeoutMs p"
    by (simp_all add: creation_finally_def Let_def set_creation_def)
  have other: "w \<in> set (calls ?r)" if "w \<in> set (calls p)" "w \<noteq> AwaitPending c" for w
    using that by (force simp: t)
  have ex: "expected ?r e" if "expected p e" for e
  proof (rule expected_mono [OF that])
    fix d assume d: "d < length (creations p)" "creation_state (creations p ! d) = Created e" "AwaitPending d \<in> set (calls p)"
    show "expected ?r e"
    proof (cases "d = c")
      case True
      then have "AwaitEntry e \<in> set (calls ?r)" using d by (force simp: t)
      then show ?thesis by (simp add: expected_def)
    next
      case False
      then show ?thesis using d other [OF d(3)] unfolding expected_def
        by (intro disjI2 exI [of _ d]) (simp add: t(2) nth_update_if)
    qed
  qed (use other in auto)
  have "good ?r e" if "e < length (entry_table p)" for e
    using goodD [OF assms(1) that] ex [of e]
    by (auto simp: good_def entry_good_def holders_def registered_def current_entry_def conn_of_def t)
  moreover have "AwaitPending d \<in> set (calls ?r)"
    if "d < length (creations ?r)" "creation_state (creations ?r ! d) \<noteq> Finished" for d
  proof -
    have "d \<noteq> c" "d < length (creations p)" "creation_state (creations p ! d) \<noteq> Finished"
      using that assms(2) by (auto simp: t(2) nth_update_if split: if_splits)
    then show ?thesis using assms(1) other [of "AwaitPending d"] by (simp add: acct_def wired_def)
  qed
  ultimately have "acct ?r"
    using assms(1) by (simp add: acct_def wired_def conns_apart_def t(3-6))
  then show ?thesis by (simp add: spares_leased_def conn_of_def t)
qed

lemma connect_continues_acct:
  assumes "pool_ok p" "acct p" "k < length (calls p)" "calls p ! k = AwaitEntry e"
  shows "acct (connect_continues k e p) \<and> spares_leased p (connect_continues k e p)"
proof -
  let ?r = "connect_continues k e p" and ?x = "entry_table p ! e"
  have "AwaitEntry e \<in> set (calls p)" using assms(3,4) by (metis nth_mem)
  then have e: "e < length (entry_table p)" using pool_ok_awaits(1) assms(1) by blast
  define x where "x = \<lparr>inner_entry = e, lease_disposed = False, closeUnsubscribes = [], fallbackConnection = None,
    fallbackUsed = False, onRelease = ReleaseEntry, isReused = (1 < refCount ?x + 1), fallbackPromise = NotStarted, inFlight = 0\<rparr>"
  have t: "entry_table ?r = (entry_table p)[e := ?x\<lparr>idleTimer := None, refCount := refCount ?x + 1\<rparr>]"
    "entries ?r = entries p" "conns ?r = conns p" "leases ?r = leases p @ [x]" "creations ?r = creations p"
    "calls ?r = (calls p)[k := Returned]" "idleTimeoutMs ?r = idleTimeoutMs p"
    using e by (simp_all add: connect_continues_def Let_def pool_upds x_def)
  have other: "w \<in> set (calls ?r)" if "w \<in> set (calls p)" "w \<noteq> AwaitEntry e" for w
    using that assms(4) mem_update [of w "calls p" k] by (auto simp: t)
  have x: "holds e' x = (e' = e)" for e' by (auto simp: x_def holds_def)
  have "good ?r e'" if e': "e' < length (entry_table p)" for e'
  proof (cases "e' = e")
    case True
    then show ?thesis
      using goodD [OF assms(2) e] e
      by (auto simp: good_def entry_good_def holders_def registered_def current_entry_def conn_of_def t x nth_update_if)
  next
    case False
    have "expected ?r e'" if "expected p e'"
    proof (rule expected_mono [OF that])
      fix d assume "d < length (creations p)" "creation_state (creations p ! d) = Created e'" "AwaitPending d \<in> set (calls p)"
      then show "expected ?r e'" using other [of "AwaitPending d"] unfolding expected_def
        by (intro disjI2 exI [of _ d]) (simp add: t(5))
    qed (use other False in auto)
    then show ?thesis
      using goodD [OF assms(2) e'] False
      by (auto simp: good_def entry_good_def holders_def registered_def current_entry_def conn_of_def t x)
  qed
  moreover have "AwaitPending d \<in> set (calls ?r)"
    if "d < length (creations p)" "creation_state (creations p ! d) \<noteq> Finished" for d
    using that assms(2) other [of "AwaitPending d"] by (simp add: acct_def wired_def)
  moreover have "conns_apart ?r" using acct_apart [OF assms(2)] by (simp add: conns_apart_def t x_def)
  ultimately have "acct ?r"
    using assms(2) by (simp add: acct_def wired_def t(1,4,5)) (simp add: lease_good_def x_def)
  then show ?thesis by (simp add: spares_leased_def conn_of_def t(1,3) nth_update_if)
qed

lemma dispose_one_view:
  assumes "conns_apart p" "d < length (entry_table p)" "e < length (entry_table p)" "q = pool_dispose_one p (sid, d)"
  shows "refCount (entry_table q ! e) = refCount (entry_table p ! e)"
    "e = d \<Longrightarrow> idleTimer (entry_table q ! e) = None \<and> 0 < disposals (conn_of q e)"
    "e \<noteq> d \<Longrightarrow> entry_table q ! e = entry_table p ! e \<and> conn_of q e = conn_of p e"
  using connection_inj [OF assms(1,2,3)] conns_len [OF assms(1,3)] assms(2)
  by (auto simp: assms(4) pool_dispose_one_def pool_upds nth_update_if conn_of_def)

lemma dispose_one_apart: "conns_apart p \<Longrightarrow> conns_apart (pool_dispose_one p se)"
  by (simp add: conns_apart_def pool_dispose_one_def pool_upds nth_update_if)

lemma dispose_one_length [simp]: "length (entry_table (pool_dispose_one p se)) = length (entry_table p)"
  by (simp add: pool_dispose_one_def pool_upds)

lemma dispose_all_view:
  assumes "conns_apart p" "\<forall>se \<in> set es. snd se < length (entry_table p)" "e < length (entry_table p)"
    "distinct (map snd es)" "q = foldl pool_dispose_one p es"
  shows "refCount (entry_table q ! e) = refCount (entry_table p ! e)
    \<and> (e \<in> snd ` set es \<longrightarrow> idleTimer (entry_table q ! e) = None \<and> 0 < disposals (conn_of q e))
    \<and> (e \<notin> snd ` set es \<longrightarrow> entry_table q ! e = entry_table p ! e \<and> conn_of q e = conn_of p e)"
  using assms
proof (induction es arbitrary: p)
  case (Cons se es)
  obtain sid d where se: "se = (sid, d)" by fastforce
  let ?p1 = "pool_dispose_one p (sid, d)"
  have d: "d < length (entry_table p)" using Cons.prems(2) by (simp add: se)
  note one = dispose_one_view [OF Cons.prems(1) d Cons.prems(3) refl]
  have IH: "refCount (entry_table q ! e) = refCount (entry_table ?p1 ! e)
    \<and> (e \<in> snd ` set es \<longrightarrow> idleTimer (entry_table q ! e) = None \<and> 0 < disposals (conn_of q e))
    \<and> (e \<notin> snd ` set es \<longrightarrow> entry_table q ! e = entry_table ?p1 ! e \<and> conn_of q e = conn_of ?p1 e)"
    using Cons.prems dispose_one_apart [OF Cons.prems(1)] by (intro Cons.IH) (simp_all add: se)
  have nd: "d \<notin> snd ` set es" using Cons.prems(4) by (simp add: se)
  show ?case
  proof (cases "e = d")
    case True
    then show ?thesis using IH one(1) one(2) [OF True] nd by (simp add: se)
  next
    case False
    then show ?thesis using IH one(1) one(3) [OF False] by (simp add: se)
  qed
qed simp

lemma registered_entries:
  assumes "pool_ok p" "e < length (entry_table p)"
  shows "registered p e \<longleftrightarrow> e \<in> snd ` set (entries p)"
proof
  assume "registered p e"
  then show "e \<in> snd ` set (entries p)"
    by (force simp: registered_def current_entry_def dest: map_of_SomeD)
next
  assume "e \<in> snd ` set (entries p)"
  then obtain sid where m: "(sid, e) \<in> set (entries p)" by force
  have "distinct (map fst (entries p))" using assms(1) by (simp add: pool_ok_def entries_ok_def)
  then have "current_entry sid p = Some e" using m by (simp add: current_entry_def)
  then show "registered p e" using pool_ok_current [OF assms(1)] by (simp add: registered_def)
qed

lemma entries_distinct:
  assumes "pool_ok p"
  shows "distinct (map snd (entries p)) \<and> (\<forall>se \<in> set (entries p). snd se < length (entry_table p))"
proof -
  have d: "distinct (map fst (entries p))" using assms by (simp add: pool_ok_def entries_ok_def)
  have v: "snd se < length (entry_table p) \<and> entry_server (entry_table p ! snd se) = fst se" if "se \<in> set (entries p)" for se
    using that pool_ok_current [OF assms, of "fst se" "snd se"] d by (simp add: current_entry_def)
  have "distinct (entries p)" using d by (simp add: distinct_map)
  moreover have "inj_on snd (set (entries p))" by (rule inj_onI) (metis v prod.collapse)
  ultimately show ?thesis using v by (simp add: distinct_map)
qed

lemma pool_dispose_acct:
  assumes "pool_ok p" "acct p"
  shows "acct (pool_dispose p)"
proof (cases "pool_disposed p")
  case False
  let ?p0 = "p\<lparr>pool_disposed := True\<rparr>"
  define f where "f = foldl pool_dispose_one ?p0 (entries p)"
  have k: "same_shape ?p0 f" "leases f = leases p" using dispose_all_keeps [of ?p0 "entries p"] by (simp_all add: f_def)
  have w0: "wired ?p0" "conns_apart ?p0" using acct_wired [OF assms(2)] by (simp_all add: wired_def conns_apart_def)
  have "length (conns (foldl pool_dispose_one q es)) = length (conns q)" for q es
    by (induction es arbitrary: q) (simp_all add: pool_dispose_one_def pool_upds)
  then have lc: "length (conns f) = length (conns p)" by (simp add: f_def)
  have w: "wired f"
    by (rule wired_shape [OF w0(1) k(1)]) (use acct_wired [OF assms(2)] wired_fallback [OF acct_wired [OF assms(2)]] lc k(2)
        in \<open>auto simp: wired_def\<close>)
  define q where "q = f\<lparr>entries := [], pending := [], listeners := []\<rparr>"
  have len: "length (entry_table q) = length (entry_table p)" using same_shape_length [OF k(1)] by (simp add: q_def)
  have "good q e" if e: "e < length (entry_table p)" for e
  proof -
    note v = dispose_all_view [OF w0(2) _ _ _ f_def, of e] registered_entries [OF assms(1) e]
    have c: "conn_of q e = conn_of f e" "entry_table q = entry_table f" "conn_of ?p0 e = conn_of p e"
      by (simp_all add: q_def conn_of_def)
    have h: "holders q e = holders p e" using k(2) by (simp add: q_def holders_def)
    have "\<not> registered q e" by (simp add: registered_def current_entry_def q_def)
    then show ?thesis
      using goodD [OF assms(2) e] v entries_distinct [OF assms(1)] e
      by (cases "registered p e") (auto simp: good_def entry_good_def c h)
  qed
  then have "acct q" using w len by (simp add: acct_def wired_def conns_apart_def q_def)
  moreover have "pool_dispose p = q" using False by (simp add: pool_dispose_def q_def f_def)
  ultimately show ?thesis by simp
qed (simp add: pool_dispose_def assms)

text \<open>No lease is disposed of while its connection of its own is under way.\<close>

definition no_late_fallback :: "ssh_pool \<Rightarrow> bool" where
  "no_late_fallback p \<longleftrightarrow>
     list_all (\<lambda>x. \<not> (lease_disposed x \<and> fallbackPromise x = FallbackPending)) (leases p)"

definition orderly_step :: "ssh_pool \<Rightarrow> ssh_pool \<Rightarrow> bool" where
  "orderly_step p q \<longleftrightarrow> pool_step p q \<and> no_late_fallback q"

lemma no_late_nth: "no_late_fallback p \<Longrightarrow> l < length (leases p) \<Longrightarrow>
    \<not> (lease_disposed (leases p ! l) \<and> fallbackPromise (leases p ! l) = FallbackPending)"
  by (simp add: no_late_fallback_def list_all_length)

lemma lease_dispose_late:
  assumes "no_late_fallback (lease_dispose l p)" "l < length (leases p)" "\<not> lease_disposed (leases p ! l)"
  shows "fallbackPromise (leases p ! l) \<noteq> FallbackPending"
proof -
  obtain p3 where qt: "quiet (upd_lease l (\<lambda>x. x\<lparr>lease_disposed := True\<rparr>) p) p3" and q: "lease_dispose l p = run_release l p3"
    using lease_dispose_form [OF assms(3)] by blast
  have "leases (run_release l p3) = leases p3"
    by (simp add: run_release_def release_entry_def Let_def startIdleTimer_def pool_upds split: release_action.split option.split)
  moreover have "l < length (leases p3)" "lease_core (leases p3 ! l) = lease_core ((leases p ! l)\<lparr>lease_disposed := True\<rparr>)"
    using quiet_lease [OF qt, of l] assms(2) by (simp_all add: upd_lease_def)
  ultimately show ?thesis using no_late_nth [OF assms(1), of l] q by (simp add: lease_core_def)
qed

lemma open_fails_leases [simp]: "length (leases (open_fails l err p)) = length (leases p)"
  by (simp add: open_fails_def Let_def tryFallback_def createFallback_def pool_upds)

lemma pool_step_acct:
  "pool_step p q \<Longrightarrow> no_late_fallback q \<Longrightarrow> pool_ok p \<Longrightarrow> acct p \<Longrightarrow>
    acct q \<and> (spares_leased p q \<or> (\<exists>sid. q = pool_disconnect sid p) \<or> q = pool_dispose p)"
proof (induction rule: pool_step.induct)
  case (listen p k)
  have "quiet p (onDidChange k p)" by (simp add: onDidChange_def quiet_def keeps_def same_shape_def)
  then show ?case using quiet_acct quiet_spares listen.prems by blast
next
  case (unlisten p k)
  have "quiet p (offDidChange k p)" by (simp add: offDidChange_def quiet_def keeps_def same_shape_def)
  then show ?case using quiet_acct quiet_spares unlisten.prems by blast
next
  case (subscribe l p u p')
  have "quiet p p'"
    using subscribe.hyps(2) quiet_trans [OF quiet_upd_conn quiet_upd_lease]
    by (auto simp: lease_onClose_def Let_def lease_core_def conn_core_def split: if_splits)
  then show ?case using quiet_acct quiet_spares subscribe.prems by blast
next
  case (unsubscribe l p cu)
  have "quiet p (lease_offClose l cu p)" unfolding lease_offClose_def unsubscribe_close_def
    by (rule quiet_trans [OF quiet_upd_lease quiet_upd_conn]) (simp_all add: lease_core_def conn_core_def)
  then show ?case using quiet_acct quiet_spares unsubscribe.prems by blast
next
  case (open_start l p p')
  have "quiet p p'"
    using open_start.hyps(2) quiet_upd_lease by (auto simp: open_channel_def lease_core_def split: if_splits)
  then show ?case using quiet_acct quiet_spares open_start.prems by blast
next
  case (opened l p)
  have "quiet p (open_succeeds l p)" unfolding open_succeeds_def by (rule quiet_upd_lease) (simp add: lease_core_def)
  then show ?case using quiet_acct quiet_spares opened.prems by blast
next
  case (dispose_lease l p)
  show ?case
  proof (cases "lease_disposed (leases p ! l)")
    case True
    then show ?thesis using dispose_lease.prems by (simp add: lease_dispose_def spares_leased_def)
  next
    case False
    then show ?thesis
      using lease_dispose_acct [OF dispose_lease.prems(2,3) dispose_lease.hyps]
        lease_dispose_late [OF dispose_lease.prems(1) dispose_lease.hyps] by blast
  qed
next
  case (open_failed l p err)
  then show ?case using open_fails_acct no_late_nth [OF open_failed.prems(1), of l] by simp
next
  case (disconnect p sid)
  have "acct (pool_disconnect sid p)"
    using disconnect.prems evictEntry_acct by (auto simp: pool_disconnect_def split: option.split)
  then show ?case by blast
next
  case (invalidate p sid)
  have "spares_leased p p" by (simp add: spares_leased_def)
  then have "acct (pool_invalidate sid p) \<and> spares_leased p (pool_invalidate sid p)"
    using invalidate.prems softRemoveEntry_acct by (auto simp: pool_invalidate_def split: option.split)
  then show ?case by blast
next
  case (dispose p)
  then show ?case using pool_dispose_acct by blast
next
  case (idle e p)
  then show ?case using idle_fires_acct by blast
next
  case (finished c p)
  then show ?case using creation_finally_acct by simp
next
  case (continue k p e)
  then show ?case using connect_continues_acct by blast
qed (simp_all add: connectWithContext_acct standalone_acct createEntry_acct executeFallback_acct connection_closes_acct)

section \<open>Properties of orderly runs\<close>

lemma acct_new: "acct (new_pool enabled timeout)"
  by (simp add: acct_def wired_def conns_apart_def new_pool_def)

interpretation orderly_run: invariant_system "\<lambda>p. p = new_pool enabled timeout" orderly_step "\<lambda>p. pool_ok p \<and> acct p"
  by unfold_locales (auto simp: pool_ok_new acct_new orderly_step_def intro: pool_step_ok dest: pool_step_acct)

lemma orderly_reachable: "orderly_step\<^sup>*\<^sup>* (new_pool enabled timeout) p \<Longrightarrow> pool_ok p \<and> acct p"
  using orderly_run.inv_reachable by blast

text \<open>
  C15. While no lease is disposed of in the middle of its fallback, every entry counts exactly the
  leases that hold it; a pooled connection is open; one that has left the pool and is held by no
  lease has been disposed of or has closed; and a pooled connection nobody uses is about to be used or,
  unless \<open>idleTimeoutMs\<close> is 0, has its idle timer running.
\<close>
theorem pool_counts_leases:
  assumes "orderly_step\<^sup>*\<^sup>* (new_pool enabled timeout) p" "e < length (entry_table p)"
  shows "refCount (entry_table p ! e) = int (holders p e)
    \<and> (registered p e \<longrightarrow> disposals (conn_of p e) = 0 \<and> \<not> closed (conn_of p e))
    \<and> (\<not> registered p e \<and> holders p e = 0 \<longrightarrow> 0 < disposals (conn_of p e) \<or> closed (conn_of p e))
    \<and> (registered p e \<and> holders p e = 0 \<and> idleTimeoutMs p \<noteq> 0 \<longrightarrow>
         idleTimer (entry_table p ! e) \<noteq> None \<or> expected p e)"
  using goodD [OF _ assms(2)] orderly_reachable [OF assms(1)] by (auto simp: good_def entry_good_def)

lemma example_pool_orderly: "orderly_step\<^sup>*\<^sup>* (new_pool True 1000) example_pool"
proof -
  let ?p = "connectWithContext ''a'' None (new_pool True 1000)"
  have "orderly_step (new_pool True 1000) ?p"
    unfolding orderly_step_def by (intro conjI pool_step.connect, code_simp)
  moreover have "pool_step ?p example_pool"
    unfolding example_pool_def by (rule pool_step.created) code_simp+
  then have "orderly_step ?p example_pool" unfolding orderly_step_def by (intro conjI, assumption, code_simp)
  ultimately show ?thesis by (meson rtranclp.rtrancl_refl rtranclp.rtrancl_into_rtrancl)
qed

theorem pool_counts_leases_witness: "refCount (entry_table example_pool ! 0) = int (holders example_pool 0)"
proof -
  have "0 < length (entry_table example_pool)" by code_simp
  then show ?thesis using pool_counts_leases [OF example_pool_orderly] by blast
qed

text \<open>
  In such a run a step disposes of the connection under a lease that goes on holding it only if it
  is \<open>disconnect\<close> or the disposal of the pool: neither the idle timer nor the end of other leases,
  a fallback, an invalidation or a closed connection does.
\<close>
theorem pool_spares_leased:
  assumes "orderly_step\<^sup>*\<^sup>* (new_pool enabled timeout) p" "orderly_step p q"
    "l < length (leases q)" "holds e (leases q ! l)" "e < length (entry_table p)"
    "disposals (conn_of q e) \<noteq> disposals (conn_of p e)"
  shows "(\<exists>sid. q = pool_disconnect sid p) \<or> q = pool_dispose p"
proof -
  have "0 < holders q e" by (rule holders_pos [OF assms(3,4)])
  then have "\<not> spares_leased p q" using assms(5,6) by (auto simp: spares_leased_def)
  then show ?thesis
    using pool_step_acct [of p q] orderly_reachable [OF assms(1)] assms(2) by (auto simp: orderly_step_def)
qed

definition leased_pool :: ssh_pool where
  "leased_pool = connect_continues 0 0 (creation_finally 0 example_pool)"

lemma leased_pool_orderly: "orderly_step\<^sup>*\<^sup>* (new_pool True 1000) leased_pool"
proof -
  have "pool_step example_pool (creation_finally 0 example_pool)"
    by (rule pool_step.finished) code_simp+
  moreover have "pool_step (creation_finally 0 example_pool) leased_pool"
    unfolding leased_pool_def by (rule pool_step.continue) code_simp+
  moreover have "no_late_fallback (creation_finally 0 example_pool)" "no_late_fallback leased_pool" by code_simp+
  ultimately have "orderly_step example_pool (creation_finally 0 example_pool)"
    "orderly_step (creation_finally 0 example_pool) leased_pool" by (simp_all add: orderly_step_def)
  with example_pool_orderly show ?thesis by (meson rtranclp.rtrancl_into_rtrancl)
qed

theorem pool_spares_leased_witness:
  "(\<exists>sid. pool_disconnect ''a'' leased_pool = pool_disconnect sid leased_pool)
    \<or> pool_disconnect ''a'' leased_pool = pool_dispose leased_pool"
proof (rule pool_spares_leased [OF leased_pool_orderly, of _ 0 0])
  have "no_late_fallback (pool_disconnect ''a'' leased_pool)" by code_simp
  then show "orderly_step leased_pool (pool_disconnect ''a'' leased_pool)"
    by (simp add: orderly_step_def pool_step.disconnect)
qed code_simp+

section \<open>A lease that ends during its fallback\<close>

definition refused_channel :: ssh_error where
  "refused_channel = \<lparr>err_reason = NumReason 1, err_message = ''open failed''\<rparr>"

definition late_ops :: "(ssh_pool \<Rightarrow> ssh_pool) list" where
  "late_ops =
     [connectWithContext ''a'' None, createEntry 0 True, creation_finally 0, connect_continues 0 0,
      connectWithContext ''a'' None, connect_continues 1 0, (\<lambda>p. the (open_channel 1 p)),
      open_fails 1 refused_channel, lease_dispose 1, executeFallback 1 True]"

definition late_state :: "nat \<Rightarrow> ssh_pool" where
  "late_state n = foldl (\<lambda>p f. f p) (new_pool True 1000) (take n late_ops)"

lemma late_state_Suc: "n < length late_ops \<Longrightarrow> late_state (Suc n) = (late_ops ! n) (late_state n)"
  by (simp add: late_state_def take_Suc_conv_app_nth)

lemma late_steps: "n < 10 \<Longrightarrow> pool_step (late_state n) (late_state (Suc n))"
proof -
  assume "n < 10"
  then have "n = 0 \<or> n = 1 \<or> n = 2 \<or> n = 3 \<or> n = 4 \<or> n = 5 \<or> n = 6 \<or> n = 7 \<or> n = 8 \<or> n = 9"
    by presburger
  then consider "n = 0 \<or> n = 4" | "n = 1" | "n = 2" | "n = 3" | "n = 5" | "n = 6" | "n = 7" | "n = 8" | "n = 9"
    by blast
  then show ?thesis
  proof cases
    case 1
    then show ?thesis using late_state_Suc [of n] by (auto simp: late_ops_def intro: pool_step.connect)
  next
    case 2
    have "pool_step (late_state 1) (createEntry 0 True (late_state 1))" by (rule pool_step.created) code_simp+
    then show ?thesis using 2 late_state_Suc [of 1] by (simp add: late_ops_def)
  next
    case 3
    have "pool_step (late_state 2) (creation_finally 0 (late_state 2))" by (rule pool_step.finished) code_simp+
    then show ?thesis using 3 late_state_Suc [of 2] by (simp add: late_ops_def)
  next
    case 4
    have "pool_step (late_state 3) (connect_continues 0 0 (late_state 3))" by (rule pool_step.continue) code_simp+
    then show ?thesis using 4 late_state_Suc [of 3] by (simp add: late_ops_def)
  next
    case 5
    have "pool_step (late_state 5) (connect_continues 1 0 (late_state 5))" by (rule pool_step.continue) code_simp+
    then show ?thesis using 5 late_state_Suc [of 5] by (simp add: late_ops_def)
  next
    case 6
    have "1 < length (leases (late_state 6))" "\<not> lease_disposed (leases (late_state 6) ! 1)" by code_simp+
    then have "pool_step (late_state 6) (the (open_channel 1 (late_state 6)))"
      by (intro pool_step.open_start [of 1]) (simp_all add: open_channel_def)
    then show ?thesis using 6 late_state_Suc [of 6] by (simp add: late_ops_def)
  next
    case 7
    have "pool_step (late_state 7) (open_fails 1 refused_channel (late_state 7))" by (rule pool_step.open_failed) code_simp+
    then show ?thesis using 7 late_state_Suc [of 7] by (simp add: late_ops_def)
  next
    case 8
    have "pool_step (late_state 8) (lease_dispose 1 (late_state 8))" by (rule pool_step.dispose_lease) code_simp
    then show ?thesis using 8 late_state_Suc [of 8] by (simp add: late_ops_def)
  next
    case 9
    have "pool_step (late_state 9) (executeFallback 1 True (late_state 9))" by (rule pool_step.fallback) code_simp+
    then show ?thesis using 9 late_state_Suc [of 9] by (simp add: late_ops_def)
  qed
qed

text \<open>
  C16. When a lease is disposed of while the connection of its own is under way, its share of the pooled
  connection is released twice: in this run the pooled connection is disposed of under the other
  lease, without \<open>disconnect\<close>, \<open>invalidate\<close> or the disposal of the pool.
\<close>
theorem late_fallback_disposes_leased:
  "late_state 0 = new_pool True 1000
    \<and> list_all (\<lambda>n. pool_step (late_state n) (late_state (Suc n))) [0..<10]
    \<and> holds 0 (leases (late_state 10) ! 0) \<and> disposals (conn_of (late_state 10) 0) = 1
    \<and> fallbackConnection (leases (late_state 10) ! 1) = Some 1 \<and> lease_disposed (leases (late_state 10) ! 1)
    \<and> disposals (conns (late_state 10) ! 1) = 0"
proof -
  have "holds 0 (leases (late_state 10) ! 0)" "disposals (conn_of (late_state 10) 0) = 1"
    "fallbackConnection (leases (late_state 10) ! 1) = Some 1" "lease_disposed (leases (late_state 10) ! 1)"
    "disposals (conns (late_state 10) ! 1) = 0"
    by code_simp+
  moreover have "list_all (\<lambda>n. pool_step (late_state n) (late_state (Suc n))) [0..<10]"
    unfolding list_all_iff using late_steps by (metis atLeastLessThan_iff set_upt)
  moreover have "late_state 0 = new_pool True 1000" by (simp add: late_state_def)
  ultimately show ?thesis by blast
qed

end
