(* ===== verification/Socks5.thy ===== *)
theory Socks5
  imports Js_Strings
begin

text \<open>
  The SOCKS5 handshake of dynamic tunnels: \<open>src/src/services/tunnel/socks5.ts\<close>. A socket is what
  it will deliver (the chunks of its \<open>data\<close> events and how it ends), what has been written to it and
  whether its sending side was ended. The asynchronous function is a function from the socket to
  the socket and an error or a result; bytes that were read too far are pushed back. The theorems
  say that chunks cannot be told, that a client gets the destination it asks for, and what is
  answered to it in every case.
\<close>

section \<open>Constants and the socket\<close>

definition SOCKS5_VERSION :: byte where "SOCKS5_VERSION = 5"

definition AUTH_NO_AUTH :: byte where "AUTH_NO_AUTH = 0"

definition AUTH_NO_ACCEPTABLE :: byte where "AUTH_NO_ACCEPTABLE = 255"

definition CMD_CONNECT :: byte where "CMD_CONNECT = 1"

definition ATYP_IPV4 :: byte where "ATYP_IPV4 = 1"

definition ATYP_DOMAIN :: byte where "ATYP_DOMAIN = 3"

definition ATYP_IPV6 :: byte where "ATYP_IPV6 = 4"

definition REP_SUCCESS :: byte where "REP_SUCCESS = 0"

definition REP_GENERAL_FAILURE :: byte where "REP_GENERAL_FAILURE = 1"

definition REP_COMMAND_NOT_SUPPORTED :: byte where "REP_COMMAND_NOT_SUPPORTED = 7"

definition REP_ATYP_NOT_SUPPORTED :: byte where "REP_ATYP_NOT_SUPPORTED = 8"

lemmas socks_consts = SOCKS5_VERSION_def AUTH_NO_AUTH_def AUTH_NO_ACCEPTABLE_def CMD_CONNECT_def
  ATYP_IPV4_def ATYP_DOMAIN_def ATYP_IPV6_def REP_SUCCESS_def REP_GENERAL_FAILURE_def
  REP_COMMAND_NOT_SUPPORTED_def REP_ATYP_NOT_SUPPORTED_def

text \<open>How the incoming side ends: it closes, fails, or sends nothing more until the timer fires.\<close>

datatype socket_end = Closes | Fails string | Silent

record socks_socket =
  incoming :: "buffer list"
  incoming_end :: socket_end
  written :: buffer
  sending_ended :: bool
  write_after_end :: bool

datatype socks_error = HandshakeAborted | SocketError string | HandshakeTimedOut
  | InvalidVersion byte | NoMethods | NoAcceptableMethod | InvalidRequestVersion byte
  | UnsupportedCommand byte | EmptyDomain | UnsupportedAddressType byte

record socks5_target =
  destAddr :: string
  destPort :: u16

type_synonym 'a socks_action = "socks_socket \<Rightarrow> socks_socket \<times> (socks_error + 'a)"

definition socks_bind :: "'a socks_action \<Rightarrow> ('a \<Rightarrow> 'b socks_action) \<Rightarrow> 'b socks_action" where
  "socks_bind m f s = (case m s of (s1, Inl e) \<Rightarrow> (s1, Inl e) | (s1, Inr x) \<Rightarrow> f x s1)"

definition socks_return :: "'a \<Rightarrow> 'a socks_action" where
  "socks_return x s = (s, Inr x)"

text \<open>\<open>socket.write\<close> and \<open>socket.end\<close>: after the end nothing is sent any more and the socket
  reports the error of a write after the end.\<close>

definition socket_put :: "buffer \<Rightarrow> socks_socket \<Rightarrow> socks_socket" where
  "socket_put bs s =
     (if sending_ended s then s\<lparr>write_after_end := True\<rparr> else s\<lparr>written := written s @ bs\<rparr>)"

definition socket_finish :: "buffer \<Rightarrow> socks_socket \<Rightarrow> socks_socket" where
  "socket_finish bs s = (socket_put bs s)\<lparr>sending_ended := True\<rparr>"

definition socket_write :: "buffer \<Rightarrow> unit socks_action" where
  "socket_write bs s = (socket_put bs s, Inr ())"

text \<open>\<open>socket.end(reply)\<close> and the throw that follows it.\<close>

definition refuse :: "buffer \<Rightarrow> socks_error \<Rightarrow> 'a socks_action" where
  "refuse reply e s = (socket_finish reply s, Inl e)"

section \<open>Reading\<close>

definition end_error :: "socket_end \<Rightarrow> socks_error" where
  "end_error en =
     (case en of Closes \<Rightarrow> HandshakeAborted | Fails msg \<Rightarrow> SocketError msg
      | Silent \<Rightarrow> HandshakeTimedOut)"

fun onData :: "nat \<Rightarrow> buffer \<Rightarrow> buffer list \<Rightarrow> (buffer \<times> buffer list) option" where
  "onData count buf [] = None"
| "onData count buf (chunk # chunks) =
     (let buf1 = buf @ chunk
      in if count \<le> length buf1
         then (if count < length buf1
               then Some (take count buf1, drop count buf1 # chunks)
               else Some (buf1, chunks))
         else onData count buf1 chunks)"

definition readBytes :: "nat \<Rightarrow> buffer socks_action" where
  "readBytes count s =
     (case onData count [] (incoming s) of
        None \<Rightarrow> (s\<lparr>incoming := []\<rparr>, Inl (end_error (incoming_end s)))
      | Some (bs, rest) \<Rightarrow> (s\<lparr>incoming := rest\<rparr>, Inr bs))"

definition buildGreetingReply :: "byte \<Rightarrow> buffer" where
  "buildGreetingReply m = [SOCKS5_VERSION, m]"

definition buildSocks5Reply :: "byte \<Rightarrow> buffer" where
  "buildSocks5Reply rep = [SOCKS5_VERSION, rep, 0, ATYP_IPV4, 0, 0, 0, 0, 0, 0]"

section \<open>The handshake\<close>

text \<open>\<open>toString(16)\<close> of a natural number, and the addresses as text.\<close>

definition hex_digit :: "nat \<Rightarrow> char" where
  "hex_digit d = char_of (if d < 10 then 48 + d else 87 + d)"

fun show_hex :: "nat \<Rightarrow> string" where
  "show_hex n = (if n < 16 then [hex_digit n] else show_hex (n div 16) @ [hex_digit (n mod 16)])"

declare show_hex.simps [simp del]

fun join_text :: "string \<Rightarrow> string list \<Rightarrow> string" where
  "join_text sep [] = []"
| "join_text sep [x] = x"
| "join_text sep (x # y # xs) = x @ sep @ join_text sep (y # xs)"

definition ipv4_text :: "buffer \<Rightarrow> string" where
  "ipv4_text bs = join_text ''.'' (map (\<lambda>b. show_nat (unat b)) bs)"

fun ipv6_groups :: "buffer \<Rightarrow> string list" where
  "ipv6_groups (a # b # bs) = show_hex (256 * unat a + unat b) # ipv6_groups bs"
| "ipv6_groups _ = []"

definition readAddress :: "byte \<Rightarrow> string socks_action" where
  "readAddress atyp =
     (if atyp = ATYP_IPV4 then socks_bind (readBytes 4) (\<lambda>addr. socks_return (ipv4_text addr))
      else if atyp = ATYP_DOMAIN then
        socks_bind (readBytes 1) (\<lambda>lenBuf.
          if lenBuf ! 0 = 0 then refuse (buildSocks5Reply REP_GENERAL_FAILURE) EmptyDomain
          else socks_bind (readBytes (unat (lenBuf ! 0))) (\<lambda>domain.
                 socks_return (ascii_decode domain)))
      else if atyp = ATYP_IPV6 then
        socks_bind (readBytes 16) (\<lambda>addr. socks_return (join_text '':'' (ipv6_groups addr)))
      else refuse (buildSocks5Reply REP_ATYP_NOT_SUPPORTED) (UnsupportedAddressType atyp))"

definition readRequest :: "socks5_target socks_action" where
  "readRequest =
     socks_bind (readBytes 4) (\<lambda>header.
       if header ! 0 \<noteq> SOCKS5_VERSION
       then refuse (buildSocks5Reply REP_GENERAL_FAILURE) (InvalidRequestVersion (header ! 0))
       else if header ! 1 \<noteq> CMD_CONNECT
       then refuse (buildSocks5Reply REP_COMMAND_NOT_SUPPORTED) (UnsupportedCommand (header ! 1))
       else
         socks_bind (readAddress (header ! 3)) (\<lambda>addr.
           socks_bind (readBytes 2) (\<lambda>port.
             socks_return \<lparr>destAddr = addr,
               destPort = word_of_nat (256 * unat (port ! 0) + unat (port ! 1))\<rparr>)))"

definition handleSocks5Handshake :: "socks5_target socks_action" where
  "handleSocks5Handshake =
     socks_bind (readBytes 2) (\<lambda>header.
       if header ! 0 \<noteq> SOCKS5_VERSION
       then refuse (buildGreetingReply AUTH_NO_ACCEPTABLE) (InvalidVersion (header ! 0))
       else if header ! 1 = 0
       then refuse (buildGreetingReply AUTH_NO_ACCEPTABLE) NoMethods
       else
         socks_bind (readBytes (unat (header ! 1))) (\<lambda>methods.
           if AUTH_NO_AUTH \<notin> set methods
           then refuse (buildGreetingReply AUTH_NO_ACCEPTABLE) NoAcceptableMethod
           else
             socks_bind (socket_write (buildGreetingReply AUTH_NO_AUTH)) (\<lambda>_. readRequest)))"

definition sendSocks5Success :: "socks_socket \<Rightarrow> socks_socket" where
  "sendSocks5Success s = socket_put (buildSocks5Reply REP_SUCCESS) s"

definition sendSocks5Failure :: "socks_socket \<Rightarrow> socks_socket" where
  "sendSocks5Failure s = socket_finish (buildSocks5Reply REP_GENERAL_FAILURE) s"

text \<open>What \<open>handleDynamicSocket\<close> of \<open>src/src/services/tunnel/tunnelManager.ts\<close> sends when the handshake
  has thrown: nothing when the client went away, the failure reply otherwise.\<close>

definition answer_failure :: "socks_error \<Rightarrow> socks_socket \<Rightarrow> socks_socket" where
  "answer_failure e s = (if e = HandshakeAborted then s else sendSocks5Failure s)"

section \<open>Reads see the stream, not its chunks\<close>

lemma onData_spec:
  "length buf < count \<Longrightarrow>
    (count \<le> length (buf @ concat chunks) \<longrightarrow>
       (\<exists>rest. onData count buf chunks = Some (take count (buf @ concat chunks), rest)
          \<and> concat rest = drop count (buf @ concat chunks)))
    \<and> (length (buf @ concat chunks) < count \<longrightarrow> onData count buf chunks = None)"
proof (induction count buf chunks rule: onData.induct)
  case (2 count buf chunk chunks)
  show ?case
  proof (cases "count \<le> length (buf @ chunk)")
    case True
    then show ?thesis by (auto simp: Let_def)
  next
    case False
    then show ?thesis using "2.IH" [OF refl False] by (simp add: Let_def)
  qed
qed simp

definition same_stream :: "socks_socket \<Rightarrow> socks_socket \<Rightarrow> bool" where
  "same_stream s t \<longleftrightarrow>
     concat (incoming s) = concat (incoming t) \<and> incoming_end s = incoming_end t
     \<and> written s = written t \<and> sending_ended s = sending_ended t
     \<and> write_after_end s = write_after_end t"

definition chunk_blind :: "'a socks_action \<Rightarrow> bool" where
  "chunk_blind m \<longleftrightarrow>
     (\<forall>s t. same_stream s t \<longrightarrow> snd (m s) = snd (m t) \<and> same_stream (fst (m s)) (fst (m t)))"

lemma readBytes_enough:
  assumes "0 < count" "count \<le> length (concat (incoming s))"
  shows "\<exists>rest. readBytes count s = (s\<lparr>incoming := rest\<rparr>, Inr (take count (concat (incoming s))))
    \<and> concat rest = drop count (concat (incoming s))"
  using onData_spec [of "[]" count "incoming s"] assms by (auto simp: readBytes_def)

lemma readBytes_short:
  "0 < count \<Longrightarrow> length (concat (incoming s)) < count \<Longrightarrow>
    readBytes count s = (s\<lparr>incoming := []\<rparr>, Inl (end_error (incoming_end s)))"
  using onData_spec [of "[]" count "incoming s"] by (simp add: readBytes_def)

lemma blind_readBytes: "0 < count \<Longrightarrow> chunk_blind (readBytes count)"
  unfolding chunk_blind_def
proof (intro allI impI)
  fix s t assume c: "0 < count" and st: "same_stream s t"
  show "snd (readBytes count s) = snd (readBytes count t) \<and> same_stream (fst (readBytes count s)) (fst (readBytes count t))"
  proof (cases "count \<le> length (concat (incoming s))")
    case True
    then have "count \<le> length (concat (incoming t))" using st by (simp add: same_stream_def)
    then show ?thesis
      using readBytes_enough [OF c True] readBytes_enough [OF c, of t] st by (auto simp: same_stream_def)
  next
    case False
    then show ?thesis
      using readBytes_short [OF c, of s] readBytes_short [OF c, of t] st by (simp add: same_stream_def not_le)
  qed
qed

lemma blind_bind:
  assumes "chunk_blind m" "\<And>x. chunk_blind (f x)"
  shows "chunk_blind (socks_bind m f)"
  unfolding chunk_blind_def
proof (intro allI impI)
  fix s t :: socks_socket assume st: "same_stream s t"
  have 1: "snd (m s) = snd (m t)" "same_stream (fst (m s)) (fst (m t))"
    using assms(1) st by (simp_all add: chunk_blind_def)
  show "snd (socks_bind m f s) = snd (socks_bind m f t) \<and> same_stream (fst (socks_bind m f s)) (fst (socks_bind m f t))"
    using 1 assms(2) unfolding chunk_blind_def socks_bind_def
    by (cases "m s"; cases "m t") (auto split: sum.split)
qed

lemma blind_simple:
  "chunk_blind (socks_return x)" "chunk_blind (socket_write bs)" "chunk_blind (refuse reply e)"
  by (simp_all add: chunk_blind_def same_stream_def socks_return_def socket_write_def refuse_def
      socket_finish_def socket_put_def)

text \<open>A read is followed by what depends on its bytes; the second read has a positive count only
  when the byte it is taken from is not zero, which the code has checked.\<close>

lemma blind_if: "(P \<Longrightarrow> chunk_blind a) \<Longrightarrow> (\<not> P \<Longrightarrow> chunk_blind b) \<Longrightarrow> chunk_blind (if P then a else b)"
  by simp

lemma unat_pos: "(b :: byte) \<noteq> 0 \<Longrightarrow> 0 < unat b"
  by (simp add: unat_gt_0)

lemma blind_readAddress: "chunk_blind (readAddress atyp)"
  unfolding readAddress_def
  by (intro blind_if blind_bind blind_simple blind_readBytes unat_pos) simp_all

lemma blind_readRequest: "chunk_blind readRequest"
  unfolding readRequest_def
  by (intro blind_if blind_bind blind_simple blind_readBytes blind_readAddress) simp_all

lemma blind_handshake: "chunk_blind handleSocks5Handshake"
  unfolding handleSocks5Handshake_def
  by (intro blind_if blind_bind blind_simple blind_readBytes blind_readRequest unat_pos) simp_all

text \<open>
  The outcome of a handshake depends on the bytes the client sends and not on how they are cut
  into chunks: cut differently they give the same target or error, the same replies and the same
  bytes left for the tunnel.
\<close>
theorem handshake_chunking:
  assumes "concat cs = concat ds"
  shows "\<exists>s1 t1 r. handleSocks5Handshake (s\<lparr>incoming := cs\<rparr>) = (s1, r)
    \<and> handleSocks5Handshake (s\<lparr>incoming := ds\<rparr>) = (t1, r)
    \<and> concat (incoming s1) = concat (incoming t1) \<and> written s1 = written t1
    \<and> sending_ended s1 = sending_ended t1"
proof -
  have "same_stream (s\<lparr>incoming := cs\<rparr>) (s\<lparr>incoming := ds\<rparr>)" using assms by (simp add: same_stream_def)
  with blind_handshake have "snd (handleSocks5Handshake (s\<lparr>incoming := cs\<rparr>)) = snd (handleSocks5Handshake (s\<lparr>incoming := ds\<rparr>))"
    "same_stream (fst (handleSocks5Handshake (s\<lparr>incoming := cs\<rparr>))) (fst (handleSocks5Handshake (s\<lparr>incoming := ds\<rparr>)))"
    unfolding chunk_blind_def by blast+
  then show ?thesis
    unfolding same_stream_def by (intro exI conjI) (rule prod.collapse [symmetric], simp, simp_all)
qed

section \<open>What a client gets\<close>

text \<open>A destination as a client encodes it, and its text.\<close>

datatype socks_host = HostIpv4 buffer | HostDomain string | HostIpv6 buffer

fun host_valid :: "socks_host \<Rightarrow> bool" where
  "host_valid (HostIpv4 a) \<longleftrightarrow> length a = 4"
| "host_valid (HostDomain d) \<longleftrightarrow> ascii_text d \<and> 0 < length d \<and> length d < 256"
| "host_valid (HostIpv6 a) \<longleftrightarrow> length a = 16"

fun host_wire :: "socks_host \<Rightarrow> byte \<times> buffer" where
  "host_wire (HostIpv4 a) = (ATYP_IPV4, a)"
| "host_wire (HostDomain d) = (ATYP_DOMAIN, word_of_nat (length d) # ascii_encode d)"
| "host_wire (HostIpv6 a) = (ATYP_IPV6, a)"

fun host_text :: "socks_host \<Rightarrow> string" where
  "host_text (HostIpv4 a) = ipv4_text a"
| "host_text (HostDomain d) = d"
| "host_text (HostIpv6 a) = join_text '':'' (ipv6_groups a)"

definition client_greeting :: "buffer \<Rightarrow> buffer" where
  "client_greeting ms = [SOCKS5_VERSION, word_of_nat (length ms)] @ ms"

definition client_request :: "socks_host \<Rightarrow> u16 \<Rightarrow> buffer" where
  "client_request h port =
     [SOCKS5_VERSION, CMD_CONNECT, 0, fst (host_wire h)] @ snd (host_wire h) @ writeUInt16BE port"

lemma read_prefix:
  assumes "concat (incoming s) = bs @ rest" "bs \<noteq> []"
  obtains cs where "readBytes (length bs) s = (s\<lparr>incoming := cs\<rparr>, Inr bs)" "concat cs = rest"
  using readBytes_enough [of "length bs" s] assms by (auto simp: that)

lemma bind_read:
  assumes "concat (incoming s) = bs @ rest" "bs \<noteq> []" "n = length bs"
  obtains cs where "concat cs = rest" "\<And>f. socks_bind (readBytes n) f s = f bs (s\<lparr>incoming := cs\<rparr>)"
proof -
  obtain cs where "readBytes n s = (s\<lparr>incoming := cs\<rparr>, Inr bs)" "concat cs = rest"
    using read_prefix [OF assms(1,2)] assms(3) by blast
  then show thesis by (intro that [of cs]) (simp_all add: socks_bind_def)
qed

lemma unat_length: "n < 256 \<Longrightarrow> unat (word_of_nat n :: byte) = n"
  by (rule unat_byte_of_nat)

lemma length_byte_nonzero: "0 < n \<Longrightarrow> n < 256 \<Longrightarrow> (word_of_nat n :: byte) \<noteq> 0"
  by (metis unat_length unat_0 less_irrefl)

lemma readAddress_host:
  assumes "host_valid h" "concat (incoming s) = snd (host_wire h) @ rest"
  obtains cs where "readAddress (fst (host_wire h)) s = (s\<lparr>incoming := cs\<rparr>, Inr (host_text h))" "concat cs = rest"
proof (cases h)
  case (HostIpv4 a)
  then have "concat (incoming s) = a @ rest" "a \<noteq> []" "4 = length a" using assms by auto
  then obtain cs where "concat cs = rest"
    "\<And>f :: buffer \<Rightarrow> string socks_action. socks_bind (readBytes 4) f s = f a (s\<lparr>incoming := cs\<rparr>)"
    using bind_read [of s a rest 4] by blast
  then show thesis using HostIpv4 by (intro that [of cs]) (simp_all add: readAddress_def socks_return_def)
next
  case (HostIpv6 a)
  then have "concat (incoming s) = a @ rest" "a \<noteq> []" "16 = length a" using assms by auto
  then obtain cs where "concat cs = rest"
    "\<And>f :: buffer \<Rightarrow> string socks_action. socks_bind (readBytes 16) f s = f a (s\<lparr>incoming := cs\<rparr>)"
    using bind_read [of s a rest 16] by blast
  then show thesis using HostIpv6 by (intro that [of cs]) (simp_all add: readAddress_def socks_return_def socks_consts)
next
  case (HostDomain d)
  let ?n = "word_of_nat (length d) :: byte"
  have d: "ascii_text d" "0 < length d" "length d < 256" using assms(1) HostDomain by simp_all
  have "concat (incoming s) = [?n] @ (ascii_encode d @ rest)" using assms(2) HostDomain by simp
  then obtain cs where 1: "concat cs = ascii_encode d @ rest"
    "\<And>f :: buffer \<Rightarrow> string socks_action. socks_bind (readBytes 1) f s = f [?n] (s\<lparr>incoming := cs\<rparr>)"
    using bind_read [of s "[?n]" _ 1] by auto
  have "length (ascii_encode d) = unat ?n" "ascii_encode d \<noteq> []" using d by (auto simp: ascii_encode_def unat_length)
  then obtain ds where 2: "concat ds = rest"
    "\<And>f :: buffer \<Rightarrow> string socks_action. socks_bind (readBytes (unat ?n)) f (s\<lparr>incoming := cs\<rparr>) = f (ascii_encode d) (s\<lparr>incoming := ds\<rparr>)"
    using bind_read [of "s\<lparr>incoming := cs\<rparr>" "ascii_encode d" rest "unat ?n"] 1(1) by auto
  show thesis
    using 1(2) 2 HostDomain d length_byte_nonzero [OF d(2,3)]
    by (intro that [of ds]) (simp_all add: readAddress_def socks_return_def socks_consts)
qed

lemma port_read: "word_of_nat (256 * unat (writeUInt16BE p ! 0) + unat (writeUInt16BE p ! 1)) = p"
  using readUInt16BE_write_only [of p] by (cases "writeUInt16BE p" rule: readUInt16BE.cases) auto

lemma readRequest_client:
  assumes "host_valid h" "concat (incoming s) = client_request h port @ rest"
  shows "\<exists>cs. readRequest s = (s\<lparr>incoming := cs\<rparr>, Inr \<lparr>destAddr = host_text h, destPort = port\<rparr>) \<and> concat cs = rest"
proof -
  let ?h = "[SOCKS5_VERSION, CMD_CONNECT, 0, fst (host_wire h)]"
  obtain cs where 1: "concat cs = snd (host_wire h) @ (writeUInt16BE port @ rest)"
    "\<And>f :: buffer \<Rightarrow> socks5_target socks_action. socks_bind (readBytes 4) f s = f ?h (s\<lparr>incoming := cs\<rparr>)"
    using bind_read [of s ?h _ 4] assms(2) by (auto simp: client_request_def)
  obtain ds where 2: "readAddress (fst (host_wire h)) (s\<lparr>incoming := cs\<rparr>) = (s\<lparr>incoming := ds\<rparr>, Inr (host_text h))"
    "concat ds = writeUInt16BE port @ rest"
    using readAddress_host [OF assms(1), of "s\<lparr>incoming := cs\<rparr>"] 1(1) by auto
  have "writeUInt16BE port \<noteq> []" "length (writeUInt16BE port) = 2" by (simp_all add: writeUInt16BE_def)
  then obtain es where 3: "concat es = rest"
    "\<And>f :: buffer \<Rightarrow> socks5_target socks_action.
       socks_bind (readBytes 2) f (s\<lparr>incoming := ds\<rparr>) = f (writeUInt16BE port) (s\<lparr>incoming := es\<rparr>)"
    using bind_read [of "s\<lparr>incoming := ds\<rparr>" "writeUInt16BE port" rest 2] 2(2) by auto
  have "readRequest s = (s\<lparr>incoming := es\<rparr>, Inr \<lparr>destAddr = host_text h, destPort = port\<rparr>)"
    unfolding readRequest_def 1(2)
    by (simp add: socks_bind_def [of "readAddress _"] 2(1) 3(2) socks_return_def port_read [simplified])
  then show ?thesis using 3(1) by blast
qed

text \<open>
  C17. A client that offers to go without authentication and asks for any IPv4 or IPv6 address or ASCII
  name reaches exactly this destination: the handshake gives its text and port, has answered the
  greeting and nothing else, and leaves the bytes after the request for the tunnel, however all of
  it was cut into chunks.
\<close>
theorem handshake_round_trip:
  assumes "host_valid h" "0 < length ms" "length ms < 256" "AUTH_NO_AUTH \<in> set ms" "\<not> sending_ended s"
    "concat (incoming s) = client_greeting ms @ client_request h port @ rest"
  shows "\<exists>s1. handleSocks5Handshake s = (s1, Inr \<lparr>destAddr = host_text h, destPort = port\<rparr>)
    \<and> concat (incoming s1) = rest \<and> written s1 = written s @ [5, 0] \<and> \<not> sending_ended s1"
proof -
  let ?n = "word_of_nat (length ms) :: byte"
  obtain cs where 1: "concat cs = ms @ (client_request h port @ rest)"
    "\<And>f :: buffer \<Rightarrow> socks5_target socks_action. socks_bind (readBytes 2) f s = f [SOCKS5_VERSION, ?n] (s\<lparr>incoming := cs\<rparr>)"
    using bind_read [of s "[SOCKS5_VERSION, ?n]" _ 2] assms(6) by (auto simp: client_greeting_def)
  have "length ms = unat ?n" "ms \<noteq> []" using assms(2,3) by (auto simp: unat_length)
  then obtain ds where 2: "concat ds = client_request h port @ rest"
    "\<And>f :: buffer \<Rightarrow> socks5_target socks_action.
       socks_bind (readBytes (unat ?n)) f (s\<lparr>incoming := cs\<rparr>) = f ms (s\<lparr>incoming := ds\<rparr>)"
    using bind_read [of "s\<lparr>incoming := cs\<rparr>" ms _ "unat ?n"] 1(1) by auto
  let ?t = "s\<lparr>incoming := ds, written := written s @ [5, 0]\<rparr>"
  obtain es where 3: "readRequest ?t = (?t\<lparr>incoming := es\<rparr>, Inr \<lparr>destAddr = host_text h, destPort = port\<rparr>)" "concat es = rest"
    using readRequest_client [OF assms(1), of ?t port rest] 2(1) by auto
  have "handleSocks5Handshake s = readRequest ?t"
    unfolding handleSocks5Handshake_def 1(2)
    using assms(4,5) length_byte_nonzero [OF assms(2,3)]
    by (simp add: 2(2)) (simp add: socks_bind_def socket_write_def socket_put_def buildGreetingReply_def socks_consts)
  then show ?thesis using 3 assms(5) by simp
qed

definition handshake_example :: socks_socket where
  "handshake_example =
     \<lparr>incoming = [[5], [1, 0, 5, 1, 0, 3, 2, 104], [105, 1, 187, 22]], incoming_end = Silent, written = [],
      sending_ended = False, write_after_end = False\<rparr>"

theorem handshake_round_trip_witness:
  "snd (handleSocks5Handshake handshake_example) = Inr \<lparr>destAddr = ''hi'', destPort = 443\<rparr>
    \<and> concat (incoming (fst (handleSocks5Handshake handshake_example))) = [22]"
proof -
  have "host_valid (HostDomain ''hi'')" "AUTH_NO_AUTH \<in> set [0]" "\<not> sending_ended handshake_example"
    "concat (incoming handshake_example) = client_greeting [0] @ client_request (HostDomain ''hi'') 443 @ [22]"
    by code_simp+
  from handshake_round_trip [OF this(1) _ _ this(2,3,4)] show ?thesis by auto
qed

theorem handshake_chunking_witness:
  "snd (handleSocks5Handshake handshake_example) =
    snd (handleSocks5Handshake (handshake_example\<lparr>incoming := [concat (incoming handshake_example)]\<rparr>))"
  using handshake_chunking [of "incoming handshake_example" "[concat (incoming handshake_example)]" handshake_example]
  by auto

section \<open>Replies\<close>

definition transport_error :: "socks_error \<Rightarrow> bool" where
  "transport_error e \<longleftrightarrow> e = HandshakeAborted \<or> e = HandshakeTimedOut \<or> (\<exists>m. e = SocketError m)"

text \<open>
  What an action may do to the sending side: it succeeds after writing \<open>ok\<close>; it ends with a failure of
  the transport, having written one of \<open>part\<close>; or it refuses, with one of \<open>no\<close> as the last word.
\<close>

definition answers :: "buffer \<Rightarrow> buffer set \<Rightarrow> buffer set \<Rightarrow> 'a socks_action \<Rightarrow> bool" where
  "answers ok part no m \<longleftrightarrow>
     (\<forall>s. \<not> sending_ended s \<longrightarrow>
        write_after_end (fst (m s)) = write_after_end s
        \<and> (case snd (m s) of
             Inr x \<Rightarrow> written (fst (m s)) = written s @ ok \<and> \<not> sending_ended (fst (m s))
           | Inl e \<Rightarrow>
               (if transport_error e
                then (\<exists>bs \<in> part. written (fst (m s)) = written s @ bs) \<and> \<not> sending_ended (fst (m s))
                else (\<exists>bs \<in> no. written (fst (m s)) = written s @ bs) \<and> sending_ended (fst (m s)))))"

lemma answers_readBytes: "answers [] {[]} no (readBytes n)"
  by (auto simp: answers_def readBytes_def transport_error_def end_error_def split: option.splits socket_end.splits)

lemma answers_return: "answers [] part no (socks_return x)"
  by (simp add: answers_def socks_return_def)

lemma answers_write: "answers bs part no (socket_write bs)"
  by (simp add: answers_def socket_write_def socket_put_def)

lemma answers_refuse: "\<not> transport_error e \<Longrightarrow> reply \<in> no \<Longrightarrow> answers ok part no (refuse reply e)"
  by (auto simp: answers_def refuse_def socket_finish_def socket_put_def)

lemma answers_bind:
  assumes "answers ok part no m" "\<And>x. answers ok' part' no' (f x)"
    "part \<subseteq> P" "(@) ok ` part' \<subseteq> P" "no \<subseteq> N" "(@) ok ` no' \<subseteq> N"
  shows "answers (ok @ ok') P N (socks_bind m f)"
  unfolding answers_def
proof (intro allI impI)
  fix s :: socks_socket assume s: "\<not> sending_ended s"
  obtain s1 r where m: "m s = (s1, r)" by fastforce
  note 1 = assms(1) [unfolded answers_def, rule_format, OF s, unfolded m fst_conv snd_conv]
  show "write_after_end (fst (socks_bind m f s)) = write_after_end s
    \<and> (case snd (socks_bind m f s) of
         Inr x \<Rightarrow> written (fst (socks_bind m f s)) = written s @ ok @ ok' \<and> \<not> sending_ended (fst (socks_bind m f s))
       | Inl e \<Rightarrow>
           (if transport_error e
            then (\<exists>bs \<in> P. written (fst (socks_bind m f s)) = written s @ bs) \<and> \<not> sending_ended (fst (socks_bind m f s))
            else (\<exists>bs \<in> N. written (fst (socks_bind m f s)) = written s @ bs) \<and> sending_ended (fst (socks_bind m f s))))"
  proof (cases r)
    case (Inl e)
    then show ?thesis using 1 subsetD [OF assms(3)] subsetD [OF assms(5)] m by (auto simp: socks_bind_def)
  next
    case (Inr x)
    then have s1: "\<not> sending_ended s1" "written s1 = written s @ ok" "write_after_end s1 = write_after_end s" using 1 by auto
    have b: "socks_bind m f s = f x s1" using Inr m by (simp add: socks_bind_def)
    note 2 = assms(2) [of x, unfolded answers_def, rule_format, OF s1(1)]
    show ?thesis
    proof (cases "snd (f x s1)")
      case (Inr y)
      then show ?thesis using 2 s1 b by simp
    next
      case (Inl e)
      show ?thesis
      proof (cases "transport_error e")
        case True
        then obtain bs where bs: "bs \<in> part'" "written (fst (f x s1)) = written s1 @ bs" "\<not> sending_ended (fst (f x s1))"
          using 2 Inl by auto
        then have "ok @ bs \<in> P" using assms(4) by blast
        then show ?thesis using bs 2 Inl True s1 b by (auto intro: bexI [of _ "ok @ bs"])
      next
        case False
        then obtain bs where bs: "bs \<in> no'" "written (fst (f x s1)) = written s1 @ bs" "sending_ended (fst (f x s1))"
          using 2 Inl by auto
        then have "ok @ bs \<in> N" using assms(6) by blast
        then show ?thesis using bs 2 Inl False s1 b by (auto intro: bexI [of _ "ok @ bs"])
      qed
    qed
  qed
qed

text \<open>After a read nothing has been written.\<close>

lemma answers_after_read:
  assumes "\<And>x. answers ok part no (f x)" "[] \<in> part"
  shows "answers ok part no (socks_bind (readBytes n) f)"
  using answers_bind [OF answers_readBytes [of no], of ok part no f part no n] assms by simp

lemma answers_if: "(P \<Longrightarrow> answers ok part no a) \<Longrightarrow> (\<not> P \<Longrightarrow> answers ok part no b) \<Longrightarrow> answers ok part no (if P then a else b)"
  by simp

definition failure_replies :: "buffer set" where
  "failure_replies = buildSocks5Reply ` {REP_GENERAL_FAILURE, REP_COMMAND_NOT_SUPPORTED, REP_ATYP_NOT_SUPPORTED}"

lemma answers_readAddress: "answers [] {[]} failure_replies (readAddress atyp)"
  unfolding readAddress_def
  by (intro answers_if answers_after_read answers_return answers_refuse)
    (auto simp: failure_replies_def transport_error_def)

lemma answers_readRequest: "answers [] {[]} failure_replies readRequest"
  unfolding readRequest_def
  by (intro answers_if answers_after_read answers_refuse
      answers_bind [OF answers_readAddress, where ok' = "[]" and part' = "{[]}" and no' = failure_replies, simplified]
      answers_return)
    (auto simp: failure_replies_def transport_error_def)

lemma answers_handshake:
  "answers [5, 0] {[], [5, 0]} (insert [5, 255] ((@) [5, 0] ` failure_replies)) handleSocks5Handshake"
proof -
  let ?no = "insert [5, 255] ((@) [5, 0] ` failure_replies)"
  have g: "buildGreetingReply AUTH_NO_AUTH = [5, 0]" "buildGreetingReply AUTH_NO_ACCEPTABLE = [5, 255]"
    by (simp_all add: buildGreetingReply_def socks_consts)
  have "answers ([5, 0] @ []) {[], [5, 0]} ?no (socks_bind (socket_write (buildGreetingReply AUTH_NO_AUTH)) (\<lambda>_. readRequest))"
    unfolding g by (rule answers_bind [OF answers_write [of _ "{}" "{}"] answers_readRequest]) auto
  then show ?thesis
    unfolding handleSocks5Handshake_def
    by (intro answers_if answers_after_read answers_refuse) (simp_all add: g transport_error_def)
qed

text \<open>
  The client is told the truth: a handshake that gives a target has answered the greeting and left
  the reply to the request open; one that fails for the transport has ended nothing; every other
  failure has ended the connection with a refusal, and nothing is written after the end.
\<close>
theorem handshake_answers:
  assumes "\<not> sending_ended s" "handleSocks5Handshake s = (s1, r)"
  shows "write_after_end s1 = write_after_end s
    \<and> (case r of
         Inr t \<Rightarrow> written s1 = written s @ [5, 0] \<and> \<not> sending_ended s1
       | Inl e \<Rightarrow>
           (if transport_error e
            then (written s1 = written s \<or> written s1 = written s @ [5, 0]) \<and> \<not> sending_ended s1
            else (written s1 = written s @ [5, 255] \<or> (\<exists>rep \<noteq> REP_SUCCESS. written s1 = written s @ [5, 0] @ buildSocks5Reply rep))
                 \<and> sending_ended s1))"
proof -
  have n: "\<exists>rep \<noteq> REP_SUCCESS. bs = buildSocks5Reply rep" if b: "bs \<in> failure_replies" for bs
  proof -
    obtain rep where "rep \<in> {REP_GENERAL_FAILURE, REP_COMMAND_NOT_SUPPORTED, REP_ATYP_NOT_SUPPORTED}" "bs = buildSocks5Reply rep"
      using b by (auto simp: failure_replies_def)
    moreover from this(1) have "rep \<noteq> REP_SUCCESS" by (auto simp: socks_consts)
    ultimately show ?thesis by blast
  qed
  note h = answers_handshake [unfolded answers_def, rule_format, OF assms(1), unfolded assms(2) fst_conv snd_conv]
  show ?thesis
  proof (cases r)
    case (Inr t)
    then show ?thesis using h by simp
  next
    case (Inl e)
    show ?thesis
    proof (cases "transport_error e")
      case True
      then show ?thesis using h Inl by auto
    next
      case False
      then have "written s1 = written s @ [5, 255] \<or> (\<exists>bs \<in> failure_replies. written s1 = written s @ [5, 0] @ bs)"
        "sending_ended s1" "write_after_end s1 = write_after_end s" using h Inl by auto
      then show ?thesis using False Inl n by fastforce
    qed
  qed
qed

theorem handshake_answers_witness: "written (fst (handleSocks5Handshake handshake_example)) = [5, 0]"
proof -
  have e: "\<not> sending_ended handshake_example" "written handshake_example = []" by code_simp+
  obtain s1 r where h: "handleSocks5Handshake handshake_example = (s1, r)" by fastforce
  have "snd (handleSocks5Handshake handshake_example) = Inr \<lparr>destAddr = ''hi'', destPort = 443\<rparr>" by code_simp
  then have "r = Inr \<lparr>destAddr = ''hi'', destPort = 443\<rparr>" by (simp add: h)
  then show ?thesis using handshake_answers [OF e(1) h] e(2) h by simp
qed

text \<open>
  A handshake refused for its content has already ended the sending side, and the failure reply
  the tunnel then sends is written after the end: the client does not get it and the socket, which has no
  listener for errors any more, reports an error.
\<close>
theorem refusal_answered_twice:
  assumes "\<not> sending_ended s" "handleSocks5Handshake s = (s1, Inl e)" "\<not> transport_error e"
  shows "write_after_end (answer_failure e s1) \<and> written (answer_failure e s1) = written s1"
proof -
  have "e \<noteq> HandshakeAborted" using assms(3) by (auto simp: transport_error_def)
  moreover have "sending_ended s1"
    using answers_handshake [unfolded answers_def, rule_format, OF assms(1)] assms(2,3) by simp
  ultimately show ?thesis by (simp add: answer_failure_def sendSocks5Failure_def socket_finish_def socket_put_def)
qed

theorem refusal_answered_twice_witness:
  "let s = handshake_example\<lparr>incoming := [[4, 1]]\<rparr> in
     write_after_end (answer_failure (InvalidVersion 4) (fst (handleSocks5Handshake s)))"
proof -
  let ?s = "handshake_example\<lparr>incoming := [[4, 1]]\<rparr>"
  have "snd (handleSocks5Handshake ?s) = Inl (InvalidVersion 4)" by code_simp
  then have h: "handleSocks5Handshake ?s = (fst (handleSocks5Handshake ?s), Inl (InvalidVersion 4))"
    by (metis prod.collapse)
  have "\<not> sending_ended ?s" by code_simp
  from refusal_answered_twice [OF this h] show ?thesis by (simp add: transport_error_def Let_def)
qed

end
