(* ===== verification/Line_Writer.thy ===== *)
theory Line_Writer
  imports Js_Strings
begin

text \<open>
  The writers of the daemon: \<open>src/src/services/networkServers/boundedJsonLineWriter.ts\<close>. The
  stream may do anything during a call of \<open>stream.write\<close> (call back, emit events, write again)
  before it returns: the calls that have not returned are the stack \<open>frames\<close> of their epochs, and
  what the code does after the return is a step of its own, \<open>write_returned\<close> or \<open>write_threw\<close>.
  Payloads are the UTF-8 bytes of the text; what \<open>JSON.stringify\<close> gives is part of the value.
\<close>

section \<open>Values\<close>

datatype id_property = NoId | IntegerId int | OtherId

datatype stringified = JsonText buffer | NotSerializable | StringifyThrows

record rpc_value =
  plain_object :: bool
  own_id :: id_property
  json :: stringified

definition MAX_SAFE_INTEGER :: int where "MAX_SAFE_INTEGER = 9007199254740991"

definition isSafeInteger :: "int \<Rightarrow> bool" where
  "isSafeInteger n \<longleftrightarrow> - MAX_SAFE_INTEGER \<le> n \<and> n \<le> MAX_SAFE_INTEGER"

definition correlatedResponseId :: "rpc_value \<Rightarrow> nat option" where
  "correlatedResponseId v =
     (if \<not> plain_object v then None
      else case own_id v of
             IntegerId n \<Rightarrow> (if isSafeInteger n \<and> 0 \<le> n then Some (nat n) else None)
           | _ \<Rightarrow> None)"

definition bytes_of_text :: "string \<Rightarrow> buffer" where
  "bytes_of_text s = map byte_of_char s"

text \<open>\<open>JSON.stringify({ id, error: RESPONSE_TOO_LARGE })\<close>.\<close>

definition quote_char :: char where "quote_char = CHR 0x22"

definition quoted :: "string \<Rightarrow> string" where
  "quoted s = quote_char # s @ [quote_char]"

definition too_large_response :: "nat \<Rightarrow> buffer" where
  "too_large_response n =
     bytes_of_text
       (''{'' @ quoted ''id'' @ '':'' @ show_nat n @ '','' @ quoted ''error'' @ '':{'' @ quoted ''code'' @ '':''
        @ quoted ''RESPONSE_TOO_LARGE'' @ '','' @ quoted ''message'' @ '':''
        @ quoted ''Daemon response exceeds the RPC line limit.'' @ ''}}'')"

section \<open>State\<close>

text \<open>\<open>written\<close> are the lines passed to \<open>stream.write\<close>, each as its payload and a newline.\<close>

datatype notification_drop = NotificationTooLarge | NotificationBackpressured | NotificationUnserializable

datatype terminal_reason =
    FallbackTooLarge | QueueExceeded | WriteFailed | WriteThrew | StreamError | StreamClosed

record pending_line =
  payload :: buffer
  line_bytes :: nat
  is_response :: bool

definition wire_line :: "pending_line \<Rightarrow> buffer" where
  "wire_line line = payload line @ [10]"

record json_writer =
  w_active :: bool
  writing :: bool
  waitingForDrain :: bool
  writeCallbackDone :: bool
  writeEpoch :: nat
  queued :: "pending_line list"
  queuedBytes :: nat
  drainListeners :: nat
  frames :: "nat list"
  written :: "pending_line list"
  droppedNotifications :: "notification_drop list"
  terminals :: "terminal_reason list"

definition MAX_WRITE_LINE_BYTES :: nat where "MAX_WRITE_LINE_BYTES = 1048576"
definition MAX_QUEUED_OUTPUT_BYTES :: nat where "MAX_QUEUED_OUTPUT_BYTES = MAX_WRITE_LINE_BYTES * 4"
definition MAX_QUEUED_OUTPUT_LINES :: nat where "MAX_QUEUED_OUTPUT_LINES = 16"

definition new_json_writer :: json_writer where
  "new_json_writer =
     \<lparr>w_active = True, writing = False, waitingForDrain = False, writeCallbackDone = False, writeEpoch = 0,
      queued = [], queuedBytes = 0, drainListeners = 0, frames = [], written = [],
      droppedNotifications = [], terminals = []\<rparr>"

definition writer_terminal :: "terminal_reason \<Rightarrow> json_writer \<Rightarrow> json_writer" where
  "writer_terminal reason w =
     (if \<not> w_active w then w
      else w\<lparr>w_active := False, writeEpoch := writeEpoch w + 1, writing := False, waitingForDrain := False,
             writeCallbackDone := False, queued := [], queuedBytes := 0, drainListeners := drainListeners w - 1,
             terminals := terminals w @ [reason]\<rparr>)"

definition dropNotification :: "notification_drop \<Rightarrow> json_writer \<Rightarrow> json_writer" where
  "dropNotification reason w = w\<lparr>droppedNotifications := droppedNotifications w @ [reason]\<rparr>"

definition isCurrentWrite :: "nat \<Rightarrow> json_writer \<Rightarrow> bool" where
  "isCurrentWrite epoch w \<longleftrightarrow> w_active w \<and> writing w \<and> writeEpoch w = epoch"

section \<open>Serialisation\<close>

text \<open>The text of a value, before its size is looked at: \<open>None\<close> where the notification is dropped.\<close>

definition payload_of :: "rpc_value \<Rightarrow> buffer option" where
  "payload_of v =
     (case json v of
        JsonText bs \<Rightarrow> Some bs
      | _ \<Rightarrow> map_option too_large_response (correlatedResponseId v))"

definition serialize :: "rpc_value \<Rightarrow> json_writer \<Rightarrow> pending_line option \<times> json_writer" where
  "serialize v w =
     (case payload_of v of
        None \<Rightarrow> (None, dropNotification NotificationUnserializable w)
      | Some first \<Rightarrow>
          (let fits = length first \<le> MAX_WRITE_LINE_BYTES
           in case (fits, correlatedResponseId v) of
                (False, None) \<Rightarrow> (None, dropNotification NotificationTooLarge w)
              | (_, responseId) \<Rightarrow>
                  (let text = (if fits then first else too_large_response (the responseId))
                   in if MAX_WRITE_LINE_BYTES < length text then (None, writer_terminal FallbackTooLarge w)
                      else (Some \<lparr>payload = text, line_bytes = length text, is_response = responseId \<noteq> None\<rparr>, w))))"

section \<open>Writing\<close>

text \<open>\<open>startWrite\<close> up to the call of \<open>stream.write\<close>; the call is open until it returns.\<close>

definition startWrite :: "pending_line \<Rightarrow> json_writer \<Rightarrow> json_writer" where
  "startWrite line w =
     (if \<not> w_active w then w
      else w\<lparr>writeEpoch := writeEpoch w + 1, writing := True, waitingForDrain := False,
             writeCallbackDone := False, frames := (writeEpoch w + 1) # frames w,
             written := written w @ [line]\<rparr>)"

definition finishWriteIfReady :: "json_writer \<Rightarrow> json_writer" where
  "finishWriteIfReady w =
     (if \<not> w_active w \<or> \<not> writing w \<or> \<not> writeCallbackDone w \<or> waitingForDrain w then w
      else case queued w of
             [] \<Rightarrow> w\<lparr>writing := False\<rparr>
           | next # rest \<Rightarrow>
               startWrite next (w\<lparr>writing := False, queued := rest, queuedBytes := queuedBytes w - line_bytes next\<rparr>))"

definition writer_onDrain :: "json_writer \<Rightarrow> json_writer" where
  "writer_onDrain w = finishWriteIfReady (w\<lparr>waitingForDrain := False\<rparr>)"

definition writer_write :: "rpc_value \<Rightarrow> json_writer \<Rightarrow> json_writer" where
  "writer_write v w =
     (if \<not> w_active w then w
      else case serialize v w of
             (None, w') \<Rightarrow> w'
           | (Some line, w') \<Rightarrow>
               (if writing w'
                then (if length (queued w') < MAX_QUEUED_OUTPUT_LINES
                         \<and> queuedBytes w' + line_bytes line \<le> MAX_QUEUED_OUTPUT_BYTES
                      then w'\<lparr>queued := queued w' @ [line], queuedBytes := queuedBytes w' + line_bytes line\<rparr>
                      else if is_response line then writer_terminal QueueExceeded w'
                      else dropNotification NotificationBackpressured w')
                else startWrite line w'))"

text \<open>The callback of the write with that epoch, and the two ways its call ends.\<close>

definition write_callback :: "nat \<Rightarrow> bool \<Rightarrow> json_writer \<Rightarrow> json_writer" where
  "write_callback epoch failed w =
     (if \<not> isCurrentWrite epoch w then w
      else if failed then writer_terminal WriteFailed w
      else finishWriteIfReady (w\<lparr>writeCallbackDone := True\<rparr>))"

definition write_returned :: "bool \<Rightarrow> json_writer \<Rightarrow> json_writer" where
  "write_returned accepted w =
     (case frames w of
        [] \<Rightarrow> w
      | epoch # rest \<Rightarrow>
          (let w' = w\<lparr>frames := rest\<rparr>
           in if \<not> accepted \<and> isCurrentWrite epoch w'
              then w'\<lparr>waitingForDrain := True, drainListeners := drainListeners w' + 1\<rparr> else w'))"

definition write_threw :: "json_writer \<Rightarrow> json_writer" where
  "write_threw w =
     (case frames w of [] \<Rightarrow> w | epoch # rest \<Rightarrow> writer_terminal WriteThrew (w\<lparr>frames := rest\<rparr>))"

text \<open>The event \<open>drain\<close>: listeners registered with \<open>once\<close> are removed and called.\<close>

definition drain_event :: "json_writer \<Rightarrow> json_writer" where
  "drain_event w = (writer_onDrain ^^ drainListeners w) (w\<lparr>drainListeners := 0\<rparr>)"

datatype writer_event =
    Write rpc_value | Callback nat bool | Returned bool | Threw | Drain | ErrorEvent | CloseEvent

fun apply_event :: "writer_event \<Rightarrow> json_writer \<Rightarrow> json_writer" where
  "apply_event (Write v) w = writer_write v w"
| "apply_event (Callback epoch failed) w = write_callback epoch failed w"
| "apply_event (Returned accepted) w = write_returned accepted w"
| "apply_event Threw w = write_threw w"
| "apply_event Drain w = drain_event w"
| "apply_event ErrorEvent w = writer_terminal StreamError w"
| "apply_event CloseEvent w = writer_terminal StreamClosed w"

definition writer_run :: "writer_event list \<Rightarrow> json_writer" where
  "writer_run evs = foldl (\<lambda>w ev. apply_event ev w) new_json_writer evs"

section \<open>Diagnostics\<close>

record diagnostic_writer =
  d_active :: bool
  inFlight :: bool
  d_waitingForDrain :: bool
  d_callbackDone :: bool
  d_epoch :: nat
  d_listeners :: nat
  d_frames :: "nat list"
  d_written :: "buffer list"

definition MAX_DAEMON_DIAGNOSTIC_BYTES :: nat where "MAX_DAEMON_DIAGNOSTIC_BYTES = 512"

definition new_diagnostic_writer :: diagnostic_writer where
  "new_diagnostic_writer =
     \<lparr>d_active = True, inFlight = False, d_waitingForDrain = False, d_callbackDone = False, d_epoch = 0,
      d_listeners = 0, d_frames = [], d_written = []\<rparr>"

fun truncate_loop :: "nat \<Rightarrow> nat \<Rightarrow> nat list \<Rightarrow> nat list" where
  "truncate_loop maxBytes used [] = []"
| "truncate_loop maxBytes used (c # cs) =
     (if maxBytes < used + length (utf8_bytes c) then []
      else c # truncate_loop maxBytes (used + length (utf8_bytes c)) cs)"

definition truncate :: "nat list \<Rightarrow> nat \<Rightarrow> nat list" where
  "truncate cs maxBytes = truncate_loop maxBytes 0 cs"

definition d_current :: "nat \<Rightarrow> diagnostic_writer \<Rightarrow> bool" where
  "d_current epoch d \<longleftrightarrow> d_active d \<and> inFlight d \<and> d_epoch d = epoch"

definition d_terminal :: "diagnostic_writer \<Rightarrow> diagnostic_writer" where
  "d_terminal d =
     (if \<not> d_active d then d
      else d\<lparr>d_active := False, d_epoch := d_epoch d + 1, inFlight := False, d_waitingForDrain := False,
             d_callbackDone := False, d_listeners := 0\<rparr>)"

definition d_finish :: "diagnostic_writer \<Rightarrow> diagnostic_writer" where
  "d_finish d =
     (if \<not> d_active d \<or> \<not> inFlight d \<or> \<not> d_callbackDone d \<or> d_waitingForDrain d then d
      else d\<lparr>inFlight := False\<rparr>)"

definition d_write :: "nat list \<Rightarrow> diagnostic_writer \<Rightarrow> diagnostic_writer" where
  "d_write message d =
     (if \<not> d_active d \<or> inFlight d then d
      else d\<lparr>d_epoch := d_epoch d + 1, inFlight := True, d_waitingForDrain := False, d_callbackDone := False,
             d_frames := (d_epoch d + 1) # d_frames d,
             d_written := d_written d
               @ [concat (map utf8_bytes (truncate message (MAX_DAEMON_DIAGNOSTIC_BYTES - 1))) @ [10]]\<rparr>)"

definition d_callback :: "nat \<Rightarrow> bool \<Rightarrow> diagnostic_writer \<Rightarrow> diagnostic_writer" where
  "d_callback epoch failed d =
     (if \<not> d_current epoch d then d
      else if failed then d_terminal d else d_finish (d\<lparr>d_callbackDone := True\<rparr>))"

definition d_returned :: "bool \<Rightarrow> diagnostic_writer \<Rightarrow> diagnostic_writer" where
  "d_returned accepted d =
     (case d_frames d of
        [] \<Rightarrow> d
      | epoch # rest \<Rightarrow>
          (let d' = d\<lparr>d_frames := rest\<rparr>
           in if \<not> accepted \<and> d_current epoch d'
              then d'\<lparr>d_waitingForDrain := True, d_listeners := d_listeners d' + 1\<rparr> else d'))"

definition d_threw :: "diagnostic_writer \<Rightarrow> diagnostic_writer" where
  "d_threw d = (case d_frames d of [] \<Rightarrow> d | epoch # rest \<Rightarrow> d_terminal (d\<lparr>d_frames := rest\<rparr>))"

definition d_onDrain :: "diagnostic_writer \<Rightarrow> diagnostic_writer" where
  "d_onDrain d = d_finish (d\<lparr>d_waitingForDrain := False\<rparr>)"

definition d_drain :: "diagnostic_writer \<Rightarrow> diagnostic_writer" where
  "d_drain d = (d_onDrain ^^ d_listeners d) (d\<lparr>d_listeners := 0\<rparr>)"

inductive d_step :: "diagnostic_writer \<Rightarrow> diagnostic_writer \<Rightarrow> bool" where
  d_step_write: "d_step d (d_write message d)"
| d_step_callback: "d_step d (d_callback epoch failed d)"
| d_step_returned: "d_step d (d_returned accepted d)"
| d_step_threw: "d_step d (d_threw d)"
| d_step_drain: "d_step d (d_drain d)"
| d_step_terminal: "d_step d (d_terminal d)"

end
