(* ===== verification/Line_Writer_Runs.thy ===== *)
theory Line_Writer_Runs
  imports Line_Writer "HOL-Library.Sublist"
begin

text \<open>
  What the daemon's writers do in every run
  (\<open>src/src/services/networkServers/boundedJsonLineWriter.ts\<close>): the invariant of the line writer under
  a stream that may call back, fail, drain or write again at any moment, the order of what is written,
  the bounds on what is queued, progress, and the diagnostics.
\<close>

section \<open>Serialisation\<close>

text \<open>The line of a value: the text where it fits, else the fixed response that says so, and nothing for a notification.\<close>

definition line_of :: "rpc_value \<Rightarrow> pending_line option" where
  "line_of v =
     (case (payload_of v, correlatedResponseId v) of
        (None, _) \<Rightarrow> None
      | (Some bs, None) \<Rightarrow>
          (if length bs \<le> MAX_WRITE_LINE_BYTES
           then Some \<lparr>payload = bs, line_bytes = length bs, is_response = False\<rparr> else None)
      | (Some bs, Some n) \<Rightarrow>
          (let text = (if length bs \<le> MAX_WRITE_LINE_BYTES then bs else too_large_response n)
           in Some \<lparr>payload = text, line_bytes = length text, is_response = True\<rparr>))"

lemma show_nat_length: "n < 10 ^ k \<Longrightarrow> 0 < k \<Longrightarrow> length (show_nat n) \<le> k"
proof (induction k arbitrary: n)
  case (Suc k)
  show ?case
  proof (cases "n < 10")
    case True
    then show ?thesis by (simp add: show_nat.simps)
  next
    case False
    then have "0 < k" using Suc.prems by (cases k) auto
    moreover have "n div 10 < 10 ^ k" using Suc.prems(1) by (simp add: less_mult_imp_div_less mult.commute)
    ultimately show ?thesis using Suc.IH [of "n div 10"] False by (subst show_nat.simps) simp
  qed
qed simp

lemma response_id_bound: "correlatedResponseId v = Some n \<Longrightarrow> n \<le> 9007199254740991"
  by (auto simp: correlatedResponseId_def isSafeInteger_def MAX_SAFE_INTEGER_def split: if_splits id_property.splits)

lemma too_large_fits: "n \<le> 9007199254740991 \<Longrightarrow> length (too_large_response n) \<le> 120"
  using show_nat_length [of n 16] by (simp add: too_large_response_def bytes_of_text_def quoted_def)

lemma fallback_fits: "correlatedResponseId v = Some n \<Longrightarrow> length (too_large_response n) \<le> MAX_WRITE_LINE_BYTES"
  using too_large_fits [OF response_id_bound, of v n] by (simp add: MAX_WRITE_LINE_BYTES_def)

lemma serialize_some: "line_of v = Some l \<Longrightarrow> serialize v w = (Some l, w)"
  using fallback_fits [of v]
  by (auto simp: serialize_def line_of_def Let_def split: option.splits bool.splits if_splits)

lemma serialize_none:
  "line_of v = None \<Longrightarrow> serialize v w = (None,
     dropNotification (if payload_of v = None then NotificationUnserializable else NotificationTooLarge) w)"
  by (auto simp: serialize_def line_of_def Let_def split: option.splits bool.splits if_splits)

lemma line_of_fits: "line_of v = Some l \<Longrightarrow> line_bytes l = length (payload l) \<and> line_bytes l \<le> MAX_WRITE_LINE_BYTES
  \<and> (is_response l \<longleftrightarrow> correlatedResponseId v \<noteq> None)"
  using too_large_fits [OF response_id_bound, of v]
  by (auto simp: line_of_def Let_def MAX_WRITE_LINE_BYTES_def split: option.splits if_splits)

lemma response_line: "correlatedResponseId v = Some n \<Longrightarrow> \<exists>l. line_of v = Some l \<and> is_response l"
  by (auto simp: line_of_def payload_of_def Let_def split: option.splits stringified.splits)

lemma write_none:
  "line_of v = None \<Longrightarrow> w_active w \<Longrightarrow> writer_write v w =
     dropNotification (if payload_of v = None then NotificationUnserializable else NotificationTooLarge) w"
  by (simp add: writer_write_def serialize_none)

lemma write_some:
  "line_of v = Some line \<Longrightarrow> w_active w \<Longrightarrow> writer_write v w =
     (if writing w
      then (if length (queued w) < MAX_QUEUED_OUTPUT_LINES
               \<and> queuedBytes w + line_bytes line \<le> MAX_QUEUED_OUTPUT_BYTES
            then w\<lparr>queued := queued w @ [line], queuedBytes := queuedBytes w + line_bytes line\<rparr>
            else if is_response line then writer_terminal QueueExceeded w
            else dropNotification NotificationBackpressured w)
      else startWrite line w)"
  by (simp add: writer_write_def serialize_some)

lemma write_inactive: "\<not> w_active w \<Longrightarrow> writer_write v w = w"
  by (simp add: writer_write_def)

section \<open>The state of the writer\<close>

definition line_fits :: "pending_line \<Rightarrow> bool" where
  "line_fits l \<longleftrightarrow> line_bytes l = length (payload l) \<and> line_bytes l \<le> MAX_WRITE_LINE_BYTES"

definition queue_ok :: "json_writer \<Rightarrow> bool" where
  "queue_ok w \<longleftrightarrow>
     queuedBytes w = sum_list (map line_bytes (queued w)) \<and> queuedBytes w \<le> MAX_QUEUED_OUTPUT_BYTES
     \<and> length (queued w) \<le> MAX_QUEUED_OUTPUT_LINES \<and> list_all line_fits (queued w) \<and> list_all line_fits (written w)"

text \<open>One write is under way at most; the queue waits for it, and it for a callback or a drain that is registered.\<close>

definition turn_ok :: "json_writer \<Rightarrow> bool" where
  "turn_ok w \<longleftrightarrow>
     (writing w \<longrightarrow> w_active w) \<and> (queued w \<noteq> [] \<longrightarrow> writing w) \<and> (waitingForDrain w \<longrightarrow> writing w)
     \<and> drainListeners w = (if waitingForDrain w then 1 else 0)
     \<and> (writing w \<and> writeCallbackDone w \<longrightarrow> waitingForDrain w)
     \<and> length (terminals w) = (if w_active w then 0 else 1)"

definition frames_ok :: "json_writer \<Rightarrow> bool" where
  "frames_ok w \<longleftrightarrow> sorted_wrt (>) (frames w) \<and> list_all (\<lambda>e. e \<le> writeEpoch w) (frames w)
     \<and> (writing w \<and> waitingForDrain w \<longrightarrow> writeEpoch w \<notin> set (frames w))"

lemmas writer_invs = queue_ok_def turn_ok_def frames_ok_def

definition writer_ok :: "json_writer \<Rightarrow> bool" where
  "writer_ok w \<longleftrightarrow> queue_ok w \<and> turn_ok w \<and> frames_ok w"

lemma ok_new: "writer_ok new_json_writer"
  by (simp add: writer_ok_def writer_invs new_json_writer_def MAX_QUEUED_OUTPUT_LINES_def)

lemma ok_terminal: "writer_ok w \<Longrightarrow> writer_ok (writer_terminal r w)"
  by (auto simp: writer_ok_def writer_invs writer_terminal_def list_all_iff)

lemma ok_drop: "writer_ok w \<Longrightarrow> writer_ok (dropNotification r w)"
  by (simp add: writer_ok_def writer_invs dropNotification_def)

lemma sorted_frames: "list_all (\<lambda>e. e \<le> (n :: nat)) es \<Longrightarrow> list_all (\<lambda>e. e < Suc n) es \<and> list_all (\<lambda>e. e \<le> Suc n) es"
  by (auto simp: list_all_iff)

lemma ok_start:
  assumes "writer_ok w" "\<not> writing w" "line_fits l"
  shows "writer_ok (startWrite l w)"
  using assms sorted_frames [of "writeEpoch w" "frames w"]
  by (auto simp: writer_ok_def writer_invs startWrite_def list_all_iff)

lemma ok_finish:
  assumes "writer_ok (w\<lparr>writeCallbackDone := False\<rparr>)"
  shows "writer_ok (finishWriteIfReady w)"
proof (cases "\<not> w_active w \<or> \<not> writing w \<or> \<not> writeCallbackDone w \<or> waitingForDrain w")
  case True
  then show ?thesis using assms by (auto simp: finishWriteIfReady_def writer_ok_def writer_invs)
next
  case go: False
  show ?thesis
  proof (cases "queued w")
    case Nil
    then show ?thesis using assms go by (simp add: finishWriteIfReady_def writer_ok_def writer_invs)
  next
    case (Cons l rest)
    let ?w = "w\<lparr>writing := False, queued := rest, queuedBytes := queuedBytes w - line_bytes l\<rparr>"
    have "finishWriteIfReady w = startWrite l (?w\<lparr>queued := [], queuedBytes := 0, writeCallbackDone := False\<rparr>)
        \<lparr>queued := rest, queuedBytes := queuedBytes w - line_bytes l\<rparr>"
      using go Cons by (simp add: finishWriteIfReady_def startWrite_def)
    moreover have "writer_ok (startWrite l (?w\<lparr>queued := [], queuedBytes := 0, writeCallbackDone := False\<rparr>))"
      using assms go Cons by (intro ok_start) (simp_all add: writer_ok_def writer_invs)
    ultimately show ?thesis using assms go Cons
      by (simp add: writer_ok_def writer_invs startWrite_def)
  qed
qed

lemma ok_drain: "writer_ok w \<Longrightarrow> writer_ok (drain_event w)"
proof (cases "waitingForDrain w")
  case True
  assume w: "writer_ok w"
  then have "drain_event w = finishWriteIfReady (w\<lparr>drainListeners := 0, waitingForDrain := False\<rparr>)"
    using True by (simp add: drain_event_def writer_onDrain_def writer_ok_def turn_ok_def)
  moreover have "writer_ok (w\<lparr>drainListeners := 0, waitingForDrain := False, writeCallbackDone := False\<rparr>)"
    using w by (auto simp: writer_ok_def writer_invs)
  ultimately show ?thesis by (simp add: ok_finish)
next
  case False
  assume "writer_ok w"
  then show ?thesis using False by (simp add: drain_event_def writer_ok_def writer_invs)
qed

lemma ok_callback: "writer_ok w \<Longrightarrow> writer_ok (write_callback e f w)"
proof -
  assume w: "writer_ok w"
  have "writer_ok (w\<lparr>writeCallbackDone := False\<rparr>)" using w by (auto simp: writer_ok_def writer_invs)
  then have "writer_ok (finishWriteIfReady (w\<lparr>writeCallbackDone := True\<rparr>))" by (intro ok_finish) simp
  then show ?thesis using w ok_terminal by (simp add: write_callback_def)
qed

lemma ok_frames_pop: "writer_ok w \<Longrightarrow> frames w = e # es \<Longrightarrow> writer_ok (w\<lparr>frames := es\<rparr>)"
  by (simp add: writer_ok_def writer_invs)

lemma ok_returned: "writer_ok w \<Longrightarrow> writer_ok (write_returned a w)"
proof (cases "frames w")
  case (Cons e es)
  assume w: "writer_ok w"
  let ?w = "w\<lparr>frames := es\<rparr>"
  have p: "writer_ok ?w" by (rule ok_frames_pop [OF w Cons])
  have "writer_ok (?w\<lparr>waitingForDrain := True, drainListeners := drainListeners ?w + 1\<rparr>)" if c: "isCurrentWrite e ?w"
  proof -
    have "\<not> waitingForDrain w" using w Cons c by (auto simp: writer_ok_def frames_ok_def isCurrentWrite_def)
    moreover have "e \<notin> set es" using w Cons by (auto simp: writer_ok_def frames_ok_def)
    ultimately show ?thesis using p c by (simp add: writer_ok_def writer_invs isCurrentWrite_def)
  qed
  then show ?thesis using p Cons by (simp add: write_returned_def Let_def)
qed (simp add: write_returned_def)

lemma ok_threw: "writer_ok w \<Longrightarrow> writer_ok (write_threw w)"
proof (cases "frames w")
  case (Cons e es)
  assume "writer_ok w"
  then have "writer_ok (w\<lparr>frames := es\<rparr>)" using Cons by (rule ok_frames_pop)
  then show ?thesis using Cons ok_terminal by (simp add: write_threw_def)
qed (simp add: write_threw_def)

lemma ok_queue:
  "writer_ok w \<Longrightarrow> writing w \<Longrightarrow> line_fits l \<Longrightarrow> length (queued w) < MAX_QUEUED_OUTPUT_LINES \<Longrightarrow>
    queuedBytes w + line_bytes l \<le> MAX_QUEUED_OUTPUT_BYTES \<Longrightarrow>
    writer_ok (w\<lparr>queued := queued w @ [l], queuedBytes := queuedBytes w + line_bytes l\<rparr>)"
  by (auto simp: writer_ok_def writer_invs)

lemma ok_write: "writer_ok w \<Longrightarrow> writer_ok (writer_write v w)"
proof (cases "w_active w")
  case True
  assume w: "writer_ok w"
  show ?thesis
  proof (cases "line_of v")
    case None
    then show ?thesis using w True by (simp add: write_none ok_drop)
  next
    case (Some l)
    have "line_fits l" using line_of_fits [OF Some] by (simp add: line_fits_def)
    then show ?thesis using w ok_queue ok_start by (simp add: write_some [OF Some True] ok_drop ok_terminal)
  qed
qed (simp add: write_inactive)

lemma ok_event: "writer_ok w \<Longrightarrow> writer_ok (apply_event ev w)"
  by (cases ev) (simp_all add: ok_write ok_callback ok_returned ok_threw ok_drain ok_terminal)

lemma run_snoc: "writer_run (evs @ [ev]) = apply_event ev (writer_run evs)"
  by (simp add: writer_run_def)

lemma run_ok: "writer_ok (writer_run evs)"
proof (induction evs rule: rev_induct)
  case Nil
  show ?case by (simp add: writer_run_def ok_new)
qed (simp add: run_snoc ok_event)

section \<open>What is written\<close>

definition submitted :: "writer_event list \<Rightarrow> pending_line list" where
  "submitted evs = List.map_filter (\<lambda>ev. case ev of Write v \<Rightarrow> line_of v | _ \<Rightarrow> None) evs"

definition content :: "json_writer \<Rightarrow> pending_line list" where
  "content w = written w @ queued w"

definition responses :: "pending_line list \<Rightarrow> pending_line list" where
  "responses ls = filter is_response ls"

lemma submitted_snoc: "submitted (evs @ [ev]) = submitted evs @ submitted [ev]"
  by (simp add: submitted_def map_filter_def)

lemma submitted_event:
  "submitted [Write v] = (case line_of v of None \<Rightarrow> [] | Some l \<Rightarrow> [l])"
  "submitted [Callback e f] = []" "submitted [Returned a] = []" "submitted [Threw] = []" "submitted [Drain] = []"
  "submitted [ErrorEvent] = []" "submitted [CloseEvent] = []"
  by (simp_all add: submitted_def map_filter_def split: option.splits)

lemma responses_append [simp]: "responses (xs @ ys) = responses xs @ responses ys"
  by (simp add: responses_def)

text \<open>What one event does to the lines: it appends what it was given, or the transport is over.\<close>

definition carries :: "json_writer \<Rightarrow> json_writer \<Rightarrow> pending_line list \<Rightarrow> bool" where
  "carries w w' new \<longleftrightarrow>
     (if w_active w' then w_active w \<and> (\<exists>ls. content w' = content w @ ls \<and> subseq ls new \<and> responses ls = responses new)
      else written w' = written w)"

lemma carries_refl: "w_active w \<Longrightarrow> carries w w []" "\<not> w_active w \<Longrightarrow> carries w w new"
  by (simp_all add: carries_def)

lemma carries_self: "carries w w []"
  by (simp add: carries_def)

lemma carries_same: "w_active w \<Longrightarrow> w_active w' \<Longrightarrow> content w' = content w \<Longrightarrow> responses new = [] \<Longrightarrow> carries w w' new"
  unfolding carries_def by (auto intro!: exI [of _ "[]"] simp: responses_def)

lemma carries_terminal: "carries w (writer_terminal r w) new"
  by (simp add: carries_def writer_terminal_def)

lemma finish_content: "w_active (finishWriteIfReady w) = w_active w" "w_active w \<Longrightarrow> content (finishWriteIfReady w) = content w"
  "\<not> w_active w \<Longrightarrow> finishWriteIfReady w = w"
  by (auto simp: finishWriteIfReady_def startWrite_def content_def split: list.splits)

lemma carries_finish:
  assumes "w_active w' = w_active w" "content w' = content w" "written w' = written w"
  shows "carries w (finishWriteIfReady w') []"
proof (cases "w_active w")
  case True
  then show ?thesis using assms finish_content [of w'] by (intro carries_same) (simp_all add: responses_def)
next
  case False
  then show ?thesis using assms finish_content(3) [of w'] by (simp add: carries_def)
qed

lemma carries_write: assumes "writer_ok w" shows "carries w (writer_write v w) (submitted [Write v])"
proof (cases "w_active w")
  case act: True
  show ?thesis
  proof (cases "line_of v")
    case None
    then show ?thesis using act
      by (simp add: write_none submitted_event carries_same dropNotification_def content_def responses_def)
  next
    case (Some l)
    have q: "queued w = []" if "\<not> writing w" using assms that by (auto simp: writer_ok_def turn_ok_def)
    consider (queue) "writing w" "length (queued w) < MAX_QUEUED_OUTPUT_LINES
        \<and> queuedBytes w + line_bytes l \<le> MAX_QUEUED_OUTPUT_BYTES"
      | (full) "writing w" "\<not> (length (queued w) < MAX_QUEUED_OUTPUT_LINES
        \<and> queuedBytes w + line_bytes l \<le> MAX_QUEUED_OUTPUT_BYTES)"
      | (start) "\<not> writing w" by blast
    then show ?thesis
    proof cases
      case queue
      then show ?thesis using act Some
        by (simp add: write_some submitted_event carries_def content_def)
    next
      case full
      then show ?thesis using act Some carries_terminal [of w]
        by (cases "is_response l")
          (simp_all add: write_some submitted_event carries_same dropNotification_def content_def responses_def del: de_Morgan_conj)
    next
      case start
      then show ?thesis using act Some q
        by (simp add: write_some submitted_event carries_def content_def startWrite_def)
    qed
  qed
qed (simp add: write_inactive carries_refl)

lemma carries_event: "writer_ok w \<Longrightarrow> carries w (apply_event ev w) (submitted [ev])"
proof (cases ev)
  case (Callback e f)
  then show ?thesis using carries_terminal [of w] carries_finish [of "w\<lparr>writeCallbackDone := True\<rparr>" w]
    by (simp add: submitted_event write_callback_def carries_self content_def)
next
  case (Returned a)
  have "carries w w' []" if "w_active w' = w_active w" "content w' = content w" "written w' = written w" for w'
    using that by (cases "w_active w") (simp_all add: carries_def responses_def)
  then show ?thesis using Returned by (auto simp: submitted_event write_returned_def Let_def content_def split: list.splits)
next
  case Threw
  have "carries w (writer_terminal WriteThrew (w\<lparr>frames := fs\<rparr>)) []" for fs
    by (simp add: carries_def writer_terminal_def)
  then show ?thesis using Threw
    by (cases "frames w"; cases "w_active w") (simp_all add: submitted_event write_threw_def carries_refl)
next
  case Drain
  assume "writer_ok w"
  then have "drainListeners w = 0 \<or> drainListeners w = 1" by (simp add: writer_ok_def turn_ok_def)
  then show ?thesis
    using Drain carries_finish [of "w\<lparr>drainListeners := 0, waitingForDrain := False\<rparr>" w] carries_refl(2) [of w "[]"]
    by (auto simp: submitted_event drain_event_def writer_onDrain_def content_def carries_def responses_def)
qed (simp_all add: carries_write carries_terminal)

lemma run_content:
  "subseq (content (writer_run evs)) (submitted evs)
   \<and> prefix (responses (content (writer_run evs))) (responses (submitted evs))
   \<and> (w_active (writer_run evs) \<longrightarrow> responses (content (writer_run evs)) = responses (submitted evs))"
proof (induction evs rule: rev_induct)
  case Nil
  show ?case by (simp add: writer_run_def new_json_writer_def content_def submitted_def map_filter_def)
next
  case (snoc ev evs)
  let ?w = "writer_run evs" and ?w' = "writer_run (evs @ [ev])"
  have c: "carries ?w ?w' (submitted [ev])" using carries_event [OF run_ok] by (simp add: run_snoc)
  show ?case
  proof (cases "w_active ?w'")
    case True
    with c obtain ls where ls: "w_active ?w" "content ?w' = content ?w @ ls" "subseq ls (submitted [ev])"
      "responses ls = responses (submitted [ev])" by (auto simp: carries_def)
    then show ?thesis using snoc by (simp add: submitted_snoc list_emb_append_mono)
  next
    case False
    then have "queued ?w' = []" using run_ok [of "evs @ [ev]"] by (auto simp: writer_ok_def turn_ok_def)
    then have w: "content ?w' = written ?w" using c False by (simp add: carries_def content_def)
    have "subseq (written ?w) (content ?w)" by (simp add: content_def prefix_imp_subseq)
    then have s: "subseq (written ?w) (submitted evs)" using snoc subseq_order.order_trans by blast
    have "prefix (responses (written ?w)) (responses (content ?w))" by (simp add: content_def)
    then have "prefix (responses (written ?w)) (responses (submitted evs))" using snoc prefix_order.order_trans by blast
    then show ?thesis using s False by (simp add: w submitted_snoc list_emb_prefix)
  qed
qed

section \<open>Progress\<close>

text \<open>What a stream that works does next for an open write: call back, drain where it is awaited, and
  accept the write that follows.\<close>

definition settle_one :: "json_writer \<Rightarrow> json_writer" where
  "settle_one w =
     write_returned True
       (drain_event (if writeCallbackDone w then w else write_callback (writeEpoch w) False w))"

definition settled_next :: "json_writer \<Rightarrow> json_writer \<Rightarrow> bool" where
  "settled_next w w' \<longleftrightarrow>
     w_active w' \<and> frames w' = [] \<and> content w' = content w
     \<and> (if queued w = [] then queued w' = [] \<and> \<not> writing w' else queued w' = tl (queued w) \<and> writing w')"

lemma settle_step:
  assumes "writer_ok w" "w_active w" "writing w" "frames w = []"
  shows "settled_next w (settle_one w) \<and> writer_ok (settle_one w)"
proof
  have l: "drainListeners w = (if waitingForDrain w then 1 else 0)" "writeCallbackDone w \<longrightarrow> waitingForDrain w"
    using assms by (auto simp: writer_ok_def turn_ok_def)
  show "settled_next w (settle_one w)"
    using assms l by (cases "queued w"; cases "waitingForDrain w"; cases "writeCallbackDone w")
      (simp_all add: settled_next_def settle_one_def write_callback_def isCurrentWrite_def finishWriteIfReady_def
        drain_event_def writer_onDrain_def write_returned_def startWrite_def content_def Let_def)
  show "writer_ok (settle_one w)"
    unfolding settle_one_def using assms(1) by (intro ok_returned ok_drain) (simp add: ok_callback)
qed

lemma settle_all:
  assumes "writer_ok w" "w_active w" "writing w" "frames w = []"
  shows "written ((settle_one ^^ Suc (length (queued w))) w) = content w
    \<and> \<not> writing ((settle_one ^^ Suc (length (queued w))) w) \<and> w_active ((settle_one ^^ Suc (length (queued w))) w)"
  using assms
proof (induction "length (queued w)" arbitrary: w)
  case 0
  then show ?case using settle_step [of w] by (auto simp: settled_next_def content_def)
next
  case (Suc n)
  let ?s = "settle_one w"
  have s: "settled_next w ?s" "writer_ok ?s" using settle_step Suc.prems by blast+
  then have q: "queued ?s = tl (queued w)" "writing ?s" "w_active ?s" "frames ?s = []" "content ?s = content w"
    using Suc.hyps(2) by (auto simp: settled_next_def split: if_splits)
  then have n: "n = length (queued ?s)" using Suc.hyps(2) by simp
  have "(settle_one ^^ Suc (length (queued w))) w = (settle_one ^^ Suc (length (queued ?s))) ?s"
    using n Suc.hyps(2) by (simp only: funpow_Suc_right comp_def)
  then show ?case using Suc.hyps(1) [OF n s(2) q(3,2,4)] q(5) by simp
qed

section \<open>Diagnostics\<close>

lemma truncate_bound: "used \<le> m \<Longrightarrow> used + length (concat (map utf8_bytes (truncate_loop m used cs))) \<le> m"
  by (induction m used cs rule: truncate_loop.induct) (auto simp: add.assoc [symmetric])

lemma truncate_prefix: "prefix (truncate_loop m used cs) cs"
  by (induction m used cs rule: truncate_loop.induct) auto

lemma truncate_longest:
  "prefix p cs \<Longrightarrow> used + length (concat (map utf8_bytes p)) \<le> m \<Longrightarrow> prefix p (truncate_loop m used cs)"
proof (induction m used cs arbitrary: p rule: truncate_loop.induct)
  case (2 m used c cs)
  then show ?case by (cases p) (auto simp: add.assoc)
qed simp

definition d_ok :: "diagnostic_writer \<Rightarrow> bool" where
  "d_ok d \<longleftrightarrow>
     (inFlight d \<longrightarrow> d_active d) \<and> (d_waitingForDrain d \<longrightarrow> inFlight d)
     \<and> d_listeners d = (if d_waitingForDrain d then 1 else 0)
     \<and> (inFlight d \<and> d_callbackDone d \<longrightarrow> d_waitingForDrain d)
     \<and> sorted_wrt (>) (d_frames d) \<and> list_all (\<lambda>e. e \<le> d_epoch d) (d_frames d)
     \<and> (inFlight d \<and> d_waitingForDrain d \<longrightarrow> d_epoch d \<notin> set (d_frames d))
     \<and> list_all (\<lambda>l. length l \<le> MAX_DAEMON_DIAGNOSTIC_BYTES) (d_written d)"

lemma d_ok_terminal: "d_ok d \<Longrightarrow> d_ok (d_terminal d)"
  by (auto simp: d_ok_def d_terminal_def list_all_iff)

lemma d_ok_finish: "d_ok (d\<lparr>d_callbackDone := False\<rparr>) \<Longrightarrow> d_ok (d_finish d)"
  by (auto simp: d_ok_def d_finish_def)

lemma d_ok_write: "d_ok d \<Longrightarrow> d_ok (d_write msg d)"
proof -
  assume d: "d_ok d"
  define L :: buffer where
    "L = concat (map utf8_bytes (truncate msg (MAX_DAEMON_DIAGNOSTIC_BYTES - 1))) @ [10]"
  have L: "length L \<le> MAX_DAEMON_DIAGNOSTIC_BYTES"
    using truncate_bound [of 0 "MAX_DAEMON_DIAGNOSTIC_BYTES - 1" msg]
    by (simp add: L_def truncate_def) (simp add: MAX_DAEMON_DIAGNOSTIC_BYTES_def)
  have w: "d_write msg d =
      (if \<not> d_active d \<or> inFlight d then d
       else d\<lparr>d_epoch := d_epoch d + 1, inFlight := True, d_waitingForDrain := False, d_callbackDone := False,
              d_frames := (d_epoch d + 1) # d_frames d, d_written := d_written d @ [L]\<rparr>)"
    unfolding d_write_def L_def by (rule refl)
  have f: "\<forall>e \<in> set (d_frames d). e < d_epoch d + 1" "list_all (\<lambda>e. e \<le> d_epoch d + 1) (d_frames d)"
    using d by (auto simp: d_ok_def list_all_iff)
  show ?thesis
  proof (cases "\<not> d_active d \<or> inFlight d")
    case True
    then show ?thesis using d by (simp only: w if_True)
  next
    case False
    then have "\<not> d_waitingForDrain d" using d by (auto simp: d_ok_def)
    with False d L f show ?thesis unfolding w d_ok_def by simp
  qed
qed

lemma d_ok_callback: "d_ok d \<Longrightarrow> d_ok (d_callback e f d)"
proof -
  assume d: "d_ok d"
  then have "d_ok (d\<lparr>d_callbackDone := False\<rparr>)" by (auto simp: d_ok_def)
  then have "d_ok (d_finish (d\<lparr>d_callbackDone := True\<rparr>))" by (intro d_ok_finish) simp
  then show ?thesis using d d_ok_terminal by (simp add: d_callback_def)
qed

lemma d_ok_pop: "d_ok d \<Longrightarrow> d_frames d = e # es \<Longrightarrow> d_ok (d\<lparr>d_frames := es\<rparr>)"
  by (simp add: d_ok_def)

lemma d_ok_returned: "d_ok d \<Longrightarrow> d_ok (d_returned a d)"
proof (cases "d_frames d")
  case (Cons e es)
  assume d: "d_ok d"
  let ?d = "d\<lparr>d_frames := es\<rparr>"
  have p: "d_ok ?d" by (rule d_ok_pop [OF d Cons])
  have "d_ok (?d\<lparr>d_waitingForDrain := True, d_listeners := d_listeners ?d + 1\<rparr>)" if c: "d_current e ?d"
  proof -
    have "\<not> d_waitingForDrain d" using d Cons c by (auto simp: d_ok_def d_current_def)
    moreover have "e \<notin> set es" using d Cons by (auto simp: d_ok_def)
    ultimately show ?thesis using p c by (simp add: d_ok_def d_current_def)
  qed
  then show ?thesis using p Cons by (simp add: d_returned_def Let_def)
qed (simp add: d_returned_def)

lemma d_ok_drain: "d_ok d \<Longrightarrow> d_ok (d_drain d)"
proof (cases "d_waitingForDrain d")
  case True
  assume d: "d_ok d"
  then have "d_drain d = d_finish (d\<lparr>d_listeners := 0, d_waitingForDrain := False\<rparr>)"
    using True by (simp add: d_drain_def d_onDrain_def d_ok_def)
  moreover have "d_ok (d\<lparr>d_listeners := 0, d_waitingForDrain := False, d_callbackDone := False\<rparr>)"
    using d by (auto simp: d_ok_def)
  ultimately show ?thesis by (simp add: d_ok_finish)
qed (simp add: d_drain_def d_ok_def)

lemma d_ok_step: "d_step d d' \<Longrightarrow> d_ok d \<Longrightarrow> d_ok d'"
proof (induction rule: d_step.induct)
  case (d_step_threw d)
  then show ?case using d_ok_pop d_ok_terminal by (auto simp: d_threw_def split: list.splits)
qed (simp_all add: d_ok_write d_ok_callback d_ok_returned d_ok_drain d_ok_terminal)

lemma d_ok_new: "d_ok new_diagnostic_writer"
  by (simp add: d_ok_def new_diagnostic_writer_def)

lemma terminal_reasons: "FallbackTooLarge \<notin> set (terminals w) \<Longrightarrow> r \<noteq> FallbackTooLarge \<Longrightarrow>
  FallbackTooLarge \<notin> set (terminals (writer_terminal r w))"
  by (auto simp: writer_terminal_def)

lemma finish_terminals: "terminals (finishWriteIfReady w) = terminals w"
  by (auto simp: finishWriteIfReady_def startWrite_def split: list.splits)

lemma drain_terminals: "terminals (drain_event w) = terminals w"
proof -
  have "terminals ((writer_onDrain ^^ n) w) = terminals w" for n w
    by (induction n) (simp_all add: writer_onDrain_def finish_terminals)
  then show ?thesis by (simp add: drain_event_def)
qed

lemma write_terminals: "FallbackTooLarge \<notin> set (terminals w) \<Longrightarrow> FallbackTooLarge \<notin> set (terminals (writer_write v w))"
  by (cases "w_active w"; cases "line_of v")
    (auto simp: write_inactive write_none write_some dropNotification_def startWrite_def terminal_reasons)

lemma event_terminals: "FallbackTooLarge \<notin> set (terminals w) \<Longrightarrow> FallbackTooLarge \<notin> set (terminals (apply_event ev w))"
  by (cases ev) (auto simp: write_terminals write_callback_def finish_terminals drain_terminals write_returned_def
      write_threw_def Let_def terminal_reasons split: list.splits)

lemma run_terminals: "FallbackTooLarge \<notin> set (terminals (writer_run evs))"
proof (induction evs rule: rev_induct)
  case Nil
  show ?case by (simp add: writer_run_def new_json_writer_def)
qed (simp add: run_snoc event_terminals)

section \<open>Properties\<close>

interpretation diagnostic_run: invariant_system "\<lambda>d. d = new_diagnostic_writer" d_step d_ok
  by unfold_locales (auto simp: d_ok_new intro: d_ok_step)

text \<open>
  The lines written and queued are those of the values given to the writer, in their order,
  less notifications: while the transport is alive no response is missing, and once it is terminal
  the responses written are the first ones.
\<close>

theorem writer_order:
  "subseq (written (writer_run evs) @ queued (writer_run evs)) (submitted evs)
   \<and> (if w_active (writer_run evs)
      then filter is_response (written (writer_run evs) @ queued (writer_run evs)) = filter is_response (submitted evs)
      else prefix (filter is_response (written (writer_run evs))) (filter is_response (submitted evs)))"
proof -
  have "responses (written (writer_run evs) @ queued (writer_run evs)) = responses (written (writer_run evs))"
    if "\<not> w_active (writer_run evs)"
    using run_ok [of evs] that by (auto simp: writer_ok_def turn_ok_def responses_def)
  then show ?thesis using run_content [of evs] by (auto simp: content_def responses_def)
qed

text \<open>
  C26. Whatever the stream does, also inside a call of \<open>stream.write\<close>: at most 16 lines and 4 MiB
  are queued, each line is at most 1 MiB, the byte count is that of the queue, at most one drain
  listener is registered, the loss of the transport is reported at most once, and never because the
  fallback response itself is too long.
\<close>

theorem writer_bounds:
  "length (queued (writer_run evs)) \<le> 16
   \<and> queuedBytes (writer_run evs) = sum_list (map (length \<circ> payload) (queued (writer_run evs)))
   \<and> queuedBytes (writer_run evs) \<le> 4194304
   \<and> list_all (\<lambda>l. length (payload l) \<le> 1048576) (written (writer_run evs) @ queued (writer_run evs))
   \<and> drainListeners (writer_run evs) \<le> 1 \<and> length (terminals (writer_run evs)) \<le> 1
   \<and> FallbackTooLarge \<notin> set (terminals (writer_run evs))"
proof -
  let ?w = "writer_run evs"
  have ok: "queue_ok ?w" "turn_ok ?w" using run_ok [of evs] by (simp_all add: writer_ok_def)
  have fits: "line_bytes l = length (payload l) \<and> length (payload l) \<le> 1048576" if "l \<in> set (written ?w @ queued ?w)" for l
    using ok(1) that by (fastforce simp: queue_ok_def list_all_iff line_fits_def MAX_WRITE_LINE_BYTES_def)
  then have m: "map line_bytes (queued ?w) = map (length \<circ> payload) (queued ?w)" by simp
  have q: "length (queued ?w) \<le> 16" "queuedBytes ?w = sum_list (map (length \<circ> payload) (queued ?w))"
    "queuedBytes ?w \<le> 4194304"
    using ok(1) unfolding queue_ok_def MAX_QUEUED_OUTPUT_BYTES_def MAX_QUEUED_OUTPUT_LINES_def MAX_WRITE_LINE_BYTES_def m
    by simp_all
  have t: "drainListeners ?w \<le> 1" "length (terminals ?w) \<le> 1" using ok(2) by (simp_all add: turn_ok_def)
  show ?thesis
    using fits by (intro conjI q t run_terminals) (auto simp: list_all_iff)
qed

text \<open>
  No line is left behind: from every state with an open write whose calls have returned, a
  stream that calls back, drains where that is awaited and accepts the next write empties the queue
  in order, and the writer is free again.
\<close>

theorem writer_settles:
  assumes "writing (writer_run evs)" "frames (writer_run evs) = []"
  shows "written ((settle_one ^^ Suc (length (queued (writer_run evs)))) (writer_run evs))
           = written (writer_run evs) @ queued (writer_run evs)
       \<and> \<not> writing ((settle_one ^^ Suc (length (queued (writer_run evs)))) (writer_run evs))
       \<and> w_active ((settle_one ^^ Suc (length (queued (writer_run evs)))) (writer_run evs))"
proof -
  have "w_active (writer_run evs)" using run_ok [of evs] assms(1) by (auto simp: writer_ok_def turn_ok_def)
  from settle_all [OF run_ok this assms] show ?thesis unfolding content_def .
qed

definition sample_value :: rpc_value where
  "sample_value = \<lparr>plain_object = True, own_id = IntegerId 7, json = JsonText [123, 125]\<rparr>"

theorem writer_settles_witness:
  "let w = writer_run [Write sample_value, Write sample_value, Returned False] in
   length (written w) = 1 \<and> length (written ((settle_one ^^ 2) w)) = 2 \<and> \<not> writing ((settle_one ^^ 2) w)"
proof -
  let ?evs = "[Write sample_value, Write sample_value, Returned False]"
  have h: "writing (writer_run ?evs)" "frames (writer_run ?evs) = []" "length (queued (writer_run ?evs)) = 1"
    "length (written (writer_run ?evs)) = 1"
    by (simp_all add: writer_run_def new_json_writer_def writer_write_def serialize_def payload_of_def sample_value_def
        correlatedResponseId_def isSafeInteger_def MAX_SAFE_INTEGER_def MAX_WRITE_LINE_BYTES_def startWrite_def
        MAX_QUEUED_OUTPUT_LINES_def MAX_QUEUED_OUTPUT_BYTES_def write_returned_def isCurrentWrite_def Let_def)
  show ?thesis using writer_settles [OF h(1,2)] h(3,4) by (simp add: Let_def numeral_2_eq_2)
qed

text \<open>
  The stderr writer never has more than one line outstanding and every line it writes is at most
  512 bytes: the longest prefix of whole characters that fits, and a newline.
\<close>

theorem diagnostic_bounds:
  assumes "d_step\<^sup>*\<^sup>* new_diagnostic_writer d"
  shows "list_all (\<lambda>l. length l \<le> 512) (d_written d) \<and> d_listeners d \<le> 1
    \<and> (if d_active d \<and> \<not> inFlight d
       then \<exists>p. prefix p message \<and> d_written (d_write message d) = d_written d @ [concat (map utf8_bytes p) @ [10]]
         \<and> Ball {q. prefix q message \<and> length (concat (map utf8_bytes q)) \<le> 511} (\<lambda>q. prefix q p)
       else d_write message d = d)"
proof -
  have ok: "d_ok d" by (rule diagnostic_run.inv_reachable [OF refl assms])
  have "\<exists>p. prefix p message \<and> d_written (d_write message d) = d_written d @ [concat (map utf8_bytes p) @ [10]]
      \<and> (\<forall>q. prefix q message \<and> length (concat (map utf8_bytes q)) \<le> 511 \<longrightarrow> prefix q p)"
    if "d_active d" "\<not> inFlight d"
  proof (intro exI [of _ "truncate_loop 511 0 message"] conjI)
    show "d_written (d_write message d) = d_written d @ [concat (map utf8_bytes (truncate_loop 511 0 message)) @ [10]]"
      using that by (simp add: d_write_def truncate_def MAX_DAEMON_DIAGNOSTIC_BYTES_def)
    show "\<forall>q. prefix q message \<and> length (concat (map utf8_bytes q)) \<le> 511 \<longrightarrow> prefix q (truncate_loop 511 0 message)"
      using truncate_longest [of _ message 0 511] by (simp add: add_0_left del: length_concat)
  qed (rule truncate_prefix)
  moreover have "list_all (\<lambda>l. length l \<le> 512) (d_written d)" "d_listeners d \<le> 1"
    using ok by (simp_all add: d_ok_def MAX_DAEMON_DIAGNOSTIC_BYTES_def)
  moreover have "d_write message d = d" if "\<not> (d_active d \<and> \<not> inFlight d)"
    using that unfolding d_write_def by argo
  ultimately show ?thesis by auto
qed

theorem diagnostic_bounds_witness:
  "d_listeners (d_write [104, 105] new_diagnostic_writer) \<le> 1
   \<and> d_written (d_write [104, 105] new_diagnostic_writer) = [[104, 105, 10]]"
proof
  have "d_step\<^sup>*\<^sup>* new_diagnostic_writer (d_write [104, 105] new_diagnostic_writer)"
    by (rule r_into_rtranclp, rule d_step_write)
  from diagnostic_bounds [OF this, of "[]"] show "d_listeners (d_write [104, 105] new_diagnostic_writer) \<le> 1" by blast
qed code_simp

end
