(* ===== verification/Line_Reader.thy ===== *)
theory Line_Reader
  imports Js_Strings
begin

text \<open>
  The reader of JSON lines between the extension and its daemon:
  \<open>src/src/services/networkServers/boundedLineReader.ts\<close>. A buffer is the bytes in use and its
  capacity; a line is its bytes, decoded only when complete. The callback \<open>onLine\<close> may do
  anything to the stream while it runs: what its next calls do is the list \<open>reentry\<close>, one list of
  events for each call (none left: it just returns). A string chunk is a list of code points.
\<close>

section \<open>State\<close>

datatype reentrant = ReData buffer | ReEnd | ReDetach | ReThrow

record line_reader =
  rd_active :: bool
  lineBuffer :: buffer
  lineCapacity :: nat
  pendingBuffer :: buffer
  pendingCapacity :: nat
  processingCapacity :: nat
  rd_processing :: bool
  endQueued :: bool
  delivered :: "buffer list"
  framingErrors :: nat
  callbackThrew :: bool
  reentry :: "reentrant list list"

definition MAX_RPC_LINE_BYTES :: nat where "MAX_RPC_LINE_BYTES = 1048576"

definition attachBoundedLineReader :: "reentrant list list \<Rightarrow> line_reader" where
  "attachBoundedLineReader script =
     \<lparr>rd_active = True, lineBuffer = [], lineCapacity = 0, pendingBuffer = [], pendingCapacity = 0,
      processingCapacity = 0, rd_processing = False, endQueued = False, delivered = [],
      framingErrors = 0, callbackThrew = False, reentry = script\<rparr>"

definition rd_detach :: "line_reader \<Rightarrow> line_reader" where
  "rd_detach r =
     (if rd_active r
      then r\<lparr>rd_active := False, lineBuffer := [], pendingBuffer := [], endQueued := False\<rparr>
      else r)"

text \<open>The capacity \<open>grow\<close> gives: its loop runs at most once, as it takes the maximum with what is
  needed.\<close>

definition grow :: "nat \<Rightarrow> nat \<Rightarrow> nat" where
  "grow capacity needed =
     (if needed \<le> capacity then capacity
      else (let c = max 64 (if capacity = 0 then 1 else capacity)
            in if c < needed then max needed (c * 2) else c))"

definition rejectOversize :: "line_reader \<Rightarrow> line_reader" where
  "rejectOversize r =
     (if rd_active r then (rd_detach r)\<lparr>framingErrors := framingErrors r + 1\<rparr> else r)"

section \<open>Lines\<close>

text \<open>The result \<open>false\<close> of \<open>appendLine\<close> is a reader that is no longer active.\<close>

definition appendLine :: "nat \<Rightarrow> buffer \<Rightarrow> line_reader \<Rightarrow> line_reader" where
  "appendLine maxBytes bs r =
     (if maxBytes < length (lineBuffer r) + length bs then rejectOversize r
      else if bs = [] then r
      else r\<lparr>lineCapacity := grow (lineCapacity r) (length (lineBuffer r) + length bs),
             lineBuffer := lineBuffer r @ bs\<rparr>)"

definition strip_cr :: "buffer \<Rightarrow> buffer" where
  "strip_cr bs = (if bs \<noteq> [] \<and> last bs = 13 then butlast bs else bs)"

definition takeLine :: "bool \<Rightarrow> line_reader \<Rightarrow> buffer \<times> line_reader" where
  "takeLine stripTrailingCarriageReturn r =
     (if stripTrailingCarriageReturn then strip_cr (lineBuffer r) else lineBuffer r,
      r\<lparr>lineBuffer := []\<rparr>)"

text \<open>\<open>onData\<close> and \<open>onEnd\<close> while a chunk is being processed.\<close>

definition queue_data :: "nat \<Rightarrow> buffer \<Rightarrow> line_reader \<Rightarrow> line_reader" where
  "queue_data maxBytes bs r =
     (if \<not> rd_active r \<or> endQueued r then r
      else if bs = [] then r
      else if maxBytes < length (pendingBuffer r) + length bs then rejectOversize r
      else r\<lparr>pendingCapacity := grow (pendingCapacity r) (length (pendingBuffer r) + length bs),
             pendingBuffer := pendingBuffer r @ bs\<rparr>)"

definition queue_end :: "line_reader \<Rightarrow> line_reader" where
  "queue_end r = (if \<not> rd_active r \<or> endQueued r then r else r\<lparr>endQueued := True\<rparr>)"

fun reenter :: "nat \<Rightarrow> reentrant \<Rightarrow> line_reader \<Rightarrow> line_reader" where
  "reenter maxBytes (ReData bs) r = queue_data maxBytes bs r"
| "reenter maxBytes ReEnd r = queue_end r"
| "reenter maxBytes ReDetach r = rd_detach r"
| "reenter maxBytes ReThrow r = (rd_detach r)\<lparr>callbackThrew := True\<rparr>"

text \<open>The calls of the callback end with a throw: what follows it in the list does not happen.\<close>

fun run_callback :: "nat \<Rightarrow> reentrant list \<Rightarrow> line_reader \<Rightarrow> line_reader" where
  "run_callback maxBytes [] r = r"
| "run_callback maxBytes (ev # evs) r =
     (if ev = ReThrow then reenter maxBytes ev r else run_callback maxBytes evs (reenter maxBytes ev r))"

definition deliverLine :: "nat \<Rightarrow> buffer \<Rightarrow> line_reader \<Rightarrow> line_reader" where
  "deliverLine maxBytes line r =
     run_callback maxBytes (case reentry r of [] \<Rightarrow> [] | evs # _ \<Rightarrow> evs)
       (r\<lparr>delivered := delivered r @ [line], reentry := tl (reentry r)\<rparr>)"

definition deliver_taken :: "nat \<Rightarrow> line_reader \<Rightarrow> line_reader" where
  "deliver_taken maxBytes r = (case takeLine True r of (line, r1) \<Rightarrow> deliverLine maxBytes line r1)"

function processBufferData :: "nat \<Rightarrow> buffer \<Rightarrow> line_reader \<Rightarrow> line_reader" where
  "processBufferData maxBytes chunk r =
     (if \<not> rd_active r \<or> chunk = [] then r
      else (let r1 = appendLine maxBytes (takeWhile (\<lambda>b. b \<noteq> 10) chunk) r;
                rest = dropWhile (\<lambda>b. b \<noteq> 10) chunk
            in if \<not> rd_active r1 \<or> rest = [] then r1
               else processBufferData maxBytes (tl rest) (deliver_taken maxBytes r1)))"
  by pat_completeness auto

termination
proof (relation "measure (\<lambda>(m, chunk, r). length chunk)", goal_cases)
  case (2 maxBytes chunk r r1 rest)
  then have "length rest \<le> length chunk" "rest \<noteq> []" by (simp_all add: length_dropWhile_le)
  then show ?case by (cases rest) simp_all
qed simp

declare processBufferData.simps [simp del]

definition utf8 :: "nat list \<Rightarrow> buffer" where
  "utf8 cps = concat (map utf8_bytes cps)"

function processStringData :: "nat \<Rightarrow> nat list \<Rightarrow> line_reader \<Rightarrow> line_reader" where
  "processStringData maxBytes chunk r =
     (if \<not> rd_active r \<or> chunk = [] then r
      else (let r1 = appendLine maxBytes (utf8 (takeWhile (\<lambda>c. c \<noteq> 10) chunk)) r;
                rest = dropWhile (\<lambda>c. c \<noteq> 10) chunk
            in if \<not> rd_active r1 \<or> rest = [] then r1
               else processStringData maxBytes (tl rest) (deliver_taken maxBytes r1)))"
  by pat_completeness auto

termination
proof (relation "measure (\<lambda>(m, chunk, r). length chunk)", goal_cases)
  case (2 maxBytes chunk r r1 rest)
  then have "length rest \<le> length chunk" "rest \<noteq> []" by (simp_all add: length_dropWhile_le)
  then show ?case by (cases rest) simp_all
qed simp

declare processStringData.simps [simp del]

definition processEnd :: "nat \<Rightarrow> line_reader \<Rightarrow> line_reader" where
  "processEnd maxBytes r =
     (if \<not> rd_active r then r
      else if lineBuffer r = [] then rd_detach r
      else (case takeLine False r of (line, r1) \<Rightarrow> deliverLine maxBytes line (rd_detach r1)))"

section \<open>Reentrant data\<close>

definition data_bytes :: "reentrant \<Rightarrow> nat" where
  "data_bytes ev = (case ev of ReData bs \<Rightarrow> length bs | _ \<Rightarrow> 0)"

text \<open>Bytes that are still to be processed: what is queued and what the callback will bring.\<close>

definition work_left :: "line_reader \<Rightarrow> nat" where
  "work_left r = length (pendingBuffer r) + sum_list (map (sum_list \<circ> map data_bytes) (reentry r))"

lemma work_detach [simp]: "work_left (rd_detach r) \<le> work_left r"
  by (simp add: work_left_def rd_detach_def)

lemma work_reenter: "work_left (reenter m ev r) \<le> work_left r + data_bytes ev"
proof (cases ev)
  case (ReData bs)
  then show ?thesis
    by (auto simp: queue_data_def rejectOversize_def rd_detach_def work_left_def data_bytes_def)
next
  case ReDetach
  then show ?thesis using work_detach [of r] by (simp add: data_bytes_def)
next
  case ReThrow
  then show ?thesis by (auto simp: rd_detach_def work_left_def)
qed (auto simp: queue_end_def work_left_def)

lemma work_callback: "work_left (run_callback m evs r) \<le> work_left r + sum_list (map data_bytes evs)"
proof (induction m evs r rule: run_callback.induct)
  case (2 m ev evs r)
  then show ?case using work_reenter [of m ev r] by (cases "ev = ReThrow") auto
qed simp

lemma work_deliver: "work_left (deliverLine m line r) \<le> work_left r"
proof (cases "reentry r")
  case Nil
  then show ?thesis by (simp add: deliverLine_def work_left_def)
next
  case (Cons evs script)
  then show ?thesis
    using work_callback [of m evs "r\<lparr>delivered := delivered r @ [line], reentry := script\<rparr>"]
    by (simp add: deliverLine_def) (simp add: work_left_def Cons)
qed

lemma work_deliver_taken: "work_left (deliver_taken m r) \<le> work_left r"
  using work_deliver [of m _ "r\<lparr>lineBuffer := []\<rparr>"]
  by (simp add: deliver_taken_def takeLine_def) (simp add: work_left_def)

lemma work_append: "work_left (appendLine m bs r) \<le> work_left r"
  by (auto simp: appendLine_def rejectOversize_def rd_detach_def work_left_def)

lemma work_process: "work_left (processBufferData m chunk r) \<le> work_left r"
proof (induction m chunk r rule: processBufferData.induct)
  case (1 m chunk r)
  show ?case
    using 1 work_append [of m "takeWhile (\<lambda>b. b \<noteq> 10) chunk" r]
      work_deliver_taken [of m "appendLine m (takeWhile (\<lambda>b. b \<noteq> 10) chunk) r"]
    by (subst processBufferData.simps) (force simp: Let_def)
qed

definition take_pending :: "line_reader \<Rightarrow> line_reader" where
  "take_pending r =
     r\<lparr>pendingBuffer := [], pendingCapacity := processingCapacity r,
       processingCapacity := pendingCapacity r\<rparr>"

function drain_loop :: "nat \<Rightarrow> line_reader \<Rightarrow> line_reader" where
  "drain_loop maxBytes r =
     (if \<not> rd_active r then r
      else if pendingBuffer r \<noteq> []
      then drain_loop maxBytes (processBufferData maxBytes (pendingBuffer r) (take_pending r))
      else if endQueued r then processEnd maxBytes r else r)"
  by pat_completeness auto

termination
proof (relation "measure (\<lambda>(m, r). work_left r)", goal_cases)
  case (2 m r)
  have "work_left (take_pending r) < work_left r"
    using 2 by (simp add: work_left_def take_pending_def)
  then show ?case using work_process [of m "pendingBuffer r" "take_pending r"] by simp
qed simp

declare drain_loop.simps [simp del]

definition drain :: "nat \<Rightarrow> line_reader \<Rightarrow> line_reader" where
  "drain maxBytes r =
     (if rd_processing r \<or> \<not> rd_active r then r
      else (drain_loop maxBytes (r\<lparr>rd_processing := True\<rparr>))\<lparr>rd_processing := False\<rparr>)"

section \<open>Events of the stream\<close>

definition reader_onData :: "nat \<Rightarrow> buffer \<Rightarrow> line_reader \<Rightarrow> line_reader" where
  "reader_onData maxBytes bs r =
     (if \<not> rd_active r \<or> endQueued r then r
      else if bs = [] then r
      else if \<not> rd_processing r
      then drain maxBytes
             ((processBufferData maxBytes bs (r\<lparr>rd_processing := True\<rparr>))\<lparr>rd_processing := False\<rparr>)
      else queue_data maxBytes bs r)"

definition reader_onStringData :: "nat \<Rightarrow> nat list \<Rightarrow> line_reader \<Rightarrow> line_reader" where
  "reader_onStringData maxBytes cps r =
     (if \<not> rd_active r \<or> endQueued r then r
      else if utf8 cps = [] then r
      else if \<not> rd_processing r
      then drain maxBytes
             ((processStringData maxBytes cps (r\<lparr>rd_processing := True\<rparr>))\<lparr>rd_processing := False\<rparr>)
      else queue_data maxBytes (utf8 cps) r)"

definition reader_onEnd :: "nat \<Rightarrow> line_reader \<Rightarrow> line_reader" where
  "reader_onEnd maxBytes r =
     (if \<not> rd_active r \<or> endQueued r then r else drain maxBytes (r\<lparr>endQueued := True\<rparr>))"

inductive reader_step :: "nat \<Rightarrow> line_reader \<Rightarrow> line_reader \<Rightarrow> bool" for maxBytes where
  reader_data: "reader_step maxBytes r (reader_onData maxBytes bs r)"
| reader_string: "reader_step maxBytes r (reader_onStringData maxBytes cps r)"
| reader_end: "reader_step maxBytes r (reader_onEnd maxBytes r)"
| reader_detach: "reader_step maxBytes r (rd_detach r)"

end
