(* ===== verification/Line_Reader_Runs.thy ===== *)
theory Line_Reader_Runs
  imports Line_Reader
begin

text \<open>
  What the line reader delivers (\<open>src/src/services/networkServers/boundedLineReader.ts\<close>): the
  specification that reads one byte after the other, its agreement with the chunk-wise code with and
  without reentrant callbacks, and the bounds on what the reader holds.
\<close>

section \<open>Lines as a function of the stream\<close>

text \<open>The specification: one byte after the other. The state is the open line, the lines delivered, and
  whether no line was too long.\<close>

type_synonym framing = "buffer \<times> buffer list \<times> bool"

definition line_step :: "nat \<Rightarrow> framing \<Rightarrow> byte \<Rightarrow> framing" where
  "line_step m st b =
     (case st of (acc, ls, ok) \<Rightarrow>
        if \<not> ok then st
        else if b = 10 then ([], ls @ [strip_cr acc], True)
        else if m < length acc + 1 then ([], ls, False) else (acc @ [b], ls, True))"

definition frame :: "nat \<Rightarrow> framing \<Rightarrow> buffer \<Rightarrow> framing" where
  "frame m st bs = foldl (line_step m) st bs"

lemma frame_simps [simp]: "frame m st [] = st" "frame m st (b # bs) = frame m (line_step m st b) bs"
  "frame m st (xs @ ys) = frame m (frame m st xs) ys"
  by (simp_all add: frame_def)

lemma frame_closed [simp]: "frame m (acc, ls, False) bs = (acc, ls, False)"
  by (induction bs) (simp_all add: line_step_def)

lemma frame_segment:
  "10 \<notin> set bs \<Longrightarrow> length acc \<le> m \<Longrightarrow>
    frame m (acc, ls, True) bs = (if length acc + length bs \<le> m then (acc @ bs, ls, True) else ([], ls, False))"
  by (induction bs arbitrary: acc) (auto simp: line_step_def)

definition framing_of :: "line_reader \<Rightarrow> framing" where
  "framing_of r = (lineBuffer r, delivered r, rd_active r)"

section \<open>Callbacks\<close>

definition callback_data :: "reentrant list \<Rightarrow> buffer" where
  "callback_data evs = concat (map (\<lambda>ev. case ev of ReData bs \<Rightarrow> bs | _ \<Rightarrow> []) evs)"

definition nested_data :: "nat \<Rightarrow> reentrant list list \<Rightarrow> buffer" where
  "nested_data k script = concat (map callback_data (take k script))"

lemma nested_data_add: "nested_data (i + j) script = nested_data i script @ nested_data j (drop i script)"
  by (simp add: nested_data_def take_add)

lemma nested_data_0 [simp]: "nested_data 0 script = []" "nested_data k [] = []"
  by (simp_all add: nested_data_def)

text \<open>A reader that goes on after a callback has only been given data by it.\<close>

definition goes_on :: "line_reader \<Rightarrow> bool" where
  "goes_on r \<longleftrightarrow> rd_active r \<and> \<not> endQueued r"

lemma reenter_goes_on:
  assumes "goes_on (reenter m ev r)"
  shows "goes_on r \<and> ev \<noteq> ReThrow \<and> pendingBuffer (reenter m ev r) = pendingBuffer r @ (case ev of ReData bs \<Rightarrow> bs | _ \<Rightarrow> [])
    \<and> lineBuffer (reenter m ev r) = lineBuffer r \<and> delivered (reenter m ev r) = delivered r
    \<and> reentry (reenter m ev r) = reentry r"
  using assms
  by (cases ev) (auto simp: goes_on_def queue_data_def queue_end_def rejectOversize_def rd_detach_def split: if_splits)

lemma callback_goes_on:
  "goes_on (run_callback m evs r) \<Longrightarrow>
    goes_on r \<and> pendingBuffer (run_callback m evs r) = pendingBuffer r @ callback_data evs
    \<and> lineBuffer (run_callback m evs r) = lineBuffer r \<and> delivered (run_callback m evs r) = delivered r
    \<and> reentry (run_callback m evs r) = reentry r"
proof (induction m evs r rule: run_callback.induct)
  case (2 m ev evs r)
  show ?case
  proof (cases "ev = ReThrow")
    case True
    then have "goes_on (reenter m ev r)" using "2.prems" by simp
    from reenter_goes_on [OF this] show ?thesis using True by simp
  next
    case False
    then have n: "run_callback m (ev # evs) r = run_callback m evs (reenter m ev r)" by simp
    note IH = "2.IH" [OF False "2.prems" [unfolded n]]
    from reenter_goes_on [of m ev r] IH show ?thesis unfolding n by (simp add: callback_data_def)
  qed
qed (simp add: callback_data_def)

lemma deliver_goes_on:
  assumes "goes_on (deliver_taken m r)"
  shows "goes_on r \<and> pendingBuffer (deliver_taken m r) = pendingBuffer r @ nested_data 1 (reentry r)
    \<and> lineBuffer (deliver_taken m r) = [] \<and> delivered (deliver_taken m r) = delivered r @ [strip_cr (lineBuffer r)]
    \<and> reentry (deliver_taken m r) = drop 1 (reentry r)"
proof -
  have "drop 1 (reentry r) = tl (reentry r)" by (simp add: drop_Suc)
  then show ?thesis
    using callback_goes_on [OF assms [unfolded deliver_taken_def takeLine_def deliverLine_def prod.case]]
    by (cases "reentry r") (auto simp: deliver_taken_def takeLine_def deliverLine_def nested_data_def goes_on_def callback_data_def)
qed

text \<open>Without script the callback does nothing.\<close>

lemma deliver_plain:
  "reentry r = [] \<Longrightarrow> deliver_taken m r = r\<lparr>lineBuffer := [], delivered := delivered r @ [strip_cr (lineBuffer r)]\<rparr>"
  by (simp add: deliver_taken_def takeLine_def deliverLine_def)

lemma reenter_empty: "lineBuffer r = [] \<Longrightarrow> lineBuffer (reenter m ev r) = []"
  by (cases ev) (auto simp: queue_data_def queue_end_def rejectOversize_def rd_detach_def)

lemma callback_empty: "lineBuffer r = [] \<Longrightarrow> lineBuffer (run_callback m evs r) = []"
  by (induction m evs r rule: run_callback.induct) (auto simp: reenter_empty simp del: reenter.simps)

lemma deliver_empty [simp]: "lineBuffer (deliver_taken m r) = []"
  by (simp add: deliver_taken_def takeLine_def deliverLine_def callback_empty)

section \<open>A chunk\<close>

lemma append_framing:
  assumes "rd_active r" "length (lineBuffer r) \<le> m" "10 \<notin> set bs"
  shows "framing_of (appendLine m bs r) = frame m (framing_of r) bs"
  using assms by (auto simp: framing_of_def appendLine_def frame_segment rejectOversize_def rd_detach_def)

lemma append_goes_on:
  assumes "goes_on (appendLine m bs r)"
  shows "goes_on r \<and> pendingBuffer (appendLine m bs r) = pendingBuffer r \<and> reentry (appendLine m bs r) = reentry r
    \<and> delivered (appendLine m bs r) = delivered r"
  using assms by (auto simp: goes_on_def appendLine_def rejectOversize_def rd_detach_def split: if_splits)

lemma split_newline:
  fixes chunk :: buffer
  assumes "dropWhile (\<lambda>b. b \<noteq> 10) chunk \<noteq> []"
  shows "chunk = takeWhile (\<lambda>b. b \<noteq> 10) chunk @ 10 # tl (dropWhile (\<lambda>b. b \<noteq> 10) chunk)"
proof -
  have "hd (dropWhile (\<lambda>b. b \<noteq> 10) chunk) = 10" using hd_dropWhile [OF assms] by simp
  then show ?thesis using assms takeWhile_dropWhile_id [of "\<lambda>b. b \<noteq> 10" chunk] by (metis list.collapse)
qed

lemma takeWhile_no_newline [simp]: "10 \<notin> set (takeWhile (\<lambda>b. b \<noteq> 10) (chunk :: buffer))"
  by (auto dest: set_takeWhileD)

lemma inactive_process [simp]: "\<not> rd_active r \<Longrightarrow> processBufferData m chunk r = r"
  by (simp add: processBufferData.simps)

lemma process_line:
  assumes "\<not> (\<not> rd_active r \<or> chunk = [])" "r1 = appendLine m (takeWhile (\<lambda>b. b \<noteq> 10) chunk) r"
    "rest = dropWhile (\<lambda>b. b \<noteq> 10) chunk" "\<not> (\<not> rd_active r1 \<or> rest = [])"
  shows "processBufferData m chunk r = processBufferData m (tl rest) (deliver_taken m r1)"
  using processBufferData.simps [of m chunk r] assms(1,4) by (simp only: Let_def assms(2,3) if_False)

lemma process_partial:
  assumes "\<not> (\<not> rd_active r \<or> chunk = [])" "r1 = appendLine m (takeWhile (\<lambda>b. b \<noteq> 10) chunk) r"
    "\<not> rd_active r1 \<or> dropWhile (\<lambda>b. b \<noteq> 10) chunk = []"
  shows "processBufferData m chunk r = r1"
  using processBufferData.simps [of m chunk r] assms(1,3) by (simp only: Let_def assms(2) if_False if_True)

lemma process_goes_on:
  assumes "goes_on (processBufferData m chunk r)" "length (lineBuffer r) \<le> m"
  shows "goes_on r \<and> (\<exists>k. framing_of (processBufferData m chunk r) = frame m (framing_of r) chunk
    \<and> pendingBuffer (processBufferData m chunk r) = pendingBuffer r @ nested_data k (reentry r)
    \<and> reentry (processBufferData m chunk r) = drop k (reentry r)
    \<and> length (delivered (processBufferData m chunk r)) = length (delivered r) + k)"
  using assms
proof (induction m chunk r rule: processBufferData.induct)
  case (1 m chunk r)
  let ?pre = "takeWhile (\<lambda>b. b \<noteq> 10) chunk" and ?rest = "dropWhile (\<lambda>b. b \<noteq> 10) chunk"
  let ?r1 = "appendLine m ?pre r"
  let ?r2 = "deliver_taken m ?r1"
  show ?case
  proof (cases "\<not> rd_active r \<or> chunk = []")
    case True
    then show ?thesis using "1.prems" by (auto simp: processBufferData.simps goes_on_def intro: exI [of _ 0])
  next
    case False
    note f1 = append_framing [of r m ?pre] and act = False
    show ?thesis
    proof (cases "\<not> rd_active ?r1 \<or> ?rest = []")
      case True
      have p: "processBufferData m chunk r = ?r1" by (rule process_partial [OF act refl True])
      then have g: "goes_on ?r1" using "1.prems"(1) by simp
      then have pc: "?pre = chunk" using True by (metis goes_on_def append_Nil2 takeWhile_dropWhile_id)
      have "framing_of ?r1 = frame m (framing_of r) chunk" using f1 act "1.prems"(2) unfolding pc by (metis pc takeWhile_no_newline)
      then show ?thesis using append_goes_on [OF g] unfolding p by (intro conjI exI [of _ 0]) simp_all
    next
      case False
      have p: "processBufferData m chunk r = processBufferData m (tl ?rest) ?r2"
        by (rule process_line [OF act refl refl False])
      have "length (lineBuffer ?r2) \<le> m" by simp
      note IH = "1.IH" [OF act refl refl False "1.prems"(1) [unfolded p] this, folded p]
      obtain k where k: "goes_on ?r2" "framing_of (processBufferData m chunk r) = frame m (framing_of ?r2) (tl ?rest)"
        "pendingBuffer (processBufferData m chunk r) = pendingBuffer ?r2 @ nested_data k (reentry ?r2)"
        "reentry (processBufferData m chunk r) = drop k (reentry ?r2)"
        "length (delivered (processBufferData m chunk r)) = length (delivered ?r2) + k"
        using IH by blast
      note d = deliver_goes_on [OF k(1)]
      then have a: "goes_on ?r1" by simp
      note a' = append_goes_on [OF a]
      have fr: "framing_of ?r1 = frame m (framing_of r) ?pre" using f1 act "1.prems"(2) by simp
      have "framing_of ?r2 = line_step m (framing_of ?r1) 10"
        using d a k(1) by (simp add: framing_of_def line_step_def goes_on_def)
      then have f2: "framing_of ?r2 = frame m (framing_of r) (?pre @ [10])" using fr by simp
      have c: "chunk = (?pre @ [10]) @ tl ?rest" using split_newline [of chunk] False by simp
      have "framing_of (processBufferData m chunk r) = frame m (framing_of r) ((?pre @ [10]) @ tl ?rest)"
        unfolding k(2) f2 by (rule frame_simps(3) [symmetric])
      also have "\<dots> = frame m (framing_of r) chunk" by (rule arg_cong [OF c [symmetric]])
      finally have "framing_of (processBufferData m chunk r) = frame m (framing_of r) chunk" .
      moreover have "pendingBuffer (processBufferData m chunk r) = pendingBuffer r @ nested_data (1 + k) (reentry r)"
        unfolding k(3) nested_data_add using d a' by (metis append_assoc)
      moreover have "reentry (processBufferData m chunk r) = drop (1 + k) (reentry r)"
        unfolding k(4) using d a' by (metis drop_drop add.commute)
      moreover have "length (delivered (processBufferData m chunk r)) = length (delivered r) + (1 + k)"
      proof -
        have "length (delivered ?r2) = length (delivered r) + 1" using d a' by (metis length_append_singleton Suc_eq_plus1)
        then show ?thesis unfolding k(5) by linarith
      qed
      moreover have "goes_on r" using a' by blast
      ultimately show ?thesis by blast
    qed
  qed
qed

lemma process_plain:
  assumes "reentry r = []" "length (lineBuffer r) \<le> m"
  shows "framing_of (processBufferData m chunk r) = frame m (framing_of r) chunk
    \<and> reentry (processBufferData m chunk r) = [] \<and> (pendingBuffer r = [] \<longrightarrow> pendingBuffer (processBufferData m chunk r) = [])
    \<and> (\<not> endQueued r \<longrightarrow> \<not> endQueued (processBufferData m chunk r))"
  using assms
proof (induction m chunk r rule: processBufferData.induct)
  case (1 m chunk r)
  let ?pre = "takeWhile (\<lambda>b. b \<noteq> 10) chunk" and ?rest = "dropWhile (\<lambda>b. b \<noteq> 10) chunk"
  let ?r1 = "appendLine m ?pre r"
  let ?r2 = "deliver_taken m ?r1"
  have e1: "reentry ?r1 = []" "pendingBuffer r = [] \<longrightarrow> pendingBuffer ?r1 = []" "\<not> endQueued r \<longrightarrow> \<not> endQueued ?r1"
    using "1.prems"(1) by (auto simp: appendLine_def rejectOversize_def rd_detach_def)
  show ?case
  proof (cases "\<not> rd_active r \<or> chunk = []")
    case True
    then show ?thesis using "1.prems" by (auto simp: processBufferData.simps framing_of_def)
  next
    case act: False
    have fr: "framing_of ?r1 = frame m (framing_of r) ?pre" using append_framing act "1.prems"(2) by simp
    show ?thesis
    proof (cases "\<not> rd_active ?r1 \<or> ?rest = []")
      case True
      have p: "processBufferData m chunk r = ?r1" by (rule process_partial [OF act refl True])
      have "frame m (framing_of ?r1) ?rest = framing_of ?r1"
      proof (cases "?rest = []")
        case rest: False
        then have "\<not> rd_active ?r1" using True by blast
        then show ?thesis by (simp add: framing_of_def)
      qed (simp only: frame_simps)
      then have "framing_of ?r1 = frame m (framing_of r) chunk"
        using fr by (metis frame_simps(3) takeWhile_dropWhile_id)
      then show ?thesis using e1 p by simp
    next
      case False
      have p: "processBufferData m chunk r = processBufferData m (tl ?rest) ?r2"
        by (rule process_line [OF act refl refl False])
      note d = deliver_plain [OF e1(1), of m]
      note IH = "1.IH" [OF act refl refl False]
      have "framing_of ?r2 = line_step m (framing_of ?r1) 10"
        using False by (simp add: d framing_of_def line_step_def)
      then have "framing_of ?r2 = frame m (framing_of r) (?pre @ [10])" using fr by simp
      moreover have "chunk = (?pre @ [10]) @ tl ?rest" using split_newline [of chunk] False by simp
      ultimately have "frame m (framing_of ?r2) (tl ?rest) = frame m (framing_of r) chunk" by (metis frame_simps(3))
      then show ?thesis using IH e1 by (simp add: p) (simp add: d)
    qed
  qed
qed

section \<open>Bounds\<close>

definition capacity_bound :: "nat \<Rightarrow> nat" where
  "capacity_bound m = max 64 (2 * m)"

definition rd_bounded :: "nat \<Rightarrow> line_reader \<Rightarrow> bool" where
  "rd_bounded m r \<longleftrightarrow>
     length (lineBuffer r) \<le> m \<and> length (pendingBuffer r) \<le> m \<and> list_all (\<lambda>l. length l \<le> m) (delivered r)
     \<and> length (lineBuffer r) \<le> lineCapacity r \<and> lineCapacity r \<le> capacity_bound m
     \<and> length (pendingBuffer r) \<le> pendingCapacity r \<and> pendingCapacity r \<le> capacity_bound m
     \<and> processingCapacity r \<le> capacity_bound m"

lemma grow_bounds: "needed \<le> m \<Longrightarrow> c \<le> capacity_bound m \<Longrightarrow> needed \<le> grow c needed \<and> grow c needed \<le> capacity_bound m"
  by (auto simp: grow_def capacity_bound_def Let_def)

lemma bounded_detach: "rd_bounded m r \<Longrightarrow> rd_bounded m (rd_detach r)"
  by (simp add: rd_bounded_def rd_detach_def)

lemma bounded_reject: "rd_bounded m r \<Longrightarrow> rd_bounded m (rejectOversize r)"
  by (simp add: rd_bounded_def rd_detach_def rejectOversize_def)

lemma bounded_append: "rd_bounded m r \<Longrightarrow> rd_bounded m (appendLine m bs r)"
  using grow_bounds [of "length (lineBuffer r) + length bs" m "lineCapacity r"] bounded_reject [of m r]
  by (simp add: appendLine_def rd_bounded_def)

lemma bounded_reenter: "rd_bounded m r \<Longrightarrow> rd_bounded m (reenter m ev r)"
proof (cases ev)
  case (ReData bs)
  assume "rd_bounded m r"
  then show ?thesis
    using grow_bounds [of "length (pendingBuffer r) + length bs" m "pendingCapacity r"] bounded_reject [of m r] ReData
    by (simp add: queue_data_def rd_bounded_def)
next
  case ReThrow
  assume "rd_bounded m r"
  then show ?thesis using bounded_detach [of m r] ReThrow by (simp add: rd_bounded_def)
qed (auto simp: bounded_detach, simp add: queue_end_def rd_bounded_def)

lemma bounded_callback: "rd_bounded m r \<Longrightarrow> rd_bounded m (run_callback m evs r)"
  by (induction m evs r rule: run_callback.induct) (auto simp: bounded_reenter simp del: reenter.simps)

lemma bounded_deliver: "rd_bounded m r \<Longrightarrow> length line \<le> m \<Longrightarrow> rd_bounded m (deliverLine m line r)"
  unfolding deliverLine_def by (rule bounded_callback) (simp add: rd_bounded_def)

lemma strip_cr_length: "length (strip_cr bs) \<le> length bs"
  by (simp add: strip_cr_def)

lemma bounded_deliver_taken: "rd_bounded m r \<Longrightarrow> rd_bounded m (deliver_taken m r)"
  unfolding deliver_taken_def takeLine_def prod.case if_True
  by (rule bounded_deliver) (use strip_cr_length [of "lineBuffer r"] in \<open>simp_all add: rd_bounded_def\<close>)

lemma bounded_process: "rd_bounded m r \<Longrightarrow> rd_bounded m (processBufferData m chunk r)"
proof (induction m chunk r rule: processBufferData.induct)
  case (1 m chunk r)
  show ?case
    using 1 bounded_append [of m r "takeWhile (\<lambda>b. b \<noteq> 10) chunk"]
      bounded_deliver_taken [of m "appendLine m (takeWhile (\<lambda>b. b \<noteq> 10) chunk) r"]
    by (subst processBufferData.simps) (simp add: Let_def)
qed

lemma bounded_end: "rd_bounded m r \<Longrightarrow> rd_bounded m (processEnd m r)"
proof -
  assume b: "rd_bounded m r"
  have "rd_bounded m (rd_detach (r\<lparr>lineBuffer := []\<rparr>))" using b by (simp add: rd_bounded_def rd_detach_def)
  then show ?thesis
    using bounded_deliver [of m "rd_detach (r\<lparr>lineBuffer := []\<rparr>)" "lineBuffer r"] bounded_detach [OF b] b
    by (auto simp: processEnd_def takeLine_def rd_bounded_def [of m r])
qed

lemma bounded_take_pending: "rd_bounded m r \<Longrightarrow> rd_bounded m (take_pending r)"
  by (simp add: rd_bounded_def take_pending_def)

lemma bounded_drain_loop: "rd_bounded m r \<Longrightarrow> rd_bounded m (drain_loop m r)"
proof (induction m r rule: drain_loop.induct)
  case (1 m r)
  then show ?case
    using bounded_process [OF bounded_take_pending [OF "1.prems"], of "pendingBuffer r"] bounded_end [OF "1.prems"]
    by (subst drain_loop.simps) simp
qed

lemma bounded_flag [simp]: "rd_bounded m (r\<lparr>rd_processing := b\<rparr>) = rd_bounded m r" "rd_bounded m (r\<lparr>endQueued := b\<rparr>) = rd_bounded m r"
  by (simp_all add: rd_bounded_def)

lemma bounded_drain: "rd_bounded m r \<Longrightarrow> rd_bounded m (drain m r)"
  by (simp add: drain_def bounded_drain_loop)

lemma queue_data_reenter: "queue_data m bs r = reenter m (ReData bs) r"
  by simp

lemma bounded_onData: "rd_bounded m r \<Longrightarrow> rd_bounded m (reader_onData m bs r)"
  using bounded_reenter [of m r "ReData bs"] by (auto simp: reader_onData_def bounded_drain bounded_process)

section \<open>Strings\<close>

lemma utf8_no_newline: "cp \<noteq> 10 \<Longrightarrow> cp < 1114112 \<Longrightarrow> (10 :: byte) \<notin> set (utf8_bytes cp)"
proof -
  assume a: "cp \<noteq> 10" "cp < 1114112"
  have small: "(10 :: byte) \<noteq> word_of_nat n" if "n < 256" "n \<noteq> 10" for n
  proof
    assume "(10 :: byte) = word_of_nat n"
    then have "unat (10 :: byte) = n" by (simp only: unat_byte_of_nat [OF that(1)])
    then show False using that(2) by simp
  qed
  have head: "192 + cp div 64 < 256" if "cp < 2048" using that by simp
  have head3: "224 + cp div 4096 < 256" if "cp < 65536" using that by simp
  have head4: "240 + cp div 262144 < 256" using a(2) by simp
  show ?thesis
    using a head head3 head4 by (auto simp: utf8_bytes_def small simp del: of_nat_add)
qed

lemma utf8_simps [simp]: "utf8 [] = []" "utf8 (c # cs) = utf8_bytes c @ utf8 cs" "utf8 (xs @ ys) = utf8 xs @ utf8 ys"
  by (simp_all add: utf8_def)

lemma utf8_segment: "list_all (\<lambda>c. c < 1114112) cs \<Longrightarrow>
  takeWhile (\<lambda>b. b \<noteq> 10) (utf8 cs) = utf8 (takeWhile (\<lambda>c. c \<noteq> 10) cs)
  \<and> dropWhile (\<lambda>b. b \<noteq> 10) (utf8 cs) = utf8 (dropWhile (\<lambda>c. c \<noteq> 10) cs)"
proof (induction cs)
  case (Cons c cs)
  show ?case
  proof (cases "c = 10")
    case True
    then show ?thesis by (simp add: utf8_bytes_def)
  next
    case False
    then have "\<forall>b \<in> set (utf8_bytes c). b \<noteq> 10" using utf8_no_newline [of c] Cons.prems by auto
    then show ?thesis using False Cons by (simp add: takeWhile_append2 dropWhile_append2)
  qed
qed simp

lemma utf8_empty [simp]: "utf8 cs = [] \<longleftrightarrow> cs = []"
  by (cases cs) (simp_all add: utf8_bytes_def)

lemma set_tl_subset: "set (tl xs) \<subseteq> set xs"
  by (cases xs) auto

lemma string_process:
  "list_all (\<lambda>c. c < 1114112) cs \<Longrightarrow> processStringData m cs r = processBufferData m (utf8 cs) r"
proof (induction m cs r rule: processStringData.induct)
  case (1 m cs r)
  let ?rest = "dropWhile (\<lambda>c. c \<noteq> 10) cs" and ?r1 = "appendLine m (utf8 (takeWhile (\<lambda>c. c \<noteq> 10) cs)) r"
  have tl: "tl (utf8 ?rest) = utf8 (tl ?rest)" if "?rest \<noteq> []"
    using hd_dropWhile [OF that] that by (cases ?rest) (simp_all add: utf8_bytes_def)
  have small: "list_all (\<lambda>c. c < 1114112) (tl ?rest)"
  proof -
    have "set (tl ?rest) \<subseteq> set ?rest" by (rule set_tl_subset)
    also have "\<dots> \<subseteq> set cs" by (auto dest: set_dropWhileD)
    finally show ?thesis using "1.prems" by (auto simp: list_all_iff)
  qed
  show ?case
  proof (cases "\<not> rd_active r \<or> cs = []")
    case True
    then show ?thesis by (auto simp: processStringData.simps processBufferData.simps)
  next
    case act: False
    show ?thesis
    proof (cases "\<not> rd_active ?r1 \<or> ?rest = []")
      case True
      then show ?thesis using act utf8_segment [OF "1.prems"]
        by (subst processStringData.simps, subst processBufferData.simps) (auto simp: Let_def)
    next
      case False
      have "processStringData m cs r = processStringData m (tl ?rest) (deliver_taken m ?r1)"
        using processStringData.simps [of m cs r] act False by (simp only: Let_def if_False)
      also have "\<dots> = processBufferData m (utf8 (tl ?rest)) (deliver_taken m ?r1)"
        by (rule "1.IH" [OF act refl refl False small])
      also have "\<dots> = processBufferData m (utf8 cs) r"
        using process_line [of r "utf8 cs" ?r1 m "utf8 ?rest"] act False utf8_segment [OF "1.prems"] tl by simp
      finally show ?thesis .
    qed
  qed
qed

lemma string_onData:
  "list_all (\<lambda>c. c < 1114112) cs \<Longrightarrow> reader_onStringData m cs r = reader_onData m (utf8 cs) r"
  by (simp add: reader_onStringData_def reader_onData_def string_process)

section \<open>A whole event\<close>

lemma drain_loop_pending:
  "rd_active r \<Longrightarrow> pendingBuffer r \<noteq> [] \<Longrightarrow>
    drain_loop m r = drain_loop m (processBufferData m (pendingBuffer r) (take_pending r))"
  by (subst drain_loop.simps) simp

lemma drain_loop_idle: "pendingBuffer r = [] \<Longrightarrow> drain_loop m r = (if rd_active r \<and> endQueued r then processEnd m r else r)"
  by (subst drain_loop.simps) simp

lemma drain_loop_inactive: "\<not> rd_active r \<Longrightarrow> drain_loop m r = r"
  by (subst drain_loop.simps) simp

lemma reenter_inactive: "\<not> rd_active r \<Longrightarrow> \<not> rd_active (reenter m ev r)"
  by (cases ev) (simp_all add: queue_data_def queue_end_def rd_detach_def)

lemma callback_inactive: "\<not> rd_active r \<Longrightarrow> \<not> rd_active (run_callback m evs r)"
  by (induction m evs r rule: run_callback.induct) (auto simp: reenter_inactive simp del: reenter.simps)

lemma end_inactive [simp]: "\<not> rd_active (processEnd m r)"
  by (auto simp: processEnd_def takeLine_def deliverLine_def rd_detach_def intro!: callback_inactive)

text \<open>Once the end is queued, it stays so until the reader is detached.\<close>

definition ending :: "line_reader \<Rightarrow> bool" where
  "ending r \<longleftrightarrow> endQueued r \<or> \<not> rd_active r"

lemma not_ending: "\<not> ending r \<longleftrightarrow> goes_on r"
  by (auto simp: ending_def goes_on_def)

lemma process_ending:
  assumes "ending r" "length (lineBuffer r) \<le> m"
  shows "ending (processBufferData m chunk r)"
  using process_goes_on [of m chunk r] assms not_ending by blast

lemma take_pending_simps [simp]:
  "lineBuffer (take_pending r) = lineBuffer r" "rd_active (take_pending r) = rd_active r"
  "endQueued (take_pending r) = endQueued r" "pendingBuffer (take_pending r) = []"
  "reentry (take_pending r) = reentry r" "delivered (take_pending r) = delivered r"
  "framing_of (take_pending r) = framing_of r" "ending (take_pending r) = ending r"
  by (simp_all add: take_pending_def framing_of_def ending_def)

lemma bounded_line [simp]: "rd_bounded m r \<Longrightarrow> length (lineBuffer r) \<le> m"
  by (simp add: rd_bounded_def)

lemma drain_loop_ending: "ending r \<Longrightarrow> rd_bounded m r \<Longrightarrow> \<not> rd_active (drain_loop m r)"
proof (induction m r rule: drain_loop.induct)
  case (1 m r)
  show ?case
  proof (cases "\<not> rd_active r \<or> pendingBuffer r = []")
    case True
    then show ?thesis using "1.prems"(1) by (cases "rd_active r") (auto simp: drain_loop_inactive drain_loop_idle ending_def)
  next
    case False
    let ?r1 = "processBufferData m (pendingBuffer r) (take_pending r)"
    have "ending ?r1" using process_ending [of "take_pending r" m] "1.prems" by simp
    moreover have "rd_bounded m ?r1" by (intro bounded_process bounded_take_pending "1.prems")
    ultimately show ?thesis using "1.IH" False by (auto simp: drain_loop_pending)
  qed
qed

text \<open>A reader that can go on after an event has come back to rest.\<close>

lemma drain_loop_framing:
  assumes "rd_active (drain_loop m r)" "rd_bounded m r"
  shows "\<exists>k. framing_of (drain_loop m r) = frame m (framing_of r) (pendingBuffer r @ nested_data k (reentry r))
    \<and> pendingBuffer (drain_loop m r) = [] \<and> \<not> endQueued (drain_loop m r)
    \<and> reentry (drain_loop m r) = drop k (reentry r)
    \<and> length (delivered (drain_loop m r)) = length (delivered r) + k"
  using assms
proof (induction m r rule: drain_loop.induct)
  case (1 m r)
  have r: "goes_on r" using drain_loop_ending [of r m] "1.prems" not_ending by blast
  show ?case
  proof (cases "pendingBuffer r = []")
    case True
    then show ?thesis using r by (auto simp: drain_loop_idle goes_on_def intro: exI [of _ 0])
  next
    case False
    let ?r1 = "processBufferData m (pendingBuffer r) (take_pending r)"
    have d: "drain_loop m r = drain_loop m ?r1" using r False by (simp add: drain_loop_pending goes_on_def)
    have b: "rd_bounded m ?r1" by (intro bounded_process bounded_take_pending "1.prems"(2))
    then have "goes_on ?r1" using drain_loop_ending [of ?r1 m] "1.prems"(1) not_ending by (auto simp: d)
    from process_goes_on [OF this] obtain i where
      i: "framing_of ?r1 = frame m (framing_of r) (pendingBuffer r)" "pendingBuffer ?r1 = nested_data i (reentry r)"
      "reentry ?r1 = drop i (reentry r)" "length (delivered ?r1) = length (delivered r) + i"
      using "1.prems"(2) by auto
    have a: "\<not> \<not> rd_active r" using r by (simp add: goes_on_def)
    obtain j where
      j: "framing_of (drain_loop m ?r1) = frame m (framing_of ?r1) (pendingBuffer ?r1 @ nested_data j (reentry ?r1))"
      "pendingBuffer (drain_loop m ?r1) = []" "\<not> endQueued (drain_loop m ?r1)"
      "reentry (drain_loop m ?r1) = drop j (reentry ?r1)"
      "length (delivered (drain_loop m ?r1)) = length (delivered ?r1) + j"
      using "1.IH" [OF a False "1.prems"(1) [unfolded d] b] by blast
    show ?thesis
      unfolding d using i j by (intro exI [of _ "i + j"]) (simp add: nested_data_add add.commute)
  qed
qed

text \<open>A reader at rest, between two events of the stream.\<close>

definition at_rest :: "line_reader \<Rightarrow> bool" where
  "at_rest r \<longleftrightarrow> rd_active r \<and> \<not> endQueued r \<and> \<not> rd_processing r \<and> pendingBuffer r = []"

lemma framing_flag [simp]: "framing_of (r\<lparr>rd_processing := b\<rparr>) = framing_of r"
  by (simp add: framing_of_def)

lemma onData_rest:
  "at_rest r \<Longrightarrow> bs \<noteq> [] \<Longrightarrow>
    reader_onData m bs r =
      drain m ((processBufferData m bs (r\<lparr>rd_processing := True\<rparr>))\<lparr>rd_processing := False\<rparr>)"
  by (simp add: reader_onData_def at_rest_def)

lemma drain_unfold:
  "\<not> rd_processing r \<Longrightarrow> rd_active r \<Longrightarrow> drain m r = (drain_loop m (r\<lparr>rd_processing := True\<rparr>))\<lparr>rd_processing := False\<rparr>"
  by (simp add: drain_def)

lemma onData_framing:
  assumes "at_rest r" "rd_bounded m r" "rd_active (reader_onData m bs r)"
  shows "\<exists>k. framing_of (reader_onData m bs r) = frame m (framing_of r) (bs @ nested_data k (reentry r))
    \<and> reentry (reader_onData m bs r) = drop k (reentry r)
    \<and> length (delivered (reader_onData m bs r)) = length (delivered r) + k
    \<and> at_rest (reader_onData m bs r)"
proof (cases "bs = []")
  case True
  then show ?thesis using assms(1) by (intro exI [of _ 0]) (simp add: reader_onData_def)
next
  case False
  let ?p = "processBufferData m bs (r\<lparr>rd_processing := True\<rparr>)"
  let ?d = "drain_loop m (?p\<lparr>rd_processing := True\<rparr>)"
  have b: "rd_bounded m (?p\<lparr>rd_processing := True\<rparr>)" using bounded_process [of m "r\<lparr>rd_processing := True\<rparr>" bs] assms(2) by simp
  have act: "rd_active ?p"
    using assms(3) onData_rest [OF assms(1) False, of m] by (auto simp: drain_def split: if_splits)
  have e: "reader_onData m bs r = ?d\<lparr>rd_processing := False\<rparr>"
    unfolding onData_rest [OF assms(1) False] by (subst drain_unfold) (simp_all add: act)
  have g: "goes_on ?p" using drain_loop_ending [OF _ b] assms(3) not_ending by (auto simp: e ending_def goes_on_def)
  obtain i where i: "framing_of ?p = frame m (framing_of r) bs" "pendingBuffer ?p = nested_data i (reentry r)"
      "reentry ?p = drop i (reentry r)" "length (delivered ?p) = length (delivered r) + i"
    using process_goes_on [OF g] assms(1,2) by (auto simp: at_rest_def)
  obtain j where j: "framing_of ?d = frame m (framing_of ?p) (pendingBuffer ?p @ nested_data j (reentry ?p))"
      "pendingBuffer ?d = []" "\<not> endQueued ?d" "reentry ?d = drop j (reentry ?p)"
      "length (delivered ?d) = length (delivered ?p) + j"
    using drain_loop_framing [OF _ b] assms(3) by (auto simp: e)
  show ?thesis
    unfolding e using i j assms(3)
    by (intro exI [of _ "i + j"]) (simp add: e nested_data_add add.commute at_rest_def)
qed

section \<open>Without reentrancy\<close>

definition feed :: "nat \<Rightarrow> buffer list \<Rightarrow> line_reader \<Rightarrow> line_reader" where
  "feed m chunks r = foldl (\<lambda>r bs. reader_onData m bs r) r chunks"

definition error_count :: "line_reader \<Rightarrow> bool" where
  "error_count r \<longleftrightarrow> framingErrors r = (if rd_active r then 0 else 1)"

lemma error_append: "error_count r \<Longrightarrow> error_count (appendLine m bs r)"
  by (auto simp: error_count_def appendLine_def rejectOversize_def rd_detach_def)

lemma error_process: "reentry r = [] \<Longrightarrow> error_count r \<Longrightarrow> error_count (processBufferData m chunk r)"
proof (induction m chunk r rule: processBufferData.induct)
  case (1 m chunk r)
  let ?r1 = "appendLine m (takeWhile (\<lambda>b. b \<noteq> 10) chunk) r"
  have e: "error_count ?r1" "reentry ?r1 = []"
    using "1.prems" error_append by (auto simp: appendLine_def rejectOversize_def rd_detach_def)
  have d: "error_count (deliver_taken m ?r1)" "reentry (deliver_taken m ?r1) = []"
    using e by (simp_all add: deliver_plain error_count_def)
  show ?case
    using "1.prems" e d "1.IH" by (subst processBufferData.simps) (simp add: Let_def)
qed

definition plain_rest :: "line_reader \<Rightarrow> bool" where
  "plain_rest r \<longleftrightarrow> reentry r = [] \<and> \<not> rd_processing r \<and> \<not> endQueued r \<and> pendingBuffer r = [] \<and> error_count r"

lemma onData_plain:
  assumes "plain_rest r" "rd_bounded m r"
  shows "framing_of (reader_onData m bs r) = frame m (framing_of r) bs \<and> plain_rest (reader_onData m bs r)"
proof (cases "\<not> rd_active r \<or> bs = []")
  case True
  then show ?thesis using assms(1) by (auto simp: reader_onData_def framing_of_def)
next
  case False
  let ?r = "r\<lparr>rd_processing := True\<rparr>"
  let ?p = "processBufferData m bs ?r"
  have p: "framing_of ?p = frame m (framing_of r) bs" "reentry ?p = []" "pendingBuffer ?p = []" "\<not> endQueued ?p"
    using process_plain [of ?r m bs] assms by (simp_all add: plain_rest_def)
  have c: "error_count ?p" using error_process [of ?r m bs] assms(1) by (simp add: plain_rest_def error_count_def)
  have e: "reader_onData m bs r = drain m (?p\<lparr>rd_processing := False\<rparr>)"
    using False assms(1) by (intro onData_rest) (simp_all add: at_rest_def plain_rest_def)
  have "drain m (?p\<lparr>rd_processing := False\<rparr>) = ?p\<lparr>rd_processing := False\<rparr>"
    using p(3,4) by (simp add: drain_def drain_loop_idle)
  then show ?thesis using p c by (simp add: e plain_rest_def error_count_def)
qed

lemma feed_plain:
  "plain_rest r \<Longrightarrow> rd_bounded m r \<Longrightarrow>
    framing_of (feed m chunks r) = frame m (framing_of r) (concat chunks) \<and> plain_rest (feed m chunks r)
    \<and> rd_bounded m (feed m chunks r)"
proof (induction chunks arbitrary: r)
  case (Cons bs chunks)
  have "feed m (bs # chunks) r = feed m chunks (reader_onData m bs r)" by (simp add: feed_def)
  then show ?case
    using Cons.IH [of "reader_onData m bs r"] onData_plain [OF Cons.prems, of bs] bounded_onData [OF Cons.prems(2), of bs]
    by simp
qed (simp add: feed_def)

lemma attach_rest [simp]:
  "plain_rest (attachBoundedLineReader [])" "rd_bounded m (attachBoundedLineReader script)"
  "at_rest (attachBoundedLineReader script)" "framing_of (attachBoundedLineReader script) = ([], [], True)"
  by (simp_all add: attachBoundedLineReader_def plain_rest_def rd_bounded_def at_rest_def framing_of_def error_count_def)

section \<open>The end of the stream\<close>

lemma reenter_delivered: "delivered (reenter m ev r) = delivered r"
  by (cases ev) (auto simp: queue_data_def queue_end_def rejectOversize_def rd_detach_def)

lemma callback_delivered: "delivered (run_callback m evs r) = delivered r"
  by (induction m evs r rule: run_callback.induct) (auto simp: reenter_delivered simp del: reenter.simps)

lemma onEnd_rest:
  assumes "at_rest r"
  shows "\<not> rd_active (reader_onEnd m r)
    \<and> delivered (reader_onEnd m r) = delivered r @ (if lineBuffer r = [] then [] else [lineBuffer r])"
proof -
  let ?r = "r\<lparr>endQueued := True, rd_processing := True\<rparr>"
  have "reader_onEnd m r = (processEnd m ?r)\<lparr>rd_processing := False\<rparr>"
    using assms by (simp add: reader_onEnd_def drain_def at_rest_def drain_loop_idle)
  moreover have "delivered (processEnd m ?r) = delivered r @ (if lineBuffer r = [] then [] else [lineBuffer r])"
    using assms by (auto simp: processEnd_def at_rest_def takeLine_def deliverLine_def callback_delivered rd_detach_def)
  ultimately show ?thesis by simp
qed

section \<open>Runs\<close>

lemma bounded_onEnd: "rd_bounded m r \<Longrightarrow> rd_bounded m (reader_onEnd m r)"
  by (simp add: reader_onEnd_def bounded_drain)

lemma bounded_string: "rd_bounded m r \<Longrightarrow> rd_bounded m (processStringData m cs r)"
proof (induction m cs r rule: processStringData.induct)
  case (1 m cs r)
  show ?case
    using 1 bounded_append [of m r "utf8 (takeWhile (\<lambda>b. b \<noteq> 10) cs)"]
      bounded_deliver_taken [of m "appendLine m (utf8 (takeWhile (\<lambda>b. b \<noteq> 10) cs)) r"]
    by (subst processStringData.simps) (simp add: Let_def)
qed

lemma bounded_onString: "rd_bounded m r \<Longrightarrow> rd_bounded m (reader_onStringData m cs r)"
  using bounded_reenter [of m r "ReData (utf8 cs)"] by (auto simp: reader_onStringData_def bounded_drain bounded_string)

lemma bounded_step: "reader_step m r r' \<Longrightarrow> rd_bounded m r \<Longrightarrow> rd_bounded m r'"
  by (induction rule: reader_step.induct) (simp_all add: bounded_onData bounded_onString bounded_onEnd bounded_detach)

section \<open>Encoded lines\<close>

definition encode_lines :: "buffer list \<Rightarrow> buffer" where
  "encode_lines ls = concat (map (\<lambda>l. l @ [10]) ls)"

definition line_ok :: "nat \<Rightarrow> buffer \<Rightarrow> bool" where
  "line_ok m l \<longleftrightarrow> 10 \<notin> set l \<and> length l \<le> m \<and> \<not> (l \<noteq> [] \<and> last l = 13)"

lemma frame_lines: "list_all (line_ok m) ls \<Longrightarrow> frame m ([], ds, True) (encode_lines ls) = ([], ds @ ls, True)"
proof (induction ls arbitrary: ds)
  case (Cons l ls)
  have "strip_cr l = l" using Cons.prems by (auto simp: strip_cr_def line_ok_def)
  then have "frame m ([], ds, True) (l @ [10]) = ([], ds @ [l], True)"
    using Cons.prems by (simp add: frame_segment line_ok_def line_step_def)
  then show ?case using Cons by (simp add: encode_lines_def)
qed (simp add: encode_lines_def)

section \<open>Properties\<close>

interpretation reader_run: invariant_system "\<lambda>r. r = attachBoundedLineReader script" "reader_step m" "rd_bounded m"
  by unfold_locales (auto intro: bounded_step)

text \<open>
  However the stream is cut into chunks, the lines delivered, the open line and the rejection of
  a line that is too long are those of the byte-by-byte specification on the whole stream; a
  rejection is reported once.
\<close>

theorem reader_chunking:
  "framing_of (feed m chunks (attachBoundedLineReader [])) = frame m ([], [], True) (concat chunks)
   \<and> framingErrors (feed m chunks (attachBoundedLineReader []))
     = (if rd_active (feed m chunks (attachBoundedLineReader [])) then 0 else 1)"
  using feed_plain [OF attach_rest(1) attach_rest(2), of m chunks] by (simp add: plain_rest_def error_count_def)

text \<open>
  A callback that writes to the stream while its line is delivered: the bytes it brings are
  framed after the whole chunk, in the order of the callbacks, exactly as if they had arrived as the
  next chunks; the reader is at rest afterwards.
\<close>

theorem reader_reentrant:
  assumes "at_rest r" "rd_bounded m r" "rd_active (reader_onData m bs r)"
  shows "framing_of (reader_onData m bs r)
         = frame m (framing_of r)
             (bs @ nested_data (length (delivered (reader_onData m bs r)) - length (delivered r)) (reentry r))
       \<and> at_rest (reader_onData m bs r)"
  using onData_framing [OF assms] by force

theorem reader_reentrant_witness:
  "framing_of (reader_onData 8 [97, 10, 98, 10] (attachBoundedLineReader [[ReData [99]], [ReData [100, 10]]]))
   = frame 8 ([], [], True) ([97, 10, 98, 10] @ [99, 100, 10])"
proof -
  let ?r = "attachBoundedLineReader [[ReData [99]], [ReData [100, 10]]]"
  have a: "rd_active (reader_onData 8 [97, 10, 98, 10] ?r)"
    "length (delivered (reader_onData 8 [97, 10, 98, 10] ?r)) = 3" by code_simp+
  show ?thesis
    using reader_reentrant [of ?r 8 "[97, 10, 98, 10]", OF attach_rest(3) attach_rest(2) a(1)] a(2)
    by (simp add: attachBoundedLineReader_def nested_data_def callback_data_def framing_of_def)
qed

text \<open>
  Whatever the stream and the callbacks do, the open line, the queued data and every delivered
  line stay within the limit, and the three buffers within twice the limit (64 bytes at least).
\<close>

theorem reader_bounds:
  assumes "(reader_step m)\<^sup>*\<^sup>* (attachBoundedLineReader script) r"
  shows "length (lineBuffer r) \<le> m \<and> length (pendingBuffer r) \<le> m
    \<and> list_all (\<lambda>l. length l \<le> m) (delivered r)
    \<and> lineCapacity r + pendingCapacity r + processingCapacity r \<le> 3 * max 64 (2 * m)"
proof -
  have b: "rd_bounded m r" by (rule reader_run.inv_reachable [OF refl assms])
  then have "lineCapacity r + pendingCapacity r + processingCapacity r \<le> 3 * capacity_bound m"
    unfolding rd_bounded_def by linarith
  with b show ?thesis by (simp only: rd_bounded_def capacity_bound_def)
qed

theorem reader_bounds_witness:
  "length (lineBuffer (reader_onData 4 [97, 98, 10, 99] (attachBoundedLineReader []))) \<le> 4
   \<and> delivered (reader_onData 4 [97, 98, 10, 99] (attachBoundedLineReader [])) = [[97, 98]]"
proof -
  have "reader_step 4 (attachBoundedLineReader []) (reader_onData 4 [97, 98, 10, 99] (attachBoundedLineReader []))"
    by (rule reader_data)
  note b = reader_bounds [OF r_into_rtranclp, OF this]
  have "delivered (reader_onData 4 [97, 98, 10, 99] (attachBoundedLineReader [])) = [[97, 98]]" by code_simp
  with b show ?thesis by blast
qed

end
