(* ===== verification/Rpc_Channel.thy ===== *)
theory Rpc_Channel
  imports Line_Writer_Runs Line_Reader_Runs
begin

text \<open>
  The daemon's writer and the extension's reader together: the bytes of the lines written, cut into
  chunks in any way, are delivered as the same lines.
\<close>

text \<open>What \<open>JSON.stringify\<close> without indentation gives: control characters are escaped in strings and do
  not occur elsewhere.\<close>

definition json_text :: "buffer \<Rightarrow> bool" where
  "json_text bs \<longleftrightarrow> list_all (\<lambda>b. b \<noteq> 10 \<and> b \<noteq> 13) bs"

definition json_value :: "rpc_value \<Rightarrow> bool" where
  "json_value v \<longleftrightarrow> (case json v of JsonText bs \<Rightarrow> json_text bs | _ \<Rightarrow> True)"

definition json_event :: "writer_event \<Rightarrow> bool" where
  "json_event ev \<longleftrightarrow> (case ev of Write v \<Rightarrow> json_value v | _ \<Rightarrow> True)"

lemma byte_of_char_newline: "byte_of_char c = 10 \<longleftrightarrow> of_char c = (10 :: nat)" "byte_of_char c = 13 \<longleftrightarrow> of_char c = (13 :: nat)"
proof -
  have c: "unat (byte_of_char c) = of_char c" by (simp add: byte_of_char_def unat_byte_of_nat)
  show "byte_of_char c = 10 \<longleftrightarrow> of_char c = (10 :: nat)" unfolding c [symmetric] by (simp add: word_unat_eq_iff)
  show "byte_of_char c = 13 \<longleftrightarrow> of_char c = (13 :: nat)" unfolding c [symmetric] by (simp add: word_unat_eq_iff)
qed

lemma digits_json: "list_all is_digit s \<Longrightarrow> json_text (bytes_of_text s)"
  by (auto simp: json_text_def bytes_of_text_def list_all_iff is_digit_def byte_of_char_newline)

lemma json_text_append: "json_text (bytes_of_text (xs @ ys)) \<longleftrightarrow> json_text (bytes_of_text xs) \<and> json_text (bytes_of_text ys)"
  by (simp add: json_text_def bytes_of_text_def)

lemma too_large_json: "json_text (too_large_response n)"
  unfolding too_large_response_def json_text_append
  using digits_json [OF show_nat_digits, of n]
  by (simp add: json_text_def bytes_of_text_def quoted_def quote_char_def byte_of_char_newline)

lemma line_json: "json_value v \<Longrightarrow> line_of v = Some l \<Longrightarrow> json_text (payload l)"
  by (auto simp: line_of_def payload_of_def json_value_def Let_def too_large_json split: option.splits stringified.splits if_splits)

lemma json_line_ok: "json_text bs \<Longrightarrow> length bs \<le> m \<Longrightarrow> line_ok m bs"
  using last_in_set [of bs] by (auto simp: line_ok_def json_text_def list_all_iff)

lemma frame_prefix: "prefix (fst (snd st)) (fst (snd (frame m st bs)))"
proof (induction bs arbitrary: st)
  case (Cons b bs)
  have "prefix (fst (snd st)) (fst (snd (line_step m st b)))" by (auto simp: line_step_def split: prod.splits)
  from prefix_order.order_trans [OF this Cons [of "line_step m st b"]] show ?case by (simp only: frame_simps)
qed simp

lemma frame_alive: "snd (snd (frame m st (xs @ ys))) \<Longrightarrow> snd (snd (frame m st xs))"
proof -
  assume a: "snd (snd (frame m st (xs @ ys)))"
  obtain acc ls ok where f: "frame m st xs = (acc, ls, ok)" by (cases "frame m st xs")
  show ?thesis using a by (cases ok) (simp_all add: f)
qed

lemma submitted_json:
  assumes "list_all json_event evs"
  shows "list_all (\<lambda>l. json_text (payload l)) (submitted evs)"
proof -
  have "json_text (payload l)" if "ev \<in> set evs" "(case ev of Write v \<Rightarrow> line_of v | _ \<Rightarrow> None) = Some l" for ev l
    using assms that line_json by (cases ev) (auto simp: list_all_iff json_event_def)
  then show ?thesis by (force simp: submitted_def map_filter_def list_all_iff)
qed

lemma written_lines:
  assumes "list_all json_event evs"
  shows "list_all (line_ok 1048576) (map payload (written (writer_run evs)))"
proof -
  have "subseq (content (writer_run evs)) (submitted evs)" using run_content by blast
  then have "set (written (writer_run evs)) \<subseteq> set (submitted evs)"
    by (auto simp: content_def dest: list_emb_set)
  moreover have "queue_ok (writer_run evs)" using run_ok by (simp add: writer_ok_def)
  ultimately show ?thesis
    using submitted_json [OF assms]
    by (auto simp: list_all_iff queue_ok_def line_fits_def MAX_WRITE_LINE_BYTES_def intro!: json_line_ok)
qed

text \<open>
  C25. In every run of the writer, whatever the stream does, and however the bytes it wrote so far are
  cut into chunks: the reader rejects nothing, what it has delivered is always a prefix of the payloads
  written, and all of them once all bytes are in.
\<close>

theorem rpc_channel:
  assumes "list_all json_event evs"
    and "concat chunks @ rest = concat (map wire_line (written (writer_run evs)))"
  shows "rd_active (feed MAX_RPC_LINE_BYTES chunks (attachBoundedLineReader []))
    \<and> (if rest = []
       then delivered (feed MAX_RPC_LINE_BYTES chunks (attachBoundedLineReader [])) = map payload (written (writer_run evs))
       else prefix (delivered (feed MAX_RPC_LINE_BYTES chunks (attachBoundedLineReader [])))
              (map payload (written (writer_run evs))))"
proof -
  let ?m = MAX_RPC_LINE_BYTES and ?ls = "map payload (written (writer_run evs))"
  let ?r = "feed MAX_RPC_LINE_BYTES chunks (attachBoundedLineReader [])"
  have f: "framing_of ?r = frame ?m ([], [], True) (concat chunks)"
    using feed_plain [OF attach_rest(1) attach_rest(2), of ?m chunks] by simp
  have "concat (map wire_line (written (writer_run evs))) = encode_lines ?ls"
    by (simp add: encode_lines_def wire_line_def [abs_def] comp_def)
  then have w: "frame ?m ([], [], True) (concat chunks @ rest) = ([], ?ls, True)"
    using frame_lines [of ?m ?ls "[]"] written_lines [OF assms(1)] assms(2) by (simp add: MAX_RPC_LINE_BYTES_def)
  have "rd_active ?r" using frame_alive [of ?m "([], [], True)" "concat chunks" rest] w f
    by (metis framing_of_def snd_conv)
  moreover have "prefix (delivered ?r) ?ls"
    using frame_prefix [of "framing_of ?r" ?m rest] w
    by (simp add: f [symmetric]) (simp add: framing_of_def)
  moreover have "delivered ?r = ?ls" if "rest = []" using w f that by (simp add: framing_of_def)
  ultimately show ?thesis by simp
qed

theorem rpc_channel_witness:
  "delivered (feed MAX_RPC_LINE_BYTES [[123], [125, 10]] (attachBoundedLineReader [])) = [[123, 125]]"
proof -
  let ?evs = "[Write sample_value]"
  have w: "written (writer_run ?evs) = [\<lparr>payload = [123, 125], line_bytes = 2, is_response = True\<rparr>]"
    by (simp add: writer_run_def new_json_writer_def writer_write_def serialize_def payload_of_def sample_value_def
        correlatedResponseId_def isSafeInteger_def MAX_SAFE_INTEGER_def MAX_WRITE_LINE_BYTES_def startWrite_def Let_def)
  have j: "list_all json_event ?evs" by (simp add: json_event_def json_value_def sample_value_def json_text_def)
  have "concat [[123], [125, 10]] @ [] = concat (map wire_line (written (writer_run ?evs)))"
    unfolding w by (simp add: wire_line_def)
  from rpc_channel [OF j this] show ?thesis by (simp add: w)
qed

end
