(* ===== verification/Workflow_Queue.thy ===== *)
theory Workflow_Queue
  imports Prelude
begin

text \<open>
  The daemon's workflow queue: \<open>src/src/services/networkServers/networkServerWorkflowQueue.ts\<close>. An
  accepted operation is its number in order of acceptance; the promises it waits for are the numbers of
  earlier operations. What the event loop does is a step: an operation whose predecessors have all
  settled is called, it settles, and the bookkeeping attached to its settlement runs.
\<close>

section \<open>State\<close>

datatype phase = Waiting | Running | Done bool

record workflow_op =
  op_keys :: "string list"
  op_previous :: "nat list"
  op_phase :: phase

record workflow_queue =
  ops :: "workflow_op list"
  queues :: "string \<Rightarrow> nat option"
  accepted :: "nat list"
  closing :: bool

definition MAX_SERVICE_WORKFLOW_OPERATIONS :: nat where "MAX_SERVICE_WORKFLOW_OPERATIONS = 32"

definition new_workflow_queue :: workflow_queue where
  "new_workflow_queue = \<lparr>ops = [], queues = (\<lambda>_. None), accepted = [], closing = False\<rparr>"

definition wq_close :: "workflow_queue \<Rightarrow> workflow_queue" where
  "wq_close q = q\<lparr>closing := True\<rparr>"

section \<open>Keys\<close>

definition key_rank :: "string \<Rightarrow> nat" where
  "key_rank k = (if k = ''tftp'' then 0 else if k = ''dhcp'' then 1 else 2)"

text \<open>The order of two keys; \<open>localeCompare\<close> is a parameter.\<close>

definition compareKeys :: "(string \<Rightarrow> string \<Rightarrow> int) \<Rightarrow> string \<Rightarrow> string \<Rightarrow> int" where
  "compareKeys localeCompare l r =
     (let d = int (key_rank l) - int (key_rank r) in if d \<noteq> 0 then d else localeCompare l r)"

fun insert_by :: "('a \<Rightarrow> 'a \<Rightarrow> int) \<Rightarrow> 'a \<Rightarrow> 'a list \<Rightarrow> 'a list" where
  "insert_by cmp x [] = [x]"
| "insert_by cmp x (y # ys) = (if 0 < cmp x y then y # insert_by cmp x ys else x # y # ys)"

definition sort_by :: "('a \<Rightarrow> 'a \<Rightarrow> int) \<Rightarrow> 'a list \<Rightarrow> 'a list" where
  "sort_by cmp xs = foldr (insert_by cmp) xs []"

text \<open>A \<open>Set\<close> keeps the first of equal elements.\<close>

definition canonicalKeys :: "(string \<Rightarrow> string \<Rightarrow> int) \<Rightarrow> string list \<Rightarrow> string list" where
  "canonicalKeys localeCompare ids = sort_by (compareKeys localeCompare) (rev (remdups (rev ids)))"

section \<open>Operations\<close>

text \<open>An operation is put behind the tails of its keys and becomes their tail.\<close>

definition append_op :: "string list \<Rightarrow> workflow_queue \<Rightarrow> workflow_queue" where
  "append_op keys q =
     q\<lparr>ops := ops q @ [\<lparr>op_keys = keys, op_previous = List.map_filter (queues q) keys, op_phase = Waiting\<rparr>],
       queues := (\<lambda>k. if k \<in> set keys then Some (length (ops q)) else queues q k)\<rparr>"

datatype admission = RejectedClosing | RejectedBusy | Accepted nat

definition enqueueMany ::
  "(string \<Rightarrow> string \<Rightarrow> int) \<Rightarrow> string list \<Rightarrow> workflow_queue \<Rightarrow> admission \<times> workflow_queue" where
  "enqueueMany localeCompare ids q =
     (if closing q then (RejectedClosing, q)
      else if MAX_SERVICE_WORKFLOW_OPERATIONS \<le> length (accepted q) then (RejectedBusy, q)
      else (Accepted (length (ops q)),
            (append_op (canonicalKeys localeCompare ids) q)\<lparr>accepted := accepted q @ [length (ops q)]\<rparr>))"

definition phase_of :: "workflow_queue \<Rightarrow> nat \<Rightarrow> phase" where
  "phase_of q n = op_phase (ops q ! n)"

definition op_settled :: "workflow_queue \<Rightarrow> nat \<Rightarrow> bool" where
  "op_settled q n \<longleftrightarrow> (case phase_of q n of Done _ \<Rightarrow> True | _ \<Rightarrow> False)"

definition set_phase :: "nat \<Rightarrow> phase \<Rightarrow> workflow_queue \<Rightarrow> workflow_queue" where
  "set_phase n p q = q\<lparr>ops := (ops q)[n := (ops q ! n)\<lparr>op_phase := p\<rparr>]\<rparr>"

text \<open>\<open>Promise.all(previous).then(operation)\<close>: the operation may be called.\<close>

definition ready :: "workflow_queue \<Rightarrow> nat \<Rightarrow> bool" where
  "ready q n \<longleftrightarrow>
     n < length (ops q) \<and> phase_of q n = Waiting \<and> list_all (op_settled q) (op_previous (ops q ! n))"

text \<open>The cleanup attached to \<open>settled\<close>.\<close>

definition drop_tail :: "nat \<Rightarrow> workflow_queue \<Rightarrow> workflow_queue" where
  "drop_tail n q =
     q\<lparr>queues := (\<lambda>k. if k \<in> set (op_keys (ops q ! n)) \<and> queues q k = Some n then None else queues q k)\<rparr>"

definition wq_cleanup :: "nat \<Rightarrow> workflow_queue \<Rightarrow> workflow_queue" where
  "wq_cleanup n q = drop_tail n (q\<lparr>accepted := filter (\<lambda>m. m \<noteq> n) (accepted q)\<rparr>)"

text \<open>\<open>drain\<close> resolves when everything accepted at its call has settled.\<close>

definition drain_done :: "nat list \<Rightarrow> workflow_queue \<Rightarrow> bool" where
  "drain_done waitedFor q \<longleftrightarrow> list_all (op_settled q) waitedFor"

inductive wq_step :: "(string \<Rightarrow> string \<Rightarrow> int) \<Rightarrow> workflow_queue \<Rightarrow> workflow_queue \<Rightarrow> bool" for lc where
  wq_enqueue: "wq_step lc q (snd (enqueueMany lc ids q))"
| wq_call: "ready q n \<Longrightarrow> wq_step lc q (set_phase n Running q)"
| wq_settle: "n < length (ops q) \<Longrightarrow> phase_of q n = Running \<Longrightarrow> wq_step lc q (set_phase n (Done ok) q)"
| wq_clean: "n < length (ops q) \<Longrightarrow> op_settled q n \<Longrightarrow> wq_step lc q (wq_cleanup n q)"
| wq_closed: "wq_step lc q (wq_close q)"

inductive_cases wq_stepE: "wq_step lc q q'"

section \<open>Canonical keys\<close>

lemma set_insert_by [simp]: "set (insert_by cmp x xs) = insert x (set xs)"
  by (induction xs) auto

lemma set_sort_by [simp]: "set (sort_by cmp xs) = set xs"
  by (induction xs) (simp_all add: sort_by_def)

lemma distinct_insert_by: "distinct (insert_by cmp x xs) \<longleftrightarrow> x \<notin> set xs \<and> distinct xs"
  by (induction xs) auto

lemma distinct_sort_by: "distinct (sort_by cmp xs) \<longleftrightarrow> distinct xs"
  by (induction xs) (simp_all add: sort_by_def distinct_insert_by set_sort_by [unfolded sort_by_def])

lemma set_canonicalKeys [simp]: "set (canonicalKeys lc ids) = set ids"
  by (simp add: canonicalKeys_def)

lemma distinct_canonicalKeys: "distinct (canonicalKeys lc ids)"
  by (simp add: canonicalKeys_def distinct_sort_by)

lemma insert_by_rank:
  "sorted (map key_rank xs) \<Longrightarrow> sorted (map key_rank (insert_by (compareKeys lc) x xs))"
  by (induction xs) (auto simp: compareKeys_def Let_def split: if_splits)

lemma sorted_canonicalKeys: "sorted (map key_rank (canonicalKeys lc ids))"
proof -
  have "sorted (map key_rank (sort_by (compareKeys lc) xs))" for xs
    by (induction xs) (simp_all add: sort_by_def insert_by_rank)
  then show ?thesis by (simp add: canonicalKeys_def)
qed

section \<open>Invariant\<close>

definition shares :: "workflow_queue \<Rightarrow> string \<Rightarrow> nat \<Rightarrow> bool" where
  "shares q k n \<longleftrightarrow> k \<in> set (op_keys (ops q ! n))"

definition ordered :: "workflow_queue \<Rightarrow> bool" where
  "ordered q \<longleftrightarrow>
     (\<forall>j < length (ops q). phase_of q j \<noteq> Waiting \<longrightarrow> (\<forall>i < j. \<forall>k. shares q k i \<and> shares q k j \<longrightarrow> op_settled q i))"

definition linked :: "workflow_queue \<Rightarrow> bool" where
  "linked q \<longleftrightarrow>
     (\<forall>j < length (ops q). list_all (\<lambda>d. d < j) (op_previous (ops q ! j)) \<and>
        (\<forall>i < j. \<forall>k. shares q k i \<and> shares q k j \<longrightarrow>
           op_settled q i \<or> (\<exists>d \<in> set (op_previous (ops q ! j)). i \<le> d \<and> shares q k d)))"

definition tails :: "workflow_queue \<Rightarrow> bool" where
  "tails q \<longleftrightarrow>
     (\<forall>k n. queues q k = Some n \<longrightarrow> n < length (ops q) \<and> shares q k n) \<and>
     (\<forall>i < length (ops q). \<forall>k. shares q k i \<longrightarrow> op_settled q i \<or> (\<exists>n. queues q k = Some n \<and> i \<le> n))"

definition admitted :: "workflow_queue \<Rightarrow> bool" where
  "admitted q \<longleftrightarrow>
     distinct (accepted q) \<and> length (accepted q) \<le> MAX_SERVICE_WORKFLOW_OPERATIONS
     \<and> (\<forall>n \<in> set (accepted q). n < length (ops q)) \<and> (\<forall>n < length (ops q). op_settled q n \<or> n \<in> set (accepted q))"

definition chain_ok :: "workflow_queue \<Rightarrow> bool" where
  "chain_ok q \<longleftrightarrow> ordered q \<and> linked q \<and> tails q"

definition wq_ok :: "workflow_queue \<Rightarrow> bool" where
  "wq_ok q \<longleftrightarrow> chain_ok q \<and> admitted q"

lemma orderedD:
  "chain_ok q \<Longrightarrow> j < length (ops q) \<Longrightarrow> phase_of q j \<noteq> Waiting \<Longrightarrow> i < j \<Longrightarrow> shares q k i \<Longrightarrow> shares q k j \<Longrightarrow> op_settled q i"
  unfolding chain_ok_def ordered_def by blast

lemma linkedD:
  "chain_ok q \<Longrightarrow> j < length (ops q) \<Longrightarrow> d \<in> set (op_previous (ops q ! j)) \<Longrightarrow> d < j"
  "chain_ok q \<Longrightarrow> j < length (ops q) \<Longrightarrow> i < j \<Longrightarrow> shares q k i \<Longrightarrow> shares q k j \<Longrightarrow>
    op_settled q i \<or> (\<exists>d \<in> set (op_previous (ops q ! j)). i \<le> d \<and> shares q k d)"
  unfolding chain_ok_def linked_def list_all_iff by blast+

lemma tailsD:
  "chain_ok q \<Longrightarrow> queues q k = Some n \<Longrightarrow> n < length (ops q) \<and> shares q k n"
  "chain_ok q \<Longrightarrow> i < length (ops q) \<Longrightarrow> shares q k i \<Longrightarrow> op_settled q i \<or> (\<exists>n. queues q k = Some n \<and> i \<le> n)"
  unfolding chain_ok_def tails_def by blast+

lemma chain_cong: "ops q' = ops q \<Longrightarrow> queues q' = queues q \<Longrightarrow> chain_ok q' = chain_ok q"
  by (simp add: chain_ok_def ordered_def linked_def tails_def shares_def op_settled_def phase_of_def)

lemma wq_ok_new: "wq_ok new_workflow_queue"
  by (simp add: wq_ok_def chain_ok_def ordered_def linked_def tails_def admitted_def new_workflow_queue_def)

text \<open>A change of phase.\<close>

lemma set_phase_simps [simp]:
  "length (ops (set_phase n p q)) = length (ops q)" "queues (set_phase n p q) = queues q"
  "accepted (set_phase n p q) = accepted q"
  by (simp_all add: set_phase_def)

lemma set_phase_nth:
  "m < length (ops q) \<Longrightarrow> op_keys (ops (set_phase n p q) ! m) = op_keys (ops q ! m)
    \<and> op_previous (ops (set_phase n p q) ! m) = op_previous (ops q ! m)
    \<and> phase_of (set_phase n p q) m = (if m = n then p else phase_of q m)"
  by (auto simp: set_phase_def phase_of_def nth_list_update)

lemma set_phase_shares: "m < length (ops q) \<Longrightarrow> shares (set_phase n p q) k m = shares q k m"
  by (simp add: shares_def set_phase_nth)

lemma set_phase_settled:
  "m < length (ops q) \<Longrightarrow>
    op_settled (set_phase n p q) m = (if m = n then (case p of Done _ \<Rightarrow> True | _ \<Rightarrow> False) else op_settled q m)"
  by (auto simp: op_settled_def set_phase_nth)

text \<open>Settling never makes an operation unsettled.\<close>

definition advances :: "nat \<Rightarrow> phase \<Rightarrow> workflow_queue \<Rightarrow> bool" where
  "advances n p q \<longleftrightarrow>
     n < length (ops q) \<and> (op_settled q n \<longrightarrow> (case p of Done _ \<Rightarrow> True | _ \<Rightarrow> False))
     \<and> (\<forall>i < n. \<forall>k. shares q k i \<and> shares q k n \<longrightarrow> op_settled q i) \<and> p \<noteq> Waiting"

lemma settled_mono: "advances n p q \<Longrightarrow> m < length (ops q) \<Longrightarrow> op_settled q m \<Longrightarrow> op_settled (set_phase n p q) m"
  by (auto simp: advances_def set_phase_settled)

lemma chain_phase:
  assumes "chain_ok q" "advances n p q"
  shows "chain_ok (set_phase n p q)"
proof -
  let ?q = "set_phase n p q"
  note mono = settled_mono [OF assms(2)]
  have "ordered ?q" unfolding ordered_def
  proof (intro allI impI)
    fix j i k assume j: "j < length (ops ?q)" "phase_of ?q j \<noteq> Waiting" "i < j" "shares ?q k i \<and> shares ?q k j"
    then have s: "j < length (ops q)" "i < length (ops q)" "shares q k i" "shares q k j"
      using set_phase_shares [of i q n p k] set_phase_shares [of j q n p k] by simp_all
    have "op_settled q i"
    proof (cases "j = n")
      case True
      then show ?thesis using assms(2) s j(3) by (auto simp: advances_def)
    next
      case False
      then have "phase_of q j \<noteq> Waiting" using j(2) set_phase_nth [OF s(1), of n p] by simp
      then show ?thesis using orderedD [OF assms(1)] s j(3) by blast
    qed
    then show "op_settled ?q i" using mono s(2) by blast
  qed
  moreover have "linked ?q" unfolding linked_def
  proof (intro allI impI conjI)
    fix j assume "j < length (ops ?q)"
    then have j: "j < length (ops q)" by simp
    then have l: "list_all (\<lambda>d. d < j) (op_previous (ops q ! j))"
      and e: "op_previous (ops ?q ! j) = op_previous (ops q ! j)"
      using assms(1) set_phase_nth [OF j] by (simp_all add: chain_ok_def linked_def)
    then show "list_all (\<lambda>d. d < j) (op_previous (ops ?q ! j))" by simp
    fix i k assume i: "i < j" "shares ?q k i \<and> shares ?q k j"
    then have "op_settled q i \<or> (\<exists>d \<in> set (op_previous (ops q ! j)). i \<le> d \<and> shares q k d)"
      using assms(1) j by (auto simp: chain_ok_def linked_def set_phase_shares)
    moreover have "shares ?q k d = shares q k d" if "d \<in> set (op_previous (ops q ! j))" for d
      using l that j by (intro set_phase_shares) (auto simp: list_all_iff)
    ultimately show "op_settled ?q i \<or> (\<exists>d \<in> set (op_previous (ops ?q ! j)). i \<le> d \<and> shares ?q k d)"
      using mono [of i] i j e by auto
  qed
  moreover have "tails ?q" unfolding tails_def set_phase_simps
  proof (intro conjI allI impI)
    fix k m assume "queues q k = Some m"
    then show "m < length (ops q)" "shares ?q k m" using tailsD(1) [OF assms(1)] set_phase_shares by blast+
  next
    fix i k assume i: "i < length (ops q)" "shares ?q k i"
    then show "op_settled ?q i \<or> (\<exists>m. queues q k = Some m \<and> i \<le> m)"
      using tailsD(2) [OF assms(1) i(1)] mono [OF i(1)] set_phase_shares [OF i(1)] by blast
  qed
  ultimately show ?thesis by (simp add: chain_ok_def)
qed

lemma advances_call: "chain_ok q \<Longrightarrow> ready q n \<Longrightarrow> advances n Running q"
proof -
  assume q: "chain_ok q" and r: "ready q n"
  then have n: "n < length (ops q)" "phase_of q n = Waiting" by (simp_all add: ready_def)
  have "op_settled q i" if i: "i < n" "shares q k i" "shares q k n" for i k
  proof -
    have "op_settled q i \<or> (\<exists>d \<in> set (op_previous (ops q ! n)). i \<le> d \<and> shares q k d)"
      using q n(1) i by (auto simp: chain_ok_def linked_def)
    then show ?thesis
    proof
      assume "\<exists>d \<in> set (op_previous (ops q ! n)). i \<le> d \<and> shares q k d"
      then obtain d where d: "d \<in> set (op_previous (ops q ! n))" "i \<le> d" "shares q k d" by blast
      have "op_settled q d" using r d(1) by (auto simp: ready_def list_all_iff)
      moreover have "d < length (ops q)" using linkedD(1) [OF q n(1) d(1)] n(1) by simp
      moreover have "phase_of q d \<noteq> Waiting" using \<open>op_settled q d\<close> by (auto simp: op_settled_def)
      ultimately show ?thesis using orderedD [OF q] d i(2) by (cases "i = d") (auto simp: le_less)
    qed
  qed
  moreover have "\<not> op_settled q n" using n(2) by (simp add: op_settled_def)
  ultimately show ?thesis using n by (auto simp: advances_def)
qed

lemma advances_settle: "chain_ok q \<Longrightarrow> n < length (ops q) \<Longrightarrow> phase_of q n = Running \<Longrightarrow> advances n (Done ok) q"
  using orderedD [of q n] by (auto simp: advances_def)

text \<open>A new operation.\<close>

lemma append_old:
  "m < length (ops q) \<Longrightarrow>
    ops (append_op keys q) ! m = ops q ! m \<and> shares (append_op keys q) k m = shares q k m
    \<and> op_settled (append_op keys q) m = op_settled q m \<and> phase_of (append_op keys q) m = phase_of q m"
  by (simp add: append_op_def shares_def op_settled_def phase_of_def nth_append)

lemma append_new:
  assumes "q' = append_op keys q" "n = length (ops q)"
  shows "length (ops q') = Suc n" "shares q' k n \<longleftrightarrow> k \<in> set keys" "phase_of q' n = Waiting"
    "op_previous (ops q' ! n) = List.map_filter (queues q) keys"
    "queues q' k = (if k \<in> set keys then Some n else queues q k)"
  using assms by (auto simp: append_op_def shares_def phase_of_def)

lemma set_map_filter: "set (List.map_filter f xs) = {y. \<exists>x \<in> set xs. f x = Some y}"
  by (induction xs) (auto simp: map_filter_simps split: option.splits)

lemma chain_append:
  assumes ok: "chain_ok q"
  shows "chain_ok (append_op keys q)"
proof -
  define q' n where "q' = append_op keys q" and "n = length (ops q)"
  note new = append_new [OF q'_def n_def] and old = append_old [where q = q and keys = keys, folded q'_def n_def]
  have lt: "m < length (ops q') \<longleftrightarrow> m < n \<or> m = n" for m using new(1) by auto
  have t: "queues q k = Some d \<Longrightarrow> d < n \<and> shares q k d"
    "i < n \<Longrightarrow> shares q k i \<Longrightarrow> op_settled q i \<or> (\<exists>d. queues q k = Some d \<and> i \<le> d)" for k d i
    using tailsD [OF ok] n_def by blast+
  have "ordered q'" unfolding ordered_def
  proof (intro allI impI)
    fix j i k assume j: "j < length (ops q')" "phase_of q' j \<noteq> Waiting" "i < j" "shares q' k i \<and> shares q' k j"
    then have jn: "j < n" using new(3) lt [of j] by auto
    then have "phase_of q j \<noteq> Waiting" "shares q k i" "shares q k j" using j old [of j k] old [of i k] by simp_all
    then have "op_settled q i" using orderedD [OF ok] jn j(3) n_def by blast
    then show "op_settled q' i" using old [of i] jn j(3) by simp
  qed
  moreover have "linked q'" unfolding linked_def
  proof (intro allI impI)
    fix j assume "j < length (ops q')"
    then consider "j < n" | "j = n" using lt by blast
    then show "list_all (\<lambda>d. d < j) (op_previous (ops q' ! j)) \<and> (\<forall>i<j. \<forall>k. shares q' k i \<and> shares q' k j \<longrightarrow>
        op_settled q' i \<or> (\<exists>d\<in>set (op_previous (ops q' ! j)). i \<le> d \<and> shares q' k d))"
    proof cases
      case 1
      have l: "list_all (\<lambda>d. d < j) (op_previous (ops q ! j))"
        "\<And>i k. i < j \<Longrightarrow> shares q k i \<Longrightarrow> shares q k j \<Longrightarrow>
          op_settled q i \<or> (\<exists>d\<in>set (op_previous (ops q ! j)). i \<le> d \<and> shares q k d)"
        using linkedD [OF ok, of j] 1 n_def by (auto simp: list_all_iff)
      have d: "shares q' k d = shares q k d" if "d \<in> set (op_previous (ops q ! j))" for k d
        using l(1) that 1 by (intro old [THEN conjunct2, THEN conjunct1]) (auto simp: list_all_iff)
      show ?thesis using l d old [of j] old 1 by (auto 4 3)
    next
      case 2
      have p: "d \<in> set (op_previous (ops q' ! n)) \<longleftrightarrow> (\<exists>k \<in> set keys. queues q k = Some d)" for d
        by (simp only: new(4) set_map_filter mem_Collect_eq)
      then have "list_all (\<lambda>d. d < n) (op_previous (ops q' ! n))" using t(1) by (auto simp: list_all_iff)
      moreover have "op_settled q' i \<or> (\<exists>d\<in>set (op_previous (ops q' ! n)). i \<le> d \<and> shares q' k d)"
        if i: "i < n" "shares q' k i" "shares q' k n" for i k
      proof -
        have "k \<in> set keys" using new(2) i(3) by blast
        then show ?thesis using t(2) [of i k] t(1) [of k] i old p by metis
      qed
      ultimately show ?thesis using 2 by blast
    qed
  qed
  moreover have "tails q'" unfolding tails_def
  proof (intro conjI allI impI)
    fix k m assume "queues q' k = Some m"
    then show "m < length (ops q')" "shares q' k m"
      using new(2) [of k] new(5) [of k] t(1) [of k m] old [of m k] lt [of m] by (auto split: if_splits)
  next
    fix i k assume i: "i < length (ops q')" "shares q' k i"
    show "op_settled q' i \<or> (\<exists>m. queues q' k = Some m \<and> i \<le> m)"
    proof (cases "k \<in> set keys")
      case True
      then show ?thesis using new(5) [of k] lt [of i] i(1) by auto
    next
      case False
      then have "i < n" using i new(2) [of k] lt [of i] by auto
      then show ?thesis using t(2) [of i k] i(2) old [of i k] new(5) [of k] False by auto
    qed
  qed
  ultimately show ?thesis by (simp add: chain_ok_def q'_def)
qed

lemma ok_enqueue:
  assumes ok: "wq_ok q" and e: "fst (enqueueMany lc ids q) = Accepted n"
  shows "wq_ok (snd (enqueueMany lc ids q))"
proof -
  let ?a = "append_op (canonicalKeys lc ids) q" and ?q = "snd (enqueueMany lc ids q)"
  have l: "length (accepted q) < MAX_SERVICE_WORKFLOW_OPERATIONS"
    and q: "?q = ?a\<lparr>accepted := accepted q @ [length (ops q)]\<rparr>"
    using e by (auto simp: enqueueMany_def split: if_splits)
  have s: "op_settled ?q m = op_settled q m" if "m < length (ops q)" for m
    using append_old [OF that, of "canonicalKeys lc ids"] by (simp add: q op_settled_def phase_of_def)
  have "chain_ok ?q" using chain_append [of q "canonicalKeys lc ids"] ok chain_cong [of ?q ?a] by (simp add: q wq_ok_def)
  moreover have e: "length (ops ?q) = Suc (length (ops q))" "accepted ?q = accepted q @ [length (ops q)]"
    by (simp_all add: q append_op_def)
  have "admitted ?q" unfolding admitted_def e
  proof (intro conjI ballI allI impI)
    fix m assume "m < Suc (length (ops q))"
    then show "op_settled ?q m \<or> m \<in> set (accepted q @ [length (ops q)])"
      using ok s [of m] by (cases "m = length (ops q)") (auto simp: wq_ok_def admitted_def)
  qed (use ok l in \<open>auto simp: wq_ok_def admitted_def\<close>)
  ultimately show ?thesis by (simp add: wq_ok_def)
qed

lemma chain_drop_tail:
  assumes ok: "chain_ok q" and n: "n < length (ops q)" "op_settled q n"
  shows "chain_ok (drop_tail n q)"
proof -
  let ?q = "drop_tail n q"
  have same: "ops ?q = ops q" "shares ?q k m = shares q k m" "op_settled ?q m = op_settled q m" "phase_of ?q m = phase_of q m" for k m
    by (simp_all add: drop_tail_def shares_def op_settled_def phase_of_def)
  have w: "phase_of q n \<noteq> Waiting" using n(2) by (auto simp: op_settled_def)
  have before: "op_settled q i" if "i \<le> n" "shares q k i" "shares q k n" for i k
    using that orderedD [OF ok n(1) w] n(2) by (cases "i = n") auto
  have "ordered ?q" "linked ?q" using ok by (simp_all add: chain_ok_def ordered_def linked_def same)
  moreover have "tails ?q" unfolding tails_def same
  proof (intro conjI allI impI)
    fix k m assume "queues ?q k = Some m"
    then have "queues q k = Some m" by (simp add: drop_tail_def split: if_splits)
    then show "m < length (ops q)" "shares q k m" using tailsD(1) [OF ok] by blast+
  next
    fix i k assume i: "i < length (ops q)" "shares q k i"
    then show "op_settled q i \<or> (\<exists>m. queues ?q k = Some m \<and> i \<le> m)"
      using tailsD(2) [OF ok i] before [of i k] by (auto simp: drop_tail_def shares_def)
  qed
  ultimately show ?thesis by (simp add: chain_ok_def)
qed

lemma ok_cleanup:
  assumes ok: "wq_ok q" and n: "n < length (ops q)" "op_settled q n"
  shows "wq_ok (wq_cleanup n q)"
proof -
  let ?a = "filter (\<lambda>m. m \<noteq> n) (accepted q)"
  have c: "chain_ok (wq_cleanup n q)"
    using chain_drop_tail [of "q\<lparr>accepted := ?a\<rparr>" n] ok n chain_cong [of "q\<lparr>accepted := ?a\<rparr>" q]
    by (simp add: wq_cleanup_def wq_ok_def op_settled_def phase_of_def)
  have same: "ops (wq_cleanup n q) = ops q" "accepted (wq_cleanup n q) = ?a" "op_settled (wq_cleanup n q) m = op_settled q m" for m
    by (simp_all add: wq_cleanup_def drop_tail_def op_settled_def phase_of_def)
  have a: "distinct (accepted q)" "length (accepted q) \<le> MAX_SERVICE_WORKFLOW_OPERATIONS"
    "\<And>m. m \<in> set (accepted q) \<Longrightarrow> m < length (ops q)" "\<And>m. m < length (ops q) \<Longrightarrow> op_settled q m \<or> m \<in> set (accepted q)"
    using ok by (auto simp: wq_ok_def admitted_def)
  have "admitted (wq_cleanup n q)"
    unfolding admitted_def same
  proof (intro conjI ballI allI impI)
    show "length ?a \<le> MAX_SERVICE_WORKFLOW_OPERATIONS"
      using length_filter_le [of "\<lambda>m. m \<noteq> n" "accepted q"] a(2) by (rule le_trans)
    show "op_settled q m \<or> m \<in> set ?a" if "m < length (ops q)" for m
      using a(4) [OF that] n(2) by auto
  qed (use a in auto)
  with c show ?thesis by (simp add: wq_ok_def)
qed

lemma enqueue_rejected: "\<nexists>n. fst (enqueueMany lc ids q) = Accepted n \<Longrightarrow> snd (enqueueMany lc ids q) = q"
  by (auto simp: enqueueMany_def split: if_splits)

lemma ok_close: "wq_ok q \<Longrightarrow> wq_ok (wq_close q)"
  using chain_cong [of "wq_close q" q] by (simp add: wq_ok_def admitted_def wq_close_def op_settled_def phase_of_def)

lemma ok_phase: "wq_ok q \<Longrightarrow> advances n p q \<Longrightarrow> wq_ok (set_phase n p q)"
  using chain_phase [of q n p] settled_mono [of n p q] by (auto simp: wq_ok_def admitted_def)

lemma wq_step_ok: "wq_step lc q q' \<Longrightarrow> wq_ok q \<Longrightarrow> wq_ok q'"
proof (induction rule: wq_step.induct)
  case (wq_enqueue q ids)
  show ?case
  proof (cases "\<exists>n. fst (enqueueMany lc ids q) = Accepted n")
    case True
    then show ?thesis using ok_enqueue [OF wq_enqueue] by blast
  next
    case False
    then show ?thesis using enqueue_rejected [of lc ids q] wq_enqueue by simp
  qed
next
  case (wq_call q n)
  then show ?case using advances_call by (intro ok_phase) (auto simp: wq_ok_def)
next
  case (wq_settle n q ok)
  then show ?case using advances_settle by (intro ok_phase) (auto simp: wq_ok_def)
next
  case (wq_clean n q)
  then show ?case by (intro ok_cleanup)
qed (rule ok_close)

interpretation workflow_run: invariant_system "\<lambda>q. q = new_workflow_queue" "wq_step lc" wq_ok
  by unfold_locales (auto simp: wq_ok_new intro: wq_step_ok)

section \<open>Progress\<close>

text \<open>The first operation that has not settled is being run or can be called.\<close>

lemma first_unsettled:
  assumes "chain_ok q" "n < length (ops q)" "\<not> op_settled q n"
  shows "\<exists>m \<le> n. phase_of q m = Running \<or> ready q m"
proof -
  define m where "m = (LEAST m. m < length (ops q) \<and> \<not> op_settled q m)"
  have m: "m < length (ops q)" "\<not> op_settled q m" "m \<le> n"
    using LeastI [of "\<lambda>m. m < length (ops q) \<and> \<not> op_settled q m" n] Least_le [of "\<lambda>m. m < length (ops q) \<and> \<not> op_settled q m" n]
      assms(2,3) by (simp_all add: m_def)
  have below: "op_settled q d" if "d < m" for d
    using not_less_Least [of d "\<lambda>m. m < length (ops q) \<and> \<not> op_settled q m"] that m(1) by (auto simp: m_def [symmetric])
  have "list_all (op_settled q) (op_previous (ops q ! m))"
    using linkedD(1) [OF assms(1) m(1)] below by (auto simp: list_all_iff)
  then have "phase_of q m = Running \<or> ready q m"
    using m by (cases "phase_of q m") (auto simp: ready_def op_settled_def)
  then show ?thesis using m(3) by blast
qed

section \<open>Properties\<close>

text \<open>
  C27. Workflows of a service never overlap and keep their order: of two accepted operations with a
  common key the later one is called only after the earlier one has settled, whatever else is
  interleaved, and whether or not the earlier one failed.
\<close>

theorem workflow_exclusive:
  assumes "(wq_step lc)\<^sup>*\<^sup>* new_workflow_queue q"
    and "i < j" "j < length (ops q)" "k \<in> set (op_keys (ops q ! i)) \<inter> set (op_keys (ops q ! j))"
  shows "(if phase_of q j = Waiting then op_settled q i \<or> \<not> ready q j else op_settled q i)"
proof -
  have ok: "chain_ok q" using workflow_run.inv_reachable [OF refl assms(1)] by (simp add: wq_ok_def)
  have s: "shares q k i" "shares q k j" using assms(4) by (simp_all add: shares_def)
  have "op_settled q i" if "ready q j" using advances_call [OF ok that] assms(2) s by (auto simp: advances_def)
  moreover have "op_settled q i" if "phase_of q j \<noteq> Waiting" by (rule orderedD [OF ok assms(3) that assms(2) s])
  ultimately show ?thesis by auto
qed

text \<open>
  No workflow deadlocks: while an accepted operation has not settled, an operation accepted no
  later is running or can be called at once; at most 32 operations are unsettled.
\<close>

theorem workflow_progress:
  assumes "(wq_step lc)\<^sup>*\<^sup>* new_workflow_queue q"
  shows "length (filter (\<lambda>n. \<not> op_settled q n) [0 ..< length (ops q)]) \<le> 32
    \<and> (if drain_done (accepted q) q then True
       else \<exists>m \<in> set (accepted q). phase_of q m = Running \<or> ready q m)"
proof
  have wok: "wq_ok q" by (rule workflow_run.inv_reachable [OF refl assms])
  then have ok: "chain_ok q" by (simp add: wq_ok_def)
  have a: "\<And>m. m < length (ops q) \<Longrightarrow> op_settled q m \<or> m \<in> set (accepted q)" "length (accepted q) \<le> 32"
    "\<And>m. m \<in> set (accepted q) \<Longrightarrow> m < length (ops q)"
    using wok by (auto simp: wq_ok_def admitted_def MAX_SERVICE_WORKFLOW_OPERATIONS_def)
  let ?u = "filter (\<lambda>n. \<not> op_settled q n) [0 ..< length (ops q)]"
  have "length ?u = card (set ?u)" by (rule distinct_card [symmetric]) simp
  also have "\<dots> \<le> card (set (accepted q))" using a(1) by (intro card_mono) auto
  also have "\<dots> \<le> 32" using card_length [of "accepted q"] a(2) by linarith
  finally show "length ?u \<le> 32" .
  have "\<exists>m \<in> set (accepted q). phase_of q m = Running \<or> ready q m" if d: "\<not> drain_done (accepted q) q"
  proof -
    obtain n where n: "n \<in> set (accepted q)" "\<not> op_settled q n" using d by (auto simp: drain_done_def list_all_iff)
    obtain m where m: "m \<le> n" "phase_of q m = Running \<or> ready q m" using first_unsettled [OF ok a(3) [OF n(1)] n(2)] by blast
    have "m < length (ops q)" using m(1) a(3) [OF n(1)] by simp
    moreover have "\<not> op_settled q m" using m(2) by (auto simp: op_settled_def ready_def)
    ultimately show ?thesis using a(1) m(2) by blast
  qed
  then show "if drain_done (accepted q) q then True else \<exists>m \<in> set (accepted q). phase_of q m = Running \<or> ready q m" by simp
qed

definition sample_compare :: "string \<Rightarrow> string \<Rightarrow> int" where
  "sample_compare l r = int (length l) - int (length r)"

definition two_workflows :: workflow_queue where
  "two_workflows = snd (enqueueMany sample_compare [''dhcp'', ''tftp'']
     (snd (enqueueMany sample_compare [''tftp''] new_workflow_queue)))"

lemma two_workflows_reached: "(wq_step sample_compare)\<^sup>*\<^sup>* new_workflow_queue two_workflows"
  unfolding two_workflows_def
  by (rule rtranclp.rtrancl_into_rtrancl [OF r_into_rtranclp], rule wq_enqueue, rule wq_enqueue)

lemma two_workflows_ops:
  "ops two_workflows = [\<lparr>op_keys = [''tftp''], op_previous = [], op_phase = Waiting\<rparr>,
     \<lparr>op_keys = [''tftp'', ''dhcp''], op_previous = [0], op_phase = Waiting\<rparr>]"
  "accepted two_workflows = [0, 1]"
  by code_simp+

theorem workflow_exclusive_witness: "\<not> ready two_workflows 1"
proof -
  have "if phase_of two_workflows 1 = Waiting then op_settled two_workflows 0 \<or> \<not> ready two_workflows 1 else op_settled two_workflows 0"
    by (rule workflow_exclusive [OF two_workflows_reached, of 0 1 "''tftp''"]) (simp_all add: two_workflows_ops)
  then show ?thesis by (simp add: phase_of_def op_settled_def two_workflows_ops)
qed

theorem workflow_progress_witness: "\<exists>m \<in> {0, 1}. phase_of two_workflows m = Running \<or> ready two_workflows m"
proof -
  have "\<not> drain_done (accepted two_workflows) two_workflows"
    by (simp add: drain_done_def op_settled_def phase_of_def two_workflows_ops)
  then show ?thesis using workflow_progress [OF two_workflows_reached] by (simp add: two_workflows_ops)
qed

end
