(* ===== verification/Server_Manager.thy ===== *)
theory Server_Manager
  imports Workflow_Queue
begin

text \<open>
  The server manager of the daemon: \<open>src/src/services/networkServers/core/ServerManager.ts\<close>,
  \<open>ServerRegistry.ts\<close>, \<open>BaseNexusServer.ts\<close> and \<open>ServerStatus.ts\<close>. A server instance is its
  number in order of creation; its own \<open>start\<close>, \<open>stop\<close> and \<open>dispose\<close> are calls that settle in a
  later step, in either way, and its status may change at any time. A lifecycle operation is its
  number in order of acceptance; where it waits is its phase.
\<close>

section \<open>Servers\<close>

datatype server_status = STOPPED | STARTING | RUNNING | STOPPING | ERROR

record nexus_server =
  server_id :: string
  server_name :: string
  server_port :: nat
  server_status :: server_status
  lastError :: "string option"
  disposed :: bool

record status_event =
  ev_status :: server_status
  ev_error :: "string option"

text \<open>\<open>setStatus\<close>: the events it emits are the list of the result; the second is the log line.\<close>

definition setStatus ::
  "server_status \<Rightarrow> string option \<Rightarrow> nexus_server \<Rightarrow> status_event list \<times> string list \<times> nexus_server" where
  "setStatus st err s =
     (if server_status s = st \<and> lastError s = err then ([], [], s)
      else ([\<lparr>ev_status = st, ev_error = err\<rparr>],
            (case err of
               Some m \<Rightarrow> (if st = ERROR \<and> m \<noteq> [] then [''['' @ server_name s @ ''] '' @ m] else [])
             | None \<Rightarrow> []),
            s\<lparr>server_status := st, lastError := err\<rparr>))"

section \<open>State\<close>

datatype managed_operation = KStart | KStop | KRestart | KDrop

datatype lifecycle_phase =
    Queued | Stopping nat | Between | Starting nat | Disposing nat | Settled bool

record lifecycle_op =
  life_id :: string
  life_kind :: managed_operation
  life_previous :: "nat option"
  life_phase :: lifecycle_phase

record server_manager =
  factories :: "string \<Rightarrow> (string \<times> nat) option"
  servers :: "nexus_server list"
  instances :: "string \<Rightarrow> nat option"
  life_ops :: "lifecycle_op list"
  lifecycleQueues :: "string \<Rightarrow> nat option"
  lastLifecycleOperations :: "string \<Rightarrow> nat option"

definition new_server_manager :: server_manager where
  "new_server_manager =
     \<lparr>factories = (\<lambda>_. None), servers = [], instances = (\<lambda>_. None), life_ops = [],
      lifecycleQueues = (\<lambda>_. None), lastLifecycleOperations = (\<lambda>_. None)\<rparr>"

text \<open>The registry: a factory gives the name and the port of the servers it builds.\<close>

definition registry_register :: "string \<Rightarrow> string \<times> nat \<Rightarrow> server_manager \<Rightarrow> server_manager option" where
  "registry_register i f m =
     (if factories m i \<noteq> None then None else Some (m\<lparr>factories := (factories m)(i := Some f)\<rparr>))"

definition registry_unregister :: "string \<Rightarrow> server_manager \<Rightarrow> bool \<times> server_manager" where
  "registry_unregister i m = (factories m i \<noteq> None, m\<lparr>factories := (factories m)(i := None)\<rparr>)"

definition registry_create :: "string \<Rightarrow> server_manager \<Rightarrow> nexus_server option" where
  "registry_create i m =
     map_option (\<lambda>(name, port). \<lparr>server_id = i, server_name = name, server_port = port, server_status = STOPPED,
                                lastError = None, disposed = False\<rparr>) (factories m i)"

text \<open>\<open>None\<close> is the error of an identifier that is not registered.\<close>

definition ensureInstance :: "string \<Rightarrow> server_manager \<Rightarrow> (nat \<times> server_manager) option" where
  "ensureInstance i m =
     (case instances m i of
        Some u \<Rightarrow> Some (u, m)
      | None \<Rightarrow>
          (case registry_create i m of
             None \<Rightarrow> None
           | Some s \<Rightarrow>
               Some (length (servers m),
                     m\<lparr>servers := servers m @ [s], instances := (instances m)(i := Some (length (servers m)))\<rparr>)))"

record server_snapshot =
  snap_id :: string
  snap_name :: string
  snap_port :: nat
  snap_status :: server_status
  snap_error :: "string option"

definition getSnapshot :: "string \<Rightarrow> server_manager \<Rightarrow> server_snapshot option" where
  "getSnapshot i m =
     (case instances m i of
        Some u \<Rightarrow>
          (let s = servers m ! u
           in Some \<lparr>snap_id = server_id s, snap_name = server_name s, snap_port = server_port s,
                    snap_status = server_status s,
                    snap_error = (if server_status s = ERROR then lastError s else None)\<rparr>)
      | None \<Rightarrow>
          map_option (\<lambda>s. \<lparr>snap_id = server_id s, snap_name = server_name s, snap_port = server_port s,
                          snap_status = STOPPED, snap_error = None\<rparr>) (registry_create i m))"

section \<open>Requests\<close>

definition manager_enqueueLifecycle :: "string \<Rightarrow> managed_operation \<Rightarrow> server_manager \<Rightarrow> nat \<times> server_manager" where
  "manager_enqueueLifecycle i kind m =
     (case lastLifecycleOperations m i of
        Some n \<Rightarrow>
          (if life_kind (life_ops m ! n) = kind then (n, m)
           else (length (life_ops m),
                 m\<lparr>life_ops := life_ops m @ [\<lparr>life_id = i, life_kind = kind, life_previous = lifecycleQueues m i,
                                              life_phase = Queued\<rparr>],
                   lifecycleQueues := (lifecycleQueues m)(i := Some (length (life_ops m))),
                   lastLifecycleOperations := (lastLifecycleOperations m)(i := Some (length (life_ops m)))\<rparr>))
      | None \<Rightarrow>
          (length (life_ops m),
           m\<lparr>life_ops := life_ops m @ [\<lparr>life_id = i, life_kind = kind, life_previous = lifecycleQueues m i,
                                        life_phase = Queued\<rparr>],
             lifecycleQueues := (lifecycleQueues m)(i := Some (length (life_ops m))),
             lastLifecycleOperations := (lastLifecycleOperations m)(i := Some (length (life_ops m)))\<rparr>))"

text \<open>The request that was recorded last is forgotten once it has settled.\<close>

definition life_clear :: "nat \<Rightarrow> server_manager \<Rightarrow> server_manager" where
  "life_clear n m =
     (let i = life_id (life_ops m ! n)
      in if lastLifecycleOperations m i = Some n
         then m\<lparr>lastLifecycleOperations := (lastLifecycleOperations m)(i := None),
                lifecycleQueues := (if lifecycleQueues m i = Some n then (lifecycleQueues m)(i := None)
                                    else lifecycleQueues m)\<rparr>
         else m)"

text \<open>\<open>start\<close>, \<open>stop\<close>, \<open>restart\<close> and \<open>dropInstance\<close>: the operation shared or added, or none where
  the identifier is unknown.\<close>

definition manager_request :: "string \<Rightarrow> managed_operation \<Rightarrow> server_manager \<Rightarrow> nat option \<times> server_manager" where
  "manager_request i kind m =
     (if kind = KStart \<or> kind = KRestart
      then (case ensureInstance i m of
              None \<Rightarrow> (None, m)
            | Some (_, m1) \<Rightarrow> (case manager_enqueueLifecycle i kind m1 of (n, m2) \<Rightarrow> (Some n, m2)))
      else (case manager_enqueueLifecycle i kind m of (n, m2) \<Rightarrow> (Some n, m2)))"

section \<open>The operations\<close>

definition set_life :: "nat \<Rightarrow> lifecycle_phase \<Rightarrow> server_manager \<Rightarrow> server_manager" where
  "set_life n p m = m\<lparr>life_ops := (life_ops m)[n := (life_ops m ! n)\<lparr>life_phase := p\<rparr>]\<rparr>"

definition life_settled :: "server_manager \<Rightarrow> nat \<Rightarrow> bool" where
  "life_settled m n \<longleftrightarrow> (case life_phase (life_ops m ! n) of Settled _ \<Rightarrow> True | _ \<Rightarrow> False)"

definition manager_startOwned :: "nat \<Rightarrow> server_manager \<Rightarrow> server_manager" where
  "manager_startOwned n m =
     (case ensureInstance (life_id (life_ops m ! n)) m of
        None \<Rightarrow> set_life n (Settled False) m
      | Some (u, m1) \<Rightarrow>
          (if server_status (servers m1 ! u) = RUNNING then set_life n (Settled True) m1
           else set_life n (Starting u) m1))"

definition manager_stopOwned :: "nat \<Rightarrow> lifecycle_phase \<Rightarrow> server_manager \<Rightarrow> server_manager" where
  "manager_stopOwned n absent m =
     (case instances m (life_id (life_ops m ! n)) of
        None \<Rightarrow> set_life n absent m
      | Some u \<Rightarrow> set_life n (Stopping u) m)"

text \<open>The operation is called once its predecessor has settled.\<close>

definition life_ready :: "server_manager \<Rightarrow> nat \<Rightarrow> bool" where
  "life_ready m n \<longleftrightarrow>
     n < length (life_ops m) \<and> life_phase (life_ops m ! n) = Queued
     \<and> (case life_previous (life_ops m ! n) of None \<Rightarrow> True | Some p \<Rightarrow> life_settled m p)"

definition life_call :: "nat \<Rightarrow> server_manager \<Rightarrow> server_manager" where
  "life_call n m =
     (case life_kind (life_ops m ! n) of
        KStart \<Rightarrow> manager_startOwned n m
      | KStop \<Rightarrow> manager_stopOwned n (Settled True) m
      | KRestart \<Rightarrow> manager_stopOwned n Between m
      | KDrop \<Rightarrow> manager_stopOwned n (Settled True) m)"

text \<open>What follows when the server's \<open>stop()\<close>, \<open>start()\<close> or \<open>dispose()\<close> has settled.\<close>

definition stop_done :: "nat \<Rightarrow> nat \<Rightarrow> bool \<Rightarrow> server_manager \<Rightarrow> server_manager" where
  "stop_done n u ok m =
     (if \<not> ok then set_life n (Settled False) m
      else case life_kind (life_ops m ! n) of
             KRestart \<Rightarrow> set_life n Between m
           | KDrop \<Rightarrow> set_life n (Disposing u) m
           | _ \<Rightarrow> set_life n (Settled True) m)"

definition dispose_done :: "nat \<Rightarrow> nat \<Rightarrow> bool \<Rightarrow> server_manager \<Rightarrow> server_manager" where
  "dispose_done n u ok m =
     (if \<not> ok then set_life n (Settled False) m
      else (let i = life_id (life_ops m ! n);
                m1 = m\<lparr>servers := (servers m)[u := (servers m ! u)\<lparr>disposed := True\<rparr>]\<rparr>
            in set_life n (Settled True)
                 (if instances m i = Some u then m1\<lparr>instances := (instances m)(i := None)\<rparr> else m1)))"

definition server_status_change :: "nat \<Rightarrow> server_status \<Rightarrow> string option \<Rightarrow> server_manager \<Rightarrow> server_manager" where
  "server_status_change u st err m =
     m\<lparr>servers := (servers m)[u := snd (snd (setStatus st err (servers m ! u)))]\<rparr>"

inductive manager_step :: "server_manager \<Rightarrow> server_manager \<Rightarrow> bool" where
  step_register: "registry_register i f m = Some m' \<Longrightarrow> manager_step m m'"
| step_unregister: "manager_step m (snd (registry_unregister i m))"
| step_ensure: "ensureInstance i m = Some (u, m') \<Longrightarrow> manager_step m m'"
| step_request: "manager_step m (snd (manager_request i kind m))"
| step_call: "life_ready m n \<Longrightarrow> manager_step m (life_call n m)"
| step_stopped: "n < length (life_ops m) \<Longrightarrow> life_phase (life_ops m ! n) = Stopping u \<Longrightarrow>
    manager_step m (stop_done n u ok m)"
| step_between: "n < length (life_ops m) \<Longrightarrow> life_phase (life_ops m ! n) = Between \<Longrightarrow>
    manager_step m (manager_startOwned n m)"
| step_started: "n < length (life_ops m) \<Longrightarrow> life_phase (life_ops m ! n) = Starting u \<Longrightarrow>
    manager_step m (set_life n (Settled ok) m)"
| step_disposed: "n < length (life_ops m) \<Longrightarrow> life_phase (life_ops m ! n) = Disposing u \<Longrightarrow>
    manager_step m (dispose_done n u ok m)"
| step_clear: "n < length (life_ops m) \<Longrightarrow> life_settled m n \<Longrightarrow> manager_step m (life_clear n m)"
| step_status: "u < length (servers m) \<Longrightarrow> manager_step m (server_status_change u st err m)"

section \<open>The queue of operations\<close>

text \<open>The lifecycle queue is a workflow queue whose operations have one key each.\<close>

definition workflow_phase :: "lifecycle_phase \<Rightarrow> phase" where
  "workflow_phase p = (case p of Queued \<Rightarrow> Waiting | Settled ok \<Rightarrow> Done ok | _ \<Rightarrow> Running)"

definition workflow_op_of :: "lifecycle_op \<Rightarrow> workflow_op" where
  "workflow_op_of x =
     \<lparr>op_keys = [life_id x], op_previous = (case life_previous x of None \<Rightarrow> [] | Some p \<Rightarrow> [p]),
      op_phase = workflow_phase (life_phase x)\<rparr>"

definition abs_queue :: "server_manager \<Rightarrow> workflow_queue" where
  "abs_queue m =
     \<lparr>ops = map workflow_op_of (life_ops m), queues = lifecycleQueues m, accepted = [], closing = False\<rparr>"

lemma abs_simps [simp]:
  "length (ops (abs_queue m)) = length (life_ops m)" "queues (abs_queue m) = lifecycleQueues m"
  by (simp_all add: abs_queue_def)

lemma abs_nth:
  assumes "n < length (life_ops m)"
  shows "shares (abs_queue m) k n \<longleftrightarrow> k = life_id (life_ops m ! n)"
    "phase_of (abs_queue m) n = workflow_phase (life_phase (life_ops m ! n))"
    "op_settled (abs_queue m) n = life_settled m n"
  using assms
  by (auto simp: abs_queue_def shares_def phase_of_def op_settled_def life_settled_def workflow_op_of_def workflow_phase_def
      split: lifecycle_phase.splits)

lemma abs_cong: "life_ops m' = life_ops m \<Longrightarrow> lifecycleQueues m' = lifecycleQueues m \<Longrightarrow> abs_queue m' = abs_queue m"
  by (simp add: abs_queue_def)

lemma abs_set_life: "n < length (life_ops m) \<Longrightarrow> abs_queue (set_life n p m) = set_phase n (workflow_phase p) (abs_queue m)"
  by (simp add: abs_queue_def set_life_def set_phase_def map_update workflow_op_of_def)

lemma abs_ready: "n < length (life_ops m) \<Longrightarrow> chain_ok (abs_queue m) \<Longrightarrow> ready (abs_queue m) n \<longleftrightarrow> life_ready m n"
proof -
  assume n: "n < length (life_ops m)" and c: "chain_ok (abs_queue m)"
  have o: "ops (abs_queue m) ! n = workflow_op_of (life_ops m ! n)" using n by (simp add: abs_queue_def)
  have p: "p < n" if "life_previous (life_ops m ! n) = Some p" for p
    using linkedD(1) [OF c, of n p] n that by (simp add: o workflow_op_of_def)
  have "workflow_phase x = Waiting \<longleftrightarrow> x = Queued" for x by (cases x) (simp_all add: workflow_phase_def)
  then show ?thesis
    using n p abs_nth [of _ m]
    by (auto simp: ready_def life_ready_def o workflow_op_of_def split: option.splits)
qed

lemma abs_enqueue:
  "abs_queue (snd (manager_enqueueLifecycle i kind m)) = abs_queue m
   \<or> abs_queue (snd (manager_enqueueLifecycle i kind m)) = append_op [i] (abs_queue m)"
proof -
  have "abs_queue (m\<lparr>life_ops := life_ops m @ [\<lparr>life_id = i, life_kind = kind, life_previous = lifecycleQueues m i,
        life_phase = Queued\<rparr>], lifecycleQueues := (lifecycleQueues m)(i := Some (length (life_ops m))),
        lastLifecycleOperations := (lastLifecycleOperations m)(i := Some (length (life_ops m)))\<rparr>) = append_op [i] (abs_queue m)"
    by (auto simp: abs_queue_def append_op_def workflow_op_of_def workflow_phase_def map_filter_simps fun_upd_def split: option.splits)
  then show ?thesis by (auto simp: manager_enqueueLifecycle_def split: option.splits)
qed

lemma abs_clear:
  "n < length (life_ops m) \<Longrightarrow> lastLifecycleOperations m = lifecycleQueues m \<Longrightarrow>
    abs_queue (life_clear n m) = drop_tail n (abs_queue m)"
  by (auto simp: life_clear_def abs_queue_def drop_tail_def workflow_op_of_def Let_def fun_upd_def)

section \<open>Invariant\<close>

text \<open>An instance is mapped under its identifier until it is disposed of.\<close>

definition owned :: "server_manager \<Rightarrow> bool" where
  "owned m \<longleftrightarrow>
     (\<forall>i u. instances m i = Some u \<longrightarrow> u < length (servers m) \<and> server_id (servers m ! u) = i \<and> \<not> disposed (servers m ! u))
     \<and> (\<forall>u < length (servers m). disposed (servers m ! u) \<or> instances m (server_id (servers m ! u)) = Some u)"

lemma ownedD:
  "owned m \<Longrightarrow> instances m i = Some u \<Longrightarrow> u < length (servers m) \<and> server_id (servers m ! u) = i \<and> \<not> disposed (servers m ! u)"
  "owned m \<Longrightarrow> u < length (servers m) \<Longrightarrow> disposed (servers m ! u) \<or> instances m (server_id (servers m ! u)) = Some u"
  unfolding owned_def by blast+

text \<open>An operation at work on an instance has the mapped one.\<close>

definition works_on :: "lifecycle_phase \<Rightarrow> nat option" where
  "works_on p = (case p of Stopping u \<Rightarrow> Some u | Starting u \<Rightarrow> Some u | Disposing u \<Rightarrow> Some u | _ \<Rightarrow> None)"

definition attached :: "server_manager \<Rightarrow> bool" where
  "attached m \<longleftrightarrow>
     (\<forall>n < length (life_ops m). \<forall>u. works_on (life_phase (life_ops m ! n)) = Some u \<longrightarrow>
        instances m (life_id (life_ops m ! n)) = Some u)"

definition manager_ok :: "server_manager \<Rightarrow> bool" where
  "manager_ok m \<longleftrightarrow>
     chain_ok (abs_queue m) \<and> lastLifecycleOperations m = lifecycleQueues m \<and> owned m \<and> attached m"

lemma manager_ok_new: "manager_ok new_server_manager"
  by (simp add: manager_ok_def owned_def attached_def new_server_manager_def chain_ok_def ordered_def linked_def
      tails_def abs_queue_def)

text \<open>Of two operations of a server one has settled or has not been called.\<close>

lemma one_active:
  assumes "manager_ok m" "n < length (life_ops m)" "n' < length (life_ops m)" "n \<noteq> n'"
    "life_id (life_ops m ! n) = life_id (life_ops m ! n')"
    "works_on (life_phase (life_ops m ! n)) \<noteq> None"
  shows "works_on (life_phase (life_ops m ! n')) = None"
proof (rule ccontr)
  assume a: "works_on (life_phase (life_ops m ! n')) \<noteq> None"
  have w: "works_on p \<noteq> None \<Longrightarrow> workflow_phase p \<noteq> Waiting \<and> (case p of Settled _ \<Rightarrow> False | _ \<Rightarrow> True)" for p
    by (cases p) (auto simp: works_on_def workflow_phase_def)
  have c: "chain_ok (abs_queue m)" using assms(1) by (simp add: manager_ok_def)
  have "op_settled (abs_queue m) (min n n')"
    using orderedD [OF c, of "max n n'" "min n n'" "life_id (life_ops m ! n)"] assms(2-5) w [OF assms(6)] w [OF a]
    by (cases "n < n'") (auto simp: abs_nth)
  then show False using assms(2,3) w [OF assms(6)] w [OF a]
    by (cases "n < n'") (auto simp: abs_nth life_settled_def split: lifecycle_phase.splits)
qed

lemma ok_cong:
  assumes "manager_ok m" "life_ops m' = life_ops m" "lifecycleQueues m' = lifecycleQueues m"
    "lastLifecycleOperations m' = lastLifecycleOperations m" "instances m' = instances m" "servers m' = servers m"
  shows "manager_ok m'"
  using assms abs_cong [OF assms(2,3)] by (simp add: manager_ok_def owned_def attached_def)

lemma ensure_facts:
  assumes "ensureInstance i m = Some (u, m')"
  shows "abs_queue m' = abs_queue m" "life_ops m' = life_ops m" "instances m' i = Some u"
    "lastLifecycleOperations m' = lastLifecycleOperations m" "lifecycleQueues m' = lifecycleQueues m"
  using assms by (auto simp: ensureInstance_def abs_queue_def split: option.splits)

lemma ok_ensure:
  assumes "manager_ok m" "ensureInstance i m = Some (u, m')"
  shows "manager_ok m'"
proof (cases "instances m i")
  case (Some v)
  then show ?thesis using assms by (simp add: ensureInstance_def)
next
  case None
  then obtain s where s: "registry_create i m = Some s"
    and m': "m' = m\<lparr>servers := servers m @ [s], instances := (instances m)(i := Some (length (servers m)))\<rparr>"
    using assms(2) by (auto simp: ensureInstance_def split: option.splits)
  have f: "server_id s = i" "\<not> disposed s" using s by (auto simp: registry_create_def)
  have o: "owned m" using assms(1) by (simp add: manager_ok_def)
  have "owned m'" unfolding owned_def
  proof (intro conjI allI impI)
    fix j v assume j: "instances m' j = Some v"
    show "v < length (servers m')" "server_id (servers m' ! v) = j" "\<not> disposed (servers m' ! v)"
      using j f ownedD(1) [OF o, of j v] by (cases "j = i"; simp add: m' nth_append)+
  next
    fix v assume v: "v < length (servers m')"
    show "disposed (servers m' ! v) \<or> instances m' (server_id (servers m' ! v)) = Some v"
    proof (cases "v < length (servers m)")
      case True
      then show ?thesis using ownedD(2) [OF o True] None by (auto simp: m' nth_append)
    next
      case False
      then have "v = length (servers m)" using v by (simp add: m')
      then show ?thesis using f by (simp add: m')
    qed
  qed
  moreover have "attached m'" using assms(1) None by (auto simp: manager_ok_def attached_def m')
  ultimately show ?thesis
    using assms(1) ensure_facts [OF assms(2)] by (simp add: manager_ok_def)
qed

lemma ok_enqueueLifecycle:
  assumes "manager_ok m"
  shows "manager_ok (snd (manager_enqueueLifecycle i kind m))"
proof -
  let ?m = "snd (manager_enqueueLifecycle i kind m)"
  have c: "chain_ok (abs_queue ?m)"
    using abs_enqueue [of i kind m] chain_append [of "abs_queue m"] assms by (auto simp: manager_ok_def)
  have "lastLifecycleOperations ?m = lifecycleQueues ?m" "servers ?m = servers m" "instances ?m = instances m"
    using assms by (auto simp: manager_ok_def manager_enqueueLifecycle_def split: option.splits)
  moreover have "attached ?m"
    using assms by (auto simp: manager_ok_def attached_def manager_enqueueLifecycle_def works_on_def nth_append less_Suc_eq split: option.splits)
  ultimately show ?thesis using assms c by (simp add: manager_ok_def owned_def)
qed

lemma ok_request: "manager_ok m \<Longrightarrow> manager_ok (snd (manager_request i kind m))"
proof -
  assume m: "manager_ok m"
  have e: "snd (case manager_enqueueLifecycle i kind m1 of (n, m2) \<Rightarrow> (Some n, m2)) = snd (manager_enqueueLifecycle i kind m1)" for m1
    by (simp split: prod.splits)
  show ?thesis
  proof (cases "ensureInstance i m")
    case None
    then show ?thesis using m ok_enqueueLifecycle [OF m] by (simp add: manager_request_def e)
  next
    case (Some r)
    then obtain u m1 where r: "ensureInstance i m = Some (u, m1)" by (cases r) auto
    show ?thesis
      using ok_enqueueLifecycle [OF ok_ensure [OF m r]] ok_enqueueLifecycle [OF m] by (simp add: manager_request_def r e)
  qed
qed

text \<open>A change of phase.\<close>

definition called :: "server_manager \<Rightarrow> nat \<Rightarrow> bool" where
  "called m n \<longleftrightarrow> n < length (life_ops m) \<and> (life_ready m n \<or> workflow_phase (life_phase (life_ops m ! n)) = Running)"

lemma called_advances:
  assumes "manager_ok m" "called m n" "p \<noteq> Queued"
  shows "advances n (workflow_phase p) (abs_queue m)"
proof -
  have c: "chain_ok (abs_queue m)" and n: "n < length (life_ops m)"
    using assms(1,2) by (simp_all add: manager_ok_def called_def)
  have u: "\<not> op_settled (abs_queue m) n"
    using assms(2) by (auto simp: called_def abs_nth life_settled_def life_ready_def workflow_phase_def split: lifecycle_phase.splits)
  have p: "workflow_phase p \<noteq> Waiting" using assms(3) by (cases p) (simp_all add: workflow_phase_def)
  have "op_settled (abs_queue m) i" if i: "i < n" "shares (abs_queue m) k i" "shares (abs_queue m) k n" for i k
  proof (cases "life_ready m n")
    case True
    then have "advances n Running (abs_queue m)" using advances_call [OF c] abs_ready [OF n c] by simp
    then show ?thesis using i by (auto simp: advances_def)
  next
    case False
    then have "phase_of (abs_queue m) n \<noteq> Waiting" using assms(2) n by (auto simp: called_def abs_nth)
    then show ?thesis using orderedD [OF c, of n i k] i n by simp
  qed
  then show ?thesis using n u p by (auto simp: advances_def)
qed

lemma set_life_simps [simp]:
  "length (life_ops (set_life n p m)) = length (life_ops m)" "instances (set_life n p m) = instances m"
  "servers (set_life n p m) = servers m" "lifecycleQueues (set_life n p m) = lifecycleQueues m"
  "lastLifecycleOperations (set_life n p m) = lastLifecycleOperations m"
  by (simp_all add: set_life_def)

lemma set_life_nth:
  "k < length (life_ops m) \<Longrightarrow> life_id (life_ops (set_life n p m) ! k) = life_id (life_ops m ! k)
    \<and> life_phase (life_ops (set_life n p m) ! k) = (if k = n then p else life_phase (life_ops m ! k))"
  by (auto simp: set_life_def nth_list_update)

lemma ok_set_life:
  assumes "manager_ok m" "called m n" "p \<noteq> Queued"
    "works_on p = None \<or> works_on p = instances m (life_id (life_ops m ! n))"
  shows "manager_ok (set_life n p m)"
proof -
  have n: "n < length (life_ops m)" using assms(2) by (simp add: called_def)
  have "chain_ok (abs_queue (set_life n p m))"
    using chain_phase [OF _ called_advances [OF assms(1-3)]] assms(1) by (simp add: abs_set_life [OF n] manager_ok_def)
  moreover have "attached (set_life n p m)" unfolding attached_def
  proof (intro allI impI)
    fix k u assume k: "k < length (life_ops (set_life n p m))" "works_on (life_phase (life_ops (set_life n p m) ! k)) = Some u"
    then show "instances (set_life n p m) (life_id (life_ops (set_life n p m) ! k)) = Some u"
      using assms(1,4) set_life_nth [of k m n p] by (cases "k = n") (auto simp: manager_ok_def attached_def)
  qed
  ultimately show ?thesis using assms(1) by (simp add: manager_ok_def owned_def)
qed

lemma ok_stopOwned: "manager_ok m \<Longrightarrow> called m n \<Longrightarrow> absent \<noteq> Queued \<Longrightarrow> works_on absent = None \<Longrightarrow> manager_ok (manager_stopOwned n absent m)"
  by (auto simp: manager_stopOwned_def works_on_def intro!: ok_set_life split: option.splits)

lemma ok_startOwned:
  assumes "manager_ok m" "called m n"
  shows "manager_ok (manager_startOwned n m)"
proof (cases "ensureInstance (life_id (life_ops m ! n)) m")
  case None
  then show ?thesis using ok_set_life [OF assms, of "Settled False"] by (simp add: manager_startOwned_def works_on_def)
next
  case (Some r)
  then obtain u m1 where e: "ensureInstance (life_id (life_ops m ! n)) m = Some (u, m1)" by (cases r) auto
  note f = ensure_facts [OF e]
  have ok: "manager_ok m1" by (rule ok_ensure [OF assms(1) e])
  have "life_settled m1 = life_settled m" using f(2) by (intro ext) (simp add: life_settled_def)
  then have c: "called m1 n" using assms(2) f(2) by (auto simp: called_def life_ready_def split: option.splits)
  have "manager_ok (set_life n (Settled True) m1)" "manager_ok (set_life n (Starting u) m1)"
    using ok_set_life [OF ok c, of "Settled True"] ok_set_life [OF ok c, of "Starting u"] f by (simp_all add: works_on_def)
  then show ?thesis by (simp add: manager_startOwned_def e)
qed

lemma ok_call: "manager_ok m \<Longrightarrow> life_ready m n \<Longrightarrow> manager_ok (life_call n m)"
proof -
  assume m: "manager_ok m" and r: "life_ready m n"
  then have c: "called m n" by (simp add: called_def life_ready_def)
  show ?thesis using ok_startOwned [OF m c] ok_stopOwned [OF m c]
    by (simp add: life_call_def works_on_def split: managed_operation.splits)
qed

lemma ok_stop_done:
  assumes "manager_ok m" "n < length (life_ops m)" "life_phase (life_ops m ! n) = Stopping u"
  shows "manager_ok (stop_done n u ok m)"
proof -
  have c: "called m n" using assms by (simp add: called_def workflow_phase_def)
  have "instances m (life_id (life_ops m ! n)) = Some u" using assms by (auto simp: manager_ok_def attached_def works_on_def)
  then show ?thesis using ok_set_life [OF assms(1) c]
    by (simp add: stop_done_def works_on_def split: managed_operation.splits)
qed

text \<open>An instance is forgotten.\<close>

lemma ok_forget:
  assumes "manager_ok m" "instances m i = Some u"
    "\<And>n. n < length (life_ops m) \<Longrightarrow> life_id (life_ops m ! n) = i \<Longrightarrow> works_on (life_phase (life_ops m ! n)) = None"
  shows "manager_ok (m\<lparr>servers := (servers m)[u := (servers m ! u)\<lparr>disposed := True\<rparr>], instances := (instances m)(i := None)\<rparr>)"
proof -
  let ?m = "m\<lparr>servers := (servers m)[u := (servers m ! u)\<lparr>disposed := True\<rparr>], instances := (instances m)(i := None)\<rparr>"
  have o: "u < length (servers m)" "server_id (servers m ! u) = i" using assms(1,2) by (auto simp: manager_ok_def owned_def)
  have own: "owned m" using assms(1) by (simp add: manager_ok_def)
  have "owned ?m" unfolding owned_def
  proof (intro conjI allI impI)
    fix j v assume j: "instances ?m j = Some v"
    then have "j \<noteq> i" "instances m j = Some v" by (simp_all split: if_splits)
    note d = this ownedD(1) [OF own this(2)]
    then have "v \<noteq> u" using o(2) by auto
    then show "v < length (servers ?m)" "server_id (servers ?m ! v) = j" "\<not> disposed (servers ?m ! v)" using d by simp_all
  next
    fix v assume v: "v < length (servers ?m)"
    show "disposed (servers ?m ! v) \<or> instances ?m (server_id (servers ?m ! v)) = Some v"
    proof (cases "v = u")
      case True
      then show ?thesis using o(1) by simp
    next
      case False
      then have "server_id (servers m ! v) \<noteq> i" if "\<not> disposed (servers m ! v)"
        using ownedD(2) [OF own, of v] v that assms(2) by auto
      then show ?thesis using ownedD(2) [OF own, of v] v False by auto
    qed
  qed
  moreover have "attached ?m" using assms(1,3) by (fastforce simp: manager_ok_def attached_def)
  ultimately show ?thesis using assms(1) abs_cong [of ?m m] by (simp add: manager_ok_def)
qed

lemma ok_dispose_done:
  assumes "manager_ok m" "n < length (life_ops m)" "life_phase (life_ops m ! n) = Disposing u"
  shows "manager_ok (dispose_done n u ok m)"
proof -
  let ?i = "life_id (life_ops m ! n)" and ?m = "set_life n (Settled True) m"
  have c: "called m n" using assms by (simp add: called_def workflow_phase_def)
  have i: "instances m ?i = Some u" using assms by (auto simp: manager_ok_def attached_def works_on_def)
  have s: "manager_ok (set_life n (Settled b) m)" for b
    using ok_set_life [OF assms(1) c, of "Settled b"] by (simp add: works_on_def)
  have none: "works_on (life_phase (life_ops ?m ! k)) = None" if "k < length (life_ops ?m)" "life_id (life_ops ?m ! k) = ?i" for k
    using that one_active [OF assms(1,2), of k] assms(3) set_life_nth [of k m n "Settled True"]
    by (cases "k = n") (auto simp: works_on_def)
  have "dispose_done n u True m = ?m\<lparr>servers := (servers ?m)[u := (servers ?m ! u)\<lparr>disposed := True\<rparr>],
      instances := (instances ?m)(?i := None)\<rparr>"
    using i by (simp add: dispose_done_def Let_def set_life_def)
  moreover have "manager_ok \<dots>" by (rule ok_forget [OF s]) (use i none in simp_all)
  ultimately show ?thesis using s by (cases ok) (simp_all add: dispose_done_def)
qed

lemma ok_clear:
  assumes "manager_ok m" "n < length (life_ops m)" "life_settled m n"
  shows "manager_ok (life_clear n m)"
proof -
  have l: "lastLifecycleOperations m = lifecycleQueues m" and c: "chain_ok (abs_queue m)" using assms(1) by (simp_all add: manager_ok_def)
  have "chain_ok (abs_queue (life_clear n m))"
    using chain_drop_tail [OF c, of n] abs_clear [OF assms(2) l] assms(2,3) by (simp add: abs_nth)
  moreover have "lastLifecycleOperations (life_clear n m) = lifecycleQueues (life_clear n m)"
    "servers (life_clear n m) = servers m" "instances (life_clear n m) = instances m" "life_ops (life_clear n m) = life_ops m"
    using l by (auto simp: life_clear_def Let_def)
  ultimately show ?thesis using assms(1) by (simp add: manager_ok_def owned_def attached_def)
qed

lemma ok_status: "manager_ok m \<Longrightarrow> manager_ok (server_status_change u st err m)"
proof -
  assume m: "manager_ok m"
  let ?m = "server_status_change u st err m"
  have same: "server_id (servers ?m ! v) = server_id (servers m ! v) \<and> disposed (servers ?m ! v) = disposed (servers m ! v)"
    if "v < length (servers m)" for v
    using that by (cases "v = u") (simp_all add: server_status_change_def setStatus_def)
  have own: "owned m" using m by (simp add: manager_ok_def)
  have e: "length (servers ?m) = length (servers m)" "instances ?m = instances m" by (simp_all add: server_status_change_def)
  have "owned ?m" unfolding owned_def e
  proof (intro conjI allI impI)
    fix j v assume j: "instances m j = Some v"
    show "v < length (servers m)" "server_id (servers ?m ! v) = j" "\<not> disposed (servers ?m ! v)"
      using ownedD(1) [OF own j] same [of v] by simp_all
  next
    fix v assume "v < length (servers m)"
    then show "disposed (servers ?m ! v) \<or> instances m (server_id (servers ?m ! v)) = Some v"
      using ownedD(2) [OF own] same [of v] by simp
  qed
  then show ?thesis using m abs_cong [of ?m m] by (simp add: manager_ok_def attached_def) (simp add: server_status_change_def)
qed

lemma manager_step_ok: "manager_step m m' \<Longrightarrow> manager_ok m \<Longrightarrow> manager_ok m'"
proof (induction rule: manager_step.induct)
  case (step_register i f m m')
  then show ?case using ok_cong [of m m'] by (auto simp: registry_register_def split: if_splits)
next
  case (step_unregister m i)
  then show ?case using ok_cong [of m "snd (registry_unregister i m)"] by (simp add: registry_unregister_def)
next
  case (step_between n m)
  then show ?case by (intro ok_startOwned) (simp_all add: called_def workflow_phase_def)
next
  case (step_started n m u ok)
  then show ?case by (intro ok_set_life) (simp_all add: called_def workflow_phase_def works_on_def)
qed (simp_all add: ok_ensure ok_request ok_call ok_stop_done ok_dispose_done ok_clear ok_status)

interpretation manager_run: invariant_system "\<lambda>m. m = new_server_manager" manager_step manager_ok
  by unfold_locales (auto simp: manager_ok_new intro: manager_step_ok)

section \<open>Properties\<close>

text \<open>
  C28. No server instance is lost: in every run, whatever fails, an instance that was created is
  mapped under its identifier until its disposal succeeded, and an operation that waits for the
  \<open>start\<close>, \<open>stop\<close> or \<open>dispose\<close> of an instance waits for the mapped one, which is not disposed of.
\<close>

theorem manager_ownership:
  assumes "manager_step\<^sup>*\<^sup>* new_server_manager m"
  shows "list_all (\<lambda>u. disposed (servers m ! u) \<or> instances m (server_id (servers m ! u)) = Some u) [0 ..< length (servers m)]
    \<and> list_all (\<lambda>x. case works_on (life_phase x) of
                     None \<Rightarrow> True
                   | Some u \<Rightarrow> instances m (life_id x) = Some u \<and> \<not> disposed (servers m ! u)) (life_ops m)"
proof -
  have "manager_ok m" by (rule manager_run.inv_reachable [OF refl assms])
  then have o: "owned m" "attached m" by (simp_all add: manager_ok_def)
  have "instances m (life_id x) = Some u \<and> \<not> disposed (servers m ! u)"
    if "x \<in> set (life_ops m)" "works_on (life_phase x) = Some u" for x u
    using o that ownedD(1) [OF o(1)] by (auto simp: attached_def in_set_conv_nth)
  then show ?thesis using ownedD(2) [OF o(1)] by (auto simp: list_all_iff split: option.splits)
qed

text \<open>
  The transitions of a server are serialised and never deadlock: a later operation of the same
  server is not called before the earlier one has settled, also when that failed, and while some
  operation has not settled, one accepted no later is at work or can be called.
\<close>

theorem manager_serial:
  assumes "manager_step\<^sup>*\<^sup>* new_server_manager m"
    and "i < j" "j < length (life_ops m)" "life_id (life_ops m ! i) = life_id (life_ops m ! j)"
    and "\<not> life_settled m i"
  shows "life_phase (life_ops m ! j) = Queued \<and> \<not> life_ready m j
    \<and> Bex {..i} (\<lambda>k. workflow_phase (life_phase (life_ops m ! k)) = Running \<or> life_ready m k)"
proof -
  have ok: "manager_ok m" by (rule manager_run.inv_reachable [OF refl assms(1)])
  then have c: "chain_ok (abs_queue m)" by (simp add: manager_ok_def)
  have i: "i < length (life_ops m)" using assms(2,3) by simp
  have u: "\<not> op_settled (abs_queue m) i" using assms(5) i by (simp add: abs_nth)
  let ?k = "life_id (life_ops m ! j)"
  have s: "shares (abs_queue m) ?k i" "shares (abs_queue m) ?k j" using i assms(3,4) by (simp_all add: abs_nth)
  have "phase_of (abs_queue m) j = Waiting" using orderedD [OF c, of j i ?k] assms(2,3) s u by auto
  then have q: "life_phase (life_ops m ! j) = Queued"
    using assms(3) by (cases "life_phase (life_ops m ! j)") (simp_all add: abs_nth workflow_phase_def)
  have "\<not> life_ready m j"
    using advances_call [OF c, of j] abs_ready [OF assms(3) c] assms(2) s u by (auto simp: advances_def)
  moreover have "\<exists>k \<le> i. phase_of (abs_queue m) k = Running \<or> ready (abs_queue m) k"
    using first_unsettled [OF c, of i] i u by simp
  then have "\<exists>k \<le> i. workflow_phase (life_phase (life_ops m ! k)) = Running \<or> life_ready m k"
    using i abs_ready [OF _ c] by (auto simp: abs_nth)
  ultimately show ?thesis using q by auto
qed

definition sample_manager :: server_manager where
  "sample_manager =
     snd (manager_request ''tftp'' KDrop (snd (manager_request ''tftp'' KStart
       (the (registry_register ''tftp'' (''TFTP'', 69) new_server_manager)))))"

lemma sample_manager_reached: "manager_step\<^sup>*\<^sup>* new_server_manager sample_manager"
proof -
  let ?m1 = "the (registry_register ''tftp'' (''TFTP'', 69) new_server_manager)"
  have "manager_step new_server_manager ?m1"
    by (rule step_register [of "''tftp''" "(''TFTP'', 69)"]) (simp add: registry_register_def new_server_manager_def)
  then have "manager_step\<^sup>*\<^sup>* new_server_manager ?m1" ..
  from rtranclp.rtrancl_into_rtrancl [OF this step_request]
  have "manager_step\<^sup>*\<^sup>* new_server_manager (snd (manager_request ''tftp'' KStart ?m1))" .
  from rtranclp.rtrancl_into_rtrancl [OF this step_request] show ?thesis unfolding sample_manager_def .
qed

theorem manager_ownership_witness:
  "instances sample_manager (server_id (servers sample_manager ! 0)) = Some 0"
proof -
  have "length (servers sample_manager) = 1" "\<not> disposed (servers sample_manager ! 0)" by code_simp+
  then show ?thesis using manager_ownership [OF sample_manager_reached] by simp
qed

theorem manager_serial_witness:
  "life_phase (life_ops sample_manager ! 1) = Queued \<and> \<not> life_ready sample_manager 1"
proof -
  have "(1 :: nat) < length (life_ops sample_manager)" "life_id (life_ops sample_manager ! 0) = life_id (life_ops sample_manager ! 1)"
    "\<not> life_settled sample_manager 0" by code_simp+
  from manager_serial [OF sample_manager_reached _ this] show ?thesis by simp
qed

text \<open>Adjacent requests of one kind share an operation, and only those.\<close>

lemma enqueue_shares:
  "fst (manager_enqueueLifecycle i kind m) < length (life_ops m) \<longleftrightarrow>
     (case lastLifecycleOperations m i of Some n \<Rightarrow> life_kind (life_ops m ! n) = kind \<and> n < length (life_ops m) | None \<Rightarrow> False)"
  by (auto simp: manager_enqueueLifecycle_def split: option.splits)

end
