(* ===== verification/Daemon_Config.thy ===== *)
theory Daemon_Config
  imports Server_Manager
begin

text \<open>
  Configuration of the daemon's services: \<open>networkServerConfigController.ts\<close> and the workflows
  \<open>start\<close>, \<open>stop\<close>, \<open>restart\<close>, \<open>configure\<close> and \<open>getServiceRuntime\<close> of \<open>handleRequest\<close> in
  \<open>networkServerDaemon.ts\<close> (both in \<open>src/src/services/networkServers\<close>), for one service. A workflow has
  its service for itself and awaits each lifecycle operation, so it runs in one piece; what the calls of
  the server do is \<open>env\<close>: the outcome of the n-th call, and the server's status then. A configuration is
  its JSON text.
\<close>

section \<open>State\<close>

datatype server_call = CallStart | CallStop | CallDispose

record call_outcome =
  call_ok :: bool
  call_status :: server_status

type_synonym server_env = "nat \<Rightarrow> server_call \<Rightarrow> call_outcome"

record built_server =
  built_from :: "string option"
  built_status :: server_status

record service_state =
  configStore :: "string option"
  staleConfig :: bool
  mapped :: "built_server option"
  calls :: nat

definition new_service :: service_state where
  "new_service = \<lparr>configStore = None, staleConfig = False, mapped = None, calls = 0\<rparr>"

text \<open>A workflow fails with its first error.\<close>

type_synonym workflow = "service_state \<Rightarrow> bool \<times> service_state"

definition then_run :: "workflow \<Rightarrow> workflow \<Rightarrow> workflow" where
  "then_run f g s = (case f s of (ok, s') \<Rightarrow> if ok then g s' else (False, s'))"

section \<open>Lifecycle operations\<close>

definition call_server :: "server_env \<Rightarrow> server_call \<Rightarrow> built_server \<Rightarrow> workflow" where
  "call_server env c b s =
     (let r = env (calls s) c
      in (call_ok r, s\<lparr>calls := calls s + 1, mapped := Some (b\<lparr>built_status := call_status r\<rparr>)\<rparr>))"

definition service_stop :: "server_env \<Rightarrow> workflow" where
  "service_stop env s = (case mapped s of None \<Rightarrow> (True, s) | Some b \<Rightarrow> call_server env CallStop b s)"

definition service_ensure :: "service_state \<Rightarrow> built_server \<times> service_state" where
  "service_ensure s =
     (case mapped s of
        Some b \<Rightarrow> (b, s)
      | None \<Rightarrow>
          (let b = \<lparr>built_from = configStore s, built_status = STOPPED\<rparr> in (b, s\<lparr>mapped := Some b\<rparr>)))"

definition service_start :: "server_env \<Rightarrow> workflow" where
  "service_start env s =
     (case service_ensure s of
        (b, s') \<Rightarrow> if built_status b = RUNNING then (True, s') else call_server env CallStart b s')"

definition service_drop :: "server_env \<Rightarrow> workflow" where
  "service_drop env s =
     (case mapped s of
        None \<Rightarrow> (True, s)
      | Some b \<Rightarrow>
          (case call_server env CallStop b s of
             (ok, s1) \<Rightarrow>
               (if \<not> ok then (False, s1)
                else (case call_server env CallDispose (the (mapped s1)) s1 of
                        (ok2, s2) \<Rightarrow> if ok2 then (True, s2\<lparr>mapped := None\<rparr>) else (False, s2)))))"

section \<open>The configuration controller\<close>

definition evictIfIdle :: "server_env \<Rightarrow> workflow" where
  "evictIfIdle env s =
     (case mapped s of
        None \<Rightarrow> (True, s\<lparr>staleConfig := False\<rparr>)
      | Some b \<Rightarrow>
          (if built_status b = RUNNING \<or> built_status b = STARTING then (True, s\<lparr>staleConfig := True\<rparr>)
           else then_run (service_drop env) (\<lambda>s'. (True, s'\<lparr>staleConfig := False\<rparr>)) (s\<lparr>staleConfig := True\<rparr>)))"

definition config_apply :: "server_env \<Rightarrow> string \<Rightarrow> workflow" where
  "config_apply env config s =
     (if (case configStore s of None \<Rightarrow> ''null'' | Some c \<Rightarrow> c) = config then (True, s)
      else evictIfIdle env (s\<lparr>configStore := Some config\<rparr>))"

definition apply_given :: "server_env \<Rightarrow> string option \<Rightarrow> workflow" where
  "apply_given env config = (case config of None \<Rightarrow> Pair True | Some c \<Rightarrow> config_apply env c)"

definition evict_required :: "server_env \<Rightarrow> workflow" where
  "evict_required env s = (if staleConfig s then evictIfIdle env s else (True, s))"

section \<open>Workflows\<close>

definition workflow_start :: "server_env \<Rightarrow> string option \<Rightarrow> workflow" where
  "workflow_start env config = then_run (apply_given env config) (then_run (evict_required env) (service_start env))"

definition workflow_restart :: "server_env \<Rightarrow> string option \<Rightarrow> workflow" where
  "workflow_restart env config =
     then_run (service_stop env)
       (then_run (apply_given env config) (then_run (evict_required env) (service_start env)))"

datatype service_request =
    RequestStart "string option" | RequestStop | RequestRestart "string option" | RequestConfigure string | RequestRuntime

fun run_request :: "server_env \<Rightarrow> service_request \<Rightarrow> workflow" where
  "run_request env (RequestStart config) s = workflow_start env config s"
| "run_request env RequestStop s = service_stop env s"
| "run_request env (RequestRestart config) s = workflow_restart env config s"
| "run_request env (RequestConfigure config) s = config_apply env config s"
| "run_request env RequestRuntime s = (True, snd (service_ensure s))"

text \<open>Between two workflows the server's status may change by itself.\<close>

definition status_drift :: "server_status \<Rightarrow> service_state \<Rightarrow> service_state" where
  "status_drift st s = s\<lparr>mapped := map_option (\<lambda>b. b\<lparr>built_status := st\<rparr>) (mapped s)\<rparr>"

inductive service_step :: "server_env \<Rightarrow> service_state \<Rightarrow> service_state \<Rightarrow> bool" for env where
  service_request: "service_step env s (snd (run_request env r s))"
| service_drift: "service_step env s (status_drift st s)"

section \<open>Invariant\<close>

text \<open>A server that was built from another configuration than the stored one is known to be stale.\<close>

definition config_ok :: "service_state \<Rightarrow> bool" where
  "config_ok s \<longleftrightarrow>
     (case mapped s of None \<Rightarrow> True | Some b \<Rightarrow> built_from b = configStore s \<or> staleConfig s)"

lemma then_run_ok:
  "P s \<Longrightarrow> (\<And>s. P s \<Longrightarrow> Q (snd (f s))) \<Longrightarrow> (\<And>s. Q s \<Longrightarrow> R (snd (g s))) \<Longrightarrow> (\<And>s. Q s \<Longrightarrow> R s) \<Longrightarrow> R (snd (then_run f g s))"
  by (auto simp: then_run_def split: prod.splits) (metis snd_conv)+

lemma config_ok_call: "mapped s = Some b \<Longrightarrow> config_ok s \<Longrightarrow> config_ok (snd (call_server env c b s))"
  by (simp add: config_ok_def call_server_def Let_def)

lemma config_ok_stop: "config_ok s \<Longrightarrow> config_ok (snd (service_stop env s))"
  by (auto simp: service_stop_def config_ok_call split: option.splits)

lemma config_ok_ensure: "config_ok s \<Longrightarrow> config_ok (snd (service_ensure s))"
  by (auto simp: service_ensure_def config_ok_def Let_def split: option.splits)

lemma config_ok_start: "config_ok s \<Longrightarrow> config_ok (snd (service_start env s))"
  by (auto simp: service_start_def service_ensure_def config_ok_def call_server_def Let_def split: option.splits)

lemma stale_drop:
  "staleConfig (snd (service_drop env s)) = staleConfig s" "configStore (snd (service_drop env s)) = configStore s"
  "fst (service_drop env s) \<Longrightarrow> mapped (snd (service_drop env s)) = None"
  by (auto simp: service_drop_def call_server_def Let_def split: option.splits)

lemma config_ok_evict: "config_ok (snd (evictIfIdle env s))"
proof (cases "mapped s")
  case None
  then show ?thesis by (simp add: evictIfIdle_def config_ok_def)
next
  case (Some b)
  show ?thesis
  proof (cases "built_status b = RUNNING \<or> built_status b = STARTING")
    case True
    then show ?thesis using Some by (auto simp: evictIfIdle_def config_ok_def)
  next
    case False
    let ?d = "service_drop env (s\<lparr>staleConfig := True\<rparr>)"
    have "evictIfIdle env s = (if fst ?d then (True, (snd ?d)\<lparr>staleConfig := False\<rparr>) else (False, snd ?d))"
      using Some False by (auto simp: evictIfIdle_def then_run_def split: prod.splits)
    then show ?thesis using stale_drop [of env "s\<lparr>staleConfig := True\<rparr>"] by (auto simp: config_ok_def split: option.splits)
  qed
qed

lemma config_ok_apply: "config_ok s \<Longrightarrow> config_ok (snd (config_apply env c s))"
  by (simp add: config_apply_def config_ok_evict)

lemma config_ok_given: "config_ok s \<Longrightarrow> config_ok (snd (apply_given env config s))"
  by (auto simp: apply_given_def config_ok_apply split: option.splits)

lemma config_ok_required: "config_ok s \<Longrightarrow> config_ok (snd (evict_required env s))"
  by (simp add: evict_required_def config_ok_evict)

lemma config_ok_workflow_start: "config_ok s \<Longrightarrow> config_ok (snd (workflow_start env config s))"
  unfolding workflow_start_def
  by (rule then_run_ok [where P = config_ok and Q = config_ok])
    (auto intro!: config_ok_given then_run_ok [where P = config_ok and Q = config_ok] config_ok_required config_ok_start)

lemma restart_as_start:
  "workflow_restart env config = then_run (service_stop env) (workflow_start env config)"
  by (simp add: workflow_restart_def workflow_start_def)

lemma config_ok_request: "config_ok s \<Longrightarrow> config_ok (snd (run_request env r s))"
  by (cases r) (auto simp: restart_as_start config_ok_workflow_start config_ok_stop config_ok_apply config_ok_ensure
      intro: then_run_ok [where P = config_ok and Q = config_ok])

lemma config_ok_step: "service_step env s s' \<Longrightarrow> config_ok s \<Longrightarrow> config_ok s'"
proof (induction rule: service_step.induct)
  case (service_drift s st)
  then show ?case by (auto simp: config_ok_def status_drift_def split: option.splits)
qed (rule config_ok_request)

interpretation service_run: invariant_system "\<lambda>s. s = new_service" "service_step env" config_ok
  by unfold_locales (auto simp: config_ok_def new_service_def intro: config_ok_step [unfolded config_ok_def])

section \<open>A started server has the current configuration\<close>

definition idle :: "service_state \<Rightarrow> bool" where
  "idle s \<longleftrightarrow> (case mapped s of None \<Rightarrow> True | Some b \<Rightarrow> built_status b \<noteq> RUNNING \<and> built_status b \<noteq> STARTING)"

definition stored_text :: "service_state \<Rightarrow> string" where
  "stored_text s = (case configStore s of None \<Rightarrow> ''null'' | Some c \<Rightarrow> c)"

definition wanted :: "string option \<Rightarrow> service_state \<Rightarrow> service_state \<Rightarrow> bool" where
  "wanted config s s' \<longleftrightarrow> (case config of None \<Rightarrow> configStore s' = configStore s | Some c \<Rightarrow> stored_text s' = c)"

definition up_to_date :: "service_state \<Rightarrow> bool" where
  "up_to_date s \<longleftrightarrow> \<not> staleConfig s \<and> (case mapped s of None \<Rightarrow> True | Some b \<Rightarrow> built_from b = configStore s)"

lemma evict_idle:
  assumes "idle s" "fst (evictIfIdle env s)"
  shows "mapped (snd (evictIfIdle env s)) = None \<and> \<not> staleConfig (snd (evictIfIdle env s))
    \<and> configStore (snd (evictIfIdle env s)) = configStore s"
  using assms stale_drop [of env "s\<lparr>staleConfig := True\<rparr>"]
  by (auto simp: evictIfIdle_def idle_def then_run_def split: option.splits prod.splits if_splits)

lemma apply_idle:
  assumes "idle s" "config_ok s" "fst (apply_given env config s)"
  shows "idle (snd (apply_given env config s)) \<and> config_ok (snd (apply_given env config s))
    \<and> wanted config s (snd (apply_given env config s))"
proof (cases config)
  case None
  then show ?thesis using assms by (simp add: apply_given_def wanted_def)
next
  case (Some c)
  show ?thesis
  proof (cases "stored_text s = c")
    case True
    then show ?thesis using assms Some by (simp add: apply_given_def config_apply_def wanted_def stored_text_def)
  next
    case False
    have "idle (s\<lparr>configStore := Some c\<rparr>)" using assms(1) by (simp add: idle_def)
    moreover have "config_apply env c s = evictIfIdle env (s\<lparr>configStore := Some c\<rparr>)"
      using False by (simp add: config_apply_def stored_text_def)
    ultimately show ?thesis
      using evict_idle [of "s\<lparr>configStore := Some c\<rparr>" env] assms(3) Some
      by (simp add: apply_given_def wanted_def stored_text_def idle_def config_ok_def)
  qed
qed

lemma required_idle:
  assumes "idle s" "config_ok s" "fst (evict_required env s)"
  shows "up_to_date (snd (evict_required env s)) \<and> idle (snd (evict_required env s))
    \<and> configStore (snd (evict_required env s)) = configStore s"
  using assms evict_idle [of s env]
  by (auto simp: evict_required_def up_to_date_def idle_def config_ok_def split: option.splits if_splits)

lemma start_idle:
  assumes "up_to_date s"
  shows "\<exists>b. mapped (snd (service_start env s)) = Some b \<and> built_from b = configStore (snd (service_start env s))
    \<and> \<not> staleConfig (snd (service_start env s)) \<and> configStore (snd (service_start env s)) = configStore s"
  using assms by (auto simp: service_start_def service_ensure_def up_to_date_def call_server_def Let_def split: option.splits)

lemma then_run_fst: "fst (then_run f g s) \<Longrightarrow> fst (f s) \<and> fst (g (snd (f s))) \<and> snd (then_run f g s) = snd (g (snd (f s)))"
  by (auto simp: then_run_def split: prod.splits if_splits)

definition serves_current :: "service_state \<Rightarrow> bool" where
  "serves_current s \<longleftrightarrow> \<not> staleConfig s \<and> (\<exists>b. mapped s = Some b \<and> built_from b = configStore s)"

lemma workflow_start_idle:
  assumes "idle s" "config_ok s" "fst (workflow_start env config s)"
  shows "serves_current (snd (workflow_start env config s)) \<and> wanted config s (snd (workflow_start env config s))"
proof -
  let ?s1 = "snd (apply_given env config s)" and ?s2 = "snd (evict_required env (snd (apply_given env config s)))"
  note t = then_run_fst [OF assms(3) [unfolded workflow_start_def]]
  then have t1: "fst (apply_given env config s)" "fst (then_run (evict_required env) (service_start env) ?s1)" by simp_all
  note t2 = then_run_fst [OF t1(2)]
  have a: "idle ?s1" "config_ok ?s1" "wanted config s ?s1" using apply_idle [OF assms(1,2) t1(1)] by simp_all
  have r: "up_to_date ?s2" "configStore ?s2 = configStore ?s1" using required_idle [OF a(1,2)] t2 by simp_all
  have e: "snd (workflow_start env config s) = snd (service_start env ?s2)" using t t2 by (simp add: workflow_start_def)
  obtain b where "mapped (snd (service_start env ?s2)) = Some b"
    "built_from b = configStore (snd (service_start env ?s2))" "\<not> staleConfig (snd (service_start env ?s2))"
    "configStore (snd (service_start env ?s2)) = configStore ?s1"
    using start_idle [OF r(1), of env] r(2) by auto
  then show ?thesis
    using a(3) unfolding e serves_current_def by (auto simp: wanted_def stored_text_def split: option.splits)
qed

text \<open>What the lifecycle contract of a server says of a \<open>stop\<close> that succeeded.\<close>

definition stop_contract :: "server_env \<Rightarrow> bool" where
  "stop_contract env \<longleftrightarrow> (\<forall>n. call_ok (env n CallStop) \<longrightarrow> call_status (env n CallStop) = STOPPED)"

section \<open>Properties\<close>

text \<open>
  A server never keeps an old configuration unnoticed: whatever requests were handled, in any
  order and with any failures, a mapped server was built from the stored configuration or is marked
  stale.
\<close>

theorem config_tracked:
  assumes "(service_step env)\<^sup>*\<^sup>* new_service s" "mapped s = Some b"
  shows "built_from b = configStore s \<or> staleConfig s"
  using service_run.inv_reachable [OF refl assms(1)] assms(2) by (simp add: config_ok_def)

text \<open>
  A restart that succeeds serves the current configuration: the one it carries, or else the one
  stored, also when an earlier eviction failed or was not possible because the server was running.
\<close>

theorem restart_current:
  assumes "(service_step env)\<^sup>*\<^sup>* new_service s" "stop_contract env" "fst (workflow_restart env config s)"
  shows "serves_current (snd (workflow_restart env config s))
    \<and> (case config of
         None \<Rightarrow> configStore (snd (workflow_restart env config s)) = configStore s
       | Some c \<Rightarrow> stored_text (snd (workflow_restart env config s)) = c)"
proof -
  let ?s = "snd (service_stop env s)"
  have ok: "config_ok s" by (rule service_run.inv_reachable [OF refl assms(1)])
  note t = then_run_fst [OF assms(3) [unfolded restart_as_start]]
  have "idle ?s" "configStore ?s = configStore s"
    using t assms(2) by (auto simp: idle_def service_stop_def call_server_def stop_contract_def Let_def split: option.splits)
  with workflow_start_idle [of ?s env config] config_ok_stop [OF ok, of env] t
  show ?thesis unfolding restart_as_start by (auto simp: wanted_def split: option.splits)
qed

definition sample_env :: server_env where
  "sample_env n c = \<lparr>call_ok = True, call_status = (if c = CallStart then RUNNING else STOPPED)\<rparr>"

definition configured_while_running :: service_state where
  "configured_while_running =
     snd (run_request sample_env (RequestConfigure ''b'')
       (snd (run_request sample_env (RequestStart (Some ''a'')) new_service)))"

lemma configured_while_running_reached: "(service_step sample_env)\<^sup>*\<^sup>* new_service configured_while_running"
  unfolding configured_while_running_def
  by (rule rtranclp.rtrancl_into_rtrancl [OF r_into_rtranclp], rule service_request, rule service_request)

theorem config_tracked_witness: "staleConfig configured_while_running"
proof -
  have "mapped configured_while_running = Some \<lparr>built_from = Some ''a'', built_status = RUNNING\<rparr>"
    "configStore configured_while_running = Some ''b''" by code_simp+
  with config_tracked [OF configured_while_running_reached this(1)] show ?thesis by simp
qed

theorem restart_current_witness:
  "map_option built_from (mapped (snd (workflow_restart sample_env None configured_while_running))) = Some (Some ''b'')"
proof -
  have c: "stop_contract sample_env" by (simp add: stop_contract_def sample_env_def)
  have f: "fst (workflow_restart sample_env None configured_while_running)" "configStore configured_while_running = Some ''b''"
    by code_simp+
  from restart_current [OF configured_while_running_reached c f(1)] f(2) show ?thesis by (auto simp: serves_current_def)
qed

end
