(* ===== verification/Daemon_Shutdown.thy ===== *)
theory Daemon_Shutdown
  imports Workflow_Queue "HOL-Library.Sublist"
begin

text \<open>
  How the daemon ends: the throttle of runtime updates
  (\<open>src/src/services/networkServers/runtimeUpdateThrottle.ts\<close>), the shutdown sequence
  (\<open>networkServerDaemonShutdown.ts\<close>) and what closing the workflow queue gives it.
\<close>

section \<open>Runtime updates\<close>

text \<open>\<open>unannounced\<close> is the time of the oldest change of a service that no update has followed yet.\<close>

record update_throttle =
  now :: nat
  timers :: "(string \<times> nat) list"
  emitted :: "(string \<times> nat) list"
  unannounced :: "string \<Rightarrow> nat option"

definition RUNTIME_UPDATE_THROTTLE_MS :: nat where "RUNTIME_UPDATE_THROTTLE_MS = 100"

definition createRuntimeUpdateThrottle :: update_throttle where
  "createRuntimeUpdateThrottle = \<lparr>now = 0, timers = [], emitted = [], unannounced = (\<lambda>_. None)\<rparr>"

definition fire :: "string \<Rightarrow> update_throttle \<Rightarrow> update_throttle" where
  "fire i t =
     t\<lparr>timers := filter (\<lambda>(k, _). k \<noteq> i) (timers t), emitted := emitted t @ [(i, now t)],
       unannounced := (unannounced t)(i := None)\<rparr>"

definition note_change :: "string \<Rightarrow> update_throttle \<Rightarrow> update_throttle" where
  "note_change i t =
     (if unannounced t i = None then t\<lparr>unannounced := (unannounced t)(i := Some (now t))\<rparr> else t)"

definition throttle_push :: "nat \<Rightarrow> string \<Rightarrow> bool \<Rightarrow> update_throttle \<Rightarrow> update_throttle" where
  "throttle_push intervalMs i final t =
     (let t1 = note_change i t
      in if final then fire i t1
         else if i \<in> fst ` set (timers t1) then t1
         else t1\<lparr>timers := timers t1 @ [(i, now t1 + intervalMs)]\<rparr>)"

definition throttle_flush :: "update_throttle \<Rightarrow> update_throttle" where
  "throttle_flush t = foldl (\<lambda>t i. fire i t) t (map fst (timers t))"

text \<open>Timers run when they are due, before time goes on.\<close>

inductive throttle_step :: "nat \<Rightarrow> update_throttle \<Rightarrow> update_throttle \<Rightarrow> bool" for intervalMs where
  throttle_pushed: "throttle_step intervalMs t (throttle_push intervalMs i final t)"
| throttle_timer: "(i, due) \<in> set (timers t) \<Longrightarrow> due \<le> now t \<Longrightarrow> throttle_step intervalMs t (fire i t)"
| throttle_flushed: "throttle_step intervalMs t (throttle_flush t)"
| throttle_wait: "now t \<le> later \<Longrightarrow> list_all (\<lambda>(_, due). later \<le> due) (timers t) \<Longrightarrow>
    throttle_step intervalMs t (t\<lparr>now := later\<rparr>)"

definition throttle_ok :: "nat \<Rightarrow> update_throttle \<Rightarrow> bool" where
  "throttle_ok n t \<longleftrightarrow>
     distinct (map fst (timers t)) \<and> list_all (\<lambda>(_, due). now t \<le> due \<and> due \<le> now t + n) (timers t)
     \<and> (\<forall>i c. unannounced t i = Some c \<longrightarrow> c \<le> now t \<and> (\<exists>due \<le> c + n. (i, due) \<in> set (timers t)))"

lemma throttle_ok_new: "throttle_ok n createRuntimeUpdateThrottle"
  by (simp add: throttle_ok_def createRuntimeUpdateThrottle_def)

lemma distinct_fst_filter: "distinct (map fst xs) \<Longrightarrow> distinct (map fst (filter P xs))"
  by (induction xs) auto

lemma throttle_ok_fire: "throttle_ok n t \<Longrightarrow> throttle_ok n (fire i t)"
  by (auto simp: throttle_ok_def fire_def list_all_iff distinct_fst_filter)

text \<open>A change that is noted where there is a timer, and where there is none.\<close>

lemma throttle_ok_note:
  assumes "throttle_ok n t" "(i, due) \<in> set (timers t)"
  shows "throttle_ok n (note_change i t)"
proof -
  have "due \<le> now t + n" using assms by (auto simp: throttle_ok_def list_all_iff)
  then show ?thesis using assms by (auto simp: throttle_ok_def note_change_def)
qed

lemma throttle_ok_add:
  assumes "throttle_ok n t" "i \<notin> fst ` set (timers t)"
  shows "throttle_ok n ((note_change i t)\<lparr>timers := timers (note_change i t) @ [(i, now (note_change i t) + n)]\<rparr>)"
proof -
  have "unannounced t i = None"
  proof (rule ccontr)
    assume "unannounced t i \<noteq> None"
    then obtain c where "unannounced t i = Some c" by blast
    then obtain due where "(i, due) \<in> set (timers t)" using assms(1) unfolding throttle_ok_def by blast
    then show False using assms(2) by force
  qed
  then show ?thesis using assms by (auto simp: throttle_ok_def note_change_def list_all_iff)
qed

lemma fire_note: "fire i (note_change i t) = fire i t"
  by (simp add: fire_def note_change_def)

lemma note_timers: "timers (note_change i t) = timers t" "now (note_change i t) = now t"
  by (simp_all add: note_change_def)

lemma throttle_ok_push: "throttle_ok n t \<Longrightarrow> throttle_ok n (throttle_push n i final t)"
proof (cases "final")
  case False
  assume t: "throttle_ok n t"
  show ?thesis
  proof (cases "i \<in> fst ` set (timers t)")
    case True
    then obtain due where "(i, due) \<in> set (timers t)" by force
    from throttle_ok_note [OF t this] show ?thesis using False True by (simp add: throttle_push_def Let_def note_timers)
  next
    case no: False
    from throttle_ok_add [OF t no] show ?thesis using False no by (simp add: throttle_push_def Let_def note_timers)
  qed
qed (simp add: throttle_push_def Let_def fire_note throttle_ok_fire)

lemma throttle_ok_foldl: "throttle_ok n t \<Longrightarrow> throttle_ok n (foldl (\<lambda>t i. fire i t) t is)"
  by (induction "is" arbitrary: t) (simp_all add: throttle_ok_fire)

lemma throttle_ok_step: "throttle_step n t t' \<Longrightarrow> throttle_ok n t \<Longrightarrow> throttle_ok n t'"
proof (induction rule: throttle_step.induct)
  case (throttle_wait t later)
  then show ?case by (auto simp: throttle_ok_def list_all_iff) fastforce+
qed (simp_all add: throttle_ok_push throttle_ok_fire throttle_flush_def throttle_ok_foldl)

interpretation throttle_run: invariant_system "\<lambda>t. t = createRuntimeUpdateThrottle" "throttle_step n" "throttle_ok n"
  by unfold_locales (auto simp: throttle_ok_new intro: throttle_ok_step)

lemma timers_foldl: "set (timers (foldl (\<lambda>t i. fire i t) t is)) = {x \<in> set (timers t). fst x \<notin> set is}"
  by (induction "is" arbitrary: t) (auto simp: fire_def)

section \<open>The shutdown sequence\<close>

datatype shutdown_call = StopAccepting | DrainCall | FlushCall | DisposeCall | ExitCall

datatype shutdown_phase = NotBegun | Draining | DisposingAll | Exited

record daemon_shutdown =
  shuttingDown :: bool
  shutdown_phase :: shutdown_phase
  shutdown_calls :: "shutdown_call list"

definition createNetworkServerDaemonShutdown :: daemon_shutdown where
  "createNetworkServerDaemonShutdown = \<lparr>shuttingDown = False, shutdown_phase = NotBegun, shutdown_calls = []\<rparr>"

text \<open>\<open>shutdownPromise\<close> is set once the phase is not \<open>NotBegun\<close>; \<open>threw\<close>: \<open>stopAccepting\<close> threw.\<close>

definition shutdown_begin :: "bool \<Rightarrow> daemon_shutdown \<Rightarrow> daemon_shutdown" where
  "shutdown_begin threw d =
     (if shutdown_phase d \<noteq> NotBegun then d
      else (let d1 = d\<lparr>shuttingDown := True, shutdown_calls := shutdown_calls d @ [StopAccepting]\<rparr>
            in if threw then d1
               else d1\<lparr>shutdown_phase := Draining, shutdown_calls := shutdown_calls d1 @ [DrainCall]\<rparr>))"

text \<open>The rest does not depend on how \<open>drain\<close>, \<open>dispose\<close> and the flushes end.\<close>

definition shutdown_drained :: "daemon_shutdown \<Rightarrow> daemon_shutdown" where
  "shutdown_drained d =
     (if shutdown_phase d = Draining
      then d\<lparr>shutdown_phase := DisposingAll, shutdown_calls := shutdown_calls d @ [FlushCall, DisposeCall]\<rparr> else d)"

definition shutdown_disposed :: "daemon_shutdown \<Rightarrow> daemon_shutdown" where
  "shutdown_disposed d =
     (if shutdown_phase d = DisposingAll
      then d\<lparr>shutdown_phase := Exited, shutdown_calls := shutdown_calls d @ [FlushCall, ExitCall]\<rparr> else d)"

inductive shutdown_step :: "daemon_shutdown \<Rightarrow> daemon_shutdown \<Rightarrow> bool" where
  shutdown_begun: "shutdown_step d (shutdown_begin threw d)"
| shutdown_drain_settled: "shutdown_step d (shutdown_drained d)"
| shutdown_dispose_settled: "shutdown_step d (shutdown_disposed d)"

definition cleanup_calls :: "shutdown_phase \<Rightarrow> shutdown_call list" where
  "cleanup_calls p =
     (case p of
        NotBegun \<Rightarrow> []
      | Draining \<Rightarrow> [DrainCall]
      | DisposingAll \<Rightarrow> [DrainCall, FlushCall, DisposeCall]
      | Exited \<Rightarrow> [DrainCall, FlushCall, DisposeCall, FlushCall, ExitCall])"

definition shutdown_ok :: "daemon_shutdown \<Rightarrow> bool" where
  "shutdown_ok d \<longleftrightarrow>
     (\<exists>k. shutdown_calls d = replicate k StopAccepting @ cleanup_calls (shutdown_phase d)
        \<and> (shuttingDown d \<longleftrightarrow> 0 < k) \<and> (shutdown_phase d \<noteq> NotBegun \<longrightarrow> 0 < k))"

lemma shutdown_ok_step: "shutdown_step d d' \<Longrightarrow> shutdown_ok d \<Longrightarrow> shutdown_ok d'"
proof (induction rule: shutdown_step.induct)
  case (shutdown_begun d threw)
  then obtain k where k: "shutdown_calls d = replicate k StopAccepting @ cleanup_calls (shutdown_phase d)" by (auto simp: shutdown_ok_def)
  show ?case
  proof (cases "shutdown_phase d = NotBegun")
    case True
    then show ?thesis using k unfolding shutdown_ok_def
      by (intro exI [of _ "Suc k"]) (simp add: shutdown_begin_def Let_def cleanup_calls_def replicate_append_same)
  next
    case False
    then show ?thesis using shutdown_begun by (simp add: shutdown_begin_def)
  qed
qed (auto simp: shutdown_ok_def shutdown_drained_def shutdown_disposed_def cleanup_calls_def)

lemma shutdown_ok_new: "shutdown_ok createNetworkServerDaemonShutdown"
  by (simp add: shutdown_ok_def createNetworkServerDaemonShutdown_def cleanup_calls_def)

interpretation shutdown_run: invariant_system "\<lambda>d. d = createNetworkServerDaemonShutdown" shutdown_step shutdown_ok
  by unfold_locales (auto simp: shutdown_ok_new intro: shutdown_ok_step)

section \<open>The closed workflow queue\<close>

definition quiescent :: "nat \<Rightarrow> workflow_queue \<Rightarrow> bool" where
  "quiescent n q \<longleftrightarrow> closing q \<and> length (ops q) = n \<and> list_all (op_settled q) [0 ..< n]"

lemma quiescent_step: "wq_step lc q q' \<Longrightarrow> quiescent n q \<Longrightarrow> quiescent n q'"
proof (induction rule: wq_step.induct)
  case (wq_enqueue q ids)
  then show ?case by (simp add: enqueueMany_def quiescent_def)
next
  case (wq_call q m)
  then show ?case by (auto simp: ready_def quiescent_def list_all_iff op_settled_def split: phase.splits)
next
  case (wq_settle m q ok)
  then show ?case by (auto simp: quiescent_def list_all_iff op_settled_def split: phase.splits)
next
  case (wq_clean m q)
  then show ?case by (simp add: quiescent_def wq_cleanup_def drop_tail_def op_settled_def phase_of_def list_all_iff)
next
  case (wq_closed q)
  then show ?case by (simp add: quiescent_def wq_close_def op_settled_def phase_of_def list_all_iff)
qed

interpretation closed_queue: invariant_system "quiescent n" "wq_step lc" "quiescent n"
  by unfold_locales (auto intro: quiescent_step)

section \<open>Properties\<close>

text \<open>
  No runtime update is lost or late: in every run, while a change of a service has not been
  announced, its timer is set and due within one window of the oldest such change; each service has
  one timer at most, and after a flush nothing is unannounced.
\<close>

theorem throttle_latency:
  assumes "(throttle_step intervalMs)\<^sup>*\<^sup>* createRuntimeUpdateThrottle t"
  shows "distinct (map fst (timers t)) \<and> unannounced (throttle_flush t) i = None
    \<and> (case unannounced t i of
         None \<Rightarrow> True
       | Some c \<Rightarrow> now t \<le> c + intervalMs \<and> (\<exists>due. (i, due) \<in> set (timers t) \<and> due \<le> c + intervalMs))"
proof -
  have ok: "throttle_ok intervalMs t" by (rule throttle_run.inv_reachable [OF refl assms])
  have "throttle_ok intervalMs (throttle_flush t)" unfolding throttle_flush_def by (rule throttle_ok_foldl [OF ok])
  moreover have "set (timers (throttle_flush t)) = {}" unfolding throttle_flush_def timers_foldl by auto
  ultimately have f: "unannounced (throttle_flush t) i = None"
    by (cases "unannounced (throttle_flush t) i") (auto simp: throttle_ok_def)
  have "now t \<le> c + intervalMs \<and> (\<exists>due. (i, due) \<in> set (timers t) \<and> due \<le> c + intervalMs)" if "unannounced t i = Some c" for c
  proof -
    obtain due where d: "due \<le> c + intervalMs" "(i, due) \<in> set (timers t)" using ok \<open>unannounced t i = Some c\<close> unfolding throttle_ok_def by blast
    then have "now t \<le> due" using ok by (auto simp: throttle_ok_def list_all_iff)
    then show ?thesis using d by auto
  qed
  then show ?thesis using ok f by (auto simp: throttle_ok_def split: option.splits)
qed

theorem throttle_latency_witness:
  "unannounced (throttle_push 100 ''tftp'' False createRuntimeUpdateThrottle) ''tftp'' = Some 0
   \<and> (\<exists>due. (''tftp'', due) \<in> set (timers (throttle_push 100 ''tftp'' False createRuntimeUpdateThrottle)) \<and> due \<le> 100)"
proof -
  let ?t = "throttle_push 100 ''tftp'' False createRuntimeUpdateThrottle"
  have r: "(throttle_step 100)\<^sup>*\<^sup>* createRuntimeUpdateThrottle ?t" by (rule r_into_rtranclp, rule throttle_pushed)
  have u: "unannounced ?t ''tftp'' = Some 0"
    by (simp add: throttle_push_def createRuntimeUpdateThrottle_def note_change_def Let_def)
  from throttle_latency [OF r, of "''tftp''"] u show ?thesis by simp
qed

text \<open>
  However many sources ask for a shutdown, and whatever fails on the way, there is one cleanup:
  drain, flush, dispose, flush, exit, in this order, each at most once, and nothing of it before
  \<open>stopAccepting\<close> has returned.
\<close>

theorem shutdown_once:
  assumes "shutdown_step\<^sup>*\<^sup>* createNetworkServerDaemonShutdown d"
  shows "\<exists>k. shutdown_calls d = replicate k StopAccepting @ cleanup_calls (shutdown_phase d) \<and> (shuttingDown d \<longleftrightarrow> 0 < k)"
  using shutdown_run.inv_reachable [OF refl assms] by (auto simp: shutdown_ok_def)

theorem shutdown_once_witness:
  "\<exists>k. shutdown_calls (shutdown_drained (shutdown_begin False createNetworkServerDaemonShutdown))
     = replicate k StopAccepting @ [DrainCall, FlushCall, DisposeCall]"
proof -
  let ?d = "shutdown_begin False createNetworkServerDaemonShutdown"
  have r: "shutdown_step\<^sup>*\<^sup>* createNetworkServerDaemonShutdown (shutdown_drained ?d)"
    by (rule rtranclp.rtrancl_into_rtrancl [OF r_into_rtranclp], rule shutdown_begun, rule shutdown_drain_settled)
  have p: "shutdown_phase (shutdown_drained ?d) = DisposingAll"
    by (simp add: shutdown_drained_def shutdown_begin_def createNetworkServerDaemonShutdown_def Let_def)
  from shutdown_once [OF r] show ?thesis unfolding p by (auto simp: cleanup_calls_def)
qed

text \<open>
  Once the workflow queue is closed and drained, it stays idle: no later request is accepted, no
  operation is called, so the servers are disposed of with no workflow at work on them.
\<close>

theorem shutdown_quiescent:
  assumes "(wq_step lc)\<^sup>*\<^sup>* new_workflow_queue q" "closing q" "drain_done (accepted q) q" "(wq_step lc)\<^sup>*\<^sup>* q q'"
  shows "length (ops q') = length (ops q) \<and> list_all (op_settled q') [0 ..< length (ops q')]
    \<and> fst (enqueueMany lc ids q') = RejectedClosing"
proof -
  have "wq_ok q" by (rule workflow_run.inv_reachable [OF refl assms(1)])
  then have "quiescent (length (ops q)) q"
    using assms(2,3) by (auto simp: quiescent_def wq_ok_def admitted_def drain_done_def list_all_iff)
  then have "quiescent (length (ops q)) q'" by (rule closed_queue.inv_reachable [OF _ assms(4)])
  then show ?thesis by (simp add: quiescent_def enqueueMany_def)
qed

theorem shutdown_quiescent_witness:
  "fst (enqueueMany sample_compare [''tftp''] (wq_close new_workflow_queue)) = RejectedClosing"
proof -
  let ?q = "wq_close new_workflow_queue"
  have r: "(wq_step sample_compare)\<^sup>*\<^sup>* new_workflow_queue ?q" by (rule r_into_rtranclp, rule wq_closed)
  have c: "closing ?q" "drain_done (accepted ?q) ?q" by (simp_all add: wq_close_def drain_done_def new_workflow_queue_def)
  from shutdown_quiescent [OF r c rtranclp.rtrancl_refl] show ?thesis by blast
qed

end
