(* ===== verification/Service_Adapters.thy ===== *)
theory Service_Adapters
  imports Server_Manager
begin

text \<open>
  The lifecycle of the two services: \<open>startOwned\<close>, \<open>stopOwned\<close>, \<open>releaseEngine\<close>, \<open>failStart\<close> and
  \<open>dispose\<close> of \<open>src/src/services/networkServers/tftp/TftpAdapter.ts\<close> and
  \<open>src/src/services/networkServers/dhcp/DhcpAdapter.ts\<close>. Adapters serialise their transitions, so one
  runs in one piece; what the engine's \<open>start\<close> and \<open>stop\<close> do is \<open>env\<close>, by the number of the call. An
  engine is its number in order of construction.
\<close>

section \<open>State\<close>

datatype engine_call = EngineStart nat | EngineStop

datatype engine_result = EngineOk | PermissionDenied | AddressInUse | OtherFailure

type_synonym engine_env = "nat \<Rightarrow> engine_call \<Rightarrow> engine_result"

record service_engine =
  engine_port :: nat
  engine_released :: bool

record adapter =
  adapter_port :: nat
  adapter_status :: server_status
  adapter_engine :: "nat option"
  engines :: "service_engine list"
  engine_calls :: nat

definition DEFAULT_TFTP_PORT :: nat where "DEFAULT_TFTP_PORT = 69"
definition TFTP_FALLBACK_PORT :: nat where "TFTP_FALLBACK_PORT = 1069"
definition DEFAULT_DHCP_PORT :: nat where "DEFAULT_DHCP_PORT = 67"

definition new_adapter :: "nat \<Rightarrow> adapter" where
  "new_adapter port =
     \<lparr>adapter_port = port, adapter_status = STOPPED, adapter_engine = None, engines = [], engine_calls = 0\<rparr>"

section \<open>Engines\<close>

definition call_engine :: "engine_env \<Rightarrow> engine_call \<Rightarrow> adapter \<Rightarrow> engine_result \<times> adapter" where
  "call_engine env c a = (env (engine_calls a) c, a\<lparr>engine_calls := engine_calls a + 1\<rparr>)"

text \<open>The engine is forgotten only when its \<open>stop\<close> succeeded; \<open>False\<close> is a cleanup error.\<close>

definition releaseEngine :: "engine_env \<Rightarrow> nat \<Rightarrow> adapter \<Rightarrow> bool \<times> adapter" where
  "releaseEngine env e a =
     (case call_engine env EngineStop a of
        (r, a1) \<Rightarrow>
          (if r \<noteq> EngineOk then (False, a1)
           else (let a2 = a1\<lparr>engines := (engines a1)[e := (engines a1 ! e)\<lparr>engine_released := True\<rparr>]\<rparr>
                 in (True, if adapter_engine a2 = Some e then a2\<lparr>adapter_engine := None\<rparr> else a2))))"

definition release_current :: "engine_env \<Rightarrow> adapter \<Rightarrow> bool \<times> adapter" where
  "release_current env a = (case adapter_engine a of None \<Rightarrow> (True, a) | Some e \<Rightarrow> releaseEngine env e a)"

definition adapter_set :: "server_status \<Rightarrow> adapter \<Rightarrow> adapter" where
  "adapter_set st a = a\<lparr>adapter_status := st\<rparr>"

definition failStart :: "adapter \<Rightarrow> bool \<times> adapter" where
  "failStart a = (False, adapter_set ERROR a)"

text \<open>Ownership is published before the bind.\<close>

definition tryStart :: "engine_env \<Rightarrow> nat \<Rightarrow> adapter \<Rightarrow> engine_result \<times> adapter" where
  "tryStart env port a =
     call_engine env (EngineStart port)
       (a\<lparr>engines := engines a @ [\<lparr>engine_port = port, engine_released = False\<rparr>],
          adapter_engine := Some (length (engines a))\<rparr>)"

section \<open>Transitions\<close>

definition tftp_bind :: "engine_env \<Rightarrow> adapter \<Rightarrow> bool \<times> adapter" where
  "tftp_bind env a =
     (case tryStart env (adapter_port a) a of
        (EngineOk, a1) \<Rightarrow> (True, adapter_set RUNNING a1)
      | (failure, a1) \<Rightarrow>
          (case release_current env a1 of
             (False, a2) \<Rightarrow> failStart a2
           | (True, a2) \<Rightarrow>
               (if failure = PermissionDenied \<and> adapter_port a = DEFAULT_TFTP_PORT
                then (case tryStart env TFTP_FALLBACK_PORT a2 of
                        (EngineOk, a3) \<Rightarrow> (True, adapter_set RUNNING a3)
                      | (_, a3) \<Rightarrow> failStart (snd (release_current env a3)))
                else failStart a2)))"

definition dhcp_bind :: "engine_env \<Rightarrow> adapter \<Rightarrow> bool \<times> adapter" where
  "dhcp_bind env a =
     (case tryStart env (adapter_port a) a of
        (EngineOk, a1) \<Rightarrow> (True, adapter_set RUNNING a1)
      | (_, a1) \<Rightarrow> failStart (snd (release_current env a1)))"

definition adapter_start :: "(engine_env \<Rightarrow> adapter \<Rightarrow> bool \<times> adapter) \<Rightarrow> engine_env \<Rightarrow> adapter \<Rightarrow> bool \<times> adapter" where
  "adapter_start bind env a =
     (if adapter_engine a \<noteq> None \<and> adapter_status a = RUNNING then (True, a)
      else (case release_current env a of
              (False, a1) \<Rightarrow> failStart a1
            | (True, a1) \<Rightarrow> bind env (adapter_set STARTING a1)))"

definition tftp_startOwned :: "engine_env \<Rightarrow> adapter \<Rightarrow> bool \<times> adapter" where
  "tftp_startOwned = adapter_start tftp_bind"

definition dhcp_startOwned :: "engine_env \<Rightarrow> adapter \<Rightarrow> bool \<times> adapter" where
  "dhcp_startOwned = adapter_start dhcp_bind"

definition adapter_stopOwned :: "engine_env \<Rightarrow> adapter \<Rightarrow> bool \<times> adapter" where
  "adapter_stopOwned env a =
     (if adapter_engine a = None \<and> adapter_status a = STOPPED then (True, a)
      else (case release_current env (adapter_set STOPPING a) of
              (False, a1) \<Rightarrow> (False, adapter_set ERROR a1)
            | (True, a1) \<Rightarrow> (True, adapter_set STOPPED a1)))"

definition adapter_dispose :: "engine_env \<Rightarrow> adapter \<Rightarrow> bool \<times> adapter" where
  "adapter_dispose env a = (True, snd (adapter_stopOwned env a))"

text \<open>The engine's \<open>error\<close> event.\<close>

definition engine_error :: "adapter \<Rightarrow> adapter" where
  "engine_error a = (if adapter_status a = RUNNING \<or> adapter_status a = STARTING then adapter_set ERROR a else a)"

inductive adapter_step :: "(engine_env \<Rightarrow> adapter \<Rightarrow> bool \<times> adapter) \<Rightarrow> engine_env \<Rightarrow> adapter \<Rightarrow> adapter \<Rightarrow> bool"
  for bind env where
  adapter_started: "adapter_step bind env a (snd (adapter_start bind env a))"
| adapter_stopped: "adapter_step bind env a (snd (adapter_stopOwned env a))"
| adapter_disposed: "adapter_step bind env a (snd (adapter_dispose env a))"
| adapter_failed: "adapter_step bind env a (engine_error a)"

section \<open>The contract of a server\<close>

text \<open>What the manager relies on: the status after a transition tells how it ended.\<close>

locale lifecycle_contract =
  fixes srv_start srv_stop :: "'s \<Rightarrow> bool \<times> 's"
    and srv_status :: "'s \<Rightarrow> server_status"
  assumes start_ok: "fst (srv_start s) \<Longrightarrow> srv_status (snd (srv_start s)) = RUNNING"
    and start_fails: "\<not> fst (srv_start s) \<Longrightarrow> srv_status (snd (srv_start s)) = ERROR"
    and stop_ok: "fst (srv_stop s) \<Longrightarrow> srv_status (snd (srv_stop s)) = STOPPED"
    and stop_fails: "\<not> fst (srv_stop s) \<Longrightarrow> srv_status (snd (srv_stop s)) = ERROR"
begin

lemma settled_status:
  "srv_status (snd (srv_start s)) \<in> {RUNNING, ERROR}" "srv_status (snd (srv_stop s)) \<in> {STOPPED, ERROR}"
  using start_ok [of s] start_fails [of s] stop_ok [of s] stop_fails [of s] by auto

lemma stop_then_start:
  "fst (srv_stop s) \<Longrightarrow> fst (srv_start (snd (srv_stop s))) \<Longrightarrow> srv_status (snd (srv_start (snd (srv_stop s)))) = RUNNING"
  by (rule start_ok)

end

lemma bind_status:
  "fst (tftp_bind env a) \<Longrightarrow> adapter_status (snd (tftp_bind env a)) = RUNNING"
  "\<not> fst (tftp_bind env a) \<Longrightarrow> adapter_status (snd (tftp_bind env a)) = ERROR"
  "fst (dhcp_bind env a) \<Longrightarrow> adapter_status (snd (dhcp_bind env a)) = RUNNING"
  "\<not> fst (dhcp_bind env a) \<Longrightarrow> adapter_status (snd (dhcp_bind env a)) = ERROR"
  by (auto simp: tftp_bind_def dhcp_bind_def failStart_def adapter_set_def split: prod.splits engine_result.splits bool.splits if_splits)

lemma start_status:
  assumes "\<And>a. fst (bind env a) \<Longrightarrow> adapter_status (snd (bind env a)) = RUNNING"
    "\<And>a. \<not> fst (bind env a) \<Longrightarrow> adapter_status (snd (bind env a)) = ERROR"
  shows "adapter_status (snd (adapter_start bind env a)) = (if fst (adapter_start bind env a) then RUNNING else ERROR)"
  using assms by (auto simp: adapter_start_def failStart_def adapter_set_def split: prod.splits bool.splits if_splits)

lemma stop_status:
  "adapter_status (snd (adapter_stopOwned env a)) = (if fst (adapter_stopOwned env a) then STOPPED else ERROR)"
  by (auto simp: adapter_stopOwned_def adapter_set_def split: prod.splits bool.splits if_splits)

interpretation tftp_server: lifecycle_contract "tftp_startOwned env" "adapter_stopOwned env" adapter_status
  by unfold_locales (auto simp: tftp_startOwned_def start_status bind_status stop_status)

interpretation dhcp_server: lifecycle_contract "dhcp_startOwned env" "adapter_stopOwned env" adapter_status
  by unfold_locales (auto simp: dhcp_startOwned_def start_status bind_status stop_status)

section \<open>Ownership of engines\<close>

definition engines_owned :: "adapter \<Rightarrow> bool" where
  "engines_owned a \<longleftrightarrow>
     (\<forall>e < length (engines a). engine_released (engines a ! e) \<or> adapter_engine a = Some e)
     \<and> (\<forall>e. adapter_engine a = Some e \<longrightarrow> e < length (engines a) \<and> \<not> engine_released (engines a ! e))"

text \<open>A running service has an engine.\<close>

definition adapter_ok :: "adapter \<Rightarrow> bool" where
  "adapter_ok a \<longleftrightarrow> engines_owned a \<and> (adapter_status a = RUNNING \<longrightarrow> adapter_engine a \<noteq> None)
     \<and> (adapter_status a = STOPPED \<longrightarrow> adapter_engine a = None)"

lemma owned_set [simp]: "engines_owned (adapter_set st a) = engines_owned a" "engines_owned (a\<lparr>engine_calls := n\<rparr>) = engines_owned a"
  by (simp_all add: engines_owned_def adapter_set_def)

lemma release_owned:
  assumes "engines_owned a"
  shows "engines_owned (snd (release_current env a)) \<and> (fst (release_current env a) \<longrightarrow> adapter_engine (snd (release_current env a)) = None)"
proof (cases "adapter_engine a")
  case None
  then show ?thesis using assms by (simp add: release_current_def)
next
  case (Some e)
  then have e: "e < length (engines a)" using assms by (simp add: engines_owned_def)
  then show ?thesis using assms Some
    by (auto simp: release_current_def releaseEngine_def call_engine_def Let_def engines_owned_def nth_list_update)
qed

lemma try_owned:
  assumes "engines_owned a" "adapter_engine a = None"
  shows "engines_owned (snd (tryStart env p a)) \<and> adapter_engine (snd (tryStart env p a)) \<noteq> None"
  using assms by (auto simp: tryStart_def call_engine_def engines_owned_def nth_append less_Suc_eq)

lemma set_simps [simp]: "adapter_engine (adapter_set st a) = adapter_engine a" "adapter_status (adapter_set st a) = st"
  by (simp_all add: adapter_set_def)

definition bind_ok :: "(engine_env \<Rightarrow> adapter \<Rightarrow> bool \<times> adapter) \<Rightarrow> engine_env \<Rightarrow> bool" where
  "bind_ok bind env \<longleftrightarrow> (\<forall>a. engines_owned a \<longrightarrow> adapter_engine a = None \<longrightarrow> adapter_ok (snd (bind env a)))"

lemma fail_ok: "engines_owned a \<Longrightarrow> adapter_ok (snd (failStart a))"
  by (simp add: adapter_ok_def failStart_def)

lemma dhcp_bind_ok: "bind_ok dhcp_bind env"
  unfolding bind_ok_def
proof (intro allI impI)
  fix a assume a: "engines_owned a" "adapter_engine a = None"
  obtain r a1 where t: "tryStart env (adapter_port a) a = (r, a1)" by fastforce
  have a1: "engines_owned a1" "adapter_engine a1 \<noteq> None" using try_owned [OF a, of env "adapter_port a"] t by simp_all
  then show "adapter_ok (snd (dhcp_bind env a))"
    using fail_ok [of "snd (release_current env a1)"] release_owned [OF a1(1), of env]
    by (auto simp: dhcp_bind_def t adapter_ok_def split: engine_result.splits)
qed

lemma tftp_bind_ok: "bind_ok tftp_bind env"
  unfolding bind_ok_def
proof (intro allI impI)
  fix a assume a: "engines_owned a" "adapter_engine a = None"
  obtain r a1 where t: "tryStart env (adapter_port a) a = (r, a1)" by fastforce
  have a1: "engines_owned a1" "adapter_engine a1 \<noteq> None" using try_owned [OF a, of env "adapter_port a"] t by simp_all
  obtain b a2 where rel: "release_current env a1 = (b, a2)" by fastforce
  have a2: "engines_owned a2" "b \<longrightarrow> adapter_engine a2 = None" using release_owned [OF a1(1), of env] rel by simp_all
  obtain r' a3 where t': "tryStart env TFTP_FALLBACK_PORT a2 = (r', a3)" by fastforce
  have a3: "b \<longrightarrow> engines_owned a3 \<and> adapter_engine a3 \<noteq> None" using try_owned [OF a2(1)] a2(2) t' by (metis snd_conv)
  have f3: "b \<longrightarrow> adapter_ok (snd (failStart (snd (release_current env a3))))" using a3 release_owned fail_ok by blast
  show "adapter_ok (snd (tftp_bind env a))"
    using a1 a3 f3 fail_ok [OF a2(1)]
    by (auto simp: tftp_bind_def t rel t' adapter_ok_def split: engine_result.splits bool.splits)
qed

lemma start_adapter_ok:
  assumes "bind_ok bind env" "adapter_ok a"
  shows "adapter_ok (snd (adapter_start bind env a))"
proof (cases "adapter_engine a \<noteq> None \<and> adapter_status a = RUNNING")
  case False
  obtain b a1 where r: "release_current env a = (b, a1)" by fastforce
  have o: "engines_owned a1" "b \<longrightarrow> adapter_engine a1 = None"
    using release_owned [of a env] assms(2) r by (simp_all add: adapter_ok_def)
  have "adapter_ok (snd (bind env (adapter_set STARTING a1)))" if b
    using assms(1) o that by (simp add: bind_ok_def)
  then show ?thesis using False r fail_ok [OF o(1)] assms(2) by (cases b) (simp_all add: adapter_start_def)
qed (use assms(2) in \<open>simp add: adapter_start_def\<close>)

lemma stop_adapter_ok:
  assumes "adapter_ok a"
  shows "adapter_ok (snd (adapter_stopOwned env a))"
proof -
  obtain b a1 where r: "release_current env (adapter_set STOPPING a) = (b, a1)" by fastforce
  have o: "engines_owned a1" "b \<longrightarrow> adapter_engine a1 = None"
    using release_owned [of "adapter_set STOPPING a" env] assms r by (simp_all add: adapter_ok_def)
  then have "adapter_ok (adapter_set ERROR a1)" "b \<longrightarrow> adapter_ok (adapter_set STOPPED a1)" by (simp_all add: adapter_ok_def)
  then show ?thesis using assms r by (cases b) (simp_all add: adapter_stopOwned_def)
qed

lemma adapter_step_ok:
  assumes "bind_ok bind env"
  shows "adapter_step bind env a a' \<Longrightarrow> adapter_ok a \<Longrightarrow> adapter_ok a'"
proof (induction rule: adapter_step.induct)
  case (adapter_failed a)
  then show ?case by (auto simp: engine_error_def adapter_ok_def)
qed (simp_all add: start_adapter_ok [OF assms] stop_adapter_ok adapter_dispose_def)

lemma adapter_ok_new: "adapter_ok (new_adapter p)"
  by (simp add: adapter_ok_def engines_owned_def new_adapter_def)

interpretation tftp_adapter_run: invariant_system "\<lambda>a. a = new_adapter p" "adapter_step tftp_bind env" adapter_ok
  by unfold_locales (auto simp: adapter_ok_new intro: adapter_step_ok [OF tftp_bind_ok])

interpretation dhcp_adapter_run: invariant_system "\<lambda>a. a = new_adapter p" "adapter_step dhcp_bind env" adapter_ok
  by unfold_locales (auto simp: adapter_ok_new intro: adapter_step_ok [OF dhcp_bind_ok])

lemma filter_upt_eq: "filter (\<lambda>x. x = e) [0 ..< n] = (if e < n then [e] else [])"
  by (induction n) auto

lemma live_engines:
  assumes "adapter_ok a"
  shows "filter (\<lambda>e. \<not> engine_released (engines a ! e)) [0 ..< length (engines a)]
    = (case adapter_engine a of None \<Rightarrow> [] | Some e \<Rightarrow> [e])"
proof -
  have o: "engine_released (engines a ! e) \<or> adapter_engine a = Some e" if "e < length (engines a)" for e
    using assms that by (simp add: adapter_ok_def engines_owned_def)
  show ?thesis
  proof (cases "adapter_engine a")
    case None
    then show ?thesis using o by (auto simp: filter_empty_conv)
  next
    case (Some e)
    then have e: "e < length (engines a)" "\<not> engine_released (engines a ! e)"
      using assms by (auto simp: adapter_ok_def engines_owned_def)
    have "filter (\<lambda>x. \<not> engine_released (engines a ! x)) [0 ..< length (engines a)]
        = filter (\<lambda>x. x = e) [0 ..< length (engines a)]"
      using o e Some by (intro filter_cong) auto
    also have "\<dots> = [e]" using e(1) by (simp add: filter_upt_eq)
    finally show ?thesis using Some by simp
  qed
qed

section \<open>Properties\<close>

text \<open>
  C29. A service never loses an engine or has two: in every run of starts, stops, disposals and engine
  errors, whatever the engines do, the only engine whose \<open>stop\<close> has not succeeded is the one the
  adapter owns (on the fallback port, too); a running service has one and a stopped one has none.
\<close>

theorem adapter_engines:
  assumes "(adapter_step tftp_bind env)\<^sup>*\<^sup>* (new_adapter p) a \<or> (adapter_step dhcp_bind env)\<^sup>*\<^sup>* (new_adapter p) a"
  shows "filter (\<lambda>e. \<not> engine_released (engines a ! e)) [0 ..< length (engines a)]
      = (case adapter_engine a of None \<Rightarrow> [] | Some e \<Rightarrow> [e])
    \<and> (if adapter_status a = RUNNING then adapter_engine a \<noteq> None
       else if adapter_status a = STOPPED then adapter_engine a = None else True)"
proof -
  have "adapter_ok a" using assms tftp_adapter_run.inv_reachable [OF refl] dhcp_adapter_run.inv_reachable [OF refl] by blast
  then show ?thesis using live_engines by (auto simp: adapter_ok_def)
qed

text \<open>The port 69 is denied, the fallback port is free.\<close>

definition denied_env :: engine_env where
  "denied_env n c = (if c = EngineStart 69 then PermissionDenied else EngineOk)"

theorem adapter_engines_witness:
  "adapter_status (snd (tftp_startOwned denied_env (new_adapter 69))) = RUNNING
   \<and> map engine_port (engines (snd (tftp_startOwned denied_env (new_adapter 69)))) = [69, 1069]
   \<and> filter (\<lambda>e. \<not> engine_released (engines (snd (tftp_startOwned denied_env (new_adapter 69))) ! e)) [0, 1] = [1]"
proof -
  let ?a = "snd (tftp_startOwned denied_env (new_adapter 69))"
  have r: "(adapter_step tftp_bind denied_env)\<^sup>*\<^sup>* (new_adapter 69) ?a"
    unfolding tftp_startOwned_def by (rule r_into_rtranclp, rule adapter_started)
  have f: "adapter_engine ?a = Some 1" "length (engines ?a) = 2" "adapter_status ?a = RUNNING" "map engine_port (engines ?a) = [69, 1069]"
    by (simp_all add: tftp_startOwned_def adapter_start_def tftp_bind_def release_current_def releaseEngine_def tryStart_def
        call_engine_def denied_env_def new_adapter_def adapter_set_def Let_def DEFAULT_TFTP_PORT_def TFTP_FALLBACK_PORT_def)
  have "[0 ..< length (engines ?a)] = [0, 1]" by (simp add: f upt_rec)
  then show ?thesis using adapter_engines [OF disjI1 [OF r]] f by simp
qed

text \<open>
  The status tells how a transition ended, for both services: a start that resolves leaves
  \<open>RUNNING\<close>, a stop that resolves leaves \<open>STOPPED\<close>, one that rejects leaves \<open>ERROR\<close>, and a disposal
  never rejects.
\<close>

theorem adapter_status_contract:
  "adapter_status (snd (tftp_startOwned env a)) = (if fst (tftp_startOwned env a) then RUNNING else ERROR)
   \<and> adapter_status (snd (dhcp_startOwned env a)) = (if fst (dhcp_startOwned env a) then RUNNING else ERROR)
   \<and> adapter_status (snd (adapter_stopOwned env a)) = (if fst (adapter_stopOwned env a) then STOPPED else ERROR)
   \<and> fst (adapter_dispose env a)"
  using tftp_server.start_ok [of env a] tftp_server.start_fails [of env a] dhcp_server.start_ok [of env a]
    dhcp_server.start_fails [of env a] tftp_server.stop_ok [of env a] tftp_server.stop_fails [of env a]
  by (auto simp: adapter_dispose_def)

end
