(* ===== verification/Text_Units.thy ===== *)
theory Text_Units
  imports Prelude "HOL-Library.Sublist"
begin

text \<open>
  JavaScript text as a list of UTF-16 code units, with \<open>split\<close> and \<open>join\<close> on one separator, \<open>trim\<close> and
  \<open>lastIndexOf\<close>.
\<close>

type_synonym units = "nat list"

definition SLASH :: nat where "SLASH = 47"
definition DOT :: nat where "DOT = 46"

section \<open>Splitting and joining\<close>

fun split_on :: "'a \<Rightarrow> 'a list \<Rightarrow> 'a list list" where
  "split_on s [] = [[]]"
| "split_on s (c # cs) =
     (if c = s then [] # split_on s cs
      else (case split_on s cs of [] \<Rightarrow> [[c]] | w # ws \<Rightarrow> (c # w) # ws))"

fun join_with :: "'a \<Rightarrow> 'a list list \<Rightarrow> 'a list" where
  "join_with s [] = []"
| "join_with s [w] = w"
| "join_with s (w # ws) = w @ s # join_with s ws"

lemma split_parts: "list_all (\<lambda>w. s \<notin> set w) (split_on s cs)"
  by (induction s cs rule: split_on.induct) (auto split: list.splits)

lemma split_set: "w \<in> set (split_on s cs) \<Longrightarrow> set w \<subseteq> set cs"
proof (induction s cs arbitrary: w rule: split_on.induct)
  case (2 s c cs)
  then show ?case by (cases "split_on s cs") (fastforce split: if_splits)+
qed simp

lemma split_nonempty [simp]: "split_on s cs \<noteq> []"
  by (induction s cs rule: split_on.induct) (auto split: list.splits)

lemma split_length: "length (concat (split_on s cs)) + length (split_on s cs) = Suc (length cs)"
  by (induction s cs rule: split_on.induct) (auto split: list.splits)

lemma join_length: "ws \<noteq> [] \<Longrightarrow> length (join_with s ws) + 1 = length (concat ws) + length ws"
  by (induction s ws rule: join_with.induct) auto

lemma join_set: "set (join_with s ws) \<subseteq> insert s (\<Union> (set ` set ws))"
  by (induction s ws rule: join_with.induct) auto

lemma split_append: "split_on s (xs @ s # ys) = split_on s xs @ split_on s ys"
  by (induction s xs rule: split_on.induct) (auto split: list.splits)

lemma split_free: "s \<notin> set w \<Longrightarrow> split_on s w = [w]"
  by (induction w) auto

lemma split_snoc: "split_on s (q @ [s]) = split_on s q @ [[]]"
  using split_append [of s q "[]"] by simp

lemma split_joined: "ws \<noteq> [] \<Longrightarrow> list_all (\<lambda>w. s \<notin> set w) ws \<Longrightarrow> split_on s (join_with s ws) = ws"
  by (induction s ws rule: join_with.induct) (simp_all add: split_free split_append)

lemma join_Cons: "ws \<noteq> [] \<Longrightarrow> join_with s (w # ws) = w @ s # join_with s ws"
  by (cases ws) simp_all

lemma join_split [simp]: "join_with s (split_on s cs) = cs"
proof (induction s cs rule: split_on.induct)
  case (2 s c cs)
  show ?case
  proof (cases "c = s")
    case True
    then show ?thesis using 2 by (simp add: join_Cons)
  next
    case False
    obtain w ws where w: "split_on s cs = w # ws" by (cases "split_on s cs") auto
    then show ?thesis using 2 False by (cases ws) auto
  qed
qed simp

lemma join_append: "ws \<noteq> [] \<Longrightarrow> vs \<noteq> [] \<Longrightarrow> join_with s (ws @ vs) = join_with s ws @ s # join_with s vs"
  by (induction s ws rule: join_with.induct) (auto simp: join_Cons)

lemma split_inject [simp]: "split_on s xs = split_on s ys \<longleftrightarrow> xs = ys"
  using join_split by metis

section \<open>White space\<close>

definition is_blank :: "nat \<Rightarrow> bool" where
  "is_blank c \<longleftrightarrow>
     9 \<le> c \<and> c \<le> 13 \<or> c = 32 \<or> c = 160 \<or> c = 5760 \<or> 8192 \<le> c \<and> c \<le> 8202 \<or> c = 8232 \<or> c = 8233 \<or> c = 8239
     \<or> c = 8287 \<or> c = 12288 \<or> c = 65279"

definition trim :: "units \<Rightarrow> units" where
  "trim s = rev (dropWhile is_blank (rev (dropWhile is_blank s)))"

lemma dropWhile_length: "length (dropWhile P xs) \<le> length xs"
  by (induction xs) auto

lemma trim_length: "length (trim s) \<le> length s"
  using dropWhile_length [of is_blank s] dropWhile_length [of is_blank "rev (dropWhile is_blank s)"] by (simp add: trim_def)

lemma dropWhile_set: "set (dropWhile P xs) \<subseteq> set xs"
  by (auto dest: set_dropWhileD)

lemma trim_set: "set (trim s) \<subseteq> set s"
  using dropWhile_set [of is_blank s] dropWhile_set [of is_blank "rev (dropWhile is_blank s)"] by (auto simp: trim_def)

text \<open>A text that neither starts nor ends with white space.\<close>

definition trimmed :: "units \<Rightarrow> bool" where
  "trimmed s \<longleftrightarrow> s = [] \<or> \<not> is_blank (hd s) \<and> \<not> is_blank (last s)"

lemma trimmed_trim: "trimmed (trim s)"
proof (cases "trim s = []")
  case False
  let ?a = "dropWhile is_blank s" and ?b = "dropWhile is_blank (rev (dropWhile is_blank s))"
  have b: "?b \<noteq> []" using False by (simp add: trim_def)
  have "\<not> is_blank (hd ?b)" using b by (rule hd_dropWhile)
  moreover have "last ?b = hd ?a"
  proof -
    have "?a = rev ?b @ rev (takeWhile is_blank (rev ?a))"
      by (metis rev_append rev_rev_ident takeWhile_dropWhile_id)
    then show ?thesis using b by (metis hd_append hd_rev rev_is_Nil_conv)
  qed
  moreover have "\<not> is_blank (hd ?a)"
  proof (rule hd_dropWhile)
    show "?a \<noteq> []" using b by (metis dropWhile.simps(1) rev.simps(1))
  qed
  ultimately show ?thesis using b by (simp add: trimmed_def trim_def hd_rev last_rev)
qed (simp add: trimmed_def)

lemma trim_trimmed: "trimmed s \<Longrightarrow> trim s = s"
proof -
  assume t: "trimmed s"
  have d: "xs \<noteq> [] \<Longrightarrow> \<not> is_blank (hd xs) \<Longrightarrow> dropWhile is_blank xs = xs" for xs by (cases xs) auto
  show ?thesis
  proof (cases "s = []")
    case False
    then show ?thesis using t d [of s] d [of "rev s"] by (simp add: trimmed_def trim_def hd_rev)
  qed (simp add: trim_def)
qed

section \<open>The last separator\<close>

definition lastIndexOf :: "'a \<Rightarrow> 'a list \<Rightarrow> nat option" where
  "lastIndexOf s p = (if s \<in> set p then Some (length p - Suc (length (takeWhile (\<lambda>c. c \<noteq> s) (rev p)))) else None)"

lemma lastIndexOf_free: "s \<notin> set p \<Longrightarrow> lastIndexOf s p = None"
  by (simp add: lastIndexOf_def)

lemma lastIndexOf_append: "s \<notin> set w \<Longrightarrow> lastIndexOf s (xs @ s # w) = Some (length xs)"
proof -
  assume "s \<notin> set w"
  then have "takeWhile (\<lambda>c. c \<noteq> s) (rev (xs @ s # w)) = rev w" by (auto simp: takeWhile_tail)
  then show ?thesis by (simp add: lastIndexOf_def)
qed

end
