(* ===== verification/Osc_Scanner.thy ===== *)
theory Osc_Scanner
  imports Text_Units
begin

text \<open>
  Two scanners of terminal output: \<open>src/src/services/terminal/oscContextFilter.ts\<close>, which removes the
  context sequences \<open>ESC ] 3008 ; ... ST\<close>, and the scanning part of
  \<open>src/src/services/terminal/osc7Parser.ts\<close>, which reports the payloads of \<open>ESC ] 7 ; ... ST\<close>. Text is a
  list of UTF-16 code units. The validation of a payload (a URL) is a parameter.
\<close>

definition ESC_UNIT :: nat where "ESC_UNIT = 27"
definition BEL_UNIT :: nat where "BEL_UNIT = 7"
definition BACKSLASH_UNIT :: nat where "BACKSLASH_UNIT = 92"

definition OPEN_3008 :: units where "OPEN_3008 = [27, 93, 51, 48, 48, 56, 59]"
definition OPEN_7 :: units where "OPEN_7 = [27, 93, 55, 59]"

definition MAX_CARRY :: nat where "MAX_CARRY = 4096"

section \<open>Searching\<close>

fun indexOf :: "'a list \<Rightarrow> 'a list \<Rightarrow> nat option" where
  "indexOf pat [] = (if pat = [] then Some 0 else None)"
| "indexOf pat (c # cs) = (if prefix pat (c # cs) then Some 0 else map_option Suc (indexOf pat cs))"

datatype terminator = Found nat nat | StrayEsc nat | Incomplete

text \<open>\<open>findTerminator(buf, from)\<close>: \<open>i\<close> is the position of the rest of the buffer.\<close>

fun terminator_loop :: "nat \<Rightarrow> units \<Rightarrow> terminator" where
  "terminator_loop i [] = Incomplete"
| "terminator_loop i (c # cs) =
     (if c = BEL_UNIT then Found i (i + 1)
      else if c = ESC_UNIT then
        (case cs of
           [] \<Rightarrow> Incomplete
         | d # _ \<Rightarrow> (if d = BACKSLASH_UNIT then Found i (i + 2) else StrayEsc i))
      else terminator_loop (i + 1) cs)"

definition findTerminator :: "units \<Rightarrow> nat \<Rightarrow> terminator" where
  "findTerminator buf start = terminator_loop start (drop start buf)"

fun open_prefix_loop :: "units \<Rightarrow> units \<Rightarrow> nat \<Rightarrow> nat" where
  "open_prefix_loop opener buf 0 = 0"
| "open_prefix_loop opener buf (Suc n) =
     (let candidate = drop (length buf - Suc n) buf
      in if hd candidate = ESC_UNIT \<and> prefix candidate opener then Suc n
         else open_prefix_loop opener buf n)"

definition trailingOpenPrefix :: "units \<Rightarrow> units \<Rightarrow> nat" where
  "trailingOpenPrefix opener buf = open_prefix_loop opener buf (min (length buf) (length opener - 1))"

text \<open>A terminator lies behind the position it is searched from.\<close>

lemma terminator_bounds:
  "terminator_loop i cs = Found s e \<Longrightarrow> i \<le> s \<and> s < e \<and> e \<le> i + length cs"
  "terminator_loop i cs = StrayEsc s \<Longrightarrow> i \<le> s \<and> s < i + length cs"
  by (induction i cs rule: terminator_loop.induct) (auto split: if_splits list.splits)

lemma index_bound: "indexOf pat buf = Some i \<Longrightarrow> i + length pat \<le> length buf"
  by (induction pat buf arbitrary: i rule: indexOf.induct) (auto split: if_splits dest: prefix_length_le)

lemma found_progress:
  assumes "indexOf opener buf = Some i" "findTerminator (drop i buf) (length opener) = Found s e"
  shows "length (drop e (drop i buf)) < length buf"
  using assms index_bound [OF assms(1)] terminator_bounds(1) [of "length opener" "drop (length opener) (drop i buf)" s e]
  by (auto simp: findTerminator_def)

lemma stray_progress:
  assumes "indexOf opener buf = Some i" "findTerminator (drop i buf) (length opener) = StrayEsc s" "opener \<noteq> []"
  shows "length (drop s (drop i buf)) < length buf"
proof -
  have "length opener \<le> s" using assms(2) terminator_bounds(2) by (auto simp: findTerminator_def)
  moreover have "0 < length opener" using assms(3) by simp
  ultimately show ?thesis using index_bound [OF assms(1)] unfolding length_drop by linarith
qed

section \<open>The context filter\<close>

text \<open>The loop of \<open>filter\<close>: the output and the carry.\<close>

function filter_loop :: "units \<Rightarrow> units \<times> units" where
  "filter_loop buf =
     (case indexOf OPEN_3008 buf of
        None \<Rightarrow>
          (let tail = trailingOpenPrefix OPEN_3008 buf
           in (take (length buf - tail) buf, drop (length buf - tail) buf))
      | Some i \<Rightarrow>
          (case findTerminator (drop i buf) (length OPEN_3008) of
             Found _ e \<Rightarrow> (case filter_loop (drop e (drop i buf)) of (out, carry) \<Rightarrow> (take i buf @ out, carry))
           | StrayEsc s \<Rightarrow> (case filter_loop (drop s (drop i buf)) of (out, carry) \<Rightarrow> (take i buf @ out, carry))
           | Incomplete \<Rightarrow> (take i buf, drop i buf)))"
  by pat_completeness auto

termination
proof (relation "measure length", goal_cases)
  case (2 buf i s e)
  then show ?case using found_progress by (simp only: in_measure)
next
  case (3 buf i s)
  then show ?case using stray_progress [of OPEN_3008] by (simp add: OPEN_3008_def)
qed simp

declare filter_loop.simps [simp del]

text \<open>\<open>filter\<close>: the output and the new carry.\<close>

definition osc_filter :: "units \<Rightarrow> units \<Rightarrow> units \<times> units" where
  "osc_filter carry input =
     (case filter_loop (carry @ input) of
        (out, carry') \<Rightarrow> if MAX_CARRY < length carry' then (out @ carry', []) else (out, carry'))"

section \<open>The reporter of directories\<close>

text \<open>The loop of \<open>feed\<close>: the payloads of the complete sequences and the carry.\<close>

function feed_loop :: "units \<Rightarrow> units list \<times> units" where
  "feed_loop buf =
     (case indexOf OPEN_7 buf of
        None \<Rightarrow> (let tail = trailingOpenPrefix OPEN_7 buf in ([], drop (length buf - tail) buf))
      | Some i \<Rightarrow>
          (case findTerminator (drop i buf) (length OPEN_7) of
             Found s e \<Rightarrow>
               (case feed_loop (drop e (drop i buf)) of
                  (ps, carry) \<Rightarrow> (drop (length OPEN_7) (take s (drop i buf)) # ps, carry))
           | StrayEsc s \<Rightarrow> feed_loop (drop s (drop i buf))
           | Incomplete \<Rightarrow> ([], drop i buf)))"
  by pat_completeness auto

termination
proof (relation "measure length", goal_cases)
  case (2 buf i s e)
  then show ?case using found_progress by (simp only: in_measure)
next
  case (3 buf i s)
  then show ?case using stray_progress [of OPEN_7] by (simp add: OPEN_7_def)
qed simp

declare feed_loop.simps [simp del]

definition osc7_feed :: "(units \<Rightarrow> 'm option) \<Rightarrow> units \<Rightarrow> units \<Rightarrow> 'm list \<times> units" where
  "osc7_feed safeParsePayload carry input =
     (case feed_loop (carry @ input) of
        (ps, carry') \<Rightarrow>
          (List.map_filter safeParsePayload ps, if MAX_CARRY < length carry' then [] else carry'))"

section \<open>Sequences in a stream\<close>

text \<open>What a buffer consists of: text and the payloads of complete sequences, and what is open at its end.\<close>

datatype item = Text units | Payload units

function scan :: "units \<Rightarrow> units \<Rightarrow> item list \<times> units" where
  "scan opener buf =
     (if opener = [] then ([], [])
      else case indexOf opener buf of
        None \<Rightarrow>
          (let tail = trailingOpenPrefix opener buf
           in ([Text (take (length buf - tail) buf)], drop (length buf - tail) buf))
      | Some i \<Rightarrow>
          (case findTerminator (drop i buf) (length opener) of
             Found s e \<Rightarrow>
               (case scan opener (drop e (drop i buf)) of
                  (xs, carry) \<Rightarrow>
                    (Text (take i buf) # Payload (drop (length opener) (take s (drop i buf))) # xs, carry))
           | StrayEsc s \<Rightarrow> (case scan opener (drop s (drop i buf)) of (xs, carry) \<Rightarrow> (Text (take i buf) # xs, carry))
           | Incomplete \<Rightarrow> ([Text (take i buf)], drop i buf)))"
  by pat_completeness auto

termination
proof (relation "measure (\<lambda>(opener, buf). length buf)", goal_cases)
  case (2 opener buf i s e)
  then show ?case using found_progress [of opener buf i s e] by simp
next
  case (3 opener buf i s)
  then show ?case using stray_progress [of opener buf i s] by simp
qed simp

declare scan.simps [simp del]

definition texts :: "item list \<Rightarrow> units" where
  "texts xs = concat (map (\<lambda>x. case x of Text t \<Rightarrow> t | Payload _ \<Rightarrow> []) xs)"

definition payloads :: "item list \<Rightarrow> units list" where
  "payloads xs = List.map_filter (\<lambda>x. case x of Text _ \<Rightarrow> None | Payload p \<Rightarrow> Some p) xs"

lemma items_simps [simp]:
  "texts [] = []" "texts (Text t # xs) = t @ texts xs" "texts (Payload p # xs) = texts xs"
  "texts (xs @ ys) = texts xs @ texts ys"
  "payloads [] = []" "payloads (Text t # xs) = payloads xs" "payloads (Payload p # xs) = p # payloads xs"
  "payloads (xs @ ys) = payloads xs @ payloads ys"
  by (simp_all add: texts_def payloads_def map_filter_def)

lemma filter_loop_scan: "filter_loop buf = (texts (fst (scan OPEN_3008 buf)), snd (scan OPEN_3008 buf))"
proof (induction buf rule: filter_loop.induct)
  case (1 buf)
  have n: "OPEN_3008 \<noteq> []" by (simp add: OPEN_3008_def)
  show ?case
  proof (cases "indexOf OPEN_3008 buf")
    case None
    then show ?thesis using n by (simp add: filter_loop.simps [of buf] scan.simps [of OPEN_3008 buf] Let_def)
  next
    case (Some i)
    then show ?thesis using n 1
      by (cases "findTerminator (drop i buf) (length OPEN_3008)")
        (simp_all add: filter_loop.simps [of buf] scan.simps [of OPEN_3008 buf] del: drop_drop split: prod.splits)
  qed
qed

lemma feed_loop_scan: "feed_loop buf = (payloads (fst (scan OPEN_7 buf)), snd (scan OPEN_7 buf))"
proof (induction buf rule: feed_loop.induct)
  case (1 buf)
  have n: "OPEN_7 \<noteq> []" by (simp add: OPEN_7_def)
  show ?case
  proof (cases "indexOf OPEN_7 buf")
    case None
    then show ?thesis using n by (simp add: feed_loop.simps [of buf] scan.simps [of OPEN_7 buf] Let_def)
  next
    case (Some i)
    then show ?thesis using n 1
      by (cases "findTerminator (drop i buf) (length OPEN_7)")
        (simp_all add: feed_loop.simps [of buf] scan.simps [of OPEN_7 buf] del: drop_drop split: prod.splits)
  qed
qed

end
