(* ===== verification/Osc_Streams.thy ===== *)
theory Osc_Streams
  imports Osc_Scanner
begin

text \<open>
  The terminal scanners over a stream that arrives in chunks: the laws of the scan for any opener that
  starts with ESC and has no other, and what the filter and the reporter do with a whole stream. A sequence
  that is still open when more than \<open>MAX_CARRY\<close> units of it have arrived is let through by the filter; the
  properties on streams say where they leave this case out.
\<close>

section \<open>Openers\<close>

lemma terminator_append:
  "terminator_loop i cs \<noteq> Incomplete \<Longrightarrow> terminator_loop i (cs @ ys) = terminator_loop i cs"
proof (induction i cs rule: terminator_loop.induct)
  case (2 i c cs)
  show ?case
  proof (cases "c = BEL_UNIT \<or> c = ESC_UNIT")
    case True
    then show ?thesis using "2.prems" by (cases cs) (auto split: if_splits)
  next
    case False
    then show ?thesis using 2 by simp
  qed
qed simp

lemma findTerminator_append:
  assumes "start \<le> length buf" "findTerminator buf start \<noteq> Incomplete"
  shows "findTerminator (buf @ ys) start = findTerminator buf start"
  using assms terminator_append [of start "drop start buf" ys] by (simp add: findTerminator_def)

lemma indexOf_append: "indexOf pat xs = Some i \<Longrightarrow> indexOf pat (xs @ ys) = Some i"
proof (induction pat xs arbitrary: i rule: indexOf.induct)
  case (1 pat)
  then show ?case by (cases ys) (auto split: if_splits)
next
  case (2 pat c cs)
  show ?case
  proof (cases "prefix pat (c # cs)")
    case True
    then have "prefix pat ((c # cs) @ ys)" by (rule prefix_prefix)
    then show ?thesis using 2 True by simp
  next
    case False
    then obtain j where j: "indexOf pat cs = Some j" "i = Suc j" using "2.prems" by auto
    have "j + length pat \<le> length cs" by (rule index_bound [OF j(1)])
    then have "\<not> prefix pat ((c # cs) @ ys)"
      using False prefix_length_prefix [of pat "(c # cs) @ ys" "c # cs"] by auto
    then show ?thesis using "2.IH" [OF False j(1)] j(2) by simp
  qed
qed

lemma indexOf_first: "indexOf pat xs = Some i \<Longrightarrow> prefix pat (drop i xs) \<and> (\<forall>j < i. \<not> prefix pat (drop j xs))"
proof (induction pat xs arbitrary: i rule: indexOf.induct)
  case (2 pat c cs)
  show ?case
  proof (cases "prefix pat (c # cs)")
    case False
    then obtain j where "indexOf pat cs = Some j" "i = Suc j" using "2.prems" by auto
    then show ?thesis using "2.IH" False by (auto simp: less_Suc_eq_0_disj)
  qed (use 2 in auto)
qed (auto split: if_splits)

lemma indexOf_none: "indexOf pat xs = None \<Longrightarrow> j \<le> length xs \<Longrightarrow> \<not> prefix pat (drop j xs)"
proof (induction pat xs arbitrary: j rule: indexOf.induct)
  case (2 pat c cs)
  then show ?case by (cases j) (auto split: if_splits)
qed (auto split: if_splits)

text \<open>Two strings of which neither continues the other.\<close>

definition apart :: "'a list \<Rightarrow> 'a list \<Rightarrow> bool" where
  "apart xs ys \<longleftrightarrow> \<not> prefix xs ys \<and> \<not> prefix ys xs"

lemma apart_append: "apart xs ys \<Longrightarrow> apart xs (ys @ zs)"
  unfolding apart_def using prefix_append [of xs ys zs] append_prefixD [of ys zs xs] prefix_same_cases [of ys "ys @ zs" xs] by auto

definition starts_after :: "'a list \<Rightarrow> 'a list \<Rightarrow> 'a list \<Rightarrow> bool" where
  "starts_after opener p q \<longleftrightarrow> (\<forall>i < length p. apart opener (drop i (p @ q)))"

lemma starts_after_Cons: "starts_after opener (c # p) q \<longleftrightarrow> apart opener (c # p @ q) \<and> starts_after opener p q"
  by (auto simp: starts_after_def less_Suc_eq_0_disj)

lemma indexOf_after: "starts_after opener p q \<Longrightarrow> indexOf opener (p @ q) = map_option (\<lambda>i. length p + i) (indexOf opener q)"
proof (induction p)
  case Nil
  then show ?case by (simp add: option.map_ident)
next
  case (Cons c p)
  then show ?case by (auto simp: starts_after_Cons apart_def option.map_comp comp_def)
qed

text \<open>The longest open prefix at the end.\<close>

lemma open_prefix_loop_spec:
  "n \<le> length buf \<Longrightarrow> open_prefix_loop opener buf n \<le> n
   \<and> (open_prefix_loop opener buf n = 0 \<or> prefix (drop (length buf - open_prefix_loop opener buf n) buf) opener)
   \<and> (\<forall>k. 0 < k \<and> k \<le> n \<and> hd (drop (length buf - k) buf) = ESC_UNIT \<and> prefix (drop (length buf - k) buf) opener
        \<longrightarrow> k \<le> open_prefix_loop opener buf n)"
proof (induction n)
  case (Suc n)
  show ?case
  proof (cases "hd (drop (length buf - Suc n) buf) = ESC_UNIT \<and> prefix (drop (length buf - Suc n) buf) opener")
    case True
    then show ?thesis by (simp add: Let_def)
  next
    case False
    then have "open_prefix_loop opener buf (Suc n) = open_prefix_loop opener buf n" by (auto simp: Let_def)
    then show ?thesis using Suc False by (auto simp: le_Suc_eq)
  qed
qed simp

lemma open_prefix_loop_after:
  assumes "starts_after opener p q" "n \<le> length p + length q"
  shows "open_prefix_loop opener (p @ q) n = open_prefix_loop opener q (min n (length q))"
  using assms(2)
proof (induction n)
  case (Suc n)
  show ?case
  proof (cases "Suc n \<le> length q")
    case True
    then have "drop (length (p @ q) - Suc n) (p @ q) = drop (length q - Suc n) q" by simp
    then show ?thesis using Suc True by (simp add: Let_def min_def)
  next
    case False
    have "\<not> prefix (drop (length (p @ q) - Suc n) (p @ q)) opener"
      using assms(1) False Suc.prems by (auto simp: starts_after_def apart_def)
    then have "open_prefix_loop opener (p @ q) (Suc n) = open_prefix_loop opener (p @ q) n" by (simp add: Let_def)
    moreover have "min (Suc n) (length q) = min n (length q)" using False by simp
    ultimately show ?thesis using Suc by (simp only: Suc_leD)
  qed
qed simp

definition osc_terminator :: "units \<Rightarrow> bool" where
  "osc_terminator st \<longleftrightarrow> st = [BEL_UNIT] \<or> st = [ESC_UNIT, BACKSLASH_UNIT]"

locale osc_opener =
  fixes opener :: units
  assumes starts_esc: "opener \<noteq> []" "hd opener = ESC_UNIT"
    and one_esc: "ESC_UNIT \<notin> set (tl opener)"
begin

lemma scan_found:
  "indexOf opener xs = Some i \<Longrightarrow> findTerminator (drop i xs) (length opener) = Found s e \<Longrightarrow>
    scan opener xs = (Text (take i xs) # Payload (drop (length opener) (take s (drop i xs)))
      # fst (scan opener (drop e (drop i xs))), snd (scan opener (drop e (drop i xs))))"
  using starts_esc(1) by (simp add: scan.simps [of opener xs] case_prod_beta del: drop_drop)

lemma scan_stray:
  "indexOf opener xs = Some i \<Longrightarrow> findTerminator (drop i xs) (length opener) = StrayEsc s \<Longrightarrow>
    scan opener xs = (Text (take i xs) # fst (scan opener (drop s (drop i xs))), snd (scan opener (drop s (drop i xs))))"
  using starts_esc(1) by (simp add: scan.simps [of opener xs] case_prod_beta del: drop_drop)

lemma trailing_after:
  assumes "starts_after opener p q"
  shows "trailingOpenPrefix opener (p @ q) = trailingOpenPrefix opener q"
proof -
  have "open_prefix_loop opener (p @ q) (min (length (p @ q)) (length opener - 1))
      = open_prefix_loop opener q (min (min (length (p @ q)) (length opener - 1)) (length q))"
    using assms by (intro open_prefix_loop_after) simp_all
  moreover have "min (min (length (p @ q)) (length opener - 1)) (length q) = min (length q) (length opener - 1)" by simp
  ultimately show ?thesis by (simp add: trailingOpenPrefix_def)
qed

text \<open>Text in which no sequence starts passes the scan.\<close>

lemma scan_after:
  assumes "starts_after opener p q"
  shows "texts (fst (scan opener (p @ q))) = p @ texts (fst (scan opener q))
    \<and> payloads (fst (scan opener (p @ q))) = payloads (fst (scan opener q))
    \<and> snd (scan opener (p @ q)) = snd (scan opener q)"
proof (cases "indexOf opener q")
  case None
  have t: "trailingOpenPrefix opener q \<le> length q"
    using open_prefix_loop_spec [of "min (length q) (length opener - 1)" q opener] by (simp add: trailingOpenPrefix_def)
  then have "length (p @ q) - trailingOpenPrefix opener q = length p + (length q - trailingOpenPrefix opener q)" by simp
  then show ?thesis
    using None indexOf_after [OF assms] trailing_after [OF assms] starts_esc(1)
    by (simp add: scan.simps [of opener "p @ q"] scan.simps [of opener q] Let_def)
next
  case (Some i)
  then show ?thesis
    using indexOf_after [OF assms] starts_esc(1)
    by (cases "findTerminator (drop i q) (length opener)")
      (simp_all add: scan.simps [of opener "p @ q"] scan.simps [of opener q] del: drop_drop split: prod.splits)
qed

lemma no_open_after:
  assumes "indexOf opener xs = None"
  shows "starts_after opener (take (length xs - trailingOpenPrefix opener xs) xs) (drop (length xs - trailingOpenPrefix opener xs) xs @ ys)"
  unfolding starts_after_def
proof (intro allI impI)
  let ?t = "trailingOpenPrefix opener xs"
  fix i assume "i < length (take (length xs - ?t) xs)"
  then have i: "i < length xs - ?t" by simp
  let ?s = "drop i xs"
  have no: "\<not> prefix opener ?s" using indexOf_none [OF assms, of i] i by simp
  have "\<not> prefix ?s opener"
  proof
    assume p: "prefix ?s opener"
    have "?s \<noteq> opener" using no by auto
    then have "length ?s < length opener" using p by (auto simp: prefix_def)
    then have l: "length ?s \<le> length opener - 1" by simp
    have "hd ?s = ESC_UNIT" using p i starts_esc(2) by (cases ?s; cases opener) (auto simp: prefix_def)
    moreover have d: "drop (length xs - (length xs - i)) xs = ?s" using i by simp
    ultimately have "length xs - i \<le> ?t"
      using open_prefix_loop_spec [of "min (length xs) (length opener - 1)" xs opener] l p i
      unfolding trailingOpenPrefix_def by (auto simp: d)
    then show False using i by simp
  qed
  with no have "apart opener ?s" by (simp add: apart_def)
  then have "apart opener (?s @ ys)" by (rule apart_append)
  then show "apart opener (drop i (take (length xs - ?t) xs @ drop (length xs - ?t) xs @ ys))"
    using i by (simp add: append_assoc [symmetric] del: append_assoc)
qed

lemma first_open_after:
  assumes "indexOf opener xs = Some i"
  shows "starts_after opener (take i xs) (drop i xs @ ys)"
  unfolding starts_after_def
proof (intro allI impI)
  fix j assume "j < length (take i xs)"
  then have j: "j < i" "j < length xs" by simp_all
  have "\<not> prefix opener (drop j xs)" using indexOf_first [OF assms] j(1) by blast
  moreover have "\<not> prefix (drop j xs) opener" using index_bound [OF assms] j prefix_length_le [of "drop j xs" opener] by auto
  ultimately have "apart opener (drop j xs @ ys)" by (intro apart_append) (simp add: apart_def)
  then show "apart opener (drop j (take i xs @ drop i xs @ ys))"
    using j by (simp add: append_assoc [symmetric] del: append_assoc)
qed

lemma scan_append:
  "texts (fst (scan opener (xs @ ys))) = texts (fst (scan opener xs)) @ texts (fst (scan opener (snd (scan opener xs) @ ys)))
   \<and> payloads (fst (scan opener (xs @ ys)))
     = payloads (fst (scan opener xs)) @ payloads (fst (scan opener (snd (scan opener xs) @ ys)))
   \<and> snd (scan opener (xs @ ys)) = snd (scan opener (snd (scan opener xs) @ ys))"
proof (induction "length xs" arbitrary: xs rule: less_induct)
  case less
  show ?case
  proof (cases "indexOf opener xs")
    case None
    let ?n = "length xs - trailingOpenPrefix opener xs"
    have "scan opener xs = ([Text (take ?n xs)], drop ?n xs)"
      using None starts_esc(1) by (simp add: scan.simps [of opener xs] Let_def)
    then show ?thesis using scan_after [OF no_open_after [OF None], of ys] by (simp flip: append_assoc)
  next
    case (Some i)
    have b: "i + length opener \<le> length xs" by (rule index_bound [OF Some])
    have i': "indexOf opener (xs @ ys) = Some i" by (rule indexOf_append [OF Some])
    have dr: "drop i (xs @ ys) = drop i xs @ ys" "take i (xs @ ys) = take i xs" using b by simp_all
    let ?f = "findTerminator (drop i xs) (length opener)"
    have f': "findTerminator (drop i xs @ ys) (length opener) = ?f" if "?f \<noteq> Incomplete"
      using findTerminator_append [of "length opener" "drop i xs" ys] b that by simp
    show ?thesis
    proof (cases ?f)
      case (Found s e)
      have le: "s < e" "e \<le> length (drop i xs)"
        using terminator_bounds(1) [of "length opener" "drop (length opener) (drop i xs)" s e] Found b by (auto simp: findTerminator_def)
      have lt: "length (drop e (drop i xs)) < length xs" by (rule found_progress [OF Some Found])
      show ?thesis
        using less [OF lt] le f' Found scan_found [OF Some Found] scan_found [OF i', of s e] unfolding dr
        by (simp del: drop_drop)
    next
      case (StrayEsc s)
      have le: "s \<le> length (drop i xs)"
        using terminator_bounds(2) [of "length opener" "drop (length opener) (drop i xs)" s] StrayEsc b by (auto simp: findTerminator_def)
      have lt: "length (drop s (drop i xs)) < length xs" by (rule stray_progress [OF Some StrayEsc starts_esc(1)])
      show ?thesis
        using less [OF lt] le f' StrayEsc scan_stray [OF Some StrayEsc] scan_stray [OF i', of s] unfolding dr
        by (simp del: drop_drop)
    next
      case Incomplete
      have "scan opener xs = ([Text (take i xs)], drop i xs)"
        using Some Incomplete starts_esc(1) by (simp add: scan.simps [of opener xs])
      then show ?thesis using scan_after [OF first_open_after [OF Some], of ys] by (simp flip: append_assoc)
    qed
  qed
qed

section \<open>Streams of complete sequences\<close>

lemma terminator_plain:
  "list_all (\<lambda>c. c \<noteq> BEL_UNIT \<and> c \<noteq> ESC_UNIT) payload \<Longrightarrow>
    terminator_loop i (payload @ rest) = terminator_loop (i + length payload) rest"
  by (induction payload arbitrary: i) simp_all

lemma text_before_open:
  assumes "indexOf opener t = None"
  shows "starts_after opener t (opener @ rest)"
  unfolding starts_after_def
proof (intro allI impI)
  fix i assume i: "i < length t"
  let ?d = "drop i t"
  have no: "\<not> prefix opener ?d" using indexOf_none [OF assms, of i] i by simp
  have "\<not> prefix opener (?d @ opener @ rest)"
  proof
    assume p: "prefix opener (?d @ opener @ rest)"
    then have "length ?d < length opener" using no prefix_length_prefix [of opener "?d @ opener @ rest" ?d] by force
    then have "(?d @ opener @ rest) ! length ?d = opener ! length ?d"
      using p by (metis prefix_def nth_append)
    moreover have "(?d @ opener @ rest) ! length ?d = ESC_UNIT"
      using starts_esc by (simp add: nth_append hd_conv_nth)
    moreover have "opener ! length ?d \<in> set (tl opener)"
    proof -
      obtain k where k: "length ?d = Suc k" using i by (cases "length ?d") auto
      have "opener ! Suc k = tl opener ! k" using starts_esc(1) by (cases opener) auto
      moreover have "k < length (tl opener)" using \<open>length ?d < length opener\<close> unfolding k by simp
      ultimately show ?thesis unfolding k using nth_mem by metis
    qed
    ultimately show False using one_esc by simp
  qed
  moreover have "\<not> prefix (?d @ opener @ rest) opener"
    using prefix_length_le [of "?d @ opener @ rest" opener] i by auto
  ultimately show "apart opener (drop i (t @ opener @ rest))" using i by (simp add: apart_def)
qed

lemma scan_sequence:
  assumes "indexOf opener t = None" "list_all (\<lambda>c. c \<noteq> BEL_UNIT \<and> c \<noteq> ESC_UNIT) payload" "osc_terminator st"
  shows "texts (fst (scan opener (t @ opener @ payload @ st @ rest))) = t @ texts (fst (scan opener rest))
    \<and> payloads (fst (scan opener (t @ opener @ payload @ st @ rest))) = payload # payloads (fst (scan opener rest))
    \<and> snd (scan opener (t @ opener @ payload @ st @ rest)) = snd (scan opener rest)"
proof -
  let ?b = "opener @ payload @ st @ rest" and ?n = "length opener + length payload"
  have "indexOf opener ?b = Some 0" using starts_esc(1) by (cases opener) (auto simp: prefix_def)
  moreover have "findTerminator (drop 0 ?b) (length opener) = Found ?n (?n + length st)"
    using terminator_plain [OF assms(2)] assms(3) by (auto simp: findTerminator_def osc_terminator_def BEL_UNIT_def ESC_UNIT_def)
  ultimately have "scan opener ?b = (Text [] # Payload payload # fst (scan opener rest), snd (scan opener rest))"
    using scan_found [of ?b 0 ?n "?n + length st"] by simp
  then show ?thesis using scan_after [OF text_before_open [OF assms(1)], of "payload @ st @ rest"] by simp
qed

lemma scan_plain: "ESC_UNIT \<notin> set t \<Longrightarrow> scan opener t = ([Text t], [])"
proof -
  assume t: "ESC_UNIT \<notin> set t"
  have "\<not> prefix opener (drop j t)" for j
  proof
    assume "prefix opener (drop j t)"
    then have "ESC_UNIT \<in> set (drop j t)" using starts_esc by (cases opener) (auto simp: prefix_def)
    then show False using t by (blast dest: in_set_dropD)
  qed
  then have "indexOf opener t = None"
    using indexOf_first [of opener t] by (cases "indexOf opener t") blast+
  moreover have "trailingOpenPrefix opener t = 0"
  proof (rule ccontr)
    assume "trailingOpenPrefix opener t \<noteq> 0"
    then have n: "0 < trailingOpenPrefix opener t" "trailingOpenPrefix opener t \<le> length t"
      "prefix (drop (length t - trailingOpenPrefix opener t) t) opener"
      using open_prefix_loop_spec [of "min (length t) (length opener - 1)" t opener] by (auto simp: trailingOpenPrefix_def)
    then obtain c cs where d: "drop (length t - trailingOpenPrefix opener t) t = c # cs"
      by (cases "drop (length t - trailingOpenPrefix opener t) t") auto
    then have "c = ESC_UNIT" using n(3) starts_esc by (cases opener) auto
    then show False using t d by (metis in_set_dropD list.set_intros(1))
  qed
  ultimately show ?thesis using starts_esc(1) by (simp add: scan.simps [of opener t] Let_def)
qed

end

type_synonym osc_piece = "units \<times> units \<times> units"

definition stream_of :: "units \<Rightarrow> osc_piece list \<Rightarrow> units \<Rightarrow> units" where
  "stream_of opener ws fin = concat (map (\<lambda>(t, p, st). t @ opener @ p @ st) ws) @ fin"

definition piece_ok :: "units \<Rightarrow> osc_piece \<Rightarrow> bool" where
  "piece_ok opener w \<longleftrightarrow>
     (case w of (t, p, st) \<Rightarrow>
        indexOf opener t = None \<and> list_all (\<lambda>c. c \<noteq> BEL_UNIT \<and> c \<noteq> ESC_UNIT) p \<and> osc_terminator st)"

context osc_opener
begin

lemma scan_stream:
  "list_all (piece_ok opener) ws \<Longrightarrow> ESC_UNIT \<notin> set fin \<Longrightarrow>
    texts (fst (scan opener (stream_of opener ws fin))) = concat (map fst ws) @ fin
    \<and> payloads (fst (scan opener (stream_of opener ws fin))) = map (fst \<circ> snd) ws
    \<and> snd (scan opener (stream_of opener ws fin)) = []"
proof (induction ws)
  case Nil
  then show ?case using scan_plain [of fin] by (simp add: stream_of_def)
next
  case (Cons w ws)
  obtain t p st where w: "w = (t, p, st)" by (cases w)
  have "stream_of opener (w # ws) fin = t @ opener @ p @ st @ stream_of opener ws fin" by (simp add: stream_of_def w)
  then show ?case using Cons scan_sequence [of t p st "stream_of opener ws fin"] by (simp add: w piece_ok_def)
qed

end

interpretation context_opener: osc_opener OPEN_3008
  by unfold_locales (simp_all add: OPEN_3008_def ESC_UNIT_def)

interpretation directory_opener: osc_opener OPEN_7
  by unfold_locales (simp_all add: OPEN_7_def ESC_UNIT_def)

section \<open>Chunks\<close>

text \<open>A scanner that is called with one chunk after the other, its carry threaded through.\<close>

fun over_chunks :: "(units \<Rightarrow> units \<Rightarrow> 'o list \<times> units) \<Rightarrow> units \<Rightarrow> units list \<Rightarrow> 'o list \<times> units" where
  "over_chunks step carry [] = ([], carry)"
| "over_chunks step carry (c # cs) =
     (case step carry c of (out, carry') \<Rightarrow> (case over_chunks step carry' cs of (out', k) \<Rightarrow> (out @ out', k)))"

text \<open>No sequence that is open between two chunks is longer than what is buffered.\<close>

definition within_carry :: "units \<Rightarrow> units list \<Rightarrow> bool" where
  "within_carry opener chunks \<longleftrightarrow>
     list_all (\<lambda>n. length (snd (scan opener (concat (take n chunks)))) \<le> MAX_CARRY) [0 ..< Suc (length chunks)]"

lemma within_carryD: "within_carry opener chunks \<Longrightarrow> n \<le> length chunks \<Longrightarrow> length (snd (scan opener (concat (take n chunks)))) \<le> MAX_CARRY"
  by (auto simp: within_carry_def list_all_iff less_Suc_eq_le)

lemma scan_carry_length: "length (snd (scan opener buf)) \<le> length buf"
proof (induction opener buf rule: scan.induct)
  case (1 opener buf)
  show ?case
  proof (cases "opener = [] \<or> indexOf opener buf = None")
    case True
    then show ?thesis by (auto simp: scan.simps [of opener buf] Let_def)
  next
    case False
    then obtain i where i: "opener \<noteq> []" "indexOf opener buf = Some i" by auto
    show ?thesis
    proof (cases "findTerminator (drop i buf) (length opener)")
      case (Found s e)
      then show ?thesis using "1.IH"(1) [OF i Found] i
        by (simp add: scan.simps [of opener buf] case_prod_unfold)
    next
      case (StrayEsc s)
      then show ?thesis using "1.IH"(2) [OF i StrayEsc] i
        by (simp add: scan.simps [of opener buf] case_prod_unfold)
    next
      case Incomplete
      then show ?thesis using i by (simp add: scan.simps [of opener buf])
    qed
  qed
qed

lemma short_within_carry: "length (concat chunks) \<le> MAX_CARRY \<Longrightarrow> within_carry opener chunks"
proof -
  assume c: "length (concat chunks) \<le> MAX_CARRY"
  have "length (concat (take n chunks)) \<le> length (concat chunks)" for n
    by (subst (2) append_take_drop_id [of n chunks, symmetric]) (simp only: concat_append length_append le_add1)
  then have "length (snd (scan opener (concat (take n chunks)))) \<le> MAX_CARRY" for n
    by (rule order_trans [OF scan_carry_length order_trans [OF _ c]])
  then show ?thesis unfolding within_carry_def list_all_iff by blast
qed

lemma scan_empty: "opener \<noteq> [] \<Longrightarrow> scan opener [] = ([Text []], [])"
  by (simp add: scan.simps [of opener "[]"] trailingOpenPrefix_def)

text \<open>
  A scanner whose step emits a function of the scanned items emits the same over any chunks, as long as
  that function respects the cut of a stream.
\<close>

locale chunked_scanner = osc_opener +
  fixes step :: "units \<Rightarrow> units \<Rightarrow> 'o list \<times> units" and emit :: "item list \<Rightarrow> 'o list"
  assumes step_scan: "length (snd (scan opener (k @ c))) \<le> MAX_CARRY \<Longrightarrow>
      step k c = (emit (fst (scan opener (k @ c))), snd (scan opener (k @ c)))"
    and step_carry: "length (snd (step k c)) \<le> MAX_CARRY"
    and emit_append: "emit (fst (scan opener (xs @ ys)))
      = emit (fst (scan opener xs)) @ emit (fst (scan opener (snd (scan opener xs) @ ys)))"
    and emit_nothing: "emit [Text []] = []"
begin

lemma chunks_from:
  assumes "\<And>n. n \<le> length chunks \<Longrightarrow> length (snd (scan opener (pre @ concat (take n chunks)))) \<le> MAX_CARRY" "chunks \<noteq> []"
  shows "over_chunks step (snd (scan opener pre)) chunks
    = (emit (fst (scan opener (snd (scan opener pre) @ concat chunks))), snd (scan opener (pre @ concat chunks)))"
  using assms
proof (induction chunks arbitrary: pre)
  case (Cons c cs)
  let ?k = "snd (scan opener pre)"
  have k2: "snd (scan opener (?k @ c)) = snd (scan opener (pre @ c))" using scan_append [of pre c] by simp
  have k: "length (snd (scan opener (pre @ c))) \<le> MAX_CARRY" using Cons.prems(1) [of 1] by simp
  then have f: "step ?k c = (emit (fst (scan opener (?k @ c))), snd (scan opener (pre @ c)))"
    using step_scan [of ?k c] k2 by simp
  show ?case
  proof (cases "cs = []")
    case True
    then show ?thesis using f by simp
  next
    case False
    have "over_chunks step (snd (scan opener (pre @ c))) cs
        = (emit (fst (scan opener (snd (scan opener (pre @ c)) @ concat cs))), snd (scan opener ((pre @ c) @ concat cs)))"
      using Cons.IH [of "pre @ c"] Cons.prems(1) [of "Suc _"] False by (simp del: append_assoc add: append_assoc [symmetric])
    then show ?thesis using f k2 emit_append [of "?k @ c" "concat cs"] by simp
  qed
qed simp

lemma chunks_whole:
  assumes "within_carry opener chunks"
  shows "over_chunks step [] chunks = (emit (fst (scan opener (concat chunks))), snd (scan opener (concat chunks)))"
  using chunks_from [of chunks "[]"] within_carryD [OF assms] scan_empty [OF starts_esc(1)] emit_nothing
  by (cases "chunks = []") simp_all

lemma chunks_carry: "length carry \<le> MAX_CARRY \<Longrightarrow> length (snd (over_chunks step carry chunks)) \<le> MAX_CARRY"
proof (induction chunks arbitrary: carry)
  case (Cons c cs)
  then show ?case using step_carry [of carry c] by (simp split: prod.splits) (metis snd_conv)
qed simp

end

lemma map_filter_append: "List.map_filter f (xs @ ys) = List.map_filter f xs @ List.map_filter f ys"
  by (simp add: map_filter_def)

interpretation context_filter: chunked_scanner OPEN_3008 osc_filter texts
proof (unfold_locales, goal_cases)
  case (1 k c)
  then show ?case by (simp add: osc_filter_def filter_loop_scan)
next
  case (2 k c)
  show ?case by (simp add: osc_filter_def split: prod.splits)
next
  case (3 xs ys)
  show ?case using context_opener.scan_append by blast
qed simp

interpretation directory_reporter: chunked_scanner OPEN_7 "osc7_feed parse" "List.map_filter parse \<circ> payloads"
  for parse
proof (unfold_locales, goal_cases)
  case (1 k c)
  then show ?case by (simp add: osc7_feed_def feed_loop_scan)
next
  case (2 k c)
  show ?case by (simp add: osc7_feed_def split: prod.splits)
next
  case (3 xs ys)
  then show ?case using directory_opener.scan_append [of xs ys] by (simp add: map_filter_append)
qed (simp add: map_filter_def)

section \<open>What the filter removes\<close>

definition plain_payload :: "units \<Rightarrow> bool" where
  "plain_payload p \<longleftrightarrow> list_all (\<lambda>c. c \<noteq> BEL_UNIT \<and> c \<noteq> ESC_UNIT) p"

text \<open>What follows interrupts a sequence: an ESC that does not start a terminator.\<close>

fun interrupted :: "units \<Rightarrow> bool" where
  "interrupted (c # d # _) = (c = ESC_UNIT \<and> d \<noteq> BACKSLASH_UNIT)"
| "interrupted _ = False"

lemma terminator_found:
  "terminator_loop i cs = Found s e \<Longrightarrow>
    \<exists>p st rest. cs = p @ st @ rest \<and> plain_payload p \<and> osc_terminator st \<and> s = i + length p \<and> e = s + length st"
proof (induction i cs rule: terminator_loop.induct)
  case (2 i c cs)
  consider "c = BEL_UNIT" | "c \<noteq> BEL_UNIT" "c = ESC_UNIT" | "c \<noteq> BEL_UNIT" "c \<noteq> ESC_UNIT" by blast
  then show ?case
  proof cases
    case 1
    then show ?thesis using "2.prems"
      by (intro exI [of _ "[]"] exI [of _ "[c]"] exI [of _ cs]) (simp add: plain_payload_def osc_terminator_def)
  next
    case 2
    then obtain d ds where "cs = BACKSLASH_UNIT # ds" using "2.prems" by (auto split: list.splits if_splits)
    then show ?thesis using "2.prems" 2
      by (intro exI [of _ "[]"] exI [of _ "[ESC_UNIT, BACKSLASH_UNIT]"] exI [of _ ds]) (simp add: plain_payload_def osc_terminator_def)
  next
    case 3
    then obtain p st rest where "cs = p @ st @ rest" "plain_payload p" "osc_terminator st" "s = i + 1 + length p" "e = s + length st"
      using 2 by auto
    then show ?thesis using 3
      by (intro exI [of _ "c # p"] exI [of _ st] exI [of _ rest]) (simp add: plain_payload_def)
  qed
qed simp

lemma terminator_stray:
  "terminator_loop i cs = StrayEsc s \<Longrightarrow> \<exists>p rest. cs = p @ rest \<and> plain_payload p \<and> interrupted rest \<and> s = i + length p"
proof (induction i cs rule: terminator_loop.induct)
  case (2 i c cs)
  consider "c = BEL_UNIT" | "c \<noteq> BEL_UNIT" "c = ESC_UNIT" | "c \<noteq> BEL_UNIT" "c \<noteq> ESC_UNIT" by blast
  then show ?case
  proof cases
    case 2
    then obtain d ds where "cs = d # ds" "d \<noteq> BACKSLASH_UNIT" using "2.prems" by (auto split: list.splits if_splits)
    then show ?thesis using "2.prems" 2
      by (intro exI [of _ "[]"] exI [of _ "c # cs"]) (simp add: plain_payload_def)
  next
    case 3
    then obtain p rest where "cs = p @ rest" "plain_payload p" "interrupted rest" "s = i + 1 + length p" using 2 by auto
    then show ?thesis using 3 by (intro exI [of _ "c # p"] exI [of _ rest]) (simp add: plain_payload_def)
  qed (use "2.prems" in simp)
qed simp

text \<open>
  \<open>strips opener xs ys later\<close>: the text \<open>ys\<close> is the text \<open>xs\<close> without some of its sequences, each of which has
  ended with a terminator or was interrupted; \<open>later\<close> is what is known to follow.
\<close>

inductive strips :: "units \<Rightarrow> units \<Rightarrow> units \<Rightarrow> units \<Rightarrow> bool" for opener where
  finished: "strips opener [] [] later"
| keep: "strips opener xs ys later \<Longrightarrow> strips opener (c # xs) (c # ys) later"
| ended: "plain_payload p \<Longrightarrow> osc_terminator st \<Longrightarrow> strips opener xs ys later \<Longrightarrow> strips opener (opener @ p @ st @ xs) ys later"
| cut_short: "plain_payload p \<Longrightarrow> interrupted (xs @ later) \<Longrightarrow> strips opener xs ys later \<Longrightarrow> strips opener (opener @ p @ xs) ys later"

lemma interrupted_append: "interrupted xs \<Longrightarrow> interrupted (xs @ ys)"
  by (cases xs rule: interrupted.cases) simp_all

lemma strips_append: "strips opener xs ys (us @ later) \<Longrightarrow> strips opener us vs later \<Longrightarrow> strips opener (xs @ us) (ys @ vs) later"
proof (induction xs ys "us @ later" rule: strips.induct)
  case (keep xs ys c)
  then show ?case by (simp add: strips.keep)
next
  case (ended p st xs ys)
  then show ?case using strips.ended [of p st opener "xs @ us" "ys @ vs" later] by simp
next
  case (cut_short p xs ys)
  then show ?case using strips.cut_short [of p "xs @ us" later opener "ys @ vs"] by simp
qed simp

lemma strips_later: "strips opener xs ys later \<Longrightarrow> strips opener xs ys (later @ more)"
proof (induction xs ys later rule: strips.induct)
  case (cut_short p xs later ys)
  then show ?case using interrupted_append [of "xs @ later" more] by (auto intro: strips.cut_short)
qed (auto intro: strips.intros)

lemma strips_same: "strips opener xs xs later"
  by (induction xs) (auto intro: strips.intros)

lemma scan_strips:
  "opener \<noteq> [] \<Longrightarrow> \<exists>x. buf = x @ snd (scan opener buf) \<and> strips opener x (texts (fst (scan opener buf))) (snd (scan opener buf))"
proof (induction opener buf rule: scan.induct)
  case (1 opener buf)
  show ?case
  proof (cases "indexOf opener buf")
    case None
    then show ?thesis using "1.prems" strips_same [of opener]
      by (intro exI [of _ "take (length buf - trailingOpenPrefix opener buf) buf"]) (simp add: scan.simps [of opener buf] Let_def)
  next
    case (Some i)
    have b: "drop i buf = opener @ drop (length opener) (drop i buf)"
    proof -
      obtain zs where "drop i buf = opener @ zs" using indexOf_first [OF Some] unfolding prefix_def by blast
      then show ?thesis by (simp del: drop_drop)
    qed
    show ?thesis
    proof (cases "findTerminator (drop i buf) (length opener)")
      case (Found s e)
      obtain p st rest where t: "drop (length opener) (drop i buf) = p @ st @ rest" "plain_payload p" "osc_terminator st"
        "s = length opener + length p" "e = s + length st"
        using terminator_found [of "length opener" "drop (length opener) (drop i buf)" s e] Found by (auto simp: findTerminator_def)
      have d: "drop i buf = opener @ p @ st @ rest" using b t(1) by simp
      then have r: "drop e (drop i buf) = rest" using t by simp
      obtain x where x: "rest = x @ snd (scan opener rest)" "strips opener x (texts (fst (scan opener rest))) (snd (scan opener rest))"
        using "1.IH"(1) [OF "1.prems" Some Found] "1.prems" unfolding r by blast
      have sc: "scan opener buf = (Text (take i buf) # Payload (drop (length opener) (take s (drop i buf))) # fst (scan opener rest), snd (scan opener rest))"
        using "1.prems" Some Found r by (simp add: scan.simps [of opener buf] case_prod_unfold del: drop_drop)
      have "strips opener (take i buf @ opener @ p @ st @ x) (take i buf @ texts (fst (scan opener rest))) (snd (scan opener rest))"
        using strips_append [OF strips_same] strips.ended [OF t(2,3) x(2)] by blast
      moreover have "buf = (take i buf @ opener @ p @ st @ x) @ snd (scan opener rest)"
        using d x(1) append_take_drop_id [of i buf] by simp
      ultimately show ?thesis unfolding sc by (simp del: append_assoc) (metis append_assoc)
    next
      case (StrayEsc s)
      obtain p rest where t: "drop (length opener) (drop i buf) = p @ rest" "plain_payload p" "interrupted rest" "s = length opener + length p"
        using terminator_stray [of "length opener" "drop (length opener) (drop i buf)" s] StrayEsc by (auto simp: findTerminator_def)
      have d: "drop i buf = opener @ p @ rest" using b t(1) by simp
      then have r: "drop s (drop i buf) = rest" using t by simp
      obtain x where x: "rest = x @ snd (scan opener rest)" "strips opener x (texts (fst (scan opener rest))) (snd (scan opener rest))"
        using "1.IH"(2) [OF "1.prems" Some StrayEsc] "1.prems" unfolding r by blast
      have sc: "scan opener buf = (Text (take i buf) # fst (scan opener rest), snd (scan opener rest))"
        using "1.prems" Some StrayEsc r by (simp add: scan.simps [of opener buf] case_prod_unfold del: drop_drop)
      have "strips opener (opener @ p @ x) (texts (fst (scan opener rest))) (snd (scan opener rest))"
        using strips.cut_short [OF t(2) _ x(2)] t(3) x(1) by simp
      then have "strips opener (take i buf @ opener @ p @ x) (take i buf @ texts (fst (scan opener rest))) (snd (scan opener rest))"
        using strips_append [OF strips_same] by blast
      moreover have "buf = (take i buf @ opener @ p @ x) @ snd (scan opener rest)"
        using d x(1) append_take_drop_id [of i buf] by simp
      ultimately show ?thesis unfolding sc by (simp del: append_assoc) (metis append_assoc)
    next
      case Incomplete
      then show ?thesis using "1.prems" Some strips_same [of opener]
        by (intro exI [of _ "take i buf"]) (simp add: scan.simps [of opener buf])
    qed
  qed
qed


text \<open>A stream of sequences that end with a terminator or, when \<open>st\<close> is empty, are interrupted by what follows.\<close>

fun pieces_ok :: "units \<Rightarrow> osc_piece list \<Rightarrow> units \<Rightarrow> bool" where
  "pieces_ok opener [] fin = (indexOf opener fin = None \<and> trailingOpenPrefix opener fin = 0)"
| "pieces_ok opener ((t, p, st) # ws) fin =
     (indexOf opener t = None \<and> plain_payload p
      \<and> (osc_terminator st \<or> st = [] \<and> interrupted (stream_of opener ws fin)) \<and> pieces_ok opener ws fin)"

context osc_opener
begin

lemma scan_interrupted:
  assumes "indexOf opener t = None" "plain_payload p" "interrupted rest"
  shows "texts (fst (scan opener (t @ opener @ p @ rest))) = t @ texts (fst (scan opener rest))
    \<and> snd (scan opener (t @ opener @ p @ rest)) = snd (scan opener rest)"
proof -
  let ?b = "opener @ p @ rest" and ?n = "length opener + length p"
  have "indexOf opener ?b = Some 0" using starts_esc(1) by (cases opener) (auto simp: prefix_def)
  moreover have "findTerminator (drop 0 ?b) (length opener) = StrayEsc ?n"
    using terminator_plain [OF assms(2) [unfolded plain_payload_def]] assms(3)
    by (cases rest rule: interrupted.cases) (auto simp: findTerminator_def BEL_UNIT_def ESC_UNIT_def)
  ultimately have "scan opener ?b = (Text [] # fst (scan opener rest), snd (scan opener rest))"
    using scan_stray [of ?b 0 ?n] by simp
  then show ?thesis using scan_after [OF text_before_open [OF assms(1)], of "p @ rest"] by simp
qed

lemma scan_pieces:
  "pieces_ok opener ws fin \<Longrightarrow>
    texts (fst (scan opener (stream_of opener ws fin))) = concat (map fst ws) @ fin \<and> snd (scan opener (stream_of opener ws fin)) = []"
proof (induction ws)
  case Nil
  then show ?case using starts_esc(1) by (simp add: stream_of_def scan.simps [of opener fin] Let_def)
next
  case (Cons w ws)
  obtain t p st where w: "w = (t, p, st)" by (cases w)
  have s: "stream_of opener (w # ws) fin = t @ opener @ p @ st @ stream_of opener ws fin" by (simp add: stream_of_def w)
  show ?case
  proof (cases "osc_terminator st")
    case True
    then show ?thesis using Cons s scan_sequence [of t p st "stream_of opener ws fin"] by (simp add: w plain_payload_def)
  next
    case False
    then show ?thesis using Cons s scan_interrupted [of t p "stream_of opener ws fin"] by (simp add: w)
  qed
qed

end

lemma osc_filter_strips:
  "\<exists>x. k @ c = x @ snd (osc_filter k c) \<and> strips OPEN_3008 x (fst (osc_filter k c)) (snd (osc_filter k c))"
proof -
  have "OPEN_3008 \<noteq> []" by (simp add: OPEN_3008_def)
  then obtain x where x: "k @ c = x @ snd (scan OPEN_3008 (k @ c))"
    "strips OPEN_3008 x (texts (fst (scan OPEN_3008 (k @ c)))) (snd (scan OPEN_3008 (k @ c)))"
    using scan_strips [of OPEN_3008 "k @ c"] by blast
  show ?thesis
  proof (cases "MAX_CARRY < length (snd (scan OPEN_3008 (k @ c)))")
    case True
    have "strips OPEN_3008 (x @ snd (scan OPEN_3008 (k @ c)))
        (texts (fst (scan OPEN_3008 (k @ c))) @ snd (scan OPEN_3008 (k @ c))) []"
      by (rule strips_append) (simp_all add: x(2) strips_same)
    with True x(1) show ?thesis by (simp add: osc_filter_def filter_loop_scan)
  next
    case False
    with x show ?thesis by (auto simp: osc_filter_def filter_loop_scan)
  qed
qed

lemma over_chunks_strips:
  "\<exists>x. carry @ concat chunks = x @ snd (over_chunks osc_filter carry chunks)
    \<and> strips OPEN_3008 x (fst (over_chunks osc_filter carry chunks)) (snd (over_chunks osc_filter carry chunks))"
proof (induction chunks arbitrary: carry)
  case Nil
  show ?case by (simp add: strips.finished)
next
  case (Cons c cs)
  obtain o1 k1 where f: "osc_filter carry c = (o1, k1)" by fastforce
  obtain o2 k2 where g: "over_chunks osc_filter k1 cs = (o2, k2)" by fastforce
  obtain x where x: "carry @ c = x @ k1" "strips OPEN_3008 x o1 k1" using osc_filter_strips [of carry c] f by auto
  obtain y where y: "k1 @ concat cs = y @ k2" "strips OPEN_3008 y o2 k2" using Cons.IH [of k1] g by auto
  have "strips OPEN_3008 x o1 (y @ k2)" using strips_later [OF x(2), of "concat cs"] y(1) by simp
  then have "strips OPEN_3008 (x @ y) (o1 @ o2) k2" using y(2) by (rule strips_append)
  moreover have "carry @ concat (c # cs) = (x @ y) @ k2" using x(1) y(1) by (simp flip: append_assoc) (simp only: append_assoc)
  ultimately show ?case using f g by auto
qed

section \<open>Properties\<close>



text \<open>A sequence longer than \<open>MAX_CARRY\<close> units before its terminator arrives is let through as a whole.\<close>

lemma long_sequence_passes:
  assumes "plain_payload p" "MAX_CARRY < length (OPEN_3008 @ p)"
  shows "over_chunks osc_filter [] [OPEN_3008 @ p, [BEL_UNIT]] = (OPEN_3008 @ p @ [BEL_UNIT], [])"
proof -
  have "indexOf OPEN_3008 (OPEN_3008 @ p) = Some 0" by (simp add: OPEN_3008_def)
  moreover have "findTerminator (OPEN_3008 @ p) (length OPEN_3008) = Incomplete"
    using context_opener.terminator_plain [of p "length OPEN_3008" "[]"] assms(1) by (simp add: findTerminator_def plain_payload_def)
  ultimately have "scan OPEN_3008 (OPEN_3008 @ p) = ([Text []], OPEN_3008 @ p)"
    by (simp add: scan.simps [of OPEN_3008 "OPEN_3008 @ p"]) (simp add: OPEN_3008_def)
  moreover have "scan OPEN_3008 [BEL_UNIT] = ([Text [BEL_UNIT]], [])"
    by (rule context_opener.scan_plain) (simp add: BEL_UNIT_def ESC_UNIT_def)
  ultimately show ?thesis using assms(2) by (simp add: osc_filter_def filter_loop_scan)
qed

end
