(* ===== verification/Osc_Directory.thy ===== *)
theory Osc_Directory
  imports Osc_Streams
begin

text \<open>
  The validation of a reported directory, \<open>parsePayload\<close> of
  \<open>src/src/services/terminal/osc7Parser.ts\<close>, and the parser as a whole. The URL parser of the platform is
  a parameter; \<open>decodeURIComponent\<close> and \<open>path.posix.normalize\<close> are written out over UTF-16 code units.
\<close>

section \<open>Decoding\<close>

definition hex_unit :: "nat \<Rightarrow> nat option" where
  "hex_unit c =
     (if 48 \<le> c \<and> c \<le> 57 then Some (c - 48)
      else if 65 \<le> c \<and> c \<le> 70 then Some (c - 55)
      else if 97 \<le> c \<and> c \<le> 102 then Some (c - 87)
      else None)"

text \<open>One escape \<open>%hh\<close> at the front of the text.\<close>

fun percent_byte :: "units \<Rightarrow> (nat \<times> units) option" where
  "percent_byte (p # h # l # cs) =
     (if p = 37 then
        (case (hex_unit h, hex_unit l) of
           (Some a, Some b) \<Rightarrow> Some (16 * a + b, cs)
         | _ \<Rightarrow> None)
      else None)"
| "percent_byte _ = None"

text \<open>The continuation bytes of a code point: its value so far, how many are due.\<close>

fun continuation :: "nat \<Rightarrow> nat \<Rightarrow> units \<Rightarrow> (nat \<times> units) option" where
  "continuation v 0 cs = Some (v, cs)"
| "continuation v (Suc n) cs =
     (case percent_byte cs of
        None \<Rightarrow> None
      | Some (b, rest) \<Rightarrow> if 128 \<le> b \<and> b < 192 then continuation (64 * v + (b - 128)) n rest else None)"

text \<open>A code point of at least two bytes is the shortest of its value and no surrogate.\<close>

definition code_point_ok :: "nat \<Rightarrow> nat \<Rightarrow> bool" where
  "code_point_ok n v \<longleftrightarrow>
     (n = 1 \<longrightarrow> 128 \<le> v) \<and> (n = 2 \<longrightarrow> 2048 \<le> v \<and> \<not> (55296 \<le> v \<and> v < 57344)) \<and> (n = 3 \<longrightarrow> 65536 \<le> v \<and> v < 1114112)"

definition utf16 :: "nat \<Rightarrow> units" where
  "utf16 v = (if v < 65536 then [v] else [55296 + (v - 65536) div 1024, 56320 + (v - 65536) mod 1024])"

definition percent_decode :: "units \<Rightarrow> (units \<times> units) option" where
  "percent_decode cs =
     (case percent_byte cs of
        None \<Rightarrow> None
      | Some (b, rest) \<Rightarrow>
          if b < 128 then Some ([b], rest)
          else
            (case (if b < 192 then None else if b < 224 then Some (1, b - 192)
                   else if b < 240 then Some (2, b - 224) else if b < 248 then Some (3, b - 240) else None) of
               None \<Rightarrow> None
             | Some (n, v) \<Rightarrow>
                 (case continuation v n rest of
                    None \<Rightarrow> None
                  | Some (w, rest') \<Rightarrow> if code_point_ok n w then Some (utf16 w, rest') else None)))"

lemma percent_byte_shorter: "percent_byte cs = Some (b, rest) \<Longrightarrow> length rest < length cs"
  by (induction cs rule: percent_byte.induct) (auto split: if_splits option.splits)

lemma continuation_shorter: "continuation v n cs = Some (w, rest) \<Longrightarrow> length rest \<le> length cs"
proof (induction n arbitrary: v cs)
  case (Suc n)
  then show ?case
    by (force split: option.splits prod.splits if_splits dest: percent_byte_shorter)
qed simp

lemma percent_decode_shorter: "percent_decode cs = Some (us, rest) \<Longrightarrow> length rest < length cs"
  by (auto simp: percent_decode_def split: option.splits if_splits prod.splits
      dest!: percent_byte_shorter continuation_shorter)

text \<open>\<open>decodeURIComponent\<close>: nothing for what it throws on.\<close>

function decodeURIComponent :: "units \<Rightarrow> units option" where
  "decodeURIComponent [] = Some []"
| "decodeURIComponent (c # cs) =
     (if c = 37 then
        (case percent_decode (c # cs) of
           None \<Rightarrow> None
         | Some (us, rest) \<Rightarrow> map_option ((@) us) (decodeURIComponent rest))
      else map_option ((#) c) (decodeURIComponent cs))"
  by pat_completeness auto

termination
  by (relation "measure length") (auto dest: percent_decode_shorter)

section \<open>Normalising\<close>

text \<open>\<open>normalizeString\<close> of the path module: the components kept so far, the last one first.\<close>

fun normalize_components :: "bool \<Rightarrow> units list \<Rightarrow> units list \<Rightarrow> units list" where
  "normalize_components allowAbove kept [] = rev kept"
| "normalize_components allowAbove kept (w # ws) =
     (if w = [] \<or> w = [DOT] then normalize_components allowAbove kept ws
      else if w = [DOT, DOT] then
        (if kept \<noteq> [] \<and> hd kept \<noteq> [DOT, DOT] then normalize_components allowAbove (tl kept) ws
         else if allowAbove then normalize_components allowAbove (w # kept) ws
         else normalize_components allowAbove kept ws)
      else normalize_components allowAbove (w # kept) ws)"

definition posix_normalize :: "units \<Rightarrow> units" where
  "posix_normalize p =
     (if p = [] then [DOT]
      else
        (let absolute = (hd p = SLASH);
             trailing = (last p = SLASH);
             path = join_with SLASH (normalize_components (\<not> absolute) [] (split_on SLASH p))
         in if path = [] then (if absolute then [SLASH] else if trailing then [DOT, SLASH] else [DOT])
            else (let path = (if trailing then path @ [SLASH] else path) in if absolute then SLASH # path else path)))"

definition normalizeAbsolutePosixPath :: "units \<Rightarrow> units option" where
  "normalizeAbsolutePosixPath candidate =
     (if candidate = [] \<or> 0 \<in> set candidate then None
      else
        (let normalized = posix_normalize candidate
         in if \<not> prefix [SLASH] normalized then None else Some normalized))"

section \<open>The payload\<close>

record url =
  protocol :: units
  pathname :: units
  hostname :: units

record osc7_match =
  match_path :: units
  match_authority :: units

definition MAX_PATH_LENGTH :: nat where "MAX_PATH_LENGTH = 4096"

text \<open>\<open>CONTROL_CHAR_RE.test\<close>.\<close>

definition has_control :: "units \<Rightarrow> bool" where
  "has_control s \<longleftrightarrow> list_ex (\<lambda>c. c \<le> 31) s"

definition FILE_PROTOCOL :: units where "FILE_PROTOCOL = [102, 105, 108, 101, 58]"

text \<open>\<open>parsePayload\<close>; a throw is no match, so it is \<open>safeParsePayload\<close> too.\<close>

definition parsePayload :: "(units \<Rightarrow> url option) \<Rightarrow> units \<Rightarrow> osc7_match option" where
  "parsePayload new_URL raw =
     (if has_control raw then None
      else
        (case new_URL raw of
           None \<Rightarrow> None
         | Some u \<Rightarrow>
             if protocol u \<noteq> FILE_PROTOCOL then None
             else
               (case decodeURIComponent (pathname u) of
                  None \<Rightarrow> None
                | Some decoded \<Rightarrow>
                    if MAX_PATH_LENGTH < length decoded then None
                    else if has_control decoded then None
                    else
                      (case normalizeAbsolutePosixPath decoded of
                         None \<Rightarrow> None
                       | Some normalized \<Rightarrow> Some \<lparr>match_path = normalized, match_authority = hostname u\<rparr>))))"

section \<open>Reported paths\<close>

text \<open>A component of a normalised absolute path.\<close>

definition plain_part :: "units \<Rightarrow> bool" where
  "plain_part w \<longleftrightarrow> w \<noteq> [] \<and> w \<noteq> [DOT] \<and> w \<noteq> [DOT, DOT] \<and> SLASH \<notin> set w"

lemma normalize_plain_parts:
  "list_all (\<lambda>w. SLASH \<notin> set w) ws \<Longrightarrow> list_all plain_part kept \<Longrightarrow> list_all plain_part (normalize_components False kept ws)"
proof (induction "False" kept ws rule: normalize_components.induct)
  case (2 kept w ws)
  then show ?case by (cases kept) (auto simp: plain_part_def)
qed simp

lemma normalize_keeps: "set (normalize_components allowAbove kept ws) \<subseteq> set kept \<union> set ws"
proof (induction allowAbove kept ws rule: normalize_components.induct)
  case (2 allowAbove kept w ws)
  then show ?case by (cases kept) auto
qed simp

lemma normalize_lengths:
  "length (concat (normalize_components allowAbove kept ws)) + length (normalize_components allowAbove kept ws)
    \<le> length (concat kept) + length kept + length (concat ws) + length (filter (\<lambda>w. w \<noteq> []) ws)"
proof (induction allowAbove kept ws rule: normalize_components.induct)
  case (1 allowAbove kept)
  show ?case by (simp add: length_concat sum_list_rev flip: rev_map)
next
  case (2 allowAbove kept w ws)
  then show ?case by (cases kept) auto
qed

text \<open>A normalised path is absolute exactly when the path was.\<close>

lemma normalize_slash_free:
  "list_all (\<lambda>w. SLASH \<notin> set w) ws \<Longrightarrow> list_all (\<lambda>w. w \<noteq> [] \<and> SLASH \<notin> set w) kept \<Longrightarrow>
    list_all (\<lambda>w. w \<noteq> [] \<and> SLASH \<notin> set w) (normalize_components allowAbove kept ws)"
proof (induction allowAbove kept ws rule: normalize_components.induct)
  case (2 allowAbove kept w ws)
  then show ?case by (cases kept) (auto simp: DOT_def SLASH_def)
qed simp

lemma join_head: "list_all (\<lambda>w. w \<noteq> [] \<and> SLASH \<notin> set w) ws \<Longrightarrow> \<not> prefix [SLASH] (join_with SLASH ws @ sep) \<or> ws = []"
  by (cases ws; cases "tl ws"; cases "hd ws") (auto simp: prefix_def)

definition normal_form :: "units \<Rightarrow> bool" where
  "normal_form p \<longleftrightarrow>
     (case p of
        [] \<Rightarrow> False
      | c # q \<Rightarrow> c = SLASH \<and> (q = [] \<or> list_all plain_part (split_on SLASH (if last q = SLASH then butlast q else q))))"

lemma split_plain: "list_all plain_part ws \<Longrightarrow> ws \<noteq> [] \<Longrightarrow> split_on SLASH (join_with SLASH ws) = ws"
  by (rule split_joined) (auto simp: plain_part_def list_all_iff)

lemma join_last: "list_all plain_part ws \<Longrightarrow> ws \<noteq> [] \<Longrightarrow> join_with SLASH ws \<noteq> [] \<and> last (join_with SLASH ws) \<noteq> SLASH"
proof (induction SLASH ws rule: join_with.induct)
  case (2 w)
  then show ?case by (simp add: plain_part_def) (metis last_in_set)
qed auto

lemma posix_normalize_hd:
  assumes "p \<noteq> []" "prefix [SLASH] (posix_normalize p)"
  shows "hd p = SLASH"
proof (rule ccontr)
  assume n: "hd p \<noteq> SLASH"
  let ?ws = "normalize_components True [] (split_on SLASH p)"
  have free: "list_all (\<lambda>w. w \<noteq> [] \<and> SLASH \<notin> set w) ?ws"
    using normalize_slash_free [OF split_parts, of "[]"] by simp
  have j: "join_with SLASH ?ws \<noteq> []" using assms n by (auto simp: posix_normalize_def DOT_def SLASH_def split: if_splits)
  then have "?ws \<noteq> []" by auto
  then show False using assms n join_head [OF free, of "[]"] join_head [OF free, of "[SLASH]"] j
    by (auto simp: posix_normalize_def Let_def split: if_splits)
qed

lemma posix_normalize_absolute:
  assumes "prefix [SLASH] (posix_normalize p)"
  shows "normal_form (posix_normalize p)"
proof -
  let ?ws = "normalize_components False [] (split_on SLASH p)"
  have p: "p \<noteq> []" using assms by (auto simp: posix_normalize_def DOT_def SLASH_def)
  have a: "hd p = SLASH" by (rule posix_normalize_hd [OF p assms])
  have plain: "list_all plain_part ?ws" using normalize_plain_parts [OF split_parts, of "[]"] by simp
  show ?thesis
  proof (cases "?ws = []")
    case True
    then show ?thesis using p a by (simp add: posix_normalize_def normal_form_def)
  next
    case False
    then show ?thesis using p a join_last [OF plain] split_plain [OF plain] plain
      by (auto simp: posix_normalize_def normal_form_def Let_def)
  qed
qed

lemma posix_normalize_set: "set (posix_normalize p) \<subseteq> {SLASH, DOT} \<union> set p"
proof -
  have "set (join_with SLASH (normalize_components b [] (split_on SLASH p))) \<subseteq> insert SLASH (set p)" for b
    using join_set [of SLASH "normalize_components b [] (split_on SLASH p)"] normalize_keeps [of b "[]" "split_on SLASH p"] split_set [of _ SLASH p]
    by fastforce
  from this [of False] this [of True] show ?thesis
    by (cases "hd p = SLASH") (auto simp: posix_normalize_def Let_def)
qed

lemma split_trailing: "q \<noteq> [] \<Longrightarrow> last q = s \<Longrightarrow> [] \<in> set (split_on s q)"
  using split_snoc [of s "butlast q"] by auto

lemma posix_normalize_length: "p \<noteq> [] \<Longrightarrow> hd p = SLASH \<Longrightarrow> length (posix_normalize p) \<le> length p"
proof -
  assume p: "p \<noteq> []" "hd p = SLASH"
  then obtain q where q: "p = SLASH # q" by (cases p) auto
  let ?ws = "normalize_components False [] (split_on SLASH p)"
  have s: "split_on SLASH p = [] # split_on SLASH q" using q by simp
  have n: "length (concat ?ws) + length ?ws \<le> length (concat (split_on SLASH q)) + length (filter (\<lambda>w. w \<noteq> []) (split_on SLASH q))"
    using normalize_lengths [of False "[]" "split_on SLASH q"] s by simp
  show ?thesis
  proof (cases "?ws = []")
    case True
    then show ?thesis using p q by (simp add: posix_normalize_def)
  next
    case False
    have lt: "length (filter (\<lambda>w. w \<noteq> []) (split_on SLASH q)) < length (split_on SLASH q)" if "q \<noteq> []" "last q = SLASH"
      by (rule length_filter_less [OF split_trailing [OF that]]) simp
    have j: "length (join_with SLASH ?ws) + 1 = length (concat ?ws) + length ?ws" using join_length [OF False] .
    have l: "posix_normalize p = SLASH # join_with SLASH ?ws @ (if last p = SLASH then [SLASH] else []) \<or> posix_normalize p = [SLASH]"
      using p q by (auto simp: posix_normalize_def Let_def)
    have "length (posix_normalize p) \<le> Suc (length (join_with SLASH ?ws)) + (if last p = SLASH then 1 else 0)" using l by auto
    moreover have "(if last p = SLASH then 1 else 0) + length (filter (\<lambda>w. w \<noteq> []) (split_on SLASH q)) \<le> length (split_on SLASH q)"
    proof (cases "last p = SLASH")
      case True
      moreover have "q \<noteq> []" using False q by auto
      ultimately show ?thesis using lt q by simp
    qed simp
    moreover have "length p = Suc (length q)" using q by simp
    ultimately show ?thesis using n j split_length [of SLASH q] by linarith
  qed
qed

lemma parsePayloadD:
  assumes "parsePayload new_URL raw = Some m"
  shows "normal_form (match_path m)" "\<not> has_control (match_path m)" "length (match_path m) \<le> MAX_PATH_LENGTH"
proof -
  obtain decoded where d: "length decoded \<le> MAX_PATH_LENGTH" "\<not> has_control decoded"
      "decoded \<noteq> []" "prefix [SLASH] (posix_normalize decoded)" "match_path m = posix_normalize decoded"
    using assms by (auto simp: parsePayload_def normalizeAbsolutePosixPath_def Let_def not_less split: if_splits option.splits)
  show n: "normal_form (match_path m)" using posix_normalize_absolute d by simp
  have "c \<in> {SLASH, DOT} \<or> c \<in> set decoded" if "c \<in> set (match_path m)" for c
    using posix_normalize_set [of decoded] that d(5) by auto
  then show "\<not> has_control (match_path m)" using d(2) by (fastforce simp: has_control_def list_ex_iff SLASH_def DOT_def)
  show "length (match_path m) \<le> MAX_PATH_LENGTH"
    using posix_normalize_length [OF d(3) posix_normalize_hd [OF d(3,4)]] d(1,5) by simp
qed

section \<open>Properties\<close>

text \<open>
  The directory parser reports the directories of a stream in order, however the stream is cut into
  chunks: the matches over all chunks are those of the complete sequences, each once, the ones that do
  not validate left out, and nothing is held back at the end. No sequence is interrupted by another escape
  sequence, and none that is open at the end of a chunk is longer than \<open>MAX_CARRY\<close> units.
\<close>

theorem directory_reports_stream:
  assumes "list_all (piece_ok OPEN_7) ws" "ESC_UNIT \<notin> set fin"
    and "concat chunks = stream_of OPEN_7 ws fin" "within_carry OPEN_7 chunks"
  shows "over_chunks (osc7_feed (parsePayload new_URL)) [] chunks
    = (List.map_filter (parsePayload new_URL) (map (\<lambda>(_, payload, _). payload) ws), [])"
  using directory_opener.scan_stream [OF assms(1,2)] directory_reporter.chunks_whole [OF assms(4), of "parsePayload new_URL"] assms(3)
  by (simp add: comp_def case_prod_unfold)

text \<open>A report of \<open>/a\<close> that is cut inside its opener, and one that is no path.\<close>

definition example_URL :: "units \<Rightarrow> url option" where
  "example_URL raw = (if raw = [] then None else Some \<lparr>protocol = FILE_PROTOCOL, pathname = raw, hostname = []\<rparr>)"

theorem directory_reports_stream_witness:
  "over_chunks (osc7_feed (parsePayload example_URL)) [] [[65, 27, 93], [55, 59, 47, 97, 47, 46, 7, 27, 93, 55, 59, 7, 66]]
    = ([\<lparr>match_path = [47, 97], match_authority = []\<rparr>], [])"
proof -
  let ?ws = "[([65], [47, 97, 47, 46], [7]), ([], [], [7])] :: osc_piece list"
    and ?chunks = "[[65, 27, 93], [55, 59, 47, 97, 47, 46, 7, 27, 93, 55, 59, 7, 66]] :: units list"
  have "list_all (piece_ok OPEN_7) ?ws"
    by (simp add: piece_ok_def osc_terminator_def OPEN_7_def BEL_UNIT_def ESC_UNIT_def)
  moreover have "concat ?chunks = stream_of OPEN_7 ?ws [66]" by (simp add: stream_of_def OPEN_7_def)
  moreover have "within_carry OPEN_7 ?chunks" by (rule short_within_carry) (simp add: MAX_CARRY_def)
  moreover have "ESC_UNIT \<notin> set [66]" by (simp add: ESC_UNIT_def)
  moreover have "parsePayload example_URL [47, 97, 47, 46] = Some \<lparr>match_path = [47, 97], match_authority = []\<rparr>"
    "parsePayload example_URL [] = None"
    by (simp_all add: parsePayload_def example_URL_def has_control_def MAX_PATH_LENGTH_def normalizeAbsolutePosixPath_def
        posix_normalize_def SLASH_def DOT_def Let_def)
  ultimately show ?thesis using directory_reports_stream [of ?ws "[66]" ?chunks example_URL] by (simp add: map_filter_def)
qed

text \<open>
  C33. Whatever bytes a remote host sends and whatever the URL parser makes of them, every reported path
  is an absolute path in normal form (no empty, \<open>.\<close> or \<open>..\<close> component), has no control character and
  at most \<open>MAX_PATH_LENGTH\<close> units; and at most \<open>MAX_CARRY\<close> units are held back.
\<close>

theorem directory_reports_safe:
  "list_all (\<lambda>m. normal_form (match_path m) \<and> \<not> has_control (match_path m) \<and> length (match_path m) \<le> MAX_PATH_LENGTH)
     (fst (over_chunks (osc7_feed (parsePayload new_URL)) [] chunks))
   \<and> length (snd (over_chunks (osc7_feed (parsePayload new_URL)) [] chunks)) \<le> MAX_CARRY"
  (is "list_all ?ok _ \<and> _")
proof -
  have f: "list_all ?ok (fst (osc7_feed (parsePayload new_URL) k c))" for k c
    by (auto simp: osc7_feed_def list_all_iff map_filter_def parsePayloadD split: prod.splits)
  have "list_all ?ok (fst (over_chunks (osc7_feed (parsePayload new_URL)) k chunks))" for k
  proof (induction chunks arbitrary: k)
    case (Cons c cs)
    show ?case using f [of k c] Cons.IH [of "snd (osc7_feed (parsePayload new_URL) k c)"] by (simp add: case_prod_unfold)
  qed simp
  then show ?thesis using directory_reporter.chunks_carry [of "[]" "parsePayload new_URL" chunks] by simp
qed

end
