(* ===== verification/Cwd_Tracker.thy ===== *)
theory Cwd_Tracker
  imports Prelude
begin

text \<open>
  The tracker of the working directories of terminal sessions,
  \<open>src/src/services/terminal/cwdTracker.ts\<close>: what is recorded, when listeners are told, the shutdown of
  a session that floods. Times are the caller's millisecond counts. A pending flush is held with the time
  at which it is due; a flush runs as a step of its own. Every state that leaves the map has its flush
  cleared first, so a flush always belongs to a state of the map.
\<close>

datatype cwd_source = Osc7 | Heuristic | Probe

record cwd_record =
  sessionId :: string
  serverId :: string
  cwd :: string
  source :: cwd_source
  authority :: string
  updatedAt :: int

definition CWD_STALE_MS :: int where "CWD_STALE_MS = 60000"
definition CWD_MIN_INTERVAL_MS :: int where "CWD_MIN_INTERVAL_MS = 300"
definition CWD_BURST_RATE_PER_SEC :: nat where "CWD_BURST_RATE_PER_SEC = 20"
definition CWD_BURST_SUSTAIN_MS :: nat where "CWD_BURST_SUSTAIN_MS = 3000"
definition BURST_TRIP_THRESHOLD :: nat where
  "BURST_TRIP_THRESHOLD = CWD_BURST_RATE_PER_SEC * CWD_BURST_SUSTAIN_MS div 1000"

record cwd_session =
  tracked :: cwd_record
  authorityStale :: bool
  disabled :: bool
  burstTimestamps :: "int list"
  lastFiredAt :: int
  pendingFlush :: "int option"

text \<open>A call of \<open>fireChange\<close>: who was called with what, and when in the caller's time.\<close>

record 'l delivery =
  recipients :: "'l list"
  delivered :: cwd_record
  delivered_at :: int
  at_shutdown :: bool

record 'l tracker =
  cwd_sessions :: "string \<Rightarrow> cwd_session option"
  cwd_listeners :: "'l list"
  deliveries :: "'l delivery list"

definition new_tracker :: "'l tracker" where
  "new_tracker = \<lparr>cwd_sessions = Map.empty, cwd_listeners = [], deliveries = []\<rparr>"

section \<open>Operations\<close>

definition set_session :: "string \<Rightarrow> cwd_session \<Rightarrow> 'l tracker \<Rightarrow> 'l tracker" where
  "set_session s st t = t\<lparr>cwd_sessions := (cwd_sessions t)(s \<mapsto> st)\<rparr>"

definition fireChange :: "cwd_session \<Rightarrow> 'l tracker \<Rightarrow> 'l tracker" where
  "fireChange st t =
     t\<lparr>deliveries := deliveries t @
        [\<lparr>recipients = cwd_listeners t, delivered = tracked st, delivered_at = lastFiredAt st, at_shutdown = disabled st\<rparr>]\<rparr>"

definition clearPendingFlush :: "cwd_session \<Rightarrow> cwd_session" where
  "clearPendingFlush st = st\<lparr>pendingFlush := None\<rparr>"

text \<open>\<open>schedulePendingFlush(state, delayMs)\<close> at the time \<open>now\<close>.\<close>

definition schedulePendingFlush :: "cwd_session \<Rightarrow> int \<Rightarrow> int \<Rightarrow> cwd_session" where
  "schedulePendingFlush st now delayMs =
     (case pendingFlush st of Some _ \<Rightarrow> st | None \<Rightarrow> st\<lparr>pendingFlush := Some (now + delayMs)\<rparr>)"

text \<open>The callback of the timer.\<close>

definition run_flush :: "string \<Rightarrow> 'l tracker \<Rightarrow> 'l tracker" where
  "run_flush s t =
     (case cwd_sessions t s of
        None \<Rightarrow> t
      | Some st \<Rightarrow>
          (case pendingFlush st of
             None \<Rightarrow> t
           | Some _ \<Rightarrow>
               (let st = st\<lparr>pendingFlush := None\<rparr>
                in if disabled st then set_session s st t
                   else
                     (let st = st\<lparr>lastFiredAt := lastFiredAt st + CWD_MIN_INTERVAL_MS\<rparr>
                      in fireChange st (set_session s st t)))))"

text \<open>The timestamps after the loop that drops those before the cutoff.\<close>

definition burst_after :: "cwd_session option \<Rightarrow> int \<Rightarrow> int list" where
  "burst_after existing now =
     dropWhile (\<lambda>x. x < now - int CWD_BURST_SUSTAIN_MS)
       ((case existing of None \<Rightarrow> [] | Some st \<Rightarrow> burstTimestamps st) @ [now])"

definition report_cwd ::
  "string \<Rightarrow> string \<Rightarrow> string \<Rightarrow> cwd_source \<Rightarrow> string \<Rightarrow> int \<Rightarrow> 'l tracker \<Rightarrow> bool \<times> 'l tracker" where
  "report_cwd sId srvId dir src auth now t =
     (let existing = cwd_sessions t sId;
          fresh = \<lparr>sessionId = sId, serverId = srvId, cwd = dir, source = src, authority = auth, updatedAt = now\<rparr>
      in if (case existing of None \<Rightarrow> False | Some st \<Rightarrow> disabled st) then (False, t)
         else
           (let burst = burst_after existing now
            in if BURST_TRIP_THRESHOLD < length burst then
                 (let st = \<lparr>tracked = (case existing of None \<Rightarrow> fresh | Some e \<Rightarrow> tracked e),
                            authorityStale = (case existing of None \<Rightarrow> False | Some e \<Rightarrow> authorityStale e),
                            disabled = True, burstTimestamps = burst, lastFiredAt = now, pendingFlush = None\<rparr>
                  in (False, fireChange st (set_session sId st t)))
               else
                 (case existing of
                    None \<Rightarrow>
                      (let st = \<lparr>tracked = fresh, authorityStale = False, disabled = False, burstTimestamps = burst,
                                 lastFiredAt = now, pendingFlush = None\<rparr>
                       in (True, fireChange st (set_session sId st t)))
                  | Some e \<Rightarrow>
                      if cwd (tracked e) = dir \<and> authority (tracked e) = auth then
                        (False, set_session sId
                           (e\<lparr>tracked := (tracked e)\<lparr>source := src, updatedAt := now\<rparr>, burstTimestamps := burst\<rparr>) t)
                      else
                        (let st = e\<lparr>tracked := fresh, burstTimestamps := burst,
                                    authorityStale := authorityStale e \<or> authority (tracked e) \<noteq> auth\<rparr>;
                             elapsedSinceFire = now - lastFiredAt e
                         in if CWD_MIN_INTERVAL_MS \<le> elapsedSinceFire then
                              (let st = (clearPendingFlush st)\<lparr>lastFiredAt := now\<rparr>
                               in (True, fireChange st (set_session sId st t)))
                            else
                              (False, set_session sId
                                 (schedulePendingFlush st now (CWD_MIN_INTERVAL_MS - elapsedSinceFire)) t)))))"

definition getRecord :: "string \<Rightarrow> 'l tracker \<Rightarrow> cwd_record option" where
  "getRecord s t = map_option tracked (cwd_sessions t s)"

definition isDisabled :: "string \<Rightarrow> 'l tracker \<Rightarrow> bool" where
  "isDisabled s t = (case cwd_sessions t s of None \<Rightarrow> False | Some st \<Rightarrow> disabled st)"

definition reenable :: "string \<Rightarrow> 'l tracker \<Rightarrow> 'l tracker" where
  "reenable s t =
     (case cwd_sessions t s of
        None \<Rightarrow> t
      | Some st \<Rightarrow> set_session s ((clearPendingFlush st)\<lparr>disabled := False, burstTimestamps := []\<rparr>) t)"

definition isStale :: "string \<Rightarrow> int \<Rightarrow> int option \<Rightarrow> 'l tracker \<Rightarrow> bool" where
  "isStale s now lastOutputAt t =
     (case cwd_sessions t s of
        None \<Rightarrow> False
      | Some st \<Rightarrow>
          if authorityStale st then True
          else
            (case lastOutputAt of
               None \<Rightarrow> False
             | Some out \<Rightarrow>
                 if out \<le> updatedAt (tracked st) then False else CWD_STALE_MS < now - updatedAt (tracked st)))"

definition clear_session :: "string \<Rightarrow> 'l tracker \<Rightarrow> 'l tracker" where
  "clear_session s t = t\<lparr>cwd_sessions := (cwd_sessions t)(s := None)\<rparr>"

text \<open>A \<open>Set\<close> of listeners in the order of insertion.\<close>

definition onDidChangeCwd :: "'l \<Rightarrow> 'l tracker \<Rightarrow> 'l tracker" where
  "onDidChangeCwd l t = t\<lparr>cwd_listeners := (if l \<in> set (cwd_listeners t) then cwd_listeners t else cwd_listeners t @ [l])\<rparr>"

definition unsubscribe_cwd :: "'l \<Rightarrow> 'l tracker \<Rightarrow> 'l tracker" where
  "unsubscribe_cwd l t = t\<lparr>cwd_listeners := filter (\<lambda>x. x \<noteq> l) (cwd_listeners t)\<rparr>"

definition dispose_tracker :: "'l tracker \<Rightarrow> 'l tracker" where
  "dispose_tracker t = t\<lparr>cwd_sessions := (\<lambda>s. map_option clearPendingFlush (cwd_sessions t s))\<rparr>"

section \<open>Runs\<close>

datatype 'l tracker_op =
    Report string string string cwd_source string int
  | Flush string
  | Reenable string
  | ClearSession string
  | Subscribe 'l
  | Unsubscribe 'l
  | DisposeTracker

fun tracker_step :: "'l tracker_op \<Rightarrow> 'l tracker \<Rightarrow> 'l tracker" where
  "tracker_step (Report s srv dir src auth now) t = snd (report_cwd s srv dir src auth now t)"
| "tracker_step (Flush s) t = run_flush s t"
| "tracker_step (Reenable s) t = reenable s t"
| "tracker_step (ClearSession s) t = clear_session s t"
| "tracker_step (Subscribe l) t = onDidChangeCwd l t"
| "tracker_step (Unsubscribe l) t = unsubscribe_cwd l t"
| "tracker_step DisposeTracker t = dispose_tracker t"

definition tracker_run :: "'l tracker_op list \<Rightarrow> 'l tracker" where
  "tracker_run ops = fold tracker_step ops new_tracker"

text \<open>The deliveries of a session.\<close>

definition deliveries_of :: "string \<Rightarrow> 'l tracker \<Rightarrow> 'l delivery list" where
  "deliveries_of s t = filter (\<lambda>d. sessionId (delivered d) = s) (deliveries t)"

definition same_place :: "cwd_record \<Rightarrow> cwd_record \<Rightarrow> bool" where
  "same_place a b \<longleftrightarrow> cwd a = cwd b \<and> authority a = authority b"

text \<open>An operation that cancels_flush the pending flush of a session without delivering what it was for.\<close>

definition cancels_flush :: "string \<Rightarrow> 'l tracker \<Rightarrow> 'l tracker_op \<Rightarrow> bool" where
  "cancels_flush s t op \<longleftrightarrow>
     (op = Reenable s \<or> op = DisposeTracker)
     \<and> (case cwd_sessions t s of None \<Rightarrow> False | Some st \<Rightarrow> pendingFlush st \<noteq> None)"

text \<open>Such an operation has happened, and the session has not been delivered since.\<close>

definition flush_cancelled :: "string \<Rightarrow> 'l tracker_op list \<Rightarrow> bool" where
  "flush_cancelled s ops \<longleftrightarrow>
     (\<exists>pre op post. ops = pre @ op # post \<and> cancels_flush s (tracker_run pre) op
        \<and> deliveries_of s (tracker_run ops) = deliveries_of s (tracker_run pre))"

text \<open>What listeners know of a session: its place, or its place with a flush due, or else \<open>w\<close> holds.\<close>

definition session_told :: "bool \<Rightarrow> string \<Rightarrow> 'l tracker \<Rightarrow> cwd_session \<Rightarrow> bool" where
  "session_told w s t st \<longleftrightarrow>
     sessionId (tracked st) = s \<and> deliveries_of s t \<noteq> [] \<and> delivered_at (last (deliveries_of s t)) = lastFiredAt st
     \<and> (case pendingFlush st of
          None \<Rightarrow> same_place (delivered (last (deliveries_of s t))) (tracked st) \<or> w
        | Some due \<Rightarrow> \<not> disabled st \<and> due = lastFiredAt st + CWD_MIN_INTERVAL_MS)"

definition tracker_told :: "(string \<Rightarrow> bool) \<Rightarrow> 'l tracker \<Rightarrow> bool" where
  "tracker_told w t \<longleftrightarrow> (\<forall>s st. cwd_sessions t s = Some st \<longrightarrow> session_told (w s) s t st)"

text \<open>What was owed before a step is owed after it, unless the step delivered it.\<close>

definition owed :: "(string \<Rightarrow> bool) \<Rightarrow> 'l tracker \<Rightarrow> 'l tracker \<Rightarrow> string \<Rightarrow> bool" where
  "owed w t t' s \<longleftrightarrow> w s \<and> deliveries_of s t' = deliveries_of s t"

lemmas tracker_ops_def = set_session_def fireChange_def clearPendingFlush_def schedulePendingFlush_def Let_def

lemma deliveries_of_simps [simp]:
  "deliveries_of s (set_session s' st t) = deliveries_of s t"
  "deliveries_of s (fireChange st t) = deliveries_of s t @
     (if sessionId (tracked st) = s
      then [\<lparr>recipients = cwd_listeners t, delivered = tracked st, delivered_at = lastFiredAt st, at_shutdown = disabled st\<rparr>] else [])"
  by (simp_all add: deliveries_of_def set_session_def fireChange_def)

lemma sessions_simps [simp]:
  "cwd_sessions (set_session s st t) = (cwd_sessions t)(s \<mapsto> st)" "cwd_sessions (fireChange st t) = cwd_sessions t"
  by (simp_all add: set_session_def fireChange_def)

lemma same_place_refl [simp]: "same_place r r"
  by (simp add: same_place_def)

text \<open>Only the deliveries of the session count.\<close>

lemma told_cong: "deliveries_of s t' = deliveries_of s t \<Longrightarrow> session_told w s t' st = session_told w s t st"
  by (simp add: session_told_def cong: option.case_cong)

lemma told_mono: "session_told w s t st \<Longrightarrow> (w \<Longrightarrow> w') \<Longrightarrow> session_told w' s t st"
  by (auto simp: session_told_def split: option.splits)

lemma tracker_toldD: "tracker_told w t \<Longrightarrow> cwd_sessions t s = Some st \<Longrightarrow> session_told (w s) s t st"
  by (simp add: tracker_told_def)

lemma told_silent:
  assumes "tracker_told w t" "deliveries t' = deliveries t"
    and "\<And>s st. cwd_sessions t' s = Some st \<Longrightarrow> cwd_sessions t s = Some st \<or> session_told (w' s) s t st"
    and "\<And>s. w s \<Longrightarrow> w' s"
  shows "tracker_told w' t'"
proof -
  have "session_told v s t' st = session_told v s t st" for v s st by (rule told_cong) (simp add: deliveries_of_def assms(2))
  then show ?thesis using assms tracker_toldD [OF assms(1)] told_mono unfolding tracker_told_def by metis
qed

lemma told_set:
  assumes "tracker_told w t" "session_told (w s) s t st"
  shows "tracker_told (owed w t (set_session s st t)) (set_session s st t)"
  by (rule told_silent [OF assms(1)]) (use assms(2) in \<open>auto simp: set_session_def owed_def deliveries_of_def split: if_splits\<close>)

lemma told_same: "tracker_told w t \<Longrightarrow> tracker_told (owed w t t) t"
  by (simp add: owed_def [abs_def])

lemma told_fire:
  assumes "tracker_told w t" "sessionId (tracked st) = s" "pendingFlush st = None"
  shows "tracker_told (owed w t (fireChange st (set_session s st t))) (fireChange st (set_session s st t))"
proof -
  let ?t = "fireChange st (set_session s st t)"
  have "session_told v x ?t y = session_told v x t y" if "x \<noteq> s" for v x y
    using that assms(2) by (intro told_cong) simp
  moreover have "session_told False s ?t st" using assms by (simp add: session_told_def)
  moreover have "owed w t ?t x \<longleftrightarrow> x \<noteq> s \<and> w x" for x using assms(2) by (auto simp: owed_def)
  ultimately show ?thesis using assms(1) by (auto simp: tracker_told_def)
qed

lemma told_report:
  assumes "tracker_told w t"
  shows "tracker_told (owed w t (snd (report_cwd s srv dir src auth now t))) (snd (report_cwd s srv dir src auth now t))"
proof (cases "cwd_sessions t s")
  case None
  then show ?thesis using assms by (auto simp: report_cwd_def Let_def intro!: told_fire)
next
  case (Some e)
  then have e: "session_told (w s) s t e" using assms by (auto simp: tracker_told_def)
  show ?thesis
  proof (cases "disabled e \<or> BURST_TRIP_THRESHOLD < length (burst_after (Some e) now)")
    case True
    then show ?thesis using assms Some e by (auto simp: report_cwd_def Let_def session_told_def intro!: told_fire told_same)
  next
    case False
    then show ?thesis using assms Some e
      by (auto simp: report_cwd_def Let_def clearPendingFlush_def schedulePendingFlush_def session_told_def same_place_def
          intro!: told_fire told_set split: option.splits)
  qed
qed

lemma told_flush:
  assumes "tracker_told w t"
  shows "tracker_told (owed w t (run_flush s t)) (run_flush s t)"
proof (cases "cwd_sessions t s")
  case (Some st)
  then have "session_told (w s) s t st" using assms by (rule tracker_toldD [rotated])
  then show ?thesis using assms Some
    by (auto simp: run_flush_def Let_def session_told_def intro!: told_fire told_same split: option.splits)
qed (simp add: run_flush_def assms told_same)

text \<open>Cancelling a flush leaves the session as delivered last.\<close>

lemma told_cancelled:
  assumes "session_told w s t st" "pendingFlush st \<noteq> None \<Longrightarrow> w'" "w \<Longrightarrow> w'"
  shows "session_told w' s t ((clearPendingFlush st)\<lparr>disabled := d, burstTimestamps := b\<rparr>)" "session_told w' s t (clearPendingFlush st)"
  using assms by (auto simp: session_told_def clearPendingFlush_def split: option.splits)

lemma told_step:
  assumes "tracker_told w t"
  shows "tracker_told (\<lambda>s. cancels_flush s t op \<or> owed w t (tracker_step op t) s) (tracker_step op t)"
proof (cases op)
  case (Report s srv dir src auth now)
  then show ?thesis using told_report [OF assms] by (simp add: cancels_flush_def)
next
  case (Flush s)
  then show ?thesis using told_flush [OF assms] by (simp add: cancels_flush_def)
next
  case (Reenable s)
  show ?thesis
    by (rule told_silent [OF assms])
       (use Reenable in \<open>auto simp: reenable_def set_session_def owed_def deliveries_of_def cancels_flush_def
          intro!: told_cancelled(1) dest: tracker_toldD [OF assms] split: option.splits if_splits\<close>)
next
  case DisposeTracker
  show ?thesis
    by (rule told_silent [OF assms])
       (use DisposeTracker in \<open>auto simp: dispose_tracker_def owed_def deliveries_of_def cancels_flush_def
          intro!: told_cancelled(2) dest: tracker_toldD [OF assms]\<close>)
qed (rule told_silent [OF assms]; simp add: clear_session_def onDidChangeCwd_def unsubscribe_cwd_def owed_def
      deliveries_of_def split: if_splits)+

lemma told_new: "tracker_told w new_tracker"
  by (simp add: tracker_told_def new_tracker_def)

lemma cancel_delivers_nothing: "cancels_flush s t op \<Longrightarrow> deliveries_of s (tracker_step op t) = deliveries_of s t"
  by (auto simp: cancels_flush_def reenable_def dispose_tracker_def deliveries_of_def set_session_def split: option.splits)

lemma flush_cancelled_step:
  assumes "cancels_flush s (tracker_run ops) op \<or> owed (\<lambda>s. flush_cancelled s ops) (tracker_run ops) (tracker_step op (tracker_run ops)) s"
  shows "flush_cancelled s (ops @ [op])"
  using assms
proof
  assume c: "cancels_flush s (tracker_run ops) op"
  then show ?thesis using cancel_delivers_nothing [OF c] unfolding flush_cancelled_def
    by (intro exI [of _ ops] exI [of _ op] exI [of _ "[]"]) (simp add: tracker_run_def)
next
  assume o: "owed (\<lambda>s. flush_cancelled s ops) (tracker_run ops) (tracker_step op (tracker_run ops)) s"
  then obtain pre c post where "ops = pre @ c # post" "cancels_flush s (tracker_run pre) c"
    "deliveries_of s (tracker_run ops) = deliveries_of s (tracker_run pre)"
    by (auto simp: owed_def flush_cancelled_def)
  then show ?thesis using o unfolding flush_cancelled_def
    by (intro exI [of _ pre] exI [of _ c] exI [of _ "post @ [op]"]) (simp add: owed_def tracker_run_def)
qed

lemma told_run: "tracker_told (\<lambda>s. flush_cancelled s ops) (tracker_run ops)"
proof (induction ops rule: rev_induct)
  case Nil
  show ?case by (simp add: tracker_run_def told_new)
next
  case (snoc op ops)
  have "tracker_told (\<lambda>s. flush_cancelled s (ops @ [op])) (tracker_step op (tracker_run ops))"
    by (rule told_silent [OF told_step [OF snoc] refl]) (blast intro: flush_cancelled_step)+
  then show ?case by (simp add: tracker_run_def)
qed

text \<open>Operations that neither report on a session nor clear it.\<close>

fun no_news :: "string \<Rightarrow> 'l tracker_op \<Rightarrow> bool" where
  "no_news s (Report x srv dir src auth now) = (x \<noteq> s)"
| "no_news s (ClearSession x) = (x \<noteq> s)"
| "no_news s _ = True"

definition unscheduled :: "string \<Rightarrow> 'l tracker \<Rightarrow> bool" where
  "unscheduled s t \<longleftrightarrow>
     (\<forall>x st. cwd_sessions t x = Some st \<longrightarrow> sessionId (tracked st) = x)
     \<and> (case cwd_sessions t s of None \<Rightarrow> True | Some st \<Rightarrow> pendingFlush st = None)"

lemma unscheduled_step:
  assumes "unscheduled s t" "no_news s op"
  shows "unscheduled s (tracker_step op t) \<and> deliveries_of s (tracker_step op t) = deliveries_of s t
    \<and> map_option tracked (cwd_sessions (tracker_step op t) s) = map_option tracked (cwd_sessions t s)"
proof (cases op)
  case (Report x srv dir src auth now)
  then have x: "x \<noteq> s" using assms(2) by simp
  have id: "cwd_sessions t x = Some e \<Longrightarrow> sessionId (tracked e) = x" for e
    using assms(1) by (simp add: unscheduled_def)
  then show ?thesis using assms(1) x Report
    by (cases "cwd_sessions t x")
       (auto simp: report_cwd_def Let_def clearPendingFlush_def schedulePendingFlush_def unscheduled_def split: option.splits)
next
  case (Flush x)
  then show ?thesis using assms
    by (auto simp: run_flush_def Let_def unscheduled_def split: option.splits)
next
  case (Reenable x)
  then show ?thesis using assms
    by (auto simp: reenable_def clearPendingFlush_def unscheduled_def split: option.splits)
qed (use assms in \<open>auto simp: unscheduled_def clear_session_def onDidChangeCwd_def unsubscribe_cwd_def dispose_tracker_def
      clearPendingFlush_def deliveries_of_def split: option.splits\<close>)

lemma unscheduled_run:
  "unscheduled s t \<Longrightarrow> list_all (no_news s) ops \<Longrightarrow> deliveries_of s (fold tracker_step ops t) = deliveries_of s t
    \<and> map_option tracked (cwd_sessions (fold tracker_step ops t) s) = map_option tracked (cwd_sessions t s)"
proof (induction ops arbitrary: t)
  case (Cons op ops)
  then show ?case using unscheduled_step [of s t op] by simp
qed simp

section \<open>Spacing\<close>

text \<open>Two deliveries that follow one another are an interval apart, unless the second one tells of a shutdown.\<close>

definition spaced :: "'l delivery list \<Rightarrow> bool" where
  "spaced ds \<longleftrightarrow> successively (\<lambda>a b. at_shutdown b \<or> delivered_at a + CWD_MIN_INTERVAL_MS \<le> delivered_at b) ds"

text \<open>The session with its last delivery, in any run in which it is not cleared.\<close>

definition session_spaced :: "string \<Rightarrow> 'l tracker \<Rightarrow> bool" where
  "session_spaced s t \<longleftrightarrow>
     (\<forall>x st. cwd_sessions t x = Some st \<longrightarrow> sessionId (tracked st) = x)
     \<and> spaced (deliveries_of s t)
     \<and> (case cwd_sessions t s of
          None \<Rightarrow> deliveries_of s t = []
        | Some st \<Rightarrow> deliveries_of s t \<noteq> [] \<and> delivered_at (last (deliveries_of s t)) = lastFiredAt st)"

lemma spaced_snoc:
  "spaced (ds @ [d]) \<longleftrightarrow> spaced ds \<and> (ds = [] \<or> at_shutdown d \<or> delivered_at (last ds) + CWD_MIN_INTERVAL_MS \<le> delivered_at d)"
  by (auto simp: spaced_def successively_append_iff)

lemma session_spaced_other:
  assumes "session_spaced s t" "sessionId (tracked st) = x" "x \<noteq> s"
  shows "session_spaced s (set_session x st t)" "session_spaced s (fireChange st (set_session x st t))"
  using assms by (auto simp: session_spaced_def cong: option.case_cong)

lemma session_spaced_same:
  assumes "session_spaced s t" "sessionId (tracked st) = s" "cwd_sessions t s = Some e" "lastFiredAt st = lastFiredAt e"
  shows "session_spaced s (set_session s st t)"
  using assms by (auto simp: session_spaced_def)

lemma session_spaced_fire:
  assumes "session_spaced s t" "sessionId (tracked st) = s"
    and "case cwd_sessions t s of None \<Rightarrow> True | Some e \<Rightarrow> disabled st \<or> lastFiredAt e + CWD_MIN_INTERVAL_MS \<le> lastFiredAt st"
  shows "session_spaced s (fireChange st (set_session s st t))"
  using assms by (auto simp: session_spaced_def spaced_snoc split: option.splits)

lemma session_spaced_report:
  assumes "session_spaced s t"
  shows "session_spaced s (snd (report_cwd x srv dir src auth now t))"
proof -
  have id: "cwd_sessions t x = Some e \<Longrightarrow> sessionId (tracked e) = x" for e
    using assms by (simp add: session_spaced_def)
  show ?thesis
  proof (cases "x = s")
    case True
    then show ?thesis using assms id
      by (cases "cwd_sessions t s")
        (auto simp: report_cwd_def Let_def clearPendingFlush_def schedulePendingFlush_def
          intro!: session_spaced_fire session_spaced_same split: option.splits)
  next
    case False
    then show ?thesis using assms id
      by (cases "cwd_sessions t x")
        (auto simp: report_cwd_def Let_def clearPendingFlush_def schedulePendingFlush_def
          intro!: session_spaced_other split: option.splits)
  qed
qed

lemma session_spaced_flush:
  assumes "session_spaced s t"
  shows "session_spaced s (run_flush x t)"
proof (cases "cwd_sessions t x")
  case (Some st)
  then have id: "sessionId (tracked st) = x" using assms by (simp add: session_spaced_def)
  show ?thesis
  proof (cases "x = s")
    case True
    then show ?thesis using assms id Some
      by (auto simp: run_flush_def Let_def intro!: session_spaced_fire session_spaced_same split: option.splits)
  next
    case False
    then show ?thesis using assms id Some
      by (auto simp: run_flush_def Let_def intro!: session_spaced_other split: option.splits)
  qed
qed (simp add: run_flush_def assms)

lemma session_spaced_step:
  assumes "session_spaced s t" "op \<noteq> ClearSession s"
  shows "session_spaced s (tracker_step op t)"
proof (cases op)
  case (Reenable x)
  have "cwd_sessions t x = Some e \<Longrightarrow> sessionId (tracked e) = x" for e
    using assms(1) by (simp add: session_spaced_def)
  then show ?thesis using assms Reenable
    by (cases "x = s"; cases "cwd_sessions t x")
      (simp_all add: reenable_def clearPendingFlush_def session_spaced_same session_spaced_other)
next
  case DisposeTracker
  then show ?thesis using assms
    by (auto simp: dispose_tracker_def session_spaced_def deliveries_of_def clearPendingFlush_def split: option.splits)
next
  case (ClearSession x)
  then show ?thesis using assms by (simp add: clear_session_def session_spaced_def deliveries_of_def cong: option.case_cong)
next
  case (Subscribe l)
  then show ?thesis using assms by (simp add: onDidChangeCwd_def session_spaced_def deliveries_of_def cong: option.case_cong)
next
  case (Unsubscribe l)
  then show ?thesis using assms by (simp add: unsubscribe_cwd_def session_spaced_def deliveries_of_def cong: option.case_cong)
qed (simp_all add: assms session_spaced_report session_spaced_flush)

lemma session_spaced_run:
  "session_spaced s t \<Longrightarrow> ClearSession s \<notin> set ops \<Longrightarrow> session_spaced s (fold tracker_step ops t)"
  by (induction ops arbitrary: t) (auto simp: session_spaced_step)

lemma session_spaced_new: "session_spaced s new_tracker"
  by (simp add: session_spaced_def new_tracker_def deliveries_of_def spaced_def)

section \<open>Floods\<close>

text \<open>The times of the reports of a session since it was last cleared or enabled.\<close>

fun reports_since :: "string \<Rightarrow> int list \<Rightarrow> 'l tracker_op list \<Rightarrow> int list" where
  "reports_since s ts [] = ts"
| "reports_since s ts (Report x srv dir src auth now # ops) = reports_since s (if x = s then ts @ [now] else ts) ops"
| "reports_since s ts (Reenable x # ops) = reports_since s (if x = s then [] else ts) ops"
| "reports_since s ts (ClearSession x # ops) = reports_since s (if x = s then [] else ts) ops"
| "reports_since s ts (_ # ops) = reports_since s ts ops"

text \<open>The reports of the last \<open>CWD_BURST_SUSTAIN_MS\<close> before \<open>now\<close>.\<close>

definition in_window :: "int \<Rightarrow> int list \<Rightarrow> int list" where
  "in_window now ts = filter (\<lambda>x. now - int CWD_BURST_SUSTAIN_MS \<le> x) ts"

definition burst_tracked :: "string \<Rightarrow> int list \<Rightarrow> 'l tracker \<Rightarrow> bool" where
  "burst_tracked s ts t \<longleftrightarrow>
     (case cwd_sessions t s of
        None \<Rightarrow> ts = []
      | Some st \<Rightarrow> disabled st \<or> burstTimestamps st = (if ts = [] then [] else in_window (last ts) ts))"

lemma dropWhile_sorted: "sorted ts \<Longrightarrow> dropWhile (\<lambda>x. x < k) ts = filter (\<lambda>x. k \<le> x) ts"
proof (induction ts)
  case (Cons a ts)
  then show ?case by (cases "a < k") (auto intro!: filter_True [symmetric])
qed simp

lemma in_window_snoc:
  assumes "sorted (ts @ [now])"
  shows "dropWhile (\<lambda>x. x < now - int CWD_BURST_SUSTAIN_MS) ((if ts = [] then [] else in_window (last ts) ts) @ [now])
    = in_window now (ts @ [now])"
proof -
  let ?w = "(if ts = [] then [] else in_window (last ts) ts)"
  have "sorted (?w @ [now])" using assms by (auto simp: in_window_def sorted_append sorted_filter [of id, simplified])
  moreover have "filter (\<lambda>x. now - int CWD_BURST_SUSTAIN_MS \<le> x) ?w = in_window now ts"
  proof (cases "ts = []")
    case False
    then have "last ts \<le> now" using assms last_in_set [of ts] by (auto simp: sorted_append)
    then show ?thesis using False by (auto simp: in_window_def intro!: filter_cong)
  qed (simp add: in_window_def)
  ultimately show ?thesis by (simp add: dropWhile_sorted) (simp add: in_window_def)
qed

lemma burst_after_window:
  assumes "burst_tracked s ts t" "sorted (ts @ [now])" "\<not> isDisabled s t"
  shows "burst_after (cwd_sessions t s) now = in_window now (ts @ [now])"
  using assms in_window_snoc [OF assms(2)]
  by (auto simp: burst_after_def burst_tracked_def isDisabled_def split: option.splits)

lemma report_burst:
  assumes "\<not> isDisabled s t"
  shows "\<exists>st. cwd_sessions (snd (report_cwd s srv dir src auth now t)) s = Some st
      \<and> burstTimestamps st = burst_after (cwd_sessions t s) now
      \<and> (disabled st \<longleftrightarrow> BURST_TRIP_THRESHOLD < length (burst_after (cwd_sessions t s) now))"
  using assms
  by (auto simp: report_cwd_def Let_def isDisabled_def clearPendingFlush_def schedulePendingFlush_def split: option.splits)

lemma report_other: "x \<noteq> s \<Longrightarrow> cwd_sessions (snd (report_cwd x srv dir src auth now t)) s = cwd_sessions t s"
  by (auto simp: report_cwd_def Let_def split: option.splits)

definition report_times :: "string \<Rightarrow> 'l tracker_op list \<Rightarrow> int list" where
  "report_times s ops = List.map_filter (\<lambda>op. case op of Report x _ _ _ _ now \<Rightarrow> (if x = s then Some now else None) | _ \<Rightarrow> None) ops"

lemma report_times_simps [simp]:
  "report_times s [] = []"
  "report_times s (Report x srv dir src auth now # ops) = (if x = s then now # report_times s ops else report_times s ops)"
  "report_times s (ops @ ops') = report_times s ops @ report_times s ops'"
  by (simp_all add: report_times_def map_filter_def)

lemma report_times_skip: "(\<forall>x srv dir src auth now. op \<noteq> Report x srv dir src auth now) \<Longrightarrow> report_times s (op # ops) = report_times s ops"
  by (cases op) (simp_all add: report_times_def map_filter_def)

lemma burst_tracked_report:
  assumes "burst_tracked s ts t" "sorted (ts @ [now])"
  shows "burst_tracked s (ts @ [now]) (snd (report_cwd s srv dir src auth now t))"
proof (cases "isDisabled s t")
  case True
  then show ?thesis by (auto simp: report_cwd_def isDisabled_def burst_tracked_def split: option.splits)
next
  case False
  then show ?thesis using report_burst [OF False, of srv dir src auth now] burst_after_window [OF assms False]
    by (auto simp: burst_tracked_def)
qed

lemma burst_tracked_silent:
  assumes "burst_tracked s ts t"
  shows "burst_tracked s ts (run_flush x t)" "burst_tracked s ts (onDidChangeCwd l t)" "burst_tracked s ts (unsubscribe_cwd l t)"
    "burst_tracked s ts (dispose_tracker t)" "x \<noteq> s \<Longrightarrow> burst_tracked s ts (reenable x t)"
    "x \<noteq> s \<Longrightarrow> burst_tracked s ts (clear_session x t)"
  using assms
  by (auto simp: burst_tracked_def run_flush_def Let_def onDidChangeCwd_def unsubscribe_cwd_def dispose_tracker_def
      reenable_def clear_session_def clearPendingFlush_def split: option.splits)

lemma burst_tracked_reset: "burst_tracked s [] (reenable s t)" if "burst_tracked s ts t"
  using that by (auto simp: burst_tracked_def reenable_def split: option.splits)

lemma burst_tracked_run:
  "burst_tracked s ts t \<Longrightarrow> sorted (ts @ report_times s ops) \<Longrightarrow>
    burst_tracked s (reports_since s ts ops) (fold tracker_step ops t)"
proof (induction ops arbitrary: ts t)
  case (Cons op ops)
  have later: "sorted (report_times s ops)" if "\<not> (\<exists>x srv dir src auth now. op = Report x srv dir src auth now)"
    using Cons.prems(2) that report_times_skip [of op s ops] by (simp add: sorted_append)
  show ?case
  proof (cases op)
    case (Report x srv dir src auth now)
    then show ?thesis
    proof (cases "x = s")
      case True
      then show ?thesis using Cons.IH [OF burst_tracked_report [OF Cons.prems(1)]] Cons.prems(2) Report
        by (simp add: sorted_append)
    next
      case False
      then have "burst_tracked s ts (snd (report_cwd x srv dir src auth now t))"
        using Cons.prems(1) by (simp add: burst_tracked_def report_other)
      then show ?thesis using Cons.IH Cons.prems(2) Report False by simp
    qed
  next
    case (Reenable x)
    then show ?thesis using Cons later burst_tracked_silent(5) [OF Cons.prems(1)] burst_tracked_reset [OF Cons.prems(1)]
      by (cases "x = s") (auto simp: report_times_skip)
  next
    case (ClearSession x)
    then show ?thesis using Cons later burst_tracked_silent(6) [OF Cons.prems(1)]
      by (cases "x = s") (auto simp: report_times_skip burst_tracked_def clear_session_def)
  qed (use Cons burst_tracked_silent [OF Cons.prems(1)] in \<open>simp_all add: report_times_skip\<close>)
qed simp

lemma sorted_suffix: "sorted ((ts @ us) @ [now :: int]) \<Longrightarrow> sorted (us @ [now])"
  by (simp add: sorted_append)

lemma reports_since_sorted: "sorted ((ts @ report_times s ops) @ [now]) \<Longrightarrow> sorted (reports_since s ts ops @ [now])"
proof (induction ops arbitrary: ts)
  case (Cons op ops)
  have skip: "report_times s (op # ops) = report_times s ops" if "\<not> (\<exists>x srv dir src auth n. op = Report x srv dir src auth n)"
    using that by (simp add: report_times_skip)
  note stay = Cons.IH [of ts] and reset = Cons.IH [of "[]"]
  show ?case
  proof (cases op)
    case (Report x srv dir src auth n)
    then show ?thesis using Cons.IH [of "ts @ [n]"] stay Cons.prems by (cases "x = s") simp_all
  next
    case (Reenable x)
    then show ?thesis using stay reset Cons.prems sorted_suffix [OF Cons.prems] skip by (cases "x = s") simp_all
  next
    case (ClearSession x)
    then show ?thesis using stay reset Cons.prems sorted_suffix [OF Cons.prems] skip by (cases "x = s") simp_all
  qed (use stay Cons.prems skip in simp_all)
qed simp

lemma burst_tracked_new: "burst_tracked s [] new_tracker"
  by (simp add: burst_tracked_def new_tracker_def)

text \<open>A report that leaves the session enabled is its record.\<close>

lemma report_latest:
  assumes "\<not> isDisabled s t" "\<not> isDisabled s (snd (report_cwd s srv dir src auth now t))"
  shows "\<exists>r. getRecord s (snd (report_cwd s srv dir src auth now t)) = Some r
    \<and> cwd r = dir \<and> authority r = auth \<and> source r = src \<and> updatedAt r = now"
  using assms
  by (auto simp: report_cwd_def Let_def isDisabled_def getRecord_def clearPendingFlush_def schedulePendingFlush_def split: option.splits)

section \<open>Properties\<close>

text \<open>
  C34. What listeners know of a tracked session, in every run. If no flush is pending, the last delivery
  names the directory and authority of the record, unless an earlier pending flush was cancelled by
  \<open>reenable\<close> on a session that was not shut down, or by \<open>dispose\<close>, and the session has not been delivered
  since. If a flush is pending, it is due exactly one interval after the last delivery and delivers the
  record to every listener when it runs; but \<open>reenable\<close> withholds that change: from then on, nothing is
  delivered for the session, whatever happens, until it is reported on or cleared.
\<close>

theorem cwd_told:
  assumes "cwd_sessions (tracker_run ops) s = Some st"
  shows "deliveries_of s (tracker_run ops) \<noteq> []
    \<and> (if pendingFlush st = None
       then same_place (delivered (last (deliveries_of s (tracker_run ops)))) (tracked st) \<or> flush_cancelled s ops
       else pendingFlush st = Some (delivered_at (last (deliveries_of s (tracker_run ops))) + CWD_MIN_INTERVAL_MS)
         \<and> deliveries (run_flush s (tracker_run ops)) = deliveries (tracker_run ops) @
             [\<lparr>recipients = cwd_listeners (tracker_run ops), delivered = tracked st,
               delivered_at = lastFiredAt st + CWD_MIN_INTERVAL_MS, at_shutdown = False\<rparr>]
         \<and> (\<forall>ops'. list_all (no_news s) ops' \<longrightarrow>
              deliveries_of s (fold tracker_step ops' (reenable s (tracker_run ops))) = deliveries_of s (tracker_run ops)
              \<and> getRecord s (fold tracker_step ops' (reenable s (tracker_run ops))) = Some (tracked st)))"
proof -
  note told = told_run [of ops]
  note st = tracker_toldD [OF told assms]
  have "unscheduled s (reenable s (tracker_run ops))"
    using assms tracker_toldD [OF told]
    by (auto simp: unscheduled_def reenable_def clearPendingFlush_def session_told_def)
  moreover have "deliveries_of s (reenable s (tracker_run ops)) = deliveries_of s (tracker_run ops)"
    "map_option tracked (cwd_sessions (reenable s (tracker_run ops)) s) = Some (tracked st)"
    using assms by (simp_all add: reenable_def clearPendingFlush_def)
  ultimately have "deliveries_of s (fold tracker_step ops' (reenable s (tracker_run ops))) = deliveries_of s (tracker_run ops)
      \<and> getRecord s (fold tracker_step ops' (reenable s (tracker_run ops))) = Some (tracked st)" if "list_all (no_news s) ops'" for ops'
    using unscheduled_run [of s _ ops'] that by (simp add: getRecord_def)
  then show ?thesis
    using st assms by (auto simp: session_told_def run_flush_def Let_def fireChange_def set_session_def split: option.splits)
qed

text \<open>
  Deliveries are rate limited: in every run in which a session is not cleared, whatever its reports
  and flushes, two successive deliveries of the session are at least \<open>CWD_MIN_INTERVAL_MS\<close> apart in the
  caller's time, the delivery of a shutdown excepted.
\<close>

theorem cwd_spaced:
  assumes "ClearSession s \<notin> set ops"
  shows "spaced (deliveries_of s (tracker_run ops))"
  using session_spaced_run [OF session_spaced_new assms] by (simp add: tracker_run_def session_spaced_def)

text \<open>
  A session is shut down by a report exactly when more than \<open>BURST_TRIP_THRESHOLD\<close> of its reports
  since it was last cleared or enabled fall in the \<open>CWD_BURST_SUSTAIN_MS\<close> before it, whatever their
  spacing; a report that does not shut it down becomes the record at once, and a report to a session
  that is shut down changes nothing.
\<close>

theorem cwd_flood:
  assumes "sorted (report_times s ops @ [now])"
  shows "if isDisabled s (tracker_run ops) then report_cwd s srv dir src auth now (tracker_run ops) = (False, tracker_run ops)
    else (isDisabled s (tracker_run (ops @ [Report s srv dir src auth now]))
         \<longleftrightarrow> BURST_TRIP_THRESHOLD < length (in_window now (reports_since s [] ops @ [now])))
      \<and> (if isDisabled s (tracker_run (ops @ [Report s srv dir src auth now])) then True
          else case getRecord s (tracker_run (ops @ [Report s srv dir src auth now])) of
            None \<Rightarrow> False
          | Some r \<Rightarrow> cwd r = dir \<and> authority r = auth \<and> source r = src \<and> updatedAt r = now)"
proof (cases "isDisabled s (tracker_run ops)")
  case True
  then show ?thesis by (auto simp: report_cwd_def isDisabled_def split: option.splits)
next
  case False
  have b: "burst_tracked s (reports_since s [] ops) (tracker_run ops)"
    using burst_tracked_run [OF burst_tracked_new, of s ops] assms by (simp add: tracker_run_def sorted_append)
  have "sorted (reports_since s [] ops @ [now])" using reports_since_sorted [of "[]" s ops now] assms by simp
  then have "burst_after (cwd_sessions (tracker_run ops) s) now = in_window now (reports_since s [] ops @ [now])"
    using burst_after_window [OF b _ False] by simp
  then show ?thesis
    using False report_burst [OF False, of srv dir src auth now] report_latest [OF False, of srv dir src auth now]
    by (auto simp: tracker_run_def isDisabled_def)
qed

section \<open>Examples\<close>

text \<open>Two directories within one interval.\<close>

definition example_ops :: "nat tracker_op list" where
  "example_ops = [Subscribe 1, Report ''s'' ''v'' ''/a'' Osc7 [] 0, Report ''s'' ''v'' ''/b'' Osc7 [] 100]"

definition example_record :: cwd_record where
  "example_record = \<lparr>sessionId = ''s'', serverId = ''v'', cwd = ''/b'', source = Osc7, authority = [], updatedAt = 100\<rparr>"

lemmas tracker_eval = tracker_run_def example_ops_def example_record_def new_tracker_def report_cwd_def burst_after_def
  onDidChangeCwd_def schedulePendingFlush_def clearPendingFlush_def reenable_def set_session_def fireChange_def isDisabled_def
  CWD_MIN_INTERVAL_MS_def BURST_TRIP_THRESHOLD_def CWD_BURST_RATE_PER_SEC_def CWD_BURST_SUSTAIN_MS_def Let_def

lemma example_session:
  "cwd_sessions (tracker_run example_ops) ''s'' = Some \<lparr>tracked = example_record, authorityStale = False, disabled = False,
     burstTimestamps = [0, 100], lastFiredAt = 0, pendingFlush = Some 300\<rparr>"
  by (simp add: tracker_eval)

theorem cwd_told_witness:
  "last (deliveries (run_flush ''s'' (tracker_run example_ops)))
    = \<lparr>recipients = cwd_listeners (tracker_run example_ops), delivered = example_record, delivered_at = 300, at_shutdown = False\<rparr>
   \<and> deliveries_of ''s'' (fold tracker_step [Flush ''s'', DisposeTracker] (reenable ''s'' (tracker_run example_ops)))
     = deliveries_of ''s'' (tracker_run example_ops)"
proof -
  have "list_all (no_news ''s'') [Flush ''s'', DisposeTracker :: nat tracker_op]" by simp
  then show ?thesis using cwd_told [OF example_session] unfolding CWD_MIN_INTERVAL_MS_def
    by (metis (no_types, lifting) add_0 cwd_session.select_convs(1,5,6) last_snoc option.distinct(1))
qed

theorem cwd_spaced_witness: "spaced (deliveries_of ''s'' (tracker_run example_ops))"
  by (rule cwd_spaced) (simp add: example_ops_def)

theorem cwd_flood_witness: "\<not> isDisabled ''s'' (tracker_run (example_ops @ [Report ''s'' ''v'' ''/c'' Osc7 [] 200]))"
proof -
  have "\<not> isDisabled ''s'' (tracker_run example_ops)" by (simp add: isDisabled_def example_session)
  moreover have "sorted (report_times ''s'' example_ops @ [200])" by code_simp
  moreover have "length (in_window 200 (reports_since ''s'' [] example_ops @ [200])) = 3" by code_simp
  ultimately show ?thesis using cwd_flood [of "''s''" example_ops 200 "''v''" "''/c''" Osc7 "[]"]
    by (simp add: BURST_TRIP_THRESHOLD_def CWD_BURST_RATE_PER_SEC_def CWD_BURST_SUSTAIN_MS_def)
qed

end
