(* ===== verification/Folder_Paths.thy ===== *)
theory Folder_Paths
  imports Text_Units
begin

text \<open>
  The paths of folders, \<open>src/src/utils/folderPaths.ts\<close>: normalising, descendants, parent and ancestors,
  and what they are on the segments of a path.
\<close>

definition MAX_FOLDER_DEPTH :: nat where "MAX_FOLDER_DEPTH = 10"
definition MAX_FOLDER_PATH_LENGTH :: nat where "MAX_FOLDER_PATH_LENGTH = 4096"
definition BACKSLASH :: nat where "BACKSLASH = 92"

definition normalizeFolderPath :: "units \<Rightarrow> units option" where
  "normalizeFolderPath path =
     (if MAX_FOLDER_PATH_LENGTH < length path then None
      else
        (let segments = filter (\<lambda>s. 0 < length s) (map trim (split_on SLASH path))
         in if segments = [] then None
            else if list_ex (\<lambda>seg. seg = [DOT, DOT] \<or> seg = [DOT] \<or> BACKSLASH \<in> set seg) segments then None
            else if MAX_FOLDER_DEPTH < length segments then None
            else Some (join_with SLASH segments)))"

text \<open>\<open>undefined\<close> is the outer \<open>None\<close>, \<open>null\<close> the inner one; input that is no string is \<open>None\<close>.\<close>

definition normalizeOptionalFolderPath :: "units option \<Rightarrow> units option option" where
  "normalizeOptionalFolderPath input =
     (case input of
        None \<Rightarrow> None
      | Some s \<Rightarrow> if trim s = [] then None else Some (normalizeFolderPath (trim s)))"

definition isDescendantOrSelf :: "units \<Rightarrow> units \<Rightarrow> bool" where
  "isDescendantOrSelf candidate ancestor \<longleftrightarrow> candidate = ancestor \<or> prefix (ancestor @ [SLASH]) candidate"

definition parentPath :: "units \<Rightarrow> units option" where
  "parentPath path = (case lastIndexOf SLASH path of None \<Rightarrow> None | Some idx \<Rightarrow> Some (take idx path))"

definition folderDisplayName :: "units \<Rightarrow> units" where
  "folderDisplayName path = (case lastIndexOf SLASH path of None \<Rightarrow> path | Some idx \<Rightarrow> drop (Suc idx) path)"

definition getAncestorPaths :: "units \<Rightarrow> units list" where
  "getAncestorPaths path =
     (let segments = split_on SLASH path
      in map (\<lambda>i. join_with SLASH (take (Suc i) segments)) [0 ..< length segments])"

section \<open>Segments\<close>

definition segs :: "units \<Rightarrow> units list" where
  "segs path = split_on SLASH path"

lemma segs_nonempty [simp]: "segs p \<noteq> []"
  by (simp add: segs_def)

lemma segs_inject [simp]: "segs p = segs q \<longleftrightarrow> p = q"
  by (simp add: segs_def)

lemma join_segs [simp]: "join_with SLASH (segs p) = p"
  by (simp add: segs_def)

lemma segs_append [simp]: "segs (p @ SLASH # q) = segs p @ segs q"
  by (simp add: segs_def split_append)

lemma segs_join: "ws \<noteq> [] \<Longrightarrow> list_all (\<lambda>w. SLASH \<notin> set w) ws \<Longrightarrow> segs (join_with SLASH ws) = ws"
  by (simp add: segs_def split_joined)

lemma segs_free: "w \<in> set (segs p) \<Longrightarrow> SLASH \<notin> set w"
  using split_parts [of SLASH p] by (auto simp: segs_def list_all_iff)

lemma segs_sub: "set vs \<subseteq> set (segs p) \<Longrightarrow> vs \<noteq> [] \<Longrightarrow> segs (join_with SLASH vs) = vs"
  by (rule segs_join) (auto simp: list_all_iff dest: segs_free)

text \<open>A segment that a normalised path may have.\<close>

definition folder_name :: "units \<Rightarrow> bool" where
  "folder_name w \<longleftrightarrow> w \<noteq> [] \<and> trimmed w \<and> SLASH \<notin> set w \<and> w \<noteq> [DOT] \<and> w \<noteq> [DOT, DOT] \<and> BACKSLASH \<notin> set w"

definition folder_path :: "units \<Rightarrow> bool" where
  "folder_path p \<longleftrightarrow> list_all folder_name (segs p) \<and> length (segs p) \<le> MAX_FOLDER_DEPTH \<and> length p \<le> MAX_FOLDER_PATH_LENGTH"

lemma folder_path_nonempty: "folder_path p \<Longrightarrow> p \<noteq> []"
  by (auto simp: folder_path_def segs_def folder_name_def)

lemma filter_concat_length: "length (concat (filter P (map f ws))) + length (filter P (map f ws)) \<le> length (concat ws) + length ws"
  if "\<And>w. length (f w) \<le> length w"
proof (induction ws)
  case (Cons w ws)
  then show ?case using that [of w] by auto
qed simp

text \<open>Normalising yields exactly the normal forms.\<close>

lemma normalize_folder_path:
  assumes "normalizeFolderPath p = Some q"
  shows "folder_path q" "segs q = filter (\<lambda>s. 0 < length s) (map trim (split_on SLASH p))"
proof -
  let ?ws = "filter (\<lambda>s. 0 < length s) (map trim (split_on SLASH p))"
  have q: "q = join_with SLASH ?ws" and ne: "?ws \<noteq> []" and d: "length ?ws \<le> MAX_FOLDER_DEPTH"
    and bad: "\<not> list_ex (\<lambda>seg. seg = [DOT, DOT] \<or> seg = [DOT] \<or> BACKSLASH \<in> set seg) ?ws"
    and l: "length p \<le> MAX_FOLDER_PATH_LENGTH"
    using assms by (auto simp: normalizeFolderPath_def Let_def split: if_splits)
  have free: "SLASH \<notin> set w" if "w \<in> set ?ws" for w
    using that split_parts [of SLASH p] trim_set by (fastforce simp: list_all_iff)
  then have s: "segs q = ?ws" using segs_join [OF ne] q by (simp add: list_all_iff)
  then show "segs q = ?ws" .
  have "list_all folder_name ?ws"
    using free bad trimmed_trim by (auto simp: folder_name_def list_all_iff list_ex_iff)
  moreover have "length q \<le> length p"
    using filter_concat_length [of trim "\<lambda>s. 0 < length s" "split_on SLASH p", OF trim_length]
      join_length [OF ne, of SLASH] split_length [of SLASH p] q by simp
  ultimately show "folder_path q" using s d l by (simp add: folder_path_def)
qed

lemma normalize_fixed: "folder_path p \<Longrightarrow> normalizeFolderPath p = Some p"
proof -
  assume p: "folder_path p"
  then have name: "folder_name w" if "w \<in> set (segs p)" for w using that by (simp add: folder_path_def list_all_iff)
  have "map trim (segs p) = segs p"
    by (rule map_idI, rule trim_trimmed) (use name in \<open>simp add: folder_name_def\<close>)
  moreover have "filter (\<lambda>s. 0 < length s) (segs p) = segs p"
    by (rule filter_True) (use name in \<open>simp add: folder_name_def\<close>)
  moreover have "\<not> list_ex (\<lambda>seg. seg = [DOT, DOT] \<or> seg = [DOT] \<or> BACKSLASH \<in> set seg) (segs p)"
    using name by (auto simp: list_ex_iff folder_name_def)
  ultimately show ?thesis using p by (auto simp: normalizeFolderPath_def folder_path_def Let_def simp flip: segs_def)
qed

text \<open>Descendants, parents and ancestors on segments.\<close>

lemma descendant_segs: "isDescendantOrSelf c a \<longleftrightarrow> prefix (segs a) (segs c)"
proof
  assume "isDescendantOrSelf c a"
  then show "prefix (segs a) (segs c)" by (auto simp: isDescendantOrSelf_def prefix_def)
next
  assume "prefix (segs a) (segs c)"
  then obtain vs where vs: "segs c = segs a @ vs" by (auto simp: prefix_def)
  show "isDescendantOrSelf c a"
  proof (cases "vs = []")
    case False
    then have "c = a @ SLASH # join_with SLASH vs" using join_append [of "segs a" vs SLASH] vs join_segs [of c] by simp
    then show ?thesis by (auto simp: isDescendantOrSelf_def)
  qed (use vs in \<open>simp add: isDescendantOrSelf_def\<close>)
qed

lemma descendant_split:
  assumes "isDescendantOrSelf c a"
  shows "drop (length a) c = [] \<and> c = a \<or> (\<exists>q. drop (length a) c = SLASH # q \<and> c = a @ SLASH # q)"
  using assms by (auto simp: isDescendantOrSelf_def prefix_def)

lemma path_cases:
  obtains "SLASH \<notin> set p" "segs p = [p]" | xs w where "p = xs @ SLASH # w" "SLASH \<notin> set w" "segs p = segs xs @ [w]"
proof (cases "SLASH \<in> set p")
  case True
  then obtain xs w where "p = xs @ SLASH # w" "SLASH \<notin> set w" using split_list_last [of SLASH p] by auto
  then show ?thesis using that(2) [of xs w] by (simp add: segs_def split_append split_free)
next
  case False
  then show ?thesis using that(1) by (simp add: segs_def split_free)
qed

lemma parent_segs: "map_option segs (parentPath p) = (if length (segs p) = 1 then None else Some (butlast (segs p)))"
proof (cases p rule: path_cases)
  case 1
  then show ?thesis by (simp add: parentPath_def lastIndexOf_free)
next
  case (2 xs w)
  then show ?thesis by (simp add: parentPath_def lastIndexOf_append butlast_append)
qed

lemma display_segs: "folderDisplayName p = last (segs p)"
proof (cases p rule: path_cases)
  case 1
  then show ?thesis by (simp add: folderDisplayName_def lastIndexOf_free)
next
  case (2 xs w)
  then show ?thesis by (simp add: folderDisplayName_def lastIndexOf_append)
qed

lemma ancestors_segs: "segs ` set (getAncestorPaths p) = {ws. prefix ws (segs p) \<and> ws \<noteq> []}"
proof -
  have t: "segs (join_with SLASH (take (Suc i) (segs p))) = take (Suc i) (segs p)" for i
    by (rule segs_sub [of _ p]) (auto dest: in_set_takeD)
  have "segs ` set (getAncestorPaths p) = {take (Suc i) (segs p) | i. i < length (segs p)}"
    by (auto simp: getAncestorPaths_def Let_def image_image t simp flip: segs_def)
  also have "\<dots> = {ws. prefix ws (segs p) \<and> ws \<noteq> []}"
  proof (rule set_eqI, rule iffI)
    fix ws assume "ws \<in> {ws. prefix ws (segs p) \<and> ws \<noteq> []}"
    then obtain c vs us where "ws = c # vs" "segs p = ws @ us" by (cases ws) (auto simp: prefix_def)
    then show "ws \<in> {take (Suc i) (segs p) | i. i < length (segs p)}" by (intro CollectI exI [of _ "length vs"]) simp
  qed (auto simp: take_is_prefix)
  finally show ?thesis .
qed

lemma ancestor_descendant: "a \<in> set (getAncestorPaths p) \<longleftrightarrow> isDescendantOrSelf p a"
proof
  assume "a \<in> set (getAncestorPaths p)"
  then show "isDescendantOrSelf p a" using ancestors_segs [of p] by (auto simp: descendant_segs)
next
  assume "isDescendantOrSelf p a"
  then have "segs a \<in> segs ` set (getAncestorPaths p)" unfolding ancestors_segs by (simp add: descendant_segs)
  then show "a \<in> set (getAncestorPaths p)" by auto
qed

end
