(* ===== verification/Profile_Store.thy ===== *)
theory Profile_Store
  imports Folder_Paths "HOL-Library.AList"
begin

text \<open>
  The profile store, \<open>src/src/core/nexusCore.ts\<close>: the profiles in memory and on disk, the folders, the
  links between records, and the sessions. The members of a record that the store does not look into are
  values of the type parameter. A record is paired with its id, the key of the map that holds it; a
  \<open>Map\<close> is an association list and a \<open>Set\<close> a list, in insertion order. Mutations of the
  configuration run one after the other (\<open>configMutationLock\<close>); which saves succeed is an argument.
\<close>

type_synonym key = string

section \<open>Records\<close>

text \<open>\<open>ServerOrigin.templated\<close>: the values an inventory synchronisation wrote.\<close>

record 'v stamps =
  st_proxy :: "'v option"
  st_multiplexing :: "bool option"
  st_legacyAlgorithms :: "bool option"
  st_logSession :: "bool option"
  st_ipmiAuthProfileId :: "key option"
  st_ipmiGatewayServerId :: "key option"

record 'v server_origin =
  syncedAuthProfileId :: "key option"
  templated :: "'v stamps option"
  origin_rest :: 'v

record 'v server_config =
  server_group :: "units option"
  openFileExplorerOnFirstConnect :: bool
  authProfileId :: "key option"
  ipmiAuthProfileId :: "key option"
  ipmiGatewayServerId :: "key option"
  server_origin :: "'v server_origin option"
  formerlySynced :: "'v server_origin option"
  server_rest :: 'v

text \<open>Serial profiles, local shell profiles and local servers.\<close>

record 'v grouped =
  item_group :: "units option"
  item_rest :: 'v

record 'v inventory_source =
  source_authProfileId :: "key option"
  templateRules :: "(key \<times> 'v) list option"
  source_revision :: key
  source_rest :: 'v

record 'v device_template =
  fields_authProfileId :: "(key \<times> 'v) option"
  fields_ipmiAuthProfileId :: "(key \<times> 'v) option"
  template_revision :: key
  template_rest :: 'v

text \<open>What the repository persists.\<close>

record 'v config =
  servers :: "(key \<times> 'v server_config) list"
  tunnels :: "(key \<times> 'v) list"
  serialProfiles :: "(key \<times> 'v grouped) list"
  localShellProfiles :: "(key \<times> 'v grouped) list"
  localServers :: "(key \<times> 'v grouped) list"
  explicitGroups :: "units list"
  authProfiles :: "(key \<times> 'v) list"
  inventorySources :: "(key \<times> 'v inventory_source) list"
  deviceTemplates :: "(key \<times> 'v device_template) list"
  savedFilters :: "(key \<times> 'v) list"
  tftpProfiles :: "(key \<times> 'v) list"
  dhcpProfiles :: "(key \<times> 'v) list"

text \<open>A session with the record it belongs to (\<open>serverId\<close>, \<open>profileId\<close> or \<open>configId\<close>).\<close>

record 'v session =
  owner_id :: key
  session_rest :: 'v

record active_tunnel =
  tunnel_profileId :: key
  bytesIn :: nat
  bytesOut :: nat

record 'v core =
  mem :: "'v config"
  disk :: "'v config"
  activeSessions :: "(key \<times> 'v session) list"
  activeSerialSessions :: "(key \<times> 'v session) list"
  activeLocalShellSessions :: "(key \<times> 'v session) list"
  activeLocalServerSessions :: "(key \<times> 'v session) list"
  activeTunnels :: "(key \<times> active_tunnel) list"
  activitySessionIds :: "key list"
  serverStatus :: "(key \<times> bool) list"
  serverStatusSource :: "(key \<times> key) list"
  focusedSessionId :: "key option"
  inventorySyncApplyInFlight :: bool
  inventorySyncTombstonedSessionIds :: "key list"
  emitted :: nat

definition empty_config :: "'v config" where
  "empty_config = \<lparr>servers = [], tunnels = [], serialProfiles = [], localShellProfiles = [], localServers = [],
     explicitGroups = [], authProfiles = [], inventorySources = [], deviceTemplates = [], savedFilters = [],
     tftpProfiles = [], dhcpProfiles = []\<rparr>"

definition new_core :: "'v config \<Rightarrow> 'v core" where
  "new_core d = \<lparr>mem = empty_config, disk = d, activeSessions = [], activeSerialSessions = [], activeLocalShellSessions = [],
     activeLocalServerSessions = [], activeTunnels = [], activitySessionIds = [], serverStatus = [], serverStatusSource = [],
     focusedSessionId = None, inventorySyncApplyInFlight = False, inventorySyncTombstonedSessionIds = [], emitted = 0\<rparr>"

section \<open>Saving and telling\<close>

datatype store =
    Servers | Tunnels | SerialProfiles | LocalShellProfiles | LocalServers | Groups | AuthProfiles
  | InventorySources | DeviceTemplates | SavedFilters | TftpProfiles | DhcpProfiles

text \<open>The effect of one save on the disk.\<close>

fun copy_store :: "store \<Rightarrow> 'v config \<Rightarrow> 'v config \<Rightarrow> 'v config" where
  "copy_store Servers m d = d\<lparr>servers := servers m\<rparr>"
| "copy_store Tunnels m d = d\<lparr>tunnels := tunnels m\<rparr>"
| "copy_store SerialProfiles m d = d\<lparr>serialProfiles := serialProfiles m\<rparr>"
| "copy_store LocalShellProfiles m d = d\<lparr>localShellProfiles := localShellProfiles m\<rparr>"
| "copy_store LocalServers m d = d\<lparr>localServers := localServers m\<rparr>"
| "copy_store Groups m d = d\<lparr>explicitGroups := explicitGroups m\<rparr>"
| "copy_store AuthProfiles m d = d\<lparr>authProfiles := authProfiles m\<rparr>"
| "copy_store InventorySources m d = d\<lparr>inventorySources := inventorySources m\<rparr>"
| "copy_store DeviceTemplates m d = d\<lparr>deviceTemplates := deviceTemplates m\<rparr>"
| "copy_store SavedFilters m d = d\<lparr>savedFilters := savedFilters m\<rparr>"
| "copy_store TftpProfiles m d = d\<lparr>tftpProfiles := tftpProfiles m\<rparr>"
| "copy_store DhcpProfiles m d = d\<lparr>dhcpProfiles := dhcpProfiles m\<rparr>"

type_synonym storage_outcome = "store \<Rightarrow> bool"

definition save :: "storage_outcome \<Rightarrow> store \<Rightarrow> 'v core \<Rightarrow> 'v core" where
  "save ok st c = (if ok st then c\<lparr>disk := copy_store st (mem c) (disk c)\<rparr> else c)"

definition emitChanged :: "'v core \<Rightarrow> 'v core" where
  "emitChanged c = c\<lparr>emitted := Suc (emitted c)\<rparr>"

text \<open>
  The end of most methods, \<open>await this.repository.save...; this.emitChanged()\<close>: the result and whether
  the promise is fulfilled.
\<close>

definition save_and_emit :: "storage_outcome \<Rightarrow> store \<Rightarrow> 'v core \<Rightarrow> 'v core \<times> bool" where
  "save_and_emit ok st c = (if ok st then (emitChanged (save ok st c), True) else (save ok st c, False))"

text \<open>\<open>Promise.all\<close> of the saves that follow a change of folders.\<close>

definition FOLDER_STORES :: "store list" where
  "FOLDER_STORES = [Servers, SerialProfiles, LocalShellProfiles, LocalServers, Groups]"

definition save_folders :: "storage_outcome \<Rightarrow> 'v core \<Rightarrow> 'v core \<times> bool" where
  "save_folders ok c =
     (let c = fold (save ok) FOLDER_STORES c
      in if list_all ok FOLDER_STORES then (emitChanged c, True) else (c, False))"

definition set_add :: "'a \<Rightarrow> 'a list \<Rightarrow> 'a list" where
  "set_add x xs = (if x \<in> set xs then xs else xs @ [x])"

section \<open>Sessions\<close>

definition hasSession :: "key \<Rightarrow> 'v core \<Rightarrow> bool" where
  "hasSession s c \<longleftrightarrow>
     s \<in> fst ` set (activeSessions c) \<or> s \<in> fst ` set (activeSerialSessions c)
     \<or> s \<in> fst ` set (activeLocalShellSessions c) \<or> s \<in> fst ` set (activeLocalServerSessions c)"

text \<open>The focus and the activity after the sessions \<open>gone\<close> were removed.\<close>

definition forget_sessions :: "(key \<Rightarrow> bool) \<Rightarrow> 'v core \<Rightarrow> 'v core" where
  "forget_sessions gone c =
     c\<lparr>focusedSessionId := (case focusedSessionId c of Some s \<Rightarrow> if gone s then None else Some s | None \<Rightarrow> None),
       activitySessionIds := filter (\<lambda>s. \<not> gone s) (activitySessionIds c)\<rparr>"

definition owned_by :: "key \<Rightarrow> (key \<times> 'v session) list \<Rightarrow> key \<Rightarrow> bool" where
  "owned_by own xs s \<longleftrightarrow> list_ex (\<lambda>(k, x). k = s \<and> owner_id x = own) xs"

definition drop_owned :: "key \<Rightarrow> (key \<times> 'v session) list \<Rightarrow> (key \<times> 'v session) list" where
  "drop_owned own xs = filter (\<lambda>(_, x). owner_id x \<noteq> own) xs"

definition removeServerSessions :: "key \<Rightarrow> 'v core \<Rightarrow> 'v core" where
  "removeServerSessions own c =
     (forget_sessions (owned_by own (activeSessions c)) c)\<lparr>activeSessions := drop_owned own (activeSessions c)\<rparr>"

definition removeSerialProfileSessions :: "key \<Rightarrow> 'v core \<Rightarrow> 'v core" where
  "removeSerialProfileSessions own c =
     (forget_sessions (owned_by own (activeSerialSessions c)) c)\<lparr>activeSerialSessions := drop_owned own (activeSerialSessions c)\<rparr>"

definition removeLocalShellProfileSessions :: "key \<Rightarrow> 'v core \<Rightarrow> 'v core" where
  "removeLocalShellProfileSessions own c =
     (forget_sessions (owned_by own (activeLocalShellSessions c)) c)\<lparr>activeLocalShellSessions := drop_owned own (activeLocalShellSessions c)\<rparr>"

definition removeLocalServerConfigSessions :: "key \<Rightarrow> 'v core \<Rightarrow> 'v core" where
  "removeLocalServerConfigSessions own c =
     (forget_sessions (owned_by own (activeLocalServerSessions c)) c)\<lparr>activeLocalServerSessions := drop_owned own (activeLocalServerSessions c)\<rparr>"

definition registerSession :: "key \<Rightarrow> 'v session \<Rightarrow> 'v core \<Rightarrow> 'v core" where
  "registerSession s x c = emitChanged (c\<lparr>activeSessions := AList.update s x (activeSessions c)\<rparr>)"

definition registerSerialSession :: "key \<Rightarrow> 'v session \<Rightarrow> 'v core \<Rightarrow> 'v core" where
  "registerSerialSession s x c = emitChanged (c\<lparr>activeSerialSessions := AList.update s x (activeSerialSessions c)\<rparr>)"

definition registerLocalShellSession :: "key \<Rightarrow> 'v session \<Rightarrow> 'v core \<Rightarrow> 'v core" where
  "registerLocalShellSession s x c = emitChanged (c\<lparr>activeLocalShellSessions := AList.update s x (activeLocalShellSessions c)\<rparr>)"

definition registerLocalServerSession :: "key \<Rightarrow> 'v session \<Rightarrow> 'v core \<Rightarrow> 'v core" where
  "registerLocalServerSession s x c = emitChanged (c\<lparr>activeLocalServerSessions := AList.update s x (activeLocalServerSessions c)\<rparr>)"

definition unregisterSession :: "key \<Rightarrow> 'v core \<Rightarrow> 'v core" where
  "unregisterSession s c =
     emitChanged ((forget_sessions (\<lambda>x. x = s) c)\<lparr>activeSessions := AList.delete s (activeSessions c),
       inventorySyncTombstonedSessionIds :=
         (if inventorySyncApplyInFlight c then set_add s (inventorySyncTombstonedSessionIds c)
          else inventorySyncTombstonedSessionIds c)\<rparr>)"

definition unregisterSerialSession :: "key \<Rightarrow> 'v core \<Rightarrow> 'v core" where
  "unregisterSerialSession s c =
     emitChanged ((forget_sessions (\<lambda>x. x = s) c)\<lparr>activeSerialSessions := AList.delete s (activeSerialSessions c)\<rparr>)"

definition unregisterLocalShellSession :: "key \<Rightarrow> 'v core \<Rightarrow> 'v core" where
  "unregisterLocalShellSession s c =
     emitChanged ((forget_sessions (\<lambda>x. x = s) c)\<lparr>activeLocalShellSessions := AList.delete s (activeLocalShellSessions c)\<rparr>)"

definition unregisterLocalServerSession :: "key \<Rightarrow> 'v core \<Rightarrow> 'v core" where
  "unregisterLocalServerSession s c =
     emitChanged ((forget_sessions (\<lambda>x. x = s) c)\<lparr>activeLocalServerSessions := AList.delete s (activeLocalServerSessions c)\<rparr>)"

definition markSessionActivity :: "key \<Rightarrow> 'v core \<Rightarrow> 'v core" where
  "markSessionActivity s c =
     (if \<not> hasSession s c \<or> s \<in> set (activitySessionIds c) then c
      else emitChanged (c\<lparr>activitySessionIds := activitySessionIds c @ [s]\<rparr>))"

definition clearSessionActivity :: "key \<Rightarrow> 'v core \<Rightarrow> 'v core" where
  "clearSessionActivity s c =
     (if s \<notin> set (activitySessionIds c) then c
      else emitChanged (c\<lparr>activitySessionIds := filter (\<lambda>x. x \<noteq> s) (activitySessionIds c)\<rparr>))"

definition setFocusedSession :: "key option \<Rightarrow> 'v core \<Rightarrow> 'v core" where
  "setFocusedSession s c = (if focusedSessionId c = s then c else emitChanged (c\<lparr>focusedSessionId := s\<rparr>))"

definition isServerConnected :: "key \<Rightarrow> 'v core \<Rightarrow> bool" where
  "isServerConnected own c \<longleftrightarrow> list_ex (\<lambda>(_, x). owner_id x = own) (activeSessions c)"

definition registerTunnel :: "key \<Rightarrow> active_tunnel \<Rightarrow> 'v core \<Rightarrow> 'v core" where
  "registerTunnel t x c = emitChanged (c\<lparr>activeTunnels := AList.update t x (activeTunnels c)\<rparr>)"

definition updateTunnelTraffic :: "key \<Rightarrow> nat \<Rightarrow> nat \<Rightarrow> 'v core \<Rightarrow> 'v core" where
  "updateTunnelTraffic t i out c =
     (case map_of (activeTunnels c) t of
        None \<Rightarrow> c
      | Some x \<Rightarrow>
          if bytesIn x = i \<and> bytesOut x = out then c
          else emitChanged (c\<lparr>activeTunnels := AList.update t (x\<lparr>bytesIn := i, bytesOut := out\<rparr>) (activeTunnels c)\<rparr>))"

definition unregisterTunnel :: "key \<Rightarrow> 'v core \<Rightarrow> 'v core" where
  "unregisterTunnel t c = emitChanged (c\<lparr>activeTunnels := AList.delete t (activeTunnels c)\<rparr>)"

definition dropServerStatusEntry :: "key \<Rightarrow> 'v core \<Rightarrow> 'v core" where
  "dropServerStatusEntry s c =
     c\<lparr>serverStatus := AList.delete s (serverStatus c), serverStatusSource := AList.delete s (serverStatusSource c)\<rparr>"

section \<open>Profiles\<close>

definition addOrUpdateTunnel :: "storage_outcome \<Rightarrow> key \<Rightarrow> 'v \<Rightarrow> 'v core \<Rightarrow> 'v core \<times> bool" where
  "addOrUpdateTunnel ok k p c =
     save_and_emit ok Tunnels (c\<lparr>mem := (mem c)\<lparr>tunnels := AList.update k p (tunnels (mem c))\<rparr>\<rparr>)"

definition addOrUpdateSerialProfile :: "storage_outcome \<Rightarrow> key \<Rightarrow> 'v grouped \<Rightarrow> 'v core \<Rightarrow> 'v core \<times> bool" where
  "addOrUpdateSerialProfile ok k p c =
     save_and_emit ok SerialProfiles (c\<lparr>mem := (mem c)\<lparr>serialProfiles := AList.update k p (serialProfiles (mem c))\<rparr>\<rparr>)"

definition addOrUpdateLocalShellProfile :: "storage_outcome \<Rightarrow> key \<Rightarrow> 'v grouped \<Rightarrow> 'v core \<Rightarrow> 'v core \<times> bool" where
  "addOrUpdateLocalShellProfile ok k p c =
     save_and_emit ok LocalShellProfiles (c\<lparr>mem := (mem c)\<lparr>localShellProfiles := AList.update k p (localShellProfiles (mem c))\<rparr>\<rparr>)"

definition addOrUpdateLocalServerConfig :: "storage_outcome \<Rightarrow> key \<Rightarrow> 'v grouped \<Rightarrow> 'v core \<Rightarrow> 'v core \<times> bool" where
  "addOrUpdateLocalServerConfig ok k p c =
     save_and_emit ok LocalServers (c\<lparr>mem := (mem c)\<lparr>localServers := AList.update k p (localServers (mem c))\<rparr>\<rparr>)"

definition addOrUpdateTftpProfile :: "storage_outcome \<Rightarrow> key \<Rightarrow> 'v \<Rightarrow> 'v core \<Rightarrow> 'v core \<times> bool" where
  "addOrUpdateTftpProfile ok k p c =
     save_and_emit ok TftpProfiles (c\<lparr>mem := (mem c)\<lparr>tftpProfiles := AList.update k p (tftpProfiles (mem c))\<rparr>\<rparr>)"

definition addOrUpdateDhcpProfile :: "storage_outcome \<Rightarrow> key \<Rightarrow> 'v \<Rightarrow> 'v core \<Rightarrow> 'v core \<times> bool" where
  "addOrUpdateDhcpProfile ok k p c =
     save_and_emit ok DhcpProfiles (c\<lparr>mem := (mem c)\<lparr>dhcpProfiles := AList.update k p (dhcpProfiles (mem c))\<rparr>\<rparr>)"

definition addOrUpdateAuthProfile :: "storage_outcome \<Rightarrow> key \<Rightarrow> 'v \<Rightarrow> 'v core \<Rightarrow> 'v core \<times> bool" where
  "addOrUpdateAuthProfile ok k p c =
     save_and_emit ok AuthProfiles (c\<lparr>mem := (mem c)\<lparr>authProfiles := AList.update k p (authProfiles (mem c))\<rparr>\<rparr>)"

definition removeTftpProfile :: "storage_outcome \<Rightarrow> key \<Rightarrow> 'v core \<Rightarrow> 'v core \<times> bool" where
  "removeTftpProfile ok k c =
     save_and_emit ok TftpProfiles (c\<lparr>mem := (mem c)\<lparr>tftpProfiles := AList.delete k (tftpProfiles (mem c))\<rparr>\<rparr>)"

definition removeDhcpProfile :: "storage_outcome \<Rightarrow> key \<Rightarrow> 'v core \<Rightarrow> 'v core \<times> bool" where
  "removeDhcpProfile ok k c =
     save_and_emit ok DhcpProfiles (c\<lparr>mem := (mem c)\<lparr>dhcpProfiles := AList.delete k (dhcpProfiles (mem c))\<rparr>\<rparr>)"

definition removeSerialProfile :: "storage_outcome \<Rightarrow> key \<Rightarrow> 'v core \<Rightarrow> 'v core \<times> bool" where
  "removeSerialProfile ok k c =
     save_and_emit ok SerialProfiles
       (removeSerialProfileSessions k (c\<lparr>mem := (mem c)\<lparr>serialProfiles := AList.delete k (serialProfiles (mem c))\<rparr>\<rparr>))"

definition removeLocalShellProfile :: "storage_outcome \<Rightarrow> key \<Rightarrow> 'v core \<Rightarrow> 'v core \<times> bool" where
  "removeLocalShellProfile ok k c =
     save_and_emit ok LocalShellProfiles
       (removeLocalShellProfileSessions k (c\<lparr>mem := (mem c)\<lparr>localShellProfiles := AList.delete k (localShellProfiles (mem c))\<rparr>\<rparr>))"

definition removeLocalServerConfig :: "storage_outcome \<Rightarrow> key \<Rightarrow> 'v core \<Rightarrow> 'v core \<times> bool" where
  "removeLocalServerConfig ok k c =
     save_and_emit ok LocalServers
       (removeLocalServerConfigSessions k (c\<lparr>mem := (mem c)\<lparr>localServers := AList.delete k (localServers (mem c))\<rparr>\<rparr>))"

definition removeTunnel :: "storage_outcome \<Rightarrow> key \<Rightarrow> 'v core \<Rightarrow> 'v core \<times> bool" where
  "removeTunnel ok k c =
     save_and_emit ok Tunnels
       (c\<lparr>mem := (mem c)\<lparr>tunnels := AList.delete k (tunnels (mem c))\<rparr>,
          activeTunnels := filter (\<lambda>(_, t). tunnel_profileId t \<noteq> k) (activeTunnels c)\<rparr>)"

section \<open>Saved filters\<close>

definition addOrUpdateSavedFilter :: "storage_outcome \<Rightarrow> key \<Rightarrow> 'v \<Rightarrow> 'v core \<Rightarrow> 'v core \<times> bool" where
  "addOrUpdateSavedFilter ok k p c =
     (let previous = map_of (savedFilters (mem c)) k;
          c1 = save ok SavedFilters (c\<lparr>mem := (mem c)\<lparr>savedFilters := AList.update k p (savedFilters (mem c))\<rparr>\<rparr>)
      in if ok SavedFilters then (emitChanged c1, True)
         else
           (c1\<lparr>mem := (mem c1)\<lparr>savedFilters :=
              (case previous of
                 Some q \<Rightarrow> AList.update k q (savedFilters (mem c1))
               | None \<Rightarrow> AList.delete k (savedFilters (mem c1)))\<rparr>\<rparr>, False))"

definition removeSavedFilter :: "storage_outcome \<Rightarrow> key \<Rightarrow> 'v core \<Rightarrow> 'v core \<times> bool" where
  "removeSavedFilter ok k c =
     (case map_of (savedFilters (mem c)) k of
        None \<Rightarrow> (c, True)
      | Some previous \<Rightarrow>
          (let c1 = save ok SavedFilters (c\<lparr>mem := (mem c)\<lparr>savedFilters := AList.delete k (savedFilters (mem c))\<rparr>\<rparr>)
           in if ok SavedFilters then (emitChanged c1, True)
              else (c1\<lparr>mem := (mem c1)\<lparr>savedFilters := AList.update k previous (savedFilters (mem c1))\<rparr>\<rparr>, False)))"

section \<open>Servers\<close>

text \<open>Of several servers that open the file explorer the last one keeps doing so.\<close>

definition normalizeFileExplorerAutoOpenOwner ::
  "(key \<times> 'v server_config) list \<Rightarrow> (key \<times> 'v server_config) list \<times> bool" where
  "normalizeFileExplorerAutoOpenOwner xs =
     (case filter (openFileExplorerOnFirstConnect \<circ> snd) xs of
        [] \<Rightarrow> (xs, False)
      | owners \<Rightarrow>
          (let own = fst (last owners)
           in (map (\<lambda>(k, s). if k = own \<or> \<not> openFileExplorerOnFirstConnect s then (k, s)
                              else (k, s\<lparr>openFileExplorerOnFirstConnect := False\<rparr>)) xs,
               list_ex (\<lambda>(k, s). k \<noteq> own \<and> openFileExplorerOnFirstConnect s) xs)))"

definition addOrUpdateServer :: "storage_outcome \<Rightarrow> key \<Rightarrow> 'v server_config \<Rightarrow> 'v core \<Rightarrow> 'v core \<times> bool" where
  "addOrUpdateServer ok k srv c =
     (let others = (if openFileExplorerOnFirstConnect srv
                    then map (\<lambda>(i, s). if i \<noteq> k \<and> openFileExplorerOnFirstConnect s
                                        then (i, s\<lparr>openFileExplorerOnFirstConnect := False\<rparr>) else (i, s)) (servers (mem c))
                    else servers (mem c))
      in save_and_emit ok Servers (c\<lparr>mem := (mem c)\<lparr>servers := AList.update k srv others\<rparr>\<rparr>))"

definition add_folders :: "units list \<Rightarrow> units list \<Rightarrow> units list" where
  "add_folders folders groups =
     fold (\<lambda>folder gs. case normalizeFolderPath folder of None \<Rightarrow> gs | Some p \<Rightarrow> fold set_add (getAncestorPaths p) gs) folders groups"

definition addServersBatch :: "storage_outcome \<Rightarrow> (key \<times> 'v server_config) list \<Rightarrow> units list \<Rightarrow> 'v core \<Rightarrow> 'v core \<times> bool" where
  "addServersBatch ok new folders c =
     (if new = [] \<and> folders = [] then (c, True)
      else
        (let c1 = c\<lparr>mem := (mem c)\<lparr>explicitGroups := add_folders folders (explicitGroups (mem c))\<rparr>\<rparr>;
             c2 = (if folders \<noteq> [] then save ok Groups c1 else c1)
         in if folders \<noteq> [] \<and> \<not> ok Groups then (c2, False)
            else
              (let c3 = c2\<lparr>mem := (mem c2)\<lparr>servers := fold (\<lambda>(k, s). AList.update k s) new (servers (mem c2))\<rparr>\<rparr>
               in if new \<noteq> [] then save_and_emit ok Servers c3 else (emitChanged c3, True))))"

definition templatedHasAnyStamp :: "'v stamps \<Rightarrow> bool" where
  "templatedHasAnyStamp t \<longleftrightarrow>
     st_proxy t \<noteq> None \<or> st_multiplexing t \<noteq> None \<or> st_legacyAlgorithms t \<noteq> None \<or> st_logSession t \<noteq> None
     \<or> st_ipmiAuthProfileId t \<noteq> None \<or> st_ipmiGatewayServerId t \<noteq> None"

definition collapse :: "'v stamps \<Rightarrow> 'v stamps option" where
  "collapse t = (if templatedHasAnyStamp t then Some t else None)"

text \<open>The stamp of the gateway goes with the link it records, and only with it.\<close>

definition clear_gateway_stamp :: "key option \<Rightarrow> 'v server_origin option \<Rightarrow> 'v server_origin option" where
  "clear_gateway_stamp gw org =
     (case org of
        None \<Rightarrow> None
      | Some x \<Rightarrow>
          (case templated x of
             None \<Rightarrow> Some x
           | Some t \<Rightarrow>
               if st_ipmiGatewayServerId t \<noteq> None \<and> st_ipmiGatewayServerId t = gw
               then Some (x\<lparr>templated := collapse (t\<lparr>st_ipmiGatewayServerId := None\<rparr>)\<rparr>)
               else Some x))"

definition clear_gateway :: "key list \<Rightarrow> 'v server_config \<Rightarrow> 'v server_config" where
  "clear_gateway deleted s =
     (case ipmiGatewayServerId s of
        None \<Rightarrow> s
      | Some g \<Rightarrow>
          if g \<in> set deleted
          then s\<lparr>ipmiGatewayServerId := None,
                 server_origin := clear_gateway_stamp (Some g) (server_origin s),
                 formerlySynced := clear_gateway_stamp (Some g) (formerlySynced s)\<rparr>
          else s)"

definition clearGatewayReferencesTo :: "key list \<Rightarrow> 'v core \<Rightarrow> 'v core" where
  "clearGatewayReferencesTo deleted c =
     c\<lparr>mem := (mem c)\<lparr>servers := map (\<lambda>(k, s). (k, clear_gateway deleted s)) (servers (mem c))\<rparr>\<rparr>"

definition removeServer :: "storage_outcome \<Rightarrow> key \<Rightarrow> 'v core \<Rightarrow> 'v core \<times> bool" where
  "removeServer ok k c =
     (let c1 = dropServerStatusEntry k (c\<lparr>mem := (mem c)\<lparr>servers := AList.delete k (servers (mem c))\<rparr>\<rparr>)
      in save_and_emit ok Servers (removeServerSessions k (clearGatewayReferencesTo [k] c1)))"

section \<open>Folders\<close>

definition in_folder :: "units \<Rightarrow> units option \<Rightarrow> bool" where
  "in_folder path g = (case g of None \<Rightarrow> False | Some p \<Rightarrow> p \<noteq> [] \<and> isDescendantOrSelf p path)"

definition addGroup :: "storage_outcome \<Rightarrow> units \<Rightarrow> 'v core \<Rightarrow> 'v core \<times> bool" where
  "addGroup ok path c =
     (case normalizeFolderPath path of
        None \<Rightarrow> (c, True)
      | Some p \<Rightarrow>
          save_and_emit ok Groups
            (c\<lparr>mem := (mem c)\<lparr>explicitGroups := fold set_add (getAncestorPaths p) (explicitGroups (mem c))\<rparr>\<rparr>))"

definition removeExplicitGroup :: "storage_outcome \<Rightarrow> units \<Rightarrow> 'v core \<Rightarrow> 'v core \<times> bool" where
  "removeExplicitGroup ok g c =
     save_and_emit ok Groups (c\<lparr>mem := (mem c)\<lparr>explicitGroups := filter (\<lambda>x. x \<noteq> g) (explicitGroups (mem c))\<rparr>\<rparr>)"

definition renameExplicitGroup :: "storage_outcome \<Rightarrow> units \<Rightarrow> units \<Rightarrow> 'v core \<Rightarrow> 'v core \<times> bool" where
  "renameExplicitGroup ok old new c =
     (if old \<in> set (explicitGroups (mem c))
      then save_and_emit ok Groups
             (c\<lparr>mem := (mem c)\<lparr>explicitGroups := set_add new (filter (\<lambda>x. x \<noteq> old) (explicitGroups (mem c)))\<rparr>\<rparr>)
      else (c, True))"

definition rename_group :: "units \<Rightarrow> units \<Rightarrow> units option \<Rightarrow> units option" where
  "rename_group old new g = (if in_folder old g then map_option (\<lambda>p. new @ drop (length old) p) g else g)"

definition renameFolderPath :: "storage_outcome \<Rightarrow> units \<Rightarrow> units \<Rightarrow> 'v core \<Rightarrow> 'v core \<times> bool" where
  "renameFolderPath ok old new c =
     (let m = mem c;
          moved = filter (\<lambda>g. isDescendantOrSelf g old) (explicitGroups m);
          kept = filter (\<lambda>g. \<not> isDescendantOrSelf g old) (explicitGroups m);
          groups = fold set_add (getAncestorPaths new) (fold set_add (map (\<lambda>g. new @ drop (length old) g) moved) kept);
          item = (\<lambda>(k, x). (k, x\<lparr>item_group := rename_group old new (item_group x)\<rparr>))
      in save_folders ok
           (c\<lparr>mem := m\<lparr>explicitGroups := groups,
              servers := map (\<lambda>(k, s). (k, s\<lparr>server_group := rename_group old new (server_group s)\<rparr>)) (servers m),
              serialProfiles := map item (serialProfiles m),
              localShellProfiles := map item (localShellProfiles m),
              localServers := map item (localServers m)\<rparr>\<rparr>))"

definition moveFolder :: "storage_outcome \<Rightarrow> units \<Rightarrow> units option \<Rightarrow> 'v core \<Rightarrow> 'v core \<times> bool" where
  "moveFolder ok old newParent c =
     (let leaf = folderDisplayName old;
          parent = (case newParent of Some p \<Rightarrow> if p = [] then None else Some p | None \<Rightarrow> None)
      in case normalizeFolderPath (case parent of Some p \<Rightarrow> p @ SLASH # leaf | None \<Rightarrow> leaf) of
           None \<Rightarrow> (c, True)
         | Some new \<Rightarrow>
             if (case parent of Some p \<Rightarrow> isDescendantOrSelf p old | None \<Rightarrow> False) then (c, True)
             else renameFolderPath ok old new c)"

definition renameFolder :: "storage_outcome \<Rightarrow> units \<Rightarrow> units \<Rightarrow> 'v core \<Rightarrow> 'v core \<times> bool" where
  "renameFolder ok old newName c =
     (let parent = (case parentPath old of Some p \<Rightarrow> if p = [] then None else Some p | None \<Rightarrow> None)
      in case normalizeFolderPath (case parent of Some p \<Rightarrow> p @ SLASH # newName | None \<Rightarrow> newName) of
           None \<Rightarrow> (c, True)
         | Some new \<Rightarrow> renameFolderPath ok old new c)"

text \<open>The place of an item whose folder \<open>path\<close> is dissolved into its parent.\<close>

definition reparent :: "units \<Rightarrow> units \<Rightarrow> units option" where
  "reparent path g =
     (let suffix = drop (length path) g
      in case parentPath path of
           Some p \<Rightarrow> if p = [] then (if tl suffix = [] then None else Some (tl suffix)) else Some (p @ suffix)
         | None \<Rightarrow> if tl suffix = [] then None else Some (tl suffix))"

definition reparent_group :: "units \<Rightarrow> units option \<Rightarrow> units option" where
  "reparent_group path g = (if in_folder path g then Option.bind g (reparent path) else g)"

definition removeFolderCascade :: "storage_outcome \<Rightarrow> units \<Rightarrow> bool \<Rightarrow> 'v core \<Rightarrow> 'v core \<times> bool" where
  "removeFolderCascade ok path deleteContents c =
     (let m = mem c;
          inside = (\<lambda>(_, x). in_folder path (item_group x));
          deleted = map fst (filter (\<lambda>(_, s). in_folder path (server_group s)) (servers m));
          item = (\<lambda>(k, x). (k, x\<lparr>item_group := reparent_group path (item_group x)\<rparr>));
          kept = filter (\<lambda>g. \<not> isDescendantOrSelf g path) (explicitGroups m);
          c1 = (if deleteContents then
                  fold removeLocalServerConfigSessions (map fst (filter inside (localServers m)))
                    (fold removeLocalShellProfileSessions (map fst (filter inside (localShellProfiles m)))
                      (fold removeSerialProfileSessions (map fst (filter inside (serialProfiles m)))
                        (fold removeServerSessions deleted
                          (c\<lparr>mem := m\<lparr>servers := filter (\<lambda>(_, s). \<not> in_folder path (server_group s)) (servers m),
                             serialProfiles := filter (\<lambda>x. \<not> inside x) (serialProfiles m),
                             localShellProfiles := filter (\<lambda>x. \<not> inside x) (localShellProfiles m),
                             localServers := filter (\<lambda>x. \<not> inside x) (localServers m),
                             explicitGroups := kept\<rparr>\<rparr>))))
                else
                  c\<lparr>mem := m\<lparr>servers := map (\<lambda>(k, s). (k, s\<lparr>server_group := reparent_group path (server_group s)\<rparr>)) (servers m),
                     serialProfiles := map item (serialProfiles m),
                     localShellProfiles := map item (localShellProfiles m),
                     localServers := map item (localServers m),
                     explicitGroups :=
                       fold set_add
                         (List.map_filter (reparent path)
                           (filter (\<lambda>g. isDescendantOrSelf g path \<and> g \<noteq> path) (explicitGroups m))) kept\<rparr>\<rparr>)
      in save_folders ok (clearGatewayReferencesTo (if deleteContents then deleted else []) c1))"

definition getItemsInFolder ::
  "units \<Rightarrow> bool \<Rightarrow> 'v core \<Rightarrow> 'v server_config list \<times> 'v grouped list \<times> 'v grouped list \<times> 'v grouped list" where
  "getItemsInFolder path recursive c =
     (let hit = (\<lambda>g. case g of None \<Rightarrow> False | Some p \<Rightarrow> p \<noteq> [] \<and> (if recursive then isDescendantOrSelf p path else p = path));
          items = (\<lambda>xs. filter (hit \<circ> item_group) (map snd xs))
      in (filter (hit \<circ> server_group) (map snd (servers (mem c))), items (serialProfiles (mem c)),
          items (localShellProfiles (mem c)), items (localServers (mem c))))"

end
