(* ===== verification/Profile_Folders.thy ===== *)
theory Profile_Folders
  imports Profile_Store
begin

text \<open>
  The folders of the profile store as a tree: a folder is the list of its segments. Moving, renaming and
  removing folders refine operations on these lists.
\<close>

section \<open>The abstract tree\<close>

type_synonym place = "units list"

record tree =
  folders :: "place set"
  server_places :: "(key \<times> place option) list"
  serial_places :: "(key \<times> place option) list"
  shell_places :: "(key \<times> place option) list"
  local_places :: "(key \<times> place option) list"

definition grouped_places :: "(key \<times> 'v grouped) list \<Rightarrow> (key \<times> place option) list" where
  "grouped_places xs = map (\<lambda>(k, x). (k, map_option segs (item_group x))) xs"

definition tree_of :: "'v config \<Rightarrow> tree" where
  "tree_of m = \<lparr>folders = segs ` set (explicitGroups m),
     server_places = map (\<lambda>(k, s). (k, map_option segs (server_group s))) (servers m),
     serial_places = grouped_places (serialProfiles m),
     shell_places = grouped_places (localShellProfiles m),
     local_places = grouped_places (localServers m)\<rparr>"

definition map_places :: "(place \<Rightarrow> place option) \<Rightarrow> (key \<times> place option) list \<Rightarrow> (key \<times> place option) list" where
  "map_places f xs = map (\<lambda>(k, p). (k, Option.bind p f)) xs"

definition map_items :: "(place \<Rightarrow> place option) \<Rightarrow> tree \<Rightarrow> tree" where
  "map_items f t = t\<lparr>server_places := map_places f (server_places t), serial_places := map_places f (serial_places t),
     shell_places := map_places f (shell_places t), local_places := map_places f (local_places t)\<rparr>"

definition drop_items :: "(place \<Rightarrow> bool) \<Rightarrow> tree \<Rightarrow> tree" where
  "drop_items P t =
     (let keep = filter (\<lambda>(_, p). case p of None \<Rightarrow> True | Some w \<Rightarrow> \<not> P w)
      in t\<lparr>server_places := keep (server_places t), serial_places := keep (serial_places t),
           shell_places := keep (shell_places t), local_places := keep (local_places t)\<rparr>)"

definition relocate :: "place \<Rightarrow> place \<Rightarrow> place \<Rightarrow> place" where
  "relocate old new ws = (if prefix old ws then new @ drop (length old) ws else ws)"

definition ancestors :: "place \<Rightarrow> place set" where
  "ancestors ws = {vs. prefix vs ws \<and> vs \<noteq> []}"

text \<open>A folder moves with all it contains, and the folders above its new place exist.\<close>

definition tree_move :: "place \<Rightarrow> place \<Rightarrow> tree \<Rightarrow> tree" where
  "tree_move old new t = map_items (Some \<circ> relocate old new) (t\<lparr>folders := relocate old new ` folders t \<union> ancestors new\<rparr>)"

text \<open>A folder is dissolved: what it contains moves up.\<close>

definition dissolve :: "place \<Rightarrow> place \<Rightarrow> place option" where
  "dissolve path ws =
     (if prefix path ws then (let up = butlast path @ drop (length path) ws in if up = [] then None else Some up) else Some ws)"

definition tree_dissolve :: "place \<Rightarrow> tree \<Rightarrow> tree" where
  "tree_dissolve path t =
     map_items (dissolve path)
       (t\<lparr>folders := {ws \<in> folders t. \<not> prefix path ws} \<union> {ws. \<exists>vs \<in> folders t. strict_prefix path vs \<and> dissolve path vs = Some ws}\<rparr>)"

definition tree_delete :: "place \<Rightarrow> tree \<Rightarrow> tree" where
  "tree_delete path t = drop_items (prefix path) (t\<lparr>folders := {ws \<in> folders t. \<not> prefix path ws}\<rparr>)"

section \<open>Refinement\<close>

lemma set_set_add [simp]: "set (set_add x xs) = insert x (set xs)"
  by (auto simp: set_add_def)

lemma set_fold_add [simp]: "set (fold set_add xs ys) = set xs \<union> set ys"
  by (induction xs arbitrary: ys) auto

lemma rename_segs:
  assumes "isDescendantOrSelf g old"
  shows "segs (new @ drop (length old) g) = relocate (segs old) (segs new) (segs g)"
  using descendant_split [OF assms] by (auto simp: relocate_def)

lemma ancestors_path: "segs ` set (getAncestorPaths p) = ancestors (segs p)"
  by (simp add: ancestors_segs ancestors_def)

lemma in_folder_prefix: "path \<noteq> [] \<Longrightarrow> in_folder path (Some p) \<longleftrightarrow> prefix (segs path) (segs p)"
proof -
  assume "path \<noteq> []"
  moreover have "\<not> isDescendantOrSelf [] path" using \<open>path \<noteq> []\<close> by (simp add: isDescendantOrSelf_def)
  ultimately show ?thesis by (auto simp: in_folder_def descendant_segs)
qed

lemma rename_group_segs:
  assumes "old \<noteq> []"
  shows "map_option segs (rename_group old new g) = Option.bind (map_option segs g) (Some \<circ> relocate (segs old) (segs new))"
proof (cases g)
  case (Some p)
  then show ?thesis using assms rename_segs [of p old new]
    by (auto simp: rename_group_def in_folder_prefix descendant_segs relocate_def)
qed (simp add: rename_group_def in_folder_def)

lemma saved_mem [simp]: "mem (fst (save_folders ok c)) = mem c" "mem (fst (save_and_emit ok st c)) = mem c" "mem (save ok st c) = mem c"
proof -
  show s: "mem (save ok st c) = mem c" for st and c :: "'v core" by (simp add: save_def)
  have "mem (fold (save ok) sts c) = mem c" for sts by (induction sts arbitrary: c) (simp_all add: s)
  then show "mem (fst (save_folders ok c)) = mem c" by (simp add: save_folders_def Let_def emitChanged_def)
  show "mem (fst (save_and_emit ok st c)) = mem c" by (simp add: save_and_emit_def emitChanged_def s)
qed

lemma grouped_rename:
  assumes "old \<noteq> []"
  shows "grouped_places (map (\<lambda>(k, x). (k, x\<lparr>item_group := rename_group old new (item_group x)\<rparr>)) xs)
    = map_places (Some \<circ> relocate (segs old) (segs new)) (grouped_places xs)"
  using rename_group_segs [OF assms, of new] by (auto simp: grouped_places_def map_places_def)

lemma folders_rename:
  "segs ` (set (getAncestorPaths new) \<union> ((\<lambda>g. new @ drop (length old) g) ` {g \<in> G. isDescendantOrSelf g old} \<union> {g \<in> G. \<not> isDescendantOrSelf g old}))
    = relocate (segs old) (segs new) ` segs ` G \<union> ancestors (segs new)" (is "?l = ?r")
proof -
  have "segs ` (\<lambda>g. new @ drop (length old) g) ` {g \<in> G. isDescendantOrSelf g old}
      = relocate (segs old) (segs new) ` segs ` {g \<in> G. isDescendantOrSelf g old}"
    unfolding image_image by (rule image_cong) (auto simp: rename_segs)
  moreover have "segs ` {g \<in> G. \<not> isDescendantOrSelf g old} = relocate (segs old) (segs new) ` segs ` {g \<in> G. \<not> isDescendantOrSelf g old}"
    unfolding image_image by (rule image_cong) (auto simp: relocate_def descendant_segs)
  ultimately have "?l = ancestors (segs new) \<union> relocate (segs old) (segs new) ` segs ` ({g \<in> G. isDescendantOrSelf g old} \<union> {g \<in> G. \<not> isDescendantOrSelf g old})"
    by (simp only: image_Un ancestors_path)
  moreover have "{g \<in> G. isDescendantOrSelf g old} \<union> {g \<in> G. \<not> isDescendantOrSelf g old} = G" by auto
  ultimately show ?thesis by auto
qed

lemma rename_refines:
  assumes "old \<noteq> []"
  shows "tree_of (mem (fst (renameFolderPath ok old new c))) = tree_move (segs old) (segs new) (tree_of (mem c))"
  using folders_rename [of new old "set (explicitGroups (mem c))"] rename_group_segs [OF assms, of new]
  by (auto simp: renameFolderPath_def Let_def tree_of_def tree_move_def map_items_def grouped_rename [OF assms] map_places_def
      simp del: image_Un)

text \<open>Folder names in every path of the store.\<close>

definition named :: "units \<Rightarrow> bool" where
  "named p \<longleftrightarrow> list_all folder_name (segs p)"

definition grouped_named :: "(key \<times> 'v grouped) list \<Rightarrow> bool" where
  "grouped_named xs \<longleftrightarrow> list_all (\<lambda>(_, x). case item_group x of None \<Rightarrow> True | Some p \<Rightarrow> named p) xs"

definition paths_named :: "'v config \<Rightarrow> bool" where
  "paths_named m \<longleftrightarrow> list_all named (explicitGroups m)
     \<and> list_all (\<lambda>(_, s). case server_group s of None \<Rightarrow> True | Some p \<Rightarrow> named p) (servers m)
     \<and> grouped_named (serialProfiles m) \<and> grouped_named (localShellProfiles m) \<and> grouped_named (localServers m)"

lemma named_nonempty: "named p \<Longrightarrow> p \<noteq> []"
  by (auto simp: named_def segs_def folder_name_def)

lemma folder_path_named: "folder_path p \<Longrightarrow> named p"
  by (simp add: folder_path_def named_def)

lemma named_append [simp]: "named (p @ SLASH # q) \<longleftrightarrow> named p \<and> named q"
  by (simp add: named_def)

lemma parent_cases:
  assumes "named path"
  obtains "parentPath path = None" "segs path = [path]"
    | p w where "parentPath path = Some p" "p \<noteq> []" "segs path = segs p @ [w]"
proof (cases path rule: path_cases)
  case 1
  then show ?thesis using that(1) by (simp add: parentPath_def lastIndexOf_free)
next
  case (2 xs w)
  then have "xs \<noteq> []" using assms named_nonempty by (auto simp: named_def segs_def split_free)
  then show ?thesis using that(2) [of xs w] 2 by (simp add: parentPath_def lastIndexOf_append)
qed

lemma reparent_segs:
  assumes "named path" "named g" "isDescendantOrSelf g path"
  shows "map_option segs (reparent path g) = dissolve (segs path) (segs g)"
proof -
  consider "g = path" | q where "g = path @ SLASH # q" "named q"
    using descendant_split [OF assms(3)] assms(2) by auto
  then show ?thesis
  proof cases
    case 1
    show ?thesis using assms(1) by (cases rule: parent_cases) (auto simp: reparent_def dissolve_def 1 Let_def)
  next
    case (2 q)
    then have "q \<noteq> []" using named_nonempty by auto
    show ?thesis using assms(1)
      by (cases rule: parent_cases) (use 2 \<open>q \<noteq> []\<close> in \<open>auto simp: reparent_def dissolve_def Let_def\<close>)
  qed
qed

lemma reparent_group_segs:
  assumes "named path" "case g of None \<Rightarrow> True | Some p \<Rightarrow> named p"
  shows "map_option segs (reparent_group path g) = Option.bind (map_option segs g) (dissolve (segs path))"
proof (cases g)
  case (Some p)
  then show ?thesis using assms reparent_segs [OF assms(1), of p] in_folder_prefix [OF named_nonempty [OF assms(1)], of p]
    by (auto simp: reparent_group_def descendant_segs dissolve_def)
qed (simp add: reparent_group_def in_folder_def)

lemma grouped_dissolve:
  assumes "named path" "grouped_named xs"
  shows "grouped_places (map (\<lambda>(k, x). (k, x\<lparr>item_group := reparent_group path (item_group x)\<rparr>)) xs)
    = map_places (dissolve (segs path)) (grouped_places xs)"
  using assms(2) reparent_group_segs [OF assms(1)]
  by (auto simp: grouped_places_def map_places_def grouped_named_def list_all_iff)

lemma folders_dissolve:
  assumes "named path" "list_all named gs"
  shows "segs ` (set (List.map_filter (reparent path) (filter (\<lambda>g. isDescendantOrSelf g path \<and> g \<noteq> path) gs))
        \<union> {g \<in> set gs. \<not> isDescendantOrSelf g path})
    = {ws \<in> segs ` set gs. \<not> prefix (segs path) ws}
      \<union> {ws. \<exists>vs \<in> segs ` set gs. strict_prefix (segs path) vs \<and> dissolve (segs path) vs = Some ws}" (is "?l = ?r")
proof -
  have r: "dissolve (segs path) (segs g) = map_option segs (reparent path g)" if "g \<in> set gs" "isDescendantOrSelf g path" for g
    using reparent_segs [OF assms(1)] assms(2) that by (simp add: list_all_iff)
  have d: "isDescendantOrSelf g path \<and> g \<noteq> path \<longleftrightarrow> strict_prefix (segs path) (segs g)" for g
    by (auto simp: descendant_segs strict_prefix_def)
  have "segs ` set (List.map_filter (reparent path) (filter (\<lambda>g. isDescendantOrSelf g path \<and> g \<noteq> path) gs))
      = {ws. \<exists>vs \<in> segs ` set gs. strict_prefix (segs path) vs \<and> dissolve (segs path) vs = Some ws}"
    using r d by (fastforce simp: map_filter_def image_iff)
  then show ?thesis by (auto simp: descendant_segs image_Un)
qed

lemma no_gateways [simp]: "clearGatewayReferencesTo [] (c :: 'v core) = c"
proof -
  have "clear_gateway [] s = s" for s :: "'v server_config" by (simp add: clear_gateway_def split: option.split)
  then have "map (\<lambda>(k, s). (k, clear_gateway [] s)) xs = xs" for xs :: "(key \<times> 'v server_config) list" by (induction xs) auto
  then show ?thesis by (simp add: clearGatewayReferencesTo_def)
qed

lemma dissolve_refines:
  assumes "named path" "paths_named (mem c)"
  shows "tree_of (mem (fst (removeFolderCascade ok path False c))) = tree_dissolve (segs path) (tree_of (mem c))"
proof -
  let ?m = "mem c"
  have f: "segs ` set (fold set_add (List.map_filter (reparent path) (filter (\<lambda>g. isDescendantOrSelf g path \<and> g \<noteq> path) (explicitGroups ?m)))
        (filter (\<lambda>g. \<not> isDescendantOrSelf g path) (explicitGroups ?m)))
      = folders (tree_dissolve (segs path) (tree_of ?m))"
    using folders_dissolve [OF assms(1), of "explicitGroups ?m"] assms(2)
    by (simp add: paths_named_def tree_dissolve_def tree_of_def map_items_def)
  have s: "map (\<lambda>(k, s). (k, map_option segs (server_group s))) (map (\<lambda>(k, s). (k, s\<lparr>server_group := reparent_group path (server_group s)\<rparr>)) (servers ?m))
      = map_places (dissolve (segs path)) (map (\<lambda>(k, s). (k, map_option segs (server_group s))) (servers ?m))"
    using assms(2) reparent_group_segs [OF assms(1)] by (auto simp: map_places_def paths_named_def list_all_iff)
  have g: "grouped_named (serialProfiles ?m)" "grouped_named (localShellProfiles ?m)" "grouped_named (localServers ?m)"
    using assms(2) by (simp_all add: paths_named_def)
  show ?thesis using f s
    by (simp add: removeFolderCascade_def Let_def tree_of_def tree_dissolve_def map_items_def grouped_dissolve [OF assms(1)] g)
qed

lemma removed_sessions_mem [simp]:
  "mem (removeServerSessions k c) = mem c" "mem (removeSerialProfileSessions k c) = mem c"
  "mem (removeLocalShellProfileSessions k c) = mem c" "mem (removeLocalServerConfigSessions k c) = mem c"
  by (simp_all add: removeServerSessions_def removeSerialProfileSessions_def removeLocalShellProfileSessions_def
      removeLocalServerConfigSessions_def forget_sessions_def)

lemma fold_mem: "(\<And>k c. mem (f k c) = mem c) \<Longrightarrow> mem (fold f ks c) = mem c"
  by (induction ks arbitrary: c) auto

lemma clear_gateway_group [simp]: "server_group (clear_gateway ks s) = server_group s"
  by (simp add: clear_gateway_def split: option.split)

lemma grouped_delete:
  assumes "path \<noteq> []"
  shows "grouped_places (filter (\<lambda>x. \<not> (case x of (_, x) \<Rightarrow> in_folder path (item_group x))) xs)
    = filter (\<lambda>(_, p). case p of None \<Rightarrow> True | Some w \<Rightarrow> \<not> prefix (segs path) w) (grouped_places xs)"
proof (induction xs)
  case (Cons x xs)
  then show ?case using in_folder_prefix [OF assms]
    by (cases x; cases "item_group (snd x)") (auto simp: grouped_places_def in_folder_def)
qed (simp add: grouped_places_def)

lemma server_delete:
  assumes "path \<noteq> []"
  shows "map (\<lambda>(k, s). (k, map_option segs (server_group s))) (map (\<lambda>(k, s). (k, clear_gateway ks s)) (filter (\<lambda>(_, s). \<not> in_folder path (server_group s)) xs))
    = filter (\<lambda>(_, p). case p of None \<Rightarrow> True | Some w \<Rightarrow> \<not> prefix (segs path) w) (map (\<lambda>(k, s). (k, map_option segs (server_group s))) xs)"
proof (induction xs)
  case (Cons x xs)
  then show ?case using in_folder_prefix [OF assms]
    by (cases x; cases "server_group (snd x)") (auto simp: in_folder_def)
qed simp

lemma delete_refines:
  assumes "path \<noteq> []"
  shows "tree_of (mem (fst (removeFolderCascade ok path True c))) = tree_delete (segs path) (tree_of (mem c))"
  using server_delete [OF assms]
  by (auto simp: removeFolderCascade_def Let_def tree_of_def tree_delete_def drop_items_def clearGatewayReferencesTo_def fold_mem
      descendant_segs grouped_delete [OF assms] simp del: map_map)

section \<open>Ancestors exist\<close>

definition tree_closed :: "tree \<Rightarrow> bool" where
  "tree_closed t \<longleftrightarrow> (\<forall>ws \<in> folders t. ancestors ws \<subseteq> folders t)"

lemma folders_simps [simp]:
  "folders (map_items f t) = folders t" "folders (drop_items P t) = folders t" "folders (tree_of m) = segs ` set (explicitGroups m)"
  by (simp_all add: map_items_def drop_items_def tree_of_def Let_def)

lemma tree_closedD: "tree_closed t \<Longrightarrow> ws \<in> folders t \<Longrightarrow> prefix vs ws \<Longrightarrow> vs \<noteq> [] \<Longrightarrow> vs \<in> folders t"
  by (auto simp: tree_closed_def ancestors_def)

lemma closed_move:
  assumes "tree_closed t" "old \<noteq> []"
  shows "tree_closed (tree_move old new t)"
proof -
  have "vs \<in> relocate old new ` folders t \<union> ancestors new"
    if ws: "ws \<in> folders t" and vs: "prefix vs (relocate old new ws)" "vs \<noteq> []" for ws vs
  proof (cases "prefix old ws")
    case True
    then obtain r where r: "ws = old @ r" by (auto simp: prefix_def)
    with vs(1) have "prefix vs (new @ r)" by (simp add: relocate_def)
    then consider "prefix vs new" | r1 where "vs = new @ r1" "prefix r1 r" by (auto simp: prefix_append)
    then show ?thesis
    proof cases
      case (2 r1)
      then have "old @ r1 \<in> folders t" using tree_closedD [OF assms(1) ws, of "old @ r1"] r assms(2) by simp
      then show ?thesis using 2(1) by (auto simp: relocate_def intro!: image_eqI [of _ _ "old @ r1"])
    qed (use vs in \<open>simp add: ancestors_def\<close>)
  next
    case False
    then have "prefix vs ws" using vs(1) by (simp add: relocate_def)
    then have "vs \<in> folders t" "\<not> prefix old vs" using tree_closedD [OF assms(1) ws _ vs(2)] False prefix_order.trans by auto
    then show ?thesis by (auto simp: relocate_def intro!: image_eqI [of _ _ vs])
  qed
  then show ?thesis by (auto simp: tree_closed_def tree_move_def ancestors_def dest: prefix_order.trans)
qed

lemma closed_delete: "tree_closed t \<Longrightarrow> tree_closed (tree_delete path t)"
  by (auto simp: tree_closed_def tree_delete_def ancestors_def dest: prefix_order.trans)

lemma closed_dissolve:
  assumes "tree_closed t" "path \<noteq> []"
  shows "tree_closed (tree_dissolve path t)"
proof -
  let ?F = "folders t"
  have up: "vs \<in> {ws \<in> ?F. \<not> prefix path ws} \<union> {ws. \<exists>vs \<in> ?F. strict_prefix path vs \<and> dissolve path vs = Some ws}"
    if f: "path @ r \<in> ?F" "r \<noteq> []" and vs: "prefix vs (butlast path @ r)" "vs \<noteq> []" for r vs
  proof -
    consider "prefix vs (butlast path)" | r1 where "vs = butlast path @ r1" "prefix r1 r" "r1 \<noteq> []"
      using vs(1) by (cases "prefix vs (butlast path)") (auto simp: prefix_append)
    then show ?thesis
    proof cases
      case 1
      then have "prefix vs path" using prefix_order.trans prefixeq_butlast by blast
      then have "vs \<in> ?F" using tree_closedD [OF assms(1) f(1) _ vs(2)] by simp
      moreover have "length vs < length path" using prefix_length_le [OF 1] assms(2) by (cases path rule: rev_cases) auto
      then have "\<not> prefix path vs" using prefix_length_le by fastforce
      ultimately show ?thesis by simp
    next
      case (2 r1)
      have "path @ r1 \<in> ?F" using tree_closedD [OF assms(1) f(1), of "path @ r1"] 2 assms(2) by simp
      moreover have "dissolve path (path @ r1) = Some vs" using 2 by (simp add: dissolve_def Let_def)
      moreover have "strict_prefix path (path @ r1)" using 2(3) by (simp add: strict_prefix_def)
      ultimately show ?thesis by blast
    qed
  qed
  have stay: "vs \<in> {ws \<in> ?F. \<not> prefix path ws}" if "ws \<in> ?F" "\<not> prefix path ws" "prefix vs ws" "vs \<noteq> []" for ws vs
    using tree_closedD [OF assms(1) that(1,3,4)] that(2,3) prefix_order.trans by blast
  have form: "\<exists>r. vs = path @ r \<and> r \<noteq> [] \<and> ws = butlast path @ r" if "strict_prefix path vs" "dissolve path vs = Some ws" for vs ws
    using that by (auto simp: strict_prefix_def prefix_def dissolve_def Let_def split: if_splits)
  let ?G = "{ws \<in> ?F. \<not> prefix path ws} \<union> {ws. \<exists>vs \<in> ?F. strict_prefix path vs \<and> dissolve path vs = Some ws}"
  have "vs \<in> ?G" if "ws \<in> ?G" "prefix vs ws" "vs \<noteq> []" for ws vs
    using that(1)
  proof
    assume "ws \<in> {ws \<in> ?F. \<not> prefix path ws}"
    then show ?thesis using stay that(2,3) by blast
  next
    assume "ws \<in> {ws. \<exists>vs \<in> ?F. strict_prefix path vs \<and> dissolve path vs = Some ws}"
    then obtain r where "path @ r \<in> ?F" "r \<noteq> []" "ws = butlast path @ r" using form by blast
    then show ?thesis using up [of r vs] that(2,3) by simp
  qed
  moreover have "folders (tree_dissolve path t) = ?G" by (simp add: tree_dissolve_def)
  ultimately show ?thesis unfolding tree_closed_def ancestors_def by blast
qed

section \<open>The paths of a move\<close>

lemma normalize_names:
  assumes "list_all folder_name ws" "ws \<noteq> []"
  shows "normalizeFolderPath (join_with SLASH ws)
    = (if MAX_FOLDER_DEPTH < length ws \<or> MAX_FOLDER_PATH_LENGTH < length (join_with SLASH ws) then None else Some (join_with SLASH ws))"
proof -
  let ?p = "join_with SLASH ws"
  have s: "segs ?p = ws" using assms by (intro segs_join) (auto simp: list_all_iff folder_name_def)
  show ?thesis
  proof (cases "folder_path ?p")
    case True
    then show ?thesis using normalize_fixed s by (auto simp: folder_path_def)
  next
    case False
    have "map trim ws = ws" by (rule map_idI, rule trim_trimmed) (use assms(1) in \<open>auto simp: list_all_iff folder_name_def\<close>)
    moreover have "filter (\<lambda>s. 0 < length s) ws = ws" by (rule filter_True) (use assms(1) in \<open>auto simp: list_all_iff folder_name_def\<close>)
    ultimately show ?thesis using False assms s
      by (auto simp: folder_path_def normalizeFolderPath_def Let_def simp flip: segs_def)
  qed
qed

text \<open>The new place of a moved or renamed folder, and when it is refused.\<close>

definition parent_place :: "units option \<Rightarrow> place" where
  "parent_place parent = (case parent of None \<Rightarrow> [] | Some p \<Rightarrow> segs p)"

definition place_refused :: "place \<Rightarrow> bool" where
  "place_refused ws \<longleftrightarrow> MAX_FOLDER_DEPTH < length ws \<or> MAX_FOLDER_PATH_LENGTH < length (join_with SLASH ws)"

lemma child_place:
  assumes "case parent of None \<Rightarrow> True | Some p \<Rightarrow> named p" "folder_name leaf"
  shows "normalizeFolderPath (case parent of Some p \<Rightarrow> p @ SLASH # leaf | None \<Rightarrow> leaf)
      = (if place_refused (parent_place parent @ [leaf]) then None else Some (join_with SLASH (parent_place parent @ [leaf])))"
    and "list_all folder_name (parent_place parent @ [leaf])"
proof -
  show n: "list_all folder_name (parent_place parent @ [leaf])" using assms by (auto simp: parent_place_def named_def split: option.splits)
  have "(case parent of Some p \<Rightarrow> p @ SLASH # leaf | None \<Rightarrow> leaf) = join_with SLASH (parent_place parent @ [leaf])"
    by (cases parent) (simp_all add: parent_place_def join_append)
  then show "normalizeFolderPath (case parent of Some p \<Rightarrow> p @ SLASH # leaf | None \<Rightarrow> leaf)
      = (if place_refused (parent_place parent @ [leaf]) then None else Some (join_with SLASH (parent_place parent @ [leaf])))"
    using normalize_names [OF n] by (simp add: place_refused_def)
qed

lemma segs_names: "list_all folder_name ws \<Longrightarrow> ws \<noteq> [] \<Longrightarrow> segs (join_with SLASH ws) = ws"
  by (rule segs_join) (auto simp: list_all_iff folder_name_def)

lemma named_parent: "named p \<Longrightarrow> case parentPath p of None \<Rightarrow> True | Some q \<Rightarrow> named q \<and> q \<noteq> []"
  by (cases rule: parent_cases) (auto simp: named_def)

lemma parent_place_butlast: "named p \<Longrightarrow> parent_place (parentPath p) = butlast (segs p)"
  by (cases rule: parent_cases) (auto simp: parent_place_def)

lemma named_last: "named p \<Longrightarrow> folder_name (last (segs p))"
  by (auto simp: named_def list_all_iff)

lemma moveFolder_named:
  assumes "named old" "case newParent of None \<Rightarrow> True | Some p \<Rightarrow> named p"
  shows "moveFolder ok old newParent c =
    (let new = parent_place newParent @ [last (segs old)]
     in if place_refused new \<or> (newParent \<noteq> None \<and> prefix (segs old) (parent_place newParent)) then (c, True)
        else renameFolderPath ok old (join_with SLASH new) c)"
proof -
  have "(case newParent of Some p \<Rightarrow> if p = [] then None else Some p | None \<Rightarrow> None) = newParent"
    using assms(2) named_nonempty by (auto split: option.splits)
  then show ?thesis using child_place [OF assms(2) named_last [OF assms(1)]]
    by (auto simp: moveFolder_def Let_def display_segs descendant_segs parent_place_def split: option.splits)
qed

lemma renameFolder_named:
  assumes "named old" "folder_name newName"
  shows "renameFolder ok old newName c =
    (let new = butlast (segs old) @ [newName]
     in if place_refused new then (c, True) else renameFolderPath ok old (join_with SLASH new) c)"
proof -
  have p: "(case parentPath old of Some p \<Rightarrow> if p = [] then None else Some p | None \<Rightarrow> None) = parentPath old"
    "case parentPath old of None \<Rightarrow> True | Some p \<Rightarrow> named p"
    using named_parent [OF assms(1)] by (auto split: option.splits)
  show ?thesis using child_place [OF p(2) assms(2)] by (auto simp: renameFolder_def Let_def p(1) parent_place_butlast [OF assms(1)])
qed

section \<open>Properties\<close>

text \<open>
  C35. Moving and renaming a folder refine the move of a subtree: unless the new path is too long or too
  deep, or the folder would move into itself (then nothing changes), exactly the folders and items at or
  below the old place are found at the same place below the new one, no item is lost, and every other
  folder and item keeps its place.
\<close>

theorem folder_move_refines:
  assumes "named old" "case newParent of None \<Rightarrow> True | Some p \<Rightarrow> named p" "folder_name newName"
  shows "(let new = parent_place newParent @ [last (segs old)]
      in if place_refused new \<or> (newParent \<noteq> None \<and> prefix (segs old) (parent_place newParent))
         then moveFolder ok old newParent c = (c, True)
         else tree_of (mem (fst (moveFolder ok old newParent c))) = tree_move (segs old) new (tree_of (mem c)))
    \<and> (let new = butlast (segs old) @ [newName]
       in if place_refused new then renameFolder ok old newName c = (c, True)
          else tree_of (mem (fst (renameFolder ok old newName c))) = tree_move (segs old) new (tree_of (mem c)))"
proof -
  have "list_all folder_name (parent_place newParent @ [last (segs old)])"
    using child_place(2) [OF assms(2) named_last [OF assms(1)]] .
  moreover have "list_all folder_name (butlast (segs old) @ [newName])"
    using assms(1,3) by (auto simp: named_def list_all_iff dest: in_set_butlastD)
  ultimately show ?thesis
    by (auto simp: moveFolder_named [OF assms(1,2)] renameFolder_named [OF assms(1,3)] Let_def segs_names
        rename_refines [OF named_nonempty [OF assms(1)]])
qed

text \<open>
  C36. Removing a folder refines the removal from the tree: with its contents, exactly the folders and
  items at or below it are gone; without, each of them moves up by this one segment, and none is lost.
\<close>

theorem folder_remove_refines:
  assumes "named path" "paths_named (mem c)"
  shows "tree_of (mem (fst (removeFolderCascade ok path deleteContents c)))
    = (if deleteContents then tree_delete (segs path) (tree_of (mem c)) else tree_dissolve (segs path) (tree_of (mem c)))"
  by (simp add: delete_refines [OF named_nonempty [OF assms(1)]] dissolve_refines [OF assms])

text \<open>
  The folders above a folder exist: adding, moving, renaming and removing folders keep the explicit
  folders closed under their ancestors.
\<close>

theorem folders_closed:
  assumes "tree_closed (tree_of (mem c))" "named old" "case newParent of None \<Rightarrow> True | Some p \<Rightarrow> named p"
    and "folder_name newName" "paths_named (mem c)"
  shows "tree_closed (tree_of (mem (fst (addGroup ok path c)))) \<and> tree_closed (tree_of (mem (fst (moveFolder ok old newParent c))))
    \<and> tree_closed (tree_of (mem (fst (renameFolder ok old newName c))))
    \<and> tree_closed (tree_of (mem (fst (removeFolderCascade ok old deleteContents c))))"
proof (intro conjI)
  show "tree_closed (tree_of (mem (fst (addGroup ok path c))))"
  proof (cases "normalizeFolderPath path")
    case (Some p)
    have "segs ` (set (getAncestorPaths p) \<union> set (explicitGroups (mem c))) = ancestors (segs p) \<union> folders (tree_of (mem c))"
      by (simp only: image_Un ancestors_path folders_simps)
    then show ?thesis using assms(1) Some
      by (auto simp: addGroup_def tree_closed_def ancestors_def simp del: image_Un dest: prefix_order.trans)
  qed (simp add: addGroup_def assms(1))
  show "tree_closed (tree_of (mem (fst (moveFolder ok old newParent c))))"
    using closed_move [OF assms(1) segs_nonempty] assms(1)
    by (simp add: moveFolder_named [OF assms(2,3)] Let_def rename_refines [OF named_nonempty [OF assms(2)]])
  show "tree_closed (tree_of (mem (fst (renameFolder ok old newName c))))"
    using closed_move [OF assms(1) segs_nonempty] assms(1)
    by (simp add: renameFolder_named [OF assms(2,4)] Let_def rename_refines [OF named_nonempty [OF assms(2)]])
  show "tree_closed (tree_of (mem (fst (removeFolderCascade ok old deleteContents c))))"
    using closed_delete [OF assms(1)] closed_dissolve [OF assms(1) segs_nonempty]
    by (cases deleteContents) (simp_all add: delete_refines [OF named_nonempty [OF assms(2)]] dissolve_refines [OF assms(2,5)])
qed

text \<open>
  A move checks the depth of the folder itself and not of what it contains: when a subfolder ends up
  deeper than \<open>MAX_FOLDER_DEPTH\<close>, the store holds a folder whose path is not a valid one, and renaming
  it, with any name, does nothing.
\<close>

theorem deep_move_stuck:
  assumes "named old" "named p" "\<not> prefix (segs old) (segs p)" "\<not> place_refused (segs p @ [last (segs old)])"
    and "sub \<in> set (explicitGroups (mem c))" "named sub" "isDescendantOrSelf sub old"
    and "MAX_FOLDER_DEPTH < Suc (length (segs p)) + (length (segs sub) - length (segs old))"
  shows "\<exists>g \<in> set (explicitGroups (mem (fst (moveFolder ok old (Some p) c)))).
    \<not> folder_path g \<and> normalizeFolderPath g = None
    \<and> (\<forall>ok' newName. folder_name newName \<longrightarrow> renameFolder ok' g newName (fst (moveFolder ok old (Some p) c)) = (fst (moveFolder ok old (Some p) c), True))"
proof -
  let ?c = "fst (moveFolder ok old (Some p) c)" and ?new = "segs p @ [last (segs old)]"
  let ?r = "drop (length (segs old)) (segs sub)"
  have names: "list_all folder_name (?new @ ?r)"
    using assms(2,6) named_last [OF assms(1)] by (auto simp: named_def list_all_iff dest: in_set_dropD)
  let ?g = "join_with SLASH (?new @ ?r)"
  have sg: "segs ?g = ?new @ ?r" using segs_names [OF names] by simp
  have new: "segs (join_with SLASH ?new) = ?new" using names by (intro segs_names) auto
  have "tree_of (mem ?c) = tree_move (segs old) ?new (tree_of (mem c))"
    using rename_refines [OF named_nonempty [OF assms(1)], of ok "join_with SLASH ?new" c] assms(3,4) new
    by (simp add: moveFolder_named assms(1,2) parent_place_def Let_def)
  then have "folders (tree_of (mem ?c)) = relocate (segs old) ?new ` segs ` set (explicitGroups (mem c)) \<union> ancestors ?new"
    by (simp add: tree_move_def)
  moreover have "relocate (segs old) ?new (segs sub) = segs ?g" using assms(7) sg by (simp add: relocate_def descendant_segs)
  ultimately have "segs ?g \<in> segs ` set (explicitGroups (mem ?c))" using assms(5) by (metis UnI1 folders_simps(3) image_eqI)
  then have g: "?g \<in> set (explicitGroups (mem ?c))" by auto
  have deep: "MAX_FOLDER_DEPTH < length (segs ?g)" using assms(8) sg by simp
  have n: "named ?g" using names sg by (simp add: named_def)
  have "\<not> folder_path ?g" using deep by (simp add: folder_path_def)
  moreover have "normalizeFolderPath ?g = None"
    using normalize_names [OF names] deep sg by simp
  moreover have "renameFolder ok' ?g newName ?c = (?c, True)" if "folder_name newName" for ok' newName
    using deep unfolding renameFolder_named [OF n that] Let_def place_refused_def by simp
  ultimately show ?thesis using g by blast
qed

section \<open>Examples\<close>

text \<open>The folders \<open>a\<close>, \<open>a/c\<close> and \<open>b\<close>, and a folder at depth nine.\<close>

definition example_core :: "nat core" where
  "example_core = (new_core empty_config)\<lparr>mem := empty_config\<lparr>explicitGroups := [[97], [97, 47, 99], [98]]\<rparr>\<rparr>"

definition example_deep :: units where
  "example_deep = join_with SLASH (replicate 9 [98])"

lemma example_names: "folder_name [97]" "folder_name [98]" "folder_name [99]"
  by (simp_all add: folder_name_def trimmed_def is_blank_def SLASH_def DOT_def BACKSLASH_def)

lemma example_segs [simp]: "segs [97] = [[97]]" "segs [98] = [[98]]" "segs [97, 47, 99] = [[97], [99]]" "segs example_deep = replicate 9 [98]"
proof -
  show "segs example_deep = replicate 9 [98]" unfolding example_deep_def by (rule segs_join) (simp_all add: SLASH_def list_all_iff)
qed (simp_all add: segs_def SLASH_def)

lemma example_named: "named [97]" "named [98]" "named [97, 47, 99]" "named example_deep"
  using example_names by (simp_all add: named_def list_all_iff)

lemma example_length: "length (join_with SLASH (replicate n [98 :: nat] @ [[97]])) = 2 * n + 1"
  using join_length [of "replicate n [98] @ [[97]]" SLASH] by (simp add: length_concat sum_list_replicate)

theorem folder_move_refines_witness:
  "tree_of (mem (fst (moveFolder (\<lambda>_. True) [97] (Some [98]) example_core)))
    = tree_move [[97]] [[98], [97]] (tree_of (mem example_core))"
  using folder_move_refines [of "[97]" "Some [98]" "[99]" "\<lambda>_. True" example_core] example_named example_names
  by (simp add: place_refused_def parent_place_def MAX_FOLDER_DEPTH_def MAX_FOLDER_PATH_LENGTH_def Let_def)

lemma example_paths: "paths_named (mem example_core)" "tree_closed (tree_of (mem example_core))"
proof -
  show "paths_named (mem example_core)" using example_named
    by (simp add: paths_named_def example_core_def new_core_def empty_config_def grouped_named_def)
  show "tree_closed (tree_of (mem example_core))"
    by (auto simp: tree_closed_def ancestors_def tree_of_def example_core_def prefix_Cons)
qed

theorem folder_remove_refines_witness:
  "tree_of (mem (fst (removeFolderCascade (\<lambda>_. True) [97] False example_core))) = tree_dissolve [[97]] (tree_of (mem example_core))"
  using folder_remove_refines [OF example_named(1) example_paths(1), of "\<lambda>_. True" False] by simp

theorem folders_closed_witness:
  "tree_closed (tree_of (mem (fst (removeFolderCascade (\<lambda>_. True) [97] True example_core))))"
  using folders_closed [OF example_paths(2) example_named(1), of None "[99]" "\<lambda>_. True" "[]" True] example_names example_paths(1) by simp

theorem deep_move_stuck_witness:
  "\<exists>g \<in> set (explicitGroups (mem (fst (moveFolder (\<lambda>_. True) [97] (Some example_deep) example_core)))). normalizeFolderPath g = None"
proof -
  have "\<not> prefix (segs [97]) (segs example_deep)" using set_mono_prefix [of "segs [97]" "segs example_deep"] by auto
  moreover have "\<not> place_refused (segs example_deep @ [last (segs [97])])"
    using example_length [of 9] by (simp add: place_refused_def MAX_FOLDER_DEPTH_def MAX_FOLDER_PATH_LENGTH_def)
  moreover have "[97, 47, 99] \<in> set (explicitGroups (mem example_core))" by (simp add: example_core_def)
  moreover have "isDescendantOrSelf [97, 47, 99] [97]" by (simp add: isDescendantOrSelf_def SLASH_def)
  moreover have "MAX_FOLDER_DEPTH < Suc (length (segs example_deep)) + (length (segs [97, 47, 99]) - length (segs [97]))"
    by (simp add: MAX_FOLDER_DEPTH_def)
  ultimately show ?thesis
    using deep_move_stuck [OF example_named(1,4), of "[97, 47, 99]" example_core "\<lambda>_. True"] example_named(3) by blast
qed

end
