(* ===== verification/Profile_Links.thy ===== *)
theory Profile_Links
  imports Profile_Folders
begin

text \<open>
  The links between the records of the profile store: credentials (\<open>removeAuthProfile\<close>), device templates
  (\<open>removeDeviceTemplate\<close>) and BMC gateways, with the saves of a deletion in their order and what is
  restored when one of them fails. A new revision (\<open>randomUUID\<close>) is an argument, by the id of the record.
\<close>

section \<open>Credentials\<close>

definition clear_auth_stamp :: "key \<Rightarrow> 'v server_origin option \<Rightarrow> 'v server_origin option" where
  "clear_auth_stamp p org =
     map_option (\<lambda>x. if syncedAuthProfileId x = Some p then x\<lparr>syncedAuthProfileId := None\<rparr> else x) org"

definition clear_bmc_stamp :: "key \<Rightarrow> 'v server_origin option \<Rightarrow> 'v server_origin option" where
  "clear_bmc_stamp p org =
     (case org of
        None \<Rightarrow> None
      | Some x \<Rightarrow>
          (case templated x of
             None \<Rightarrow> Some x
           | Some t \<Rightarrow>
               if st_ipmiAuthProfileId t = Some p
               then Some (x\<lparr>templated := collapse (t\<lparr>st_ipmiAuthProfileId := None\<rparr>)\<rparr>)
               else Some x))"

definition links_profile :: "key \<Rightarrow> 'v server_config \<Rightarrow> bool" where
  "links_profile p s \<longleftrightarrow> authProfileId s = Some p \<or> ipmiAuthProfileId s = Some p"

definition clear_auth :: "key \<Rightarrow> 'v server_config \<Rightarrow> 'v server_config" where
  "clear_auth p s =
     (let ssh = (authProfileId s = Some p);
          bmc = (ipmiAuthProfileId s = Some p);
          org = (if ssh then clear_auth_stamp p (server_origin s) else server_origin s);
          former = (if ssh then clear_auth_stamp p (formerlySynced s) else formerlySynced s)
      in s\<lparr>authProfileId := (if ssh then None else authProfileId s),
           ipmiAuthProfileId := (if bmc then None else ipmiAuthProfileId s),
           server_origin := (if bmc then clear_bmc_stamp p org else org),
           formerlySynced := (if bmc then clear_bmc_stamp p former else former)\<rparr>)"

definition field_is :: "key \<Rightarrow> (key \<times> 'v) option \<Rightarrow> bool" where
  "field_is p f = (case f of None \<Rightarrow> False | Some (v, _) \<Rightarrow> v = p)"

definition template_links :: "key \<Rightarrow> 'v device_template \<Rightarrow> bool" where
  "template_links p t \<longleftrightarrow> field_is p (fields_authProfileId t) \<or> field_is p (fields_ipmiAuthProfileId t)"

definition clear_template :: "key \<Rightarrow> key \<Rightarrow> 'v device_template \<Rightarrow> 'v device_template" where
  "clear_template p uuid t =
     t\<lparr>fields_authProfileId := (if field_is p (fields_authProfileId t) then None else fields_authProfileId t),
       fields_ipmiAuthProfileId := (if field_is p (fields_ipmiAuthProfileId t) then None else fields_ipmiAuthProfileId t),
       template_revision := uuid\<rparr>"

text \<open>The change in memory.\<close>

definition sweep_auth :: "(key \<Rightarrow> key) \<Rightarrow> key \<Rightarrow> 'v config \<Rightarrow> 'v config" where
  "sweep_auth uuid p m =
     m\<lparr>authProfiles := AList.delete p (authProfiles m),
       servers := map (\<lambda>(k, s). (k, clear_auth p s)) (servers m),
       inventorySources :=
         map (\<lambda>(k, x). if source_authProfileId x = Some p
                        then (k, x\<lparr>source_authProfileId := None, source_revision := uuid k\<rparr>) else (k, x)) (inventorySources m),
       deviceTemplates :=
         map (\<lambda>(k, t). if template_links p t then (k, clear_template p (uuid k) t) else (k, t)) (deviceTemplates m)\<rparr>"

text \<open>The entries put back.\<close>

definition restore :: "(key \<times> 'a) list \<Rightarrow> (key \<times> 'a) list \<Rightarrow> (key \<times> 'a) list" where
  "restore previous xs = fold (\<lambda>(k, x). AList.update k x) previous xs"

text \<open>Saves one after the other, each if it is needed, up to the first that fails.\<close>

fun save_chain :: "storage_outcome \<Rightarrow> (store \<times> bool) list \<Rightarrow> 'v core \<Rightarrow> 'v core \<times> bool" where
  "save_chain ok [] c = (c, True)"
| "save_chain ok ((st, needed) # sts) c =
     (if \<not> needed then save_chain ok sts c else if ok st then save_chain ok sts (save ok st c) else (save ok st c, False))"

definition removeAuthProfile :: "storage_outcome \<Rightarrow> (key \<Rightarrow> key) \<Rightarrow> key \<Rightarrow> 'v core \<Rightarrow> 'v core \<times> bool" where
  "removeAuthProfile ok uuid p c =
     (let m = mem c;
          serversChanged = list_ex (\<lambda>(_, s). links_profile p s) (servers m);
          previousSources = filter (\<lambda>(_, x). source_authProfileId x = Some p) (inventorySources m);
          previousTemplates = filter (\<lambda>(_, t). template_links p t) (deviceTemplates m);
          c1 = c\<lparr>mem := sweep_auth uuid p m\<rparr>
      in if ok AuthProfiles then
           (case save_chain ok [(Servers, serversChanged), (InventorySources, previousSources \<noteq> []),
                (DeviceTemplates, previousTemplates \<noteq> [])] (save ok AuthProfiles c1) of
              (c2, done) \<Rightarrow> (emitChanged c2, done))
         else
           (emitChanged (c1\<lparr>mem := (mem c1)\<lparr>
              inventorySources := restore previousSources (inventorySources (mem c1)),
              deviceTemplates := restore previousTemplates (deviceTemplates (mem c1))\<rparr>\<rparr>), False))"

section \<open>Device templates\<close>

definition addOrUpdateDeviceTemplate :: "storage_outcome \<Rightarrow> key \<Rightarrow> key \<Rightarrow> 'v device_template \<Rightarrow> 'v core \<Rightarrow> 'v core \<times> bool" where
  "addOrUpdateDeviceTemplate ok uuid k t c =
     (let previous = map_of (deviceTemplates (mem c)) k;
          c1 = save ok DeviceTemplates
                 (c\<lparr>mem := (mem c)\<lparr>deviceTemplates := AList.update k (t\<lparr>template_revision := uuid\<rparr>) (deviceTemplates (mem c))\<rparr>\<rparr>)
      in if ok DeviceTemplates then (emitChanged c1, True)
         else
           (c1\<lparr>mem := (mem c1)\<lparr>deviceTemplates :=
              (case previous of
                 Some q \<Rightarrow> AList.update k q (deviceTemplates (mem c1))
               | None \<Rightarrow> AList.delete k (deviceTemplates (mem c1)))\<rparr>\<rparr>, False))"

definition uses_template :: "key \<Rightarrow> 'v inventory_source \<Rightarrow> bool" where
  "uses_template k x = (case templateRules x of None \<Rightarrow> False | Some rules \<Rightarrow> list_ex (\<lambda>(t, _). t = k) rules)"

definition removeDeviceTemplate :: "storage_outcome \<Rightarrow> (key \<Rightarrow> key) \<Rightarrow> key \<Rightarrow> 'v core \<Rightarrow> 'v core \<times> bool" where
  "removeDeviceTemplate ok uuid k c =
     (let m = mem c;
          previous = map_of (deviceTemplates m) k;
          previousSources = filter (\<lambda>(_, x). uses_template k x) (inventorySources m);
          c1 = c\<lparr>mem := m\<lparr>deviceTemplates := AList.delete k (deviceTemplates m),
            inventorySources :=
              map (\<lambda>(i, x). if uses_template k x
                             then (i, x\<lparr>templateRules := map_option (filter (\<lambda>(t, _). t \<noteq> k)) (templateRules x), source_revision := uuid i\<rparr>)
                             else (i, x)) (inventorySources m)\<rparr>\<rparr>
      in if previous \<noteq> None \<and> \<not> ok DeviceTemplates then
           (emitChanged (c1\<lparr>mem := (mem c1)\<lparr>
              deviceTemplates := (case previous of None \<Rightarrow> deviceTemplates (mem c1) | Some t \<Rightarrow> AList.update k t (deviceTemplates (mem c1))),
              inventorySources := restore previousSources (inventorySources (mem c1))\<rparr>\<rparr>), False)
         else
           (case save_chain ok [(DeviceTemplates, previous \<noteq> None), (InventorySources, previousSources \<noteq> [])] c1 of
              (c2, done) \<Rightarrow> (emitChanged c2, done)))"

section \<open>What a deletion leaves\<close>

text \<open>A restored list is the list before the change, when only the entries to be restored were changed.\<close>

lemma alist_of_keys: "distinct (map fst xs) \<Longrightarrow> xs = map (\<lambda>k. (k, the (map_of xs k))) (map fst xs)"
proof (rule nth_equalityI)
  fix i assume d: "distinct (map fst xs)" and i: "i < length xs"
  obtain k x where x: "xs ! i = (k, x)" by (cases "xs ! i")
  then have "map_of xs k = Some x" using map_of_is_SomeI [OF d] nth_mem [OF i] by metis
  then show "xs ! i = map (\<lambda>k. (k, the (map_of xs k))) (map fst xs) ! i" using i x by simp
qed simp

lemma alist_eqI: "distinct (map fst xs) \<Longrightarrow> map fst ys = map fst xs \<Longrightarrow> map_of ys = map_of xs \<Longrightarrow> ys = xs"
  using alist_of_keys [of xs] alist_of_keys [of ys] by metis

lemma restore_keys: "fst ` set ps \<subseteq> fst ` set xs \<Longrightarrow> map fst (restore ps xs) = map fst xs"
proof (induction ps arbitrary: xs)
  case (Cons p ps)
  obtain k x where p: "p = (k, x)" by (cases p)
  have "map fst (AList.update k x xs) = map fst xs" using Cons.prems p by (simp add: AList.update_keys)
  moreover have "fst ` set ps \<subseteq> fst ` set (AList.update k x xs)"
    using Cons.prems \<open>map fst (AList.update k x xs) = map fst xs\<close> by (metis image_set insert_subset list.simps(15,9))
  ultimately show ?case using Cons.IH [of "AList.update k x xs"] p by (simp add: restore_def)
qed (simp add: restore_def)

lemma restore_map_of: "distinct (map fst ps) \<Longrightarrow> map_of (restore ps xs) = map_of xs ++ map_of ps"
proof (induction ps arbitrary: xs)
  case (Cons p ps)
  obtain k x where p: "p = (k, x)" by (cases p)
  have "map_of (restore ps (AList.update k x xs)) = (map_of xs)(k \<mapsto> x) ++ map_of ps"
    using Cons by (simp add: update_conv')
  moreover have "k \<notin> dom (map_of ps)" using Cons.prems p by (simp add: dom_map_of_conv_image_fst)
  ultimately show ?case using p by (auto simp: restore_def fun_eq_iff map_add_def split: option.splits)
qed (simp add: restore_def)

lemma restore_map:
  assumes "distinct (map fst xs)"
  shows "restore (filter P xs) (map (\<lambda>(k, x). if P (k, x) then (k, f k x) else (k, x)) xs) = xs" (is "restore ?ps (map ?g xs) = xs")
proof (rule alist_eqI [OF assms])
  let ?ys = "map ?g xs"
  have keys: "map fst ?ys = map fst xs" by (auto split: prod.splits)
  then have sets: "fst ` set ?ys = fst ` set xs" by (metis set_map)
  have "fst ` set ?ps \<subseteq> fst ` set xs" by auto
  then show "map fst (restore ?ps ?ys) = map fst xs" using restore_keys [of ?ps ?ys] keys unfolding sets by simp
  have d: "distinct (map fst ?ps)" using assms by (rule distinct_map_filter)
  have dy: "distinct (map fst ?ys)" unfolding keys by (rule assms)
  have "map_of (restore ?ps ?ys) k = map_of xs k" for k
  proof (cases "map_of xs k")
    case None
    then have "k \<notin> fst ` set xs" by (simp add: map_of_eq_None_iff)
    then have "map_of ?ys k = None" "map_of ?ps k = None" unfolding map_of_eq_None_iff sets by auto
    then show ?thesis unfolding restore_map_of [OF d] using None by (simp add: map_add_def)
  next
    case (Some x)
    then have kx: "(k, x) \<in> set xs" by (rule map_of_SomeD)
    show ?thesis
    proof (cases "P (k, x)")
      case True
      then have "map_of ?ps k = Some x" using map_of_is_SomeI [OF d] kx by simp
      then show ?thesis unfolding restore_map_of [OF d] using Some by simp
    next
      case False
      then have "(k, x) \<in> set ?ys" using kx by force
      then have "map_of ?ys k = Some x" by (rule map_of_is_SomeI [OF dy])
      moreover have "map_of ?ps k = None"
        using False map_of_is_SomeI [OF assms] Some by (auto simp: map_of_eq_None_iff)
      ultimately show ?thesis unfolding restore_map_of [OF d] using Some by (simp add: map_add_def)
    qed
  qed
  then show "map_of (restore ?ps (map ?g xs)) = map_of xs" by auto
qed

lemma save_emitted [simp]: "emitted (save ok st c) = emitted c"
  by (simp add: save_def)

lemma chain_mem [simp]: "mem (fst (save_chain ok sts c)) = mem c" "emitted (fst (save_chain ok sts c)) = emitted c"
  by (induction ok sts c rule: save_chain.induct) simp_all

text \<open>A chain saves the stores it names, and no other.\<close>

lemma chain_authProfiles:
  "AuthProfiles \<notin> fst ` set sts \<Longrightarrow> authProfiles (disk (fst (save_chain ok sts c))) = authProfiles (disk c)"
proof (induction ok sts c rule: save_chain.induct)
  case (2 ok st needed sts c)
  have "authProfiles (disk (save ok st c)) = authProfiles (disk c)" using "2.prems" by (cases st) (simp_all add: save_def)
  then show ?case using 2 by simp
qed simp

lemma clear_auth_unlinked: "\<not> links_profile p (clear_auth p s)"
  by (simp add: links_profile_def clear_auth_def Let_def)

lemma clear_auth_other: "\<not> links_profile p s \<Longrightarrow> clear_auth p s = s"
  by (simp add: links_profile_def clear_auth_def Let_def)

lemma clear_template_unlinked: "\<not> template_links p (clear_template p u t)"
  by (simp add: template_links_def clear_template_def field_is_def split: option.splits)

definition linked_records :: "key \<Rightarrow> 'v config \<Rightarrow> bool" where
  "linked_records p m \<longleftrightarrow>
     list_ex (\<lambda>(_, x). source_authProfileId x = Some p) (inventorySources m)
     \<or> list_ex (\<lambda>(_, t). template_links p t) (deviceTemplates m)"

lemma sweep_unlinked: "\<not> linked_records p (sweep_auth uuid p m)"
  by (auto simp: linked_records_def sweep_auth_def list_ex_iff clear_template_unlinked split: prod.splits if_splits)

lemma delete_gone [simp]: "k \<notin> fst ` set (AList.delete k xs)"
  by (auto simp: AList.delete_eq)

lemma sweep_fields:
  "authProfiles (sweep_auth uuid p m) = AList.delete p (authProfiles m)"
  "list_all (\<lambda>(_, s). \<not> links_profile p s) (servers (sweep_auth uuid p m))"
  by (auto simp: sweep_auth_def list_all_iff clear_auth_unlinked)

lemma restore_sources:
  assumes "distinct (map fst xs)"
  shows "restore (filter (\<lambda>(_, x). P x) xs) (map (\<lambda>(k, x). if P x then (k, f k x) else (k, x)) xs) = xs"
  using restore_map [OF assms, of "\<lambda>(_, x). P x" f] by simp

text \<open>What is left when the profile could not be removed from the disk.\<close>

lemma removeAuth_failed:
  assumes "distinct (map fst (inventorySources (mem c)))" "distinct (map fst (deviceTemplates (mem c)))" "\<not> ok AuthProfiles"
  shows "mem (fst (removeAuthProfile ok uuid p c)) =
      (sweep_auth uuid p (mem c))\<lparr>inventorySources := inventorySources (mem c), deviceTemplates := deviceTemplates (mem c)\<rparr>"
    "disk (fst (removeAuthProfile ok uuid p c)) = disk c" "emitted (fst (removeAuthProfile ok uuid p c)) = Suc (emitted c)"
  using assms(3) restore_sources [OF assms(1), of "\<lambda>x. source_authProfileId x = Some p"] restore_sources [OF assms(2), of "template_links p"]
  by (simp_all add: removeAuthProfile_def Let_def emitChanged_def) (simp add: sweep_auth_def)

section \<open>Stamps\<close>

definition auth_stamp :: "'v server_origin option \<Rightarrow> key option" where
  "auth_stamp org = Option.bind org syncedAuthProfileId"

definition bmc_stamp :: "'v server_origin option \<Rightarrow> key option" where
  "bmc_stamp org = Option.bind (Option.bind org templated) st_ipmiAuthProfileId"

definition gateway_stamp :: "'v server_origin option \<Rightarrow> key option" where
  "gateway_stamp org = Option.bind (Option.bind org templated) st_ipmiGatewayServerId"

text \<open>Collapsing a bag without stamps loses none.\<close>

lemma collapse_stamps:
  "Option.bind (collapse t) st_ipmiAuthProfileId = st_ipmiAuthProfileId t"
  "Option.bind (collapse t) st_ipmiGatewayServerId = st_ipmiGatewayServerId t"
  by (auto simp: collapse_def templatedHasAnyStamp_def)

lemmas stamp_defs = auth_stamp_def bmc_stamp_def gateway_stamp_def

lemma clear_auth_stamp_stamps:
  "auth_stamp (clear_auth_stamp p org) = (if auth_stamp org = Some p then None else auth_stamp org)"
  "bmc_stamp (clear_auth_stamp p org) = bmc_stamp org" "gateway_stamp (clear_auth_stamp p org) = gateway_stamp org"
  by (cases org; simp add: stamp_defs clear_auth_stamp_def)+

lemma clear_bmc_stamp_stamps:
  "auth_stamp (clear_bmc_stamp p org) = auth_stamp org"
  "bmc_stamp (clear_bmc_stamp p org) = (if bmc_stamp org = Some p then None else bmc_stamp org)"
  "gateway_stamp (clear_bmc_stamp p org) = gateway_stamp org"
  by (cases org; simp add: stamp_defs clear_bmc_stamp_def collapse_stamps split: option.splits)+

lemma clear_gateway_stamp_stamps:
  "auth_stamp (clear_gateway_stamp (Some g) org) = auth_stamp org" "bmc_stamp (clear_gateway_stamp (Some g) org) = bmc_stamp org"
  "gateway_stamp (clear_gateway_stamp (Some g) org) = (if gateway_stamp org = Some g then None else gateway_stamp org)"
  by (cases org; simp add: stamp_defs clear_gateway_stamp_def collapse_stamps split: option.splits)+

section \<open>Gateways\<close>

definition gateways_resolve :: "'v config \<Rightarrow> bool" where
  "gateways_resolve m \<longleftrightarrow>
     list_all (\<lambda>(_, s). case ipmiGatewayServerId s of None \<Rightarrow> True | Some g \<Rightarrow> g \<in> fst ` set (servers m)) (servers m)"

lemma clear_gateway_value: "ipmiGatewayServerId (clear_gateway ks s) = (case ipmiGatewayServerId s of None \<Rightarrow> None | Some g \<Rightarrow> if g \<in> set ks then None else Some g)"
  by (simp add: clear_gateway_def split: option.splits)

text \<open>Removing servers and clearing the links to them.\<close>

lemma gateways_swept:
  assumes "gateways_resolve m" "servers m' = map (\<lambda>(k, s). (k, clear_gateway ks s)) (filter P (servers m))"
    and "fst ` set (servers m) \<subseteq> set ks \<union> fst ` set (filter P (servers m))"
  shows "gateways_resolve m'"
proof -
  have keys: "fst ` set (servers m') = fst ` set (filter P (servers m))" using assms(2) by (force simp: image_iff)
  have "case ipmiGatewayServerId (clear_gateway ks s) of None \<Rightarrow> True | Some g \<Rightarrow> g \<in> fst ` set (filter P (servers m))"
    if "(k, s) \<in> set (servers m)" for k s
  proof (cases "ipmiGatewayServerId s")
    case (Some g)
    then have "g \<in> fst ` set (servers m)" using assms(1) that by (fastforce simp: gateways_resolve_def list_all_iff)
    then have "g \<in> set ks \<or> g \<in> fst ` set (filter P (servers m))" using assms(3) by blast
    then show ?thesis using Some by (auto simp: clear_gateway_value)
  qed (simp add: clear_gateway_value)
  then show ?thesis unfolding gateways_resolve_def keys by (auto simp: assms(2) list_all_iff)
qed

section \<open>Properties\<close>

text \<open>
  C37. Whatever saves fail, deleting a credential profile leaves no server in memory linked to it and tells
  listeners exactly once. If the profile left the disk, no inventory source or template in memory links it either;
  if it did not, sources and templates are as they were and the disk is untouched: a profile that is
  still on disk never has its links cleared there.
\<close>

theorem auth_profile_removed:
  assumes "distinct (map fst (inventorySources (mem c)))" "distinct (map fst (deviceTemplates (mem c)))"
  shows "let c' = fst (removeAuthProfile ok uuid p c) in
    p \<notin> fst ` set (authProfiles (mem c')) \<and> list_all (\<lambda>(_, s). \<not> links_profile p s) (servers (mem c'))
    \<and> emitted c' = Suc (emitted c)
    \<and> (if ok AuthProfiles then \<not> linked_records p (mem c')
       else inventorySources (mem c') = inventorySources (mem c) \<and> deviceTemplates (mem c') = deviceTemplates (mem c))
    \<and> (if p \<in> fst ` set (authProfiles (disk c')) then disk c' = disk c else True)"
proof (cases "ok AuthProfiles")
  case True
  let ?c = "fst (removeAuthProfile ok uuid p c)"
  have d: "authProfiles (disk ?c) = AList.delete p (authProfiles (mem c))"
    using True by (simp add: removeAuthProfile_def Let_def case_prod_unfold emitChanged_def chain_authProfiles del: save_chain.simps)
      (simp add: save_def sweep_auth_def)
  have "mem ?c = sweep_auth uuid p (mem c)" "emitted ?c = Suc (emitted c)"
    using True by (simp_all add: removeAuthProfile_def Let_def case_prod_unfold emitChanged_def del: save_chain.simps)
  then show ?thesis unfolding Let_def d using True sweep_unlinked [of p uuid "mem c"] by (simp add: sweep_fields)
next
  case False
  then show ?thesis by (simp add: Let_def sweep_fields removeAuth_failed assms)
qed

text \<open>
  C38. A stamp of the inventory synchronisation is dropped exactly with the link it records: deleting a
  profile or a gateway clears a stamp if and only if the server is linked to the deleted record and the
  stamp names it. The stamp of a link that the user changed or cleared survives, as do all other stamps,
  on synchronised and on detached servers alike.
\<close>

theorem stamps_follow_links:
  "let s' = clear_auth p s; g' = clear_gateway ks s in
    list_all (\<lambda>(org', org).
        auth_stamp org' = (if authProfileId s = Some p \<and> auth_stamp org = Some p then None else auth_stamp org)
        \<and> bmc_stamp org' = (if ipmiAuthProfileId s = Some p \<and> bmc_stamp org = Some p then None else bmc_stamp org)
        \<and> gateway_stamp org' = gateway_stamp org)
      [(server_origin s', server_origin s), (formerlySynced s', formerlySynced s)]
    \<and> list_all (\<lambda>(org', org).
        auth_stamp org' = auth_stamp org \<and> bmc_stamp org' = bmc_stamp org
        \<and> gateway_stamp org' =
            (case ipmiGatewayServerId s of
               None \<Rightarrow> gateway_stamp org
             | Some g \<Rightarrow> if g \<in> set ks \<and> gateway_stamp org = Some g then None else gateway_stamp org))
      [(server_origin g', server_origin s), (formerlySynced g', formerlySynced s)]"
  by (simp add: Let_def clear_auth_def clear_gateway_def clear_auth_stamp_stamps clear_bmc_stamp_stamps clear_gateway_stamp_stamps
      split: option.split)

text \<open>
  No deletion leaves a dangling gateway: if every gateway link names a server of the store, so it does
  after a server or a folder with its servers was deleted, whichever saves fail, and the deleted servers
  are gone.
\<close>

theorem gateways_kept:
  assumes "gateways_resolve (mem c)"
  shows "gateways_resolve (mem (fst (removeServer ok k c))) \<and> k \<notin> fst ` set (servers (mem (fst (removeServer ok k c))))
    \<and> gateways_resolve (mem (fst (removeFolderCascade ok path deleteContents c)))"
proof -
  have r: "servers (mem (fst (removeServer ok k c))) = map (\<lambda>(i, s). (i, clear_gateway [k] s)) (filter (\<lambda>x. k \<noteq> fst x) (servers (mem c)))"
    by (simp add: removeServer_def Let_def clearGatewayReferencesTo_def dropServerStatusEntry_def AList.delete_eq case_prod_unfold)
  then have "gateways_resolve (mem (fst (removeServer ok k c)))" by (rule gateways_swept [OF assms]) auto
  moreover have "gateways_resolve (mem (fst (removeFolderCascade ok path deleteContents c)))"
  proof (cases deleteContents)
    case True
    let ?ks = "map fst (filter (\<lambda>(_, s). in_folder path (server_group s)) (servers (mem c)))"
    have "servers (mem (fst (removeFolderCascade ok path deleteContents c)))
        = map (\<lambda>(i, s). (i, clear_gateway ?ks s)) (filter (\<lambda>(_, s). \<not> in_folder path (server_group s)) (servers (mem c)))"
      using True by (simp add: removeFolderCascade_def Let_def clearGatewayReferencesTo_def fold_mem)
    then show ?thesis by (rule gateways_swept [OF assms]) (auto simp: image_iff)
  next
    case False
    let ?f = "\<lambda>(i, s). (i, s\<lparr>server_group := reparent_group path (server_group s)\<rparr>)"
    have m: "servers (mem (fst (removeFolderCascade ok path deleteContents c))) = map ?f (servers (mem c))"
      using False by (simp add: removeFolderCascade_def Let_def)
    have "fst ` set (map ?f (servers (mem c))) = fst ` set (servers (mem c))" by (force simp: image_iff)
    then show ?thesis using assms unfolding gateways_resolve_def m by (auto simp: list_all_iff split: option.splits)
  qed
  moreover have "k \<notin> fst ` set (servers (mem (fst (removeServer ok k c))))" unfolding r by auto
  ultimately show ?thesis by blast
qed

text \<open>
  Deleting a server drops its live status, deleting its folder does not: the status of every server
  that a folder deletion removes stays behind, although each path that removes a server is meant to drop
  it.
\<close>

theorem cascade_strands_status:
  "map_of (serverStatus (fst (removeServer ok k c))) k = None
    \<and> serverStatus (fst (removeFolderCascade ok path True c)) = serverStatus c
    \<and> serverStatusSource (fst (removeFolderCascade ok path True c)) = serverStatusSource c"
proof -
  have s [simp]: "serverStatus (save ok st c) = serverStatus c" "serverStatusSource (save ok st c) = serverStatusSource c" for st and c :: "'a core"
    by (simp_all add: save_def)
  have f: "serverStatus (fold f ks c) = serverStatus c \<and> serverStatusSource (fold f ks c) = serverStatusSource c"
    if "\<And>k c. serverStatus (f k c) = serverStatus c \<and> serverStatusSource (f k c) = serverStatusSource c"
    for f :: "'b \<Rightarrow> 'a core \<Rightarrow> 'a core" and ks c
    using that by (induction ks arbitrary: c) auto
  note simps = removeServerSessions_def removeSerialProfileSessions_def removeLocalShellProfileSessions_def
    removeLocalServerConfigSessions_def forget_sessions_def
  show ?thesis
    by (simp add: removeServer_def removeFolderCascade_def Let_def save_and_emit_def save_folders_def emitChanged_def
        clearGatewayReferencesTo_def dropServerStatusEntry_def f simps delete_conv')
qed

section \<open>Examples\<close>

text \<open>Two servers, one the gateway of the other, linked to a profile that a source and a template use.\<close>

definition example_server :: "nat server_config" where
  "example_server = \<lparr>server_group = Some [97], openFileExplorerOnFirstConnect = False, authProfileId = Some ''p'',
     ipmiAuthProfileId = None, ipmiGatewayServerId = Some ''g'', server_origin = None, formerlySynced = None, server_rest = 0\<rparr>"

definition example_links :: "nat core" where
  "example_links = (new_core empty_config)\<lparr>mem := empty_config\<lparr>
     servers := [(''s'', example_server), (''g'', example_server\<lparr>ipmiGatewayServerId := None, server_group := Some [98]\<rparr>)],
     authProfiles := [(''p'', 0)],
     inventorySources := [(''i'', \<lparr>source_authProfileId = Some ''p'', templateRules = None, source_revision = ''1'', source_rest = 0\<rparr>)],
     deviceTemplates := [(''t'', \<lparr>fields_authProfileId = Some (''p'', 0), fields_ipmiAuthProfileId = None,
       template_revision = ''1'', template_rest = 0\<rparr>)]\<rparr>\<rparr>"

theorem auth_profile_removed_witness:
  "let c' = fst (removeAuthProfile (\<lambda>st. st \<noteq> AuthProfiles) id ''p'' example_links) in
    inventorySources (mem c') = inventorySources (mem example_links) \<and> emitted c' = 1"
  using auth_profile_removed [of example_links "\<lambda>st. st \<noteq> AuthProfiles" id "''p''"]
  by (simp add: example_links_def new_core_def Let_def)

theorem gateways_kept_witness:
  "gateways_resolve (mem (fst (removeServer (\<lambda>_. True) ''g'' example_links)))"
  using gateways_kept [of example_links "\<lambda>_. True" "''g''"]
  by (simp add: gateways_resolve_def example_links_def example_server_def)

end
