(* ===== verification/Profile_Runs.thy ===== *)
theory Profile_Runs
  imports Profile_Links
begin

text \<open>
  Runs of the profile store: \<open>initialize\<close>, every mutation of the configuration with the saves that succeed,
  and the operations on sessions. What holds in every run, and a run in which a deletion that failed is
  committed later.
\<close>

section \<open>Loading\<close>

definition load_map :: "(key \<times> 'a) list \<Rightarrow> (key \<times> 'a) list" where
  "load_map xs = fold (\<lambda>(k, x). AList.update k x) xs []"

definition load_config :: "'v config \<Rightarrow> 'v config" where
  "load_config d = \<lparr>servers = load_map (fst (normalizeFileExplorerAutoOpenOwner (servers d))), tunnels = load_map (tunnels d),
     serialProfiles = load_map (serialProfiles d), localShellProfiles = load_map (localShellProfiles d),
     localServers = load_map (localServers d), explicitGroups = fold set_add (explicitGroups d) [],
     authProfiles = load_map (authProfiles d), inventorySources = load_map (inventorySources d),
     deviceTemplates = load_map (deviceTemplates d), savedFilters = load_map (savedFilters d),
     tftpProfiles = load_map (tftpProfiles d), dhcpProfiles = load_map (dhcpProfiles d)\<rparr>"

definition initialize :: "storage_outcome \<Rightarrow> 'v core \<Rightarrow> 'v core \<times> bool" where
  "initialize ok c =
     (let d = disk c;
          normalized = normalizeFileExplorerAutoOpenOwner (servers d);
          c1 = c\<lparr>mem := load_config d\<rparr>
      in if snd normalized then
           (if ok Servers then (emitChanged (c1\<lparr>disk := d\<lparr>servers := fst normalized\<rparr>\<rparr>), True) else (c1, False))
         else (emitChanged c1, True))"

section \<open>Operations\<close>

datatype session_kind = Ssh | Serial | Shell | Local

datatype 'v core_op =
    AddServer key "'v server_config" | AddServers "(key \<times> 'v server_config) list" "units list" | DelServer key
  | AddTunnel key 'v | DelTunnel key
  | AddSerial key "'v grouped" | DelSerial key | AddShell key "'v grouped" | DelShell key | AddLocal key "'v grouped" | DelLocal key
  | AddTftp key 'v | DelTftp key | AddDhcp key 'v | DelDhcp key
  | AddAuth key 'v | DelAuth "key \<Rightarrow> key" key
  | AddTemplate key key "'v device_template" | DelTemplate "key \<Rightarrow> key" key
  | AddFilter key 'v | DelFilter key
  | AddFolder units | DelGroup units | RenameGroup units units
  | MoveFolder units "units option" | RenameFolder units units | DelFolder units bool
  | Register session_kind key "'v session" | Unregister session_kind key
  | MarkActivity key | ClearActivity key | Focus "key option"
  | OpenTunnel key active_tunnel | Traffic key nat nat | CloseTunnel key

fun core_step :: "storage_outcome \<Rightarrow> 'v core_op \<Rightarrow> 'v core \<Rightarrow> 'v core" where
  "core_step ok (AddServer k s) c = fst (addOrUpdateServer ok k s c)"
| "core_step ok (AddServers xs fs) c = fst (addServersBatch ok xs fs c)"
| "core_step ok (DelServer k) c = fst (removeServer ok k c)"
| "core_step ok (AddTunnel k p) c = fst (addOrUpdateTunnel ok k p c)"
| "core_step ok (DelTunnel k) c = fst (removeTunnel ok k c)"
| "core_step ok (AddSerial k p) c = fst (addOrUpdateSerialProfile ok k p c)"
| "core_step ok (DelSerial k) c = fst (removeSerialProfile ok k c)"
| "core_step ok (AddShell k p) c = fst (addOrUpdateLocalShellProfile ok k p c)"
| "core_step ok (DelShell k) c = fst (removeLocalShellProfile ok k c)"
| "core_step ok (AddLocal k p) c = fst (addOrUpdateLocalServerConfig ok k p c)"
| "core_step ok (DelLocal k) c = fst (removeLocalServerConfig ok k c)"
| "core_step ok (AddTftp k p) c = fst (addOrUpdateTftpProfile ok k p c)"
| "core_step ok (DelTftp k) c = fst (removeTftpProfile ok k c)"
| "core_step ok (AddDhcp k p) c = fst (addOrUpdateDhcpProfile ok k p c)"
| "core_step ok (DelDhcp k) c = fst (removeDhcpProfile ok k c)"
| "core_step ok (AddAuth k p) c = fst (addOrUpdateAuthProfile ok k p c)"
| "core_step ok (DelAuth uuid k) c = fst (removeAuthProfile ok uuid k c)"
| "core_step ok (AddTemplate u k t) c = fst (addOrUpdateDeviceTemplate ok u k t c)"
| "core_step ok (DelTemplate uuid k) c = fst (removeDeviceTemplate ok uuid k c)"
| "core_step ok (AddFilter k p) c = fst (addOrUpdateSavedFilter ok k p c)"
| "core_step ok (DelFilter k) c = fst (removeSavedFilter ok k c)"
| "core_step ok (AddFolder p) c = fst (addGroup ok p c)"
| "core_step ok (DelGroup g) c = fst (removeExplicitGroup ok g c)"
| "core_step ok (RenameGroup g h) c = fst (renameExplicitGroup ok g h c)"
| "core_step ok (MoveFolder p q) c = fst (moveFolder ok p q c)"
| "core_step ok (RenameFolder p n) c = fst (renameFolder ok p n c)"
| "core_step ok (DelFolder p del) c = fst (removeFolderCascade ok p del c)"
| "core_step ok (Register kind s x) c =
     (case kind of Ssh \<Rightarrow> registerSession s x c | Serial \<Rightarrow> registerSerialSession s x c
      | Shell \<Rightarrow> registerLocalShellSession s x c | Local \<Rightarrow> registerLocalServerSession s x c)"
| "core_step ok (Unregister kind s) c =
     (case kind of Ssh \<Rightarrow> unregisterSession s c | Serial \<Rightarrow> unregisterSerialSession s c
      | Shell \<Rightarrow> unregisterLocalShellSession s c | Local \<Rightarrow> unregisterLocalServerSession s c)"
| "core_step ok (MarkActivity s) c = markSessionActivity s c"
| "core_step ok (ClearActivity s) c = clearSessionActivity s c"
| "core_step ok (Focus s) c = setFocusedSession s c"
| "core_step ok (OpenTunnel t x) c = registerTunnel t x c"
| "core_step ok (Traffic t i out) c = updateTunnelTraffic t i out c"
| "core_step ok (CloseTunnel t) c = unregisterTunnel t c"

type_synonym 'v core_run = "(storage_outcome \<times> 'v core_op) list"

definition core_run :: "'v core_run \<Rightarrow> 'v core \<Rightarrow> 'v core" where
  "core_run ops c = fold (\<lambda>(ok, op). core_step ok op) ops c"

section \<open>Memory and disk\<close>

definition persisted :: "'v core \<Rightarrow> bool" where
  "persisted c \<longleftrightarrow> disk c = mem c"

text \<open>A change of one store that is saved.\<close>

lemma saved_disk [simp]:
  "disk (save ok st c) = (if ok st then copy_store st (mem c) (disk c) else disk c)"
  "disk (fst (save_and_emit ok st c)) = (if ok st then copy_store st (mem c) (disk c) else disk c)"
  by (simp_all add: save_and_emit_def save_def emitChanged_def)

lemma persist_one:
  assumes "ok st" "copy_store st (mem c) (disk c) = mem c"
  shows "persisted (fst (save_and_emit ok st c))" "persisted (save ok st c)"
  using assms by (simp_all add: save_and_emit_def save_def persisted_def emitChanged_def)

lemma persist_folders:
  assumes "list_all ok FOLDER_STORES" "fold (\<lambda>st d. copy_store st (mem c) d) FOLDER_STORES (disk c) = mem c"
  shows "persisted (fst (save_folders ok c))"
  using assms by (simp add: save_folders_def Let_def FOLDER_STORES_def save_def persisted_def emitChanged_def)

lemma removed_sessions_disk [simp]:
  "disk (removeServerSessions k c) = disk c" "disk (removeSerialProfileSessions k c) = disk c"
  "disk (removeLocalShellProfileSessions k c) = disk c" "disk (removeLocalServerConfigSessions k c) = disk c"
  by (simp_all add: removeServerSessions_def removeSerialProfileSessions_def removeLocalShellProfileSessions_def
      removeLocalServerConfigSessions_def forget_sessions_def)

lemma fold_disk: "(\<And>k c. disk (f k c) = disk c) \<Longrightarrow> disk (fold f ks c) = disk c"
  by (induction ks arbitrary: c) auto

lemma persisted_folders: "persisted c \<Longrightarrow> persisted (fst (renameFolderPath (\<lambda>_. True) old new c))"
  by (simp add: renameFolderPath_def Let_def, rule persist_folders) (simp_all add: FOLDER_STORES_def persisted_def)

lemma persisted_move: "persisted c \<Longrightarrow> persisted (fst (moveFolder (\<lambda>_. True) p q c))"
  by (auto simp: moveFolder_def Let_def persisted_folders split: option.splits)

lemma persisted_rename: "persisted c \<Longrightarrow> persisted (fst (renameFolder (\<lambda>_. True) p n c))"
  by (auto simp: renameFolder_def Let_def persisted_folders split: option.splits)

lemma persisted_cascade: "persisted c \<Longrightarrow> persisted (fst (removeFolderCascade (\<lambda>_. True) p del c))"
  by (simp add: removeFolderCascade_def Let_def, intro conjI impI; rule persist_folders)
    (simp_all add: FOLDER_STORES_def persisted_def clearGatewayReferencesTo_def fold_mem fold_disk)

lemma persisted_batch: "persisted c \<Longrightarrow> persisted (fst (addServersBatch (\<lambda>_. True) xs fs c))"
  by (auto simp: addServersBatch_def Let_def persisted_def save_and_emit_def save_def emitChanged_def add_folders_def)

lemma copy_idem: "copy_store st m (copy_store st m d) = copy_store st m d"
  by (cases st) simp_all

lemma copy_comm: "copy_store st m (copy_store st' m d) = copy_store st' m (copy_store st m d)"
  by (cases st; cases st'; simp)

lemma persisted_chain:
  assumes "\<And>st. copy_store st (mem c) (disk c) = disk c \<or> (st, True) \<in> set sts"
  shows "persisted (fst (save_chain (\<lambda>_. True) sts c))"
  using assms
proof (induction sts arbitrary: c)
  case Nil
  have e: "copy_store st (mem c) (disk c) = disk c" for st using Nil by simp
  show ?case using e [of Servers] e [of Tunnels] e [of SerialProfiles] e [of LocalShellProfiles] e [of LocalServers] e [of Groups]
      e [of AuthProfiles] e [of InventorySources] e [of DeviceTemplates] e [of SavedFilters] e [of TftpProfiles] e [of DhcpProfiles]
    by (cases "mem c"; cases "disk c") (simp add: persisted_def)
next
  case (Cons x sts)
  obtain st needed where x: "x = (st, needed)" by (cases x)
  show ?case
  proof (cases needed)
    case True
    have "copy_store st' (mem c) (copy_store st (mem c) (disk c)) = copy_store st (mem c) (disk c) \<or> (st', True) \<in> set sts" for st'
      using Cons.prems [of st'] x True copy_idem [of st "mem c" "disk c"] copy_comm [of st' "mem c" st "disk c"] by auto
    then show ?thesis using Cons.IH [of "save (\<lambda>_. True) st c"] x True by (simp add: save_def)
  next
    case False
    then show ?thesis using Cons x by auto
  qed
qed

lemma unlinked_map: "\<not> list_ex (\<lambda>(_, x). P x) xs \<Longrightarrow> map (\<lambda>(k, x). if P x then f k x else (k, x)) xs = xs"
  by (induction xs) auto

lemma persisted_removeAuth:
  assumes "persisted c"
  shows "persisted (fst (removeAuthProfile (\<lambda>_. True) uuid p c))"
proof -
  let ?m = "mem c" and ?n = "sweep_auth uuid p (mem c)"
  let ?c = "save (\<lambda>_. True) AuthProfiles (c\<lparr>mem := ?n\<rparr>)"
  have s: "servers ?n = servers ?m" if "\<not> list_ex (\<lambda>(_, s). links_profile p s) (servers ?m)"
    using that by (auto simp: sweep_auth_def list_ex_iff clear_auth_other intro!: map_idI)
  have i: "inventorySources ?n = inventorySources ?m" if "\<not> list_ex (\<lambda>(_, x). source_authProfileId x = Some p) (inventorySources ?m)"
    using unlinked_map [OF that] by (simp add: sweep_auth_def)
  have t: "deviceTemplates ?n = deviceTemplates ?m" if "\<not> list_ex (\<lambda>(_, x). template_links p x) (deviceTemplates ?m)"
    using unlinked_map [OF that] by (simp add: sweep_auth_def)
  have d: "mem ?c = ?n" "disk ?c = ?m\<lparr>authProfiles := authProfiles ?n\<rparr>" using assms by (simp_all add: save_def persisted_def)
  have f: "filter P xs \<noteq> [] \<longleftrightarrow> list_ex P xs" for P and xs :: "(key \<times> 'z) list" by (auto simp: filter_empty_conv list_ex_iff)
  have r: "tunnels ?n = tunnels ?m" "serialProfiles ?n = serialProfiles ?m" "localShellProfiles ?n = localShellProfiles ?m"
    "localServers ?n = localServers ?m" "explicitGroups ?n = explicitGroups ?m" "savedFilters ?n = savedFilters ?m"
    "tftpProfiles ?n = tftpProfiles ?m" "dhcpProfiles ?n = dhcpProfiles ?m" by (simp_all add: sweep_auth_def)
  have "copy_store st ?n (?m\<lparr>authProfiles := authProfiles ?n\<rparr>) = ?m\<lparr>authProfiles := authProfiles ?n\<rparr> \<or> (st, True) \<in> set
      [(Servers, list_ex (\<lambda>(_, s). links_profile p s) (servers ?m)),
       (InventorySources, list_ex (\<lambda>(_, x). source_authProfileId x = Some p) (inventorySources ?m)),
       (DeviceTemplates, list_ex (\<lambda>(_, x). template_links p x) (deviceTemplates ?m))]" for st
    using s i t r by (cases st) auto
  then have "persisted (fst (save_chain (\<lambda>_. True)
      [(Servers, list_ex (\<lambda>(_, s). links_profile p s) (servers ?m)),
       (InventorySources, list_ex (\<lambda>(_, x). source_authProfileId x = Some p) (inventorySources ?m)),
       (DeviceTemplates, list_ex (\<lambda>(_, x). template_links p x) (deviceTemplates ?m))] ?c))"
    by (rule persisted_chain [of ?c, unfolded d])
  then show ?thesis by (simp add: removeAuthProfile_def Let_def case_prod_unfold f persisted_def emitChanged_def del: save_chain.simps)
qed

lemma persisted_removeTemplate:
  assumes "persisted c"
  shows "persisted (fst (removeDeviceTemplate (\<lambda>_. True) uuid k c))"
proof -
  let ?m = "mem c"
  let ?n = "?m\<lparr>deviceTemplates := AList.delete k (deviceTemplates ?m),
      inventorySources := map (\<lambda>(i, x). if uses_template k x
          then (i, x\<lparr>templateRules := map_option (filter (\<lambda>(t, _). t \<noteq> k)) (templateRules x), source_revision := uuid i\<rparr>)
          else (i, x)) (inventorySources ?m)\<rparr>"
  let ?c = "c\<lparr>mem := ?n\<rparr>"
  have f: "filter P xs \<noteq> [] \<longleftrightarrow> list_ex P xs" for P and xs :: "(key \<times> 'z) list" by (auto simp: filter_empty_conv list_ex_iff)
  have t: "deviceTemplates ?n = deviceTemplates ?m" if "map_of (deviceTemplates ?m) k = None"
    using that by (simp add: AList.delete_idem dom_map_of_conv_image_fst map_of_eq_None_iff)
  have i: "inventorySources ?n = inventorySources ?m" if "\<not> list_ex (\<lambda>(_, x). uses_template k x) (inventorySources ?m)"
    using unlinked_map [OF that] by simp
  have "copy_store st ?n ?m = ?m \<or> (st, True) \<in> set
      [(DeviceTemplates, map_of (deviceTemplates ?m) k \<noteq> None), (InventorySources, list_ex (\<lambda>(_, x). uses_template k x) (inventorySources ?m))]" for st
    using t i by (cases st) auto
  then have "copy_store st (mem ?c) (disk ?c) = disk ?c \<or> (st, True) \<in> set
      [(DeviceTemplates, map_of (deviceTemplates ?m) k \<noteq> None), (InventorySources, list_ex (\<lambda>(_, x). uses_template k x) (inventorySources ?m))]" for st
    using assms by (simp add: persisted_def)
  then have "persisted (fst (save_chain (\<lambda>_. True)
      [(DeviceTemplates, map_of (deviceTemplates ?m) k \<noteq> None), (InventorySources, list_ex (\<lambda>(_, x). uses_template k x) (inventorySources ?m))] ?c))"
    by (rule persisted_chain)
  then show ?thesis by (simp add: removeDeviceTemplate_def Let_def case_prod_unfold f persisted_def emitChanged_def del: save_chain.simps)
qed

lemma persisted_step:
  assumes "persisted c"
  shows "persisted (core_step (\<lambda>_. True) op c)"
proof (cases op)
  case (Register kind s x)
  then show ?thesis using assms by (cases kind) (simp_all add: persisted_def registerSession_def registerSerialSession_def
      registerLocalShellSession_def registerLocalServerSession_def emitChanged_def)
next
  case (Unregister kind s)
  then show ?thesis using assms by (cases kind) (simp_all add: persisted_def unregisterSession_def unregisterSerialSession_def
      unregisterLocalShellSession_def unregisterLocalServerSession_def forget_sessions_def emitChanged_def)
next
  case (AddServer k s)
  then show ?thesis using assms
    by (simp add: addOrUpdateServer_def Let_def) (intro conjI impI; rule persist_one; simp add: persisted_def)
next
  case (DelServer k)
  then show ?thesis using assms
    by (simp add: removeServer_def Let_def) (rule persist_one; simp add: persisted_def clearGatewayReferencesTo_def dropServerStatusEntry_def)
next
  case (AddFolder p)
  then show ?thesis using assms by (cases "normalizeFolderPath p") (simp_all add: addGroup_def persist_one persisted_def)
next
  case (RenameGroup g h)
  then show ?thesis using assms by (simp add: renameExplicitGroup_def persist_one persisted_def)
next
  case (AddTemplate u k t)
  then show ?thesis using assms by (simp add: addOrUpdateDeviceTemplate_def Let_def persisted_def save_def emitChanged_def)
next
  case (AddFilter k p)
  then show ?thesis using assms by (simp add: addOrUpdateSavedFilter_def Let_def persisted_def save_def emitChanged_def)
next
  case (DelFilter k)
  then show ?thesis using assms
    by (cases "map_of (savedFilters (mem c)) k") (simp_all add: removeSavedFilter_def Let_def persisted_def save_def emitChanged_def)
next
  case (MarkActivity s)
  then show ?thesis using assms by (simp add: markSessionActivity_def persisted_def emitChanged_def)
next
  case (ClearActivity s)
  then show ?thesis using assms by (simp add: clearSessionActivity_def persisted_def emitChanged_def)
next
  case (Focus s)
  then show ?thesis using assms by (simp add: setFocusedSession_def persisted_def emitChanged_def)
next
  case (OpenTunnel t x)
  then show ?thesis using assms by (simp add: registerTunnel_def persisted_def emitChanged_def)
next
  case (CloseTunnel t)
  then show ?thesis using assms by (simp add: unregisterTunnel_def persisted_def emitChanged_def)
next
  case (Traffic t i out)
  then show ?thesis using assms
    by (cases "map_of (activeTunnels c) t") (simp_all add: updateTunnelTraffic_def persisted_def emitChanged_def)
next
  case (DelTunnel k)
  then show ?thesis using assms by (simp add: removeTunnel_def persist_one persisted_def)
next
  case (AddServers xs fs)
  then show ?thesis using persisted_batch [OF assms] by simp
next
  case (DelAuth uuid k)
  then show ?thesis using persisted_removeAuth [OF assms] by simp
next
  case (DelTemplate uuid k)
  then show ?thesis using persisted_removeTemplate [OF assms] by simp
next
  case (MoveFolder p q)
  then show ?thesis using persisted_move [OF assms] by simp
next
  case (RenameFolder p n)
  then show ?thesis using persisted_rename [OF assms] by simp
next
  case (DelFolder p del)
  then show ?thesis using persisted_cascade [OF assms] by simp
qed (use assms in \<open>simp_all add: persisted_def
    addOrUpdateTunnel_def addOrUpdateSerialProfile_def addOrUpdateLocalShellProfile_def addOrUpdateLocalServerConfig_def
    addOrUpdateTftpProfile_def addOrUpdateDhcpProfile_def addOrUpdateAuthProfile_def removeTftpProfile_def removeDhcpProfile_def
    removeSerialProfile_def removeLocalShellProfile_def removeLocalServerConfig_def removeExplicitGroup_def\<close>)

section \<open>Sessions\<close>

text \<open>Only a session that exists is marked as active.\<close>

definition sessions_ok :: "'v core \<Rightarrow> bool" where
  "sessions_ok c \<longleftrightarrow> list_all (\<lambda>s. hasSession s c) (activitySessionIds c)"

text \<open>The part of the state that is about sessions.\<close>

definition runtime :: "'v core \<Rightarrow> (key \<times> 'v session) list list \<times> key list" where
  "runtime c = ([activeSessions c, activeSerialSessions c, activeLocalShellSessions c, activeLocalServerSessions c], activitySessionIds c)"

lemma sessions_ok_runtime: "runtime c' = runtime c \<Longrightarrow> sessions_ok c' = sessions_ok c"
  by (simp add: runtime_def sessions_ok_def hasSession_def)

lemma basic_runtime [simp]:
  "runtime (save ok st c) = runtime c" "runtime (emitChanged c) = runtime c" "runtime (c\<lparr>mem := m\<rparr>) = runtime c"
  by (simp_all add: save_def emitChanged_def runtime_def)

lemma saved_runtime [simp]:
  "runtime (fst (save_and_emit ok st c)) = runtime c" "runtime (fst (save_folders ok c)) = runtime c"
  "runtime (fst (save_chain ok sts c)) = runtime c"
proof -
  show "runtime (fst (save_and_emit ok st c)) = runtime c" by (simp add: save_and_emit_def)
  have "runtime (fold (save ok) sts c) = runtime c" for sts by (induction sts arbitrary: c) simp_all
  then show "runtime (fst (save_folders ok c)) = runtime c" by (simp add: save_folders_def Let_def)
  show "runtime (fst (save_chain ok sts c)) = runtime c" by (induction ok sts c rule: save_chain.induct) simp_all
qed

lemma sessions_ok_saved [simp]:
  "sessions_ok (fst (save_and_emit ok st c)) = sessions_ok c" "sessions_ok (fst (save_folders ok c)) = sessions_ok c"
  "sessions_ok (emitChanged c) = sessions_ok c" "sessions_ok (c\<lparr>mem := m\<rparr>) = sessions_ok c" "sessions_ok (save ok st c) = sessions_ok c"
  "sessions_ok (fst (save_chain ok sts c)) = sessions_ok c"
  by (rule sessions_ok_runtime, simp)+

lemma sessions_removed:
  assumes "sessions_ok c"
  shows "sessions_ok (removeServerSessions k c)" "sessions_ok (removeSerialProfileSessions k c)"
    "sessions_ok (removeLocalShellProfileSessions k c)" "sessions_ok (removeLocalServerConfigSessions k c)"
  using assms
  by (fastforce simp: sessions_ok_def list_all_iff hasSession_def removeServerSessions_def removeSerialProfileSessions_def
      removeLocalShellProfileSessions_def removeLocalServerConfigSessions_def forget_sessions_def owned_by_def drop_owned_def
      list_ex_iff image_iff)+

lemma sessions_removed_all: "(\<And>k c. sessions_ok c \<Longrightarrow> sessions_ok (f k c)) \<Longrightarrow> sessions_ok c \<Longrightarrow> sessions_ok (fold f ks c)"
  by (induction ks arbitrary: c) auto

text \<open>Operations that do not touch sessions.\<close>

lemma sessions_config:
  assumes "sessions_ok c"
  shows "sessions_ok (fst (addOrUpdateServer ok k srv c))" "sessions_ok (fst (addServersBatch ok xs fs c))"
    "sessions_ok (fst (removeAuthProfile ok uuid k c))" "sessions_ok (fst (addOrUpdateDeviceTemplate ok u k t c))"
    "sessions_ok (fst (removeDeviceTemplate ok uuid k c))" "sessions_ok (fst (addOrUpdateSavedFilter ok k p c))"
    "sessions_ok (fst (removeSavedFilter ok k c))" "sessions_ok (fst (addGroup ok g c))" "sessions_ok (fst (renameExplicitGroup ok g h c))"
    "sessions_ok (fst (moveFolder ok g q c))" "sessions_ok (fst (renameFolder ok g h c))"
  using assms
  by (simp_all add: addOrUpdateServer_def addServersBatch_def removeAuthProfile_def addOrUpdateDeviceTemplate_def
      removeDeviceTemplate_def addOrUpdateSavedFilter_def removeSavedFilter_def addGroup_def renameExplicitGroup_def
      moveFolder_def renameFolder_def renameFolderPath_def Let_def case_prod_unfold del: save_chain.simps split: option.split)

lemma sessions_cascade:
  assumes "sessions_ok c"
  shows "sessions_ok (fst (removeFolderCascade ok p del c))" "sessions_ok (fst (removeServer ok k c))"
proof -
  have g: "runtime (clearGatewayReferencesTo ks c) = runtime c" "runtime (dropServerStatusEntry k c) = runtime c" for ks k and c :: "'a core"
    by (simp_all add: clearGatewayReferencesTo_def) (simp add: dropServerStatusEntry_def runtime_def)
  have g' [simp]: "sessions_ok (clearGatewayReferencesTo ks c) = sessions_ok c" "sessions_ok (dropServerStatusEntry k c) = sessions_ok c"
    for ks k and c :: "'a core" by (rule sessions_ok_runtime, rule g)+
  show "sessions_ok (fst (removeServer ok k c))" using assms by (simp add: removeServer_def Let_def sessions_removed)
  show "sessions_ok (fst (removeFolderCascade ok p del c))" using assms
    by (simp add: removeFolderCascade_def Let_def sessions_removed_all sessions_removed)
qed

lemma delete_key_set: "fst ` set (AList.delete k xs) = fst ` set xs - {k}"
  by (force simp: AList.delete_eq)

lemma sessions_step:
  assumes "sessions_ok c"
  shows "sessions_ok (core_step ok op c)"
proof (cases op)
  case (Register kind s x)
  then show ?thesis using assms
    by (cases kind) (auto simp: sessions_ok_def list_all_iff hasSession_def registerSession_def registerSerialSession_def
      registerLocalShellSession_def registerLocalServerSession_def emitChanged_def dom_update)
next
  case (Unregister kind s)
  then show ?thesis using assms
    by (cases kind) (auto simp: sessions_ok_def list_all_iff hasSession_def unregisterSession_def unregisterSerialSession_def
      unregisterLocalShellSession_def unregisterLocalServerSession_def forget_sessions_def emitChanged_def delete_key_set)
next
  case (MarkActivity s)
  then show ?thesis using assms by (auto simp: markSessionActivity_def sessions_ok_def hasSession_def emitChanged_def)
next
  case (ClearActivity s)
  then show ?thesis using assms
    by (auto simp: clearSessionActivity_def sessions_ok_def hasSession_def emitChanged_def list_all_iff)
next
  case (Focus s)
  then show ?thesis using assms by (auto simp: setFocusedSession_def sessions_ok_def hasSession_def emitChanged_def)
next
  case (OpenTunnel t x)
  then show ?thesis using assms by (simp add: registerTunnel_def sessions_ok_def hasSession_def emitChanged_def)
next
  case (CloseTunnel t)
  then show ?thesis using assms by (simp add: unregisterTunnel_def sessions_ok_def hasSession_def emitChanged_def)
next
  case (Traffic t i out)
  then show ?thesis using assms
    by (auto simp: updateTunnelTraffic_def sessions_ok_def hasSession_def emitChanged_def split: option.splits)
next
  case (DelTunnel t)
  then show ?thesis using assms by (simp add: removeTunnel_def) (simp add: sessions_ok_def hasSession_def)
qed (use assms in \<open>simp_all add: sessions_config sessions_cascade sessions_removed
    addOrUpdateTunnel_def addOrUpdateSerialProfile_def addOrUpdateLocalShellProfile_def addOrUpdateLocalServerConfig_def
    addOrUpdateTftpProfile_def addOrUpdateDhcpProfile_def addOrUpdateAuthProfile_def removeTftpProfile_def removeDhcpProfile_def
    removeSerialProfile_def removeLocalShellProfile_def removeLocalServerConfig_def removeExplicitGroup_def\<close>)

section \<open>The server that opens the file explorer\<close>

definition owners :: "(key \<times> 'v server_config) list \<Rightarrow> key set" where
  "owners xs = {k. \<exists>s. (k, s) \<in> set xs \<and> openFileExplorerOnFirstConnect s}"

lemma owners_map: "(\<And>s. openFileExplorerOnFirstConnect (f s) = openFileExplorerOnFirstConnect s) \<Longrightarrow> owners (map (\<lambda>(k, s). (k, f s)) xs) = owners xs"
  by (fastforce simp: owners_def)

lemma owners_sub: "set xs \<subseteq> set ys \<Longrightarrow> owners xs \<subseteq> owners ys"
  by (auto simp: owners_def)

lemma update_sub: "set (AList.update k x xs) \<subseteq> insert (k, x) (set xs)"
  by (induction xs) auto

lemma owners_update: "owners (AList.update k s xs) \<subseteq> owners xs \<union> (if openFileExplorerOnFirstConnect s then {k} else {})"
  using update_sub [of k s xs] by (auto simp: owners_def)

lemma owners_batch: "owners (fold (\<lambda>(k, s). AList.update k s) new xs) \<subseteq> owners xs \<union> owners new"
proof (induction new arbitrary: xs)
  case (Cons x new)
  obtain k s where x: "x = (k, s)" by (cases x)
  have "owners (fold (\<lambda>(k, s). AList.update k s) new (AList.update k s xs)) \<subseteq> owners (AList.update k s xs) \<union> owners new" by (rule Cons.IH)
  also have "\<dots> \<subseteq> owners xs \<union> owners (x # new)" using owners_update [of k s xs] by (auto simp: x owners_def split: if_splits)
  finally show ?case by (simp add: x)
qed simp

lemma flag_kept [simp]:
  "openFileExplorerOnFirstConnect (clear_gateway ks s) = openFileExplorerOnFirstConnect s"
  "openFileExplorerOnFirstConnect (clear_auth p s) = openFileExplorerOnFirstConnect s"
  by (simp_all add: clear_gateway_def clear_auth_def Let_def split: option.split)

text \<open>A batch brings no new such server (imports never do, and a repaired server was there before).\<close>

definition core_op_ok :: "'v core \<Rightarrow> 'v core_op \<Rightarrow> bool" where
  "core_op_ok c op \<longleftrightarrow> (case op of AddServers new fs \<Rightarrow> owners new \<subseteq> owners (servers (mem c)) | _ \<Rightarrow> True)"

lemma owners_addServer:
  "owners (servers (mem (fst (addOrUpdateServer ok k srv c)))) \<subseteq> owners (servers (mem c)) \<or> owners (servers (mem (fst (addOrUpdateServer ok k srv c)))) \<subseteq> {k}"
proof (cases "openFileExplorerOnFirstConnect srv")
  case True
  let ?o = "map (\<lambda>(i, s). if i \<noteq> k \<and> openFileExplorerOnFirstConnect s then (i, s\<lparr>openFileExplorerOnFirstConnect := False\<rparr>) else (i, s)) (servers (mem c))"
  have "owners ?o \<subseteq> {k}" by (auto simp: owners_def split: if_splits)
  then have "owners (AList.update k srv ?o) \<subseteq> {k}" using owners_update [of k srv ?o] True by auto
  then show ?thesis using True by (simp add: addOrUpdateServer_def Let_def)
next
  case False
  then show ?thesis using owners_update [of k srv "servers (mem c)"] by (simp add: addOrUpdateServer_def Let_def)
qed

lemma owners_rename: "owners (servers (mem (fst (renameFolderPath ok g h c)))) = owners (servers (mem c))"
  by (simp add: renameFolderPath_def Let_def owners_map)

lemma owners_cascade: "owners (servers (mem (fst (removeFolderCascade ok g del c)))) \<subseteq> owners (servers (mem c))"
proof -
  have "owners (filter P xs) \<subseteq> owners xs" for P and xs :: "(key \<times> 'a server_config) list" by (rule owners_sub) auto
  then show ?thesis by (auto simp: removeFolderCascade_def Let_def clearGatewayReferencesTo_def owners_map fold_mem simp del: map_map)
qed

lemma owners_auth: "owners (servers (mem (fst (removeAuthProfile ok uuid p c)))) = owners (servers (mem c))"
  by (simp add: removeAuthProfile_def Let_def case_prod_unfold emitChanged_def sweep_auth_def del: save_chain.simps)
    (use owners_map [of "clear_auth p" "servers (mem c)"] in \<open>simp add: case_prod_unfold\<close>)

text \<open>Operations that leave the servers as they are.\<close>

lemma same_servers:
  "servers (mem (fst (removeDeviceTemplate ok uuid k c))) = servers (mem c)"
  "servers (mem (fst (addOrUpdateDeviceTemplate ok u k t c))) = servers (mem c)"
  "servers (mem (fst (addOrUpdateSavedFilter ok k p c))) = servers (mem c)"
  "servers (mem (fst (removeSavedFilter ok k c))) = servers (mem c)"
  "servers (mem (fst (addGroup ok g c))) = servers (mem c)"
  "servers (mem (fst (renameExplicitGroup ok g h c))) = servers (mem c)"
  by (simp_all add: removeDeviceTemplate_def addOrUpdateDeviceTemplate_def addOrUpdateSavedFilter_def removeSavedFilter_def
      addGroup_def renameExplicitGroup_def Let_def case_prod_unfold emitChanged_def del: save_chain.simps split: option.split)

lemma session_ops_mem:
  "mem (registerSession s x c) = mem c" "mem (registerSerialSession s x c) = mem c" "mem (registerLocalShellSession s x c) = mem c"
  "mem (registerLocalServerSession s x c) = mem c" "mem (unregisterSession s c) = mem c" "mem (unregisterSerialSession s c) = mem c"
  "mem (unregisterLocalShellSession s c) = mem c" "mem (unregisterLocalServerSession s c) = mem c" "mem (markSessionActivity s c) = mem c"
  "mem (clearSessionActivity s c) = mem c" "mem (setFocusedSession f c) = mem c" "mem (registerTunnel t y c) = mem c"
  "mem (updateTunnelTraffic t i out c) = mem c" "mem (unregisterTunnel t c) = mem c"
  by (simp_all add: registerSession_def registerSerialSession_def registerLocalShellSession_def registerLocalServerSession_def
      unregisterSession_def unregisterSerialSession_def unregisterLocalShellSession_def unregisterLocalServerSession_def
      markSessionActivity_def clearSessionActivity_def setFocusedSession_def registerTunnel_def updateTunnelTraffic_def
      unregisterTunnel_def forget_sessions_def emitChanged_def split: option.split)

lemma owners_step:
  assumes "core_op_ok c op"
  shows "owners (servers (mem (core_step ok op c))) \<subseteq> owners (servers (mem c)) \<or> (\<exists>k. owners (servers (mem (core_step ok op c))) \<subseteq> {k})"
proof (cases op)
  case (AddServer k srv)
  then show ?thesis using owners_addServer [of ok k srv c] by auto
next
  case (AddServers new fs)
  then show ?thesis using assms owners_batch [of new "servers (mem c)"]
    by (auto simp: core_op_ok_def addServersBatch_def Let_def emitChanged_def)
next
  case (DelServer k)
  have "owners (AList.delete k (servers (mem c))) \<subseteq> owners (servers (mem c))" by (rule owners_sub) (auto simp: AList.delete_eq)
  then show ?thesis using DelServer
    by (simp add: removeServer_def Let_def clearGatewayReferencesTo_def dropServerStatusEntry_def owners_map)
next
  case (MoveFolder g q)
  then show ?thesis by (auto simp: moveFolder_def Let_def owners_rename split: option.splits)
next
  case (RenameFolder g h)
  then show ?thesis by (auto simp: renameFolder_def Let_def owners_rename split: option.splits)
next
  case (DelFolder g del)
  then show ?thesis using owners_cascade [of ok g del c] by simp
next
  case (Register kind s x)
  then show ?thesis by (cases kind) (simp_all add: session_ops_mem)
next
  case (Unregister kind s)
  then show ?thesis by (cases kind) (simp_all add: session_ops_mem)
qed (simp_all add: session_ops_mem same_servers owners_auth
    addOrUpdateTunnel_def addOrUpdateSerialProfile_def addOrUpdateLocalShellProfile_def addOrUpdateLocalServerConfig_def
    addOrUpdateTftpProfile_def addOrUpdateDhcpProfile_def addOrUpdateAuthProfile_def removeTftpProfile_def removeDhcpProfile_def
    removeSerialProfile_def removeLocalShellProfile_def removeLocalServerConfig_def removeExplicitGroup_def removeTunnel_def)

fun core_ops_ok :: "'v core \<Rightarrow> 'v core_run \<Rightarrow> bool" where
  "core_ops_ok c [] = True"
| "core_ops_ok c ((ok, op) # ops) \<longleftrightarrow> core_op_ok c op \<and> core_ops_ok (core_step ok op c) ops"

definition core_invariant :: "'v core \<Rightarrow> bool" where
  "core_invariant c \<longleftrightarrow> sessions_ok c \<and> (\<exists>k. owners (servers (mem c)) \<subseteq> {k})"

lemma invariant_run: "core_invariant c \<Longrightarrow> core_ops_ok c ops \<Longrightarrow> core_invariant (core_run ops c)"
proof (induction ops arbitrary: c)
  case (Cons x ops)
  obtain ok op where x: "x = (ok, op)" by (cases x)
  have "core_invariant (core_step ok op c)"
    using Cons.prems x sessions_step [of c ok op] owners_step [of c op ok] by (auto simp: core_invariant_def)
  then show ?case using Cons x by (simp add: core_run_def)
qed (simp add: core_run_def)

lemma owners_normalized: "\<exists>k. owners (fst (normalizeFileExplorerAutoOpenOwner xs)) \<subseteq> {k}"
proof (cases "filter (openFileExplorerOnFirstConnect \<circ> snd) xs")
  case Nil
  then have "owners xs = {}" by (auto simp: owners_def filter_empty_conv)
  then show ?thesis using Nil by (auto simp: normalizeFileExplorerAutoOpenOwner_def)
next
  case (Cons y ys)
  then show ?thesis by (auto simp: normalizeFileExplorerAutoOpenOwner_def owners_def Let_def split: if_splits)
qed

lemma owners_loaded: "owners (load_map xs) \<subseteq> owners xs"
  using owners_batch [of xs "[]"] by (simp add: load_map_def owners_def)

lemma invariant_initialize: "core_invariant (fst (initialize ok (new_core d)))"
proof -
  obtain k where k: "owners (fst (normalizeFileExplorerAutoOpenOwner (servers d))) \<subseteq> {k}" using owners_normalized by blast
  have "owners (servers (load_config d)) \<subseteq> {k}" unfolding load_config_def using owners_loaded k by fastforce
  then show ?thesis
    by (auto simp: initialize_def Let_def core_invariant_def sessions_ok_def hasSession_def new_core_def emitChanged_def)
qed

section \<open>What is loaded\<close>

definition stored_ok :: "'v config \<Rightarrow> bool" where
  "stored_ok d \<longleftrightarrow> distinct (map fst (servers d)) \<and> distinct (map fst (tunnels d)) \<and> distinct (map fst (serialProfiles d))
     \<and> distinct (map fst (localShellProfiles d)) \<and> distinct (map fst (localServers d)) \<and> distinct (explicitGroups d)
     \<and> distinct (map fst (authProfiles d)) \<and> distinct (map fst (inventorySources d)) \<and> distinct (map fst (deviceTemplates d))
     \<and> distinct (map fst (savedFilters d)) \<and> distinct (map fst (tftpProfiles d)) \<and> distinct (map fst (dhcpProfiles d))"

lemma update_new: "k \<notin> fst ` set xs \<Longrightarrow> AList.update k x xs = xs @ [(k, x)]"
  by (induction xs) auto

lemma load_distinct: "distinct (map fst xs) \<Longrightarrow> load_map xs = xs"
proof -
  have "distinct (map fst (acc @ xs)) \<Longrightarrow> fold (\<lambda>(k, x). AList.update k x) xs acc = acc @ xs" for acc xs :: "(key \<times> 'z) list"
    by (induction xs arbitrary: acc) (auto simp: update_new image_Un)
  from this [of "[]" xs] show "distinct (map fst xs) \<Longrightarrow> load_map xs = xs" by (simp add: load_map_def)
qed

lemma load_set: "distinct xs \<Longrightarrow> fold set_add xs [] = xs"
proof -
  have "distinct (acc @ xs) \<Longrightarrow> fold set_add xs acc = acc @ xs" for acc
    by (induction xs arbitrary: acc) (auto simp: set_add_def)
  from this [of "[]"] show "distinct xs \<Longrightarrow> fold set_add xs [] = xs" by simp
qed

lemma normalized_keys: "map fst (fst (normalizeFileExplorerAutoOpenOwner xs)) = map fst xs"
  by (auto simp: normalizeFileExplorerAutoOpenOwner_def Let_def split: list.split)

lemma normalized_same: "\<not> snd (normalizeFileExplorerAutoOpenOwner xs) \<Longrightarrow> fst (normalizeFileExplorerAutoOpenOwner xs) = xs"
  by (auto simp: normalizeFileExplorerAutoOpenOwner_def Let_def list_ex_iff split: list.splits intro!: map_idI)

lemma persisted_initialize:
  assumes "stored_ok d"
  shows "persisted (fst (initialize (\<lambda>_. True) (new_core d)))"
proof -
  have "distinct (map fst (fst (normalizeFileExplorerAutoOpenOwner (servers d))))"
    using assms by (simp add: normalized_keys stored_ok_def)
  then have "load_config d = d\<lparr>servers := fst (normalizeFileExplorerAutoOpenOwner (servers d))\<rparr>"
    using assms by (simp add: load_config_def stored_ok_def load_distinct load_set)
  then show ?thesis using normalized_same [of "servers d"]
    by (simp add: initialize_def Let_def persisted_def emitChanged_def new_core_def)
qed

section \<open>Properties\<close>

text \<open>
  In every run from the loading of the profiles, whatever saves fail, only sessions that exist are
  marked as active, and at most one server opens the file explorer on its first connection, whatever
  was on disk.
\<close>

theorem store_invariants:
  assumes "core_ops_ok (fst (initialize ok (new_core d))) ops"
  shows "list_all (\<lambda>s. hasSession s (core_run ops (fst (initialize ok (new_core d)))))
      (activitySessionIds (core_run ops (fst (initialize ok (new_core d)))))
    \<and> (\<exists>k. owners (servers (mem (core_run ops (fst (initialize ok (new_core d)))))) \<subseteq> {k})"
  using invariant_run [OF invariant_initialize assms] by (simp add: core_invariant_def sessions_ok_def)

text \<open>
  C40. Nothing is left unsaved: from a disk on which ids are unique, after any sequence of the modelled
  operations (those of inventory sources and of the synchronisation are not among them) whose saves succeed, every store on disk is the one in memory, order included.
\<close>

theorem store_persisted:
  assumes "stored_ok d"
  shows "let c = core_run (map (\<lambda>op. (\<lambda>_. True, op)) ops) (fst (initialize (\<lambda>_. True) (new_core d))) in disk c = mem c"
proof -
  have "persisted c \<Longrightarrow> persisted (core_run (map (\<lambda>op. (\<lambda>_. True, op)) ops) c)" for c
    by (induction ops arbitrary: c) (simp_all add: core_run_def persisted_step)
  from this [OF persisted_initialize [OF assms]] show ?thesis by (simp add: persisted_def)
qed

text \<open>
  C39. A deletion of a credential profile that failed can be committed later by another operation: the
  profile stays deleted in memory while the links of the inventory sources are restored, so the next save
  of any other profile removes it from the disk, and the sources go on naming a profile that exists
  nowhere.
\<close>

theorem failed_removal_dangles:
  assumes "disk c = mem c" "distinct (map fst (inventorySources (mem c)))" "distinct (map fst (deviceTemplates (mem c)))"
    and "(k, x) \<in> set (inventorySources (mem c))" "source_authProfileId x = Some p" "p \<noteq> q" "\<not> ok AuthProfiles"
  shows "let c1 = fst (removeAuthProfile ok uuid p c); c2 = fst (addOrUpdateAuthProfile (\<lambda>_. True) q v c1) in
    disk c1 = disk c \<and> p \<notin> fst ` set (authProfiles (disk c2)) \<and> p \<notin> fst ` set (authProfiles (mem c2))
    \<and> (k, x) \<in> set (inventorySources (disk c2)) \<and> (k, x) \<in> set (inventorySources (mem c2))"
  using assms by (simp add: Let_def addOrUpdateAuthProfile_def dom_update sweep_fields removeAuth_failed)

section \<open>Examples\<close>

theorem store_invariants_witness:
  "\<exists>k. owners (servers (mem (core_run [(\<lambda>_. False, AddServer ''s'' (example_server\<lparr>openFileExplorerOnFirstConnect := True\<rparr>))]
      (fst (initialize (\<lambda>_. True) (new_core empty_config)))))) \<subseteq> {k}"
  using store_invariants [of "\<lambda>_. True" empty_config "[(\<lambda>_. False, AddServer ''s'' (example_server\<lparr>openFileExplorerOnFirstConnect := True\<rparr>))]"]
  by (simp add: core_op_ok_def)

theorem store_persisted_witness:
  "let c = core_run (map (\<lambda>op. (\<lambda>_. True, op)) [AddServer ''s'' example_server, AddFolder [97], DelServer ''s''])
      (fst (initialize (\<lambda>_. True) (new_core (empty_config :: nat config)))) in disk c = mem c"
  by (rule store_persisted) (simp add: stored_ok_def empty_config_def)

definition example_saved :: "nat core" where
  "example_saved = example_links\<lparr>disk := mem example_links\<rparr>"

theorem failed_removal_dangles_witness:
  "let c1 = fst (removeAuthProfile (\<lambda>st. st \<noteq> AuthProfiles) id ''p'' example_saved);
       c2 = fst (addOrUpdateAuthProfile (\<lambda>_. True) ''q'' 0 c1) in
    ''p'' \<notin> fst ` set (authProfiles (disk c2))
    \<and> (''i'', \<lparr>source_authProfileId = Some ''p'', templateRules = None, source_revision = ''1'', source_rest = 0\<rparr>)
        \<in> set (inventorySources (disk c2))"
  using failed_removal_dangles [of example_saved "''i''"
      "\<lparr>source_authProfileId = Some ''p'', templateRules = None, source_revision = ''1'', source_rest = 0\<rparr>" "''p''" "''q''"
      "\<lambda>st. st \<noteq> AuthProfiles" id 0]
  by (simp add: example_saved_def example_links_def Let_def)

end
