(* ===== verification/Tunnel_Manager.thy ===== *)
theory Tunnel_Manager
  imports Socks5
begin

text \<open>
  Port forwarding: \<open>src/src/services/tunnel/tunnelManager.ts\<close>. A tunnel, an accepted socket and an
  SSH connection are numbers in order of creation. A runtime outlives its entry in the map of active
  tunnels, as the closures of the source keep it. Where an asynchronous function waits is a phase of the
  tunnel (for \<open>start\<close> and \<open>stop\<close>) or of the socket it serves; every settling of a promise and every event
  of a socket, a connection or a timer is an operation of its own, and one that does not fit the
  phase changes nothing. The event log is what the listeners are called with.
\<close>

section \<open>Data\<close>

datatype tunnel_type = LocalTunnel | ReverseTunnel | DynamicTunnel

datatype connection_mode = IsolatedMode | SharedMode

record tunnel_profile =
  tp_id :: string
  tp_name :: string
  tp_localPort :: nat
  tp_remoteIP :: string
  tp_remotePort :: nat
  tp_tunnelType :: "tunnel_type option"
  tp_remoteBindAddress :: "string option"
  tp_localTargetIP :: "string option"
  tp_localBindAddress :: "string option"

definition resolveTunnelType :: "tunnel_profile \<Rightarrow> tunnel_type" where
  "resolveTunnelType p = (case tp_tunnelType p of Some t \<Rightarrow> t | None \<Rightarrow> LocalTunnel)"

datatype listener_state = NoListener | Listening | ListenerShut

datatype start_phase =
    StartBinding | StartConnecting | StartForwarding | StartClosing | StartOk | StartFailed

datatype stop_phase = NotStopped | StopCancelling | StopClosing | StopDone

text \<open>The fields that \<open>active\<close> copies from the profile are read from the profile; \<open>rt_remotePort\<close> is
  the one that changes.\<close>

record tunnel_runtime =
  rt_profile :: tunnel_profile
  rt_serverConfig :: string
  rt_startedAt :: nat
  rt_connectionMode :: connection_mode
  rt_remotePort :: nat
  rt_bytesIn :: nat
  rt_bytesOut :: nat
  rt_listenerServer :: listener_state
  rt_sockets :: "nat list"
  rt_sshConnections :: "nat list"
  rt_sharedConnection :: "nat option"
  rt_reverseBind :: "(string \<times> nat) option"
  rt_subscribed :: bool
  isStopping :: bool
  rt_start :: start_phase
  rt_stop :: stop_phase

text \<open>\<open>Proxying (Some c)\<close>: the handler disposes of its own connection \<open>c\<close> when one side ends.\<close>

datatype proxy_phase =
    Handshaking | AwaitingShared | AwaitingIsolated | OpeningChannel nat | Proxying "nat option" | Served

record proxy =
  px_tunnel :: nat
  px_phase :: proxy_phase
  px_open :: bool
  px_closed :: bool
  px_piped :: bool
  px_socks :: "socks_socket option"
  px_dest :: "(string \<times> nat) option"

record tunnel_conn =
  conn_tunnel :: nat
  conn_shared :: bool
  conn_open :: bool
  conn_closed :: bool

datatype tunnel_event =
    TunnelStarted nat
  | TunnelTraffic nat nat nat
  | TunnelStopped nat
  | TunnelError nat string

record tunnel_manager =
  runtimes :: "tunnel_runtime list"
  activeIds :: "nat list"
  activeByProfile :: "string \<Rightarrow> nat option"
  trafficTimers :: "nat list"
  proxies :: "proxy list"
  tunnel_conns :: "tunnel_conn list"
  tunnel_events :: "tunnel_event list"
  socks5HandshakeTimeoutMs :: int

section \<open>The handshake timeout\<close>

definition normalizeBoundedNumber :: "js_number \<Rightarrow> int \<Rightarrow> int \<Rightarrow> int \<Rightarrow> int" where
  "normalizeBoundedNumber v fallback lo hi =
     (case v of Finite q \<Rightarrow> min (max \<lfloor>q\<rfloor> lo) hi | _ \<Rightarrow> fallback)"

definition normalizeSocks5HandshakeTimeoutMs :: "js_number \<Rightarrow> int" where
  "normalizeSocks5HandshakeTimeoutMs v = normalizeBoundedNumber v 10000 2000 60000"

definition new_tunnel_manager :: "js_number \<Rightarrow> tunnel_manager" where
  "new_tunnel_manager v =
     \<lparr>runtimes = [], activeIds = [], activeByProfile = (\<lambda>_. None), trafficTimers = [], proxies = [],
      tunnel_conns = [], tunnel_events = [], socks5HandshakeTimeoutMs = normalizeSocks5HandshakeTimeoutMs v\<rparr>"

definition updateSocks5HandshakeTimeout :: "js_number \<Rightarrow> tunnel_manager \<Rightarrow> tunnel_manager" where
  "updateSocks5HandshakeTimeout v m = m\<lparr>socks5HandshakeTimeoutMs := normalizeSocks5HandshakeTimeoutMs v\<rparr>"

section \<open>Parts of the state\<close>

abbreviation rt :: "tunnel_manager \<Rightarrow> nat \<Rightarrow> tunnel_runtime" where
  "rt m i \<equiv> runtimes m ! i"

abbreviation px :: "tunnel_manager \<Rightarrow> nat \<Rightarrow> proxy" where
  "px m s \<equiv> proxies m ! s"

definition upd_rt :: "nat \<Rightarrow> (tunnel_runtime \<Rightarrow> tunnel_runtime) \<Rightarrow> tunnel_manager \<Rightarrow> tunnel_manager" where
  "upd_rt i f m = m\<lparr>runtimes := (runtimes m)[i := f (rt m i)]\<rparr>"

definition upd_px :: "nat \<Rightarrow> (proxy \<Rightarrow> proxy) \<Rightarrow> tunnel_manager \<Rightarrow> tunnel_manager" where
  "upd_px s f m = m\<lparr>proxies := (proxies m)[s := f (px m s)]\<rparr>"

definition tm_emit :: "tunnel_event \<Rightarrow> tunnel_manager \<Rightarrow> tunnel_manager" where
  "tm_emit e m = m\<lparr>tunnel_events := tunnel_events m @ [e]\<rparr>"

definition remember_tunnel :: "nat \<Rightarrow> tunnel_manager \<Rightarrow> tunnel_manager" where
  "remember_tunnel i m =
     m\<lparr>activeIds := activeIds m @ [i], activeByProfile := (activeByProfile m)(tp_id (rt_profile (rt m i)) := Some i)\<rparr>"

definition forget_tunnel :: "nat \<Rightarrow> tunnel_manager \<Rightarrow> tunnel_manager" where
  "forget_tunnel i m =
     m\<lparr>activeIds := removeAll i (activeIds m), activeByProfile := (activeByProfile m)(tp_id (rt_profile (rt m i)) := None)\<rparr>"

definition dispose_conns :: "nat list \<Rightarrow> tunnel_manager \<Rightarrow> tunnel_manager" where
  "dispose_conns cs m =
     m\<lparr>tunnel_conns := fold (\<lambda>c xs. xs[c := (xs ! c)\<lparr>conn_open := False\<rparr>]) cs (tunnel_conns m)\<rparr>"

definition destroy_sockets :: "nat list \<Rightarrow> tunnel_manager \<Rightarrow> tunnel_manager" where
  "destroy_sockets ss m =
     m\<lparr>proxies := fold (\<lambda>s xs. xs[s := (xs ! s)\<lparr>px_open := False\<rparr>]) ss (proxies m)\<rparr>"

definition untrack_socket :: "nat \<Rightarrow> tunnel_runtime \<Rightarrow> tunnel_runtime" where
  "untrack_socket s r = r\<lparr>rt_sockets := removeAll s (rt_sockets r)\<rparr>"

definition untrack_conn :: "nat \<Rightarrow> tunnel_runtime \<Rightarrow> tunnel_runtime" where
  "untrack_conn c r = r\<lparr>rt_sshConnections := removeAll c (rt_sshConnections r)\<rparr>"

definition track_conn :: "nat \<Rightarrow> tunnel_runtime \<Rightarrow> tunnel_runtime" where
  "track_conn c r = r\<lparr>rt_sshConnections := rt_sshConnections r @ [c]\<rparr>"

text \<open>A connection a factory has resolved to.\<close>

definition resolved_conn :: "nat \<Rightarrow> bool \<Rightarrow> tunnel_manager \<Rightarrow> tunnel_manager" where
  "resolved_conn i shared m =
     m\<lparr>tunnel_conns := tunnel_conns m @ [\<lparr>conn_tunnel = i, conn_shared = shared, conn_open = True, conn_closed = False\<rparr>]\<rparr>"

section \<open>Traffic\<close>

definition scheduleTrafficEmit :: "nat \<Rightarrow> tunnel_manager \<Rightarrow> tunnel_manager" where
  "scheduleTrafficEmit i m = (if i \<in> set (trafficTimers m) then m else m\<lparr>trafficTimers := trafficTimers m @ [i]\<rparr>)"

definition emit_traffic :: "nat \<Rightarrow> tunnel_manager \<Rightarrow> tunnel_manager" where
  "emit_traffic i m =
     (if i \<in> set (trafficTimers m)
      then tm_emit (TunnelTraffic i (rt_bytesIn (rt m i)) (rt_bytesOut (rt m i)))
             (m\<lparr>trafficTimers := removeAll i (trafficTimers m)\<rparr>)
      else m)"

section \<open>Shared connections\<close>

text \<open>\<open>getOrCreateSharedConnection\<close> after its factory has resolved: the new connection is the number
  \<open>length (tunnel_conns m)\<close>.\<close>

definition getOrCreateSharedConnection :: "nat \<Rightarrow> tunnel_manager \<Rightarrow> tunnel_manager" where
  "getOrCreateSharedConnection i m =
     (let c = length (tunnel_conns m)
      in upd_rt i (\<lambda>r. track_conn c (r\<lparr>rt_sharedConnection := Some c\<rparr>)) (resolved_conn i True m))"

text \<open>The close event of a connection, with the handler a shared one has.\<close>

definition shared_closed :: "nat \<Rightarrow> nat \<Rightarrow> tunnel_manager \<Rightarrow> tunnel_manager" where
  "shared_closed i c m =
     (let m1 = upd_rt i (\<lambda>r. untrack_conn c
                  (if rt_sharedConnection r = Some c then r\<lparr>rt_sharedConnection := None\<rparr> else r)) m
      in if \<not> isStopping (rt m1 i) \<and> i \<in> set (activeIds m1)
         then tm_emit (TunnelError i (''Shared SSH connection closed for tunnel '' @ tp_name (rt_profile (rt m1 i)))) m1
         else m1)"

definition conn_closes :: "nat \<Rightarrow> tunnel_manager \<Rightarrow> tunnel_manager" where
  "conn_closes c m =
     (if c < length (tunnel_conns m) \<and> \<not> conn_closed (tunnel_conns m ! c)
      then (let k = tunnel_conns m ! c;
                m1 = m\<lparr>tunnel_conns := (tunnel_conns m)[c := k\<lparr>conn_open := False, conn_closed := True\<rparr>]\<rparr>
            in if conn_shared k then shared_closed (conn_tunnel k) c m1 else m1)
      else m)"

section \<open>Starting\<close>

definition start_succeeds :: "nat \<Rightarrow> tunnel_manager \<Rightarrow> tunnel_manager" where
  "start_succeeds i m = tm_emit (TunnelStarted i) (upd_rt i (\<lambda>r. r\<lparr>rt_start := StartOk\<rparr>) m)"

definition new_runtime :: "tunnel_profile \<Rightarrow> string \<Rightarrow> connection_mode option \<Rightarrow> nat \<Rightarrow> tunnel_runtime" where
  "new_runtime p srv mode now =
     \<lparr>rt_profile = p, rt_serverConfig = srv, rt_startedAt = now,
      rt_connectionMode = (case mode of Some x \<Rightarrow> x | None \<Rightarrow> IsolatedMode),
      rt_remotePort = tp_remotePort p, rt_bytesIn = 0, rt_bytesOut = 0, rt_listenerServer = NoListener,
      rt_sockets = [], rt_sshConnections = [], rt_sharedConnection = None, rt_reverseBind = None,
      rt_subscribed = False, isStopping = False, rt_start = StartBinding, rt_stop = NotStopped\<rparr>"

definition startReverse :: "nat \<Rightarrow> tunnel_manager \<Rightarrow> tunnel_manager" where
  "startReverse i m =
     remember_tunnel i (upd_rt i (\<lambda>r. r\<lparr>rt_connectionMode := SharedMode, rt_start := StartConnecting\<rparr>) m)"

text \<open>The number is the tunnel the caller will be given.\<close>

definition start_new :: "tunnel_profile \<Rightarrow> string \<Rightarrow> connection_mode option \<Rightarrow> nat \<Rightarrow> tunnel_manager \<Rightarrow> nat \<times> tunnel_manager" where
  "start_new p srv mode now m =
     (let i = length (runtimes m); m1 = m\<lparr>runtimes := runtimes m @ [new_runtime p srv mode now]\<rparr>
      in (i, if resolveTunnelType p = ReverseTunnel then startReverse i m1 else m1))"

definition tunnel_start :: "tunnel_profile \<Rightarrow> string \<Rightarrow> connection_mode option \<Rightarrow> nat \<Rightarrow> tunnel_manager \<Rightarrow> nat \<times> tunnel_manager" where
  "tunnel_start p srv mode now m =
     (case activeByProfile m (tp_id p) of
        Some i \<Rightarrow> if i \<in> set (activeIds m) then (i, m) else start_new p srv mode now m
      | None \<Rightarrow> start_new p srv mode now m)"

definition in_start :: "nat \<Rightarrow> start_phase \<Rightarrow> tunnel_manager \<Rightarrow> bool" where
  "in_start i ph m \<longleftrightarrow> i < length (runtimes m) \<and> rt_start (rt m i) = ph"

text \<open>The listener of a local or dynamic tunnel is bound, or fails to be: then both its error
  handlers run.\<close>

definition listen_succeeds :: "nat \<Rightarrow> tunnel_manager \<Rightarrow> tunnel_manager" where
  "listen_succeeds i m =
     (if in_start i StartBinding m
      then (let m1 = remember_tunnel i (upd_rt i (\<lambda>r. r\<lparr>rt_listenerServer := Listening\<rparr>) m)
            in if rt_connectionMode (rt m1 i) = SharedMode
               then upd_rt i (\<lambda>r. r\<lparr>rt_start := StartConnecting\<rparr>) m1
               else start_succeeds i m1)
      else m)"

definition listener_message :: "tunnel_profile \<Rightarrow> string" where
  "listener_message p =
     ''Tunnel '' @ tp_name p @ (if resolveTunnelType p = DynamicTunnel then '' SOCKS5 listener failed'' else '' listener failed'')"

definition listener_fails :: "nat \<Rightarrow> tunnel_manager \<Rightarrow> tunnel_manager" where
  "listener_fails i m =
     (if in_start i StartBinding m
      then tm_emit (TunnelError i (listener_message (rt_profile (rt m i)))) (upd_rt i (\<lambda>r. r\<lparr>rt_start := StartFailed\<rparr>) m)
      else if i < length (runtimes m) \<and> rt_listenerServer (rt m i) = Listening
      then tm_emit (TunnelError i (listener_message (rt_profile (rt m i)))) m
      else m)"

text \<open>The shared connection that \<open>start\<close> waits for.\<close>

definition start_connected :: "nat \<Rightarrow> tunnel_manager \<Rightarrow> tunnel_manager" where
  "start_connected i m =
     (if in_start i StartConnecting m
      then (let m1 = getOrCreateSharedConnection i m
            in if resolveTunnelType (rt_profile (rt m1 i)) = ReverseTunnel
               then upd_rt i (\<lambda>r. r\<lparr>rt_start := StartForwarding\<rparr>) m1
               else start_succeeds i m1)
      else m)"

definition start_connect_fails :: "nat \<Rightarrow> tunnel_manager \<Rightarrow> tunnel_manager" where
  "start_connect_fails i m =
     (if in_start i StartConnecting m
      then (let m1 = forget_tunnel i m
            in if resolveTunnelType (rt_profile (rt m1 i)) = ReverseTunnel
               then upd_rt i (\<lambda>r. r\<lparr>rt_start := StartFailed\<rparr>) m1
               else upd_rt i (\<lambda>r. r\<lparr>rt_start := StartClosing, rt_listenerServer := ListenerShut\<rparr>) m1)
      else m)"

text \<open>The server answers the request of a reverse tunnel.\<close>

definition forward_granted :: "nat \<Rightarrow> nat \<Rightarrow> tunnel_manager \<Rightarrow> tunnel_manager" where
  "forward_granted i port m =
     (if in_start i StartForwarding m
      then (let p = rt_profile (rt m i)
            in start_succeeds i
                 (upd_rt i (\<lambda>r. r\<lparr>rt_reverseBind := Some (case tp_remoteBindAddress p of Some a \<Rightarrow> a | None \<Rightarrow> ''127.0.0.1'', port),
                                  rt_remotePort := (if port \<noteq> tp_remotePort p \<and> tp_remotePort p = 0 then port else rt_remotePort r),
                                  rt_subscribed := True\<rparr>) m))
      else m)"

definition forward_refused :: "nat \<Rightarrow> tunnel_manager \<Rightarrow> tunnel_manager" where
  "forward_refused i m =
     (if in_start i StartForwarding m
      then upd_rt i (\<lambda>r. r\<lparr>rt_start := StartFailed\<rparr>) (forget_tunnel i m)
      else m)"

section \<open>Sockets of local and dynamic tunnels\<close>

text \<open>The connection of a handler that knows where its socket is to go.\<close>

definition get_connection :: "nat \<Rightarrow> tunnel_manager \<Rightarrow> tunnel_manager" where
  "get_connection s m =
     (let r = rt m (px_tunnel (px m s))
      in upd_px s (\<lambda>p. p\<lparr>px_phase :=
           (if rt_connectionMode r = SharedMode
            then (case rt_sharedConnection r of Some c \<Rightarrow> OpeningChannel c | None \<Rightarrow> AwaitingShared)
            else AwaitingIsolated)\<rparr>) m)"

text \<open>\<open>handleLocalSocket\<close> and \<open>handleDynamicSocket\<close> up to their first \<open>await\<close>.\<close>

definition new_proxy :: "nat \<Rightarrow> proxy" where
  "new_proxy i =
     \<lparr>px_tunnel = i, px_phase = Served, px_open = True, px_closed = False, px_piped = False, px_socks = None, px_dest = None\<rparr>"

definition add_proxy :: "proxy \<Rightarrow> tunnel_manager \<Rightarrow> tunnel_manager" where
  "add_proxy p m = m\<lparr>proxies := proxies m @ [p]\<rparr>"

definition accept_socket :: "nat \<Rightarrow> tunnel_manager \<Rightarrow> tunnel_manager" where
  "accept_socket i m =
     (if i < length (runtimes m) \<and> rt_listenerServer (rt m i) = Listening
      then (let s = length (proxies m); p = rt_profile (rt m i)
            in if i \<notin> set (activeIds m) then add_proxy ((new_proxy i)\<lparr>px_open := False\<rparr>) m
               else (let m1 = upd_rt i (\<lambda>r. r\<lparr>rt_sockets := rt_sockets r @ [s]\<rparr>) m
                     in if resolveTunnelType p = DynamicTunnel
                        then add_proxy ((new_proxy i)\<lparr>px_phase := Handshaking\<rparr>) m1
                        else get_connection s (add_proxy ((new_proxy i)\<lparr>px_dest := Some (tp_remoteIP p, tp_remotePort p)\<rparr>) m1)))
      else m)"

definition in_proxy :: "nat \<Rightarrow> proxy_phase \<Rightarrow> tunnel_manager \<Rightarrow> bool" where
  "in_proxy s ph m \<longleftrightarrow> s < length (proxies m) \<and> px_phase (px m s) = ph"

definition proxy_message :: "tunnel_profile \<Rightarrow> string" where
  "proxy_message p =
     ''Tunnel '' @ tp_name p
     @ (if resolveTunnelType p = DynamicTunnel then '' SOCKS5 proxy failed'' else '' failed to proxy connection'')"

text \<open>The \<open>catch\<close> of both handlers; the connection is the one the handler had, if any.\<close>

definition release_failed :: "nat \<Rightarrow> nat \<Rightarrow> tunnel_manager \<Rightarrow> tunnel_manager" where
  "release_failed i c m =
     (if rt_connectionMode (rt m i) = SharedMode
      then (if rt_sharedConnection (rt m i) = Some c
            then dispose_conns [c] (upd_rt i (\<lambda>r. untrack_conn c (r\<lparr>rt_sharedConnection := None\<rparr>)) m)
            else m)
      else dispose_conns [c] (upd_rt i (untrack_conn c) m))"

definition proxy_fails :: "nat \<Rightarrow> nat option \<Rightarrow> tunnel_manager \<Rightarrow> tunnel_manager" where
  "proxy_fails s oc m =
     (let i = px_tunnel (px m s);
          m1 = upd_rt i (untrack_socket s) m;
          m2 = (case oc of Some c \<Rightarrow> release_failed i c m1 | None \<Rightarrow> m1);
          m3 = tm_emit (TunnelError i (proxy_message (rt_profile (rt m i)))) m2
      in upd_px s (\<lambda>p. p\<lparr>px_phase := Served, px_open := False,
                         px_socks := map_option sendSocks5Failure (px_socks p)\<rparr>) m3)"

text \<open>The handshake of a dynamic tunnel on what the client sent.\<close>

definition handshake_settles :: "nat \<Rightarrow> socks_socket \<Rightarrow> tunnel_manager \<Rightarrow> tunnel_manager" where
  "handshake_settles s k m =
     (if in_proxy s Handshaking m
      then (case handleSocks5Handshake k of
              (k1, Inr t) \<Rightarrow>
                get_connection s
                  (upd_px s (\<lambda>p. p\<lparr>px_socks := Some k1, px_dest := Some (destAddr t, unat (destPort t))\<rparr>) m)
            | (k1, Inl e) \<Rightarrow>
                (let m1 = upd_px s (\<lambda>p. p\<lparr>px_socks := Some k1\<rparr>) m
                 in if e = HandshakeAborted
                    then upd_px s (\<lambda>p. p\<lparr>px_phase := Served, px_open := False\<rparr>)
                           (upd_rt (px_tunnel (px m1 s)) (untrack_socket s) m1)
                    else proxy_fails s None m1))
      else m)"

definition proxy_connected :: "nat \<Rightarrow> tunnel_manager \<Rightarrow> tunnel_manager" where
  "proxy_connected s m =
     (let i = px_tunnel (px m s); c = length (tunnel_conns m)
      in if in_proxy s AwaitingShared m
         then upd_px s (\<lambda>p. p\<lparr>px_phase := OpeningChannel c\<rparr>) (getOrCreateSharedConnection i m)
         else if in_proxy s AwaitingIsolated m
         then upd_px s (\<lambda>p. p\<lparr>px_phase := OpeningChannel c\<rparr>) (upd_rt i (track_conn c) (resolved_conn i False m))
         else m)"

definition proxy_connect_fails :: "nat \<Rightarrow> tunnel_manager \<Rightarrow> tunnel_manager" where
  "proxy_connect_fails s m =
     (if in_proxy s AwaitingShared m \<or> in_proxy s AwaitingIsolated m then proxy_fails s None m else m)"

definition channel_opened :: "nat \<Rightarrow> tunnel_manager \<Rightarrow> tunnel_manager" where
  "channel_opened s m =
     (if s < length (proxies m)
      then (case px_phase (px m s) of
              OpeningChannel c \<Rightarrow>
                upd_px s (\<lambda>p. p\<lparr>px_phase := Proxying
                    (if rt_connectionMode (rt m (px_tunnel p)) = SharedMode then None else Some c),
                    px_piped := True, px_socks := map_option sendSocks5Success (px_socks p)\<rparr>) m
            | _ \<Rightarrow> m)
      else m)"

definition channel_refused :: "nat \<Rightarrow> tunnel_manager \<Rightarrow> tunnel_manager" where
  "channel_refused s m =
     (if s < length (proxies m)
      then (case px_phase (px m s) of OpeningChannel c \<Rightarrow> proxy_fails s (Some c) m | _ \<Rightarrow> m)
      else m)"

section \<open>Reverse connections\<close>

text \<open>A connection from the remote side on port \<open>dest\<close>; \<open>taken\<close> tells whether \<open>accept\<close> succeeds. A
  connection that is rejected changes nothing.\<close>

definition handleReverseConnection :: "nat \<Rightarrow> bool \<Rightarrow> tunnel_manager \<Rightarrow> tunnel_manager" where
  "handleReverseConnection i taken m =
     (if i \<notin> set (activeIds m) \<or> isStopping (rt m i) \<or> \<not> taken then m
      else (let s = length (proxies m); p = rt_profile (rt m i)
            in add_proxy ((new_proxy i)\<lparr>px_phase := Proxying None, px_piped := True,
                   px_dest := Some (case tp_localTargetIP p of Some a \<Rightarrow> a | None \<Rightarrow> ''127.0.0.1'', tp_localPort p)\<rparr>)
                 (upd_rt i (\<lambda>r. r\<lparr>rt_sockets := rt_sockets r @ [s]\<rparr>) m)))"

definition reverse_connection :: "nat \<Rightarrow> nat \<Rightarrow> bool \<Rightarrow> tunnel_manager \<Rightarrow> tunnel_manager" where
  "reverse_connection i dest taken m =
     (if i < length (runtimes m) \<and> rt_subscribed (rt m i)
      then (if map_option snd (rt_reverseBind (rt m i)) \<noteq> Some dest \<or> isStopping (rt m i) then m
            else handleReverseConnection i taken m)
      else m)"

section \<open>The end of a proxied connection\<close>

definition cleanup :: "nat \<Rightarrow> tunnel_manager \<Rightarrow> tunnel_manager" where
  "cleanup s m =
     (let i = px_tunnel (px m s)
      in case px_phase (px m s) of
           Proxying own \<Rightarrow>
             (let m1 = upd_px s (\<lambda>p. p\<lparr>px_phase := Served\<rparr>) (upd_rt i (untrack_socket s) m);
                  m2 = (case own of Some c \<Rightarrow> dispose_conns [c] (upd_rt i (untrack_conn c) m1) | None \<Rightarrow> m1)
              in if resolveTunnelType (rt_profile (rt m i)) = ReverseTunnel then destroy_sockets [s] m2 else m2)
         | _ \<Rightarrow> m)"

text \<open>The close event of the socket, of the peer or of a \<open>destroy\<close>, comes once; the remote stream
  may end at any time.\<close>

definition socket_closes :: "nat \<Rightarrow> tunnel_manager \<Rightarrow> tunnel_manager" where
  "socket_closes s m =
     (if s < length (proxies m) \<and> \<not> px_closed (px m s)
      then cleanup s (upd_px s (\<lambda>p. p\<lparr>px_open := False, px_closed := True\<rparr>) m)
      else m)"

definition remote_closes :: "nat \<Rightarrow> tunnel_manager \<Rightarrow> tunnel_manager" where
  "remote_closes s m = (if s < length (proxies m) then cleanup s m else m)"

text \<open>Data in either direction, once the streams are connected: the listeners stay after the cleanup.\<close>

definition data_listened :: "nat \<Rightarrow> tunnel_manager \<Rightarrow> bool" where
  "data_listened s m \<longleftrightarrow> s < length (proxies m) \<and> px_piped (px m s)"

definition count_in :: "nat \<Rightarrow> nat \<Rightarrow> tunnel_manager \<Rightarrow> tunnel_manager" where
  "count_in s n m =
     (if data_listened s m
      then scheduleTrafficEmit (px_tunnel (px m s)) (upd_rt (px_tunnel (px m s)) (\<lambda>r. r\<lparr>rt_bytesIn := rt_bytesIn r + n\<rparr>) m)
      else m)"

definition count_out :: "nat \<Rightarrow> nat \<Rightarrow> tunnel_manager \<Rightarrow> tunnel_manager" where
  "count_out s n m =
     (if data_listened s m
      then scheduleTrafficEmit (px_tunnel (px m s)) (upd_rt (px_tunnel (px m s)) (\<lambda>r. r\<lparr>rt_bytesOut := rt_bytesOut r + n\<rparr>) m)
      else m)"

section \<open>Stopping\<close>

definition finish_stop :: "nat \<Rightarrow> tunnel_manager \<Rightarrow> tunnel_manager" where
  "finish_stop i m = tm_emit (TunnelStopped i) (emit_traffic i (upd_rt i (\<lambda>r. r\<lparr>rt_stop := StopDone\<rparr>) m))"

definition stop_releases :: "nat \<Rightarrow> tunnel_manager \<Rightarrow> tunnel_manager" where
  "stop_releases i m =
     (let r = rt m i;
          m1 = upd_rt i (\<lambda>r. r\<lparr>rt_sharedConnection := None\<rparr>)
                 (dispose_conns (rt_sshConnections r) (destroy_sockets (rt_sockets r) m))
      in if rt_listenerServer r = NoListener then finish_stop i m1
         else upd_rt i (\<lambda>r. r\<lparr>rt_listenerServer := ListenerShut, rt_stop := StopClosing\<rparr>) m1)"

definition tunnel_stop :: "nat \<Rightarrow> tunnel_manager \<Rightarrow> tunnel_manager" where
  "tunnel_stop i m =
     (if i \<notin> set (activeIds m) then m
      else (let m1 = upd_rt i (\<lambda>r. r\<lparr>isStopping := True, rt_subscribed := False\<rparr>) (forget_tunnel i m)
            in if rt_reverseBind (rt m1 i) \<noteq> None \<and> rt_sharedConnection (rt m1 i) \<noteq> None
               then upd_rt i (\<lambda>r. r\<lparr>rt_stop := StopCancelling\<rparr>) m1
               else stop_releases i m1))"

definition cancel_settles :: "nat \<Rightarrow> tunnel_manager \<Rightarrow> tunnel_manager" where
  "cancel_settles i m =
     (if i < length (runtimes m) \<and> rt_stop (rt m i) = StopCancelling then stop_releases i m else m)"

text \<open>A listener that no longer accepts has closed when the sockets it accepted have.\<close>

definition sockets_closed :: "nat \<Rightarrow> tunnel_manager \<Rightarrow> bool" where
  "sockets_closed i m \<longleftrightarrow> list_all (\<lambda>p. px_tunnel p = i \<longrightarrow> px_closed p) (proxies m)"

definition stop_closed :: "nat \<Rightarrow> tunnel_manager \<Rightarrow> tunnel_manager" where
  "stop_closed i m =
     (if i < length (runtimes m) \<and> rt_stop (rt m i) = StopClosing \<and> sockets_closed i m then finish_stop i m else m)"

definition start_closed :: "nat \<Rightarrow> tunnel_manager \<Rightarrow> tunnel_manager" where
  "start_closed i m =
     (if in_start i StartClosing m \<and> sockets_closed i m then upd_rt i (\<lambda>r. r\<lparr>rt_start := StartFailed\<rparr>) m else m)"

definition tunnel_stopAll :: "tunnel_manager \<Rightarrow> tunnel_manager" where
  "tunnel_stopAll m = fold tunnel_stop (activeIds m) m"

section \<open>Runs\<close>

datatype tunnel_action =
    AStart tunnel_profile string "connection_mode option" nat
  | AListening nat
  | AListenerFails nat
  | AStartConnected nat
  | AStartConnectFails nat
  | AForwardGranted nat nat
  | AForwardRefused nat
  | AStartClosed nat
  | AAccept nat
  | AHandshake nat socks_socket
  | AConnected nat
  | AConnectFails nat
  | AOpened nat
  | ARefused nat
  | AReverse nat nat bool
  | ASocketCloses nat
  | ARemoteCloses nat
  | AConnCloses nat
  | AIn nat nat
  | AOut nat nat
  | ATimer nat
  | AStop nat
  | ACancelSettles nat
  | AStopClosed nat
  | AStopAll
  | ATimeout js_number

fun tunnel_act :: "tunnel_action \<Rightarrow> tunnel_manager \<Rightarrow> tunnel_manager" where
  "tunnel_act (AStart p srv mode now) m = snd (tunnel_start p srv mode now m)"
| "tunnel_act (AListening i) m = listen_succeeds i m"
| "tunnel_act (AListenerFails i) m = listener_fails i m"
| "tunnel_act (AStartConnected i) m = start_connected i m"
| "tunnel_act (AStartConnectFails i) m = start_connect_fails i m"
| "tunnel_act (AForwardGranted i port) m = forward_granted i port m"
| "tunnel_act (AForwardRefused i) m = forward_refused i m"
| "tunnel_act (AStartClosed i) m = start_closed i m"
| "tunnel_act (AAccept i) m = accept_socket i m"
| "tunnel_act (AHandshake s k) m = handshake_settles s k m"
| "tunnel_act (AConnected s) m = proxy_connected s m"
| "tunnel_act (AConnectFails s) m = proxy_connect_fails s m"
| "tunnel_act (AOpened s) m = channel_opened s m"
| "tunnel_act (ARefused s) m = channel_refused s m"
| "tunnel_act (AReverse i dest taken) m = reverse_connection i dest taken m"
| "tunnel_act (ASocketCloses s) m = socket_closes s m"
| "tunnel_act (ARemoteCloses s) m = remote_closes s m"
| "tunnel_act (AConnCloses c) m = conn_closes c m"
| "tunnel_act (AIn s n) m = count_in s n m"
| "tunnel_act (AOut s n) m = count_out s n m"
| "tunnel_act (ATimer i) m = emit_traffic i m"
| "tunnel_act (AStop i) m = tunnel_stop i m"
| "tunnel_act (ACancelSettles i) m = cancel_settles i m"
| "tunnel_act (AStopClosed i) m = stop_closed i m"
| "tunnel_act AStopAll m = tunnel_stopAll m"
| "tunnel_act (ATimeout v) m = updateSocks5HandshakeTimeout v m"

definition tunnel_run :: "js_number \<Rightarrow> tunnel_action list \<Rightarrow> tunnel_manager" where
  "tunnel_run v as = fold tunnel_act as (new_tunnel_manager v)"

end
