(* ===== verification/Tunnel_Runs.thy ===== *)
theory Tunnel_Runs
  imports Tunnel_Manager
begin

text \<open>
  What holds in every run of the tunnel manager, whatever the sockets, the connections, the timers and
  the callers do.
\<close>

section \<open>What the parts of the state keep\<close>

lemma upd_rt_parts [simp]:
  "runtimes (upd_rt i f m) = (runtimes m)[i := f (rt m i)]" "activeIds (upd_rt i f m) = activeIds m"
  "activeByProfile (upd_rt i f m) = activeByProfile m" "trafficTimers (upd_rt i f m) = trafficTimers m"
  "proxies (upd_rt i f m) = proxies m" "tunnel_conns (upd_rt i f m) = tunnel_conns m"
  "tunnel_events (upd_rt i f m) = tunnel_events m" "socks5HandshakeTimeoutMs (upd_rt i f m) = socks5HandshakeTimeoutMs m"
  by (simp_all add: upd_rt_def)

lemma upd_px_parts [simp]:
  "proxies (upd_px s f m) = (proxies m)[s := f (px m s)]" "activeIds (upd_px s f m) = activeIds m"
  "activeByProfile (upd_px s f m) = activeByProfile m" "trafficTimers (upd_px s f m) = trafficTimers m"
  "runtimes (upd_px s f m) = runtimes m" "tunnel_conns (upd_px s f m) = tunnel_conns m"
  "tunnel_events (upd_px s f m) = tunnel_events m" "socks5HandshakeTimeoutMs (upd_px s f m) = socks5HandshakeTimeoutMs m"
  by (simp_all add: upd_px_def)

lemma tm_emit_parts [simp]:
  "proxies (tm_emit e m) = proxies m" "activeIds (tm_emit e m) = activeIds m"
  "activeByProfile (tm_emit e m) = activeByProfile m" "trafficTimers (tm_emit e m) = trafficTimers m"
  "runtimes (tm_emit e m) = runtimes m" "tunnel_conns (tm_emit e m) = tunnel_conns m"
  "tunnel_events (tm_emit e m) = tunnel_events m @ [e]" "socks5HandshakeTimeoutMs (tm_emit e m) = socks5HandshakeTimeoutMs m"
  by (simp_all add: tm_emit_def)

lemma memory_parts [simp]:
  "proxies (remember_tunnel i m) = proxies m" "proxies (forget_tunnel i m) = proxies m"
  "activeIds (remember_tunnel i m) = activeIds m @ [i]" "activeIds (forget_tunnel i m) = removeAll i (activeIds m)"
  "trafficTimers (remember_tunnel i m) = trafficTimers m" "trafficTimers (forget_tunnel i m) = trafficTimers m"
  "runtimes (remember_tunnel i m) = runtimes m" "runtimes (forget_tunnel i m) = runtimes m"
  "tunnel_conns (remember_tunnel i m) = tunnel_conns m" "tunnel_conns (forget_tunnel i m) = tunnel_conns m"
  "tunnel_events (remember_tunnel i m) = tunnel_events m" "tunnel_events (forget_tunnel i m) = tunnel_events m"
  by (simp_all add: remember_tunnel_def forget_tunnel_def)

lemma add_proxy_parts [simp]:
  "proxies (add_proxy p m) = proxies m @ [p]" "activeIds (add_proxy p m) = activeIds m"
  "activeByProfile (add_proxy p m) = activeByProfile m" "trafficTimers (add_proxy p m) = trafficTimers m"
  "runtimes (add_proxy p m) = runtimes m" "tunnel_conns (add_proxy p m) = tunnel_conns m"
  "tunnel_events (add_proxy p m) = tunnel_events m"
  by (simp_all add: add_proxy_def)

lemma resolved_conn_parts [simp]:
  "proxies (resolved_conn i sh m) = proxies m" "activeIds (resolved_conn i sh m) = activeIds m"
  "activeByProfile (resolved_conn i sh m) = activeByProfile m" "trafficTimers (resolved_conn i sh m) = trafficTimers m"
  "runtimes (resolved_conn i sh m) = runtimes m" "tunnel_events (resolved_conn i sh m) = tunnel_events m"
  "tunnel_conns (resolved_conn i sh m) =
     tunnel_conns m @ [\<lparr>conn_tunnel = i, conn_shared = sh, conn_open = True, conn_closed = False\<rparr>]"
  by (simp_all add: resolved_conn_def)

lemma release_parts [simp]:
  "proxies (dispose_conns cs m) = proxies m" "activeIds (dispose_conns cs m) = activeIds m"
  "activeByProfile (dispose_conns cs m) = activeByProfile m" "trafficTimers (dispose_conns cs m) = trafficTimers m"
  "runtimes (dispose_conns cs m) = runtimes m" "tunnel_events (dispose_conns cs m) = tunnel_events m"
  "tunnel_conns (destroy_sockets ss m) = tunnel_conns m" "activeIds (destroy_sockets ss m) = activeIds m"
  "activeByProfile (destroy_sockets ss m) = activeByProfile m" "trafficTimers (destroy_sockets ss m) = trafficTimers m"
  "runtimes (destroy_sockets ss m) = runtimes m" "tunnel_events (destroy_sockets ss m) = tunnel_events m"
  by (simp_all add: dispose_conns_def destroy_sockets_def)

lemma traffic_parts [simp]:
  "proxies (scheduleTrafficEmit i m) = proxies m" "activeIds (scheduleTrafficEmit i m) = activeIds m"
  "runtimes (scheduleTrafficEmit i m) = runtimes m" "tunnel_conns (scheduleTrafficEmit i m) = tunnel_conns m"
  "tunnel_events (scheduleTrafficEmit i m) = tunnel_events m" "activeByProfile (scheduleTrafficEmit i m) = activeByProfile m"
  "set (trafficTimers (scheduleTrafficEmit i m)) = insert i (set (trafficTimers m))"
  "proxies (emit_traffic i m) = proxies m" "activeIds (emit_traffic i m) = activeIds m"
  "runtimes (emit_traffic i m) = runtimes m" "tunnel_conns (emit_traffic i m) = tunnel_conns m"
  "activeByProfile (emit_traffic i m) = activeByProfile m"
  "trafficTimers (emit_traffic i m) = removeAll i (trafficTimers m)"
  by (auto simp: scheduleTrafficEmit_def emit_traffic_def tm_emit_def)

lemma track_fields [simp]:
  "rt_sshConnections (untrack_conn c r) = removeAll c (rt_sshConnections r)"
  "rt_sshConnections (track_conn c r) = rt_sshConnections r @ [c]"
  "rt_sshConnections (untrack_socket s r) = rt_sshConnections r"
  "rt_sockets (untrack_conn c r) = rt_sockets r" "rt_sockets (track_conn c r) = rt_sockets r"
  "rt_sockets (untrack_socket s r) = removeAll s (rt_sockets r)"
  by (simp_all add: untrack_conn_def track_conn_def untrack_socket_def)

text \<open>What disposing and destroying do to a list.\<close>

lemma fold_update_length [simp]: "length (fold (\<lambda>c xs. xs[c := g (xs ! c)]) cs xs) = length xs"
  by (induction cs arbitrary: xs) simp_all

lemma fold_update_nth:
  assumes "\<And>x. g (g x) = g x" "c < length xs"
  shows "fold (\<lambda>c xs. xs[c := g (xs ! c)]) cs xs ! c = (if c \<in> set cs then g (xs ! c) else xs ! c)"
  using assms(2) by (induction cs arbitrary: xs) (auto simp: nth_update_if assms(1))

lemma dispose_length [simp]: "length (tunnel_conns (dispose_conns cs m)) = length (tunnel_conns m)"
  by (simp add: dispose_conns_def)

lemma dispose_nth:
  "c < length (tunnel_conns m) \<Longrightarrow>
   tunnel_conns (dispose_conns cs m) ! c =
     (if c \<in> set cs then (tunnel_conns m ! c)\<lparr>conn_open := False\<rparr> else tunnel_conns m ! c)"
  by (simp add: dispose_conns_def fold_update_nth)

lemma destroy_length [simp]: "length (proxies (destroy_sockets ss m)) = length (proxies m)"
  by (simp add: destroy_sockets_def)

lemma destroy_nth:
  "s < length (proxies m) \<Longrightarrow>
   px (destroy_sockets ss m) s = (if s \<in> set ss then (px m s)\<lparr>px_open := False\<rparr> else px m s)"
  by (simp add: destroy_sockets_def fold_update_nth)

section \<open>Connections and sockets are tracked\<close>

text \<open>An open connection is in the set of the runtime that asked for it. An open socket is in the set
  of its runtime unless its handler is through with it.\<close>

definition conn_tracked :: "tunnel_manager \<Rightarrow> nat \<Rightarrow> bool" where
  "conn_tracked m c \<longleftrightarrow>
     conn_open (tunnel_conns m ! c) \<longrightarrow>
     conn_tunnel (tunnel_conns m ! c) < length (runtimes m)
     \<and> c \<in> set (rt_sshConnections (rt m (conn_tunnel (tunnel_conns m ! c))))"

definition socket_tracked :: "tunnel_manager \<Rightarrow> nat \<Rightarrow> bool" where
  "socket_tracked m s \<longleftrightarrow>
     px_tunnel (px m s) < length (runtimes m)
     \<and> (px_open (px m s) \<longrightarrow> px_phase (px m s) = Served \<or> s \<in> set (rt_sockets (rt m (px_tunnel (px m s)))))"

definition tracked :: "tunnel_manager \<Rightarrow> bool" where
  "tracked m \<longleftrightarrow> (\<forall>c<length (tunnel_conns m). conn_tracked m c) \<and> (\<forall>s<length (proxies m). socket_tracked m s)"

lemmas tracked_defs = tracked_def conn_tracked_def socket_tracked_def

lemma tracked_frame:
  assumes "tracked m" "tunnel_conns m' = tunnel_conns m" "proxies m' = proxies m"
    and "map rt_sshConnections (runtimes m') = map rt_sshConnections (runtimes m)"
    and "map rt_sockets (runtimes m') = map rt_sockets (runtimes m)"
  shows "tracked m'"
proof -
  have l: "length (runtimes m') = length (runtimes m)" using assms(4) by (metis length_map)
  have "rt_sshConnections (rt m' i) = rt_sshConnections (rt m i)" "rt_sockets (rt m' i) = rt_sockets (rt m i)"
    if "i < length (runtimes m)" for i
    using assms(4,5) that l by (metis nth_map)+
  then show ?thesis using assms(1-3) l by (auto simp: tracked_defs)
qed

lemma tracked_upd_rt:
  assumes "tracked m" "\<And>r. rt_sshConnections (f r) = rt_sshConnections r" "\<And>r. rt_sockets (f r) = rt_sockets r"
  shows "tracked (upd_rt i f m)"
  by (rule tracked_frame [OF assms(1)]) (simp_all add: map_update assms list_update_same_conv nth_update_if comp_def
      list_eq_iff_nth_eq)

lemma tracked_simple [simp]:
  "tracked (tm_emit e m) = tracked m" "tracked (remember_tunnel i m) = tracked m" "tracked (forget_tunnel i m) = tracked m"
  "tracked (scheduleTrafficEmit i m) = tracked m" "tracked (emit_traffic i m) = tracked m"
  "tracked (updateSocks5HandshakeTimeout v m) = tracked m"
  by (simp_all add: tracked_defs updateSocks5HandshakeTimeout_def)

text \<open>A connection that is given up is disposed of; a socket that is given up has been served.\<close>

lemma tracked_give_up:
  assumes "tracked m" "\<And>r. rt_sshConnections (f r) = rt_sshConnections r" "\<And>r. rt_sockets (f r) = rt_sockets r"
  shows "tracked (dispose_conns [c] (upd_rt i (\<lambda>r. untrack_conn c (f r)) m))"
  using assms by (auto simp: tracked_defs dispose_nth nth_update_if)

lemma tracked_dispose: "tracked m \<Longrightarrow> tracked (dispose_conns cs m)"
  by (auto simp: tracked_defs dispose_nth split: if_splits)

lemma tracked_destroy: "tracked m \<Longrightarrow> tracked (destroy_sockets ss m)"
  by (auto simp: tracked_defs destroy_nth split: if_splits)

lemma tracked_resolve:
  assumes "tracked m" "i < length (runtimes m)" "\<And>r. rt_sshConnections (f r) = rt_sshConnections r" "\<And>r. rt_sockets (f r) = rt_sockets r"
  shows "tracked (upd_rt i (\<lambda>r. track_conn (length (tunnel_conns m)) (f r)) (resolved_conn i sh m))"
  using assms by (auto simp: tracked_defs nth_update_if nth_append less_Suc_eq)

lemma tracked_phase:
  assumes "tracked m" "\<And>p. px_tunnel (f p) = px_tunnel p" "\<And>p. px_open (f p) \<Longrightarrow> px_open p"
    and "\<And>p. px_open (f p) \<Longrightarrow> px_phase p = Served \<Longrightarrow> s < length (proxies m) \<Longrightarrow> p = px m s \<Longrightarrow> px_phase (f p) = Served"
  shows "tracked (upd_px s f m)"
  using assms by (auto simp: tracked_defs nth_update_if)

lemma tracked_served:
  assumes "tracked m" "\<And>p. px_tunnel (f p) = px_tunnel p" "\<And>p. px_phase (f p) = Served"
  shows "tracked (upd_px s f (upd_rt i (untrack_socket s) m))"
  using assms by (auto simp: tracked_defs nth_update_if)

text \<open>The operations.\<close>

lemmas tracked_rules = tracked_upd_rt tracked_give_up tracked_dispose tracked_destroy tracked_resolve tracked_phase tracked_served

lemma tracked_extend:
  assumes "tracked m" shows "tracked (m\<lparr>runtimes := runtimes m @ [r]\<rparr>)"
proof -
  have "i < length (runtimes m) \<Longrightarrow> (runtimes m @ [r]) ! i = rt m i" for i by (simp add: nth_append)
  then show ?thesis using assms by (auto simp: tracked_defs less_SucI)
qed

lemma tracked_start: "tracked m \<Longrightarrow> tracked (snd (tunnel_start p srv mode now m))"
  by (auto simp: tunnel_start_def start_new_def startReverse_def Let_def intro!: tracked_upd_rt tracked_extend split: option.split)

lemma tracked_getShared: "tracked m \<Longrightarrow> i < length (runtimes m) \<Longrightarrow> tracked (getOrCreateSharedConnection i m)"
  by (simp add: getOrCreateSharedConnection_def Let_def tracked_resolve)

lemma tracked_starting:
  assumes "tracked m"
  shows "tracked (listen_succeeds i m)" "tracked (listener_fails i m)" "tracked (start_connected i m)"
    "tracked (start_connect_fails i m)" "tracked (forward_granted i port m)" "tracked (forward_refused i m)"
    "tracked (start_closed i m)"
  using assms
  by (auto simp: listen_succeeds_def listener_fails_def start_connected_def start_connect_fails_def forward_granted_def
      forward_refused_def start_closed_def start_succeeds_def in_start_def Let_def intro!: tracked_upd_rt tracked_getShared)

lemma tracked_accepted:
  assumes "tracked m" "i < length (runtimes m)" "px_tunnel p = i"
  shows "tracked (add_proxy p (upd_rt i (\<lambda>r. r\<lparr>rt_sockets := rt_sockets r @ [length (proxies m)]\<rparr>) m))"
  using assms by (auto simp: tracked_defs nth_update_if nth_append less_Suc_eq)

lemma tracked_not_accepted:
  assumes "tracked m" "px_tunnel p < length (runtimes m)" "\<not> px_open p"
  shows "tracked (add_proxy p m)"
  using assms by (auto simp: tracked_defs nth_append less_Suc_eq)

text \<open>A handler that goes on keeps its socket.\<close>

lemma get_connection_tracked:
  assumes "tracked m" "px_open (px m s) \<longrightarrow> s \<in> set (rt_sockets (rt m (px_tunnel (px m s))))"
  shows "tracked (get_connection s m)"
  using assms by (auto simp: get_connection_def Let_def tracked_defs nth_update_if split: option.splits)

lemma tracked_accept: "tracked m \<Longrightarrow> tracked (accept_socket i m)"
proof -
  assume a: "tracked m"
  show ?thesis
    using a tracked_accepted [OF a, of i] tracked_not_accepted [OF a]
    by (auto simp: accept_socket_def Let_def new_proxy_def nth_append intro!: get_connection_tracked)
qed

lemma release_failed_tracked: "tracked m \<Longrightarrow> tracked (release_failed i c m)"
  using tracked_give_up [where f = id] by (auto simp: release_failed_def intro: tracked_give_up)

text \<open>The socket and the runtime are updated independently of each other.\<close>

lemma upd_px_commutes:
  "upd_px s f (upd_rt i g m) = upd_rt i g (upd_px s f m)" "upd_px s f (tm_emit e m) = tm_emit e (upd_px s f m)"
  "upd_px s f (dispose_conns cs m) = dispose_conns cs (upd_px s f m)"
  "upd_px s f (release_failed i c m) = release_failed i c (upd_px s f m)"
  by (simp_all add: upd_px_def upd_rt_def tm_emit_def dispose_conns_def release_failed_def)

lemma fails_tracked: "tracked m \<Longrightarrow> tracked (proxy_fails s oc m)"
  by (auto simp: proxy_fails_def Let_def upd_px_commutes(2,4)
      intro!: release_failed_tracked tracked_served split: option.split)

lemma tracked_awaited:
  assumes "tracked m" "s < length (proxies m)" "px_phase (px m s) \<noteq> Served"
  shows "px_tunnel (px m s) < length (runtimes m)"
    "px_open (px m s) \<longrightarrow> s \<in> set (rt_sockets (rt m (px_tunnel (px m s))))"
  using assms by (auto simp: tracked_defs)

lemma tracked_handshake: "tracked m \<Longrightarrow> tracked (handshake_settles s k m)"
proof -
  assume a: "tracked m"
  have k: "tracked (upd_px s (\<lambda>p. p\<lparr>px_socks := x\<rparr>) m)" "tracked (upd_px s (\<lambda>p. p\<lparr>px_socks := x, px_dest := d\<rparr>) m)" for x d
    by (auto intro: tracked_phase [OF a])
  show ?thesis
    using a k tracked_awaited [OF a, of s]
    by (auto simp: handshake_settles_def in_proxy_def Let_def nth_update_if
        intro!: fails_tracked tracked_served get_connection_tracked split: prod.split sum.split)
qed

lemma proxy_connected_tracked: "tracked m \<Longrightarrow> tracked (proxy_connected s m)"
proof -
  assume a: "tracked m"
  note w = tracked_awaited(1) [OF a, of s]
  show ?thesis
    using a w tracked_getShared [OF a w] tracked_resolve [OF a w, where f = id]
    by (auto simp: proxy_connected_def in_proxy_def getOrCreateSharedConnection_def Let_def intro!: tracked_phase)
qed

lemma tracked_phases:
  assumes a: "tracked m"
  shows "tracked (proxy_connect_fails s m)" "tracked (channel_opened s m)" "tracked (channel_refused s m)"
    "tracked (count_in s n m)" "tracked (count_out s n m)"
  using a
  by (auto simp: proxy_connect_fails_def channel_opened_def channel_refused_def count_in_def count_out_def
      intro!: fails_tracked tracked_upd_rt tracked_phase split: proxy_phase.split)

lemma tracked_reverse: "tracked m \<Longrightarrow> tracked (reverse_connection i dest taken m)"
proof -
  assume a: "tracked m"
  show ?thesis
    using a tracked_accepted [OF a, of i]
    by (auto simp: reverse_connection_def handleReverseConnection_def Let_def new_proxy_def)
qed

lemma tracked_cleanup: "tracked m \<Longrightarrow> tracked (cleanup s m)"
proof -
  assume a: "tracked m"
  have p: "tracked (upd_px s (px_phase_update (\<lambda>_. Served)) (upd_rt i (untrack_socket s) m))" for i
    by (rule tracked_served [OF a]) simp_all
  show ?thesis
    using a p tracked_give_up [OF p, where f = id]
    by (auto simp: cleanup_def Let_def intro!: tracked_destroy split: proxy_phase.split option.split)
qed

lemma tracked_closes: "tracked m \<Longrightarrow> tracked (socket_closes s m)" "tracked m \<Longrightarrow> tracked (remote_closes s m)"
  by (auto simp: socket_closes_def remote_closes_def intro!: tracked_cleanup tracked_phase)

lemma tracked_conn_closes: "tracked m \<Longrightarrow> tracked (conn_closes c m)"
  by (auto simp: conn_closes_def shared_closed_def tracked_defs nth_update_if Let_def)

lemma tracked_releases: "tracked m \<Longrightarrow> tracked (stop_releases i m)"
  by (auto simp: stop_releases_def finish_stop_def Let_def intro!: tracked_upd_rt tracked_dispose tracked_destroy)

lemma tracked_stop: "tracked m \<Longrightarrow> tracked (tunnel_stop i m)"
  by (auto simp: tunnel_stop_def Let_def intro!: tracked_upd_rt tracked_releases)

lemma tracked_stopping:
  assumes "tracked m" shows "tracked (cancel_settles i m)" "tracked (stop_closed i m)"
  using assms by (auto simp: cancel_settles_def stop_closed_def finish_stop_def intro!: tracked_releases tracked_upd_rt)

lemma tracked_act: "a \<noteq> AStopAll \<Longrightarrow> tracked m \<Longrightarrow> tracked (tunnel_act a m)"
  by (cases a) (simp_all add: tracked_start tracked_starting tracked_accept tracked_handshake proxy_connected_tracked
      tracked_phases tracked_reverse tracked_closes tracked_conn_closes tracked_stop tracked_stopping)

section \<open>Runs keep what every action keeps\<close>

text \<open>\<open>stopAll\<close> stops one tunnel after the other.\<close>

locale tunnel_stable =
  fixes inv :: "tunnel_manager \<Rightarrow> bool"
  assumes inv_act: "a \<noteq> AStopAll \<Longrightarrow> inv m \<Longrightarrow> inv (tunnel_act a m)"
begin

lemma inv_any_act: "inv m \<Longrightarrow> inv (tunnel_act a m)"
proof -
  have "inv m \<Longrightarrow> inv (fold tunnel_stop is m)" for "is" m
  proof (induction "is" arbitrary: m)
    case (Cons i "is")
    then show ?case using inv_act [of "AStop i" m] by simp
  qed simp
  then show "inv m \<Longrightarrow> inv (tunnel_act a m)" by (cases "a = AStopAll") (auto simp: tunnel_stopAll_def inv_act)
qed

lemma inv_acts: "inv m \<Longrightarrow> inv (fold tunnel_act as m)"
  by (induction as arbitrary: m) (simp_all add: inv_any_act)

end

locale tunnel_invariant = tunnel_stable +
  assumes inv_new: "inv (new_tunnel_manager v)"
begin

lemma inv_run: "inv (tunnel_run v as)"
  by (simp add: tunnel_run_def inv_new inv_acts)

end

interpretation tracking: tunnel_invariant tracked
  by unfold_locales (simp_all add: tracked_act, simp add: tracked_defs new_tunnel_manager_def)

section \<open>The life of a tunnel\<close>

text \<open>What serving sockets leaves alone: the phases and the counters of the tunnels, the maps, the timers
  and all events but errors.\<close>

definition life :: "tunnel_runtime \<Rightarrow> tunnel_profile \<times> bool \<times> start_phase \<times> stop_phase \<times> listener_state \<times> nat \<times> nat" where
  "life r = (rt_profile r, isStopping r, rt_start r, rt_stop r, rt_listenerServer r, rt_bytesIn r, rt_bytesOut r)"

fun is_error :: "tunnel_event \<Rightarrow> bool" where
  "is_error (TunnelError _ _) = True"
| "is_error _ = False"

definition milestones :: "tunnel_manager \<Rightarrow> tunnel_event list" where
  "milestones m = filter (\<lambda>e. \<not> is_error e) (tunnel_events m)"

definition gist ::
  "tunnel_manager \<Rightarrow> (tunnel_profile \<times> bool \<times> start_phase \<times> stop_phase \<times> listener_state \<times> nat \<times> nat) list
     \<times> nat list \<times> (string \<Rightarrow> nat option) \<times> nat list \<times> tunnel_event list" where
  "gist m = (map life (runtimes m), activeIds m, activeByProfile m, trafficTimers m, milestones m)"

lemma life_tracking [simp]:
  "life (untrack_socket s r) = life r" "life (untrack_conn c r) = life r" "life (track_conn c r) = life r"
  "life (r\<lparr>rt_sockets := ss\<rparr>) = life r" "life (r\<lparr>rt_sharedConnection := oc\<rparr>) = life r"
  by (simp_all add: life_def untrack_socket_def untrack_conn_def track_conn_def)

lemma life_same: "(\<And>r. life (f r) = life r) \<Longrightarrow> map life ((runtimes m)[i := f (rt m i)]) = map life (runtimes m)"
  by (auto simp: list_eq_iff_nth_eq nth_update_if)

lemma gist_upd_rt: "(\<And>r. life (f r) = life r) \<Longrightarrow> gist (upd_rt i f m) = gist m"
  by (simp add: gist_def life_same milestones_def)

lemma gist_parts [simp]:
  "gist (upd_px s f m) = gist m" "gist (dispose_conns cs m) = gist m" "gist (destroy_sockets ss m) = gist m"
  "gist (add_proxy p m) = gist m" "gist (resolved_conn i sh m) = gist m" "gist (tm_emit (TunnelError i t) m) = gist m"
  "gist (updateSocks5HandshakeTimeout v m) = gist m"
  by (simp_all add: gist_def milestones_def updateSocks5HandshakeTimeout_def)

lemma gist_getShared [simp]: "gist (getOrCreateSharedConnection i m) = gist m"
  by (simp add: getOrCreateSharedConnection_def Let_def gist_upd_rt)

lemma gist_fails [simp]: "gist (release_failed i c m) = gist m" "gist (proxy_fails s oc m) = gist m"
  by (auto simp: release_failed_def proxy_fails_def Let_def gist_upd_rt split: option.split)

lemma gist_get_connection [simp]: "gist (get_connection s m) = gist m"
  by (simp add: get_connection_def Let_def)

lemma gist_accept: "gist (accept_socket i m) = gist m"
  by (simp add: accept_socket_def Let_def gist_upd_rt)

lemma gist_handshake: "gist (handshake_settles s k m) = gist m"
  by (auto simp: handshake_settles_def Let_def gist_upd_rt split: prod.split sum.split)

lemma gist_proxy: "gist (proxy_connected s m) = gist m" "gist (proxy_connect_fails s m) = gist m"
  "gist (channel_opened s m) = gist m" "gist (channel_refused s m) = gist m" "gist (reverse_connection i d taken m) = gist m"
  by (auto simp: proxy_connected_def proxy_connect_fails_def channel_opened_def channel_refused_def reverse_connection_def
      handleReverseConnection_def Let_def gist_upd_rt split: proxy_phase.split)

lemma gist_cleanup [simp]: "gist (cleanup s m) = gist m"
  by (auto simp: cleanup_def Let_def gist_upd_rt split: proxy_phase.split option.split)

lemma gist_closes: "gist (socket_closes s m) = gist m" "gist (remote_closes s m) = gist m"
  by (simp_all add: socket_closes_def remote_closes_def)

lemma gist_conn_closes: "gist (conn_closes c m) = gist m"
proof -
  have "gist (m\<lparr>tunnel_conns := cs\<rparr>) = gist m" for cs by (simp add: gist_def milestones_def)
  moreover have "life (untrack_conn c (if b then r\<lparr>rt_sharedConnection := None\<rparr> else r)) = life r" for b r by simp
  ultimately show ?thesis by (simp add: conn_closes_def shared_closed_def Let_def gist_upd_rt)
qed

lemmas gist_serving = gist_accept gist_handshake gist_proxy gist_closes gist_conn_closes gist_parts(7)

text \<open>Reading a gist.\<close>

lemma gist_eqD:
  assumes "gist m' = gist m"
  shows "length (runtimes m') = length (runtimes m)" "activeIds m' = activeIds m" "activeByProfile m' = activeByProfile m"
    "trafficTimers m' = trafficTimers m" "milestones m' = milestones m"
  using assms by (auto simp: gist_def dest: arg_cong [where f = length])

lemma gist_rt:
  assumes "gist m' = gist m" "i < length (runtimes m)"
  shows "rt_profile (rt m' i) = rt_profile (rt m i)" "isStopping (rt m' i) = isStopping (rt m i)"
    "rt_start (rt m' i) = rt_start (rt m i)" "rt_stop (rt m' i) = rt_stop (rt m i)"
    "rt_listenerServer (rt m' i) = rt_listenerServer (rt m i)"
    "rt_bytesIn (rt m' i) = rt_bytesIn (rt m i)" "rt_bytesOut (rt m' i) = rt_bytesOut (rt m i)"
proof -
  have "life (rt m' i) = life (rt m i)"
    using assms gist_eqD(1) [OF assms(1)] by (simp add: gist_def list_eq_iff_nth_eq)
  then show "rt_profile (rt m' i) = rt_profile (rt m i)" "isStopping (rt m' i) = isStopping (rt m i)"
    "rt_start (rt m' i) = rt_start (rt m i)" "rt_stop (rt m' i) = rt_stop (rt m i)"
    "rt_listenerServer (rt m' i) = rt_listenerServer (rt m i)"
    "rt_bytesIn (rt m' i) = rt_bytesIn (rt m i)" "rt_bytesOut (rt m' i) = rt_bytesOut (rt m i)"
    by (simp_all add: life_def)
qed

text \<open>The maps hold tunnels that are coming up or up, each once; a tunnel whose listener is being bound has
  not been stopped.\<close>

definition phase_ok :: "bool \<Rightarrow> tunnel_runtime \<Rightarrow> bool" where
  "phase_ok act r \<longleftrightarrow>
     (act \<longrightarrow> rt_start r \<in> {StartConnecting, StartForwarding, StartOk})
     \<and> (act \<or> rt_start r = StartBinding \<longrightarrow> \<not> isStopping r \<and> rt_stop r = NotStopped)"

definition phases_ok :: "tunnel_manager \<Rightarrow> bool" where
  "phases_ok m \<longleftrightarrow>
     distinct (activeIds m) \<and> (\<forall>i\<in>set (activeIds m). i < length (runtimes m))
     \<and> (\<forall>i<length (runtimes m). phase_ok (i \<in> set (activeIds m)) (rt m i))
     \<and> (\<forall>p i. activeByProfile m p = Some i \<longrightarrow> i \<in> set (activeIds m) \<and> tp_id (rt_profile (rt m i)) = p)"

lemma phases_gist: "gist m' = gist m \<Longrightarrow> phases_ok m \<Longrightarrow> phases_ok m'"
  using gist_rt [of m' m] gist_eqD [of m' m] by (simp add: phases_ok_def phase_ok_def)

lemma phases_upd_rt:
  assumes "phases_ok m" "\<And>r. rt_profile (f r) = rt_profile r"
    and "i < length (runtimes m) \<Longrightarrow> phase_ok (i \<in> set (activeIds m)) (f (rt m i))"
  shows "phases_ok (upd_rt i f m)"
  using assms by (auto simp: phases_ok_def nth_update_if)

lemma phases_forget: "phases_ok m \<Longrightarrow> phases_ok (forget_tunnel i m)"
  by (auto simp: phases_ok_def phase_ok_def forget_tunnel_def distinct_removeAll)

lemma phases_remember:
  assumes "phases_ok m" "i < length (runtimes m)" "i \<notin> set (activeIds m)" "phase_ok True (rt m i)"
  shows "phases_ok (remember_tunnel i m)"
  using assms by (auto simp: phases_ok_def phase_ok_def remember_tunnel_def)

lemma phases_extend: "phases_ok m \<Longrightarrow> phase_ok False r \<Longrightarrow> phases_ok (m\<lparr>runtimes := runtimes m @ [r]\<rparr>)"
  by (auto simp: phases_ok_def nth_append less_Suc_eq)

lemma phases_simple [simp]:
  "phases_ok (tm_emit e m) = phases_ok m" "phases_ok (emit_traffic i m) = phases_ok m"
  "phases_ok (scheduleTrafficEmit i m) = phases_ok m"
  by (simp_all add: phases_ok_def)

lemma phases_known:
  assumes "phases_ok m"
  shows "i \<in> set (activeIds m) \<Longrightarrow> i < length (runtimes m)" "i < length (runtimes m) \<Longrightarrow> phase_ok (i \<in> set (activeIds m)) (rt m i)"
  using assms by (auto simp: phases_ok_def)

lemma upd_remember: "(\<And>r. rt_profile (f r) = rt_profile r) \<Longrightarrow> upd_rt i f (remember_tunnel i m) = remember_tunnel i (upd_rt i f m)"
  by (cases "i < length (runtimes m)") (simp_all add: upd_rt_def remember_tunnel_def list_update_beyond)

lemma emit_remember: "tm_emit e (remember_tunnel i m) = remember_tunnel i (tm_emit e m)"
  by (simp add: tm_emit_def remember_tunnel_def)

lemma phases_start: "phases_ok m \<Longrightarrow> phases_ok (snd (tunnel_start p srv mode now m))"
proof -
  assume a: "phases_ok m"
  have n: "phases_ok (m\<lparr>runtimes := runtimes m @ [new_runtime p srv mode now]\<rparr>)"
    by (rule phases_extend [OF a]) (simp add: phase_ok_def new_runtime_def)
  have "length (runtimes m) \<notin> set (activeIds m)" using phases_known(1) [OF a] by blast
  then have "phases_ok (snd (start_new p srv mode now m))"
    using n by (auto simp: start_new_def startReverse_def Let_def phase_ok_def new_runtime_def
        intro!: phases_remember phases_upd_rt)
  then show ?thesis using a by (auto simp: tunnel_start_def split: option.split)
qed

lemma phases_listen: "phases_ok m \<Longrightarrow> phases_ok (listen_succeeds i m)"
proof -
  assume a: "phases_ok m"
  show ?thesis
    using a phases_known(2) [OF a, of i]
    by (auto simp: listen_succeeds_def start_succeeds_def in_start_def Let_def upd_remember emit_remember phase_ok_def
        intro!: phases_remember phases_upd_rt)
qed

lemma phases_starting:
  assumes a: "phases_ok m"
  shows "phases_ok (listener_fails i m)" "phases_ok (start_connected i m)"
    "phases_ok (start_connect_fails i m)" "phases_ok (forward_granted i port m)" "phases_ok (forward_refused i m)"
    "phases_ok (start_closed i m)"
  using a phases_known(2) [OF a, of i] phases_gist [OF gist_getShared a, of i] gist_eqD [OF gist_getShared, of i m] gist_rt [OF gist_getShared, of i m i]
  by (auto simp: listener_fails_def start_connected_def start_connect_fails_def forward_granted_def
      forward_refused_def start_closed_def start_succeeds_def in_start_def Let_def phase_ok_def
      intro!: phases_upd_rt phases_forget)

lemma phases_count: "phases_ok m \<Longrightarrow> phases_ok (count_in s n m)" "phases_ok m \<Longrightarrow> phases_ok (count_out s n m)"
  by (auto simp: count_in_def count_out_def phases_known phase_ok_def dest: phases_known(2) intro!: phases_upd_rt)

text \<open>What \<open>stop\<close> releases is no part of the gist.\<close>

definition release_all :: "nat \<Rightarrow> tunnel_manager \<Rightarrow> tunnel_manager" where
  "release_all i m =
     upd_rt i (\<lambda>r. r\<lparr>rt_sharedConnection := None\<rparr>)
       (dispose_conns (rt_sshConnections (rt m i)) (destroy_sockets (rt_sockets (rt m i)) m))"

lemma stop_releases_alt:
  "stop_releases i m =
     (if rt_listenerServer (rt m i) = NoListener then finish_stop i (release_all i m)
      else upd_rt i (\<lambda>r. r\<lparr>rt_listenerServer := ListenerShut, rt_stop := StopClosing\<rparr>) (release_all i m))"
  by (simp add: stop_releases_def release_all_def Let_def)

lemma gist_release [simp]: "gist (release_all i m) = gist m"
  by (simp add: release_all_def gist_upd_rt)

text \<open>A tunnel that is being stopped: out of the map and not yet done.\<close>

definition stoppable :: "nat \<Rightarrow> tunnel_manager \<Rightarrow> bool" where
  "stoppable i m \<longleftrightarrow> i < length (runtimes m) \<and> i \<notin> set (activeIds m) \<and> rt_start (rt m i) \<noteq> StartBinding \<and> rt_stop (rt m i) \<noteq> StopDone"

lemma stoppable_gist: "gist m' = gist m \<Longrightarrow> stoppable i m' = stoppable i m"
  using gist_rt [of m' m i] gist_eqD [of m' m] by (auto simp: stoppable_def)

lemma stoppable_stopping:
  assumes "phases_ok m" "i < length (runtimes m)" "rt_stop (rt m i) \<in> {StopCancelling, StopClosing}"
  shows "stoppable i m"
  using assms phases_known(2) [OF assms(1,2)] by (auto simp: stoppable_def phase_ok_def)

lemma stoppable_stop:
  assumes "phases_ok m" "i \<in> set (activeIds m)"
  shows "stoppable i (upd_rt i (\<lambda>r. r\<lparr>isStopping := True, rt_subscribed := False\<rparr>) (forget_tunnel i m))"
  using assms phases_known [OF assms(1), of i] by (auto simp: stoppable_def phase_ok_def)

lemma phases_finish: "phases_ok m \<Longrightarrow> stoppable i m \<Longrightarrow> phases_ok (finish_stop i m)"
  by (auto simp: finish_stop_def stoppable_def phase_ok_def intro!: phases_upd_rt)

lemma phases_releases: "phases_ok m \<Longrightarrow> stoppable i m \<Longrightarrow> phases_ok (stop_releases i m)"
proof -
  assume a: "phases_ok m" and s: "stoppable i m"
  have r: "phases_ok (release_all i m)" "stoppable i (release_all i m)"
    using phases_gist [OF gist_release a] stoppable_gist [OF gist_release] s by auto
  show ?thesis
    using r by (auto simp: stop_releases_alt stoppable_def phase_ok_def intro!: phases_finish phases_upd_rt)
qed

lemma phases_stop: "phases_ok m \<Longrightarrow> phases_ok (tunnel_stop i m)"
proof (cases "i \<in> set (activeIds m)")
  case True
  assume a: "phases_ok m"
  let ?m = "upd_rt i (\<lambda>r. r\<lparr>isStopping := True, rt_subscribed := False\<rparr>) (forget_tunnel i m)"
  have "phases_ok ?m" "stoppable i ?m"
    using a True phases_known [OF a, of i] stoppable_stop [OF a True]
    by (auto simp: phase_ok_def intro!: phases_upd_rt phases_forget)
  then show ?thesis using True
    by (auto simp: tunnel_stop_def Let_def stoppable_def phase_ok_def intro!: phases_releases phases_upd_rt)
qed (simp add: tunnel_stop_def)

lemma phases_stopping: "phases_ok m \<Longrightarrow> phases_ok (cancel_settles i m)" "phases_ok m \<Longrightarrow> phases_ok (stop_closed i m)"
  using stoppable_stopping [of m i]
  by (auto simp: cancel_settles_def stop_closed_def intro!: phases_releases phases_finish)

lemma phases_act: "a \<noteq> AStopAll \<Longrightarrow> phases_ok m \<Longrightarrow> phases_ok (tunnel_act a m)"
  by (cases a) (auto simp: phases_start phases_listen phases_starting phases_count phases_stop phases_stopping
      intro: phases_gist [rotated] gist_serving)

interpretation phases: tunnel_invariant phases_ok
  by unfold_locales (simp_all add: phases_act, simp add: phases_ok_def new_tunnel_manager_def)

section \<open>Events and traffic\<close>

text \<open>The totals a listener was last told.\<close>

fun tell_totals :: "nat \<Rightarrow> tunnel_event \<Rightarrow> nat \<times> nat \<Rightarrow> nat \<times> nat" where
  "tell_totals i (TunnelTraffic j a b) t = (if j = i then (a, b) else t)"
| "tell_totals i _ t = t"

definition last_totals :: "nat \<Rightarrow> tunnel_event list \<Rightarrow> nat \<times> nat" where
  "last_totals i es = fold (tell_totals i) es (0, 0)"

definition totals :: "nat \<Rightarrow> tunnel_manager \<Rightarrow> nat \<times> nat" where
  "totals i m = (if i < length (runtimes m) then (rt_bytesIn (rt m i), rt_bytesOut (rt m i)) else (0, 0))"

definition told :: "tunnel_manager \<Rightarrow> bool" where
  "told m \<longleftrightarrow> (\<forall>i. i \<notin> set (trafficTimers m) \<longrightarrow> last_totals i (milestones m) = totals i m)"

text \<open>How often a tunnel was announced.\<close>

definition is_started :: "nat \<Rightarrow> tunnel_manager \<Rightarrow> bool" where
  "is_started i m \<longleftrightarrow> i < length (runtimes m) \<and> rt_start (rt m i) = StartOk"

definition is_stopped :: "nat \<Rightarrow> tunnel_manager \<Rightarrow> bool" where
  "is_stopped i m \<longleftrightarrow> i < length (runtimes m) \<and> rt_stop (rt m i) = StopDone"

definition reported_once :: "tunnel_manager \<Rightarrow> bool" where
  "reported_once m \<longleftrightarrow>
     (\<forall>i. count_list (milestones m) (TunnelStarted i) = of_bool (is_started i m)
        \<and> count_list (milestones m) (TunnelStopped i) = of_bool (is_stopped i m))"

lemma totals_gist: "gist m' = gist m \<Longrightarrow> totals i m' = totals i m"
  using gist_rt [of m' m i] gist_eqD [of m' m] by (simp add: totals_def)

lemma told_gist: "gist m' = gist m \<Longrightarrow> told m \<Longrightarrow> told m'"
  using totals_gist [of m' m] gist_eqD [of m' m] by (simp add: told_def)

lemma announced_gist: "gist m' = gist m \<Longrightarrow> reported_once m \<Longrightarrow> reported_once m'"
proof -
  assume g: "gist m' = gist m"
  have "is_started i m' = is_started i m" "is_stopped i m' = is_stopped i m" for i
    using gist_rt [OF g, of i] gist_eqD(1) [OF g] by (auto simp: is_started_def is_stopped_def)
  then show "reported_once m \<Longrightarrow> reported_once m'" using gist_eqD(5) [OF g] by (simp add: reported_once_def)
qed

lemma milestones_parts [simp]:
  "milestones (upd_rt i f m) = milestones m" "milestones (remember_tunnel i m) = milestones m"
  "milestones (forget_tunnel i m) = milestones m" "milestones (scheduleTrafficEmit i m) = milestones m"
  "milestones (tm_emit e m) = milestones m @ (if is_error e then [] else [e])"
  "milestones (m\<lparr>runtimes := rs\<rparr>) = milestones m"
  by (simp_all add: milestones_def)

lemma milestones_traffic:
  "milestones (emit_traffic i m) =
     milestones m @ (if i \<in> set (trafficTimers m) then [TunnelTraffic i (rt_bytesIn (rt m i)) (rt_bytesOut (rt m i))] else [])"
  by (simp add: emit_traffic_def milestones_def)

lemma started_parts [simp]:
  "is_started j (tm_emit e m) = is_started j m" "is_stopped j (tm_emit e m) = is_stopped j m"
  "is_started j (remember_tunnel i m) = is_started j m" "is_stopped j (remember_tunnel i m) = is_stopped j m"
  "is_started j (forget_tunnel i m) = is_started j m" "is_stopped j (forget_tunnel i m) = is_stopped j m"
  "is_started j (scheduleTrafficEmit i m) = is_started j m" "is_stopped j (scheduleTrafficEmit i m) = is_stopped j m"
  "is_started j (emit_traffic i m) = is_started j m" "is_stopped j (emit_traffic i m) = is_stopped j m"
  by (simp_all add: is_started_def is_stopped_def)

lemma started_upd_rt:
  "is_started j (upd_rt i f m) = (if i = j \<and> i < length (runtimes m) then rt_start (f (rt m i)) = StartOk else is_started j m)"
  "is_stopped j (upd_rt i f m) = (if i = j \<and> i < length (runtimes m) then rt_stop (f (rt m i)) = StopDone else is_stopped j m)"
  by (auto simp: is_started_def is_stopped_def nth_update_if)

lemma announced_simple [simp]:
  "reported_once (remember_tunnel i m) = reported_once m" "reported_once (forget_tunnel i m) = reported_once m"
  "reported_once (scheduleTrafficEmit i m) = reported_once m" "reported_once (emit_traffic i m) = reported_once m"
  "reported_once (tm_emit (TunnelError i t) m) = reported_once m"
  by (simp_all add: reported_once_def milestones_traffic)

lemma announced_upd_rt:
  assumes "reported_once m"
    and "i < length (runtimes m) \<Longrightarrow> (rt_start (f (rt m i)) = StartOk) = (rt_start (rt m i) = StartOk)"
    and "i < length (runtimes m) \<Longrightarrow> (rt_stop (f (rt m i)) = StopDone) = (rt_stop (rt m i) = StopDone)"
  shows "reported_once (upd_rt i f m)"
proof -
  have "is_started j (upd_rt i f m) = is_started j m" "is_stopped j (upd_rt i f m) = is_stopped j m" for j
    using assms(2,3) by (auto simp: is_started_def is_stopped_def nth_update_if)
  then show ?thesis using assms(1) by (simp add: reported_once_def)
qed

lemma announced_started: "reported_once m \<Longrightarrow> i < length (runtimes m) \<Longrightarrow> rt_start (rt m i) \<noteq> StartOk \<Longrightarrow> reported_once (start_succeeds i m)"
  by (auto simp: reported_once_def start_succeeds_def started_upd_rt is_started_def is_stopped_def)

lemma announced_finish: "reported_once m \<Longrightarrow> stoppable i m \<Longrightarrow> reported_once (finish_stop i m)"
  by (auto simp: reported_once_def finish_stop_def started_upd_rt is_started_def is_stopped_def milestones_traffic stoppable_def)

lemma announced_extend:
  assumes "reported_once m" "rt_start r \<noteq> StartOk" "rt_stop r \<noteq> StopDone"
  shows "reported_once (m\<lparr>runtimes := runtimes m @ [r]\<rparr>)"
  using assms by (auto simp: reported_once_def is_started_def is_stopped_def nth_append)

lemma announced_start: "reported_once m \<Longrightarrow> reported_once (snd (tunnel_start p srv mode now m))"
  by (auto simp: tunnel_start_def start_new_def startReverse_def Let_def new_runtime_def
      intro!: announced_upd_rt announced_extend split: option.split)

lemma announced_starting:
  assumes a: "reported_once m"
  shows "reported_once (listen_succeeds i m)" "reported_once (listener_fails i m)" "reported_once (start_connected i m)"
    "reported_once (start_connect_fails i m)" "reported_once (forward_granted i port m)" "reported_once (forward_refused i m)"
    "reported_once (start_closed i m)"
  using a announced_gist [OF gist_getShared a, of i] gist_eqD [OF gist_getShared, of i m] gist_rt [OF gist_getShared, of i m i]
  by (auto simp: listen_succeeds_def listener_fails_def start_connected_def start_connect_fails_def forward_granted_def
      forward_refused_def start_closed_def in_start_def Let_def intro!: announced_upd_rt announced_started)

lemma announced_releases: "reported_once m \<Longrightarrow> stoppable i m \<Longrightarrow> reported_once (stop_releases i m)"
proof -
  assume a: "reported_once m" and s: "stoppable i m"
  have r: "reported_once (release_all i m)" "stoppable i (release_all i m)"
    using announced_gist [OF gist_release a] stoppable_gist [OF gist_release] s by auto
  show ?thesis using r by (auto simp: stop_releases_alt stoppable_def intro!: announced_finish announced_upd_rt)
qed

lemma announced_stop: "reported_once m \<Longrightarrow> phases_ok m \<Longrightarrow> reported_once (tunnel_stop i m)"
proof (cases "i \<in> set (activeIds m)")
  case True
  assume a: "reported_once m" and p: "phases_ok m"
  let ?m = "upd_rt i (\<lambda>r. r\<lparr>isStopping := True, rt_subscribed := False\<rparr>) (forget_tunnel i m)"
  have "reported_once ?m" "stoppable i ?m" using a stoppable_stop [OF p True] by (auto intro!: announced_upd_rt)
  then show ?thesis using True
    by (auto simp: tunnel_stop_def Let_def stoppable_def intro!: announced_releases announced_upd_rt)
qed (simp add: tunnel_stop_def)

lemma announced_stopping:
  assumes "reported_once m" "phases_ok m"
  shows "reported_once (cancel_settles i m)" "reported_once (stop_closed i m)"
  using assms stoppable_stopping [OF assms(2), of i]
  by (auto simp: cancel_settles_def stop_closed_def intro!: announced_releases announced_finish)

lemma announced_count: "reported_once m \<Longrightarrow> reported_once (count_in s n m)" "reported_once m \<Longrightarrow> reported_once (count_out s n m)"
  by (auto simp: count_in_def count_out_def intro!: announced_upd_rt)

lemma announced_act: "a \<noteq> AStopAll \<Longrightarrow> reported_once m \<Longrightarrow> phases_ok m \<Longrightarrow> reported_once (tunnel_act a m)"
  by (cases a) (auto simp: announced_start announced_starting announced_count announced_stop announced_stopping
      intro: announced_gist [rotated] gist_serving)

interpretation announcing: tunnel_invariant "\<lambda>m. phases_ok m \<and> reported_once m"
  by unfold_locales
    (auto simp: announced_act phases_act phases.inv_new, simp add: reported_once_def milestones_def is_started_def is_stopped_def new_tunnel_manager_def)

text \<open>Totals are told at the latest when the timer fires.\<close>

lemma last_totals_append: "last_totals i (es @ fs) = fold (tell_totals i) fs (last_totals i es)"
  by (simp add: last_totals_def)

lemma totals_parts [simp]:
  "totals j (tm_emit e m) = totals j m" "totals j (remember_tunnel i m) = totals j m" "totals j (forget_tunnel i m) = totals j m"
  "totals j (scheduleTrafficEmit i m) = totals j m" "totals j (emit_traffic i m) = totals j m"
  by (simp_all add: totals_def)

lemma totals_upd_rt:
  "(\<And>r. rt_bytesIn (f r) = rt_bytesIn r) \<Longrightarrow> (\<And>r. rt_bytesOut (f r) = rt_bytesOut r) \<Longrightarrow> totals j (upd_rt i f m) = totals j m"
  by (simp add: totals_def nth_update_if)

lemma told_upd_rt:
  "(\<And>r. rt_bytesIn (f r) = rt_bytesIn r) \<Longrightarrow> (\<And>r. rt_bytesOut (f r) = rt_bytesOut r) \<Longrightarrow> told (upd_rt i f m) = told m"
  by (simp add: told_def totals_upd_rt)

lemma told_simple [simp]:
  "told (remember_tunnel i m) = told m" "told (forget_tunnel i m) = told m"
  "told (tm_emit (TunnelStarted i) m) = told m" "told (tm_emit (TunnelStopped i) m) = told m" "told (tm_emit (TunnelError i t) m) = told m"
  by (simp_all add: told_def last_totals_append)

definition timers_ok :: "tunnel_manager \<Rightarrow> bool" where
  "timers_ok m \<longleftrightarrow> (\<forall>i\<in>set (trafficTimers m). i < length (runtimes m))"

lemma told_traffic: "told m \<Longrightarrow> timers_ok m \<Longrightarrow> told (emit_traffic i m)"
  by (auto simp: told_def milestones_traffic last_totals_append totals_def timers_ok_def)

lemma told_extend:
  assumes "told m" "rt_bytesIn r = 0" "rt_bytesOut r = 0" shows "told (m\<lparr>runtimes := runtimes m @ [r]\<rparr>)"
proof -
  have "totals i (m\<lparr>runtimes := runtimes m @ [r]\<rparr>) = totals i m" for i
    using assms(2,3) by (auto simp: totals_def nth_append)
  then show ?thesis using assms(1) by (simp add: told_def)
qed

lemma timers_gist: "gist m' = gist m \<Longrightarrow> timers_ok m \<Longrightarrow> timers_ok m'"
  using gist_eqD [of m' m] by (simp add: timers_ok_def)

lemma timers_upd [simp]:
  "timers_ok (upd_rt i f m) = timers_ok m" "timers_ok (tm_emit e m) = timers_ok m" "timers_ok (remember_tunnel i m) = timers_ok m"
  "timers_ok (forget_tunnel i m) = timers_ok m" "timers_ok m \<Longrightarrow> timers_ok (emit_traffic i m)"
  by (auto simp: timers_ok_def)

lemma told_started [simp]: "told (start_succeeds i m) = told m" "timers_ok (start_succeeds i m) = timers_ok m"
  by (simp_all add: start_succeeds_def told_upd_rt)

lemma told_finish: "told m \<Longrightarrow> timers_ok m \<Longrightarrow> told (finish_stop i m)" "timers_ok m \<Longrightarrow> timers_ok (finish_stop i m)"
  by (simp_all add: finish_stop_def told_upd_rt told_traffic)

lemma told_start: "told m \<and> timers_ok m \<Longrightarrow> told (snd (tunnel_start p srv mode now m)) \<and> timers_ok (snd (tunnel_start p srv mode now m))"
  by (auto simp: tunnel_start_def start_new_def startReverse_def Let_def new_runtime_def told_upd_rt told_extend timers_ok_def
      split: option.split)

lemma told_starting:
  assumes "told m \<and> timers_ok m"
  shows "told (listen_succeeds i m) \<and> timers_ok (listen_succeeds i m)" "told (listener_fails i m) \<and> timers_ok (listener_fails i m)"
    "told (start_connected i m) \<and> timers_ok (start_connected i m)" "told (start_connect_fails i m) \<and> timers_ok (start_connect_fails i m)"
    "told (forward_granted i port m) \<and> timers_ok (forward_granted i port m)"
    "told (forward_refused i m) \<and> timers_ok (forward_refused i m)" "told (start_closed i m) \<and> timers_ok (start_closed i m)"
  using assms told_gist [OF gist_getShared, of m i] timers_gist [OF gist_getShared, of m i]
  by (auto simp: listen_succeeds_def listener_fails_def start_connected_def start_connect_fails_def forward_granted_def
      forward_refused_def start_closed_def Let_def told_upd_rt)

lemma told_releases:
  assumes "told m \<and> timers_ok m" shows "told (stop_releases i m) \<and> timers_ok (stop_releases i m)"
  using assms told_gist [OF gist_release, of m i] timers_gist [OF gist_release, of m i]
  by (simp add: stop_releases_alt told_finish told_upd_rt)

lemma told_stopping:
  assumes "told m \<and> timers_ok m"
  shows "told (tunnel_stop i m) \<and> timers_ok (tunnel_stop i m)" "told (cancel_settles i m) \<and> timers_ok (cancel_settles i m)"
    "told (stop_closed i m) \<and> timers_ok (stop_closed i m)"
  using assms told_releases [OF assms] told_releases [of "upd_rt i (\<lambda>r. r\<lparr>isStopping := True, rt_subscribed := False\<rparr>) (forget_tunnel i m)" i]
  by (auto simp: tunnel_stop_def cancel_settles_def stop_closed_def Let_def told_upd_rt told_finish)

lemma told_counted:
  assumes "told m \<and> timers_ok m" "i < length (runtimes m)"
    and "\<And>j. j \<noteq> i \<Longrightarrow> totals j (upd_rt i f m) = totals j m"
  shows "told (scheduleTrafficEmit i (upd_rt i f m)) \<and> timers_ok (scheduleTrafficEmit i (upd_rt i f m))"
  using assms by (auto simp: told_def timers_ok_def)

lemma told_count:
  assumes "told m \<and> timers_ok m" "tracked m"
  shows "told (count_in s n m) \<and> timers_ok (count_in s n m)" "told (count_out s n m) \<and> timers_ok (count_out s n m)"
proof -
  have "px_tunnel (px m s) < length (runtimes m)" if "data_listened s m"
    using that assms(2) by (auto simp: data_listened_def tracked_defs)
  then show "told (count_in s n m) \<and> timers_ok (count_in s n m)" "told (count_out s n m) \<and> timers_ok (count_out s n m)"
    using assms(1) told_counted [OF assms(1)] by (simp_all add: count_in_def count_out_def totals_def)
qed

lemma told_served: "gist m' = gist m \<Longrightarrow> told m \<and> timers_ok m \<Longrightarrow> told m' \<and> timers_ok m'"
  by (blast intro: told_gist timers_gist)

lemma told_act: "a \<noteq> AStopAll \<Longrightarrow> told m \<and> timers_ok m \<Longrightarrow> tracked m \<Longrightarrow> told (tunnel_act a m) \<and> timers_ok (tunnel_act a m)"
  by (cases a) (simp_all add: told_start told_starting told_stopping told_count told_traffic told_served [OF gist_accept]
      told_served [OF gist_handshake] told_served [OF gist_proxy(1)] told_served [OF gist_proxy(2)] told_served [OF gist_proxy(3)]
      told_served [OF gist_proxy(4)] told_served [OF gist_proxy(5)] told_served [OF gist_closes(1)] told_served [OF gist_closes(2)]
      told_served [OF gist_conn_closes] told_served [OF gist_parts(7)])

interpretation telling: tunnel_invariant "\<lambda>m. (told m \<and> timers_ok m) \<and> tracked m"
  by unfold_locales
    (auto simp: told_act tracked_act tracking.inv_new, simp_all add: told_def timers_ok_def milestones_def last_totals_def totals_def new_tunnel_manager_def)

end
