(* ===== verification/Tunnel_Release.thy ===== *)
theory Tunnel_Release
  imports Tunnel_Runs
begin

text \<open>
  What a tunnel leaves open when it has been stopped: nothing, if nothing was waiting for a connection on its
  behalf. What it leaves otherwise is the subject of \<open>Tunnel_Leaks\<close>.
\<close>

section \<open>What a stopped tunnel leaves\<close>

definition open_of :: "nat \<Rightarrow> tunnel_manager \<Rightarrow> nat set" where
  "open_of i m = {c. c < length (tunnel_conns m) \<and> conn_tunnel (tunnel_conns m ! c) = i \<and> conn_open (tunnel_conns m ! c)}"

fun is_waiting :: "proxy_phase \<Rightarrow> bool" where
  "is_waiting Handshaking = True"
| "is_waiting AwaitingShared = True"
| "is_waiting AwaitingIsolated = True"
| "is_waiting _ = False"

definition waiting_of :: "nat \<Rightarrow> tunnel_manager \<Rightarrow> nat set" where
  "waiting_of i m = {s. s < length (proxies m) \<and> px_tunnel (px m s) = i \<and> is_waiting (px_phase (px m s))}"

lemma open_parts [simp]:
  "open_of i (upd_rt j f m) = open_of i m" "open_of i (upd_px s g m) = open_of i m" "open_of i (tm_emit e m) = open_of i m"
  "open_of i (remember_tunnel j m) = open_of i m" "open_of i (forget_tunnel j m) = open_of i m"
  "open_of i (add_proxy p m) = open_of i m" "open_of i (destroy_sockets ss m) = open_of i m"
  "open_of i (scheduleTrafficEmit j m) = open_of i m" "open_of i (emit_traffic j m) = open_of i m"
  "open_of i (m\<lparr>runtimes := rs\<rparr>) = open_of i m" "open_of i (updateSocks5HandshakeTimeout v m) = open_of i m"
  "open_of i (dispose_conns cs m) = open_of i m - set cs"
  "open_of i (start_succeeds j m) = open_of i m"
  by (auto simp: open_of_def updateSocks5HandshakeTimeout_def start_succeeds_def dispose_nth split: if_splits)

lemma open_resolved: "j \<noteq> i \<Longrightarrow> open_of i (resolved_conn j sh m) = open_of i m"
  by (auto simp: open_of_def nth_append less_Suc_eq split: if_splits)

lemma open_getShared: "j \<noteq> i \<Longrightarrow> open_of i (getOrCreateSharedConnection j m) = open_of i m"
  by (simp add: getOrCreateSharedConnection_def Let_def open_resolved)

lemma open_failing: "open_of i (release_failed j c m) \<subseteq> open_of i m" "open_of i (proxy_fails s oc m) \<subseteq> open_of i m"
proof -
  show r: "open_of i (release_failed j c m) \<subseteq> open_of i m" for j c m by (auto simp: release_failed_def)
  show "open_of i (proxy_fails s oc m) \<subseteq> open_of i m"
    using r by (auto simp: proxy_fails_def Let_def split: option.split) (metis open_parts(1) subsetD)+
qed

lemma open_cleanup: "open_of i (cleanup s m) \<subseteq> open_of i m"
  by (auto simp: cleanup_def Let_def split: proxy_phase.split option.split)

lemma open_conn_closes: "open_of i (conn_closes c m) \<subseteq> open_of i m"
  by (auto simp: conn_closes_def shared_closed_def Let_def open_of_def nth_update_if split: if_splits)

lemma open_releases: "open_of i (stop_releases j m) \<subseteq> open_of i m"
  by (auto simp: stop_releases_def finish_stop_def Let_def)

lemma open_stop: "open_of i (tunnel_stop j m) \<subseteq> open_of i m"
  using open_releases [of i j "upd_rt j (\<lambda>r. r\<lparr>isStopping := True, rt_subscribed := False\<rparr>) (forget_tunnel j m)"]
  by (auto simp: tunnel_stop_def Let_def)

lemma open_get_connection [simp]: "open_of i (get_connection s m) = open_of i m"
  by (simp add: get_connection_def Let_def)

text \<open>Only a \<open>start\<close> or a handler that waits opens a connection.\<close>

lemma open_act:
  assumes "a \<noteq> AStopAll" "waiting_of i m = {}" "\<not> in_start i StartConnecting m"
  shows "open_of i (tunnel_act a m) \<subseteq> open_of i m"
proof (cases a)
  case (AConnected s)
  then have "px_tunnel (px m s) \<noteq> i \<or> \<not> in_proxy s AwaitingShared m \<and> \<not> in_proxy s AwaitingIsolated m"
    using assms(2) by (auto simp: waiting_of_def in_proxy_def)
  then show ?thesis using AConnected by (auto simp: proxy_connected_def Let_def open_getShared open_resolved)
next
  case (AStartConnected j)
  then show ?thesis using assms(3) by (cases "j = i") (auto simp: start_connected_def Let_def open_getShared)
qed (use assms in \<open>auto simp: tunnel_start_def start_new_def startReverse_def listen_succeeds_def listener_fails_def
    start_connect_fails_def forward_granted_def forward_refused_def start_closed_def accept_socket_def proxy_connect_fails_def
    channel_opened_def reverse_connection_def handleReverseConnection_def count_in_def count_out_def finish_stop_def
    handshake_settles_def channel_refused_def socket_closes_def remote_closes_def cancel_settles_def stop_closed_def Let_def
    split: option.splits prod.splits sum.splits proxy_phase.splits if_splits
    dest: subsetD [OF open_failing(2)] subsetD [OF open_cleanup] subsetD [OF open_conn_closes] subsetD [OF open_stop] subsetD [OF open_releases]\<close>)

lemma waiting_parts [simp]:
  "waiting_of i (upd_rt j f m) = waiting_of i m" "waiting_of i (tm_emit e m) = waiting_of i m"
  "waiting_of i (remember_tunnel j m) = waiting_of i m" "waiting_of i (forget_tunnel j m) = waiting_of i m"
  "waiting_of i (dispose_conns cs m) = waiting_of i m" "waiting_of i (destroy_sockets ss m) = waiting_of i m"
  "waiting_of i (scheduleTrafficEmit j m) = waiting_of i m" "waiting_of i (emit_traffic j m) = waiting_of i m"
  "waiting_of i (m\<lparr>runtimes := rs\<rparr>) = waiting_of i m" "waiting_of i (updateSocks5HandshakeTimeout v m) = waiting_of i m"
  "waiting_of i (resolved_conn j sh m) = waiting_of i m" "waiting_of i (start_succeeds j m) = waiting_of i m"
  "waiting_of i (m\<lparr>tunnel_conns := ks\<rparr>) = waiting_of i m"
  by (auto simp: waiting_of_def updateSocks5HandshakeTimeout_def start_succeeds_def destroy_nth split: if_splits)

lemma waiting_getShared [simp]: "waiting_of i (getOrCreateSharedConnection j m) = waiting_of i m"
  by (simp add: getOrCreateSharedConnection_def Let_def)

lemma waiting_upd_px:
  assumes "\<And>p. px_tunnel (f p) = px_tunnel p" "px_tunnel (px m s) = i \<Longrightarrow> is_waiting (px_phase (f (px m s))) \<Longrightarrow> is_waiting (px_phase (px m s))"
  shows "waiting_of i (upd_px s f m) \<subseteq> waiting_of i m"
  using assms by (auto simp: waiting_of_def nth_update_if split: if_splits)

lemma waiting_add: "px_tunnel p \<noteq> i \<or> \<not> is_waiting (px_phase p) \<Longrightarrow> waiting_of i (add_proxy p m) = waiting_of i m"
  by (auto simp: waiting_of_def nth_append less_Suc_eq split: if_splits)

lemma waiting_get_connection: "px_tunnel (px m s) \<noteq> i \<Longrightarrow> waiting_of i (get_connection s m) \<subseteq> waiting_of i m"
  unfolding get_connection_def Let_def by (rule waiting_upd_px) simp_all

lemma waiting_fails: "waiting_of i (release_failed j c m) = waiting_of i m" "waiting_of i (proxy_fails s oc m) \<subseteq> waiting_of i m"
proof -
  show r: "waiting_of i (release_failed j c m) = waiting_of i m" for j c m by (simp add: release_failed_def)
  have u: "waiting_of i (upd_px s (\<lambda>p. p\<lparr>px_phase := Served, px_open := False, px_socks := map_option sendSocks5Failure (px_socks p)\<rparr>) m)
      \<subseteq> waiting_of i m" for m
    by (rule waiting_upd_px) simp_all
  show "waiting_of i (proxy_fails s oc m) \<subseteq> waiting_of i m"
    unfolding proxy_fails_def Let_def by (rule order_trans [OF u]) (simp add: r split: option.split)
qed

lemma waiting_cleanup: "waiting_of i (cleanup s m) \<subseteq> waiting_of i m"
proof -
  have "waiting_of i (upd_px s (\<lambda>p. p\<lparr>px_phase := Served\<rparr>) m) \<subseteq> waiting_of i m" for m by (rule waiting_upd_px) simp_all
  from this [of "upd_rt (px_tunnel (px m s)) (untrack_socket s) m"] show ?thesis
    by (auto simp: cleanup_def Let_def split: proxy_phase.split option.split)
qed

lemma waiting_conn_closes [simp]: "waiting_of i (conn_closes c m) = waiting_of i m"
  by (simp add: conn_closes_def shared_closed_def Let_def)

lemma waiting_stop [simp]: "waiting_of i (stop_releases j m) = waiting_of i m" "waiting_of i (tunnel_stop j m) = waiting_of i m"
  by (simp_all add: tunnel_stop_def stop_releases_def finish_stop_def Let_def)

lemma waiting_accept: "i \<notin> set (activeIds m) \<Longrightarrow> waiting_of i (accept_socket j m) \<subseteq> waiting_of i m"
proof (cases "j = i")
  case False
  let ?m = "\<lambda>d. add_proxy ((new_proxy j)\<lparr>px_dest := d\<rparr>) (upd_rt j (\<lambda>r. r\<lparr>rt_sockets := rt_sockets r @ [length (proxies m)]\<rparr>) m)"
  have "waiting_of i (get_connection (length (proxies m)) (?m d)) \<subseteq> waiting_of i m" for d
    using False waiting_get_connection [of "?m d" "length (proxies m)" i]
    by (simp add: new_proxy_def waiting_add)
  then show ?thesis using False by (simp add: accept_socket_def Let_def waiting_add new_proxy_def)
qed (auto simp: accept_socket_def Let_def waiting_add new_proxy_def)

lemma waiting_handshake:
  assumes "waiting_of i m = {}" shows "waiting_of i (handshake_settles s k m) = {}"
proof (cases "in_proxy s Handshaking m")
  case True
  then have o: "px_tunnel (px m s) \<noteq> i" and s: "s < length (proxies m)"
    using assms by (auto simp: waiting_of_def in_proxy_def)
  have d: "waiting_of i (upd_px s f m) = {}" if "\<And>p. px_tunnel (f p) = px_tunnel p" for f
    using waiting_upd_px [OF that, of m s i] o assms by simp
  obtain k1 r where k: "handleSocks5Handshake k = (k1, r)" by fastforce
  show ?thesis
  proof (cases r)
    case (Inl e)
    have "waiting_of i (upd_px s (\<lambda>p. p\<lparr>px_phase := Served, px_open := False\<rparr>)
        (upd_rt j (untrack_socket s) (upd_px s (\<lambda>p. p\<lparr>px_socks := Some k1\<rparr>) m))) \<subseteq> {}" for j
      by (rule order_trans [OF waiting_upd_px]) (simp_all add: d)
    then show ?thesis
      using True k Inl waiting_fails(2) [of i s None "upd_px s (\<lambda>p. p\<lparr>px_socks := Some k1\<rparr>) m"]
      by (simp add: handshake_settles_def Let_def d)
  next
    case (Inr t)
    then show ?thesis
      using True k s o waiting_get_connection [of "upd_px s (\<lambda>p. p\<lparr>px_socks := Some k1, px_dest := Some (destAddr t, unat (destPort t))\<rparr>) m" s i]
      by (simp add: handshake_settles_def d)
  qed
qed (simp add: handshake_settles_def assms)

lemma waiting_same:
  "waiting_of i (snd (tunnel_start p srv mode now m)) = waiting_of i m" "waiting_of i (listen_succeeds j m) = waiting_of i m"
  "waiting_of i (listener_fails j m) = waiting_of i m" "waiting_of i (start_connected j m) = waiting_of i m"
  "waiting_of i (start_connect_fails j m) = waiting_of i m" "waiting_of i (forward_granted j port m) = waiting_of i m"
  "waiting_of i (forward_refused j m) = waiting_of i m" "waiting_of i (start_closed j m) = waiting_of i m"
  "waiting_of i (count_in s n m) = waiting_of i m" "waiting_of i (count_out s n m) = waiting_of i m"
  "waiting_of i (cancel_settles j m) = waiting_of i m" "waiting_of i (stop_closed j m) = waiting_of i m"
  "waiting_of i (reverse_connection j dest taken m) = waiting_of i m"
  by (simp_all add: tunnel_start_def start_new_def startReverse_def listen_succeeds_def listener_fails_def start_connected_def
      start_connect_fails_def forward_granted_def forward_refused_def start_closed_def count_in_def count_out_def
      cancel_settles_def stop_closed_def finish_stop_def reverse_connection_def handleReverseConnection_def new_proxy_def
      waiting_add Let_def split: option.split)

lemma waiting_served:
  assumes "\<And>p. px_tunnel (f p) = px_tunnel p" "\<And>p. is_waiting (px_phase (f p)) \<Longrightarrow> is_waiting (px_phase p)"
  shows "waiting_of i (upd_px s f m) \<subseteq> waiting_of i m"
  using assms by (rule waiting_upd_px)

lemma waiting_less:
  "waiting_of i (proxy_connected s m) \<subseteq> waiting_of i m" "waiting_of i (proxy_connect_fails s m) \<subseteq> waiting_of i m"
  "waiting_of i (channel_opened s m) \<subseteq> waiting_of i m" "waiting_of i (channel_refused s m) \<subseteq> waiting_of i m"
  "waiting_of i (remote_closes s m) \<subseteq> waiting_of i m" "waiting_of i (socket_closes s m) \<subseteq> waiting_of i m"
proof -
  have o: "waiting_of i (upd_px s (\<lambda>p. p\<lparr>px_phase := OpeningChannel c\<rparr>) m) \<subseteq> waiting_of i m" for c m
    by (rule waiting_served) simp_all
  show "waiting_of i (proxy_connected s m) \<subseteq> waiting_of i m"
    using o [of _ "getOrCreateSharedConnection (px_tunnel (px m s)) m"]
      o [of _ "upd_rt (px_tunnel (px m s)) (track_conn (length (tunnel_conns m))) (resolved_conn (px_tunnel (px m s)) False m)"]
    by (simp add: proxy_connected_def Let_def)
  show "waiting_of i (proxy_connect_fails s m) \<subseteq> waiting_of i m"
    using waiting_fails(2) by (simp add: proxy_connect_fails_def)
  have "waiting_of i (upd_px s (\<lambda>p. p\<lparr>px_phase := Proxying (g p), px_piped := True, px_socks := h p\<rparr>) m) \<subseteq> waiting_of i m" for g h
    by (rule waiting_served) simp_all
  then show "waiting_of i (channel_opened s m) \<subseteq> waiting_of i m"
    by (simp add: channel_opened_def split: proxy_phase.split)
  show "waiting_of i (channel_refused s m) \<subseteq> waiting_of i m"
    using waiting_fails(2) by (simp add: channel_refused_def split: proxy_phase.split)
  show "waiting_of i (remote_closes s m) \<subseteq> waiting_of i m" using waiting_cleanup by (simp add: remote_closes_def)
  have "waiting_of i (upd_px s (\<lambda>p. p\<lparr>px_open := False, px_closed := True\<rparr>) m) \<subseteq> waiting_of i m" by (rule waiting_served) simp_all
  then show "waiting_of i (socket_closes s m) \<subseteq> waiting_of i m"
    using order_trans [OF waiting_cleanup] by (simp add: socket_closes_def)
qed

text \<open>A handler that waits for a tunnel comes from a socket accepted while the tunnel was in the map.\<close>

lemma waiting_act:
  assumes w: "waiting_of i m = {}" and "i \<notin> set (activeIds m)" "a \<noteq> AStopAll"
  shows "waiting_of i (tunnel_act a m) = {}"
  using assms(3) w waiting_handshake [OF w] waiting_accept [OF assms(2)] waiting_less [of i _ m]
  by (cases a) (simp_all add: waiting_same)

text \<open>A tunnel that \<open>stop\<close> has taken out of the map stays out; its phase leaves \<open>StopCancelling\<close> only when the
  cancellation settles.\<close>

definition taken_down :: "nat \<Rightarrow> tunnel_manager \<Rightarrow> bool" where
  "taken_down i m \<longleftrightarrow>
     i < length (runtimes m) \<and> i \<notin> set (activeIds m) \<and> rt_start (rt m i) \<notin> {StartBinding, StartConnecting}
     \<and> rt_stop (rt m i) \<noteq> NotStopped"

definition still_down :: "nat \<Rightarrow> tunnel_manager \<Rightarrow> tunnel_manager \<Rightarrow> bool" where
  "still_down i m m' \<longleftrightarrow> taken_down i m' \<and> (rt_stop (rt m i) = StopCancelling \<longrightarrow> rt_stop (rt m' i) = StopCancelling)"

lemma still_down_gist: "gist m' = gist m \<Longrightarrow> taken_down i m \<Longrightarrow> still_down i m m'"
  using gist_rt [of m' m i] gist_eqD [of m' m] by (simp add: still_down_def taken_down_def)

lemma still_down_start: "taken_down i m \<Longrightarrow> still_down i m (snd (tunnel_start p srv mode now m))"
  by (auto simp: tunnel_start_def start_new_def startReverse_def still_down_def taken_down_def Let_def nth_append nth_update_if
      split: option.split)

lemma still_down_starting:
  assumes d: "taken_down i m"
  shows "still_down i m (listen_succeeds j m)" "still_down i m (listener_fails j m)"
    "still_down i m (start_connect_fails j m)" "still_down i m (forward_granted j port m)" "still_down i m (forward_refused j m)"
    "still_down i m (start_closed j m)" "still_down i m (count_in s n m)" "still_down i m (count_out s n m)"
    "still_down i m (emit_traffic j m)"
  using d by (auto simp: still_down_def taken_down_def listen_succeeds_def listener_fails_def start_connect_fails_def
      forward_granted_def forward_refused_def start_closed_def start_succeeds_def in_start_def count_in_def count_out_def Let_def nth_update_if)

lemma still_down_connected: "taken_down i m \<Longrightarrow> still_down i m (start_connected j m)"
proof -
  assume d: "taken_down i m"
  then have "still_down i m (getOrCreateSharedConnection j m)" by (intro still_down_gist) simp_all
  then show ?thesis
    using d by (auto simp: start_connected_def start_succeeds_def still_down_def taken_down_def in_start_def Let_def nth_update_if)
qed

lemma still_down_releases: "taken_down i m \<Longrightarrow> j \<noteq> i \<Longrightarrow> still_down i m (stop_releases j m)"
proof -
  assume d: "taken_down i m" and j: "j \<noteq> i"
  have "still_down i m (release_all j m)" using d by (intro still_down_gist) simp_all
  then show ?thesis
    using j by (auto simp: stop_releases_alt finish_stop_def still_down_def taken_down_def nth_update_if)
qed

lemma still_down_stop: "taken_down i m \<Longrightarrow> still_down i m (tunnel_stop j m)"
proof -
  assume d: "taken_down i m"
  let ?m = "upd_rt j (\<lambda>r. r\<lparr>isStopping := True, rt_subscribed := False\<rparr>) (forget_tunnel j m)"
  have "j \<in> set (activeIds m) \<Longrightarrow> j \<noteq> i" "still_down i m ?m"
    using d by (auto simp: still_down_def taken_down_def nth_update_if)
  then show ?thesis
    using still_down_releases [of i ?m j] d
    by (auto simp: tunnel_stop_def Let_def still_down_def taken_down_def nth_update_if)
qed

lemma still_down_cancel: "taken_down i m \<Longrightarrow> j \<noteq> i \<Longrightarrow> still_down i m (cancel_settles j m)"
  by (auto simp: cancel_settles_def still_down_releases) (simp_all add: still_down_def)

lemma still_down_closed: "taken_down i m \<Longrightarrow> still_down i m (stop_closed j m)"
  by (auto simp: stop_closed_def finish_stop_def still_down_def taken_down_def nth_update_if)

lemma still_down_act: "taken_down i m \<Longrightarrow> a \<noteq> AStopAll \<Longrightarrow> a \<noteq> ACancelSettles i \<Longrightarrow> still_down i m (tunnel_act a m)"
  by (cases a) (auto simp: still_down_start still_down_starting still_down_connected still_down_stop still_down_cancel
      still_down_closed intro: still_down_gist gist_serving)

text \<open>Everything the runtime knows of is released at once.\<close>

lemma release_shuts: "tracked m \<Longrightarrow> open_of i (stop_releases i m) = {}"
  by (auto simp: stop_releases_def finish_stop_def Let_def) (auto simp: open_of_def tracked_defs)

lemma release_takes_down:
  assumes "i < length (runtimes m)" "i \<notin> set (activeIds m)" "rt_start (rt m i) \<notin> {StartBinding, StartConnecting}"
  shows "taken_down i (stop_releases i m)" "rt_stop (rt (stop_releases i m) i) \<noteq> StopCancelling"
  using assms by (auto simp: stop_releases_def finish_stop_def taken_down_def Let_def)

definition released :: "nat \<Rightarrow> tunnel_manager \<Rightarrow> bool" where
  "released i m \<longleftrightarrow>
     tracked m \<and> taken_down i m \<and> waiting_of i m = {} \<and> (rt_stop (rt m i) = StopCancelling \<or> open_of i m = {})"

lemma released_act: "a \<noteq> AStopAll \<Longrightarrow> released i m \<Longrightarrow> released i (tunnel_act a m)"
proof -
  assume a: "a \<noteq> AStopAll" and r: "released i m"
  then have t: "tracked (tunnel_act a m)" and d: "taken_down i m" and w: "waiting_of i (tunnel_act a m) = {}"
    and o: "open_of i (tunnel_act a m) \<subseteq> open_of i m"
    using waiting_act [of i m a] open_act [OF a, of i m]
    by (auto simp: released_def taken_down_def in_start_def tracked_act)
  show ?thesis
  proof (cases "a = ACancelSettles i \<and> rt_stop (rt m i) = StopCancelling")
    case True
    then have "tunnel_act a m = stop_releases i m" using d by (simp add: cancel_settles_def taken_down_def)
    then show ?thesis
      using t w r release_shuts [of m i] release_takes_down [of i m] by (auto simp: released_def taken_down_def)
  next
    case False
    then have "still_down i m (tunnel_act a m)"
      using still_down_act [OF d a] d by (cases "a = ACancelSettles i") (auto simp: cancel_settles_def still_down_def)
    then show ?thesis using t w o r by (auto simp: released_def still_down_def)
  qed
qed

interpretation release: tunnel_stable "released i" for i
  by unfold_locales (rule released_act)

lemma released_stop:
  assumes "tracked m" "phases_ok m" "i \<in> set (activeIds m)" "waiting_of i m = {}" "rt_start (rt m i) \<noteq> StartConnecting"
  shows "released i (tunnel_stop i m)"
proof -
  let ?m = "upd_rt i (\<lambda>r. r\<lparr>isStopping := True, rt_subscribed := False\<rparr>) (forget_tunnel i m)"
  have k: "i < length (runtimes ?m)" "i \<notin> set (activeIds ?m)" "rt_start (rt ?m i) \<notin> {StartBinding, StartConnecting}"
    using assms phases_known [OF assms(2), of i] by (auto simp: phase_ok_def)
  have t: "tracked ?m" using assms(1) by (intro tracked_upd_rt) simp_all
  show ?thesis
    using assms k t tracked_stop [OF assms(1), of i] release_shuts [OF t, of i] release_takes_down [OF k]
    by (auto simp: released_def tunnel_stop_def Let_def taken_down_def)
qed

section \<open>Properties\<close>

text \<open>
  C18. In every run every open SSH connection is in the set of the runtime that asked for it, and every open
  socket is in the set of its runtime until its handler is through with it. A tunnel that is stopped while neither
  its start nor one of its handlers waits for a connection has no connection open any more once its
  cancellation has settled, whatever happens afterwards.
\<close>

theorem tunnel_connections_released:
  "tracked (tunnel_run v as)
   \<and> (i \<in> set (activeIds (tunnel_run v as)) \<and> waiting_of i (tunnel_run v as) = {}
      \<and> rt_start (rt (tunnel_run v as) i) \<noteq> StartConnecting
      \<and> rt_stop (rt (fold tunnel_act bs (tunnel_stop i (tunnel_run v as))) i) \<noteq> StopCancelling
      \<longrightarrow> open_of i (fold tunnel_act bs (tunnel_stop i (tunnel_run v as))) = {})"
proof -
  have "released i (fold tunnel_act bs (tunnel_stop i m))"
    if "m = tunnel_run v as" "i \<in> set (activeIds m)" "waiting_of i m = {}" "rt_start (rt m i) \<noteq> StartConnecting" for m
    using that by (intro release.inv_acts released_stop) (simp_all add: tracking.inv_run phases.inv_run)
  then show ?thesis by (auto simp: tracking.inv_run released_def)
qed

definition example_tunnel :: "tunnel_type \<Rightarrow> tunnel_profile" where
  "example_tunnel ty =
     \<lparr>tp_id = ''p'', tp_name = ''web'', tp_localPort = 8080, tp_remoteIP = ''10.0.0.1'', tp_remotePort = 80, tp_tunnelType = Some ty,
      tp_remoteBindAddress = None, tp_localTargetIP = None, tp_localBindAddress = None\<rparr>"

lemmas tunnel_example_defs = tunnel_run_def new_tunnel_manager_def tunnel_start_def start_new_def new_runtime_def startReverse_def
  resolveTunnelType_def example_tunnel_def listen_succeeds_def start_succeeds_def start_connected_def forward_refused_def
  in_start_def accept_socket_def new_proxy_def add_proxy_def get_connection_def proxy_connected_def in_proxy_def channel_opened_def
  getOrCreateSharedConnection_def resolved_conn_def track_conn_def upd_rt_def upd_px_def tm_emit_def remember_tunnel_def forget_tunnel_def
  tunnel_stop_def stop_releases_def finish_stop_def stop_closed_def sockets_closed_def socket_closes_def cleanup_def
  dispose_conns_def destroy_sockets_def emit_traffic_def tunnel_stopAll_def open_of_def waiting_of_def

lemma tunnel_example:
  "activeIds (tunnel_run (Finite 5000) [AStart (example_tunnel LocalTunnel) ''srv'' None 0, AListening 0, AAccept 0, AConnected 0, AOpened 0]) = [0]"
  "waiting_of 0 (tunnel_run (Finite 5000) [AStart (example_tunnel LocalTunnel) ''srv'' None 0, AListening 0, AAccept 0, AConnected 0, AOpened 0]) = {}"
  "rt_start (rt (tunnel_run (Finite 5000) [AStart (example_tunnel LocalTunnel) ''srv'' None 0, AListening 0, AAccept 0, AConnected 0, AOpened 0]) 0) = StartOk"
  "open_of 0 (tunnel_run (Finite 5000) [AStart (example_tunnel LocalTunnel) ''srv'' None 0, AListening 0, AAccept 0, AConnected 0, AOpened 0]) = {0}"
  by (auto simp: tunnel_example_defs)

theorem tunnel_connections_released_witness:
  "open_of 0 (tunnel_run (Finite 5000) [AStart (example_tunnel LocalTunnel) ''srv'' None 0, AListening 0, AAccept 0, AConnected 0, AOpened 0]) = {0}
   \<and> open_of 0 (fold tunnel_act [ASocketCloses 0, AStopClosed 0] (tunnel_stop 0
        (tunnel_run (Finite 5000) [AStart (example_tunnel LocalTunnel) ''srv'' None 0, AListening 0, AAccept 0, AConnected 0, AOpened 0]))) = {}"
proof -
  have "rt_stop (rt (fold tunnel_act [ASocketCloses 0, AStopClosed 0] (tunnel_stop 0
        (tunnel_run (Finite 5000) [AStart (example_tunnel LocalTunnel) ''srv'' None 0, AListening 0, AAccept 0, AConnected 0, AOpened 0]))) 0)
      \<noteq> StopCancelling"
    by (simp add: tunnel_example_defs untrack_socket_def untrack_conn_def)
  then show ?thesis
    using tunnel_connections_released [of "Finite 5000"
        "[AStart (example_tunnel LocalTunnel) ''srv'' None 0, AListening 0, AAccept 0, AConnected 0, AOpened 0]" 0 "[ASocketCloses 0, AStopClosed 0]"]
    by (auto simp only: tunnel_example list.set insert_iff start_phase.distinct simp_thms)
qed

end
