(* ===== verification/Tunnel_View.thy ===== *)
theory Tunnel_View
  imports Tunnel_Release Profile_Store
begin

text \<open>
  The tunnels as the rest of the program sees them: the listener of the tunnel manager in
  \<open>src/src/extension.ts\<close>, which keeps the active tunnels of \<open>src/src/core/nexusCore.ts\<close> in step. The object
  that \<open>started\<close> carries is the one whose counters the manager increments, and the core stores it as it is:
  the counters of the core's record are those of the runtime at every moment.
\<close>

section \<open>The listener\<close>

text \<open>\<open>uuid\<close> gives the identifier of a tunnel.\<close>

definition tunnel_listener ::
  "(nat \<Rightarrow> key) \<Rightarrow> tunnel_manager \<Rightarrow> tunnel_event \<Rightarrow> 'v core \<Rightarrow> 'v core" where
  "tunnel_listener uuid m e c =
     (case e of
        TunnelStarted i \<Rightarrow>
          registerTunnel (uuid i)
            \<lparr>tunnel_profileId = tp_id (rt_profile (rt m i)), bytesIn = rt_bytesIn (rt m i), bytesOut = rt_bytesOut (rt m i)\<rparr> c
      | TunnelTraffic i a b \<Rightarrow> updateTunnelTraffic (uuid i) a b c
      | TunnelStopped i \<Rightarrow> unregisterTunnel (uuid i) c
      | TunnelError _ _ \<Rightarrow> c)"

text \<open>The shared objects.\<close>

definition shared_counters :: "(nat \<Rightarrow> key) \<Rightarrow> tunnel_manager \<Rightarrow> key \<times> active_tunnel \<Rightarrow> key \<times> active_tunnel" where
  "shared_counters uuid m kx =
     (case find (\<lambda>i. uuid i = fst kx) [0..<length (runtimes m)] of
        Some i \<Rightarrow> (fst kx, (snd kx)\<lparr>bytesIn := rt_bytesIn (rt m i), bytesOut := rt_bytesOut (rt m i)\<rparr>)
      | None \<Rightarrow> kx)"

definition share_objects :: "(nat \<Rightarrow> key) \<Rightarrow> tunnel_manager \<Rightarrow> 'v core \<Rightarrow> 'v core" where
  "share_objects uuid m c = c\<lparr>activeTunnels := map (shared_counters uuid m) (activeTunnels c)\<rparr>"

text \<open>One action with what its events do to the core: no action both changes a counter and reports one. \<open>stopAll\<close>
  stops one tunnel after the other.\<close>

definition view_step :: "(nat \<Rightarrow> key) \<Rightarrow> tunnel_action \<Rightarrow> tunnel_manager \<times> 'v core \<Rightarrow> tunnel_manager \<times> 'v core" where
  "view_step uuid a mc =
     (let m = tunnel_act a (fst mc)
      in (m, fold (tunnel_listener uuid m) (drop (length (tunnel_events (fst mc))) (tunnel_events m)) (share_objects uuid m (snd mc))))"

definition viewed_act :: "(nat \<Rightarrow> key) \<Rightarrow> tunnel_action \<Rightarrow> tunnel_manager \<times> 'v core \<Rightarrow> tunnel_manager \<times> 'v core" where
  "viewed_act uuid a mc =
     (case a of
        AStopAll \<Rightarrow> fold (\<lambda>i. view_step uuid (AStop i)) (activeIds (fst mc)) mc
      | _ \<Rightarrow> view_step uuid a mc)"

definition viewed_run :: "(nat \<Rightarrow> key) \<Rightarrow> js_number \<Rightarrow> tunnel_action list \<Rightarrow> 'v core \<Rightarrow> tunnel_manager \<times> 'v core" where
  "viewed_run uuid v as c = fold (viewed_act uuid) as (new_tunnel_manager v, c)"

section \<open>The events of one action\<close>

definition grows :: "tunnel_manager \<Rightarrow> tunnel_manager \<Rightarrow> bool" where
  "grows m m' \<longleftrightarrow> prefix (tunnel_events m) (tunnel_events m') \<and> length (runtimes m) \<le> length (runtimes m')"

lemma grows_refl [simp]: "grows m m" by (simp add: grows_def)

lemma grows_trans: "grows m m1 \<Longrightarrow> grows m1 m2 \<Longrightarrow> grows m m2"
  by (auto simp: grows_def intro: prefix_order.order_trans)

lemma grows_parts [simp]:
  "grows m (upd_rt i f m') = grows m m'" "grows m (upd_px s g m') = grows m m'" "grows m (remember_tunnel i m') = grows m m'"
  "grows m (forget_tunnel i m') = grows m m'" "grows m (add_proxy p m') = grows m m'" "grows m (resolved_conn i sh m') = grows m m'"
  "grows m (dispose_conns cs m') = grows m m'" "grows m (destroy_sockets ss m') = grows m m'"
  "grows m (scheduleTrafficEmit i m') = grows m m'" "grows m (updateSocks5HandshakeTimeout v m') = grows m m'"
  "grows m (m'\<lparr>tunnel_conns := ks\<rparr>) = grows m m'"
  by (simp_all add: grows_def updateSocks5HandshakeTimeout_def)

lemma grows_emit [simp]: "grows m m' \<Longrightarrow> grows m (tm_emit e m')" "grows m m' \<Longrightarrow> grows m (emit_traffic i m')"
  by (auto simp: grows_def emit_traffic_def tm_emit_def)

lemma grows_compound [simp]:
  "grows m m' \<Longrightarrow> grows m (getOrCreateSharedConnection i m')" "grows m m' \<Longrightarrow> grows m (start_succeeds i m')"
  "grows m m' \<Longrightarrow> grows m (release_failed i c m')" "grows m m' \<Longrightarrow> grows m (proxy_fails s oc m')"
  "grows m m' \<Longrightarrow> grows m (get_connection s m')" "grows m m' \<Longrightarrow> grows m (cleanup s m')"
  "grows m m' \<Longrightarrow> grows m (stop_releases i m')" "grows m m' \<Longrightarrow> grows m (shared_closed i c m')"
  by (auto simp: getOrCreateSharedConnection_def start_succeeds_def release_failed_def proxy_fails_def get_connection_def cleanup_def
      stop_releases_def finish_stop_def shared_closed_def Let_def split: option.split proxy_phase.split)

lemma grows_act: "a \<noteq> AStopAll \<Longrightarrow> grows m (tunnel_act a m)"
proof (cases a)
  case (AStart p srv mode now)
  have "grows m (m\<lparr>runtimes := runtimes m @ [r]\<rparr>)" for r by (simp add: grows_def)
  then show ?thesis using AStart
    by (auto simp: tunnel_start_def start_new_def startReverse_def Let_def split: option.split)
next
  case (AHandshake s k)
  then show ?thesis by (auto simp: handshake_settles_def Let_def split: prod.split sum.split)
qed (auto simp: listen_succeeds_def listener_fails_def start_connected_def start_connect_fails_def forward_granted_def
    forward_refused_def start_closed_def accept_socket_def proxy_connected_def proxy_connect_fails_def channel_opened_def
    channel_refused_def reverse_connection_def handleReverseConnection_def socket_closes_def remote_closes_def conn_closes_def
    count_in_def count_out_def tunnel_stop_def cancel_settles_def stop_closed_def finish_stop_def Let_def split: proxy_phase.split)

text \<open>What an action reports is so in the state it leads to: a tunnel that is announced exists, and the counters of
  a report are those of the runtime.\<close>

definition honest :: "tunnel_manager \<Rightarrow> tunnel_event \<Rightarrow> bool" where
  "honest m e =
     (case e of
        TunnelStarted i \<Rightarrow> i < length (runtimes m)
      | TunnelTraffic i a b \<Rightarrow> i < length (runtimes m) \<and> totals i m = (a, b)
      | _ \<Rightarrow> True)"

fun is_start :: "tunnel_event \<Rightarrow> bool" where
  "is_start (TunnelStarted _) = True"
| "is_start _ = False"

definition reports :: "tunnel_manager \<Rightarrow> tunnel_manager \<Rightarrow> bool" where
  "reports m m' \<longleftrightarrow>
     (\<exists>es. milestones m' = milestones m @ es \<and> list_all (honest m') es \<and> ((\<exists>i. es = [TunnelStarted i]) \<or> list_all (\<lambda>e. \<not> is_start e) es))"

lemma reports_nothing: "milestones m' = milestones m \<Longrightarrow> reports m m'"
  by (simp add: reports_def)

lemma reports_started: "i < length (runtimes m') \<Longrightarrow> milestones m' = milestones m \<Longrightarrow> reports m (start_succeeds i m')"
  by (auto simp: reports_def start_succeeds_def honest_def intro!: exI [of _ "[TunnelStarted i]"])

lemma reports_traffic: "timers_ok m' \<Longrightarrow> milestones m' = milestones m \<Longrightarrow> reports m (emit_traffic i m')"
  by (auto simp: reports_def milestones_traffic honest_def totals_def timers_ok_def)

lemma reports_finish: "timers_ok m' \<Longrightarrow> milestones m' = milestones m \<Longrightarrow> reports m (finish_stop i m')"
  by (auto simp: reports_def finish_stop_def milestones_traffic honest_def totals_def timers_ok_def nth_update_if
      intro!: exI [of _ "_ @ [TunnelStopped i]"])

lemma reports_releases: "timers_ok m' \<Longrightarrow> milestones m' = milestones m \<Longrightarrow> reports m (stop_releases i m')"
  using timers_gist [OF gist_release, of m' i] gist_eqD(5) [OF gist_release, of i m']
  by (simp add: stop_releases_alt reports_finish reports_nothing)

lemma reports_act:
  assumes "timers_ok m" "a \<noteq> AStopAll" shows "reports m (tunnel_act a m)"
proof -
  have s: "reports m (snd (tunnel_start p srv mode now m))" for p srv mode now
    by (rule reports_nothing) (simp add: tunnel_start_def start_new_def startReverse_def Let_def split: option.split)
  have g: "reports m m'" if "gist m' = gist m" for m' using gist_eqD(5) [OF that] by (rule reports_nothing)
  show ?thesis
    using assms gist_eqD [OF gist_getShared, of _ m]
    by (cases a) (simp_all add: s listen_succeeds_def listener_fails_def start_connected_def start_connect_fails_def forward_granted_def
        forward_refused_def start_closed_def count_in_def count_out_def in_start_def tunnel_stop_def cancel_settles_def
        stop_closed_def Let_def reports_started reports_traffic reports_finish reports_releases reports_nothing
        g [OF gist_accept] g [OF gist_handshake] g [OF gist_proxy(1)] g [OF gist_proxy(2)] g [OF gist_proxy(3)] g [OF gist_proxy(4)]
        g [OF gist_proxy(5)] g [OF gist_closes(1)] g [OF gist_closes(2)] g [OF gist_conn_closes] g [OF gist_parts(7)])
qed

section \<open>What the core shows\<close>

lemma viewed_manager: "fst (viewed_act uuid a mc) = tunnel_act a (fst mc)"
proof -
  have "fst (fold (\<lambda>i. view_step uuid (AStop i)) js mc) = fold tunnel_stop js (fst mc)" for js
    by (induction js arbitrary: mc) (simp_all add: view_step_def Let_def)
  then show ?thesis by (cases a) (simp_all add: viewed_act_def view_step_def tunnel_stopAll_def Let_def)
qed

lemma viewed_run_manager: "fst (viewed_run uuid v as c) = tunnel_run v as"
proof -
  have "fst (fold (viewed_act uuid) as mc) = fold tunnel_act as (fst mc)" for mc :: "tunnel_manager \<times> 'a core"
    by (induction as arbitrary: mc) (simp_all add: viewed_manager)
  then show ?thesis by (simp add: viewed_run_def tunnel_run_def)
qed

text \<open>A core in step with a manager: its records are those of tunnels, with their counters, and it has told its
  own listeners once for every start and every end.\<close>

fun is_notice :: "tunnel_event \<Rightarrow> bool" where
  "is_notice (TunnelStarted _) = True"
| "is_notice (TunnelStopped _) = True"
| "is_notice _ = False"

definition in_step :: "(nat \<Rightarrow> key) \<Rightarrow> tunnel_manager \<Rightarrow> 'v core \<Rightarrow> bool" where
  "in_step uuid m c \<longleftrightarrow>
     (\<forall>(k, x)\<in>set (activeTunnels c). \<exists>i<length (runtimes m). k = uuid i \<and> totals i m = (bytesIn x, bytesOut x))"

definition notices :: "tunnel_manager \<Rightarrow> nat" where
  "notices m = length (filter is_notice (tunnel_events m))"

lemma set_alist_update: "set (AList.update k v xs) \<subseteq> insert (k, v) (set xs)"
  by (induction xs) auto

lemma listener_step:
  assumes u: "inj uuid" and s: "in_step uuid m c" and h: "honest m e"
  shows "in_step uuid m (tunnel_listener uuid m e c)"
    "emitted (tunnel_listener uuid m e c) = emitted c + of_bool (is_notice e)"
proof -
  have t: "updateTunnelTraffic (uuid i) a b c = c" if "totals i m = (a, b)" for i a b
  proof (cases "map_of (activeTunnels c) (uuid i)")
    case (Some x)
    then obtain j where "uuid i = uuid j" "totals j m = (bytesIn x, bytesOut x)"
      using s by (auto simp: in_step_def dest!: map_of_SomeD)
    moreover from this have "i = j" using injD [OF u] by blast
    ultimately have "bytesIn x = a" "bytesOut x = b" using that by simp_all
    then show ?thesis using Some by (simp add: updateTunnelTraffic_def)
  qed (simp add: updateTunnelTraffic_def)
  show "in_step uuid m (tunnel_listener uuid m e c)"
    using s h t subsetD [OF set_alist_update]
    by (cases e) (fastforce simp: tunnel_listener_def in_step_def honest_def totals_def registerTunnel_def unregisterTunnel_def
        emitChanged_def AList.delete_eq)+
  show "emitted (tunnel_listener uuid m e c) = emitted c + of_bool (is_notice e)"
    using h t by (cases e) (auto simp: tunnel_listener_def honest_def registerTunnel_def unregisterTunnel_def emitChanged_def)
qed

lemma listener_steps:
  assumes "inj uuid" "in_step uuid m c" "list_all (honest m) es"
  shows "in_step uuid m (fold (tunnel_listener uuid m) es c)
    \<and> emitted (fold (tunnel_listener uuid m) es c) = emitted c + length (filter is_notice es)"
  using assms(2,3) by (induction es arbitrary: c) (auto simp: listener_step [OF assms(1)])

lemma share_in_step:
  assumes u: "inj uuid" and s: "in_step uuid m c" and l: "length (runtimes m) \<le> length (runtimes m')"
  shows "in_step uuid m' (share_objects uuid m' c)" "emitted (share_objects uuid m' c) = emitted c"
proof -
  have "find (\<lambda>j. uuid j = uuid i) [0..<n] = Some i" if "i < n" for i n
  proof -
    have "find (\<lambda>j. uuid j = uuid i) [0..<n] \<noteq> None" using that by (auto simp: find_None_iff)
    then show ?thesis using injD [OF u] by (auto simp: find_Some_iff)
  qed
  then show "in_step uuid m' (share_objects uuid m' c)"
    using s l by (fastforce simp: in_step_def share_objects_def shared_counters_def totals_def)
qed (simp add: share_objects_def)

lemma honest_errors: "list_all (honest m) (filter (\<lambda>e. \<not> is_error e) es) \<Longrightarrow> list_all (honest m) es"
proof -
  have "is_error e \<Longrightarrow> honest m e" for e by (cases e) (simp_all add: honest_def)
  then show "list_all (honest m) (filter (\<lambda>e. \<not> is_error e) es) \<Longrightarrow> list_all (honest m) es" by (auto simp: list_all_iff)
qed

lemma act_events:
  assumes "timers_ok m" "a \<noteq> AStopAll"
  obtains es where "tunnel_events (tunnel_act a m) = tunnel_events m @ es" "list_all (honest (tunnel_act a m)) es"
proof -
  obtain es where e: "tunnel_events (tunnel_act a m) = tunnel_events m @ es"
    using grows_act [OF assms(2), of m] by (auto simp: grows_def prefix_def)
  have "list_all (honest (tunnel_act a m)) (filter (\<lambda>e. \<not> is_error e) es)"
    using reports_act [OF assms] e by (auto simp: reports_def milestones_def)
  then show thesis using that e honest_errors by blast
qed

definition view_ok :: "(nat \<Rightarrow> key) \<Rightarrow> nat \<Rightarrow> tunnel_manager \<times> 'v core \<Rightarrow> bool" where
  "view_ok uuid n mc \<longleftrightarrow>
     tracked (fst mc) \<and> told (fst mc) \<and> timers_ok (fst mc) \<and> in_step uuid (fst mc) (snd mc)
     \<and> emitted (snd mc) = n + notices (fst mc)"

lemma view_ok_step:
  assumes u: "inj uuid" and v: "view_ok uuid n mc" and a: "a \<noteq> AStopAll"
  shows "view_ok uuid n (view_step uuid a mc)"
proof -
  let ?m = "fst mc" and ?m' = "tunnel_act a (fst mc)"
  obtain es where e: "tunnel_events ?m' = tunnel_events ?m @ es" "list_all (honest ?m') es"
    using act_events [OF _ a, of ?m] v by (auto simp: view_ok_def)
  have l: "length (runtimes ?m) \<le> length (runtimes ?m')" using grows_act [OF a, of ?m] by (simp add: grows_def)
  have "in_step uuid ?m (snd mc)" using v by (simp add: view_ok_def)
  note s = share_in_step [OF u this l]
  have i: "(told ?m' \<and> timers_ok ?m') \<and> tracked ?m'" using telling.inv_act [OF a] v by (auto simp: view_ok_def)
  show ?thesis
    using listener_steps [OF u s(1) e(2)] i e s v by (simp add: view_ok_def view_step_def Let_def notices_def)
qed

lemma view_ok_run:
  assumes u: "inj uuid" and c: "activeTunnels c = []"
  shows "view_ok uuid (emitted c) (viewed_run uuid v as c)"
proof -
  have f: "view_ok uuid n mc \<Longrightarrow> view_ok uuid n (fold (\<lambda>i. view_step uuid (AStop i)) js mc)" for n js and mc :: "tunnel_manager \<times> 'a core"
    by (induction js arbitrary: mc) (simp_all add: view_ok_step [OF u])
  have "view_ok uuid n mc \<Longrightarrow> view_ok uuid n (viewed_act uuid a mc)" for n a and mc :: "tunnel_manager \<times> 'a core"
    by (cases a) (simp_all add: viewed_act_def f view_ok_step [OF u])
  then have "view_ok uuid n mc \<Longrightarrow> view_ok uuid n (fold (viewed_act uuid) as mc)" for n and mc :: "tunnel_manager \<times> 'a core"
    by (induction as arbitrary: mc) simp_all
  moreover have "view_ok uuid (emitted c) (new_tunnel_manager v, c)"
    using telling.inv_new [of v] c by (auto simp: view_ok_def in_step_def notices_def new_tunnel_manager_def)
  ultimately show ?thesis by (simp add: viewed_run_def)
qed

section \<open>Starts and ends\<close>

text \<open>A run in which no tunnel is stopped before its start has succeeded.\<close>

definition up :: "tunnel_manager \<Rightarrow> nat \<Rightarrow> bool" where
  "up m i \<longleftrightarrow> (i \<in> set (activeIds m) \<longrightarrow> rt_start (rt m i) = StartOk)"

fun stops_up :: "tunnel_action \<Rightarrow> tunnel_manager \<Rightarrow> bool" where
  "stops_up (AStop i) m = up m i"
| "stops_up AStopAll m = list_all (up m) (activeIds m)"
| "stops_up _ m = True"

fun orderly :: "tunnel_action list \<Rightarrow> tunnel_manager \<Rightarrow> bool" where
  "orderly [] m = True"
| "orderly (a # as) m \<longleftrightarrow> stops_up a m \<and> orderly as (tunnel_act a m)"

definition stopped_up :: "tunnel_manager \<Rightarrow> bool" where
  "stopped_up m \<longleftrightarrow> (\<forall>i<length (runtimes m). rt_stop (rt m i) \<noteq> NotStopped \<longrightarrow> rt_start (rt m i) = StartOk)"

lemma stopped_up_gist: "gist m' = gist m \<Longrightarrow> stopped_up m \<Longrightarrow> stopped_up m'"
  using gist_rt [of m' m] gist_eqD [of m' m] by (simp add: stopped_up_def)

lemma stopped_up_simple [simp]:
  "stopped_up (tm_emit e m) = stopped_up m" "stopped_up (remember_tunnel i m) = stopped_up m" "stopped_up (forget_tunnel i m) = stopped_up m"
  "stopped_up (scheduleTrafficEmit i m) = stopped_up m" "stopped_up (emit_traffic i m) = stopped_up m"
  by (simp_all add: stopped_up_def)

lemma stopped_up_upd:
  assumes "stopped_up m" "i < length (runtimes m) \<Longrightarrow> rt_stop (f (rt m i)) \<noteq> NotStopped \<Longrightarrow> rt_start (f (rt m i)) = StartOk"
  shows "stopped_up (upd_rt i f m)"
  using assms by (auto simp: stopped_up_def nth_update_if)

lemma stopped_up_known: "stopped_up m \<Longrightarrow> i < length (runtimes m) \<Longrightarrow> rt_start (rt m i) \<noteq> StartOk \<Longrightarrow> rt_stop (rt m i) = NotStopped"
  by (auto simp: stopped_up_def)

lemma stopped_up_start: "stopped_up m \<Longrightarrow> stopped_up (snd (tunnel_start p srv mode now m))"
  by (auto simp: tunnel_start_def start_new_def startReverse_def Let_def stopped_up_def new_runtime_def nth_append nth_update_if
      less_Suc_eq split: option.split)

lemma stopped_up_starting:
  assumes a: "stopped_up m"
  shows "stopped_up (listen_succeeds i m)" "stopped_up (listener_fails i m)" "stopped_up (start_connected i m)"
    "stopped_up (start_connect_fails i m)" "stopped_up (forward_granted i port m)" "stopped_up (forward_refused i m)"
    "stopped_up (start_closed i m)" "stopped_up (count_in s n m)" "stopped_up (count_out s n m)"
  using a stopped_up_known [OF a, of i] stopped_up_gist [OF gist_getShared a, of i] gist_eqD(1) [OF gist_getShared, of i m]
    gist_rt [OF gist_getShared, of i m i]
  by (auto simp: listen_succeeds_def listener_fails_def start_connected_def start_connect_fails_def forward_granted_def
      forward_refused_def start_closed_def start_succeeds_def in_start_def count_in_def count_out_def Let_def
      intro!: stopped_up_upd dest: stopped_up_known)

lemma stopped_up_releases:
  assumes "stopped_up m" "rt_start (rt m i) = StartOk" shows "stopped_up (stop_releases i m)"
  using assms stopped_up_gist [OF gist_release assms(1), of i] gist_rt(3) [OF gist_release, of i m i] gist_eqD(1) [OF gist_release, of i m]
  by (auto simp: stop_releases_alt finish_stop_def intro!: stopped_up_upd)

lemma stopped_up_stopping:
  assumes a: "stopped_up m"
  shows "up m i \<Longrightarrow> phases_ok m \<Longrightarrow> stopped_up (tunnel_stop i m)" "stopped_up (cancel_settles i m)" "stopped_up (stop_closed i m)"
proof -
  show "stopped_up (tunnel_stop i m)" if "up m i" "phases_ok m"
    using a that phases_known(1) [OF that(2), of i]
    by (auto simp: tunnel_stop_def up_def Let_def intro!: stopped_up_releases stopped_up_upd)
  show "stopped_up (cancel_settles i m)" "stopped_up (stop_closed i m)"
    using a by (auto simp: cancel_settles_def stop_closed_def finish_stop_def intro!: stopped_up_releases stopped_up_upd)
      (auto simp: stopped_up_def)
qed

lemma stopped_up_act: "a \<noteq> AStopAll \<Longrightarrow> stops_up a m \<Longrightarrow> phases_ok m \<Longrightarrow> stopped_up m \<Longrightarrow> stopped_up (tunnel_act a m)"
  by (cases a) (auto simp: stopped_up_start stopped_up_starting stopped_up_stopping intro: stopped_up_gist [rotated] gist_serving)

lemma listener_keys:
  "fst ` set (activeTunnels (tunnel_listener uuid m e c)) =
     (case e of
        TunnelStarted i \<Rightarrow> insert (uuid i) (fst ` set (activeTunnels c))
      | TunnelStopped i \<Rightarrow> fst ` set (activeTunnels c) - {uuid i}
      | _ \<Rightarrow> fst ` set (activeTunnels c))"
proof -
  have d: "fst ` set (AList.delete k xs) = fst ` set xs - {k}" for k and xs :: "(key \<times> active_tunnel) list"
    by (force simp: AList.delete_eq)
  have w: "insert k (fst ` set xs) = fst ` set xs" if "map_of xs k = Some x" for k x and xs :: "(key \<times> active_tunnel) list"
    using map_of_SomeD [OF that] by force
  show ?thesis
    by (cases e) (auto simp: tunnel_listener_def registerTunnel_def unregisterTunnel_def updateTunnelTraffic_def emitChanged_def
        dom_update d w split: option.split)
qed

lemma listeners_keys:
  assumes "list_all (\<lambda>e. \<not> is_start e) es"
  shows "fst ` set (activeTunnels (fold (tunnel_listener uuid m) es c)) = fst ` set (activeTunnels c) - uuid ` {i. TunnelStopped i \<in> set es}"
  using assms
proof (induction es arbitrary: c)
  case (Cons e es)
  then show ?case by (cases e) (auto simp: listener_keys)
qed simp

lemma share_keys: "fst ` set (activeTunnels (share_objects uuid m c)) = fst ` set (activeTunnels c)"
proof -
  have "fst (shared_counters uuid m kx) = fst kx" for kx by (auto simp: shared_counters_def split: option.split)
  then show ?thesis by (simp add: share_objects_def image_image)
qed

text \<open>Errors are not heard.\<close>

lemma listener_errors: "fold (tunnel_listener uuid m) es c = fold (tunnel_listener uuid m) (filter (\<lambda>e. \<not> is_error e) es) c"
proof (induction es arbitrary: c)
  case (Cons e es)
  then show ?case by (cases e) (simp_all add: tunnel_listener_def)
qed simp

definition shows_up :: "(nat \<Rightarrow> key) \<Rightarrow> tunnel_manager \<times> 'v core \<Rightarrow> bool" where
  "shows_up uuid mc \<longleftrightarrow>
     phases_ok (fst mc) \<and> reported_once (fst mc) \<and> timers_ok (fst mc) \<and> told (fst mc) \<and> tracked (fst mc) \<and> stopped_up (fst mc)
     \<and> fst ` set (activeTunnels (snd mc)) = uuid ` {i. is_started i (fst mc) \<and> \<not> is_stopped i (fst mc)}"

lemma announced_new:
  assumes "reported_once m" "reported_once m'" "milestones m' = milestones m @ es"
  shows "is_started i m' \<longleftrightarrow> is_started i m \<or> TunnelStarted i \<in> set es" "is_stopped i m' \<longleftrightarrow> is_stopped i m \<or> TunnelStopped i \<in> set es"
    "is_started i m \<Longrightarrow> TunnelStarted i \<notin> set es"
proof -
  have c: "of_bool (is_started i m') = of_bool (is_started i m) + count_list es (TunnelStarted i)"
    "of_bool (is_stopped i m') = of_bool (is_stopped i m) + count_list es (TunnelStopped i)"
    using assms by (simp_all add: reported_once_def)
  have e: "e \<in> set es \<longleftrightarrow> count_list es e \<noteq> 0" for e by (simp add: count_list_0_iff)
  show "is_started i m' \<longleftrightarrow> is_started i m \<or> TunnelStarted i \<in> set es"
    "is_started i m \<Longrightarrow> TunnelStarted i \<notin> set es"
    using c(1) by (auto simp: e of_bool_def split: if_splits)
  show "is_stopped i m' \<longleftrightarrow> is_stopped i m \<or> TunnelStopped i \<in> set es"
    using c(2) by (auto simp: e of_bool_def split: if_splits)
qed

lemma shows_up_step:
  assumes u: "inj uuid" and s: "shows_up uuid mc" and a: "a \<noteq> AStopAll" "stops_up a (fst mc)"
  shows "shows_up uuid (view_step uuid a mc)"
proof -
  let ?m = "fst mc" and ?m' = "tunnel_act a (fst mc)"
  have i: "phases_ok ?m'" "reported_once ?m'" "timers_ok ?m'" "told ?m'" "tracked ?m'" "stopped_up ?m'" and t: "timers_ok ?m" "reported_once ?m" "stopped_up ?m"
    using s a announcing.inv_act [OF a(1), of ?m] telling.inv_act [OF a(1), of ?m] stopped_up_act [OF a] by (auto simp: shows_up_def)
  obtain fs where f: "tunnel_events ?m' = tunnel_events ?m @ fs" using grows_act [OF a(1), of ?m] by (auto simp: grows_def prefix_def)
  define es where "es = filter (\<lambda>e. \<not> is_error e) fs"
  have m: "milestones ?m' = milestones ?m @ es" using f by (simp add: milestones_def es_def)
  then have r: "(\<exists>j. es = [TunnelStarted j]) \<or> list_all (\<lambda>e. \<not> is_start e) es"
    using reports_act [OF t(1) a(1)] by (auto simp: reports_def)
  note n = announced_new [OF t(2) i(2) m]
  have k: "fst ` set (activeTunnels (fold (tunnel_listener uuid ?m') fs (share_objects uuid ?m' (snd mc))))
      = uuid ` {j. is_started j ?m' \<and> \<not> is_stopped j ?m'}"
    using r
  proof
    assume "\<exists>j. es = [TunnelStarted j]"
    then obtain j where j: "es = [TunnelStarted j]" by blast
    then have "\<not> is_stopped j ?m" using n(3) [of j] t(3) by (auto simp: stopped_up_def is_started_def is_stopped_def)
    then show ?thesis
      using s j n by (auto simp: listener_errors [of _ _ fs] es_def [symmetric] listener_keys share_keys shows_up_def)
  next
    assume l: "list_all (\<lambda>e. \<not> is_start e) es"
    then have "TunnelStarted j \<notin> set es" for j by (auto simp: list_all_iff)
    then show ?thesis
      using s l n by (auto simp: inj_eq [OF u] listener_errors [of _ _ fs] es_def [symmetric] listeners_keys share_keys shows_up_def)
  qed
  show ?thesis using i k f by (simp add: shows_up_def view_step_def Let_def)
qed

lemma up_stop: "up m i \<Longrightarrow> up (tunnel_stop j m) i"
proof -
  have r: "rt_start (rt (stop_releases j n) i) = rt_start (rt n i)" "activeIds (stop_releases j n) = activeIds n" for n
    by (simp_all add: stop_releases_def finish_stop_def Let_def nth_update_if)
  show "up m i \<Longrightarrow> up (tunnel_stop j m) i" by (auto simp: up_def tunnel_stop_def r Let_def nth_update_if)
qed

lemma shows_up_stops:
  assumes "inj uuid" "shows_up uuid mc" "list_all (up (fst mc)) js"
  shows "shows_up uuid (fold (\<lambda>i. view_step uuid (AStop i)) js mc)"
  using assms(2,3)
proof (induction js arbitrary: mc)
  case (Cons j js)
  have "list_all (up (fst (view_step uuid (AStop j) mc))) js"
    using Cons.prems(2) by (auto simp: view_step_def list_all_iff up_stop Let_def)
  moreover have "shows_up uuid (view_step uuid (AStop j) mc)"
    using Cons.prems by (intro shows_up_step [OF assms(1)]) simp_all
  ultimately show ?case using Cons.IH by simp
qed simp

lemma shows_up_acts:
  assumes u: "inj uuid" and "shows_up uuid mc" "orderly as (fst mc)"
  shows "shows_up uuid (fold (viewed_act uuid) as mc)"
  using assms(2,3)
proof (induction as arbitrary: mc)
  case (Cons a as)
  have "shows_up uuid (viewed_act uuid a mc)"
    using Cons.prems shows_up_step [OF u, of mc a] shows_up_stops [OF u, of mc "activeIds (fst mc)"]
    by (cases a) (simp_all add: viewed_act_def)
  then show ?case using Cons.IH [of "viewed_act uuid a mc"] Cons.prems(2) by (simp add: viewed_manager)
qed simp

section \<open>Properties\<close>

text \<open>
  C19. In every run of the tunnel manager each tunnel is announced at most once as started and at most once as
  stopped, according to its phase, and no byte count is withheld: the last report of a tunnel carries its totals,
  or a timer that will report them is pending.
\<close>

theorem tunnel_reports:
  "reported_once (tunnel_run v as) \<and> told (tunnel_run v as) \<and> timers_ok (tunnel_run v as)"
  using announcing.inv_run [of v as] telling.inv_run [of v as] by blast

definition numbered :: "nat \<Rightarrow> key" where
  "numbered i = replicate i CHR ''t''"

lemma numbered_inj: "inj numbered"
proof (rule injI)
  fix i j assume "numbered i = numbered j"
  then have "length (numbered i) = length (numbered j)" by simp
  then show "i = j" by (simp add: numbered_def)
qed

definition example_traffic :: "tunnel_action list" where
  "example_traffic =
     [AStart (example_tunnel LocalTunnel) ''srv'' None 0, AListening 0, AAccept 0, AConnected 0, AOpened 0, AIn 0 5, ATimer 0]"

lemma example_traffic_run:
  "tunnel_events (tunnel_run (Finite 5000) example_traffic) = [TunnelStarted 0, TunnelTraffic 0 5 0]"
  "is_started i (tunnel_run (Finite 5000) example_traffic) \<longleftrightarrow> i = 0" "\<not> is_stopped i (tunnel_run (Finite 5000) example_traffic)"
  by (auto simp: example_traffic_def tunnel_example_defs count_in_def data_listened_def scheduleTrafficEmit_def is_started_def
      is_stopped_def)

text \<open>
  C20. While no tunnel is stopped before its start has succeeded, the core shows exactly the tunnels that have
  started and not ended, each with the totals of the manager.
\<close>

theorem tunnel_view:
  assumes "inj uuid" "activeTunnels c = []" "orderly as (new_tunnel_manager v)"
  shows "fst ` set (activeTunnels (snd (viewed_run uuid v as c)))
      = uuid ` {i. is_started i (tunnel_run v as) \<and> \<not> is_stopped i (tunnel_run v as)}
    \<and> in_step uuid (tunnel_run v as) (snd (viewed_run uuid v as c))"
proof -
  have "shows_up uuid (new_tunnel_manager v, c)"
    using announcing.inv_new [of v] telling.inv_new [of v] assms(2)
    by (auto simp: shows_up_def stopped_up_def is_started_def new_tunnel_manager_def)
  then have "shows_up uuid (viewed_run uuid v as c)"
    using assms(3) by (simp add: viewed_run_def shows_up_acts [OF assms(1)])
  then show ?thesis
    using view_ok_run [OF assms(1,2), of v as] by (simp add: shows_up_def view_ok_def viewed_run_manager)
qed

theorem tunnel_view_witness:
  "fst ` set (activeTunnels (snd (viewed_run numbered (Finite 5000) example_traffic (new_core empty_config)))) = {[]}"
proof -
  have "orderly example_traffic (new_tunnel_manager (Finite 5000))" by (simp add: example_traffic_def)
  then show ?thesis
    using tunnel_view [OF numbered_inj, of "new_core empty_config" example_traffic "Finite 5000"] example_traffic_run(2,3)
    by (auto simp: new_core_def numbered_def)
qed

text \<open>
  C21. The traffic of a tunnel is reported and not shown: whatever totals the manager reports, the core tells its
  listeners once for every tunnel that starts or ends and never for traffic, because the record it compares a
  report with is the object the manager counts in.
\<close>

theorem traffic_not_announced:
  assumes "inj uuid" "activeTunnels c = []"
  shows "emitted (snd (viewed_run uuid v as c)) = emitted c + notices (tunnel_run v as)"
  using view_ok_run [OF assms, of v as] by (simp add: view_ok_def viewed_run_manager)

theorem traffic_not_announced_witness:
  "emitted (snd (viewed_run numbered (Finite 5000) example_traffic (new_core empty_config))) = 1
   \<and> TunnelTraffic 0 5 0 \<in> set (tunnel_events (tunnel_run (Finite 5000) example_traffic))"
  using traffic_not_announced [OF numbered_inj, of "new_core empty_config" "Finite 5000" example_traffic]
  by (simp add: example_traffic_run notices_def new_core_def)

end
