(* ===== verification/Tunnel_Leaks.thy ===== *)
theory Tunnel_Leaks
  imports Tunnel_Release
begin

text \<open>
  Connections the tunnel manager leaves open for good: nothing it keeps leads to them any more. What
  can end such a connection is named by the actions the properties leave out of the continuation.
\<close>

section \<open>Who holds a connection\<close>

definition conn_for :: "tunnel_manager \<Rightarrow> nat \<Rightarrow> nat \<Rightarrow> bool" where
  "conn_for m c j \<longleftrightarrow> c < length (tunnel_conns m) \<and> conn_tunnel (tunnel_conns m ! c) = j"

definition holds_conn :: "nat \<Rightarrow> proxy_phase \<Rightarrow> bool" where
  "holds_conn c ph \<longleftrightarrow> ph = OpeningChannel c \<or> ph = Proxying (Some c)"

lemma holds_simps [simp]:
  "\<not> holds_conn c Handshaking" "\<not> holds_conn c AwaitingShared" "\<not> holds_conn c AwaitingIsolated" "\<not> holds_conn c Served"
  "holds_conn c (OpeningChannel d) \<longleftrightarrow> d = c" "holds_conn c (Proxying own) \<longleftrightarrow> own = Some c"
  by (auto simp: holds_conn_def)

text \<open>What a runtime or a handler refers to was opened for its own tunnel.\<close>

definition rt_owned :: "tunnel_manager \<Rightarrow> nat \<Rightarrow> tunnel_runtime \<Rightarrow> bool" where
  "rt_owned m j r \<longleftrightarrow>
     (\<forall>c\<in>set (rt_sshConnections r). conn_for m c j) \<and> (\<forall>c. rt_sharedConnection r = Some c \<longrightarrow> conn_for m c j)"

definition px_owned :: "tunnel_manager \<Rightarrow> proxy \<Rightarrow> bool" where
  "px_owned m p \<longleftrightarrow>
     px_tunnel p < length (runtimes m) \<and> (\<forall>c. holds_conn c (px_phase p) \<longrightarrow> conn_for m c (px_tunnel p))"

definition conns_owned :: "tunnel_manager \<Rightarrow> bool" where
  "conns_owned m \<longleftrightarrow> (\<forall>j<length (runtimes m). rt_owned m j (rt m j)) \<and> (\<forall>s<length (proxies m). px_owned m (px m s))"

lemma conn_for_parts [simp]:
  "conn_for (upd_rt i f m) = conn_for m" "conn_for (upd_px s g m) = conn_for m" "conn_for (tm_emit e m) = conn_for m"
  "conn_for (remember_tunnel i m) = conn_for m" "conn_for (forget_tunnel i m) = conn_for m"
  "conn_for (add_proxy p m) = conn_for m" "conn_for (destroy_sockets ss m) = conn_for m"
  "conn_for (scheduleTrafficEmit i m) = conn_for m" "conn_for (emit_traffic i m) = conn_for m"
  "conn_for (m\<lparr>runtimes := rs\<rparr>) = conn_for m" "conn_for (updateSocks5HandshakeTimeout v m) = conn_for m"
  "conn_for (dispose_conns cs m) = conn_for m"
  by (auto simp: conn_for_def fun_eq_iff updateSocks5HandshakeTimeout_def dispose_nth)

lemma conn_for_resolved:
  "conn_for m c j \<Longrightarrow> conn_for (resolved_conn i sh m) c j"
  "conn_for (resolved_conn i sh m) (length (tunnel_conns m)) i"
  by (auto simp: conn_for_def nth_append)

lemma owned_upd_rt:
  "conns_owned m \<Longrightarrow> (rt_owned m i (rt m i) \<Longrightarrow> rt_owned m i (f (rt m i))) \<Longrightarrow> conns_owned (upd_rt i f m)"
  by (auto simp: conns_owned_def rt_owned_def px_owned_def nth_update_if)

lemma owned_upd_px:
  "conns_owned m \<Longrightarrow> (s < length (proxies m) \<Longrightarrow> px_owned m (px m s) \<Longrightarrow> px_owned m (f (px m s))) \<Longrightarrow> conns_owned (upd_px s f m)"
  by (auto simp: conns_owned_def rt_owned_def px_owned_def nth_update_if)

lemma owned_simple [simp]:
  "conns_owned (tm_emit e m) = conns_owned m" "conns_owned (remember_tunnel i m) = conns_owned m" "conns_owned (forget_tunnel i m) = conns_owned m"
  "conns_owned (scheduleTrafficEmit i m) = conns_owned m" "conns_owned (emit_traffic i m) = conns_owned m"
  "conns_owned (updateSocks5HandshakeTimeout v m) = conns_owned m" "conns_owned (dispose_conns cs m) = conns_owned m"
  by (simp_all add: conns_owned_def rt_owned_def px_owned_def conn_for_def updateSocks5HandshakeTimeout_def dispose_nth cong: conj_cong)

lemma owned_destroy [simp]: "conns_owned (destroy_sockets ss m) = conns_owned m"
proof -
  have "px_owned (destroy_sockets ss m) (px (destroy_sockets ss m) s) = px_owned m (px m s)" if "s < length (proxies m)" for s
    using that by (simp add: destroy_nth px_owned_def)
  then show ?thesis by (auto simp: conns_owned_def rt_owned_def)
qed

lemma owned_add_proxy: "conns_owned m \<Longrightarrow> px_owned m p \<Longrightarrow> conns_owned (add_proxy p m)"
  by (auto simp: conns_owned_def rt_owned_def px_owned_def nth_append less_Suc_eq)

lemma owned_resolved: "conns_owned m \<Longrightarrow> conns_owned (resolved_conn i sh m)"
  by (auto simp: conns_owned_def rt_owned_def px_owned_def conn_for_resolved)

lemma owned_extend: "conns_owned m \<Longrightarrow> rt_owned m (length (runtimes m)) r \<Longrightarrow> conns_owned (m\<lparr>runtimes := runtimes m @ [r]\<rparr>)"
  by (auto simp: conns_owned_def rt_owned_def px_owned_def nth_append less_Suc_eq)

lemma rt_owned_simps [simp]:
  "rt_owned m i r \<Longrightarrow> rt_owned m i (untrack_conn c r)" "rt_owned m i (untrack_socket s r) = rt_owned m i r"
  "rt_owned m i (r\<lparr>rt_sockets := ss\<rparr>) = rt_owned m i r"
  by (auto simp: rt_owned_def untrack_conn_def untrack_socket_def)

lemma rt_owned_none: "rt_owned m i r \<Longrightarrow> rt_owned m i (r\<lparr>rt_sharedConnection := None\<rparr>)"
  by (simp add: rt_owned_def)

lemma owned_start: "conns_owned m \<Longrightarrow> conns_owned (snd (tunnel_start p srv mode now m))"
  by (auto simp: tunnel_start_def start_new_def startReverse_def Let_def new_runtime_def rt_owned_def
      intro!: owned_upd_rt owned_extend split: option.split)

lemma owned_getShared: "conns_owned m \<Longrightarrow> conns_owned (getOrCreateSharedConnection i m)"
  unfolding getOrCreateSharedConnection_def Let_def
  by (rule owned_upd_rt [OF owned_resolved]) (auto simp: rt_owned_def track_conn_def conn_for_resolved)

lemma owned_starting:
  assumes "conns_owned m"
  shows "conns_owned (listen_succeeds i m)" "conns_owned (listener_fails i m)" "conns_owned (start_connected i m)"
    "conns_owned (start_connect_fails i m)" "conns_owned (forward_granted i port m)" "conns_owned (forward_refused i m)"
    "conns_owned (start_closed i m)" "conns_owned (count_in s n m)" "conns_owned (count_out s n m)"
  using assms
  by (auto simp: listen_succeeds_def listener_fails_def start_connected_def start_connect_fails_def forward_granted_def
      forward_refused_def start_closed_def start_succeeds_def count_in_def count_out_def Let_def rt_owned_def
      intro!: owned_upd_rt owned_getShared)

lemma owned_get_connection:
  assumes "conns_owned m" shows "conns_owned (get_connection s m)"
  unfolding get_connection_def Let_def
proof (rule owned_upd_px [OF assms])
  assume "px_owned m (px m s)"
  moreover from this have "rt_owned m (px_tunnel (px m s)) (rt m (px_tunnel (px m s)))"
    using assms by (simp add: px_owned_def conns_owned_def)
  ultimately show "px_owned m ((px m s)\<lparr>px_phase := (if rt_connectionMode (rt m (px_tunnel (px m s))) = SharedMode
      then case rt_sharedConnection (rt m (px_tunnel (px m s))) of None \<Rightarrow> AwaitingShared | Some c \<Rightarrow> OpeningChannel c
      else AwaitingIsolated)\<rparr>)"
    by (auto simp: px_owned_def rt_owned_def split: option.split)
qed

lemma owned_accept: "conns_owned m \<Longrightarrow> conns_owned (accept_socket i m)"
  by (auto simp: accept_socket_def new_proxy_def Let_def px_owned_def
      intro!: owned_get_connection owned_add_proxy owned_upd_rt)

lemma owned_fails: "conns_owned m \<Longrightarrow> conns_owned (release_failed i c m)" "conns_owned m \<Longrightarrow> conns_owned (proxy_fails s oc m)"
proof -
  show r: "conns_owned m \<Longrightarrow> conns_owned (release_failed i c m)" for i c m
    by (auto simp: release_failed_def intro!: owned_upd_rt rt_owned_simps(1) rt_owned_none)
  show "conns_owned m \<Longrightarrow> conns_owned (proxy_fails s oc m)"
    by (auto simp: proxy_fails_def Let_def px_owned_def intro!: owned_upd_px owned_upd_rt r split: option.split)
qed

lemma owned_handshake: "conns_owned m \<Longrightarrow> conns_owned (handshake_settles s k m)"
  by (auto simp: handshake_settles_def Let_def px_owned_def intro!: owned_get_connection owned_fails owned_upd_px owned_upd_rt
      split: prod.split sum.split)

lemma owned_proxy_connected: "conns_owned m \<Longrightarrow> conns_owned (proxy_connected s m)"
proof -
  assume o: "conns_owned m"
  let ?i = "px_tunnel (px m s)" and ?c = "length (tunnel_conns m)"
  have g: "conn_for (getOrCreateSharedConnection ?i m) ?c ?i" "conn_for (resolved_conn ?i False m) ?c ?i"
    by (simp_all add: getOrCreateSharedConnection_def Let_def conn_for_resolved)
  have "conns_owned (upd_rt ?i (track_conn ?c) (resolved_conn ?i False m))"
    by (rule owned_upd_rt [OF owned_resolved [OF o]]) (auto simp: rt_owned_def track_conn_def conn_for_resolved)
  then show ?thesis
    using o g owned_getShared [OF o, of ?i]
    by (auto simp: proxy_connected_def Let_def px_owned_def getOrCreateSharedConnection_def intro!: owned_upd_px)
qed

lemma owned_serving:
  assumes "conns_owned m"
  shows "conns_owned (proxy_connect_fails s m)" "conns_owned (channel_opened s m)" "conns_owned (channel_refused s m)"
    "conns_owned (reverse_connection i dest taken m)"
  using assms
  by (auto simp: proxy_connect_fails_def channel_opened_def channel_refused_def reverse_connection_def
      handleReverseConnection_def new_proxy_def Let_def px_owned_def
      intro!: owned_fails owned_upd_px owned_add_proxy owned_upd_rt split: proxy_phase.split)


lemma owned_cleanup: "conns_owned m \<Longrightarrow> conns_owned (cleanup s m)"
  by (auto simp: cleanup_def Let_def px_owned_def intro!: owned_upd_px owned_upd_rt split: proxy_phase.split option.split)

lemma owned_closes: "conns_owned m \<Longrightarrow> conns_owned (socket_closes s m)" "conns_owned m \<Longrightarrow> conns_owned (remote_closes s m)"
  by (auto simp: socket_closes_def remote_closes_def px_owned_def intro!: owned_cleanup owned_upd_px)

lemma owned_conns:
  assumes "conns_owned m" "length ks = length (tunnel_conns m)" "\<And>c. c < length ks \<Longrightarrow> conn_tunnel (ks ! c) = conn_tunnel (tunnel_conns m ! c)"
  shows "conns_owned (m\<lparr>tunnel_conns := ks\<rparr>)"
proof -
  have "conn_for (m\<lparr>tunnel_conns := ks\<rparr>) = conn_for m" using assms(2,3) by (auto simp: conn_for_def fun_eq_iff)
  then show ?thesis using assms(1) by (simp add: conns_owned_def rt_owned_def px_owned_def)
qed

lemma owned_conn_closes: "conns_owned m \<Longrightarrow> conns_owned (conn_closes c m)"
  by (auto simp: conn_closes_def shared_closed_def Let_def nth_update_if intro!: owned_upd_rt owned_conns rt_owned_simps(1) rt_owned_none)

lemma owned_releases: "conns_owned m \<Longrightarrow> conns_owned (stop_releases i m)"
  by (auto simp: stop_releases_def finish_stop_def Let_def rt_owned_def intro!: owned_upd_rt)

lemma owned_stopping:
  "conns_owned m \<Longrightarrow> conns_owned (tunnel_stop i m)" "conns_owned m \<Longrightarrow> conns_owned (cancel_settles i m)" "conns_owned m \<Longrightarrow> conns_owned (stop_closed i m)"
  by (auto simp: tunnel_stop_def cancel_settles_def stop_closed_def finish_stop_def Let_def rt_owned_def
      intro!: owned_releases owned_upd_rt)

lemma owned_act: "a \<noteq> AStopAll \<Longrightarrow> conns_owned m \<Longrightarrow> conns_owned (tunnel_act a m)"
  by (cases a) (simp_all add: owned_start owned_starting owned_accept owned_handshake owned_proxy_connected owned_serving
      owned_closes owned_conn_closes owned_stopping)

interpretation owning: tunnel_invariant conns_owned
  by unfold_locales (simp_all add: owned_act, simp add: conns_owned_def new_tunnel_manager_def)

section \<open>Reverse tunnels have no listener\<close>

text \<open>So they have no socket whose handler asks for a connection, and the connections they serve hold none.\<close>

abbreviation is_reverse :: "tunnel_runtime \<Rightarrow> bool" where
  "is_reverse r \<equiv> resolveTunnelType (rt_profile r) = ReverseTunnel"

definition reverse_rt :: "tunnel_runtime \<Rightarrow> bool" where
  "reverse_rt r \<longleftrightarrow>
     (is_reverse r \<longrightarrow> rt_listenerServer r = NoListener \<and> rt_start r \<noteq> StartBinding)
     \<and> (rt_start r = StartForwarding \<longrightarrow> is_reverse r)"

definition reverse_px :: "tunnel_manager \<Rightarrow> proxy \<Rightarrow> bool" where
  "reverse_px m p \<longleftrightarrow>
     px_tunnel p < length (runtimes m) \<and> (is_reverse (rt m (px_tunnel p)) \<longrightarrow> px_phase p \<in> {Proxying None, Served})"

definition reverse_ok :: "tunnel_manager \<Rightarrow> bool" where
  "reverse_ok m \<longleftrightarrow> (\<forall>r\<in>set (runtimes m). reverse_rt r) \<and> (\<forall>s<length (proxies m). reverse_px m (px m s))"

lemma reverse_upd_rt:
  assumes "reverse_ok m" "\<And>r. rt_profile (f r) = rt_profile r"
    and "i < length (runtimes m) \<Longrightarrow> reverse_rt (rt m i) \<Longrightarrow> reverse_rt (f (rt m i))"
  shows "reverse_ok (upd_rt i f m)"
  using assms by (auto simp: reverse_ok_def reverse_px_def nth_update_if all_set_conv_all_nth)

lemma reverse_upd_px:
  assumes "reverse_ok m" "s < length (proxies m) \<Longrightarrow> reverse_px m (px m s) \<Longrightarrow> reverse_px m (f (px m s))"
  shows "reverse_ok (upd_px s f m)"
  using assms by (auto simp: reverse_ok_def reverse_px_def nth_update_if)

lemma reverse_simple [simp]:
  "reverse_ok (tm_emit e m) = reverse_ok m" "reverse_ok (remember_tunnel i m) = reverse_ok m" "reverse_ok (forget_tunnel i m) = reverse_ok m"
  "reverse_ok (scheduleTrafficEmit i m) = reverse_ok m" "reverse_ok (emit_traffic i m) = reverse_ok m"
  "reverse_ok (updateSocks5HandshakeTimeout v m) = reverse_ok m" "reverse_ok (dispose_conns cs m) = reverse_ok m"
  "reverse_ok (resolved_conn i sh m) = reverse_ok m" "reverse_ok (m\<lparr>tunnel_conns := ks\<rparr>) = reverse_ok m"
  by (simp_all add: reverse_ok_def reverse_px_def updateSocks5HandshakeTimeout_def)

lemma reverse_destroy [simp]: "reverse_ok (destroy_sockets ss m) = reverse_ok m"
proof -
  have "reverse_px (destroy_sockets ss m) (px (destroy_sockets ss m) s) = reverse_px m (px m s)" if "s < length (proxies m)" for s
    using that by (simp add: destroy_nth reverse_px_def)
  then show ?thesis by (auto simp: reverse_ok_def)
qed

lemma reverse_add_proxy: "reverse_ok m \<Longrightarrow> reverse_px m p \<Longrightarrow> reverse_ok (add_proxy p m)"
  by (auto simp: reverse_ok_def reverse_px_def nth_append less_Suc_eq)

lemma reverse_extend: "reverse_ok m \<Longrightarrow> reverse_rt r \<Longrightarrow> reverse_ok (m\<lparr>runtimes := runtimes m @ [r]\<rparr>)"
  by (auto simp: reverse_ok_def reverse_px_def nth_append less_SucI)

lemma reverse_start: "reverse_ok m \<Longrightarrow> reverse_ok (snd (tunnel_start p srv mode now m))"
proof -
  assume r: "reverse_ok m"
  have l: "upd_rt (length (runtimes m)) f (m\<lparr>runtimes := runtimes m @ [r]\<rparr>) = m\<lparr>runtimes := runtimes m @ [f r]\<rparr>" for f r
    by (simp add: upd_rt_def)
  show ?thesis
    using r by (auto simp: tunnel_start_def start_new_def startReverse_def Let_def l new_runtime_def reverse_rt_def
        intro!: reverse_extend split: option.split)
qed

lemma reverse_tracking [simp]:
  "reverse_rt (untrack_socket s r) = reverse_rt r" "reverse_rt (untrack_conn c r) = reverse_rt r" "reverse_rt (track_conn c r) = reverse_rt r"
  "rt_profile (untrack_socket s r) = rt_profile r" "rt_profile (untrack_conn c r) = rt_profile r" "rt_profile (track_conn c r) = rt_profile r"
  by (simp_all add: reverse_rt_def untrack_socket_def untrack_conn_def track_conn_def)

lemma reverse_getShared: "reverse_ok m \<Longrightarrow> reverse_ok (getOrCreateSharedConnection i m)"
  by (auto simp: getOrCreateSharedConnection_def Let_def reverse_rt_def track_conn_def intro!: reverse_upd_rt)

lemma getShared_profile [simp]: "rt_profile (rt (getOrCreateSharedConnection j m) i) = rt_profile (rt m i)"
  by (simp add: getOrCreateSharedConnection_def Let_def nth_update_if)

lemma getShared_proxies [simp]: "proxies (getOrCreateSharedConnection j m) = proxies m"
  by (simp add: getOrCreateSharedConnection_def Let_def)

lemma reverse_starting:
  assumes "reverse_ok m"
  shows "reverse_ok (listen_succeeds i m)" "reverse_ok (listener_fails i m)" "reverse_ok (start_connected i m)"
    "reverse_ok (start_connect_fails i m)" "reverse_ok (forward_granted i port m)" "reverse_ok (forward_refused i m)"
    "reverse_ok (start_closed i m)" "reverse_ok (count_in s n m)" "reverse_ok (count_out s n m)"
  using assms reverse_getShared [OF assms, of i]
  by (auto simp: listen_succeeds_def listener_fails_def start_connected_def start_connect_fails_def forward_granted_def
      forward_refused_def start_closed_def start_succeeds_def count_in_def count_out_def in_start_def Let_def reverse_rt_def nth_update_if
      intro!: reverse_upd_rt)


lemma reverse_get_connection:
  assumes "reverse_ok m" "\<not> is_reverse (rt m (px_tunnel (px m s)))"
  shows "reverse_ok (get_connection s m)"
  using assms by (auto simp: get_connection_def Let_def reverse_px_def intro!: reverse_upd_px)

lemma reverse_known: "reverse_ok m \<Longrightarrow> j < length (runtimes m) \<Longrightarrow> reverse_rt (rt m j)"
  by (simp add: reverse_ok_def)

lemma reverse_accept: "reverse_ok m \<Longrightarrow> reverse_ok (accept_socket i m)"
proof -
  assume r: "reverse_ok m"
  have n: "i < length (runtimes m) \<Longrightarrow> rt_listenerServer (rt m i) = Listening \<Longrightarrow> \<not> is_reverse (rt m i)"
    using reverse_known [OF r, of i] by (auto simp: reverse_rt_def)
  have u: "reverse_ok (upd_rt i (\<lambda>r. r\<lparr>rt_sockets := ss\<rparr>) m)" "reverse_ok (upd_rt i (\<lambda>r. r\<lparr>rt_sockets := rt_sockets r @ ss\<rparr>) m)" for ss
    using r by (auto simp: reverse_rt_def intro!: reverse_upd_rt)
  show ?thesis
    using r u n by (auto simp: accept_socket_def new_proxy_def Let_def reverse_px_def nth_append nth_update_if
        intro!: reverse_get_connection reverse_add_proxy)
qed

lemma reverse_fails: "reverse_ok m \<Longrightarrow> reverse_ok (release_failed i c m)" "reverse_ok m \<Longrightarrow> reverse_ok (proxy_fails s oc m)"
proof -
  show r: "reverse_ok m \<Longrightarrow> reverse_ok (release_failed i c m)" for i c m
    by (auto simp: release_failed_def reverse_rt_def untrack_conn_def intro!: reverse_upd_rt)
  show "reverse_ok m \<Longrightarrow> reverse_ok (proxy_fails s oc m)"
    by (auto simp: proxy_fails_def Let_def reverse_px_def intro!: reverse_upd_px reverse_upd_rt r split: option.split)
qed

lemma reverse_phase:
  assumes "reverse_ok m" "s < length (proxies m)" "px_phase (px m s) \<notin> {Proxying None, Served}"
  shows "\<not> is_reverse (rt m (px_tunnel (px m s)))"
  using assms by (auto simp: reverse_ok_def reverse_px_def)

lemma reverse_handshake: "reverse_ok m \<Longrightarrow> reverse_ok (handshake_settles s k m)"
proof -
  assume r: "reverse_ok m"
  have u: "reverse_ok (upd_px s (\<lambda>p. p\<lparr>px_socks := x\<rparr>) m)" "reverse_ok (upd_px s (\<lambda>p. p\<lparr>px_socks := x, px_dest := d\<rparr>) m)" for x d
    using r by (auto simp: reverse_px_def intro!: reverse_upd_px)
  show ?thesis
    using r u reverse_phase [OF r, of s]
    by (auto simp: handshake_settles_def in_proxy_def Let_def reverse_px_def nth_update_if
        intro!: reverse_get_connection reverse_fails reverse_upd_px reverse_upd_rt split: prod.split sum.split)
qed

lemma reverse_serving:
  assumes r: "reverse_ok m"
  shows "reverse_ok (proxy_connected s m)" "reverse_ok (proxy_connect_fails s m)" "reverse_ok (channel_opened s m)"
    "reverse_ok (channel_refused s m)" "reverse_ok (reverse_connection i dest taken m)"
proof -
  have "reverse_ok (upd_rt j (track_conn c) (resolved_conn j sh m))" for j c sh
    using r by (auto intro!: reverse_upd_rt)
  then show "reverse_ok (proxy_connected s m)"
    using r reverse_phase [OF r, of s] reverse_getShared [OF r, of "px_tunnel (px m s)"] gist_eqD(1) [OF gist_getShared]
    by (auto simp: proxy_connected_def in_proxy_def Let_def reverse_px_def nth_update_if intro!: reverse_upd_px)
  show "reverse_ok (proxy_connect_fails s m)" "reverse_ok (channel_refused s m)"
    using r by (auto simp: proxy_connect_fails_def channel_refused_def intro!: reverse_fails split: proxy_phase.split)
  show "reverse_ok (channel_opened s m)"
    using r by (auto simp: channel_opened_def reverse_px_def intro!: reverse_upd_px split: proxy_phase.split)
  show "reverse_ok (reverse_connection i dest taken m)"
    using r by (auto simp: reverse_connection_def handleReverseConnection_def new_proxy_def Let_def reverse_px_def reverse_rt_def
        nth_update_if intro!: reverse_add_proxy reverse_upd_rt)
qed

lemma reverse_cleanup: "reverse_ok m \<Longrightarrow> reverse_ok (cleanup s m)"
  by (auto simp: cleanup_def Let_def reverse_px_def intro!: reverse_upd_px reverse_upd_rt split: proxy_phase.split option.split)

lemma reverse_closes: "reverse_ok m \<Longrightarrow> reverse_ok (socket_closes s m)" "reverse_ok m \<Longrightarrow> reverse_ok (remote_closes s m)"
  by (auto simp: socket_closes_def remote_closes_def reverse_px_def intro!: reverse_cleanup reverse_upd_px)

lemma reverse_conn_closes: "reverse_ok m \<Longrightarrow> reverse_ok (conn_closes c m)"
  by (auto simp: conn_closes_def shared_closed_def Let_def reverse_rt_def untrack_conn_def intro!: reverse_upd_rt)

lemma reverse_releases: "reverse_ok m \<Longrightarrow> reverse_ok (stop_releases i m)"
  by (auto simp: stop_releases_def finish_stop_def Let_def reverse_rt_def nth_update_if intro!: reverse_upd_rt)

lemma reverse_stopping:
  "reverse_ok m \<Longrightarrow> reverse_ok (tunnel_stop i m)" "reverse_ok m \<Longrightarrow> reverse_ok (cancel_settles i m)" "reverse_ok m \<Longrightarrow> reverse_ok (stop_closed i m)"
  by (auto simp: tunnel_stop_def cancel_settles_def stop_closed_def finish_stop_def Let_def reverse_rt_def
      intro!: reverse_releases reverse_upd_rt)

lemma reverse_act: "a \<noteq> AStopAll \<Longrightarrow> reverse_ok m \<Longrightarrow> reverse_ok (tunnel_act a m)"
  by (cases a) (simp_all add: reverse_start reverse_starting reverse_accept reverse_handshake reverse_serving
      reverse_closes reverse_conn_closes reverse_stopping)

interpretation reversing: tunnel_invariant reverse_ok
  by unfold_locales (simp_all add: reverse_act, simp add: reverse_ok_def new_tunnel_manager_def)


section \<open>Connections out of reach\<close>

text \<open>A tunnel that is out of the maps and whose \<open>stop\<close> is not waiting any more stays so.\<close>

definition off :: "nat \<Rightarrow> tunnel_manager \<Rightarrow> bool" where
  "off i m \<longleftrightarrow> i < length (runtimes m) \<and> i \<notin> set (activeIds m)
     \<and> rt_start (rt m i) \<noteq> StartBinding \<and> rt_stop (rt m i) \<noteq> StopCancelling"

lemma off_gist: "gist m' = gist m \<Longrightarrow> off i m \<Longrightarrow> off i m'"
  using gist_rt [of m' m i] gist_eqD [of m' m] by (simp add: off_def)

lemma off_start: "off i m \<Longrightarrow> off i (snd (tunnel_start p srv mode now m))"
  by (auto simp: tunnel_start_def start_new_def startReverse_def off_def Let_def nth_append nth_update_if split: option.split)

lemma off_starting:
  assumes d: "off i m"
  shows "off i (listen_succeeds j m)" "off i (listener_fails j m)"
    "off i (start_connect_fails j m)" "off i (forward_granted j port m)" "off i (forward_refused j m)"
    "off i (start_closed j m)" "off i (count_in s n m)" "off i (count_out s n m)"
    "off i (emit_traffic j m)" "off i (stop_closed j m)"
  using d by (auto simp: off_def listen_succeeds_def listener_fails_def start_connect_fails_def stop_closed_def finish_stop_def
      forward_granted_def forward_refused_def start_closed_def start_succeeds_def in_start_def count_in_def count_out_def Let_def nth_update_if)

lemma off_connected: "off i m \<Longrightarrow> off i (start_connected j m)"
proof -
  assume d: "off i m"
  then have "off i (getOrCreateSharedConnection j m)" by (rule off_gist [rotated]) simp
  then show ?thesis
    using d by (auto simp: start_connected_def start_succeeds_def off_def in_start_def Let_def nth_update_if)
qed

lemma off_releases: "off i m \<Longrightarrow> j \<noteq> i \<Longrightarrow> off i (stop_releases j m)"
proof -
  assume d: "off i m" and j: "j \<noteq> i"
  have "off i (release_all j m)" using d by (rule off_gist [rotated]) simp
  then show ?thesis using j by (auto simp: stop_releases_alt finish_stop_def off_def nth_update_if)
qed

lemma off_stop: "off i m \<Longrightarrow> off i (tunnel_stop j m)"
proof -
  assume d: "off i m"
  let ?m = "upd_rt j (\<lambda>r. r\<lparr>isStopping := True, rt_subscribed := False\<rparr>) (forget_tunnel j m)"
  have "j \<in> set (activeIds m) \<Longrightarrow> j \<noteq> i" "off i ?m" using d by (auto simp: off_def nth_update_if)
  then show ?thesis
    using off_releases [of i ?m j] d by (auto simp: tunnel_stop_def Let_def off_def nth_update_if)
qed

lemma off_cancel: "off i m \<Longrightarrow> off i (cancel_settles j m)"
  using off_releases [of i m j] by (auto simp: cancel_settles_def off_def)

lemma off_act: "a \<noteq> AStopAll \<Longrightarrow> off i m \<Longrightarrow> off i (tunnel_act a m)"
  by (cases a) (auto simp: off_start off_starting off_connected off_stop off_cancel
      intro: off_gist gist_serving)

text \<open>Whose handlers hold the connection: only those of the sockets in \<open>S\<close>, which have closed.\<close>

definition held_by :: "nat \<Rightarrow> nat set \<Rightarrow> tunnel_manager \<Rightarrow> bool" where
  "held_by c S m \<longleftrightarrow> (\<forall>s<length (proxies m). holds_conn c (px_phase (px m s)) \<longrightarrow> s \<in> S \<and> px_closed (px m s))"

lemma held_parts [simp]:
  "held_by c S (upd_rt j f m) = held_by c S m" "held_by c S (tm_emit e m) = held_by c S m"
  "held_by c S (remember_tunnel j m) = held_by c S m" "held_by c S (forget_tunnel j m) = held_by c S m"
  "held_by c S (dispose_conns cs m) = held_by c S m"
  "held_by c S (scheduleTrafficEmit j m) = held_by c S m" "held_by c S (emit_traffic j m) = held_by c S m"
  "held_by c S (m\<lparr>runtimes := rs\<rparr>) = held_by c S m" "held_by c S (updateSocks5HandshakeTimeout v m) = held_by c S m"
  "held_by c S (resolved_conn j sh m) = held_by c S m" "held_by c S (m\<lparr>tunnel_conns := ks\<rparr>) = held_by c S m"
  "held_by c S (getOrCreateSharedConnection j m) = held_by c S m"
  by (simp_all add: held_by_def updateSocks5HandshakeTimeout_def)

lemma held_destroy [simp]: "held_by c S (destroy_sockets ss m) = held_by c S m"
  by (auto simp: held_by_def destroy_nth)

lemma held_upd_px:
  assumes "held_by c S m"
    and "s < length (proxies m) \<Longrightarrow> holds_conn c (px_phase (f (px m s))) \<Longrightarrow> holds_conn c (px_phase (px m s))"
    and "\<And>p. px_closed p \<Longrightarrow> px_closed (f p)"
  shows "held_by c S (upd_px s f m)"
  using assms by (auto simp: held_by_def nth_update_if)

lemma held_add: "held_by c S m \<Longrightarrow> \<not> holds_conn c (px_phase p) \<Longrightarrow> held_by c S (add_proxy p m)"
  by (auto simp: held_by_def nth_append less_Suc_eq)

lemma held_get_connection:
  assumes "held_by c S m" "rt_sharedConnection (rt m (px_tunnel (px m s))) \<noteq> Some c"
  shows "held_by c S (get_connection s m)"
  unfolding get_connection_def Let_def using assms by (intro held_upd_px) (auto split: option.splits if_splits)

lemma held_fails: "held_by c S (release_failed i d m) = held_by c S m" "held_by c S m \<Longrightarrow> held_by c S (proxy_fails s oc m)"
proof -
  show r: "held_by c S (release_failed i d m) = held_by c S m" for i d m by (simp add: release_failed_def)
  show "held_by c S m \<Longrightarrow> held_by c S (proxy_fails s oc m)"
    by (auto simp: proxy_fails_def Let_def r intro!: held_upd_px split: option.split)
qed

lemma held_cleanup: "held_by c S m \<Longrightarrow> held_by c S (cleanup s m)"
  by (auto simp: cleanup_def Let_def intro!: held_upd_px split: proxy_phase.split option.split)


text \<open>The shared connection of a runtime is replaced by a new one only.\<close>

lemma shared_getShared:
  "c < length (tunnel_conns m) \<Longrightarrow> rt_sharedConnection (rt (getOrCreateSharedConnection j m) i) = Some c \<Longrightarrow>
    rt_sharedConnection (rt m i) = Some c"
  by (auto simp: getOrCreateSharedConnection_def track_conn_def Let_def nth_update_if split: if_splits)

lemma shared_tracking [simp]:
  "rt_sharedConnection (untrack_socket s r) = rt_sharedConnection r" "rt_sharedConnection (untrack_conn c r) = rt_sharedConnection r"
  "rt_sharedConnection (track_conn c r) = rt_sharedConnection r"
  by (simp_all add: untrack_socket_def untrack_conn_def track_conn_def)

definition shared_kept :: "nat \<Rightarrow> nat \<Rightarrow> tunnel_manager \<Rightarrow> tunnel_manager \<Rightarrow> bool" where
  "shared_kept i c m m' \<longleftrightarrow> (rt_sharedConnection (rt m' i) = Some c \<longrightarrow> rt_sharedConnection (rt m i) = Some c)"

lemma shared_parts:
  "shared_kept i c m m" "shared_kept i c m (upd_px s f m') = shared_kept i c m m'" "shared_kept i c m (tm_emit e m') = shared_kept i c m m'"
  "shared_kept i c m (dispose_conns cs m') = shared_kept i c m m'" "shared_kept i c m (destroy_sockets ss m') = shared_kept i c m m'"
  "shared_kept i c m (add_proxy p m') = shared_kept i c m m'" "shared_kept i c m (remember_tunnel j m') = shared_kept i c m m'"
  "shared_kept i c m (forget_tunnel j m') = shared_kept i c m m'" "shared_kept i c m (scheduleTrafficEmit j m') = shared_kept i c m m'"
  "shared_kept i c m (emit_traffic j m') = shared_kept i c m m'" "shared_kept i c m (m'\<lparr>tunnel_conns := ks\<rparr>) = shared_kept i c m m'"
  "shared_kept i c m (resolved_conn j sh m') = shared_kept i c m m'" "shared_kept i c m (get_connection s m') = shared_kept i c m m'"
  "shared_kept i c m (updateSocks5HandshakeTimeout v m') = shared_kept i c m m'"
  by (simp_all add: shared_kept_def get_connection_def updateSocks5HandshakeTimeout_def Let_def)

lemma shared_upd_rt:
  "shared_kept i c m m' \<Longrightarrow> (\<And>r. rt_sharedConnection (f r) = Some c \<Longrightarrow> rt_sharedConnection r = Some c) \<Longrightarrow> shared_kept i c m (upd_rt j f m')"
  by (auto simp: shared_kept_def nth_update_if split: if_splits)

lemma shared_get: "c < length (tunnel_conns m) \<Longrightarrow> shared_kept i c m (getOrCreateSharedConnection j m)"
  using shared_getShared by (auto simp: shared_kept_def)

lemma shared_fails: "shared_kept i c m m' \<Longrightarrow> shared_kept i c m (release_failed j d m')" 
  "shared_kept i c m m' \<Longrightarrow> shared_kept i c m (proxy_fails s oc m')"
proof -
  show r: "shared_kept i c m m' \<Longrightarrow> shared_kept i c m (release_failed j d m')" for j d m'
    by (auto simp: release_failed_def shared_parts intro!: shared_upd_rt)
  show "shared_kept i c m m' \<Longrightarrow> shared_kept i c m (proxy_fails s oc m')"
    by (auto simp: proxy_fails_def Let_def shared_parts intro!: r shared_upd_rt split: option.split)
qed

lemma shared_cleanup: "shared_kept i c m m' \<Longrightarrow> shared_kept i c m (cleanup s m')"
  by (auto simp: cleanup_def Let_def shared_parts intro!: shared_upd_rt split: proxy_phase.split option.split)

lemma shared_releases: "shared_kept i c m m' \<Longrightarrow> shared_kept i c m (stop_releases j m')"
  by (auto simp: stop_releases_def finish_stop_def Let_def shared_parts intro!: shared_upd_rt)

lemma shared_start: "i < length (runtimes m) \<Longrightarrow> shared_kept i c m (snd (tunnel_start p srv mode now m))"
  by (auto simp: tunnel_start_def start_new_def startReverse_def shared_kept_def Let_def nth_append nth_update_if split: option.split)

lemma shared_conn_closes: "shared_kept i c m (conn_closes d m)"
proof -
  let ?f = "\<lambda>r. untrack_conn d (if rt_sharedConnection r = Some d then r\<lparr>rt_sharedConnection := None\<rparr> else r)"
  have "shared_kept i c m (upd_rt j ?f (m\<lparr>tunnel_conns := ks\<rparr>))" for j ks
    by (rule shared_upd_rt) (simp_all add: shared_parts split: if_split_asm)
  then show ?thesis by (auto simp: conn_closes_def shared_closed_def Let_def shared_parts)
qed

lemma shared_act:
  assumes "a \<noteq> AStopAll" "i < length (runtimes m)" "c < length (tunnel_conns m)"
  shows "shared_kept i c m (tunnel_act a m)"
  using assms(1) shared_start [OF assms(2)] shared_get [OF assms(3)] shared_parts(1) [of i c m]
  by (cases a)
     (auto simp: listen_succeeds_def listener_fails_def start_connected_def start_connect_fails_def forward_granted_def
      forward_refused_def start_closed_def start_succeeds_def accept_socket_def handshake_settles_def proxy_connected_def
      proxy_connect_fails_def channel_opened_def channel_refused_def reverse_connection_def handleReverseConnection_def
      socket_closes_def remote_closes_def shared_conn_closes count_in_def count_out_def tunnel_stop_def
      cancel_settles_def stop_closed_def finish_stop_def Let_def shared_parts
      intro!: shared_upd_rt shared_fails shared_cleanup shared_releases split: proxy_phase.split prod.split sum.split)


definition adrift :: "nat \<Rightarrow> nat \<Rightarrow> nat set \<Rightarrow> tunnel_manager \<Rightarrow> bool" where
  "adrift i c S m \<longleftrightarrow>
     conns_owned m \<and> phases_ok m \<and> off i m \<and> held_by c S m \<and> c \<in> open_of i m
     \<and> (rt_sharedConnection (rt m i) = Some c \<longrightarrow> waiting_of i m = {})"

text \<open>The actions that can end such a connection.\<close>

definition ends_conn :: "nat \<Rightarrow> nat set \<Rightarrow> tunnel_action set" where
  "ends_conn c S = insert (AConnCloses c) (ARemoteCloses ` S \<union> ARefused ` S)"

lemma adrift_owner: "adrift i c S m \<Longrightarrow> conn_for m c i \<and> c < length (tunnel_conns m)"
  by (simp add: adrift_def open_of_def conn_for_def)

lemma adrift_holder:
  assumes "adrift i c S m" "s < length (proxies m)" "holds_conn c (px_phase (px m s))"
  shows "s \<in> S \<and> px_closed (px m s)"
  using assms by (auto simp: adrift_def held_by_def)

lemma adrift_shared:
  assumes "adrift i c S m" "j < length (runtimes m)" "rt_sharedConnection (rt m j) = Some c"
  shows "j = i \<and> waiting_of i m = {}"
proof -
  have "conn_for m c j" using assms by (auto simp: adrift_def conns_owned_def rt_owned_def)
  with assms adrift_owner [OF assms(1)] show ?thesis by (auto simp: adrift_def conn_for_def)
qed

lemma held_accept:
  assumes "adrift i c S m" shows "held_by c S (accept_socket j m)"
proof -
  have h: "held_by c S m" and o: "i \<notin> set (activeIds m)" using assms by (simp_all add: adrift_def off_def)
  have "rt_sharedConnection (rt m j) \<noteq> Some c" if "j < length (runtimes m)" "j \<in> set (activeIds m)"
    using adrift_shared [OF assms that(1)] o that(2) by auto
  with h show ?thesis
    by (auto simp: accept_socket_def new_proxy_def Let_def nth_append nth_update_if intro!: held_get_connection held_add)
qed

lemma held_handshake:
  assumes "adrift i c S m" shows "held_by c S (handshake_settles s k m)"
proof (cases "in_proxy s Handshaking m")
  case True
  have h: "held_by c S m" using assms by (simp add: adrift_def)
  have t: "px_tunnel (px m s) < length (runtimes m)"
    using assms True by (auto simp: adrift_def conns_owned_def px_owned_def in_proxy_def)
  have n: "rt_sharedConnection (rt m (px_tunnel (px m s))) \<noteq> Some c"
    using adrift_shared [OF assms t] True is_waiting.simps(1) by (force simp: waiting_of_def in_proxy_def)
  have u: "held_by c S (upd_px s (\<lambda>p. p\<lparr>px_socks := x\<rparr>) m)" "held_by c S (upd_px s (\<lambda>p. p\<lparr>px_socks := x, px_dest := d\<rparr>) m)" for x d
    using h by (auto intro!: held_upd_px)
  show ?thesis
    using True n h u
    by (auto simp: handshake_settles_def in_proxy_def Let_def intro!: held_get_connection held_fails held_upd_px
        split: prod.split sum.split)
qed (use assms in \<open>simp add: handshake_settles_def adrift_def\<close>)

lemma held_connected:
  assumes "adrift i c S m" shows "held_by c S (proxy_connected s m)"
  using assms adrift_owner [OF assms]
  by (auto simp: adrift_def proxy_connected_def Let_def intro!: held_upd_px)

lemma held_act:
  assumes "a \<noteq> AStopAll" "adrift i c S m" shows "held_by c S (tunnel_act a m)"
proof -
  have h: "held_by c S m" using assms by (simp add: adrift_def)
  show ?thesis
    using assms(1) h held_accept [OF assms(2)] held_handshake [OF assms(2)] held_connected [OF assms(2)]
    by (cases a)
     (auto simp: tunnel_start_def start_new_def startReverse_def listen_succeeds_def listener_fails_def start_connected_def
      start_connect_fails_def forward_granted_def forward_refused_def start_closed_def start_succeeds_def
      proxy_connect_fails_def channel_opened_def channel_refused_def reverse_connection_def handleReverseConnection_def
      socket_closes_def remote_closes_def conn_closes_def shared_closed_def count_in_def count_out_def tunnel_stop_def
      cancel_settles_def stop_closed_def stop_releases_def finish_stop_def new_proxy_def Let_def
      intro!: held_upd_px held_fails held_cleanup held_add split: proxy_phase.split option.split if_splits)
qed


lemma open_more:
  "c \<in> open_of i m \<Longrightarrow> c \<in> open_of i (resolved_conn j sh m)" "c \<in> open_of i m \<Longrightarrow> c \<in> open_of i (getOrCreateSharedConnection j m)"
proof -
  show r: "c \<in> open_of i m \<Longrightarrow> c \<in> open_of i (resolved_conn j sh m)" for j sh
    by (auto simp: open_of_def nth_append)
  then show "c \<in> open_of i m \<Longrightarrow> c \<in> open_of i (getOrCreateSharedConnection j m)"
    by (simp add: getOrCreateSharedConnection_def Let_def)
qed

lemma open_fails_kept: "c \<in> open_of i m \<Longrightarrow> oc \<noteq> Some c \<Longrightarrow> c \<in> open_of i (proxy_fails s oc m)"
  by (auto simp: proxy_fails_def release_failed_def Let_def split: option.split)

lemma open_cleanup_kept: "c \<in> open_of i m \<Longrightarrow> px_phase (px m s) \<noteq> Proxying (Some c) \<Longrightarrow> c \<in> open_of i (cleanup s m)"
  by (auto simp: cleanup_def Let_def split: proxy_phase.split option.split)

lemma open_other_closes: "c \<in> open_of i m \<Longrightarrow> d \<noteq> c \<Longrightarrow> c \<in> open_of i (conn_closes d m)"
  by (auto simp: conn_closes_def shared_closed_def Let_def open_of_def nth_update_if)

lemma open_releases_kept: "c \<in> open_of i m \<Longrightarrow> c \<notin> set (rt_sshConnections (rt m j)) \<Longrightarrow> c \<in> open_of i (stop_releases j m)"
  by (auto simp: stop_releases_def finish_stop_def Let_def)

lemma adrift_releases:
  assumes "adrift i c S m" "j < length (runtimes m)" "j \<noteq> i"
  shows "c \<notin> set (rt_sshConnections (rt m j))"
  using assms adrift_owner [OF assms(1)] by (auto simp: adrift_def conns_owned_def rt_owned_def conn_for_def)

lemma open_stop_kept:
  assumes a: "adrift i c S m" shows "c \<in> open_of i (tunnel_stop j m)" "c \<in> open_of i (cancel_settles j m)"
proof -
  let ?m = "upd_rt j (\<lambda>r. r\<lparr>isStopping := True, rt_subscribed := False\<rparr>) (forget_tunnel j m)"
  have o: "c \<in> open_of i m" "phases_ok m" "off i m" using a by (simp_all add: adrift_def)
  have j: "j < length (runtimes m)" "j \<noteq> i" if "j \<in> set (activeIds m)"
    using that o phases_known(1) by (auto simp: off_def)
  have "c \<notin> set (rt_sshConnections (rt ?m j))" if "j \<in> set (activeIds m)"
    using adrift_releases [OF a j [OF that]] j [OF that] by simp
  then show "c \<in> open_of i (tunnel_stop j m)"
    using o(1) open_releases_kept [of c i ?m j] by (auto simp: tunnel_stop_def Let_def)
  have "c \<notin> set (rt_sshConnections (rt m j))" if "j < length (runtimes m)" "rt_stop (rt m j) = StopCancelling"
    using adrift_releases [OF a that(1)] that(2) o(3) by (auto simp: off_def)
  then show "c \<in> open_of i (cancel_settles j m)"
    using o(1) by (auto simp: cancel_settles_def intro: open_releases_kept)
qed

lemma open_closes_kept:
  assumes a: "adrift i c S m"
  shows "c \<in> open_of i (socket_closes s m)" "s \<notin> S \<Longrightarrow> c \<in> open_of i (remote_closes s m)" "s \<notin> S \<Longrightarrow> c \<in> open_of i (channel_refused s m)"
proof -
  have o: "c \<in> open_of i m" using a by (simp add: adrift_def)
  show "c \<in> open_of i (socket_closes s m)"
    using o adrift_holder [OF a, of s] by (auto simp: socket_closes_def nth_update_if intro!: open_cleanup_kept)
  show "s \<notin> S \<Longrightarrow> c \<in> open_of i (remote_closes s m)" "s \<notin> S \<Longrightarrow> c \<in> open_of i (channel_refused s m)"
    using o adrift_holder [OF a, of s]
    by (auto simp: remote_closes_def channel_refused_def intro!: open_cleanup_kept open_fails_kept split: proxy_phase.split)
qed

lemma open_handshake_kept: "c \<in> open_of i m \<Longrightarrow> c \<in> open_of i (handshake_settles s k m)"
  by (auto simp: handshake_settles_def Let_def intro!: open_fails_kept split: prod.split sum.split)

lemma open_act_kept:
  assumes "a \<noteq> AStopAll" "adrift i c S m" "a \<notin> ends_conn c S"
  shows "c \<in> open_of i (tunnel_act a m)"
proof -
  have o: "c \<in> open_of i m" using assms(2) by (simp add: adrift_def)
  show ?thesis
    using assms(1,3) o open_stop_kept [OF assms(2)] open_closes_kept [OF assms(2)]
    by (cases a)
     (auto simp: ends_conn_def tunnel_start_def start_new_def startReverse_def listen_succeeds_def listener_fails_def start_connected_def
      start_connect_fails_def forward_granted_def forward_refused_def start_closed_def accept_socket_def proxy_connected_def
      proxy_connect_fails_def channel_opened_def reverse_connection_def handleReverseConnection_def count_in_def count_out_def
      stop_closed_def finish_stop_def Let_def open_more open_other_closes open_handshake_kept image_iff
      intro!: open_fails_kept split: proxy_phase.split option.split)
qed

lemma adrift_act:
  assumes "a \<noteq> AStopAll" "adrift i c S m" "a \<notin> ends_conn c S"
  shows "adrift i c S (tunnel_act a m)"
proof -
  note k = adrift_owner [OF assms(2)]
  have "rt_sharedConnection (rt (tunnel_act a m) i) = Some c \<Longrightarrow> waiting_of i (tunnel_act a m) = {}"
    using shared_act [OF assms(1), of i m c] waiting_act [of i m a] assms(1,2) k
    by (auto simp: adrift_def off_def shared_kept_def)
  then show ?thesis
    using assms held_act [OF assms(1,2)] open_act_kept [OF assms] owned_act [OF assms(1)] phases_act [OF assms(1)]
      off_act [OF assms(1)]
    by (simp add: adrift_def)
qed

lemma adrift_acts:
  assumes "adrift i c S m" "set bs \<inter> ends_conn c S = {}"
  shows "adrift i c S (fold tunnel_act bs m)"
  using assms
proof (induction bs arbitrary: m)
  case (Cons a bs)
  have stops: "adrift i c S (fold tunnel_stop js m)" if "adrift i c S m" for js m
    using that
  proof (induction js arbitrary: m)
    case (Cons j js)
    then show ?case using adrift_act [of "AStop j" i c S m] by (auto simp: ends_conn_def)
  qed simp
  have "adrift i c S (tunnel_act a m)"
    using Cons.prems adrift_act [of a i c S m] stops by (cases "a = AStopAll") (auto simp: tunnel_stopAll_def)
  with Cons show ?case by simp
qed simp


section \<open>Properties\<close>

lemma refused_adrift:
  assumes "conns_owned m" "phases_ok m" "reverse_ok m" "i \<in> set (activeIds m)" "in_start i StartForwarding m" "c \<in> open_of i m"
  shows "adrift i c {} (forward_refused i m)"
proof -
  have i: "i < length (runtimes m)" using assms(5) by (simp add: in_start_def)
  have "is_reverse (rt m i)" using reverse_known [OF assms(3) i] assms(5) by (simp add: reverse_rt_def in_start_def)
  then have p: "px_phase (px m s) \<in> {Proxying None, Served}" if "s < length (proxies m)" "px_tunnel (px m s) = i" for s
    using assms(3) that by (auto simp: reverse_ok_def reverse_px_def)
  have "waiting_of i m = {}" using p is_waiting.simps(5,6) by (force simp: waiting_of_def)
  moreover have "held_by c {} m"
    using assms(1,6) p by (fastforce simp: held_by_def conns_owned_def px_owned_def conn_for_def open_of_def)
  moreover have "rt_stop (rt m i) = NotStopped" using phases_known(2) [OF assms(2) i] assms(4) by (simp add: phase_ok_def)
  ultimately show ?thesis
    using assms i owned_starting(6) [OF assms(1), of i] phases_starting(5) [OF assms(2), of i]
    by (auto simp: adrift_def off_def forward_refused_def)
qed

text \<open>
  C22. In any run, when the server refuses the forwarding a reverse tunnel has asked for, the start
  fails and the tunnel leaves the maps, but its connection stays open through every continuation in
  which the connection is not closed from outside, also one with any calls of \<open>stop\<close> and \<open>stopAll\<close>, and
  the tunnel never gets back into the map.
\<close>

theorem refused_forward_left_open:
  assumes "m = tunnel_run v as" and "i \<in> set (activeIds m)" and "in_start i StartForwarding m"
    and "c \<in> open_of i m" and "AConnCloses c \<notin> set bs"
  shows "rt_start (rt (forward_refused i m) i) = StartFailed
    \<and> i \<notin> set (activeIds (fold tunnel_act bs (forward_refused i m)))
    \<and> c \<in> open_of i (fold tunnel_act bs (forward_refused i m))"
proof -
  have "adrift i c {} (forward_refused i m)"
    using assms(2-4) unfolding assms(1)
    by (intro refused_adrift) (simp_all add: owning.inv_run phases.inv_run reversing.inv_run)
  then have "adrift i c {} (fold tunnel_act bs (forward_refused i m))"
    by (rule adrift_acts) (use assms(5) in \<open>auto simp: ends_conn_def\<close>)
  moreover have "rt_start (rt (forward_refused i m) i) = StartFailed"
    using assms(3) by (simp add: forward_refused_def in_start_def)
  ultimately show ?thesis by (simp add: adrift_def off_def)
qed

lemma refused_example:
  "activeIds (tunnel_run v [AStart (example_tunnel ReverseTunnel) srv mode now, AStartConnected 0]) = [0]"
  "in_start 0 StartForwarding (tunnel_run v [AStart (example_tunnel ReverseTunnel) srv mode now, AStartConnected 0])"
  "0 \<in> open_of 0 (tunnel_run v [AStart (example_tunnel ReverseTunnel) srv mode now, AStartConnected 0])"
  by (auto simp: tunnel_example_defs)

theorem refused_forward_left_open_witness:
  "0 \<in> open_of 0 (fold tunnel_act [AStop 0, AStart (example_tunnel ReverseTunnel) ''srv'' None 9, AStopAll]
     (forward_refused 0 (tunnel_run (Finite 5000) [AStart (example_tunnel ReverseTunnel) ''srv'' None 0, AStartConnected 0])))"
  using refused_forward_left_open [OF refl, of 0 "Finite 5000" "[AStart (example_tunnel ReverseTunnel) ''srv'' None 0, AStartConnected 0]"
      0 "[AStop 0, AStart (example_tunnel ReverseTunnel) ''srv'' None 9, AStopAll]"] refused_example
  by simp

lemma late_adrift:
  assumes "conns_owned m" "phases_ok m" "in_proxy s AwaitingIsolated m" "px_closed (px m s)" "i = px_tunnel (px m s)"
    and "rt_stop (rt m i) \<in> {StopClosing, StopDone}"
  shows "adrift i (length (tunnel_conns m)) {s} (proxy_connected s m)"
proof -
  let ?c = "length (tunnel_conns m)"
  have i: "i < length (runtimes m)" using assms(1,3,5) by (auto simp: conns_owned_def px_owned_def in_proxy_def)
  have p: "phase_ok (i \<in> set (activeIds m)) (rt m i)" using phases_known(2) [OF assms(2) i] .
  then have off: "off i m" using assms(6) i by (auto simp: off_def phase_ok_def)
  have "\<not> holds_conn ?c (px_phase (px m t))" if "t < length (proxies m)" for t
    using assms(1) that by (fastforce simp: conns_owned_def px_owned_def conn_for_def)
  then have "held_by ?c {s} (proxy_connected s m)"
    using assms(3,4) by (auto simp: held_by_def proxy_connected_def in_proxy_def Let_def nth_update_if)
  moreover have "rt_sharedConnection (rt (proxy_connected s m) i) \<noteq> Some ?c"
    using assms(1,3) i by (auto simp: conns_owned_def rt_owned_def conn_for_def proxy_connected_def in_proxy_def Let_def nth_update_if)
  moreover have "?c \<in> open_of i (proxy_connected s m)"
    using assms(3,5) by (auto simp: proxy_connected_def in_proxy_def Let_def open_of_def nth_append)
  ultimately show ?thesis
    using off off_gist [OF gist_proxy(1) off] owned_proxy_connected [OF assms(1)] phases_gist [OF gist_proxy(1) assms(2)]
    by (simp add: adrift_def)
qed

text \<open>
  C23. In any run, a connection that arrives for a socket which has closed meanwhile, on behalf of a
  tunnel in isolated mode whose \<open>stop\<close> has released its resources, stays open through every continuation
  in which neither the connection nor the remote end of its channel is closed from outside and its
  channel is not refused: the handler goes on although the socket is gone, and neither \<open>stop\<close> nor \<open>stopAll\<close>
  reaches the connection. A later end of the remote stream is what disposes of it.
\<close>

theorem late_connection_left_open:
  assumes "m = tunnel_run v as" and "in_proxy s AwaitingIsolated m" and "px_closed (px m s)"
    and "i = px_tunnel (px m s)" and "rt_stop (rt m i) \<in> {StopClosing, StopDone}"
    and "rt_connectionMode (rt m i) = IsolatedMode"
    and "c = length (tunnel_conns m)" and "set bs \<inter> {AConnCloses c, ARemoteCloses s, ARefused s} = {}"
  shows "c \<in> open_of i (fold tunnel_act bs (proxy_connected s m))
    \<and> i \<notin> set (activeIds (fold tunnel_act bs (proxy_connected s m)))
    \<and> c \<notin> open_of i (remote_closes s (channel_opened s (proxy_connected s m)))"
proof -
  have a: "adrift i c {s} (proxy_connected s m)"
    using assms(2-5) unfolding assms(1,7) by (intro late_adrift) (simp_all add: owning.inv_run phases.inv_run)
  have "adrift i c {s} (fold tunnel_act bs (proxy_connected s m))"
    by (rule adrift_acts [OF a]) (use assms(8) in \<open>auto simp: ends_conn_def\<close>)
  moreover have "c \<notin> open_of i (remote_closes s (channel_opened s (proxy_connected s m)))"
    using assms(2,4,6,7)
    by (auto simp: remote_closes_def channel_opened_def proxy_connected_def in_proxy_def cleanup_def Let_def nth_update_if track_conn_def)
  ultimately show ?thesis by (simp add: adrift_def off_def)
qed

abbreviation late_actions :: "tunnel_action list" where
  "late_actions \<equiv> [AStart (example_tunnel LocalTunnel) ''srv'' None 0, AListening 0, AAccept 0, AStop 0, ASocketCloses 0, AStopClosed 0]"

lemma late_example:
  "in_proxy 0 AwaitingIsolated (tunnel_run v late_actions)" "px_closed (px (tunnel_run v late_actions) 0)"
  "px_tunnel (px (tunnel_run v late_actions) 0) = 0" "rt_stop (rt (tunnel_run v late_actions) 0) = StopDone"
  "rt_connectionMode (rt (tunnel_run v late_actions) 0) = IsolatedMode" "tunnel_conns (tunnel_run v late_actions) = []"
  by (simp_all add: tunnel_example_defs)

theorem late_connection_left_open_witness:
  "0 \<in> open_of 0 (fold tunnel_act [AOpened 0, AStop 0, AStopAll] (proxy_connected 0 (tunnel_run (Finite 5000) late_actions)))"
  using late_connection_left_open [OF refl, of 0 "Finite 5000" late_actions 0 0 "[AOpened 0, AStop 0, AStopAll]"] late_example [of "Finite 5000"]
  by simp

text \<open>
  The same happens to the shared connection a start was waiting for when its tunnel was stopped; the
  start then announces the tunnel after its end.
\<close>

lemma late_start_left_open:
  assumes "m = tunnel_run v as" and "in_start i StartConnecting m" and "\<not> is_reverse (rt m i)"
    and "rt_stop (rt m i) \<in> {StopClosing, StopDone}" and "waiting_of i m = {}"
    and "c = length (tunnel_conns m)" and "AConnCloses c \<notin> set bs"
  shows "last (tunnel_events (start_connected i m)) = TunnelStarted i
    \<and> c \<in> open_of i (fold tunnel_act bs (start_connected i m))
    \<and> i \<notin> set (activeIds (fold tunnel_act bs (start_connected i m)))"
proof -
  have o: "conns_owned m" "phases_ok m" unfolding assms(1) by (simp_all add: owning.inv_run phases.inv_run)
  have i: "i < length (runtimes m)" using assms(2) by (simp add: in_start_def)
  have off: "off i m" using phases_known(2) [OF o(2) i] assms(4) i by (auto simp: off_def phase_ok_def)
  have "\<not> holds_conn c (px_phase (px m t))" if "t < length (proxies m)" for t
    using o(1) that assms(6) by (fastforce simp: conns_owned_def px_owned_def conn_for_def)
  then have "held_by c {} (start_connected i m)"
    using assms(2) by (simp add: start_connected_def start_succeeds_def Let_def) (simp add: held_by_def)
  moreover have "c \<in> open_of i (start_connected i m)"
    using assms(2,6) by (auto simp: start_connected_def start_succeeds_def getOrCreateSharedConnection_def in_start_def Let_def open_of_def nth_append)
  moreover have "waiting_of i (start_connected i m) = {}" using assms(5) by (simp add: waiting_same)
  ultimately have "adrift i c {} (start_connected i m)"
    using o owned_starting(3) phases_starting(2) off_connected [OF off] by (simp add: adrift_def)
  then have "adrift i c {} (fold tunnel_act bs (start_connected i m))"
    by (rule adrift_acts) (use assms(7) in \<open>auto simp: ends_conn_def\<close>)
  moreover have "last (tunnel_events (start_connected i m)) = TunnelStarted i"
    using assms(2,3) by (simp add: start_connected_def start_succeeds_def in_start_def Let_def)
  ultimately show ?thesis by (simp add: adrift_def off_def)
qed

end
