(* ===== verification/Tunnel_Registry.thy ===== *)
theory Tunnel_Registry
  imports Tunnel_Manager
begin

text \<open>
  The registry through which several windows know of each other's tunnels:
  \<open>src/src/services/tunnel/tunnelRegistrySync.ts\<close> over the store of
  \<open>src/src/storage/vscodeTunnelRegistryStore.ts\<close>. Every operation reads the whole list of entries, computes
  and writes the whole list back; nothing keeps two windows from doing so at the same time. Whether a port
  answers on the local host is a parameter.
\<close>

section \<open>Entries\<close>

record tunnel_route =
  re_profileId :: string
  re_serverId :: string
  re_localPort :: nat
  re_remoteIP :: string
  re_remotePort :: nat
  re_connectionMode :: connection_mode
  re_tunnelType :: tunnel_type
  re_remoteBindAddress :: "string option"
  re_localTargetIP :: "string option"
  re_startedAt :: nat

record registry_entry = tunnel_route +
  ownerSessionId :: string
  lastSeen :: "nat option"

definition STALE_THRESHOLD_MS :: nat where "STALE_THRESHOLD_MS = 30000"

definition registry_entry_of :: "string \<Rightarrow> nat \<Rightarrow> tunnel_route \<Rightarrow> registry_entry" where
  "registry_entry_of sid now t =
     \<lparr>re_profileId = re_profileId t, re_serverId = re_serverId t, re_localPort = re_localPort t,
      re_remoteIP = re_remoteIP t, re_remotePort = re_remotePort t, re_connectionMode = re_connectionMode t,
      re_tunnelType = re_tunnelType t, re_remoteBindAddress = re_remoteBindAddress t,
      re_localTargetIP = re_localTargetIP t, re_startedAt = re_startedAt t, ownerSessionId = sid, lastSeen = Some now\<rparr>"

section \<open>What the operations write\<close>

definition registerTunnelEntry :: "string \<Rightarrow> nat \<Rightarrow> tunnel_route \<Rightarrow> registry_entry list \<Rightarrow> registry_entry list" where
  "registerTunnelEntry sid now t es = es @ [registry_entry_of sid now t]"

definition unregisterTunnelEntry :: "string \<Rightarrow> string \<Rightarrow> registry_entry list \<Rightarrow> registry_entry list" where
  "unregisterTunnelEntry sid p es = filter (\<lambda>e. \<not> (ownerSessionId e = sid \<and> re_profileId e = p)) es"

definition cleanupOwnEntries :: "string \<Rightarrow> registry_entry list \<Rightarrow> registry_entry list" where
  "cleanupOwnEntries sid es = filter (\<lambda>e. ownerSessionId e \<noteq> sid) es"

definition remote_entries :: "string \<Rightarrow> registry_entry list \<Rightarrow> registry_entry list" where
  "remote_entries sid es = filter (\<lambda>e. ownerSessionId e \<noteq> sid) es"

definition own_entries :: "string \<Rightarrow> registry_entry list \<Rightarrow> registry_entry list" where
  "own_entries sid es = filter (\<lambda>e. ownerSessionId e = sid) es"

text \<open>An entry is alive when its port answers; a reverse tunnel, which has none, when it was seen lately.
  A clock that was set back makes the difference negative.\<close>

definition entry_alive :: "(nat \<Rightarrow> bool) \<Rightarrow> nat \<Rightarrow> registry_entry \<Rightarrow> bool" where
  "entry_alive probe now e =
     (if re_tunnelType e = ReverseTunnel
      then int now - int (case lastSeen e of Some n \<Rightarrow> n | None \<Rightarrow> re_startedAt e) < int STALE_THRESHOLD_MS
      else probe (re_localPort e))"

definition checkRemoteOwnership ::
  "string \<Rightarrow> (nat \<Rightarrow> bool) \<Rightarrow> nat \<Rightarrow> string \<Rightarrow> nat \<Rightarrow> registry_entry list \<Rightarrow> registry_entry option" where
  "checkRemoteOwnership sid probe now p port es =
     (case find (\<lambda>e. ownerSessionId e \<noteq> sid \<and> (re_profileId e = p \<or> re_localPort e = port)) es of
        None \<Rightarrow> None
      | Some e \<Rightarrow> if entry_alive probe now e then Some e else None)"

text \<open>The heartbeat: the new list, and whether it is written.\<close>

definition heartbeat :: "string \<Rightarrow> nat \<Rightarrow> tunnel_route list \<Rightarrow> registry_entry \<Rightarrow> registry_entry" where
  "heartbeat sid now act e =
     (if ownerSessionId e = sid \<and> list_ex (\<lambda>t. re_profileId t = re_profileId e) act then e\<lparr>lastSeen := Some now\<rparr> else e)"

definition missing_own :: "string \<Rightarrow> tunnel_route list \<Rightarrow> registry_entry list \<Rightarrow> tunnel_route list" where
  "missing_own sid act es = filter (\<lambda>t. \<not> list_ex (\<lambda>e. re_profileId e = re_profileId t) (own_entries sid es)) act"

definition syncFast :: "string \<Rightarrow> nat \<Rightarrow> tunnel_route list \<Rightarrow> registry_entry list \<Rightarrow> bool \<times> registry_entry list" where
  "syncFast sid now act es =
     (list_ex (\<lambda>e. list_ex (\<lambda>t. re_profileId t = re_profileId e) act) (own_entries sid es) \<or> missing_own sid act es \<noteq> [],
      map (heartbeat sid now act) es @ map (registry_entry_of sid now) (missing_own sid act es))"

definition entry_key :: "registry_entry \<Rightarrow> string" where
  "entry_key e = ownerSessionId e @ '':'' @ re_profileId e"

definition syncWithProbe :: "string \<Rightarrow> (nat \<Rightarrow> bool) \<Rightarrow> nat \<Rightarrow> registry_entry list \<Rightarrow> bool \<times> registry_entry list" where
  "syncWithProbe sid probe now es =
     (let stale = map entry_key (filter (\<lambda>e. \<not> entry_alive probe now e) (remote_entries sid es))
      in (stale \<noteq> [], filter (\<lambda>e. entry_key e \<notin> set stale) es))"

section \<open>Windows\<close>

text \<open>A window with its active tunnels, what it shows of the others and what it compared with last: the JSON
  text of a list stands for the list, and the text before the first comparison is none of them. An operation that has
  read the store and not written it yet is kept with what it read.\<close>

datatype registry_op = OpRegister tunnel_route | OpUnregister string | OpCleanup | OpFast | OpProbe

record registry_window =
  win_session :: string
  win_active :: "tunnel_route list"
  win_remote :: "registry_entry list"
  win_lastRemote :: "registry_entry list option"
  win_pending :: "(registry_op \<times> registry_entry list) list"

record registry_system =
  reg_store :: "registry_entry list"
  reg_windows :: "registry_window list"

definition show_remote :: "registry_entry list \<Rightarrow> registry_window \<Rightarrow> registry_window" where
  "show_remote es w =
     (let r = remote_entries (win_session w) es
      in if Some r \<noteq> win_lastRemote w then w\<lparr>win_lastRemote := Some r, win_remote := r\<rparr> else w)"

text \<open>What the second half of an operation writes, if it writes, and what the window shows then.\<close>

definition op_writes :: "(nat \<Rightarrow> bool) \<Rightarrow> nat \<Rightarrow> registry_op \<Rightarrow> registry_entry list \<Rightarrow> registry_window \<Rightarrow> registry_entry list option" where
  "op_writes probe now oper es w =
     (case oper of
        OpRegister t \<Rightarrow> Some (registerTunnelEntry (win_session w) now t es)
      | OpUnregister p \<Rightarrow> Some (unregisterTunnelEntry (win_session w) p es)
      | OpCleanup \<Rightarrow> Some (cleanupOwnEntries (win_session w) es)
      | OpFast \<Rightarrow> (case syncFast (win_session w) now (win_active w) es of (changed, fs) \<Rightarrow> if changed then Some fs else None)
      | OpProbe \<Rightarrow> (case syncWithProbe (win_session w) probe now es of (changed, fs) \<Rightarrow> if changed then Some fs else None))"

definition op_shows :: "(nat \<Rightarrow> bool) \<Rightarrow> nat \<Rightarrow> registry_op \<Rightarrow> registry_entry list \<Rightarrow> registry_window \<Rightarrow> registry_window" where
  "op_shows probe now oper es w =
     (case oper of
        OpFast \<Rightarrow> show_remote es w
      | OpProbe \<Rightarrow>
          (case syncWithProbe (win_session w) probe now es of
             (changed, fs) \<Rightarrow>
               if changed then w\<lparr>win_lastRemote := Some (remote_entries (win_session w) fs), win_remote := remote_entries (win_session w) fs\<rparr>
               else show_remote es w)
      | _ \<Rightarrow> w)"

datatype registry_action =
    RBegin nat registry_op
  | RFinish nat nat "nat \<Rightarrow> bool" nat
  | RTunnels nat "tunnel_route list"

fun registry_act :: "registry_action \<Rightarrow> registry_system \<Rightarrow> registry_system" where
  "registry_act (RBegin i oper) g =
     (if i < length (reg_windows g)
      then g\<lparr>reg_windows := (reg_windows g)[i := (reg_windows g ! i)\<lparr>win_pending := win_pending (reg_windows g ! i) @ [(oper, reg_store g)]\<rparr>]\<rparr>
      else g)"
| "registry_act (RFinish i k probe now) g =
     (if i < length (reg_windows g) \<and> k < length (win_pending (reg_windows g ! i))
      then (let w = reg_windows g ! i; (oper, es) = win_pending w ! k
            in g\<lparr>reg_store := (case op_writes probe now oper es w of Some fs \<Rightarrow> fs | None \<Rightarrow> reg_store g),
                 reg_windows := (reg_windows g)[i := (op_shows probe now oper es w)
                   \<lparr>win_pending := take k (win_pending w) @ drop (Suc k) (win_pending w)\<rparr>]\<rparr>)
      else g)"
| "registry_act (RTunnels i ts) g =
     (if i < length (reg_windows g)
      then g\<lparr>reg_windows := (reg_windows g)[i := (reg_windows g ! i)\<lparr>win_active := ts\<rparr>]\<rparr>
      else g)"

section \<open>A heartbeat restores what was lost\<close>

text \<open>The entries of a session are as the window of this session has them.\<close>

definition own_registered :: "string \<Rightarrow> nat \<Rightarrow> tunnel_route list \<Rightarrow> registry_entry list \<Rightarrow> bool" where
  "own_registered sid now act es \<longleftrightarrow>
     list_all (\<lambda>t. list_ex (\<lambda>e. ownerSessionId e = sid \<and> re_profileId e = re_profileId t \<and> lastSeen e = Some now) es) act"

lemma heartbeat_keeps [simp]:
  "ownerSessionId (heartbeat sid now act e) = ownerSessionId e" "re_profileId (heartbeat sid now act e) = re_profileId e"
  "ownerSessionId e \<noteq> sid \<Longrightarrow> heartbeat sid now act e = e"
  by (auto simp: heartbeat_def)

lemma syncFast_registered: "own_registered sid now act (snd (syncFast sid now act es))"
  unfolding own_registered_def list_all_iff
proof
  fix t assume t: "t \<in> set act"
  show "list_ex (\<lambda>e. ownerSessionId e = sid \<and> re_profileId e = re_profileId t \<and> lastSeen e = Some now) (snd (syncFast sid now act es))"
  proof (cases "\<exists>e\<in>set es. ownerSessionId e = sid \<and> re_profileId e = re_profileId t")
    case True
    then obtain e where e: "e \<in> set es" "ownerSessionId e = sid" "re_profileId e = re_profileId t" by blast
    then have "lastSeen (heartbeat sid now act e) = Some now" using t by (auto simp: heartbeat_def list_ex_iff)
    then show ?thesis
      unfolding list_ex_iff using e by (intro bexI [of _ "heartbeat sid now act e"]) (simp_all add: syncFast_def)
  next
    case False
    then have "t \<in> set (missing_own sid act es)" using t by (auto simp: missing_own_def own_entries_def list_ex_iff)
    then show ?thesis
      unfolding list_ex_iff by (intro bexI [of _ "registry_entry_of sid now t"]) (simp_all add: syncFast_def registry_entry_of_def)
  qed
qed

lemma syncFast_others: "remote_entries sid (snd (syncFast sid now act es)) = remote_entries sid es"
proof -
  have "filter (\<lambda>e. ownerSessionId e \<noteq> sid) (map (heartbeat sid now act) es) = filter (\<lambda>e. ownerSessionId e \<noteq> sid) es"
    by (induction es) auto
  then show ?thesis by (simp add: remote_entries_def syncFast_def filter_empty_conv registry_entry_of_def)
qed

lemma syncFast_unwritten: "\<not> fst (syncFast sid now act es) \<Longrightarrow> snd (syncFast sid now act es) = es"
  by (auto simp: syncFast_def own_entries_def list_ex_iff heartbeat_def intro!: map_idI)

lemma remote_find: "find (\<lambda>e. ownerSessionId e \<noteq> sid \<and> P e) es = find P (remote_entries sid es)"
  by (induction es) (auto simp: remote_entries_def)

text \<open>The two halves of a heartbeat with nothing in between.\<close>

lemma undisturbed_heartbeat:
  assumes "i < length (reg_windows g)"
    and "g' = fold registry_act [RBegin i OpFast, RFinish i (length (win_pending (reg_windows g ! i))) probe now] g"
  shows "reg_store g' = snd (syncFast (win_session (reg_windows g ! i)) now (win_active (reg_windows g ! i)) (reg_store g))"
    "win_remote (reg_windows g' ! i) = win_remote (show_remote (reg_store g) (reg_windows g ! i))"
    "win_pending (reg_windows g' ! i) = win_pending (reg_windows g ! i)"
  using assms syncFast_unwritten [of "win_session (reg_windows g ! i)" now "win_active (reg_windows g ! i)" "reg_store g"]
  by (auto simp: op_writes_def op_shows_def show_remote_def Let_def split: prod.split)

lemma owner_found:
  assumes "e \<in> set es" "ownerSessionId e \<noteq> v" "re_profileId e = p"
    and "\<forall>e\<in>set es. ownerSessionId e \<noteq> v \<and> (re_profileId e = p \<or> re_localPort e = port) \<longrightarrow> entry_alive probe now e"
  shows "checkRemoteOwnership v probe now p port es \<noteq> None"
proof (cases "find (\<lambda>e. ownerSessionId e \<noteq> v \<and> (re_profileId e = p \<or> re_localPort e = port)) es")
  case None
  then show ?thesis using assms(1-3) by (auto simp: find_None_iff)
next
  case (Some f)
  then have "f \<in> set es \<and> ownerSessionId f \<noteq> v \<and> (re_profileId f = p \<or> re_localPort f = port)"
    by (auto simp: find_Some_iff)
  then show ?thesis using Some assms(4) by (simp add: checkRemoteOwnership_def)
qed

section \<open>Properties\<close>

text \<open>
  C24. Whatever the windows have done to the registry, updates lost to each other included, one undisturbed heartbeat
  of a window leaves each of its tunnels registered in its name and just seen, the entries of the others as they
  were and the window showing them; every other window that then asks about one of the tunnels is told of an owner,
  while the entries it can mean are alive.
\<close>

theorem registry_heals:
  assumes "i < length (reg_windows g)" "w = reg_windows g ! i"
    and "g' = fold registry_act [RBegin i OpFast, RFinish i (length (win_pending w)) probe now] g"
  shows "own_registered (win_session w) now (win_active w) (reg_store g')
    \<and> remote_entries (win_session w) (reg_store g') = remote_entries (win_session w) (reg_store g)
    \<and> win_remote (reg_windows g' ! i) = win_remote (show_remote (reg_store g) w)
    \<and> (t \<in> set (win_active w) \<and> v \<noteq> win_session w
        \<and> (\<forall>e\<in>set (reg_store g'). ownerSessionId e \<noteq> v \<and> (re_profileId e = re_profileId t \<or> re_localPort e = port) \<longrightarrow> entry_alive probe later e)
        \<longrightarrow> checkRemoteOwnership v probe later (re_profileId t) port (reg_store g') \<noteq> None)"
proof -
  note u = undisturbed_heartbeat [OF assms(1) assms(3) [unfolded assms(2)], folded assms(2)]
  have r: "own_registered (win_session w) now (win_active w) (reg_store g')" using u(1) by (simp add: syncFast_registered)
  then have "t \<in> set (win_active w) \<Longrightarrow> \<exists>e\<in>set (reg_store g'). ownerSessionId e = win_session w \<and> re_profileId e = re_profileId t"
    by (auto simp: own_registered_def list_all_iff list_ex_iff)
  then show ?thesis using r u owner_found [of _ "reg_store g'" v "re_profileId t" port probe later] by (auto simp: syncFast_others)
qed

definition example_route :: "string \<Rightarrow> tunnel_route" where
  "example_route p =
     \<lparr>re_profileId = p, re_serverId = ''srv'', re_localPort = 8080, re_remoteIP = ''10.0.0.1'', re_remotePort = 80,
      re_connectionMode = IsolatedMode, re_tunnelType = LocalTunnel, re_remoteBindAddress = None, re_localTargetIP = None, re_startedAt = 0\<rparr>"

definition example_window :: "string \<Rightarrow> tunnel_route list \<Rightarrow> registry_window" where
  "example_window sid ts =
     \<lparr>win_session = sid, win_active = ts, win_remote = [], win_lastRemote = None, win_pending = []\<rparr>"

definition example_registry :: registry_system where
  "example_registry =
     \<lparr>reg_store = [], reg_windows = [example_window ''A'' [example_route ''p''], example_window ''B'' [example_route ''q'']]\<rparr>"

text \<open>Two registrations at the same time: the second write loses the first.\<close>

definition lost_registration :: registry_system where
  "lost_registration =
     fold registry_act [RBegin 0 (OpRegister (example_route ''p'')), RBegin 1 (OpRegister (example_route ''q'')),
       RFinish 0 0 (\<lambda>_. True) 1, RFinish 1 0 (\<lambda>_. True) 1] example_registry"

lemma lost_registration_store: "map re_profileId (reg_store lost_registration) = [''q'']"
  by (simp add: lost_registration_def example_registry_def example_window_def example_route_def op_writes_def op_shows_def
      registerTunnelEntry_def registry_entry_of_def)

theorem registry_heals_witness:
  "map re_profileId (reg_store lost_registration) = [''q'']
   \<and> own_registered ''A'' 5 [example_route ''p'']
       (reg_store (fold registry_act [RBegin 0 OpFast, RFinish 0 0 (\<lambda>_. True) 5] lost_registration))
   \<and> checkRemoteOwnership ''B'' (\<lambda>_. True) 6 ''p'' 9999
       (reg_store (fold registry_act [RBegin 0 OpFast, RFinish 0 0 (\<lambda>_. True) 5] lost_registration)) \<noteq> None"
proof -
  have w: "0 < length (reg_windows lost_registration)" "win_session (reg_windows lost_registration ! 0) = ''A''"
    "win_active (reg_windows lost_registration ! 0) = [example_route ''p'']" "win_pending (reg_windows lost_registration ! 0) = []"
    by (simp_all add: lost_registration_def example_registry_def example_window_def op_writes_def op_shows_def)
  have a: "entry_alive (\<lambda>_. True) 6 e" if "re_tunnelType e \<noteq> ReverseTunnel" for e using that by (simp add: entry_alive_def)
  have l: "\<forall>e\<in>set (reg_store (fold registry_act [RBegin 0 OpFast, RFinish 0 0 (\<lambda>_. True) 5] lost_registration)). re_tunnelType e \<noteq> ReverseTunnel"
    by (simp add: lost_registration_def example_registry_def example_window_def example_route_def op_writes_def op_shows_def
      registerTunnelEntry_def registry_entry_of_def syncFast_def own_entries_def missing_own_def heartbeat_def)
  show ?thesis
    using registry_heals [OF w(1) refl refl, where probe = "\<lambda>_. True" and now = 5 and t = "example_route ''p''" and v = "''B''" and port = 9999 and later = 6] l a
    by (auto simp: w lost_registration_store example_route_def)
qed

text \<open>A dead entry that comes first hides a live one: \<open>find\<close> considers the first match only.\<close>

theorem dead_match_hides_owner:
  "let dead = registry_entry_of ''A'' 1 ((example_route ''q'')\<lparr>re_localPort := 9000\<rparr>);
       live = registry_entry_of ''B'' 1 (example_route ''p'');
       probe = (\<lambda>port. port = 8080)
   in entry_alive probe 2 live \<and> \<not> entry_alive probe 2 dead
      \<and> checkRemoteOwnership ''C'' probe 2 ''p'' 9000 [dead, live] = None
      \<and> checkRemoteOwnership ''C'' probe 2 ''p'' 9000 [live, dead] = Some live"
  by (simp add: checkRemoteOwnership_def entry_alive_def registry_entry_of_def example_route_def)

end
