(* ===== verification/Terminal_Buffers.thy ===== *)
theory Terminal_Buffers
  imports Text_Units
begin

text \<open>
  The buffers that keep the output of a terminal as text: \<open>src/src/services/terminal/terminalCaptureBuffer.ts\<close>, from
  which the screen is copied, and \<open>src/src/services/scripts/scriptOutputBuffer.ts\<close>, in which a script waits for a
  pattern, with the expression for escape sequences of \<open>src/src/utils/ansi.ts\<close>. Text is a list of UTF-16 code units.
\<close>

section \<open>Escape sequences\<close>

definition ANSI_ESC :: nat where "ANSI_ESC = 27"
definition ANSI_BEL :: nat where "ANSI_BEL = 7"
definition NEWLINE :: nat where "NEWLINE = 10"

definition digit_unit :: "nat \<Rightarrow> bool" where "digit_unit c \<longleftrightarrow> 48 \<le> c \<and> c \<le> 57"
definition letter_unit :: "nat \<Rightarrow> bool" where "letter_unit c \<longleftrightarrow> 65 \<le> c \<and> c \<le> 90 \<or> 97 \<le> c \<and> c \<le> 122"
definition is_parameter :: "nat \<Rightarrow> bool" where "is_parameter c \<longleftrightarrow> digit_unit c \<or> c = 59 \<or> c = 63"
definition is_final :: "nat \<Rightarrow> bool" where "is_final c \<longleftrightarrow> 64 \<le> c \<and> c \<le> 126"

text \<open>How many units after an escape the expression matches: its four alternatives in their order. No unit is
  both a parameter and final, so the greedy repetition never gives one back.\<close>

definition ansi_match :: "nat list \<Rightarrow> nat option" where
  "ansi_match cs =
     (case cs of
        [] \<Rightarrow> None
      | c # r \<Rightarrow>
          if c = 91
          then (let n = length (takeWhile is_parameter r)
                in if n < length r \<and> is_final (r ! n) then Some (n + 2) else None)
          else if c = 93
          then (let n = length (takeWhile (\<lambda>x. x \<noteq> ANSI_BEL \<and> x \<noteq> ANSI_ESC) r); q = drop n r
                in case q of
                     x # y # _ \<Rightarrow> Some (n + 1 + (if x = ANSI_BEL then 1 else if x = ANSI_ESC \<and> y = 92 then 2 else 0))
                   | [x] \<Rightarrow> Some (n + 1 + (if x = ANSI_BEL then 1 else 0))
                   | [] \<Rightarrow> Some (n + 1))
          else if c = 40 \<or> c = 41 \<or> c = 35
          then (case r of x # _ \<Rightarrow> if letter_unit x \<or> digit_unit x then Some 2 else None | [] \<Rightarrow> None)
          else if letter_unit c then Some 1 else None)"

text \<open>\<open>data.replace(ANSI_RE, "")\<close>: a match is removed and the search goes on behind it.\<close>

function strip_ansi :: "nat list \<Rightarrow> nat list" where
  "strip_ansi [] = []"
| "strip_ansi (c # cs) =
     (if c = ANSI_ESC
      then (case ansi_match cs of Some n \<Rightarrow> strip_ansi (drop n cs) | None \<Rightarrow> c # strip_ansi cs)
      else c # strip_ansi cs)"
  by pat_completeness auto
termination by (relation "measure length") auto

definition is_control :: "nat \<Rightarrow> bool" where
  "is_control c \<longleftrightarrow> c \<le> 8 \<or> c = 11 \<or> c = 12 \<or> 14 \<le> c \<and> c \<le> 31 \<or> c = 127"

definition strip_controls :: "nat list \<Rightarrow> nat list" where
  "strip_controls cs = filter (\<lambda>c. \<not> is_control c) cs"

lemma strip_plain: "ANSI_ESC \<notin> set cs \<Longrightarrow> strip_ansi cs = cs"
  by (induction cs) auto

lemma strip_subset: "set (strip_ansi cs) \<subseteq> set cs"
proof (induction cs rule: strip_ansi.induct)
  case (2 c cs)
  have d: "set (drop n cs) \<subseteq> set (c # cs)" for n by (auto dest: in_set_dropD)
  show ?case
  proof (cases "c = ANSI_ESC")
    case True
    show ?thesis
    proof (cases "ansi_match cs")
      case (Some n)
      then show ?thesis using "2.IH"(2) [OF True Some] d [of n] True by simp
    qed (use True "2.IH"(1) in auto)
  qed (use "2.IH"(3) in auto)
qed simp

section \<open>The capture buffer\<close>

definition DEFAULT_MAX_LINES :: nat where "DEFAULT_MAX_LINES = 1000"
definition MAX_PENDING_CHARS :: nat where "MAX_PENDING_CHARS = 65536"

record capture_buffer =
  cap_lines :: "nat list list"
  cap_pending :: "nat list"
  cap_maxLines :: nat

text \<open>A setting that is not a positive number falls back to the default.\<close>

definition readScrollbackSetting :: "js_number option \<Rightarrow> int" where
  "readScrollbackSetting v =
     (case v of Some (Finite q) \<Rightarrow> if q > 0 then \<lfloor>q\<rfloor> else int DEFAULT_MAX_LINES | _ \<Rightarrow> int DEFAULT_MAX_LINES)"

definition trim_lines :: "capture_buffer \<Rightarrow> capture_buffer" where
  "trim_lines b = b\<lparr>cap_lines := drop (length (cap_lines b) - cap_maxLines b) (cap_lines b)\<rparr>"

definition capPending :: "nat list \<Rightarrow> nat list" where
  "capPending p =
     (if length p \<le> MAX_PENDING_CHARS then p
      else (let tail = drop (length p - MAX_PENDING_CHARS) p
            in if 56320 \<le> hd tail \<and> hd tail \<le> 57343 then tl tail else tail))"

definition capture_append :: "nat list \<Rightarrow> capture_buffer \<Rightarrow> capture_buffer" where
  "capture_append data b =
     (let stripped = strip_controls (strip_ansi data)
      in if stripped = [] then b
         else (let segments = split_on NEWLINE (cap_pending b @ stripped)
               in trim_lines (b\<lparr>cap_pending := capPending (last segments), cap_lines := cap_lines b @ butlast segments\<rparr>)))"

definition capture_clear :: "capture_buffer \<Rightarrow> capture_buffer" where
  "capture_clear b = b\<lparr>cap_lines := [], cap_pending := []\<rparr>"

definition getText :: "capture_buffer \<Rightarrow> nat list" where
  "getText b =
     (if cap_pending b = [] then join_with NEWLINE (cap_lines b)
      else if cap_lines b = [] then cap_pending b
      else join_with NEWLINE (cap_lines b) @ NEWLINE # cap_pending b)"

definition lineCount :: "capture_buffer \<Rightarrow> nat" where
  "lineCount b = length (cap_lines b) + (if cap_pending b \<noteq> [] then 1 else 0)"

definition setMaxLines :: "js_number \<Rightarrow> capture_buffer \<Rightarrow> capture_buffer" where
  "setMaxLines v b =
     (case v of Finite q \<Rightarrow> if q \<le> 0 then b else trim_lines (b\<lparr>cap_maxLines := nat \<lfloor>q\<rfloor>\<rparr>) | _ \<Rightarrow> b)"

text \<open>What one append keeps: the bounds, and lines without line breaks and control characters.\<close>

definition capture_ok :: "capture_buffer \<Rightarrow> bool" where
  "capture_ok b \<longleftrightarrow>
     length (cap_lines b) \<le> cap_maxLines b \<and> length (cap_pending b) \<le> MAX_PENDING_CHARS
     \<and> list_all (list_all (\<lambda>c. c \<noteq> NEWLINE \<and> \<not> is_control c)) (cap_pending b # cap_lines b)"

lemma capPending_short: "length (capPending p) \<le> MAX_PENDING_CHARS"
  by (simp add: capPending_def Let_def)

lemma capPending_set: "set (capPending p) \<subseteq> set p"
proof -
  have "set (tl (drop n p)) \<subseteq> set p" for n by (metis drop_Suc list.set_sel(2) set_drop_subset subsetD subsetI tl_drop)
  then show ?thesis by (auto simp: capPending_def Let_def dest: in_set_dropD)
qed

lemma capPending_suffix: "suffix (capPending p) p"
  unfolding capPending_def Let_def
  by (auto simp: suffix_drop) (metis drop_Suc suffix_drop tl_drop)

lemma split_chars: "w \<in> set (split_on NEWLINE cs) \<Longrightarrow> c \<in> set w \<Longrightarrow> c \<in> set cs \<and> c \<noteq> NEWLINE"
  using split_set [of w NEWLINE cs] split_parts [of NEWLINE cs] by (auto simp: list_all_iff)

lemma trim_ok:
  assumes "length (cap_pending b) \<le> MAX_PENDING_CHARS"
    and "list_all (list_all (\<lambda>c. c \<noteq> NEWLINE \<and> \<not> is_control c)) (cap_pending b # cap_lines b)"
  shows "capture_ok (trim_lines b)"
proof -
  have "set (cap_lines (trim_lines b)) \<subseteq> set (cap_lines b)" by (simp add: trim_lines_def set_drop_subset)
  then show ?thesis using assms by (auto simp: capture_ok_def trim_lines_def list_all_iff)
qed

lemma append_ok: "capture_ok b \<Longrightarrow> capture_ok (capture_append d b)"
proof -
  assume b: "capture_ok b"
  let ?cs = "cap_pending b @ strip_controls (strip_ansi d)"
  have c: "\<not> is_control c" if "c \<in> set ?cs" for c
    using that b by (auto simp: capture_ok_def list_all_iff strip_controls_def)
  have s: "c \<noteq> NEWLINE \<and> \<not> is_control c" if "w \<in> set (split_on NEWLINE ?cs)" "c \<in> set w" for c w
    using split_chars [OF that] c by blast
  have l: "last (split_on NEWLINE ?cs) \<in> set (split_on NEWLINE ?cs)" by simp
  have p: "c \<noteq> NEWLINE \<and> \<not> is_control c" if "c \<in> set (capPending (last (split_on NEWLINE ?cs)))" for c
    using s [OF l] subsetD [OF capPending_set that] by blast
  have q: "list_all (\<lambda>c. c \<noteq> NEWLINE \<and> \<not> is_control c) w" if "w \<in> set (butlast (split_on NEWLINE ?cs))" for w
    using s [OF in_set_butlastD [OF that]] by (auto simp: list_all_iff)
  have "capture_ok (trim_lines (b\<lparr>cap_pending := capPending (last (split_on NEWLINE ?cs)),
      cap_lines := cap_lines b @ butlast (split_on NEWLINE ?cs)\<rparr>))"
    using b p q by (intro trim_ok) (auto simp: capPending_short capture_ok_def list_all_iff)
  then show ?thesis using b by (simp add: capture_append_def Let_def)
qed

lemma clear_ok: "capture_ok (capture_clear b)"
  by (simp add: capture_ok_def capture_clear_def)

lemma setMaxLines_ok: "capture_ok b \<Longrightarrow> capture_ok (setMaxLines v b)"
proof -
  assume b: "capture_ok b"
  have "capture_ok (trim_lines (b\<lparr>cap_maxLines := n\<rparr>))" for n using b by (intro trim_ok) (simp_all add: capture_ok_def)
  then show ?thesis using b by (simp add: setMaxLines_def split: js_number.split)
qed

text \<open>The lines of a stream that grows.\<close>

lemma split_grow: "split_on s (xs @ ys) = butlast (split_on s xs) @ split_on s (last (split_on s xs) @ ys)"
proof (induction xs)
  case (Cons x xs)
  show ?case
  proof (cases "split_on s xs")
    case (Cons w ws)
    show ?thesis
      using Cons.IH Cons by (cases ws) (auto split: list.splits)
  qed simp
qed simp

lemma split_hd: "s \<notin> set w \<Longrightarrow> split_on s (w @ ys) = (w @ hd (split_on s ys)) # tl (split_on s ys)"
  by (induction w) (auto split: list.splits)

definition lastn :: "nat \<Rightarrow> 'a list \<Rightarrow> 'a list" where
  "lastn n xs = drop (length xs - n) xs"

lemma trim_lines_alt: "trim_lines b = b\<lparr>cap_lines := lastn (cap_maxLines b) (cap_lines b)\<rparr>"
  by (simp add: trim_lines_def lastn_def)

lemma lastn_append: "lastn n (lastn n xs @ ys) = lastn n (xs @ ys)"
  by (cases "length xs \<le> n") (simp_all add: lastn_def add.commute)

text \<open>What the appends of a session leave, while no line is longer than the cap.\<close>

definition stripped_stream :: "nat list list \<Rightarrow> nat list" where
  "stripped_stream ds = concat (map (\<lambda>d. strip_controls (strip_ansi d)) ds)"

definition new_capture :: "nat \<Rightarrow> capture_buffer" where
  "new_capture n = \<lparr>cap_lines = [], cap_pending = [], cap_maxLines = n\<rparr>"

definition shown_of :: "nat \<Rightarrow> nat list \<Rightarrow> capture_buffer" where
  "shown_of n cs =
     \<lparr>cap_lines = lastn n (butlast (split_on NEWLINE cs)), cap_pending = last (split_on NEWLINE cs), cap_maxLines = n\<rparr>"

lemma append_shown:
  assumes "length (last (split_on NEWLINE (cs @ strip_controls (strip_ansi d)))) \<le> MAX_PENDING_CHARS"
  shows "capture_append d (shown_of n cs) = shown_of n (cs @ strip_controls (strip_ansi d))"
proof -
  let ?x = "strip_controls (strip_ansi d)"
  have g: "split_on NEWLINE (cs @ ?x) = butlast (split_on NEWLINE cs) @ split_on NEWLINE (last (split_on NEWLINE cs) @ ?x)"
    by (rule split_grow)
  have "lastn n (lastn n (butlast (split_on NEWLINE cs)) @ butlast (split_on NEWLINE (last (split_on NEWLINE cs) @ ?x)))
      = lastn n (butlast (split_on NEWLINE (cs @ ?x)))"
    unfolding g by (simp add: lastn_append butlast_append)
  moreover have "capPending (last (split_on NEWLINE (last (split_on NEWLINE cs) @ ?x))) = last (split_on NEWLINE (cs @ ?x))"
    using assms unfolding g by (simp add: capPending_def)
  ultimately show ?thesis
    by (auto simp: capture_append_def shown_of_def trim_lines_alt Let_def)
qed

text \<open>The open line of a part of the stream begins a line of the whole.\<close>

lemma open_line_bounded:
  assumes "list_all (\<lambda>w. length w \<le> k) (split_on s (xs @ ys))"
  shows "length (last (split_on s xs)) \<le> k"
proof -
  have "s \<notin> set (last (split_on s xs))" using split_parts [of s xs] by (auto simp: list_all_iff)
  then have "last (split_on s xs) @ hd (split_on s ys) \<in> set (split_on s (xs @ ys))"
    by (simp add: split_grow [of s xs ys] split_hd)
  then show ?thesis using assms by (fastforce simp: list_all_iff)
qed

lemma appends_shown:
  assumes "list_all (\<lambda>w. length w \<le> MAX_PENDING_CHARS) (split_on NEWLINE (cs @ stripped_stream ds))"
  shows "fold capture_append ds (shown_of n cs) = shown_of n (cs @ stripped_stream ds)"
  using assms
proof (induction ds arbitrary: cs)
  case (Cons d ds)
  let ?x = "strip_controls (strip_ansi d)"
  have e: "stripped_stream (d # ds) = ?x @ stripped_stream ds" by (simp add: stripped_stream_def)
  have "length (last (split_on NEWLINE (cs @ ?x))) \<le> MAX_PENDING_CHARS"
    using open_line_bounded [of _ NEWLINE "cs @ ?x" "stripped_stream ds"] Cons.prems e by simp
  then have "capture_append d (shown_of n cs) = shown_of n (cs @ ?x)" by (rule append_shown)
  then show ?case using Cons.IH [of "cs @ ?x"] Cons.prems e by simp
qed (simp add: stripped_stream_def)

lemma shown_new: "shown_of n [] = new_capture n"
  by (simp add: shown_of_def new_capture_def lastn_def)

section \<open>The output buffer of a script\<close>

definition DEFAULT_CAPACITY :: nat where "DEFAULT_CAPACITY = 65536"
definition DEFAULT_FIRST_LOOKBACK :: nat where "DEFAULT_FIRST_LOOKBACK = 1024"

text \<open>\<open>out_calls\<close> counts the calls of subscribers.\<close>

record output_buffer =
  out_capacity :: nat
  out_text :: "nat list"
  out_writeHead :: nat
  out_cursor :: nat
  out_firstScan :: bool
  out_subscribers :: "nat list"
  out_calls :: "nat list"

definition new_output :: "nat option \<Rightarrow> output_buffer" where
  "new_output cap =
     \<lparr>out_capacity = (case cap of Some n \<Rightarrow> n | None \<Rightarrow> DEFAULT_CAPACITY), out_text = [], out_writeHead = 0, out_cursor = 0,
      out_firstScan = True, out_subscribers = [], out_calls = []\<rparr>"

definition output_append :: "nat list \<Rightarrow> output_buffer \<Rightarrow> output_buffer" where
  "output_append raw b =
     (let stripped = strip_ansi raw
      in if stripped = [] then b
         else (let t = out_text b @ stripped
               in b\<lparr>out_text := (if out_capacity b < length t then drop (length t - out_capacity b) t else t),
                    out_writeHead := out_writeHead b + length stripped,
                    out_calls := out_calls b @ out_subscribers b\<rparr>))"

definition output_subscribe :: "nat \<Rightarrow> output_buffer \<Rightarrow> output_buffer" where
  "output_subscribe k b = (if k \<in> set (out_subscribers b) then b else b\<lparr>out_subscribers := out_subscribers b @ [k]\<rparr>)"

definition output_unsubscribe :: "nat \<Rightarrow> output_buffer \<Rightarrow> output_buffer" where
  "output_unsubscribe k b = b\<lparr>out_subscribers := removeAll k (out_subscribers b)\<rparr>"

text \<open>A match in the window: where, how long, and its groups. A string pattern is escaped and so found as it
  is; a regular expression is a parameter.\<close>

type_synonym matcher = "nat list \<Rightarrow> (nat \<times> nat \<times> nat list option list) option"

fun find_text :: "nat list \<Rightarrow> nat list \<Rightarrow> nat option" where
  "find_text p [] = (if p = [] then Some 0 else None)"
| "find_text p (c # cs) = (if prefix p (c # cs) then Some 0 else map_option Suc (find_text p cs))"

definition literal :: "nat list \<Rightarrow> matcher" where
  "literal p w = map_option (\<lambda>i. (i, length p, [])) (find_text p w)"

record output_match =
  match_text :: "nat list"
  match_groups :: "nat list list"
  match_before :: "nat list"
  endPosition :: nat

text \<open>Where a scan begins, as a position of the whole output.\<close>

definition scan_start :: "nat option \<Rightarrow> output_buffer \<Rightarrow> nat" where
  "scan_start lookback b =
     (let back = (case lookback of Some n \<Rightarrow> n | None \<Rightarrow> if out_firstScan b then DEFAULT_FIRST_LOOKBACK else 0)
      in max (out_writeHead b - length (out_text b)) (out_cursor b - back))"

definition output_scan ::
  "matcher \<Rightarrow> nat option \<Rightarrow> output_buffer \<Rightarrow> output_match option \<times> output_buffer" where
  "output_scan pat lookback b =
     (let start = scan_start lookback b;
          window = drop (start - (out_writeHead b - length (out_text b))) (out_text b)
      in (if window = [] then None
          else map_option
                 (\<lambda>(i, n, gs). \<lparr>match_text = take n (drop i window),
                     match_groups = map (\<lambda>g. case g of Some x \<Rightarrow> x | None \<Rightarrow> []) gs,
                     match_before = take i window, endPosition = start + i + n\<rparr>)
                 (pat window),
          b\<lparr>out_firstScan := False\<rparr>))"

definition advanceCursor :: "nat \<Rightarrow> output_buffer \<Rightarrow> output_buffer" where
  "advanceCursor to b = (if out_cursor b < to then b\<lparr>out_cursor := to\<rparr> else b)"

definition output_tail :: "nat \<Rightarrow> output_buffer \<Rightarrow> nat list" where
  "output_tail n b = (if n = 0 then [] else if length (out_text b) \<le> n then out_text b else drop (length (out_text b) - n) (out_text b))"

text \<open>A script that waits for a pattern: the cursor moves behind the match.\<close>

definition wait_for :: "matcher \<Rightarrow> nat option \<Rightarrow> output_buffer \<Rightarrow> output_match option \<times> output_buffer" where
  "wait_for pat lookback b =
     (case output_scan pat lookback b of
        (Some m, b1) \<Rightarrow> (Some m, advanceCursor (endPosition m) b1)
      | (None, b1) \<Rightarrow> (None, b1))"

text \<open>The buffer holds the end of the output \<open>W\<close>, and its positions are those of \<open>W\<close>.\<close>

definition holds_end :: "nat list \<Rightarrow> output_buffer \<Rightarrow> bool" where
  "holds_end W b \<longleftrightarrow> out_text b = lastn (out_capacity b) W \<and> out_writeHead b = length W"

lemma holds_new: "holds_end [] (new_output cap)"
  by (simp add: holds_end_def new_output_def lastn_def)

lemma holds_append: "holds_end W b \<Longrightarrow> holds_end (W @ strip_ansi raw) (output_append raw b)"
proof -
  assume h: "holds_end W b"
  have "(if out_capacity b < length t then drop (length t - out_capacity b) t else t) = lastn (out_capacity b) t" for t :: "nat list"
    by (simp add: lastn_def)
  then show ?thesis using h lastn_append [of "out_capacity b" W] by (simp add: holds_end_def output_append_def Let_def)
qed

lemma scan_window:
  assumes "holds_end W b"
  shows "drop (scan_start lb b - (out_writeHead b - length (out_text b))) (out_text b) = drop (scan_start lb b) W"
    "length W - out_capacity b \<le> scan_start lb b"
proof -
  have l: "length (lastn n W) = min n (length W)" for n by (simp add: lastn_def)
  then show "length W - out_capacity b \<le> scan_start lb b"
    using assms by (auto simp: scan_start_def holds_end_def Let_def)
  have "length W - length (out_text b) \<le> scan_start lb b" using assms by (simp add: scan_start_def holds_end_def Let_def)
  moreover have "out_text b = drop (length W - length (out_text b)) W"
    using assms by (cases "out_capacity b \<le> length W") (simp_all add: holds_end_def lastn_def)
  moreover have "out_writeHead b = length W" using assms by (simp add: holds_end_def)
  ultimately have "drop (scan_start lb b - (out_writeHead b - length (out_text b))) (out_text b)
      = drop (scan_start lb b - (length W - length (out_text b))) (drop (length W - length (out_text b)) W)"
    and "length W - length (out_text b) \<le> scan_start lb b"
    by simp_all
  then show "drop (scan_start lb b - (out_writeHead b - length (out_text b))) (out_text b) = drop (scan_start lb b) W"
    by (simp only: drop_drop le_add_diff_inverse2)
qed

lemma find_text_Some:
  "find_text p w = Some i \<Longrightarrow> prefix p (drop i w) \<and> i + length p \<le> length w \<and> (\<forall>j<i. \<not> prefix p (drop j w))"
proof (induction w arbitrary: i)
  case (Cons c cs)
  show ?case
  proof (cases "prefix p (c # cs)")
    case False
    then obtain k where k: "i = Suc k" "find_text p cs = Some k" using Cons.prems by auto
    then show ?thesis using Cons.IH [OF k(2)] False by (auto simp: less_Suc_eq_0_disj)
  qed (use Cons.prems prefix_length_le in fastforce)
qed (auto split: if_splits)

lemma find_text_None: "find_text p w = None \<Longrightarrow> \<not> prefix p (drop j w)"
proof (induction w arbitrary: j)
  case (Cons c cs)
  then show ?case by (cases j) (auto split: if_splits)
qed (auto split: if_splits)

text \<open>The runs of a script: output arrives, and the script waits, for texts or for expressions.\<close>

datatype output_op = Output "nat list" | Wait matcher "nat option"

fun output_act :: "output_op \<Rightarrow> output_buffer \<Rightarrow> output_buffer" where
  "output_act (Output d) b = output_append d b"
| "output_act (Wait pat lb) b = snd (wait_for pat lb b)"

fun output_of :: "output_op \<Rightarrow> nat list" where
  "output_of (Output d) = strip_ansi d"
| "output_of (Wait _ _) = []"

definition output_run :: "nat option \<Rightarrow> output_op list \<Rightarrow> output_buffer" where
  "output_run cap ops = fold output_act ops (new_output cap)"

lemma wait_keeps: "holds_end W (snd (wait_for pat lb b)) = holds_end W b" "out_capacity (snd (wait_for pat lb b)) = out_capacity b"
  by (auto simp: wait_for_def output_scan_def Let_def holds_end_def advanceCursor_def split: option.split)

lemma holds_acts: "holds_end W b \<Longrightarrow> holds_end (W @ concat (map output_of ops)) (fold output_act ops b)"
proof (induction ops arbitrary: W b)
  case (Cons x ops)
  have "holds_end (W @ output_of x) (output_act x b)" using Cons.prems by (cases x) (simp_all add: holds_append wait_keeps)
  then show ?case using Cons.IH by fastforce
qed simp

lemma holds_run: "holds_end (concat (map output_of ops)) (output_run cap ops)"
  using holds_acts [OF holds_new, of ops cap] by (simp add: output_run_def)

lemma wait_literal:
  assumes "holds_end W b" "p \<noteq> []"
  shows "fst (wait_for (literal p) lb b) =
    map_option (\<lambda>i. \<lparr>match_text = p, match_groups = [], match_before = take i (drop (scan_start lb b) W),
                     endPosition = scan_start lb b + i + length p\<rparr>) (find_text p (drop (scan_start lb b) W))"
proof -
  have "prefix p (drop i w) \<Longrightarrow> take (length p) (drop i w) = p" for i w by (auto simp: prefix_def)
  then show ?thesis
    using scan_window(1) [OF assms(1), of lb] assms(2) find_text_Some [of p "drop (scan_start lb b) W"]
    by (auto simp: wait_for_def output_scan_def literal_def Let_def split: option.split)
qed

lemma wait_behind: "holds_end W b \<Longrightarrow> p \<noteq> [] \<Longrightarrow> fst (wait_for (literal p) lb b) = Some x \<Longrightarrow> scan_start lb b + length p \<le> endPosition x"
  by (auto simp: wait_literal)

lemma cursor_behind: "out_cursor b \<le> scan_start (Some 0) b" "\<not> out_firstScan b \<Longrightarrow> out_cursor b \<le> scan_start None b"
  by (simp_all add: scan_start_def)

lemma waited_cursor:
  assumes "wait_for pat lb b = (Some x, b1)" shows "endPosition x \<le> out_cursor b1" "\<not> out_firstScan b1"
  using assms by (auto simp: wait_for_def output_scan_def Let_def advanceCursor_def split: option.splits if_splits)

lemma outputs_keep: "out_cursor (fold output_append ds b) = out_cursor b \<and> out_firstScan (fold output_append ds b) = out_firstScan b"
proof (induction ds arbitrary: b)
  case (Cons d ds)
  have "out_cursor (output_append d b) = out_cursor b \<and> out_firstScan (output_append d b) = out_firstScan b"
    by (simp add: output_append_def Let_def)
  then show ?case using Cons.IH [of "output_append d b"] by simp
qed simp

lemma holds_outputs: "holds_end W b \<Longrightarrow> holds_end (W @ concat (map strip_ansi ds)) (fold output_append ds b)"
  by (induction ds arbitrary: W b) (simp_all add: holds_append flip: append_assoc)

section \<open>Properties\<close>

text \<open>
  C30. However the output was cut into chunks, one scan of a wait for a text looks at the whole stripped output from
  the position \<open>scan_start\<close> takes from the cursor, the lookback and the capacity. It finds the first occurrence from there
  on, with what stands before it and its end as a position of the whole output, and nothing only if there is none.
\<close>

theorem wait_exact:
  assumes "p \<noteq> []" "b = output_run cap ops" "W = concat (map output_of ops)" "start = scan_start lb b"
  shows "case fst (wait_for (literal p) lb b) of
      Some x \<Rightarrow> match_text x = p \<and> start + length p \<le> endPosition x \<and> endPosition x \<le> length W
        \<and> prefix p (drop (endPosition x - length p) W)
        \<and> match_before x = take (endPosition x - length p - start) (drop start W)
        \<and> list_all (\<lambda>j. \<not> prefix p (drop j W)) [start..<endPosition x - length p]
    | None \<Rightarrow> list_all (\<lambda>j. \<not> prefix p (drop j W)) [start..<length W]"
proof -
  have h: "holds_end W b" using holds_run [of ops cap] assms(2,3) by simp
  show ?thesis
  proof (cases "find_text p (drop start W)")
    case None
    then have "\<not> prefix p (drop j W)" if "start \<le> j" for j
      using find_text_None [OF None, of "j - start"] that by simp
    then show ?thesis using wait_literal [OF h assms(1), of lb] None assms(4) by (simp add: list_all_iff)
  next
    case (Some i)
    have "i + length p \<le> length W - start" "0 < length p" using find_text_Some [OF Some] assms(1) by simp_all
    then have "start + i + length p \<le> length W" by linarith
    then have f: "prefix p (drop (start + i) W)" "start + i + length p \<le> length W" "\<forall>k<i. \<not> prefix p (drop (start + k) W)"
      using find_text_Some [OF Some] by (simp_all add: add.commute)
    have "\<not> prefix p (drop j W)" if "start \<le> j" "j < start + i" for j
      using f(3) that by (metis le_add_diff_inverse nat_add_left_cancel_less)
    then show ?thesis using wait_literal [OF h assms(1), of lb] Some f assms(4) by (auto simp: list_all_iff)
  qed
qed

definition example_output :: "output_op list" where
  "example_output = [Output [36, 32], Wait (literal [36]) None, Output [27, 91, 48, 109, 111, 107, 36]]"

lemmas output_example_defs = example_output_def output_run_def new_output_def wait_for_def output_scan_def scan_start_def literal_def
  output_append_def advanceCursor_def ansi_match_def is_parameter_def digit_unit_def is_final_def ANSI_ESC_def DEFAULT_CAPACITY_def
  DEFAULT_FIRST_LOOKBACK_def

theorem wait_exact_witness:
  "fst (wait_for (literal [36]) None (output_run None example_output)) =
     Some \<lparr>match_text = [36], match_groups = [], match_before = [32, 111, 107], endPosition = 5\<rparr>
   \<and> prefix [36] (drop 4 (concat (map output_of example_output)))"
proof -
  have e: "fst (wait_for (literal [36]) None (output_run None example_output)) =
     Some \<lparr>match_text = [36], match_groups = [], match_before = [32, 111, 107], endPosition = 5\<rparr>"
    by (simp add: output_example_defs)
  then show ?thesis
    using wait_exact [of "[36]" "output_run None example_output" None example_output, OF _ refl refl refl, of None] by simp
qed

text \<open>
  A match satisfies one wait: the match of a later wait without a lookback begins at or behind the end of the
  one before, whatever arrived in between.
\<close>

theorem waits_in_order:
  assumes "b = output_run cap ops" "wait_for (literal p) lb b = (Some x, b1)"
    and "wait_for (literal q) None (fold output_append ds b1) = (Some y, b2)" "q \<noteq> []"
  shows "endPosition x + length q \<le> endPosition y"
proof -
  let ?c = "fold output_append ds b1"
  have "holds_end (concat (map output_of ops)) b1" using holds_run [of ops cap] wait_keeps(1) [of _ "literal p" lb b] assms(1,2) by simp
  then have h: "holds_end (concat (map output_of ops) @ concat (map strip_ansi ds)) ?c" by (rule holds_outputs)
  have "endPosition x \<le> scan_start None ?c"
    using waited_cursor [OF assms(2)] outputs_keep [of ds b1] cursor_behind(2) [of ?c] by simp
  moreover have "scan_start None ?c + length q \<le> endPosition y" using wait_behind [OF h assms(4)] assms(3) by simp
  ultimately show ?thesis by simp
qed

theorem waits_in_order_witness:
  "\<exists>x y b1 b2. wait_for (literal [36]) None (output_run None [Output [36, 32]]) = (Some x, b1)
     \<and> wait_for (literal [36]) None (fold output_append [[111, 107, 36]] b1) = (Some y, b2)
     \<and> endPosition x = 1 \<and> endPosition x + 1 \<le> endPosition y"
proof -
  obtain x b1 where x: "wait_for (literal [36]) None (output_run None [Output [36, 32]]) = (Some x, b1)" "endPosition x = 1"
    by (simp add: output_example_defs)
  moreover have "\<exists>y b2. wait_for (literal [36]) None (fold output_append [[111, 107, 36]]
      (snd (wait_for (literal [36]) None (output_run None [Output [36, 32]])))) = (Some y, b2)"
    by (simp add: output_example_defs)
  then obtain y b2 where y: "wait_for (literal [36]) None (fold output_append [[111, 107, 36]] b1) = (Some y, b2)" using x by auto
  ultimately show ?thesis using waits_in_order [OF refl x(1) y] by fastforce
qed

text \<open>Before the first match the lookback changes nothing: everything the buffer holds is searched.\<close>

lemma first_wait_sees_all:
  assumes "out_cursor (output_run cap ops) = 0"
  shows "scan_start lb (output_run cap ops) = length (concat (map output_of ops)) - out_capacity (output_run cap ops)"
proof -
  have "length (lastn n W) = min n (length W)" for n and W :: "nat list" by (simp add: lastn_def)
  then show ?thesis using holds_run [of ops cap] assms by (auto simp: scan_start_def holds_end_def Let_def)
qed

text \<open>
  C31. The capture buffer keeps at most as many lines as it may, an open line of at most 64 Ki units, and no line break or
  control character inside a line. While no line is longer than this it shows exactly the last lines of the
  stripped output and the open one, however the stripped output was cut into chunks.
\<close>

theorem capture_exact:
  "capture_ok (fold capture_append ds (new_capture n))
   \<and> capture_ok (setMaxLines v (fold capture_append ds (new_capture n)))
   \<and> (list_all (\<lambda>w. length w \<le> MAX_PENDING_CHARS) (split_on NEWLINE (stripped_stream ds))
      \<longrightarrow> fold capture_append ds (new_capture n) = shown_of n (stripped_stream ds))"
proof -
  have "capture_ok b \<Longrightarrow> capture_ok (fold capture_append ds b)" for b by (induction ds arbitrary: b) (simp_all add: append_ok)
  moreover have "capture_ok (new_capture n)" by (simp add: capture_ok_def new_capture_def)
  ultimately show ?thesis using appends_shown [of "[]" ds n] by (simp add: setMaxLines_ok shown_new)
qed

theorem capture_exact_witness:
  "fold capture_append [[97, 10, 98], [99, 10], [100]] (new_capture 1) = \<lparr>cap_lines = [[98, 99]], cap_pending = [100], cap_maxLines = 1\<rparr>"
proof -
  have s: "stripped_stream [[97, 10, 98], [99, 10], [100]] = [97, 10, 98, 99, 10, 100]"
    by (simp add: stripped_stream_def strip_controls_def is_control_def ANSI_ESC_def)
  show ?thesis
    using capture_exact [of "[[97, 10, 98], [99, 10], [100]]" 1 NaN] by (simp add: s shown_of_def lastn_def NEWLINE_def MAX_PENDING_CHARS_def)
qed

text \<open>A sequence that a chunk boundary cuts is not recognised: its escape is dropped and the rest is shown.\<close>

lemma cut_sequence_shown:
  "getText (fold capture_append [[27, 91, 51, 49, 109, 65]] (new_capture 10)) = [65]"
  "getText (fold capture_append [[27], [91, 51, 49, 109, 65]] (new_capture 10)) = [91, 51, 49, 109, 65]"
  by (simp_all add: capture_append_def new_capture_def getText_def trim_lines_def capPending_def strip_controls_def is_control_def
      ansi_match_def is_parameter_def is_final_def digit_unit_def ANSI_ESC_def NEWLINE_def MAX_PENDING_CHARS_def)

end
