(* ===== verification/Spec2Isabelle.thy ===== *)
theory Spec2Isabelle
  imports Telnet_Streams Tftp_Transfer Tftp_Engine_Runs Dhcp_Engine_Runs Read_Slot_Runs
    Ssh_Pool_Accounting Socks5
    Rpc_Channel Daemon_Config Daemon_Shutdown Service_Adapters
    Osc_Directory Cwd_Tracker Profile_Runs Tunnel_View Tunnel_Leaks Tunnel_Registry
    Terminal_Buffers
begin

text \<open>
  Verification of the core of Nexus Terminal, a VS Code extension with terminals (SSH, telnet,
  serial), tunnels, file transfer, scripts and two built-in network servers (TFTP and DHCP). All
  paths below are under \<open>src/src\<close>.

  \<^bold>\<open>Parts and theories.\<close>

  \<^item> \<open>Prelude\<close>: the locale of transition systems with an invariant, lemmas on lists, words and
    association lists. \<open>Js_Strings\<close>: the JavaScript strings the sources use, as lists of UTF-16
    code units, and their encoding as UTF-8.
  \<^item> \<open>Telnet_Protocol\<close>, \<open>Telnet_Streams\<close>: \<open>services/telnet/telnetProtocol.ts\<close>. The record \<open>negotiator\<close> is the class
    \<open>TelnetNegotiator\<close>; \<open>receive\<close> folds \<open>receiveByte\<close> (the body of the loop) over a chunk. Shown: the
    buffer is bounded, what is escaped or encoded is decoded by a peer; a stream of data, commands and
    subnegotiations of at most 128 bytes is understood, however TCP cuts it, as a reference reads it off the
    history of the stream; two negotiators answering each other come to rest, unless an offer of
    SUPPRESS-GO-AHEAD and its withdrawal are in flight together, which they answer forever.
  \<^item> \<open>Tftp_Protocol\<close>, \<open>Tftp_Session\<close>, \<open>Tftp_Transfer\<close>: \<open>engine/protocol.ts\<close>, \<open>types.ts\<close> and
    \<open>TransferSession.ts\<close> of \<open>services/networkServers/tftp\<close>: packets and options on the wire, the class
    \<open>TransferSession\<close> as a record with one function per method, and runs of a download and of an
    upload against an arbitrary peer. Shown: packets survive the wire, accepted options are within
    limits, a finished transfer carries exactly the file, every transfer can finish.
  \<^item> \<open>Tftp_PathGuard\<close>: \<open>engine/PathGuard.ts\<close>, over a file system that answers as it likes at each
    call. Shown: accepted names stay inside the root, and what is opened or created was inside it
    when checked.
  \<^item> \<open>Tftp_Engine\<close>, \<open>Tftp_Engine_Runs\<close>: \<open>engine/TftpEngine.ts\<close>. Each asynchronous handler is cut at its
    awaits into segments; a step of a run is one segment. Shown: limits and serialisation in every
    interleaving, life cycle, that an upload refused for a wrong block number is announced as complete, and
    two runs with another wrong announcement and a stale clean-up.
  \<^item> \<open>Dhcp_Network\<close>, \<open>Dhcp_Lease\<close>, \<open>Dhcp_Boot\<close>, \<open>Dhcp_Engine\<close>, \<open>Dhcp_Engine_Runs\<close>: the files of
    \<open>services/networkServers/dhcp/engine\<close>: IPv4 arithmetic on 32-bit words, the lease file with its
    atomic save and debounced writer, option 43, and the class \<open>DhcpEngine\<close>. Shown: round trips,
    which leases survive a restart, that reservations are held, that the lease events tell a
    consistent story.
  \<^item> \<open>Read_Slots\<close>, \<open>Read_Slot_Runs\<close>: \<open>services/scripts/readSlotScheduler.ts\<close>: the cancellable semaphore
    and the state machine of gated calls. Shown: in every interleaving the counters are right, the
    limits hold and no permit is lost; waiting calls are served in order; the cost of cancelling.
  \<^item> \<open>Ssh_Pool\<close>, \<open>Ssh_Pool_Runs\<close>, \<open>Ssh_Pool_Accounting\<close>: \<open>services/ssh/sshConnectionPool.ts\<close>: the pool of
    shared connections, the leases on them and the fallback to a connection of its own. Shown: one
    attempt per server, a consistent story of events, exact counting of leases and no disposal under
    a lease in orderly runs, and a run that is not orderly in which a lease is released twice.
  \<^item> \<open>Socks5\<close>: \<open>services/tunnel/socks5.ts\<close>: the handshake as an action on a socket, composed by a bind
    that stops at an error. Shown: the result does not depend on the chunks, the client gets the
    destination it asked for, every refusal is answered once by the handshake itself.
  \<^item> \<open>Line_Reader\<close>, \<open>Line_Reader_Runs\<close>, \<open>Line_Writer\<close>, \<open>Line_Writer_Runs\<close>, \<open>Rpc_Channel\<close>:
    \<open>boundedLineReader.ts\<close> and \<open>boundedJsonLineWriter.ts\<close> of \<open>services/networkServers\<close>: the JSON lines
    between the extension and its daemon. The reader's callback may act on the stream while it runs,
    and the stream may act on the writer inside a call of \<open>write\<close>: both are scripts or steps of the
    model. Shown: the lines do not depend on the chunks, memory is bounded, responses are never
    dropped, a working stream empties the queue, and what is written is what is delivered.
  \<^item> \<open>Workflow_Queue\<close>: \<open>networkServerWorkflowQueue.ts\<close>; \<open>Server_Manager\<close>: \<open>core/ServerManager.ts\<close> with the
    registry and the status of a server; its lifecycle queue is a workflow queue with one key per
    operation (\<open>abs_queue\<close>). Shown: operations with a common key are serialised and never deadlock,
    and no server instance is lost.
  \<^item> \<open>Service_Adapters\<close>: the lifecycle of \<open>tftp/TftpAdapter.ts\<close> and \<open>dhcp/DhcpAdapter.ts\<close>: the contract
    of a server as a locale, which both adapters interpret. Shown: no engine is lost or doubled.
  \<^item> \<open>Daemon_Config\<close>, \<open>Daemon_Shutdown\<close>: \<open>networkServerConfigController.ts\<close>, the workflows of
    \<open>networkServerDaemon.ts\<close>, \<open>runtimeUpdateThrottle.ts\<close> and \<open>networkServerDaemonShutdown.ts\<close>. Shown: a
    restarted server has the current configuration, updates are announced within a window, and the
    shutdown cleans up once, with no workflow at work.
  \<^item> \<open>Osc_Scanner\<close>, \<open>Osc_Streams\<close>, \<open>Osc_Directory\<close>: \<open>oscContextFilter.ts\<close> and \<open>osc7Parser.ts\<close> of
    \<open>services/terminal\<close>: the filter of context sequences and the reporter of directories, two instances of
    one locale of scanners called chunk by chunk; the URL parser is a parameter. Shown: whatever the chunks,
    only sequences that have ended or were interrupted are removed, and all of them, as long as none that is
    open at the end of a chunk is longer than \<open>MAX_CARRY\<close> units; reported paths are absolute and normalised.
  \<^item> \<open>Cwd_Tracker\<close>: \<open>services/terminal/cwdTracker.ts\<close>. Shown: every change is delivered or has a flush due,
    unless \<open>reenable\<close> on an enabled session or \<open>dispose\<close> has cancelled the flush; deliveries are an interval apart, and exactly the floods are shut down.
  \<^item> \<open>Terminal_Buffers\<close>: \<open>services/terminal/terminalCaptureBuffer.ts\<close>, \<open>services/scripts/scriptOutputBuffer.ts\<close> and \<open>utils/ansi.ts\<close>.
    Shown: the capture buffer is bounded and holds the last lines, a script that waits for a text finds its first
    occurrence in the whole output behind the last match.
  \<^item> \<open>Text_Units\<close>, \<open>Folder_Paths\<close>: text as UTF-16 code units, and \<open>utils/folderPaths.ts\<close> with what its
    functions are on the segments of a path.
  \<^item> \<open>Profile_Store\<close>, \<open>Profile_Folders\<close>, \<open>Profile_Links\<close>, \<open>Profile_Runs\<close>: \<open>core/nexusCore.ts\<close>. The record \<open>core\<close> is
    the class \<open>NexusCore\<close> with the profiles in memory (\<open>mem\<close>) and on disk (\<open>disk\<close>); which saves succeed is an
    argument. Shown: moving, renaming and removing folders refine operations on a tree of segments;
    deletions leave no dangling link and drop a stamp exactly with its link; memory and disk agree; and two
    runs in which they go wrong.

  \<^item> \<open>Tunnel_Manager\<close>, \<open>Tunnel_Runs\<close>, \<open>Tunnel_Release\<close>, \<open>Tunnel_Leaks\<close>: \<open>services/tunnel/tunnelManager.ts\<close>. The record \<open>tunnel_manager\<close> is the
    class \<open>TunnelManager\<close> with the runtimes its closures keep alive, the sockets and the connections; each
    asynchronous function is cut at its awaits, and \<open>tunnel_act\<close> is one segment or one event. Shown: connections and
    sockets stay tracked, a stopped tunnel holds none, starts, ends and traffic are reported as they happen; and
    when a connection is out of reach of every later \<open>stop\<close>: after a refused forwarding, and when it arrives for
    a closed socket or a start after the tunnel was stopped.
  \<^item> \<open>Tunnel_View\<close>: the listener in \<open>extension.ts\<close> that carries the events of the tunnel manager to the profile
    store, with the objects the two share. Shown: the store has exactly the tunnels that are up, with their totals,
    and does not announce traffic.
  \<^item> \<open>Tunnel_Registry\<close>: \<open>services/tunnel/tunnelRegistrySync.ts\<close>, several windows that read and write one list of
    entries without a lock. Shown: a heartbeat restores what was lost.

  \<^bold>\<open>How they interact.\<close> The TFTP engine uses the packets, sessions and the path guard; a session
  relies on the options settled on the wire. The DHCP engine uses the arithmetic, the lease file
  and the boot options. The daemon runs each request as a workflow of its queue, which calls the
  manager, which calls the adapters; requests and responses pass the line reader and writer. The tunnel
  manager performs the SOCKS5 handshake and reports to the profile store. The other parts stand on
  their own.

  \<^bold>\<open>Conventions.\<close> Bytes are \<open>8 word\<close>, TFTP block numbers \<open>16 word\<close>, IPv4 addresses \<open>32 word\<close> or the signed
  integer JavaScript computes. A thrown error is a value: \<open>Inl\<close>, \<open>None\<close> or a field that records it. A
  JavaScript \<open>Map\<close> is an association list, in insertion order. Time is an argument. Packages
  (the \<open>dhcp\<close> package, the file system, the sockets) are arguments or the environment of the runs.

  \<^bold>\<open>Fuel.\<close> Loops that end for a reason other than structure run on fuel, with a lemma that the fuel given
  is enough: the production of packets (the window bounds it, \<open>produce_bounded\<close>) and the
  promotion of held slots (the length of their list, as each turn removes one). All other loops are
  recursion on a list or on the components of a path.

  \<^bold>\<open>Not modelled.\<close> The host side of the daemon (process management, validation of messages), the
  establishing of SSH, SFTP and serial connections (calls into packages), the inventory synchronisation (with its part
  of the profile store), the user interface (VS Code commands, trees, webviews), the bytes that streams pipe to
  each other, and log messages. Of the scripts
  only the scheduler and the output buffer are modelled: the rest runs user code in worker threads. Of the terminals the telnet
  protocol, the scanners, the capture buffer and the tracker of directories are modelled.
\<close>

end
